(* ===== verification/Prelude.thy ===== *)
theory Prelude
  imports Main "HOL-Library.AList" "HOL-Library.Char_ord" "HOL-Library.List_Lexorder"
    "HOL-Library.Product_Lexorder"
begin

text \<open>
  Shared vocabulary of the development: Python values, insertion-ordered dictionaries, slices,
  order-preserving de-duplication, and the lemma collections the component theories use.
  Strings are lists of characters compared code point by code point (the lexicographic order
  of \<^verbatim>\<open>HOL-Library.List_Lexorder\<close>), as Python compares \<^verbatim>\<open>str\<close>.
\<close>

named_theorems odict_simps \<open>lookups and keys of insertion-ordered dictionaries\<close>
named_theorems slice_simps \<open>Python slices with known bounds\<close>
named_theorems inv_intros \<open>an operation keeps its component's invariant\<close>

section \<open>Searching from the end\<close>

lemma find_SomeD: "find P xs = Some x \<Longrightarrow> x \<in> set xs \<and> P x"
  by (auto simp: find_Some_iff)

lemma find_append: "find P (xs @ ys) = (case find P xs of None \<Rightarrow> find P ys | Some x \<Rightarrow> Some x)"
  by (induction xs) auto

lemma find_rev_SomeD: "find P (rev xs) = Some x \<Longrightarrow> x \<in> set xs \<and> P x"
  by (drule find_SomeD) simp

lemma find_rev_NoneD: "find P (rev xs) = None \<Longrightarrow> \<forall>x \<in> set xs. \<not> P x"
  by (simp add: find_None_iff)

lemma filter_eq_singleton: "distinct xs \<Longrightarrow> set (filter P xs) = {x} \<Longrightarrow> filter P xs = [x]"
proof -
  assume "distinct xs" "set (filter P xs) = {x}"
  then have "distinct (filter P xs)" "length (filter P xs) = 1"
    by (simp_all flip: distinct_card)
  with \<open>set (filter P xs) = {x}\<close> show ?thesis by (auto simp: length_Suc_conv simp del: set_filter)
qed

lemma filter_cut:
  assumes "n \<le> length xs" "\<And>k. k < n \<Longrightarrow> P (xs ! k)" "\<And>k. n \<le> k \<Longrightarrow> k < length xs \<Longrightarrow> \<not> P (xs ! k)"
  shows "filter P xs = take n xs"
proof -
  have "filter P (take n xs) = take n xs"
    using assms(1,2) by (force simp: filter_id_conv in_set_conv_nth)
  moreover have "filter P (drop n xs) = []"
    using assms(1,3) by (force simp: filter_empty_conv in_set_conv_nth)
  ultimately have "filter P (take n xs @ drop n xs) = take n xs" by (simp only: filter_append append_Nil2)
  then show ?thesis by simp
qed

lemma in_set_tlD: "x \<in> set (tl xs) \<Longrightarrow> x \<in> set xs"
  by (cases xs) auto

section \<open>Errors\<close>

text \<open>A call that may raise, followed by the rest of the function.\<close>

fun bind_sum :: "'e + 'a \<Rightarrow> ('a \<Rightarrow> 'e + 'b) \<Rightarrow> 'e + 'b" where
  "bind_sum (Inl e) f = Inl e"
| "bind_sum (Inr x) f = f x"

lemma bind_sum_Inr [simp]: "bind_sum m f = Inr y \<longleftrightarrow> (\<exists>x. m = Inr x \<and> f x = Inr y)"
  by (cases m) auto

lemma bind_sum_Inl: "bind_sum m f = Inl e \<longleftrightarrow> m = Inl e \<or> (\<exists>x. m = Inr x \<and> f x = Inl e)"
  by (cases m) auto

section \<open>Python values\<close>

text \<open>
  JSON-shaped objects, as the code receives them from checkpoints and providers. A finite float is
  \<open>m * 2 ^ e\<close>.
\<close>

datatype pyfloat = Finite int int | Infinite bool | NaN

datatype pyval =
    VNone
  | VBool bool
  | VInt int
  | VFloat pyfloat
  | VStr string
  | VList "pyval list"
  | VDict "(string \<times> pyval) list"

fun truthy :: "pyval \<Rightarrow> bool" where
  "truthy VNone = False"
| "truthy (VBool b) = b"
| "truthy (VInt i) = (i \<noteq> 0)"
| "truthy (VFloat f) = (case f of Finite m e \<Rightarrow> m \<noteq> 0 | _ \<Rightarrow> True)"
| "truthy (VStr s) = (s \<noteq> [])"
| "truthy (VList xs) = (xs \<noteq> [])"
| "truthy (VDict d) = (d \<noteq> [])"

text \<open>\<^verbatim>\<open>x or None\<close> on an optional string: the empty string counts as absent.\<close>

fun non_empty :: "string option \<Rightarrow> string option" where
  "non_empty (Some []) = None"
| "non_empty x = x"

lemma non_empty_eq_Some [simp]: "non_empty x = Some s \<longleftrightarrow> x = Some s \<and> s \<noteq> []"
  by (cases x rule: non_empty.cases) auto

lemma non_empty_eq_None: "non_empty x = None \<longleftrightarrow> x = None \<or> x = Some []"
  by (cases x rule: non_empty.cases) auto

section \<open>Insertion-ordered dictionaries\<close>

text \<open>
  A Python \<^verbatim>\<open>dict\<close> keeps its insertion order, and the code relies on it. It is an association
  list with distinct keys: \<^const>\<open>AList.update\<close> overwrites in place or appends at the end,
  exactly as \<^verbatim>\<open>d[k] = v\<close>, and \<^const>\<open>AList.delete\<close> is \<^verbatim>\<open>d.pop(k, None)\<close>.
\<close>

type_synonym ('k, 'v) odict = "('k \<times> 'v) list"

abbreviation od_wf :: "('k, 'v) odict \<Rightarrow> bool" where
  "od_wf d \<equiv> distinct (map fst d)"

abbreviation od_keys :: "('k, 'v) odict \<Rightarrow> 'k list" where
  "od_keys d \<equiv> map fst d"

abbreviation od_get :: "('k, 'v) odict \<Rightarrow> 'k \<Rightarrow> 'v option" where
  "od_get d k \<equiv> map_of d k"

abbreviation od_set :: "'k \<Rightarrow> 'v \<Rightarrow> ('k, 'v) odict \<Rightarrow> ('k, 'v) odict" where
  "od_set k v d \<equiv> AList.update k v d"

abbreviation od_del :: "'k \<Rightarrow> ('k, 'v) odict \<Rightarrow> ('k, 'v) odict" where
  "od_del k d \<equiv> AList.delete k d"

text \<open>\<^verbatim>\<open>d.get(k, default)\<close>.\<close>

definition od_get_default :: "('k, 'v) odict \<Rightarrow> 'k \<Rightarrow> 'v \<Rightarrow> 'v" where
  "od_get_default d k v = (case od_get d k of None \<Rightarrow> v | Some x \<Rightarrow> x)"

text \<open>\<^verbatim>\<open>d.update(e)\<close>: the entries of the second dictionary are stored in their order.\<close>

definition od_update :: "('k, 'v) odict \<Rightarrow> ('k, 'v) odict \<Rightarrow> ('k, 'v) odict" where
  "od_update d e = foldl (\<lambda>acc (k, v). od_set k v acc) d e"

text \<open>\<^verbatim>\<open>OrderedDict.move_to_end(k)\<close>, for a key that is present.\<close>

definition od_move_to_end :: "'k \<Rightarrow> ('k, 'v) odict \<Rightarrow> ('k, 'v) odict" where
  "od_move_to_end k d = (case od_get d k of None \<Rightarrow> d | Some v \<Rightarrow> od_del k d @ [(k, v)])"

declare update_conv' [odict_simps] delete_conv' [odict_simps]

lemma od_get_default_set [odict_simps]:
  "od_get_default (od_set k v d) j x = (if j = k then v else od_get_default d j x)"
  by (simp add: od_get_default_def update_conv')

lemma od_get_default_del [odict_simps]:
  "od_get_default (od_del k d) j x = (if j = k then x else od_get_default d j x)"
  by (simp add: od_get_default_def delete_conv')

lemma od_keys_set [odict_simps]:
  "od_keys (od_set k v d) = (if k \<in> set (od_keys d) then od_keys d else od_keys d @ [k])"
  by (induction d) auto

lemma od_keys_del [odict_simps]: "od_keys (od_del k d) = removeAll k (od_keys d)"
  by (induction d) (auto simp: AList.delete_eq)

lemma set_keys_set [odict_simps]: "fst ` set (od_set k v d) = insert k (fst ` set d)"
  by (simp add: dom_update)

lemma set_keys_del [odict_simps]: "fst ` set (od_del k d) = fst ` set d - {k}"
  by (auto simp: AList.delete_eq)

lemma set_od_del: "set (od_del k d) = {p \<in> set d. fst p \<noteq> k}"
  by (auto simp: AList.delete_eq)

lemma od_wf_set [simp, intro]: "od_wf d \<Longrightarrow> od_wf (od_set k v d)"
  by (rule distinct_update)

lemma od_wf_del [simp, intro]: "od_wf d \<Longrightarrow> od_wf (od_del k d)"
  by (rule distinct_delete)

lemma od_set_fresh: "k \<notin> set (od_keys d) \<Longrightarrow> od_set k v d = d @ [(k, v)]"
  by (induction d) auto

lemma od_get_None: "od_get d k = None \<longleftrightarrow> k \<notin> set (od_keys d)"
  by (simp add: map_of_eq_None_iff)

lemma od_get_Some_key: "od_get d k = Some v \<Longrightarrow> k \<in> fst ` set d"
  by (force dest: map_of_SomeD)

lemma od_get_rev_key: "od_get (rev d) k = Some v \<Longrightarrow> k \<in> fst ` set d"
  by (force dest: map_of_SomeD)

lemma od_get_mem: "od_wf d \<Longrightarrow> (k, v) \<in> set d \<longleftrightarrow> od_get d k = Some v"
  by simp

lemma set_od_set:
  fixes d :: "('a, 'b) odict"
  assumes wf: "od_wf d"
  shows "set (od_set k v d) = insert (k, v) {p \<in> set d. fst p \<noteq> k}"
proof (rule set_eqI)
  fix p :: "'a \<times> 'b"
  obtain j w where p: "p = (j, w)" by (cases p)
  show "p \<in> set (od_set k v d) \<longleftrightarrow> p \<in> insert (k, v) {p \<in> set d. fst p \<noteq> k}"
    unfolding p od_get_mem [OF od_wf_set [OF wf]] using od_get_mem [OF wf, of j w]
    by (auto simp: update_conv')
qed

lemma od_get_append: "od_get (d @ e) k = (case od_get d k of None \<Rightarrow> od_get e k | Some v \<Rightarrow> Some v)"
  by (auto simp: map_add_def split: option.splits)

lemma length_od_del: "od_wf d \<Longrightarrow> k \<in> set (od_keys d) \<Longrightarrow> Suc (length (od_del k d)) = length d"
proof (induction d)
  case (Cons p d)
  show ?case
  proof (cases "fst p = k")
    case True
    with Cons.prems have "od_del k d = d" by (simp add: AList.delete_idem)
    with True show ?thesis by (cases p) simp
  next
    case False
    with Cons show ?thesis by (cases p) simp
  qed
qed simp

lemma length_od_set:
  "length (od_set k v d) = (if k \<in> set (od_keys d) then length d else Suc (length d))"
  by (induction d) auto

lemma length_without_keys:
  assumes "od_wf d" "distinct ks" "set ks \<subseteq> set (od_keys d)"
  shows "length (filter (\<lambda>kv. fst kv \<notin> set ks) d) + length ks = length d"
proof -
  have "length (filter (\<lambda>kv. fst kv \<in> set ks) d) = card (set (od_keys (filter (\<lambda>kv. fst kv \<in> set ks) d)))"
    using assms(1) distinct_card [of "od_keys (filter (\<lambda>kv. fst kv \<in> set ks) d)"] by (simp add: distinct_map_filter)
  moreover have "set (od_keys (filter (\<lambda>kv. fst kv \<in> set ks) d)) = set ks" using assms(3) by auto
  ultimately have "length (filter (\<lambda>kv. fst kv \<in> set ks) d) = length ks" using assms(2) by (simp add: distinct_card)
  then show ?thesis using sum_length_filter_compl [of "\<lambda>kv. fst kv \<in> set ks" d] by simp
qed

lemma od_get_move_to_end [odict_simps]: "od_get (od_move_to_end k d) j = od_get d j"
  by (auto simp: od_move_to_end_def odict_simps map_add_def split: option.splits)

lemma od_wf_move_to_end [simp, intro]: "od_wf d \<Longrightarrow> od_wf (od_move_to_end k d)"
  by (auto simp: od_move_to_end_def od_keys_del distinct_removeAll split: option.splits)

lemma set_keys_move_to_end [odict_simps]:
  "fst ` set (od_move_to_end k d) = fst ` set d"
  by (force simp: od_move_to_end_def set_keys_del dest: od_get_Some_key split: option.splits)

lemma od_wf_update [simp, intro]: "od_wf d \<Longrightarrow> od_wf (od_update d e)"
  unfolding od_update_def by (induction e arbitrary: d) auto

lemma od_get_update:
  "od_get (od_update d e) k = (case od_get (rev e) k of None \<Rightarrow> od_get d k | Some v \<Rightarrow> Some v)"
proof (induction e arbitrary: d)
  case (Cons p e)
  obtain a b where p: "p = (a, b)" by fastforce
  have "od_update d (p # e) = od_update (od_set a b d) e" by (simp add: od_update_def p)
  then show ?case
    by (simp only: Cons.IH) (auto simp: p update_conv' map_add_def dest: od_get_rev_key split: option.splits)
qed (simp add: od_update_def)

lemma od_update_disjoint:
  "od_wf e \<Longrightarrow> set (od_keys e) \<inter> set (od_keys d) = {} \<Longrightarrow> od_update d e = d @ e"
proof (induction e arbitrary: d)
  case (Cons p e)
  obtain k v where p: "p = (k, v)" by fastforce
  with Cons.prems have "od_set k v d = d @ [(k, v)]" by (simp add: od_set_fresh)
  moreover from Cons.prems p have "od_update (d @ [(k, v)]) e = (d @ [(k, v)]) @ e"
    by (intro Cons.IH) auto
  ultimately show ?case using p by (simp add: od_update_def)
qed (simp add: od_update_def)

lemma map_of_find: "map_of (map (\<lambda>e. (f e, e)) xs) k = find (\<lambda>e. f e = k) xs"
  by (induction xs) auto

lemma remdups_snoc: "remdups (xs @ [x]) = removeAll x (remdups xs) @ [x]"
  by (induction xs) auto

section \<open>Slices\<close>

text \<open>Python clips a slice bound to the list and counts a negative one from the end.\<close>

definition clip_index :: "nat \<Rightarrow> int \<Rightarrow> nat" where
  "clip_index n i = nat (min (int n) (if i < 0 then max 0 (int n + i) else i))"

definition py_upto :: "'a list \<Rightarrow> int \<Rightarrow> 'a list" where  \<comment> \<open>\<^verbatim>\<open>xs[:i]\<close>\<close>
  "py_upto xs i = take (clip_index (length xs) i) xs"

definition py_from :: "'a list \<Rightarrow> int \<Rightarrow> 'a list" where  \<comment> \<open>\<^verbatim>\<open>xs[i:]\<close>\<close>
  "py_from xs i = drop (clip_index (length xs) i) xs"

definition py_slice :: "'a list \<Rightarrow> int \<Rightarrow> int \<Rightarrow> 'a list" where  \<comment> \<open>\<^verbatim>\<open>xs[i:j]\<close>\<close>
  "py_slice xs i j = drop (clip_index (length xs) i) (take (clip_index (length xs) j) xs)"

lemma py_upto_nonneg [slice_simps]: "0 \<le> i \<Longrightarrow> py_upto xs i = take (nat i) xs"
  by (cases "i \<le> int (length xs)") (auto simp: py_upto_def clip_index_def min_def nat_le_iff)

lemma py_from_neg [slice_simps]: "0 < k \<Longrightarrow> py_from xs (- k) = drop (length xs - nat k) xs"
  by (auto simp: py_from_def clip_index_def min_def max_def nat_diff_distrib')

lemma py_from_zero [slice_simps]: "py_from xs 0 = xs"
  by (simp add: py_from_def clip_index_def)

lemma py_from_nonneg: "0 \<le> i \<Longrightarrow> py_from xs i = drop (nat i) xs"
  by (cases "i \<le> int (length xs)") (auto simp: py_from_def clip_index_def min_def nat_le_iff)

lemma py_slice_nonneg: "0 \<le> i \<Longrightarrow> 0 \<le> j \<Longrightarrow> py_slice xs i j = drop (nat i) (take (nat j) xs)"
proof -
  assume i: "0 \<le> i" and j: "0 \<le> j"
  have c: "clip_index n k = min n (nat k)" if "0 \<le> k" for n k
    using that by (auto simp: clip_index_def min_def)
  show ?thesis using i j
    by (auto simp: py_slice_def c min_def)
qed

lemma set_py_upto: "set (py_upto xs i) \<subseteq> set xs"
  by (simp add: py_upto_def set_take_subset)

lemma set_py_from: "set (py_from xs i) \<subseteq> set xs"
  by (simp add: py_from_def set_drop_subset)

section \<open>Order-preserving de-duplication\<close>

text \<open>\<^verbatim>\<open>list(dict.fromkeys(xs))\<close>: the first occurrence of each element, in order.\<close>

definition fromkeys :: "'a list \<Rightarrow> 'a list" where
  "fromkeys xs = foldl (\<lambda>ks x. if x \<in> set ks then ks else ks @ [x]) [] xs"

lemma fromkeys_snoc:
  "fromkeys (xs @ [x]) = (if x \<in> set (fromkeys xs) then fromkeys xs else fromkeys xs @ [x])"
  by (simp add: fromkeys_def)

lemma fromkeys_Nil [simp]: "fromkeys [] = []"
  by (simp add: fromkeys_def)

lemma set_fromkeys [simp]: "set (fromkeys xs) = set xs"
  by (induction xs rule: rev_induct) (auto simp: fromkeys_snoc)

lemma distinct_fromkeys [simp]: "distinct (fromkeys xs)"
  by (induction xs rule: rev_induct) (auto simp: fromkeys_snoc)

lemma fromkeys_distinct: "distinct xs \<Longrightarrow> fromkeys xs = xs"
  by (induction xs rule: rev_induct) (auto simp: fromkeys_snoc)

lemma fromkeys_append:
  "fromkeys (xs @ ys) = fromkeys xs @ filter (\<lambda>y. y \<notin> set xs) (fromkeys ys)"
  by (induction ys rule: rev_induct) (auto simp: fromkeys_snoc simp flip: append_assoc)

lemma fromkeys_append_absorb:
  "fromkeys (fromkeys xs @ ys) = fromkeys (xs @ ys)"
  by (simp add: fromkeys_append fromkeys_distinct)

text \<open>A dictionary filled in a loop, and the list of its keys in first-seen order.\<close>

lemma od_keys_update: "od_keys (od_update d e) = fromkeys (od_keys d @ od_keys e)" if "od_wf d"
  using that
proof (induction e arbitrary: d)
  case Nil
  then show ?case by (simp add: od_update_def fromkeys_distinct)
next
  case (Cons p e)
  obtain k v where p: "p = (k, v)" by fastforce
  have "od_update d (p # e) = od_update (od_set k v d) e" by (simp add: od_update_def p)
  with Cons.IH [of "od_set k v d"] Cons.prems
  have "od_keys (od_update d (p # e)) = fromkeys (od_keys (od_set k v d) @ od_keys e)" by simp
  also have "od_keys (od_set k v d) = fromkeys (od_keys d @ [k])"
    using Cons.prems by (simp add: od_keys_set fromkeys_snoc fromkeys_distinct)
  finally show ?case by (simp add: p fromkeys_append_absorb)
qed

lemma od_update_Nil_right [simp]: "od_update d [] = d"
  by (simp add: od_update_def)

lemma od_update_snoc: "od_update d (e @ [(k, v)]) = od_set k v (od_update d e)"
  by (simp add: od_update_def)

text \<open>Suffixes kept by a cap.\<close>

definition last_n :: "nat \<Rightarrow> 'a list \<Rightarrow> 'a list" where
  "last_n n xs = drop (length xs - n) xs"

lemma length_last_n [simp]: "length (last_n n xs) = min (length xs) n"
  by (simp add: last_n_def)

lemma set_last_n: "set (last_n n xs) \<subseteq> set xs"
  by (simp add: last_n_def set_drop_subset)

lemma map_last_n: "map f (last_n n xs) = last_n n (map f xs)"
  by (simp add: last_n_def drop_map)

lemma distinct_last_n [intro]: "distinct xs \<Longrightarrow> distinct (last_n n xs)"
  by (simp add: last_n_def)

lemma sorted_wrt_last_n [intro]: "sorted_wrt P xs \<Longrightarrow> sorted_wrt P (last_n n xs)"
  by (simp add: last_n_def sorted_wrt_drop)

lemma last_n_all [simp]: "length xs \<le> n \<Longrightarrow> last_n n xs = xs"
  by (simp add: last_n_def)

lemma py_from_last_n [slice_simps]: "0 < n \<Longrightarrow> py_from xs (- int n) = last_n n xs"
  by (simp add: py_from_neg last_n_def)

lemma py_from_last_numeral [slice_simps]: "py_from xs (- numeral k) = last_n (numeral k) xs"
  using py_from_neg [of "numeral k" xs] by (simp add: last_n_def)

lemma last_n_last_n [simp]: "last_n m (last_n n xs) = last_n (min m n) xs"
  by (auto simp: last_n_def min_def intro!: arg_cong2 [where f = drop])

section \<open>Strings\<close>

text \<open>\<^verbatim>\<open>str.isspace\<close> on one code point below 256, and the functions of \<^verbatim>\<open>str\<close> the code uses.\<close>

definition is_space :: "char \<Rightarrow> bool" where
  "is_space c = (let n = (of_char c :: nat) in
     (9 \<le> n \<and> n \<le> 13) \<or> (28 \<le> n \<and> n \<le> 32) \<or> n = 133 \<or> n = 160)"

fun split_ws :: "string \<Rightarrow> string \<Rightarrow> string list" where
  "split_ws [] w = (if w = [] then [] else [rev w])"
| "split_ws (c # cs) w =
     (if is_space c then (if w = [] then split_ws cs [] else rev w # split_ws cs [])
      else split_ws cs (c # w))"

definition py_split :: "string \<Rightarrow> string list" where  \<comment> \<open>\<^verbatim>\<open>s.split()\<close>\<close>
  "py_split s = split_ws s []"

fun py_join :: "string \<Rightarrow> string list \<Rightarrow> string" where  \<comment> \<open>\<^verbatim>\<open>sep.join(xs)\<close>\<close>
  "py_join sep [] = []"
| "py_join sep [x] = x"
| "py_join sep (x # xs) = x @ sep @ py_join sep xs"

definition py_strip :: "string \<Rightarrow> string" where  \<comment> \<open>\<^verbatim>\<open>s.strip()\<close>\<close>
  "py_strip s = rev (dropWhile is_space (rev (dropWhile is_space s)))"

text \<open>Decimal digits: \<^verbatim>\<open>str(n)\<close> of a natural number and \<^verbatim>\<open>int(s)\<close> of a string of digits.\<close>

definition is_digit :: "char \<Rightarrow> bool" where
  "is_digit c = (CHR ''0'' \<le> c \<and> c \<le> CHR ''9'')"

definition digit :: "nat \<Rightarrow> char" where
  "digit d = char_of (48 + d)"

function show_nat :: "nat \<Rightarrow> string" where
  "show_nat n = (if n < 10 then [digit n] else show_nat (n div 10) @ [digit (n mod 10)])"
  by pat_completeness auto

termination
  by (relation "measure id") auto

declare show_nat.simps [simp del]

definition read_nat :: "string \<Rightarrow> nat" where
  "read_nat s = foldl (\<lambda>a c. 10 * a + (of_char c - 48)) 0 s"

lemma of_char_digit: "d < 10 \<Longrightarrow> (of_char (digit d) :: nat) = 48 + d"
  by (simp add: digit_def)

lemma is_digit_iff: "is_digit c \<longleftrightarrow> 48 \<le> (of_char c :: nat) \<and> (of_char c :: nat) \<le> 57"
  by (simp add: is_digit_def less_eq_char_def)

lemma is_digit_digit: "d < 10 \<Longrightarrow> is_digit (digit d)"
  by (simp add: is_digit_iff of_char_digit)

lemma show_nat_digits: "list_all is_digit (show_nat n) \<and> show_nat n \<noteq> []"
proof (induction n rule: show_nat.induct)
  case (1 n)
  show ?case
  proof (cases "n < 10")
    case True
    then show ?thesis by (subst (1 2) show_nat.simps) (simp add: is_digit_digit)
  next
    case False
    with 1 show ?thesis by (subst (1 2) show_nat.simps) (simp add: is_digit_digit)
  qed
qed

lemma read_show_nat [simp]: "read_nat (show_nat n) = n"
proof (induction n rule: show_nat.induct)
  case (1 n)
  show ?case
  proof (cases "n < 10")
    case True
    then show ?thesis by (subst show_nat.simps) (simp add: read_nat_def of_char_digit)
  next
    case False
    with 1 have "read_nat (show_nat (n div 10)) = n div 10" by simp
    with False show ?thesis by (subst show_nat.simps) (simp add: read_nat_def of_char_digit)
  qed
qed

lemma length_show_nat: "n < 10 ^ k \<Longrightarrow> 0 < k \<Longrightarrow> length (show_nat n) \<le> k"
proof (induction n arbitrary: k rule: show_nat.induct)
  case (1 n)
  show ?case
  proof (cases "n < 10")
    case True
    with 1(3) show ?thesis by (subst show_nat.simps) simp
  next
    case False
    then obtain j where j: "k = Suc j" "0 < j" using 1(2,3) by (cases k; cases "k - 1") auto
    with 1(2) have "n div 10 < 10 ^ j" by (simp add: less_mult_imp_div_less mult.commute)
    with 1(1) [OF False this j(2)] False j show ?thesis by (subst show_nat.simps) simp
  qed
qed

section \<open>Stable sorts\<close>

text \<open>
  \<^verbatim>\<open>xs.sort(key=f)\<close> is HOL's stable \<^const>\<open>sort_key\<close>; with \<^verbatim>\<open>reverse=True\<close> Python sorts in
  descending order and still keeps equal elements in their original order.
\<close>

definition sort_desc :: "('a \<Rightarrow> 'k::linorder) \<Rightarrow> 'a list \<Rightarrow> 'a list" where
  "sort_desc f xs = rev (sort_key f (rev xs))"

lemma set_sort_desc [simp]: "set (sort_desc f xs) = set xs"
  by (simp add: sort_desc_def)

lemma length_sort_desc [simp]: "length (sort_desc f xs) = length xs"
  by (simp add: sort_desc_def)

lemma sorted_sort_desc: "sorted_wrt (\<lambda>x y. f y \<le> f x) (sort_desc f xs)"
proof -
  have "sorted_wrt (\<lambda>x y. f x \<le> f y) (sort_key f (rev xs))"
    using sorted_sort_key [of f "rev xs"] by (simp add: sorted_map)
  then show ?thesis by (simp add: sort_desc_def sorted_wrt_rev)
qed

section \<open>Paging by key\<close>

text \<open>
  A page of a feed: the items past a cursor that pass a test, in key order, cut to a length. The
  locale is the contract of a carrier whose items have distinct keys: then the page that starts
  at the last key of the page before continues it exactly.
\<close>

definition feed_page :: "('a \<Rightarrow> 'k::linorder) \<Rightarrow> ('a \<Rightarrow> bool) \<Rightarrow> 'k \<Rightarrow> nat \<Rightarrow> 'a list \<Rightarrow> 'a list" where
  "feed_page key P after n xs = take n (sort_key key (filter (\<lambda>x. P x \<and> after < key x) xs))"

lemma filter_past_take:
  fixes f :: "'a \<Rightarrow> 'k::linorder"
  assumes "sorted_wrt (<) (map f xs)" "0 < m" "xs \<noteq> []"
  shows "filter (\<lambda>x. f (last (take m xs)) < f x) xs = drop m xs"
proof -
  let ?p = "take m xs" and ?q = "drop m xs"
  have ne: "?p \<noteq> []" using assms by simp
  have split: "sorted_wrt (<) (map f ?p)" "\<forall>x \<in> set ?p. \<forall>y \<in> set ?q. f x < f y"
  proof -
    have "sorted_wrt (<) (map f ?p @ map f ?q)"
      unfolding map_append [symmetric] append_take_drop_id using assms by simp
    then show "sorted_wrt (<) (map f ?p)" "\<forall>x \<in> set ?p. \<forall>y \<in> set ?q. f x < f y"
      by (auto simp: sorted_wrt_append)
  qed
  have "\<not> f (last ?p) < f x" if "x \<in> set ?p" for x
  proof -
    have "sorted_wrt (<) (map f (butlast ?p @ [last ?p]))"
      using split(1) by (simp only: append_butlast_last_id [OF ne])
    moreover from that have "x \<in> set (butlast ?p @ [last ?p])"
      by (simp only: append_butlast_last_id [OF ne])
    ultimately have "f x \<le> f (last ?p)" by (auto simp: sorted_wrt_append)
    then show ?thesis by simp
  qed
  then have "filter (\<lambda>x. f (last ?p) < f x) ?p = []" by (simp add: filter_empty_conv)
  moreover have "filter (\<lambda>x. f (last ?p) < f x) ?q = ?q"
    using split(2) ne by (simp add: filter_id_conv)
  ultimately have "filter (\<lambda>x. f (last ?p) < f x) (?p @ ?q) = ?q" by (simp only: filter_append append_Nil)
  then show ?thesis by (simp only: append_take_drop_id)
qed

locale keyset_feed =
  fixes ok :: "'s \<Rightarrow> bool" and items :: "'s \<Rightarrow> 'a list" and key :: "'a \<Rightarrow> 'k::linorder"
  assumes distinct_keys: "ok s \<Longrightarrow> distinct (map key (items s))"
begin

lemma feed_sorted:
  assumes "ok s"
  shows "sorted_wrt (<) (map key (sort_key key (filter P (items s))))"
proof -
  have "distinct (map key (filter P (items s)))"
    using distinct_keys [OF assms] by (rule distinct_map_filter)
  then have "distinct (map key (sort_key key (filter P (items s))))" by (simp add: distinct_map)
  then show ?thesis by (simp add: strict_sorted_iff)
qed

lemma page_continues:
  assumes "ok s" "0 < m" "feed_page key P after m (items s) \<noteq> []"
  shows "feed_page key P after (m + n) (items s) =
    feed_page key P after m (items s)
      @ feed_page key P (key (last (feed_page key P after m (items s)))) n (items s)"
proof -
  let ?Q = "\<lambda>x. P x \<and> after < key x"
  let ?L = "sort_key key (filter ?Q (items s))"
  let ?l = "key (last (take m ?L))"
  have ne: "?L \<noteq> []" using assms(3) by (auto simp: feed_page_def)
  have "last (take m ?L) \<in> set (take m ?L)" using assms(3) by (intro last_in_set) (simp add: feed_page_def)
  then have "last (take m ?L) \<in> set ?L" by (rule in_set_takeD)
  then have "after < ?l" by auto
  then have "filter (\<lambda>x. P x \<and> ?l < key x) (items s) = filter (\<lambda>x. ?l < key x) (filter ?Q (items s))"
    by (auto intro!: filter_cong)
  then have "sort_key key (filter (\<lambda>x. P x \<and> ?l < key x) (items s)) = filter (\<lambda>x. ?l < key x) ?L"
    by (simp add: filter_sort)
  also have "\<dots> = drop m ?L" using feed_sorted [OF assms(1)] assms(2) ne by (rule filter_past_take)
  finally show ?thesis by (simp add: feed_page_def take_add)
qed

lemma page_complete:
  assumes "x \<in> set (items s)" "P x" "after < key x" "length (items s) \<le> n"
  shows "x \<in> set (feed_page key P after n (items s))"
proof -
  have "length (filter (\<lambda>x. P x \<and> after < key x) (items s)) \<le> n"
    using assms(4) length_filter_le le_trans by blast
  with assms show ?thesis by (simp add: feed_page_def)
qed

end

end
