(* ===== verification/ThreadState.thy ===== *)
theory ThreadState
  imports Prelude
begin

text \<open>
  The reducers of the agent's shared state
  (\<^verbatim>\<open>backend/packages/harness/deerflow/agents/thread_state.py\<close>). A graph step returns partial
  updates; the runtime combines each with the stored value of its channel through that channel's
  reducer. An update is \<open>None\<close> when the step did not touch the channel. The message channel has
  its own theory, \<^verbatim>\<open>MessageChannel\<close>; the notebook channel is \<^verbatim>\<open>TaskNotes\<close>.
\<close>

section \<open>The channels\<close>

subsection \<open>Sandbox: idempotent writes only\<close>

record sandbox_state =
  sandbox_id :: "string option"

datatype sandbox_error = ConflictingSandbox "string option" "string option"

definition merge_sandbox ::
  "sandbox_state option \<Rightarrow> sandbox_state option \<Rightarrow> sandbox_error + sandbox_state option" where
  "merge_sandbox existing new =
     (case new of
        None \<Rightarrow> Inr existing
      | Some n \<Rightarrow>
          (case existing of
             None \<Rightarrow> Inr (Some n)
           | Some e \<Rightarrow>
               if sandbox_id e = sandbox_id n then Inr (Some e)
               else Inl (ConflictingSandbox (sandbox_id e) (sandbox_id n))))"

subsection \<open>Artifacts, viewed images, todos and goal\<close>

definition merge_artifacts :: "string list option \<Rightarrow> string list option \<Rightarrow> string list" where
  "merge_artifacts existing new =
     (case existing of
        None \<Rightarrow> (case new of None \<Rightarrow> [] | Some n \<Rightarrow> n)
      | Some e \<Rightarrow> (case new of None \<Rightarrow> e | Some n \<Rightarrow> fromkeys (e @ n)))"

record blob_ref =
  blob_sha256 :: string
  blob_size :: int
  blob_kind :: string
  blob_content_type :: "string option"

record viewed_image =
  vi_mime_type :: string
  vi_size :: int
  vi_actual_path :: string
  vi_sha256 :: string
  vi_source_sandbox_id :: "string option"
  vi_blob_ref :: "blob_ref option"

definition merge_viewed_images ::
  "(string, viewed_image) odict option \<Rightarrow> (string, viewed_image) odict option
     \<Rightarrow> (string, viewed_image) odict" where
  "merge_viewed_images existing new =
     (case existing of
        None \<Rightarrow> (case new of None \<Rightarrow> [] | Some n \<Rightarrow> n)
      | Some e \<Rightarrow>
          (case new of
             None \<Rightarrow> e
           | Some n \<Rightarrow>
               if length n = 0 then []
               else od_update (filter (\<lambda>(key, _). key \<notin> set (od_keys n)) e) n))"

definition merge_todos :: "'a list option \<Rightarrow> 'a list option \<Rightarrow> 'a list option" where
  "merge_todos existing new = (case new of None \<Rightarrow> existing | Some n \<Rightarrow> Some n)"

definition merge_goal :: "'g option \<Rightarrow> 'g option \<Rightarrow> 'g option" where
  "merge_goal existing new = (case new of None \<Rightarrow> existing | Some n \<Rightarrow> Some n)"

subsection \<open>Promoted tools\<close>

text \<open>
  The stored value may be malformed, so its fields are optional: \<open>None\<close> for a missing key, and
  for \<^verbatim>\<open>names\<close> also for a value that is not a list of strings.
\<close>

record promoted_tools =
  pt_catalog_hash :: string
  pt_names :: "string list"
  pt_turn_id :: "string option"

record stored_promoted =
  sp_catalog_hash :: "string option"
  sp_names :: "string list option"
  sp_turn_id :: "string option"

definition stored :: "promoted_tools \<Rightarrow> stored_promoted" where
  "stored p = \<lparr>sp_catalog_hash = Some (pt_catalog_hash p), sp_names = Some (pt_names p),
               sp_turn_id = pt_turn_id p\<rparr>"

definition promoted_replaces :: "stored_promoted option \<Rightarrow> promoted_tools \<Rightarrow> bool" where
  "promoted_replaces existing new =
     (case existing of
        None \<Rightarrow> True
      | Some e \<Rightarrow> sp_catalog_hash e \<noteq> Some (pt_catalog_hash new)
               \<or> (pt_turn_id new \<noteq> None \<and> sp_turn_id e \<noteq> pt_turn_id new))"

definition merge_promoted ::
  "stored_promoted option \<Rightarrow> promoted_tools option \<Rightarrow> stored_promoted option" where
  "merge_promoted existing new =
     (case new of
        None \<Rightarrow> existing
      | Some n \<Rightarrow>
          (let existing_names = (case existing of None \<Rightarrow> []
                                 | Some e \<Rightarrow> (case sp_names e of None \<Rightarrow> [] | Some ns \<Rightarrow> ns));
               names = (if promoted_replaces existing n then pt_names n
                        else existing_names @ pt_names n);
               turn_id = (case pt_turn_id n of
                            Some t \<Rightarrow> Some t
                          | None \<Rightarrow> (case existing of None \<Rightarrow> None | Some e \<Rightarrow> sp_turn_id e))
           in Some (stored \<lparr>pt_catalog_hash = pt_catalog_hash n, pt_names = fromkeys names,
                            pt_turn_id = turn_id\<rparr>)))"

subsection \<open>The delegation ledger\<close>

definition SUBAGENT_STATUS_VALUES :: "string list" where
  "SUBAGENT_STATUS_VALUES =
     [''completed'', ''failed'', ''cancelled'', ''timed_out'', ''polling_timed_out'']"

definition DELEGATION_LEDGER_MAX_ENTRIES :: nat where
  "DELEGATION_LEDGER_MAX_ENTRIES = 50"

record delegation_entry =
  dl_id :: string
  dl_run_id :: "string option"
  dl_description :: string
  dl_subagent_type :: string
  dl_status :: string
  dl_result_brief :: "string option"
  dl_result_sha256 :: "string option"
  dl_result_ref :: "string option"
  dl_stop_reason :: "string option"
  dl_receipt_verdict :: "pyval option"
  dl_acceptance_verdict :: "pyval option"
  dl_created_at :: string

type_synonym dl_key = "string option \<times> string"

definition terminal :: "delegation_entry \<Rightarrow> bool" where
  "terminal e \<longleftrightarrow> dl_status e \<in> set SUBAGENT_STATUS_VALUES"

definition own_key :: "delegation_entry \<Rightarrow> dl_key" where
  "own_key e = (non_empty (dl_run_id e), dl_id e)"

text \<open>A legacy update without a run id addresses the latest entry with its call id.\<close>

definition resolve_key :: "dl_key list \<Rightarrow> delegation_entry \<Rightarrow> dl_key" where
  "resolve_key order e =
     (if fst (own_key e) = None then
        (case find (\<lambda>prior. snd prior = dl_id e) (rev order) of
           Some prior \<Rightarrow> prior
         | None \<Rightarrow> own_key e)
      else own_key e)"

definition carry_over :: "delegation_entry \<Rightarrow> delegation_entry \<Rightarrow> delegation_entry" where
  "carry_over previous e =
     (if dl_created_at previous \<noteq> [] then
        (let e1 = e\<lparr>dl_created_at := dl_created_at previous\<rparr>
         in if non_empty (dl_run_id previous) \<noteq> None \<and> non_empty (dl_run_id e1) = None
            then e1\<lparr>dl_run_id := dl_run_id previous\<rparr> else e1)
      else e)"

type_synonym dl_state = "(dl_key, delegation_entry) odict \<times> dl_key list"

fun ledger_step :: "dl_state \<Rightarrow> delegation_entry \<Rightarrow> dl_state" where
  "ledger_step (by_key, order) e =
     (let key = resolve_key order e
      in case od_get by_key key of
           None \<Rightarrow> (od_set key e by_key, order @ [key])
         | Some previous \<Rightarrow>
             if terminal previous \<and> \<not> terminal e then (by_key, order)
             else (od_set key (carry_over previous e) by_key, order))"

definition ledger_fold :: "dl_state \<Rightarrow> delegation_entry list \<Rightarrow> dl_state" where
  "ledger_fold = foldl ledger_step"

definition merge_delegations ::
  "delegation_entry list option \<Rightarrow> delegation_entry list option \<Rightarrow> delegation_entry list" where
  "merge_delegations existing new =
     (let old = (case existing of None \<Rightarrow> [] | Some l \<Rightarrow> l)
      in case new of
           None \<Rightarrow> old
         | Some [] \<Rightarrow> old
         | Some n \<Rightarrow>
             (let (by_key, order) = ledger_fold ([], []) (old @ n);
                  merged = map (\<lambda>key. the (od_get by_key key)) order
              in if length merged > DELEGATION_LEDGER_MAX_ENTRIES
                 then py_from merged (- int DELEGATION_LEDGER_MAX_ENTRIES) else merged))"


subsection \<open>Skill references\<close>

definition SKILL_CONTEXT_MAX_ENTRIES :: nat where
  "SKILL_CONTEXT_MAX_ENTRIES = 8"

definition SKILL_DESCRIPTION_MAX_CHARS :: nat where
  "SKILL_DESCRIPTION_MAX_CHARS = 500"

record skill_entry =
  sk_name :: string
  sk_path :: string
  sk_description :: string
  sk_loaded_at :: int

text \<open>A persisted entry: the description and the index may hold any value, or be missing
  (\<open>VNone\<close>). Python's \<^verbatim>\<open>bool\<close> is an \<^verbatim>\<open>int\<close>.\<close>

record raw_skill =
  rs_name :: "string option"
  rs_path :: string
  rs_description :: pyval
  rs_loaded_at :: pyval

definition normalize_skill_entry :: "raw_skill \<Rightarrow> skill_entry" where
  "normalize_skill_entry e =
     \<lparr>sk_name = (case rs_name e of None \<Rightarrow> [] | Some n \<Rightarrow> n),
      sk_path = rs_path e,
      sk_description =
        (case rs_description e of
           VStr d \<Rightarrow> take SKILL_DESCRIPTION_MAX_CHARS (py_join '' '' (py_split d))
         | _ \<Rightarrow> []),
      sk_loaded_at =
        (case rs_loaded_at e of VInt i \<Rightarrow> i | VBool b \<Rightarrow> (if b then 1 else 0) | _ \<Rightarrow> 0)\<rparr>"

type_synonym sk_state = "(string, skill_entry) odict \<times> string list"

fun skill_old_step :: "sk_state \<Rightarrow> skill_entry \<Rightarrow> sk_state" where
  "skill_old_step (by_path, order) e =
     (od_set (sk_path e) e by_path,
      if sk_path e \<notin> set (od_keys by_path) then order @ [sk_path e] else order)"

fun skill_new_step :: "sk_state \<Rightarrow> skill_entry \<Rightarrow> sk_state" where
  "skill_new_step (by_path, order) e =
     (od_set (sk_path e) e by_path,
      (if sk_path e \<in> set (od_keys by_path) then remove1 (sk_path e) order else order)
        @ [sk_path e])"

definition merge_skill_context ::
  "raw_skill list option \<Rightarrow> raw_skill list option \<Rightarrow> skill_entry list" where
  "merge_skill_context existing new =
     (let normalized_existing =
            map normalize_skill_entry (case existing of None \<Rightarrow> [] | Some l \<Rightarrow> l)
      in case new of
           None \<Rightarrow> normalized_existing
         | Some [] \<Rightarrow> normalized_existing
         | Some n \<Rightarrow>
             (let (by_path, order) =
                    foldl skill_new_step (foldl skill_old_step ([], []) normalized_existing)
                      (map normalize_skill_entry n);
                  merged = map (\<lambda>path. the (od_get by_path path)) order
              in if length merged > SKILL_CONTEXT_MAX_ENTRIES
                 then py_from merged (- int SKILL_CONTEXT_MAX_ENTRIES) else merged))"

subsection \<open>Captured tool artifacts\<close>

definition ARTIFACT_MAX_ENTRIES_CEILING :: nat where
  "ARTIFACT_MAX_ENTRIES_CEILING = 1000"

text \<open>
  An update is a list of dictionaries: entries carry a \<^verbatim>\<open>handle\<close>, directives an \<^verbatim>\<open>op\<close> and a
  \<^verbatim>\<open>keep\<close>. \<open>NotDict\<close> is any other object; the rest of an entry is \<open>af_body\<close>.
\<close>

record artifact_dict =
  af_handle :: "string option"
  af_op :: "string option"
  af_keep :: "int option"
  af_body :: "(string \<times> pyval) list"

datatype artifact_item = NotDict pyval | Dict artifact_dict

type_synonym af_state = "(string, artifact_dict) odict \<times> string list"

fun artifact_step :: "af_state \<Rightarrow> artifact_item \<Rightarrow> af_state" where
  "artifact_step (by_handle, order) (NotDict _) = (by_handle, order)"
| "artifact_step (by_handle, order) (Dict e) =
     (case af_handle e of
        None \<Rightarrow> (by_handle, order)
      | Some handle \<Rightarrow>
          (od_set handle e by_handle,
           if handle \<notin> set (od_keys by_handle) then order @ [handle] else order))"

text \<open>The last directive of the update decides.\<close>

fun is_trim :: "artifact_item \<Rightarrow> bool" where
  "is_trim (NotDict _) = False"
| "is_trim (Dict e) = (af_op e = Some ''trim_to'')"

fun trim_keep :: "nat \<Rightarrow> artifact_item \<Rightarrow> int" where
  "trim_keep n (NotDict _) = int n"
| "trim_keep n (Dict e) =
     min (case af_keep e of None \<Rightarrow> int n | Some k \<Rightarrow> k) (int ARTIFACT_MAX_ENTRIES_CEILING)"

definition apply_trim :: "artifact_item list \<Rightarrow> artifact_dict list \<Rightarrow> artifact_dict list" where
  "apply_trim new merged =
     (case find is_trim (rev new) of
        None \<Rightarrow> merged
      | Some item \<Rightarrow>
          (let keep = trim_keep (length merged) item
           in if keep < int (length merged) then py_from merged (- keep) else merged))"

definition merge_tool_artifacts ::
  "artifact_item list option \<Rightarrow> artifact_item list option \<Rightarrow> artifact_item list" where
  "merge_tool_artifacts existing new =
     (let old = (case existing of None \<Rightarrow> [] | Some l \<Rightarrow> l)
      in case new of
           None \<Rightarrow> old
         | Some [] \<Rightarrow> old
         | Some n \<Rightarrow>
             (let (by_handle, order) = foldl artifact_step ([], []) (old @ n);
                  merged = apply_trim n (map (\<lambda>handle. the (od_get by_handle handle)) order)
              in map Dict (if length merged > ARTIFACT_MAX_ENTRIES_CEILING
                           then py_from merged (- int ARTIFACT_MAX_ENTRIES_CEILING)
                           else merged)))"


section \<open>The contract of a channel's reducer\<close>

text \<open>
  The runtime folds the updates of a step into the stored value. What it relies on: an update
  that did not touch the channel changes nothing, and every update keeps the channel's
  invariant. A retry-safe channel also absorbs a repeated update.
\<close>

locale channel_reducer =
  fixes merge :: "'s \<Rightarrow> 'u option \<Rightarrow> 's" and ok :: "'s \<Rightarrow> bool" and adm :: "'u \<Rightarrow> bool"
  assumes untouched: "merge s None = s"
    and keeps: "\<lbrakk>ok s; adm u\<rbrakk> \<Longrightarrow> ok (merge s (Some u))"
begin

lemma fold_skips_untouched: "foldl merge s us = foldl merge s (filter (\<lambda>u. u \<noteq> None) us)"
  by (induction us arbitrary: s) (auto simp: untouched)

lemma fold_keeps: "\<lbrakk>ok s; \<And>u. Some u \<in> set us \<Longrightarrow> adm u\<rbrakk> \<Longrightarrow> ok (foldl merge s us)"
proof (induction us arbitrary: s)
  case (Cons u us)
  have "ok (merge s u)" using Cons.prems by (cases u) (auto simp: untouched keeps)
  with Cons show ?case by simp
qed simp

end

locale idempotent_reducer = channel_reducer +
  assumes absorbs: "ok s \<Longrightarrow> merge (merge s (Some u)) (Some u) = merge s (Some u)"
begin

lemma replay_absorbed: "ok s \<Longrightarrow> foldl merge s (replicate (Suc n) (Some u)) = merge s (Some u)"
proof (induction n)
  case (Suc n)
  have "foldl merge s (replicate (Suc (Suc n)) (Some u))
      = merge (foldl merge s (replicate (Suc n) (Some u))) (Some u)"
    by (metis foldl_append foldl_Cons foldl_Nil replicate_append_same replicate_Suc)
  with Suc show ?case by (simp add: absorbs)
qed simp

end

section \<open>Lemmas: the delegation ledger\<close>

definition created :: "delegation_entry \<Rightarrow> bool" where
  "created e \<longleftrightarrow> dl_created_at e \<noteq> []"

text \<open>Legacy keys come before every run-scoped key with the same call id.\<close>

definition legacy_first :: "dl_key list \<Rightarrow> bool" where
  "legacy_first = sorted_wrt (\<lambda>a b. fst b = None \<longrightarrow> snd a \<noteq> snd b)"

definition ledger_wf :: "delegation_entry list \<Rightarrow> bool" where
  "ledger_wf l \<longleftrightarrow> distinct (map own_key l) \<and> legacy_first (map own_key l) \<and> list_all created l"

fun ledger_inv :: "dl_state \<Rightarrow> bool" where
  "ledger_inv (by_key, order) \<longleftrightarrow>
     od_keys by_key = order \<and> distinct order \<and> legacy_first order
     \<and> (\<forall>(k, e) \<in> set by_key. own_key e = k \<and> created e)"

lemma snd_resolve_key [simp]: "snd (resolve_key order e) = dl_id e"
  by (auto simp: resolve_key_def own_key_def dest: find_rev_SomeD split: option.splits)

lemma resolve_key_fresh:
  assumes "resolve_key order e \<notin> set order"
  shows "resolve_key order e = own_key e"
    and "fst (own_key e) = None \<Longrightarrow> dl_id e \<notin> snd ` set order"
  using assms by (fastforce simp: resolve_key_def dest: find_rev_SomeD find_rev_NoneD
      split: option.splits if_splits)+

lemma resolve_key_cases:
  "fst (own_key e) = None \<or> resolve_key order e = own_key e"
  by (simp add: resolve_key_def)

lemma own_key_carry_over:
  assumes p: "own_key p = resolve_key order e" and c: "created p"
  shows "own_key (carry_over p e) = resolve_key order e \<and> created (carry_over p e)"
proof (cases "fst (own_key e) = None")
  case True
  have "fst (own_key (carry_over p e)) = fst (own_key p)"
    using True c by (auto simp: own_key_def carry_over_def created_def Let_def non_empty_eq_None)
  moreover have "snd (own_key (carry_over p e)) = snd (own_key p)"
    using arg_cong [OF p, of snd] by (simp add: own_key_def carry_over_def Let_def)
  moreover have "created (carry_over p e)"
    using c by (simp add: carry_over_def created_def Let_def)
  ultimately show ?thesis using p by (simp add: prod_eq_iff)
next
  case False
  then have "resolve_key order e = own_key e" by (auto simp: resolve_key_def)
  moreover have "own_key (carry_over p e) = own_key e \<and> created (carry_over p e)"
    using False c by (auto simp: own_key_def carry_over_def created_def Let_def non_empty_eq_None)
  ultimately show ?thesis by simp
qed


lemma legacy_first_snoc:
  "legacy_first (ks @ [k]) \<longleftrightarrow>
     legacy_first ks \<and> (fst k = None \<longrightarrow> (\<forall>j \<in> set ks. snd j \<noteq> snd k))"
  by (auto simp add: legacy_first_def sorted_wrt_append)

lemma ledger_inv_key:
  assumes "ledger_inv (b, ord)" and "od_get b k = Some e"
  shows "k \<in> set ord \<and> own_key e = k \<and> created e"
  using assms by (force dest!: map_of_SomeD)

lemma ledger_inv_set:
  assumes inv: "ledger_inv (b, ord)" and "od_get b k = Some p"
    and "own_key e = k" and "created e"
  shows "ledger_inv (od_set k e b, ord)"
proof -
  from assms have k: "k \<in> set (od_keys b)" by (force dest: od_get_Some_key)
  have "set (od_set k e b) \<subseteq> insert (k, e) (set b)"
    by (induction b) auto
  with assms k show ?thesis by (auto simp: od_keys_set)
qed


lemma ledger_inv_append:
  assumes "ledger_inv (b, ord)" and "od_get b k = None" and "k = resolve_key ord e"
    and "created e"
  shows "ledger_inv (od_set k e b, ord @ [k])"
proof -
  from assms have k: "k \<notin> set ord" by (auto simp: od_get_None)
  with resolve_key_fresh [of ord e] assms(3)
  have own: "k = own_key e" and leg: "fst k = None \<Longrightarrow> dl_id e \<notin> snd ` set ord" by auto
  from assms k have b: "od_set k e b = b @ [(k, e)]" by (intro od_set_fresh) auto
  from leg own have "fst k = None \<longrightarrow> (\<forall>j \<in> set ord. snd j \<noteq> snd k)"
    by (force simp: own_key_def)
  with assms(1) have "legacy_first (ord @ [k])" by (simp add: legacy_first_snoc)
  with assms k b own show ?thesis by auto
qed

lemma ledger_step_inv:
  assumes "ledger_inv s" and "created e" shows "ledger_inv (ledger_step s e)"
proof -
  obtain b ord where s: "s = (b, ord)" by fastforce
  show ?thesis
  proof (cases "od_get b (resolve_key ord e)")
    case None
    with assms s ledger_inv_append [OF _ None refl] show ?thesis
      by (simp add: Let_def del: ledger_inv.simps)
  next
    case (Some p)
    from assms(1) Some s have p: "own_key p = resolve_key ord e" "created p"
      using ledger_inv_key by blast+
    from own_key_carry_over [OF p] assms(1) s Some
    have "ledger_inv (od_set (resolve_key ord e) (carry_over p e) b, ord)"
      by (intro ledger_inv_set) auto
    with assms s Some show ?thesis by (auto simp del: ledger_inv.simps)
  qed
qed

lemma ledger_fold_inv:
  "ledger_inv s \<Longrightarrow> list_all created es \<Longrightarrow> ledger_inv (ledger_fold s es)"
  by (induction es arbitrary: s)
    (auto simp: ledger_fold_def ledger_step_inv simp del: ledger_inv.simps ledger_step.simps)

lemma ledger_fold_wf:
  "ledger_wf l \<Longrightarrow> ledger_fold ([], []) l = (map (\<lambda>e. (own_key e, e)) l, map own_key l)"
proof (induction l rule: rev_induct)
  case (snoc e l)
  then have wf: "ledger_wf l" and fresh: "own_key e \<notin> own_key ` set l"
    and leg: "fst (own_key e) = None \<Longrightarrow> dl_id e \<notin> snd ` own_key ` set l"
    by (auto simp: ledger_wf_def legacy_first_snoc own_key_def)
  have "resolve_key (map own_key l) e = own_key e"
  proof (cases "find (\<lambda>prior. snd prior = dl_id e) (rev (map own_key l))")
    case None
    then show ?thesis by (simp add: resolve_key_def)
  next
    case (Some k)
    from find_rev_SomeD [OF Some] leg show ?thesis by (force simp: resolve_key_def)
  qed
  moreover have "od_get (map (\<lambda>e. (own_key e, e)) l) (own_key e) = None"
    using fresh by (force simp: od_get_None)
  ultimately show ?case
    using fresh snoc.IH [OF wf]
    by (simp add: ledger_fold_def Let_def od_set_fresh image_image)
qed (simp add: ledger_fold_def)

lemma ledger_inv_merged:
  assumes "ledger_inv (b, ord)"
  shows "map (\<lambda>k. the (od_get b k)) ord = map snd b"
proof -
  from assms have ord: "ord = map fst b" and d: "distinct (map fst b)" by auto
  from d show ?thesis by (auto simp: ord intro!: map_cong)
qed

lemma terminal_step:
  assumes "od_get (fst s) k = Some p" and "terminal p"
  shows "\<exists>p'. od_get (fst (ledger_step s e)) k = Some p' \<and> terminal p'"
proof -
  obtain b ord where s: "s = (b, ord)" by fastforce
  have "terminal (carry_over p e) = terminal e" for p
    by (simp add: terminal_def carry_over_def Let_def)
  with assms s show ?thesis
    by (cases "od_get b (resolve_key ord e)"; cases "k = resolve_key ord e")
      (auto simp: update_conv' Let_def)
qed

lemma terminal_fold:
  "od_get (fst s) k = Some p \<Longrightarrow> terminal p \<Longrightarrow>
     \<exists>p'. od_get (fst (ledger_fold s es)) k = Some p' \<and> terminal p'"
proof (induction es arbitrary: s p)
  case (Cons e es)
  from terminal_step [OF Cons.prems] obtain p' where
    "od_get (fst (ledger_step s e)) k = Some p'" "terminal p'" by blast
  from Cons.IH [OF this] show ?case by (simp add: ledger_fold_def)
qed (simp add: ledger_fold_def)

text \<open>What the reducer computes, once the fold is known to keep its invariant.\<close>

lemma merge_delegations_fold:
  assumes "list_all created old" and "list_all created new" and "new \<noteq> []"
  shows "merge_delegations (Some old) (Some new)
           = last_n 50 (map snd (fst (ledger_fold ([], []) (old @ new))))"
proof -
  obtain b ord where f: "ledger_fold ([], []) (old @ new) = (b, ord)" by fastforce
  have "ledger_inv (b, ord)"
    using ledger_fold_inv [of "([], [])" "old @ new"] assms f by (auto simp: legacy_first_def)
  then have m: "map (\<lambda>k. the (od_get b k)) ord = map snd b" by (rule ledger_inv_merged)
  from assms(3) obtain n ns where n: "new = n # ns" by (cases new) auto
  show ?thesis
    using f m n map_eq_imp_length_eq [OF m]
    by (simp add: merge_delegations_def DELEGATION_LEDGER_MAX_ENTRIES_def Let_def slice_simps)
qed

lemma ledger_inv_wf: "ledger_inv (b, ord) \<Longrightarrow> ledger_wf (last_n n (map snd b))"
proof -
  assume inv: "ledger_inv (b, ord)"
  then have "map own_key (map snd b) = map fst b" by force
  then have "map own_key (last_n n (map snd b)) = last_n n (map fst b)"
    by (metis map_last_n)
  with inv show ?thesis
    by (auto simp: ledger_wf_def legacy_first_def list_all_iff dest!: set_last_n [THEN subsetD])
      fastforce
qed
 

lemma merge_delegations_Nil [simp]: "merge_delegations (Some old) (Some []) = old"
  by (simp add: merge_delegations_def)

lemma merge_delegations_None [simp]: "merge_delegations (Some old) None = old"
  by (simp add: merge_delegations_def)

lemma merge_delegations_ok:
  assumes "ledger_wf old" and "length old \<le> 50" and "list_all created new"
  shows "ledger_wf (merge_delegations (Some old) (Some new))
         \<and> length (merge_delegations (Some old) (Some new)) \<le> 50"
proof (cases "new = []")
  case False
  have c: "list_all created old" using assms(1) by (simp add: ledger_wf_def)
  obtain b ord where f: "ledger_fold ([], []) (old @ new) = (b, ord)" by fastforce
  have "ledger_inv (b, ord)"
    using ledger_fold_inv [of "([], [])" "old @ new"] c assms(3) f by (auto simp: legacy_first_def)
  then have "ledger_wf (last_n 50 (map snd b))" by (rule ledger_inv_wf)
  with merge_delegations_fold [OF c assms(3) False] f show ?thesis by simp
qed (use assms in simp)

section \<open>Lemmas: skills, artifacts, promotions\<close>

definition latest :: "('a \<Rightarrow> string) \<Rightarrow> 'a list \<Rightarrow> string \<Rightarrow> 'a" where
  "latest key es k = the (find (\<lambda>e. key e = k) (rev es))"

lemma od_get_by_key:
  "od_get (od_update [] (map (\<lambda>e. (key e, e)) es)) k = find (\<lambda>e. key e = k) (rev es)"
  by (simp add: od_get_update rev_map map_of_find split: option.splits)

lemma skill_old_fold:
  "foldl skill_old_step ([], []) es
     = (od_update [] (map (\<lambda>e. (sk_path e, e)) es), fromkeys (map sk_path es))"
proof (induction es rule: rev_induct)
  case (snoc e es)
  then show ?case
    using od_keys_update [of "[]" "map (\<lambda>e. (sk_path e, e)) es"]
    by (simp add: od_update_snoc fromkeys_snoc comp_def)
qed simp

lemma skill_new_fold:
  assumes "od_keys b = ord" and "distinct ord"
  shows "foldl skill_new_step (b, ord) es
     = (od_update b (map (\<lambda>e. (sk_path e, e)) es),
        filter (\<lambda>p. p \<notin> sk_path ` set es) ord @ remdups (map sk_path es))"
proof (induction es rule: rev_induct)
  case (snoc e es)
  let ?b = "od_update b (map (\<lambda>e. (sk_path e, e)) es)"
  let ?o = "filter (\<lambda>p. p \<notin> sk_path ` set es) ord @ remdups (map sk_path es)"
  have "set (od_keys ?b) = set ?o"
    using od_keys_update [of b "map (\<lambda>e. (sk_path e, e)) es"] assms by (auto simp: comp_def)
  moreover have "distinct ?o" using assms by auto
  ultimately have "snd (skill_new_step (?b, ?o) e) = removeAll (sk_path e) ?o @ [sk_path e]"
    by (auto simp: distinct_remove1_removeAll removeAll_id simp del: remove1_append removeAll_append)
  with snoc show ?case
    by (auto simp: od_update_snoc remdups_snoc removeAll_filter_not_eq intro!: filter_cong)
qed simp


text \<open>Skills: old paths in first-read order, then the new reads by recency, capped.\<close>

definition skill_order :: "string list \<Rightarrow> string list \<Rightarrow> string list" where
  "skill_order old new = filter (\<lambda>p. p \<notin> set new) (fromkeys old) @ remdups new"

lemma distinct_skill_order [simp]: "distinct (skill_order old new)"
  by (auto simp: skill_order_def)

lemma set_skill_order [simp]: "set (skill_order old new) = set old \<union> set new"
  by (auto simp: skill_order_def)

lemma merge_skill_context_latest:
  fixes old new
  defines "o' \<equiv> map normalize_skill_entry old" and "n' \<equiv> map normalize_skill_entry new"
  assumes "new \<noteq> []"
  shows "merge_skill_context (Some old) (Some new)
    = map (latest sk_path (o' @ n')) (last_n 8 (skill_order (map sk_path o') (map sk_path n')))"
proof -
  let ?kv = "\<lambda>es. map (\<lambda>e. (sk_path e, e)) es"
  have "od_keys (od_update [] (?kv o')) = fromkeys (map sk_path o')"
    using od_keys_update [of "[]" "?kv o'"] by (simp add: comp_def)
  then have f: "foldl skill_new_step (foldl skill_old_step ([], []) o') n'
      = (od_update [] (?kv (o' @ n')), skill_order (map sk_path o') (map sk_path n'))"
    by (subst skill_old_fold, subst skill_new_fold) (auto simp: skill_order_def od_update_def)
  have l: "(\<lambda>p. the (od_get (od_update [] (?kv (o' @ n'))) p)) = latest sk_path (o' @ n')"
    by (simp only: od_get_by_key latest_def fun_eq_iff simp_thms)
  obtain x xs where "new = x # xs" using assms(3) by (cases new) auto
  then show ?thesis
    using f l by (simp add: merge_skill_context_def o'_def n'_def Let_def
        SKILL_CONTEXT_MAX_ENTRIES_def slice_simps map_last_n)
qed

lemma sk_path_normalize [simp]: "sk_path (normalize_skill_entry e) = rs_path e"
  by (simp add: normalize_skill_entry_def)

lemma key_latest: "k \<in> key ` set es \<Longrightarrow> key (latest key es k) = k \<and> latest key es k \<in> set es"
  unfolding latest_def
  by (cases "find (\<lambda>e. key e = k) (rev es)") (auto dest: find_rev_SomeD find_rev_NoneD)

lemma latest_snoc [simp]: "latest key (es @ [e]) (key e) = e"
  by (simp add: latest_def)

text \<open>Artifacts: the latest version of every handle, in first-seen order.\<close>

fun handled :: "artifact_item list \<Rightarrow> artifact_dict list" where
  "handled [] = []"
| "handled (NotDict _ # is) = handled is"
| "handled (Dict e # is) = (if af_handle e = None then handled is else e # handled is)"

abbreviation handle_of :: "artifact_dict \<Rightarrow> string" where
  "handle_of e \<equiv> the (af_handle e)"

definition latest_artifacts :: "artifact_item list \<Rightarrow> artifact_dict list" where
  "latest_artifacts is =
     map (latest handle_of (handled is)) (fromkeys (map handle_of (handled is)))"

lemma handled_append [simp]: "handled (is @ js) = handled is @ handled js"
  by (induction "is" rule: handled.induct) auto

lemma artifact_fold:
  "foldl artifact_step ([], []) is
     = (od_update [] (map (\<lambda>e. (handle_of e, e)) (handled is)),
        fromkeys (map handle_of (handled is)))"
proof (induction "is" rule: rev_induct)
  case (snoc i "is")
  then show ?case
    using od_keys_update [of "[]" "map (\<lambda>e. (handle_of e, e)) (handled is)"]
    by (cases i) (auto simp: od_update_snoc fromkeys_snoc comp_def split: option.splits)
qed simp

lemma merge_tool_artifacts_latest:
  assumes "new \<noteq> []"
  shows "merge_tool_artifacts (Some old) (Some new)
    = map Dict (last_n 1000 (apply_trim new (latest_artifacts (old @ new))))"
proof -
  obtain x xs where n: "new = x # xs" using assms by (cases new) auto
  have m: "map (\<lambda>h. the (od_get (od_update [] (map (\<lambda>e. (handle_of e, e)) (handled is))) h))
      (fromkeys (map handle_of (handled is))) = latest_artifacts is" for "is"
    by (simp only: od_get_by_key latest_artifacts_def latest_def [abs_def])
  show ?thesis
    using m [of "old @ new"] artifact_fold [of "old @ new"]
    by (simp add: merge_tool_artifacts_def n Let_def ARTIFACT_MAX_ENTRIES_CEILING_def
        slice_simps del: handled_append)
qed


section \<open>The reducers satisfy the contract\<close>

interpretation artifacts: idempotent_reducer "\<lambda>e n. merge_artifacts (Some e) n" "\<lambda>e. distinct e"
  "\<lambda>n. True"
  by unfold_locales
    (auto simp: merge_artifacts_def fromkeys_append fromkeys_distinct filter_empty_conv)

interpretation viewed_images: channel_reducer "\<lambda>e n. merge_viewed_images (Some e) n" od_wf od_wf
  by unfold_locales (auto simp: merge_viewed_images_def distinct_map_filter)

interpretation todos: idempotent_reducer merge_todos "\<lambda>s. True" "\<lambda>n. True"
  by unfold_locales (auto simp: merge_todos_def)

interpretation goal: idempotent_reducer merge_goal "\<lambda>s. True" "\<lambda>n. True"
  by unfold_locales (auto simp: merge_goal_def)

interpretation promoted: channel_reducer merge_promoted
  "\<lambda>s. s = None \<or> (\<exists>p. s = Some (stored p) \<and> distinct (pt_names p))" "\<lambda>n. True"
  by unfold_locales (auto simp: merge_promoted_def Let_def)

interpretation delegations: channel_reducer "\<lambda>l u. merge_delegations (Some l) u"
  "\<lambda>l. ledger_wf l \<and> length l \<le> 50" "list_all created"
  by unfold_locales (use merge_delegations_ok in auto)

section \<open>Properties\<close>

text \<open>
  C35. The delegation ledger stays well formed over a whole history of updates: folding any
  sequence of steps into a well-formed ledger leaves at most 50 entries, with distinct
  (run, call) keys and legacy entries before run-scoped ones of the same call id.
\<close>

theorem delegation_ledger_invariant:
  assumes "ledger_wf l" and "length l \<le> 50"
    and "\<And>u. Some u \<in> set us \<Longrightarrow> list_all created u"
  shows "ledger_wf (foldl (\<lambda>l u. merge_delegations (Some l) u) l us)
         \<and> length (foldl (\<lambda>l u. merge_delegations (Some l) u) l us) \<le> 50"
  using delegations.fold_keeps [of l us] assms by blast

definition example_delegation :: "string \<Rightarrow> string \<Rightarrow> delegation_entry" where
  "example_delegation status when =
     \<lparr>dl_id = ''call_1'', dl_run_id = Some ''run_a'', dl_description = ''d'',
      dl_subagent_type = ''general'', dl_status = status, dl_result_brief = None,
      dl_result_sha256 = None, dl_result_ref = None, dl_stop_reason = None,
      dl_receipt_verdict = None, dl_acceptance_verdict = None, dl_created_at = when\<rparr>"

lemma delegation_ledger_invariant_witness:
  "ledger_wf (foldl (\<lambda>l u. merge_delegations (Some l) u) []
      [Some [example_delegation ''in_progress'' ''t0''], None,
       Some [example_delegation ''completed'' ''t1'']])"
  by (rule delegation_ledger_invariant [THEN conjunct1])
    (auto simp: ledger_wf_def legacy_first_def created_def example_delegation_def)

text \<open>
  C17. A finished delegation never goes back to a live status: if the stored ledger holds a
  terminal entry, then after any update every entry with the same key is terminal.
\<close>

theorem terminal_delegation_is_final:
  assumes "ledger_wf old" and "list_all created new"
    and "e \<in> set old" and "terminal e"
    and "e' \<in> set (merge_delegations (Some old) (Some new))" and "own_key e' = own_key e"
  shows "terminal e'"
proof (cases "new = []")
  case True
  with assms have "e' \<in> set old" by simp
  with assms have "e' = e" by (auto simp: ledger_wf_def distinct_map dest: inj_onD)
  with assms show ?thesis by simp
next
  case False
  let ?s = "ledger_fold ([], []) old"
  have c: "list_all created old" using assms(1) by (simp add: ledger_wf_def)
  have "od_get (fst ?s) (own_key e) = Some e"
    using assms(1,3) by (simp add: ledger_fold_wf)
      (auto simp: ledger_wf_def distinct_map inj_on_def comp_def intro!: map_of_is_SomeI)
  from terminal_fold [OF this assms(4)] obtain p where
    p: "od_get (fst (ledger_fold ?s new)) (own_key e) = Some p" "terminal p" by blast
  obtain b ord where f: "ledger_fold ([], []) (old @ new) = (b, ord)" by fastforce
  then have b: "ledger_fold ?s new = (b, ord)" by (simp add: ledger_fold_def)
  have inv: "ledger_inv (b, ord)"
    using ledger_fold_inv [of "([], [])" "old @ new"] c assms(2) f by (auto simp: legacy_first_def)
  from assms(5) f have "e' \<in> snd ` set b"
    by (auto simp: merge_delegations_fold [OF c assms(2) False] dest!: set_last_n [THEN subsetD])
  with inv have "od_get b (own_key e') = Some e'" by (force simp: inv)
  with p b assms(6) show ?thesis by simp
qed

lemma terminal_delegation_is_final_witness:
  "terminal (hd (merge_delegations (Some [example_delegation ''completed'' ''t0''])
                   (Some [example_delegation ''in_progress'' ''t1''])))"
  by (rule terminal_delegation_is_final
      [of "[example_delegation ''completed'' ''t0'']" "[example_delegation ''in_progress'' ''t1'']"
          "example_delegation ''completed'' ''t0''"]) code_simp+

text \<open>
  The skill-context channel keeps exactly the most recent eight skills: after an update the
  entries are, in order, the previously read paths that the update does not mention, followed
  by the update's paths by last read, cut to the last eight, each carrying its latest reference.
\<close>

theorem skill_context_most_recent:
  assumes "new \<noteq> []"
  shows "map sk_path (merge_skill_context (Some old) (Some new))
           = last_n 8 (skill_order (map rs_path old) (map rs_path new))
         \<and> (\<forall>e \<in> set (merge_skill_context (Some old) (Some new)).
              e = latest sk_path (map normalize_skill_entry (old @ new)) (sk_path e))"
proof -
  let ?es = "map normalize_skill_entry (old @ new)"
  let ?ps = "last_n 8 (skill_order (map rs_path old) (map rs_path new))"
  have m: "merge_skill_context (Some old) (Some new) = map (latest sk_path ?es) ?ps"
    using merge_skill_context_latest [OF assms, of old] by (simp add: comp_def)
  have k: "sk_path (latest sk_path ?es p) = p" if "p \<in> set ?ps" for p
  proof -
    have "p \<in> sk_path ` set ?es"
      using subsetD [OF set_last_n that] by (auto simp: image_image image_Un)
    then show ?thesis by (rule key_latest [THEN conjunct1])
  qed
  then show ?thesis unfolding m by (simp add: comp_def map_idI)
qed

definition example_skill :: "string \<Rightarrow> raw_skill" where
  "example_skill p = \<lparr>rs_name = Some p, rs_path = p, rs_description = VStr '' a  b '',
                      rs_loaded_at = VInt 3\<rparr>"

lemma skill_context_most_recent_witness:
  "map sk_path (merge_skill_context (Some [example_skill ''a'', example_skill ''b''])
                  (Some [example_skill ''c'', example_skill ''a'']))
     = [''b'', ''c'', ''a'']"
proof -
  have "last_n 8 (skill_order (map rs_path [example_skill ''a'', example_skill ''b''])
                   (map rs_path [example_skill ''c'', example_skill ''a'']))
        = [''b'', ''c'', ''a'']"
    by code_simp
  then show ?thesis
    using skill_context_most_recent [of "[example_skill ''c'', example_skill ''a'']"
        "[example_skill ''a'', example_skill ''b'']"] by simp
qed

text \<open>
  A trim directive makes the artifact registry a sliding window: the registry then holds
  the newest \<open>keep\<close> handles (never more than 1000), each in its latest version and in
  first-seen order. A \<open>keep\<close> of zero trims nothing, because \<^verbatim>\<open>merged[-0:]\<close> is the whole list.
\<close>

theorem artifact_window:
  assumes "find is_trim (rev new) = Some (Dict d)" and "af_keep d = Some keep" and "0 \<le> keep"
  shows "merge_tool_artifacts (Some old) (Some new)
    = map Dict (last_n (if keep = 0 then 1000 else min (nat keep) 1000)
                  (latest_artifacts (old @ new)))"
proof -
  have "new \<noteq> []" using assms(1) by auto
  moreover have "apply_trim new xs = (if keep = 0 then xs else last_n (min (nat keep) 1000) xs)" for xs
  proof (cases "keep = 0")
    case True
    then show ?thesis using assms
      by (simp add: apply_trim_def Let_def ARTIFACT_MAX_ENTRIES_CEILING_def slice_simps)
  next
    case False
    define k where "k = min keep 1000"
    have "0 < k" using False assms(3) by (simp add: k_def)
    moreover have "nat k = min (nat keep) 1000" using assms(3) by (auto simp: k_def min_def nat_le_iff)
    moreover have "length xs \<le> nat k" if "\<not> k < int (length xs)"
      using that by (simp add: le_nat_iff)
    ultimately show ?thesis
      using assms False py_from_neg [of k xs]
      by (simp add: apply_trim_def Let_def ARTIFACT_MAX_ENTRIES_CEILING_def last_n_def
          flip: k_def)
  qed
  ultimately show ?thesis by (auto simp: merge_tool_artifacts_latest min_def)
qed

definition example_artifact :: "string \<Rightarrow> artifact_item" where
  "example_artifact h = Dict \<lparr>af_handle = Some h, af_op = None, af_keep = None, af_body = []\<rparr>"

definition example_trim :: "int \<Rightarrow> artifact_dict" where
  "example_trim n = \<lparr>af_handle = None, af_op = Some ''trim_to'', af_keep = Some n, af_body = []\<rparr>"

lemma artifact_window_witness:
  "merge_tool_artifacts (Some [example_artifact ''a'', example_artifact ''b''])
     (Some [example_artifact ''c'', Dict (example_trim 2)])
   = map Dict (last_n (min 2 1000) (latest_artifacts
       [example_artifact ''a'', example_artifact ''b'', example_artifact ''c'',
        Dict (example_trim 2)]))"
  using artifact_window [of "[example_artifact ''c'', Dict (example_trim 2)]" "example_trim 2" 2
      "[example_artifact ''a'', example_artifact ''b'']"]
  by (simp add: example_trim_def example_artifact_def)

text \<open>
  A thread never switches its sandbox silently: folding an update either keeps the stored
  sandbox id or fails, and it fails exactly on a different id.
\<close>

theorem sandbox_never_switches:
  "merge_sandbox (Some e) (Some n)
     = (if sandbox_id e = sandbox_id n then Inr (Some e)
        else Inl (ConflictingSandbox (sandbox_id e) (sandbox_id n)))
   \<and> merge_sandbox (Some e) None = Inr (Some e)
   \<and> merge_sandbox None u = Inr u"
  by (cases u) (simp_all add: merge_sandbox_def)

end
