(* ===== verification/MessageChannel.thy ===== *)
theory MessageChannel
  imports Prelude
begin

text \<open>
  The message channel (\<^verbatim>\<open>merge_message_writes\<close> in
  \<^verbatim>\<open>backend/packages/harness/deerflow/agents/thread_state.py\<close>): the fold of a step's writes into the
  conversation. The code keeps two position indices so that the fold is linear; the reference
  definition here works on the plain list and searches it afresh for every message. The theory
  proves that the two agree, and that the result does not depend on how the writes are batched,
  which is what the delta channel relies on when it replays writes from a snapshot.
  A message that arrives without an id is given one: \<open>fresh n\<close> stands for the \<open>n\<close>-th
  \<^verbatim>\<open>uuid.uuid4()\<close> drawn, and the fold threads the counter. Coercion of foreign message shapes
  (\<^verbatim>\<open>convert_to_messages\<close>) belongs to a third-party package; the model starts from its result.
  The marker id \<^verbatim>\<open>REMOVE_ALL_MESSAGES\<close> belongs to it too, and is the parameter \<open>ra\<close>.
\<close>

section \<open>Data\<close>

record raw_msg =
  rm_id :: "string option"
  rm_remove :: bool   \<comment> \<open>a \<^verbatim>\<open>RemoveMessage\<close>\<close>
  rm_body :: pyval

record msg =
  m_id :: string
  m_remove :: bool
  m_body :: pyval

definition raw :: "msg \<Rightarrow> raw_msg" where
  "raw m = \<lparr>rm_id = Some (m_id m), rm_remove = m_remove m, rm_body = m_body m\<rparr>"

text \<open>A write is null, one message, or a list of messages.\<close>

datatype msg_write = NullWrite | Single raw_msg | Batch "raw_msg list"

text \<open>\<open>NullWriteError b\<close>: the message names \<^verbatim>\<open>left\<close> when \<open>b\<close> and \<^verbatim>\<open>right\<close> otherwise.\<close>

datatype msg_error = NullWriteError bool | DeleteMissing string | KeyError string

section \<open>The code's fold\<close>

fun normalize_messages :: "(nat \<Rightarrow> string) \<Rightarrow> nat \<Rightarrow> raw_msg list \<Rightarrow> msg list \<times> nat" where
  "normalize_messages fresh n [] = ([], n)"
| "normalize_messages fresh n (r # rs) =
     (let (i, n1) = (case rm_id r of Some i \<Rightarrow> (i, n) | None \<Rightarrow> (fresh n, Suc n));
          (ms, n2) = normalize_messages fresh n1 rs
      in (\<lparr>m_id = i, m_remove = rm_remove r, m_body = rm_body r\<rparr> # ms, n2))"

type_synonym positions = "(string, nat) odict \<times> (string, nat list) odict"

fun index_messages :: "nat \<Rightarrow> msg option list \<Rightarrow> positions \<Rightarrow> positions" where
  "index_messages position [] idx = idx"
| "index_messages position (None # ms) idx = index_messages (Suc position) ms idx"
| "index_messages position (Some m # ms) (latest_position, positions_by_id) =
     index_messages (Suc position) ms
       (od_set (m_id m) position latest_position,
        od_set (m_id m) (od_get_default positions_by_id (m_id m) [] @ [position]) positions_by_id)"

type_synonym fold_state = "msg option list \<times> (string, nat) odict \<times> (string, nat list) odict"

fun write_items ::
  "msg list \<Rightarrow> fold_state \<Rightarrow> string list \<Rightarrow> msg_error + (fold_state \<times> string list)" where
  "write_items [] s ids_to_remove = Inr (s, ids_to_remove)"
| "write_items (m # ms) (messages, latest_position, positions_by_id) ids_to_remove =
     (case od_get latest_position (m_id m) of
        Some existing_position \<Rightarrow>
          if m_remove m
          then write_items ms (messages, latest_position, positions_by_id)
                 (List.insert (m_id m) ids_to_remove)
          else write_items ms (messages[existing_position := Some m], latest_position, positions_by_id)
                 (removeAll (m_id m) ids_to_remove)
      | None \<Rightarrow>
          if m_remove m then Inl (DeleteMissing (m_id m))
          else write_items ms
                 (messages @ [Some m],
                  od_set (m_id m) (length messages) latest_position,
                  od_set (m_id m) [length messages] positions_by_id)
                 ids_to_remove)"

fun drop_ids :: "string list \<Rightarrow> fold_state \<Rightarrow> msg_error + fold_state" where
  "drop_ids [] s = Inr s"
| "drop_ids (i # is) (messages, latest_position, positions_by_id) =
     (case od_get positions_by_id i of
        None \<Rightarrow> Inl (KeyError i)
      | Some ps \<Rightarrow>
          drop_ids is (foldl (\<lambda>ms p. ms[p := None]) messages ps,
                       od_del i latest_position, od_del i positions_by_id))"

text \<open>The messages after the last \<^verbatim>\<open>REMOVE_ALL_MESSAGES\<close> marker, if there is one.\<close>

definition is_remove_all :: "string \<Rightarrow> msg \<Rightarrow> bool" where
  "is_remove_all ra m \<longleftrightarrow> m_remove m \<and> m_id m = ra"

fun after_remove_all :: "string \<Rightarrow> msg list \<Rightarrow> msg list option" where
  "after_remove_all ra [] = None"
| "after_remove_all ra (m # ms) =
     (case after_remove_all ra ms of
        Some rest \<Rightarrow> Some rest
      | None \<Rightarrow> if is_remove_all ra m then Some ms else None)"

definition apply_write :: "string \<Rightarrow> msg list \<Rightarrow> fold_state \<Rightarrow> msg_error + fold_state" where
  "apply_write ra normalized_write s =
     (case after_remove_all ra normalized_write of
        Some rest \<Rightarrow>
          (let messages = map Some rest
           in Inr (messages, index_messages 0 messages ([], [])))
      | None \<Rightarrow>
          (case write_items normalized_write s [] of
             Inl e \<Rightarrow> Inl e
           | Inr (s', ids_to_remove) \<Rightarrow> drop_ids ids_to_remove s'))"

fun as_list :: "msg_write \<Rightarrow> raw_msg list" where
  "as_list NullWrite = []"
| "as_list (Single r) = [r]"
| "as_list (Batch rs) = rs"

fun fold_writes ::
  "string \<Rightarrow> (nat \<Rightarrow> string) \<Rightarrow> nat \<Rightarrow> msg_write list \<Rightarrow> fold_state \<Rightarrow> msg_error + (fold_state \<times> nat)" where
  "fold_writes ra fresh n [] s = Inr (s, n)"
| "fold_writes ra fresh n (w # ws) s =
     (if w = NullWrite then Inl (NullWriteError (fst (snd s) \<noteq> []))
      else
        (let (normalized_write, n1) = normalize_messages fresh n (as_list w)
         in case apply_write ra normalized_write s of
              Inl e \<Rightarrow> Inl e
            | Inr s' \<Rightarrow> fold_writes ra fresh n1 ws s'))"

definition live :: "'a option list \<Rightarrow> 'a list" where
  "live xs = map the (filter (\<lambda>x. x \<noteq> None) xs)"

text \<open>With no writes the code returns the stored messages untouched; their ids were given when
  they were written, so the state is a list of normalized messages.\<close>

definition merge_message_writes ::
  "string \<Rightarrow> (nat \<Rightarrow> string) \<Rightarrow> nat \<Rightarrow> raw_msg list \<Rightarrow> msg_write list \<Rightarrow> msg_error + (raw_msg list \<times> nat)" where
  "merge_message_writes ra fresh n state writes =
     (case writes of
        [] \<Rightarrow> Inr (state, n)
      | w # ws \<Rightarrow>
          if w = NullWrite then Inl (NullWriteError (state \<noteq> []))
          else
            (let (ms, n1) = normalize_messages fresh n state;
                 messages = map Some ms
             in case fold_writes ra fresh n1 writes (messages, index_messages 0 messages ([], [])) of
                  Inl e \<Rightarrow> Inl e
                | Inr ((messages', _, _), n2) \<Rightarrow> Inr (map raw (live messages'), n2)))"

section \<open>The reference definition\<close>

text \<open>On the plain list: no positions, no tombstones.\<close>

fun replace_last :: "msg \<Rightarrow> msg list \<Rightarrow> msg list" where
  "replace_last m [] = []"
| "replace_last m (x # xs) =
     (if m_id m \<in> m_id ` set xs then x # replace_last m xs
      else if m_id x = m_id m then m # xs else x # replace_last m xs)"

fun ref_items :: "msg list \<Rightarrow> msg list \<Rightarrow> string list \<Rightarrow> msg_error + (msg list \<times> string list)" where
  "ref_items [] l gone = Inr (l, gone)"
| "ref_items (m # ms) l gone =
     (if m_id m \<in> m_id ` set l
      then (if m_remove m then ref_items ms l (List.insert (m_id m) gone)
            else ref_items ms (replace_last m l) (removeAll (m_id m) gone))
      else (if m_remove m then Inl (DeleteMissing (m_id m))
            else ref_items ms (l @ [m]) gone))"

definition ref_write :: "string \<Rightarrow> msg list \<Rightarrow> msg list \<Rightarrow> msg_error + msg list" where
  "ref_write ra w l =
     (case after_remove_all ra w of
        Some rest \<Rightarrow> Inr rest
      | None \<Rightarrow>
          (case ref_items w l [] of
             Inl e \<Rightarrow> Inl e
           | Inr (l', gone) \<Rightarrow> Inr (filter (\<lambda>m. m_id m \<notin> set gone) l')))"

fun ref_writes ::
  "string \<Rightarrow> (nat \<Rightarrow> string) \<Rightarrow> nat \<Rightarrow> msg_write list \<Rightarrow> msg list \<Rightarrow> msg_error + (msg list \<times> nat)" where
  "ref_writes ra fresh n [] l = Inr (l, n)"
| "ref_writes ra fresh n (w # ws) l =
     (if w = NullWrite then Inl (NullWriteError (l \<noteq> []))
      else
        (let (nw, n1) = normalize_messages fresh n (as_list w)
         in case ref_write ra nw l of
              Inl e \<Rightarrow> Inl e
            | Inr l' \<Rightarrow> ref_writes ra fresh n1 ws l'))"

definition ref_merge ::
  "string \<Rightarrow> (nat \<Rightarrow> string) \<Rightarrow> nat \<Rightarrow> raw_msg list \<Rightarrow> msg_write list \<Rightarrow> msg_error + (raw_msg list \<times> nat)" where
  "ref_merge ra fresh n state writes =
     (if writes = [] then Inr (state, n)
      else
        (let (ms, n1) = normalize_messages fresh n state
         in case ref_writes ra fresh n1 writes ms of
              Inl e \<Rightarrow> Inl e
            | Inr (l, n2) \<Rightarrow> Inr (map raw l, n2)))"

section \<open>The position indices are right\<close>

text \<open>The positions at which the live messages with id \<open>i\<close> stand.\<close>

definition at_id :: "msg option list \<Rightarrow> string \<Rightarrow> nat set" where
  "at_id ms i = {p. p < length ms \<and> (\<exists>m. ms ! p = Some m \<and> m_id m = i)}"

definition latest_ok :: "msg option list \<Rightarrow> (string, nat) odict \<Rightarrow> bool" where
  "latest_ok ms l \<longleftrightarrow> (\<forall>i. od_get l i = (if at_id ms i = {} then None else Some (Max (at_id ms i))))"

definition positions_ok :: "msg option list \<Rightarrow> (string, nat list) odict \<Rightarrow> bool" where
  "positions_ok ms p \<longleftrightarrow>
     (\<forall>i. set (od_get_default p i []) = at_id ms i \<and> (od_get p i = None \<longleftrightarrow> at_id ms i = {}))"

fun indexed :: "fold_state \<Rightarrow> bool" where
  "indexed (ms, l, p) \<longleftrightarrow> latest_ok ms l \<and> positions_ok ms p"

lemma at_id_finite [simp]: "finite (at_id ms i)"
  by (rule finite_subset [of _ "{..<length ms}"]) (auto simp: at_id_def)

lemma at_id_less: "p \<in> at_id ms i \<Longrightarrow> p < length ms"
  by (simp add: at_id_def)

lemma at_id_Nil [simp]: "at_id [] i = {}"
  by (simp add: at_id_def)

lemma at_id_snoc:
  "at_id (ms @ [Some m]) i = (if m_id m = i then insert (length ms) (at_id ms i) else at_id ms i)"
  "at_id (ms @ [None]) i = at_id ms i"
  by (auto simp: at_id_def nth_append less_Suc_eq)

lemma live_simps [simp]:
  "live [] = []" "live (None # xs) = live xs" "live (Some x # xs) = x # live xs"
  "live (xs @ ys) = live xs @ live ys"
  by (simp_all add: live_def)

lemma live_map_Some [simp]: "live (map Some xs) = xs"
  by (induction xs) auto

lemma set_live: "x \<in> set (live xs) \<longleftrightarrow> Some x \<in> set xs"
  by (force simp: live_def image_iff)

lemma live_ids: "i \<in> m_id ` set (live ms) \<longleftrightarrow> at_id ms i \<noteq> {}"
proof -
  have "i \<in> m_id ` set (live ms) \<longleftrightarrow> (\<exists>m. Some m \<in> set ms \<and> m_id m = i)"
    by (auto simp: set_live)
  also have "\<dots> \<longleftrightarrow> at_id ms i \<noteq> {}"
    unfolding at_id_def in_set_conv_nth by fastforce
  finally show ?thesis .
qed

lemma indexed_Nil [simp]: "indexed ([], [], [])"
  by (simp add: latest_ok_def positions_ok_def od_get_default_def)

lemma indexed_None: "indexed (ms, l, p) \<Longrightarrow> indexed (ms @ [None], l, p)"
  by (simp add: latest_ok_def positions_ok_def at_id_snoc)

lemma latest_ok_snoc:
  assumes "latest_ok ms l"
  shows "latest_ok (ms @ [Some m]) (od_set (m_id m) (length ms) l)"
proof -
  have "Max (insert (length ms) (at_id ms i)) = length ms" for i
    by (rule Max_eqI) (auto dest: at_id_less)
  with assms show ?thesis by (simp add: latest_ok_def at_id_snoc update_conv')
qed

lemma positions_ok_snoc:
  assumes "positions_ok ms p"
  shows "positions_ok (ms @ [Some m])
           (od_set (m_id m) (od_get_default p (m_id m) [] @ [length ms]) p)"
  using assms unfolding positions_ok_def
  by (simp add: at_id_snoc update_conv' od_get_default_set)

lemma indexed_Some:
  "indexed (ms, l, p) \<Longrightarrow>
     indexed (ms @ [Some m], od_set (m_id m) (length ms) l,
       od_set (m_id m) (od_get_default p (m_id m) [] @ [length ms]) p)"
  by (simp add: latest_ok_snoc positions_ok_snoc)

lemma indexed_index_messages:
  "indexed (pre, idx) \<Longrightarrow> indexed (pre @ ms, index_messages (length pre) ms idx)"
proof (induction ms arbitrary: pre idx)
  case (Cons x ms)
  obtain l p where idx: "idx = (l, p)" by fastforce
  show ?case
  proof (cases x)
    case None
    from Cons.prems idx have "indexed (pre @ [None], l, p)" by (simp only: indexed_None)
    from Cons.IH [OF this] None idx show ?thesis by simp
  next
    case (Some m)
    from Cons.prems idx have "indexed (pre @ [Some m], od_set (m_id m) (length pre) l,
       od_set (m_id m) (od_get_default p (m_id m) [] @ [length pre]) p)"
      by (simp only: indexed_Some)
    from Cons.IH [OF this] Some idx show ?thesis by simp
  qed
qed simp

text \<open>Overwriting the latest message with an id.\<close>

lemma at_id_update:
  assumes "p \<in> at_id ms (m_id m)"
  shows "at_id (ms[p := Some m]) i = at_id ms i"
  using assms by (auto simp: at_id_def nth_list_update)

lemma replace_last_append:
  "m_id x = m_id m \<Longrightarrow> m_id m \<notin> m_id ` set ys \<Longrightarrow>
     replace_last m (xs @ x # ys) = xs @ m # ys"
  by (induction xs) auto

lemma replace_last_map_id: "m_id m \<in> m_id ` set l \<Longrightarrow> map m_id (replace_last m l) = map m_id l"
  by (induction l) (auto simp: image_iff)

lemma live_update_latest:
  assumes "at_id ms (m_id m) \<noteq> {}" and p: "p = Max (at_id ms (m_id m))"
  shows "live (ms[p := Some m]) = replace_last m (live ms)"
proof -
  have "p \<in> at_id ms (m_id m)" using assms by simp
  then obtain x where x: "p < length ms" "ms ! p = Some x" "m_id x = m_id m"
    by (auto simp: at_id_def)
  then have ms: "ms = take p ms @ Some x # drop (Suc p) ms"
    by (metis id_take_nth_drop)
  have "at_id (drop (Suc p) ms) (m_id m) = {}"
  proof (rule ccontr)
    assume "\<not> ?thesis"
    then obtain q where "q \<in> at_id (drop (Suc p) ms) (m_id m)" by auto
    then have "Suc p + q \<in> at_id ms (m_id m)" by (auto simp: at_id_def)
    then have "Suc p + q \<le> p" unfolding p by (intro Max_ge) auto
    then show False by simp
  qed
  then have n: "m_id m \<notin> m_id ` set (live (drop (Suc p) ms))" by (simp add: live_ids)
  have "ms[p := Some m] = take p ms @ Some m # drop (Suc p) ms"
    using x(1) by (simp add: upd_conv_take_nth_drop)
  then have "live (ms[p := Some m]) = live (take p ms) @ m # live (drop (Suc p) ms)" by simp
  also have "\<dots> = replace_last m (live (take p ms) @ x # live (drop (Suc p) ms))"
    using replace_last_append [of x m, OF x(3) n] by simp
  also have "live (take p ms) @ x # live (drop (Suc p) ms) = live ms"
    using arg_cong [OF ms, of live] by simp
  finally show ?thesis .
qed

lemma indexed_update_latest:
  assumes "indexed (ms, l, poss)" and "od_get l (m_id m) = Some p"
  shows "indexed (ms[p := Some m], l, poss) \<and> live (ms[p := Some m]) = replace_last m (live ms)
         \<and> at_id ms (m_id m) \<noteq> {} \<and> (\<forall>i. at_id (ms[p := Some m]) i = at_id ms i)"
proof -
  from assms have ne: "at_id ms (m_id m) \<noteq> {}" and p: "p = Max (at_id ms (m_id m))"
    by (auto simp: latest_ok_def split: if_splits)
  then have "p \<in> at_id ms (m_id m)" by simp
  then have "at_id (ms[p := Some m]) i = at_id ms i" for i by (rule at_id_update)
  with assms ne live_update_latest [OF ne p] show ?thesis
    by (simp add: latest_ok_def positions_ok_def)
qed


text \<open>The inner loop of one write.\<close>

definition pending_ok :: "msg option list \<Rightarrow> string list \<Rightarrow> bool" where
  "pending_ok ms gone \<longleftrightarrow> distinct gone \<and> (\<forall>i \<in> set gone. at_id ms i \<noteq> {})"

lemma write_items_ref:
  assumes "indexed s" and "pending_ok (fst s) gone"
  shows "(case write_items w s gone of
            Inl e \<Rightarrow> ref_items w (live (fst s)) gone = Inl e
          | Inr (s', gone') \<Rightarrow> ref_items w (live (fst s)) gone = Inr (live (fst s'), gone')
              \<and> indexed s' \<and> pending_ok (fst s') gone')"
  using assms
proof (induction w s gone rule: write_items.induct)
  case (2 m w ms l poss gone)
  show ?case
  proof (cases "od_get l (m_id m)")
    case None
    with "2.prems" have e: "at_id ms (m_id m) = {}"
      by (auto simp: latest_ok_def split: if_splits)
    show ?thesis
    proof (cases "m_remove m")
      case False
      let ?s = "(ms @ [Some m], od_set (m_id m) (length ms) l, od_set (m_id m) [length ms] poss)"
      have "set (od_get_default poss (m_id m) []) = at_id ms (m_id m)"
        using "2.prems" by (simp add: positions_ok_def)
      with e have "od_get_default poss (m_id m) [] = []" by simp
      with "2.prems" indexed_Some [of ms l poss m] have "indexed ?s" by simp
      moreover have "pending_ok (fst ?s) gone"
        using "2.prems" by (auto simp: pending_ok_def at_id_snoc)
      ultimately show ?thesis
        using "2.IH"(1) [OF None False] None False e
        by (auto simp: live_ids simp del: indexed.simps split: sum.splits)
    qed (use None e in \<open>simp add: live_ids\<close>)
  next
    case (Some p)
    with "2.prems" have u: "indexed (ms[p := Some m], l, poss)"
      "live (ms[p := Some m]) = replace_last m (live ms)" "at_id ms (m_id m) \<noteq> {}"
      "\<And>i. at_id (ms[p := Some m]) i = at_id ms i"
      using indexed_update_latest by blast+
    show ?thesis
    proof (cases "m_remove m")
      case True
      have "pending_ok ms (List.insert (m_id m) gone)"
        using "2.prems" u(3) by (auto simp: pending_ok_def)
      with "2.IH"(2) [OF Some True] "2.prems" Some True u show ?thesis
        by (auto simp: live_ids simp del: indexed.simps split: sum.splits)
    next
      case False
      have "pending_ok (ms[p := Some m]) (removeAll (m_id m) gone)"
        using "2.prems" u(4) by (auto simp: pending_ok_def distinct_removeAll)
      with "2.IH"(3) [OF Some False] "2.prems" Some False u show ?thesis
        by (auto simp: live_ids simp del: indexed.simps split: sum.splits)
    qed
  qed
qed simp

text \<open>Dropping the ids a write removed.\<close>

lemma foldl_tombstones:
  "length (foldl (\<lambda>ms p. ms[p := None]) ms ps) = length ms
   \<and> (\<forall>q < length ms. foldl (\<lambda>ms p. ms[p := None]) ms ps ! q = (if q \<in> set ps then None else ms ! q))"
  by (induction ps arbitrary: ms) (auto simp: nth_list_update)

definition without :: "string \<Rightarrow> msg option list \<Rightarrow> msg option list" where
  "without i = map (\<lambda>x. case x of None \<Rightarrow> None | Some m \<Rightarrow> if m_id m = i then None else Some m)"

lemma foldl_without:
  assumes "set ps = at_id ms i"
  shows "foldl (\<lambda>ms p. ms[p := None]) ms ps = without i ms"
  using foldl_tombstones [of ms ps] assms
  by (intro nth_equalityI) (auto simp: without_def at_id_def split: option.splits)

lemma live_without: "live (without i ms) = filter (\<lambda>m. m_id m \<noteq> i) (live ms)"
  by (induction ms) (auto simp: without_def split: option.splits)

lemma at_id_without: "at_id (without i ms) j = (if j = i then {} else at_id ms j)"
  by (auto simp: at_id_def without_def split: option.splits if_splits)

lemma drop_ids_ref:
  "indexed s \<Longrightarrow> pending_ok (fst s) gone \<Longrightarrow>
     \<exists>s'. drop_ids gone s = Inr s' \<and> indexed s'
        \<and> live (fst s') = filter (\<lambda>m. m_id m \<notin> set gone) (live (fst s))"
proof (induction gone s rule: drop_ids.induct)
  case (2 i gone ms l poss)
  then have ne: "at_id ms i \<noteq> {}" by (simp add: pending_ok_def)
  with "2.prems" obtain ps where ps: "od_get poss i = Some ps"
    by (auto simp: positions_ok_def)
  from "2.prems" have "set (od_get_default poss i []) = at_id ms i"
    by (simp add: positions_ok_def)
  with ps have "set ps = at_id ms i" by (simp add: od_get_default_def)
  then have f: "foldl (\<lambda>ms p. ms[p := None]) ms ps = without i ms" by (rule foldl_without)
  let ?s = "(without i ms, od_del i l, od_del i poss)"
  have "indexed ?s"
    using "2.prems" by (simp add: latest_ok_def positions_ok_def at_id_without odict_simps)
  moreover have "pending_ok (fst ?s) gone"
    using "2.prems" by (auto simp: pending_ok_def at_id_without)
  ultimately obtain s' where "drop_ids gone ?s = Inr s'" "indexed s'"
      "live (fst s') = filter (\<lambda>m. m_id m \<notin> set gone) (live (without i ms))"
    using "2.IH" [OF ps] f by auto
  then show ?case using ps f by (auto simp: live_without intro: filter_cong)
qed simp

lemma apply_write_ref:
  assumes "indexed s"
  shows "(case apply_write ra w s of
            Inl e \<Rightarrow> ref_write ra w (live (fst s)) = Inl e
          | Inr s' \<Rightarrow> ref_write ra w (live (fst s)) = Inr (live (fst s')) \<and> indexed s')"
proof (cases "after_remove_all ra w")
  case (Some rest)
  then show ?thesis
    using indexed_index_messages [of "[]" "([], [])" "map Some rest"]
    by (simp add: apply_write_def ref_write_def Let_def del: indexed.simps)
next
  case None
  have p: "pending_ok (fst s) []" by (simp add: pending_ok_def)
  show ?thesis
  proof (cases "write_items w s []")
    case (Inl e)
    with write_items_ref [OF assms p, of w] None show ?thesis
      by (simp add: apply_write_def ref_write_def)
  next
    case (Inr r)
    obtain s' gone where r: "r = (s', gone)" by fastforce
    with write_items_ref [OF assms p, of w] Inr
    have w: "ref_items w (live (fst s)) [] = Inr (live (fst s'), gone)"
      and i: "indexed s'" "pending_ok (fst s') gone" by auto
    from drop_ids_ref [OF i] w None Inr r show ?thesis
      by (auto simp: apply_write_def ref_write_def)
  qed
qed

lemma indexed_latest_empty: "indexed s \<Longrightarrow> fst (snd s) = [] \<longleftrightarrow> live (fst s) = []"
proof -
  assume "indexed s"
  then obtain ms l p where s: "s = (ms, l, p)" and l: "latest_ok ms l" by (cases s) auto
  have "l = [] \<longleftrightarrow> (\<forall>i. od_get l i = None)"
    by (cases l) (auto simp: od_get_None)
  also have "\<dots> \<longleftrightarrow> (\<forall>i. at_id ms i = {})" using l by (simp add: latest_ok_def)
  also have "\<dots> \<longleftrightarrow> (\<forall>i. i \<notin> m_id ` set (live ms))" by (simp add: live_ids)
  also have "\<dots> \<longleftrightarrow> live ms = []" by auto
  finally show ?thesis by (simp add: s)
qed

lemma fold_writes_ref:
  "indexed s \<Longrightarrow>
     (case fold_writes ra fresh n ws s of
        Inl e \<Rightarrow> ref_writes ra fresh n ws (live (fst s)) = Inl e
      | Inr (s', n') \<Rightarrow> ref_writes ra fresh n ws (live (fst s)) = Inr (live (fst s'), n'))"
proof (induction ra fresh n ws s rule: fold_writes.induct)
  case (2 ra fresh n w ws s)
  obtain nw n1 where nw: "normalize_messages fresh n (as_list w) = (nw, n1)" by fastforce
  show ?case
  proof (cases "w = NullWrite")
    case True
    then show ?thesis using indexed_latest_empty [OF "2.prems"] by simp
  next
    case False
    with apply_write_ref [OF "2.prems", of ra nw] "2.IH" [OF False nw [symmetric] refl] nw
    show ?thesis by (auto split: sum.splits)
  qed
qed simp


section \<open>Properties\<close>

lemma normalize_raw [simp]: "normalize_messages fresh n (map raw l) = (l, n)"
  by (induction l) (simp_all add: raw_def)

lemma normalize_Nil_iff: "fst (normalize_messages fresh n rs) = [] \<longleftrightarrow> rs = []"
  by (cases rs) (auto simp: Let_def split: prod.split)

text \<open>
  C11. The linear-time fold of message writes computes the reference fold on the plain list: same
  messages in the same order, same ids drawn, same error on the same input, for every state and
  every sequence of writes.
\<close>

theorem message_fold_correct:
  "merge_message_writes ra fresh n state writes = ref_merge ra fresh n state writes"
proof (cases writes)
  case (Cons w ws)
  obtain ms n1 where nm: "normalize_messages fresh n state = (ms, n1)" by fastforce
  show ?thesis
  proof (cases "w = NullWrite")
    case True
    with Cons nm normalize_Nil_iff [of fresh n state] show ?thesis
      by (simp add: merge_message_writes_def ref_merge_def)
  next
    case False
    have "indexed (map Some ms, index_messages 0 (map Some ms) ([], []))"
      using indexed_index_messages [of "[]" "([], [])" "map Some ms"] by (simp del: indexed.simps)
    from fold_writes_ref [OF this, of ra fresh n1 writes] Cons nm False show ?thesis
      by (simp add: merge_message_writes_def ref_merge_def Let_def del: fold_writes.simps
          ref_writes.simps split: sum.splits prod.splits)
  qed
qed (simp add: merge_message_writes_def ref_merge_def)

lemma ref_writes_append:
  "ref_writes ra fresh n (ws1 @ ws2) l =
     (case ref_writes ra fresh n ws1 l of
        Inl e \<Rightarrow> Inl e
      | Inr (l', n') \<Rightarrow> ref_writes ra fresh n' ws2 l')"
  by (induction ra fresh n ws1 l rule: ref_writes.induct)
    (auto simp: Let_def split: sum.splits prod.splits)

text \<open>
  C27. How writes are batched does not matter: folding a sequence of writes at once, or folding a
  prefix, storing the result as the snapshot and folding the rest into it, gives the same
  conversation (or the same error). This is what lets a delta channel snapshot at any cadence.
\<close>

theorem snapshot_cadence_irrelevant:
  "merge_message_writes ra fresh n state (ws1 @ ws2) =
     (case merge_message_writes ra fresh n state ws1 of
        Inl e \<Rightarrow> Inl e
      | Inr (snapshot, n') \<Rightarrow> merge_message_writes ra fresh n' snapshot ws2)"
  unfolding message_fold_correct
  by (auto simp: ref_merge_def ref_writes_append Let_def split: sum.splits prod.splits)

lemma ref_items_distinct:
  "ref_items w l gone = Inr (l', gone') \<Longrightarrow> distinct (map m_id l) \<Longrightarrow> distinct (map m_id l')"
proof (induction w l gone rule: ref_items.induct)
  case (2 m ms l gone)
  then show ?case
    by (auto simp: replace_last_map_id split: if_splits)
qed simp

lemma distinct_map_filter_ids: "distinct (map m_id l) \<Longrightarrow> distinct (map m_id (filter P l))"
  by (simp add: distinct_map_filter)

text \<open>
  Message ids stay unique: a write without the remove-all marker, folded into a conversation
  whose ids are distinct and whose position index is right, leaves a conversation whose ids are
  distinct.
\<close>

theorem message_ids_stay_unique:
  assumes "indexed s" and "distinct (map m_id (live (fst s)))"
    and "after_remove_all ra w = None" and "apply_write ra w s = Inr s'"
  shows "distinct (map m_id (live (fst s')))"
proof -
  from apply_write_ref [OF assms(1), of ra w] assms(4)
  have "ref_write ra w (live (fst s)) = Inr (live (fst s'))" by simp
  then obtain l gone where "ref_items w (live (fst s)) [] = Inr (l, gone)"
      and l: "live (fst s') = filter (\<lambda>m. m_id m \<notin> set gone) l"
    using assms(3) by (auto simp: ref_write_def split: sum.splits)
  from ref_items_distinct [OF this(1) assms(2)] l show ?thesis
    by (simp add: distinct_map_filter_ids)
qed

definition example_msg :: "string \<Rightarrow> bool \<Rightarrow> msg" where
  "example_msg i b = \<lparr>m_id = i, m_remove = b, m_body = VNone\<rparr>"

lemma message_ids_stay_unique_witness:
  "distinct (map m_id (live
     [Some (example_msg ''a'' False), None, Some (example_msg ''c'' False)]))"
proof -
  let ?ms = "[Some (example_msg ''a'' False), Some (example_msg ''b'' False)]"
  let ?s = "(?ms, index_messages 0 ?ms ([], []))"
  let ?w = "[example_msg ''b'' True, example_msg ''c'' False, example_msg ''a'' False]"
  have i: "indexed ?s"
    using indexed_index_messages [of "[]" "([], [])" ?ms] by (simp del: indexed.simps)
  have "apply_write ''all'' ?w ?s
     = Inr ([Some (example_msg ''a'' False), None, Some (example_msg ''c'' False)],
            [(''a'', 0), (''c'', 2)], [(''a'', [0]), (''c'', [2])])"
    by (simp add: apply_write_def example_msg_def od_get_default_def is_remove_all_def)
  from message_ids_stay_unique [OF i _ _ this] show ?thesis
    by (simp add: example_msg_def is_remove_all_def)
qed

end
