(* ===== verification/RunRow.thy ===== *)
theory RunRow
  imports Prelude
begin

text \<open>
  Run records and their timestamps: the row that the run store keeps for one run, the run inputs
  it carries, the helpers of
  \<^verbatim>\<open>backend/packages/harness/deerflow/runtime/runs/store/base.py\<close> that order rows for paging, and
  the lease clock of \<^verbatim>\<open>backend/packages/harness/deerflow/utils/time.py\<close>.

  Timestamps are strings, as in the code. An operation reads the wall clock once: the record
  \<open>clock\<close> holds that reading, its ISO form, and the two readers of Python's \<^verbatim>\<open>datetime\<close> that the
  code calls on stored strings, \<^verbatim>\<open>datetime.fromisoformat\<close> and
  \<^verbatim>\<open>datetime.fromtimestamp(float(s), UTC).isoformat()\<close>, where \<open>None\<close> means that they raise.
  Instants count microseconds since the epoch.
\<close>

section \<open>Time\<close>

text \<open>A parsed datetime: the wall-clock reading, and the UTC offset unless it is naive.\<close>

record datetime =
  dt_wall :: int
  dt_offset :: "int option"

record clock =
  clk_now :: int
  clk_iso :: string
  clk_parse :: "string \<Rightarrow> datetime option"
  clk_unix :: "string \<Rightarrow> string option"

definition as_utc :: "datetime \<Rightarrow> int" where
  "as_utc d = (case dt_offset d of None \<Rightarrow> dt_wall d | Some off \<Rightarrow> dt_wall d - off)"

definition seconds :: "int \<Rightarrow> int" where
  "seconds n = n * 1000000"

text \<open>A missing or unreadable lease counts as expired.\<close>

definition is_lease_expired :: "clock \<Rightarrow> string option \<Rightarrow> int \<Rightarrow> bool" where
  "is_lease_expired clk lease_expires_at grace_seconds =
     (case lease_expires_at of
        None \<Rightarrow> True
      | Some s \<Rightarrow>
          (case clk_parse clk s of
             None \<Rightarrow> True
           | Some dt \<Rightarrow> as_utc dt < clk_now clk - seconds grace_seconds))"

text \<open>\<^verbatim>\<open>str.isdigit\<close> also accepts the superscript digits.\<close>

definition py_isdigit :: "string \<Rightarrow> bool" where
  "py_isdigit s \<longleftrightarrow> s \<noteq> [] \<and>
     list_all (\<lambda>c. is_digit c \<or> (of_char c :: nat) \<in> {178, 179, 185}) s"

text \<open>The pattern of a legacy unix timestamp: ten digits and an optional fraction.\<close>

definition unix_timestamp :: "string \<Rightarrow> bool" where
  "unix_timestamp s =
     (let ds = takeWhile is_digit s; rest = dropWhile is_digit s;
          eol = (\<lambda>r. r = [] \<or> r = [CHR 0x0A])
      in length ds = 10 \<and>
         (eol rest \<or>
          (case rest of
             [] \<Rightarrow> False
           | c # fs \<Rightarrow> c = CHR ''.'' \<and> takeWhile is_digit fs \<noteq> [] \<and> eol (dropWhile is_digit fs))))"

text \<open>\<^verbatim>\<open>coerce_iso\<close> on a stored string.\<close>

definition coerce_iso :: "clock \<Rightarrow> string \<Rightarrow> string" where
  "coerce_iso clk value =
     (if value = [] then []
      else if unix_timestamp value
           then (case clk_unix clk value of Some stamp \<Rightarrow> stamp | None \<Rightarrow> value)
      else value)"

section \<open>Cursor order\<close>

text \<open>\<^verbatim>\<open>s.replace("Z", "+00:00")\<close>.\<close>

fun z_to_offset :: "string \<Rightarrow> string" where
  "z_to_offset [] = []"
| "z_to_offset (c # cs) = (if c = CHR ''Z'' then ''+00:00'' else [c]) @ z_to_offset cs"

text \<open>\<^verbatim>\<open>s.partition(c)\<close> and \<^verbatim>\<open>s.rpartition(c)\<close> for a single character that occurs.\<close>

definition partition_at :: "char \<Rightarrow> string \<Rightarrow> string \<times> string" where
  "partition_at c s = (takeWhile (\<lambda>x. x \<noteq> c) s, tl (dropWhile (\<lambda>x. x \<noteq> c) s))"

definition rpartition_at :: "char \<Rightarrow> string \<Rightarrow> string \<times> string" where
  "rpartition_at c s = (let (b, a) = partition_at c (rev s) in (rev a, rev b))"

definition normalize_run_created_at_iso :: "string \<Rightarrow> string" where
  "normalize_run_created_at_iso v =
     (let value = z_to_offset (py_strip v)
      in if CHR ''T'' \<in> set value \<and> CHR '' '' \<in> set value
            \<and> CHR ''+'' \<notin> set (snd (partition_at (CHR ''T'') value))
         then (let (date, rest) = partition_at (CHR ''T'') value
               in if CHR '' '' \<in> set rest
                  then (let (time_part, offset) = rpartition_at (CHR '' '') rest
                        in if py_isdigit (filter (\<lambda>c. c \<noteq> CHR '':'') offset)
                           then date @ ''T'' @ time_part @ ''+'' @ offset else value)
                  else value)
         else value)"

definition datetime_min :: int where
  "datetime_min = -62135596800000000"

definition parse_run_created_at :: "clock \<Rightarrow> string \<Rightarrow> int" where
  "parse_run_created_at clk value =
     (let stamp = coerce_iso clk value
      in if stamp = [] then datetime_min
         else (case clk_parse clk (normalize_run_created_at_iso stamp) of
                 None \<Rightarrow> datetime_min
               | Some dt \<Rightarrow> as_utc dt))"

definition run_sort_key :: "clock \<Rightarrow> string \<Rightarrow> string \<Rightarrow> int \<times> string" where
  "run_sort_key clk created_at run_id = (parse_run_created_at clk created_at, run_id)"

definition run_is_before_cursor ::
  "clock \<Rightarrow> string \<Rightarrow> string \<Rightarrow> string option \<Rightarrow> string option \<Rightarrow> bool" where
  "run_is_before_cursor clk created_at run_id before_created_at before_run_id =
     (case (non_empty before_created_at, non_empty before_run_id) of
        (Some bc, Some bi) \<Rightarrow> run_sort_key clk created_at run_id < run_sort_key clk bc bi
      | _ \<Rightarrow> True)"

text \<open>The instant of a run's creation, for goal matching; \<open>None\<close> when the reader raises.\<close>

definition canonical_run_created_at :: "clock \<Rightarrow> string \<Rightarrow> int option" where
  "canonical_run_created_at clk value =
     map_option as_utc (clk_parse clk (normalize_run_created_at_iso value))"

section \<open>Rows\<close>

record run_input =
  in_id :: string
  in_text :: string
  in_mode :: string
  in_context :: "(string \<times> pyval) list"
  in_source :: string
  in_status :: string
  in_message_id :: string
  in_created_at :: string
  in_run_id :: "string option"

record input_state =
  is_closed :: bool
  is_items :: "run_input list"

definition empty_input_state :: input_state where
  "empty_input_state = \<lparr>is_closed = False, is_items = []\<rparr>"

text \<open>
  \<open>rr_counts\<close> holds the integer completion fields that have been written
  (\<^verbatim>\<open>total_tokens\<close>, \<^verbatim>\<open>llm_call_count\<close>, ...), read with default 0.
\<close>

record run_row =
  rr_run_id :: string
  rr_thread_id :: string
  rr_assistant_id :: "string option"
  rr_evidence_origin :: string
  rr_evidence_agent_id :: "string option"
  rr_user_id :: "string option"
  rr_model_name :: "string option"
  rr_status :: string
  rr_operation_kind :: string
  rr_multitask_strategy :: string
  rr_metadata :: "(string, pyval) odict"
  rr_kwargs :: "(string, pyval) odict"
  rr_error :: "string option"
  rr_stop_reason :: "string option"
  rr_goal_verdict :: "pyval option"
  rr_created_at :: string
  rr_updated_at :: string
  rr_owner_worker_id :: "string option"
  rr_lease_expires_at :: "string option"
  rr_idempotency_key :: "string option"
  rr_idempotency_request :: "pyval option"
  rr_cancel_action :: "string option"
  rr_cancel_requested_at :: "string option"
  rr_run_inputs :: "input_state option"
  rr_change_seq :: int
  rr_counts :: "(string, int) odict"
  rr_token_usage_by_model :: "(string, (string, int) odict) odict"
  rr_last_ai_message :: "string option"
  rr_first_human_message :: "string option"

definition active :: "run_row \<Rightarrow> bool" where
  "active r \<longleftrightarrow> rr_status r \<in> {''pending'', ''running''}"

definition visible_to :: "string option \<Rightarrow> run_row \<Rightarrow> bool" where
  "visible_to user_id r \<longleftrightarrow> user_id = None \<or> rr_user_id r = user_id"

definition is_run :: "run_row \<Rightarrow> bool" where
  "is_run r \<longleftrightarrow> rr_operation_kind r = ''run''"

definition count_of :: "run_row \<Rightarrow> string \<Rightarrow> int" where
  "count_of r k = od_get_default (rr_counts r) k 0"

definition live_owner :: "clock \<Rightarrow> run_row \<Rightarrow> string \<Rightarrow> bool" where
  "live_owner clk r owner_worker_id \<longleftrightarrow>
     rr_owner_worker_id r = Some owner_worker_id
     \<and> \<not> is_lease_expired clk (rr_lease_expires_at r) 0"

record lease_renewal =
  lr_renewed :: bool
  lr_cancel_action :: "string option"

record status_finalization =
  sf_finalized :: bool
  sf_cancel_action :: "string option"

section \<open>Lemmas\<close>

text \<open>The pair of reading and id that pages a thread is a strict linear order.\<close>

lemma run_sort_key_eq: "run_sort_key clk a i = run_sort_key clk b j \<Longrightarrow> i = j"
  by (simp add: run_sort_key_def)

lemma lease_expiry_antimono:
  "is_lease_expired clk l g \<Longrightarrow> clk_now clk \<le> t \<Longrightarrow> is_lease_expired (clk\<lparr>clk_now := t\<rparr>) l g"
  by (auto simp: is_lease_expired_def split: option.splits)

lemma lease_grace_antimono:
  "is_lease_expired clk l g \<Longrightarrow> h \<le> g \<Longrightarrow> is_lease_expired clk l h"
  by (auto simp: is_lease_expired_def seconds_def split: option.splits)

end
