(* ===== verification/RunStore.thy ===== *)
theory RunStore
  imports RunRow
begin

text \<open>
  The in-memory run store
  (\<^verbatim>\<open>backend/packages/harness/deerflow/runtime/runs/store/memory.py\<close>): the rows by run id, the
  per-thread index of them (which an admission over an existing row does not clean up), and the change
  sequence that incremental readers page by. Every method is one function on the store's state; a row that Python mutates in place
  is stored back under its id. Rows handed out by reads are values here: the model does not
  follow a caller that mutates a row it was given.
\<close>

section \<open>State and errors\<close>

record run_store =
  st_runs :: "(string, run_row) odict"
  st_change_seq :: int
  st_by_thread :: "(string, string list) odict"

definition empty_store :: run_store where
  "empty_store = \<lparr>st_runs = [], st_change_seq = 0, st_by_thread = []\<rparr>"

datatype store_error =
    InputConflict string
  | ConflictError string
  | RunIdempotencyConflict run_row
  | ValueError string
  | TypeError string
  | KeyError string
  | RuntimeError string

definition rows :: "run_store \<Rightarrow> run_row list" where
  "rows s = map snd (st_runs s)"

definition bucket :: "run_store \<Rightarrow> string \<Rightarrow> string list" where
  "bucket s thread_id = od_get_default (st_by_thread s) thread_id []"

text \<open>The rows of a thread in index order; a stale id without a row is skipped.\<close>

definition thread_rows :: "run_store \<Rightarrow> string \<Rightarrow> run_row list" where
  "thread_rows s thread_id = List.map_filter (od_get (st_runs s)) (bucket s thread_id)"

section \<open>Index and sequence\<close>

definition index_run :: "string \<Rightarrow> string \<Rightarrow> run_store \<Rightarrow> run_store" where
  "index_run run_id thread_id s =
     (let b = bucket s thread_id
      in s\<lparr>st_by_thread :=
             od_set thread_id (if run_id \<in> set b then b else b @ [run_id]) (st_by_thread s)\<rparr>)"

definition unindex_run :: "string \<Rightarrow> string \<Rightarrow> run_store \<Rightarrow> run_store" where
  "unindex_run run_id thread_id s =
     (case od_get (st_by_thread s) thread_id of
        None \<Rightarrow> s
      | Some b \<Rightarrow>
          (let b' = removeAll run_id b
           in s\<lparr>st_by_thread :=
                  (if b' = [] then od_del thread_id (st_by_thread s)
                   else od_set thread_id b' (st_by_thread s))\<rparr>))"

definition next_change_seq :: "run_store \<Rightarrow> int \<times> run_store" where
  "next_change_seq s = (st_change_seq s + 1, s\<lparr>st_change_seq := st_change_seq s + 1\<rparr>)"

definition store_row :: "run_row \<Rightarrow> run_store \<Rightarrow> run_store" where
  "store_row r s = s\<lparr>st_runs := od_set (rr_run_id r) r (st_runs s)\<rparr>"

text \<open>Store a row and mark it changed.\<close>

definition mark_changed :: "run_row \<Rightarrow> run_store \<Rightarrow> run_store" where
  "mark_changed r s =
     (let (q, s') = next_change_seq s in store_row (r\<lparr>rr_change_seq := q\<rparr>) s')"

section \<open>Writes\<close>

text \<open>The keyword arguments of \<^verbatim>\<open>put\<close>, with the defaults of the code.\<close>

record put_args =
  pa_thread_id :: string
  pa_assistant_id :: "string option"
  pa_user_id :: "string option"
  pa_model_name :: "string option"
  pa_status :: string
  pa_operation_kind :: string
  pa_multitask_strategy :: string
  pa_metadata :: "(string, pyval) odict"
  pa_kwargs :: "(string, pyval) odict"
  pa_error :: "string option"
  pa_stop_reason :: "string option"
  pa_goal_verdict :: "pyval option"
  pa_created_at :: "string option"
  pa_owner_worker_id :: "string option"
  pa_lease_expires_at :: "string option"
  pa_idempotency_key :: "string option"
  pa_evidence_origin :: string
  pa_evidence_agent_id :: "string option"
  pa_idempotency_request :: "pyval option"

definition default_args :: "string \<Rightarrow> put_args" where
  "default_args thread_id =
     \<lparr>pa_thread_id = thread_id, pa_assistant_id = None, pa_user_id = None, pa_model_name = None,
      pa_status = ''pending'', pa_operation_kind = ''run'', pa_multitask_strategy = ''reject'',
      pa_metadata = [], pa_kwargs = [], pa_error = None, pa_stop_reason = None,
      pa_goal_verdict = None, pa_created_at = None, pa_owner_worker_id = None,
      pa_lease_expires_at = None, pa_idempotency_key = None, pa_evidence_origin = ''unknown'',
      pa_evidence_agent_id = None, pa_idempotency_request = None\<rparr>"

definition created_or_now :: "clock \<Rightarrow> string option \<Rightarrow> string" where
  "created_or_now clk c = (case non_empty c of Some t \<Rightarrow> t | None \<Rightarrow> clk_iso clk)"

definition put_row :: "clock \<Rightarrow> string \<Rightarrow> put_args \<Rightarrow> run_row option \<Rightarrow> run_row" where
  "put_row clk run_id a existing =
     \<lparr>rr_run_id = run_id, rr_thread_id = pa_thread_id a, rr_assistant_id = pa_assistant_id a,
      rr_evidence_origin = pa_evidence_origin a, rr_evidence_agent_id = pa_evidence_agent_id a,
      rr_user_id = pa_user_id a, rr_model_name = pa_model_name a, rr_status = pa_status a,
      rr_operation_kind = pa_operation_kind a, rr_multitask_strategy = pa_multitask_strategy a,
      rr_metadata = pa_metadata a, rr_kwargs = pa_kwargs a, rr_error = pa_error a,
      rr_stop_reason = pa_stop_reason a, rr_goal_verdict = pa_goal_verdict a,
      rr_created_at = created_or_now clk (pa_created_at a), rr_updated_at = clk_iso clk,
      rr_owner_worker_id = pa_owner_worker_id a, rr_lease_expires_at = pa_lease_expires_at a,
      rr_idempotency_key = pa_idempotency_key a,
      rr_idempotency_request = pa_idempotency_request a,
      rr_cancel_action = Option.bind existing rr_cancel_action,
      rr_cancel_requested_at = Option.bind existing rr_cancel_requested_at,
      rr_run_inputs = Option.bind existing rr_run_inputs,
      rr_change_seq = 0, rr_counts = [], rr_token_usage_by_model = [],
      rr_last_ai_message = None, rr_first_human_message = None\<rparr>"

definition put :: "clock \<Rightarrow> string \<Rightarrow> put_args \<Rightarrow> run_store \<Rightarrow> run_store" where
  "put clk run_id a s =
     (let existing = od_get (st_runs s) run_id;
          row = put_row clk run_id a existing;
          s1 = store_row row s;
          s2 = (case existing of
                  Some e \<Rightarrow> if rr_thread_id e \<noteq> pa_thread_id a
                            then unindex_run run_id (rr_thread_id e) s1 else s1
                | None \<Rightarrow> s1)
      in index_run run_id (pa_thread_id a) (mark_changed row s2))"

definition update_status ::
  "clock \<Rightarrow> string \<Rightarrow> string \<Rightarrow> string option \<Rightarrow> string option \<Rightarrow> pyval option \<Rightarrow> string option
     \<Rightarrow> run_store \<Rightarrow> bool \<times> run_store" where
  "update_status clk run_id status error stop_reason goal_verdict owner_worker_id s =
     (case od_get (st_runs s) run_id of
        None \<Rightarrow> (False, s)
      | Some run \<Rightarrow>
          if (case owner_worker_id of None \<Rightarrow> False | Some w \<Rightarrow> \<not> live_owner clk run w) then (False, s)
          else if owner_worker_id \<noteq> None \<and> rr_status run = ''interrupted'' \<and> status \<noteq> ''error''
               then (False, s)
          else if owner_worker_id \<noteq> None \<and> status = ''success''
                  \<and> (\<not> active run \<or> rr_cancel_action run \<noteq> None)
               then (False, s)
          else if rr_status run \<notin> {''pending'', ''running'', ''interrupted''} then (False, s)
          else (True, mark_changed
                  (run\<lparr>rr_status := status,
                       rr_error := (if error = None then rr_error run else error),
                       rr_stop_reason := (if stop_reason = None then rr_stop_reason run else stop_reason),
                       rr_goal_verdict :=
                         (if goal_verdict = None then rr_goal_verdict run else goal_verdict),
                       rr_updated_at := clk_iso clk\<rparr>) s))"

definition start_run :: "clock \<Rightarrow> string \<Rightarrow> run_store \<Rightarrow> bool \<times> run_store" where
  "start_run clk run_id s =
     (case od_get (st_runs s) run_id of
        None \<Rightarrow> (False, s)
      | Some run \<Rightarrow>
          if rr_status run \<noteq> ''pending'' then (False, s)
          else (True, mark_changed (run\<lparr>rr_status := ''running'', rr_updated_at := clk_iso clk\<rparr>) s))"

definition update_model_name :: "clock \<Rightarrow> string \<Rightarrow> string option \<Rightarrow> run_store \<Rightarrow> run_store" where
  "update_model_name clk run_id model_name s =
     (case od_get (st_runs s) run_id of
        None \<Rightarrow> s
      | Some run \<Rightarrow>
          mark_changed (run\<lparr>rr_model_name := model_name, rr_updated_at := clk_iso clk\<rparr>) s)"

definition delete :: "string \<Rightarrow> run_store \<Rightarrow> run_store" where
  "delete run_id s =
     (case od_get (st_runs s) run_id of
        None \<Rightarrow> s
      | Some run \<Rightarrow>
          unindex_run run_id (rr_thread_id run) (s\<lparr>st_runs := od_del run_id (st_runs s)\<rparr>))"

fun delete_ids ::
  "string option \<Rightarrow> string list \<Rightarrow> run_store \<Rightarrow> nat \<times> run_store" where
  "delete_ids user_id [] s = (0, s)"
| "delete_ids user_id (run_id # ids) s =
     (case od_get (st_runs s) run_id of
        None \<Rightarrow> delete_ids user_id ids s
      | Some run \<Rightarrow>
          if \<not> is_run run \<or> \<not> visible_to user_id run then delete_ids user_id ids s
          else (let (n, s') = delete_ids user_id ids
                      (unindex_run run_id (rr_thread_id run)
                        (s\<lparr>st_runs := od_del run_id (st_runs s)\<rparr>))
                in (Suc n, s')))"

definition delete_by_thread :: "string \<Rightarrow> string option \<Rightarrow> run_store \<Rightarrow> nat \<times> run_store" where
  "delete_by_thread thread_id user_id s = delete_ids user_id (bucket s thread_id) s"

text \<open>Completion fields; \<open>None\<close> leaves a field alone.\<close>

record completion =
  cp_counts :: "(string \<times> int option) list"
  cp_usage_by_model :: "(string, (string, int) odict) odict option"
  cp_last_ai_message :: "string option"
  cp_first_human_message :: "string option"
  cp_error :: "string option"
  cp_stop_reason :: "string option"
  cp_goal_verdict :: "pyval option"

definition set_counts :: "(string \<times> int option) list \<Rightarrow> (string, int) odict \<Rightarrow> (string, int) odict" where
  "set_counts ks d =
     foldl (\<lambda>acc (k, v). case v of None \<Rightarrow> acc | Some i \<Rightarrow> od_set k i acc) d ks"

definition some_or :: "'a option \<Rightarrow> 'a option \<Rightarrow> 'a option" where
  "some_or new old = (if new = None then old else new)"

definition write_progress :: "completion \<Rightarrow> run_row \<Rightarrow> run_row" where
  "write_progress c r =
     r\<lparr>rr_counts := set_counts (cp_counts c) (rr_counts r),
       rr_token_usage_by_model :=
         (case cp_usage_by_model c of None \<Rightarrow> rr_token_usage_by_model r | Some u \<Rightarrow> u),
       rr_last_ai_message := some_or (cp_last_ai_message c) (rr_last_ai_message r),
       rr_first_human_message := some_or (cp_first_human_message c) (rr_first_human_message r)\<rparr>"

definition write_outcome :: "completion \<Rightarrow> run_row \<Rightarrow> run_row" where
  "write_outcome c r =
     r\<lparr>rr_error := some_or (cp_error c) (rr_error r),
       rr_stop_reason := some_or (cp_stop_reason c) (rr_stop_reason r),
       rr_goal_verdict := some_or (cp_goal_verdict c) (rr_goal_verdict r)\<rparr>"

definition update_run_completion ::
  "clock \<Rightarrow> string \<Rightarrow> string \<Rightarrow> bool \<Rightarrow> string option \<Rightarrow> completion \<Rightarrow> run_store \<Rightarrow> bool \<times> run_store"
where
  "update_run_completion clk run_id status require_terminal owner_worker_id c s =
     (case od_get (st_runs s) run_id of
        None \<Rightarrow> (False, s)
      | Some run \<Rightarrow>
          if require_terminal
             \<and> (status \<in> {''pending'', ''running''} \<or> rr_status run \<noteq> status
                \<or> rr_owner_worker_id run \<noteq> owner_worker_id)
          then (False, s)
          else if rr_status run \<notin> {''pending'', ''running'', status}
                                   \<union> (if status = ''error'' then {''interrupted''} else {})
          then (False, s)
          else
            (let r1 = write_progress c (run\<lparr>rr_status := status\<rparr>);
                 r2 = (if require_terminal then r1 else write_outcome c r1)
             in (True, mark_changed (r2\<lparr>rr_updated_at := clk_iso clk\<rparr>) s)))"

definition update_run_progress :: "clock \<Rightarrow> string \<Rightarrow> completion \<Rightarrow> run_store \<Rightarrow> run_store" where
  "update_run_progress clk run_id c s =
     (case od_get (st_runs s) run_id of
        None \<Rightarrow> s
      | Some run \<Rightarrow>
          if rr_status run = ''running''
          then store_row ((write_progress c run)\<lparr>rr_updated_at := clk_iso clk\<rparr>) s else s)"


section \<open>Leases, cancellation and takeover\<close>

definition update_lease ::
  "clock \<Rightarrow> string \<Rightarrow> string \<Rightarrow> string \<Rightarrow> bool \<Rightarrow> run_store \<Rightarrow> store_error + (bool \<times> run_store)" where
  "update_lease clk run_id owner_worker_id lease_expires_at allow_interrupted s =
     (case od_get (st_runs s) run_id of
        None \<Rightarrow> Inr (False, s)
      | Some run \<Rightarrow>
          if \<not> (active run \<or> (allow_interrupted \<and> rr_status run = ''interrupted'')) then Inr (False, s)
          else if \<not> live_owner clk run owner_worker_id then Inr (False, s)
          else (case clk_parse clk lease_expires_at of
                  None \<Rightarrow> Inl (ValueError lease_expires_at)
                | Some dt \<Rightarrow>
                    if dt_offset dt = None then Inl (TypeError lease_expires_at)
                    else if as_utc dt \<le> clk_now clk then Inr (False, s)
                    else Inr (True, store_row
                           (run\<lparr>rr_owner_worker_id := Some owner_worker_id,
                                rr_lease_expires_at := Some lease_expires_at,
                                rr_updated_at := clk_iso clk\<rparr>) s)))"

definition renew_lease ::
  "clock \<Rightarrow> string \<Rightarrow> string \<Rightarrow> string \<Rightarrow> bool \<Rightarrow> run_store
     \<Rightarrow> store_error + (lease_renewal \<times> run_store)" where
  "renew_lease clk run_id owner_worker_id lease_expires_at allow_interrupted s =
     (case update_lease clk run_id owner_worker_id lease_expires_at allow_interrupted s of
        Inl e \<Rightarrow> Inl e
      | Inr (renewed, s') \<Rightarrow>
          if \<not> renewed then Inr (\<lparr>lr_renewed = False, lr_cancel_action = None\<rparr>, s')
          else Inr (\<lparr>lr_renewed = True,
                     lr_cancel_action = Option.bind (od_get (st_runs s') run_id) rr_cancel_action\<rparr>, s'))"

definition request_cancel ::
  "clock \<Rightarrow> string \<Rightarrow> string \<Rightarrow> run_store \<Rightarrow> store_error + (string option \<times> run_store)" where
  "request_cancel clk run_id action s =
     (if action \<notin> {''interrupt'', ''rollback''}
      then Inl (ValueError (''Unsupported cancellation action: '' @ action))
      else (case od_get (st_runs s) run_id of
              None \<Rightarrow> Inr (None, s)
            | Some run \<Rightarrow>
                if \<not> active run then Inr (None, s)
                else
                  (let r1 = (if rr_cancel_action run = None
                             then run\<lparr>rr_cancel_action := Some action,
                                      rr_cancel_requested_at := Some (clk_iso clk)\<rparr>
                             else run)
                   in Inr (rr_cancel_action r1,
                           mark_changed (r1\<lparr>rr_updated_at := clk_iso clk\<rparr>) s))))"

definition refused :: "string option \<Rightarrow> status_finalization" where
  "refused c = \<lparr>sf_finalized = False, sf_cancel_action = c\<rparr>"

definition finalize_if_not_cancelled ::
  "clock \<Rightarrow> string \<Rightarrow> string \<Rightarrow> string option \<Rightarrow> string option \<Rightarrow> pyval option \<Rightarrow> string option
     \<Rightarrow> run_store \<Rightarrow> status_finalization \<times> run_store" where
  "finalize_if_not_cancelled clk run_id status error stop_reason goal_verdict owner_worker_id s =
     (case od_get (st_runs s) run_id of
        None \<Rightarrow> (refused None, s)
      | Some run \<Rightarrow>
          if (case owner_worker_id of None \<Rightarrow> False
              | Some w \<Rightarrow> \<not> active run \<or> \<not> live_owner clk run w)
          then (refused None, s)
          else if rr_cancel_action run \<noteq> None then (refused (rr_cancel_action run), s)
          else if \<not> active run then (refused None, s)
          else (\<lparr>sf_finalized = True, sf_cancel_action = None\<rparr>,
                mark_changed
                  (run\<lparr>rr_status := status,
                       rr_error := some_or error (rr_error run),
                       rr_stop_reason := some_or stop_reason (rr_stop_reason run),
                       rr_goal_verdict := some_or goal_verdict (rr_goal_verdict run),
                       rr_updated_at := clk_iso clk\<rparr>) s))"

definition claim_for_takeover ::
  "clock \<Rightarrow> string \<Rightarrow> int \<Rightarrow> string \<Rightarrow> string option \<Rightarrow> run_store \<Rightarrow> bool \<times> run_store" where
  "claim_for_takeover clk run_id grace_seconds error stop_reason s =
     (case od_get (st_runs s) run_id of
        None \<Rightarrow> (False, s)
      | Some run \<Rightarrow>
          if \<not> active run then (False, s)
          else if \<not> is_lease_expired clk (rr_lease_expires_at run) grace_seconds then (False, s)
          else (True, mark_changed
                  (run\<lparr>rr_status := ''error'', rr_error := Some error,
                       rr_stop_reason := some_or stop_reason (rr_stop_reason run),
                       rr_updated_at := clk_iso clk\<rparr>) s))"

text \<open>Admission of a new run or thread operation.\<close>

definition lease_cutoff :: "clock \<Rightarrow> int \<Rightarrow> int" where
  "lease_cutoff clk grace_seconds = clk_now clk - seconds grace_seconds"

definition lease_instant :: "clock \<Rightarrow> run_row \<Rightarrow> int option" where
  "lease_instant clk r = map_option as_utc (Option.bind (rr_lease_expires_at r) (clk_parse clk))"

fun scan_candidates ::
  "clock \<Rightarrow> string \<Rightarrow> string \<Rightarrow> int \<Rightarrow> run_row list \<Rightarrow> store_error + run_row list" where
  "scan_candidates clk thread_id owner_worker_id grace_seconds [] = Inr []"
| "scan_candidates clk thread_id owner_worker_id grace_seconds (r # rs) =
     (if rr_thread_id r \<noteq> thread_id \<or> \<not> active r
      then scan_candidates clk thread_id owner_worker_id grace_seconds rs
      else
        (let cutoff = lease_cutoff clk grace_seconds;
             lease_expired = (case lease_instant clk r of None \<Rightarrow> False | Some t \<Rightarrow> t < cutoff);
             lease_live = (case lease_instant clk r of None \<Rightarrow> False | Some t \<Rightarrow> cutoff \<le> t)
         in if lease_live \<and> rr_owner_worker_id r \<noteq> Some owner_worker_id
            then Inl (ConflictError
                   (''Thread '' @ thread_id @ '' already has an active run owned by another worker''))
            else if \<not> is_run r \<and> \<not> lease_expired
            then Inl (ConflictError (''Thread '' @ thread_id @ '' has an active checkpoint write''))
            else (case scan_candidates clk thread_id owner_worker_id grace_seconds rs of
                    Inl e \<Rightarrow> Inl e
                  | Inr cs \<Rightarrow> Inr (r # cs))))"

definition interrupt_row :: "clock \<Rightarrow> string \<Rightarrow> int \<Rightarrow> run_row \<Rightarrow> run_row" where
  "interrupt_row clk owner_worker_id change_seq r =
     r\<lparr>rr_status := ''interrupted'', rr_error := Some ''Cancelled by newer run'',
       rr_owner_worker_id := Some owner_worker_id, rr_updated_at := clk_iso clk,
       rr_change_seq := change_seq\<rparr>"

text \<open>The new row is the one \<^verbatim>\<open>put\<close> would write for a pending run with no predecessor.\<close>

definition admitted_row :: "clock \<Rightarrow> string \<Rightarrow> string \<Rightarrow> put_args \<Rightarrow> int \<Rightarrow> run_row" where
  "admitted_row clk run_id owner_worker_id a change_seq =
     (put_row clk run_id
        (a\<lparr>pa_status := ''pending'', pa_error := None, pa_stop_reason := None,
           pa_goal_verdict := None, pa_owner_worker_id := Some owner_worker_id\<rparr>) None)
     \<lparr>rr_change_seq := change_seq\<rparr>"

definition admission_conflict ::
  "clock \<Rightarrow> string \<Rightarrow> int \<Rightarrow> put_args \<Rightarrow> run_store \<Rightarrow> store_error + run_row list" where
  "admission_conflict clk owner_worker_id grace_seconds a s =
     (case (if pa_idempotency_key a = None then None
            else find (\<lambda>r. rr_idempotency_key r = pa_idempotency_key a) (rows s)) of
        Some existing \<Rightarrow> Inl (RunIdempotencyConflict existing)
      | None \<Rightarrow>
          if pa_multitask_strategy a = ''reject''
             \<and> list_ex (\<lambda>r. rr_thread_id r = pa_thread_id a \<and> active r) (rows s)
          then Inl (ConflictError (''Thread '' @ pa_thread_id a @ '' already has an active run''))
          else if pa_multitask_strategy a \<in> {''interrupt'', ''rollback''}
          then scan_candidates clk (pa_thread_id a) owner_worker_id grace_seconds (rows s)
          else Inr [])"

definition create_thread_operation_atomic ::
  "clock \<Rightarrow> string \<Rightarrow> string \<Rightarrow> int \<Rightarrow> put_args \<Rightarrow> run_store
     \<Rightarrow> store_error + ((run_row \<times> run_row list) \<times> run_store)" where
  "create_thread_operation_atomic clk run_id owner_worker_id grace_seconds a s =
     (case admission_conflict clk owner_worker_id grace_seconds a s of
        Inl e \<Rightarrow> Inl e
      | Inr candidates \<Rightarrow>
          (let (change_seq, s1) = next_change_seq s;
               claimed = map (interrupt_row clk owner_worker_id change_seq) candidates;
               s2 = foldl (\<lambda>st r. store_row r st) s1 claimed;
               new_row = admitted_row clk run_id owner_worker_id a change_seq
           in Inr ((new_row, claimed), index_run run_id (pa_thread_id a) (store_row new_row s2))))"

section \<open>Run inputs\<close>

definition mutate_run_inputs ::
  "clock \<Rightarrow> string \<Rightarrow> (input_state \<Rightarrow> run_row \<Rightarrow> store_error + input_state)
     \<Rightarrow> string option \<Rightarrow> string option \<Rightarrow> run_store \<Rightarrow> store_error + (input_state \<times> run_store)" where
  "mutate_run_inputs clk run_id change user_id owner_worker_id s =
     (case od_get (st_runs s) run_id of
        None \<Rightarrow> Inl (InputConflict ''Run not found'')
      | Some row \<Rightarrow>
          if \<not> visible_to user_id row then Inl (InputConflict ''Run not found'')
          else
            (let owner_check =
                   (case owner_worker_id of
                      None \<Rightarrow> Inr True
                    | Some w \<Rightarrow>
                        if rr_owner_worker_id row \<noteq> Some w then Inr False
                        else (case non_empty (rr_lease_expires_at row) of
                                None \<Rightarrow> Inr True
                              | Some lease \<Rightarrow>
                                  (case clk_parse clk lease of
                                     None \<Rightarrow> Inl (ValueError lease)
                                   | Some dt \<Rightarrow> Inr (\<not> dt_wall dt \<le> clk_now clk))))
             in case owner_check of
                  Inl e \<Rightarrow> Inl e
                | Inr False \<Rightarrow> Inl (InputConflict ''Run ownership changed'')
                | Inr True \<Rightarrow>
                    (case change (case rr_run_inputs row of None \<Rightarrow> empty_input_state | Some i \<Rightarrow> i) row of
                       Inl e \<Rightarrow> Inl e
                     | Inr state \<Rightarrow> Inr (state, store_row (row\<lparr>rr_run_inputs := Some state\<rparr>) s))))"

section \<open>Reads\<close>

definition get :: "string \<Rightarrow> string option \<Rightarrow> run_store \<Rightarrow> run_row option" where
  "get run_id user_id s =
     (case od_get (st_runs s) run_id of
        None \<Rightarrow> None
      | Some run \<Rightarrow> if visible_to user_id run then Some run else None)"

definition list_changed ::
  "int \<Rightarrow> string \<Rightarrow> string option \<Rightarrow> int \<Rightarrow> run_store \<Rightarrow> run_row list" where
  "list_changed after_change_seq after_run_id user_id limit s =
     py_upto (sort_key (\<lambda>r. (rr_change_seq r, rr_run_id r))
                (filter (\<lambda>r. is_run r \<and> visible_to user_id r
                             \<and> (after_change_seq, after_run_id) < (rr_change_seq r, rr_run_id r))
                   (rows s))) limit"

definition list_by_thread ::
  "clock \<Rightarrow> string \<Rightarrow> string option \<Rightarrow> int \<Rightarrow> string option \<Rightarrow> string option \<Rightarrow> run_store \<Rightarrow> run_row list"
where
  "list_by_thread clk thread_id user_id limit before_created_at before_run_id s =
     py_upto (sort_desc (\<lambda>r. run_sort_key clk (rr_created_at r) (rr_run_id r))
                (filter (\<lambda>r. is_run r \<and> visible_to user_id r
                             \<and> run_is_before_cursor clk (rr_created_at r) (rr_run_id r)
                                 before_created_at before_run_id)
                   (thread_rows s thread_id))) limit"

definition list_input_runs ::
  "clock \<Rightarrow> string \<Rightarrow> string option \<Rightarrow> int \<Rightarrow> run_store \<Rightarrow> run_row list" where
  "list_input_runs clk thread_id user_id limit s =
     py_upto (filter (\<lambda>r. case rr_run_inputs r of None \<Rightarrow> False | Some i \<Rightarrow> is_items i \<noteq> [])
                (list_by_thread clk thread_id user_id (int (length (bucket s thread_id))) None None s))
       limit"

definition accepts_input :: "run_row \<Rightarrow> bool" where
  "accepts_input r \<longleftrightarrow> active r
     \<and> (case rr_run_inputs r of None \<Rightarrow> False | Some i \<Rightarrow> \<not> is_closed i)
     \<and> non_empty (rr_cancel_action r) = None"

fun first_accepting ::
  "run_store \<Rightarrow> string option \<Rightarrow> string list \<Rightarrow> store_error + string option" where
  "first_accepting s user_id [] = Inr None"
| "first_accepting s user_id (run_id # ids) =
     (case od_get (st_runs s) run_id of
        None \<Rightarrow> Inl (KeyError run_id)
      | Some row \<Rightarrow>
          if visible_to user_id row \<and> accepts_input row then Inr (Some run_id)
          else first_accepting s user_id ids)"

definition active_input_run :: "string \<Rightarrow> string option \<Rightarrow> run_store \<Rightarrow> store_error + string option" where
  "active_input_run thread_id user_id s = first_accepting s user_id (rev (bucket s thread_id))"

fun matching_created ::
  "clock \<Rightarrow> string \<Rightarrow> int \<Rightarrow> run_store \<Rightarrow> string list \<Rightarrow> store_error + run_row list" where
  "matching_created clk user_id target s [] = Inr []"
| "matching_created clk user_id target s (run_id # ids) =
     (case od_get (st_runs s) run_id of
        None \<Rightarrow> Inl (KeyError run_id)
      | Some row \<Rightarrow>
          (case matching_created clk user_id target s ids of
             Inl e \<Rightarrow> Inl e
           | Inr matches \<Rightarrow>
               Inr (if rr_user_id row = Some user_id
                       \<and> canonical_run_created_at clk (rr_created_at row) = Some target
                    then row # matches else matches)))"

definition list_by_thread_created_at ::
  "clock \<Rightarrow> string \<Rightarrow> string \<Rightarrow> string \<Rightarrow> run_store \<Rightarrow> store_error + run_row list" where
  "list_by_thread_created_at clk thread_id user_id created_at s =
     (case canonical_run_created_at clk created_at of
        None \<Rightarrow> Inl (ValueError created_at)
      | Some target \<Rightarrow> matching_created clk user_id target s (bucket s thread_id))"

definition regenerate_source :: "run_row \<Rightarrow> string option" where
  "regenerate_source r =
     (case od_get (rr_metadata r) ''regenerate_from_run_id'' of
        Some (VStr source) \<Rightarrow> non_empty (Some source)
      | _ \<Rightarrow> None)"

definition list_successful_regenerate_sources ::
  "string \<Rightarrow> string option \<Rightarrow> run_store \<Rightarrow> string list" where
  "list_successful_regenerate_sources thread_id user_id s =
     fromkeys (List.map_filter regenerate_source
       (filter (\<lambda>r. is_run r \<and> rr_status r = ''success'' \<and> visible_to user_id r)
          (thread_rows s thread_id)))"

definition list_edit_regenerate_runs :: "string \<Rightarrow> string option \<Rightarrow> run_store \<Rightarrow> run_row list" where
  "list_edit_regenerate_runs thread_id user_id s =
     sort_key rr_created_at
       (filter (\<lambda>r. visible_to user_id r
                    \<and> od_get (rr_metadata r) ''replay_kind'' = Some (VStr ''edit'')
                    \<and> regenerate_source r \<noteq> None)
          (thread_rows s thread_id))"

definition get_many_by_thread ::
  "string \<Rightarrow> string list \<Rightarrow> string option \<Rightarrow> run_store \<Rightarrow> (string, run_row) odict" where
  "get_many_by_thread thread_id run_ids user_id s =
     List.map_filter
       (\<lambda>run_id. case od_get (st_runs s) run_id of
          None \<Rightarrow> None
        | Some run \<Rightarrow>
            if run_id \<in> set run_ids \<and> is_run run \<and> visible_to user_id run
            then Some (run_id, run) else None)
       (bucket s thread_id)"

definition list_pending :: "clock \<Rightarrow> string option \<Rightarrow> run_store \<Rightarrow> run_row list" where
  "list_pending clk before s =
     sort_key rr_created_at
       (filter (\<lambda>r. is_run r \<and> rr_status r = ''pending''
                    \<and> rr_created_at r \<le> created_or_now clk before) (rows s))"

definition list_inflight :: "clock \<Rightarrow> string option \<Rightarrow> run_store \<Rightarrow> run_row list" where
  "list_inflight clk before s =
     sort_key rr_created_at
       (filter (\<lambda>r. active r \<and> rr_created_at r \<le> created_or_now clk before) (rows s))"

text \<open>Ordering an aware against a naive datetime raises.\<close>

definition later_than :: "datetime \<Rightarrow> datetime \<Rightarrow> bool option" where
  "later_than a b =
     (if (dt_offset a = None) \<noteq> (dt_offset b = None) then None else Some (as_utc b < as_utc a))"

fun expired_inflight ::
  "clock \<Rightarrow> datetime \<Rightarrow> int \<Rightarrow> run_row list \<Rightarrow> store_error + run_row list" where
  "expired_inflight clk now_dt grace_seconds [] = Inr []"
| "expired_inflight clk now_dt grace_seconds (r # rs) =
     (if \<not> active r \<or> rr_created_at r = [] then expired_inflight clk now_dt grace_seconds rs
      else (case clk_parse clk (rr_created_at r) of
              None \<Rightarrow> expired_inflight clk now_dt grace_seconds rs
            | Some created_dt \<Rightarrow>
                (case later_than created_dt now_dt of
                   None \<Rightarrow> Inl (TypeError (rr_created_at r))
                 | Some True \<Rightarrow> expired_inflight clk now_dt grace_seconds rs
                 | Some False \<Rightarrow>
                     (case expired_inflight clk now_dt grace_seconds rs of
                        Inl e \<Rightarrow> Inl e
                      | Inr res \<Rightarrow>
                          Inr (if is_lease_expired clk (rr_lease_expires_at r) grace_seconds
                               then r # res else res)))))"

definition list_inflight_with_expired_lease ::
  "clock \<Rightarrow> string option \<Rightarrow> int \<Rightarrow> run_store \<Rightarrow> store_error + run_row list" where
  "list_inflight_with_expired_lease clk before grace_seconds s =
     (let now_dt = (case non_empty before of
                      None \<Rightarrow> Some \<lparr>dt_wall = clk_now clk, dt_offset = Some 0\<rparr>
                    | Some b \<Rightarrow> clk_parse clk b)
      in case now_dt of
           None \<Rightarrow> Inl (ValueError (case before of None \<Rightarrow> [] | Some b \<Rightarrow> b))
         | Some d \<Rightarrow> map_sum (\<lambda>e. e) (sort_key rr_created_at)
                       (expired_inflight clk d grace_seconds (rows s)))"

section \<open>Token totals\<close>

record token_totals =
  tt_total_tokens :: int
  tt_total_input_tokens :: int
  tt_total_output_tokens :: int
  tt_total_runs :: nat
  tt_by_model :: "(string, int \<times> nat) odict"
  tt_lead_agent :: int
  tt_subagent :: int
  tt_middleware :: int

definition add_usage :: "string \<Rightarrow> int \<Rightarrow> (string, int \<times> nat) odict \<Rightarrow> (string, int \<times> nat) odict" where
  "add_usage model tokens d =
     (let (t, n) = od_get_default d model (0, 0) in od_set model (t + tokens, Suc n) d)"

definition add_run_usage :: "(string, int \<times> nat) odict \<Rightarrow> run_row \<Rightarrow> (string, int \<times> nat) odict" where
  "add_run_usage d r =
     (if rr_token_usage_by_model r \<noteq> []
      then foldl (\<lambda>acc (model, usage). add_usage model (od_get_default usage ''total_tokens'' 0) acc) d
             (rr_token_usage_by_model r)
      else add_usage (case non_empty (rr_model_name r) of None \<Rightarrow> ''unknown'' | Some m \<Rightarrow> m)
             (count_of r ''total_tokens'') d)"

definition aggregate_tokens_by_thread ::
  "string \<Rightarrow> bool \<Rightarrow> string option \<Rightarrow> run_store \<Rightarrow> token_totals" where
  "aggregate_tokens_by_thread thread_id include_active user_id s =
     (let statuses = (if include_active then {''success'', ''error'', ''running''}
                      else {''success'', ''error''});
          completed = filter (\<lambda>r. is_run r \<and> rr_status r \<in> statuses \<and> visible_to user_id r)
                        (thread_rows s thread_id);
          total = (\<lambda>k. sum_list (map (\<lambda>r. count_of r k) completed))
      in \<lparr>tt_total_tokens = total ''total_tokens'',
          tt_total_input_tokens = total ''total_input_tokens'',
          tt_total_output_tokens = total ''total_output_tokens'',
          tt_total_runs = length completed,
          tt_by_model = foldl add_run_usage [] completed,
          tt_lead_agent = total ''lead_agent_tokens'',
          tt_subagent = total ''subagent_tokens'',
          tt_middleware = total ''middleware_tokens''\<rparr>)"

end
