(* ===== verification/RunStoreProofs.thy ===== *)
theory RunStoreProofs
  imports RunStore
begin

text \<open>
  What the run store of \<^verbatim>\<open>runtime/runs/store/memory.py\<close> promises: the thread index covers the rows
  and the change sequence bounds them under every method, a terminal run stays terminal, a
  cancellation is never lost, an admission leaves one active run per thread, and paging by
  cursor misses nothing. An admission under an id that the store already has replaces the row and
  leaves the index of its old thread as it was; the histories below tell such a readmission from the
  admission of a new id.
\<close>

section \<open>The store invariant\<close>

definition rows_ok :: "run_store \<Rightarrow> bool" where
  "rows_ok s \<longleftrightarrow> od_wf (st_runs s)
     \<and> (\<forall>(k, r) \<in> set (st_runs s). rr_run_id r = k \<and> rr_change_seq r \<le> st_change_seq s)"

definition index_ok :: "run_store \<Rightarrow> bool" where
  "index_ok s \<longleftrightarrow> od_wf (st_by_thread s) \<and> [] \<notin> snd ` set (st_by_thread s)
     \<and> (\<forall>t. distinct (bucket s t))
     \<and> (\<forall>k r. od_get (st_runs s) k = Some r \<longrightarrow> k \<in> set (bucket s (rr_thread_id r)))"

definition store_ok :: "run_store \<Rightarrow> bool" where
  "store_ok s \<longleftrightarrow> rows_ok s \<and> index_ok s"

lemma store_ok_row:
  "store_ok s \<Longrightarrow> od_get (st_runs s) k = Some r \<Longrightarrow> rr_run_id r = k \<and> rr_change_seq r \<le> st_change_seq s"
  by (auto simp: store_ok_def rows_ok_def dest!: map_of_SomeD)

lemma rows_ok_get:
  "rows_ok s \<longleftrightarrow> od_wf (st_runs s)
     \<and> (\<forall>k r. od_get (st_runs s) k = Some r \<longrightarrow> rr_run_id r = k \<and> rr_change_seq r \<le> st_change_seq s)"
  by (auto simp: rows_ok_def)

lemma store_ok_empty: "store_ok empty_store"
  by (simp add: store_ok_def rows_ok_def index_ok_def empty_store_def bucket_def od_get_default_def)

section \<open>Stores\<close>

lemma get_store_row [simp]:
  "od_get (st_runs (store_row r s)) k = (if k = rr_run_id r then Some r else od_get (st_runs s) k)"
  by (simp add: store_row_def update_conv')

lemma store_row_other [simp]:
  "st_by_thread (store_row r s) = st_by_thread s" "st_change_seq (store_row r s) = st_change_seq s"
  "bucket (store_row r s) = bucket s"
  by (simp_all add: store_row_def bucket_def fun_eq_iff)

lemma store_ok_store_row [inv_intros]:
  assumes "store_ok s" "od_get (st_runs s) (rr_run_id r) = Some old"
    "rr_thread_id r = rr_thread_id old" "rr_change_seq r \<le> st_change_seq s"
  shows "store_ok (store_row r s)"
proof -
  have "rows_ok (store_row r s)"
    using assms unfolding store_ok_def rows_ok_get by (auto simp: store_row_def update_conv' split: if_splits)
  moreover have "index_ok (store_row r s)"
    using assms unfolding store_ok_def index_ok_def by auto
  ultimately show ?thesis by (simp add: store_ok_def)
qed

lemma mark_changed_conv:
  "mark_changed r s = store_row (r\<lparr>rr_change_seq := st_change_seq s + 1\<rparr>)
     (s\<lparr>st_change_seq := st_change_seq s + 1\<rparr>)"
  by (simp add: mark_changed_def next_change_seq_def)

lemma store_ok_tick [inv_intros]:
  "store_ok s \<Longrightarrow> store_ok (s\<lparr>st_change_seq := st_change_seq s + 1\<rparr>)"
  unfolding store_ok_def rows_ok_get index_ok_def bucket_def by force

lemma get_mark_changed [simp]:
  "od_get (st_runs (mark_changed r s)) k =
     (if k = rr_run_id r then Some (r\<lparr>rr_change_seq := st_change_seq s + 1\<rparr>) else od_get (st_runs s) k)"
  by (simp add: mark_changed_conv)

lemma mark_changed_other [simp]:
  "st_by_thread (mark_changed r s) = st_by_thread s"
  "st_change_seq (mark_changed r s) = st_change_seq s + 1"
  "bucket (mark_changed r s) = bucket s"
  by (simp_all add: mark_changed_conv bucket_def fun_eq_iff)

lemma store_ok_mark_changed [inv_intros]:
  assumes "store_ok s" "od_get (st_runs s) (rr_run_id r) = Some old" "rr_thread_id r = rr_thread_id old"
  shows "store_ok (mark_changed r s)"
  using assms by (auto simp: mark_changed_conv intro!: inv_intros)

section \<open>Index moves\<close>

lemma index_run_other [simp]:
  "st_runs (index_run i t s) = st_runs s" "st_change_seq (index_run i t s) = st_change_seq s"
  by (simp_all add: index_run_def Let_def)

lemma unindex_run_other [simp]:
  "st_runs (unindex_run i t s) = st_runs s" "st_change_seq (unindex_run i t s) = st_change_seq s"
  by (simp_all add: unindex_run_def Let_def split: option.splits)

lemma bucket_index_run:
  "bucket (index_run i t s) u =
     (if u = t \<and> i \<notin> set (bucket s t) then bucket s t @ [i] else bucket s u)"
  by (auto simp: index_run_def Let_def bucket_def odict_simps)

lemma bucket_unindex_run:
  "bucket (unindex_run i t s) u = (if u = t then removeAll i (bucket s t) else bucket s u)"
  by (auto simp: unindex_run_def Let_def bucket_def odict_simps od_get_default_def split: option.splits)

definition shape_ok :: "run_store \<Rightarrow> bool" where
  "shape_ok s \<longleftrightarrow> od_wf (st_by_thread s) \<and> [] \<notin> snd ` set (st_by_thread s)"

lemma shape_ok_set:
  assumes "shape_ok s" "b \<noteq> []"
  shows "od_wf (od_set t b (st_by_thread s)) \<and> [] \<notin> snd ` set (od_set t b (st_by_thread s))"
proof -
  have "od_wf (st_by_thread s)" using assms by (simp add: shape_ok_def)
  then have "od_wf (od_set t b (st_by_thread s))" by simp
  moreover have "[] \<notin> snd ` set (od_set t b (st_by_thread s))"
  proof
    assume "[] \<in> snd ` set (od_set t b (st_by_thread s))"
    then obtain k where "(k, []) \<in> set (od_set t b (st_by_thread s))" by auto
    with \<open>od_wf (od_set t b (st_by_thread s))\<close>
    have "od_get (od_set t b (st_by_thread s)) k = Some []" by simp
    with \<open>b \<noteq> []\<close> have "od_get (st_by_thread s) k = Some []"
      by (auto simp: update_conv' split: if_splits)
    with assms show False by (force simp: shape_ok_def dest: map_of_SomeD)
  qed
  ultimately show ?thesis by simp
qed

lemma shape_ok_index_run [inv_intros]: "shape_ok s \<Longrightarrow> shape_ok (index_run i t s)"
  using shape_ok_set [of s "if i \<in> set (bucket s t) then bucket s t else bucket s t @ [i]" t]
  unfolding shape_ok_def index_run_def Let_def by (cases "i \<in> set (bucket s t)") force+

lemma shape_ok_unindex_run [inv_intros]: "shape_ok s \<Longrightarrow> shape_ok (unindex_run i t s)"
proof (cases "od_get (st_by_thread s) t")
  case (Some b)
  assume s: "shape_ok s"
  show ?thesis
  proof (cases "removeAll i b = []")
    case True
    with s Some show ?thesis
      unfolding unindex_run_def shape_ok_def by (auto simp: set_od_del distinct_delete)
  next
    case False
    with s Some shape_ok_set [OF s False, of t] show ?thesis
      by (auto simp: unindex_run_def Let_def shape_ok_def)
  qed
qed (simp add: unindex_run_def)

lemma store_ok_shape: "store_ok s \<Longrightarrow> shape_ok s"
  by (simp add: store_ok_def index_ok_def shape_ok_def)

lemma store_okI:
  assumes "shape_ok s" "rows_ok s" "\<And>t. distinct (bucket s t)"
    "\<And>k r. od_get (st_runs s) k = Some r \<Longrightarrow> k \<in> set (bucket s (rr_thread_id r))"
  shows "store_ok s"
  using assms by (auto simp: store_ok_def index_ok_def shape_ok_def)

lemma store_ok_bucket:
  "store_ok s \<Longrightarrow> od_get (st_runs s) k = Some r \<Longrightarrow> k \<in> set (bucket s (rr_thread_id r))"
  by (simp add: store_ok_def index_ok_def)

lemma store_ok_distinct: "store_ok s \<Longrightarrow> distinct (bucket s t)"
  by (simp add: store_ok_def index_ok_def)

section \<open>How a row may change\<close>

text \<open>
  The contract of every method but \<^verbatim>\<open>put\<close> and the deletions: a row keeps its identity, a recorded
  cancellation and a terminal status. \<^verbatim>\<open>interrupted\<close> is not terminal, since a rollback may still
  turn it into an error.
\<close>

definition settled :: "run_row \<Rightarrow> bool" where
  "settled r \<longleftrightarrow> rr_status r \<notin> {''pending'', ''running'', ''interrupted''}"

definition row_evolves :: "run_row \<Rightarrow> run_row \<Rightarrow> bool" where
  "row_evolves r r' \<longleftrightarrow> rr_run_id r' = rr_run_id r \<and> rr_thread_id r' = rr_thread_id r
     \<and> rr_user_id r' = rr_user_id r \<and> rr_operation_kind r' = rr_operation_kind r
     \<and> rr_created_at r' = rr_created_at r \<and> rr_idempotency_key r' = rr_idempotency_key r
     \<and> (rr_cancel_action r \<noteq> None \<longrightarrow> rr_cancel_action r' = rr_cancel_action r)
     \<and> (settled r \<longrightarrow> rr_status r' = rr_status r)
     \<and> rr_change_seq r \<le> rr_change_seq r'"

lemma row_evolves_refl [simp]: "row_evolves r r"
  by (simp add: row_evolves_def)

lemma row_evolves_trans: "row_evolves a b \<Longrightarrow> row_evolves b c \<Longrightarrow> row_evolves a c"
  by (auto simp: row_evolves_def settled_def)

text \<open>One row is stored back, with or without a new change number, or nothing happens.\<close>

definition row_update :: "run_store \<Rightarrow> run_store \<Rightarrow> bool" where
  "row_update s s' \<longleftrightarrow> s' = s \<or>
     (\<exists>old new. od_get (st_runs s) (rr_run_id new) = Some old \<and> row_evolves old new
        \<and> rr_change_seq new = rr_change_seq old \<and> rr_run_inputs new = rr_run_inputs old
        \<and> (s' = store_row new s \<or> s' = mark_changed new s))"

lemma row_update_refl [simp]: "row_update s s"
  by (simp add: row_update_def)

lemma row_update_mark:
  "od_get (st_runs s) (rr_run_id new) = Some old \<Longrightarrow> row_evolves old new
    \<Longrightarrow> rr_change_seq new = rr_change_seq old \<Longrightarrow> rr_run_inputs new = rr_run_inputs old
    \<Longrightarrow> row_update s (mark_changed new s)"
  by (auto simp: row_update_def)

lemma row_update_store:
  "od_get (st_runs s) (rr_run_id new) = Some old \<Longrightarrow> row_evolves old new
    \<Longrightarrow> rr_change_seq new = rr_change_seq old \<Longrightarrow> rr_run_inputs new = rr_run_inputs old
    \<Longrightarrow> row_update s (store_row new s)"
  by (auto simp: row_update_def)

lemma row_update_ok:
  assumes "store_ok s" "row_update s s'"
  shows "store_ok s'"
proof -
  have "store_ok s'" if new: "od_get (st_runs s) (rr_run_id new) = Some old" "row_evolves old new"
    "rr_change_seq new = rr_change_seq old" "s' = store_row new s \<or> s' = mark_changed new s" for old new
  proof -
    from store_ok_row [OF \<open>store_ok s\<close> new(1)] new(3) have "rr_change_seq new \<le> st_change_seq s" by simp
    then show ?thesis
      using new store_ok_store_row [OF \<open>store_ok s\<close> new(1)] store_ok_mark_changed [OF \<open>store_ok s\<close> new(1)]
      by (auto simp: row_evolves_def)
  qed
  with assms show ?thesis by (auto simp: row_update_def)
qed

lemma row_update_evolves:
  assumes "store_ok s" "row_update s s'" "od_get (st_runs s) k = Some r"
  shows "\<exists>r'. od_get (st_runs s') k = Some r' \<and> row_evolves r r'"
proof -
  have "\<exists>r'. od_get (st_runs s') k = Some r' \<and> row_evolves r r'"
    if new: "od_get (st_runs s) (rr_run_id new) = Some old" "row_evolves old new"
    "rr_change_seq new = rr_change_seq old" "s' = store_row new s \<or> s' = mark_changed new s" for old new
  proof (cases "k = rr_run_id new")
    case True
    with new assms(3) have "old = r" by simp
    have "row_evolves r (new\<lparr>rr_change_seq := st_change_seq s + 1\<rparr>)"
      using new(2) store_ok_row [OF assms(1,3)] unfolding \<open>old = r\<close> row_evolves_def settled_def by simp
    with new \<open>old = r\<close> True show ?thesis by auto
  qed (use new assms(3) in auto)
  with assms show ?thesis by (auto simp: row_update_def)
qed

subsection \<open>The methods that update a row\<close>

named_theorems row_updates

lemmas evolve_simps = row_evolves_def settled_def active_def

lemma update_status_row_update [row_updates]:
  assumes "store_ok s"
  shows "row_update s (snd (update_status clk i status e sr gv w s))"
proof (cases "od_get (st_runs s) i")
  case (Some run)
  from store_ok_row [OF assms Some] have i: "rr_run_id run = i" by simp
  have upd: "row_update s (mark_changed (run\<lparr>rr_status := status, rr_error := a, rr_stop_reason := b,
      rr_goal_verdict := c, rr_updated_at := u\<rparr>) s)"
    if "rr_status run \<in> {''pending'', ''running'', ''interrupted''}" for a b c u
    using that Some i by (intro row_update_mark [where old = run]) (simp_all add: row_evolves_def settled_def)
  show ?thesis
    by (simp only: update_status_def Some option.case snd_conv row_update_refl simp_thms if_True
        split: if_split) (intro conjI impI; rule upd; assumption)
qed (simp add: update_status_def)

lemma start_run_row_update [row_updates]: "store_ok s \<Longrightarrow> row_update s (snd (start_run clk i s))"
  by (auto simp: start_run_def evolve_simps split: option.splits
      intro!: row_update_mark dest: store_ok_row)

lemma update_model_name_row_update [row_updates]:
  "store_ok s \<Longrightarrow> row_update s (update_model_name clk i m s)"
  by (auto simp: update_model_name_def evolve_simps split: option.splits
      intro!: row_update_mark dest: store_ok_row)

lemma write_progress_evolves [simp]:
  "row_evolves r (write_progress c r')  \<longleftrightarrow> row_evolves r r'"
  "row_evolves r (write_outcome c r') \<longleftrightarrow> row_evolves r r'"
  "row_evolves r (r'\<lparr>rr_updated_at := u\<rparr>) \<longleftrightarrow> row_evolves r r'"
  "rr_run_id (write_progress c r') = rr_run_id r'" "rr_run_id (write_outcome c r') = rr_run_id r'"
  "rr_change_seq (write_progress c r') = rr_change_seq r'"
  "rr_change_seq (write_outcome c r') = rr_change_seq r'"
  "rr_run_inputs (write_progress c r') = rr_run_inputs r'"
  "rr_run_inputs (write_outcome c r') = rr_run_inputs r'"
  by (simp_all add: write_progress_def write_outcome_def row_evolves_def)

lemma row_evolves_status:
  "row_evolves r (r\<lparr>rr_status := status\<rparr>) \<longleftrightarrow> (settled r \<longrightarrow> status = rr_status r)"
  by (simp add: row_evolves_def)

lemma update_run_completion_row_update [row_updates]:
  assumes "store_ok s"
  shows "row_update s (snd (update_run_completion clk i status rt w c s))"
proof (cases "od_get (st_runs s) i")
  case (Some run)
  from store_ok_row [OF assms Some] have i: "rr_run_id run = i" by simp
  show ?thesis
  proof (cases "rr_status run \<in> {''pending'', ''running'', status}
                   \<union> (if status = ''error'' then {''interrupted''} else {})")
    case True
    then have "row_evolves run (run\<lparr>rr_status := status\<rparr>)"
      unfolding row_evolves_status settled_def by (auto split: if_splits)
    then have "row_update s (mark_changed
        ((if rt then write_progress c (run\<lparr>rr_status := status\<rparr>)
          else write_outcome c (write_progress c (run\<lparr>rr_status := status\<rparr>)))\<lparr>rr_updated_at := u\<rparr>) s)" for u
      using Some i by (intro row_update_mark [where old = run]) auto
    with Some show ?thesis
      by (cases rt) (simp_all only: update_run_completion_def Let_def option.case snd_conv
          row_update_refl simp_thms if_True if_False split: if_split)
  qed (simp only: update_run_completion_def Some option.case snd_conv row_update_refl simp_thms if_True
      split: if_split)
qed (simp add: update_run_completion_def)

lemma update_run_progress_row_update [row_updates]:
  "store_ok s \<Longrightarrow> row_update s (update_run_progress clk i c s)"
  by (auto simp: update_run_progress_def evolve_simps write_progress_def split: option.splits
      intro!: row_update_store dest: store_ok_row)

lemma update_lease_row_update [row_updates]:
  "store_ok s \<Longrightarrow> update_lease clk i w l ai s = Inr (b, s') \<Longrightarrow> row_update s s'"
  by (auto simp: update_lease_def evolve_simps split: option.splits if_splits
      intro!: row_update_store dest: store_ok_row)

lemma renew_lease_row_update [row_updates]:
  "store_ok s \<Longrightarrow> renew_lease clk i w l ai s = Inr (b, s') \<Longrightarrow> row_update s s'"
  by (auto simp: renew_lease_def split: sum.splits prod.splits if_splits dest!: update_lease_row_update)

lemma request_cancel_row_update [row_updates]:
  "store_ok s \<Longrightarrow> request_cancel clk i a s = Inr (c, s') \<Longrightarrow> row_update s s'"
  by (auto simp: request_cancel_def Let_def evolve_simps split: option.splits if_splits
      intro!: row_update_mark dest: store_ok_row)

lemma finalize_row_update [row_updates]:
  "store_ok s \<Longrightarrow> row_update s (snd (finalize_if_not_cancelled clk i status e sr gv w s))"
  by (auto simp: finalize_if_not_cancelled_def evolve_simps split: option.splits
      intro!: row_update_mark dest: store_ok_row)

lemma claim_for_takeover_row_update [row_updates]:
  "store_ok s \<Longrightarrow> row_update s (snd (claim_for_takeover clk i g e sr s))"
  by (auto simp: claim_for_takeover_def evolve_simps split: option.splits
      intro!: row_update_mark dest: store_ok_row)

text \<open>A change of run inputs touches nothing else.\<close>

definition inputs_update :: "string \<Rightarrow> run_store \<Rightarrow> run_store \<Rightarrow> bool" where
  "inputs_update i s s' \<longleftrightarrow>
     (\<exists>old st. od_get (st_runs s) i = Some old \<and> s' = store_row (old\<lparr>rr_run_inputs := Some st\<rparr>) s)"

lemma mutate_run_inputs_Inr:
  assumes "mutate_run_inputs clk i change u w s = Inr (st, s')"
  obtains row where "od_get (st_runs s) i = Some row"
    "change (case rr_run_inputs row of None \<Rightarrow> empty_input_state | Some x \<Rightarrow> x) row = Inr st"
    "s' = store_row (row\<lparr>rr_run_inputs := Some st\<rparr>) s"
  using assms
  by (auto simp: mutate_run_inputs_def Let_def split: option.splits if_splits sum.splits bool.splits)

lemma inputs_updateE:
  assumes "store_ok s" "inputs_update i s s'"
  obtains old st where "od_get (st_runs s) i = Some old" "rr_run_id old = i"
    "s' = store_row (old\<lparr>rr_run_inputs := Some st\<rparr>) s" "rr_change_seq old \<le> st_change_seq s"
  using assms store_ok_row [OF assms(1)] unfolding inputs_update_def by blast

lemma inputs_update_ok: "store_ok s \<Longrightarrow> inputs_update i s s' \<Longrightarrow> store_ok s'"
proof -
  assume ok: "store_ok s" and "inputs_update i s s'"
  then obtain old st where "od_get (st_runs s) i = Some old" "rr_run_id old = i"
    "s' = store_row (old\<lparr>rr_run_inputs := Some st\<rparr>) s" "rr_change_seq old \<le> st_change_seq s"
    by (rule inputs_updateE)
  with ok show ?thesis by (auto intro: store_ok_store_row [of s _ old])
qed

lemma inputs_update_get:
  assumes "store_ok s" "inputs_update i s s'"
  obtains old st where "od_get (st_runs s) i = Some old"
    "\<And>k. od_get (st_runs s') k = (if k = i then Some (old\<lparr>rr_run_inputs := Some st\<rparr>) else od_get (st_runs s) k)"
  using assms by (elim inputs_updateE) auto

lemma inputs_update_evolves:
  "store_ok s \<Longrightarrow> inputs_update i s s' \<Longrightarrow> od_get (st_runs s) k = Some r
    \<Longrightarrow> \<exists>r'. od_get (st_runs s') k = Some r' \<and> row_evolves r r'"
  by (erule (1) inputs_update_get) (auto simp: row_evolves_def)

subsection \<open>Snapshots and deletions\<close>

lemma bucket_runs_update [simp]: "bucket (s\<lparr>st_runs := x\<rparr>) = bucket s"
  and bucket_seq_update [simp]: "bucket (s\<lparr>st_change_seq := q\<rparr>) = bucket s"
  by (simp_all add: bucket_def fun_eq_iff)

lemma shape_ok_store_row [inv_intros]: "shape_ok s \<Longrightarrow> shape_ok (store_row r s)"
  by (simp add: shape_ok_def)

lemma shape_ok_mark_changed [inv_intros]: "shape_ok s \<Longrightarrow> shape_ok (mark_changed r s)"
  by (simp add: shape_ok_def)

lemma od_wf_runs:
  "od_wf (st_runs s) \<Longrightarrow> od_wf (st_runs (store_row r s))"
  "od_wf (st_runs s) \<Longrightarrow> od_wf (st_runs (mark_changed r s))"
  by (simp_all add: store_row_def mark_changed_conv)

definition moved :: "string \<Rightarrow> string \<Rightarrow> run_store \<Rightarrow> bool" where
  "moved i t s \<longleftrightarrow> (\<exists>e. od_get (st_runs s) i = Some e \<and> rr_thread_id e \<noteq> t)"

lemma rr_run_id_put_row [simp]: "rr_run_id (put_row clk i a e) = i"
  and rr_thread_id_put_row [simp]: "rr_thread_id (put_row clk i a e) = pa_thread_id a"
  by (simp_all add: put_row_def)

lemma get_put:
  "od_get (st_runs (put clk i a s)) k =
     (if k = i then Some ((put_row clk i a (od_get (st_runs s) i))\<lparr>rr_change_seq := st_change_seq s + 1\<rparr>)
      else od_get (st_runs s) k)"
  by (auto simp: put_def Let_def split: option.splits)

lemma seq_put [simp]: "st_change_seq (put clk i a s) = st_change_seq s + 1"
  by (auto simp: put_def Let_def split: option.splits)

lemma bucket_put:
  "set (bucket (put clk i a s) u) =
     (if u = pa_thread_id a then insert i (set (bucket s u))
      else if \<exists>e. od_get (st_runs s) i = Some e \<and> rr_thread_id e = u then set (bucket s u) - {i}
      else set (bucket s u))"
  by (auto simp: put_def Let_def bucket_index_run bucket_unindex_run split: option.splits)

lemma put_ok [inv_intros]:
  assumes "store_ok s"
  shows "store_ok (put clk i a s)"
proof (rule store_okI)
  note b = store_ok_bucket [OF assms] and r = store_ok_row [OF assms]
  show "shape_ok (put clk i a s)"
    using store_ok_shape [OF assms]
    by (auto simp: put_def Let_def intro!: inv_intros split: option.splits)
  show "rows_ok (put clk i a s)"
    unfolding rows_ok_get
  proof
    show "od_wf (st_runs (put clk i a s))"
      using assms by (auto simp: put_def Let_def store_ok_def rows_ok_def intro!: od_wf_runs split: option.splits)
  qed (auto simp: get_put dest!: r)
  show "distinct (bucket (put clk i a s) t)" for t
    using store_ok_distinct [OF assms]
    by (auto simp: put_def Let_def bucket_index_run bucket_unindex_run distinct_removeAll split: option.splits)
  show "k \<in> set (bucket (put clk i a s) (rr_thread_id row))" if "od_get (st_runs (put clk i a s)) k = Some row" for k row
  proof (cases "k = i")
    case True
    with that have "rr_thread_id row = pa_thread_id a" by (auto simp: get_put)
    with True show ?thesis by (simp add: bucket_put)
  next
    case False
    with that b [of k row] show ?thesis
      by (cases "rr_thread_id row = pa_thread_id a") (simp_all add: bucket_put get_put)
  qed
qed

lemma drop_run_ok:
  assumes "store_ok s" "od_get (st_runs s) i = Some run"
  shows "store_ok (unindex_run i (rr_thread_id run) (s\<lparr>st_runs := od_del i (st_runs s)\<rparr>))"
proof (rule store_okI)
  let ?s = "unindex_run i (rr_thread_id run) (s\<lparr>st_runs := od_del i (st_runs s)\<rparr>)"
  note b = store_ok_bucket [OF assms(1)] and r = store_ok_row [OF assms(1)]
  show "shape_ok ?s"
    using store_ok_shape [OF assms(1)] by (intro inv_intros) (simp add: shape_ok_def)
  show "rows_ok ?s"
    using assms(1) r unfolding store_ok_def rows_ok_get by (auto simp: delete_conv')
  show "distinct (bucket ?s t)" for t
    using store_ok_distinct [OF assms(1)] by (simp add: bucket_unindex_run distinct_removeAll)
  show "k \<in> set (bucket ?s (rr_thread_id row))" if "od_get (st_runs ?s) k = Some row" for k row
    using that b [of k row] by (auto simp: bucket_unindex_run delete_conv' split: if_splits)
qed

lemma delete_ok [inv_intros]: "store_ok s \<Longrightarrow> store_ok (delete i s)"
  by (auto simp: delete_def intro: drop_run_ok split: option.splits)

lemma get_delete: "od_get (st_runs (delete i s)) k = (if k = i then None else od_get (st_runs s) k)"
  by (auto simp: delete_def delete_conv' split: option.splits)

lemma snd_delete_ids_Cons:
  "snd (delete_ids u (i # ids) s) =
     (case od_get (st_runs s) i of
        None \<Rightarrow> snd (delete_ids u ids s)
      | Some run \<Rightarrow>
          if \<not> is_run run \<or> \<not> visible_to u run then snd (delete_ids u ids s)
          else snd (delete_ids u ids
                 (unindex_run i (rr_thread_id run) (s\<lparr>st_runs := od_del i (st_runs s)\<rparr>))))"
  by (simp add: Let_def split_beta split: option.splits)

lemma delete_ids_ok: "store_ok s \<Longrightarrow> store_ok (snd (delete_ids u ids s))"
proof (induction ids arbitrary: s)
  case (Cons i ids)
  then show ?case
    unfolding snd_delete_ids_Cons by (auto intro: drop_run_ok split: option.splits)
qed simp

lemma get_delete_ids:
  "od_get (st_runs (snd (delete_ids u ids s))) k =
     (case od_get (st_runs s) k of
        None \<Rightarrow> None
      | Some r \<Rightarrow> if k \<in> set ids \<and> is_run r \<and> visible_to u r then None else Some r)"
proof (induction ids arbitrary: s)
  case (Cons i ids)
  show ?case
    unfolding snd_delete_ids_Cons by (auto simp: Cons delete_conv' split: option.splits)
qed (simp split: option.splits)

lemma delete_by_thread_ok [inv_intros]: "store_ok s \<Longrightarrow> store_ok (snd (delete_by_thread t u s))"
  by (simp add: delete_by_thread_def delete_ids_ok)

section \<open>Admission\<close>

text \<open>The active rows of a thread, and the ones an interrupting admission may take over.\<close>

definition thread_active :: "string \<Rightarrow> run_row \<Rightarrow> bool" where
  "thread_active t r \<longleftrightarrow> rr_thread_id r = t \<and> active r"

definition claimable :: "clock \<Rightarrow> string \<Rightarrow> int \<Rightarrow> run_row \<Rightarrow> bool" where
  "claimable clk w g r \<longleftrightarrow>
     (rr_owner_worker_id r = Some w \<or>
        (case lease_instant clk r of None \<Rightarrow> True | Some t \<Rightarrow> t < lease_cutoff clk g))
     \<and> (is_run r \<or> (case lease_instant clk r of None \<Rightarrow> False | Some t \<Rightarrow> t < lease_cutoff clk g))"

lemma scan_candidates_Inr:
  "scan_candidates clk t w g rs = Inr cs \<Longrightarrow>
     cs = filter (thread_active t) rs \<and> (\<forall>r \<in> set cs. claimable clk w g r)"
proof (induction rs arbitrary: cs)
  case (Cons r rs)
  show ?case
  proof (cases "thread_active t r")
    case True
    with Cons.prems obtain cs' where "scan_candidates clk t w g rs = Inr cs'" "cs = r # cs'" "claimable clk w g r"
      by (auto simp: Let_def thread_active_def claimable_def split: if_splits sum.splits option.splits)
    with Cons.IH True show ?thesis by simp
  next
    case False
    with Cons.prems have "scan_candidates clk t w g rs = Inr cs"
      by (auto simp: thread_active_def split: if_splits)
    with Cons.IH False show ?thesis by simp
  qed
qed simp

lemma admission_Inr:
  assumes "admission_conflict clk w g a s = Inr cs"
    "pa_multitask_strategy a \<in> {''reject'', ''interrupt'', ''rollback''}"
  shows "cs = filter (thread_active (pa_thread_id a)) (rows s) \<and> (\<forall>r \<in> set cs. claimable clk w g r)
    \<and> (pa_multitask_strategy a = ''reject'' \<longrightarrow> cs = [])"
proof -
  let ?t = "pa_thread_id a"
  have none: "filter (thread_active ?t) (rows s) = []"
    if "\<not> list_ex (\<lambda>r. rr_thread_id r = ?t \<and> active r) (rows s)"
    using that by (auto simp: filter_empty_conv thread_active_def list_ex_iff)
  show ?thesis
    using assms none scan_candidates_Inr [of clk ?t w g "rows s"]
    by (auto simp: admission_conflict_def split: option.splits if_splits)
qed

lemma admission_subset:
  assumes "admission_conflict clk w g a s = Inr cs"
  shows "set cs \<subseteq> {r \<in> set (rows s). thread_active (pa_thread_id a) r}"
    and "\<exists>P. cs = filter P (rows s)"
  using assms scan_candidates_Inr [of clk "pa_thread_id a" w g "rows s" cs]
  by (auto simp: admission_conflict_def split: option.splits if_splits intro: exI [of _ "\<lambda>_. False"])

lemma mem_rows: "store_ok s \<Longrightarrow> r \<in> set (rows s) \<longleftrightarrow> od_get (st_runs s) (rr_run_id r) = Some r"
  by (force simp: rows_def store_ok_def rows_ok_def)

lemma distinct_row_ids: "store_ok s \<Longrightarrow> distinct (map rr_run_id (rows s))"
proof -
  assume "store_ok s"
  then have "map rr_run_id (rows s) = od_keys (st_runs s)"
    by (auto simp: rows_def store_ok_def rows_ok_def)
  with \<open>store_ok s\<close> show ?thesis by (simp add: store_ok_def rows_ok_def)
qed

abbreviation store_rows :: "run_row list \<Rightarrow> run_store \<Rightarrow> run_store" where
  "store_rows rs s \<equiv> foldl (\<lambda>st r. store_row r st) s rs"

lemma get_store_rows:
  "distinct (map rr_run_id rs) \<Longrightarrow>
     od_get (st_runs (store_rows rs s)) k =
       (case find (\<lambda>r. rr_run_id r = k) rs of None \<Rightarrow> od_get (st_runs s) k | Some r \<Rightarrow> Some r)"
proof (induction rs arbitrary: s)
  case (Cons r rs)
  have "find (\<lambda>q. rr_run_id q = k) rs = None" if "rr_run_id r = k"
    using Cons.prems that by (simp add: find_None_iff) (metis image_eqI)
  with Cons show ?case by (auto split: option.splits)
qed simp

lemma store_rows_other [simp]:
  "st_by_thread (store_rows rs s) = st_by_thread s" "st_change_seq (store_rows rs s) = st_change_seq s"
  "bucket (store_rows rs s) = bucket s"
  by (induction rs arbitrary: s) simp_all

lemma store_rows_ok:
  assumes "store_ok s"
    "\<And>r. r \<in> set rs \<Longrightarrow> rr_change_seq r \<le> st_change_seq s \<and>
       (\<exists>old. od_get (st_runs s) (rr_run_id r) = Some old \<and> rr_thread_id r = rr_thread_id old)"
  shows "store_ok (store_rows rs s)"
  using assms
proof (induction rs arbitrary: s)
  case (Cons r rs)
  then obtain old where "od_get (st_runs s) (rr_run_id r) = Some old" "rr_thread_id r = rr_thread_id old" by auto
  with Cons.prems have "store_ok (store_row r s)" by (auto intro: store_ok_store_row)
  moreover have "\<exists>old. od_get (st_runs (store_row r s)) (rr_run_id q) = Some old \<and> rr_thread_id q = rr_thread_id old"
    if "q \<in> set rs" for q
    using Cons.prems(2) [of q] that \<open>od_get (st_runs s) (rr_run_id r) = Some old\<close>
      \<open>rr_thread_id r = rr_thread_id old\<close> by auto
  ultimately show ?case using Cons.prems Cons.IH [of "store_row r s"] by auto
qed simp

lemma interrupt_row_same [simp]:
  "rr_run_id (interrupt_row clk w q r) = rr_run_id r" "rr_thread_id (interrupt_row clk w q r) = rr_thread_id r"
  "rr_change_seq (interrupt_row clk w q r) = q" "rr_status (interrupt_row clk w q r) = ''interrupted''"
  "rr_cancel_action (interrupt_row clk w q r) = rr_cancel_action r"
  by (simp_all add: interrupt_row_def)

lemma interrupt_row_inputs: "rr_run_inputs (interrupt_row clk w q r) = rr_run_inputs r"
  by (simp add: interrupt_row_def)

lemma find_interrupted:
  "find (\<lambda>r. rr_run_id r = k) (map (interrupt_row clk w q) cs) =
     map_option (interrupt_row clk w q) (find (\<lambda>r. rr_run_id r = k) cs)"
  by (induction cs) auto

definition admit :: "clock \<Rightarrow> string \<Rightarrow> string \<Rightarrow> put_args \<Rightarrow> run_row list \<Rightarrow> run_store \<Rightarrow> run_store" where
  "admit clk i w a cs s =
     (let q = st_change_seq s + 1
      in index_run i (pa_thread_id a) (store_row (admitted_row clk i w a q)
           (store_rows (map (interrupt_row clk w q) cs) (s\<lparr>st_change_seq := q\<rparr>))))"

lemma create_Inr:
  assumes "create_thread_operation_atomic clk i w g a s = Inr ((new, claimed), s')"
  obtains cs where "admission_conflict clk w g a s = Inr cs"
    "new = admitted_row clk i w a (st_change_seq s + 1)"
    "claimed = map (interrupt_row clk w (st_change_seq s + 1)) cs" "s' = admit clk i w a cs s"
  using assms
  by (auto simp: create_thread_operation_atomic_def next_change_seq_def Let_def admit_def split: sum.splits)

lemma admitted_row_same [simp]:
  "rr_run_id (admitted_row clk i w a q) = i" "rr_thread_id (admitted_row clk i w a q) = pa_thread_id a"
  "rr_change_seq (admitted_row clk i w a q) = q" "rr_status (admitted_row clk i w a q) = ''pending''"
  "rr_cancel_action (admitted_row clk i w a q) = None"
  by (simp_all add: admitted_row_def put_row_def)

lemma get_admit:
  assumes "store_ok s" "cs = filter P (rows s)"
  shows "od_get (st_runs (admit clk i w a cs s)) k =
    (if k = i then Some (admitted_row clk i w a (st_change_seq s + 1))
     else map_option (\<lambda>r. if P r then interrupt_row clk w (st_change_seq s + 1) r else r) (od_get (st_runs s) k))"
proof -
  have "distinct (map rr_run_id cs)"
    unfolding assms(2) using distinct_row_ids [OF assms(1)] by (rule distinct_map_filter)
  moreover have "find (\<lambda>r. rr_run_id r = k) cs = (case od_get (st_runs s) k of None \<Rightarrow> None
      | Some r \<Rightarrow> if P r then Some r else None)"
  proof (cases "find (\<lambda>r. rr_run_id r = k) cs")
    case None
    then show ?thesis
      using store_ok_row [OF assms(1), of k] mem_rows [OF assms(1)]
      by (auto simp: find_None_iff assms(2) split: option.splits)
  next
    case (Some r)
    then have "r \<in> set (rows s)" "P r" "rr_run_id r = k" by (auto dest: find_SomeD simp: assms(2))
    with Some mem_rows [OF assms(1), of r] show ?thesis by simp
  qed
  ultimately show ?thesis
    by (auto simp: admit_def Let_def get_store_rows find_interrupted comp_def split: option.splits)
qed

lemma admit_ok:
  assumes "store_ok s" "cs = filter P (rows s)"
  shows "store_ok (admit clk i w a cs s)"
proof (rule store_okI)
  let ?q = "st_change_seq s + 1"
  let ?s = "store_rows (map (interrupt_row clk w ?q) cs) (s\<lparr>st_change_seq := ?q\<rparr>)"
  have ok: "store_ok ?s"
  proof (rule store_rows_ok)
    show "store_ok (s\<lparr>st_change_seq := ?q\<rparr>)" using assms(1) by (rule store_ok_tick)
    show "rr_change_seq r \<le> st_change_seq (s\<lparr>st_change_seq := ?q\<rparr>) \<and>
        (\<exists>old. od_get (st_runs (s\<lparr>st_change_seq := ?q\<rparr>)) (rr_run_id r) = Some old
          \<and> rr_thread_id r = rr_thread_id old)"
      if "r \<in> set (map (interrupt_row clk w ?q) cs)" for r
    proof -
      from that obtain r0 where r0: "r = interrupt_row clk w ?q r0" "r0 \<in> set (rows s)"
        by (auto simp: assms(2))
      then have "od_get (st_runs s) (rr_run_id r0) = Some r0" using mem_rows [OF assms(1)] by blast
      then show ?thesis unfolding r0(1) by simp
    qed
  qed
  show "shape_ok (admit clk i w a cs s)"
    unfolding admit_def Let_def
    by (rule shape_ok_index_run [OF shape_ok_store_row [OF store_ok_shape [OF ok]]])
  show "rows_ok (admit clk i w a cs s)"
    unfolding rows_ok_get
  proof
    show "od_wf (st_runs (admit clk i w a cs s))"
      using ok od_wf_runs(1) [of ?s] by (simp add: admit_def Let_def store_ok_def rows_ok_def)
    have "st_change_seq (admit clk i w a cs s) = ?q" by (simp add: admit_def Let_def)
    then show "\<forall>k r. od_get (st_runs (admit clk i w a cs s)) k = Some r \<longrightarrow>
        rr_run_id r = k \<and> rr_change_seq r \<le> st_change_seq (admit clk i w a cs s)"
      using store_ok_row [OF assms(1)] by (fastforce simp: get_admit [OF assms] split: if_splits)
  qed
  show "distinct (bucket (admit clk i w a cs s) t)" for t
    using store_ok_distinct [OF assms(1)] by (auto simp: admit_def Let_def bucket_index_run)
  have "set (bucket (admit clk i w a cs s) t) = set (bucket s t) \<union> (if t = pa_thread_id a then {i} else {})" for t
    by (auto simp: admit_def Let_def bucket_index_run)
  then show "k \<in> set (bucket (admit clk i w a cs s) (rr_thread_id row))"
    if "od_get (st_runs (admit clk i w a cs s)) k = Some row" for k row
    using that store_ok_bucket [OF assms(1), of k]
    by (auto simp: get_admit [OF assms] split: if_splits)
qed

lemma bucket_admit:
  "set (bucket (admit clk i w a cs s) t) = set (bucket s t) \<union> (if t = pa_thread_id a then {i} else {})"
  by (auto simp: admit_def Let_def bucket_index_run)

section \<open>Histories\<close>

text \<open>
  One call of a method that changes the store. The label tells a snapshot write of one run
  (\<^verbatim>\<open>put\<close>), the admission of a run under an id that the store does not have, the admission under
  one that it has (the code does not check, and replaces the row), a deletion, a change of run
  inputs, and every other method apart. The gateway draws a new uuid4 for every admission, so that
  only a retry of a call whose answer was lost readmits a run.
\<close>

datatype run_label = Snapshot string | Admit string | Readmit string | Remove | Inputs string | Other

inductive run_step :: "run_label \<Rightarrow> run_store \<Rightarrow> run_store \<Rightarrow> bool" where
  put: "run_step (Snapshot i) s (put clk i a s)"
| create: "create_thread_operation_atomic clk i w g a s = Inr ((new, claimed), s')
     \<Longrightarrow> od_get (st_runs s) i = None \<Longrightarrow> run_step (Admit i) s s'"
| recreate: "create_thread_operation_atomic clk i w g a s = Inr ((new, claimed), s')
     \<Longrightarrow> od_get (st_runs s) i \<noteq> None \<Longrightarrow> run_step (Readmit i) s s'"
| delete: "run_step Remove s (delete i s)"
| delete_by_thread: "run_step Remove s (snd (delete_by_thread t u s))"
| update_status: "run_step Other s (snd (update_status clk i status e sr gv ow s))"
| start_run: "run_step Other s (snd (start_run clk i s))"
| update_model_name: "run_step Other s (update_model_name clk i m s)"
| completion: "run_step Other s (snd (update_run_completion clk i status rt ow c s))"
| progress: "run_step Other s (update_run_progress clk i c s)"
| update_lease: "update_lease clk i w l ai s = Inr (b, s') \<Longrightarrow> run_step Other s s'"
| renew_lease: "renew_lease clk i w l ai s = Inr (lr, s') \<Longrightarrow> run_step Other s s'"
| request_cancel: "request_cancel clk i action s = Inr (ca, s') \<Longrightarrow> run_step Other s s'"
| finalize: "run_step Other s (snd (finalize_if_not_cancelled clk i status e sr gv ow s))"
| takeover: "run_step Other s (snd (claim_for_takeover clk i g err sr s))"
| mutate_inputs: "mutate_run_inputs clk i change u ow s = Inr (st, s') \<Longrightarrow> run_step (Inputs i) s s'"

inductive_cases run_step_SnapshotE: "run_step (Snapshot i) s s'"
inductive_cases run_step_AdmitE: "run_step (Admit i) s s'"
inductive_cases run_step_ReadmitE: "run_step (Readmit i) s s'"
inductive_cases run_step_RemoveE: "run_step Remove s s'"
inductive_cases run_step_InputsE: "run_step (Inputs i) s s'"
inductive_cases run_step_OtherE: "run_step Other s s'"

lemma run_step_create:
  assumes "run_step l s s'" "store_ok s" "l = Admit i \<or> l = Readmit i"
  shows "\<exists>clk w a P. s' = admit clk i w a (filter P (rows s)) s \<and> (\<forall>r \<in> set (rows s). P r \<longrightarrow> active r)
    \<and> (l = Admit i \<longleftrightarrow> od_get (st_runs s) i = None)"
proof -
  from assms(1,3) obtain clk w g a new claimed where
    c: "create_thread_operation_atomic clk i w g a s = Inr ((new, claimed), s')" "l = Admit i \<longleftrightarrow> od_get (st_runs s) i = None"
    by (elim disjE) (auto elim: run_step_AdmitE run_step_ReadmitE)
  from c(1) obtain cs where cs: "admission_conflict clk w g a s = Inr cs" "s' = admit clk i w a cs s"
    by (rule create_Inr)
  from admission_subset(2) [OF cs(1)] obtain P where P: "cs = filter P (rows s)" ..
  with admission_subset(1) [OF cs(1)] have "r \<in> set (rows s) \<Longrightarrow> P r \<Longrightarrow> active r" for r by (auto simp: thread_active_def)
  with cs(2) P c(2) show ?thesis
    by (intro exI [of _ clk] exI [of _ w] exI [of _ a] exI [of _ P]) auto
qed

lemma run_step_Other: "run_step Other s s' \<Longrightarrow> store_ok s \<Longrightarrow> row_update s s'"
  by (erule run_step_OtherE) (auto intro: row_updates)

lemma run_step_Inputs: "run_step (Inputs i) s s' \<Longrightarrow> inputs_update i s s'"
  by (erule run_step_InputsE, erule mutate_run_inputs_Inr) (auto simp: inputs_update_def)

lemma run_step_ok:
  assumes "run_step l s s'" "store_ok s"
  shows "store_ok s'"
proof (cases l)
  case (Admit i)
  then have "l = Admit i \<or> l = Readmit i" ..
  from run_step_create [OF assms this] assms(2) show ?thesis by (auto intro: admit_ok)
next
  case (Readmit i)
  then have "l = Admit i \<or> l = Readmit i" ..
  from run_step_create [OF assms this] assms(2) show ?thesis by (auto intro: admit_ok)
next
  case Other
  with assms show ?thesis by (auto intro: row_update_ok run_step_Other)
next
  case (Inputs i)
  with assms show ?thesis by (auto intro: inputs_update_ok run_step_Inputs)
qed (use assms in \<open>auto elim!: run_step_SnapshotE run_step_RemoveE
  intro: put_ok delete_ok delete_by_thread_ok\<close>)

text \<open>Every row evolves within its contract, is deleted, or is the one a snapshot replaces.\<close>

lemma interrupt_row_evolves:
  "active r \<Longrightarrow> rr_change_seq r \<le> q \<Longrightarrow> row_evolves r (interrupt_row clk w q r)"
  by (auto simp: interrupt_row_def row_evolves_def settled_def active_def)

lemma run_step_create_row:
  assumes "run_step l s s'" "store_ok s" "l = Admit i \<or> l = Readmit i" "od_get (st_runs s) k = Some r" "l \<noteq> Readmit k"
  shows "\<exists>r'. od_get (st_runs s') k = Some r' \<and> row_evolves r r' \<and> rr_run_inputs r' = rr_run_inputs r"
proof -
  from run_step_create [OF assms(1-3)] obtain clk w a P where c: "s' = admit clk i w a (filter P (rows s)) s"
    "\<forall>r \<in> set (rows s). P r \<longrightarrow> active r" "l = Admit i \<longleftrightarrow> od_get (st_runs s) i = None"
    by (elim exE conjE) (rule that)
  have r: "r \<in> set (rows s)" "rr_run_id r = k" "rr_change_seq r \<le> st_change_seq s"
    using assms(4) store_ok_row [OF assms(2,4)] by (auto simp: mem_rows [OF assms(2)])
  have "k \<noteq> i" using assms(3-5) c(3) by auto
  with assms(4) r c(2) show ?thesis
    by (auto simp: c(1) get_admit [OF assms(2) refl] interrupt_row_evolves interrupt_row_inputs)
qed

lemma run_step_row:
  assumes "run_step l s s'" "store_ok s" "od_get (st_runs s) k = Some r" "l \<noteq> Snapshot k" "l \<noteq> Readmit k"
  shows "(l = Remove \<and> od_get (st_runs s') k = None)
    \<or> (\<exists>r'. od_get (st_runs s') k = Some r' \<and> row_evolves r r')"
proof (cases l)
  case (Admit i)
  with run_step_create_row [OF assms(1,2) _ assms(3,5), of i] show ?thesis by auto
next
  case (Readmit i)
  with run_step_create_row [OF assms(1,2) _ assms(3,5), of i] show ?thesis by auto
next
  case Other
  then have "row_update s s'" using assms by (auto intro: run_step_Other)
  with assms show ?thesis by (blast dest: row_update_evolves)
next
  case (Inputs i)
  then have "inputs_update i s s'" using assms by (auto intro: run_step_Inputs)
  with assms show ?thesis by (blast dest: inputs_update_evolves)
qed (use assms in \<open>auto elim!: run_step_SnapshotE run_step_RemoveE
  simp: get_put get_delete get_delete_ids delete_by_thread_def split: if_splits\<close>)

lemma run_step_absent:
  assumes "run_step l s s'" "store_ok s" "od_get (st_runs s) k = None" "l \<noteq> Snapshot k" "l \<noteq> Admit k"
  shows "od_get (st_runs s') k = None"
proof -
  have create: ?thesis if "l = Admit i \<or> l = Readmit i" for i
  proof -
    from run_step_create [OF assms(1,2) that] obtain clk w a P where c: "s' = admit clk i w a (filter P (rows s)) s"
      "l = Admit i \<longleftrightarrow> od_get (st_runs s) i = None"
      by (elim exE conjE) (rule that)
    then have "k \<noteq> i" using that assms(3,5) by auto
    then show ?thesis using assms(3) by (simp add: c(1) get_admit [OF assms(2) refl])
  qed
  show ?thesis
  proof (cases l)
    case Other
    then have "row_update s s'" using assms by (auto intro: run_step_Other)
    with assms(3) show ?thesis by (auto simp: row_update_def)
  next
    case (Inputs i)
    then have "inputs_update i s s'" using assms by (auto intro: run_step_Inputs)
    then obtain old st where "od_get (st_runs s) i = Some old"
      "\<And>k. od_get (st_runs s') k = (if k = i then Some (old\<lparr>rr_run_inputs := Some st\<rparr>) else od_get (st_runs s) k)"
      using inputs_update_get [OF assms(2)] by metis
    with assms(3) show ?thesis by auto
  qed (use assms create in \<open>auto elim!: run_step_SnapshotE run_step_RemoveE
    simp: get_put get_delete get_delete_ids delete_by_thread_def\<close>)
qed

text \<open>An index entry without a row of its thread is left by a readmission only.\<close>

definition stray :: "run_store \<Rightarrow> string \<Rightarrow> string \<Rightarrow> bool" where
  "stray s k t \<longleftrightarrow> k \<in> set (bucket s t) \<and> \<not> (\<exists>r. od_get (st_runs s) k = Some r \<and> rr_thread_id r = t)"

lemma stray_empty [simp]: "\<not> stray empty_store k t"
  by (simp add: stray_def empty_store_def bucket_def od_get_default_def)

lemma stray_drop_run:
  assumes "stray (unindex_run i (rr_thread_id run) (s\<lparr>st_runs := od_del i (st_runs s)\<rparr>)) k t" "od_get (st_runs s) i = Some run"
  shows "stray s k t"
  using assms by (auto simp: stray_def bucket_unindex_run delete_conv' split: if_splits)

lemma stray_delete_ids: "stray (snd (delete_ids u ids s)) k t \<Longrightarrow> stray s k t"
proof (induction ids arbitrary: s)
  case (Cons i ids)
  from Cons.prems show ?case
    unfolding snd_delete_ids_Cons by (auto dest!: Cons.IH dest: stray_drop_run split: option.splits if_splits)
qed simp

lemma run_step_stray:
  assumes "run_step l s s'" "store_ok s" "stray s' k t"
  shows "stray s k t \<or> l = Readmit k"
proof -
  have create: ?thesis if "l = Admit i \<or> l = Readmit i" for i
  proof -
    from run_step_create [OF assms(1,2) that] obtain clk w a P where "s' = admit clk i w a (filter P (rows s)) s"
      "l = Admit i \<longleftrightarrow> od_get (st_runs s) i = None"
      by (elim exE conjE) (rule that)
    then show ?thesis using assms(3) that
      by (cases "k = i"; cases "od_get (st_runs s) k")
        (auto simp: stray_def bucket_admit get_admit [OF assms(2) refl] split: if_splits)
  qed
  show ?thesis
  proof (cases l)
    case Other
    then have "row_update s s'" using assms by (auto intro: run_step_Other)
    with assms(3) show ?thesis by (auto simp: row_update_def stray_def row_evolves_def split: if_splits)
  next
    case (Inputs i)
    then have "inputs_update i s s'" using assms by (auto intro: run_step_Inputs)
    then obtain old st where "od_get (st_runs s) i = Some old" "rr_run_id old = i"
      "s' = store_row (old\<lparr>rr_run_inputs := Some st\<rparr>) s"
      using inputs_updateE [OF assms(2)] by metis
    with assms(3) show ?thesis by (auto simp: stray_def split: if_splits)
  next
    case (Snapshot i)
    with assms show ?thesis
      by (auto elim!: run_step_SnapshotE simp: stray_def bucket_put get_put split: if_splits)
  next
    case Remove
    with assms(1,3) show ?thesis
      by (auto elim!: run_step_RemoveE simp: delete_def delete_by_thread_def dest: stray_drop_run stray_delete_ids
          split: option.splits)
  qed (use create in auto)
qed

text \<open>A step other than a change of inputs keeps the inputs of the rows it keeps.\<close>

definition inputs_at :: "run_store \<Rightarrow> string \<Rightarrow> input_state option" where
  "inputs_at s k = Option.bind (od_get (st_runs s) k) rr_run_inputs"

lemma run_step_inputs:
  assumes "run_step l s s'" "store_ok s" "od_get (st_runs s') k = Some r'" "\<forall>i. l \<noteq> Inputs i"
  shows "rr_run_inputs r' = inputs_at s k \<or> l = Readmit k \<and> rr_run_inputs r' = None"
proof -
  have create: ?thesis if "l = Admit i \<or> l = Readmit i" for i
  proof -
    from run_step_create [OF assms(1,2) that] obtain clk w a P where c: "s' = admit clk i w a (filter P (rows s)) s"
      "l = Admit i \<longleftrightarrow> od_get (st_runs s) i = None"
      by (elim exE conjE) (rule that)
    with assms(3) that show ?thesis
      by (auto simp: inputs_at_def c(1) get_admit [OF assms(2) refl] admitted_row_def put_row_def interrupt_row_inputs
          split: if_splits)
  qed
  show ?thesis
  proof (cases l)
    case Other
    then have "row_update s s'" using assms by (auto intro: run_step_Other)
    with assms(3) show ?thesis by (auto simp: row_update_def inputs_at_def split: if_splits)
  next
    case (Snapshot i)
    with assms show ?thesis
      by (cases "od_get (st_runs s) i")
        (auto elim!: run_step_SnapshotE simp: get_put put_row_def inputs_at_def split: if_splits)
  next
    case Remove
    with assms show ?thesis
      by (auto elim!: run_step_RemoveE simp: get_delete get_delete_ids delete_by_thread_def inputs_at_def
          split: if_splits option.splits)
  qed (use assms create in auto)
qed

inductive run_steps :: "run_label list \<Rightarrow> run_store \<Rightarrow> run_store \<Rightarrow> bool" where
  nil: "run_steps [] s s"
| cons: "run_step l s t \<Longrightarrow> run_steps ls t u \<Longrightarrow> run_steps (l # ls) s u"

inductive_simps run_steps_Nil [simp]: "run_steps [] s s'"
inductive_simps run_steps_Cons: "run_steps (l # ls) s s'"

lemma run_steps_ok: "run_steps ls s s' \<Longrightarrow> store_ok s \<Longrightarrow> store_ok s'"
  by (induction rule: run_steps.induct) (auto dest: run_step_ok)

lemma run_steps_absent:
  "run_steps ls s s' \<Longrightarrow> store_ok s \<Longrightarrow> od_get (st_runs s) k = None
    \<Longrightarrow> Snapshot k \<notin> set ls \<Longrightarrow> Admit k \<notin> set ls \<Longrightarrow> od_get (st_runs s') k = None"
proof (induction rule: run_steps.induct)
  case (cons l s t ls u)
  then show ?case using run_step_ok [of l s t] run_step_absent [of l s t k] by auto
qed simp

lemma run_steps_row:
  "run_steps ls s s' \<Longrightarrow> store_ok s \<Longrightarrow> od_get (st_runs s) k = Some r
    \<Longrightarrow> Snapshot k \<notin> set ls \<Longrightarrow> Admit k \<notin> set ls \<Longrightarrow> Readmit k \<notin> set ls
    \<Longrightarrow> od_get (st_runs s') k = None \<or> (\<exists>r'. od_get (st_runs s') k = Some r' \<and> row_evolves r r')"
proof (induction arbitrary: r rule: run_steps.induct)
  case (cons l s t ls u)
  from cons.prems cons.hyps(1) have ok: "store_ok t" by (auto dest: run_step_ok)
  from cons.prems cons.hyps run_step_row [of l s t k r]
  consider "od_get (st_runs t) k = None" | r' where "od_get (st_runs t) k = Some r'" "row_evolves r r'"
    by fastforce
  then show ?case
  proof cases
    case 1
    with cons ok show ?thesis by (auto dest: run_steps_absent)
  next
    case 2
    with cons ok show ?thesis by (fastforce intro: row_evolves_trans)
  qed
qed simp

lemma run_steps_stray:
  "run_steps ls s s' \<Longrightarrow> store_ok s \<Longrightarrow> stray s' k t \<Longrightarrow> stray s k t \<or> Readmit k \<in> set ls"
proof (induction rule: run_steps.induct)
  case (cons l s t' ls u)
  then show ?case using run_step_ok [of l s t'] run_step_stray [of l s t' k t] by auto
qed simp

section \<open>Refusals\<close>

lemma settled_refuses:
  assumes "od_get (st_runs s) i = Some r" "settled r"
  shows "update_status clk i st e sr gv ow s = (False, s)"
    "start_run clk i s = (False, s)"
    "claim_for_takeover clk i g err sr s = (False, s)"
    "\<not> sf_finalized (fst (finalize_if_not_cancelled clk i st e sr gv ow s))"
    "snd (finalize_if_not_cancelled clk i st e sr gv ow s) = s"
    "update_lease clk i w l ai s = Inr (False, s)"
  using assms
  by (simp_all add: settled_def active_def update_status_def start_run_def claim_for_takeover_def
      finalize_if_not_cancelled_def update_lease_def refused_def)

lemma cancelled_refuses_finalize:
  assumes "od_get (st_runs s) i = Some r" "rr_cancel_action r = Some c"
  shows "\<not> sf_finalized (fst (finalize_if_not_cancelled clk i st e sr gv ow s))"
    "snd (finalize_if_not_cancelled clk i st e sr gv ow s) = s"
    "sf_cancel_action (fst (finalize_if_not_cancelled clk i st e sr gv None s)) = Some c"
  using assms by (simp_all add: finalize_if_not_cancelled_def refused_def)

lemma cancelled_refuses_success:
  assumes "od_get (st_runs s) i = Some r" "rr_cancel_action r = Some c"
  shows "update_status clk i ''success'' e sr gv (Some w) s = (False, s)"
  using assms by (simp add: update_status_def)

lemma live_owner_not_expired:
  "live_owner clk r w \<Longrightarrow> 0 \<le> g \<Longrightarrow> \<not> is_lease_expired clk (rr_lease_expires_at r) g"
  by (auto simp: live_owner_def dest: lease_grace_antimono [of _ _ g 0])

lemma live_owner_not_claimable:
  assumes "live_owner clk r v" "v \<noteq> w" "0 \<le> g"
  shows "\<not> claimable clk w g r"
  using live_owner_not_expired [OF assms(1,3)] assms(1,2)
  by (auto simp: claimable_def live_owner_def is_lease_expired_def lease_instant_def lease_cutoff_def
      split: option.splits)

interpretation change_feed: keyset_feed store_ok rows "\<lambda>r. (rr_change_seq r, rr_run_id r)"
proof
  fix s assume "store_ok s"
  then have "distinct (map rr_run_id (rows s))" by (rule distinct_row_ids)
  then show "distinct (map (\<lambda>r. (rr_change_seq r, rr_run_id r)) (rows s))"
    by (auto simp: distinct_map inj_on_def)
qed

lemma list_changed_page:
  "list_changed a i u (int n) s =
     feed_page (\<lambda>r. (rr_change_seq r, rr_run_id r)) (\<lambda>r. is_run r \<and> visible_to u r) (a, i) n (rows s)"
  by (simp add: list_changed_def feed_page_def py_upto_nonneg conj_assoc)

section \<open>Properties\<close>

text \<open>A concrete clock for the witnesses: a timestamp denotes its length, in microseconds.\<close>

definition length_clock :: "int \<Rightarrow> clock" where
  "length_clock t = \<lparr>clk_now = t, clk_iso = ''now'',
     clk_parse = (\<lambda>s. Some \<lparr>dt_wall = int (length s), dt_offset = Some 0\<rparr>), clk_unix = (\<lambda>_. None)\<rparr>"

lemma one_put: "run_steps [Snapshot i] s (put clk i a s)"
  by (rule run_steps.cons [OF run_step.put run_steps.nil])

lemma two_puts:
  "run_steps [Snapshot i, Snapshot j] s (put clk' j b (put clk i a s))"
  by (rule run_steps.cons [OF run_step.put run_steps.cons [OF run_step.put run_steps.nil]])

text \<open>
  C8. Every history of store calls from the empty store keeps the store well-formed: run ids are
  unique and every row is stored under its own id, no row has a change number above the store's,
  and the thread index lists every run in the bucket of its thread, once, with no empty bucket. It
  lists nothing else, and so is exact, up to the ids that an admission wrote over an existing row
  (\<^verbatim>\<open>create_thread_operation_atomic\<close> does not unindex the row that it replaces): an entry of a
  thread that has no such run is one of those. In particular a run that a later snapshot moves to
  another thread leaves its old bucket.
\<close>

theorem store_invariant:
  assumes "run_steps ls empty_store s"
  shows "store_ok s \<and> (\<forall>t k. k \<in> set (bucket s t)
    \<longrightarrow> (\<exists>r. od_get (st_runs s) k = Some r \<and> rr_thread_id r = t) \<or> Readmit k \<in> set ls)"
  using run_steps_ok [OF assms store_ok_empty] run_steps_stray [OF assms store_ok_empty, simplified] unfolding stray_def by blast

theorem store_invariant_witness:
  "let s = put (length_clock 0) ''r'' (default_args ''t2'') (put (length_clock 0) ''r'' (default_args ''t1'') empty_store)
   in store_ok s \<and> bucket s ''t1'' = [] \<and> ''r'' \<in> set (bucket s ''t2'')"
proof -
  let ?s = "put (length_clock 0) ''r'' (default_args ''t2'') (put (length_clock 0) ''r'' (default_args ''t1'') empty_store)"
  note inv = store_invariant [OF two_puts [of "''r''" "''r''" empty_store "length_clock 0" "default_args ''t2''" "length_clock 0" "default_args ''t1''"]]
  have "k \<notin> set (bucket ?s ''t1'')" for k
    by (simp add: bucket_put get_put put_row_def default_args_def) (simp add: empty_store_def bucket_def od_get_default_def)
  then have "bucket ?s ''t1'' = []" by (metis list.set_intros(1) neq_Nil_conv)
  moreover have "''r'' \<in> set (bucket ?s ''t2'')" by (simp add: bucket_put default_args_def)
  ultimately show ?thesis using inv by (simp only: Let_def simp_thms)
qed

text \<open>A readmission under another thread does leave one, and the old thread then lists the run.\<close>

lemma readmission_leaves_a_stray:
  "\<exists>new claimed s. create_thread_operation_atomic (length_clock 0) ''r'' ''w'' 10 (default_args ''t2'')
      (put (length_clock 0) ''r'' (default_args ''t1'') empty_store) = Inr ((new, claimed), s)
    \<and> map rr_thread_id (thread_rows s ''t1'') = [''t2'']"
proof -
  let ?s = "put (length_clock 0) ''r'' (default_args ''t1'') empty_store"
  have rows: "rows ?s = [(put_row (length_clock 0) ''r'' (default_args ''t1'') None)\<lparr>rr_change_seq := 1\<rparr>]"
    by (simp add: rows_def put_def Let_def empty_store_def mark_changed_conv store_row_def put_row_def)
  have bucket: "bucket ?s ''t1'' = [''r'']"
    by (simp add: put_def Let_def empty_store_def bucket_index_run default_args_def) (simp add: bucket_def od_get_default_def)
  have c: "admission_conflict (length_clock 0) ''w'' 10 (default_args ''t2'') ?s = Inr []"
    unfolding admission_conflict_def rows by (simp add: put_row_def default_args_def)
  let ?a = "admit (length_clock 0) ''r'' ''w'' (default_args ''t2'') [] ?s"
  have "thread_rows ?a ''t1'' = [admitted_row (length_clock 0) ''r'' ''w'' (default_args ''t2'') (st_change_seq ?s + 1)]"
    by (simp add: thread_rows_def admit_def Let_def bucket_index_run bucket) (simp add: map_filter_simps default_args_def)
  with c show ?thesis
    by (simp add: create_thread_operation_atomic_def next_change_seq_def admit_def Let_def default_args_def)
qed

text \<open>
  C7. A run in a final status (anything but pending, running and interrupted) is final: as long as
  no snapshot write or admission of the same id intervenes, every history of calls leaves its
  status as it is or deletes the row, and from then on a status update, a start, a takeover, a
  finalization and a lease renewal are all refused and change nothing.
\<close>

theorem settled_run_is_final:
  assumes "run_steps ls0 empty_store s" "od_get (st_runs s) i = Some r" "settled r"
    "run_steps ls s s'" "Snapshot i \<notin> set ls" "Admit i \<notin> set ls" "Readmit i \<notin> set ls"
  shows "(case od_get (st_runs s') i of None \<Rightarrow> True | Some r' \<Rightarrow> rr_status r' = rr_status r)
    \<and> update_status clk i st e sr gv ow s' = (False, s') \<and> start_run clk i s' = (False, s')
    \<and> claim_for_takeover clk i g err sr s' = (False, s')
    \<and> \<not> sf_finalized (fst (finalize_if_not_cancelled clk i st e sr gv ow s'))
    \<and> snd (finalize_if_not_cancelled clk i st e sr gv ow s') = s'
    \<and> update_lease clk i w l ai s' = Inr (False, s')"
proof -
  have "store_ok s" using assms(1) store_ok_empty by (rule run_steps_ok)
  from run_steps_row [OF assms(4) this assms(2,5,6,7)] show ?thesis
  proof
    assume "od_get (st_runs s') i = None"
    then show ?thesis
      by (simp add: update_status_def start_run_def claim_for_takeover_def finalize_if_not_cancelled_def
          update_lease_def refused_def)
  next
    assume "\<exists>r'. od_get (st_runs s') i = Some r' \<and> row_evolves r r'"
    then obtain r' where r': "od_get (st_runs s') i = Some r'" "row_evolves r r'" by blast
    with assms(3) have "rr_status r' = rr_status r" "settled r'" by (simp_all add: row_evolves_def settled_def)
    with r' settled_refuses [OF r'(1)] show ?thesis by simp
  qed
qed

theorem settled_run_is_final_witness:
  "let c = length_clock 0; s = put c ''r'' ((default_args ''t'')\<lparr>pa_status := ''success''\<rparr>) empty_store;
       s' = update_model_name c ''r'' (Some ''m'') s
   in update_status c ''r'' ''running'' None None None None s' = (False, s')
      \<and> claim_for_takeover c ''r'' 0 ''lost'' None s' = (False, s')"
proof -
  let ?c = "length_clock 0"
  let ?s = "put ?c ''r'' ((default_args ''t'')\<lparr>pa_status := ''success''\<rparr>) empty_store"
  have "run_steps [Other] ?s (update_model_name ?c ''r'' (Some ''m'') ?s)"
    by (rule run_steps.cons [OF run_step.update_model_name run_steps.nil])
  moreover obtain r where "od_get (st_runs ?s) ''r'' = Some r" "settled r"
    by (simp add: get_put settled_def put_row_def default_args_def)
  ultimately show ?thesis
    using settled_run_is_final [where i = "''r''" and r = r and ls = "[Other]" and clk = ?c, OF one_put]
    by (simp add: Let_def)
qed

text \<open>
  C4. A cancellation is never lost: once a run has a cancel action, every history of calls without
  a deletion and without a new admission under the id of the run keeps the row and that very action,
  also under snapshot writes, later cancel requests and admissions that interrupt the run; and in every later store no guarded finalization of the run succeeds, nor does an
  owner's transition to success.
\<close>

theorem cancellation_is_never_lost:
  assumes "run_steps ls0 empty_store s" "od_get (st_runs s) i = Some r" "rr_cancel_action r = Some c"
    "run_steps ls s s'" "Remove \<notin> set ls" "Readmit i \<notin> set ls"
  shows "(\<exists>r'. od_get (st_runs s') i = Some r' \<and> rr_cancel_action r' = Some c)
    \<and> \<not> sf_finalized (fst (finalize_if_not_cancelled clk i st e sr gv ow s'))
    \<and> snd (finalize_if_not_cancelled clk i st e sr gv ow s') = s'
    \<and> update_status clk i ''success'' e sr gv (Some w) s' = (False, s')"
proof -
  have "store_ok s" using assms(1) store_ok_empty by (rule run_steps_ok)
  from assms(4) this assms(2,3,5,6) have "\<exists>r'. od_get (st_runs s') i = Some r' \<and> rr_cancel_action r' = Some c"
  proof (induction arbitrary: r rule: run_steps.induct)
    case (cons l s t ls u)
    have "\<exists>r'. od_get (st_runs t) i = Some r' \<and> rr_cancel_action r' = Some c"
    proof (cases "l = Snapshot i")
      case True
      with cons show ?thesis by (auto elim!: run_step_SnapshotE simp: get_put put_row_def)
    next
      case False
      with run_step_row [OF cons.hyps(1) cons.prems(1,2)] cons.prems show ?thesis
        by (auto simp: row_evolves_def)
    qed
    moreover from cons have "store_ok t" by (auto dest: run_step_ok)
    ultimately show ?case using cons by auto
  qed auto
  then obtain r' where r': "od_get (st_runs s') i = Some r'" "rr_cancel_action r' = Some c" by blast
  then show ?thesis
    using cancelled_refuses_finalize(1,2) [OF r'] cancelled_refuses_success [OF r'] by simp
qed

theorem cancellation_is_never_lost_witness:
  "\<exists>s s'. run_steps [Snapshot ''r'', Other] empty_store s \<and> run_steps [Snapshot ''r''] s s'
     \<and> \<not> sf_finalized (fst (finalize_if_not_cancelled (length_clock 0) ''r'' ''success'' None None None None s'))"
proof -
  let ?c = "length_clock 0"
  let ?s = "put ?c ''r'' (default_args ''t'') empty_store"
  obtain ca s where c: "request_cancel ?c ''r'' ''rollback'' ?s = Inr (ca, s)"
    and r: "\<exists>r. od_get (st_runs s) ''r'' = Some r \<and> rr_cancel_action r = Some ''rollback''"
    by (simp add: request_cancel_def get_put put_row_def default_args_def active_def empty_store_def Let_def)
  then obtain r where r: "od_get (st_runs s) ''r'' = Some r" "rr_cancel_action r = Some ''rollback''" by blast
  have h: "run_steps [Snapshot ''r'', Other] empty_store s"
    by (rule run_steps.cons [OF run_step.put run_steps.cons [OF run_step.request_cancel [OF c] run_steps.nil]])
  have p: "run_steps [Snapshot ''r''] s (put ?c ''r'' (default_args ''t'') s)" by (rule one_put)
  from cancellation_is_never_lost [OF h r p, of ?c "''success''" None None None None] h p
  show ?thesis by auto
qed

text \<open>
  C5. A worker that holds a live lease is never displaced: while it does, no other worker can take
  the run over, renew or take its lease, set its status, finalize it or change its inputs; and an
  admission on the thread by another worker, under any strategy, ends in an error.
\<close>

theorem live_owner_is_exclusive:
  assumes "od_get (st_runs s) i = Some r" "store_ok s" "active r" "live_owner clk r v" "v \<noteq> w" "0 \<le> g"
  shows "claim_for_takeover clk i g err sr s = (False, s)
    \<and> update_lease clk i w l ai s = Inr (False, s)
    \<and> update_status clk i st e sr gv (Some w) s = (False, s)
    \<and> finalize_if_not_cancelled clk i st e sr gv (Some w) s = (refused None, s)
    \<and> mutate_run_inputs clk i change None (Some w) s = Inl (InputConflict ''Run ownership changed'')
    \<and> (pa_thread_id a = rr_thread_id r
         \<longrightarrow> pa_multitask_strategy a \<in> {''reject'', ''interrupt'', ''rollback''}
         \<longrightarrow> (\<exists>x. create_thread_operation_atomic clk j w g a s = Inl x))"
proof -
  have w: "\<not> live_owner clk r w" "rr_owner_worker_id r \<noteq> Some w"
    using assms(4,5) by (auto simp: live_owner_def)
  have "\<exists>x. create_thread_operation_atomic clk j w g a s = Inl x"
    if t: "pa_thread_id a = rr_thread_id r"
      "pa_multitask_strategy a \<in> {''reject'', ''interrupt'', ''rollback''}"
  proof (cases "admission_conflict clk w g a s")
    case (Inr cs)
    have "r \<in> set (rows s)" using mem_rows [OF assms(2), of r] store_ok_row [OF assms(2,1)] assms(1) by simp
    with admission_Inr [OF Inr t(2)] t(1) assms(3) have "claimable clk w g r" by (auto simp: thread_active_def)
    with live_owner_not_claimable [OF assms(4-6)] show ?thesis by simp
  qed (simp add: create_thread_operation_atomic_def)
  moreover have "claim_for_takeover clk i g err sr s = (False, s)"
    using assms(1,3) live_owner_not_expired [OF assms(4,6)] by (simp add: claim_for_takeover_def)
  ultimately show ?thesis
    using assms(1) w by (simp add: update_lease_def update_status_def finalize_if_not_cancelled_def
      mutate_run_inputs_def visible_to_def refused_def)
qed

theorem live_owner_is_exclusive_witness:
  "claim_for_takeover (length_clock 2) ''r'' 0 ''lost'' None
     (put (length_clock 0) ''r'' ((default_args ''t'')\<lparr>pa_owner_worker_id := Some ''v'',
        pa_lease_expires_at := Some ''12345''\<rparr>) empty_store)
   = (False, put (length_clock 0) ''r'' ((default_args ''t'')\<lparr>pa_owner_worker_id := Some ''v'',
        pa_lease_expires_at := Some ''12345''\<rparr>) empty_store)"
  by (rule live_owner_is_exclusive [where v = "''v''" and w = "''w''", THEN conjunct1])
    (auto simp: get_put put_ok store_ok_empty put_row_def default_args_def active_def live_owner_def
      is_lease_expired_def length_clock_def as_utc_def seconds_def)

text \<open>
  C6. A successful admission under any of the three strategies leaves exactly one active run on
  the thread, the new one, which is pending and owned by the admitting worker. It interrupted
  exactly the runs that were active there (none under \<^verbatim>\<open>reject\<close>), each its own, without a readable
  lease or with an expired one; all the rows it wrote share one new change number, and every other
  row is unchanged. An admission under the id of an older run, which it replaces, is no exception.
\<close>

theorem admission_leaves_one_active_run:
  assumes "run_steps ls empty_store s"
    "pa_multitask_strategy a \<in> {''reject'', ''interrupt'', ''rollback''}"
    "create_thread_operation_atomic clk i w g a s = Inr ((new, claimed), s')"
  shows "filter (thread_active (pa_thread_id a)) (rows s') = [new]
    \<and> rr_status new = ''pending'' \<and> rr_owner_worker_id new = Some w
    \<and> rr_change_seq new = st_change_seq s + 1 \<and> st_change_seq s' = st_change_seq s + 1
    \<and> claimed = map (interrupt_row clk w (st_change_seq s + 1))
                  (filter (thread_active (pa_thread_id a)) (rows s))
    \<and> list_all (claimable clk w g) (filter (thread_active (pa_thread_id a)) (rows s))
    \<and> (pa_multitask_strategy a = ''reject'' \<longrightarrow> claimed = [])
    \<and> (\<forall>k. k \<noteq> i \<longrightarrow> od_get (st_runs s') k =
         map_option (\<lambda>r. if thread_active (pa_thread_id a) r
                         then interrupt_row clk w (st_change_seq s + 1) r else r) (od_get (st_runs s) k))"
proof -
  let ?t = "thread_active (pa_thread_id a)" and ?q = "st_change_seq s + 1"
  have ok: "store_ok s" using assms(1) store_ok_empty by (rule run_steps_ok)
  from assms(3) obtain cs where cs: "admission_conflict clk w g a s = Inr cs"
    "new = admitted_row clk i w a ?q" "claimed = map (interrupt_row clk w ?q) cs" "s' = admit clk i w a cs s"
    by (rule create_Inr)
  from admission_Inr [OF cs(1) assms(2)] have c: "cs = filter ?t (rows s)" "\<forall>r \<in> set cs. claimable clk w g r"
    "pa_multitask_strategy a = ''reject'' \<longrightarrow> cs = []" by auto
  note get = get_admit [OF ok c(1), of clk i w a, folded cs(4)]
  have ok': "store_ok s'" unfolding cs(4) using ok c(1) by (rule admit_ok)
  have seq: "st_change_seq s' = ?q" by (simp add: cs(4) admit_def Let_def)
  have "filter ?t (rows s') = [new]"
  proof (rule filter_eq_singleton)
    show "distinct (rows s')" using distinct_row_ids [OF ok'] by (simp add: distinct_map)
    show "set (filter ?t (rows s')) = {new}"
    proof -
      have x: "interrupt_row clk w ?q z = r \<Longrightarrow> \<not> ?t r" for z r
        by (auto simp: thread_active_def active_def)
      have "r = new" if r: "r \<in> set (rows s')" "?t r" for r
      proof (cases "rr_run_id r = i")
        case True
        with r(1) get [of i] show ?thesis by (simp add: mem_rows [OF ok'] cs(2))
      next
        case False
        with r(1) get [of "rr_run_id r"] obtain r0 where r0: "r = (if ?t r0 then interrupt_row clk w ?q r0 else r0)"
          by (auto simp: mem_rows [OF ok'])
        show ?thesis
        proof (cases "?t r0")
          case True
          with r0 have "interrupt_row clk w ?q r0 = r" by (simp only: if_True)
          with x [of r0 r] r(2) show ?thesis by blast
        next
          case False
          with r0 have "r = r0" by (simp only: if_False)
          with False r(2) show ?thesis by blast
        qed
      qed
      moreover have "new \<in> set (rows s')"
        using get [of i] by (simp add: mem_rows [OF ok'] cs(2))
      moreover have "?t new" by (simp add: cs(2) thread_active_def active_def)
      ultimately show ?thesis unfolding set_filter by blast
    qed
  qed
  moreover have "rr_owner_worker_id new = Some w" by (simp add: cs(2) admitted_row_def put_row_def)
  moreover have "list_all (claimable clk w g) (filter ?t (rows s))"
    using c(2) unfolding c(1) list_all_iff .
  moreover have "od_get (st_runs s') k =
      map_option (\<lambda>r. if ?t r then interrupt_row clk w ?q r else r) (od_get (st_runs s) k)" if "k \<noteq> i" for k
    using get [of k] that by (simp only: if_False)
  moreover have "rr_status new = ''pending''" "rr_change_seq new = ?q" by (simp_all add: cs(2))
  moreover have "claimed = map (interrupt_row clk w ?q) (filter ?t (rows s))"
    "pa_multitask_strategy a = ''reject'' \<longrightarrow> claimed = []"
    using c(3) unfolding cs(3) c(1) by simp_all
  ultimately show ?thesis using seq by blast
qed

theorem admission_leaves_one_active_run_witness:
  "\<exists>new claimed s'. create_thread_operation_atomic (length_clock 0) ''r2'' ''w'' 10
       ((default_args ''t'')\<lparr>pa_multitask_strategy := ''interrupt''\<rparr>)
       (put (length_clock 0) ''r1'' ((default_args ''t'')\<lparr>pa_owner_worker_id := Some ''w''\<rparr>) empty_store)
       = Inr ((new, claimed), s')
     \<and> filter (thread_active ''t'') (rows s') = [new] \<and> length claimed = 1"
proof -
  let ?a = "(default_args ''t'')\<lparr>pa_multitask_strategy := ''interrupt''\<rparr>"
  let ?s = "put (length_clock 0) ''r1'' ((default_args ''t'')\<lparr>pa_owner_worker_id := Some ''w''\<rparr>) empty_store"
  have s: "st_runs ?s = [(''r1'', (put_row (length_clock 0) ''r1''
      ((default_args ''t'')\<lparr>pa_owner_worker_id := Some ''w''\<rparr>) None)\<lparr>rr_change_seq := 1\<rparr>)]"
    by (simp add: put_def Let_def empty_store_def mark_changed_conv store_row_def put_row_def)
  have n: "length (filter (thread_active ''t'') (rows ?s)) = 1"
    unfolding rows_def s by (simp add: thread_active_def put_row_def default_args_def active_def)
  obtain new claimed s' where c: "create_thread_operation_atomic (length_clock 0) ''r2'' ''w'' 10 ?a ?s
      = Inr ((new, claimed), s')"
    unfolding create_thread_operation_atomic_def admission_conflict_def rows_def s
    by (simp add: put_row_def default_args_def active_def lease_instant_def is_run_def Let_def next_change_seq_def)
  from admission_leaves_one_active_run [OF one_put _ c] n c show ?thesis
    by (auto simp: default_args_def)
qed

text \<open>
  The change feed pages without gaps or repeats: the page that a reader fetches at the last
  row of its previous page continues it exactly, so two pages of \<open>m\<close> and \<open>n\<close> rows are one page of
  \<open>m + n\<close>; and a page as long as the store has every visible run past the cursor.
\<close>

theorem change_feed_pages:
  assumes "run_steps ls empty_store s" "0 < m" "list_changed a i u (int m) s \<noteq> []"
  shows "list_changed a i u (int (m + n)) s = list_changed a i u (int m) s
      @ list_changed (rr_change_seq (last (list_changed a i u (int m) s)))
          (rr_run_id (last (list_changed a i u (int m) s))) u (int n) s
    \<and> (\<forall>r \<in> set (rows s). is_run r \<and> visible_to u r \<and> (a, i) < (rr_change_seq r, rr_run_id r)
         \<longrightarrow> r \<in> set (list_changed a i u (int (length (rows s))) s))"
proof
  show "list_changed a i u (int (m + n)) s = list_changed a i u (int m) s
      @ list_changed (rr_change_seq (last (list_changed a i u (int m) s)))
          (rr_run_id (last (list_changed a i u (int m) s))) u (int n) s"
    using change_feed.page_continues [OF run_steps_ok [OF assms(1) store_ok_empty] assms(2), of _ "(a, i)" n]
      assms(3) by (simp only: list_changed_page)
qed (auto simp: list_changed_page intro!: change_feed.page_complete)

theorem change_feed_pages_witness:
  "let s = put (length_clock 0) ''b'' (default_args ''t'') (put (length_clock 0) ''a'' (default_args ''t'') empty_store)
   in list_changed 0 [] None 2 s = list_changed 0 [] None 1 s @ list_changed 1 ''a'' None 1 s"
proof -
  let ?s = "put (length_clock 0) ''b'' (default_args ''t'') (put (length_clock 0) ''a'' (default_args ''t'') empty_store)"
  have page: "map (\<lambda>r. (rr_change_seq r, rr_run_id r)) (list_changed 0 [] None (int 1) ?s) = [(1, ''a'')]"
    by (simp add: list_changed_def rows_def put_def Let_def empty_store_def mark_changed_conv store_row_def
        put_row_def default_args_def is_run_def visible_to_def py_upto_nonneg index_run_def less_prod_def
        less_eq_prod_def)
  then obtain r where r: "list_changed 0 [] None (int 1) ?s = [r]" "rr_change_seq r = 1" "rr_run_id r = ''a''"
    by auto
  have "0 < (1::nat)" "list_changed 0 [] None (int 1) ?s \<noteq> []" using r by simp_all
  from change_feed_pages [OF two_puts this, of 1] r show ?thesis by (simp add: Let_def)
qed

end
