(* ===== verification/RunInputs.thy ===== *)
theory RunInputs
  imports RunStoreProofs
begin

text \<open>
  The durable inputs of an admitted run
  (\<^verbatim>\<open>backend/packages/harness/deerflow/runtime/runs/inputs.py\<close>): texts that a user queues behind a run
  or steers it with. Every operation hands the store a change of the input state; the change runs
  on a copy, so that an error leaves the row untouched. The queue is bounded, and each item moves
  through pending, applying, applied, dispatching, not applied and cancelled.

  \<^verbatim>\<open>uuid5\<close> is a parameter: the code relies on nothing but its being a function of the run and the
  request. The context of an item is a JSON dictionary; two of them are compared as sets of
  entries.
\<close>

section \<open>Limits\<close>

definition MAX_INPUTS :: nat where "MAX_INPUTS = 16"
definition MAX_INPUT_BYTES :: nat where "MAX_INPUT_BYTES = 16 * 1024"
definition MAX_TOTAL_BYTES :: nat where "MAX_TOTAL_BYTES = 64 * 1024"

text \<open>\<^verbatim>\<open>len(s.encode("utf-8"))\<close> for code points below 256.\<close>

definition utf8_len :: "string \<Rightarrow> nat" where
  "utf8_len s = sum_list (map (\<lambda>c. if (of_char c :: nat) < 128 then 1 else 2) s)"

section \<open>Changes\<close>

type_synonym 's change = "input_state \<Rightarrow> run_row \<Rightarrow> store_error + input_state"

definition find_item :: "string \<Rightarrow> input_state \<Rightarrow> run_input option" where
  "find_item i st = find (\<lambda>x. in_id x = i) (is_items st)"

fun update_first :: "('a \<Rightarrow> bool) \<Rightarrow> ('a \<Rightarrow> 'a) \<Rightarrow> 'a list \<Rightarrow> 'a list" where
  "update_first P f [] = []"
| "update_first P f (x # xs) = (if P x then f x # xs else x # update_first P f xs)"

definition update_item :: "string \<Rightarrow> (run_input \<Rightarrow> run_input) \<Rightarrow> input_state \<Rightarrow> input_state" where
  "update_item i f st = st\<lparr>is_items := update_first (\<lambda>x. in_id x = i) f (is_items st)\<rparr>"

definition live_run :: "run_row \<Rightarrow> bool" where
  "live_run row \<longleftrightarrow> active row \<and> non_empty (rr_cancel_action row) = None"

definition new_item ::
  "clock \<Rightarrow> (string \<Rightarrow> string \<Rightarrow> string) \<Rightarrow> string \<Rightarrow> string \<Rightarrow> string \<Rightarrow> string \<Rightarrow> (string \<times> pyval) list
     \<Rightarrow> string \<Rightarrow> run_input" where
  "new_item clk uuid5 run_id request_id t mode context source =
     \<lparr>in_id = request_id, in_text = t, in_mode = mode, in_context = context, in_source = source,
      in_status = ''pending'', in_message_id = uuid5 run_id request_id, in_created_at = clk_iso clk,
      in_run_id = None\<rparr>"

definition submit_change ::
  "clock \<Rightarrow> (string \<Rightarrow> string \<Rightarrow> string) \<Rightarrow> string \<Rightarrow> string \<Rightarrow> string \<Rightarrow> string \<Rightarrow> (string \<times> pyval) list
     \<Rightarrow> string \<Rightarrow> input_state \<Rightarrow> run_row \<Rightarrow> store_error + input_state" where
  "submit_change clk uuid5 run_id request_id t mode context source st row =
     (case find_item request_id st of
        Some old \<Rightarrow>
          if in_text old \<noteq> t \<or> in_mode old \<noteq> mode \<or> set (in_context old) \<noteq> set context
             \<or> in_source old \<noteq> source
          then Inl (InputConflict ''Request ID already belongs to different input'') else Inr st
      | None \<Rightarrow>
          if is_closed st \<or> \<not> active row \<or> \<not> is_run row \<or> non_empty (rr_cancel_action row) \<noteq> None
          then Inl (InputConflict ''Run is finishing or stopped; this input was not accepted'')
          else if MAX_INPUTS \<le> length (is_items st)
                  \<or> MAX_TOTAL_BYTES < sum_list (map (\<lambda>x. utf8_len (in_text x)) (is_items st)) + utf8_len t
          then Inl (InputConflict ''Too many inputs for this Run; wait for it to finish'')
          else Inr (st\<lparr>is_items :=
                 is_items st @ [new_item clk uuid5 run_id request_id t mode context source]\<rparr>))"

definition restatus ::
  "(run_input \<Rightarrow> bool) \<Rightarrow> string \<Rightarrow> input_state \<Rightarrow> input_state" where
  "restatus P status st =
     st\<lparr>is_items := map (\<lambda>x. if P x then x\<lparr>in_status := status\<rparr> else x) (is_items st)\<rparr>"

definition acknowledge_change :: "string list \<Rightarrow> input_state \<Rightarrow> run_row \<Rightarrow> store_error + input_state" where
  "acknowledge_change ids st row =
     Inr (restatus (\<lambda>x. in_id x \<in> set ids \<and> in_mode x = ''steer'' \<and> in_status x = ''applying'') ''applied'' st)"

definition claim_steer_change :: "string list \<Rightarrow> input_state \<Rightarrow> run_row \<Rightarrow> store_error + input_state" where
  "claim_steer_change ids st row =
     (if \<not> live_run row then Inl (InputConflict ''Run stopped before applying input'')
      else Inr (restatus (\<lambda>x. in_id x \<in> set ids \<and> in_mode x = ''steer'' \<and> in_status x = ''pending'')
                  ''applying'' st))"

definition close_change :: "string list \<Rightarrow> input_state \<Rightarrow> run_row \<Rightarrow> store_error + input_state" where
  "close_change delivered st row =
     Inr (if list_ex (\<lambda>x. in_mode x = ''steer'' \<and> in_status x \<in> {''pending'', ''applying''}
                          \<and> in_id x \<notin> set delivered) (is_items st)
          then st else st\<lparr>is_closed := True\<rparr>)"

definition reopen_change :: "input_state \<Rightarrow> run_row \<Rightarrow> store_error + input_state" where
  "reopen_change st row = Inr (if live_run row then st\<lparr>is_closed := False\<rparr> else st)"

definition pause_change :: "input_state \<Rightarrow> run_row \<Rightarrow> store_error + input_state" where
  "pause_change st row =
     Inr ((restatus (\<lambda>x. in_status x \<in> {''pending'', ''applying''}) ''not_applied'' st)\<lparr>is_closed := True\<rparr>)"

definition dispatched_change :: "string \<Rightarrow> string \<Rightarrow> input_state \<Rightarrow> run_row \<Rightarrow> store_error + input_state" where
  "dispatched_change input_id run_id st row =
     (case find_item input_id st of
        None \<Rightarrow> Inl (RuntimeError ''coroutine raised StopIteration'')
      | Some item \<Rightarrow>
          if in_run_id item \<noteq> None \<and> in_run_id item \<noteq> Some run_id
          then Inl (InputConflict ''Queued input already belongs to another Run'')
          else Inr (update_item input_id
                 (\<lambda>x. x\<lparr>in_status := ''applied'', in_run_id := Some run_id\<rparr>) st))"

definition claim_change :: "string \<Rightarrow> bool \<Rightarrow> input_state \<Rightarrow> run_row \<Rightarrow> store_error + input_state" where
  "claim_change input_id retry st row =
     (if active row then Inl (InputConflict ''The current Run has not finished'')
      else (case find_item input_id st of
              None \<Rightarrow> Inl (InputConflict ''Input not found or removed'')
            | Some item \<Rightarrow>
                if in_status item = ''cancelled'' then Inl (InputConflict ''Input not found or removed'')
                else if in_status item = ''applied''
                then (if non_empty (in_run_id item) = None
                      then Inl (InputConflict ''This input was already applied'') else Inr st)
                else if \<not> retry \<and> (rr_status row \<noteq> ''success'' \<or> non_empty (rr_stop_reason row) \<noteq> None
                          \<or> in_mode item \<noteq> ''queue'' \<or> in_status item = ''not_applied'')
                then Inl (InputConflict ''Queued input requires an explicit retry'')
                else Inr (update_item input_id (\<lambda>x. x\<lparr>in_status := ''dispatching''\<rparr>) st)))"

definition cancel_change :: "string \<Rightarrow> input_state \<Rightarrow> run_row \<Rightarrow> store_error + input_state" where
  "cancel_change input_id st row =
     (case find_item input_id st of
        None \<Rightarrow> Inl (InputConflict ''This input is already being applied'')
      | Some item \<Rightarrow>
          if in_status item \<notin> {''pending'', ''not_applied'', ''cancelled''}
          then Inl (InputConflict ''This input is already being applied'')
          else Inr (update_item input_id (\<lambda>x. x\<lparr>in_status := ''cancelled''\<rparr>) st))"

section \<open>Operations on the store\<close>

record run_inputs =
  ri_run_id :: string
  ri_user_id :: "string option"
  ri_worker_id :: "string option"

definition read_inputs :: "run_inputs \<Rightarrow> run_store \<Rightarrow> store_error + input_state" where
  "read_inputs c s =
     (case get (ri_run_id c) (ri_user_id c) s of
        None \<Rightarrow> Inl (InputConflict ''Run not found'')
      | Some row \<Rightarrow> Inr (case rr_run_inputs row of None \<Rightarrow> empty_input_state | Some st \<Rightarrow> st))"

definition change_inputs ::
  "clock \<Rightarrow> run_inputs \<Rightarrow> (input_state \<Rightarrow> run_row \<Rightarrow> store_error + input_state) \<Rightarrow> bool \<Rightarrow> run_store
     \<Rightarrow> store_error + (input_state \<times> run_store)" where
  "change_inputs clk c change owned s =
     (if owned \<and> ri_worker_id c = None
      then Inl (InputConflict ''Run input application requires its owning worker'')
      else mutate_run_inputs clk (ri_run_id c) change (ri_user_id c)
             (if owned then ri_worker_id c else None) s)"

definition item_of :: "string \<Rightarrow> input_state \<times> run_store \<Rightarrow> store_error + (run_input \<times> run_store)" where
  "item_of i r =
     (case find_item i (fst r) of
        None \<Rightarrow> Inl (RuntimeError ''coroutine raised StopIteration'')
      | Some x \<Rightarrow> Inr (x, snd r))"

definition submit ::
  "clock \<Rightarrow> (string \<Rightarrow> string \<Rightarrow> string) \<Rightarrow> run_inputs \<Rightarrow> string \<Rightarrow> string \<Rightarrow> string
     \<Rightarrow> (string \<times> pyval) list \<Rightarrow> string \<Rightarrow> run_store \<Rightarrow> store_error + (run_input \<times> run_store)" where
  "submit clk uuid5 c request_id t mode context source s =
     (if py_strip t = [] \<or> MAX_INPUT_BYTES < utf8_len t
      then Inl (InputConflict ''Input must contain text of at most 16 KiB'')
      else if mode \<notin> {''queue'', ''steer''} \<or> \<not> (1 \<le> length request_id \<and> length request_id \<le> 96)
      then Inl (InputConflict ''Invalid input mode or request ID'')
      else bind_sum
             (change_inputs clk c
                (submit_change clk uuid5 (ri_run_id c) request_id t mode
                   (if mode = ''queue'' then context else []) source) False s)
             (item_of request_id))"

definition acknowledge ::
  "clock \<Rightarrow> run_inputs \<Rightarrow> string list \<Rightarrow> run_store \<Rightarrow> store_error + run_store" where
  "acknowledge clk c ids s = map_sum id snd (change_inputs clk c (acknowledge_change ids) True s)"

definition claim_steer ::
  "clock \<Rightarrow> run_inputs \<Rightarrow> string list \<Rightarrow> run_store \<Rightarrow> store_error + (run_input list \<times> run_store)" where
  "claim_steer clk c ids s =
     map_sum id (\<lambda>(st, s'). (filter (\<lambda>x. in_id x \<in> set ids \<and> in_mode x = ''steer''
                                      \<and> in_status x = ''applying'') (is_items st), s'))
       (change_inputs clk c (claim_steer_change ids) True s)"

definition close :: "clock \<Rightarrow> run_inputs \<Rightarrow> string list \<Rightarrow> run_store \<Rightarrow> store_error + (bool \<times> run_store)" where
  "close clk c delivered s =
     map_sum id (\<lambda>(st, s'). (is_closed st, s')) (change_inputs clk c (close_change delivered) True s)"

definition reopen :: "clock \<Rightarrow> run_inputs \<Rightarrow> run_store \<Rightarrow> store_error + run_store" where
  "reopen clk c s = map_sum id snd (change_inputs clk c reopen_change True s)"

definition pause :: "clock \<Rightarrow> run_inputs \<Rightarrow> run_store \<Rightarrow> store_error + run_store" where
  "pause clk c s = map_sum id snd (change_inputs clk c pause_change False s)"

definition dispatched ::
  "clock \<Rightarrow> run_inputs \<Rightarrow> string \<Rightarrow> string \<Rightarrow> run_store \<Rightarrow> store_error + run_store" where
  "dispatched clk c input_id run_id s =
     map_sum id snd (change_inputs clk c (dispatched_change input_id run_id) False s)"

definition claim ::
  "clock \<Rightarrow> run_inputs \<Rightarrow> string \<Rightarrow> bool \<Rightarrow> run_store \<Rightarrow> store_error + (run_input \<times> run_store)" where
  "claim clk c input_id retry s =
     bind_sum (change_inputs clk c (claim_change input_id retry) False s) (item_of input_id)"

definition cancel :: "clock \<Rightarrow> run_inputs \<Rightarrow> string \<Rightarrow> run_store \<Rightarrow> store_error + run_store" where
  "cancel clk c input_id s = map_sum id snd (change_inputs clk c (cancel_change input_id) False s)"

section \<open>Invariant of the queue\<close>

definition item_ok :: "run_input \<Rightarrow> bool" where
  "item_ok x \<longleftrightarrow> in_mode x \<in> {''queue'', ''steer''} \<and> utf8_len (in_text x) \<le> MAX_INPUT_BYTES
     \<and> py_strip (in_text x) \<noteq> [] \<and> in_id x \<noteq> [] \<and> length (in_id x) \<le> 96
     \<and> (in_mode x = ''steer'' \<longrightarrow> in_context x = [])
     \<and> in_status x \<in> {''pending'', ''applying'', ''applied'', ''not_applied'', ''dispatching'', ''cancelled''}
     \<and> (in_run_id x \<noteq> None \<longrightarrow> in_status x = ''applied'')"

definition inputs_ok :: "input_state \<Rightarrow> bool" where
  "inputs_ok st \<longleftrightarrow> distinct (map in_id (is_items st)) \<and> length (is_items st) \<le> MAX_INPUTS
     \<and> sum_list (map (\<lambda>x. utf8_len (in_text x)) (is_items st)) \<le> MAX_TOTAL_BYTES
     \<and> list_all item_ok (is_items st)"

text \<open>
  What one change may do to the queue: every item keeps its place and its identity, an applied
  item stays applied, an item handed to a run stays with that run, a cancelled one can only be
  reported applied; at most one item is added, at the end.
\<close>

definition item_evolves :: "run_input \<Rightarrow> run_input \<Rightarrow> bool" where
  "item_evolves x y \<longleftrightarrow> y\<lparr>in_status := in_status x, in_run_id := in_run_id x\<rparr> = x
     \<and> (in_status x = ''applied'' \<longrightarrow> in_status y = ''applied'')
     \<and> (in_status x = ''cancelled'' \<longrightarrow> in_status y \<in> {''cancelled'', ''applied''})
     \<and> (in_run_id x \<noteq> None \<longrightarrow> in_run_id y = in_run_id x)"

definition queue_evolves :: "input_state \<Rightarrow> input_state \<Rightarrow> bool" where
  "queue_evolves st st' \<longleftrightarrow>
     list_all2 item_evolves (is_items st) (take (length (is_items st)) (is_items st'))"

lemma item_evolves_refl [simp]: "item_evolves x x"
  by (simp add: item_evolves_def)

lemma item_evolves_same:
  "item_evolves x y \<Longrightarrow> in_id y = in_id x \<and> in_text y = in_text x \<and> in_mode y = in_mode x
     \<and> in_context y = in_context x \<and> in_source y = in_source x \<and> in_message_id y = in_message_id x"
  by (cases x, cases y) (simp add: item_evolves_def)

lemma item_evolves_trans: "item_evolves x y \<Longrightarrow> item_evolves y z \<Longrightarrow> item_evolves x z"
  by (cases x, cases y, cases z) (auto simp: item_evolves_def)

lemma queue_evolvesD:
  assumes "queue_evolves st st'" "k < length (is_items st)"
  shows "k < length (is_items st') \<and> item_evolves (is_items st ! k) (is_items st' ! k)"
  using assms list_all2_nthD [OF assms(1) [unfolded queue_evolves_def] assms(2)]
  by (auto simp: queue_evolves_def dest: list_all2_lengthD)

lemma queue_evolves_refl [simp]: "queue_evolves st st"
  by (simp add: queue_evolves_def list_all2_refl)

lemma queue_evolvesI:
  assumes "length (is_items st) \<le> length (is_items st')"
    "\<And>k. k < length (is_items st) \<Longrightarrow> item_evolves (is_items st ! k) (is_items st' ! k)"
  shows "queue_evolves st st'"
  using assms by (auto simp: queue_evolves_def list_all2_conv_all_nth)

lemma queue_evolves_trans: "queue_evolves a b \<Longrightarrow> queue_evolves b c \<Longrightarrow> queue_evolves a c"
proof (rule queue_evolvesI)
  assume ab: "queue_evolves a b" and bc: "queue_evolves b c"
  have "length (is_items a) \<le> length (is_items b)" "length (is_items b) \<le> length (is_items c)"
    using ab bc by (auto simp: queue_evolves_def dest!: list_all2_lengthD)
  then show "length (is_items a) \<le> length (is_items c)" by simp
  show "item_evolves (is_items a ! k) (is_items c ! k)" if "k < length (is_items a)" for k
    using queue_evolvesD [OF ab that] queue_evolvesD [OF bc] item_evolves_trans by blast
qed

text \<open>A change in place: the items are replaced one by one.\<close>

definition in_place :: "input_state \<Rightarrow> input_state \<Rightarrow> bool" where
  "in_place st st' \<longleftrightarrow> list_all2 (\<lambda>x y. item_evolves x y \<and> (item_ok x \<longrightarrow> item_ok y)) (is_items st) (is_items st')"

lemma in_place_queue: "in_place st st' \<Longrightarrow> queue_evolves st st'"
proof -
  assume p: "in_place st st'"
  then have "length (is_items st') = length (is_items st)" by (auto simp: in_place_def dest: list_all2_lengthD)
  with p show ?thesis by (auto simp: in_place_def queue_evolves_def elim: list_all2_mono)
qed

lemma in_place_ok:
  assumes "in_place st st'" "inputs_ok st"
  shows "inputs_ok st'"
proof -
  have "map in_id (is_items st') = map in_id (is_items st) \<and>
      map (\<lambda>x. utf8_len (in_text x)) (is_items st') = map (\<lambda>x. utf8_len (in_text x)) (is_items st) \<and>
      (list_all item_ok (is_items st) \<longrightarrow> list_all item_ok (is_items st'))"
    using assms(1) unfolding in_place_def
    by (induction rule: list_all2_induct) (auto dest: item_evolves_same)
  moreover have "length (is_items st') = length (is_items st)"
    using assms(1) by (auto simp: in_place_def dest: list_all2_lengthD)
  ultimately show ?thesis using assms(2) by (simp add: inputs_ok_def)
qed

lemma in_place_closed [simp]:
  "in_place st (st'\<lparr>is_closed := b\<rparr>) = in_place st st'" "in_place (st\<lparr>is_closed := b\<rparr>) st' = in_place st st'"
  by (simp_all add: in_place_def)

lemma in_place_refl [simp]: "in_place st st"
  by (simp add: in_place_def list_all2_refl)

lemma item_evolves_status:
  "item_evolves x (x\<lparr>in_status := s\<rparr>) \<longleftrightarrow>
     (in_status x = ''applied'' \<longrightarrow> s = ''applied'') \<and> (in_status x = ''cancelled'' \<longrightarrow> s \<in> {''cancelled'', ''applied''})"
  by (cases x) (simp add: item_evolves_def)

lemma item_ok_status:
  "item_ok x \<Longrightarrow> in_status x \<noteq> ''applied''
    \<Longrightarrow> s \<in> {''applying'', ''applied'', ''not_applied'', ''dispatching'', ''cancelled''}
    \<Longrightarrow> item_ok (x\<lparr>in_status := s\<rparr>)"
  by (auto simp: item_ok_def)

lemma in_place_restatus:
  assumes "\<And>x. P x \<Longrightarrow> in_status x \<notin> {''applied'', ''cancelled''}"
    "s \<in> {''applying'', ''applied'', ''not_applied''}"
  shows "in_place st (restatus P s st)"
proof -
  have "item_evolves x (if P x then x\<lparr>in_status := s\<rparr> else x) \<and>
      (item_ok x \<longrightarrow> item_ok (if P x then x\<lparr>in_status := s\<rparr> else x))" for x
    using assms(1) [of x] assms(2) item_ok_status [of x s] by (auto simp: item_evolves_status)
  then show ?thesis by (simp add: in_place_def restatus_def list_all2_map2 list_all2_refl)
qed

lemma update_first_conv:
  "find P xs = Some x \<Longrightarrow> R x (f x) \<Longrightarrow> (\<And>y. R y y) \<Longrightarrow> list_all2 R xs (update_first P f xs)"
  by (induction xs) (auto simp: list_all2_refl split: if_splits)

lemma in_place_update_item:
  "find_item i st = Some x \<Longrightarrow> item_evolves x (f x) \<Longrightarrow> (item_ok x \<Longrightarrow> item_ok (f x))
    \<Longrightarrow> in_place st (update_item i f st)"
  unfolding in_place_def update_item_def find_item_def by (auto intro!: update_first_conv)

section \<open>The changes keep the invariant\<close>

text \<open>The eight changes, each with the checks its operation makes first.\<close>

inductive input_change :: "string \<Rightarrow> (input_state \<Rightarrow> run_row \<Rightarrow> store_error + input_state) \<Rightarrow> bool"
  for i where
  submit: "py_strip t \<noteq> [] \<Longrightarrow> utf8_len t \<le> MAX_INPUT_BYTES \<Longrightarrow> mode \<in> {''queue'', ''steer''}
    \<Longrightarrow> 1 \<le> length r \<Longrightarrow> length r \<le> 96 \<Longrightarrow> (mode = ''steer'' \<Longrightarrow> context = [])
    \<Longrightarrow> input_change i (submit_change clk uuid5 i r t mode context source)"
| acknowledge: "input_change i (acknowledge_change ids)"
| claim_steer: "input_change i (claim_steer_change ids)"
| close: "input_change i (close_change ids)"
| reopen: "input_change i reopen_change"
| pause: "input_change i pause_change"
| dispatched: "input_change i (dispatched_change x r)"
| claim: "input_change i (claim_change x retry)"
| cancel: "input_change i (cancel_change x)"

lemma find_item_evolves_applied:
  "in_run_id x = None \<or> in_run_id x = Some r \<Longrightarrow> item_evolves x (x\<lparr>in_status := ''applied'', in_run_id := Some r\<rparr>)"
  by (cases x) (auto simp: item_evolves_def)

lemma in_place_changes:
  "acknowledge_change ids st row = Inr st' \<Longrightarrow> in_place st st'"
  "claim_steer_change ids st row = Inr st' \<Longrightarrow> in_place st st'"
  "close_change ids st row = Inr st' \<Longrightarrow> in_place st st'"
  "reopen_change st row = Inr st' \<Longrightarrow> in_place st st'"
  "pause_change st row = Inr st' \<Longrightarrow> in_place st st'"
  "dispatched_change x r st row = Inr st' \<Longrightarrow> in_place st st'"
  "claim_change x retry st row = Inr st' \<Longrightarrow> in_place st st'"
  "cancel_change x st row = Inr st' \<Longrightarrow> in_place st st'"
proof -
  show "dispatched_change x r st row = Inr st' \<Longrightarrow> in_place st st'"
    by (auto simp: dispatched_change_def item_ok_def split: option.splits if_splits
        intro!: in_place_update_item find_item_evolves_applied)
  show "claim_change x retry st row = Inr st' \<Longrightarrow> in_place st st'"
    by (auto simp: claim_change_def item_evolves_status split: option.splits if_splits
        intro!: in_place_update_item item_ok_status)
  show "cancel_change x st row = Inr st' \<Longrightarrow> in_place st st'"
    by (auto simp: cancel_change_def item_evolves_status split: option.splits if_splits
        intro!: in_place_update_item item_ok_status)
qed (auto simp: acknowledge_change_def claim_steer_change_def close_change_def reopen_change_def
    pause_change_def split: if_splits intro!: in_place_restatus)

lemma submit_change_ok:
  assumes "submit_change clk uuid5 i r t mode context source st row = Inr st'" "inputs_ok st"
    "py_strip t \<noteq> []" "utf8_len t \<le> MAX_INPUT_BYTES" "mode \<in> {''queue'', ''steer''}"
    "1 \<le> length r" "length r \<le> 96" "mode = ''steer'' \<Longrightarrow> context = []"
  shows "inputs_ok st' \<and> queue_evolves st st'"
proof (cases "find_item r st")
  case None
  let ?x = "new_item clk uuid5 i r t mode context source"
  from None assms(1) have st': "st' = st\<lparr>is_items := is_items st @ [?x]\<rparr>"
    "length (is_items st) < MAX_INPUTS"
    "sum_list (map (\<lambda>x. utf8_len (in_text x)) (is_items st)) + utf8_len t \<le> MAX_TOTAL_BYTES"
    by (auto simp: submit_change_def split: if_splits)
  have "item_ok ?x" using assms(3-8) by (auto simp: item_ok_def new_item_def)
  moreover have "r \<notin> set (map in_id (is_items st))"
    using None by (auto simp: find_item_def find_None_iff)
  ultimately have "inputs_ok st'"
    using assms(2) st' by (auto simp: inputs_ok_def new_item_def)
  moreover have "queue_evolves st st'"
    by (rule queue_evolvesI) (simp_all add: st'(1) nth_append)
  ultimately show ?thesis by simp
next
  case (Some old)
  with assms(1,2) show ?thesis by (auto simp: submit_change_def split: if_splits)
qed

lemma input_change_ok:
  assumes "input_change i change" "change st row = Inr st'" "inputs_ok st"
  shows "inputs_ok st' \<and> queue_evolves st st'"
  using assms(1)
proof cases
  case submit
  with assms(2,3) show ?thesis using submit_change_ok by blast
qed (use assms(2,3) in \<open>auto intro: in_place_ok in_place_queue dest: in_place_changes\<close>)

lemma inputs_ok_empty [simp]: "inputs_ok empty_input_state"
  by (simp add: inputs_ok_def empty_input_state_def)

section \<open>The store as the inputs see it\<close>

text \<open>
  All that run inputs need of a store: a change runs on the inputs the store shows for the run
  (an empty queue where there are none), and when it does not raise the store shows its result
  for that run and what it showed before for the others.
\<close>

locale input_store =
  fixes ok :: "'s \<Rightarrow> bool"
    and view :: "'s \<Rightarrow> string \<Rightarrow> input_state option"
    and mutates :: "string \<Rightarrow> (input_state \<Rightarrow> run_row \<Rightarrow> store_error + input_state)
                      \<Rightarrow> 's \<Rightarrow> input_state \<Rightarrow> 's \<Rightarrow> bool"
  assumes mutates_ok: "ok s \<Longrightarrow> mutates i change s st s' \<Longrightarrow> ok s'"
    and mutates_runs: "ok s \<Longrightarrow> mutates i change s st s' \<Longrightarrow>
      \<exists>row. change (case view s i of None \<Rightarrow> empty_input_state | Some x \<Rightarrow> x) row = Inr st"
    and mutates_view: "ok s \<Longrightarrow> mutates i change s st s' \<Longrightarrow>
      view s' k = (if k = i then Some st else view s k)"
begin

lemma mutates_bounded:
  assumes "ok s" "mutates i change s st s'" "input_change i change"
    "\<forall>k x. view s k = Some x \<longrightarrow> inputs_ok x"
  shows "\<forall>k x. view s' k = Some x \<longrightarrow> inputs_ok x"
proof -
  from mutates_runs [OF assms(1,2)] obtain row where
    "change (case view s i of None \<Rightarrow> empty_input_state | Some x \<Rightarrow> x) row = Inr st" ..
  moreover have "inputs_ok (case view s i of None \<Rightarrow> empty_input_state | Some x \<Rightarrow> x)"
    using assms(4) by (simp split: option.splits)
  ultimately have "inputs_ok st" using input_change_ok [OF assms(3)] by blast
  with assms(4) mutates_view [OF assms(1,2)] show ?thesis by (simp split: if_splits)
qed

lemma mutates_evolves:
  assumes "ok s" "mutates i change s st s'" "input_change i change"
    "\<forall>k x. view s k = Some x \<longrightarrow> inputs_ok x" "view s k = Some x"
  shows "\<exists>y. view s' k = Some y \<and> queue_evolves x y"
proof (cases "k = i")
  case True
  from mutates_runs [OF assms(1,2)] assms(5) True obtain row where "change x row = Inr st" by auto
  with input_change_ok [OF assms(3)] assms(4,5) have "queue_evolves x st" by blast
  with True mutates_view [OF assms(1,2)] show ?thesis by simp
next
  case False
  with assms(5) mutates_view [OF assms(1,2)] show ?thesis by simp
qed

end

definition run_mutates ::
  "string \<Rightarrow> (input_state \<Rightarrow> run_row \<Rightarrow> store_error + input_state) \<Rightarrow> run_store \<Rightarrow> input_state \<Rightarrow> run_store \<Rightarrow> bool"
where
  "run_mutates i change s st s' \<longleftrightarrow> (\<exists>clk u w. mutate_run_inputs clk i change u w s = Inr (st, s'))"

interpretation runs: input_store store_ok inputs_at run_mutates
proof
  fix s i change st s' k
  assume ok: "store_ok s" and m: "run_mutates i change s st s'"
  then obtain row where row: "od_get (st_runs s) i = Some row"
    "change (case rr_run_inputs row of None \<Rightarrow> empty_input_state | Some x \<Rightarrow> x) row = Inr st"
    "s' = store_row (row\<lparr>rr_run_inputs := Some st\<rparr>) s"
    by (auto simp: run_mutates_def elim: mutate_run_inputs_Inr)
  from store_ok_row [OF ok row(1)] have i: "rr_run_id row = i" "rr_change_seq row \<le> st_change_seq s" by auto
  show "store_ok s'" unfolding row(3) using ok row(1) i by (auto intro: store_ok_store_row [of s _ row])
  show "\<exists>row. change (case inputs_at s i of None \<Rightarrow> empty_input_state | Some x \<Rightarrow> x) row = Inr st"
    using row(1,2) by (auto simp: inputs_at_def)
  show "inputs_at s' k = (if k = i then Some st else inputs_at s k)"
    using i by (simp add: row(3) inputs_at_def)
qed

section \<open>Histories\<close>

text \<open>A step is one operation on the inputs of a run, or any other call on the run store.\<close>

inductive input_step :: "run_store \<Rightarrow> run_store \<Rightarrow> bool" where
  submit: "submit clk uuid5 c r t mode context source s = Inr (x, s') \<Longrightarrow> input_step s s'"
| acknowledge: "acknowledge clk c ids s = Inr s' \<Longrightarrow> input_step s s'"
| claim_steer: "claim_steer clk c ids s = Inr (xs, s') \<Longrightarrow> input_step s s'"
| close: "close clk c ids s = Inr (b, s') \<Longrightarrow> input_step s s'"
| reopen: "reopen clk c s = Inr s' \<Longrightarrow> input_step s s'"
| pause: "pause clk c s = Inr s' \<Longrightarrow> input_step s s'"
| dispatched: "dispatched clk c i r s = Inr s' \<Longrightarrow> input_step s s'"
| claim: "claim clk c i retry s = Inr (x, s') \<Longrightarrow> input_step s s'"
| cancel: "cancel clk c i s = Inr s' \<Longrightarrow> input_step s s'"

lemma map_sum_Inr [simp]: "map_sum f g m = Inr y \<longleftrightarrow> (\<exists>x. m = Inr x \<and> y = g x)"
  by (cases m) auto

lemma change_inputs_mutates:
  "change_inputs clk c change owned s = Inr (st, s') \<Longrightarrow> run_mutates (ri_run_id c) change s st s'"
  by (auto simp: change_inputs_def run_mutates_def split: if_splits)

lemma item_of_snd: "item_of i r = Inr (x, s') \<Longrightarrow> s' = snd r"
  by (simp add: item_of_def split: option.splits)

lemma input_step_mutates:
  "input_step s s' \<Longrightarrow> \<exists>i change st. run_mutates i change s st s' \<and> input_change i change"
proof (induction rule: input_step.induct)
  case (submit clk uuid5 c r t mode ctx source s x s')
  then obtain st where "change_inputs clk c (submit_change clk uuid5 (ri_run_id c) r t mode
      (if mode = ''queue'' then ctx else []) source) False s = Inr (st, s')"
    by (auto simp: submit_def split: if_splits dest: item_of_snd)
  moreover have "input_change (ri_run_id c) (submit_change clk uuid5 (ri_run_id c) r t mode
      (if mode = ''queue'' then ctx else []) source)"
    using submit by (intro input_change.submit) (auto simp: submit_def split: if_splits)
  ultimately show ?case by (blast dest: change_inputs_mutates)
next
  case (claim clk c i retry s x s')
  then show ?case
    by (auto simp: claim_def dest!: item_of_snd change_inputs_mutates) (blast intro: input_change.claim)
qed (auto simp: acknowledge_def claim_steer_def close_def reopen_def pause_def dispatched_def cancel_def
    dest!: change_inputs_mutates intro: input_change.intros)

inductive service_step :: "run_label \<Rightarrow> run_store \<Rightarrow> run_store \<Rightarrow> bool" where
  inputs: "input_step s s' \<Longrightarrow> service_step Other s s'"
| run: "run_step l s s' \<Longrightarrow> \<forall>i. l \<noteq> Inputs i \<Longrightarrow> service_step l s s'"

inductive service_steps :: "run_label list \<Rightarrow> run_store \<Rightarrow> run_store \<Rightarrow> bool" where
  nil: "service_steps [] s s"
| cons: "service_step l s t \<Longrightarrow> service_steps ls t u \<Longrightarrow> service_steps (l # ls) s u"

lemma service_steps_one: "service_step l s t \<Longrightarrow> service_steps [l] s t"
  by (rule service_steps.cons [OF _ service_steps.nil])

lemma service_steps_append: "service_steps ls s t \<Longrightarrow> service_steps ms t u \<Longrightarrow> service_steps (ls @ ms) s u"
  by (induction rule: service_steps.induct) (auto intro: service_steps.cons)

definition bounded :: "run_store \<Rightarrow> bool" where
  "bounded s \<longleftrightarrow> store_ok s \<and> (\<forall>k x. inputs_at s k = Some x \<longrightarrow> inputs_ok x)"

lemma service_step_bounded: "service_step l s s' \<Longrightarrow> bounded s \<Longrightarrow> bounded s'"
proof (induction rule: service_step.induct)
  case (inputs s s')
  from input_step_mutates [OF inputs(1)] obtain i change st where
    m: "run_mutates i change s st s'" "input_change i change" by blast
  with inputs(2) runs.mutates_ok [OF _ m(1)] runs.mutates_bounded [OF _ m] show ?case
    by (simp add: bounded_def)
next
  case (run l s s')
  then have ok: "store_ok s'" by (auto simp: bounded_def intro: run_step_ok)
  have "inputs_ok x" if "inputs_at s' k = Some x" for k x
  proof -
    from that obtain r' where "od_get (st_runs s') k = Some r'" "rr_run_inputs r' = Some x"
      by (auto simp: inputs_at_def bind_eq_Some_conv)
    with run_step_inputs [OF run(1) _ _ run(2)] run(3) show ?thesis by (fastforce simp: bounded_def)
  qed
  with ok show ?case by (simp add: bounded_def)
qed

lemma service_steps_bounded: "service_steps ls s s' \<Longrightarrow> bounded s \<Longrightarrow> bounded s'"
  by (induction rule: service_steps.induct) (auto dest: service_step_bounded)

lemma bounded_empty: "bounded empty_store"
  using store_ok_empty by (simp add: bounded_def inputs_at_def empty_store_def)

lemma service_step_evolves:
  "service_step l s s' \<Longrightarrow> bounded s \<Longrightarrow> inputs_at s k = Some x \<Longrightarrow> l \<noteq> Remove
    \<Longrightarrow> l \<noteq> Readmit k \<Longrightarrow> \<exists>y. inputs_at s' k = Some y \<and> queue_evolves x y"
proof (induction rule: service_step.induct)
  case (inputs s s')
  from input_step_mutates [OF inputs(1)] obtain i change st where
    m: "run_mutates i change s st s'" "input_change i change" by blast
  with inputs(2,3) runs.mutates_evolves [OF _ m] show ?case by (simp add: bounded_def)
next
  case (run l s s')
  from run(4) obtain r where r: "od_get (st_runs s) k = Some r" by (auto simp: inputs_at_def bind_eq_Some_conv)
  have ok: "store_ok s" using run(3) by (simp add: bounded_def)
  have "\<exists>r'. od_get (st_runs s') k = Some r'"
  proof (cases "l = Snapshot k")
    case True
    with run(1) show ?thesis by (auto elim!: run_step_SnapshotE simp: get_put)
  next
    case False
    with run_step_row [OF run(1) ok r _ run(6)] run(5) show ?thesis by auto
  qed
  then obtain r' where "od_get (st_runs s') k = Some r'" ..
  with run_step_inputs [OF run(1) ok this run(2)] run(4,6) show ?case by (simp add: inputs_at_def)
qed

lemma service_steps_evolve:
  "service_steps ls s s' \<Longrightarrow> bounded s \<Longrightarrow> inputs_at s k = Some x \<Longrightarrow> Remove \<notin> set ls
    \<Longrightarrow> Readmit k \<notin> set ls \<Longrightarrow> \<exists>y. inputs_at s' k = Some y \<and> queue_evolves x y"
proof (induction arbitrary: x rule: service_steps.induct)
  case (cons l s t ls u)
  from service_step_evolves [OF cons.hyps(1) cons.prems(1,2)] cons.prems(3,4) obtain y where
    y: "inputs_at t k = Some y" "queue_evolves x y" by auto
  from cons.IH [OF service_step_bounded [OF cons.hyps(1) cons.prems(1)] y(1)] cons.prems(3,4) y(2)
  show ?case by (auto intro: queue_evolves_trans)
qed simp

section \<open>Properties\<close>

definition example_store :: run_store where
  "example_store = put (length_clock 0) ''r'' (default_args ''t'') empty_store"

definition example_inputs :: run_inputs where
  "example_inputs = \<lparr>ri_run_id = ''r'', ri_user_id = None, ri_worker_id = None\<rparr>"

lemma example_submit:
  "\<exists>x s'. submit (length_clock 0) (\<lambda>_ _. ''m'') example_inputs ''q'' ''hi'' ''queue'' [] ''user'' example_store
      = Inr (x, s')
     \<and> inputs_at s' ''r'' = Some \<lparr>is_closed = False, is_items = [x]\<rparr> \<and> in_text x = ''hi''"
  by (simp add: submit_def example_inputs_def example_store_def change_inputs_def mutate_run_inputs_def Let_def
      get_put put_row_def default_args_def empty_store_def visible_to_def submit_change_def find_item_def
      empty_input_state_def active_def is_run_def MAX_INPUTS_def MAX_TOTAL_BYTES_def MAX_INPUT_BYTES_def
      utf8_len_def py_strip_def is_space_def item_of_def new_item_def inputs_at_def)

lemma example_steps: "service_steps [Snapshot ''r''] empty_store example_store"
  using service_step.run [OF run_step.put, of "''r''" empty_store "length_clock 0" "default_args ''t''"]
  unfolding example_store_def by (intro service_steps_one) simp

text \<open>
  C34. In every history of store calls and input operations from the empty store, the inputs of a
  run stay bounded and well-formed: at most 16 items and 64 KiB of text, distinct request ids of 1
  to 96 characters, each text non-blank and at most 16 KiB, steering items without a context, and
  an item that belongs to a run applied.
\<close>

theorem run_inputs_stay_bounded:
  assumes "service_steps ls empty_store s" "inputs_at s i = Some st"
  shows "length (is_items st) \<le> 16 \<and> sum_list (map (\<lambda>x. utf8_len (in_text x)) (is_items st)) \<le> 65536
    \<and> distinct (map in_id (is_items st)) \<and> list_all item_ok (is_items st)"
  using service_steps_bounded [OF assms(1) bounded_empty] assms(2)
  by (auto simp: bounded_def inputs_ok_def MAX_INPUTS_def MAX_TOTAL_BYTES_def)

theorem run_inputs_stay_bounded_witness:
  "\<exists>s st. service_steps [Snapshot ''r'', Other] empty_store s \<and> inputs_at s ''r'' = Some st
     \<and> length (is_items st) = 1 \<and> list_all item_ok (is_items st)"
proof -
  obtain x s' where sub: "submit (length_clock 0) (\<lambda>_ _. ''m'') example_inputs ''q'' ''hi'' ''queue'' [] ''user''
      example_store = Inr (x, s')" and st: "inputs_at s' ''r'' = Some \<lparr>is_closed = False, is_items = [x]\<rparr>"
    using example_submit by blast
  have h: "service_steps ([Snapshot ''r''] @ [Other]) empty_store s'"
    by (rule service_steps_append [OF example_steps service_steps_one [OF service_step.inputs [OF input_step.submit [OF sub]]]])
  from run_inputs_stay_bounded [OF h st] h st show ?thesis by auto
qed

text \<open>
  C19. An accepted input is never lost, reordered or applied twice: under every later history
  without a deletion and without a new admission under the id of the run (which would replace the
  row) it keeps its place in the queue, its text, mode and message id; once applied
  it stays applied, once handed to a run it stays with that run, and once cancelled it is never
  pending, applying or dispatching again.
\<close>

theorem accepted_input_is_kept:
  assumes "service_steps ls0 empty_store s" "inputs_at s i = Some st" "k < length (is_items st)"
    "service_steps ls s s'" "Remove \<notin> set ls" "Readmit i \<notin> set ls"
  shows "\<exists>st'. inputs_at s' i = Some st' \<and> k < length (is_items st')
    \<and> (let x = is_items st ! k; y = is_items st' ! k
       in in_id y = in_id x \<and> in_text y = in_text x \<and> in_mode y = in_mode x \<and> in_message_id y = in_message_id x
          \<and> (in_status x = ''applied'' \<longrightarrow> in_status y = ''applied'')
          \<and> (in_run_id x \<noteq> None \<longrightarrow> in_run_id y = in_run_id x)
          \<and> (in_status x = ''cancelled'' \<longrightarrow> in_status y \<in> {''cancelled'', ''applied''}))"
proof -
  from service_steps_evolve [OF assms(4) service_steps_bounded [OF assms(1) bounded_empty] assms(2,5,6)]
  obtain st' where st': "inputs_at s' i = Some st'" "queue_evolves st st'" by blast
  from queue_evolvesD [OF st'(2) assms(3)] have k: "k < length (is_items st')"
    "item_evolves (is_items st ! k) (is_items st' ! k)" by auto
  with st'(1) item_evolves_same [OF k(2)] k(2) [unfolded item_evolves_def] show ?thesis by (auto simp: Let_def)
qed

theorem accepted_input_is_kept_witness:
  "\<exists>s s' st'. service_steps [Other] s s' \<and> inputs_at s' ''r'' = Some st' \<and> in_text (is_items st' ! 0) = ''hi''
     \<and> in_status (is_items st' ! 0) = ''cancelled''"
proof -
  let ?c = "length_clock 0"
  obtain x s where sub: "submit ?c (\<lambda>_ _. ''m'') example_inputs ''q'' ''hi'' ''queue'' [] ''user''
      example_store = Inr (x, s)" and st: "inputs_at s ''r'' = Some \<lparr>is_closed = False, is_items = [x]\<rparr>"
    and t: "in_text x = ''hi''"
    using example_submit by blast
  have h: "service_steps ([Snapshot ''r''] @ [Other]) empty_store s"
    by (rule service_steps_append [OF example_steps service_steps_one [OF service_step.inputs [OF input_step.submit [OF sub]]]])
  have "\<exists>s'. cancel ?c example_inputs ''q'' s = Inr s'
      \<and> (\<forall>st'. inputs_at s' ''r'' = Some st' \<longrightarrow> in_status (is_items st' ! 0) = ''cancelled'')"
    using sub by (auto simp: cancel_def submit_def example_inputs_def example_store_def change_inputs_def
      mutate_run_inputs_def Let_def get_put put_row_def default_args_def empty_store_def visible_to_def
      submit_change_def find_item_def empty_input_state_def active_def is_run_def MAX_INPUTS_def
      MAX_TOTAL_BYTES_def MAX_INPUT_BYTES_def utf8_len_def py_strip_def is_space_def item_of_def new_item_def
      inputs_at_def cancel_change_def update_item_def)
  then obtain s' where c: "cancel ?c example_inputs ''q'' s = Inr s'"
    "\<And>st'. inputs_at s' ''r'' = Some st' \<Longrightarrow> in_status (is_items st' ! 0) = ''cancelled''" by blast
  have h': "service_steps [Other] s s'"
    by (rule service_steps_one [OF service_step.inputs [OF input_step.cancel [OF c(1)]]])
  have "0 < length (is_items \<lparr>is_closed = False, is_items = [x]\<rparr>)" by simp
  from accepted_input_is_kept [OF h st this h'] c(2) h' t show ?thesis by (auto simp: Let_def)
qed

subsection \<open>Submitting twice\<close>

lemma od_set_same: "od_get d k = Some v \<Longrightarrow> od_set k v d = d"
  by (induction d) auto

lemma store_row_same: "od_get (st_runs s) (rr_run_id r) = Some r \<Longrightarrow> store_row r s = s"
  by (simp add: store_row_def od_set_same)

text \<open>What a successful submission leaves in the row.\<close>

lemma submit_stores:
  assumes "store_ok s" "submit clk uuid5 c r t mode context source s = Inr (x, s')"
  obtains row st where "od_get (st_runs s') (ri_run_id c) = Some row" "rr_run_id row = ri_run_id c"
    "visible_to (ri_user_id c) row" "rr_run_inputs row = Some st" "find_item r st = Some x"
    "in_text x = t" "in_mode x = mode" "set (in_context x) = set (if mode = ''queue'' then context else [])"
    "in_source x = source"
proof -
  let ?ctx = "if mode = ''queue'' then context else []"
  from assms(2) obtain st where m: "mutate_run_inputs clk (ri_run_id c)
      (submit_change clk uuid5 (ri_run_id c) r t mode ?ctx source) (ri_user_id c) None s = Inr (st, s')"
    and x: "find_item r st = Some x"
    by (auto simp: submit_def change_inputs_def item_of_def split: if_splits option.splits)
  from m have vis: "\<exists>row. od_get (st_runs s) (ri_run_id c) = Some row \<and> visible_to (ri_user_id c) row"
    by (auto simp: mutate_run_inputs_def split: option.splits if_splits)
  from m obtain row where row: "od_get (st_runs s) (ri_run_id c) = Some row"
    "submit_change clk uuid5 (ri_run_id c) r t mode ?ctx source
       (case rr_run_inputs row of None \<Rightarrow> empty_input_state | Some x \<Rightarrow> x) row = Inr st"
    "s' = store_row (row\<lparr>rr_run_inputs := Some st\<rparr>) s"
    by (rule mutate_run_inputs_Inr)
  have "in_text x = t \<and> in_mode x = mode \<and> set (in_context x) = set ?ctx \<and> in_source x = source"
    using row(2) x
    by (auto simp: submit_change_def find_item_def new_item_def find_append split: option.splits if_splits)
  with row vis store_ok_row [OF assms(1) row(1)] x that show ?thesis by (auto simp: visible_to_def)
qed

text \<open>
  Submission is idempotent by request id: once an input is accepted, submitting the same
  request again succeeds with the item already stored and changes nothing, whatever the clock; and
  submitting a different text, mode or source under that id is refused.
\<close>

theorem submit_is_idempotent:
  assumes "store_ok s" "submit clk uuid5 c r t mode context source s = Inr (x, s')"
  shows "submit clk' uuid5 c r t mode context source s' = Inr (x, s')
    \<and> ((t', mode', source') \<noteq> (t, mode, source)
        \<longrightarrow> (\<exists>e. submit clk' uuid5 c r t' mode' context source' s' = Inl (InputConflict e)))"
proof -
  from submit_stores [OF assms] obtain row st where
    row: "od_get (st_runs s') (ri_run_id c) = Some row" "rr_run_id row = ri_run_id c"
    "visible_to (ri_user_id c) row" "rr_run_inputs row = Some st" "find_item r st = Some x"
    "in_text x = t" "in_mode x = mode" "set (in_context x) = set (if mode = ''queue'' then context else [])"
    "in_source x = source" .
  have valid: "\<not> (py_strip t = [] \<or> MAX_INPUT_BYTES < utf8_len t)"
    "\<not> (mode \<notin> {''queue'', ''steer''} \<or> \<not> (1 \<le> length r \<and> length r \<le> 96))"
    using assms(2) by (auto simp: submit_def split: if_splits)
  have same: "store_row (row\<lparr>rr_run_inputs := Some st\<rparr>) s' = s'"
  proof -
    have "row\<lparr>rr_run_inputs := Some st\<rparr> = row" using row(4) by (cases row) simp
    with row(1,2) show ?thesis by (simp add: store_row_same)
  qed
  have mutate: "mutate_run_inputs clk' (ri_run_id c) change (ri_user_id c) None s' =
      (case change st row of Inl e \<Rightarrow> Inl e | Inr st' \<Rightarrow> Inr (st', store_row (row\<lparr>rr_run_inputs := Some st'\<rparr>) s'))" for change
    using row(1-4) by (simp add: mutate_run_inputs_def Let_def)
  have "submit_change clk' uuid5 (ri_run_id c) r t mode (if mode = ''queue'' then context else []) source st row = Inr st"
    using row(5-9) by (simp add: submit_change_def)
  then have again: "submit clk' uuid5 c r t mode context source s' = Inr (x, s')"
    using valid row(5) same unfolding submit_def change_inputs_def if_not_P [OF valid(1)] if_not_P [OF valid(2)]
    by (simp add: mutate item_of_def)
  have "\<exists>e. submit clk' uuid5 c r t' mode' context source' s' = Inl (InputConflict e)"
    if "(t', mode', source') \<noteq> (t, mode, source)"
  proof -
    have "\<exists>e. submit_change clk' uuid5 (ri_run_id c) r t' mode' ctx source' st row = Inl (InputConflict e)" for ctx
      using row(5-9) that by (auto simp: submit_change_def)
    then obtain e where "submit_change clk' uuid5 (ri_run_id c) r t' mode'
        (if mode' = ''queue'' then context else []) source' st row = Inl (InputConflict e)" by blast
    then show ?thesis
      by (simp only: submit_def change_inputs_def mutate sum.case bind_sum.simps if_False simp_thms split: if_split) blast
  qed
  with again show ?thesis by blast
qed

theorem submit_is_idempotent_witness:
  "\<exists>x s'. submit (length_clock 0) (\<lambda>_ _. ''m'') example_inputs ''q'' ''hi'' ''queue'' [] ''user'' example_store
      = Inr (x, s')
     \<and> submit (length_clock 5) (\<lambda>_ _. ''m'') example_inputs ''q'' ''hi'' ''queue'' [] ''user'' s' = Inr (x, s')
     \<and> (\<exists>e. submit (length_clock 5) (\<lambda>_ _. ''m'') example_inputs ''q'' ''ho'' ''queue'' [] ''user'' s'
          = Inl (InputConflict e))"
proof -
  have "store_ok example_store" unfolding example_store_def by (intro put_ok store_ok_empty)
  moreover obtain x s' where sub: "submit (length_clock 0) (\<lambda>_ _. ''m'') example_inputs ''q'' ''hi'' ''queue'' [] ''user''
      example_store = Inr (x, s')" using example_submit by blast
  ultimately show ?thesis
    using submit_is_idempotent [of example_store "length_clock 0" "\<lambda>_ _. ''m''" example_inputs "''q''" "''hi''"
        "''queue''" "[]" "''user''" x s' "length_clock 5" "''ho''" "''queue''" "''user''"] by auto
qed

end
