(* ===== verification/EventStore.thy ===== *)
theory EventStore
  imports Prelude
begin

text \<open>
  The in-memory run event store
  (\<^verbatim>\<open>backend/packages/harness/deerflow/runtime/events/store/memory.py\<close>): the event log of a thread in
  sequence order, its messages-only and per-run projections kept in lockstep, and the readers that
  page them; the default lookup of the run that produced a message
  (\<^verbatim>\<open>runtime/events/store/base.py\<close>), and the identity under which a message is placed in the feed
  (\<^verbatim>\<open>runtime/events/message_identity.py\<close>, \<^verbatim>\<open>message_seq.py\<close>).

  The store hands out and keeps deep copies, so events are values. The mutation lock of a thread
  only fences an awaiting lifecycle guard against deletion: a guarded write is one atomic step
  here, given the guard's answer.
\<close>

section \<open>State\<close>

datatype content = Text string | Fields "(string, pyval) odict"

record event =
  ev_thread_id :: string
  ev_run_id :: string
  ev_event_type :: string
  ev_category :: string
  ev_content :: content
  ev_metadata :: "(string, pyval) odict"
  ev_seq :: int
  ev_created_at :: string

record event_store =
  es_events :: "(string, event list) odict"
  es_messages :: "(string, event list) odict"
  es_events_by_run :: "(string, (string, event list) odict) odict"
  es_messages_by_run :: "(string, (string, event list) odict) odict"
  es_seq_counters :: "(string, int) odict"

definition empty_events :: event_store where
  "empty_events = \<lparr>es_events = [], es_messages = [], es_events_by_run = [], es_messages_by_run = [],
     es_seq_counters = []\<rparr>"

definition log_of :: "event_store \<Rightarrow> string \<Rightarrow> event list" where
  "log_of s t = od_get_default (es_events s) t []"

definition messages_of :: "event_store \<Rightarrow> string \<Rightarrow> event list" where
  "messages_of s t = od_get_default (es_messages s) t []"

definition run_events :: "event_store \<Rightarrow> string \<Rightarrow> string \<Rightarrow> event list" where
  "run_events s t r = od_get_default (od_get_default (es_events_by_run s) t []) r []"

definition run_messages :: "event_store \<Rightarrow> string \<Rightarrow> string \<Rightarrow> event list" where
  "run_messages s t r = od_get_default (od_get_default (es_messages_by_run s) t []) r []"

section \<open>Writes\<close>

definition next_seq :: "string \<Rightarrow> event_store \<Rightarrow> int \<times> event_store" where
  "next_seq t s =
     (let next_val = od_get_default (es_seq_counters s) t 0 + 1
      in (next_val, s\<lparr>es_seq_counters := od_set t next_val (es_seq_counters s)\<rparr>))"

text \<open>\<^verbatim>\<open>d.setdefault(k, []).append(x)\<close>.\<close>

definition append_at :: "'k \<Rightarrow> 'a \<Rightarrow> ('k, 'a list) odict \<Rightarrow> ('k, 'a list) odict" where
  "append_at k x d = od_set k (od_get_default d k [] @ [x]) d"

text \<open>The fields a caller gives; a missing creation time is the clock's.\<close>

record event_args =
  ea_run_id :: string
  ea_event_type :: string
  ea_category :: string
  ea_content :: content
  ea_metadata :: "(string, pyval) odict option"
  ea_created_at :: "string option"

definition event_of :: "string \<Rightarrow> string \<Rightarrow> event_args \<Rightarrow> int \<Rightarrow> event" where
  "event_of now t a seq =
     \<lparr>ev_thread_id = t, ev_run_id = ea_run_id a, ev_event_type = ea_event_type a,
      ev_category = ea_category a, ev_content = ea_content a,
      ev_metadata = (case ea_metadata a of None \<Rightarrow> [] | Some m \<Rightarrow> m), ev_seq = seq,
      ev_created_at = (case non_empty (ea_created_at a) of None \<Rightarrow> now | Some c \<Rightarrow> c)\<rparr>"

definition put_one :: "string \<Rightarrow> string \<Rightarrow> event_args \<Rightarrow> event_store \<Rightarrow> event \<times> event_store" where
  "put_one now t a s =
     (let (seq, s1) = next_seq t s;
          record1 = event_of now t a seq;
          r = ea_run_id a;
          s2 = s1\<lparr>es_events := append_at t record1 (es_events s1),
                  es_events_by_run := od_set t
                    (append_at r record1 (od_get_default (es_events_by_run s1) t []))
                    (es_events_by_run s1)\<rparr>;
          s3 = (if ea_category a = ''message''
                then s2\<lparr>es_messages := append_at t record1 (es_messages s2),
                        es_messages_by_run := od_set t
                          (append_at r record1 (od_get_default (es_messages_by_run s2) t []))
                          (es_messages_by_run s2)\<rparr>
                else s2)
      in (record1, s3))"

definition put :: "string \<Rightarrow> string \<Rightarrow> event_args \<Rightarrow> event_store \<Rightarrow> event \<times> event_store" where
  "put now t a s = put_one now t a s"

fun put_batch ::
  "string \<Rightarrow> (string \<times> event_args) list \<Rightarrow> event_store \<Rightarrow> event list \<times> event_store" where
  "put_batch now [] s = ([], s)"
| "put_batch now ((t, a) # evs) s =
     (let (e, s1) = put_one now t a s; (es, s2) = put_batch now evs s1 in (e # es, s2))"

datatype event_error = RunEventLifecycleRejected string string

definition put_if_absent ::
  "string \<Rightarrow> string \<Rightarrow> event_args \<Rightarrow> bool option \<Rightarrow> event_store
     \<Rightarrow> event_error + ((event \<times> bool) \<times> event_store)" where
  "put_if_absent now t a lifecycle_guard s =
     (if lifecycle_guard = Some False then Inl (RunEventLifecycleRejected t (ea_run_id a))
      else (case find (\<lambda>e. ev_event_type e = ea_event_type a) (run_events s t (ea_run_id a)) of
              Some e \<Rightarrow> Inr ((e, False), s)
            | None \<Rightarrow> (let (e, s') = put_one now t a s in Inr ((e, True), s'))))"

section \<open>Bisection\<close>

text \<open>\<^verbatim>\<open>bisect.bisect_right\<close> and \<^verbatim>\<open>bisect.bisect_left\<close> on the sequence numbers.\<close>

function bisect_right_from :: "int list \<Rightarrow> int \<Rightarrow> nat \<Rightarrow> nat \<Rightarrow> nat" where
  "bisect_right_from a x lo hi =
     (if lo < hi
      then (let mid = (lo + hi) div 2
            in if x < a ! mid then bisect_right_from a x lo mid
               else bisect_right_from a x (mid + 1) hi)
      else lo)"
  by pat_completeness auto

termination
  by (relation "measure (\<lambda>(a, x, lo, hi). hi - lo)") auto

function bisect_left_from :: "int list \<Rightarrow> int \<Rightarrow> nat \<Rightarrow> nat \<Rightarrow> nat" where
  "bisect_left_from a x lo hi =
     (if lo < hi
      then (let mid = (lo + hi) div 2
            in if a ! mid < x then bisect_left_from a x (mid + 1) hi
               else bisect_left_from a x lo mid)
      else lo)"
  by pat_completeness auto

termination
  by (relation "measure (\<lambda>(a, x, lo, hi). hi - lo)") auto

declare bisect_right_from.simps [simp del] bisect_left_from.simps [simp del]

definition bisect_right :: "event list \<Rightarrow> int \<Rightarrow> nat" where
  "bisect_right es x = bisect_right_from (map ev_seq es) x 0 (length es)"

definition bisect_left :: "event list \<Rightarrow> int \<Rightarrow> nat" where
  "bisect_left es x = bisect_left_from (map ev_seq es) x 0 (length es)"

section \<open>Reads\<close>

definition list_messages ::
  "string \<Rightarrow> int \<Rightarrow> int option \<Rightarrow> int option \<Rightarrow> event_store \<Rightarrow> event list" where
  "list_messages t limit before_seq after_seq s =
     (let messages = messages_of s t
      in case after_seq of
           Some a \<Rightarrow>
             (let lo = bisect_right messages a;
                  hi = (case before_seq of None \<Rightarrow> length messages | Some b \<Rightarrow> bisect_left messages b)
              in py_slice messages (int lo) (min (int hi) (int lo + limit)))
         | None \<Rightarrow>
             (case before_seq of
                Some b \<Rightarrow>
                  (let hi = bisect_left messages b
                   in py_slice messages (max 0 (int hi - limit)) (int hi))
              | None \<Rightarrow> py_from messages (- limit)))"

definition list_events ::
  "string \<Rightarrow> string \<Rightarrow> string list option \<Rightarrow> pyval option \<Rightarrow> int \<Rightarrow> int option \<Rightarrow> event_store
     \<Rightarrow> event list" where
  "list_events t r event_types task_id limit after_seq s =
     (let es0 = run_events s t r;
          es1 = (case event_types of None \<Rightarrow> es0
                 | Some ts \<Rightarrow> filter (\<lambda>e. ev_event_type e \<in> set ts) es0);
          es2 = (case task_id of None \<Rightarrow> es1
                 | Some k \<Rightarrow> filter (\<lambda>e. od_get (ev_metadata e) ''task_id'' = Some k) es1);
          es3 = (case after_seq of None \<Rightarrow> es2 | Some a \<Rightarrow> filter (\<lambda>e. a < ev_seq e) es2)
      in py_upto es3 limit)"

definition list_messages_by_run ::
  "string \<Rightarrow> string \<Rightarrow> int \<Rightarrow> int option \<Rightarrow> int option \<Rightarrow> event_store \<Rightarrow> event list" where
  "list_messages_by_run t r limit before_seq after_seq s =
     (let messages = run_messages s t r;
          lo = (case after_seq of None \<Rightarrow> 0 | Some a \<Rightarrow> bisect_right messages a);
          hi = (case before_seq of None \<Rightarrow> length messages | Some b \<Rightarrow> bisect_left messages b);
          window = py_slice messages (int lo) (int hi)
      in if after_seq \<noteq> None then py_upto window limit else py_from window (- limit))"

definition starts_with :: "string \<Rightarrow> string \<Rightarrow> bool" where
  "starts_with p s \<longleftrightarrow> take (length p) s = p"

text \<open>\<^verbatim>\<open>str(x)\<close> of the caller that the metadata names; only its prefix matters to the reader, so
  the values that are not strings are given by a parameter.\<close>

definition caller_of :: "(pyval \<Rightarrow> string) \<Rightarrow> event \<Rightarrow> string" where
  "caller_of py_str e =
     (case od_get_default (ev_metadata e) ''caller'' (VStr []) of VStr c \<Rightarrow> c | v \<Rightarrow> py_str v)"

definition visible_ai :: "(pyval \<Rightarrow> string) \<Rightarrow> event \<Rightarrow> bool" where
  "visible_ai py_str e \<longleftrightarrow> ev_category e = ''message''
     \<and> ev_event_type e \<in> {''llm.ai.response'', ''ai_message''}
     \<and> \<not> starts_with ''middleware:'' (caller_of py_str e)"

definition get_last_visible_ai_seq_by_run ::
  "(pyval \<Rightarrow> string) \<Rightarrow> string \<Rightarrow> string list \<Rightarrow> event_store \<Rightarrow> (string, int) odict" where
  "get_last_visible_ai_seq_by_run py_str t run_ids s =
     foldl (\<lambda>result r. case find (visible_ai py_str) (rev (run_messages s t r)) of
                          None \<Rightarrow> result
                        | Some e \<Rightarrow> od_set r (ev_seq e) result) [] run_ids"

definition count_messages :: "string \<Rightarrow> event_store \<Rightarrow> nat" where
  "count_messages t s = length (messages_of s t)"

section \<open>Message identity\<close>

definition user_suffix :: string where
  "user_suffix = ''__user''"

definition strip_user_suffix :: "string \<Rightarrow> string" where
  "strip_user_suffix i =
     (if starts_with (rev user_suffix) (rev i)
      then (let i' = take (length i - length user_suffix) i in if i' = [] then i else i')
      else i)"

definition message_identity :: "(string, pyval) odict \<Rightarrow> string option" where
  "message_identity m =
     (case od_get m ''id'' of
        Some (VStr i) \<Rightarrow>
          if i = [] then None
          else Some (''message:'' @
                 (if od_get m ''type'' = Some (VStr ''human'') then strip_user_suffix i else i))
      | _ \<Rightarrow> None)"

fun seqs_from ::
  "string list \<Rightarrow> (string, int) odict \<Rightarrow> event list \<Rightarrow> (string, int) odict" where
  "seqs_from wanted found [] = found"
| "seqs_from wanted found (e # es) =
     (case ev_content e of
        Text x \<Rightarrow> seqs_from wanted found es
      | Fields m \<Rightarrow>
          (case message_identity m of
             None \<Rightarrow> seqs_from wanted found es
           | Some i \<Rightarrow>
               if i \<in> set wanted \<and> od_get found i = None
               then (let found' = found @ [(i, ev_seq e)]
                     in if length found' = length (remdups wanted) then found'
                        else seqs_from wanted found' es)
               else seqs_from wanted found es))"

definition get_message_seqs :: "string \<Rightarrow> string list \<Rightarrow> event_store \<Rightarrow> (string, int) odict" where
  "get_message_seqs t identities s =
     (if identities = [] then [] else seqs_from identities [] (messages_of s t))"

text \<open>The request-scoped stamper; an entry that is not a mapping is passed through.\<close>

definition attach_message_seq :: "(string, pyval) odict \<Rightarrow> int \<Rightarrow> (string, pyval) odict" where
  "attach_message_seq m seq =
     (let kw = (case od_get m ''additional_kwargs'' of Some (VDict d) \<Rightarrow> d | _ \<Rightarrow> [])
      in od_set ''additional_kwargs'' (VDict (od_set ''deerflow_seq'' (VInt seq) kw)) m)"

fun entry_identity :: "pyval \<Rightarrow> string option" where
  "entry_identity (VDict m) = message_identity m"
| "entry_identity _ = None"

fun stamp_entry :: "(string, int) odict \<Rightarrow> pyval \<Rightarrow> pyval" where
  "stamp_entry found (VDict m) =
     (case Option.bind (message_identity m) (od_get found) of
        None \<Rightarrow> VDict m | Some seq \<Rightarrow> VDict (attach_message_seq m seq))"
| "stamp_entry found v = v"

definition stamp_messages_with_seq :: "string \<Rightarrow> pyval list \<Rightarrow> event_store \<Rightarrow> pyval list" where
  "stamp_messages_with_seq t messages s =
     (let wanted = sort (remdups (List.map_filter entry_identity messages))
      in if wanted = [] then messages
         else map (stamp_entry (get_message_seqs t wanted s)) messages)"

section \<open>Deletion\<close>

definition delete_by_thread :: "string \<Rightarrow> event_store \<Rightarrow> nat \<times> event_store" where
  "delete_by_thread t s =
     (length (log_of s t),
      \<lparr>es_events = od_del t (es_events s), es_messages = od_del t (es_messages s),
       es_events_by_run = od_del t (es_events_by_run s),
       es_messages_by_run = od_del t (es_messages_by_run s),
       es_seq_counters = od_del t (es_seq_counters s)\<rparr>)"

definition pop_run ::
  "string \<Rightarrow> string \<Rightarrow> (string, (string, event list) odict) odict
     \<Rightarrow> (string, (string, event list) odict) odict" where
  "pop_run t r d = (case od_get d t of None \<Rightarrow> d | Some runs \<Rightarrow> od_set t (od_del r runs) d)"

definition delete_by_run :: "string \<Rightarrow> string \<Rightarrow> event_store \<Rightarrow> nat \<times> event_store" where
  "delete_by_run t r s =
     (let all_events = log_of s t
      in if all_events = [] then (0, s)
         else (let remaining = filter (\<lambda>e. ev_run_id e \<noteq> r) all_events
               in (length all_events - length remaining,
                   s\<lparr>es_events := od_set t remaining (es_events s),
                     es_messages := od_set t (filter (\<lambda>e. ev_category e = ''message'') remaining)
                                      (es_messages s),
                     es_events_by_run := pop_run t r (es_events_by_run s),
                     es_messages_by_run := pop_run t r (es_messages_by_run s)\<rparr>)))"

section \<open>Which run produced a message\<close>

text \<open>
  \<^verbatim>\<open>find_latest_ai_message_run_ids\<close> of the base class pages the feed backwards, 1000 messages at
  a time, until every wanted id is found or the feed ends. The loop is over any reader of pages;
  its first argument is fuel, and \<open>None\<close> is a loop that has not ended yet.
\<close>

definition PAGE_SIZE :: nat where "PAGE_SIZE = 1000"

datatype lookup_error = IncompleteMessageRunLookup

text \<open>The id of a valid AI message event.\<close>

definition ai_key :: "event \<Rightarrow> string option" where
  "ai_key e =
     (if ev_category e \<noteq> ''message'' \<or> ev_run_id e = [] then None
      else (case ev_content e of
              Text x \<Rightarrow> None
            | Fields m \<Rightarrow>
                if od_get m ''type'' \<noteq> Some (VStr ''ai'') then None
                else (case od_get m ''id'' of Some (VStr i) \<Rightarrow> Some i | _ \<Rightarrow> None)))"

definition match_ai_message_run_id :: "string list \<Rightarrow> event \<Rightarrow> (string \<times> string) option" where
  "match_ai_message_run_id ids e =
     (case ai_key e of None \<Rightarrow> None | Some i \<Rightarrow> if i \<in> set ids then Some (i, ev_run_id e) else None)"

fun scan_page ::
  "string list \<Rightarrow> (string, string) odict \<Rightarrow> event list \<Rightarrow> string list \<times> (string, string) odict" where
  "scan_page pending result [] = (pending, result)"
| "scan_page pending result (e # es) =
     (case match_ai_message_run_id pending e of
        None \<Rightarrow> scan_page pending result es
      | Some (i, r) \<Rightarrow>
          (let pending' = removeAll i pending; result' = od_set i r result
           in if pending' = [] then (pending', result') else scan_page pending' result' es))"

fun lookup_loop ::
  "nat \<Rightarrow> (int option \<Rightarrow> event list) \<Rightarrow> string list \<Rightarrow> (string, string) odict \<Rightarrow> int option
     \<Rightarrow> (lookup_error + (string, string) odict) option" where
  "lookup_loop 0 page pending result before_seq = None"
| "lookup_loop (Suc fuel) page pending result before_seq =
     (if pending = [] then Some (Inr result)
      else (let p = page before_seq
            in if p = [] then Some (Inr result)
               else (let (pending', result') = scan_page pending result (rev p)
                     in if pending' = [] \<or> length p < PAGE_SIZE then Some (Inr result')
                        else (let next_before_seq = Min (set (map ev_seq p))
                              in if (case before_seq of None \<Rightarrow> False | Some b \<Rightarrow> b \<le> next_before_seq)
                                 then Some (Inl IncompleteMessageRunLookup)
                                 else lookup_loop fuel page pending' result' (Some next_before_seq)))))"

definition normalize_message_ids :: "string list \<Rightarrow> string list" where
  "normalize_message_ids ids = filter (\<lambda>i. i \<noteq> []) ids"

definition find_latest_ai_message_run_ids ::
  "nat \<Rightarrow> string \<Rightarrow> string list \<Rightarrow> event_store \<Rightarrow> (lookup_error + (string, string) odict) option" where
  "find_latest_ai_message_run_ids fuel t message_ids s =
     lookup_loop fuel (\<lambda>b. list_messages t (int PAGE_SIZE) b None s)
       (normalize_message_ids message_ids) [] None"

section \<open>Bisection finds the cut\<close>

lemma bisect_right_from:
  assumes "sorted a" "lo \<le> hi" "hi \<le> length a"
    "\<And>k. k < lo \<Longrightarrow> a ! k \<le> x" "\<And>k. hi \<le> k \<Longrightarrow> k < length a \<Longrightarrow> x < a ! k"
  shows "bisect_right_from a x lo hi = length (filter (\<lambda>y. y \<le> x) a)"
  using assms
proof (induction a x lo hi rule: bisect_right_from.induct)
  case (1 a x lo hi)
  show ?case
  proof (cases "lo < hi")
    case True
    let ?m = "(lo + hi) div 2"
    have m: "lo \<le> ?m" "?m < hi" using True by auto
    show ?thesis
    proof (cases "x < a ! ?m")
      case True
      have "bisect_right_from a x lo ?m = length (filter (\<lambda>y. y \<le> x) a)"
        using \<open>lo < hi\<close> m True 1(3-7) by (intro 1(1)) (auto dest: sorted_nth_mono elim: order.strict_trans2)
      with True \<open>lo < hi\<close> show ?thesis by (subst bisect_right_from.simps) (simp add: Let_def)
    next
      case False
      have "a ! k \<le> x" if "k < ?m + 1" for k
        using sorted_nth_mono [OF 1(3), of k ?m] that m 1(5) False by auto
      then have "bisect_right_from a x (?m + 1) hi = length (filter (\<lambda>y. y \<le> x) a)"
        using \<open>lo < hi\<close> m False 1(3-7) by (intro 1(2)) auto
      with False \<open>lo < hi\<close> show ?thesis by (subst bisect_right_from.simps) (simp add: Let_def)
    qed
  next
    case False
    then have "lo = hi" using 1(4) by simp
    have "filter (\<lambda>y. y \<le> x) a = take lo a"
      using 1(5-7) \<open>lo = hi\<close> by (intro filter_cut) (auto simp: not_le not_less)
    with False \<open>lo = hi\<close> 1(5) show ?thesis by (subst bisect_right_from.simps) simp
  qed
qed

lemma bisect_left_from:
  assumes "sorted a" "lo \<le> hi" "hi \<le> length a"
    "\<And>k. k < lo \<Longrightarrow> a ! k < x" "\<And>k. hi \<le> k \<Longrightarrow> k < length a \<Longrightarrow> x \<le> a ! k"
  shows "bisect_left_from a x lo hi = length (filter (\<lambda>y. y < x) a)"
  using assms
proof (induction a x lo hi rule: bisect_left_from.induct)
  case (1 a x lo hi)
  show ?case
  proof (cases "lo < hi")
    case True
    let ?m = "(lo + hi) div 2"
    have m: "lo \<le> ?m" "?m < hi" using True by auto
    show ?thesis
    proof (cases "a ! ?m < x")
      case True
      have "a ! k < x" if "k < ?m + 1" for k
        using sorted_nth_mono [OF 1(3), of k ?m] that m 1(5) True by auto
      then have "bisect_left_from a x (?m + 1) hi = length (filter (\<lambda>y. y < x) a)"
        using \<open>lo < hi\<close> m True 1(3-7) by (intro 1(1)) auto
      with True \<open>lo < hi\<close> show ?thesis by (subst bisect_left_from.simps) (simp add: Let_def)
    next
      case False
      have "x \<le> a ! k" if "?m \<le> k" "k < length a" for k
        using sorted_nth_mono [OF 1(3) that] False by auto
      then have "bisect_left_from a x lo ?m = length (filter (\<lambda>y. y < x) a)"
        using \<open>lo < hi\<close> m False 1(3-7) by (intro 1(2)) auto
      with False \<open>lo < hi\<close> show ?thesis by (subst bisect_left_from.simps) (simp add: Let_def)
    qed
  next
    case False
    then have "lo = hi" using 1(4) by simp
    have "filter (\<lambda>y. y < x) a = take lo a"
      using 1(5-7) \<open>lo = hi\<close> by (intro filter_cut) (auto simp: not_le not_less)
    with False \<open>lo = hi\<close> 1(5) show ?thesis by (subst bisect_left_from.simps) simp
  qed
qed

end
