(* ===== verification/EventStoreProofs.thy ===== *)
theory EventStoreProofs
  imports EventStore
begin

text \<open>
  The event store refines one list of events and one counter per thread: every projection is a
  filter of the log under every write and deletion, and every paged reader equals its
  specification as a filter of the log, cut to the page.
\<close>

section \<open>The projections\<close>

definition counter :: "event_store \<Rightarrow> string \<Rightarrow> int" where
  "counter s t = od_get_default (es_seq_counters s) t 0"

definition is_message :: "event \<Rightarrow> bool" where
  "is_message e \<longleftrightarrow> ev_category e = ''message''"

definition log_ok :: "string \<Rightarrow> int \<Rightarrow> event list \<Rightarrow> bool" where
  "log_ok t n es \<longleftrightarrow> sorted_wrt (<) (map ev_seq es)
     \<and> (\<forall>e \<in> set es. ev_thread_id e = t \<and> 0 < ev_seq e \<and> ev_seq e \<le> n) \<and> 0 \<le> n"

definition views_ok :: "event_store \<Rightarrow> string \<Rightarrow> bool" where
  "views_ok s t \<longleftrightarrow> messages_of s t = filter is_message (log_of s t)
     \<and> (\<forall>r. run_events s t r = filter (\<lambda>e. ev_run_id e = r) (log_of s t))
     \<and> (\<forall>r. run_messages s t r = filter (\<lambda>e. is_message e \<and> ev_run_id e = r) (log_of s t))"

definition events_ok :: "event_store \<Rightarrow> bool" where
  "events_ok s \<longleftrightarrow> (\<forall>t. log_ok t (counter s t) (log_of s t) \<and> views_ok s t)"

lemmas view_defs = log_of_def messages_of_def run_events_def run_messages_def counter_def

lemma events_ok_empty: "events_ok empty_events"
  by (simp add: events_ok_def log_ok_def views_ok_def view_defs empty_events_def od_get_default_def)

lemma od_get_default_append_at [odict_simps]:
  "od_get_default (append_at k x d) j [] = (if j = k then od_get_default d k [] @ [x] else od_get_default d j [])"
  by (simp add: append_at_def od_get_default_set)

lemma put_one_event: "fst (put_one now t a s) = event_of now t a (counter s t + 1)"
  by (simp add: put_one_def next_seq_def Let_def counter_def)

lemma put_one_views:
  fixes now t a s
  defines "e \<equiv> event_of now t a (counter s t + 1)" and "s' \<equiv> snd (put_one now t a s)"
  shows "log_of s' u = (if u = t then log_of s t @ [e] else log_of s u)"
    "counter s' u = (if u = t then counter s t + 1 else counter s u)"
    "messages_of s' u = (if u = t \<and> ea_category a = ''message'' then messages_of s t @ [e] else messages_of s u)"
    "run_events s' u r = (if u = t \<and> r = ea_run_id a then run_events s t r @ [e] else run_events s u r)"
    "run_messages s' u r = (if u = t \<and> r = ea_run_id a \<and> ea_category a = ''message''
       then run_messages s t r @ [e] else run_messages s u r)"
  by (simp_all add: e_def s'_def put_one_def next_seq_def Let_def view_defs odict_simps)

lemma event_of_fields [simp]:
  "ev_thread_id (event_of now t a q) = t" "ev_run_id (event_of now t a q) = ea_run_id a"
  "ev_event_type (event_of now t a q) = ea_event_type a" "ev_category (event_of now t a q) = ea_category a"
  "ev_seq (event_of now t a q) = q" "ev_content (event_of now t a q) = ea_content a"
  by (simp_all add: event_of_def)

lemma put_one_ok [inv_intros]:
  assumes "events_ok s"
  shows "events_ok (snd (put_one now t a s))"
  unfolding events_ok_def
proof (intro allI conjI)
  fix u
  from assms have l: "log_ok u (counter s u) (log_of s u)" and v: "views_ok s u"
    by (simp_all add: events_ok_def)
  show "log_ok u (counter (snd (put_one now t a s)) u) (log_of (snd (put_one now t a s)) u)"
    using l by (force simp: put_one_views log_ok_def sorted_wrt_append)
  show "views_ok (snd (put_one now t a s)) u"
    using v by (auto simp: views_ok_def put_one_views is_message_def)
qed

lemma delete_by_thread_views:
  "log_of (snd (delete_by_thread t s)) u = (if u = t then [] else log_of s u)"
  "counter (snd (delete_by_thread t s)) u = (if u = t then 0 else counter s u)"
  "messages_of (snd (delete_by_thread t s)) u = (if u = t then [] else messages_of s u)"
  "run_events (snd (delete_by_thread t s)) u r = (if u = t then [] else run_events s u r)"
  "run_messages (snd (delete_by_thread t s)) u r = (if u = t then [] else run_messages s u r)"
  by (simp_all add: delete_by_thread_def view_defs odict_simps) (simp_all add: od_get_default_def)

lemma drop_thread_ok [inv_intros]: "events_ok s \<Longrightarrow> events_ok (snd (delete_by_thread t s))"
  by (auto simp: events_ok_def log_ok_def views_ok_def delete_by_thread_views)

lemma pop_run_view:
  "od_get_default (od_get_default (pop_run t r d) u []) q [] =
     (if u = t \<and> q = r then [] else od_get_default (od_get_default d u []) q [])"
  by (auto simp: pop_run_def odict_simps od_get_default_def split: option.splits)

lemma delete_by_run_views:
  assumes "log_of s t \<noteq> []"
  shows "log_of (snd (delete_by_run t r s)) u =
      (if u = t then filter (\<lambda>e. ev_run_id e \<noteq> r) (log_of s t) else log_of s u)"
    "counter (snd (delete_by_run t r s)) u = counter s u"
    "messages_of (snd (delete_by_run t r s)) u =
      (if u = t then filter is_message (filter (\<lambda>e. ev_run_id e \<noteq> r) (log_of s t)) else messages_of s u)"
    "run_events (snd (delete_by_run t r s)) u q = (if u = t \<and> q = r then [] else run_events s u q)"
    "run_messages (snd (delete_by_run t r s)) u q = (if u = t \<and> q = r then [] else run_messages s u q)"
  using assms
  by (simp_all add: delete_by_run_def Let_def view_defs odict_simps pop_run_view is_message_def)

lemma drop_run_events_ok [inv_intros]:
  assumes "events_ok s"
  shows "events_ok (snd (delete_by_run t r s))"
proof (cases "log_of s t = []")
  case False
  show ?thesis
    unfolding events_ok_def
  proof (intro allI conjI)
    fix u
    from assms have l: "log_ok u (counter s u) (log_of s u)" and v: "views_ok s u"
      by (simp_all add: events_ok_def)
    show "log_ok u (counter (snd (delete_by_run t r s)) u) (log_of (snd (delete_by_run t r s)) u)"
      using l by (auto simp: delete_by_run_views [OF False] log_ok_def sorted_wrt_map sorted_wrt_filter)
    show "views_ok (snd (delete_by_run t r s)) u"
      using v by (auto simp: views_ok_def delete_by_run_views [OF False] filter_empty_conv intro!: filter_cong)
  qed
qed (simp add: delete_by_run_def assms)

lemma put_batch_ok [inv_intros]: "events_ok s \<Longrightarrow> events_ok (snd (put_batch now evs s))"
proof (induction evs arbitrary: s)
  case (Cons p evs)
  obtain t a where p: "p = (t, a)" by fastforce
  have "snd (put_batch now (p # evs) s) = snd (put_batch now evs (snd (put_one now t a s)))"
    by (simp add: p split_beta Let_def)
  with Cons show ?case by (simp add: put_one_ok)
qed simp

lemma put_if_absent_ok [inv_intros]:
  "put_if_absent now t a g s = Inr (x, s') \<Longrightarrow> events_ok s \<Longrightarrow> events_ok s'"
  using put_one_ok [of s now t a]
  by (auto simp: put_if_absent_def Let_def split_beta split: if_splits option.splits)

section \<open>Histories\<close>

inductive event_step :: "event_store \<Rightarrow> event_store \<Rightarrow> bool" where
  put: "event_step s (snd (put now t a s))"
| batch: "event_step s (snd (put_batch now evs s))"
| absent: "put_if_absent now t a g s = Inr (x, s') \<Longrightarrow> event_step s s'"
| drop_thread: "event_step s (snd (delete_by_thread t s))"
| drop_run: "event_step s (snd (delete_by_run t r s))"

inductive event_history :: "event_store \<Rightarrow> bool" where
  init: "event_history empty_events"
| step: "event_history s \<Longrightarrow> event_step s s' \<Longrightarrow> event_history s'"

lemma event_step_ok: "event_step s s' \<Longrightarrow> events_ok s \<Longrightarrow> events_ok s'"
  by (induction rule: event_step.induct) (auto simp: put_def intro: inv_intros)

lemma history_ok: "event_history s \<Longrightarrow> events_ok s"
  by (induction rule: event_history.induct) (auto intro: events_ok_empty event_step_ok)

section \<open>Pages\<close>

text \<open>What the interface documents of a page of messages.\<close>

definition in_window :: "int option \<Rightarrow> int option \<Rightarrow> event \<Rightarrow> bool" where
  "in_window before after e \<longleftrightarrow> (case after of None \<Rightarrow> True | Some a \<Rightarrow> a < ev_seq e)
     \<and> (case before of None \<Rightarrow> True | Some b \<Rightarrow> ev_seq e < b)"

lemma in_window_simps [simp]:
  "in_window None None = (\<lambda>e. True)" "in_window None (Some a) = (\<lambda>e. a < ev_seq e)"
  "in_window (Some b) None = (\<lambda>e. ev_seq e < b)"
  "in_window (Some b) (Some a) = (\<lambda>e. a < ev_seq e \<and> ev_seq e < b)"
  by (simp_all add: in_window_def fun_eq_iff)

definition page_spec :: "nat \<Rightarrow> int option \<Rightarrow> int option \<Rightarrow> event list \<Rightarrow> event list" where
  "page_spec n before after es =
     (let w = filter (in_window before after) es in if after \<noteq> None then take n w else last_n n w)"

lemma sorted_seqs: "sorted_wrt (<) (map ev_seq es) \<Longrightarrow> sorted (map ev_seq es)"
  by (simp add: strict_sorted_iff)

lemma bisect_right_length:
  "sorted_wrt (<) (map ev_seq es) \<Longrightarrow> bisect_right es x = length (filter (\<lambda>e. ev_seq e \<le> x) es)"
  unfolding bisect_right_def
  by (subst bisect_right_from) (auto simp: sorted_seqs filter_map comp_def)

lemma bisect_left_length:
  "sorted_wrt (<) (map ev_seq es) \<Longrightarrow> bisect_left es x = length (filter (\<lambda>e. ev_seq e < x) es)"
  unfolding bisect_left_def
  by (subst bisect_left_from) (auto simp: sorted_seqs filter_map comp_def)

text \<open>In a sorted log the events up to a number are a prefix.\<close>

lemma sorted_prefix:
  assumes "sorted_wrt (<) (map ev_seq es)" "P = (\<lambda>e. ev_seq e < x) \<or> P = (\<lambda>e. ev_seq e \<le> x)"
  shows "filter P es = take (length (filter P es)) es"
    and "filter (\<lambda>e. \<not> P e) es = drop (length (filter P es)) es"
proof -
  have "\<exists>n. filter P es = take n es \<and> filter (\<lambda>e. \<not> P e) es = drop n es"
    using assms(1)
  proof (induction es)
    case (Cons e es)
    show ?case
    proof (cases "P e")
      case True
      from Cons obtain n where "filter P es = take n es" "filter (\<lambda>e. \<not> P e) es = drop n es" by auto
      with True show ?thesis by (intro exI [of _ "Suc n"]) simp
    next
      case False
      then have "\<forall>e' \<in> set es. \<not> P e'" using Cons.prems assms(2) by auto
      with False show ?thesis
        by (intro exI [of _ 0]) (simp add: filter_empty_conv filter_id_conv)
    qed
  qed simp
  then obtain n where n: "filter P es = take n es" "filter (\<lambda>e. \<not> P e) es = drop n es" by blast
  then have "take (length (filter P es)) es = take n es \<and> drop (length (filter P es)) es = drop n es"
    by (cases "n \<le> length es") auto
  with n show "filter P es = take (length (filter P es)) es"
    and "filter (\<lambda>e. \<not> P e) es = drop (length (filter P es)) es" by simp_all
qed

lemma drop_bisect_right:
  "sorted_wrt (<) (map ev_seq es) \<Longrightarrow> drop (bisect_right es a) es = filter (\<lambda>e. a < ev_seq e) es"
  using sorted_prefix(2) [of es "\<lambda>e. ev_seq e \<le> a" a] by (simp add: bisect_right_length not_le)

lemma take_bisect_left:
  "sorted_wrt (<) (map ev_seq es) \<Longrightarrow> take (bisect_left es b) es = filter (\<lambda>e. ev_seq e < b) es"
  using sorted_prefix(1) [of es "\<lambda>e. ev_seq e < b" b] by (simp add: bisect_left_length)

lemma bisect_window:
  assumes "sorted_wrt (<) (map ev_seq es)"
  shows "drop (bisect_right es a) (take (bisect_left es b) es) = filter (in_window (Some b) (Some a)) es"
proof -
  let ?E = "filter (\<lambda>e. ev_seq e < b) es"
  have E: "sorted_wrt (<) (map ev_seq ?E)" using assms by (simp add: sorted_wrt_map sorted_wrt_filter)
  have "drop (bisect_right es a) ?E = drop (bisect_right ?E a) ?E"
  proof (cases "\<exists>e \<in> set es. ev_seq e \<le> a \<and> b \<le> ev_seq e")
    case True
    then have all: "filter (\<lambda>e. ev_seq e \<le> a) ?E = ?E" by (fastforce intro!: filter_True)
    have "filter (\<lambda>e. ev_seq e \<le> a) ?E = filter (\<lambda>e. ev_seq e < b) (filter (\<lambda>e. ev_seq e \<le> a) es)"
      by (simp add: conj_commute)
    then have "length ?E \<le> length (filter (\<lambda>e. ev_seq e \<le> a) es)"
      using all length_filter_le by metis
    with all show ?thesis by (simp add: bisect_right_length assms E)
  next
    case False
    then have "filter (\<lambda>e. ev_seq e \<le> a) ?E = filter (\<lambda>e. ev_seq e \<le> a) es"
      by (auto intro!: filter_cong simp: not_le)
    then show ?thesis by (simp only: bisect_right_length assms E)
  qed
  also have "\<dots> = filter (\<lambda>e. a < ev_seq e) ?E" using E by (rule drop_bisect_right)
  finally show ?thesis
    by (simp add: take_bisect_left assms conj_commute)
qed

lemma bisect_le: "sorted_wrt (<) (map ev_seq es) \<Longrightarrow> bisect_right es a \<le> length es \<and> bisect_left es a \<le> length es"
  by (simp add: bisect_right_length bisect_left_length)

lemma last_n_take: "h \<le> length xs \<Longrightarrow> drop (h - n) (take h xs) = last_n n (take h xs)"
  by (simp add: last_n_def)

lemma drop_take_window: "drop lo (take (min hi (lo + n)) xs) = take n (drop lo (take hi xs))"
proof -
  have "min hi (lo + n) - lo = min n (hi - lo)" by auto
  then show ?thesis by (simp add: drop_take)
qed

lemma list_messages_spec:
  assumes "sorted_wrt (<) (map ev_seq (messages_of s t))" "0 < n"
  shows "list_messages t (int n) before after s = page_spec n before after (messages_of s t)"
proof (cases after)
  case (Some a)
  let ?M = "messages_of s t"
  show ?thesis
  proof (cases before)
    case None
    have "drop (bisect_right ?M a) (take (min (length ?M) (bisect_right ?M a + n)) ?M)
        = take n (drop (bisect_right ?M a) ?M)"
      by (simp only: drop_take_window take_all order_refl)
    with Some None drop_bisect_right [OF assms(1), of a] show ?thesis
      by (simp add: list_messages_def Let_def py_slice_nonneg page_spec_def nat_add_distrib
          flip: of_nat_add of_nat_min)
  next
    case (Some b)
    have "drop (bisect_right ?M a) (take (min (bisect_left ?M b) (bisect_right ?M a + n)) ?M)
        = take n (drop (bisect_right ?M a) (take (bisect_left ?M b) ?M))"
      by (rule drop_take_window)
    with Some \<open>after = Some a\<close> bisect_window [OF assms(1), of a b] show ?thesis
      by (simp add: list_messages_def Let_def py_slice_nonneg page_spec_def flip: of_nat_add of_nat_min)
  qed
next
  case None
  let ?M = "messages_of s t"
  show ?thesis
  proof (cases before)
    case None
    with \<open>after = None\<close> assms(2) show ?thesis
      by (simp add: list_messages_def page_spec_def py_from_last_n)
  next
    case (Some b)
    let ?h = "bisect_left ?M b"
    have "py_slice ?M (max 0 (int ?h - int n)) (int ?h) = drop (?h - n) (take ?h ?M)"
      by (simp add: py_slice_nonneg nat_diff_distrib' max_def)
    also have "\<dots> = last_n n (take ?h ?M)" using bisect_le [OF assms(1)] by (simp add: last_n_take)
    finally show ?thesis
      using Some None take_bisect_left [OF assms(1), of b]
      by (simp add: list_messages_def Let_def page_spec_def)
  qed
qed

lemma list_messages_by_run_spec:
  assumes "sorted_wrt (<) (map ev_seq (run_messages s t r))" "0 < n"
  shows "list_messages_by_run t r (int n) before after s = page_spec n before after (run_messages s t r)"
proof -
  let ?M = "run_messages s t r"
  let ?lo = "case after of None \<Rightarrow> 0 | Some a \<Rightarrow> bisect_right ?M a"
  let ?hi = "case before of None \<Rightarrow> length ?M | Some b \<Rightarrow> bisect_left ?M b"
  have "drop ?lo (take ?hi ?M) = filter (in_window before after) ?M"
    using bisect_window [OF assms(1)] drop_bisect_right [OF assms(1)] take_bisect_left [OF assms(1)]
    by (auto split: option.splits)
  then have "py_slice ?M (int ?lo) (int ?hi) = filter (in_window before after) ?M"
    by (simp add: py_slice_nonneg)
  with assms(2) show ?thesis
    by (cases after) (simp_all add: list_messages_by_run_def Let_def page_spec_def py_upto_nonneg py_from_last_n)
qed

section \<open>Looking up runs page by page\<close>

definition produced :: "string \<Rightarrow> event list \<Rightarrow> event option" where
  "produced i es = find (\<lambda>e. ai_key e = Some i) es"

lemma produced_append:
  "produced i (xs @ ys) = (case produced i xs of None \<Rightarrow> produced i ys | Some e \<Rightarrow> Some e)"
  by (auto simp: produced_def find_append split: option.splits)

lemma scan_page_correct:
  "scan_page P R es = (P', R') \<Longrightarrow>
     set P' = {i \<in> set P. produced i es = None}
     \<and> (\<forall>i. od_get R' i = (if i \<in> set P then
              (case produced i es of None \<Rightarrow> od_get R i | Some e \<Rightarrow> Some (ev_run_id e)) else od_get R i))"
proof (induction es arbitrary: P R)
  case (Cons e es)
  show ?case
  proof (cases "match_ai_message_run_id P e")
    case None
    then have "ai_key e \<noteq> Some i" if "i \<in> set P" for i
      using that by (auto simp: match_ai_message_run_id_def split: option.splits if_splits)
    then have p: "produced i (e # es) = produced i es" if "i \<in> set P" for i
      using that by (simp add: produced_def)
    from None Cons.prems have "scan_page P R es = (P', R')" by simp
    from Cons.IH [OF this] p show ?thesis by auto
  next
    case (Some m)
    then obtain i where m: "m = (i, ev_run_id e)" "ai_key e = Some i" "i \<in> set P"
      by (auto simp: match_ai_message_run_id_def split: option.splits if_splits)
    let ?P = "removeAll i P" and ?R = "od_set i (ev_run_id e) R"
    have p: "produced j (e # es) = (if j = i then Some e else produced j es)" for j
      using m by (simp add: produced_def eq_commute)
    have tail: "set P' = {j \<in> set ?P. produced j es = None} \<and> (\<forall>j. od_get R' j = (if j \<in> set ?P then
        (case produced j es of None \<Rightarrow> od_get ?R j | Some e \<Rightarrow> Some (ev_run_id e)) else od_get ?R j))"
    proof (cases "?P = []")
      case True
      with Some m Cons.prems have "P' = []" "R' = ?R" by (simp_all add: Let_def)
      with True show ?thesis by simp
    next
      case False
      with Some m Cons.prems have "scan_page ?P ?R es = (P', R')" by (simp add: Let_def)
      from Cons.IH [OF this] show ?thesis .
    qed
    have "set P' = {j \<in> set P. produced j (e # es) = None}"
      unfolding conjunct1 [OF tail] p by auto
    moreover have "od_get R' j = (if j \<in> set P then
        (case produced j (e # es) of None \<Rightarrow> od_get R j | Some e \<Rightarrow> Some (ev_run_id e)) else od_get R j)" for j
      unfolding conjunct2 [OF tail, rule_format] p using m(3)
      by (cases "j = i") (simp_all add: odict_simps split: option.splits)
    ultimately show ?thesis by blast
  qed
qed (simp add: produced_def)

definition unseen :: "int option \<Rightarrow> event list \<Rightarrow> event list" where
  "unseen before es = filter (in_window before None) es"

text \<open>All that the lookup needs of a store: bounded pages that end just before a cursor.\<close>

locale message_feed =
  fixes ok :: "'s \<Rightarrow> bool"
    and page :: "'s \<Rightarrow> int option \<Rightarrow> event list"
    and feed :: "'s \<Rightarrow> event list"
  assumes feed_sorted: "ok s \<Longrightarrow> sorted_wrt (<) (map ev_seq (feed s))"
    and page_law: "ok s \<Longrightarrow> page s before = last_n PAGE_SIZE (filter (in_window before None) (feed s))"
begin

lemma unseen_sorted: "ok s \<Longrightarrow> sorted_wrt (<) (map ev_seq (unseen b (feed s)))"
  using feed_sorted by (simp add: unseen_def sorted_wrt_map sorted_wrt_filter)

text \<open>A full page: its first event is the next cursor, and what lies before the page is unseen.\<close>

lemma next_cursor:
  assumes "ok s" "page s b \<noteq> []" "PAGE_SIZE \<le> length (page s b)"
  defines "m \<equiv> Min (set (map ev_seq (page s b)))"
  shows "unseen b (feed s) = unseen (Some m) (feed s) @ page s b" "(case b of None \<Rightarrow> True | Some x \<Rightarrow> m < x)"
proof -
  let ?W = "unseen b (feed s)" and ?p = "page s b"
  let ?rest = "take (length ?W - PAGE_SIZE) ?W"
  have p: "?p = drop (length ?W - PAGE_SIZE) ?W"
    using page_law [OF assms(1)] by (simp add: unseen_def last_n_def)
  then have W: "?W = ?rest @ ?p" by (metis append_take_drop_id)
  have srt: "sorted_wrt (<) (map ev_seq (?rest @ ?p))" using unseen_sorted [OF assms(1)] W by simp
  have "m \<in> set (map ev_seq ?p)" unfolding m_def using assms(2) by (intro Min_in) auto
  then obtain e where e: "e \<in> set ?p" "ev_seq e = m" by auto
  have ge: "m \<le> ev_seq x" if "x \<in> set ?p" for x unfolding m_def using that by (intro Min_le) auto
  have lt: "ev_seq x < m" if "x \<in> set ?rest" for x
    using srt that e by (auto simp: sorted_wrt_append)
  have eW: "e \<in> set ?W" using e W by (metis in_set_conv_decomp_first append_assoc Un_iff set_append)
  then show b: "(case b of None \<Rightarrow> True | Some x \<Rightarrow> m < x)"
    using e(2) by (auto simp: unseen_def split: option.splits)
  have "unseen (Some m) (feed s) = filter (\<lambda>x. ev_seq x < m) ?W"
    using b by (auto simp: unseen_def in_window_def intro!: filter_cong split: option.splits)
  also have "\<dots> = filter (\<lambda>x. ev_seq x < m) ?rest @ filter (\<lambda>x. ev_seq x < m) ?p"
    by (subst W) (simp only: filter_append)
  also have "filter (\<lambda>x. ev_seq x < m) ?rest = ?rest" using lt by (simp add: filter_id_conv)
  also have "filter (\<lambda>x. ev_seq x < m) ?p = []" using ge by (auto simp: filter_empty_conv not_less)
  finally show "unseen b (feed s) = unseen (Some m) (feed s) @ ?p" using W by simp
qed

lemma page_exhausts: "ok s \<Longrightarrow> length (page s b) < PAGE_SIZE \<Longrightarrow> page s b = unseen b (feed s)"
  using page_law [of s b] by (auto simp: unseen_def min_def split: if_splits)

lemma page_empty: "ok s \<Longrightarrow> page s b = [] \<Longrightarrow> unseen b (feed s) = []"
  using page_exhausts [of s b] by (simp add: PAGE_SIZE_def)

lemma lookup_loop_correct:
  "ok s \<Longrightarrow> length (unseen b (feed s)) < fuel \<Longrightarrow>
     \<exists>R'. lookup_loop fuel (page s) P R b = Some (Inr R') \<and>
       (\<forall>i. od_get R' i = (if i \<in> set P then
          (case produced i (rev (unseen b (feed s))) of None \<Rightarrow> od_get R i | Some e \<Rightarrow> Some (ev_run_id e))
        else od_get R i))"
proof (induction fuel arbitrary: P R b)
  case (Suc fuel)
  show ?case
  proof (cases "P = [] \<or> page s b = []")
    case True
    with page_empty [OF Suc.prems(1), of b] show ?thesis by (auto simp: produced_def Let_def)
  next
    case False
    obtain P' R' where scan: "scan_page P R (rev (page s b)) = (P', R')" by fastforce
    note sc = scan_page_correct [OF scan]
    show ?thesis
    proof (cases "P' = [] \<or> length (page s b) < PAGE_SIZE")
      case True
      have loop: "lookup_loop (Suc fuel) (page s) P R b = Some (Inr R')"
        using False True scan by (simp add: Let_def)
      have "produced i (rev (unseen b (feed s))) = produced i (rev (page s b))" if "i \<in> set P" for i
      proof (cases "length (page s b) < PAGE_SIZE")
        case True
        with page_exhausts [OF Suc.prems(1) True] show ?thesis by simp
      next
        case full: False
        with True have "P' = []" by simp
        with sc that obtain e where "produced i (rev (page s b)) = Some e" by auto
        with next_cursor(1) [OF Suc.prems(1), of b] False full show ?thesis
          by (simp add: produced_append not_less)
      qed
      with sc loop show ?thesis by (auto split: option.splits)
    next
      case more: False
      let ?m = "Min (set (map ev_seq (page s b)))"
      from more have full: "PAGE_SIZE \<le> length (page s b)" by simp
      have ne: "page s b \<noteq> []" using False by simp
      note nc = next_cursor [OF Suc.prems(1) ne full]
      have loop: "lookup_loop (Suc fuel) (page s) P R b = lookup_loop fuel (page s) P' R' (Some ?m)"
        using False more scan nc(2) by (simp add: Let_def split: option.splits del: Min_ge_iff Min_less_iff)
      have "length (unseen b (feed s)) = length (unseen (Some ?m) (feed s)) + length (page s b)"
        by (subst nc(1)) simp
      with Suc.prems(2) ne have "length (unseen (Some ?m) (feed s)) < fuel" by (cases "page s b") auto
      from Suc.IH [OF Suc.prems(1) this, of P' R'] obtain R2 where
        R2: "lookup_loop fuel (page s) P' R' (Some ?m) = Some (Inr R2)"
        "\<And>i. od_get R2 i = (if i \<in> set P' then (case produced i (rev (unseen (Some ?m) (feed s))) of
            None \<Rightarrow> od_get R' i | Some e \<Rightarrow> Some (ev_run_id e)) else od_get R' i)" by blast
      have "produced i (rev (unseen b (feed s))) = (case produced i (rev (page s b)) of
          None \<Rightarrow> produced i (rev (unseen (Some ?m) (feed s))) | Some e \<Rightarrow> Some e)" for i
        by (subst nc(1)) (simp only: rev_append produced_append)
      with R2 sc loop show ?thesis by (auto split: option.splits)
    qed
  qed
qed simp

end

lemma events_ok_sorted:
  assumes "events_ok s"
  shows "sorted_wrt (<) (map ev_seq (messages_of s t))" "sorted_wrt (<) (map ev_seq (run_messages s t r))"
    "sorted_wrt (<) (map ev_seq (log_of s t))"
  using assms by (auto simp: events_ok_def views_ok_def log_ok_def sorted_wrt_map sorted_wrt_filter)

interpretation memory_feed: message_feed events_ok
  "\<lambda>s b. list_messages t (int PAGE_SIZE) b None s" "\<lambda>s. messages_of s t" for t
proof
  fix s before assume ok: "events_ok s"
  then show "sorted_wrt (<) (map ev_seq (messages_of s t))" by (rule events_ok_sorted)
  have "0 < PAGE_SIZE" by (simp add: PAGE_SIZE_def)
  from list_messages_spec [OF events_ok_sorted(1) [OF ok] this]
  show "list_messages t (int PAGE_SIZE) before None s =
      last_n PAGE_SIZE (filter (in_window before None) (messages_of s t))"
    by (simp add: page_spec_def)
qed

section \<open>Placing messages in the feed\<close>

definition event_identity :: "event \<Rightarrow> string option" where
  "event_identity e = (case ev_content e of Text x \<Rightarrow> None | Fields m \<Rightarrow> message_identity m)"

lemma keys_full:
  assumes "distinct ks" "set ks \<subseteq> set ws" "length ks = length (remdups ws)"
  shows "set ks = set ws"
proof -
  have "card (set ks) = card (set ws)" using assms(1,3) by (simp add: distinct_card length_remdups_card_conv)
  with assms(2) show ?thesis by (intro card_subset_eq) auto
qed

lemma seqs_from_correct:
  "od_wf found \<Longrightarrow> set (od_keys found) \<subseteq> set wanted \<Longrightarrow>
     od_get (seqs_from wanted found es) i =
       (case od_get found i of
          Some q \<Rightarrow> Some q
        | None \<Rightarrow> if i \<in> set wanted then map_option ev_seq (find (\<lambda>e. event_identity e = Some i) es) else None)"
proof (induction es arbitrary: found)
  case Nil
  then show ?case by (auto split: option.splits)
next
  case (Cons e es)
  show ?case
  proof (cases "\<exists>k. event_identity e = Some k \<and> k \<in> set wanted \<and> od_get found k = None")
    case False
    then have "seqs_from wanted found (e # es) = seqs_from wanted found es"
      by (auto simp: event_identity_def split: content.splits option.splits)
    with Cons False show ?thesis by (auto split: option.splits)
  next
    case True
    then obtain k where k: "event_identity e = Some k" "k \<in> set wanted" "od_get found k = None" by blast
    let ?f = "found @ [(k, ev_seq e)]"
    have "k \<notin> set (od_keys found)" using k(3) by (simp add: od_get_None)
    then have f: "od_wf ?f" "set (od_keys ?f) \<subseteq> set wanted" using Cons.prems k(2) by auto
    have get: "od_get ?f i = (case od_get found i of Some q \<Rightarrow> Some q | None \<Rightarrow> if i = k then Some (ev_seq e) else None)"
      unfolding od_get_append by (simp split: option.splits)
    have step: "seqs_from wanted found (e # es) =
        (if length ?f = length (remdups wanted) then ?f else seqs_from wanted ?f es)"
      using k by (auto simp: event_identity_def Let_def split: content.splits option.splits)
    show ?thesis
    proof (cases "length ?f = length (remdups wanted)")
      case True
      have "length (od_keys ?f) = length (remdups wanted)" using True by simp
      from keys_full [OF f this] have "i \<in> set wanted \<Longrightarrow> od_get ?f i \<noteq> None"
        by (metis od_get_None)
      with step True get k show ?thesis by (auto split: option.splits if_splits)
    next
      case False
      with step Cons.IH [OF f] get k show ?thesis by (auto split: option.splits if_splits)
    qed
  qed
qed

section \<open>Properties\<close>

text \<open>
  C13. Under every history of writes and deletions the log of a thread has strictly increasing,
  positive sequence numbers, none above the thread's counter, and the three projections are in
  lockstep with it: the messages of the thread, the events of a run and the messages of a run are
  exactly the log filtered.
\<close>

theorem event_projections_in_lockstep:
  assumes "event_history s"
  shows "sorted_wrt (<) (map ev_seq (log_of s t))
    \<and> (\<forall>e \<in> set (log_of s t). ev_thread_id e = t \<and> 0 < ev_seq e \<and> ev_seq e \<le> counter s t)
    \<and> messages_of s t = filter is_message (log_of s t)
    \<and> run_events s t r = filter (\<lambda>e. ev_run_id e = r) (log_of s t)
    \<and> run_messages s t r = filter (\<lambda>e. is_message e \<and> ev_run_id e = r) (log_of s t)"
  using history_ok [OF assms] by (simp add: events_ok_def log_ok_def views_ok_def)

text \<open>
  C29. Every page read by bisection is the page its interface documents: with a lower cursor the
  first \<open>n\<close> messages in the exclusive window, without one the last \<open>n\<close> below the upper cursor, in
  sequence order; the same holds of the messages of one run.
\<close>

theorem message_pages_match_the_window:
  assumes "event_history s" "0 < n"
  shows "list_messages t (int n) before after s = page_spec n before after (filter is_message (log_of s t))
    \<and> list_messages_by_run t r (int n) before after s =
        page_spec n before after (filter (\<lambda>e. is_message e \<and> ev_run_id e = r) (log_of s t))"
  using history_ok [OF assms(1)] list_messages_spec [OF events_ok_sorted(1) assms(2)]
    list_messages_by_run_spec [OF events_ok_sorted(2) assms(2)]
  by (simp add: events_ok_def views_ok_def)

text \<open>
  A guarded singleton write is idempotent per run and event type: whatever it answers, the
  event it returns is the only one or the first of that type in the run, and repeating the write
  with any other content, at any time, returns that same event as already present and changes
  nothing.
\<close>

theorem put_if_absent_is_idempotent:
  assumes "event_history s" "put_if_absent now t a g s = Inr ((e, created), s')"
    "ea_run_id b = ea_run_id a" "ea_event_type b = ea_event_type a" "g' \<noteq> Some False"
  shows "find (\<lambda>x. ev_event_type x = ea_event_type a) (run_events s' t (ea_run_id a)) = Some e
    \<and> (created \<longleftrightarrow> filter (\<lambda>x. ev_event_type x = ea_event_type a) (run_events s t (ea_run_id a)) = [])
    \<and> (created \<longrightarrow> log_of s' t = log_of s t @ [e]) \<and> (\<not> created \<longrightarrow> s' = s)
    \<and> put_if_absent now' t b g' s' = Inr ((e, False), s')"
proof (cases "find (\<lambda>x. ev_event_type x = ea_event_type a) (run_events s t (ea_run_id a))")
  case None
  with assms(2) have e: "e = event_of now t a (counter s t + 1)" "created" "s' = snd (put_one now t a s)"
    using put_one_event [of now t a s] by (auto simp: put_if_absent_def Let_def split_beta split: if_splits)
  with None have f: "find (\<lambda>x. ev_event_type x = ea_event_type a) (run_events s' t (ea_run_id a)) = Some e"
    by (simp add: put_one_views find_append)
  have "filter (\<lambda>x. ev_event_type x = ea_event_type a) (run_events s t (ea_run_id a)) = []"
    using None by (simp add: find_None_iff filter_empty_conv)
  with f e assms(3-5) show ?thesis by (auto simp: put_if_absent_def put_one_views)
next
  case (Some x)
  with assms(2) have e: "e = x" "\<not> created" "s' = s" by (auto simp: put_if_absent_def split: if_splits)
  have "filter (\<lambda>x. ev_event_type x = ea_event_type a) (run_events s t (ea_run_id a)) \<noteq> []"
    using find_SomeD [OF Some] by (auto simp: filter_empty_conv)
  with Some e assms(3-5) show ?thesis by (auto simp: put_if_absent_def)
qed

text \<open>
  C31. The page-by-page lookup of the runs that produced a set of messages ends, never reports an
  incomplete lookup, and equals one backward scan of the whole feed: a wanted id maps to the run of
  its newest valid AI message, and an id without one is absent. Fuel of one more than the number
  of messages is enough.
\<close>

theorem paged_lookup_is_exhaustive:
  assumes "event_history s" "length (messages_of s t) < fuel"
  shows "\<exists>R. find_latest_ai_message_run_ids fuel t ids s = Some (Inr R)
    \<and> (\<forall>i. od_get R i = (if i \<in> set ids \<and> i \<noteq> []
         then map_option ev_run_id (find (\<lambda>e. ai_key e = Some i) (rev (messages_of s t))) else None))"
proof -
  have "length (unseen None (messages_of s t)) < fuel" using assms(2) by (simp add: unseen_def)
  from memory_feed.lookup_loop_correct [OF history_ok [OF assms(1)] this, of "normalize_message_ids ids" "[]"]
  obtain R where R: "find_latest_ai_message_run_ids fuel t ids s = Some (Inr R)"
    "\<And>i. od_get R i = (if i \<in> set (normalize_message_ids ids) then
       (case produced i (rev (unseen None (messages_of s t))) of None \<Rightarrow> od_get [] i | Some e \<Rightarrow> Some (ev_run_id e))
       else od_get [] i)"
    unfolding find_latest_ai_message_run_ids_def by blast
  have "od_get R i = (if i \<in> set ids \<and> i \<noteq> []
      then map_option ev_run_id (find (\<lambda>e. ai_key e = Some i) (rev (messages_of s t))) else None)" for i
    unfolding R(2) by (simp add: normalize_message_ids_def unseen_def produced_def split: option.splits)
  with R(1) show ?thesis by blast
qed

text \<open>
  A message is placed where it first appeared: for every identity asked for, the sequence
  lookup returns the number of the earliest message in the feed with that identity, and nothing
  for the others, although the scan stops as soon as every identity is found.
\<close>

theorem message_seq_is_the_first:
  "od_get (get_message_seqs t ids s) i =
     (if i \<in> set ids then map_option ev_seq (find (\<lambda>e. event_identity e = Some i) (messages_of s t)) else None)"
  using seqs_from_correct [of "[]" ids "messages_of s t" i] by (simp add: get_message_seqs_def)

section \<open>Witnesses\<close>

definition ai_args :: "string \<Rightarrow> string \<Rightarrow> event_args" where
  "ai_args r i = \<lparr>ea_run_id = r, ea_event_type = ''ai_message'', ea_category = ''message'',
     ea_content = Fields [(''type'', VStr ''ai''), (''id'', VStr i)], ea_metadata = None, ea_created_at = None\<rparr>"

definition example_events :: event_store where
  "example_events = snd (put ''now'' ''t'' (ai_args ''r2'' ''m'') (snd (put ''now'' ''t'' (ai_args ''r1'' ''m'') empty_events)))"

lemma example_history: "event_history example_events"
  unfolding example_events_def
  by (rule event_history.step [OF event_history.step [OF event_history.init event_step.put] event_step.put])

lemma example_messages: "map ev_run_id (messages_of example_events ''t'') = [''r1'', ''r2'']"
  by (simp add: example_events_def put_def put_one_views ai_args_def)
    (simp add: view_defs empty_events_def od_get_default_def)

theorem event_projections_in_lockstep_witness:
  "messages_of example_events ''t'' = filter is_message (log_of example_events ''t'')
     \<and> length (messages_of example_events ''t'') = 2"
  using event_projections_in_lockstep [OF example_history, of "''t''"] arg_cong [OF example_messages, of length]
  by simp

theorem message_pages_match_the_window_witness:
  "list_messages ''t'' 1 None (Some 0) example_events
     = page_spec 1 None (Some 0) (filter is_message (log_of example_events ''t''))"
  using message_pages_match_the_window [OF example_history, of 1 "''t''" None "Some 0"] by simp

theorem put_if_absent_is_idempotent_witness:
  "\<exists>e s'. put_if_absent ''now'' ''t'' (ai_args ''r3'' ''a'') None example_events = Inr ((e, True), s')
     \<and> put_if_absent ''later'' ''t'' (ai_args ''r3'' ''b'') (Some True) s' = Inr ((e, False), s')"
proof -
  have none: "run_events example_events ''t'' ''r3'' = []"
    by (simp add: example_events_def put_def put_one_views ai_args_def)
      (simp add: view_defs empty_events_def od_get_default_def)
  then obtain e s' where p: "put_if_absent ''now'' ''t'' (ai_args ''r3'' ''a'') None example_events = Inr ((e, True), s')"
    by (simp add: put_if_absent_def ai_args_def split_beta)
  from put_if_absent_is_idempotent [OF example_history p, of "ai_args ''r3'' ''b''" "Some True" "''later''"] p
  show ?thesis by (auto simp: ai_args_def)
qed

theorem paged_lookup_is_exhaustive_witness:
  "\<exists>R. find_latest_ai_message_run_ids 3 ''t'' [''m''] example_events = Some (Inr R) \<and> od_get R ''m'' = Some ''r2''"
proof -
  have "length (messages_of example_events ''t'') < 3" using arg_cong [OF example_messages, of length] by simp
  moreover have "map_option ev_run_id (find (\<lambda>e. ai_key e = Some ''m'') (rev (messages_of example_events ''t''))) = Some ''r2''"
    by (simp add: example_events_def put_def put_one_views ai_args_def)
      (simp add: view_defs empty_events_def od_get_default_def event_of_def ai_key_def)
  ultimately show ?thesis
    using paged_lookup_is_exhaustive [OF example_history, of "''t''" 3 "[''m'']"] by auto
qed

end
