(* ===== verification/StreamBridge.thy ===== *)
theory StreamBridge
  imports Prelude
begin

text \<open>
  The in-memory stream bridge
  (\<^verbatim>\<open>backend/packages/harness/deerflow/runtime/stream_bridge/memory.py\<close>): a bounded event log per
  run that a producer appends to and any number of readers follow, from the start, from the last
  event they saw, or live.

  A subscription keeps a reference to its stream after the run was cleaned up and its registry
  entry replaced, so the streams live in a heap and the registry maps a run to an address. The
  condition of a stream is never held across a suspension, so each body of \<^verbatim>\<open>async with\<close> is one
  atomic step: a publication, an end, a cleanup, the capture of a stream by a subscription, the
  resolution of its start, and one turn of its loop.
\<close>

section \<open>State\<close>

record stream_event =
  se_id :: string
  se_event :: string
  se_data :: pyval

record run_stream =
  rs_events :: "stream_event list"
  rs_ended :: bool
  rs_start_offset :: nat
  rs_last_evicted :: "string option"
  rs_retired :: bool

datatype stream_gap = StreamGap "string option" "string option" "string option"

text \<open>What a reader receives; the two sentinels are compared by identity in the code.\<close>

datatype stream_item = Event stream_event | Gap stream_gap | Heartbeat | End

record bridge =
  sb_maxsize :: nat
  sb_heap :: "run_stream list"
  sb_streams :: "(string, nat) odict"
  sb_counters :: "(string, nat) odict"

definition new_stream :: run_stream where
  "new_stream = \<lparr>rs_events = [], rs_ended = False, rs_start_offset = 0, rs_last_evicted = None,
     rs_retired = False\<rparr>"

definition new_bridge :: "int \<Rightarrow> bridge" where
  "new_bridge queue_maxsize =
     \<lparr>sb_maxsize = nat (max 1 queue_maxsize), sb_heap = [], sb_streams = [], sb_counters = []\<rparr>"

section \<open>Identifiers\<close>

definition event_id :: "nat \<Rightarrow> nat \<Rightarrow> string" where
  "event_id ts seq = show_nat ts @ ''-'' @ show_nat seq"

text \<open>\<^verbatim>\<open>int\<close> of more than 4300 digits raises.\<close>

definition parse_event_seq :: "string \<Rightarrow> nat option" where
  "parse_event_seq s =
     (let ds = takeWhile is_digit s; rest = dropWhile is_digit s
      in if ds \<noteq> [] \<and> rest \<noteq> [] \<and> hd rest = CHR ''-'' \<and> tl rest \<noteq> [] \<and> list_all is_digit (tl rest)
            \<and> length (tl rest) \<le> 4300
         then Some (read_nat (tl rest)) else None)"

section \<open>Producer\<close>

definition get_or_create_stream :: "string \<Rightarrow> bridge \<Rightarrow> nat \<times> bridge" where
  "get_or_create_stream run_id b =
     (case od_get (sb_streams b) run_id of
        Some a \<Rightarrow> (a, b)
      | None \<Rightarrow>
          (length (sb_heap b),
           b\<lparr>sb_heap := sb_heap b @ [new_stream],
             sb_streams := od_set run_id (length (sb_heap b)) (sb_streams b),
             sb_counters := od_set run_id 0 (sb_counters b)\<rparr>))"

definition next_id :: "nat \<Rightarrow> string \<Rightarrow> bridge \<Rightarrow> string \<times> bridge" where
  "next_id now_ms run_id b =
     (let c = od_get_default (sb_counters b) run_id 0 + 1
      in (event_id now_ms (c - 1), b\<lparr>sb_counters := od_set run_id c (sb_counters b)\<rparr>))"

definition append_event :: "nat \<Rightarrow> stream_event \<Rightarrow> run_stream \<Rightarrow> run_stream" where
  "append_event maxsize e st =
     (let events = rs_events st @ [e]
      in if maxsize < length events
         then (let overflow = length events - maxsize
               in st\<lparr>rs_last_evicted := Some (se_id (events ! (overflow - 1))),
                     rs_events := drop overflow events,
                     rs_start_offset := rs_start_offset st + overflow\<rparr>)
         else st\<lparr>rs_events := events\<rparr>)"

definition publish :: "nat \<Rightarrow> string \<Rightarrow> string \<Rightarrow> pyval \<Rightarrow> bridge \<Rightarrow> bridge" where
  "publish now_ms run_id event data b =
     (let (a, b1) = get_or_create_stream run_id b;
          (i, b2) = next_id now_ms run_id b1;
          entry = \<lparr>se_id = i, se_event = event, se_data = data\<rparr>
      in b2\<lparr>sb_heap := (sb_heap b2)[a := append_event (sb_maxsize b2) entry (sb_heap b2 ! a)]\<rparr>)"

definition publish_end :: "string \<Rightarrow> bridge \<Rightarrow> bridge" where
  "publish_end run_id b =
     (let (a, b1) = get_or_create_stream run_id b
      in b1\<lparr>sb_heap := (sb_heap b1)[a := (sb_heap b1 ! a)\<lparr>rs_ended := True\<rparr>]\<rparr>)"

definition retire :: "run_stream \<Rightarrow> run_stream" where
  "retire st = st\<lparr>rs_retired := True, rs_start_offset := rs_start_offset st + length (rs_events st),
     rs_events := []\<rparr>"

definition cleanup :: "string \<Rightarrow> bridge \<Rightarrow> bridge" where
  "cleanup run_id b =
     (case od_get (sb_streams b) run_id of
        None \<Rightarrow> b
      | Some a \<Rightarrow> b\<lparr>sb_heap := (sb_heap b)[a := retire (sb_heap b ! a)],
                    sb_streams := od_del run_id (sb_streams b),
                    sb_counters := od_del run_id (sb_counters b)\<rparr>)"

definition close_bridge :: "bridge \<Rightarrow> bridge" where
  "close_bridge b = foldl (\<lambda>acc run_id. cleanup run_id acc) b (od_keys (sb_streams b))"

definition stream_exists :: "string \<Rightarrow> bridge \<Rightarrow> bool" where
  "stream_exists run_id b \<longleftrightarrow> od_get (sb_streams b) run_id \<noteq> None"

section \<open>Consumer\<close>

definition make_gap :: "run_stream \<Rightarrow> string option \<Rightarrow> stream_gap" where
  "make_gap st requested =
     StreamGap requested
       (if rs_events st = [] then None else Some (se_id (hd (rs_events st))))
       (if rs_events st = [] then None else Some (se_id (last (rs_events st))))"

definition resolve_start_offset :: "run_stream \<Rightarrow> string option \<Rightarrow> stream_gap + nat" where
  "resolve_start_offset st last_event_id =
     (if rs_retired st then Inl (StreamGap last_event_id None None)
      else (case last_event_id of
              None \<Rightarrow> Inr (rs_start_offset st)
            | Some i \<Rightarrow>
                if rs_last_evicted st = Some i then Inr (rs_start_offset st)
                else (case parse_event_seq i of
                        None \<Rightarrow> Inr (rs_start_offset st)
                      | Some seq \<Rightarrow>
                          if seq < rs_start_offset st then Inl (make_gap st last_event_id)
                          else (let local_index = seq - rs_start_offset st
                                in if local_index < length (rs_events st)
                                      \<and> se_id (rs_events st ! local_index) = i
                                   then Inr (rs_start_offset st + local_index + 1)
                                   else Inr (rs_start_offset st)))))"

text \<open>A subscription that has resolved its start: its stream, next offset and cursor.\<close>

record reader =
  rd_stream :: nat
  rd_next :: nat
  rd_cursor :: "string option"

definition subscribe :: "nat \<Rightarrow> string option \<Rightarrow> bridge \<Rightarrow> stream_gap + reader" where
  "subscribe a last_event_id b =
     (case resolve_start_offset (sb_heap b ! a) last_event_id of
        Inl gap \<Rightarrow> Inl gap
      | Inr start \<Rightarrow> Inr \<lparr>rd_stream = a, rd_next = start, rd_cursor = last_event_id\<rparr>)"

text \<open>
  One turn of the loop of \<^verbatim>\<open>subscribe\<close>. With nothing to deliver the reader waits: it is woken by a
  notification and tries again (no item), or times out and yields a heartbeat. The flag says
  whether the generator returns after the item.
\<close>

definition poll :: "bool \<Rightarrow> reader \<Rightarrow> bridge \<Rightarrow> (stream_item option \<times> bool) \<times> reader" where
  "poll timed_out rd b =
     (let st = sb_heap b ! rd_stream rd
      in if rs_retired st
         then ((Some (if rs_ended st \<and> rs_start_offset st \<le> rd_next rd then End
                      else Gap (StreamGap (rd_cursor rd) None None)), True), rd)
         else if rd_next rd < rs_start_offset st
         then ((Some (Gap (make_gap st (rd_cursor rd))), True), rd)
         else (let local_index = rd_next rd - rs_start_offset st
               in if local_index < length (rs_events st)
                  then (let entry = rs_events st ! local_index
                        in ((Some (Event entry), False),
                            rd\<lparr>rd_next := rd_next rd + 1, rd_cursor := Some (se_id entry)\<rparr>))
                  else if rs_ended st then ((Some End, True), rd)
                  else if timed_out then ((Some Heartbeat, False), rd)
                  else ((None, False), rd)))"

end
