(* ===== verification/StreamProofs.thy ===== *)
theory StreamProofs
  imports StreamBridge
begin

text \<open>
  The bridge against its specification, an append-only log of events per stream: what a stream
  retains is a suffix of its log addressed by absolute offsets, the sequence number in an event's
  id is its offset, and a reader is delivered a contiguous part of the log from its start, told of
  a gap when part of it was evicted, and told of the end only when nothing is left.
\<close>

section \<open>Identifiers\<close>

lemma takeWhile_digits: "list_all P xs \<Longrightarrow> ys = [] \<or> \<not> P (hd ys) \<Longrightarrow> takeWhile P (xs @ ys) = xs \<and> dropWhile P (xs @ ys) = ys"
  by (induction xs) (cases ys; auto)+

text \<open>Sequence numbers up to this bound have at most 4300 digits.\<close>

definition max_events :: nat where
  "max_events = 10 ^ 4300"

lemma parse_event_id: "seq < max_events \<Longrightarrow> parse_event_seq (event_id ts seq) = Some seq"
proof -
  assume "seq < max_events"
  then have "length (show_nat seq) \<le> 4300" unfolding max_events_def by (rule length_show_nat) simp
  moreover have "\<not> is_digit (CHR ''-'')" by (simp add: is_digit_def less_eq_char_def)
  ultimately show ?thesis
    using takeWhile_digits [of is_digit "show_nat ts" "''-'' @ show_nat seq"] show_nat_digits [of ts]
      show_nat_digits [of seq]
    by (simp add: parse_event_seq_def event_id_def Let_def)
qed

section \<open>The log behind a stream\<close>

definition ids_ok :: "stream_event list \<Rightarrow> bool" where
  "ids_ok es \<longleftrightarrow> (\<forall>k < length es. \<exists>ts. se_id (es ! k) = event_id ts k)"

definition retains :: "nat \<Rightarrow> run_stream \<Rightarrow> stream_event list \<Rightarrow> bool" where
  "retains maxsize st es \<longleftrightarrow> ids_ok es \<and> rs_start_offset st \<le> length es
     \<and> rs_events st = drop (rs_start_offset st) es \<and> length (rs_events st) \<le> maxsize
     \<and> (if rs_retired st then rs_start_offset st = length es
        else rs_start_offset st = length es - maxsize \<and> rs_last_evicted st =
               (if rs_start_offset st = 0 then None else Some (se_id (es ! (rs_start_offset st - 1)))))"

type_synonym logs = "nat \<Rightarrow> stream_event list"

definition registry_ok :: "bridge \<Rightarrow> logs \<Rightarrow> bool" where
  "registry_ok b log \<longleftrightarrow>
     (\<forall>r a. od_get (sb_streams b) r = Some a \<longrightarrow> a < length (sb_heap b) \<and> \<not> rs_retired (sb_heap b ! a)
        \<and> od_get (sb_counters b) r = Some (length (log a)))
     \<and> (\<forall>r q a. od_get (sb_streams b) r = Some a \<longrightarrow> od_get (sb_streams b) q = Some a \<longrightarrow> r = q)"

definition bridge_ok :: "bridge \<Rightarrow> logs \<Rightarrow> bool" where
  "bridge_ok b log \<longleftrightarrow> 0 < sb_maxsize b \<and> registry_ok b log
     \<and> (\<forall>a < length (sb_heap b). retains (sb_maxsize b) (sb_heap b ! a) (log a))
     \<and> (\<forall>a \<ge> length (sb_heap b). log a = [])"

lemma retains_new: "retains n new_stream []"
  by (simp add: retains_def new_stream_def ids_ok_def)

lemma ids_ok_snoc: "ids_ok es \<Longrightarrow> se_id e = event_id ts (length es) \<Longrightarrow> ids_ok (es @ [e])"
  by (auto simp: ids_ok_def nth_append less_Suc_eq)

lemma retains_append:
  assumes "retains n st es" "\<not> rs_retired st" "se_id e = event_id ts (length es)" "0 < n"
  shows "retains n (append_event n e st) (es @ [e])"
proof (cases "n < length (rs_events st @ [e])")
  case False
  with assms show ?thesis by (auto simp: retains_def append_event_def Let_def ids_ok_snoc nth_append)
next
  case True
  let ?events = "rs_events st @ [e]" and ?s = "rs_start_offset st"
  have s: "?s \<le> length es" "rs_events st = drop ?s es" "length (rs_events st) \<le> n"
    using assms(1) by (auto simp: retains_def)
  with True have len: "length (rs_events st) = n" by simp
  have app: "append_event n e st = st\<lparr>rs_last_evicted := Some (se_id (?events ! 0)),
      rs_events := drop 1 ?events, rs_start_offset := ?s + 1\<rparr>"
    using True len by (simp add: append_event_def Let_def)
  have ev: "?events = drop ?s (es @ [e])" using s by simp
  have "?s \<le> length (es @ [e])" using s(1) by simp
  from nth_drop [OF this, of 0] have "?events ! 0 = (es @ [e]) ! ?s" unfolding ev by (simp only: add_0_right)
  moreover have "drop 1 ?events = drop (?s + 1) (es @ [e])" unfolding ev by (simp only: drop_drop add.commute)
  moreover have "length (drop 1 ?events) \<le> n" using len by simp
  moreover have "n \<le> length es" "length es - n = ?s" using len s by auto
  moreover have "?s + 1 = length (es @ [e]) - n" using assms(1,2) len s by (simp add: retains_def)
  moreover have "ids_ok (es @ [e])" using assms(1,3) by (auto simp: retains_def intro: ids_ok_snoc)
  ultimately show ?thesis
    unfolding retains_def app using assms(2) s(1)
    by (auto simp: Suc_diff_le dest: arg_cong [of "Suc _" _ "\<lambda>x. x - 1"])
qed

lemma retains_end: "retains n st es \<Longrightarrow> retains n (st\<lparr>rs_ended := True\<rparr>) es"
  by (auto simp: retains_def)

lemma retains_retire: "retains n st es \<Longrightarrow> retains n (retire st) es"
  by (auto simp: retains_def retire_def)

section \<open>Steps\<close>

text \<open>The address a call of the producer works on, and the bridge with that stream present.\<close>

lemma get_or_create_ok:
  assumes "bridge_ok b log" "get_or_create_stream r b = (a, b1)"
  shows "bridge_ok b1 log \<and> od_get (sb_streams b1) r = Some a \<and> a < length (sb_heap b1)
    \<and> sb_maxsize b1 = sb_maxsize b \<and> length (sb_heap b) \<le> length (sb_heap b1)"
proof (cases "od_get (sb_streams b) r")
  case (Some a')
  with assms show ?thesis by (auto simp: get_or_create_stream_def bridge_ok_def registry_ok_def)
next
  case None
  with assms(2) have b1: "a = length (sb_heap b)" "b1 = b\<lparr>sb_heap := sb_heap b @ [new_stream],
      sb_streams := od_set r a (sb_streams b), sb_counters := od_set r 0 (sb_counters b)\<rparr>"
    by (auto simp: get_or_create_stream_def)
  have log: "log a = []" using assms(1) b1(1) by (simp add: bridge_ok_def)
  have reg: "od_get (sb_streams b) q = Some x \<Longrightarrow> x < length (sb_heap b) \<and> \<not> rs_retired (sb_heap b ! x)
      \<and> od_get (sb_counters b) q = Some (length (log x))" for q x
    using assms(1) by (simp add: bridge_ok_def registry_ok_def)
  have "registry_ok b1 log"
    unfolding registry_ok_def
  proof (intro conjI allI impI)
    fix q x assume "od_get (sb_streams b1) q = Some x"
    then have "q = r \<and> x = a \<or> q \<noteq> r \<and> od_get (sb_streams b) q = Some x"
      by (auto simp: b1(2) odict_simps split: if_splits)
    then show "x < length (sb_heap b1)" "\<not> rs_retired (sb_heap b1 ! x)"
      "od_get (sb_counters b1) q = Some (length (log x))"
      using reg [of q x] log by (auto simp: b1 new_stream_def odict_simps nth_append)
  next
    fix q p x assume "od_get (sb_streams b1) q = Some x" "od_get (sb_streams b1) p = Some x"
    then show "q = p"
      using reg [of q x] reg [of p x] assms(1)
      by (auto simp: b1 odict_simps bridge_ok_def registry_ok_def split: if_splits)
  qed
  with assms(1) log show ?thesis
    by (auto simp: bridge_ok_def b1 odict_simps nth_append less_Suc_eq retains_new)
qed

text \<open>The event that a publication appends, and where.\<close>

definition published :: "nat \<Rightarrow> string \<Rightarrow> string \<Rightarrow> pyval \<Rightarrow> bridge \<Rightarrow> nat \<times> stream_event" where
  "published now_ms r event data b =
     (let (a, b1) = get_or_create_stream r b
      in (a, \<lparr>se_id = fst (next_id now_ms r b1), se_event = event, se_data = data\<rparr>))"

lemma publish_ok:
  assumes "bridge_ok b log" "published now_ms r event data b = (a, e)"
  shows "bridge_ok (publish now_ms r event data b) (log(a := log a @ [e]))"
proof -
  obtain b1 where b1: "get_or_create_stream r b = (a, b1)"
    using assms(2) by (auto simp: published_def split: prod.splits)
  from get_or_create_ok [OF assms(1) b1] have ok: "bridge_ok b1 log" "od_get (sb_streams b1) r = Some a"
    "a < length (sb_heap b1)" by auto
  then have c: "od_get (sb_counters b1) r = Some (length (log a))" "\<not> rs_retired (sb_heap b1 ! a)"
    by (auto simp: bridge_ok_def registry_ok_def)
  have e: "se_id e = event_id now_ms (length (log a))"
    using assms(2) c by (auto simp: published_def b1 next_id_def Let_def od_get_default_def)
  let ?st = "append_event (sb_maxsize b1) e (sb_heap b1 ! a)"
  have pub: "publish now_ms r event data b = b1\<lparr>sb_counters := od_set r (length (log a) + 1) (sb_counters b1),
      sb_heap := (sb_heap b1)[a := ?st]\<rparr>"
    using assms(2) c by (auto simp: publish_def published_def b1 next_id_def Let_def od_get_default_def)
  have "retains (sb_maxsize b1) ?st (log a @ [e])"
    using ok c e by (intro retains_append) (auto simp: bridge_ok_def)
  moreover have st: "\<not> rs_retired ?st" using c(2) by (simp add: append_event_def Let_def)
  moreover have uniq: "q = r" if "od_get (sb_streams b1) q = Some a" for q
    using ok(1,2) that by (auto simp: bridge_ok_def registry_ok_def)
  let ?b = "publish now_ms r event data b" and ?log = "log(a := log a @ [e])"
  have heap: "sb_heap ?b = (sb_heap b1)[a := ?st]" by (simp add: pub)
  have reg: "registry_ok ?b ?log"
    unfolding registry_ok_def
  proof (intro conjI allI impI)
    fix q x assume q: "od_get (sb_streams ?b) q = Some x"
    then have q1: "od_get (sb_streams b1) q = Some x" by (simp add: pub)
    with ok(1) have x: "x < length (sb_heap b1)" "\<not> rs_retired (sb_heap b1 ! x)"
      "od_get (sb_counters b1) q = Some (length (log x))" by (auto simp: bridge_ok_def registry_ok_def)
    show "x < length (sb_heap ?b)" using x(1) by (simp add: pub)
    have "sb_heap ?b ! x = (if x = a then ?st else sb_heap b1 ! x)"
      unfolding heap using ok(3) nth_list_update [of a "sb_heap b1" ?st x] by metis
    then show "\<not> rs_retired (sb_heap ?b ! x)" using x(2) st by presburger
    have qr: "q = r \<longleftrightarrow> x = a" using q1 ok(2) uniq by (metis option.inject)
    have "od_get (sb_counters ?b) q = (if q = r then Some (length (log a) + 1) else od_get (sb_counters b1) q)"
      by (simp add: pub update_conv')
    then show "od_get (sb_counters ?b) q = Some (length (?log x))"
      using qr x(3) by (cases "q = r") simp_all
  next
    fix q p x assume "od_get (sb_streams ?b) q = Some x" "od_get (sb_streams ?b) p = Some x"
    with ok(1) show "q = p" by (auto simp: pub bridge_ok_def registry_ok_def)
  qed
  have "retains (sb_maxsize ?b) (sb_heap ?b ! x) (?log x)" if "x < length (sb_heap ?b)" for x
  proof (cases "x = a")
    case True
    with calculation(1) ok(3) show ?thesis unfolding heap by (simp add: pub)
  next
    case False
    with ok(1) that show ?thesis unfolding heap by (simp add: pub bridge_ok_def)
  qed
  moreover have "?log x = []" if "length (sb_heap ?b) \<le> x" for x
    using ok(1,3) that by (auto simp: pub bridge_ok_def)
  ultimately show ?thesis using reg ok(1) by (simp add: bridge_ok_def) (simp add: pub)
qed

lemma publish_end_ok:
  assumes "bridge_ok b log"
  shows "bridge_ok (publish_end r b) log"
proof -
  obtain a b1 where b1: "get_or_create_stream r b = (a, b1)" by fastforce
  from get_or_create_ok [OF assms b1] show ?thesis
    by (auto simp: publish_end_def b1 bridge_ok_def registry_ok_def nth_list_update retains_end)
qed

lemma cleanup_ok:
  assumes "bridge_ok b log"
  shows "bridge_ok (cleanup r b) log"
proof (cases "od_get (sb_streams b) r")
  case (Some a)
  have "q = r" if "od_get (sb_streams b) q = Some a" for q
    using assms Some that by (auto simp: bridge_ok_def registry_ok_def)
  with assms Some show ?thesis
    unfolding cleanup_def bridge_ok_def registry_ok_def
    by (auto simp: nth_list_update retains_retire odict_simps split: if_splits)
qed (simp add: cleanup_def assms)

inductive bridge_step :: "bridge \<Rightarrow> logs \<Rightarrow> bridge \<Rightarrow> logs \<Rightarrow> bool" where
  publish: "published now_ms r event data b = (a, e) \<Longrightarrow>
     bridge_step b log (publish now_ms r event data b) (log(a := log a @ [e]))"
| finish: "bridge_step b log (publish_end r b) log"
| cleanup: "bridge_step b log (cleanup r b) log"
| capture: "get_or_create_stream r b = (a, b') \<Longrightarrow> bridge_step b log b' log"

inductive bridge_history :: "bridge \<Rightarrow> logs \<Rightarrow> bool" where
  init: "bridge_history (new_bridge n) (\<lambda>_. [])"
| step: "bridge_history b log \<Longrightarrow> bridge_step b log b' log' \<Longrightarrow> bridge_history b' log'"

lemma bridge_step_ok: "bridge_step b log b' log' \<Longrightarrow> bridge_ok b log \<Longrightarrow> bridge_ok b' log'"
  by (induction rule: bridge_step.induct) (auto intro: publish_ok publish_end_ok cleanup_ok dest: get_or_create_ok)

lemma bridge_history_ok: "bridge_history b log \<Longrightarrow> bridge_ok b log"
proof (induction rule: bridge_history.induct)
  case (init n)
  then show ?case by (auto simp: bridge_ok_def registry_ok_def new_bridge_def)
qed (rule bridge_step_ok)

text \<open>Logs only grow, and the heap keeps its streams.\<close>

lemma bridge_step_grows:
  "bridge_step b log b' log' \<Longrightarrow> bridge_ok b log \<Longrightarrow>
     length (sb_heap b) \<le> length (sb_heap b') \<and> (\<exists>es. log' a = log a @ es)"
proof (induction rule: bridge_step.induct)
  case (publish now_ms r event data b a' e log)
  obtain b1 where "get_or_create_stream r b = (a', b1)"
    using publish(1) by (auto simp: published_def split: prod.splits)
  with get_or_create_ok [OF publish(2) this] show ?case
    by (auto simp: publish_def next_id_def Let_def split: prod.splits)
next
  case (finish b log r)
  obtain a' b1 where "get_or_create_stream r b = (a', b1)" by fastforce
  with get_or_create_ok [OF finish this] show ?case by (simp add: publish_end_def)
next
  case (cleanup b log r)
  then show ?case by (simp add: cleanup_def split: option.splits)
qed (auto dest: get_or_create_ok)

section \<open>Resuming\<close>

lemma event_id_inject:
  "ids_ok es \<Longrightarrow> length es < max_events \<Longrightarrow> i < length es \<Longrightarrow> j < length es
    \<Longrightarrow> se_id (es ! i) = se_id (es ! j) \<Longrightarrow> i = j"
proof -
  assume ids: "ids_ok es" and len: "length es < max_events" "i < length es" "j < length es"
    and eq: "se_id (es ! i) = se_id (es ! j)"
  have "parse_event_seq (se_id (es ! k)) = Some k" if "k < length es" for k
  proof -
    from ids that obtain ts where "se_id (es ! k) = event_id ts k" by (auto simp: ids_ok_def)
    moreover have "k < max_events" using that len(1) by (rule order.strict_trans)
    ultimately show ?thesis by (simp add: parse_event_id)
  qed
  with len eq show "i = j" by (metis option.inject)
qed

lemma parse_own_id:
  "ids_ok es \<Longrightarrow> length es < max_events \<Longrightarrow> k < length es \<Longrightarrow> parse_event_seq (se_id (es ! k)) = Some k"
proof -
  assume ids: "ids_ok es" and len: "length es < max_events" "k < length es"
  from ids len obtain ts where "se_id (es ! k) = event_id ts k" by (auto simp: ids_ok_def)
  moreover have "k < max_events" using len(2,1) by (rule order.strict_trans)
  ultimately show ?thesis by (simp add: parse_event_id)
qed

lemma resolve_own_id:
  assumes "retains n st es" "\<not> rs_retired st" "length es < max_events" "k < length es"
  shows "resolve_start_offset st (Some (se_id (es ! k))) =
    (if rs_start_offset st \<le> k + 1 then Inr (k + 1) else Inl (make_gap st (Some (se_id (es ! k)))))"
proof -
  let ?s = "rs_start_offset st" and ?i = "se_id (es ! k)"
  have r: "ids_ok es" "?s \<le> length es" "rs_events st = drop ?s es"
    "rs_last_evicted st = (if ?s = 0 then None else Some (se_id (es ! (?s - 1))))"
    using assms(1,2) by (auto simp: retains_def)
  have seq: "parse_event_seq ?i = Some k" using r(1) assms(3,4) by (rule parse_own_id)
  have last: "rs_last_evicted st = Some ?i \<longleftrightarrow> ?s = k + 1"
  proof (cases "?s = 0")
    case False
    then have s: "?s - 1 < length es" "rs_last_evicted st = Some (se_id (es ! (?s - 1)))" using r(2,4) by simp_all
    have "se_id (es ! (?s - 1)) = ?i \<longleftrightarrow> ?s - 1 = k"
      using event_id_inject [OF r(1) assms(3) s(1) assms(4)] by blast
    with s(2) False show ?thesis by auto
  qed (simp add: r(4))
  show ?thesis
  proof (cases "?s \<le> k")
    case True
    then have "k - ?s < length (rs_events st)" "se_id (rs_events st ! (k - ?s)) = ?i"
      using assms(4) r(2,3) by auto
    with True seq last assms(2) show ?thesis by (simp add: resolve_start_offset_def Let_def)
  next
    case False
    then show ?thesis using seq last assms(2) by (auto simp: resolve_start_offset_def)
  qed
qed

lemma resolve_bounds:
  "retains n st es \<Longrightarrow> resolve_start_offset st lid = Inr m \<Longrightarrow> rs_start_offset st \<le> m \<and> m \<le> length es"
  by (auto simp: retains_def resolve_start_offset_def Let_def split: if_splits option.splits)

section \<open>Sessions\<close>

text \<open>
  A subscription from offset \<open>n0\<close>, the events it has been delivered, and its end. The bridge
  moves on between its turns.
\<close>

inductive session :: "bridge \<Rightarrow> logs \<Rightarrow> reader \<Rightarrow> nat \<Rightarrow> stream_event list \<Rightarrow> stream_item option \<Rightarrow> bool" where
  start: "bridge_history b log \<Longrightarrow> a < length (sb_heap b) \<Longrightarrow> subscribe a lid b = Inr rd
    \<Longrightarrow> session b log rd (rd_next rd) [] None"
| move: "session b log rd n0 out fin \<Longrightarrow> bridge_step b log b' log' \<Longrightarrow> session b' log' rd n0 out fin"
| turn: "session b log rd n0 out None \<Longrightarrow> poll timed_out rd b = ((item, stop), rd')
    \<Longrightarrow> session b log rd' n0 (out @ (case item of Some (Event e) \<Rightarrow> [e] | _ \<Rightarrow> []))
          (if stop then item else None)"

lemma poll_turn:
  assumes "retains n (sb_heap b ! rd_stream rd) es" "rd_next rd \<le> length es"
    "poll timed_out rd b = ((item, stop), rd')"
  shows "rd_stream rd' = rd_stream rd \<and> rd_next rd' \<le> length es
    \<and> (case item of Some (Event e) \<Rightarrow> rd_next rd < length es \<and> e = es ! rd_next rd \<and> rd_next rd' = rd_next rd + 1
       | _ \<Rightarrow> rd_next rd' = rd_next rd)
    \<and> (item = Some End \<longrightarrow> rd_next rd = length es \<and> rs_ended (sb_heap b ! rd_stream rd))"
  using assms
  by (auto simp: poll_def retains_def Let_def split: if_splits)

lemma session_delivers:
  "session b log rd n0 out fin \<Longrightarrow> bridge_ok b log \<and> rd_stream rd < length (sb_heap b)
     \<and> n0 \<le> rd_next rd \<and> rd_next rd \<le> length (log (rd_stream rd))
     \<and> out = take (rd_next rd - n0) (drop n0 (log (rd_stream rd)))"
proof (induction rule: session.induct)
  case (start b log a lid rd)
  have ok: "bridge_ok b log" using start(1) by (rule bridge_history_ok)
  from start(3) obtain m where m: "resolve_start_offset (sb_heap b ! a) lid = Inr m"
    "rd = \<lparr>rd_stream = a, rd_next = m, rd_cursor = lid\<rparr>"
    by (auto simp: subscribe_def split: sum.splits)
  have "retains (sb_maxsize b) (sb_heap b ! a) (log a)" using ok start(2) by (simp add: bridge_ok_def)
  from resolve_bounds [OF this m(1)] ok start(2) show ?case by (simp add: m(2))
next
  case (move b log rd n0 out fin b' log')
  then have ok: "bridge_ok b log" by simp
  from bridge_step_grows [OF move(2) ok, of "rd_stream rd"] obtain es where
    es: "log' (rd_stream rd) = log (rd_stream rd) @ es" "length (sb_heap b) \<le> length (sb_heap b')" by auto
  with move(3) bridge_step_ok [OF move(2) ok] show ?case by (auto simp: es(1))
next
  case (turn b log rd n0 out timed_out item stop rd')
  let ?es = "log (rd_stream rd)"
  have "retains (sb_maxsize b) (sb_heap b ! rd_stream rd) ?es" using turn(3) by (simp add: bridge_ok_def)
  from poll_turn [OF this _ turn(2)] turn(3) have p: "rd_stream rd' = rd_stream rd" "rd_next rd' \<le> length ?es"
    "case item of Some (Event e) \<Rightarrow> rd_next rd < length ?es \<and> e = ?es ! rd_next rd \<and> rd_next rd' = rd_next rd + 1
       | _ \<Rightarrow> rd_next rd' = rd_next rd" by auto
  show ?case
  proof (cases "\<exists>e. item = Some (Event e)")
    case True
    then obtain e where e: "item = Some (Event e)" by blast
    with p(3) have e': "rd_next rd < length ?es" "e = ?es ! rd_next rd" "rd_next rd' = Suc (rd_next rd)" by simp_all
    then have "take (Suc (rd_next rd - n0)) (drop n0 ?es) = take (rd_next rd - n0) (drop n0 ?es) @ [e]"
      using turn(3) by (subst take_Suc_conv_app_nth) auto
    with turn(3) p(1) e e' show ?thesis by (simp add: Suc_diff_le)
  next
    case False
    with p turn(3) show ?thesis by (auto split: option.splits stream_item.splits)
  qed
qed

section \<open>Properties\<close>

text \<open>
  C28. Whatever is published, ended and cleaned up, a stream refines its log: it retains exactly
  the newest events of the log up to the configured bound, starting at its absolute offset, the
  id of every event ever published ends in its offset, and a retired stream retains nothing.
\<close>

theorem stream_retains_the_newest:
  assumes "bridge_history b log" "a < length (sb_heap b)"
  shows "(let st = sb_heap b ! a
     in rs_events st = drop (rs_start_offset st) (log a)
        \<and> rs_start_offset st = (if rs_retired st then length (log a) else length (log a) - sb_maxsize b)
        \<and> (\<forall>k < length (log a). \<exists>ts. se_id (log a ! k) = event_id ts k))"
  using bridge_history_ok [OF assms(1)] assms(2) by (auto simp: bridge_ok_def retains_def ids_ok_def Let_def)

text \<open>
  C16. Reconnecting with the id of any event ever published on a live stream resumes exactly after
  that event when its successors are all retained (also when the event itself was the last one
  evicted), and reports a gap when a successor was evicted: no event is repeated or silently
  skipped.
\<close>

theorem resume_is_exact:
  assumes "bridge_history b log" "a < length (sb_heap b)" "\<not> rs_retired (sb_heap b ! a)"
    "k < length (log a)" "length (log a) < max_events"
  shows "subscribe a (Some (se_id (log a ! k))) b =
    (if rs_start_offset (sb_heap b ! a) \<le> k + 1
     then Inr \<lparr>rd_stream = a, rd_next = k + 1, rd_cursor = Some (se_id (log a ! k))\<rparr>
     else Inl (make_gap (sb_heap b ! a) (Some (se_id (log a ! k)))))"
proof -
  have "retains (sb_maxsize b) (sb_heap b ! a) (log a)"
    using bridge_history_ok [OF assms(1)] assms(2) by (simp add: bridge_ok_def)
  from resolve_own_id [OF this assms(3,5,4)] show ?thesis by (simp add: subscribe_def)
qed

text \<open>
  C12. However publications, ends and cleanups interleave with a subscription, the events it has
  been delivered are a contiguous part of the log from its start offset, in order and without
  repetition; and when its next turn yields the end, it has been delivered everything published
  since its start.
\<close>

theorem session_is_contiguous_and_complete:
  assumes "session b log rd n0 out fin"
  shows "out = take (rd_next rd - n0) (drop n0 (log (rd_stream rd)))
    \<and> (fst (fst (poll timed_out rd b)) = Some End \<longrightarrow>
         out = drop n0 (log (rd_stream rd)) \<and> rs_ended (sb_heap b ! rd_stream rd))"
proof -
  obtain item stop rd' where p: "poll timed_out rd b = ((item, stop), rd')" by (metis prod.exhaust)
  note d = session_delivers [OF assms]
  then have "retains (sb_maxsize b) (sb_heap b ! rd_stream rd) (log (rd_stream rd))" by (simp add: bridge_ok_def)
  from poll_turn [OF this _ p] d show ?thesis by (auto simp: p)
qed

section \<open>Witnesses\<close>

definition two_events :: bridge where
  "two_events = publish 7 ''r'' ''e'' VNone (publish 5 ''r'' ''e'' VNone (new_bridge 1))"

definition first_event :: stream_event where
  "first_event = \<lparr>se_id = ''5-0'', se_event = ''e'', se_data = VNone\<rparr>"

definition second_event :: stream_event where
  "second_event = \<lparr>se_id = ''7-1'', se_event = ''e'', se_data = VNone\<rparr>"

lemma show_digit [simp]:
  "show_nat 0 = ''0''" "show_nat (Suc 0) = ''1''" "show_nat 5 = ''5''" "show_nat 7 = ''7''"
  by code_simp+

lemma published_first: "published 5 ''r'' ''e'' VNone (new_bridge 1) = (0, first_event)"
  by (simp add: published_def get_or_create_stream_def new_bridge_def next_id_def Let_def od_get_default_def
      event_id_def first_event_def)

lemma published_second:
  "published 7 ''r'' ''e'' VNone (publish 5 ''r'' ''e'' VNone (new_bridge 1)) = (0, second_event)"
  by (simp add: published_def publish_def get_or_create_stream_def new_bridge_def next_id_def Let_def
      od_get_default_def event_id_def second_event_def)

definition two_logs :: logs where
  "two_logs = ((\<lambda>_. [])(0 := [first_event]))(0 := [first_event, second_event])"

lemma two_events_history: "bridge_history two_events two_logs"
  using bridge_history.step [OF bridge_history.step [OF bridge_history.init bridge_step.publish
        [OF published_first]] bridge_step.publish [OF published_second]]
  by (simp add: two_events_def two_logs_def)

lemma two_events_stream:
  "sb_heap two_events = [\<lparr>rs_events = [second_event], rs_ended = False, rs_start_offset = 1,
     rs_last_evicted = Some ''5-0'', rs_retired = False\<rparr>]"
  by (simp add: two_events_def publish_def get_or_create_stream_def new_bridge_def next_id_def Let_def
      od_get_default_def event_id_def second_event_def append_event_def new_stream_def)

theorem stream_retains_the_newest_witness:
  "rs_events (sb_heap two_events ! 0) = drop 1 (two_logs 0) \<and> rs_start_offset (sb_heap two_events ! 0) = 1"
  using stream_retains_the_newest [OF two_events_history, of 0] by (simp add: two_events_stream)

theorem resume_is_exact_witness:
  "subscribe 0 (Some ''5-0'') two_events = Inr \<lparr>rd_stream = 0, rd_next = 1, rd_cursor = Some ''5-0''\<rparr>"
proof -
  have "(2::nat) < max_events" unfolding max_events_def by (rule less_le_trans [of _ "10 ^ 1"]) (simp, rule power_increasing, simp_all)
  then show ?thesis
    using resume_is_exact [OF two_events_history, of 0 0]
    by (simp add: two_events_stream two_logs_def first_event_def)
qed

theorem session_is_contiguous_and_complete_witness:
  "\<exists>rd out. session two_events two_logs rd 1 out None \<and> out = take (rd_next rd - 1) (drop 1 (two_logs 0))
     \<and> out = [second_event]"
proof -
  let ?r = "\<lparr>rd_stream = 0, rd_next = 1, rd_cursor = None\<rparr>"
  have sub: "subscribe 0 None two_events = Inr ?r"
    by (simp add: subscribe_def two_events_stream resolve_start_offset_def)
  have s: "session two_events two_logs ?r 1 [] None"
    using session.start [OF two_events_history _ sub] by (simp add: two_events_stream)
  have p: "poll False ?r two_events =
      ((Some (Event second_event), False), \<lparr>rd_stream = 0, rd_next = 2, rd_cursor = Some ''7-1''\<rparr>)"
    by (simp add: poll_def two_events_stream Let_def second_event_def)
  from session.turn [OF s p] have t: "session two_events two_logs
      \<lparr>rd_stream = 0, rd_next = 2, rd_cursor = Some ''7-1''\<rparr> 1 [second_event] None" by simp
  from session_is_contiguous_and_complete [OF t, of False] t show ?thesis
    by (intro exI [of _ "\<lparr>rd_stream = 0, rd_next = 2, rd_cursor = Some ''7-1''\<rparr>"] exI [of _ "[second_event]"]) simp
qed

end
