(* ===== verification/Ownership.thy ===== *)
theory Ownership
  imports Prelude
begin

text \<open>
  Sandbox ownership leases
  (\<^verbatim>\<open>backend/packages/harness/deerflow/community/aio_sandbox/ownership/memory.py\<close>, contract in
  \<^verbatim>\<open>base.py\<close>): which instance is responsible for reaping a container. A lease is held (\<open>own\<close>) or
  marks a teardown in progress (\<open>del\<close>). Every method takes the store lock for its whole body and
  is one atomic step. The methods take the acting instance's id and the clock reading as
  arguments, so that several instances can act on one table of leases, which is the contract the
  backends share. Times are integer ticks.
\<close>

record lease =
  ls_owner_id :: string
  ls_expires_at :: int
  ls_destroying :: bool

type_synonym leases = "(string, lease) odict"

datatype renew_outcome = RENEWED | LAPSED | LOST

record instance_id =
  in_owner_id :: string
  in_ttl :: int

definition live_lease :: "int \<Rightarrow> string \<Rightarrow> leases \<Rightarrow> lease option \<times> leases" where
  "live_lease now sandbox_id ls =
     (case od_get ls sandbox_id of
        None \<Rightarrow> (None, ls)
      | Some l \<Rightarrow> if ls_expires_at l \<le> now then (None, od_del sandbox_id ls) else (Some l, ls))"

definition write_lease :: "instance_id \<Rightarrow> int \<Rightarrow> string \<Rightarrow> bool \<Rightarrow> leases \<Rightarrow> leases" where
  "write_lease me now sandbox_id destroying ls =
     od_set sandbox_id \<lparr>ls_owner_id = in_owner_id me, ls_expires_at = now + in_ttl me,
       ls_destroying = destroying\<rparr> ls"

definition take_lease :: "instance_id \<Rightarrow> int \<Rightarrow> string \<Rightarrow> leases \<Rightarrow> bool \<times> leases" where
  "take_lease me now sandbox_id ls =
     (case live_lease now sandbox_id ls of
        (l, ls1) \<Rightarrow>
          if (case l of None \<Rightarrow> False | Some x \<Rightarrow> ls_destroying x) then (False, ls1)
          else (True, write_lease me now sandbox_id False ls1))"

definition claim_lease :: "instance_id \<Rightarrow> int \<Rightarrow> string \<Rightarrow> bool \<Rightarrow> leases \<Rightarrow> bool \<times> leases" where
  "claim_lease me now sandbox_id for_destroy ls =
     (case live_lease now sandbox_id ls of
        (l, ls1) \<Rightarrow>
          if (case l of None \<Rightarrow> False | Some x \<Rightarrow> ls_owner_id x \<noteq> in_owner_id me) then (False, ls1)
          else if \<not> for_destroy \<and> (case l of None \<Rightarrow> False | Some x \<Rightarrow> ls_destroying x) then (False, ls1)
          else (True, write_lease me now sandbox_id for_destroy ls1))"

definition renew_lease :: "instance_id \<Rightarrow> int \<Rightarrow> string \<Rightarrow> leases \<Rightarrow> renew_outcome \<times> leases" where
  "renew_lease me now sandbox_id ls =
     (case live_lease now sandbox_id ls of
        (None, ls1) \<Rightarrow> (LAPSED, ls1)
      | (Some l, ls1) \<Rightarrow>
          if ls_owner_id l \<noteq> in_owner_id me \<or> ls_destroying l then (LOST, ls1)
          else (RENEWED, write_lease me now sandbox_id False ls1))"

definition release_lease :: "instance_id \<Rightarrow> int \<Rightarrow> string \<Rightarrow> leases \<Rightarrow> leases" where
  "release_lease me now sandbox_id ls =
     (case live_lease now sandbox_id ls of
        (Some l, ls1) \<Rightarrow> if ls_owner_id l = in_owner_id me then od_del sandbox_id ls1 else ls1
      | (None, ls1) \<Rightarrow> ls1)"

definition lease_owner :: "int \<Rightarrow> string \<Rightarrow> leases \<Rightarrow> string option \<times> leases" where
  "lease_owner now sandbox_id ls =
     (case live_lease now sandbox_id ls of (l, ls1) \<Rightarrow> (map_option ls_owner_id l, ls1))"

text \<open>\<^verbatim>\<open>close\<close> forgets every lease, teardown leases included; the steps below are those of an open store.\<close>

definition close_leases :: "leases \<Rightarrow> leases" where
  "close_leases ls = []"

section \<open>The lease in force\<close>

text \<open>The lease of a sandbox that has not expired; expired entries are dropped lazily.\<close>

definition in_force :: "int \<Rightarrow> leases \<Rightarrow> string \<Rightarrow> lease option" where
  "in_force now ls i =
     (case od_get ls i of None \<Rightarrow> None | Some l \<Rightarrow> if ls_expires_at l \<le> now then None else Some l)"

lemma live_lease_fst [simp]: "fst (live_lease now i ls) = in_force now ls i"
  by (auto simp: live_lease_def in_force_def split: option.splits)

lemma in_force_live_lease [simp]: "in_force t (snd (live_lease now i ls)) j = in_force t ls j" if "now \<le> t"
  using that by (auto simp: live_lease_def in_force_def odict_simps split: option.splits)

lemma in_force_del [simp]: "in_force t (od_del i ls) j = (if j = i then None else in_force t ls j)"
  by (auto simp: in_force_def odict_simps)

lemma in_force_write [simp]:
  "in_force t (write_lease me now i d ls) j =
     (if j = i then (if now + in_ttl me \<le> t then None
                     else Some \<lparr>ls_owner_id = in_owner_id me, ls_expires_at = now + in_ttl me, ls_destroying = d\<rparr>)
      else in_force t ls j)"
  by (auto simp: in_force_def write_lease_def odict_simps)

lemma live_lease_split:
  "P (case live_lease now i ls of (l, ls1) \<Rightarrow> f l ls1) \<longleftrightarrow> P (f (in_force now ls i) (snd (live_lease now i ls)))"
  by (simp add: split_beta)

text \<open>One operation of some instance at some time.\<close>

inductive lease_step :: "instance_id \<Rightarrow> int \<Rightarrow> string \<Rightarrow> leases \<Rightarrow> leases \<Rightarrow> bool" where
  take: "lease_step me now i ls (snd (take_lease me now i ls))"
| claim: "lease_step me now i ls (snd (claim_lease me now i d ls))"
| renew: "lease_step me now i ls (snd (renew_lease me now i ls))"
| release: "lease_step me now i ls (release_lease me now i ls)"
| owner: "lease_step me now i ls (snd (lease_owner now i ls))"

text \<open>Steps in order of time, by the instances and on the sandboxes allowed.\<close>

inductive lease_steps :: "(instance_id \<Rightarrow> string \<Rightarrow> bool) \<Rightarrow> int \<Rightarrow> leases \<Rightarrow> int \<Rightarrow> leases \<Rightarrow> bool"
  for allowed where
  nil: "lease_steps allowed t ls t ls"
| cons: "lease_steps allowed t ls u ls1 \<Longrightarrow> u \<le> v \<Longrightarrow> allowed me i \<Longrightarrow> lease_step me v i ls1 ls2
    \<Longrightarrow> lease_steps allowed t ls v ls2"

lemma in_force_closed: "in_force now (close_leases ls) i = None"
  by (simp add: in_force_def close_leases_def)

text \<open>A teardown lease is untouched by every operation of the other instances while it runs.\<close>

lemma lease_step_teardown:
  assumes "lease_step me now j ls ls'" "in_force now ls i = Some l" "ls_destroying l"
    "j \<noteq> i \<or> in_owner_id me \<noteq> ls_owner_id l" "now \<le> t"
  shows "in_force t ls' i = in_force t ls i"
  using assms
  by (induction rule: lease_step.induct)
    (auto simp: take_lease_def claim_lease_def renew_lease_def release_lease_def lease_owner_def split_beta
      split: option.splits)

lemma in_force_later: "in_force now ls i = Some l \<Longrightarrow> t < ls_expires_at l \<Longrightarrow> in_force t ls i = Some l"
  by (auto simp: in_force_def split: option.splits if_splits)

lemma lease_steps_teardown:
  assumes "lease_steps (\<lambda>me j. j \<noteq> i \<or> in_owner_id me \<noteq> ls_owner_id l) t ls u ls'"
    "in_force t ls i = Some l" "ls_destroying l" "u < ls_expires_at l"
  shows "in_force u ls' i = Some l \<and> t \<le> u"
  using assms
proof (induction rule: lease_steps.induct)
  case (cons t ls u ls1 v me j ls2)
  then have "in_force u ls1 i = Some l" "t \<le> u" by auto
  moreover from this have now: "in_force v ls1 i = Some l" using cons.prems(3) by (auto intro: in_force_later)
  moreover have "in_force v ls2 i = in_force v ls1 i"
    using lease_step_teardown [OF cons.hyps(4) now cons.prems(2)] cons.hyps(3) by simp
  ultimately show ?case using cons.hyps(2) by auto
qed simp

section \<open>Properties\<close>

text \<open>
  C20. A container that is being torn down cannot be handed out: after a successful destroy claim
  by an instance, and until it acts on that sandbox again or the lease expires, whatever the
  other instances do in the meantime, every take, every claim by another instance and every
  renewal is refused, and the teardown lease stays in force.
\<close>

theorem teardown_excludes_reuse:
  assumes "claim_lease A t i True ls = (True, ls1)"
    "lease_steps (\<lambda>me j. j \<noteq> i \<or> in_owner_id me \<noteq> in_owner_id A) t ls1 u ls2" "u < t + in_ttl A"
    "in_owner_id B \<noteq> in_owner_id A"
  shows "\<not> fst (take_lease C u i ls2) \<and> \<not> fst (claim_lease B u i d ls2) \<and> fst (renew_lease C u i ls2) = LOST
    \<and> fst (lease_owner u i ls2) = Some (in_owner_id A)"
proof -
  let ?l = "\<lparr>ls_owner_id = in_owner_id A, ls_expires_at = t + in_ttl A, ls_destroying = True\<rparr>"
  have ls1: "ls1 = write_lease A t i True (snd (live_lease t i ls))"
    using assms(1) by (auto simp: claim_lease_def split_beta split: if_splits)
  have "t \<le> u" using assms(2) by (induction rule: lease_steps.induct) auto
  with assms(3) have "in_force t ls1 i = Some ?l" unfolding ls1 by simp
  from lease_steps_teardown [OF _ this, of u ls2] assms(2,3) have l: "in_force u ls2 i = Some ?l" by simp
  with assms(4) show ?thesis
    by (auto simp: take_lease_def claim_lease_def renew_lease_def lease_owner_def split_beta split: option.splits)
qed

text \<open>
  Reaping never steals: a claim, for destruction or not, succeeds exactly when no live lease
  of another instance is in force (and the claim does not undo the instance's own teardown); a
  renewal succeeds exactly on the instance's own live lease that is not a teardown; and a release
  by another instance leaves the lease in force.
\<close>

theorem claim_never_steals:
  shows "(fst (claim_lease me now i d ls) \<longleftrightarrow>
       (case in_force now ls i of None \<Rightarrow> True
        | Some l \<Rightarrow> ls_owner_id l = in_owner_id me \<and> (d \<or> \<not> ls_destroying l)))
    \<and> (fst (renew_lease me now i ls) = RENEWED \<longleftrightarrow>
       (\<exists>l. in_force now ls i = Some l \<and> ls_owner_id l = in_owner_id me \<and> \<not> ls_destroying l))
    \<and> (\<forall>l. in_force now ls i = Some l \<and> ls_owner_id l \<noteq> in_owner_id me
         \<longrightarrow> in_force now (release_lease me now i ls) i = Some l)"
  by (auto simp: claim_lease_def renew_lease_def release_lease_def split_beta split: option.splits)

theorem claim_never_steals_witness:
  "\<not> fst (claim_lease \<lparr>in_owner_id = ''b'', in_ttl = 10\<rparr> 3 ''s'' False
       [(''s'', \<lparr>ls_owner_id = ''a'', ls_expires_at = 9, ls_destroying = False\<rparr>)])"
  unfolding claim_never_steals [THEN conjunct1] by (simp add: in_force_def)

theorem teardown_excludes_reuse_witness:
  "\<not> fst (take_lease \<lparr>in_owner_id = ''b'', in_ttl = 10\<rparr> 5 ''s''
       (snd (take_lease \<lparr>in_owner_id = ''b'', in_ttl = 10\<rparr> 4 ''s''
         (snd (claim_lease \<lparr>in_owner_id = ''a'', in_ttl = 10\<rparr> 3 ''s'' True [])))))"
proof -
  let ?A = "\<lparr>in_owner_id = ''a'', in_ttl = 10\<rparr>" and ?B = "\<lparr>in_owner_id = ''b'', in_ttl = 10\<rparr>"
  let ?l = "snd (claim_lease ?A 3 ''s'' True [])"
  have c: "claim_lease ?A 3 ''s'' True [] = (True, ?l)" by (simp add: claim_lease_def live_lease_def)
  have "lease_steps (\<lambda>me j. j \<noteq> ''s'' \<or> in_owner_id me \<noteq> in_owner_id ?A) 3 ?l 4 (snd (take_lease ?B 4 ''s'' ?l))"
    by (rule lease_steps.cons [OF lease_steps.nil _ _ lease_step.take]) simp_all
  then have "lease_steps (\<lambda>me j. j \<noteq> ''s'' \<or> in_owner_id me \<noteq> in_owner_id ?A) 3 ?l 5
      (snd (lease_owner 5 ''s'' (snd (take_lease ?B 4 ''s'' ?l))))"
    by (rule lease_steps.cons [OF _ _ _ lease_step.owner [where me = ?B]]) simp_all
  from teardown_excludes_reuse [OF c this, of ?B ?B] show ?thesis
    by (simp add: take_lease_def claim_lease_def lease_owner_def live_lease_def write_lease_def)
qed

end
