(* ===== verification/KeyedLock.thy ===== *)
theory KeyedLock
  imports Prelude
begin

text \<open>
  Per-key serialization with waiter-aware reclamation
  (\<^verbatim>\<open>backend/packages/harness/deerflow/runtime/keyed_lock.py\<close>): the table for asyncio callers, which
  keeps entries per event loop, and its thread-side counterpart. The registry is changed under a
  guard, so a check-out and a check-in are atomic; acquiring and releasing the lock of an entry
  are steps of their own, and a waiter may be cancelled.

  Entries, and the per-loop dictionaries that hold them, are compared by identity, so both live in
  heaps. The locale states what a caller of \<^verbatim>\<open>hold\<close> needs of a table, and proves mutual exclusion
  and reclamation once; both tables are instances.
\<close>

section \<open>Tables\<close>

record entry =
  en_locked :: bool
  en_participants :: nat

record ('l, 'k) async_table =
  at_entries :: "entry list"
  at_dicts :: "('k, nat) odict list"
  at_loops :: "('l, nat) odict"

definition new_async :: "('l, 'k) async_table" where
  "new_async = \<lparr>at_entries = [], at_dicts = [], at_loops = []\<rparr>"

definition bump :: "nat \<Rightarrow> entry list \<Rightarrow> entry list" where
  "bump e es = es[e := (es ! e)\<lparr>en_participants := en_participants (es ! e) + 1\<rparr>]"

definition drop_participant :: "nat \<Rightarrow> entry list \<Rightarrow> entry list" where
  "drop_participant e es = es[e := (es ! e)\<lparr>en_participants := en_participants (es ! e) - 1\<rparr>]"

definition fresh_entry :: entry where
  "fresh_entry = \<lparr>en_locked = False, en_participants = 0\<rparr>"

text \<open>\<^verbatim>\<open>_checkout\<close>: the loop's dictionary and the key's entry, created when missing.\<close>

definition async_checkout ::
  "'l \<times> 'k \<Rightarrow> ('l, 'k) async_table \<Rightarrow> (nat \<times> nat) \<times> ('l, 'k) async_table" where
  "async_checkout lk t =
     (let (l, k) = lk;
          (d, t1) = (case od_get (at_loops t) l of
                       Some d \<Rightarrow> (d, t)
                     | None \<Rightarrow> (length (at_dicts t),
                                t\<lparr>at_dicts := at_dicts t @ [[]],
                                  at_loops := od_set l (length (at_dicts t)) (at_loops t)\<rparr>));
          (e, t2) = (case od_get (at_dicts t1 ! d) k of
                       Some e \<Rightarrow> (e, t1)
                     | None \<Rightarrow> (length (at_entries t1),
                                t1\<lparr>at_entries := at_entries t1 @ [fresh_entry],
                                   at_dicts := (at_dicts t1)
                                     [d := od_set k (length (at_entries t1)) (at_dicts t1 ! d)]\<rparr>))
      in ((d, e), t2\<lparr>at_entries := bump e (at_entries t2)\<rparr>))"

definition async_checkin ::
  "'l \<times> 'k \<Rightarrow> nat \<times> nat \<Rightarrow> ('l, 'k) async_table \<Rightarrow> ('l, 'k) async_table" where
  "async_checkin lk h t =
     (let (l, k) = lk; (d, e) = h;
          t1 = t\<lparr>at_entries := drop_participant e (at_entries t)\<rparr>
      in if en_participants (at_entries t1 ! e) \<noteq> 0 \<or> en_locked (at_entries t1 ! e) then t1
         else if od_get (at_dicts t1 ! d) k \<noteq> Some e then t1
         else (let entries = od_del k (at_dicts t1 ! d);
                   t2 = t1\<lparr>at_dicts := (at_dicts t1)[d := entries]\<rparr>
               in if entries = [] \<and> od_get (at_loops t2) l = Some d
                  then t2\<lparr>at_loops := od_del l (at_loops t2)\<rparr> else t2))"

definition async_set_locked ::
  "nat \<times> nat \<Rightarrow> bool \<Rightarrow> ('l, 'k) async_table \<Rightarrow> ('l, 'k) async_table" where
  "async_set_locked h b t =
     t\<lparr>at_entries := (at_entries t)[snd h := (at_entries t ! snd h)\<lparr>en_locked := b\<rparr>]\<rparr>"

definition async_cell :: "('l, 'k) async_table \<Rightarrow> nat \<times> nat \<Rightarrow> nat \<times> bool" where
  "async_cell t h = (en_participants (at_entries t ! snd h), en_locked (at_entries t ! snd h))"

text \<open>The thread-side table.\<close>

record 'k thread_table =
  tt_heap :: "entry list"
  tt_entries :: "('k, nat) odict"

definition new_threads :: "'k thread_table" where
  "new_threads = \<lparr>tt_heap = [], tt_entries = []\<rparr>"

definition thread_checkout :: "'k \<Rightarrow> 'k thread_table \<Rightarrow> nat \<times> 'k thread_table" where
  "thread_checkout k t =
     (let (e, t1) = (case od_get (tt_entries t) k of
                       Some e \<Rightarrow> (e, t)
                     | None \<Rightarrow> (length (tt_heap t),
                                t\<lparr>tt_heap := tt_heap t @ [fresh_entry],
                                  tt_entries := od_set k (length (tt_heap t)) (tt_entries t)\<rparr>))
      in (e, t1\<lparr>tt_heap := bump e (tt_heap t1)\<rparr>))"

definition thread_checkin :: "'k \<Rightarrow> nat \<Rightarrow> 'k thread_table \<Rightarrow> 'k thread_table" where
  "thread_checkin k e t =
     (let t1 = t\<lparr>tt_heap := drop_participant e (tt_heap t)\<rparr>
      in if en_participants (tt_heap t1 ! e) \<noteq> 0 \<or> en_locked (tt_heap t1 ! e) then t1
         else if od_get (tt_entries t1) k \<noteq> Some e then t1
         else t1\<lparr>tt_entries := od_del k (tt_entries t1)\<rparr>)"

definition thread_set_locked :: "nat \<Rightarrow> bool \<Rightarrow> 'k thread_table \<Rightarrow> 'k thread_table" where
  "thread_set_locked e b t = t\<lparr>tt_heap := (tt_heap t)[e := (tt_heap t ! e)\<lparr>en_locked := b\<rparr>]\<rparr>"

definition thread_cell :: "'k thread_table \<Rightarrow> nat \<Rightarrow> nat \<times> bool" where
  "thread_cell t e = (en_participants (tt_heap t ! e), en_locked (tt_heap t ! e))"

section \<open>Holders\<close>

text \<open>
  \<^verbatim>\<open>hold\<close>: a caller checks in its participation, waits for the lock, holds it through its critical
  section, releases it and checks out. A waiter may be cancelled.
\<close>

datatype phase = Waiting | Holding | Leaving

type_synonym ('k, 'h) callers = "nat \<Rightarrow> ('k \<times> 'h \<times> phase) option"

inductive hold_step ::
  "('k \<Rightarrow> 't \<Rightarrow> 'h \<times> 't) \<Rightarrow> ('k \<Rightarrow> 'h \<Rightarrow> 't \<Rightarrow> 't) \<Rightarrow> ('h \<Rightarrow> bool \<Rightarrow> 't \<Rightarrow> 't) \<Rightarrow> ('t \<Rightarrow> 'h \<Rightarrow> nat \<times> bool)
     \<Rightarrow> 't \<Rightarrow> ('k, 'h) callers \<Rightarrow> 't \<Rightarrow> ('k, 'h) callers \<Rightarrow> bool"
  for checkout checkin set_locked cell where
  enter: "cs p = None \<Longrightarrow> checkout k t = (h, t')
    \<Longrightarrow> hold_step checkout checkin set_locked cell t cs t' (cs(p \<mapsto> (k, h, Waiting)))"
| acquire: "cs p = Some (k, h, Waiting) \<Longrightarrow> \<not> snd (cell t h)
    \<Longrightarrow> hold_step checkout checkin set_locked cell t cs (set_locked h True t) (cs(p \<mapsto> (k, h, Holding)))"
| cancelled: "cs p = Some (k, h, Waiting)
    \<Longrightarrow> hold_step checkout checkin set_locked cell t cs (checkin k h t) (cs(p := None))"
| release: "cs p = Some (k, h, Holding)
    \<Longrightarrow> hold_step checkout checkin set_locked cell t cs (set_locked h False t) (cs(p \<mapsto> (k, h, Leaving)))"
| leave: "cs p = Some (k, h, Leaving)
    \<Longrightarrow> hold_step checkout checkin set_locked cell t cs (checkin k h t) (cs(p := None))"

inductive hold_steps ::
  "('k \<Rightarrow> 't \<Rightarrow> 'h \<times> 't) \<Rightarrow> ('k \<Rightarrow> 'h \<Rightarrow> 't \<Rightarrow> 't) \<Rightarrow> ('h \<Rightarrow> bool \<Rightarrow> 't \<Rightarrow> 't) \<Rightarrow> ('t \<Rightarrow> 'h \<Rightarrow> nat \<times> bool)
     \<Rightarrow> 't \<Rightarrow> 't \<Rightarrow> ('k, 'h) callers \<Rightarrow> bool"
  for checkout checkin set_locked cell t0 where
  start: "hold_steps checkout checkin set_locked cell t0 t0 (\<lambda>_. None)"
| step: "hold_steps checkout checkin set_locked cell t0 t cs
    \<Longrightarrow> hold_step checkout checkin set_locked cell t cs t' cs'
    \<Longrightarrow> hold_steps checkout checkin set_locked cell t0 t' cs'"

section \<open>The invariant of the callers\<close>

definition attached :: "('k, 'h) callers \<Rightarrow> 'k \<Rightarrow> nat set" where
  "attached cs k = {p. \<exists>h ph. cs p = Some (k, h, ph)}"

definition holding :: "('k, 'h) callers \<Rightarrow> 'k \<Rightarrow> nat set" where
  "holding cs k = {p. \<exists>h. cs p = Some (k, h, Holding)}"

text \<open>
  Every caller's entry is the one registered for its key; the participants of a registered entry
  are exactly the callers of its key, at least one; its lock is taken exactly when one of them
  holds it, and never by two.
\<close>

definition callers_ok ::
  "('k \<Rightarrow> 'h option) \<Rightarrow> ('h \<Rightarrow> nat \<times> bool) \<Rightarrow> ('k, 'h) callers \<Rightarrow> bool" where
  "callers_ok reg cell cs \<longleftrightarrow> finite (dom cs)
     \<and> (\<forall>p k h ph. cs p = Some (k, h, ph) \<longrightarrow> reg k = Some h)
     \<and> (\<forall>k h. reg k = Some h \<longrightarrow> fst (cell h) = card (attached cs k) \<and> attached cs k \<noteq> {}
          \<and> (snd (cell h) \<longleftrightarrow> holding cs k \<noteq> {}))
     \<and> (\<forall>k p q. p \<in> holding cs k \<longrightarrow> q \<in> holding cs k \<longrightarrow> p = q)"

lemma attached_finite: "finite (dom cs) \<Longrightarrow> finite (attached cs k)"
  by (rule finite_subset [of _ "dom cs"]) (auto simp: attached_def)

lemma attached_enter: "cs p = None \<Longrightarrow>
    attached (cs(p \<mapsto> (k, h, ph))) j = (if j = k then insert p (attached cs k) else attached cs j)"
  by (auto simp: attached_def)

lemma attached_phase: "cs p = Some (k, h, ph) \<Longrightarrow> attached (cs(p \<mapsto> (k, h, ph'))) j = attached cs j"
  by (auto simp: attached_def)

lemma attached_leave: "attached (cs(p := None)) j = attached cs j - {p}"
  by (auto simp: attached_def)

lemma holding_leave: "holding (cs(p := None)) j = holding cs j - {p}"
  by (auto simp: holding_def)

lemma holding_enter: "ph \<noteq> Holding \<Longrightarrow> holding (cs(p \<mapsto> (k, h, ph))) j = holding cs j - {p}"
  by (auto simp: holding_def)

lemma holding_acquire: "cs p = Some (k, h, ph) \<Longrightarrow>
    holding (cs(p \<mapsto> (k, h, Holding))) j = (if j = k then insert p (holding cs k) else holding cs j)"
  by (auto simp: holding_def)

section \<open>What a holder needs of a table\<close>

text \<open>
  \<open>reg\<close> is the entry registered for a key and \<open>cell\<close> its participants and lock. A check-out
  registers the key and counts the caller; a check-in uncounts it and unregisters the key exactly
  when nobody is left and the lock is free; neither touches the entry of another key.
\<close>

locale lock_table =
  fixes ok :: "'t \<Rightarrow> bool" and reg :: "'t \<Rightarrow> 'k \<Rightarrow> 'h option" and cell :: "'t \<Rightarrow> 'h \<Rightarrow> nat \<times> bool"
    and checkout :: "'k \<Rightarrow> 't \<Rightarrow> 'h \<times> 't" and checkin :: "'k \<Rightarrow> 'h \<Rightarrow> 't \<Rightarrow> 't"
    and set_locked :: "'h \<Rightarrow> bool \<Rightarrow> 't \<Rightarrow> 't"
  assumes reg_inj: "ok t \<Longrightarrow> reg t k = Some h \<Longrightarrow> reg t j = Some h \<Longrightarrow> j = k"
    and checkout_known: "ok t \<Longrightarrow> checkout k t = (h, t') \<Longrightarrow> reg t k = Some h0 \<Longrightarrow>
      ok t' \<and> h = h0 \<and> reg t' = reg t \<and> cell t' h = (Suc (fst (cell t h)), snd (cell t h))
      \<and> (\<forall>j g. j \<noteq> k \<longrightarrow> reg t j = Some g \<longrightarrow> cell t' g = cell t g)"
    and checkout_new: "ok t \<Longrightarrow> checkout k t = (h, t') \<Longrightarrow> reg t k = None \<Longrightarrow>
      ok t' \<and> reg t' = (reg t)(k \<mapsto> h) \<and> cell t' h = (1, False)
      \<and> (\<forall>j g. reg t j = Some g \<longrightarrow> cell t' g = cell t g)"
    and checkin_reg: "ok t \<Longrightarrow> reg t k = Some h \<Longrightarrow> cell t h = (Suc n, l) \<Longrightarrow>
      ok (checkin k h t) \<and> reg (checkin k h t) = (if n = 0 \<and> \<not> l then (reg t)(k := None) else reg t)
      \<and> cell (checkin k h t) h = (n, l)
      \<and> (\<forall>j g. j \<noteq> k \<longrightarrow> reg t j = Some g \<longrightarrow> cell (checkin k h t) g = cell t g)"
    and set_locked_reg: "ok t \<Longrightarrow> reg t k = Some h \<Longrightarrow>
      ok (set_locked h b t) \<and> reg (set_locked h b t) = reg t
      \<and> cell (set_locked h b t) h = (fst (cell t h), b)
      \<and> (\<forall>j g. j \<noteq> k \<longrightarrow> reg t j = Some g \<longrightarrow> cell (set_locked h b t) g = cell t g)"
begin

lemma callers_okD:
  assumes "callers_ok (reg t) (cell t) cs"
  shows "finite (dom cs)" "cs p = Some (k, h, ph) \<Longrightarrow> reg t k = Some h"
    "reg t k = Some h \<Longrightarrow> fst (cell t h) = card (attached cs k)"
    "reg t k = Some h \<Longrightarrow> attached cs k \<noteq> {}"
    "reg t k = Some h \<Longrightarrow> snd (cell t h) \<longleftrightarrow> holding cs k \<noteq> {}"
    "p \<in> holding cs k \<Longrightarrow> q \<in> holding cs k \<Longrightarrow> p = q"
  using assms unfolding callers_ok_def by blast+

lemma enter_ok:
  assumes "ok t" "callers_ok (reg t) (cell t) cs" "cs p = None" "checkout k t = (h, t')"
  shows "ok t' \<and> callers_ok (reg t') (cell t') (cs(p \<mapsto> (k, h, Waiting)))"
proof (cases "reg t k")
  case None
  note c = checkout_new [OF assms(1,4) None] and d = callers_okD [OF assms(2)]
  have no: "attached cs k = {}" "holding cs k = {}"
    using d(2) None by (force simp: attached_def holding_def)+
  have "p \<notin> holding cs j" for j using assms(3) by (auto simp: holding_def)
  then have hold: "holding (cs(p \<mapsto> (k, h, Waiting))) j = holding cs j" for j by (auto simp: holding_enter)
  have "callers_ok (reg t') (cell t') (cs(p \<mapsto> (k, h, Waiting)))"
    unfolding callers_ok_def
  proof (intro conjI allI impI)
    show "finite (dom (cs(p \<mapsto> (k, h, Waiting))))" using d(1) by simp
    fix j g assume g: "reg t' j = Some g"
    show "fst (cell t' g) = card (attached (cs(p \<mapsto> (k, h, Waiting))) j)"
      "attached (cs(p \<mapsto> (k, h, Waiting))) j \<noteq> {}"
      "snd (cell t' g) \<longleftrightarrow> holding (cs(p \<mapsto> (k, h, Waiting))) j \<noteq> {}"
      using g c no hold d(3-5) [of j g] by (auto simp: attached_enter assms(3) split: if_splits)
  next
    fix q j g ph assume "(cs(p \<mapsto> (k, h, Waiting))) q = Some (j, g, ph)"
    then show "reg t' j = Some g" using c d(2) None by (fastforce split: if_splits)
  next
    fix j q r assume "q \<in> holding (cs(p \<mapsto> (k, h, Waiting))) j" "r \<in> holding (cs(p \<mapsto> (k, h, Waiting))) j"
    then show "q = r" using d(6) by (simp add: hold)
  qed
  with c show ?thesis by simp
next
  case (Some h0)
  note c = checkout_known [OF assms(1,4) Some] and d = callers_okD [OF assms(2)]
  have fin: "finite (attached cs k)" by (rule attached_finite [OF d(1)])
  have new: "p \<notin> attached cs k" using assms(3) by (simp add: attached_def)
  have "p \<notin> holding cs j" for j using assms(3) by (auto simp: holding_def)
  then have hold: "holding (cs(p \<mapsto> (k, h, Waiting))) j = holding cs j" for j by (auto simp: holding_enter)
  have "callers_ok (reg t') (cell t') (cs(p \<mapsto> (k, h, Waiting)))"
    unfolding callers_ok_def
  proof (intro conjI allI impI)
    show "finite (dom (cs(p \<mapsto> (k, h, Waiting))))" using d(1) by simp
    fix j g assume "reg t' j = Some g"
    then have g: "reg t j = Some g" using c by simp
    show "fst (cell t' g) = card (attached (cs(p \<mapsto> (k, h, Waiting))) j)"
      "attached (cs(p \<mapsto> (k, h, Waiting))) j \<noteq> {}"
      "snd (cell t' g) \<longleftrightarrow> holding (cs(p \<mapsto> (k, h, Waiting))) j \<noteq> {}"
      using g c Some hold d(3-5) [OF g] fin new
      by (cases "j = k"; auto simp: attached_enter assms(3))+
  next
    fix q j g ph assume "(cs(p \<mapsto> (k, h, Waiting))) q = Some (j, g, ph)"
    then show "reg t' j = Some g" using c d(2) Some by (fastforce split: if_splits)
  next
    fix j q r assume "q \<in> holding (cs(p \<mapsto> (k, h, Waiting))) j" "r \<in> holding (cs(p \<mapsto> (k, h, Waiting))) j"
    then show "q = r" using d(6) by (simp add: hold)
  qed
  with c show ?thesis by simp
qed

lemma leave_ok:
  assumes "ok t" "callers_ok (reg t) (cell t) cs" "cs p = Some (k, h, ph)" "ph \<noteq> Holding"
  shows "ok (checkin k h t) \<and> callers_ok (reg (checkin k h t)) (cell (checkin k h t)) (cs(p := None))"
proof -
  note d = callers_okD [OF assms(2)]
  have r: "reg t k = Some h" using assms(3) by (rule d(2))
  have p: "p \<in> attached cs k" "p \<notin> holding cs j" "finite (attached cs j)" for j
  proof -
    show "p \<in> attached cs k" using assms(3) by (simp add: attached_def)
    show "p \<notin> holding cs j" using assms(3,4) by (simp add: holding_def)
    show "finite (attached cs j)" by (rule attached_finite [OF d(1)])
  qed
  obtain n l where cell: "cell t h = (Suc n, l)"
    using d(3) [OF r] p(1) p(3) [of k] by (cases "cell t h", cases "fst (cell t h)") auto
  note c = checkin_reg [OF assms(1) r cell]
  have n: "card (attached cs k - {p}) = n" using d(3) [OF r] cell p by simp
  have l: "l \<longleftrightarrow> holding cs k \<noteq> {}" using d(5) [OF r] cell by simp
  have hold: "holding (cs(p := None)) j = holding cs j" for j using p(2) by (auto simp: holding_leave)
  have "holding cs k \<subseteq> attached cs k - {p}" using p(2) by (auto simp: holding_def attached_def)
  then have last: "n = 0 \<Longrightarrow> attached cs k - {p} = {} \<and> \<not> l" using n p(3) [of k] l by auto
  have other: "attached (cs(p := None)) j = attached cs j" if "j \<noteq> k" for j
    using that assms(3) by (auto simp: attached_def)
  have "callers_ok (reg (checkin k h t)) (cell (checkin k h t)) (cs(p := None))"
    unfolding callers_ok_def
  proof (intro conjI allI impI)
    show "finite (dom (cs(p := None)))" using d(1) by simp
    fix j g assume g: "reg (checkin k h t) j = Some g"
    then have g0: "reg t j = Some g" and k: "j = k \<Longrightarrow> n \<noteq> 0" using c last by (auto split: if_splits)
    show "fst (cell (checkin k h t) g) = card (attached (cs(p := None)) j)"
      "attached (cs(p := None)) j \<noteq> {}"
      "snd (cell (checkin k h t) g) \<longleftrightarrow> holding (cs(p := None)) j \<noteq> {}"
    proof -
      show "fst (cell (checkin k h t) g) = card (attached (cs(p := None)) j)"
        using c g0 r n d(3) [OF g0] other [of j] by (cases "j = k") (auto simp: attached_leave)
      show "attached (cs(p := None)) j \<noteq> {}"
      proof (cases "j = k")
        case True
        then have "card (attached (cs(p := None)) j) \<noteq> 0" using k n by (simp add: attached_leave)
        then show ?thesis by auto
      qed (use d(4) [OF g0] other in simp)
      show "snd (cell (checkin k h t) g) \<longleftrightarrow> holding (cs(p := None)) j \<noteq> {}"
        using c g0 r l d(5) [OF g0] hold by (cases "j = k") auto
    qed
  next
    fix q j g ph' assume q: "(cs(p := None)) q = Some (j, g, ph')"
    then have "cs q = Some (j, g, ph')" "q \<noteq> p" by (auto split: if_splits)
    moreover from this have "j = k \<Longrightarrow> n \<noteq> 0" using last by (auto simp: attached_def)
    ultimately show "reg (checkin k h t) j = Some g" using c d(2) by auto
  next
    fix j q r' assume "q \<in> holding (cs(p := None)) j" "r' \<in> holding (cs(p := None)) j"
    then show "q = r'" using d(6) by (simp add: hold)
  qed
  with c show ?thesis by simp
qed

lemma acquire_ok:
  assumes "ok t" "callers_ok (reg t) (cell t) cs" "cs p = Some (k, h, Waiting)" "\<not> snd (cell t h)"
  shows "ok (set_locked h True t)
    \<and> callers_ok (reg (set_locked h True t)) (cell (set_locked h True t)) (cs(p \<mapsto> (k, h, Holding)))"
proof -
  note d = callers_okD [OF assms(2)]
  have r: "reg t k = Some h" using assms(3) by (rule d(2))
  have c: "ok (set_locked h True t)" "reg (set_locked h True t) = reg t"
    "cell (set_locked h True t) h = (fst (cell t h), True)"
    "\<And>j g. j \<noteq> k \<Longrightarrow> reg t j = Some g \<Longrightarrow> cell (set_locked h True t) g = cell t g"
    using set_locked_reg [OF assms(1) r, of True] by auto
  have none: "holding cs k = {}" using d(5) [OF r] assms(4) by simp
  have same: "attached (cs(p \<mapsto> (k, h, Holding))) j = attached cs j" for j by (rule attached_phase) (rule assms(3))
  have hold: "holding (cs(p \<mapsto> (k, h, Holding))) j = (if j = k then insert p (holding cs k) else holding cs j)" for j
    by (rule holding_acquire) (rule assms(3))
  show ?thesis
    unfolding callers_ok_def c(2)
  proof (intro conjI allI impI)
    fix j g assume g: "reg t j = Some g"
    have cell: "cell (set_locked h True t) g = (if j = k then (fst (cell t h), True) else cell t g)"
      using g r c(3) c(4) [of j g] by (cases "j = k") simp_all
    have hg: "j = k \<Longrightarrow> g = h" using g r by simp
    show "fst (cell (set_locked h True t) g) = card (attached (cs(p \<mapsto> (k, h, Holding))) j)"
      unfolding cell same using d(3) [OF g] hg by (cases "j = k") simp_all
    show "attached (cs(p \<mapsto> (k, h, Holding))) j \<noteq> {}"
      unfolding same by (rule d(4) [OF g])
    show "snd (cell (set_locked h True t) g) \<longleftrightarrow> holding (cs(p \<mapsto> (k, h, Holding))) j \<noteq> {}"
      unfolding cell hold using d(5) [OF g] by simp
  next
    fix q j g ph assume "(cs(p \<mapsto> (k, h, Holding))) q = Some (j, g, ph)"
    then show "reg t j = Some g" using d(2) r by (auto split: if_splits)
  next
    fix j q r' assume "q \<in> holding (cs(p \<mapsto> (k, h, Holding))) j" "r' \<in> holding (cs(p \<mapsto> (k, h, Holding))) j"
    then show "q = r'" using d(6) none by (auto simp: hold split: if_splits)
  qed (use c d(1) in auto)
qed

lemma release_ok:
  assumes "ok t" "callers_ok (reg t) (cell t) cs" "cs p = Some (k, h, Holding)"
  shows "ok (set_locked h False t)
    \<and> callers_ok (reg (set_locked h False t)) (cell (set_locked h False t)) (cs(p \<mapsto> (k, h, Leaving)))"
proof -
  note d = callers_okD [OF assms(2)]
  have r: "reg t k = Some h" using assms(3) by (rule d(2))
  have c: "ok (set_locked h False t)" "reg (set_locked h False t) = reg t"
    "cell (set_locked h False t) h = (fst (cell t h), False)"
    "\<And>j g. j \<noteq> k \<Longrightarrow> reg t j = Some g \<Longrightarrow> cell (set_locked h False t) g = cell t g"
    using set_locked_reg [OF assms(1) r, of False] by auto
  have p: "p \<in> holding cs k" "\<And>j. j \<noteq> k \<Longrightarrow> p \<notin> holding cs j" using assms(3) by (auto simp: holding_def)
  have none: "holding cs k - {p} = {}" using d(6) p(1) by auto
  have hold: "holding (cs(p \<mapsto> (k, h, Leaving))) j = holding cs j - {p}" for j by (simp add: holding_enter)
  have same: "attached (cs(p \<mapsto> (k, h, Leaving))) j = attached cs j" for j by (rule attached_phase) (rule assms(3))
  show ?thesis
    unfolding callers_ok_def c(2)
  proof (intro conjI allI impI)
    fix j g assume g: "reg t j = Some g"
    have cell: "cell (set_locked h False t) g = (if j = k then (fst (cell t h), False) else cell t g)"
      using g r c(3) c(4) [of j g] by (cases "j = k") simp_all
    have hg: "j = k \<Longrightarrow> g = h" using g r by simp
    have rest: "holding cs j - {p} = (if j = k then {} else holding cs j)" using none p(2) [of j] by auto
    show "fst (cell (set_locked h False t) g) = card (attached (cs(p \<mapsto> (k, h, Leaving))) j)"
      unfolding cell same using d(3) [OF g] hg by (cases "j = k") simp_all
    show "attached (cs(p \<mapsto> (k, h, Leaving))) j \<noteq> {}"
      unfolding same by (rule d(4) [OF g])
    show "snd (cell (set_locked h False t) g) \<longleftrightarrow> holding (cs(p \<mapsto> (k, h, Leaving))) j \<noteq> {}"
      unfolding cell hold rest using d(5) [OF g] by simp
  next
    fix q j g ph assume "(cs(p \<mapsto> (k, h, Leaving))) q = Some (j, g, ph)"
    then show "reg t j = Some g" using d(2) r by (auto split: if_splits)
  next
    fix j q r' assume "q \<in> holding (cs(p \<mapsto> (k, h, Leaving))) j" "r' \<in> holding (cs(p \<mapsto> (k, h, Leaving))) j"
    then show "q = r'" using d(6) by (auto simp: hold)
  qed (use c d(1) in auto)
qed

lemma hold_steps_ok:
  "hold_steps checkout checkin set_locked cell t0 t cs \<Longrightarrow> ok t0 \<Longrightarrow> reg t0 = Map.empty
    \<Longrightarrow> ok t \<and> callers_ok (reg t) (cell t) cs"
proof (induction rule: hold_steps.induct)
  case start
  then show ?case by (simp add: callers_ok_def attached_def holding_def)
next
  case (step t cs t' cs')
  from step.IH [OF step.prems] have o: "ok t" and c: "callers_ok (reg t) (cell t) cs" by auto
  from step.hyps(2) show ?case
  proof cases
    case (enter p k h)
    then show ?thesis using enter_ok [OF o c] by blast
  next
    case (acquire p k h)
    then show ?thesis using acquire_ok [OF o c] by blast
  next
    case (cancelled p k h)
    then show ?thesis using leave_ok [OF o c, of p k h Waiting] by blast
  next
    case (release p k h)
    then show ?thesis using release_ok [OF o c] by blast
  next
    case (leave p k h)
    then show ?thesis using leave_ok [OF o c, of p k h Leaving] by blast
  qed
qed

lemma serialized:
  assumes "hold_steps checkout checkin set_locked cell t0 t cs" "ok t0" "reg t0 = Map.empty"
  shows "cs p = Some (k, g, ph) \<Longrightarrow> cs q = Some (k, h, ph') \<Longrightarrow> g = h"
    "cs p = Some (k, g, Holding) \<Longrightarrow> cs q = Some (k, h, Holding) \<Longrightarrow> p = q"
    "cs p = Some (k, g, Waiting) \<Longrightarrow> snd (cell t g) \<longleftrightarrow> (\<exists>q h. cs q = Some (k, h, Holding))"
    "reg t k \<noteq> None \<longleftrightarrow> (\<exists>p h ph. cs p = Some (k, h, ph))"
proof -
  have "callers_ok (reg t) (cell t) cs" using hold_steps_ok [OF assms] by blast
  note d = callers_okD [OF this]
  show "g = h" if "cs p = Some (k, g, ph)" "cs q = Some (k, h, ph')"
    using d(2) [OF that(1)] d(2) [OF that(2)] by simp
  show "p = q" if "cs p = Some (k, g, Holding)" "cs q = Some (k, h, Holding)"
    using d(6) [of p k q] that by (auto simp: holding_def)
  show "snd (cell t g) \<longleftrightarrow> (\<exists>q h. cs q = Some (k, h, Holding))" if "cs p = Some (k, g, Waiting)"
    using d(5) [OF d(2) [OF that]] by (auto simp: holding_def)
  show "reg t k \<noteq> None \<longleftrightarrow> (\<exists>p h ph. cs p = Some (k, h, ph))"
    using d(2) d(4) [of k] by (fastforce simp: attached_def)
qed

end

section \<open>The thread-side table\<close>

definition thread_ok :: "'k thread_table \<Rightarrow> bool" where
  "thread_ok t \<longleftrightarrow> (\<forall>k e. od_get (tt_entries t) k = Some e \<longrightarrow> e < length (tt_heap t))
     \<and> (\<forall>k j e. od_get (tt_entries t) k = Some e \<longrightarrow> od_get (tt_entries t) j = Some e \<longrightarrow> j = k)"

definition thread_reg :: "'k thread_table \<Rightarrow> 'k \<Rightarrow> nat option" where
  "thread_reg t = od_get (tt_entries t)"

lemmas entry_heap = bump_def drop_participant_def fresh_entry_def nth_append nth_list_update

lemma thread_okD:
  assumes "thread_ok t" "od_get (tt_entries t) k = Some e"
  shows "e < length (tt_heap t)" "od_get (tt_entries t) j = Some e \<Longrightarrow> j = k"
  using assms unfolding thread_ok_def by blast+

lemma thread_checkout_known:
  assumes "od_get (tt_entries t) k = Some e"
  shows "thread_checkout k t = (e, t\<lparr>tt_heap := bump e (tt_heap t)\<rparr>)"
  using assms by (simp add: thread_checkout_def)

lemma thread_checkout_new:
  assumes "od_get (tt_entries t) k = None"
  shows "thread_checkout k t = (length (tt_heap t),
    t\<lparr>tt_heap := tt_heap t @ [\<lparr>en_locked = False, en_participants = 1\<rparr>],
      tt_entries := od_set k (length (tt_heap t)) (tt_entries t)\<rparr>)"
  using assms by (simp add: thread_checkout_def entry_heap)

lemma thread_known_law:
  fixes t t' :: "'k thread_table" and k h h0
  assumes ok: "thread_ok t" and out: "thread_checkout k t = (h, t')" and reg: "thread_reg t k = Some h0"
  shows "thread_ok t' \<and> h = h0 \<and> thread_reg t' = thread_reg t
      \<and> thread_cell t' h = (Suc (fst (thread_cell t h)), snd (thread_cell t h))
      \<and> (\<forall>j g. j \<noteq> k \<longrightarrow> thread_reg t j = Some g \<longrightarrow> thread_cell t' g = thread_cell t g)"
proof -
  have e: "od_get (tt_entries t) k = Some h0" using reg by (simp add: thread_reg_def)
  then have t': "h = h0" "t' = t\<lparr>tt_heap := bump h0 (tt_heap t)\<rparr>"
    using out by (auto simp: thread_checkout_known)
  have len: "length (bump h0 (tt_heap t)) = length (tt_heap t)" by (simp add: bump_def)
  have "thread_ok t'" using ok unfolding thread_ok_def t' by (simp add: len)
  moreover have "thread_cell t' h = (Suc (fst (thread_cell t h)), snd (thread_cell t h))"
    using thread_okD(1) [OF ok e] t' by (simp add: thread_cell_def entry_heap)
  moreover have "thread_cell t' g = thread_cell t g" if "j \<noteq> k" "thread_reg t j = Some g" for j g
  proof -
    have "g \<noteq> h0" using thread_okD(2) [OF ok e, of j] that by (auto simp: thread_reg_def)
    then show ?thesis using t' by (simp add: thread_cell_def entry_heap)
  qed
  ultimately show ?thesis
    using t' by (simp add: thread_reg_def)
qed

lemma thread_new_law:
  fixes t t' :: "'k thread_table" and k h
  assumes ok: "thread_ok t" and out: "thread_checkout k t = (h, t')" and reg: "thread_reg t k = None"
  shows "thread_ok t' \<and> thread_reg t' = (thread_reg t)(k \<mapsto> h) \<and> thread_cell t' h = (1, False)
      \<and> (\<forall>j g. thread_reg t j = Some g \<longrightarrow> thread_cell t' g = thread_cell t g)"
proof -
  have e: "od_get (tt_entries t) k = None" using reg by (simp add: thread_reg_def)
  have t': "h = length (tt_heap t)"
    "t' = t\<lparr>tt_heap := tt_heap t @ [\<lparr>en_locked = False, en_participants = 1\<rparr>],
            tt_entries := od_set k (length (tt_heap t)) (tt_entries t)\<rparr>"
    using out unfolding thread_checkout_new [OF e] by auto
  have entries: "od_get (tt_entries t') j = (if j = k then Some (length (tt_heap t)) else od_get (tt_entries t) j)" for j
    by (simp add: t' update_conv')
  have old: "g < length (tt_heap t)" if "od_get (tt_entries t) j = Some g" for j g
    by (rule thread_okD(1) [OF ok that])
  have "thread_ok t'"
    unfolding thread_ok_def entries
  proof (intro conjI allI impI)
    fix j i g
    assume j: "(if j = k then Some (length (tt_heap t)) else od_get (tt_entries t) j) = Some g"
    show "g < length (tt_heap t')" using j old [of j g] by (auto simp: t' split: if_splits)
    assume "(if i = k then Some (length (tt_heap t)) else od_get (tt_entries t) i) = Some g"
    with j show "i = j" using old [of j g] old [of i g] thread_okD(2) [OF ok, of j g i]
      by (auto split: if_splits)
  qed
  moreover have "thread_cell t' g = thread_cell t g" if "thread_reg t j = Some g" for j g
    using old [of j g] that by (simp add: t' thread_cell_def thread_reg_def nth_append)
  ultimately show ?thesis
    by (auto simp: t' thread_reg_def thread_cell_def update_conv')
qed

lemma thread_checkin_law:
  fixes t :: "'k thread_table" and k h n l
  assumes ok: "thread_ok t" and reg: "thread_reg t k = Some h" and cell: "thread_cell t h = (Suc n, l)"
  shows "thread_ok (thread_checkin k h t)
      \<and> thread_reg (thread_checkin k h t) = (if n = 0 \<and> \<not> l then (thread_reg t)(k := None) else thread_reg t)
      \<and> thread_cell (thread_checkin k h t) h = (n, l)
      \<and> (\<forall>j g. j \<noteq> k \<longrightarrow> thread_reg t j = Some g \<longrightarrow> thread_cell (thread_checkin k h t) g = thread_cell t g)"
proof -
  have e: "od_get (tt_entries t) k = Some h" using reg by (simp add: thread_reg_def)
  have h: "h < length (tt_heap t)" "en_participants (tt_heap t ! h) = Suc n" "en_locked (tt_heap t ! h) = l"
    using thread_okD(1) [OF ok e] cell by (simp_all add: thread_cell_def)
  define heap where "heap = drop_participant h (tt_heap t)"
  have heap: "length heap = length (tt_heap t)" "heap ! h = \<lparr>en_locked = l, en_participants = n\<rparr>"
    "\<And>g. g \<noteq> h \<Longrightarrow> heap ! g = tt_heap t ! g"
    using h by (simp_all add: heap_def drop_participant_def)
  have t': "thread_checkin k h t = (if n = 0 \<and> \<not> l
      then t\<lparr>tt_heap := heap, tt_entries := od_del k (tt_entries t)\<rparr> else t\<lparr>tt_heap := heap\<rparr>)"
    using e heap(2) by (auto simp: thread_checkin_def heap_def [symmetric])
  have parts: "tt_heap (thread_checkin k h t) = heap"
    "od_get (tt_entries (thread_checkin k h t)) =
      (if n = 0 \<and> \<not> l then (od_get (tt_entries t))(k := None) else od_get (tt_entries t))"
    unfolding t' by (simp_all add: delete_conv' fun_eq_iff)
  have "thread_ok (thread_checkin k h t)"
    using ok unfolding thread_ok_def parts heap(1) by (auto split: if_splits)
  moreover have "thread_cell (thread_checkin k h t) h = (n, l)"
    by (simp add: thread_cell_def parts heap)
  moreover have "thread_cell (thread_checkin k h t) g = thread_cell t g" if "j \<noteq> k" "thread_reg t j = Some g" for j g
  proof -
    have "g \<noteq> h" using thread_okD(2) [OF ok e, of j] that by (auto simp: thread_reg_def)
    then show ?thesis by (simp add: thread_cell_def parts heap)
  qed
  ultimately show ?thesis
    by (simp add: thread_reg_def parts(2))
qed

lemma thread_set_locked_law:
  fixes t :: "'k thread_table" and k h b
  assumes ok: "thread_ok t" and reg: "thread_reg t k = Some h"
  shows "thread_ok (thread_set_locked h b t) \<and> thread_reg (thread_set_locked h b t) = thread_reg t
      \<and> thread_cell (thread_set_locked h b t) h = (fst (thread_cell t h), b)
      \<and> (\<forall>j g. j \<noteq> k \<longrightarrow> thread_reg t j = Some g \<longrightarrow> thread_cell (thread_set_locked h b t) g = thread_cell t g)"
proof -
  have e: "od_get (tt_entries t) k = Some h" using reg by (simp add: thread_reg_def)
  have h: "h < length (tt_heap t)" by (rule thread_okD(1) [OF ok e])
  have "thread_cell (thread_set_locked h b t) g = thread_cell t g" if "j \<noteq> k" "thread_reg t j = Some g" for j g
  proof -
    have "g \<noteq> h" using thread_okD(2) [OF ok e, of j] that by (auto simp: thread_reg_def)
    then show ?thesis by (simp add: thread_cell_def thread_set_locked_def)
  qed
  moreover have "thread_ok (thread_set_locked h b t)"
    using ok unfolding thread_ok_def by (simp add: thread_set_locked_def)
  ultimately show ?thesis
    using h by (simp add: thread_reg_def thread_cell_def thread_set_locked_def)
qed

interpretation threads: lock_table thread_ok thread_reg thread_cell thread_checkout thread_checkin
  thread_set_locked
proof
  fix t :: "'k thread_table" and k j :: 'k and h
  assume "thread_ok t" "thread_reg t k = Some h" "thread_reg t j = Some h"
  then show "j = k" using thread_okD(2) [of t k h j] by (simp add: thread_reg_def)
qed (rule thread_known_law thread_new_law thread_checkin_law thread_set_locked_law; assumption)+

section \<open>The table of the event loops\<close>

text \<open>
  A registered dictionary is never empty, two loops never share one, and no entry sits in two
  places, not even in a dictionary that was already dropped.
\<close>

definition in_dict :: "('l, 'k) async_table \<Rightarrow> nat \<Rightarrow> 'k \<Rightarrow> nat \<Rightarrow> bool" where
  "in_dict t d k e \<longleftrightarrow> d < length (at_dicts t) \<and> od_get (at_dicts t ! d) k = Some e"

definition loops_ok :: "('l, 'k) async_table \<Rightarrow> bool" where
  "loops_ok t \<longleftrightarrow> (\<forall>l d. od_get (at_loops t) l = Some d \<longrightarrow> d < length (at_dicts t) \<and> at_dicts t ! d \<noteq> [])
     \<and> (\<forall>l m d. od_get (at_loops t) l = Some d \<longrightarrow> od_get (at_loops t) m = Some d \<longrightarrow> m = l)"

definition dicts_ok :: "('l, 'k) async_table \<Rightarrow> bool" where
  "dicts_ok t \<longleftrightarrow> (\<forall>d k e. in_dict t d k e \<longrightarrow> e < length (at_entries t))
     \<and> (\<forall>d k d' k' e. in_dict t d k e \<longrightarrow> in_dict t d' k' e \<longrightarrow> d' = d \<and> k' = k)"

definition async_ok :: "('l, 'k) async_table \<Rightarrow> bool" where
  "async_ok t \<longleftrightarrow> loops_ok t \<and> dicts_ok t"

definition async_reg :: "('l, 'k) async_table \<Rightarrow> 'l \<times> 'k \<Rightarrow> (nat \<times> nat) option" where
  "async_reg t lk = (case od_get (at_loops t) (fst lk) of None \<Rightarrow> None
     | Some d \<Rightarrow> map_option (Pair d) (od_get (at_dicts t ! d) (snd lk)))"

lemma async_reg_Some: "async_reg t lk = Some h \<longleftrightarrow>
    od_get (at_loops t) (fst lk) = Some (fst h) \<and> od_get (at_dicts t ! fst h) (snd lk) = Some (snd h)"
  by (cases h) (auto simp: async_reg_def split: option.splits)

lemma loops_okD:
  assumes "loops_ok t" "od_get (at_loops t) l = Some d"
  shows "d < length (at_dicts t)" "at_dicts t ! d \<noteq> []" "od_get (at_loops t) m = Some d \<Longrightarrow> m = l"
  using assms unfolding loops_ok_def by blast+

lemma dicts_okD:
  assumes "dicts_ok t" "in_dict t d k e"
  shows "e < length (at_entries t)" "in_dict t d' k' e \<Longrightarrow> d' = d \<and> k' = k"
  using assms unfolding dicts_ok_def by blast+

lemma async_reg_in_dict: "async_ok t \<Longrightarrow> async_reg t lk = Some h \<Longrightarrow> in_dict t (fst h) (snd lk) (snd h)"
  using loops_okD(1) by (auto simp: async_ok_def in_dict_def async_reg_Some)

text \<open>Other keys keep other entries.\<close>

lemma async_reg_separate:
  assumes "async_ok t" "async_reg t lk = Some h" "async_reg t lj = Some g"
  shows "snd g = snd h \<longleftrightarrow> lj = lk"
proof
  assume "snd g = snd h"
  moreover have "in_dict t (fst h) (snd lk) (snd h)" "in_dict t (fst g) (snd lj) (snd g)"
    using async_reg_in_dict assms by blast+
  ultimately have "fst g = fst h \<and> snd lj = snd lk"
    using dicts_okD(2) [of t "fst h" "snd lk" "snd h" "fst g" "snd lj"] assms(1) by (simp add: async_ok_def)
  then show "lj = lk"
    using loops_okD(3) [of t "fst lk" "fst h" "fst lj"] assms by (simp add: async_ok_def async_reg_Some prod_eq_iff)
qed (use assms in simp)

text \<open>Changing one entry in place keeps the table and every other cell.\<close>

lemma async_entry_write:
  fixes t :: "('l, 'k) async_table" and e :: entry
  assumes "async_ok t" "async_reg t lk = Some h"
  defines "t' \<equiv> t\<lparr>at_entries := (at_entries t)[snd h := e]\<rparr>"
  shows "async_ok t'" "async_reg t' = async_reg t" "async_cell t' h = (en_participants e, en_locked e)"
    "lj \<noteq> lk \<Longrightarrow> async_reg t lj = Some g \<Longrightarrow> async_cell t' g = async_cell t g"
proof -
  have "in_dict t' = in_dict t" by (simp add: t'_def in_dict_def fun_eq_iff)
  then show "async_ok t'" using assms(1) by (simp add: async_ok_def loops_ok_def dicts_ok_def t'_def)
  show "async_reg t' = async_reg t" by (simp add: t'_def async_reg_def fun_eq_iff split: option.split)
  have "snd h < length (at_entries t)"
    using dicts_okD(1) async_reg_in_dict [OF assms(1,2)] assms(1) by (auto simp: async_ok_def)
  then show "async_cell t' h = (en_participants e, en_locked e)" by (simp add: t'_def async_cell_def)
  show "async_cell t' g = async_cell t g" if "lj \<noteq> lk" "async_reg t lj = Some g"
    using async_reg_separate [OF assms(1,2) that(2)] that(1) by (simp add: t'_def async_cell_def)
qed

lemma async_known_law:
  assumes "async_ok t" "async_checkout lk t = (h, t')" "async_reg t lk = Some h0"
  shows "async_ok t' \<and> h = h0 \<and> async_reg t' = async_reg t
      \<and> async_cell t' h = (Suc (fst (async_cell t h)), snd (async_cell t h))
      \<and> (\<forall>j g. j \<noteq> lk \<longrightarrow> async_reg t j = Some g \<longrightarrow> async_cell t' g = async_cell t g)"
proof -
  obtain l k where lk: "lk = (l, k)" by (cases lk)
  have h: "h = h0" and t': "t' = t\<lparr>at_entries := bump (snd h0) (at_entries t)\<rparr>"
    using assms(2,3) by (auto simp: lk async_reg_Some async_checkout_def)
  show ?thesis
    using async_entry_write [OF assms(1,3), where e = "(at_entries t ! snd h0)\<lparr>en_participants := en_participants (at_entries t ! snd h0) + 1\<rparr>"]
    unfolding h t' bump_def by (auto simp: async_cell_def)
qed

lemma async_set_locked_law:
  assumes "async_ok t" "async_reg t lk = Some h"
  shows "async_ok (async_set_locked h b t) \<and> async_reg (async_set_locked h b t) = async_reg t
      \<and> async_cell (async_set_locked h b t) h = (fst (async_cell t h), b)
      \<and> (\<forall>j g. j \<noteq> lk \<longrightarrow> async_reg t j = Some g \<longrightarrow> async_cell (async_set_locked h b t) g = async_cell t g)"
  using async_entry_write [OF assms, where e = "(at_entries t ! snd h)\<lparr>en_locked := b\<rparr>"]
  unfolding async_set_locked_def by (auto simp: async_cell_def)

text \<open>Registering a fresh entry, in the dictionary of a known loop or in a new one.\<close>

lemma dicts_ok_insert:
  assumes "dicts_ok t" "length (at_entries t') = Suc (length (at_entries t))"
    "\<And>d' k' e. in_dict t' d' k' e \<longleftrightarrow> in_dict t d' k' e \<or> d' = d \<and> k' = k \<and> e = length (at_entries t)"
  shows "dicts_ok t'"
  unfolding dicts_ok_def assms(3)
proof (intro conjI allI impI)
  fix d1 k1 e1 d2 k2
  assume one: "in_dict t d1 k1 e1 \<or> d1 = d \<and> k1 = k \<and> e1 = length (at_entries t)"
  have old: "in_dict t i j e \<Longrightarrow> e < length (at_entries t)" for i j e by (rule dicts_okD(1) [OF assms(1)])
  show "e1 < length (at_entries t')" using one old [of d1 k1 e1] assms(2) by auto
  assume two: "in_dict t d2 k2 e1 \<or> d2 = d \<and> k2 = k \<and> e1 = length (at_entries t)"
  have "d2 = d1 \<and> k2 = k1"
    using one two old [of d1 k1 e1] old [of d2 k2 e1] dicts_okD(2) [OF assms(1), of d1 k1 e1 d2 k2] by auto
  then show "d2 = d1" "k2 = k1" by simp_all
qed

lemma async_new_in_loop:
  fixes t :: "('l, 'k) async_table"
  assumes "async_ok t" "od_get (at_loops t) l = Some d" "od_get (at_dicts t ! d) k = None"
  defines "t' \<equiv> t\<lparr>at_entries := at_entries t @ [\<lparr>en_locked = False, en_participants = 1\<rparr>],
    at_dicts := (at_dicts t)[d := od_set k (length (at_entries t)) (at_dicts t ! d)]\<rparr>"
  shows "async_ok t'" "async_reg t' = (async_reg t)((l, k) \<mapsto> (d, length (at_entries t)))"
proof -
  have d: "d < length (at_dicts t)" using loops_okD(1) assms(1,2) by (auto simp: async_ok_def)
  have "in_dict t' d' k' e \<longleftrightarrow> in_dict t d' k' e \<or> d' = d \<and> k' = k \<and> e = length (at_entries t)" for d' k' e
    using d assms(3) by (cases "d' = d") (auto simp: t'_def in_dict_def update_conv')
  moreover have "dicts_ok t" "length (at_entries t') = Suc (length (at_entries t))"
    using assms(1) by (simp_all add: async_ok_def t'_def)
  ultimately have "dicts_ok t'" using dicts_ok_insert [of t t' d k] by blast
  moreover have "od_set k v xs \<noteq> []" for v and xs :: "('k, nat) odict" by (cases xs) auto
  then have "(at_dicts t)[d := od_set k (length (at_entries t)) (at_dicts t ! d)] ! i \<noteq> []"
    if "i < length (at_dicts t)" "at_dicts t ! i \<noteq> []" for i
    using that by (cases "i = d") simp_all
  then have "loops_ok t'" using assms(1) by (simp add: async_ok_def loops_ok_def t'_def)
  ultimately show "async_ok t'" by (simp add: async_ok_def)
  have "od_get (at_loops t) m = Some d \<Longrightarrow> m = l" for m
    using loops_okD(3) assms(1,2) by (auto simp: async_ok_def)
  then have other: "m \<noteq> l \<Longrightarrow> od_get (at_loops t) m \<noteq> Some d" for m by blast
  show "async_reg t' = (async_reg t)((l, k) \<mapsto> (d, length (at_entries t)))"
  proof (rule ext)
    fix mj :: "'l \<times> 'k"
    obtain m j where mj: "mj = (m, j)" by (cases mj)
    show "async_reg t' mj = ((async_reg t)((l, k) \<mapsto> (d, length (at_entries t)))) mj"
    proof (cases "m = l")
      case True
      then show ?thesis using d assms(2) by (simp add: mj t'_def async_reg_def update_conv')
    next
      case False
      then show ?thesis using other [OF False]
        by (auto simp: mj t'_def async_reg_def update_conv' split: option.split)
    qed
  qed
qed

lemma async_new_loop:
  fixes t :: "('l, 'k) async_table" and k :: 'k
  assumes "async_ok t" "od_get (at_loops t) l = None"
  defines "t' \<equiv> t\<lparr>at_entries := at_entries t @ [\<lparr>en_locked = False, en_participants = 1\<rparr>],
    at_dicts := at_dicts t @ [[(k, length (at_entries t))]],
    at_loops := od_set l (length (at_dicts t)) (at_loops t)\<rparr>"
  shows "async_ok t'" "async_reg t' = (async_reg t)((l, k) \<mapsto> (length (at_dicts t), length (at_entries t)))"
proof -
  have "in_dict t' d' k' e \<longleftrightarrow> in_dict t d' k' e \<or> d' = length (at_dicts t) \<and> k' = k \<and> e = length (at_entries t)"
    for d' k' e by (auto simp: t'_def in_dict_def nth_append split: if_splits)
  moreover have "dicts_ok t" "length (at_entries t') = Suc (length (at_entries t))"
    using assms(1) by (simp_all add: async_ok_def t'_def)
  ultimately have "dicts_ok t'" using dicts_ok_insert [of t t' "length (at_dicts t)" k] by blast
  moreover have old: "od_get (at_loops t) m = Some d \<Longrightarrow> d < length (at_dicts t) \<and> at_dicts t ! d \<noteq> []" for m d
    using loops_okD(1,2) [of t m d] assms(1) by (auto simp: async_ok_def)
  have "loops_ok t'"
    unfolding loops_ok_def
  proof (intro conjI allI impI)
    fix m j d
    assume m: "od_get (at_loops t') m = Some d"
    show "d < length (at_dicts t')" "at_dicts t' ! d \<noteq> []"
      using m old [of m d] by (auto simp: t'_def nth_append update_conv' split: if_splits)
    assume j: "od_get (at_loops t') j = Some d"
    show "j = m"
      using m j old [of m d] old [of j d] loops_okD(3) [of t m d j] assms(1)
      by (auto simp: t'_def async_ok_def update_conv' split: if_splits)
  qed
  ultimately show "async_ok t'" by (simp add: async_ok_def)
  show "async_reg t' = (async_reg t)((l, k) \<mapsto> (length (at_dicts t), length (at_entries t)))"
  proof (rule ext)
    fix mj :: "'l \<times> 'k"
    obtain m j where mj: "mj = (m, j)" by (cases mj)
    show "async_reg t' mj = ((async_reg t)((l, k) \<mapsto> (length (at_dicts t), length (at_entries t)))) mj"
      using assms(2) old [of m]
      by (cases "m = l") (auto simp: mj t'_def async_reg_def nth_append update_conv' split: option.split)
  qed
qed

lemma async_new_law:
  assumes "async_ok t" "async_checkout lk t = (h, t')" "async_reg t lk = None"
  shows "async_ok t' \<and> async_reg t' = (async_reg t)(lk \<mapsto> h) \<and> async_cell t' h = (1, False)
      \<and> (\<forall>j g. async_reg t j = Some g \<longrightarrow> async_cell t' g = async_cell t g)"
proof -
  obtain l k where lk: "lk = (l, k)" by (cases lk)
  have old: "snd g < length (at_entries t)" if "async_reg t j = Some g" for j g
    using dicts_okD(1) async_reg_in_dict [OF assms(1) that] assms(1) by (auto simp: async_ok_def)
  have cells: "async_cell t' h = (1, False)" "async_reg t j = Some g \<Longrightarrow> async_cell t' g = async_cell t g"
    if "at_entries t' = at_entries t @ [\<lparr>en_locked = False, en_participants = 1\<rparr>]" "snd h = length (at_entries t)"
    for j g
    using that old [of j g] by (simp_all add: async_cell_def nth_append)
  show ?thesis
  proof (cases "od_get (at_loops t) l")
    case None
    have out: "h = (length (at_dicts t), length (at_entries t))"
      "t' = t\<lparr>at_entries := at_entries t @ [\<lparr>en_locked = False, en_participants = 1\<rparr>],
        at_dicts := at_dicts t @ [[(k, length (at_entries t))]],
        at_loops := od_set l (length (at_dicts t)) (at_loops t)\<rparr>"
      using assms(2) None by (auto simp: lk async_checkout_def entry_heap)
    have "async_cell t' h = (1, False)" "\<And>j g. async_reg t j = Some g \<Longrightarrow> async_cell t' g = async_cell t g"
      using cells by (simp_all add: out)
    then show ?thesis using async_new_loop [OF assms(1) None, of k] unfolding out lk by blast
  next
    case (Some d)
    then have new: "od_get (at_dicts t ! d) k = None" using assms(3) by (simp add: lk async_reg_def)
    have out: "h = (d, length (at_entries t))"
      "t' = t\<lparr>at_entries := at_entries t @ [\<lparr>en_locked = False, en_participants = 1\<rparr>],
        at_dicts := (at_dicts t)[d := od_set k (length (at_entries t)) (at_dicts t ! d)]\<rparr>"
      using assms(2) Some new by (auto simp: lk async_checkout_def entry_heap)
    have "async_cell t' h = (1, False)" "\<And>j g. async_reg t j = Some g \<Longrightarrow> async_cell t' g = async_cell t g"
      using cells by (simp_all add: out)
    then show ?thesis using async_new_in_loop [OF assms(1) Some new] unfolding out lk by blast
  qed
qed

text \<open>Dropping the key of an entry, and the dictionary of its loop when that was its last key.\<close>

definition drop_key :: "'l \<Rightarrow> 'k \<Rightarrow> nat \<Rightarrow> ('l, 'k) async_table \<Rightarrow> ('l, 'k) async_table" where
  "drop_key l k d t = (let t2 = t\<lparr>at_dicts := (at_dicts t)[d := od_del k (at_dicts t ! d)]\<rparr>
     in if od_del k (at_dicts t ! d) = [] then t2\<lparr>at_loops := od_del l (at_loops t2)\<rparr> else t2)"

lemma drop_key_parts:
  "at_entries (drop_key l k d t) = at_entries t"
  "at_dicts (drop_key l k d t) = (at_dicts t)[d := od_del k (at_dicts t ! d)]"
  "at_loops (drop_key l k d t) =
    (if od_del k (at_dicts t ! d) = [] then od_del l (at_loops t) else at_loops t)"
  by (simp_all add: drop_key_def Let_def)

lemma drop_key_ok:
  assumes "async_ok t" "async_reg t (l, k) = Some (d, e)"
  shows "async_ok (drop_key l k d t)"
proof -
  have l: "od_get (at_loops t) l = Some d" using assms(2) by (simp add: async_reg_Some)
  have loops: "loops_ok t" and dicts: "dicts_ok t" using assms(1) by (simp_all add: async_ok_def)
  have "in_dict (drop_key l k d t) d' k' e' \<Longrightarrow> in_dict t d' k' e'" for d' k' e'
    by (cases "d' = d") (auto simp: in_dict_def drop_key_parts delete_conv' split: if_splits)
  then have "dicts_ok (drop_key l k d t)" using dicts unfolding dicts_ok_def drop_key_parts by blast
  moreover have "loops_ok (drop_key l k d t)"
    unfolding loops_ok_def
  proof (intro conjI allI impI)
    fix m j i
    assume m: "od_get (at_loops (drop_key l k d t)) m = Some i"
    then have i: "od_get (at_loops t) m = Some i" "m = l \<Longrightarrow> od_del k (at_dicts t ! d) \<noteq> []"
      by (auto simp: drop_key_parts delete_conv' split: if_splits)
    show "i < length (at_dicts (drop_key l k d t))" using loops_okD(1) [OF loops i(1)] by (simp add: drop_key_parts)
    show "at_dicts (drop_key l k d t) ! i \<noteq> []"
      using i loops_okD(1,2) [OF loops i(1)] loops_okD(3) [OF loops l, of m]
      by (cases "i = d") (auto simp: drop_key_parts)
    assume "od_get (at_loops (drop_key l k d t)) j = Some i"
    then have "od_get (at_loops t) j = Some i" by (auto simp: drop_key_parts delete_conv' split: if_splits)
    then show "j = m" by (rule loops_okD(3) [OF loops i(1)])
  qed
  ultimately show ?thesis by (simp add: async_ok_def)
qed

lemma drop_key_reg:
  assumes "async_ok t" "async_reg t (l, k) = Some (d, e)"
  shows "async_reg (drop_key l k d t) = (async_reg t)((l, k) := None)"
proof (rule ext)
  fix mj :: "'a \<times> 'b"
  obtain m j where mj: "mj = (m, j)" by (cases mj)
  have l: "od_get (at_loops t) l = Some d" using assms(2) by (simp add: async_reg_Some)
  have loops: "loops_ok t" using assms(1) by (simp add: async_ok_def)
  note d = loops_okD(1) [OF loops l]
  have gone: "od_del k (at_dicts t ! d) = [] \<Longrightarrow> j \<noteq> k \<Longrightarrow> od_get (at_dicts t ! d) j = None"
    using delete_conv' [of k "at_dicts t ! d"] by (metis fun_upd_other map_of.simps(1))
  show "async_reg (drop_key l k d t) mj = ((async_reg t)((l, k) := None)) mj"
  proof (cases "m = l")
    case True
    then show ?thesis using l d gone by (simp add: mj async_reg_def drop_key_parts delete_conv')
  next
    case False
    then have "od_get (at_loops t) m \<noteq> Some d" using loops_okD(3) [OF loops l, of m] by blast
    then show ?thesis using False
      by (auto simp: mj async_reg_def drop_key_parts delete_conv' split: option.splits)
  qed
qed

lemma async_checkin_law:
  assumes "async_ok t" "async_reg t lk = Some h" "async_cell t h = (Suc n, l)"
  shows "async_ok (async_checkin lk h t)
      \<and> async_reg (async_checkin lk h t) = (if n = 0 \<and> \<not> l then (async_reg t)(lk := None) else async_reg t)
      \<and> async_cell (async_checkin lk h t) h = (n, l)
      \<and> (\<forall>j g. j \<noteq> lk \<longrightarrow> async_reg t j = Some g \<longrightarrow> async_cell (async_checkin lk h t) g = async_cell t g)"
proof -
  obtain loop k d e where lk: "lk = (loop, k)" "h = (d, e)" by (cases lk, cases h)
  define x where "x = (at_entries t ! e)\<lparr>en_participants := en_participants (at_entries t ! e) - 1\<rparr>"
  define t1 where "t1 = t\<lparr>at_entries := (at_entries t)[e := x]\<rparr>"
  note w = async_entry_write [OF assms(1,2), where e = x]
  have cell: "async_cell t1 h = (n, l)" using w(3) assms(3) by (simp add: lk t1_def x_def async_cell_def)
  have t1: "async_ok t1" "async_reg t1 = async_reg t"
    "\<And>j g. j \<noteq> lk \<Longrightarrow> async_reg t j = Some g \<Longrightarrow> async_cell t1 g = async_cell t g"
    using w(1,2,4) by (simp_all add: lk t1_def)
  have reg: "async_reg t1 (loop, k) = Some (d, e)" using assms(2) t1(2) by (simp add: lk)
  have out: "async_checkin lk h t = (if n = 0 \<and> \<not> l then drop_key loop k d t1 else t1)"
  proof -
    have now: "en_participants (at_entries t1 ! e) = n" "en_locked (at_entries t1 ! e) = l"
      "od_get (at_dicts t1 ! d) k = Some e" "od_get (at_loops t1) loop = Some d"
      using cell reg by (simp_all add: async_cell_def async_reg_Some lk)
    have "async_checkin lk h t = (if en_participants (at_entries t1 ! e) \<noteq> 0 \<or> en_locked (at_entries t1 ! e) then t1
        else if od_get (at_dicts t1 ! d) k \<noteq> Some e then t1
        else let t2 = t1\<lparr>at_dicts := (at_dicts t1)[d := od_del k (at_dicts t1 ! d)]\<rparr>
             in if od_del k (at_dicts t1 ! d) = [] \<and> od_get (at_loops t2) loop = Some d
                then t2\<lparr>at_loops := od_del loop (at_loops t2)\<rparr> else t2)"
      by (simp add: async_checkin_def lk t1_def x_def drop_participant_def Let_def)
    then show ?thesis unfolding now by (simp add: drop_key_def now Let_def)
  qed
  have "async_cell (drop_key loop k d t1) = async_cell t1" by (simp add: async_cell_def drop_key_parts fun_eq_iff)
  moreover have "async_reg (drop_key loop k d t1) = (async_reg t)(lk := None)"
    using drop_key_reg [OF t1(1) reg] by (simp add: lk(1) t1(2))
  moreover note t1 cell drop_key_ok [OF t1(1) reg]
  ultimately show ?thesis unfolding out by (cases "n = 0 \<and> \<not> l") (simp_all only: if_True if_False simp_thms, blast+)
qed

interpretation loops: lock_table async_ok async_reg async_cell async_checkout async_checkin async_set_locked
proof
  fix t :: "('l, 'k) async_table" and k j h
  assume "async_ok t" "async_reg t k = Some h" "async_reg t j = Some h"
  then show "j = k" using async_reg_separate by blast
qed (rule async_known_law async_new_law async_checkin_law async_set_locked_law; assumption)+

section \<open>Serialization and reclamation\<close>

lemma loops_new: "async_ok new_async" "async_reg new_async = Map.empty"
  by (simp_all add: new_async_def async_ok_def loops_ok_def dicts_ok_def in_dict_def async_reg_def fun_eq_iff)

lemma threads_new: "thread_ok new_threads" "thread_reg new_threads = Map.empty"
  by (simp_all add: new_threads_def thread_ok_def thread_reg_def)

text \<open>When no caller is left, nothing is registered for any loop.\<close>

lemma async_reg_empty:
  assumes "async_ok t" "async_reg t = Map.empty"
  shows "at_loops t = []"
proof (rule ccontr)
  assume "at_loops t \<noteq> []"
  then obtain l d ls where ls: "at_loops t = (l, d) # ls" by (cases "at_loops t") auto
  then have l: "od_get (at_loops t) l = Some d" by simp
  then have "at_dicts t ! d \<noteq> []" using loops_okD(2) [of t l d] assms(1) by (simp add: async_ok_def)
  then obtain k e es where "at_dicts t ! d = (k, e) # es" by (cases "at_dicts t ! d") auto
  with l have "async_reg t (l, k) = Some (d, e)" by (simp add: async_reg_def)
  with assms(2) show False by simp
qed

text \<open>
  C18. Callers of \<^verbatim>\<open>AsyncKeyedLockTable.hold\<close> with the same loop and key never hold the lock at the
  same time, however they enter, wait, are cancelled and leave: they all share one entry; a waiter
  is blocked only while one of them holds the lock, so a cancelled waiter never leaves it stuck;
  and an entry is registered exactly while somebody uses it, so that an idle table retains no key
  and no loop at all.
\<close>

theorem async_hold_is_exclusive:
  assumes "hold_steps async_checkout async_checkin async_set_locked async_cell new_async t cs"
  shows "(\<forall>p q k g h ph ph'. cs p = Some (k, g, ph) \<longrightarrow> cs q = Some (k, h, ph')
      \<longrightarrow> g = h \<and> (ph = Holding \<and> ph' = Holding \<longrightarrow> p = q))
    \<and> (\<forall>p k g. cs p = Some (k, g, Waiting) \<longrightarrow>
        snd (async_cell t g) = (\<exists>q h. cs q = Some (k, h, Holding)))
    \<and> (\<forall>k. (async_reg t k \<noteq> None) = (\<exists>p h ph. cs p = Some (k, h, ph)))
    \<and> (cs = Map.empty \<longrightarrow> at_loops t = [])"
proof (intro conjI allI impI)
  note s = loops.serialized [OF assms loops_new]
  fix p q k g h ph ph'
  assume p: "cs p = Some (k, g, ph)" and q: "cs q = Some (k, h, ph')"
  show "g = h" by (rule s(1) [OF p q])
  show "p = q" if "ph = Holding \<and> ph' = Holding" using s(2) [of p k g q h] p q that by simp
next
  show "snd (async_cell t g) = (\<exists>q h. cs q = Some (k, h, Holding))" if "cs p = Some (k, g, Waiting)" for p k g
    by (rule loops.serialized(3) [OF assms loops_new that])
  show "(async_reg t k \<noteq> None) = (\<exists>p h ph. cs p = Some (k, h, ph))" for k
    by (rule loops.serialized(4) [OF assms loops_new])
  show "at_loops t = []" if "cs = Map.empty"
  proof (rule async_reg_empty)
    show "async_ok t" using loops.hold_steps_ok [OF assms loops_new] by blast
    show "async_reg t = Map.empty"
    proof (rule ext)
      fix k
      have "cs p \<noteq> Some (k, h, ph)" for p h ph using that by simp
      with loops.serialized(4) [OF assms loops_new, of k] show "async_reg t k = None" by blast
    qed
  qed
qed

text \<open>A caller that waits behind a holder, and the table after both are gone.\<close>

abbreviation demo_steps :: "(string, string) async_table \<Rightarrow> (string \<times> string, nat \<times> nat) callers \<Rightarrow> bool" where
  "demo_steps \<equiv> hold_steps async_checkout async_checkin async_set_locked async_cell new_async"

lemma demo_waiting:
  "\<exists>t. demo_steps t (Map.empty(0 \<mapsto> ((''loop'', ''u1''), (0, 0), Holding), 1 \<mapsto> ((''loop'', ''u1''), (0, 0), Waiting)))"
proof -
  let ?k = "(''loop'', ''u1'')"
  obtain t1 where t1: "async_checkout ?k new_async = ((0, 0), t1)" "\<not> snd (async_cell t1 (0, 0))"
    by (simp add: async_checkout_def new_async_def entry_heap async_cell_def)
  let ?t2 = "async_set_locked (0, 0) True t1"
  have t1_def: "t1 = snd (async_checkout ?k new_async)" using t1 by simp
  obtain t3 where t3: "async_checkout ?k ?t2 = ((0, 0), t3)"
    by (simp add: t1_def async_checkout_def new_async_def entry_heap async_set_locked_def)
  have "demo_steps t1 (Map.empty(0 \<mapsto> (?k, (0, 0), Waiting)))"
    by (rule hold_steps.step [OF hold_steps.start hold_step.enter]) (use t1 in auto)
  then have "demo_steps ?t2 (Map.empty(0 \<mapsto> (?k, (0, 0), Waiting), 0 \<mapsto> (?k, (0, 0), Holding)))"
    by (rule hold_steps.step [OF _ hold_step.acquire]) (use t1 in auto)
  then have "demo_steps t3 (Map.empty(0 \<mapsto> (?k, (0, 0), Waiting), 0 \<mapsto> (?k, (0, 0), Holding), 1 \<mapsto> (?k, (0, 0), Waiting)))"
    by (rule hold_steps.step [OF _ hold_step.enter]) (use t3 in auto)
  then show ?thesis by auto
qed

lemma async_hold_is_exclusive_witness:
  "\<exists>t. snd (async_cell t (0, 0)) \<and> async_reg t (''loop'', ''u1'') \<noteq> None"
proof -
  obtain t where t: "demo_steps t (Map.empty(0 \<mapsto> ((''loop'', ''u1''), (0, 0), Holding), 1 \<mapsto> ((''loop'', ''u1''), (0, 0), Waiting)))"
    using demo_waiting by blast
  let ?cs = "(Map.empty(0 \<mapsto> ((''loop'', ''u1''), (0, 0), Holding), 1 \<mapsto> ((''loop'', ''u1''), (0, 0), Waiting)))
    :: (string \<times> string, nat \<times> nat) callers"
  note e = async_hold_is_exclusive [OF t]
  have cs: "?cs 0 = Some ((''loop'', ''u1''), (0, 0), Holding)" "?cs 1 = Some ((''loop'', ''u1''), (0, 0), Waiting)"
    by simp_all
  have "snd (async_cell t (0, 0))" using e cs by blast
  moreover have "async_reg t (''loop'', ''u1'') \<noteq> None" using e cs by blast
  ultimately show ?thesis by blast
qed

text \<open>
  The thread-side table gives the same guarantee to worker threads: one entry per key in use,
  one holder, waiters blocked only by a holder, and no entry left for an idle key.
\<close>

theorem thread_hold_is_exclusive:
  assumes "hold_steps thread_checkout thread_checkin thread_set_locked thread_cell new_threads t cs"
  shows "(\<forall>p q k g h ph ph'. cs p = Some (k, g, ph) \<longrightarrow> cs q = Some (k, h, ph')
      \<longrightarrow> g = h \<and> (ph = Holding \<and> ph' = Holding \<longrightarrow> p = q))
    \<and> (\<forall>p k g. cs p = Some (k, g, Waiting) \<longrightarrow>
        snd (thread_cell t g) = (\<exists>q h. cs q = Some (k, h, Holding)))
    \<and> (\<forall>k. (od_get (tt_entries t) k \<noteq> None) = (\<exists>p h ph. cs p = Some (k, h, ph)))"
proof (intro conjI allI impI)
  note s = threads.serialized [OF assms threads_new]
  fix p q k g h ph ph'
  assume p: "cs p = Some (k, g, ph)" and q: "cs q = Some (k, h, ph')"
  show "g = h" by (rule s(1) [OF p q])
  show "p = q" if "ph = Holding \<and> ph' = Holding" using s(2) [of p k g q h] p q that by simp
next
  show "snd (thread_cell t g) = (\<exists>q h. cs q = Some (k, h, Holding))" if "cs p = Some (k, g, Waiting)" for p k g
    by (rule threads.serialized(3) [OF assms threads_new that])
  show "(od_get (tt_entries t) k \<noteq> None) = (\<exists>p h ph. cs p = Some (k, h, ph))" for k
    using threads.serialized(4) [OF assms threads_new] by (simp add: thread_reg_def)
qed

lemma thread_hold_is_exclusive_witness:
  "od_get (tt_entries (thread_checkin ''f'' 0 (snd (thread_checkout ''f'' new_threads)))) ''f'' = None"
proof -
  let ?t1 = "snd (thread_checkout ''f'' new_threads)"
  have t1: "thread_checkout ''f'' new_threads = (0, ?t1)"
    by (simp add: thread_checkout_def new_threads_def entry_heap)
  have "hold_steps thread_checkout thread_checkin thread_set_locked thread_cell new_threads ?t1
      (Map.empty(0 \<mapsto> (''f'', 0, Waiting)))"
    by (rule hold_steps.step [OF hold_steps.start hold_step.enter]) (use t1 in auto)
  then have "hold_steps thread_checkout thread_checkin thread_set_locked thread_cell new_threads
      (thread_checkin ''f'' 0 ?t1) (Map.empty(0 \<mapsto> (''f'', 0, Waiting), 0 := None))"
    by (rule hold_steps.step [OF _ hold_step.cancelled]) simp
  from thread_hold_is_exclusive [OF this] show ?thesis by fastforce
qed

end
