(* ===== verification/LoginThrottle.thy ===== *)
theory LoginThrottle
  imports Prelude
begin

text \<open>
  The failed-login counter behind \<^verbatim>\<open>POST /api/v1/auth/login/local\<close>: the shared decision
  (\<^verbatim>\<open>evaluate_check\<close>, \<^verbatim>\<open>backend/packages/harness/deerflow/persistence/login_throttle/base.py\<close>) and the
  in-process store (\<^verbatim>\<open>memory.py\<close>). Clock readings and durations are integer ticks, since the code
  only adds, subtracts and compares them. \<^verbatim>\<open>check\<close> awaits the policy between its probe and its
  decision; what other requests do to the store meanwhile is a function on the records.
\<close>

section \<open>Records and the shared decision\<close>

record throttle_record =
  tr_fail_count :: int
  tr_locked_at :: int
  tr_lock_duration :: int

definition counting :: "int \<Rightarrow> throttle_record" where
  "counting n = \<lparr>tr_fail_count = n, tr_locked_at = 0, tr_lock_duration = 0\<rparr>"

definition locked :: "throttle_record \<Rightarrow> bool" where
  "locked r \<longleftrightarrow> tr_locked_at r > 0"

definition expires_at :: "throttle_record \<Rightarrow> int" where
  "expires_at r = (if locked r then tr_locked_at r + tr_lock_duration r else 0)"

record check_decision =
  cd_remaining :: int
  cd_discard :: bool
  cd_commit_duration :: "int option"

definition evaluate_check :: "throttle_record \<Rightarrow> int \<Rightarrow> int \<Rightarrow> int \<Rightarrow> check_decision" where
  "evaluate_check r max_attempts lockout_seconds now =
     (if tr_fail_count r < max_attempts then \<lparr>cd_remaining = 0, cd_discard = False, cd_commit_duration = None\<rparr>
      else if \<not> locked r then \<lparr>cd_remaining = 0, cd_discard = False, cd_commit_duration = None\<rparr>
      else if expires_at r \<le> now then \<lparr>cd_remaining = 0, cd_discard = True, cd_commit_duration = None\<rparr>
      else if now < tr_locked_at r + lockout_seconds
        then \<lparr>cd_remaining = tr_locked_at r + lockout_seconds - now, cd_discard = False,
              cd_commit_duration = (if lockout_seconds \<noteq> tr_lock_duration r then Some lockout_seconds else None)\<rparr>
      else \<lparr>cd_remaining = 0, cd_discard = True, cd_commit_duration = None\<rparr>)"

section \<open>The store\<close>

type_synonym throttle = "(string, throttle_record) odict"

definition discard_record :: "string \<Rightarrow> throttle_record \<Rightarrow> throttle \<Rightarrow> throttle" where
  "discard_record ip snapshot rs = (if od_get rs ip = Some snapshot then od_del ip rs else rs)"

text \<open>\<^verbatim>\<open>check\<close> up to the policy read, and after it.\<close>

definition decide_check :: "int \<Rightarrow> int \<Rightarrow> int \<Rightarrow> string \<Rightarrow> throttle \<Rightarrow> int \<times> throttle" where
  "decide_check max_attempts lockout_seconds now ip rs =
     (case od_get rs ip of
        None \<Rightarrow> (0, rs)
      | Some r \<Rightarrow>
          let d = evaluate_check r max_attempts lockout_seconds now in
          (cd_remaining d,
           if cd_discard d then discard_record ip r rs
           else case cd_commit_duration d of
                  None \<Rightarrow> rs
                | Some l \<Rightarrow> if od_get rs ip = Some r then od_set ip (r\<lparr>tr_lock_duration := l\<rparr>) rs else rs))"

definition check_throttle ::
  "(int \<times> int) \<Rightarrow> (throttle \<Rightarrow> throttle) \<Rightarrow> int \<Rightarrow> string \<Rightarrow> throttle \<Rightarrow> int \<times> throttle" where
  "check_throttle policy meanwhile now ip rs =
     (if od_get rs ip = None then (0, rs)
      else decide_check (fst policy) (snd policy) now ip (meanwhile rs))"

definition sweep_if_full :: "nat \<Rightarrow> int \<Rightarrow> string \<Rightarrow> throttle \<Rightarrow> throttle" where
  "sweep_if_full max_tracked_ips now keep rs =
     (if length rs < max_tracked_ips then rs
      else let served = filter (\<lambda>(k, r). \<not> (k \<noteq> keep \<and> locked r \<and> expires_at r \<le> now)) rs in
           if length served < max_tracked_ips then served
           else let by_expiry = sort_key (\<lambda>kv. expires_at (snd kv)) (filter (\<lambda>kv. fst kv \<noteq> keep) served);
                    evicted = map fst (take (length by_expiry div 2) by_expiry)
                in foldl (\<lambda>acc k. od_del k acc) served evicted)"

definition failed_record :: "throttle_record option \<Rightarrow> int \<Rightarrow> int \<Rightarrow> int \<Rightarrow> throttle_record" where
  "failed_record old max_attempts lockout_seconds now =
     (case old of
        None \<Rightarrow> counting 1
      | Some r \<Rightarrow>
          let n = tr_fail_count r + 1 in
          if n < max_attempts then counting n
          else if locked r \<and> now < expires_at r then r\<lparr>tr_fail_count := n\<rparr>
          else \<lparr>tr_fail_count = n, tr_locked_at = now, tr_lock_duration = lockout_seconds\<rparr>)"

definition record_failure ::
  "nat \<Rightarrow> int \<Rightarrow> int \<Rightarrow> int \<Rightarrow> string \<Rightarrow> throttle \<Rightarrow> throttle_record \<times> throttle" where
  "record_failure max_tracked_ips max_attempts lockout_seconds now ip rs =
     (let rs1 = sweep_if_full max_tracked_ips now ip rs;
          r = failed_record (od_get rs1 ip) max_attempts lockout_seconds now
      in (r, od_set ip r rs1))"

definition reset_throttle :: "string \<Rightarrow> throttle \<Rightarrow> throttle" where
  "reset_throttle ip rs = od_del ip rs"

text \<open>A history: the effects of requests on the store, in the order in which they take effect.\<close>

datatype throttle_op =
    CheckOp string int int int
  | FailOp string int int int
  | ResetOp string

fun throttle_step :: "nat \<Rightarrow> throttle \<Rightarrow> throttle_op \<Rightarrow> throttle" where
  "throttle_step cap rs (CheckOp ip m l now) = snd (decide_check m l now ip rs)"
| "throttle_step cap rs (FailOp ip m l now) = snd (record_failure cap m l now ip rs)"
| "throttle_step cap rs (ResetOp ip) = reset_throttle ip rs"

abbreviation throttle_run :: "nat \<Rightarrow> throttle \<Rightarrow> throttle_op list \<Rightarrow> throttle" where
  "throttle_run cap \<equiv> foldl (throttle_step cap)"

section \<open>Lockout\<close>

lemmas throttle_ops = record_failure_def decide_check_def discard_record_def reset_throttle_def

lemma length_od_set_le: "length (od_set k v d) \<le> Suc (length d)"
  by (induction d) auto

lemma length_od_del_le: "length (od_del k d) \<le> length d"
  by (induction d) auto

lemma decide_check_wf: "od_wf rs \<Longrightarrow> od_wf (snd (decide_check m l now ip rs))"
  by (simp add: throttle_ops Let_def split: option.split)

lemma length_od_set_known: "od_get d k = Some x \<Longrightarrow> length (od_set k v d) = length d"
  by (induction d) (auto split: if_splits)

lemma decide_check_length: "length (snd (decide_check m l now ip rs)) \<le> length rs"
  by (simp add: throttle_ops Let_def length_od_del_le length_od_set_known split: option.split)

lemma throttle_step_length:
  assumes "length rs < cap"
  shows "length (throttle_step cap rs a) \<le> Suc (length rs)"
  using assms decide_check_length length_od_del_le [of _ rs]
  by (cases a) (auto simp: record_failure_def reset_throttle_def sweep_if_full_def Let_def length_od_set_le le_SucI)

text \<open>What a step does to the record of one address while the store has room.\<close>

lemma throttle_step_get:
  assumes "length rs < cap"
  shows "od_get (throttle_step cap rs (FailOp i m l now)) ip =
      (if i = ip then Some (failed_record (od_get rs ip) m l now) else od_get rs ip)"
    "i \<noteq> ip \<Longrightarrow> od_get (throttle_step cap rs (CheckOp i m l now)) ip = od_get rs ip"
    "od_get (throttle_step cap rs (ResetOp i)) ip = (if i = ip then None else od_get rs ip)"
  using assms
  by (simp_all add: throttle_ops sweep_if_full_def Let_def update_conv' delete_conv' split: option.split)

text \<open>One policy for everybody, and no successful login of the address.\<close>

definition under_policy :: "int \<Rightarrow> int \<Rightarrow> (int \<Rightarrow> bool) \<Rightarrow> string \<Rightarrow> throttle_op \<Rightarrow> bool" where
  "under_policy m l when ip a \<longleftrightarrow>
     (case a of CheckOp i m' l' now \<Rightarrow> i = ip \<longrightarrow> m' = m \<and> l' = l \<and> when now
      | FailOp i m' l' now \<Rightarrow> i = ip \<longrightarrow> m' = m \<and> l' = l \<and> when now
      | ResetOp i \<Rightarrow> i \<noteq> ip)"

definition failures_of :: "string \<Rightarrow> throttle_op list \<Rightarrow> nat" where
  "failures_of ip ops = length (filter (\<lambda>a. case a of FailOp i _ _ _ \<Rightarrow> i = ip | _ \<Rightarrow> False) ops)"

lemma failures_of_simps [simp]:
  "failures_of ip [] = 0"
  "failures_of ip (ops @ [a]) = (case a of FailOp i _ _ _ \<Rightarrow> if i = ip then Suc (failures_of ip ops) else failures_of ip ops
     | _ \<Rightarrow> failures_of ip ops)"
  by (simp_all add: failures_of_def split: throttle_op.split)

text \<open>The store has room whenever an operation takes effect.\<close>

definition has_room :: "nat \<Rightarrow> throttle \<Rightarrow> throttle_op list \<Rightarrow> bool" where
  "has_room cap rs ops \<longleftrightarrow> (\<forall>n < length ops. length (throttle_run cap rs (take n ops)) < cap)"

lemma has_room_snoc:
  "has_room cap rs (ops @ [a]) \<longleftrightarrow> has_room cap rs ops \<and> length (throttle_run cap rs ops) < cap"
  by (auto simp: has_room_def less_Suc_eq)

lemma has_room_append:
  "has_room cap rs (ops @ ops') \<longleftrightarrow> has_room cap rs ops \<and> has_room cap (throttle_run cap rs ops) ops'"
proof (induction ops' rule: rev_induct)
  case (snoc a ops')
  then show ?case unfolding append_assoc [symmetric] has_room_snoc by simp
qed (simp add: has_room_def)

lemma has_room_Cons [simp]:
  "has_room cap rs []" "has_room cap rs (a # ops) \<longleftrightarrow> length rs < cap \<and> has_room cap (throttle_step cap rs a) ops"
  using has_room_append [of cap rs "[a]" ops] by (simp_all add: has_room_def)

text \<open>Below the threshold an address is counted and never locked.\<close>

definition counted :: "nat \<Rightarrow> throttle_record option \<Rightarrow> bool" where
  "counted n r \<longleftrightarrow> r = (if n = 0 then None else Some (counting (int n)))"

lemma counting_phase:
  assumes "od_get rs ip = None" "has_room cap rs ops"
    "\<forall>a \<in> set ops. under_policy m l (\<lambda>_. True) ip a" "int (failures_of ip ops) < m"
  shows "counted (failures_of ip ops) (od_get (throttle_run cap rs ops) ip)"
  using assms
proof (induction ops rule: rev_induct)
  case Nil
  then show ?case by (simp add: counted_def)
next
  case (snoc a ops)
  let ?rs = "throttle_run cap rs ops"
  have len: "length ?rs < cap" using snoc.prems(2) by (simp add: has_room_snoc)
  have less: "int (failures_of ip ops) < m" using snoc.prems(4) by (auto split: throttle_op.splits if_splits)
  have IH: "counted (failures_of ip ops) (od_get ?rs ip)" using snoc.IH snoc.prems less by (simp add: has_room_snoc)
  show ?case
  proof (cases a)
    case (CheckOp i m' l' now)
    show ?thesis
    proof (cases "i = ip")
      case True
      then have "m' = m" using snoc.prems(3) CheckOp by (simp add: under_policy_def)
      then have "snd (decide_check m' l' now ip ?rs) = ?rs"
        using IH less by (cases "failures_of ip ops = 0") (simp_all add: counted_def decide_check_def evaluate_check_def counting_def)
      then show ?thesis using IH CheckOp True by simp
    next
      case False
      then show ?thesis using IH CheckOp throttle_step_get(2) [OF len False] by simp
    qed
  next
    case (FailOp i m' l' now)
    show ?thesis
    proof (cases "i = ip")
      case True
      then have m: "m' = m" using snoc.prems(3) FailOp by (simp add: under_policy_def)
      have "int (failures_of ip ops) + 1 < m" using snoc.prems(4) FailOp True by simp
      then have "failed_record (od_get ?rs ip) m' l' now = counting (int (Suc (failures_of ip ops)))"
        using IH m by (cases "failures_of ip ops = 0") (simp_all add: counted_def failed_record_def counting_def)
      then show ?thesis using FailOp True throttle_step_get(1) [OF len, of i m' l' now ip] by (simp add: counted_def)
    next
      case False
      then show ?thesis using IH FailOp throttle_step_get(1) [OF len, of i m' l' now ip] by simp
    qed
  next
    case (ResetOp i)
    then have "i \<noteq> ip" using snoc.prems(3) by (simp add: under_policy_def)
    then show ?thesis using IH ResetOp throttle_step_get(3) [OF len, of i ip] by simp
  qed
qed

text \<open>An active lock keeps its start and its sentence.\<close>

definition locked_since :: "int \<Rightarrow> int \<Rightarrow> int \<Rightarrow> throttle_record option \<Rightarrow> bool" where
  "locked_since m l start r \<longleftrightarrow>
     (\<exists>n. m \<le> n \<and> r = Some \<lparr>tr_fail_count = n, tr_locked_at = start, tr_lock_duration = l\<rparr>)"

lemma decide_locked:
  assumes "locked_since m l start (od_get rs ip)" "0 < start" "now < start + l"
  shows "decide_check m l now ip rs = (start + l - now, rs)"
  using assms by (auto simp: locked_since_def decide_check_def evaluate_check_def locked_def expires_at_def)

lemma decide_served:
  assumes "locked_since m l start (od_get rs ip)" "0 < start" "start + l \<le> now"
  shows "decide_check m l now ip rs = (0, od_del ip rs)"
  using assms by (auto simp: locked_since_def decide_check_def evaluate_check_def locked_def expires_at_def discard_record_def)

lemma failures_of_take: "failures_of ip (take n ops) \<le> failures_of ip ops"
  using arg_cong [OF append_take_drop_id [of n ops], of "failures_of ip"] by (simp add: failures_of_def del: append_take_drop_id)

lemma locked_step:
  assumes "locked_since m l start (od_get rs ip)" "0 < start" "length rs < cap"
    "under_policy m l (\<lambda>now. now < start + l) ip a"
  shows "locked_since m l start (od_get (throttle_step cap rs a) ip)"
proof (cases a)
  case (CheckOp i m' l' now)
  show ?thesis
  proof (cases "i = ip")
    case True
    then show ?thesis using CheckOp assms decide_locked [OF assms(1,2), of now] by (simp add: under_policy_def)
  qed (use CheckOp assms throttle_step_get(2) [OF assms(3)] in simp)
next
  case (FailOp i m' l' now)
  have "locked_since m l start (Some (failed_record (od_get rs ip) m l now))" if "now < start + l"
    using assms(1,2) that by (auto simp: locked_since_def failed_record_def locked_def expires_at_def Let_def)
  then show ?thesis
    using assms(4) throttle_step_get(1) [OF assms(3), of i m' l' now ip] assms(1) FailOp
    by (cases "i = ip") (simp_all add: under_policy_def)
next
  case (ResetOp i)
  then show ?thesis using assms throttle_step_get(3) [OF assms(3), of i ip] by (simp add: under_policy_def)
qed

lemma locked_phase:
  assumes "locked_since m l start (od_get rs ip)" "0 < start" "has_room cap rs ops"
    "\<forall>a \<in> set ops. under_policy m l (\<lambda>now. now < start + l) ip a"
  shows "locked_since m l start (od_get (throttle_run cap rs ops) ip)"
  using assms
proof (induction ops rule: rev_induct)
  case (snoc a ops)
  have "length (throttle_run cap rs ops) < cap" using snoc.prems(3) by (simp add: has_room_snoc)
  then show ?case using snoc has_room_snoc locked_step [of m l start "throttle_run cap rs ops" ip cap a] by simp
qed simp

text \<open>
  C33. Under a policy of \<open>m\<close> attempts and a lockout of \<open>l\<close>, an address that was unknown, failed
  \<open>m - 1\<close> times and fails again at \<open>start\<close> is locked out for exactly its sentence: up to \<open>start + l\<close>
  every check answers the exact remaining time, whatever checks and further failures of this or other
  addresses come in between, and from then on a check lets it in and forgets its record. Before that
  failure every check lets it in. This holds as long as the address does not log in successfully and
  the store has room for a new address whenever an operation takes effect.
\<close>

theorem throttle_locks_out:
  assumes "od_get rs ip = None" "has_room cap rs (before @ FailOp ip m l start # after)" "1 < m" "0 < start"
    "\<forall>a \<in> set before. under_policy m l (\<lambda>_. True) ip a" "int (failures_of ip before) = m - 1"
    "\<forall>a \<in> set after. under_policy m l (\<lambda>now. now < start + l) ip a"
  defines "free \<equiv> \<lambda>n. throttle_run cap rs (take n before)"
    and "shut \<equiv> throttle_run cap rs (before @ FailOp ip m l start # after)"
  shows "decide_check m l t ip (free n) = (0, free n)
    \<and> decide_check m l now ip shut = (if now < start + l then (start + l - now, shut) else (0, od_del ip shut))"
proof
  have room: "has_room cap rs before" "length (throttle_run cap rs before) < cap"
    "has_room cap (throttle_run cap rs (before @ [FailOp ip m l start])) after"
    using assms(2) has_room_append [of cap rs before "FailOp ip m l start # after"]
      has_room_append [of cap rs "before @ [FailOp ip m l start]" "after"] by (simp_all add: has_room_snoc)
  have counted: "counted (failures_of ip (take n before)) (od_get (free n) ip)" for n
    unfolding free_def
  proof (rule counting_phase [OF assms(1)])
    show "has_room cap rs (take n before)"
      using room(1) has_room_append [of cap rs "take n before" "drop n before"] by simp
    show "\<forall>a \<in> set (take n before). under_policy m l (\<lambda>_. True) ip a" using assms(5) by (auto dest: in_set_takeD)
    show "int (failures_of ip (take n before)) < m" using failures_of_take [of ip n before] assms(6) by simp
  qed
  have "int (failures_of ip (take n before)) < m" using failures_of_take [of ip n before] assms(6) by simp
  with counted show "decide_check m l t ip (free n) = (0, free n)"
    by (auto simp: counted_def decide_check_def evaluate_check_def counting_def split: if_splits)
  let ?one = "throttle_run cap rs (before @ [FailOp ip m l start])"
  have "od_get (throttle_run cap rs before) ip = Some (counting (m - 1))"
    using counted [of "length before"] assms(3,6) by (auto simp: counted_def free_def)
  then have "locked_since m l start (od_get ?one ip)"
    using throttle_step_get(1) [OF room(2), of ip m l start ip]
    by (simp add: failed_record_def counting_def locked_since_def locked_def)
  from locked_phase [OF this assms(4) room(3) assms(7)]
  have "locked_since m l start (od_get shut ip)" by (simp add: shut_def)
  from decide_locked [OF this assms(4)] decide_served [OF this assms(4)]
  show "decide_check m l now ip shut = (if now < start + l then (start + l - now, shut) else (0, od_del ip shut))" by simp
qed

text \<open>Two failures against a limit of two, with another address in between.\<close>

lemma throttle_locks_out_witness:
  "let shut = throttle_run 10 [] [FailOp ''a'' 2 300 90, FailOp ''b'' 2 300 95, FailOp ''a'' 2 300 100, FailOp ''a'' 2 300 120]
   in decide_check 2 300 150 ''a'' shut = (250, shut) \<and> decide_check 2 300 400 ''a'' shut = (0, od_del ''a'' shut)"
proof -
  let ?before = "[FailOp ''a'' 2 300 90, FailOp ''b'' 2 300 95]" and ?after = "[FailOp ''a'' 2 300 120]"
  have "has_room 10 [] (?before @ FailOp ''a'' 2 300 100 # ?after)"
    by (simp add: record_failure_def failed_record_def counting_def sweep_if_full_def Let_def locked_def expires_at_def)
  from throttle_locks_out [OF _ this] show ?thesis
    by (simp add: under_policy_def failures_of_def Let_def)
qed

section \<open>The capacity sweep\<close>

lemma foldl_od_del: "foldl (\<lambda>acc k. od_del k acc) d ks = filter (\<lambda>kv. fst kv \<notin> set ks) d"
proof (induction ks arbitrary: d)
  case (Cons k ks)
  then show ?case by (auto simp: AList.delete_eq intro!: filter_cong)
qed simp

text \<open>The three outcomes of the sweep.\<close>

definition served_out :: "int \<Rightarrow> string \<Rightarrow> throttle \<Rightarrow> throttle" where
  "served_out now keep rs = filter (\<lambda>(k, r). \<not> (k \<noteq> keep \<and> locked r \<and> expires_at r \<le> now)) rs"

definition cheapest_half :: "string \<Rightarrow> throttle \<Rightarrow> string list" where
  "cheapest_half keep rs =
     (let by_expiry = sort_key (\<lambda>kv. expires_at (snd kv)) (filter (\<lambda>kv. fst kv \<noteq> keep) rs)
      in map fst (take (length by_expiry div 2) by_expiry))"

lemma sweep_cases:
  "sweep_if_full cap now keep rs =
     (if length rs < cap then rs
      else if length (served_out now keep rs) < cap then served_out now keep rs
      else filter (\<lambda>kv. fst kv \<notin> set (cheapest_half keep (served_out now keep rs))) (served_out now keep rs))"
  by (simp add: sweep_if_full_def served_out_def cheapest_half_def Let_def foldl_od_del)

lemma sweep_subset: "set (sweep_if_full cap now keep rs) \<subseteq> set rs"
  by (auto simp: sweep_cases served_out_def)

lemma sweep_wf: "od_wf rs \<Longrightarrow> od_wf (sweep_if_full cap now keep rs)"
  by (simp add: sweep_cases served_out_def distinct_map_filter)

lemma cheapest_half_props:
  assumes "od_wf rs"
  shows "distinct (cheapest_half keep rs)" "set (cheapest_half keep rs) \<subseteq> set (od_keys rs) - {keep}"
    "length (cheapest_half keep rs) = length (filter (\<lambda>kv. fst kv \<noteq> keep) rs) div 2"
proof -
  let ?by = "sort_key (\<lambda>kv. expires_at (snd kv)) (filter (\<lambda>kv. fst kv \<noteq> keep) rs)"
  have "distinct (map fst (filter (\<lambda>kv. fst kv \<noteq> keep) rs))" using assms by (simp add: distinct_map_filter)
  then have "distinct (map fst ?by)" by (simp add: distinct_map)
  then have "distinct (take (length ?by div 2) (map fst ?by))" by (rule distinct_take)
  then show "distinct (cheapest_half keep rs)" by (simp add: cheapest_half_def Let_def take_map)
  show "set (cheapest_half keep rs) \<subseteq> set (od_keys rs) - {keep}"
    by (auto simp: cheapest_half_def Let_def dest!: in_set_takeD)
  show "length (cheapest_half keep rs) = length (filter (\<lambda>kv. fst kv \<noteq> keep) rs) div 2"
    by (simp add: cheapest_half_def Let_def)
qed

text \<open>A cheap record expires no later than any that stays.\<close>

lemma cheapest_half_order:
  assumes "od_wf rs" "(k, r) \<in> set rs" "k \<in> set (cheapest_half keep rs)"
    "(j, q) \<in> set rs" "j \<notin> set (cheapest_half keep rs)" "j \<noteq> keep"
  shows "expires_at r \<le> expires_at q"
proof -
  let ?by = "sort_key (\<lambda>kv. expires_at (snd kv)) (filter (\<lambda>kv. fst kv \<noteq> keep) rs)"
  let ?n = "length ?by div 2"
  obtain kv where kv: "kv \<in> set (take ?n ?by)" "fst kv = k"
    using assms(3) by (auto simp: cheapest_half_def Let_def)
  then have "kv \<in> set rs" by (auto dest: in_set_takeD)
  then have "kv = (k, r)" using assms(1,2) kv(2) by (metis eq_key_imp_eq_value prod.collapse)
  moreover have "(j, q) \<in> set (drop ?n ?by)"
  proof -
    have "(j, q) \<in> set ?by" using assms(4,6) by simp
    then have "(j, q) \<in> set (take ?n ?by) \<union> set (drop ?n ?by)"
      by (simp only: set_append [symmetric] append_take_drop_id)
    moreover have "(j, q) \<notin> set (take ?n ?by)" using assms(5) by (force simp: cheapest_half_def Let_def)
    ultimately show ?thesis by blast
  qed
  moreover have "sorted (map (\<lambda>kv. expires_at (snd kv)) (take ?n ?by @ drop ?n ?by))" by simp
  then have "\<forall>x \<in> set (take ?n ?by). \<forall>y \<in> set (drop ?n ?by). expires_at (snd x) \<le> expires_at (snd y)"
    unfolding map_append sorted_append set_map by blast
  ultimately show ?thesis using kv(1) by fastforce
qed

lemma sweep_length:
  assumes "od_wf rs" "length rs \<le> cap" "2 \<le> cap"
  shows "length (od_set keep r (sweep_if_full cap now keep rs)) \<le> cap"
proof (cases "length (sweep_if_full cap now keep rs) < cap")
  case True
  then show ?thesis using length_od_set_le [of keep r "sweep_if_full cap now keep rs"] by simp
next
  case False
  let ?s = "served_out now keep rs"
  have wf: "od_wf ?s" using assms(1) by (simp add: served_out_def distinct_map_filter)
  have full: "cap \<le> length ?s" and sw: "sweep_if_full cap now keep rs = filter (\<lambda>kv. fst kv \<notin> set (cheapest_half keep ?s)) ?s"
    using False by (auto simp: sweep_cases split: if_splits)
  have len: "length ?s \<le> cap" using assms(2) length_filter_le [of _ rs] le_trans unfolding served_out_def by blast
  note ch = cheapest_half_props [OF wf, of keep]
  have cut: "length (sweep_if_full cap now keep rs) + length (cheapest_half keep ?s) = length ?s"
    unfolding sw by (rule length_without_keys) (use wf ch in auto)
  show ?thesis
  proof (cases "keep \<in> set (od_keys ?s)")
    case True
    then obtain v where v: "(keep, v) \<in> set ?s" by auto
    then have "(keep, v) \<in> set (sweep_if_full cap now keep rs)" using ch(2) by (auto simp: sw)
    then have "od_get (sweep_if_full cap now keep rs) keep = Some v"
      using sweep_wf [OF assms(1)] by simp
    then show ?thesis using length_od_set_known [of _ keep v r] cut len by simp
  next
    case False
    then have "filter (\<lambda>kv. fst kv \<noteq> keep) ?s = ?s" by (force intro: filter_True)
    then have "length (cheapest_half keep ?s) = length ?s div 2" using ch(3) by simp
    then have "length (sweep_if_full cap now keep rs) < cap" using cut len full assms(3) by simp
    with \<open>\<not> length (sweep_if_full cap now keep rs) < cap\<close> show ?thesis by simp
  qed
qed

lemma throttle_step_ok:
  assumes "od_wf rs" "length rs \<le> cap" "2 \<le> cap"
  shows "od_wf (throttle_step cap rs a) \<and> length (throttle_step cap rs a) \<le> cap"
proof (cases a)
  case (CheckOp ip m l now)
  then show ?thesis using decide_check_wf [OF assms(1)] decide_check_length [of m l now ip rs] assms(2) by simp
next
  case (FailOp ip m l now)
  then show ?thesis using sweep_length [OF assms] sweep_wf [OF assms(1)] by (simp add: record_failure_def Let_def)
next
  case (ResetOp ip)
  then show ?thesis using assms(1,2) length_od_del_le [of ip rs] by (simp add: reset_throttle_def)
qed

text \<open>
  With room for at least two addresses, the store never tracks more than its limit, whatever
  failures, checks and successful logins it sees. And recording a failure is fair about what it
  forgets: the failing address keeps its own record, and another one loses its record only when
  the store is full and its lock was served, or when its lock ends no later than that of every
  other address that is kept.
\<close>

theorem throttle_stays_bounded:
  fixes ops :: "throttle_op list" and now :: int and ip :: string
  assumes "2 \<le> cap"
  defines "rs \<equiv> throttle_run cap [] ops"
  defines "kept \<equiv> sweep_if_full cap now ip rs"
  shows "length rs \<le> cap \<and> od_get kept ip = od_get rs ip
    \<and> (\<forall>k r. od_get rs k = Some r \<longrightarrow> od_get kept k = None \<longrightarrow> length rs = cap
        \<and> ((locked r \<and> expires_at r \<le> now)
           \<or> (\<forall>j q. j \<noteq> ip \<longrightarrow> od_get kept j = Some q \<longrightarrow> expires_at r \<le> expires_at q)))"
proof -
  have "od_wf (throttle_run cap [] ops) \<and> length (throttle_run cap [] ops) \<le> cap"
    by (induction ops rule: rev_induct) (use throttle_step_ok assms(1) in auto)
  then have wf: "od_wf rs" and len: "length rs \<le> cap" by (simp_all add: rs_def)
  have wfk: "od_wf kept" unfolding kept_def by (rule sweep_wf [OF wf])
  have wfs: "od_wf (served_out now ip rs)" using wf by (simp add: served_out_def distinct_map_filter)
  have mem: "(k, r) \<in> set kept \<longleftrightarrow> od_get kept k = Some r" "(k, r) \<in> set rs \<longleftrightarrow> od_get rs k = Some r" for k r
    using wf wfk by simp_all
  have own: "(ip, r) \<in> set kept \<longleftrightarrow> (ip, r) \<in> set rs" for r
    using cheapest_half_props(2) [OF wfs, of ip] by (auto simp: kept_def sweep_cases served_out_def)
  then have "od_get kept ip = od_get rs ip" unfolding mem by (metis not_Some_eq)
  moreover have "length rs = cap" "\<not> (locked r \<and> expires_at r \<le> now) \<Longrightarrow> j \<noteq> ip
      \<Longrightarrow> od_get kept j = Some q \<Longrightarrow> expires_at r \<le> expires_at q"
    if r: "od_get rs k = Some r" and gone: "od_get kept k = None" for k r j q
  proof -
    have k: "(k, r) \<in> set rs" "(k, r) \<notin> set kept" using r gone mem by simp_all
    show "length rs = cap" using k len by (auto simp: kept_def sweep_cases split: if_splits)
    assume j: "\<not> (locked r \<and> expires_at r \<le> now)" "j \<noteq> ip" "od_get kept j = Some q"
    have s: "(k, r) \<in> set (served_out now ip rs)" using k(1) j(1) by (auto simp: served_out_def)
    with k(2) have half: "kept = filter (\<lambda>kv. fst kv \<notin> set (cheapest_half ip (served_out now ip rs))) (served_out now ip rs)"
      by (auto simp: kept_def sweep_cases served_out_def split: if_splits)
    have "(j, q) \<in> set kept" using j(3) mem by simp
    then show "expires_at r \<le> expires_at q"
      using cheapest_half_order [OF wfs s, of ip j q] k(2) s j(2) by (auto simp: half)
  qed
  ultimately show ?thesis using len by (intro conjI allI impI) blast+
qed

lemma throttle_stays_bounded_witness:
  "length (throttle_run 2 [] [FailOp ''a'' 5 300 1, FailOp ''b'' 5 300 2, FailOp ''c'' 5 300 3]) \<le> 2"
  using throttle_stays_bounded [of 2 "[FailOp ''a'' 5 300 1, FailOp ''b'' 5 300 2, FailOp ''c'' 5 300 3]"] by blast

text \<open>With a limit of one the fallback has no half to evict, and the limit is exceeded.\<close>

lemma throttle_limit_of_one:
  "length (throttle_run 1 [] [FailOp ''a'' 5 300 1, FailOp ''b'' 5 300 2]) = 2"
  by (simp add: record_failure_def failed_record_def counting_def sweep_if_full_def Let_def locked_def expires_at_def)

end
