(* ===== verification/ToolCalls.thy ===== *)
theory ToolCalls
  imports Prelude
begin

text \<open>
  Provider messages that carry tool calls, and the helpers that keep their surfaces consistent
  (\<^verbatim>\<open>backend/packages/harness/deerflow/agents/middlewares/tool_call_metadata.py\<close>). A call can
  appear on four surfaces of an assistant message: the structured list, the list of calls that did
  not parse, the raw provider payload in \<^verbatim>\<open>additional_kwargs\<close>, and blocks of the content.
\<close>

type_synonym dict = "(string, pyval) odict"

record ai_msg =
  am_content :: pyval
  am_tool_calls :: "pyval list"
  am_invalid :: "pyval list"
  am_kwargs :: dict
  am_meta :: dict

record tool_msg =
  tm_call_id :: "string option"
  tm_name :: "string option"
  tm_content :: pyval
  tm_status :: string
  tm_rest :: pyval

datatype chat_msg = Ai ai_msg | Result tool_msg | Plain pyval

fun as_dict :: "pyval \<Rightarrow> dict option" where
  "as_dict (VDict d) = Some d"
| "as_dict _ = None"

text \<open>A value that is a non-empty string.\<close>

fun some_text :: "pyval option \<Rightarrow> string option" where
  "some_text (Some (VStr s)) = non_empty (Some s)"
| "some_text _ = None"

section \<open>The calls a message retains\<close>

definition content_id_keys :: "(string, string list) odict" where
  "content_id_keys =
     [(''tool_use'', [''id'']), (''function_call'', [''call_id'', ''id'']),
      (''custom_tool_call'', [''call_id'']), (''tool_call'', [''id'']), (''tool_call_chunk'', [''id''])]"

definition raw_tool_call_id :: "pyval \<Rightarrow> string option" where
  "raw_tool_call_id v = (case v of VDict d \<Rightarrow> some_text (od_get d ''id'') | _ \<Rightarrow> None)"

fun content_block_call_id :: "dict \<Rightarrow> string list \<Rightarrow> string option" where
  "content_block_call_id block [] = None"
| "content_block_call_id block (k # ks) =
     (case some_text (od_get block k) of Some v \<Rightarrow> Some v | None \<Rightarrow> content_block_call_id block ks)"

definition tool_call_block_id_keys :: "pyval \<Rightarrow> string list option" where
  "tool_call_block_id_keys block =
     (case block of
        VDict d \<Rightarrow> (case od_get d ''type'' of Some (VStr t) \<Rightarrow> od_get content_id_keys t | _ \<Rightarrow> None)
      | _ \<Rightarrow> None)"

definition block_entry :: "pyval \<Rightarrow> pyval \<times> bool \<times> string option" where
  "block_entry block =
     (case (tool_call_block_id_keys block, block) of
        (Some ks, VDict d) \<Rightarrow> (block, True, content_block_call_id d ks)
      | _ \<Rightarrow> (block, False, None))"

definition text_field :: "string \<Rightarrow> dict \<Rightarrow> string option" where
  "text_field k d = (case od_get d k of Some (VStr n) \<Rightarrow> Some n | _ \<Rightarrow> None)"

definition block_name :: "pyval \<Rightarrow> string option" where
  "block_name block = (case block of VDict d \<Rightarrow> text_field ''name'' d | _ \<Rightarrow> None)"

text \<open>
  Blocks without an id pair by name, in order, with the retained calls that no block with an id
  matched: \<open>budget\<close> is the \<^verbatim>\<open>Counter\<close> of those names.
\<close>

fun sync_blocks :: "string list \<Rightarrow> (string \<Rightarrow> nat) \<Rightarrow> (pyval \<times> bool \<times> string option) list \<Rightarrow> pyval list" where
  "sync_blocks ids budget [] = []"
| "sync_blocks ids budget ((block, is_call, call_id) # es) =
     (if \<not> is_call then block # sync_blocks ids budget es
      else case call_id of
        Some c \<Rightarrow> if c \<in> set ids then block # sync_blocks ids budget es else sync_blocks ids budget es
      | None \<Rightarrow>
          (case block_name block of
             Some n \<Rightarrow> if 0 < budget n then block # sync_blocks ids (budget(n := budget n - 1)) es
                       else sync_blocks ids budget es
           | None \<Rightarrow> sync_blocks ids budget es))"

definition sync_content :: "pyval \<Rightarrow> dict list \<Rightarrow> pyval" where
  "sync_content content retained =
     (case content of
        VList blocks \<Rightarrow>
          let ids = List.map_filter (\<lambda>c. some_text (od_get c ''id'')) retained;
              entries = map block_entry blocks;
              matched = filter (\<lambda>i. i \<in> set ids) (List.map_filter (\<lambda>(_, _, i). i) entries);
              unmatched = filter (\<lambda>c. case text_field ''id'' c of Some i \<Rightarrow> i \<notin> set matched | None \<Rightarrow> True) retained;
              names = List.map_filter (text_field ''name'') unmatched
          in VList (sync_blocks ids (count_list names) entries)
      | _ \<Rightarrow> content)"

definition sync_kwargs :: "string list \<Rightarrow> bool \<Rightarrow> dict \<Rightarrow> dict" where
  "sync_kwargs kept_ids no_calls kwargs =
     (let k1 = (case od_get kwargs ''tool_calls'' of
                  Some (VList raw) \<Rightarrow>
                    let synced = filter (\<lambda>r. case raw_tool_call_id r of None \<Rightarrow> False | Some i \<Rightarrow> i \<in> set kept_ids) raw
                    in if synced \<noteq> [] then od_set ''tool_calls'' (VList synced) kwargs
                       else od_del ''tool_calls'' kwargs
                | _ \<Rightarrow> kwargs)
      in if no_calls then od_del ''function_call'' k1 else k1)"

definition clone_with_tool_calls :: "ai_msg \<Rightarrow> dict list \<Rightarrow> pyval option \<Rightarrow> ai_msg" where
  "clone_with_tool_calls m tool_calls content =
     (let kept_ids = List.map_filter (\<lambda>c. some_text (od_get c ''id'')) tool_calls;
          invalid = List.map_filter as_dict (am_invalid m);
          source = (case content of Some c \<Rightarrow> c | None \<Rightarrow> am_content m);
          meta = am_meta m
      in m\<lparr>am_tool_calls := map VDict tool_calls,
           am_content := sync_content source (tool_calls @ invalid),
           am_kwargs := sync_kwargs kept_ids (tool_calls = []) (am_kwargs m),
           am_meta := (if tool_calls = [] \<and> od_get meta ''finish_reason'' = Some (VStr ''tool_calls'')
                       then od_set ''finish_reason'' (VStr ''stop'') meta else meta)\<rparr>)"

section \<open>What is left\<close>

lemma block_entry_cases:
  "block_entry b = (b, False, None) \<and> tool_call_block_id_keys b = None
   \<or> (\<exists>i. block_entry b = (b, True, i) \<and> tool_call_block_id_keys b \<noteq> None)"
  by (cases b) (auto simp: block_entry_def tool_call_block_id_keys_def split: option.split)

lemma block_entry_fst [simp]: "fst (block_entry b) = b"
  using block_entry_cases [of b] by auto

text \<open>With no id retained and no budget, no block of a call survives, and every other one does.\<close>

lemma sync_blocks_none:
  "sync_blocks [] (\<lambda>_. 0) (map block_entry bs) = filter (\<lambda>b. tool_call_block_id_keys b = None) bs"
proof (induction bs)
  case (Cons b bs)
  show ?case using block_entry_cases [of b] Cons.IH by (auto split: option.split)
qed simp

text \<open>
  Stripping a message whose calls all parsed leaves no call on any surface, so that no provider
  asks for a result.
\<close>

definition carries_call :: "ai_msg \<Rightarrow> bool" where
  "carries_call m \<longleftrightarrow> am_tool_calls m \<noteq> []
     \<or> (case am_content m of VList bs \<Rightarrow> \<exists>b \<in> set bs. tool_call_block_id_keys b \<noteq> None | _ \<Rightarrow> False)
     \<or> (case od_get (am_kwargs m) ''tool_calls'' of Some (VList raw) \<Rightarrow> True | _ \<Rightarrow> False)
     \<or> ''function_call'' \<in> set (od_keys (am_kwargs m))
     \<or> od_get (am_meta m) ''finish_reason'' = Some (VStr ''tool_calls'')"

lemma sync_kwargs_none:
  "(case od_get (sync_kwargs [] True kw) ''tool_calls'' of Some (VList raw) \<Rightarrow> True | _ \<Rightarrow> False) = False"
  "''function_call'' \<notin> set (od_keys (sync_kwargs [] True kw))"
proof -
  have k: "sync_kwargs [] True kw = od_del ''function_call''
      (case od_get kw ''tool_calls'' of Some (VList raw) \<Rightarrow> od_del ''tool_calls'' kw | _ \<Rightarrow> kw)"
    by (auto simp: sync_kwargs_def Let_def filter_empty_conv split: option.split pyval.split)
  show "(case od_get (sync_kwargs [] True kw) ''tool_calls'' of Some (VList raw) \<Rightarrow> True | _ \<Rightarrow> False) = False"
    unfolding k by (simp add: delete_conv' split: option.split pyval.split)
  show "''function_call'' \<notin> set (od_keys (sync_kwargs [] True kw))"
    unfolding k by (simp add: od_keys_del)
qed

lemma sync_content_none:
  "sync_content c [] = (case c of VList bs \<Rightarrow> VList (filter (\<lambda>b. tool_call_block_id_keys b = None) bs) | _ \<Rightarrow> c)"
proof (cases c)
  case (VList bs)
  have "count_list [] = (\<lambda>_ :: string. 0)" by (simp add: fun_eq_iff)
  then show ?thesis using sync_blocks_none by (simp add: VList sync_content_def List.map_filter_def Let_def)
qed (simp_all add: sync_content_def)

lemma strip_carries_no_call:
  assumes "List.map_filter as_dict (am_invalid m) = []"
  shows "\<not> carries_call (clone_with_tool_calls m [] content)"
proof -
  let ?s = "clone_with_tool_calls m [] content"
  have parts: "am_tool_calls ?s = []" "am_kwargs ?s = sync_kwargs [] True (am_kwargs m)"
    "am_content ?s = sync_content (case content of Some c \<Rightarrow> c | None \<Rightarrow> am_content m) []"
    "am_meta ?s = (if od_get (am_meta m) ''finish_reason'' = Some (VStr ''tool_calls'')
       then od_set ''finish_reason'' (VStr ''stop'') (am_meta m) else am_meta m)"
    using assms by (simp_all add: clone_with_tool_calls_def Let_def map_filter_simps)
  have "od_get (am_meta ?s) ''finish_reason'' \<noteq> Some (VStr ''tool_calls'')"
    by (simp add: parts update_conv')
  moreover have "\<not> (case am_content ?s of VList bs \<Rightarrow> \<exists>b \<in> set bs. tool_call_block_id_keys b \<noteq> None | _ \<Rightarrow> False)"
    unfolding parts sync_content_none by (simp split: pyval.split)
  ultimately show ?thesis
    using sync_kwargs_none [of "am_kwargs m"] by (simp add: carries_call_def parts(1,2))
qed

end
