(* ===== verification/DanglingCalls.thy ===== *)
theory DanglingCalls
  imports ToolCalls
begin

text \<open>
  Repair of the model-bound transcript
  (\<^verbatim>\<open>backend/packages/harness/deerflow/agents/middlewares/dangling_tool_call_middleware.py\<close>): calls
  without a usable id get a synthetic one, results are regrouped behind the message that issued
  their call, unanswered calls get a placeholder, orphan results are dropped, and names and
  arguments are made safe to serialize. \<open>loads\<close> and \<open>dumps\<close> are \<^verbatim>\<open>json.loads\<close> and \<^verbatim>\<open>json.dumps\<close>
  (\<open>None\<close> where they raise).
\<close>

section \<open>Names and ids\<close>

definition UNKNOWN_TOOL_NAME :: string where
  "UNKNOWN_TOOL_NAME = ''unknown_tool''"

definition MAX_RECOVERY_ERROR_DETAIL_LEN :: nat where
  "MAX_RECOVERY_ERROR_DETAIL_LEN = 500"

definition SYNTHETIC_PREFIX :: string where
  "SYNTHETIC_PREFIX = ''deerflow_synthetic_tool_call_''"

definition EMPTY_TOOL_NAME_ERROR :: string where
  "EMPTY_TOOL_NAME_ERROR = ''Tool call could not be executed because its name was missing or empty.''"

fun valid_text :: "pyval \<Rightarrow> bool" where
  "valid_text (VStr s) = (py_strip s \<noteq> [])"
| "valid_text _ = False"

fun opt_text :: "string option \<Rightarrow> pyval" where
  "opt_text None = VNone"
| "opt_text (Some s) = VStr s"

abbreviation field :: "string \<Rightarrow> dict \<Rightarrow> pyval" where
  "field k d \<equiv> od_get_default d k VNone"

definition tool_call_name :: "dict \<Rightarrow> pyval" where
  "tool_call_name c =
     (if valid_text (field ''name'' c) then field ''name'' c
      else case od_get c ''function'' of Some (VDict f) \<Rightarrow> field ''name'' f | _ \<Rightarrow> field ''name'' c)"

fun strip_text :: "pyval \<Rightarrow> string" where
  "strip_text (VStr s) = py_strip s"
| "strip_text _ = []"

definition names_can_pair :: "pyval \<Rightarrow> pyval \<Rightarrow> bool" where
  "names_can_pair c r \<longleftrightarrow> (if \<not> valid_text c \<or> \<not> valid_text r then True else strip_text c = strip_text r)"

definition normalize_tool_name :: "pyval \<Rightarrow> string" where
  "normalize_tool_name v = (if valid_text v then strip_text v else UNKNOWN_TOOL_NAME)"

section \<open>Synthetic ids\<close>

record claim =
  cl_original :: pyval
  cl_synthetic :: string
  cl_name :: pyval

definition synthetic_id :: "nat \<Rightarrow> string \<Rightarrow> nat \<Rightarrow> string" where
  "synthetic_id index source pos =
     SYNTHETIC_PREFIX @ show_nat index @ ''_'' @ source @ ''_'' @ show_nat pos"

fun relabel_from :: "nat \<Rightarrow> nat \<Rightarrow> string \<Rightarrow> pyval list \<Rightarrow> pyval list \<times> claim list" where
  "relabel_from pos index source [] = ([], [])"
| "relabel_from pos index source (v # vs) =
     (let (rest, assigned) = relabel_from (Suc pos) index source vs
      in case as_dict v of
           None \<Rightarrow> (v # rest, assigned)
         | Some d \<Rightarrow>
             if valid_text (field ''id'' d) then (v # rest, assigned)
             else (VDict (od_set ''id'' (VStr (synthetic_id index source pos)) d) # rest,
                   \<lparr>cl_original = field ''id'' d, cl_synthetic = synthetic_id index source pos,
                    cl_name = tool_call_name d\<rparr> # assigned))"

abbreviation relabel :: "nat \<Rightarrow> string \<Rightarrow> pyval list \<Rightarrow> pyval list \<times> claim list" where
  "relabel \<equiv> relabel_from 0"

text \<open>
  The views the serializer can reach: the raw payload only when both structured views are empty.
\<close>

definition relabel_ai :: "nat \<Rightarrow> ai_msg \<Rightarrow> ai_msg \<times> claim list" where
  "relabel_ai index m =
     (let (structured, a1) = relabel index ''call'' (am_tool_calls m);
          (invalid, a2) = relabel index ''invalid'' (am_invalid m);
          m1 = m\<lparr>am_tool_calls := structured, am_invalid := invalid\<rparr>
      in case od_get (am_kwargs m) ''tool_calls'' of
           Some (VList raw) \<Rightarrow>
             if am_tool_calls m = [] \<and> am_invalid m = []
             then (let (raw', a3) = relabel index ''raw'' raw
                   in (if a3 = [] then m1 else m1\<lparr>am_kwargs := od_set ''tool_calls'' (VList raw') (am_kwargs m)\<rparr>,
                       a1 @ a2 @ a3))
             else (m1, a1 @ a2)
         | _ \<Rightarrow> (m1, a1 @ a2))"

fun malformed_result_count :: "chat_msg list \<Rightarrow> nat" where
  "malformed_result_count [] = 0"
| "malformed_result_count (Ai m # ms) = 0"
| "malformed_result_count (Result t # ms) =
     (if valid_text (opt_text (tm_call_id t)) then 0 else 1) + malformed_result_count ms"
| "malformed_result_count (Plain p # ms) = malformed_result_count ms"

definition can_claim :: "tool_msg \<Rightarrow> claim \<Rightarrow> bool" where
  "can_claim t c \<longleftrightarrow> cl_original c = opt_text (tm_call_id t) \<and> names_can_pair (cl_name c) (opt_text (tm_name t))"

fun pop_first :: "('a \<Rightarrow> bool) \<Rightarrow> 'a list \<Rightarrow> ('a \<times> 'a list) option" where
  "pop_first P [] = None"
| "pop_first P (x # xs) =
     (if P x then Some (x, xs) else map_option (\<lambda>(y, ys). (y, x # ys)) (pop_first P xs))"

definition claim_synthetic_id :: "claim list \<Rightarrow> tool_msg \<Rightarrow> bool \<Rightarrow> (string \<times> claim list) option" where
  "claim_synthetic_id open_calls t positional =
     (if length (filter (can_claim t) open_calls) > 1 \<and> \<not> positional then None
      else map_option (\<lambda>(c, rest). (cl_synthetic c, rest)) (pop_first (can_claim t) open_calls))"

fun normalize_ids :: "nat \<Rightarrow> claim list \<Rightarrow> bool \<Rightarrow> chat_msg list \<Rightarrow> chat_msg list" where
  "normalize_ids index open_calls positional [] = []"
| "normalize_ids index open_calls positional (Ai m # ms) =
     (let (m', assigned) = relabel_ai index m
      in Ai m' # normalize_ids (Suc index) assigned (malformed_result_count ms = length assigned) ms)"
| "normalize_ids index open_calls positional (Result t # ms) =
     (if valid_text (opt_text (tm_call_id t)) then Result t # normalize_ids (Suc index) open_calls positional ms
      else case claim_synthetic_id open_calls t positional of
             None \<Rightarrow> Result t # normalize_ids (Suc index) open_calls positional ms
           | Some (i, open_calls') \<Rightarrow>
               Result (t\<lparr>tm_call_id := Some i\<rparr>) # normalize_ids (Suc index) open_calls' positional ms)"
| "normalize_ids index open_calls positional (Plain p # ms) =
     Plain p # normalize_ids (Suc index) open_calls positional ms"

definition normalize_tool_call_ids :: "chat_msg list \<Rightarrow> chat_msg list" where
  "normalize_tool_call_ids ms = normalize_ids 0 [] False ms"

section \<open>The calls of a message\<close>

definition parse_json_object :: "(string \<Rightarrow> pyval option) \<Rightarrow> pyval \<Rightarrow> dict option" where
  "parse_json_object loads v =
     (case v of VStr s \<Rightarrow> (case loads s of Some (VDict d) \<Rightarrow> Some d | _ \<Rightarrow> None) | _ \<Rightarrow> None)"

definition name_call :: "pyval \<Rightarrow> dict \<Rightarrow> dict" where
  "name_call original c =
     (let c1 = od_set ''name'' (VStr (normalize_tool_name original)) c
      in if valid_text original then c1 else od_set ''invalid_tool_name'' (VBool True) c1)"

definition structured_call :: "dict \<Rightarrow> dict" where
  "structured_call c = name_call (field ''name'' c) c"

definition raw_name :: "dict \<Rightarrow> pyval" where
  "raw_name c =
     (if truthy (field ''name'' c) then field ''name'' c
      else case od_get c ''function'' of Some (VDict f) \<Rightarrow> field ''name'' f | _ \<Rightarrow> field ''name'' c)"

definition raw_args :: "(string \<Rightarrow> pyval option) \<Rightarrow> dict \<Rightarrow> dict" where
  "raw_args loads c =
     (let args = od_get_default c ''args'' (VDict []);
          found = (if truthy args then args
                   else case od_get c ''function'' of
                          Some (VDict f) \<Rightarrow>
                            (case parse_json_object loads (field ''arguments'' f) of Some d \<Rightarrow> VDict d | None \<Rightarrow> VDict [])
                        | _ \<Rightarrow> args)
      in case found of VDict d \<Rightarrow> d | _ \<Rightarrow> [])"

definition raw_call :: "(string \<Rightarrow> pyval option) \<Rightarrow> dict \<Rightarrow> dict" where
  "raw_call loads c =
     name_call (raw_name c) [(''id'', field ''id'' c), (''name'', VNone), (''args'', VDict (raw_args loads c))]"

definition invalid_call :: "dict \<Rightarrow> dict" where
  "invalid_call c =
     name_call (field ''name'' c)
       [(''id'', field ''id'' c), (''name'', VNone), (''args'', VDict []), (''invalid'', VBool True),
        (''error'', field ''error'' c)]"

text \<open>
  The raw payload is iterated, whatever it is: the elements of a list, the keys of a dictionary and
  the characters of a string (which are no calls); a true number cannot be iterated.
\<close>

definition raw_payload :: "ai_msg \<Rightarrow> pyval" where
  "raw_payload m = field ''tool_calls'' (am_kwargs m)"

definition raw_items :: "ai_msg \<Rightarrow> pyval list" where
  "raw_items m = (case raw_payload m of VList raw \<Rightarrow> raw | _ \<Rightarrow> [])"

definition raw_fails :: "ai_msg \<Rightarrow> bool" where
  "raw_fails m \<longleftrightarrow> am_tool_calls m = [] \<and> am_invalid m = [] \<and> truthy (raw_payload m)
     \<and> (case raw_payload m of VBool _ \<Rightarrow> True | VInt _ \<Rightarrow> True | VFloat _ \<Rightarrow> True | _ \<Rightarrow> False)"

definition message_tool_calls :: "(string \<Rightarrow> pyval option) \<Rightarrow> ai_msg \<Rightarrow> dict list" where
  "message_tool_calls loads m =
     map structured_call (List.map_filter as_dict (am_tool_calls m))
     @ (if am_tool_calls m = [] \<and> am_invalid m = []
        then map (raw_call loads) (List.map_filter as_dict (raw_items m)) else [])
     @ map invalid_call (List.map_filter as_dict (am_invalid m))"

section \<open>Placeholders\<close>

definition write_file_advice :: string where
  "write_file_advice =
     ''[write_file failed before execution: the tool-call arguments were not valid JSON, '' @
     ''so no file was written. This often happens when the model tries to write a very '' @
     ''large Markdown file in a single tool call, especially when `content` contains '' @
     ''unescaped quotes, inline JSON, backslashes, or code fences. Do not retry the same '' @
     ''large `write_file` payload for this artifact; provide the report/content directly '' @
     ''as normal assistant text in your next response. If a file write is still needed '' @
     ''later, split the file into smaller sections instead of one large payload.''"

definition synthetic_content :: "dict \<Rightarrow> string" where
  "synthetic_content c =
     (if truthy (field ''invalid_tool_name'' c)
      then ''['' @ EMPTY_TOOL_NAME_ERROR @ '' Use one of the available tool names when retrying.]''
      else if truthy (field ''invalid'' c)
      then (let error = (case field ''error'' c of VStr e \<Rightarrow> take MAX_RECOVERY_ERROR_DETAIL_LEN e | _ \<Rightarrow> [])
            in if field ''name'' c = VStr ''write_file''
               then write_file_advice @ (if error \<noteq> [] then '' Parser error: '' @ error else []) @ '']''
               else if error \<noteq> []
               then ''[Tool call could not be executed because its arguments were invalid: '' @ error @ '']''
               else ''[Tool call could not be executed because its arguments were invalid.]'')
      else ''[Tool call was interrupted and did not return a result.]'')"

section \<open>Sanitized messages\<close>

definition normalize_arguments ::
  "(string \<Rightarrow> pyval option) \<Rightarrow> (dict \<Rightarrow> string option) \<Rightarrow> pyval \<Rightarrow> string" where
  "normalize_arguments loads dumps v =
     (case v of
        VDict d \<Rightarrow> (case dumps d of Some s \<Rightarrow> s | None \<Rightarrow> ''{}'')
      | VStr s \<Rightarrow> (if parse_json_object loads v \<noteq> None then s else ''{}'')
      | _ \<Rightarrow> ''{}'')"

text \<open>\<^verbatim>\<open>if d.get(k) != v: d[k] = v\<close>\<close>

definition put_text :: "string \<Rightarrow> string \<Rightarrow> dict \<Rightarrow> dict" where
  "put_text k v d = (if field k d \<noteq> VStr v then od_set k (VStr v) d else d)"

definition sanitize_structured :: "dict \<Rightarrow> dict" where
  "sanitize_structured c = put_text ''name'' (normalize_tool_name (field ''name'' c)) c"

definition sanitize_invalid ::
  "(string \<Rightarrow> pyval option) \<Rightarrow> (dict \<Rightarrow> string option) \<Rightarrow> dict \<Rightarrow> dict" where
  "sanitize_invalid loads dumps c =
     put_text ''args'' (normalize_arguments loads dumps (field ''args'' c))
       (put_text ''name'' (normalize_tool_name (field ''name'' c)) c)"

definition sanitize_raw ::
  "(string \<Rightarrow> pyval option) \<Rightarrow> (dict \<Rightarrow> string option) \<Rightarrow> dict \<Rightarrow> dict" where
  "sanitize_raw loads dumps c =
     (case od_get c ''function'' of
        Some (VDict f) \<Rightarrow>
          let f' = put_text ''arguments'' (normalize_arguments loads dumps (field ''arguments'' f))
                     (put_text ''name'' (normalize_tool_name (field ''name'' f)) f)
          in if f' \<noteq> f then od_set ''function'' (VDict f') c else c
      | _ \<Rightarrow> put_text ''name'' (normalize_tool_name (field ''name'' c)) c)"

fun on_dict :: "(dict \<Rightarrow> dict) \<Rightarrow> pyval \<Rightarrow> pyval" where
  "on_dict f (VDict d) = VDict (f d)"
| "on_dict f v = v"

definition sanitize_kwargs ::
  "(string \<Rightarrow> pyval option) \<Rightarrow> (dict \<Rightarrow> string option) \<Rightarrow> dict \<Rightarrow> dict" where
  "sanitize_kwargs loads dumps kwargs =
     (case od_get kwargs ''tool_calls'' of
        Some (VList raw) \<Rightarrow>
          let raw' = map (on_dict (sanitize_raw loads dumps)) raw
          in if raw' \<noteq> raw then od_set ''tool_calls'' (VList raw') kwargs else kwargs
      | _ \<Rightarrow> kwargs)"

definition sanitize_ai ::
  "(string \<Rightarrow> pyval option) \<Rightarrow> (dict \<Rightarrow> string option) \<Rightarrow> ai_msg \<Rightarrow> ai_msg" where
  "sanitize_ai loads dumps m =
     m\<lparr>am_tool_calls := map (on_dict sanitize_structured) (am_tool_calls m),
       am_invalid := map (on_dict (sanitize_invalid loads dumps)) (am_invalid m),
       am_kwargs := sanitize_kwargs loads dumps (am_kwargs m)\<rparr>"

section \<open>The patched transcript\<close>

type_synonym queues = "pyval \<Rightarrow> tool_msg list"

definition queue_results :: "chat_msg list \<Rightarrow> queues" where
  "queue_results ms i =
     List.map_filter (\<lambda>m. case m of Result t \<Rightarrow> if opt_text (tm_call_id t) = i then Some t else None | _ \<Rightarrow> None) ms"

definition reply_to :: "dict \<Rightarrow> tool_msg option \<Rightarrow> tool_msg" where
  "reply_to c existing =
     (case existing of
        Some t \<Rightarrow>
          if truthy (field ''invalid_tool_name'' c) \<and> \<not> valid_text (opt_text (tm_name t))
          then t\<lparr>tm_name := text_field ''name'' c\<rparr> else t
      | None \<Rightarrow> \<lparr>tm_call_id = text_field ''id'' c, tm_name = text_field ''name'' c,
                tm_content = VStr (synthetic_content c), tm_status = ''error'', tm_rest = VNone\<rparr>)"

fun answer_calls :: "dict list \<Rightarrow> queues \<Rightarrow> tool_msg list \<times> queues" where
  "answer_calls [] q = ([], q)"
| "answer_calls (c # cs) q =
     (let i = field ''id'' c
      in if \<not> truthy i then answer_calls cs q
         else let existing = (case q i of [] \<Rightarrow> None | t # _ \<Rightarrow> Some t);
                  (replies, q') = answer_calls cs (q(i := tl (q i)))
              in (reply_to c existing # replies, q'))"

fun emit ::
  "(string \<Rightarrow> pyval option) \<Rightarrow> (dict \<Rightarrow> string option) \<Rightarrow> queues \<Rightarrow> chat_msg list \<Rightarrow> chat_msg list" where
  "emit loads dumps q [] = []"
| "emit loads dumps q (Result t # ms) = emit loads dumps q ms"
| "emit loads dumps q (Plain p # ms) = Plain p # emit loads dumps q ms"
| "emit loads dumps q (Ai m # ms) =
     (let (replies, q') = answer_calls (message_tool_calls loads m) q
      in Ai (sanitize_ai loads dumps m) # map Result replies @ emit loads dumps q' ms)"

definition call_ids :: "(string \<Rightarrow> pyval option) \<Rightarrow> chat_msg list \<Rightarrow> pyval list" where
  "call_ids loads ms =
     concat (map (\<lambda>m. case m of Ai a \<Rightarrow> filter truthy (map (field ''id'') (message_tool_calls loads a)) | _ \<Rightarrow> []) ms)"

definition drop_count :: "(string \<Rightarrow> pyval option) \<Rightarrow> chat_msg list \<Rightarrow> nat" where
  "drop_count loads ms =
     length (filter (\<lambda>m. case m of Result t \<Rightarrow> opt_text (tm_call_id t) \<notin> set (call_ids loads ms) | _ \<Rightarrow> False) ms)"

datatype patch_error = NotIterable

text \<open>\<^verbatim>\<open>None\<close>: the transcript is sent as it is.\<close>

definition build_patched ::
  "(string \<Rightarrow> pyval option) \<Rightarrow> (dict \<Rightarrow> string option) \<Rightarrow> chat_msg list
     \<Rightarrow> patch_error + chat_msg list option" where
  "build_patched loads dumps messages =
     (let normalized = normalize_tool_call_ids messages;
          patched = emit loads dumps (queue_results normalized) normalized
      in if list_ex (\<lambda>m. case m of Ai a \<Rightarrow> raw_fails a | _ \<Rightarrow> False) normalized then Inl NotIterable
         else if patched = messages \<and> drop_count loads normalized = 0 then Inr None
         else Inr (Some patched))"

text \<open>\<^verbatim>\<open>wrap_model_call\<close>: the messages the provider is sent.\<close>

definition model_request ::
  "(string \<Rightarrow> pyval option) \<Rightarrow> (dict \<Rightarrow> string option) \<Rightarrow> chat_msg list \<Rightarrow> patch_error + chat_msg list" where
  "model_request loads dumps messages =
     map_sum id (\<lambda>p. case p of None \<Rightarrow> messages | Some patched \<Rightarrow> patched) (build_patched loads dumps messages)"

end
