(* ===== verification/DanglingProofs.thy ===== *)
theory DanglingProofs
  imports DanglingCalls
begin

text \<open>
  What the transcript sent to the provider satisfies: every call is answered exactly once, right
  behind the message that issued it and in its order, and nothing else is a result; messages are
  safe to serialize; recorded results are kept. A transcript that is already so passes unchanged.
\<close>

section \<open>Fields of rewritten dictionaries\<close>

lemma field_set: "field k (od_set j v d) = (if k = j then v else field k d)"
  by (simp add: od_get_default_set)

lemma field_simps [simp]:
  "field k ((j, v) # d) = (if k = j then v else field k d)"
  "field k [] = VNone"
  by (simp_all add: od_get_default_def)

lemma field_put_text: "field k (put_text j v d) = (if k = j then VStr v else field k d)"
  by (simp add: put_text_def field_set)

lemma put_text_id: "field k d = VStr v \<Longrightarrow> put_text k v d = d"
  by (simp add: put_text_def)

lemma map_filter_on_dict:
  "List.map_filter as_dict (map (on_dict f) vs) = map f (List.map_filter as_dict vs)"
proof (induction vs)
  case (Cons v vs)
  then show ?case by (cases v) (simp_all add: map_filter_simps)
qed (simp add: map_filter_simps)

lemma set_map_filter_dict: "d \<in> set (List.map_filter as_dict vs) \<longleftrightarrow> VDict d \<in> set vs"
proof -
  have "as_dict v = Some d \<longleftrightarrow> v = VDict d" for v by (cases v) auto
  then show ?thesis by (force simp: List.map_filter_def image_iff)
qed

section \<open>Names\<close>

lemma py_strip_start: "s \<noteq> [] \<Longrightarrow> \<not> is_space (hd s) \<Longrightarrow> py_strip s \<noteq> []"
proof -
  assume "s \<noteq> []" "\<not> is_space (hd s)"
  then have "dropWhile is_space s = s" by (cases s) auto
  moreover have "dropWhile is_space (rev s) \<noteq> []"
    using \<open>s \<noteq> []\<close> \<open>\<not> is_space (hd s)\<close> by (metis dropWhile_eq_Nil_conv hd_in_set set_rev)
  ultimately show ?thesis by (simp add: py_strip_def)
qed

lemma strip_start: "py_strip s \<noteq> [] \<Longrightarrow> \<not> is_space (hd (py_strip s))"
proof -
  assume ne: "py_strip s \<noteq> []"
  let ?t = "dropWhile is_space s"
  have t: "?t \<noteq> []" using ne unfolding py_strip_def by (metis dropWhile.simps(1) rev.simps(1))
  have "\<exists>ws. ?t = py_strip s @ ws"
    using takeWhile_dropWhile_id [of is_space "rev ?t"]
    by (metis py_strip_def rev_append rev_rev_ident)
  then have "hd ?t = hd (py_strip s)" using ne by (metis hd_append)
  then show ?thesis using hd_dropWhile [OF t] by simp
qed

lemma py_strip_idem: "py_strip (py_strip s) = py_strip s"
proof (cases "py_strip s = []")
  case True
  have "py_strip [] = []" by (simp add: py_strip_def)
  then show ?thesis by (simp only: True)
next
  case False
  let ?r = "dropWhile is_space (rev (dropWhile is_space s))"
  have r: "py_strip s = rev ?r" "?r \<noteq> []" using False by (simp_all add: py_strip_def)
  have "dropWhile is_space (py_strip s) = py_strip s"
    using strip_start [OF False] False by (cases "py_strip s") auto
  moreover have "dropWhile is_space ?r = ?r" by simp
  ultimately show ?thesis using r(1) by (simp add: py_strip_def)
qed

lemma normalize_tool_name_valid: "py_strip (normalize_tool_name v) \<noteq> []"
proof (cases "valid_text v")
  case True
  then show ?thesis by (cases v) (simp_all add: normalize_tool_name_def py_strip_idem)
next
  case False
  have "py_strip UNKNOWN_TOOL_NAME \<noteq> []"
    by (rule py_strip_start) (simp_all add: UNKNOWN_TOOL_NAME_def is_space_def)
  then show ?thesis using False by (simp add: normalize_tool_name_def)
qed

lemma normalize_tool_name_fix: "normalize_tool_name (VStr (normalize_tool_name v)) = normalize_tool_name v"
proof (cases "valid_text v")
  case True
  then show ?thesis by (cases v) (simp_all add: normalize_tool_name_def py_strip_idem)
next
  case False
  have "py_strip UNKNOWN_TOOL_NAME = UNKNOWN_TOOL_NAME"
    by (simp add: UNKNOWN_TOOL_NAME_def py_strip_def is_space_def)
  then show ?thesis using False by (simp add: normalize_tool_name_def UNKNOWN_TOOL_NAME_def)
qed

section \<open>Every call has a usable id\<close>

definition usable :: "dict \<Rightarrow> bool" where
  "usable c \<longleftrightarrow> valid_text (field ''id'' c)"

text \<open>The views of a message the serializer can reach have usable ids only.\<close>

definition ids_ok :: "ai_msg \<Rightarrow> bool" where
  "ids_ok m \<longleftrightarrow> (\<forall>d. VDict d \<in> set (am_tool_calls m) \<union> set (am_invalid m) \<longrightarrow> usable d)
     \<and> (am_tool_calls m = [] \<and> am_invalid m = [] \<longrightarrow> (\<forall>d. VDict d \<in> set (raw_items m) \<longrightarrow> usable d))"

lemma synthetic_usable: "py_strip (synthetic_id i s p) \<noteq> []"
  by (rule py_strip_start) (simp_all add: synthetic_id_def SYNTHETIC_PREFIX_def is_space_def)

lemma relabel_usable:
  "VDict d \<in> set (fst (relabel_from pos index source vs)) \<Longrightarrow> usable d"
proof (induction vs arbitrary: pos)
  case (Cons v vs)
  obtain rest assigned where r: "relabel_from (Suc pos) index source vs = (rest, assigned)" by fastforce
  have IH: "VDict d \<in> set rest \<Longrightarrow> usable d" using Cons.IH [of "Suc pos"] r by simp
  show ?case
    using Cons.prems r IH synthetic_usable [of index source pos]
    by (cases v) (auto simp: usable_def field_set split: if_splits)
qed simp

lemma relabel_length: "length (fst (relabel_from pos index source vs)) = length vs"
  by (induction vs arbitrary: pos) (auto simp: case_prod_beta Let_def split: option.split)

lemma relabel_none:
  "(\<forall>d. VDict d \<in> set vs \<longrightarrow> usable d) \<Longrightarrow> relabel_from pos index source vs = (vs, [])"
proof (induction vs arbitrary: pos)
  case (Cons v vs)
  then show ?case by (cases v) (auto simp: usable_def)
qed simp

lemma relabel_unchanged:
  "snd (relabel_from pos index source vs) = [] \<Longrightarrow> fst (relabel_from pos index source vs) = vs"
proof (induction vs arbitrary: pos)
  case (Cons v vs)
  obtain rest assigned where r: "relabel_from (Suc pos) index source vs = (rest, assigned)" by fastforce
  show ?case using Cons.prems Cons.IH [of "Suc pos"] by (auto simp: r split: option.splits if_splits)
qed simp

lemma relabel_ai_parts:
  "am_tool_calls (fst (relabel_ai i m)) = fst (relabel i ''call'' (am_tool_calls m))"
  "am_invalid (fst (relabel_ai i m)) = fst (relabel i ''invalid'' (am_invalid m))"
  "am_tool_calls m = [] \<Longrightarrow> am_invalid m = [] \<Longrightarrow>
     raw_items (fst (relabel_ai i m)) = fst (relabel i ''raw'' (raw_items m))"
proof -
  show "am_tool_calls (fst (relabel_ai i m)) = fst (relabel i ''call'' (am_tool_calls m))"
    by (simp add: relabel_ai_def case_prod_beta Let_def split: option.split pyval.split)
  show "am_invalid (fst (relabel_ai i m)) = fst (relabel i ''invalid'' (am_invalid m))"
    by (simp add: relabel_ai_def case_prod_beta Let_def split: option.split pyval.split)
  assume none: "am_tool_calls m = []" "am_invalid m = []"
  show "raw_items (fst (relabel_ai i m)) = fst (relabel i ''raw'' (raw_items m))"
  proof (cases "od_get (am_kwargs m) ''tool_calls''")
    case None
    then show ?thesis by (simp add: relabel_ai_def none raw_items_def raw_payload_def od_get_default_def)
  next
    case (Some v)
    show ?thesis
    proof (cases v)
      case (VList raw)
      then show ?thesis using Some none relabel_unchanged [of 0 i "''raw''" raw]
        by (simp add: relabel_ai_def raw_items_def raw_payload_def od_get_default_def update_conv' case_prod_beta Let_def)
    qed (use Some none in \<open>simp_all add: relabel_ai_def raw_items_def raw_payload_def od_get_default_def\<close>)
  qed
qed

lemma relabel_ai_ids_ok: "ids_ok (fst (relabel_ai i m))"
  unfolding ids_ok_def
proof (intro conjI allI impI)
  show "usable d" if "VDict d \<in> set (am_tool_calls (fst (relabel_ai i m))) \<union> set (am_invalid (fst (relabel_ai i m)))" for d
    using that relabel_usable unfolding relabel_ai_parts(1,2) by blast
  fix d
  assume none: "am_tool_calls (fst (relabel_ai i m)) = [] \<and> am_invalid (fst (relabel_ai i m)) = []"
    and d: "VDict d \<in> set (raw_items (fst (relabel_ai i m)))"
  have "am_tool_calls m = []" "am_invalid m = []"
    using none relabel_length [of 0 i "''call''" "am_tool_calls m"] relabel_length [of 0 i "''invalid''" "am_invalid m"]
    by (simp_all add: relabel_ai_parts(1,2))
  then have "VDict d \<in> set (fst (relabel i ''raw'' (raw_items m)))" using d by (simp add: relabel_ai_parts(3))
  then show "usable d" by (rule relabel_usable)
qed

lemma relabel_ai_fix:
  assumes "ids_ok m"
  shows "relabel_ai i m = (m, [])"
proof -
  have "relabel i ''call'' (am_tool_calls m) = (am_tool_calls m, [])"
    "relabel i ''invalid'' (am_invalid m) = (am_invalid m, [])"
    using assms by (auto simp: ids_ok_def intro!: relabel_none)
  moreover have "relabel i ''raw'' raw = (raw, [])"
    if "od_get (am_kwargs m) ''tool_calls'' = Some (VList raw)" "am_tool_calls m = []" "am_invalid m = []" for raw
    using assms that by (auto simp: ids_ok_def raw_items_def raw_payload_def od_get_default_def intro!: relabel_none)
  ultimately show ?thesis by (simp add: relabel_ai_def split: option.split pyval.split)
qed

lemma normalize_ids_ok: "Ai m \<in> set (normalize_ids i cs p ms) \<Longrightarrow> ids_ok m"
proof (induction i cs p ms rule: normalize_ids.induct)
  case (2 i cs p a ms)
  obtain a' as where r: "relabel_ai i a = (a', as)" by fastforce
  then have "ids_ok a'" using relabel_ai_ids_ok [of i a] by simp
  then show ?case using 2 r by auto
next
  case (3 i cs p t ms)
  then show ?case by (auto split: if_splits option.splits)
qed auto

section \<open>Sanitizing keeps the calls\<close>

abbreviation flagged :: "dict \<Rightarrow> bool" where
  "flagged c \<equiv> truthy (field ''invalid_tool_name'' c)"

text \<open>The same call, with a name that is at least as good.\<close>

definition same_call :: "dict \<Rightarrow> dict \<Rightarrow> bool" where
  "same_call c c' \<longleftrightarrow> field ''id'' c' = field ''id'' c \<and> (flagged c' \<longrightarrow> flagged c)"

lemma name_call_fields:
  "field ''id'' (name_call v c) = field ''id'' c"
  "field ''name'' (name_call v c) = VStr (normalize_tool_name v)"
  "flagged (name_call v c) \<longleftrightarrow> \<not> valid_text v \<or> flagged c"
  by (simp_all add: name_call_def field_set Let_def)

lemma normalized_valid: "valid_text (VStr (normalize_tool_name v))"
  using normalize_tool_name_valid by simp

lemma same_structured: "same_call (structured_call c) (structured_call (sanitize_structured c))"
  using normalized_valid
  by (simp add: same_call_def structured_call_def sanitize_structured_def name_call_fields field_put_text)

lemma same_invalid: "same_call (invalid_call c) (invalid_call (sanitize_invalid loads dumps c))"
  using normalized_valid
  by (simp add: same_call_def invalid_call_def sanitize_invalid_def name_call_fields field_put_text)

lemma raw_function_fields:
  "od_get c ''function'' = Some (VDict f) \<Longrightarrow>
    field k (sanitize_raw loads dumps c) = (if k = ''function'' then field k (sanitize_raw loads dumps c) else field k c)"
  by (simp add: sanitize_raw_def Let_def field_set)

lemma raw_name_sanitized:
  "valid_text (raw_name (sanitize_raw loads dumps c)) \<or> raw_name (sanitize_raw loads dumps c) = raw_name c"
proof (cases "\<exists>f. od_get c ''function'' = Some (VDict f)")
  case True
  then obtain f where f: "od_get c ''function'' = Some (VDict f)" by blast
  let ?f = "put_text ''arguments'' (normalize_arguments loads dumps (field ''arguments'' f))
    (put_text ''name'' (normalize_tool_name (field ''name'' f)) f)"
  have "od_get (sanitize_raw loads dumps c) ''function'' = Some (VDict ?f)"
    using f by (simp add: sanitize_raw_def Let_def update_conv')
  moreover have "field ''name'' (sanitize_raw loads dumps c) = field ''name'' c"
    using raw_function_fields [OF f, where k = "''name''"] by simp
  moreover have "field ''name'' ?f = VStr (normalize_tool_name (field ''name'' f))" by (simp add: field_put_text)
  ultimately show ?thesis using normalized_valid f by (simp add: raw_name_def)
next
  case False
  then have s: "sanitize_raw loads dumps c = put_text ''name'' (normalize_tool_name (field ''name'' c)) c"
    by (simp add: sanitize_raw_def split: option.split pyval.split)
  have "truthy (VStr (normalize_tool_name (field ''name'' c)))"
    using normalize_tool_name_valid [of "field ''name'' c"] by (auto simp: py_strip_def)
  then have "valid_text (raw_name (sanitize_raw loads dumps c))"
    using normalized_valid unfolding s by (simp add: raw_name_def field_put_text)
  then show ?thesis ..
qed

lemma same_raw: "same_call (raw_call loads c) (raw_call loads (sanitize_raw loads dumps c))"
proof -
  have "field ''id'' (sanitize_raw loads dumps c) = field ''id'' c"
    by (simp add: sanitize_raw_def Let_def field_set field_put_text split: option.split pyval.split)
  then show ?thesis
    using raw_name_sanitized [of loads dumps c]
    by (auto simp: same_call_def raw_call_def name_call_fields)
qed

lemma sanitize_ai_raw:
  "raw_items (sanitize_ai loads dumps m) = map (on_dict (sanitize_raw loads dumps)) (raw_items m)"
proof (cases "od_get (am_kwargs m) ''tool_calls''")
  case (Some v)
  then show ?thesis
    by (cases v) (simp_all add: raw_items_def raw_payload_def sanitize_ai_def sanitize_kwargs_def od_get_default_def update_conv' Let_def)
qed (simp add: raw_items_def raw_payload_def sanitize_ai_def sanitize_kwargs_def od_get_default_def)

lemma sanitize_ai_empty:
  "am_tool_calls (sanitize_ai loads dumps m) = [] \<longleftrightarrow> am_tool_calls m = []"
  "am_invalid (sanitize_ai loads dumps m) = [] \<longleftrightarrow> am_invalid m = []"
  by (simp_all add: sanitize_ai_def)

lemma sanitized_calls:
  "list_all2 same_call (message_tool_calls loads m) (message_tool_calls loads (sanitize_ai loads dumps m))"
proof -
  have "list_all2 same_call (map f cs) (map f (map g cs))" if "\<And>c. same_call (f c) (f (g c))" for f g and cs :: "dict list"
    using that by (induction cs) simp_all
  then show ?thesis
    unfolding message_tool_calls_def sanitize_ai_empty sanitize_ai_raw map_filter_on_dict
    using same_structured same_raw same_invalid
    by (auto simp: sanitize_ai_def map_filter_on_dict intro!: list_all2_appendI)
qed

section \<open>Answered transcripts\<close>

definition answers :: "dict \<Rightarrow> tool_msg \<Rightarrow> bool" where
  "answers c t \<longleftrightarrow> opt_text (tm_call_id t) = field ''id'' c
     \<and> (flagged c \<longrightarrow> valid_text (opt_text (tm_name t)))"

definition open_calls_of :: "(string \<Rightarrow> pyval option) \<Rightarrow> ai_msg \<Rightarrow> dict list" where
  "open_calls_of loads m = filter (\<lambda>c. truthy (field ''id'' c)) (message_tool_calls loads m)"

text \<open>Every message is followed by the results of its calls, and there are no others.\<close>

inductive answered :: "(string \<Rightarrow> pyval option) \<Rightarrow> chat_msg list \<Rightarrow> bool" for loads where
  none: "answered loads []"
| plain: "answered loads ms \<Longrightarrow> answered loads (Plain p # ms)"
| ai: "list_all2 answers (open_calls_of loads m) replies \<Longrightarrow> answered loads ms
    \<Longrightarrow> answered loads (Ai m # map Result replies @ ms)"

lemma answers_same: "same_call c c' \<Longrightarrow> answers c t \<Longrightarrow> answers c' t"
  by (simp add: same_call_def answers_def)

lemma list_all2_filter2:
  "list_all2 R xs ys \<Longrightarrow> (\<And>x y. R x y \<Longrightarrow> P x = Q y) \<Longrightarrow> list_all2 R (filter P xs) (filter Q ys)"
  by (induction xs ys rule: list_all2_induct) auto

lemma answered_sanitized:
  assumes "list_all2 answers (open_calls_of loads m) replies"
  shows "list_all2 answers (open_calls_of loads (sanitize_ai loads dumps m)) replies"
proof -
  have "list_all2 same_call (open_calls_of loads m) (open_calls_of loads (sanitize_ai loads dumps m))"
    unfolding open_calls_of_def by (rule list_all2_filter2 [OF sanitized_calls]) (simp add: same_call_def)
  then show ?thesis using assms answers_same by (auto simp: list_all2_conv_all_nth)
qed

text \<open>The calls of a message whose ids are usable.\<close>

lemma message_call_ids:
  assumes "ids_ok m" "c \<in> set (message_tool_calls loads m)"
  shows "usable c"
proof -
  have "usable c" if "c = f d" "\<And>d. field ''id'' (f d) = field ''id'' d" "usable d" for f d
    using that by (simp add: usable_def)
  moreover have "field ''id'' (structured_call d) = field ''id'' d" "field ''id'' (raw_call loads d) = field ''id'' d"
    "field ''id'' (invalid_call d) = field ''id'' d" for d
    by (simp_all add: structured_call_def raw_call_def invalid_call_def name_call_fields)
  ultimately show ?thesis
    using assms unfolding message_tool_calls_def ids_ok_def
    by (auto simp: set_map_filter_dict split: if_splits)
qed

lemma message_call_names:
  "c \<in> set (message_tool_calls loads m) \<Longrightarrow> valid_text (field ''name'' c)"
  using normalized_valid
  by (auto simp: message_tool_calls_def structured_call_def raw_call_def invalid_call_def name_call_fields
      split: if_splits)

lemma usable_truthy: "usable c \<Longrightarrow> truthy (field ''id'' c)"
  by (cases "field ''id'' c") (auto simp: usable_def py_strip_def)

lemma open_calls_all: "ids_ok m \<Longrightarrow> open_calls_of loads m = message_tool_calls loads m"
  unfolding open_calls_of_def using message_call_ids usable_truthy by (auto intro!: filter_True)

lemma valid_text_field: "valid_text (field k c) \<Longrightarrow> opt_text (text_field k c) = field k c"
  by (cases "od_get c k")
    (auto simp: text_field_def od_get_default_def split: pyval.splits)

section \<open>Answering\<close>

definition keyed :: "queues \<Rightarrow> bool" where
  "keyed q \<longleftrightarrow> (\<forall>i. \<forall>t \<in> set (q i). opt_text (tm_call_id t) = i)"

lemma reply_answers:
  assumes "usable c" "valid_text (field ''name'' c)" "\<And>t. e = Some t \<Longrightarrow> opt_text (tm_call_id t) = field ''id'' c"
  shows "answers c (reply_to c e)"
proof (cases e)
  case None
  then show ?thesis using assms(1,2) by (simp add: reply_to_def answers_def usable_def valid_text_field)
next
  case (Some t)
  then show ?thesis using assms by (auto simp: reply_to_def answers_def valid_text_field)
qed

lemma keyed_pop: "keyed q \<Longrightarrow> keyed (q(i := tl (q i)))"
  unfolding keyed_def by (auto dest: in_set_tlD)

lemma answer_calls_answers:
  assumes "\<forall>c \<in> set cs. usable c \<and> valid_text (field ''name'' c)" "keyed q"
  shows "list_all2 answers cs (fst (answer_calls cs q)) \<and> keyed (snd (answer_calls cs q))"
  using assms
proof (induction cs arbitrary: q)
  case (Cons c cs)
  let ?i = "field ''id'' c"
  let ?e = "case q ?i of [] \<Rightarrow> None | t # _ \<Rightarrow> Some t"
  obtain rs q' where r: "answer_calls cs (q(?i := tl (q ?i))) = (rs, q')" by fastforce
  have "answers c (reply_to c ?e)"
    by (rule reply_answers) (use Cons.prems in \<open>auto simp: keyed_def split: list.splits\<close>)
  moreover have "list_all2 answers cs rs \<and> keyed q'"
    using Cons.IH [OF _ keyed_pop [OF Cons.prems(2), of ?i]] Cons.prems(1) unfolding r by simp
  moreover have "answer_calls (c # cs) q = (reply_to c ?e # rs, q')"
    using Cons.prems(1) usable_truthy [of c] r by (simp add: Let_def)
  ultimately show ?case by simp
qed simp

lemma emit_answered:
  assumes "\<And>m. Ai m \<in> set ms \<Longrightarrow> ids_ok m" "keyed q"
  shows "answered loads (emit loads dumps q ms)"
  using assms
proof (induction loads dumps q ms rule: emit.induct)
  case (4 loads dumps q m ms)
  obtain rs q' where r: "answer_calls (message_tool_calls loads m) q = (rs, q')" by fastforce
  have "\<forall>c \<in> set (message_tool_calls loads m). usable c \<and> valid_text (field ''name'' c)"
    using message_call_ids [of m] message_call_names 4(2) by auto
  then have "list_all2 answers (message_tool_calls loads m) rs" "keyed q'"
    using answer_calls_answers [OF _ 4(3)] r by (metis fst_conv, metis snd_conv)
  moreover from this have "list_all2 answers (open_calls_of loads (sanitize_ai loads dumps m)) rs"
    using answered_sanitized open_calls_all 4(2) by simp
  ultimately show ?case using 4 r by (auto intro!: answered.ai)
qed (auto intro: answered.intros)

lemma queue_results_keyed: "keyed (queue_results ms)"
  by (auto simp: keyed_def queue_results_def List.map_filter_def split: chat_msg.splits if_splits)

section \<open>Sanitized messages stay as they are\<close>

text \<open>What the repair needs of the JSON functions: what it writes parses back as an object.\<close>

definition json_objects :: "(string \<Rightarrow> pyval option) \<Rightarrow> (dict \<Rightarrow> string option) \<Rightarrow> bool" where
  "json_objects loads dumps \<longleftrightarrow> (\<exists>d. loads ''{}'' = Some (VDict d))
     \<and> (\<forall>d s. dumps d = Some s \<longrightarrow> (\<exists>e. loads s = Some (VDict e)))"

definition clean :: "(string \<Rightarrow> pyval option) \<Rightarrow> (dict \<Rightarrow> string option) \<Rightarrow> ai_msg \<Rightarrow> bool" where
  "clean loads dumps m \<longleftrightarrow> sanitize_ai loads dumps m = m \<and> ids_ok m \<and> \<not> raw_fails m"

lemma normalize_arguments_fix:
  assumes "json_objects loads dumps"
  shows "normalize_arguments loads dumps (VStr (normalize_arguments loads dumps v)) = normalize_arguments loads dumps v"
proof -
  obtain d0 where d0: "loads ''{}'' = Some (VDict d0)" using assms by (auto simp: json_objects_def)
  have dumped: "\<exists>e. loads s = Some (VDict e)" if "dumps d = Some s" for d s
    using assms that by (auto simp: json_objects_def)
  show ?thesis
  proof (cases v)
    case (VDict d)
    then show ?thesis using d0 dumped [of d]
      by (cases "dumps d") (auto simp: normalize_arguments_def parse_json_object_def)
  qed (use d0 in \<open>auto simp: normalize_arguments_def parse_json_object_def split: option.split pyval.split\<close>)
qed

lemma sanitize_structured_fix: "sanitize_structured (sanitize_structured c) = sanitize_structured c"
  unfolding sanitize_structured_def by (rule put_text_id) (simp add: field_put_text normalize_tool_name_fix)

lemma put_name_args_fix:
  assumes "json_objects loads dumps" "k \<noteq> ''name''"
  defines "g \<equiv> \<lambda>c. put_text k (normalize_arguments loads dumps (field k c))
    (put_text ''name'' (normalize_tool_name (field ''name'' c)) c)"
  shows "g (g c) = g c"
proof -
  have n: "field ''name'' (g c) = VStr (normalize_tool_name (field ''name'' c))"
    "field k (g c) = VStr (normalize_arguments loads dumps (field k c))"
    using assms(2) by (simp_all add: g_def field_put_text)
  have "put_text ''name'' (normalize_tool_name (field ''name'' (g c))) (g c) = g c"
    by (rule put_text_id) (simp only: n normalize_tool_name_fix)
  moreover have "put_text k (normalize_arguments loads dumps (field k (g c))) (g c) = g c"
    by (rule put_text_id) (simp only: n normalize_arguments_fix [OF assms(1)])
  ultimately show ?thesis by (subst g_def) simp
qed

lemma sanitize_invalid_fix:
  "json_objects loads dumps \<Longrightarrow>
    sanitize_invalid loads dumps (sanitize_invalid loads dumps c) = sanitize_invalid loads dumps c"
  unfolding sanitize_invalid_def by (rule put_name_args_fix) simp_all

lemma sanitize_raw_fix:
  assumes "json_objects loads dumps"
  shows "sanitize_raw loads dumps (sanitize_raw loads dumps c) = sanitize_raw loads dumps c"
proof (cases "\<exists>f. od_get c ''function'' = Some (VDict f)")
  case True
  then obtain f where f: "od_get c ''function'' = Some (VDict f)" by blast
  let ?g = "\<lambda>f. put_text ''arguments'' (normalize_arguments loads dumps (field ''arguments'' f))
    (put_text ''name'' (normalize_tool_name (field ''name'' f)) f)"
  have g: "?g (?g f) = ?g f" by (rule put_name_args_fix [OF assms]) simp
  have "od_get (sanitize_raw loads dumps c) ''function'' = Some (VDict (?g f))"
    using f by (simp add: sanitize_raw_def Let_def update_conv')
  then show ?thesis using g by (subst sanitize_raw_def) simp
next
  case False
  then have s: "sanitize_raw loads dumps c = put_text ''name'' (normalize_tool_name (field ''name'' c)) c"
    by (simp add: sanitize_raw_def split: option.split pyval.split)
  then have "od_get (sanitize_raw loads dumps c) ''function'' = od_get c ''function''"
    by (simp add: put_text_def update_conv')
  then have "sanitize_raw loads dumps (sanitize_raw loads dumps c)
      = put_text ''name'' (normalize_tool_name (field ''name'' (sanitize_raw loads dumps c))) (sanitize_raw loads dumps c)"
    using False by (subst sanitize_raw_def) (simp split: option.split pyval.split)
  also have "\<dots> = sanitize_raw loads dumps c"
    by (rule put_text_id) (simp add: s field_put_text normalize_tool_name_fix)
  finally show ?thesis .
qed

lemma on_dict_fix: "(\<And>c. f (f c) = f c) \<Longrightarrow> on_dict f (on_dict f v) = on_dict f v"
  by (cases v) simp_all

lemma sanitize_ai_fix:
  assumes "json_objects loads dumps"
  shows "sanitize_ai loads dumps (sanitize_ai loads dumps m) = sanitize_ai loads dumps m"
proof -
  note idem = on_dict_fix [of sanitize_structured, OF sanitize_structured_fix]
    on_dict_fix [of "sanitize_invalid loads dumps", OF sanitize_invalid_fix [OF assms]]
    on_dict_fix [of "sanitize_raw loads dumps", OF sanitize_raw_fix [OF assms]]
  have "sanitize_kwargs loads dumps (sanitize_kwargs loads dumps kw) = sanitize_kwargs loads dumps kw" for kw
  proof (cases "od_get kw ''tool_calls''")
    case (Some v)
    then show ?thesis by (cases v) (simp_all add: sanitize_kwargs_def Let_def update_conv' idem)
  qed (simp add: sanitize_kwargs_def)
  then show ?thesis by (simp add: sanitize_ai_def idem)
qed

lemma sanitize_ai_ids_ok:
  assumes "ids_ok m"
  shows "ids_ok (sanitize_ai loads dumps m)"
proof -
  have keeps: "field ''id'' (sanitize_structured c) = field ''id'' c" "field ''id'' (sanitize_invalid loads dumps c) = field ''id'' c"
    "field ''id'' (sanitize_raw loads dumps c) = field ''id'' c" for c
    by (simp_all add: sanitize_structured_def sanitize_invalid_def sanitize_raw_def Let_def field_put_text field_set
        split: option.split pyval.split)
  have dict: "on_dict f v = VDict d \<longleftrightarrow> (\<exists>c. v = VDict c \<and> d = f c)" for f v d by (cases v) auto
  have "usable d" if "VDict d \<in> set (map (on_dict f) vs)" "\<forall>c. VDict c \<in> set vs \<longrightarrow> usable c"
    "\<And>c. field ''id'' (f c) = field ''id'' c" for d f vs
    using that by (auto simp: usable_def dict dest!: sym [of "VDict d"])
  then show ?thesis
    using assms keeps unfolding ids_ok_def sanitize_ai_empty sanitize_ai_raw
    by (simp add: sanitize_ai_def)
qed

lemma sanitize_ai_raw_fails: "raw_fails (sanitize_ai loads dumps m) = raw_fails m"
proof (cases "od_get (am_kwargs m) ''tool_calls''")
  case (Some v)
  then show ?thesis
    by (cases v) (simp_all add: raw_fails_def raw_payload_def sanitize_ai_def sanitize_kwargs_def od_get_default_def update_conv' Let_def)
qed (simp add: raw_fails_def raw_payload_def sanitize_ai_def sanitize_kwargs_def od_get_default_def)

section \<open>Answered transcripts pass unchanged\<close>

lemma queue_results_simps [simp]:
  "queue_results [] i = []"
  "queue_results (Ai m # ms) i = queue_results ms i"
  "queue_results (Plain p # ms) i = queue_results ms i"
  "queue_results (Result t # ms) i = (if opt_text (tm_call_id t) = i then [t] else []) @ queue_results ms i"
  by (simp_all add: queue_results_def map_filter_simps)

lemma queue_results_replies:
  "queue_results (map Result rs @ ms) i = filter (\<lambda>t. opt_text (tm_call_id t) = i) rs @ queue_results ms i"
  by (induction rs) simp_all

lemma reply_to_answer: "answers c t \<Longrightarrow> reply_to c (Some t) = t"
  by (auto simp: reply_to_def answers_def)

lemma answer_calls_recorded:
  "list_all2 answers cs rs \<Longrightarrow> \<forall>c \<in> set cs. usable c
    \<Longrightarrow> q = (\<lambda>i. filter (\<lambda>t. opt_text (tm_call_id t) = i) rs @ q0 i) \<Longrightarrow> answer_calls cs q = (rs, q0)"
proof (induction cs rs arbitrary: q rule: list_all2_induct)
  case (Cons c cs r rs)
  let ?i = "field ''id'' c"
  have r: "opt_text (tm_call_id r) = ?i" using Cons.hyps(1) by (simp add: answers_def)
  have "q ?i = r # (filter (\<lambda>t. opt_text (tm_call_id t) = ?i) rs @ q0 ?i)" using r Cons.prems(2) by simp
  moreover have "q(?i := tl (q ?i)) = (\<lambda>i. filter (\<lambda>t. opt_text (tm_call_id t) = i) rs @ q0 i)"
    using r Cons.prems(2) by (auto simp: fun_eq_iff)
  then have "answer_calls cs (q(?i := tl (q ?i))) = (rs, q0)" using Cons.IH Cons.prems(1) by simp
  ultimately show ?case
    using usable_truthy [of c] Cons.prems(1) reply_to_answer [OF Cons.hyps(1)] by (simp add: Let_def)
qed simp

lemma emit_skips_replies: "emit loads dumps q (map Result rs @ ms) = emit loads dumps q ms"
  by (induction rs) simp_all

lemma emit_fix:
  assumes "answered loads ms" "\<And>m. Ai m \<in> set ms \<Longrightarrow> clean loads dumps m"
  shows "emit loads dumps (queue_results ms) ms = ms"
  using assms
proof (induction rule: answered.induct)
  case (plain ms p)
  have "queue_results (Plain p # ms) = queue_results ms" by (simp add: fun_eq_iff)
  then show ?case using plain by simp
next
  case (ai m replies ms)
  have m: "ids_ok m" "sanitize_ai loads dumps m = m" using ai.prems [of m] by (simp_all add: clean_def)
  let ?q = "queue_results (Ai m # map Result replies @ ms)"
  have "?q = (\<lambda>i. filter (\<lambda>t. opt_text (tm_call_id t) = i) replies @ queue_results ms i)"
    by (simp add: fun_eq_iff queue_results_replies)
  then have "answer_calls (message_tool_calls loads m) ?q = (replies, queue_results ms)"
    using answer_calls_recorded [OF _ _ , of "message_tool_calls loads m" replies ?q "queue_results ms"]
      ai.hyps(1) message_call_ids [OF m(1)] by (simp add: open_calls_all [OF m(1)])
  moreover have "emit loads dumps (queue_results ms) ms = ms" using ai.IH ai.prems by simp
  ultimately show ?case by (simp only: emit.simps prod.case Let_def m(2) emit_skips_replies)
qed simp

lemma list_all2_source: "list_all2 R xs ys \<Longrightarrow> y \<in> set ys \<Longrightarrow> \<exists>x \<in> set xs. R x y"
  by (induction xs ys rule: list_all2_induct) auto

lemma answered_ids:
  assumes "answered loads ms" "Result t \<in> set ms"
  shows "\<exists>m c. Ai m \<in> set ms \<and> c \<in> set (message_tool_calls loads m) \<and> truthy (field ''id'' c)
    \<and> opt_text (tm_call_id t) = field ''id'' c"
  using assms
proof (induction rule: answered.induct)
  case (ai m replies ms)
  show ?case
  proof (cases "t \<in> set replies")
    case True
    then obtain c where "c \<in> set (open_calls_of loads m)" "answers c t"
      using list_all2_source [OF ai.hyps(1)] by blast
    then show ?thesis by (auto simp: open_calls_of_def answers_def)
  next
    case False
    then show ?thesis using ai by auto
  qed
qed auto

lemma normalize_ids_fix:
  assumes "\<And>m. Ai m \<in> set ms \<Longrightarrow> ids_ok m" "\<And>t. Result t \<in> set ms \<Longrightarrow> valid_text (opt_text (tm_call_id t))"
  shows "normalize_ids i cs p ms = ms"
  using assms by (induction i cs p ms rule: normalize_ids.induct) (auto simp: relabel_ai_fix)

lemma answered_unchanged:
  assumes "answered loads ms" "\<And>m. Ai m \<in> set ms \<Longrightarrow> clean loads dumps m"
  shows "build_patched loads dumps ms = Inr None"
proof -
  have ids: "\<And>m. Ai m \<in> set ms \<Longrightarrow> ids_ok m" using assms(2) by (simp add: clean_def)
  have "valid_text (opt_text (tm_call_id t))" if "Result t \<in> set ms" for t
    using answered_ids [OF assms(1) that] message_call_ids [OF ids] by (fastforce simp: usable_def)
  then have norm: "normalize_tool_call_ids ms = ms"
    unfolding normalize_tool_call_ids_def using ids by (intro normalize_ids_fix) auto
  have "drop_count loads ms = 0"
    using answered_ids [OF assms(1)] unfolding drop_count_def call_ids_def
    by (fastforce simp: filter_empty_conv split: chat_msg.splits)
  moreover have "\<not> list_ex (\<lambda>m. case m of Ai a \<Rightarrow> raw_fails a | _ \<Rightarrow> False) ms"
    using assms(2) by (auto simp: list_ex_iff clean_def split: chat_msg.splits)
  ultimately show ?thesis using emit_fix [OF assms] by (simp add: build_patched_def norm Let_def)
qed

section \<open>Recorded results are kept\<close>

text \<open>Two lists are the same as far as both go.\<close>

definition agree :: "'a list \<Rightarrow> 'a list \<Rightarrow> bool" where
  "agree xs ys \<longleftrightarrow> take (length ys) xs = take (length xs) ys"

lemma agree_append:
  assumes "agree a q" "agree b (drop (length a) q)"
  shows "agree (a @ b) q"
proof (cases "length q \<le> length a")
  case True
  then show ?thesis using assms(1) by (simp add: agree_def)
next
  case False
  then have "a = take (length a) q" "take (length q - length a) b = take (length b) (drop (length a) q)"
    using assms by (simp_all add: agree_def)
  then show ?thesis using False by (simp add: agree_def take_add)
qed

definition sent_to :: "pyval \<Rightarrow> tool_msg list \<Rightarrow> pyval list" where
  "sent_to i rs = map tm_content (filter (\<lambda>t. opt_text (tm_call_id t) = i) rs)"

lemma reply_content: "tm_content (reply_to c (Some t)) = tm_content t"
  by (simp add: reply_to_def)

lemma answer_calls_keeps:
  assumes "\<forall>c \<in> set cs. usable c \<and> valid_text (field ''name'' c)" "keyed q"
  shows "agree (sent_to i (fst (answer_calls cs q))) (map tm_content (q i))
    \<and> snd (answer_calls cs q) i = drop (length (sent_to i (fst (answer_calls cs q)))) (q i)"
  using assms
proof (induction cs arbitrary: q)
  case Nil
  then show ?case by (simp add: sent_to_def agree_def)
next
  case (Cons c cs)
  let ?j = "field ''id'' c"
  let ?e = "case q ?j of [] \<Rightarrow> None | t # _ \<Rightarrow> Some t"
  obtain rs q' where r: "answer_calls cs (q(?j := tl (q ?j))) = (rs, q')" by fastforce
  have IH: "agree (sent_to i rs) (map tm_content ((q(?j := tl (q ?j))) i))"
    "q' i = drop (length (sent_to i rs)) ((q(?j := tl (q ?j))) i)"
    using Cons.IH [OF _ keyed_pop [OF Cons.prems(2), of ?j]] Cons.prems(1) unfolding r by simp_all
  have e: "answers c (reply_to c ?e)"
    by (rule reply_answers) (use Cons.prems in \<open>auto simp: keyed_def split: list.splits\<close>)
  then have id: "opt_text (tm_call_id (reply_to c ?e)) = ?j" by (simp add: answers_def)
  have step: "answer_calls (c # cs) q = (reply_to c ?e # rs, q')"
    using Cons.prems(1) usable_truthy [of c] r by (simp add: Let_def)
  show ?case
  proof (cases "i = ?j")
    case True
    have "sent_to i (reply_to c ?e # rs) = [tm_content (reply_to c ?e)] @ sent_to i rs"
      using id True by (simp add: sent_to_def)
    moreover have "agree [tm_content (reply_to c ?e)] (map tm_content (q i))"
      using True by (cases "q i") (simp_all add: agree_def reply_content)
    moreover have "agree (sent_to i rs) (drop (length [tm_content (reply_to c ?e)]) (map tm_content (q i)))"
      using IH(1) True by (simp add: drop_Suc map_tl)
    ultimately have "agree (sent_to i (reply_to c ?e # rs)) (map tm_content (q i))"
      using agree_append by metis
    moreover have "q' i = drop (length (sent_to i (reply_to c ?e # rs))) (q i)"
      using IH(2) True id by (simp add: sent_to_def drop_Suc)
    ultimately show ?thesis unfolding step by simp
  next
    case False
    then have "sent_to i (reply_to c ?e # rs) = sent_to i rs" using id by (simp add: sent_to_def)
    then show ?thesis using IH False unfolding step by simp
  qed
qed

lemma emit_keeps:
  assumes "\<And>m. Ai m \<in> set ms \<Longrightarrow> ids_ok m" "keyed q"
  shows "agree (map tm_content (queue_results (emit loads dumps q ms) i)) (map tm_content (q i))"
  using assms
proof (induction loads dumps q ms rule: emit.induct)
  case (4 loads dumps q m ms)
  obtain rs q' where r: "answer_calls (message_tool_calls loads m) q = (rs, q')" by fastforce
  have calls: "\<forall>c \<in> set (message_tool_calls loads m). usable c \<and> valid_text (field ''name'' c)"
    using message_call_ids [of m] message_call_names 4(2) by auto
  have keyed: "keyed q'" using answer_calls_answers [OF calls 4(3)] r by simp
  have k: "agree (sent_to i rs) (map tm_content (q i))" "q' i = drop (length (sent_to i rs)) (q i)"
    using answer_calls_keeps [OF calls 4(3), of i] r by simp_all
  have "agree (map tm_content (queue_results (emit loads dumps q' ms) i)) (map tm_content (q' i))"
    using 4(1) [OF r [symmetric] refl] 4(2) keyed by simp
  then have "agree (map tm_content (queue_results (emit loads dumps q' ms) i))
      (drop (length (sent_to i rs)) (map tm_content (q i)))"
    by (simp add: k(2) drop_map)
  from agree_append [OF k(1) this] show ?case
    by (simp add: r queue_results_replies sent_to_def)
qed (simp_all add: agree_def)

section \<open>The request the provider is sent\<close>

lemma model_request_eq:
  assumes "model_request loads dumps ms = Inr out"
  shows "out = emit loads dumps (queue_results (normalize_tool_call_ids ms)) (normalize_tool_call_ids ms)"
    "\<And>m. Ai m \<in> set (normalize_tool_call_ids ms) \<Longrightarrow> \<not> raw_fails m"
proof -
  let ?n = "normalize_tool_call_ids ms"
  have "\<not> list_ex (\<lambda>m. case m of Ai a \<Rightarrow> raw_fails a | _ \<Rightarrow> False) ?n"
    using assms by (auto simp: model_request_def build_patched_def Let_def split: if_splits)
  then show "\<And>m. Ai m \<in> set ?n \<Longrightarrow> \<not> raw_fails m" by (force simp: list_ex_iff)
  show "out = emit loads dumps (queue_results ?n) ?n"
    using assms by (auto simp: model_request_def build_patched_def Let_def split: if_splits)
qed

lemma emit_ai:
  "Ai m \<in> set (emit loads dumps q ms) \<Longrightarrow> \<exists>m0. Ai m0 \<in> set ms \<and> m = sanitize_ai loads dumps m0"
proof (induction loads dumps q ms rule: emit.induct)
  case (4 loads dumps q a ms)
  obtain rs q' where r: "answer_calls (message_tool_calls loads a) q = (rs, q')" by fastforce
  then have "m = sanitize_ai loads dumps a \<or> Ai m \<in> set (emit loads dumps q' ms)" using 4(2) by auto
  then show ?case using 4(1) [OF r [symmetric] refl] by auto
qed auto

text \<open>
  What a provider accepts of a call, as conditions on the values sent: a name is a non-empty text
  without surrounding blanks, and the arguments of a call that is sent as text (a call that did not
  parse, or the function of a raw payload) are the JSON text of an object.
\<close>

definition safe_name :: "pyval \<Rightarrow> bool" where
  "safe_name v \<longleftrightarrow> (\<exists>s. v = VStr s \<and> s \<noteq> [] \<and> py_strip s = s)"

definition safe_args :: "(string \<Rightarrow> pyval option) \<Rightarrow> pyval \<Rightarrow> bool" where
  "safe_args loads v \<longleftrightarrow> (\<exists>s d. v = VStr s \<and> loads s = Some (VDict d))"

definition safe_raw :: "(string \<Rightarrow> pyval option) \<Rightarrow> dict \<Rightarrow> bool" where
  "safe_raw loads c \<longleftrightarrow> (case od_get c ''function'' of
       Some (VDict f) \<Rightarrow> safe_name (field ''name'' f) \<and> safe_args loads (field ''arguments'' f)
     | _ \<Rightarrow> safe_name (field ''name'' c))"

definition safe_ai :: "(string \<Rightarrow> pyval option) \<Rightarrow> ai_msg \<Rightarrow> bool" where
  "safe_ai loads m \<longleftrightarrow> (\<forall>c. VDict c \<in> set (am_tool_calls m) \<longrightarrow> safe_name (field ''name'' c))
     \<and> (\<forall>c. VDict c \<in> set (am_invalid m) \<longrightarrow> safe_name (field ''name'' c) \<and> safe_args loads (field ''args'' c))
     \<and> (\<forall>raw c. od_get (am_kwargs m) ''tool_calls'' = Some (VList raw) \<longrightarrow> VDict c \<in> set raw \<longrightarrow> safe_raw loads c)"

lemma safe_normalized_name: "safe_name (VStr (normalize_tool_name v))"
proof (cases "valid_text v")
  case True
  then show ?thesis by (cases v) (simp_all add: safe_name_def normalize_tool_name_def py_strip_idem)
next
  case False
  then show ?thesis using normalize_tool_name_fix [of v]
    by (simp add: safe_name_def normalize_tool_name_def UNKNOWN_TOOL_NAME_def py_strip_def is_space_def)
qed

lemma safe_normalized_args:
  assumes "json_objects loads dumps"
  shows "safe_args loads (VStr (normalize_arguments loads dumps v))"
proof -
  obtain d where d: "loads ''{}'' = Some (VDict d)" using assms by (auto simp: json_objects_def)
  have "safe_args loads (VStr s)" if "dumps e = Some s" for e s using assms that by (auto simp: json_objects_def safe_args_def)
  then show ?thesis using d
    by (auto simp: normalize_arguments_def safe_args_def parse_json_object_def split: pyval.splits option.splits)
qed

lemma safe_sanitized_raw:
  assumes "json_objects loads dumps"
  shows "safe_raw loads (sanitize_raw loads dumps c)"
proof (cases "\<exists>f. od_get c ''function'' = Some (VDict f)")
  case True
  then obtain f where f: "od_get c ''function'' = Some (VDict f)" by blast
  let ?f = "put_text ''arguments'' (normalize_arguments loads dumps (field ''arguments'' f))
    (put_text ''name'' (normalize_tool_name (field ''name'' f)) f)"
  have "od_get (sanitize_raw loads dumps c) ''function'' = Some (VDict ?f)"
    using f by (simp add: sanitize_raw_def Let_def update_conv')
  then show ?thesis by (simp add: safe_raw_def field_put_text safe_normalized_name safe_normalized_args [OF assms])
next
  case False
  then have s: "sanitize_raw loads dumps c = put_text ''name'' (normalize_tool_name (field ''name'' c)) c"
    by (simp add: sanitize_raw_def split: option.split pyval.split)
  then have "od_get (sanitize_raw loads dumps c) ''function'' = od_get c ''function''"
    by (simp add: put_text_def update_conv')
  then show ?thesis using False
    by (simp add: safe_raw_def split: option.split pyval.split) (simp add: s field_put_text safe_normalized_name)
qed

lemma safe_sanitized:
  assumes "json_objects loads dumps"
  shows "safe_ai loads (sanitize_ai loads dumps m)"
proof -
  have dict: "VDict d = on_dict f v \<longleftrightarrow> (\<exists>c. v = VDict c \<and> d = f c)" for f v d by (cases v) auto
  have "safe_raw loads c" if r: "od_get (sanitize_kwargs loads dumps kw) ''tool_calls'' = Some (VList raw)" "VDict c \<in> set raw" for kw raw c
  proof -
    have "\<exists>raw0. raw = map (on_dict (sanitize_raw loads dumps)) raw0"
    proof (cases "od_get kw ''tool_calls''")
      case (Some v)
      then show ?thesis using r(1) by (cases v) (auto simp: sanitize_kwargs_def Let_def update_conv' split: if_splits intro: sym)
    qed (use r(1) in \<open>simp add: sanitize_kwargs_def\<close>)
    then show ?thesis using r(2) safe_sanitized_raw [OF assms] by (auto simp: dict)
  qed
  then show ?thesis
    by (auto simp: safe_ai_def sanitize_ai_def dict sanitize_structured_def sanitize_invalid_def field_put_text
        safe_normalized_name safe_normalized_args [OF assms])
qed

text \<open>
  C10. Whatever the transcript, the request that reaches the provider is well-formed: every call of
  every message has a usable id and exactly one result, right behind its message and in the order
  of the calls, and there is no other result; every name is a non-empty text without surrounding
  blanks, and all arguments sent as text parse as a JSON object. And no
  recorded result is displaced by a placeholder: for every id, the results sent agree with the
  recorded ones as far as both go.
\<close>

theorem provider_request_is_well_formed:
  assumes "json_objects loads dumps" "model_request loads dumps ms = Inr out"
  shows "answered loads out \<and> (\<forall>m. Ai m \<in> set out \<longrightarrow> safe_ai loads m \<and> ids_ok m)
    \<and> (\<forall>i. agree (map tm_content (queue_results out i))
             (map tm_content (queue_results (normalize_tool_call_ids ms) i)))"
proof (intro conjI allI impI)
  let ?n = "normalize_tool_call_ids ms"
  note eq = model_request_eq [OF assms(2)]
  have ids: "\<And>m. Ai m \<in> set ?n \<Longrightarrow> ids_ok m"
    unfolding normalize_tool_call_ids_def by (rule normalize_ids_ok)
  show "answered loads out" unfolding eq(1) by (rule emit_answered [OF ids queue_results_keyed])
  show "safe_ai loads m" "ids_ok m" if sent: "Ai m \<in> set out" for m
    using emit_ai [OF sent [unfolded eq(1)]] safe_sanitized [OF assms(1)] sanitize_ai_ids_ok [OF ids] by auto
  show "agree (map tm_content (queue_results out i)) (map tm_content (queue_results ?n i))" for i
    unfolding eq(1) by (rule emit_keeps [OF ids queue_results_keyed])
qed

text \<open>A JSON library of two values, and a transcript with an interrupted call.\<close>

definition tiny_loads :: "string \<Rightarrow> pyval option" where
  "tiny_loads s = (if s = ''{}'' then Some (VDict []) else None)"

definition tiny_dumps :: "dict \<Rightarrow> string option" where
  "tiny_dumps d = (if d = [] then Some ''{}'' else None)"

lemma tiny_json: "json_objects tiny_loads tiny_dumps"
  by (simp add: json_objects_def tiny_loads_def tiny_dumps_def)

definition calling :: "string \<Rightarrow> ai_msg" where
  "calling i = \<lparr>am_content = VStr [], am_tool_calls = [VDict [(''name'', VStr ''bash''), (''id'', VStr i)]],
     am_invalid = [], am_kwargs = [], am_meta = []\<rparr>"

lemma calling_relabel: "py_strip i \<noteq> [] \<Longrightarrow> relabel_ai n (calling i) = (calling i, [])"
  by (rule relabel_ai_fix) (simp add: ids_ok_def calling_def usable_def raw_items_def raw_payload_def)

lemma strip_c1: "py_strip ''c1'' = ''c1''" "py_strip ''bash'' = ''bash''"
  by (simp_all add: py_strip_def is_space_def)

lemma calling_calls: "message_tool_calls loads (calling ''c1'') = [[(''name'', VStr ''bash''), (''id'', VStr ''c1'')]]"
  by (simp add: message_tool_calls_def calling_def map_filter_simps structured_call_def name_call_def
      normalize_tool_name_def strip_c1 Let_def)

lemma calling_sanitized: "sanitize_ai loads dumps (calling i) = calling i"
  by (simp add: sanitize_ai_def calling_def sanitize_structured_def put_text_def normalize_tool_name_def
      strip_c1 sanitize_kwargs_def)

definition interrupted :: tool_msg where
  "interrupted = \<lparr>tm_call_id = Some ''c1'', tm_name = Some ''bash'',
     tm_content = VStr ''[Tool call was interrupted and did not return a result.]'', tm_status = ''error'',
     tm_rest = VNone\<rparr>"

lemma interrupted_request:
  "model_request tiny_loads tiny_dumps [Ai (calling ''c1'')] = Inr [Ai (calling ''c1''), Result interrupted]"
proof -
  have n: "normalize_tool_call_ids [Ai (calling ''c1'')] = [Ai (calling ''c1'')]"
    by (simp add: normalize_tool_call_ids_def calling_relabel strip_c1)
  have "reply_to [(''name'', VStr ''bash''), (''id'', VStr ''c1'')] None = interrupted"
    by (simp add: reply_to_def interrupted_def text_field_def synthetic_content_def)
  moreover have "\<not> raw_fails (calling ''c1'')" by (simp add: raw_fails_def calling_def)
  ultimately show ?thesis
    by (simp add: model_request_def build_patched_def n Let_def calling_calls calling_sanitized)
qed

lemma provider_request_is_well_formed_witness:
  "answered tiny_loads [Ai (calling ''c1''), Result interrupted] \<and> safe_ai tiny_loads (calling ''c1'')"
  using provider_request_is_well_formed [OF tiny_json interrupted_request] by simp

text \<open>
  The repair is idempotent, and does not touch what needs no repair: every request the repair
  produced is sent as it is when it is repaired again.
\<close>

theorem repair_is_idempotent:
  assumes "json_objects loads dumps" "model_request loads dumps ms = Inr out"
  shows "model_request loads dumps out = Inr out"
proof -
  note eq = model_request_eq [OF assms(2)]
  have ids: "\<And>m. Ai m \<in> set (normalize_tool_call_ids ms) \<Longrightarrow> ids_ok m"
    unfolding normalize_tool_call_ids_def by (rule normalize_ids_ok)
  have "answered loads out" unfolding eq(1) by (rule emit_answered [OF ids queue_results_keyed])
  moreover have "clean loads dumps m" if "Ai m \<in> set out" for m
    using emit_ai [OF that [unfolded eq(1)]] sanitize_ai_fix [OF assms(1)] sanitize_ai_ids_ok [OF ids] sanitize_ai_raw_fails eq(2)
    unfolding clean_def by metis
  ultimately show ?thesis using answered_unchanged by (simp add: model_request_def)
qed

lemma repair_is_idempotent_witness:
  "model_request tiny_loads tiny_dumps [Ai (calling ''c1''), Result interrupted]
    = Inr [Ai (calling ''c1''), Result interrupted]"
  by (rule repair_is_idempotent [OF tiny_json interrupted_request])

end
