(* ===== verification/TaskNotes.thy ===== *)
theory TaskNotes
  imports Prelude
begin

text \<open>
  Checkpointed task-continuity metadata
  (\<^verbatim>\<open>backend/packages/harness/deerflow/agents/task_continuity/state.py\<close>): history and notes are
  bounded and validated whenever they are read or written, since external checkpoint writes can
  bypass the reducer.
\<close>

definition MAX_NOTES :: nat where "MAX_NOTES = 8"

definition MAX_NOTE_CHARS :: nat where "MAX_NOTE_CHARS = 750"

definition MAX_NOTE_SOURCES :: nat where "MAX_NOTE_SOURCES = 4"

definition in_range :: "char \<Rightarrow> char \<Rightarrow> char \<Rightarrow> bool" where
  "in_range a b c \<longleftrightarrow> a \<le> c \<and> c \<le> b"

definition is_hex :: "char \<Rightarrow> bool" where
  "is_hex c \<longleftrightarrow> in_range (CHR ''a'') (CHR ''f'') c \<or> is_digit c"

text \<open>\<^verbatim>\<open>fullmatch\<close> of the three patterns.\<close>

definition note_key_ok :: "string \<Rightarrow> bool" where
  "note_key_ok s \<longleftrightarrow> 1 \<le> length s \<and> length s \<le> 40
     \<and> list_all (\<lambda>c. in_range (CHR ''a'') (CHR ''z'') c \<or> in_range (CHR ''A'') (CHR ''Z'') c \<or> is_digit c
         \<or> c = CHR ''_'' \<or> c = CHR ''-'') s"

definition source_id_ok :: "string \<Rightarrow> bool" where
  "source_id_ok s \<longleftrightarrow> (case s of [] \<Rightarrow> False | c # cs \<Rightarrow> c = CHR ''r'' \<and> length cs = 32 \<and> list_all is_hex cs)"

definition batch_id_ok :: "string \<Rightarrow> bool" where
  "batch_id_ok s \<longleftrightarrow> length s = 64 \<and> list_all is_hex s"

type_synonym pydict = "(string, pyval) odict"

section \<open>History\<close>

fun text_if :: "(string \<Rightarrow> bool) \<Rightarrow> pyval \<Rightarrow> string option" where
  "text_if P (VStr s) = (if P s then Some s else None)"
| "text_if P _ = None"

definition history_scope :: "pydict \<Rightarrow> string option \<times> bool" where
  "history_scope d =
     (case od_get_default d ''scope'' VNone of
        VNone \<Rightarrow> (None, False)
      | v \<Rightarrow> (case text_if (\<lambda>s. s \<noteq> []) v of Some s \<Rightarrow> (Some s, False) | None \<Rightarrow> (None, True)))"

definition history_batches :: "string option \<Rightarrow> pydict \<Rightarrow> string list \<times> bool" where
  "history_batches scope d =
     (let (batches, inv) = (case od_get_default d ''batches'' (VList []) of
            VList bs \<Rightarrow> (bs, False) | _ \<Rightarrow> ([], True));
          valid = List.map_filter (text_if batch_id_ok) (py_from batches (- 64));
          inv1 = (inv \<or> length valid \<noteq> length batches)
      in if valid \<noteq> [] \<and> scope = None then ([], True) else (valid, inv1))"

definition history_omitted :: "pydict \<Rightarrow> int \<times> bool" where
  "history_omitted d =
     (case od_get_default d ''omitted_records'' (VInt 0) of
        VInt n \<Rightarrow> if n < 0 then (0, True) else (n, False)
      | _ \<Rightarrow> (0, True))"

text \<open>A status compares equal to one of the two strings only when it is that string.\<close>

definition normalize_task_history :: "pyval \<Rightarrow> pydict" where
  "normalize_task_history value =
     (if value = VNone \<or> value = VDict [] then []
      else case value of
        VDict d \<Rightarrow>
          let (scope, i1) = history_scope d;
              (batches, i2) = history_batches scope d;
              (omitted, i3) = history_omitted d;
              status = od_get_default d ''status'' (VStr ''available'');
              i4 = (status \<noteq> VStr ''available'' \<and> status \<noteq> VStr ''unavailable'')
          in (case scope of Some s \<Rightarrow> [(''scope'', VStr s)] | None \<Rightarrow> [])
             @ [(''batches'', VList (map VStr (fromkeys batches))), (''omitted_records'', VInt omitted),
                (''status'', if i1 \<or> i2 \<or> i3 \<or> i4 then VStr ''unavailable'' else status)]
      | _ \<Rightarrow> [(''batches'', VList []), (''omitted_records'', VInt 0), (''status'', VStr ''unavailable'')])"

section \<open>Notes\<close>

definition note_sources :: "pydict \<Rightarrow> string list option" where
  "note_sources note =
     (case od_get_default note ''source_ids'' (VList []) of
        VList ss \<Rightarrow>
          if length ss \<le> MAX_NOTE_SOURCES \<and> list_all (\<lambda>s. text_if source_id_ok s \<noteq> None) ss
          then Some (List.map_filter (text_if source_id_ok) ss) else None
      | _ \<Rightarrow> None)"

definition make_note :: "string \<Rightarrow> string list \<Rightarrow> pyval" where
  "make_note content sources =
     VDict [(''content'', VStr content), (''source_ids'', VList (map VStr sources)),
            (''authority'', VStr ''model_report'')]"

definition normalize_note :: "string \<Rightarrow> pyval \<Rightarrow> pyval option" where
  "normalize_note key value =
     (if \<not> note_key_ok key then None
      else case value of
        VDict note \<Rightarrow>
          (case text_if (\<lambda>s. s \<noteq> [] \<and> length s \<le> MAX_NOTE_CHARS) (od_get_default note ''content'' VNone) of
             Some content \<Rightarrow> map_option (make_note content) (note_sources note)
           | None \<Rightarrow> None)
      | _ \<Rightarrow> None)"

definition note_step :: "pydict \<Rightarrow> string \<times> pyval \<Rightarrow> pydict" where
  "note_step notes kv =
     (case normalize_note (fst kv) (snd kv) of
        None \<Rightarrow> notes
      | Some note \<Rightarrow>
          let n1 = od_set (fst kv) note notes in if MAX_NOTES < length n1 then tl n1 else n1)"

definition normalize_task_notes :: "pyval \<Rightarrow> pydict" where
  "normalize_task_notes value = (case value of VDict d \<Rightarrow> foldl note_step [] d | _ \<Rightarrow> [])"

definition merge_note :: "pydict \<Rightarrow> string \<times> pyval \<Rightarrow> pydict" where
  "merge_note merged kv =
     (if snd kv = VNone then od_del (fst kv) merged
      else od_update merged (normalize_task_notes (VDict [kv])))"

definition merge_task_notes :: "pyval \<Rightarrow> pyval \<Rightarrow> pydict" where
  "merge_task_notes left right =
     last_n MAX_NOTES
       (foldl merge_note (normalize_task_notes left) (case right of VDict d \<Rightarrow> d | _ \<Rightarrow> []))"

text \<open>
  \<^verbatim>\<open>TaskNotesChannel.update\<close>: \<open>aggregate\<close> is the update of the graph library's channel, whether it
  changed the value and the value.
\<close>

definition update_channel :: "('v \<Rightarrow> bool \<times> pyval) \<Rightarrow> 'v \<Rightarrow> bool \<times> pyval" where
  "update_channel aggregate values =
     (case aggregate values of
        (changed, value) \<Rightarrow> (changed, if changed then VDict (normalize_task_notes value) else value))"

section \<open>Canonical metadata\<close>

definition notes_ok :: "pydict \<Rightarrow> bool" where
  "notes_ok notes \<longleftrightarrow> od_wf notes \<and> (\<forall>(k, v) \<in> set notes. normalize_note k v = Some v)"

lemma map_filter_text: "list_all P ss \<Longrightarrow> List.map_filter (text_if P) (map VStr ss) = ss"
  by (induction ss) (auto simp: map_filter_simps)

lemma text_if_Some: "text_if P v = Some s \<longleftrightarrow> v = VStr s \<and> P s"
  by (cases v) auto

lemma list_all_map_filter_text: "list_all P (List.map_filter (text_if P) vs)"
  by (auto simp: list_all_iff List.map_filter_def text_if_Some)

lemma normalize_note_fix:
  assumes "normalize_note k v = Some n"
  shows "normalize_note k n = Some n"
proof -
  obtain nt content sources where v: "v = VDict nt" "note_key_ok k" "n = make_note content sources"
    "content \<noteq> []" "length content \<le> MAX_NOTE_CHARS" "note_sources nt = Some sources"
    using assms by (auto simp: normalize_note_def text_if_Some split: if_splits pyval.splits option.splits)
  have src: "list_all source_id_ok sources" "length sources \<le> MAX_NOTE_SOURCES"
    using v(6) list_all_map_filter_text [of source_id_ok]
    by (auto simp: note_sources_def List.map_filter_def split: pyval.splits if_splits intro: le_trans [OF length_filter_le])
  have "note_sources [(''content'', VStr content), (''source_ids'', VList (map VStr sources)),
      (''authority'', VStr ''model_report'')] = Some sources"
    using src map_filter_text [of source_id_ok sources]
    by (auto simp: note_sources_def od_get_default_def list_all_iff text_if_Some)
  then show ?thesis using v by (simp add: make_note_def normalize_note_def od_get_default_def)
qed

lemma notes_ok_set: "notes_ok notes \<Longrightarrow> normalize_note k n = Some n \<Longrightarrow> notes_ok (od_set k n notes)"
proof -
  assume n: "notes_ok notes" "normalize_note k n = Some n"
  have "normalize_note j v = Some v" if "(j, v) \<in> set (od_set k n notes)" for j v
  proof -
    have "od_get (od_set k n notes) j = Some v" using that n(1) by (simp add: notes_ok_def)
    then show ?thesis using n by (auto simp: update_conv' notes_ok_def split: if_splits dest: map_of_SomeD)
  qed
  then show ?thesis using n(1) by (auto simp: notes_ok_def)
qed

lemma notes_ok_sub: "notes_ok notes \<Longrightarrow> set xs \<subseteq> set notes \<Longrightarrow> od_wf xs \<Longrightarrow> notes_ok xs"
  by (auto simp: notes_ok_def)

lemma note_step_ok:
  assumes "notes_ok notes" "length notes \<le> MAX_NOTES"
  shows "notes_ok (note_step notes kv) \<and> length (note_step notes kv) \<le> MAX_NOTES"
proof (cases "normalize_note (fst kv) (snd kv)")
  case None
  then show ?thesis using assms by (simp add: note_step_def)
next
  case (Some n)
  let ?n = "od_set (fst kv) n notes"
  have ok: "notes_ok ?n" by (rule notes_ok_set [OF assms(1) normalize_note_fix [OF Some]])
  then have "notes_ok (tl ?n)"
    by (rule notes_ok_sub) (use ok in \<open>auto simp: notes_ok_def map_tl distinct_tl dest: in_set_tlD\<close>)
  moreover have "length ?n \<le> Suc (length notes)" by (simp add: length_od_set)
  ultimately show ?thesis using ok Some assms(2) by (auto simp: note_step_def Let_def)
qed

lemma normalize_task_notes_ok:
  "notes_ok (normalize_task_notes v) \<and> length (normalize_task_notes v) \<le> MAX_NOTES"
proof -
  have "notes_ok (foldl note_step [] d) \<and> length (foldl note_step [] d) \<le> MAX_NOTES" for d
    by (induction d rule: rev_induct) (simp add: notes_ok_def, simp add: note_step_ok)
  moreover have "notes_ok []" by (simp add: notes_ok_def)
  ultimately show ?thesis by (cases v) (simp_all add: normalize_task_notes_def)
qed

lemma normalize_task_notes_fix:
  assumes "notes_ok d" "length d \<le> MAX_NOTES"
  shows "normalize_task_notes (VDict d) = d"
proof -
  have "foldl note_step acc xs = acc @ xs" if "notes_ok (acc @ xs)" "length (acc @ xs) \<le> MAX_NOTES" for acc xs
    using that
  proof (induction xs arbitrary: acc)
    case (Cons kv xs)
    have kv: "normalize_note (fst kv) (snd kv) = Some (snd kv)" using Cons.prems(1) by (auto simp: notes_ok_def)
    have "od_set (fst kv) (snd kv) acc = acc @ [kv]"
      using Cons.prems(1) by (subst od_set_fresh) (auto simp: notes_ok_def)
    then have "note_step acc kv = acc @ [kv]" using kv Cons.prems(2) by (simp add: note_step_def)
    then show ?case using Cons.IH [of "acc @ [kv]"] Cons.prems by simp
  qed simp
  from this [of "[]" d] show ?thesis using assms by (simp add: normalize_task_notes_def)
qed

lemma merge_note_ok: "notes_ok m \<Longrightarrow> notes_ok (merge_note m kv)"
proof (cases "snd kv = VNone")
  case True
  assume "notes_ok m"
  then show ?thesis using True notes_ok_sub [of m "od_del (fst kv) m"] by (auto simp: merge_note_def set_od_del notes_ok_def)
next
  case False
  assume m: "notes_ok m"
  have "normalize_task_notes (VDict [kv]) = (case normalize_note (fst kv) (snd kv) of None \<Rightarrow> [] | Some n \<Rightarrow> [(fst kv, n)])"
    by (simp add: normalize_task_notes_def note_step_def MAX_NOTES_def split: option.split)
  then show ?thesis
    using False m notes_ok_set [OF m normalize_note_fix]
    by (auto simp: merge_note_def od_update_def split: option.split)
qed

lemma history_scope_fix:
  "fst (history_scope d) = Some s \<Longrightarrow> s \<noteq> []"
  by (auto simp: history_scope_def text_if_Some split: pyval.splits option.splits if_splits)

lemma history_batches_props:
  "list_all batch_id_ok (fst (history_batches scope d))" "length (fst (history_batches scope d)) \<le> 64"
  "scope = None \<Longrightarrow> fst (history_batches scope d) = []"
proof -
  let ?bs = "case od_get_default d ''batches'' (VList []) of VList bs \<Rightarrow> bs | _ \<Rightarrow> []"
  have f: "fst (history_batches scope d) = (let valid = List.map_filter (text_if batch_id_ok) (last_n 64 ?bs)
      in if valid \<noteq> [] \<and> scope = None then [] else valid)"
    by (simp add: history_batches_def Let_def case_prod_beta py_from_last_numeral split: pyval.split)
  show "list_all batch_id_ok (fst (history_batches scope d))"
    using list_all_map_filter_text unfolding f by (simp add: Let_def)
  have "length (List.map_filter (text_if batch_id_ok) (last_n 64 ?bs)) \<le> length (last_n 64 ?bs)"
    unfolding List.map_filter_def by (simp add: le_trans [OF length_filter_le])
  then show "length (fst (history_batches scope d)) \<le> 64" unfolding f by (simp add: Let_def)
  show "scope = None \<Longrightarrow> fst (history_batches scope d) = []" unfolding f by (simp add: Let_def)
qed

lemma history_canonical:
  assumes "scope \<noteq> Some []" "list_all batch_id_ok bs" "distinct bs" "length bs \<le> 64" "scope = None \<Longrightarrow> bs = []"
    "0 \<le> n" "status = VStr ''available'' \<or> status = VStr ''unavailable''"
  defines "d \<equiv> (case scope of Some s \<Rightarrow> [(''scope'', VStr s)] | None \<Rightarrow> [])
    @ [(''batches'', VList (map VStr bs)), (''omitted_records'', VInt n), (''status'', status)]"
  shows "normalize_task_history (VDict d) = d"
proof -
  have gets: "od_get_default d ''batches'' (VList []) = VList (map VStr bs)"
    "od_get_default d ''omitted_records'' (VInt 0) = VInt n"
    "od_get_default d ''status'' (VStr ''available'') = status"
    "od_get_default d ''scope'' VNone = (case scope of Some s \<Rightarrow> VStr s | None \<Rightarrow> VNone)"
    by (auto simp: d_def od_get_default_def split: option.split)
  have "history_scope d = (scope, False)" using assms(1) by (auto simp: history_scope_def gets split: option.split)
  moreover have "history_batches scope d = (bs, False)"
    using assms(2,4,5) by (auto simp: history_batches_def gets py_from_last_numeral map_filter_text)
  moreover have "history_omitted d = (n, False)" using assms(6) by (simp add: history_omitted_def gets)
  moreover have "d \<noteq> []" by (simp add: d_def)
  ultimately have "normalize_task_history (VDict d) = (case scope of Some s \<Rightarrow> [(''scope'', VStr s)] | None \<Rightarrow> [])
    @ [(''batches'', VList (map VStr bs)), (''omitted_records'', VInt n), (''status'', status)]"
    using assms(3,7) by (auto simp: normalize_task_history_def gets fromkeys_distinct Let_def)
  then show ?thesis by (simp only: d_def)
qed

lemma length_fromkeys: "length (fromkeys xs) \<le> length xs"
  using card_length [of xs] distinct_card [OF distinct_fromkeys, of xs] by simp

lemma history_fix: "normalize_task_history (VDict (normalize_task_history h)) = normalize_task_history h"
proof (cases "h = VNone \<or> h = VDict []")
  case True
  then show ?thesis by (auto simp: normalize_task_history_def)
next
  case False
  have other: "normalize_task_history (VDict [(''batches'', VList []), (''omitted_records'', VInt 0), (''status'', VStr ''unavailable'')])
      = [(''batches'', VList []), (''omitted_records'', VInt 0), (''status'', VStr ''unavailable'')]"
    using history_canonical [of None "[]" 0 "VStr ''unavailable''"] by simp
  show ?thesis
  proof (cases h)
    case (VDict d)
    obtain scope i1 where s: "history_scope d = (scope, i1)" by fastforce
    obtain bs i2 where b: "history_batches scope d = (bs, i2)" by fastforce
    obtain n i3 where o: "history_omitted d = (n, i3)" by fastforce
    let ?st = "od_get_default d ''status'' (VStr ''available'')"
    let ?status = "if i1 \<or> i2 \<or> i3 \<or> ?st \<noteq> VStr ''available'' \<and> ?st \<noteq> VStr ''unavailable''
      then VStr ''unavailable'' else ?st"
    have eq: "normalize_task_history h = (case scope of Some s \<Rightarrow> [(''scope'', VStr s)] | None \<Rightarrow> [])
        @ [(''batches'', VList (map VStr (fromkeys bs))), (''omitted_records'', VInt n), (''status'', ?status)]"
      using False by (simp add: VDict normalize_task_history_def s b o Let_def)
    have n: "0 \<le> n" using o by (auto simp: history_omitted_def split: pyval.splits if_splits)
    note props = history_batches_props [of scope d, unfolded b fst_conv]
    show ?thesis
      unfolding eq
      by (rule history_canonical)
        (use s b n props history_scope_fix [of d "[]"] le_trans [OF length_fromkeys props(2)] in
          \<open>auto simp: list_all_iff\<close>)
  qed (use False other in \<open>simp_all add: normalize_task_history_def\<close>)
qed

section \<open>What canonical means\<close>

text \<open>Characters by their ASCII codes: digits, letters, dash and underscore; digits and a to f.\<close>

definition key_char :: "char \<Rightarrow> bool" where
  "key_char c \<longleftrightarrow> (of_char c :: nat) \<in> {48..57} \<union> {65..90} \<union> {97..122} \<union> {45, 95}"

definition hex_char :: "char \<Rightarrow> bool" where
  "hex_char c \<longleftrightarrow> (of_char c :: nat) \<in> {48..57} \<union> {97..102}"

definition hex_text :: "nat \<Rightarrow> string \<Rightarrow> bool" where
  "hex_text n s \<longleftrightarrow> length s = n \<and> list_all hex_char s"

text \<open>The three fields of a stored note, and the limits on a note.\<close>

definition stored_note :: "string \<Rightarrow> string list \<Rightarrow> pyval" where
  "stored_note content sources = VDict [(''content'', VStr content), (''source_ids'', VList (map VStr sources)),
     (''authority'', VStr ''model_report'')]"

definition note_within :: "string \<Rightarrow> string \<Rightarrow> string list \<Rightarrow> bool" where
  "note_within k content sources \<longleftrightarrow> 1 \<le> length k \<and> length k \<le> 40 \<and> list_all key_char k
     \<and> 1 \<le> length content \<and> length content \<le> 750
     \<and> length sources \<le> 4 \<and> (\<forall>s \<in> set sources. \<exists>x. s = CHR ''r'' # x \<and> hex_text 32 x)"

text \<open>A stored history.\<close>

definition stored_history :: "string option \<Rightarrow> string list \<Rightarrow> int \<Rightarrow> string \<Rightarrow> pydict" where
  "stored_history scope batches omitted status = (case scope of Some s \<Rightarrow> [(''scope'', VStr s)] | None \<Rightarrow> [])
     @ [(''batches'', VList (map VStr batches)), (''omitted_records'', VInt omitted), (''status'', VStr status)]"

definition history_within :: "string option \<Rightarrow> string list \<Rightarrow> int \<Rightarrow> string \<Rightarrow> bool" where
  "history_within scope batches omitted status \<longleftrightarrow> scope \<noteq> Some [] \<and> (scope = None \<longrightarrow> batches = [])
     \<and> length batches \<le> 64 \<and> distinct batches \<and> (\<forall>b \<in> set batches. hex_text 64 b)
     \<and> 0 \<le> omitted \<and> status \<in> {''available'', ''unavailable''}"

lemma is_hex_char: "is_hex = hex_char"
  by (auto simp: fun_eq_iff is_hex_def hex_char_def in_range_def is_digit_iff less_eq_char_def)

lemma key_char: "in_range (CHR ''a'') (CHR ''z'') c \<or> in_range (CHR ''A'') (CHR ''Z'') c \<or> is_digit c
    \<or> c = CHR ''_'' \<or> c = CHR ''-'' \<longleftrightarrow> key_char c"
proof -
  have "c = d \<longleftrightarrow> (of_char c :: nat) = of_char d" for d by simp
  then have "c = CHR ''_'' \<longleftrightarrow> (of_char c :: nat) = 95" "c = CHR ''-'' \<longleftrightarrow> (of_char c :: nat) = 45"
    by (simp_all del: of_char_eq_iff)
  then show ?thesis by (auto simp: key_char_def in_range_def is_digit_iff less_eq_char_def)
qed

lemma source_id_text: "source_id_ok s \<longleftrightarrow> (\<exists>x. s = CHR ''r'' # x \<and> hex_text 32 x)"
  by (cases s) (auto simp: source_id_ok_def hex_text_def is_hex_char)

lemma batch_id_text: "batch_id_ok s \<longleftrightarrow> hex_text 64 s"
  by (simp add: batch_id_ok_def hex_text_def is_hex_char)

lemma note_key_text: "note_key_ok s \<longleftrightarrow> 1 \<le> length s \<and> length s \<le> 40 \<and> list_all key_char s"
  unfolding note_key_ok_def key_char ..

lemma normalize_note_within:
  "normalize_note k v = Some v \<longleftrightarrow> (\<exists>content sources. v = stored_note content sources \<and> note_within k content sources)"
proof
  assume "normalize_note k v = Some v"
  then obtain nt content sources where v: "v = stored_note content sources" "note_key_ok k"
    "content \<noteq> []" "length content \<le> MAX_NOTE_CHARS" "note_sources nt = Some sources"
    by (auto simp: normalize_note_def text_if_Some stored_note_def make_note_def split: if_splits pyval.splits option.splits)
  have "list_all source_id_ok sources" "length sources \<le> MAX_NOTE_SOURCES"
    using v(5) list_all_map_filter_text [of source_id_ok]
    by (auto simp: note_sources_def List.map_filter_def split: pyval.splits if_splits intro: le_trans [OF length_filter_le])
  then have "note_within k content sources"
    using v by (simp add: note_within_def note_key_text MAX_NOTE_CHARS_def MAX_NOTE_SOURCES_def list_all_iff source_id_text Suc_le_eq)
  with v(1) show "\<exists>content sources. v = stored_note content sources \<and> note_within k content sources" by blast
next
  assume "\<exists>content sources. v = stored_note content sources \<and> note_within k content sources"
  then obtain content sources where v: "v = stored_note content sources" "note_within k content sources" by blast
  have "list_all source_id_ok sources" using v(2) by (simp add: note_within_def list_all_iff source_id_text)
  then have "note_sources [(''content'', VStr content), (''source_ids'', VList (map VStr sources)), (''authority'', VStr ''model_report'')]
      = Some sources"
    using v(2) map_filter_text [of source_id_ok sources]
    by (auto simp: note_sources_def od_get_default_def list_all_iff text_if_Some note_within_def MAX_NOTE_SOURCES_def)
  with v show "normalize_note k v = Some v"
    by (auto simp: normalize_note_def stored_note_def make_note_def od_get_default_def note_within_def note_key_text MAX_NOTE_CHARS_def
        text_if_Some)
qed

lemma merge_one_note:
  assumes "notes_ok notes" "length notes \<le> 8" "note_within k content sources"
  shows "merge_task_notes (VDict notes) (VDict [(k, stored_note content sources)])
    = last_n 8 (od_set k (stored_note content sources) notes)"
proof -
  have "normalize_note k (stored_note content sources) = Some (stored_note content sources)"
    using assms(3) normalize_note_within by blast
  then have one: "normalize_task_notes (VDict [(k, stored_note content sources)]) = [(k, stored_note content sources)]"
    by (simp add: normalize_task_notes_def note_step_def MAX_NOTES_def)
  have "normalize_task_notes (VDict notes) = notes" using normalize_task_notes_fix assms(1,2) by (simp add: MAX_NOTES_def)
  moreover have "merge_note notes (k, stored_note content sources) = od_set k (stored_note content sources) notes"
    using one by (simp add: merge_note_def od_update_def stored_note_def)
  ultimately show ?thesis by (simp add: merge_task_notes_def MAX_NOTES_def)
qed

lemma history_newest:
  assumes "scope \<noteq> []" "\<forall>b \<in> set batches. hex_text 64 b" "0 \<le> n"
  shows "normalize_task_history (VDict (stored_history (Some scope) batches n ''available''))
    = stored_history (Some scope) (fromkeys (last_n 64 batches)) n (if length batches \<le> 64 then ''available'' else ''unavailable'')"
proof -
  let ?d = "stored_history (Some scope) batches n ''available''"
  have gets: "od_get_default ?d ''batches'' (VList []) = VList (map VStr batches)"
    "od_get_default ?d ''omitted_records'' (VInt 0) = VInt n"
    "od_get_default ?d ''status'' (VStr ''available'') = VStr ''available''"
    "od_get_default ?d ''scope'' VNone = VStr scope"
    by (simp_all add: stored_history_def od_get_default_def)
  have "list_all batch_id_ok (last_n 64 batches)"
    using assms(2) by (auto simp: list_all_iff batch_id_text dest: set_last_n [THEN subsetD])
  then have "List.map_filter (text_if batch_id_ok) (map VStr (last_n 64 batches)) = last_n 64 batches" by (rule map_filter_text)
  then have "history_batches (Some scope) ?d = (last_n 64 batches, 64 < length batches)"
    by (auto simp: history_batches_def gets py_from_last_numeral map_last_n [symmetric] length_last_n)
  moreover have "history_scope ?d = (Some scope, False)" using assms(1) by (simp add: history_scope_def gets)
  moreover have "history_omitted ?d = (n, False)" using assms(3) by (simp add: history_omitted_def gets)
  moreover have "?d \<noteq> []" by (simp add: stored_history_def)
  ultimately show ?thesis by (simp add: normalize_task_history_def gets Let_def) (simp add: stored_history_def)
qed

lemma history_is_within:
  "normalize_task_history h = [] \<or> (\<exists>scope batches n status. normalize_task_history h = stored_history scope batches n status
     \<and> history_within scope batches n status)"
proof (cases h)
  case (VDict d)
  obtain scope i1 where s: "history_scope d = (scope, i1)" by fastforce
  obtain bs i2 where b: "history_batches scope d = (bs, i2)" by fastforce
  obtain n i3 where o: "history_omitted d = (n, i3)" by fastforce
  let ?st = "od_get_default d ''status'' (VStr ''available'')"
  define status where "status = (if i1 \<or> i2 \<or> i3 \<or> ?st \<noteq> VStr ''available'' then ''unavailable'' else ''available'')"
  have eq: "d \<noteq> [] \<Longrightarrow> normalize_task_history h = stored_history scope (fromkeys bs) n status"
    by (auto simp: VDict normalize_task_history_def s b o Let_def stored_history_def status_def)
  have "0 \<le> n" using o by (auto simp: history_omitted_def split: pyval.splits if_splits)
  moreover note props = history_batches_props [of scope d, unfolded b fst_conv]
  moreover have "status \<in> {''available'', ''unavailable''}" by (simp add: status_def)
  ultimately have "history_within scope (fromkeys bs) n status"
    using s history_scope_fix [of d "[]"] le_trans [OF length_fromkeys props(2)]
    by (auto simp: history_within_def list_all_iff batch_id_text)
  then show ?thesis using eq by (cases "d = []") (auto simp: VDict normalize_task_history_def)
next
  case VNone
  then show ?thesis by (simp add: normalize_task_history_def)
qed (auto simp: normalize_task_history_def history_within_def stored_history_def intro!: exI [of _ None] exI [of _ "[]"] exI [of _ 0]
    exI [of _ "''unavailable''"])

text \<open>
  C36. Continuity metadata is bounded and canonical after every write, whatever an external writer
  stored. Merged notes are at most eight, under distinct keys of 1 to 40 letters, digits, underscores
  and dashes, each a text of 1 to 750 characters with at most four source ids (an r and 32 hexadecimal
  digits) reported by the model; a stored history has at most 64 distinct batch ids of 64 hexadecimal
  digits, and none without a scope. Reading either back changes nothing. And the newest survive: a
  ninth note pushes out the oldest, and of a longer history the last 64 batches remain, marked
  unavailable.
\<close>

theorem continuity_metadata_is_canonical:
  fixes left right history :: pyval
  defines "notes \<equiv> merge_task_notes left right" and "stored \<equiv> normalize_task_history history"
  shows "length notes \<le> 8 \<and> distinct (map fst notes)
    \<and> (\<forall>(k, v) \<in> set notes. \<exists>content sources. v = stored_note content sources \<and> note_within k content sources)
    \<and> normalize_task_notes (VDict notes) = notes
    \<and> (note_within key content sources \<longrightarrow> merge_task_notes (VDict notes) (VDict [(key, stored_note content sources)])
         = last_n 8 (od_set key (stored_note content sources) notes))
    \<and> (stored = [] \<or> (\<exists>scope batches n status. stored = stored_history scope batches n status \<and> history_within scope batches n status))
    \<and> normalize_task_history (VDict stored) = stored
    \<and> (scope \<noteq> [] \<longrightarrow> (\<forall>b \<in> set batches. hex_text 64 b) \<longrightarrow> 0 \<le> omitted
         \<longrightarrow> normalize_task_history (VDict (stored_history (Some scope) batches omitted ''available''))
           = stored_history (Some scope) (fromkeys (last_n 64 batches)) omitted (if length batches \<le> 64 then ''available'' else ''unavailable''))"
proof -
  have fold: "notes_ok (foldl merge_note m xs)" if "notes_ok m" for m xs
    using that by (induction xs arbitrary: m) (simp_all add: merge_note_ok)
  have ok: "notes_ok notes"
    unfolding notes_def merge_task_notes_def
    by (rule notes_ok_sub [OF fold [OF conjunct1 [OF normalize_task_notes_ok]] set_last_n])
      (use fold [OF conjunct1 [OF normalize_task_notes_ok]] in \<open>simp add: notes_ok_def map_last_n distinct_last_n\<close>)
  have len: "length notes \<le> 8" by (simp add: notes_def merge_task_notes_def MAX_NOTES_def)
  have "\<forall>(k, v) \<in> set notes. \<exists>content sources. v = stored_note content sources \<and> note_within k content sources"
    using ok by (auto simp: notes_ok_def normalize_note_within)
  then show ?thesis
    using ok len normalize_task_notes_fix [OF ok] merge_one_note [OF ok len] history_is_within [of history] history_fix [of history]
      history_newest [of scope batches omitted]
    by (simp add: stored_def MAX_NOTES_def notes_ok_def)
qed

theorem continuity_metadata_is_canonical_witness:
  "merge_task_notes (VDict (merge_task_notes VNone (VDict [(''plan'', stored_note ''x'' [])]))) (VDict [(''todo'', stored_note ''y'' [])])
     = last_n 8 (od_set ''todo'' (stored_note ''y'' []) (merge_task_notes VNone (VDict [(''plan'', stored_note ''x'' [])])))
   \<and> normalize_task_history (VDict (stored_history (Some ''s'') [replicate 64 CHR ''a''] 3 ''available''))
     = stored_history (Some ''s'') (fromkeys (last_n 64 [replicate 64 CHR ''a''])) 3 ''available''"
proof -
  have "note_within ''todo'' ''y'' []" by (simp add: note_within_def key_char_def)
  moreover have "\<forall>b \<in> set [replicate 64 CHR ''a'']. hex_text 64 b" by (simp add: hex_text_def hex_char_def list_all_iff)
  ultimately show ?thesis
    using continuity_metadata_is_canonical [where left = VNone and right = "VDict [(''plan'', stored_note ''x'' [])]" and key = "''todo''"
        and content = "''y''" and sources = "[]" and scope = "''s''" and batches = "[replicate 64 CHR ''a'']" and omitted = 3] by simp
qed

end
