(* ===== verification/LoopDetection.thy ===== *)
theory LoopDetection
  imports ToolCalls
begin

text \<open>
  Loop detection
  (\<^verbatim>\<open>backend/packages/harness/deerflow/agents/middlewares/loop_detection_middleware.py\<close>): after each
  model response the tool calls are hashed and counted in two sliding windows, one of identical
  call sets and one of tool names; a repetition queues a warning for the next model call or strips
  the calls. All state is kept per thread and run, in least-recently-used order. The middleware's
  lock makes every helper that changes state atomic.

  The standard library's JSON and hashing functions, and the texts of the messages, are arguments.
\<close>

section \<open>Configuration\<close>

record loop_config =
  lc_warn_threshold :: nat
  lc_hard_limit :: nat
  lc_window_size :: nat
  lc_max_tracked_threads :: nat
  lc_tool_freq_warn :: nat
  lc_tool_freq_hard_limit :: nat
  lc_tool_freq_overrides :: "(string, nat \<times> nat) odict"

definition default_loop_config :: loop_config where
  "default_loop_config = \<lparr>lc_warn_threshold = 3, lc_hard_limit = 5, lc_window_size = 20,
     lc_max_tracked_threads = 100, lc_tool_freq_warn = 30, lc_tool_freq_hard_limit = 50,
     lc_tool_freq_overrides = []\<rparr>"

definition tool_freq_window :: "loop_config \<Rightarrow> nat" where
  "tool_freq_window c =
     fold max (map (\<lambda>(_, _, hard). hard) (lc_tool_freq_overrides c))
       (max (lc_window_size c) (lc_tool_freq_hard_limit c))"

definition thresholds :: "loop_config \<Rightarrow> string \<Rightarrow> nat \<times> nat" where
  "thresholds c name =
     od_get_default (lc_tool_freq_overrides c) name (lc_tool_freq_warn c, lc_tool_freq_hard_limit c)"

definition max_scope_keys :: "loop_config \<Rightarrow> nat" where
  "max_scope_keys c = max 1 (lc_max_tracked_threads c * 2)"

definition MAX_PENDING_WARNINGS :: nat where "MAX_PENDING_WARNINGS = 4"

definition MAX_STOP_REASONS :: nat where "MAX_STOP_REASONS = 1000"

section \<open>Call keys\<close>

text \<open>
  \<^verbatim>\<open>json.loads\<close>, \<^verbatim>\<open>json.dumps\<close> with sorted keys (\<open>None\<close> where they raise), \<^verbatim>\<open>int\<close> of a string,
  \<^verbatim>\<open>str\<close> of an object, and the digest of the sorted list of keys.
\<close>

record key_ops =
  ko_loads :: "string \<Rightarrow> pyval option"
  ko_dumps :: "pyval \<Rightarrow> string option"
  ko_int :: "string \<Rightarrow> int option"
  ko_str :: "pyval \<Rightarrow> string"
  ko_digest :: "string list \<Rightarrow> string"

definition UNSERIALIZABLE_ARGS :: string where "UNSERIALIZABLE_ARGS = ''<unserializable>''"

definition OPEN_ENDED_READ :: string where "OPEN_ENDED_READ = ''end''"

definition UI_NARRATION_TOOLS :: "string list" where
  "UI_NARRATION_TOOLS = [''bash'', ''ls'', ''glob'', ''grep'']"

definition args_key :: "key_ops \<Rightarrow> pyval \<Rightarrow> string" where
  "args_key k v = (case non_empty (ko_dumps k v) of Some s \<Rightarrow> s | None \<Rightarrow> UNSERIALIZABLE_ARGS)"

definition normalize_tool_call_args :: "key_ops \<Rightarrow> pyval \<Rightarrow> dict \<times> string option" where
  "normalize_tool_call_args k raw =
     (case raw of
        VDict d \<Rightarrow> (d, None)
      | VStr s \<Rightarrow> (case ko_loads k s of
                    None \<Rightarrow> ([], Some s)
                  | Some (VDict d) \<Rightarrow> (d, None)
                  | Some v \<Rightarrow> ([], ko_dumps k v))
      | VNone \<Rightarrow> ([], None)
      | v \<Rightarrow> ([], ko_dumps k v))"

text \<open>\<^verbatim>\<open>int\<close> of a float truncates towards zero and raises on infinities and NaN.\<close>

definition int_of_float :: "pyfloat \<Rightarrow> int option" where
  "int_of_float f =
     (case f of
        Finite m e \<Rightarrow> Some (if 0 \<le> e then m * 2 ^ nat e else sgn m * (\<bar>m\<bar> div 2 ^ nat (- e)))
      | _ \<Rightarrow> None)"

definition coerce_line_number :: "key_ops \<Rightarrow> pyval \<Rightarrow> int option" where
  "coerce_line_number k v =
     map_option (\<lambda>line. max line 1)
       (case v of
          VInt i \<Rightarrow> Some i
        | VBool b \<Rightarrow> Some (if b then 1 else 0)
        | VFloat f \<Rightarrow> int_of_float f
        | VStr s \<Rightarrow> ko_int k s
        | _ \<Rightarrow> None)"

definition normalized_read_range :: "key_ops \<Rightarrow> dict \<Rightarrow> int \<times> int option" where
  "normalized_read_range k args =
     (let start = (case coerce_line_number k (od_get_default args ''start_line'' VNone) of Some s \<Rightarrow> s | None \<Rightarrow> 1)
      in case coerce_line_number k (od_get_default args ''end_line'' VNone) of
           None \<Rightarrow> (start, None)
         | Some e \<Rightarrow> if e < start then (e, Some start) else (start, Some e))"

definition stable_tool_key :: "key_ops \<Rightarrow> string \<Rightarrow> dict \<Rightarrow> string option \<Rightarrow> string" where
  "stable_tool_key k name args fallback =
     (if name = ''read_file'' \<and> fallback = None then
        let path = (let v = od_get_default args ''path'' VNone in if truthy v then v else VStr []);
            text = (case path of VStr s \<Rightarrow> s | v \<Rightarrow> args_key k v);
            (start, end) = normalized_read_range k args
        in text @ '':'' @ show_nat (nat start) @ ''-''
             @ (case end of Some e \<Rightarrow> show_nat (nat e) | None \<Rightarrow> OPEN_ENDED_READ)
      else case fallback of
        Some f \<Rightarrow> f
      | None \<Rightarrow>
          if name = ''write_file'' \<or> name = ''str_replace'' then args_key k (VDict args)
          else if name \<in> set UI_NARRATION_TOOLS
          then args_key k (VDict (filter (\<lambda>(f, _). f \<noteq> ''description'') args))
          else args_key k (VDict args))"

definition call_name :: "dict \<Rightarrow> string" where
  "call_name c = (case od_get_default c ''name'' (VStr []) of VStr n \<Rightarrow> n | _ \<Rightarrow> [])"

definition call_key :: "key_ops \<Rightarrow> dict \<Rightarrow> string" where
  "call_key k c =
     (let (args, fallback) = normalize_tool_call_args k (od_get_default c ''args'' (VDict []))
      in call_name c @ '':'' @ stable_tool_key k (call_name c) args fallback)"

definition hash_tool_calls :: "key_ops \<Rightarrow> dict list \<Rightarrow> string" where
  "hash_tool_calls k calls = ko_digest k (sort (map (call_key k) calls))"

section \<open>State\<close>

type_synonym scope_key = "string \<times> string option"

datatype loop_message =
    LoopWarning
  | FrequencyWarning string nat
  | LoopStop
  | FrequencyStop string nat

datatype loop_action = Warn | HardStop

datatype loop_layer = IdenticalCallSet | ToolFrequency

record loop_decision =
  ld_message :: loop_message
  ld_action :: loop_action
  ld_layer :: loop_layer
  ld_tool_names :: "string list"
  ld_count :: nat
  ld_threshold :: nat

record loop_state =
  ls_fallback_ids :: "(nat, nat \<times> string) odict"
  ls_history :: "(scope_key, string list) odict"
  ls_warned :: "scope_key \<Rightarrow> string set option"
  ls_names :: "scope_key \<Rightarrow> string list option"
  ls_counter :: "scope_key \<Rightarrow> (string \<Rightarrow> int option) option"
  ls_freq_warned :: "scope_key \<Rightarrow> string set option"
  ls_pending :: "(scope_key, loop_message list) odict"
  ls_touch :: "(scope_key, unit) odict"
  ls_stop_reason :: "(string option, string) odict"
  ls_stop_thread :: "(string option, string) odict"

definition new_loop :: loop_state where
  "new_loop = \<lparr>ls_fallback_ids = [], ls_history = [], ls_warned = Map.empty, ls_names = Map.empty,
     ls_counter = Map.empty, ls_freq_warned = Map.empty, ls_pending = [], ls_touch = [],
     ls_stop_reason = [], ls_stop_thread = []\<rparr>"

text \<open>\<^verbatim>\<open>BoundedDict.__setitem__\<close>.\<close>

definition bounded_set :: "nat \<Rightarrow> 'k \<Rightarrow> 'v \<Rightarrow> ('k, 'v) odict \<Rightarrow> ('k, 'v) odict" where
  "bounded_set maxsize k v d =
     od_set k v (if od_get d k = None \<and> maxsize \<le> length d then tl d else d)"

section \<open>Scopes\<close>

text \<open>
  What the code reads of a runtime: the thread id and run id of its context, the run id of its
  execution info, and the anchor object, with its address.
\<close>

record runtime =
  rt_thread_id :: "string option"
  rt_run_id :: "string option option"
  rt_execution_run_id :: "string option"
  rt_anchor :: "nat \<times> nat"

definition get_thread_id :: "runtime \<Rightarrow> string" where
  "get_thread_id rt = (case non_empty (rt_thread_id rt) of Some t \<Rightarrow> t | None \<Rightarrow> ''default'')"

text \<open>\<open>hex\<close> is the hexadecimal form of the fresh UUID.\<close>

definition get_run_id :: "loop_config \<Rightarrow> string \<Rightarrow> runtime \<Rightarrow> loop_state \<Rightarrow> string option \<times> loop_state" where
  "get_run_id c hex rt st =
     (case rt_run_id rt of
        Some r \<Rightarrow> (r, st)
      | None \<Rightarrow>
          (case rt_execution_run_id rt of
             Some r \<Rightarrow> (Some r, st)
           | None \<Rightarrow>
               let (anchor_id, anchor) = rt_anchor rt;
                   ids = ls_fallback_ids st;
                   fresh = ''__invocation__:'' @ hex
               in case od_get ids anchor_id of
                    Some (a, t) \<Rightarrow>
                      if a = anchor then (Some t, st\<lparr>ls_fallback_ids := od_move_to_end anchor_id ids\<rparr>)
                      else (Some fresh, st\<lparr>ls_fallback_ids :=
                              last_n (max_scope_keys c) (od_move_to_end anchor_id (od_set anchor_id (anchor, fresh) ids))\<rparr>)
                  | None \<Rightarrow> (Some fresh, st\<lparr>ls_fallback_ids :=
                              last_n (max_scope_keys c) (od_move_to_end anchor_id (od_set anchor_id (anchor, fresh) ids))\<rparr>)))"

definition release_fallback_run_id :: "runtime \<Rightarrow> loop_state \<Rightarrow> loop_state" where
  "release_fallback_run_id rt st =
     (if rt_run_id rt \<noteq> None \<or> rt_execution_run_id rt \<noteq> None then st
      else let (anchor_id, anchor) = rt_anchor rt
           in case od_get (ls_fallback_ids st) anchor_id of
                Some (a, _) \<Rightarrow> if a = anchor then st\<lparr>ls_fallback_ids := od_del anchor_id (ls_fallback_ids st)\<rparr> else st
              | None \<Rightarrow> st)"

definition run_scope_key :: "loop_config \<Rightarrow> string \<Rightarrow> runtime \<Rightarrow> loop_state \<Rightarrow> scope_key \<times> loop_state" where
  "run_scope_key c hex rt st = (case get_run_id c hex rt st of (r, st1) \<Rightarrow> ((get_thread_id rt, r), st1))"

definition drop_pending_key :: "scope_key \<Rightarrow> loop_state \<Rightarrow> loop_state" where
  "drop_pending_key k st = st\<lparr>ls_pending := od_del k (ls_pending st), ls_touch := od_del k (ls_touch st)\<rparr>"

definition forget_scope :: "scope_key \<Rightarrow> loop_state \<Rightarrow> loop_state" where
  "forget_scope k st =
     drop_pending_key k
       (st\<lparr>ls_warned := (ls_warned st)(k := None), ls_names := (ls_names st)(k := None),
          ls_counter := (ls_counter st)(k := None), ls_freq_warned := (ls_freq_warned st)(k := None)\<rparr>)"

fun evict_oldest :: "nat \<Rightarrow> (scope_key, string list) odict \<Rightarrow> loop_state \<Rightarrow> loop_state" where
  "evict_oldest cap [] st = st\<lparr>ls_history := []\<rparr>"
| "evict_oldest cap ((k, h) # hs) st =
     (if cap < length ((k, h) # hs) then evict_oldest cap hs (forget_scope k st)
      else st\<lparr>ls_history := (k, h) # hs\<rparr>)"

definition evict_if_needed :: "loop_config \<Rightarrow> loop_state \<Rightarrow> loop_state" where
  "evict_if_needed c st = evict_oldest (lc_max_tracked_threads c) (ls_history st) st"

section \<open>Tracking a response\<close>

record freq_window =
  fw_names :: "string list"
  fw_counter :: "string \<Rightarrow> int option"
  fw_warned :: "string set"

definition count_of :: "(string \<Rightarrow> int option) \<Rightarrow> string \<Rightarrow> int" where
  "count_of counter n = (case counter n of Some c \<Rightarrow> c | None \<Rightarrow> 0)"

text \<open>The inner \<^verbatim>\<open>while\<close>: names leave the window, and a burst that decayed may warn again.\<close>

fun trim_window ::
  "loop_config \<Rightarrow> string list \<Rightarrow> (string \<Rightarrow> int option) \<Rightarrow> string set \<Rightarrow> freq_window" where
  "trim_window c [] counter warned = \<lparr>fw_names = [], fw_counter = counter, fw_warned = warned\<rparr>"
| "trim_window c (old # names) counter warned =
     (if tool_freq_window c < length (old # names)
      then let n = count_of counter old - 1
           in trim_window c names (counter(old := if n \<le> 0 then None else Some n))
                (if n < int (fst (thresholds c old)) then warned - {old} else warned)
      else \<lparr>fw_names = old # names, fw_counter = counter, fw_warned = warned\<rparr>)"

definition push_name :: "loop_config \<Rightarrow> string \<Rightarrow> freq_window \<Rightarrow> freq_window" where
  "push_name c name w =
     trim_window c (fw_names w @ [name]) ((fw_counter w)(name \<mapsto> count_of (fw_counter w) name + 1)) (fw_warned w)"

text \<open>Layer 2, one call after the other: a hard stop, or the warning to give so far.\<close>

fun frequency_layer ::
  "loop_config \<Rightarrow> string list \<Rightarrow> loop_decision option \<Rightarrow> freq_window
     \<Rightarrow> loop_decision option \<times> loop_decision option \<times> freq_window" where
  "frequency_layer c [] warning w = (None, warning, w)"
| "frequency_layer c (name # names) warning w =
     (if name = [] then frequency_layer c names warning w
      else let w1 = push_name c name w;
               n = count_of (fw_counter w1) name;
               (warn, hard) = thresholds c name
           in if int hard \<le> n
              then (Some \<lparr>ld_message = FrequencyStop name (nat n), ld_action = HardStop, ld_layer = ToolFrequency,
                         ld_tool_names = [name], ld_count = nat n, ld_threshold = hard\<rparr>, warning, w1)
              else if int warn \<le> n
              then frequency_layer c names
                     (if warning = None \<and> name \<notin> fw_warned w1
                      then Some \<lparr>ld_message = FrequencyWarning name (nat n), ld_action = Warn,
                                 ld_layer = ToolFrequency, ld_tool_names = [name], ld_count = nat n,
                                 ld_threshold = warn\<rparr>
                      else warning) w1
              else frequency_layer c names warning (w1\<lparr>fw_warned := fw_warned w1 - {name}\<rparr>))"

definition touch_history :: "loop_config \<Rightarrow> scope_key \<Rightarrow> loop_state \<Rightarrow> loop_state" where
  "touch_history c k st =
     (if od_get (ls_history st) k \<noteq> None then st\<lparr>ls_history := od_move_to_end k (ls_history st)\<rparr>
      else evict_if_needed c (st\<lparr>ls_history := od_set k [] (ls_history st)\<rparr>))"

definition record_hash :: "loop_config \<Rightarrow> scope_key \<Rightarrow> string \<Rightarrow> loop_state \<Rightarrow> string list \<times> loop_state" where
  "record_hash c k h st =
     (let h1 = od_get_default (ls_history st) k [] @ [h];
          history = (if lc_window_size c < length h1 then py_from h1 (- int (lc_window_size c)) else h1);
          warned = (case ls_warned st k of
                      None \<Rightarrow> None
                    | Some w \<Rightarrow> if w \<inter> set history = {} then None else Some (w \<inter> set history))
      in (history, st\<lparr>ls_history := od_set k history (ls_history st), ls_warned := (ls_warned st)(k := warned)\<rparr>))"

definition window_of :: "loop_state \<Rightarrow> scope_key \<Rightarrow> freq_window" where
  "window_of st k =
     \<lparr>fw_names = (case ls_names st k of Some ns \<Rightarrow> ns | None \<Rightarrow> []),
      fw_counter = (case ls_counter st k of Some n \<Rightarrow> n | None \<Rightarrow> Map.empty),
      fw_warned = (case ls_freq_warned st k of Some w \<Rightarrow> w | None \<Rightarrow> {})\<rparr>"

definition put_window :: "scope_key \<Rightarrow> freq_window \<Rightarrow> loop_state \<Rightarrow> loop_state" where
  "put_window k w st =
     st\<lparr>ls_names := (ls_names st)(k \<mapsto> fw_names w), ls_counter := (ls_counter st)(k \<mapsto> fw_counter w),
        ls_freq_warned := (ls_freq_warned st)(k \<mapsto> fw_warned w)\<rparr>"

definition mark_warning :: "scope_key \<Rightarrow> string \<Rightarrow> loop_decision \<Rightarrow> loop_state \<Rightarrow> loop_state" where
  "mark_warning k h d st =
     (if ld_layer d = IdenticalCallSet
      then st\<lparr>ls_warned := (ls_warned st)(k \<mapsto> insert h (case ls_warned st k of Some w \<Rightarrow> w | None \<Rightarrow> {}))\<rparr>
      else let name = hd (ld_tool_names d); w = window_of st k
           in if int (ld_threshold d) \<le> count_of (fw_counter w) name
              then st\<lparr>ls_freq_warned := (ls_freq_warned st)(k \<mapsto> insert name (fw_warned w))\<rparr>
              else st)"

text \<open>\<^verbatim>\<open>_track_and_check\<close> under the lock, for a scope, a hash and the names of the calls.\<close>

definition track ::
  "loop_config \<Rightarrow> scope_key \<Rightarrow> string \<Rightarrow> string list \<Rightarrow> loop_state \<Rightarrow> loop_decision option \<times> loop_state" where
  "track c k h names st =
     (let (history, st1) = record_hash c k h (touch_history c k st);
          n = count_list history h;
          shown = map (\<lambda>x. if x = [] then ''?'' else x) names
      in if lc_hard_limit c \<le> n
         then (Some \<lparr>ld_message = LoopStop, ld_action = HardStop, ld_layer = IdenticalCallSet,
                     ld_tool_names = shown, ld_count = n, ld_threshold = lc_hard_limit c\<rparr>, st1)
         else let seen = (case ls_warned st1 k of Some w \<Rightarrow> w | None \<Rightarrow> {});
                  candidate = (if lc_warn_threshold c \<le> n \<and> h \<notin> seen
                    then Some \<lparr>ld_message = LoopWarning, ld_action = Warn, ld_layer = IdenticalCallSet,
                               ld_tool_names = shown, ld_count = n, ld_threshold = lc_warn_threshold c\<rparr>
                    else None);
                  (stop, warning, w) = frequency_layer c names candidate (window_of st1 k);
                  st2 = put_window k w st1
              in case stop of
                   Some d \<Rightarrow> (Some d, st2)
                 | None \<Rightarrow> (warning, case warning of None \<Rightarrow> st2 | Some d \<Rightarrow> mark_warning k h d st2))"

definition ai_calls :: "ai_msg \<Rightarrow> dict list" where
  "ai_calls m = List.map_filter as_dict (am_tool_calls m)"

definition track_and_check ::
  "key_ops \<Rightarrow> loop_config \<Rightarrow> string \<Rightarrow> runtime \<Rightarrow> chat_msg list \<Rightarrow> loop_state
     \<Rightarrow> loop_decision option \<times> loop_state" where
  "track_and_check ops c hex rt messages st =
     (if messages = [] then (None, st)
      else case last messages of
        Ai m \<Rightarrow>
          if ai_calls m = [] then (None, st)
          else let (k, st1) = run_scope_key c hex rt st
               in track c k (hash_tool_calls ops (ai_calls m)) (map call_name (ai_calls m)) st1
      | _ \<Rightarrow> (None, st))"

section \<open>Warnings\<close>

definition touch_pending :: "scope_key \<Rightarrow> loop_state \<Rightarrow> loop_state" where
  "touch_pending k st = st\<lparr>ls_touch := od_move_to_end k (od_set k () (ls_touch st))\<rparr>"

definition prune_pending :: "loop_config \<Rightarrow> scope_key \<Rightarrow> loop_state \<Rightarrow> loop_state" where
  "prune_pending c protected st =
     (if length (ls_touch st) \<le> max_scope_keys c then st
      else fold drop_pending_key
             (take (length (ls_touch st) - max_scope_keys c)
                (filter (\<lambda>k. k \<noteq> protected) (od_keys (ls_touch st)))) st)"

definition queue_warning :: "loop_config \<Rightarrow> scope_key \<Rightarrow> loop_message \<Rightarrow> loop_state \<Rightarrow> loop_state" where
  "queue_warning c k warning st =
     (let q = od_get_default (ls_pending st) k [];
          q1 = (if warning \<in> set q then q else q @ [warning]);
          q2 = (if MAX_PENDING_WARNINGS < length q1 then drop (length q1 - MAX_PENDING_WARNINGS) q1 else q1)
      in prune_pending c k (touch_pending k (st\<lparr>ls_pending := od_set k q2 (ls_pending st)\<rparr>)))"

definition drain_warnings :: "scope_key \<Rightarrow> loop_state \<Rightarrow> loop_message list \<times> loop_state" where
  "drain_warnings k st = (od_get_default (ls_pending st) k [], drop_pending_key k st)"

definition restore_warnings ::
  "loop_config \<Rightarrow> scope_key \<Rightarrow> loop_message list \<Rightarrow> loop_state \<Rightarrow> loop_state" where
  "restore_warnings c k warnings st =
     (if warnings = [] then st
      else let q = od_get_default (ls_pending st) k [];
               q1 = take MAX_PENDING_WARNINGS (filter (\<lambda>w. w \<notin> set q) warnings @ q)
           in prune_pending c k (touch_pending k (st\<lparr>ls_pending := od_set k q1 (ls_pending st)\<rparr>)))"

definition inject_warnings :: "(loop_message \<Rightarrow> string) \<Rightarrow> loop_message list \<Rightarrow> 'm list \<Rightarrow> (string \<Rightarrow> 'm) \<Rightarrow> 'm list" where
  "inject_warnings render warnings messages human =
     (if warnings = [] then messages
      else messages @ [human (py_join [char_of (10::nat), char_of (10::nat)] (fromkeys (map render warnings)))])"

text \<open>
  \<^verbatim>\<open>wrap_model_call\<close>: \<open>handler\<close> is the model call, \<open>meanwhile\<close> what other runs do to the state while it is
  in progress.
\<close>

definition wrap_model_call ::
  "(loop_message \<Rightarrow> string) \<Rightarrow> (string \<Rightarrow> 'm) \<Rightarrow> loop_config \<Rightarrow> scope_key \<Rightarrow> ('m list \<Rightarrow> 'e + 'r)
     \<Rightarrow> (loop_state \<Rightarrow> loop_state) \<Rightarrow> 'm list \<Rightarrow> loop_state \<Rightarrow> ('e + 'r) \<times> loop_state" where
  "wrap_model_call render human c k handler meanwhile messages st =
     (let (warnings, st1) = drain_warnings k st;
          result = handler (inject_warnings render warnings messages human);
          st2 = meanwhile st1
      in (result, case result of Inl _ \<Rightarrow> restore_warnings c k warnings st2 | Inr _ \<Rightarrow> st2))"

section \<open>The hooks\<close>

definition append_text :: "key_ops \<Rightarrow> pyval \<Rightarrow> string \<Rightarrow> pyval" where
  "append_text ops content text =
     (let gap = [char_of (10::nat), char_of (10::nat)]
      in case content of
           VNone \<Rightarrow> VStr text
         | VList bs \<Rightarrow> VList (bs @ [VDict [(''type'', VStr ''text''), (''text'', VStr (gap @ text))]])
         | VStr s \<Rightarrow> VStr (s @ gap @ text)
         | v \<Rightarrow> VStr (ko_str ops v @ gap @ text))"

text \<open>
  \<^verbatim>\<open>after_model\<close>: the message that replaces the last one, if any, and the reason to stop that is also
  written to the runtime context.
\<close>

definition after_model ::
  "key_ops \<Rightarrow> (loop_message \<Rightarrow> string) \<Rightarrow> loop_config \<Rightarrow> string \<Rightarrow> runtime \<Rightarrow> chat_msg list \<Rightarrow> loop_state
     \<Rightarrow> ai_msg option \<times> string option \<times> loop_state" where
  "after_model ops render c hex rt messages st =
     (case track_and_check ops c hex rt messages st of
        (None, st1) \<Rightarrow> (None, None, st1)
      | (Some d, st1) \<Rightarrow>
          let (k, st2) = run_scope_key c hex rt st1
          in if ld_action d = HardStop
             then (case last messages of
                     Ai m \<Rightarrow>
                       (Some (clone_with_tool_calls m []
                          (Some (append_text ops (am_content m) (render (ld_message d))))), Some ''loop_capped'',
                        st2\<lparr>ls_stop_reason := bounded_set MAX_STOP_REASONS (snd k) ''loop_capped'' (ls_stop_reason st2),
                            ls_stop_thread := bounded_set MAX_STOP_REASONS (snd k) (fst k) (ls_stop_thread st2)\<rparr>)
                   | _ \<Rightarrow> (None, None, st2))
             else (None, None, queue_warning c k (ld_message d) st2))"

definition after_agent :: "loop_config \<Rightarrow> string \<Rightarrow> runtime \<Rightarrow> loop_state \<Rightarrow> loop_state" where
  "after_agent c hex rt st =
     (case run_scope_key c hex rt st of (k, st1) \<Rightarrow> release_fallback_run_id rt (drop_pending_key k st1))"

definition consume_stop_reason :: "string option \<Rightarrow> loop_state \<Rightarrow> string option \<times> loop_state" where
  "consume_stop_reason r st =
     (od_get (ls_stop_reason st) r,
      st\<lparr>ls_stop_reason := od_del r (ls_stop_reason st), ls_stop_thread := od_del r (ls_stop_thread st)\<rparr>)"

definition reset_loop :: "string option \<Rightarrow> loop_state \<Rightarrow> loop_state" where
  "reset_loop thread_id st =
     (case non_empty thread_id of
        Some t \<Rightarrow>
          let runs = od_keys (filter (\<lambda>(_, owner). owner = t) (ls_stop_thread st))
          in st\<lparr>ls_history := filter (\<lambda>(k, _). fst k \<noteq> t) (ls_history st),
                ls_warned := (\<lambda>k. if fst k = t then None else ls_warned st k),
                ls_names := (\<lambda>k. if fst k = t then None else ls_names st k),
                ls_counter := (\<lambda>k. if fst k = t then None else ls_counter st k),
                ls_freq_warned := (\<lambda>k. if fst k = t then None else ls_freq_warned st k),
                ls_pending := filter (\<lambda>(k, _). fst k \<noteq> t) (ls_pending st),
                ls_touch := filter (\<lambda>(k, _). fst k \<noteq> t) (ls_touch st),
                ls_stop_reason := filter (\<lambda>(r, _). r \<notin> set runs) (ls_stop_reason st),
                ls_stop_thread := filter (\<lambda>(r, _). r \<notin> set runs) (ls_stop_thread st)\<rparr>
      | None \<Rightarrow> new_loop)"

end
