(* ===== verification/LoopProofs.thy ===== *)
theory LoopProofs
  imports LoopDetection
begin

text \<open>
  What the loop detection guarantees: counters that mirror their windows, repetitions that are cut
  off, bounded state, and warnings that are neither lost nor repeated.
\<close>

section \<open>The frequency window\<close>

definition mirrors :: "(string \<Rightarrow> int option) \<Rightarrow> string list \<Rightarrow> bool" where
  "mirrors counter names \<longleftrightarrow> (\<forall>n. count_of counter n = int (count_list names n))"

lemma mirrors_push: "mirrors counter names \<Longrightarrow> mirrors (counter(n \<mapsto> count_of counter n + 1)) (names @ [n])"
  by (auto simp: mirrors_def count_of_def)

lemma mirrors_pop:
  assumes "mirrors counter (old # names)"
  defines "m \<equiv> count_of counter old - 1"
  shows "mirrors (counter(old := if m \<le> 0 then None else Some m)) names"
proof -
  have m: "m = int (count_list names old)" using assms(1) by (simp add: mirrors_def m_def)
  have "count_of (counter(old := if m \<le> 0 then None else Some m)) n = int (count_list names n)" for n
  proof (cases "n = old")
    case True
    then show ?thesis using m by (simp add: count_of_def)
  next
    case False
    have "count_of counter n = int (count_list (old # names) n)" using assms(1) unfolding mirrors_def by blast
    then show ?thesis using False by (simp add: count_of_def)
  qed
  then show ?thesis by (simp add: mirrors_def)
qed

lemma last_n_step: "n < length (x # xs) \<Longrightarrow> last_n n (x # xs) = last_n n xs"
  by (simp add: last_n_def Suc_diff_le)

lemma trim_window_names:
  assumes "mirrors counter names"
  shows "fw_names (trim_window c names counter warned) = last_n (tool_freq_window c) names
    \<and> mirrors (fw_counter (trim_window c names counter warned)) (last_n (tool_freq_window c) names)
    \<and> fw_warned (trim_window c names counter warned) \<subseteq> warned"
  using assms
proof (induction names arbitrary: counter warned)
  case Nil
  then show ?case by simp
next
  case (Cons old names)
  show ?case
  proof (cases "tool_freq_window c < length (old # names)")
    case True
    let ?m = "count_of counter old - 1"
    let ?w = "if ?m < int (fst (thresholds c old)) then warned - {old} else warned"
    note IH = Cons.IH [OF mirrors_pop [OF Cons.prems], of ?w]
    have "trim_window c (old # names) counter warned
        = trim_window c names (counter(old := if ?m \<le> 0 then None else Some ?m)) ?w"
      using True by (simp only: trim_window.simps(2) if_True Let_def)
    moreover have "?w \<subseteq> warned" by auto
    ultimately show ?thesis using IH True by (simp only: last_n_step) blast
  next
    case False
    then show ?thesis using Cons.prems by simp
  qed
qed

text \<open>A mark means that the burst is still in the window.\<close>

definition marks_live :: "loop_config \<Rightarrow> freq_window \<Rightarrow> bool" where
  "marks_live c w \<longleftrightarrow> (\<forall>n \<in> fw_warned w. int (fst (thresholds c n)) \<le> count_of (fw_counter w) n)"

lemma trim_window_marks:
  assumes "\<forall>n \<in> warned. int (fst (thresholds c n)) \<le> count_of counter n"
  shows "marks_live c (trim_window c names counter warned)"
  using assms
proof (induction names arbitrary: counter warned)
  case Nil
  then show ?case by (simp add: marks_live_def)
next
  case (Cons old names)
  show ?case
  proof (cases "tool_freq_window c < length (old # names)")
    case True
    let ?m = "count_of counter old - 1"
    let ?w = "if ?m < int (fst (thresholds c old)) then warned - {old} else warned"
    let ?c = "counter(old := if ?m \<le> 0 then None else Some ?m)"
    have "\<forall>n \<in> ?w. int (fst (thresholds c n)) \<le> count_of ?c n"
    proof
      fix n assume n: "n \<in> ?w"
      show "int (fst (thresholds c n)) \<le> count_of ?c n"
      proof (cases "n = old")
        case True
        then have "int (fst (thresholds c old)) \<le> ?m" using n by (auto split: if_splits)
        moreover have "?m \<le> count_of ?c old" by (simp add: count_of_def)
        ultimately show ?thesis unfolding True by linarith
      next
        case False
        then have "count_of ?c n = count_of counter n" by (simp add: count_of_def)
        then show ?thesis using n Cons.prems by (auto split: if_splits)
      qed
    qed
    from Cons.IH [OF this] show ?thesis using True by (simp only: trim_window.simps(2) if_True Let_def)
  next
    case False
    then show ?thesis using Cons.prems by (simp add: marks_live_def)
  qed
qed

definition window_ok :: "loop_config \<Rightarrow> freq_window \<Rightarrow> bool" where
  "window_ok c w \<longleftrightarrow> length (fw_names w) \<le> tool_freq_window c \<and> mirrors (fw_counter w) (fw_names w) \<and> marks_live c w"

lemma push_name_ok:
  assumes "window_ok c w"
  shows "window_ok c (push_name c n w)"
    "fw_names (push_name c n w) = last_n (tool_freq_window c) (fw_names w @ [n])"
proof -
  have m: "mirrors ((fw_counter w)(n \<mapsto> count_of (fw_counter w) n + 1)) (fw_names w @ [n])"
    using assms mirrors_push by (simp add: window_ok_def)
  note t = trim_window_names [OF m, of c "fw_warned w"]
  have "\<forall>j \<in> fw_warned w. int (fst (thresholds c j)) \<le> count_of ((fw_counter w)(n \<mapsto> count_of (fw_counter w) n + 1)) j"
    using assms by (auto simp: window_ok_def marks_live_def count_of_def)
  then have "marks_live c (push_name c n w)" unfolding push_name_def by (rule trim_window_marks)
  then show "window_ok c (push_name c n w)" using t by (simp add: window_ok_def push_name_def)
  show "fw_names (push_name c n w) = last_n (tool_freq_window c) (fw_names w @ [n])"
    using t by (simp add: push_name_def)
qed

lemma last_n_append: "last_n n (last_n n xs @ ys) = last_n n (xs @ ys)"
proof (cases "n \<le> length xs")
  case True
  then show ?thesis by (simp add: last_n_def add.commute)
qed simp

definition below_hard :: "loop_config \<Rightarrow> freq_window \<Rightarrow> bool" where
  "below_hard c w \<longleftrightarrow> (\<forall>n. n \<noteq> [] \<longrightarrow> count_list (fw_names w) n < snd (thresholds c n))"

lemma count_last_n: "count_list (last_n n xs) x \<le> count_list xs x"
  by (metis append_take_drop_id count_list_append last_n_def le_add2)

lemma window_ok_unmark: "window_ok c w \<Longrightarrow> window_ok c (w\<lparr>fw_warned := fw_warned w - {n}\<rparr>)"
  by (simp add: window_ok_def marks_live_def)

lemma frequency_layer_ok:
  assumes "window_ok c w" "frequency_layer c names warning w = (stop, warning', w')"
  shows "window_ok c w'"
  using assms
proof (induction names arbitrary: w warning)
  case (Cons n names)
  note ok = push_name_ok(1) [OF Cons.prems(1), of n]
  show ?case
    using Cons.prems(2) Cons.IH Cons.prems(1) ok window_ok_unmark [OF ok, of n]
    by (auto simp: Let_def case_prod_beta split: if_splits)
qed simp

text \<open>A batch that is let through is counted in full, and leaves every tool below its limit.\<close>

lemma frequency_layer_admits:
  assumes "window_ok c w" "below_hard c w" "frequency_layer c names warning w = (None, warning', w')"
  shows "fw_names w' = last_n (tool_freq_window c) (fw_names w @ filter (\<lambda>n. n \<noteq> []) names) \<and> below_hard c w'"
  using assms
proof (induction names arbitrary: w warning)
  case Nil
  then show ?case by (auto simp: window_ok_def)
next
  case (Cons n names)
  show ?case
  proof (cases "n = []")
    case True
    then show ?thesis using Cons.IH [OF Cons.prems(1,2)] Cons.prems(3) by simp
  next
    case False
    let ?w1 = "push_name c n w"
    note p = push_name_ok [OF Cons.prems(1), of n]
    have less: "\<not> int (snd (thresholds c n)) \<le> count_of (fw_counter ?w1) n"
      using Cons.prems(3) False by (auto simp: Let_def case_prod_beta split: if_splits)
    have b: "below_hard c ?w1"
      unfolding below_hard_def
    proof (intro allI impI)
      fix j :: string assume j: "j \<noteq> []"
      show "count_list (fw_names ?w1) j < snd (thresholds c j)"
      proof (cases "j = n")
        case True
        have "count_of (fw_counter ?w1) n = int (count_list (fw_names ?w1) n)"
          using p(1) by (simp add: window_ok_def mirrors_def)
        then show ?thesis using less True by simp
      next
        case False
        have "count_list (fw_names ?w1) j \<le> count_list (fw_names w @ [n]) j"
          unfolding p(2) by (rule count_last_n)
        also have "\<dots> = count_list (fw_names w) j" using False by simp
        finally show ?thesis using Cons.prems(2) j unfolding below_hard_def by (meson le_less_trans)
      qed
    qed
    obtain w2 v where w2: "frequency_layer c names v w2 = (None, warning', w')" "w2 = ?w1 \<or> w2 = ?w1\<lparr>fw_warned := fw_warned ?w1 - {n}\<rparr>"
      using Cons.prems(3) False less by (auto simp: Let_def case_prod_beta split: if_splits)
    then have w2': "window_ok c w2" "below_hard c w2" "fw_names w2 = fw_names ?w1"
      using p(1) b window_ok_unmark [OF p(1)] by (auto simp: below_hard_def)
    from Cons.IH [OF w2'(1,2) w2(1)] show ?thesis using False p(2) w2'(3) by (simp add: last_n_append)
  qed
qed

section \<open>Runs\<close>

text \<open>The configuration's own bounds.\<close>

definition config_ok :: "loop_config \<Rightarrow> bool" where
  "config_ok c \<longleftrightarrow> 0 < lc_window_size c \<and> 0 < lc_hard_limit c \<and> 0 < lc_max_tracked_threads c
     \<and> 0 < lc_tool_freq_hard_limit c \<and> (\<forall>(n, w, hard) \<in> set (lc_tool_freq_overrides c). 0 < hard)"

lemma thresholds_cases:
  "snd (thresholds c n) = lc_tool_freq_hard_limit c
   \<or> (\<exists>w. (n, w, snd (thresholds c n)) \<in> set (lc_tool_freq_overrides c))"
proof (cases "od_get (lc_tool_freq_overrides c) n")
  case None
  then show ?thesis by (simp add: thresholds_def od_get_default_def)
next
  case (Some p)
  from map_of_SomeD [OF this] show ?thesis by (cases p) (auto simp: thresholds_def od_get_default_def Some)
qed

lemma thresholds_pos: "config_ok c \<Longrightarrow> 0 < snd (thresholds c n)"
  using thresholds_cases [of c n] by (fastforce simp: config_ok_def)

lemma fold_max_ge: "(m :: nat) \<le> fold max xs m \<and> (\<forall>x \<in> set xs. x \<le> fold max xs m)"
proof (induction xs arbitrary: m)
  case (Cons x xs)
  show ?case using Cons.IH [of "max x m"] by simp
qed simp

text \<open>The window is long enough for every limit it is compared with.\<close>

lemma thresholds_fit: "snd (thresholds c n) \<le> tool_freq_window c"
  using thresholds_cases [of c n]
proof
  assume "snd (thresholds c n) = lc_tool_freq_hard_limit c"
  then show ?thesis
    using fold_max_ge [of "max (lc_window_size c) (lc_tool_freq_hard_limit c)"] unfolding tool_freq_window_def
    by (metis le_trans max.cobounded2)
next
  assume "\<exists>w. (n, w, snd (thresholds c n)) \<in> set (lc_tool_freq_overrides c)"
  then have "snd (thresholds c n) \<in> set (map (\<lambda>(_, _, hard). hard) (lc_tool_freq_overrides c))" by force
  then show ?thesis using fold_max_ge unfolding tool_freq_window_def by blast
qed

fun track_all ::
  "loop_config \<Rightarrow> (scope_key \<times> string \<times> string list) list \<Rightarrow> loop_state
     \<Rightarrow> loop_decision option list \<times> loop_state" where
  "track_all c [] st = ([], st)"
| "track_all c ((k, h, names) # evs) st =
     (let (d, st1) = track c k h names st; (ds, st2) = track_all c evs st1 in (d # ds, st2))"

definition stopped :: "loop_decision option \<Rightarrow> bool" where
  "stopped d \<longleftrightarrow> (case d of None \<Rightarrow> False | Some x \<Rightarrow> ld_action x = HardStop)"

section \<open>The view of one scope\<close>

lemma evict_oldest_room: "length hs \<le> cap \<Longrightarrow> evict_oldest cap hs st = st\<lparr>ls_history := hs\<rparr>"
  by (cases hs) auto

definition room :: "loop_config \<Rightarrow> scope_key set \<Rightarrow> loop_state \<Rightarrow> bool" where
  "room c S st \<longleftrightarrow> od_wf (ls_history st) \<and> set (od_keys (ls_history st)) \<subseteq> S
     \<and> finite S \<and> card S \<le> lc_max_tracked_threads c"

lemma touch_history_room:
  assumes "room c S st" "k \<in> S"
  shows "room c S (touch_history c k st)" "window_of (touch_history c k st) = window_of st"
    "od_get_default (ls_history (touch_history c k st)) j [] = od_get_default (ls_history st) j []"
    "ls_warned (touch_history c k st) = ls_warned st"
proof -
  let ?new = "od_set k [] (ls_history st)"
  have new: "od_wf ?new" "set (od_keys ?new) \<subseteq> S"
    using assms by (auto simp: room_def od_keys_set)
  have "length (od_keys ?new) = card (set (od_keys ?new))" using distinct_card [OF new(1)] by simp
  also have "\<dots> \<le> card S" using new(2) assms(1) by (simp add: room_def card_mono)
  finally have "length ?new \<le> lc_max_tracked_threads c" using assms(1) by (simp add: room_def)
  then have t: "touch_history c k st = (if od_get (ls_history st) k \<noteq> None
      then st\<lparr>ls_history := od_move_to_end k (ls_history st)\<rparr> else st\<lparr>ls_history := ?new\<rparr>)"
    by (simp add: touch_history_def evict_if_needed_def evict_oldest_room)
  have "set (od_keys (od_move_to_end k (ls_history st))) \<subseteq> S" if "od_get (ls_history st) k \<noteq> None"
    using assms(1) that by (auto simp: room_def set_keys_move_to_end)
  then show "room c S (touch_history c k st)" using assms(1) new by (simp add: t room_def)
  show "window_of (touch_history c k st) = window_of st" by (simp add: t window_of_def fun_eq_iff)
  show "od_get_default (ls_history (touch_history c k st)) j [] = od_get_default (ls_history st) j []"
    by (simp add: t od_get_default_def od_get_move_to_end update_conv')
  show "ls_warned (touch_history c k st) = ls_warned st" by (simp add: t)
qed

lemma record_hash_parts:
  assumes "0 < lc_window_size c" "record_hash c k h st = (history, st1)"
  shows "history = last_n (lc_window_size c) (od_get_default (ls_history st) k [] @ [h])"
    "ls_history st1 = od_set k history (ls_history st)" "window_of st1 = window_of st"
proof -
  show "history = last_n (lc_window_size c) (od_get_default (ls_history st) k [] @ [h])"
    using assms by (auto simp: record_hash_def Let_def py_from_last_n split: if_splits)
  show "ls_history st1 = od_set k history (ls_history st)" "window_of st1 = window_of st"
    using assms(2) by (auto simp: record_hash_def Let_def window_of_def fun_eq_iff)
qed

lemma window_of_put: "window_of (put_window k w st) j = (if j = k then w else window_of st j)"
  by (simp add: put_window_def window_of_def)

lemma ls_history_put [simp]: "ls_history (put_window k w st) = ls_history st"
  by (simp add: put_window_def)

lemma mark_warning_parts:
  "ls_history (mark_warning k h d st) = ls_history st"
  "fw_names (window_of (mark_warning k h d st) j) = fw_names (window_of st j)"
  "fw_counter (window_of (mark_warning k h d st) j) = fw_counter (window_of st j)"
  "j \<noteq> k \<Longrightarrow> window_of (mark_warning k h d st) j = window_of st j"
  by (simp_all add: mark_warning_def window_of_def Let_def)

lemma mark_warning_ok:
  assumes "window_ok c (window_of st k)"
    "ld_layer d = ToolFrequency \<Longrightarrow> ld_threshold d = fst (thresholds c (hd (ld_tool_names d)))"
  shows "window_ok c (window_of (mark_warning k h d st) k)"
proof -
  have "marks_live c (window_of (mark_warning k h d st) k)"
    using assms by (cases "ld_layer d") (auto simp: window_ok_def marks_live_def mark_warning_def window_of_def Let_def)
  then show ?thesis using assms(1) by (simp add: window_ok_def mark_warning_parts)
qed

text \<open>A frequency warning carries the threshold of its tool.\<close>

definition sound_warning :: "loop_config \<Rightarrow> loop_decision option \<Rightarrow> bool" where
  "sound_warning c d \<longleftrightarrow> (\<forall>x. d = Some x \<longrightarrow> ld_action x = Warn
     \<and> (ld_layer x = ToolFrequency \<longrightarrow> ld_threshold x = fst (thresholds c (hd (ld_tool_names x)))))"

lemma frequency_layer_sound:
  "sound_warning c warning \<Longrightarrow> frequency_layer c names warning w = (stop, warning', w')
    \<Longrightarrow> sound_warning c warning' \<and> (\<forall>x. stop = Some x \<longrightarrow> ld_action x = HardStop)"
proof (induction names arbitrary: w warning)
  case (Cons n names)
  let ?w1 = "push_name c n w"
  let ?n = "count_of (fw_counter ?w1) n"
  let ?warning = "if warning = None \<and> n \<notin> fw_warned ?w1
    then Some \<lparr>ld_message = FrequencyWarning n (nat ?n), ld_action = Warn, ld_layer = ToolFrequency,
      ld_tool_names = [n], ld_count = nat ?n, ld_threshold = fst (thresholds c n)\<rparr> else warning"
  have w: "sound_warning c ?warning" using Cons.prems(1) by (auto simp: sound_warning_def)
  consider "n = []" | "n \<noteq> []" "int (snd (thresholds c n)) \<le> ?n"
    | "n \<noteq> []" "\<not> int (snd (thresholds c n)) \<le> ?n" "int (fst (thresholds c n)) \<le> ?n"
    | "n \<noteq> []" "\<not> int (snd (thresholds c n)) \<le> ?n" "\<not> int (fst (thresholds c n)) \<le> ?n"
    by blast
  then show ?case
  proof cases
    case 1
    then have "frequency_layer c names warning w = (stop, warning', w')" using Cons.prems(2) by simp
    then show ?thesis by (rule Cons.IH [OF Cons.prems(1)])
  next
    case 2
    then show ?thesis using Cons.prems by (auto simp: Let_def case_prod_beta)
  next
    case 3
    then have "frequency_layer c names ?warning ?w1 = (stop, warning', w')"
      using Cons.prems(2) by (simp add: Let_def case_prod_beta)
    then show ?thesis by (rule Cons.IH [OF w])
  next
    case 4
    then have "frequency_layer c names warning (?w1\<lparr>fw_warned := fw_warned ?w1 - {n}\<rparr>) = (stop, warning', w')"
      using Cons.prems(2) by (simp add: Let_def case_prod_beta)
    then show ?thesis by (rule Cons.IH [OF Cons.prems(1)])
  qed
qed auto

text \<open>The state after a response, in the three cases of \<open>track\<close>.\<close>

lemma track_cases:
  assumes "track c k h names st = (d, st')"
  obtains (stop) history st1 where "record_hash c k h (touch_history c k st) = (history, st1)"
      "lc_hard_limit c \<le> count_list history h" "stopped d" "st' = st1"
  | (layer2) history st1 candidate stop warning w
    where "record_hash c k h (touch_history c k st) = (history, st1)" "count_list history h < lc_hard_limit c"
      "sound_warning c candidate" "frequency_layer c names candidate (window_of st1 k) = (stop, warning, w)"
      "stopped d \<longleftrightarrow> stop \<noteq> None"
      "st' = (case (stop, warning) of (None, Some x) \<Rightarrow> mark_warning k h x (put_window k w st1) | _ \<Rightarrow> put_window k w st1)"
proof -
  obtain history st1 where r: "record_hash c k h (touch_history c k st) = (history, st1)" by fastforce
  show ?thesis
  proof (cases "lc_hard_limit c \<le> count_list history h")
    case True
    then show ?thesis using stop [OF r True] assms by (auto simp: track_def r Let_def stopped_def)
  next
    case False
    let ?shown = "map (\<lambda>x. if x = [] then ''?'' else x) names"
    let ?cand = "if lc_warn_threshold c \<le> count_list history h \<and> h \<notin> (case ls_warned st1 k of Some w \<Rightarrow> w | None \<Rightarrow> {})
      then Some \<lparr>ld_message = LoopWarning, ld_action = Warn, ld_layer = IdenticalCallSet,
        ld_tool_names = ?shown, ld_count = count_list history h, ld_threshold = lc_warn_threshold c\<rparr> else None"
    obtain stop warning w where f: "frequency_layer c names ?cand (window_of st1 k) = (stop, warning, w)"
      by (rule prod_cases3)
    have cand: "sound_warning c ?cand" by (auto simp: sound_warning_def)
    note s = frequency_layer_sound [OF cand f]
    have "track c k h names st = (case stop of Some d \<Rightarrow> (Some d, put_window k w st1)
        | None \<Rightarrow> (warning, case warning of None \<Rightarrow> put_window k w st1 | Some d \<Rightarrow> mark_warning k h d (put_window k w st1)))"
      using False by (simp only: track_def r Let_def prod.case f if_False not_False_eq_True)
    then have "stopped d \<longleftrightarrow> stop \<noteq> None"
      "st' = (case (stop, warning) of (None, Some x) \<Rightarrow> mark_warning k h x (put_window k w st1) | _ \<Rightarrow> put_window k w st1)"
      using assms s by (cases stop; cases warning; auto simp: stopped_def sound_warning_def)+
    then show ?thesis using layer2 [OF r _ cand f] False by simp
  qed
qed

text \<open>
  What the state holds for a scope \<open>k\<close> whose responses so far, all let through, had the hashes \<open>hs\<close>
  and called the tools \<open>ns\<close>.
\<close>

definition scope_view ::
  "loop_config \<Rightarrow> scope_key set \<Rightarrow> scope_key \<Rightarrow> string list \<Rightarrow> string list \<Rightarrow> loop_state \<Rightarrow> bool" where
  "scope_view c S k hs ns st \<longleftrightarrow> room c S st
     \<and> od_get_default (ls_history st) k [] = last_n (lc_window_size c) hs
     \<and> fw_names (window_of st k) = last_n (tool_freq_window c) ns
     \<and> window_ok c (window_of st k) \<and> below_hard c (window_of st k)
     \<and> (\<forall>h. count_list (last_n (lc_window_size c) hs) h < lc_hard_limit c)"

lemma room_cong: "ls_history st' = ls_history st \<Longrightarrow> room c S st' = room c S st"
  by (simp add: room_def)

lemma after_layers:
  defines "post \<equiv> \<lambda>stop warning k h w st1. case (stop :: loop_decision option, warning) of
    (None, Some x) \<Rightarrow> mark_warning k h x (put_window k w st1) | _ \<Rightarrow> put_window k w st1"
  shows "ls_history (post stop warning k h w st1) = ls_history st1"
    "j \<noteq> k \<Longrightarrow> window_of (post stop warning k h w st1) j = window_of st1 j"
    "fw_names (window_of (post stop warning k h w st1) k) = fw_names w"
    "window_ok c w \<Longrightarrow> sound_warning c warning \<Longrightarrow> window_ok c (window_of (post stop warning k h w st1) k)"
  by (auto simp: post_def mark_warning_parts window_of_put mark_warning_ok sound_warning_def
      split: option.split)

text \<open>A response of another scope changes nothing of the view.\<close>

lemma track_other:
  assumes "scope_view c S k hs ns st" "config_ok c" "j \<in> S" "j \<noteq> k" "track c j h names st = (d, st')"
  shows "scope_view c S k hs ns st'"
proof -
  have room: "room c S st" using assms(1) by (simp add: scope_view_def)
  have W: "0 < lc_window_size c" using assms(2) by (simp add: config_ok_def)
  note t = touch_history_room [OF room assms(3)]
  have step: "room c S st1 \<and> od_get_default (ls_history st1) k [] = od_get_default (ls_history st) k []
      \<and> window_of st1 k = window_of st k"
    if r: "record_hash c j h (touch_history c j st) = (history, st1)" for history st1
    using record_hash_parts [OF W r] t assms(3,4)
    by (auto simp: room_def od_get_default_set od_keys_set split: if_splits)
  from assms(5) show ?thesis
  proof (cases rule: track_cases)
    case (stop history st1)
    then show ?thesis using step [OF stop(1)] assms(1) by (simp add: scope_view_def)
  next
    case (layer2 history st1 candidate stop warning w)
    have "ls_history st' = ls_history st1" "window_of st' k = window_of st1 k"
      unfolding layer2(6) by (rule after_layers(1), rule after_layers(2)) (use assms(4) in simp)
    then show ?thesis using step [OF layer2(1)] assms(1) room_cong [of st' st1] by (simp add: scope_view_def)
  qed
qed

text \<open>A response that is let through extends the view.\<close>

lemma track_own:
  assumes "scope_view c S k hs ns st" "config_ok c" "k \<in> S" "track c k h names st = (d, st')" "\<not> stopped d"
  shows "scope_view c S k (hs @ [h]) (ns @ filter (\<lambda>n. n \<noteq> []) names) st'"
proof -
  let ?W = "lc_window_size c"
  have view: "room c S st" "od_get_default (ls_history st) k [] = last_n ?W hs"
    "fw_names (window_of st k) = last_n (tool_freq_window c) ns" "window_ok c (window_of st k)"
    "below_hard c (window_of st k)" "\<And>h. count_list (last_n ?W hs) h < lc_hard_limit c"
    using assms(1) by (simp_all add: scope_view_def)
  have W: "0 < ?W" using assms(2) by (simp add: config_ok_def)
  note t = touch_history_room [OF view(1) assms(3)]
  from assms(4) show ?thesis
  proof (cases rule: track_cases)
    case (stop history st1)
    then show ?thesis using assms(5) by simp
  next
    case (layer2 history st1 candidate stop warning w)
    note r = record_hash_parts [OF W layer2(1)]
    have history: "history = last_n ?W (hs @ [h])" by (simp add: r(1) t(3) view(2) last_n_append)
    have none: "stop = None" using layer2(5) assms(5) by simp
    note f = layer2(4) [unfolded none]
    have w: "window_ok c (window_of st1 k)" "below_hard c (window_of st1 k)"
      "fw_names (window_of st1 k) = last_n (tool_freq_window c) ns"
      using view r(3) t(2) by simp_all
    note adm = frequency_layer_admits [OF w(1,2) f]
    have "count_list (last_n ?W (hs @ [h])) x < lc_hard_limit c" for x
    proof (cases "x = h")
      case True
      then show ?thesis using layer2(2) history by simp
    next
      case False
      have "count_list (last_n ?W (last_n ?W hs @ [h])) x \<le> count_list (last_n ?W hs @ [h]) x" by (rule count_last_n)
      also have "\<dots> = count_list (last_n ?W hs) x" using False by simp
      finally show ?thesis using view(6) [of x] by (simp only: last_n_append)
    qed
    moreover have "ls_history st' = od_set k history (ls_history (touch_history c k st))"
      unfolding layer2(6) after_layers(1) by (rule r(2))
    then have "room c S st'" using t(1) assms(3) by (auto simp: room_def od_keys_set)
    moreover have "od_get_default (ls_history st') k [] = last_n ?W (hs @ [h])"
      unfolding layer2(6) after_layers(1) r(2) by (simp add: od_get_default_set history)
    moreover have "fw_names (window_of st' k) = last_n (tool_freq_window c) (ns @ filter (\<lambda>n. n \<noteq> []) names)"
      unfolding layer2(6) after_layers(3) using adm w(3) by (simp add: last_n_append)
    moreover have "window_ok c (window_of st' k)"
      unfolding layer2(6)
      by (rule after_layers(4) [OF frequency_layer_ok [OF w(1) f] conjunct1 [OF frequency_layer_sound [OF layer2(3) f]]])
    moreover have "below_hard c (window_of st' k)"
      using adm unfolding below_hard_def layer2(6) after_layers(3) by blast
    ultimately show ?thesis by (simp add: scope_view_def)
  qed
qed

definition own_hashes :: "scope_key \<Rightarrow> (scope_key \<times> string \<times> string list) list \<Rightarrow> string list" where
  "own_hashes k evs = map (\<lambda>(_, h, _). h) (filter (\<lambda>e. fst e = k) evs)"

definition own_names :: "scope_key \<Rightarrow> (scope_key \<times> string \<times> string list) list \<Rightarrow> string list" where
  "own_names k evs = concat (map (\<lambda>(_, _, ns). filter (\<lambda>n. n \<noteq> []) ns) (filter (\<lambda>e. fst e = k) evs))"

lemma track_all_view:
  assumes "scope_view c S k hs ns st" "config_ok c" "fst ` set evs \<subseteq> S" "track_all c evs st = (ds, st')"
    "\<forall>(e, d) \<in> set (zip evs ds). fst e = k \<longrightarrow> \<not> stopped d"
  shows "scope_view c S k (hs @ own_hashes k evs) (ns @ own_names k evs) st'"
  using assms
proof (induction evs arbitrary: hs ns st ds)
  case Nil
  then show ?case by (simp add: own_hashes_def own_names_def)
next
  case (Cons e evs)
  obtain j h names where e: "e = (j, h, names)" by (cases e)
  obtain d st1 where d: "track c j h names st = (d, st1)" by fastforce
  obtain ds1 where ds: "track_all c evs st1 = (ds1, st')" "ds = d # ds1"
    using Cons.prems(4) by (auto simp: e d split: prod.splits)
  have j: "j \<in> S" using Cons.prems(3) by (simp add: e)
  show ?case
  proof (cases "j = k")
    case True
    have "\<not> stopped d" using Cons.prems(5) True by (simp add: e ds(2))
    from track_own [OF Cons.prems(1,2) _ _ this] d j True
    have "scope_view c S k (hs @ [h]) (ns @ filter (\<lambda>n. n \<noteq> []) names) st1" by simp
    from Cons.IH [OF this Cons.prems(2) _ ds(1)] Cons.prems(3,5) show ?thesis
      by (simp add: ds(2) e True own_hashes_def own_names_def)
  next
    case False
    from track_other [OF Cons.prems(1,2) j False d] have "scope_view c S k hs ns st1" .
    from Cons.IH [OF this Cons.prems(2) _ ds(1)] Cons.prems(3,5) False show ?thesis
      by (simp add: ds(2) e own_hashes_def own_names_def)
  qed
qed

lemma new_loop_view:
  assumes "config_ok c" "finite S" "card S \<le> lc_max_tracked_threads c"
  shows "scope_view c S k [] [] new_loop"
  using assms thresholds_pos [OF assms(1)]
  by (auto simp: scope_view_def room_def new_loop_def od_get_default_def window_of_def window_ok_def mirrors_def
      marks_live_def below_hard_def count_of_def config_ok_def)

text \<open>
  C9. A loop is cut off. Take any interleaving of responses of at most as many runs as are tracked:
  as long as the responses of one of them are let through, no call set occurs \<open>hard_limit\<close> times among
  its last \<open>window_size\<close> ones, and no tool as often as its own limit among its last calls; so the
  \<open>hard_limit\<close>-th repetition within the window, and the call that completes a burst, are stripped. The
  window of tool names is long enough for every limit, the overrides included.
\<close>

theorem repetition_is_cut_off:
  assumes "config_ok c" "card (fst ` set evs) \<le> lc_max_tracked_threads c"
    "track_all c evs new_loop = (ds, st)" "\<forall>(e, d) \<in> set (zip evs ds). fst e = k \<longrightarrow> \<not> stopped d"
  shows "count_list (last_n (lc_window_size c) (own_hashes k evs)) h < lc_hard_limit c
    \<and> (tool \<noteq> [] \<longrightarrow> count_list (last_n (tool_freq_window c) (own_names k evs)) tool < snd (thresholds c tool))
    \<and> snd (thresholds c tool) \<le> tool_freq_window c"
proof -
  have "scope_view c (fst ` set evs) k [] [] new_loop" by (rule new_loop_view) (use assms in simp_all)
  from track_all_view [OF this assms(1) subset_refl assms(3,4)]
  have "scope_view c (fst ` set evs) k (own_hashes k evs) (own_names k evs) st" by simp
  then have "below_hard c (window_of st k)" "fw_names (window_of st k) = last_n (tool_freq_window c) (own_names k evs)"
    "count_list (last_n (lc_window_size c) (own_hashes k evs)) h < lc_hard_limit c"
    by (simp_all add: scope_view_def)
  then show ?thesis using thresholds_fit by (auto simp: below_hard_def)
qed

text \<open>Two identical calls pass under the default limits.\<close>

definition demo_scope :: scope_key where "demo_scope = (''t'', Some ''r'')"

definition demo_event :: "scope_key \<times> string \<times> string list" where
  "demo_event = (demo_scope, ''h'', [''bash''])"

lemmas track_eval = track_def touch_history_def record_hash_def evict_if_needed_def window_of_def put_window_def
  push_name_def mark_warning_def thresholds_def tool_freq_window_def count_of_def od_get_default_def
  od_move_to_end_def last_n_def py_from_def default_loop_config_def

lemma first_call:
  "\<exists>st. track default_loop_config demo_scope ''h'' [''bash''] new_loop = (None, st)"
  by (simp add: track_eval new_loop_def Let_def)

lemma repetition_is_cut_off_witness:
  "count_list (last_n 20 (own_hashes demo_scope [demo_event])) ''h'' < 5"
proof -
  obtain st where st: "track default_loop_config demo_scope ''h'' [''bash''] new_loop = (None, st)"
    using first_call by blast
  have ok: "config_ok default_loop_config" "card (fst ` set [demo_event]) \<le> lc_max_tracked_threads default_loop_config"
    by (simp_all add: config_ok_def default_loop_config_def)
  have run: "track_all default_loop_config [demo_event] new_loop = ([None], st)" by (simp add: demo_event_def st)
  have "\<forall>(e, d) \<in> set (zip [demo_event] [None]). fst e = demo_scope \<longrightarrow> \<not> stopped d" by (simp add: stopped_def)
  from repetition_is_cut_off [OF ok run this, of "''h''"] show ?thesis by (simp add: default_loop_config_def)
qed

end
