(* ===== verification/LoopBounds.thy ===== *)
theory LoopBounds
  imports LoopProofs
begin

text \<open>
  The state of loop detection stays bounded, warnings survive failed model calls, and a hard stop
  ends the turn: properties of the operations of LoopDetection under any interleaving of runs.
\<close>

section \<open>Bounded state\<close>

definition tracked_ok :: "loop_config \<Rightarrow> loop_state \<Rightarrow> bool" where
  "tracked_ok c st \<longleftrightarrow> od_wf (ls_history st) \<and> length (ls_history st) \<le> lc_max_tracked_threads c
     \<and> (\<forall>(k, h) \<in> set (ls_history st). length h \<le> lc_window_size c)
     \<and> dom (ls_warned st) \<union> dom (ls_names st) \<union> dom (ls_counter st) \<union> dom (ls_freq_warned st)
         \<subseteq> set (od_keys (ls_history st))
     \<and> (\<forall>k. window_ok c (window_of st k))"

definition pending_ok :: "loop_config \<Rightarrow> loop_state \<Rightarrow> bool" where
  "pending_ok c st \<longleftrightarrow> od_wf (ls_pending st) \<and> od_wf (ls_touch st)
     \<and> set (od_keys (ls_pending st)) = set (od_keys (ls_touch st))
     \<and> length (ls_touch st) \<le> max_scope_keys c
     \<and> (\<forall>(k, q) \<in> set (ls_pending st). distinct q \<and> length q \<le> MAX_PENDING_WARNINGS)"

definition reasons_ok :: "loop_state \<Rightarrow> bool" where
  "reasons_ok st \<longleftrightarrow> od_wf (ls_stop_reason st) \<and> od_keys (ls_stop_reason st) = od_keys (ls_stop_thread st)
     \<and> length (ls_stop_reason st) \<le> MAX_STOP_REASONS"

definition fallback_ok :: "loop_config \<Rightarrow> loop_state \<Rightarrow> bool" where
  "fallback_ok c st \<longleftrightarrow> od_wf (ls_fallback_ids st) \<and> length (ls_fallback_ids st) \<le> max_scope_keys c"

definition loop_ok :: "loop_config \<Rightarrow> loop_state \<Rightarrow> bool" where
  "loop_ok c st \<longleftrightarrow> tracked_ok c st \<and> pending_ok c st \<and> reasons_ok st \<and> fallback_ok c st"

text \<open>Each part only reads its own fields.\<close>

lemma tracked_ok_cong:
  "ls_history st' = ls_history st \<Longrightarrow> ls_warned st' = ls_warned st \<Longrightarrow> ls_names st' = ls_names st
    \<Longrightarrow> ls_counter st' = ls_counter st \<Longrightarrow> ls_freq_warned st' = ls_freq_warned st
    \<Longrightarrow> tracked_ok c st' \<longleftrightarrow> tracked_ok c st"
  by (simp add: tracked_ok_def window_of_def)

lemma pending_ok_cong:
  "ls_pending st' = ls_pending st \<Longrightarrow> ls_touch st' = ls_touch st \<Longrightarrow> pending_ok c st' \<longleftrightarrow> pending_ok c st"
  by (simp add: pending_ok_def)

lemma reasons_ok_cong:
  "ls_stop_reason st' = ls_stop_reason st \<Longrightarrow> ls_stop_thread st' = ls_stop_thread st
    \<Longrightarrow> reasons_ok st' \<longleftrightarrow> reasons_ok st"
  by (simp add: reasons_ok_def)

lemma fallback_ok_cong:
  "ls_fallback_ids st' = ls_fallback_ids st \<Longrightarrow> fallback_ok c st' \<longleftrightarrow> fallback_ok c st"
  by (simp add: fallback_ok_def)

lemma ok_with_history [simp]:
  "pending_ok c (st\<lparr>ls_history := h\<rparr>) = pending_ok c st" "reasons_ok (st\<lparr>ls_history := h\<rparr>) = reasons_ok st"
  "fallback_ok c (st\<lparr>ls_history := h\<rparr>) = fallback_ok c st" "window_of (st\<lparr>ls_history := h\<rparr>) = window_of st"
  by (simp_all add: pending_ok_def reasons_ok_def fallback_ok_def window_of_def fun_eq_iff)

lemma new_loop_ok: "loop_ok c new_loop"
  by (simp add: loop_ok_def tracked_ok_def pending_ok_def reasons_ok_def fallback_ok_def new_loop_def window_of_def
      window_ok_def mirrors_def marks_live_def count_of_def)

subsection \<open>Scope keys\<close>

lemma move_to_end_length: "od_wf d \<Longrightarrow> length (od_move_to_end k d) = length d"
proof (cases "od_get d k")
  case (Some v)
  assume wf: "od_wf d"
  have "k \<in> set (od_keys d)" using Some by (force dest: map_of_SomeD)
  then show ?thesis using length_od_del [OF wf] Some by (simp add: od_move_to_end_def)
qed (simp add: od_move_to_end_def)

lemma run_scope_key_frame:
  "run_scope_key c hex rt st = (k, st') \<Longrightarrow> \<exists>ids. st' = st\<lparr>ls_fallback_ids := ids\<rparr>
    \<and> (fallback_ok c st \<longrightarrow> od_wf ids \<and> length ids \<le> max_scope_keys c)"
proof -
  have ids: "od_wf (last_n (max_scope_keys c) (od_move_to_end i (od_set i x (ls_fallback_ids st))))
      \<and> length (last_n (max_scope_keys c) (od_move_to_end i (od_set i x (ls_fallback_ids st)))) \<le> max_scope_keys c"
    if "fallback_ok c st" for i x
    using that by (simp add: fallback_ok_def map_last_n distinct_last_n)
  have moved: "od_wf (od_move_to_end i (ls_fallback_ids st)) \<and> length (od_move_to_end i (ls_fallback_ids st)) \<le> max_scope_keys c"
    if "fallback_ok c st" for i
    using that move_to_end_length [of "ls_fallback_ids st" i] by (simp add: fallback_ok_def)
  have same: "\<exists>ids. st = st\<lparr>ls_fallback_ids := ids\<rparr> \<and> (fallback_ok c st \<longrightarrow> od_wf ids \<and> length ids \<le> max_scope_keys c)"
    by (rule exI [of _ "ls_fallback_ids st"]) (simp add: fallback_ok_def)
  assume "run_scope_key c hex rt st = (k, st')"
  then show ?thesis
    using ids moved same
    by (auto simp: run_scope_key_def get_run_id_def Let_def split: option.splits prod.splits if_splits)
qed

lemma run_scope_key_ok:
  assumes "loop_ok c st" "run_scope_key c hex rt st = (k, st')"
  shows "loop_ok c st'"
  using run_scope_key_frame [OF assms(2)] assms(1)
    tracked_ok_cong [of st' st c] pending_ok_cong [of st' st c] reasons_ok_cong [of st' st]
  by (auto simp: loop_ok_def fallback_ok_def)

subsection \<open>Tracking\<close>

lemma forget_scope_parts:
  "ls_history (forget_scope k st) = ls_history st" "ls_stop_reason (forget_scope k st) = ls_stop_reason st"
  "ls_stop_thread (forget_scope k st) = ls_stop_thread st" "ls_fallback_ids (forget_scope k st) = ls_fallback_ids st"
  "ls_warned (forget_scope k st) = (ls_warned st)(k := None)" "ls_names (forget_scope k st) = (ls_names st)(k := None)"
  "ls_counter (forget_scope k st) = (ls_counter st)(k := None)"
  "ls_freq_warned (forget_scope k st) = (ls_freq_warned st)(k := None)"
  "ls_pending (forget_scope k st) = od_del k (ls_pending st)" "ls_touch (forget_scope k st) = od_del k (ls_touch st)"
  by (simp_all add: forget_scope_def drop_pending_key_def)

lemma empty_window_ok: "window_ok c \<lparr>fw_names = [], fw_counter = Map.empty, fw_warned = {}\<rparr>"
  by (simp add: window_ok_def mirrors_def marks_live_def count_of_def)

lemma forget_scope_windows:
  "window_of (forget_scope k st) j = (if j = k then \<lparr>fw_names = [], fw_counter = Map.empty, fw_warned = {}\<rparr> else window_of st j)"
  by (simp add: window_of_def forget_scope_parts)

lemma drop_pending_ok: "pending_ok c st \<Longrightarrow> pending_ok c (drop_pending_key k st)"
proof -
  assume ok: "pending_ok c st"
  have "length (od_del k (ls_touch st)) \<le> length (ls_touch st)"
    using length_od_del [of "ls_touch st" k] ok
    by (cases "k \<in> set (od_keys (ls_touch st))") (simp_all add: pending_ok_def AList.delete_idem)
  moreover have "\<forall>(j, q) \<in> set (od_del k (ls_pending st)). distinct q \<and> length q \<le> MAX_PENDING_WARNINGS"
    using ok by (auto simp: pending_ok_def set_od_del)
  ultimately show ?thesis using ok by (simp add: pending_ok_def drop_pending_key_def set_keys_del)
qed

text \<open>The windows of scopes outside the history are gone with them.\<close>

lemma evict_oldest_ok:
  assumes "\<forall>j. window_ok c (window_of st j)" "od_wf hs" "\<forall>(k, h) \<in> set hs. length h \<le> lc_window_size c"
    "dom (ls_warned st) \<union> dom (ls_names st) \<union> dom (ls_counter st) \<union> dom (ls_freq_warned st) \<subseteq> set (od_keys hs)"
    "pending_ok c st" "reasons_ok st" "fallback_ok c st"
  shows "loop_ok c (evict_oldest (lc_max_tracked_threads c) hs st)"
  using assms
proof (induction "lc_max_tracked_threads c" hs st rule: evict_oldest.induct)
  case (1 st)
  then show ?case
    by (simp add: loop_ok_def tracked_ok_def)
next
  case (2 k h hs st)
  show ?case
  proof (cases "lc_max_tracked_threads c < length ((k, h) # hs)")
    case True
    have "\<forall>j. window_ok c (window_of (forget_scope k st) j)"
      using 2(2) empty_window_ok by (simp add: forget_scope_windows)
    moreover have "pending_ok c (forget_scope k st)"
      using drop_pending_ok [OF 2(6), of k] pending_ok_cong [of "forget_scope k st" "drop_pending_key k st" c]
      by (simp add: forget_scope_parts drop_pending_key_def)
    moreover have "reasons_ok (forget_scope k st)" "fallback_ok c (forget_scope k st)"
      using 2(7,8) reasons_ok_cong [of "forget_scope k st" st] fallback_ok_cong [of "forget_scope k st" st c]
      by (simp_all add: forget_scope_parts)
    moreover have "dom (ls_warned (forget_scope k st)) \<union> dom (ls_names (forget_scope k st))
        \<union> dom (ls_counter (forget_scope k st)) \<union> dom (ls_freq_warned (forget_scope k st)) \<subseteq> set (od_keys hs)"
      using 2(5) by (auto simp: forget_scope_parts)
    ultimately have "loop_ok c (evict_oldest (lc_max_tracked_threads c) hs (forget_scope k st))"
      using 2(1) [OF True] 2(3,4) by simp
    then show ?thesis using True by simp
  next
    case False
    let ?st = "st\<lparr>ls_history := (k, h) # hs\<rparr>"
    have "tracked_ok c ?st" using 2 False by (simp add: tracked_ok_def)
    then show ?thesis using 2(6-8) False by (simp add: loop_ok_def)
  qed
qed

lemma touch_history_ok:
  assumes "loop_ok c st" "config_ok c"
  shows "loop_ok c (touch_history c k st)" "k \<in> set (od_keys (ls_history (touch_history c k st)))"
proof -
  have st: "tracked_ok c st" "pending_ok c st" "reasons_ok st" "fallback_ok c st" using assms(1) by (simp_all add: loop_ok_def)
  show "loop_ok c (touch_history c k st)"
  proof (cases "od_get (ls_history st) k")
    case None
    let ?st = "st\<lparr>ls_history := od_set k [] (ls_history st)\<rparr>"
    have "\<forall>(j, h) \<in> set (od_set k [] (ls_history st)). length h \<le> lc_window_size c"
      using None st(1) by (subst od_set_fresh) (auto simp: tracked_ok_def od_get_None)
    moreover have "dom (ls_warned st) \<union> dom (ls_names st) \<union> dom (ls_counter st) \<union> dom (ls_freq_warned st)
        \<subseteq> set (od_keys (od_set k [] (ls_history st)))"
      using st(1) by (auto simp: tracked_ok_def od_keys_set)
    ultimately have "loop_ok c (evict_oldest (lc_max_tracked_threads c) (od_set k [] (ls_history st)) ?st)"
      using st by (intro evict_oldest_ok) (simp_all add: tracked_ok_def)
    then show ?thesis using None by (simp add: touch_history_def evict_if_needed_def)
  next
    case (Some h)
    let ?h = "od_move_to_end k (ls_history st)"
    have wf: "od_wf (ls_history st)" using st(1) by (simp add: tracked_ok_def)
    have uniq: "(k, b) \<in> set (ls_history st) \<longleftrightarrow> b = h" for b
      by (auto simp only: od_get_mem [OF wf] Some option.inject)
    have moved: "set ?h = insert (k, h) {p \<in> set (ls_history st). fst p \<noteq> k}"
      by (simp add: od_move_to_end_def Some set_od_del)
    have sub: "set ?h = set (ls_history st)"
    proof (rule set_eqI)
      fix p
      show "p \<in> set ?h \<longleftrightarrow> p \<in> set (ls_history st)"
        unfolding moved by (cases p; cases "fst p = k"; simp add: uniq)
    qed
    have "length ?h = length (ls_history st)" using st(1) by (simp add: move_to_end_length tracked_ok_def)
    then have "tracked_ok c (st\<lparr>ls_history := ?h\<rparr>)" using st(1) sub by (simp add: tracked_ok_def)
    then show ?thesis
      using Some st(2-4) by (simp add: touch_history_def loop_ok_def)
  qed
  have last: "k \<in> set (od_keys (ls_history (evict_oldest cap (hs @ [(k, h)]) s)))" if "0 < cap" for cap hs h s
    using that by (induction cap "hs @ [(k, h)]" s arbitrary: hs rule: evict_oldest.induct)
      (auto simp: Cons_eq_append_conv)
  show "k \<in> set (od_keys (ls_history (touch_history c k st)))"
  proof (cases "od_get (ls_history st) k")
    case None
    then show ?thesis
      using last [of "lc_max_tracked_threads c" "ls_history st" "[]"] assms(2)
      by (simp add: touch_history_def evict_if_needed_def od_set_fresh od_get_None config_ok_def)
  next
    case (Some h)
    then show ?thesis by (force simp: touch_history_def od_move_to_end_def)
  qed
qed

lemma tracked_ok_update:
  assumes "tracked_ok c st" "k \<in> set (od_keys (ls_history st))"
    "od_keys (ls_history st1) = od_keys (ls_history st)"
    "\<forall>(j, q) \<in> set (ls_history st1). length q \<le> lc_window_size c"
    "dom (ls_warned st1) \<subseteq> insert k (dom (ls_warned st))" "dom (ls_names st1) \<subseteq> insert k (dom (ls_names st))"
    "dom (ls_counter st1) \<subseteq> insert k (dom (ls_counter st))"
    "dom (ls_freq_warned st1) \<subseteq> insert k (dom (ls_freq_warned st))"
    "\<forall>j. window_ok c (window_of st1 j)"
  shows "tracked_ok c st1"
proof -
  have len: "length (ls_history st1) = length (ls_history st)" using assms(3) by (metis length_map)
  have "dom (ls_warned st1) \<union> dom (ls_names st1) \<union> dom (ls_counter st1) \<union> dom (ls_freq_warned st1)
      \<subseteq> insert k (dom (ls_warned st) \<union> dom (ls_names st) \<union> dom (ls_counter st) \<union> dom (ls_freq_warned st))"
    using assms(5-8) by blast
  also have "\<dots> \<subseteq> set (od_keys (ls_history st))" using assms(1,2) unfolding tracked_ok_def by blast
  finally show ?thesis using assms(1,4,9) unfolding tracked_ok_def assms(3) len by blast
qed

lemma tracked_windows: "tracked_ok c st \<Longrightarrow> window_ok c (window_of st j)"
  unfolding tracked_ok_def by blast

lemma record_hash_ok:
  assumes "loop_ok c st" "config_ok c" "k \<in> set (od_keys (ls_history st))" "record_hash c k h st = (history, st1)"
  shows "loop_ok c st1" "k \<in> set (od_keys (ls_history st1))"
proof -
  have W: "0 < lc_window_size c" using assms(2) by (simp add: config_ok_def)
  note r = record_hash_parts [OF W assms(4)]
  have keys: "od_keys (ls_history st1) = od_keys (ls_history st)" using assms(3) by (simp add: r(2) od_keys_set)
  then have len: "length (ls_history st1) = length (ls_history st)" by (metis length_map)
  have st: "tracked_ok c st" "pending_ok c st" "reasons_ok st" "fallback_ok c st" using assms(1) by (simp_all add: loop_ok_def)
  have same: "ls_names st1 = ls_names st" "ls_counter st1 = ls_counter st" "ls_freq_warned st1 = ls_freq_warned st"
    "ls_pending st1 = ls_pending st" "ls_touch st1 = ls_touch st" "ls_stop_reason st1 = ls_stop_reason st"
    "ls_stop_thread st1 = ls_stop_thread st" "ls_fallback_ids st1 = ls_fallback_ids st"
    "dom (ls_warned st1) \<subseteq> insert k (dom (ls_warned st))"
    using assms(4) by (auto simp: record_hash_def Let_def split: if_splits)
  have "length q \<le> lc_window_size c" if "(j, q) \<in> set (ls_history st1)" for j q
  proof -
    have wf: "od_wf (ls_history st)" using st(1) by (simp add: tracked_ok_def)
    have "od_get (ls_history st1) j = Some q" using that od_get_mem [of "ls_history st1" j q] wf by (simp add: r(2))
    then have "q = history \<or> (j, q) \<in> set (ls_history st)"
      by (auto simp: r(2) update_conv' split: if_splits dest: map_of_SomeD)
    then show ?thesis using st(1) by (auto simp: tracked_ok_def r(1))
  qed
  then have "\<forall>(j, q) \<in> set (ls_history st1). length q \<le> lc_window_size c" by auto
  moreover have "od_wf (ls_history st1)" using st(1) by (simp add: tracked_ok_def keys)
  ultimately have "tracked_ok c st1"
    using tracked_windows [OF st(1)] same(9)
    by (intro tracked_ok_update [OF st(1) assms(3) keys]) (simp_all add: same(1-3) r(3) subset_insertI)
  then show "loop_ok c st1"
    using st(2-4) same pending_ok_cong [of st1 st c] reasons_ok_cong [of st1 st] fallback_ok_cong [of st1 st c]
    by (simp add: loop_ok_def)
  show "k \<in> set (od_keys (ls_history st1))" using assms(3) keys by simp
qed

text \<open>Writing the window of a tracked scope.\<close>

lemma put_window_ok:
  assumes "loop_ok c st" "k \<in> set (od_keys (ls_history st))" "window_ok c w"
  shows "loop_ok c (put_window k w st)"
proof -
  have "tracked_ok c (put_window k w st)"
  proof (rule tracked_ok_update [OF _ assms(2)])
    show "tracked_ok c st" using assms(1) by (simp add: loop_ok_def)
    then show "\<forall>j. window_ok c (window_of (put_window k w st) j)"
      "\<forall>(j, q) \<in> set (ls_history (put_window k w st)). length q \<le> lc_window_size c"
      using assms(3) by (simp_all add: window_of_put tracked_windows) (simp add: put_window_def tracked_ok_def)
  qed (simp_all add: put_window_def subset_insertI)
  then show ?thesis
    using assms(1) pending_ok_cong [of "put_window k w st" st c] reasons_ok_cong [of "put_window k w st" st]
      fallback_ok_cong [of "put_window k w st" st c]
    by (simp add: loop_ok_def put_window_def)
qed

lemma mark_warning_loop_ok:
  assumes "loop_ok c st" "k \<in> set (od_keys (ls_history st))"
    "ld_layer d = ToolFrequency \<Longrightarrow> ld_threshold d = fst (thresholds c (hd (ld_tool_names d)))"
  shows "loop_ok c (mark_warning k h d st)"
proof -
  let ?st = "mark_warning k h d st"
  have w: "window_ok c (window_of st j)" for j using assms(1) unfolding loop_ok_def tracked_ok_def by blast
  have "window_ok c (window_of ?st j)" for j
    using mark_warning_ok [OF w assms(3)] w mark_warning_parts(4) [of j k h d st] by (cases "j = k") auto
  moreover have "dom (ls_warned ?st) \<subseteq> insert k (dom (ls_warned st))" "ls_names ?st = ls_names st"
    "ls_counter ?st = ls_counter st" "dom (ls_freq_warned ?st) \<subseteq> insert k (dom (ls_freq_warned st))"
    by (auto simp: mark_warning_def Let_def split: if_splits)
  ultimately have "tracked_ok c ?st"
    using assms(1) by (intro tracked_ok_update [of c st k ?st, OF _ assms(2)])
      (simp_all add: mark_warning_parts(1) loop_ok_def tracked_ok_def subset_insertI)
  then show ?thesis
    using assms(1) pending_ok_cong [of ?st st c] reasons_ok_cong [of ?st st] fallback_ok_cong [of ?st st c]
    by (simp add: loop_ok_def mark_warning_def Let_def)
qed

lemma track_ok:
  assumes "loop_ok c st" "config_ok c" "track c k h names st = (d, st')"
  shows "loop_ok c st'"
proof -
  note t = touch_history_ok [OF assms(1,2), of k]
  from assms(3) show ?thesis
  proof (cases rule: track_cases)
    case (stop history st1)
    then show ?thesis using record_hash_ok(1) [OF t(1) assms(2) t(2)] by simp
  next
    case (layer2 history st1 candidate stop warning w)
    note r = record_hash_ok [OF t(1) assms(2) t(2) layer2(1)]
    have "window_ok c (window_of st1 k)" using r(1) unfolding loop_ok_def tracked_ok_def by blast
    then have w: "window_ok c w" using frequency_layer_ok layer2(4) by blast
    note p = put_window_ok [OF r w]
    have "sound_warning c warning" using frequency_layer_sound [OF layer2(3,4)] by blast
    then have "loop_ok c (mark_warning k h x (put_window k w st1))" if "warning = Some x" for x
      using mark_warning_loop_ok [OF p] r(2) that by (simp add: sound_warning_def)
    then show ?thesis using p unfolding layer2(6) by (auto split: option.split)
  qed
qed

subsection \<open>Pending warnings\<close>

lemma drop_pending_loop_ok: "loop_ok c st \<Longrightarrow> loop_ok c (drop_pending_key k st)"
  using drop_pending_ok [of c st k] tracked_ok_cong [of "drop_pending_key k st" st c]
    reasons_ok_cong [of "drop_pending_key k st" st] fallback_ok_cong [of "drop_pending_key k st" st c]
  by (simp add: loop_ok_def drop_pending_key_def)

lemma fold_drop_pending:
  "ls_pending (fold drop_pending_key ks st) = filter (\<lambda>kv. fst kv \<notin> set ks) (ls_pending st)
   \<and> ls_touch (fold drop_pending_key ks st) = filter (\<lambda>kv. fst kv \<notin> set ks) (ls_touch st)"
proof (induction ks arbitrary: st)
  case (Cons k ks)
  then show ?case by (auto simp: drop_pending_key_def AList.delete_eq intro!: filter_cong)
qed simp

lemma fold_drop_rest:
  "tracked_ok c (fold drop_pending_key ks st) = tracked_ok c st"
  "reasons_ok (fold drop_pending_key ks st) = reasons_ok st"
  "fallback_ok c (fold drop_pending_key ks st) = fallback_ok c st"
proof (induction ks arbitrary: st)
  case (Cons k ks)
  {
    case 1 show ?case using Cons(1) tracked_ok_cong [of "drop_pending_key k st" st c] by (simp add: drop_pending_key_def)
  next
    case 2 show ?case using Cons(2) reasons_ok_cong [of "drop_pending_key k st" st] by (simp add: drop_pending_key_def)
  next
    case 3 show ?case using Cons(3) fallback_ok_cong [of "drop_pending_key k st" st c] by (simp add: drop_pending_key_def)
  }
qed simp_all

text \<open>Storing a queue for a scope, most recently used, and pruning the least recently used ones.\<close>

definition store_queue :: "loop_config \<Rightarrow> scope_key \<Rightarrow> loop_message list \<Rightarrow> loop_state \<Rightarrow> loop_state" where
  "store_queue c k q st = prune_pending c k (touch_pending k (st\<lparr>ls_pending := od_set k q (ls_pending st)\<rparr>))"

lemma keys_filter_fst: "od_keys (filter (\<lambda>kv. fst kv \<notin> S) d) = filter (\<lambda>j. j \<notin> S) (od_keys d)"
  by (induction d) auto

lemma store_queue_ok:
  assumes "loop_ok c st" "distinct q" "length q \<le> MAX_PENDING_WARNINGS"
  shows "loop_ok c (store_queue c k q st)"
    "od_get (ls_pending (store_queue c k q st)) k = Some q"
proof -
  let ?p = "od_set k q (ls_pending st)" and ?t = "od_move_to_end k (od_set k () (ls_touch st))"
  let ?st = "touch_pending k (st\<lparr>ls_pending := ?p\<rparr>)"
  have st: "pending_ok c st" using assms(1) by (simp add: loop_ok_def)
  have wf: "od_wf ?p" "od_wf ?t" using st by (simp_all add: pending_ok_def)
  have keys: "set (od_keys ?p) = insert k (set (od_keys (ls_pending st)))"
    "set (od_keys ?t) = insert k (set (od_keys (ls_touch st)))"
    by (simp_all add: set_keys_set set_keys_move_to_end)
  have same: "set (od_keys ?p) = set (od_keys ?t)" using st keys by (simp add: pending_ok_def)
  have len: "length ?t \<le> Suc (length (ls_touch st))"
    using st by (simp add: pending_ok_def move_to_end_length length_od_set)
  have qs: "\<forall>(j, x) \<in> set ?p. distinct x \<and> length x \<le> MAX_PENDING_WARNINGS"
    using st assms(2,3) by (auto simp: pending_ok_def set_od_set)
  have parts: "ls_pending ?st = ?p" "ls_touch ?st = ?t" by (simp_all add: touch_pending_def)
  define ks where "ks = (if length ?t \<le> max_scope_keys c then []
    else take (length ?t - max_scope_keys c) (filter (\<lambda>j. j \<noteq> k) (od_keys ?t)))"
  have store: "store_queue c k q st = fold drop_pending_key ks ?st"
    by (simp add: store_queue_def prune_pending_def ks_def touch_pending_def)
  have k: "k \<notin> set ks" by (auto simp: ks_def dest: in_set_takeD)
  have ks: "distinct ks" "set ks \<subseteq> set (od_keys ?t)"
    using wf(2) by (auto simp: ks_def dest!: in_set_takeD intro!: distinct_take)
  have "length (filter (\<lambda>kv. fst kv \<notin> set ks) ?t) \<le> max_scope_keys c"
  proof (cases "length ?t \<le> max_scope_keys c")
    case True
    then show ?thesis by (rule le_trans [OF length_filter_le])
  next
    case False
    have others: "length (filter (\<lambda>j. j \<noteq> k) (od_keys ?t)) \<ge> length ?t - 1"
    proof -
      have "card (set (filter (\<lambda>j. j = k) (od_keys ?t))) \<le> card {k}" by (rule card_mono) auto
      then have "length (filter (\<lambda>j. j = k) (od_keys ?t)) \<le> 1"
        using distinct_card [OF distinct_filter [OF wf(2)], of "\<lambda>j. j = k"] by simp
      then show ?thesis using sum_length_filter_compl [of "\<lambda>j. j = k" "od_keys ?t"] by simp
    qed
    have "max_scope_keys c \<ge> 1" by (simp add: max_scope_keys_def)
    then have "length ks = length ?t - max_scope_keys c" using False others by (simp add: ks_def)
    moreover have "length (filter (\<lambda>kv. fst kv \<notin> set ks) ?t) + length ks = length ?t"
      using length_without_keys [OF wf(2) ks] .
    ultimately show ?thesis using False by simp
  qed
  moreover have "set (filter (\<lambda>j. j \<notin> set ks) (od_keys ?p)) = set (filter (\<lambda>j. j \<notin> set ks) (od_keys ?t))"
    using same by (simp only: set_filter)
  moreover have "\<forall>(j, x) \<in> set (filter (\<lambda>kv. fst kv \<notin> set ks) ?p). distinct x \<and> length x \<le> MAX_PENDING_WARNINGS"
    using qs by (auto simp only: set_filter)
  ultimately have "pending_ok c (fold drop_pending_key ks ?st)"
    using wf unfolding pending_ok_def fold_drop_pending [THEN conjunct1] fold_drop_pending [THEN conjunct2] parts
    by (intro conjI) (simp_all only: keys_filter_fst distinct_filter)
  moreover have "tracked_ok c ?st \<and> reasons_ok ?st \<and> fallback_ok c ?st"
    using assms(1) tracked_ok_cong [of ?st st c] reasons_ok_cong [of ?st st] fallback_ok_cong [of ?st st c]
    by (simp add: loop_ok_def touch_pending_def)
  ultimately show "loop_ok c (store_queue c k q st)" unfolding store by (simp add: loop_ok_def fold_drop_rest)
  have "(k, q) \<in> set (filter (\<lambda>kv. fst kv \<notin> set ks) ?p)" using k st by (simp add: set_od_set pending_ok_def)
  moreover have "od_wf (filter (\<lambda>kv. fst kv \<notin> set ks) ?p)" using wf(1) by (simp add: distinct_map_filter)
  ultimately show "od_get (ls_pending (store_queue c k q st)) k = Some q"
    unfolding store by (simp add: fold_drop_pending parts)
qed

lemma pending_queue_ok:
  assumes "pending_ok c st"
  shows "distinct (od_get_default (ls_pending st) k []) \<and> length (od_get_default (ls_pending st) k []) \<le> MAX_PENDING_WARNINGS"
proof (cases "od_get (ls_pending st) k")
  case (Some q)
  then have "(k, q) \<in> set (ls_pending st)" by (rule map_of_SomeD)
  then show ?thesis using assms Some by (auto simp: pending_ok_def od_get_default_def)
qed (simp add: od_get_default_def)

lemma queue_warning_ok:
  assumes "loop_ok c st"
  shows "loop_ok c (queue_warning c k w st)"
    "w \<in> set (od_get_default (ls_pending (queue_warning c k w st)) k [])"
proof -
  let ?q = "od_get_default (ls_pending st) k []"
  let ?q1 = "if w \<in> set ?q then ?q else ?q @ [w]"
  let ?q2 = "if MAX_PENDING_WARNINGS < length ?q1 then drop (length ?q1 - MAX_PENDING_WARNINGS) ?q1 else ?q1"
  have q: "distinct ?q \<and> length ?q \<le> MAX_PENDING_WARNINGS" using assms pending_queue_ok [of c st k] by (simp add: loop_ok_def)
  then have q2: "distinct ?q2" "length ?q2 \<le> MAX_PENDING_WARNINGS" by auto
  have "last ?q1 \<in> set ?q2" if "w \<notin> set ?q"
    using that q by (auto simp: MAX_PENDING_WARNINGS_def)
  then have w: "w \<in> set ?q2" using q by auto
  have eq: "queue_warning c k w st = store_queue c k ?q2 st"
    by (simp add: queue_warning_def store_queue_def Let_def)
  show "loop_ok c (queue_warning c k w st)" unfolding eq by (rule store_queue_ok(1) [OF assms q2])
  show "w \<in> set (od_get_default (ls_pending (queue_warning c k w st)) k [])"
    using w store_queue_ok(2) [OF assms q2] unfolding eq by (simp only: od_get_default_def option.case)
qed

lemma restore_warnings_ok:
  assumes "loop_ok c st" "distinct ws" "ws \<noteq> []"
  shows "loop_ok c (restore_warnings c k ws st)"
    "od_get (ls_pending (restore_warnings c k ws st)) k
       = Some (take MAX_PENDING_WARNINGS
           (filter (\<lambda>w. w \<notin> set (od_get_default (ls_pending st) k [])) ws @ od_get_default (ls_pending st) k []))"
proof -
  let ?q = "od_get_default (ls_pending st) k []"
  let ?q1 = "take MAX_PENDING_WARNINGS (filter (\<lambda>w. w \<notin> set ?q) ws @ ?q)"
  have "distinct ?q" using assms(1) pending_queue_ok [of c st k] by (simp add: loop_ok_def)
  then have "distinct (filter (\<lambda>w. w \<notin> set ?q) ws @ ?q)" using assms(2) by auto
  then have q1: "distinct ?q1" "length ?q1 \<le> MAX_PENDING_WARNINGS" by (simp_all only: distinct_take length_take min.cobounded2)
  have eq: "restore_warnings c k ws st = store_queue c k ?q1 st"
    using assms(3) by (simp add: restore_warnings_def store_queue_def Let_def)
  show "loop_ok c (restore_warnings c k ws st)" unfolding eq by (rule store_queue_ok(1) [OF assms(1) q1])
  show "od_get (ls_pending (restore_warnings c k ws st)) k = Some ?q1" unfolding eq by (rule store_queue_ok(2) [OF assms(1) q1])
qed

lemma drain_warnings_ok:
  assumes "loop_ok c st" "drain_warnings k st = (ws, st')"
  shows "loop_ok c st'" "distinct ws" "length ws \<le> MAX_PENDING_WARNINGS" "od_get (ls_pending st') k = None"
proof -
  have st': "st' = drop_pending_key k st" and ws: "ws = od_get_default (ls_pending st) k []"
    using assms(2) by (simp_all add: drain_warnings_def)
  show "loop_ok c st'" unfolding st' by (rule drop_pending_loop_ok [OF assms(1)])
  show "distinct ws" "length ws \<le> MAX_PENDING_WARNINGS"
    using pending_queue_ok [of c st k] assms(1) by (simp_all add: ws loop_ok_def)
  show "od_get (ls_pending st') k = None" unfolding st' by (simp add: drop_pending_key_def delete_conv')
qed

subsection \<open>The hooks keep the bounds\<close>

lemma keys_bounded_set:
  "od_keys (bounded_set n k v d)
     = (if k \<in> set (od_keys d) then od_keys d else (if n \<le> length d then tl (od_keys d) else od_keys d) @ [k])"
proof (cases "k \<in> set (od_keys d)")
  case True
  then have "od_get d k \<noteq> None" using od_get_None [of d k] by blast
  then have "bounded_set n k v d = od_set k v d" by (auto simp: bounded_set_def)
  then show ?thesis using True by (simp add: od_keys_set)
next
  case False
  then have tail: "k \<notin> set (od_keys (tl d))" using in_set_tlD [of k "od_keys d"] unfolding map_tl by blast
  have "od_get d k = None" using False od_get_None [of d k] by blast
  then have "bounded_set n k v d = od_set k v (if n \<le> length d then tl d else d)" by (simp add: bounded_set_def)
  then show ?thesis using False tail unfolding map_tl [symmetric] by (simp add: od_set_fresh)
qed

lemma bounded_reasons_ok:
  assumes "reasons_ok st"
  shows "reasons_ok (st\<lparr>ls_stop_reason := bounded_set MAX_STOP_REASONS r v (ls_stop_reason st),
      ls_stop_thread := bounded_set MAX_STOP_REASONS r w (ls_stop_thread st)\<rparr>)"
proof -
  let ?d = "bounded_set MAX_STOP_REASONS r v (ls_stop_reason st)"
  have same: "od_keys (ls_stop_thread st) = od_keys (ls_stop_reason st)" using assms by (simp add: reasons_ok_def)
  then have len: "length (ls_stop_thread st) = length (ls_stop_reason st)" by (metis length_map)
  have "od_keys (bounded_set MAX_STOP_REASONS r w (ls_stop_thread st)) = od_keys ?d"
    by (simp only: keys_bounded_set same len)
  moreover have "od_wf ?d"
    using assms by (auto simp: reasons_ok_def keys_bounded_set distinct_tl dest: in_set_tlD)
  moreover have "length (od_keys ?d) \<le> MAX_STOP_REASONS"
    using assms len unfolding keys_bounded_set by (auto simp: reasons_ok_def MAX_STOP_REASONS_def)
  ultimately show ?thesis by (simp add: reasons_ok_def)
qed

lemma track_and_check_ok:
  assumes "loop_ok c st" "config_ok c" "track_and_check ops c hex rt messages st = (d, st')"
  shows "loop_ok c st'"
proof (cases "messages = [] \<or> (\<forall>m. last messages = Ai m \<longrightarrow> ai_calls m = [])")
  case True
  then show ?thesis using assms by (auto simp: track_and_check_def split: chat_msg.splits if_splits)
next
  case False
  then obtain m where m: "messages \<noteq> []" "last messages = Ai m" "ai_calls m \<noteq> []" by blast
  obtain k st1 where k: "run_scope_key c hex rt st = (k, st1)" by (cases "run_scope_key c hex rt st")
  then have "track c k (hash_tool_calls ops (ai_calls m)) (map call_name (ai_calls m)) st1 = (d, st')"
    using assms(3) m by (simp add: track_and_check_def)
  then show ?thesis using track_ok [OF run_scope_key_ok [OF assms(1) k] assms(2)] by blast
qed

lemma after_model_ok:
  assumes "loop_ok c st" "config_ok c" "after_model ops render c hex rt messages st = (m, r, st')"
  shows "loop_ok c st'"
proof -
  obtain d st1 where d: "track_and_check ops c hex rt messages st = (d, st1)"
    by (cases "track_and_check ops c hex rt messages st")
  note ok1 = track_and_check_ok [OF assms(1,2) d]
  show ?thesis
  proof (cases d)
    case None
    then show ?thesis using assms(3) d ok1 by (simp add: after_model_def)
  next
    case (Some dec)
    obtain k st2 where k: "run_scope_key c hex rt st1 = (k, st2)" by (cases "run_scope_key c hex rt st1")
    note ok2 = run_scope_key_ok [OF ok1 k]
    let ?stop = "st2\<lparr>ls_stop_reason := bounded_set MAX_STOP_REASONS (snd k) ''loop_capped'' (ls_stop_reason st2),
        ls_stop_thread := bounded_set MAX_STOP_REASONS (snd k) (fst k) (ls_stop_thread st2)\<rparr>"
    have "loop_ok c ?stop"
      using ok2 bounded_reasons_ok [of st2 "snd k" "fst k" "''loop_capped''"]
        tracked_ok_cong [of ?stop st2 c] pending_ok_cong [of ?stop st2 c] fallback_ok_cong [of ?stop st2 c]
      by (simp add: loop_ok_def)
    moreover have "st' = ?stop \<or> st' = st2 \<or> st' = queue_warning c k (ld_message dec) st2"
      using assms(3) d Some k by (auto simp: after_model_def split: if_splits chat_msg.splits)
    ultimately show ?thesis using ok2 queue_warning_ok(1) by blast
  qed
qed

lemma release_fallback_ok: "loop_ok c st \<Longrightarrow> loop_ok c (release_fallback_run_id rt st)"
proof -
  assume ok: "loop_ok c st"
  have "loop_ok c (st\<lparr>ls_fallback_ids := od_del i (ls_fallback_ids st)\<rparr>)" for i
    using ok length_delete_le [of i "ls_fallback_ids st"]
      tracked_ok_cong [of "st\<lparr>ls_fallback_ids := od_del i (ls_fallback_ids st)\<rparr>" st c]
      pending_ok_cong [of "st\<lparr>ls_fallback_ids := od_del i (ls_fallback_ids st)\<rparr>" st c]
      reasons_ok_cong [of "st\<lparr>ls_fallback_ids := od_del i (ls_fallback_ids st)\<rparr>" st]
    by (simp add: loop_ok_def fallback_ok_def)
  then show ?thesis
    using ok by (auto simp: release_fallback_run_id_def Let_def split: prod.splits option.splits)
qed

lemma after_agent_ok: "loop_ok c st \<Longrightarrow> loop_ok c (after_agent c hex rt st)"
  using run_scope_key_ok [of c st hex rt] drop_pending_loop_ok release_fallback_ok
  by (auto simp: after_agent_def split: prod.split)

lemma consume_ok: "loop_ok c st \<Longrightarrow> loop_ok c (snd (consume_stop_reason r st))"
proof -
  let ?st = "st\<lparr>ls_stop_reason := od_del r (ls_stop_reason st), ls_stop_thread := od_del r (ls_stop_thread st)\<rparr>"
  assume ok: "loop_ok c st"
  have "reasons_ok st" using ok by (simp add: loop_ok_def)
  then have "od_wf (od_del r (ls_stop_reason st)) \<and> od_keys (od_del r (ls_stop_reason st)) = od_keys (od_del r (ls_stop_thread st))
      \<and> length (od_del r (ls_stop_reason st)) \<le> MAX_STOP_REASONS \<and> od_wf (od_del r (ls_stop_thread st))"
    unfolding reasons_ok_def od_keys_del using length_delete_le [of r "ls_stop_reason st"] by (auto intro: distinct_removeAll)
  then have "reasons_ok ?st" by (simp add: reasons_ok_def)
  then show ?thesis
    using ok tracked_ok_cong [of ?st st c] pending_ok_cong [of ?st st c] fallback_ok_cong [of ?st st c]
    by (simp add: loop_ok_def consume_stop_reason_def)
qed

lemma keys_filter_case: "od_keys (filter (\<lambda>(k, _). P k) d) = filter P (od_keys d)"
  by (induction d) auto

lemma reset_ok: "loop_ok c st \<Longrightarrow> loop_ok c (reset_loop thread_id st)"
proof (cases "non_empty thread_id")
  case None
  then show ?thesis by (simp add: reset_loop_def new_loop_ok)
next
  case (Some t)
  assume ok: "loop_ok c st"
  let ?st = "reset_loop thread_id st"
  have st: "tracked_ok c st" "pending_ok c st" "reasons_ok st" "fallback_ok c st" using ok by (simp_all add: loop_ok_def)
  note d = reset_loop_def Some option.case Let_def
  have history: "ls_history ?st = filter (\<lambda>(k, _). fst k \<noteq> t) (ls_history st)" by (simp add: d)
  have "window_of ?st j = (if fst j = t then \<lparr>fw_names = [], fw_counter = Map.empty, fw_warned = {}\<rparr> else window_of st j)" for j
    by (simp add: window_of_def d)
  then have windows: "\<forall>j. window_ok c (window_of ?st j)" using tracked_windows [OF st(1)] empty_window_ok by simp
  have "dom (ls_warned ?st) \<union> dom (ls_names ?st) \<union> dom (ls_counter ?st) \<union> dom (ls_freq_warned ?st)
      \<subseteq> {k \<in> dom (ls_warned st) \<union> dom (ls_names st) \<union> dom (ls_counter st) \<union> dom (ls_freq_warned st). fst k \<noteq> t}"
    by (auto simp: d split: if_splits)
  also have "\<dots> \<subseteq> {k \<in> set (od_keys (ls_history st)). fst k \<noteq> t}" using st(1) unfolding tracked_ok_def by blast
  also have "\<dots> = set (od_keys (ls_history ?st))" unfolding history keys_filter_case by (simp only: set_filter)
  finally have "tracked_ok c ?st"
    using st(1) windows unfolding tracked_ok_def history keys_filter_case
    by (auto simp only: distinct_filter set_filter intro: le_trans [OF length_filter_le])
  moreover have "pending_ok c ?st"
    using st(2) unfolding pending_ok_def
    by (auto simp: d keys_filter_case le_trans [OF length_filter_le] simp del: set_map)
  moreover have "reasons_ok ?st"
    using st(3) unfolding reasons_ok_def
    by (auto simp: d keys_filter_case intro: le_trans [OF length_filter_le] simp del: set_map)
  moreover have "fallback_ok c ?st" using st(4) by (simp add: fallback_ok_def d)
  ultimately show ?thesis by (simp add: loop_ok_def)
qed

text \<open>
  The states of a middleware instance shared by any number of runs. A model call is two steps, the
  draining of its scope's warnings and, when it fails, their restoration, with any other steps between.
\<close>

inductive loop_reach ::
  "key_ops \<Rightarrow> (loop_message \<Rightarrow> string) \<Rightarrow> loop_config \<Rightarrow> loop_state \<Rightarrow> bool"
  for ops render c where
  start: "loop_reach ops render c new_loop"
| response: "\<lbrakk>loop_reach ops render c st; after_model ops render c hex rt messages st = (m, r, st')\<rbrakk>
    \<Longrightarrow> loop_reach ops render c st'"
| scope: "\<lbrakk>loop_reach ops render c st; run_scope_key c hex rt st = (k, st')\<rbrakk> \<Longrightarrow> loop_reach ops render c st'"
| drain: "\<lbrakk>loop_reach ops render c st; drain_warnings k st = (ws, st')\<rbrakk> \<Longrightarrow> loop_reach ops render c st'"
| restore: "\<lbrakk>loop_reach ops render c st; distinct ws; length ws \<le> MAX_PENDING_WARNINGS\<rbrakk>
    \<Longrightarrow> loop_reach ops render c (restore_warnings c k ws st)"
| finish: "loop_reach ops render c st \<Longrightarrow> loop_reach ops render c (after_agent c hex rt st)"
| consume: "loop_reach ops render c st \<Longrightarrow> loop_reach ops render c (snd (consume_stop_reason r st))"
| reset: "loop_reach ops render c st \<Longrightarrow> loop_reach ops render c (reset_loop t st)"

lemma loop_reach_ok: "\<lbrakk>loop_reach ops render c st; config_ok c\<rbrakk> \<Longrightarrow> loop_ok c st"
proof (induction rule: loop_reach.induct)
  case (restore st ws k)
  then show ?case using restore_warnings_ok(1) [of c st ws k] by (cases "ws = []") (simp_all add: restore_warnings_def)
next
  case start
  show ?case by (rule new_loop_ok)
next
  case (response st hex rt messages m r st')
  show ?case by (rule after_model_ok [OF response(3) [OF response(4)] response(4,2)])
next
  case (scope st hex rt k st')
  show ?case by (rule run_scope_key_ok [OF scope(3) [OF scope(4)] scope(2)])
next
  case (drain st k ws st')
  show ?case by (rule drain_warnings_ok(1) [OF drain(3) [OF drain(4)] drain(2)])
next
  case (finish st hex rt)
  show ?case by (rule after_agent_ok [OF finish(2) [OF finish(3)]])
next
  case (consume st r)
  show ?case by (rule consume_ok [OF consume(2) [OF consume(3)]])
next
  case (reset st t)
  show ?case by (rule reset_ok [OF reset(2) [OF reset(3)]])
qed

text \<open>
  C32. Whatever runs share a middleware instance, its state stays bounded: no more scopes than
  \<open>max_tracked_threads\<close>, their hashes within the window, warnings and counters only for tracked
  scopes, the counters equal to what the windows of names hold, and bounded numbers of queues of at
  most four distinct warnings, of stop reasons and of fallback ids.
\<close>

theorem loop_state_stays_bounded:
  assumes "loop_reach ops render c st" "config_ok c"
  shows "length (ls_history st) \<le> lc_max_tracked_threads c
    \<and> (\<forall>h \<in> snd ` set (ls_history st). length h \<le> lc_window_size c)
    \<and> dom (ls_warned st) \<union> dom (ls_names st) \<union> dom (ls_counter st) \<union> dom (ls_freq_warned st)
        \<subseteq> set (od_keys (ls_history st))
    \<and> length (fw_names (window_of st k)) \<le> tool_freq_window c
    \<and> count_of (fw_counter (window_of st k)) tool = int (count_list (fw_names (window_of st k)) tool)
    \<and> length (ls_pending st) = length (ls_touch st) \<and> length (ls_pending st) \<le> max_scope_keys c
    \<and> (\<forall>q \<in> snd ` set (ls_pending st). distinct q \<and> length q \<le> MAX_PENDING_WARNINGS)
    \<and> length (ls_stop_reason st) \<le> MAX_STOP_REASONS \<and> length (ls_stop_thread st) \<le> MAX_STOP_REASONS
    \<and> length (ls_fallback_ids st) \<le> max_scope_keys c"
proof -
  have ok: "tracked_ok c st" "pending_ok c st" "reasons_ok st" "fallback_ok c st"
    using loop_reach_ok [OF assms] by (simp_all add: loop_ok_def)
  have "length (ls_pending st) = card (set (od_keys (ls_pending st)))"
    "length (ls_touch st) = card (set (od_keys (ls_touch st)))"
    using ok(2) distinct_card [of "od_keys (ls_pending st)"] distinct_card [of "od_keys (ls_touch st)"]
    by (simp_all add: pending_ok_def)
  then have pending: "length (ls_pending st) = length (ls_touch st)" using ok(2) by (simp add: pending_ok_def)
  have "length (od_keys (ls_stop_thread st)) = length (od_keys (ls_stop_reason st))"
    using ok(3) unfolding reasons_ok_def by (elim conjE) (simp only:)
  then have "length (ls_stop_thread st) \<le> MAX_STOP_REASONS" using ok(3) by (simp add: reasons_ok_def)
  moreover have "\<forall>h \<in> snd ` set (ls_history st). length h \<le> lc_window_size c"
    using ok(1) unfolding tracked_ok_def by fastforce
  moreover have "\<forall>q \<in> snd ` set (ls_pending st). distinct q \<and> length q \<le> MAX_PENDING_WARNINGS"
    using ok(2) unfolding pending_ok_def by fastforce
  moreover have "window_ok c (window_of st k)" by (rule tracked_windows [OF ok(1)])
  ultimately show ?thesis
    using ok pending unfolding tracked_ok_def pending_ok_def reasons_ok_def fallback_ok_def window_ok_def mirrors_def pending
    by blast
qed

text \<open>A response with one call, and the state after it.\<close>

definition demo_ops :: key_ops where
  "demo_ops = \<lparr>ko_loads = (\<lambda>_. None), ko_dumps = (\<lambda>_. Some ''{}''), ko_int = (\<lambda>_. None), ko_str = (\<lambda>_. []),
     ko_digest = concat\<rparr>"

definition demo_text :: "loop_message \<Rightarrow> string" where
  "demo_text m = (case m of LoopWarning \<Rightarrow> ''warning'' | LoopStop \<Rightarrow> ''stop'' | _ \<Rightarrow> ''frequency'')"

definition demo_runtime :: runtime where
  "demo_runtime = \<lparr>rt_thread_id = Some ''t'', rt_run_id = Some (Some ''r''), rt_execution_run_id = None, rt_anchor = (0, 0)\<rparr>"

definition demo_call :: dict where
  "demo_call = [(''name'', VStr ''bash''), (''args'', VDict []), (''id'', VStr ''c1'')]"

definition demo_ai :: ai_msg where
  "demo_ai = \<lparr>am_content = VStr ''ok'', am_tool_calls = [VDict demo_call], am_invalid = [], am_kwargs = [], am_meta = []\<rparr>"

lemma loop_state_stays_bounded_witness:
  "length (ls_history (snd (snd (after_model demo_ops demo_text default_loop_config ''x'' demo_runtime [Ai demo_ai] new_loop))))
    \<le> lc_max_tracked_threads default_loop_config"
proof -
  have ok: "config_ok default_loop_config" by (simp add: config_ok_def default_loop_config_def)
  obtain m r st' where st': "after_model demo_ops demo_text default_loop_config ''x'' demo_runtime [Ai demo_ai] new_loop = (m, r, st')"
    by (rule prod_cases3)
  have "loop_reach demo_ops demo_text default_loop_config st'" by (rule loop_reach.response [OF loop_reach.start st'])
  from loop_state_stays_bounded [OF this ok, THEN conjunct1] show ?thesis by (simp only: st' prod.sel)
qed

section \<open>Warnings and failed model calls\<close>

text \<open>
  A warning is shown once, and a failed model call does not lose it: the request is the messages,
  followed, if warnings are pending, by one message that holds the text of each of them once,
  separated by blank lines; if the call raises, the error is
  re-raised and the scope's queue is what it was, so that the retry shows the same warnings; if it
  returns, the queue is empty. Other scopes may take any steps in between.
\<close>

theorem warnings_survive_failed_calls:
  assumes "loop_reach ops render c st" "config_ok c"
    "loop_reach ops render c (meanwhile (snd (drain_warnings k st)))"
    "od_get (ls_pending (meanwhile (snd (drain_warnings k st)))) k = None"
    "wrap_model_call text human c k handler meanwhile messages st = (result, st')"
  defines "ws \<equiv> od_get_default (ls_pending st) k []"
  shows "(if ws = [] then result = handler messages
       else \<exists>shown. distinct shown \<and> set shown = text ` set ws
         \<and> result = handler (messages @ [human (py_join [char_of (10::nat), char_of (10::nat)] shown)]))
    \<and> od_get_default (ls_pending st') k [] = (case result of Inl e \<Rightarrow> ws | Inr r \<Rightarrow> [])
    \<and> loop_ok c st'"
proof -
  obtain st1 where d: "drain_warnings k st = (ws, st1)" by (simp add: drain_warnings_def ws_def)
  let ?st2 = "meanwhile st1"
  have ok: "loop_ok c ?st2" using loop_reach_ok [OF assms(3,2)] d by simp
  have empty: "od_get_default (ls_pending ?st2) k [] = []" using assms(4) d by (simp add: od_get_default_def)
  note ws = drain_warnings_ok [OF loop_reach_ok [OF assms(1,2)] d]
  have r: "result = handler (inject_warnings text ws messages human)"
    "st' = (case result of Inl _ \<Rightarrow> restore_warnings c k ws ?st2 | Inr _ \<Rightarrow> ?st2)"
    using assms(5) by (auto simp: wrap_model_call_def d Let_def)
  have shown: "if ws = [] then result = handler messages
     else \<exists>shown. distinct shown \<and> set shown = text ` set ws
       \<and> result = handler (messages @ [human (py_join [char_of (10::nat), char_of (10::nat)] shown)])"
    using r(1) by (auto simp: inject_warnings_def intro!: exI [of _ "fromkeys (map text ws)"])
  have restored: "od_get_default (ls_pending (restore_warnings c k ws ?st2)) k [] = ws \<and> loop_ok c (restore_warnings c k ws ?st2)"
  proof (cases "ws = []")
    case True
    then show ?thesis using ok empty by (simp add: restore_warnings_def)
  next
    case False
    have "take MAX_PENDING_WARNINGS (filter (\<lambda>w. w \<notin> set (od_get_default (ls_pending ?st2) k [])) ws
        @ od_get_default (ls_pending ?st2) k []) = ws"
      using ws(3) unfolding empty by simp
    then show ?thesis
      using restore_warnings_ok [OF ok ws(2) False, of k] by (simp only: od_get_default_def option.case simp_thms)
  qed
  show ?thesis
  proof (cases result)
    case (Inl e)
    then show ?thesis using r shown restored by simp
  next
    case (Inr a)
    then show ?thesis using r shown ok empty by simp
  qed
qed

text \<open>A call that fails with a warning pending.\<close>

definition demo_pending :: loop_state where
  "demo_pending = restore_warnings default_loop_config demo_scope [LoopWarning] new_loop"

lemma warnings_survive_failed_calls_witness:
  "\<exists>st'. wrap_model_call demo_text (\<lambda>s. s) default_loop_config demo_scope (\<lambda>ms. Inl (length ms) :: nat + string) (\<lambda>s. s)
       [''hi''] demo_pending = (Inl 2, st')
     \<and> od_get_default (ls_pending st') demo_scope [] = [LoopWarning]"
proof -
  have ok: "config_ok default_loop_config" by (simp add: config_ok_def default_loop_config_def)
  have reach: "loop_reach demo_ops demo_text default_loop_config demo_pending"
    unfolding demo_pending_def by (rule loop_reach.restore [OF loop_reach.start]) (simp_all add: MAX_PENDING_WARNINGS_def)
  have ws: "od_get_default (ls_pending demo_pending) demo_scope [] = [LoopWarning]"
    by (simp add: demo_pending_def restore_warnings_def new_loop_def od_get_default_def MAX_PENDING_WARNINGS_def
        prune_pending_def touch_pending_def od_move_to_end_def max_scope_keys_def default_loop_config_def)
  obtain st1 where d: "drain_warnings demo_scope demo_pending = ([LoopWarning], st1)"
    by (simp add: drain_warnings_def ws)
  then have st1: "loop_reach demo_ops demo_text default_loop_config (snd (drain_warnings demo_scope demo_pending))"
    "od_get (ls_pending (snd (drain_warnings demo_scope demo_pending))) demo_scope = None"
    using loop_reach.drain [OF reach d] drain_warnings_ok(4) [OF loop_reach_ok [OF reach ok] d] by simp_all
  obtain result st' where w: "wrap_model_call demo_text (\<lambda>s. s) default_loop_config demo_scope
      (\<lambda>ms. Inl (length ms) :: nat + string) (\<lambda>s. s) [''hi''] demo_pending = (result, st')"
    by fastforce
  note shown = warnings_survive_failed_calls [OF reach ok st1 w, unfolded ws]
  have "result = Inl 2" using conjunct1 [OF shown] by clarsimp
  with conjunct2 [OF shown] w show ?thesis by simp
qed

section \<open>The hard stop\<close>

lemma evict_oldest_reason [simp]: "ls_stop_reason (evict_oldest cap hs st) = ls_stop_reason st"
  by (induction cap hs st rule: evict_oldest.induct) (simp_all add: forget_scope_parts)

lemma track_reason: "track c k h names st = (d, st') \<Longrightarrow> ls_stop_reason st' = ls_stop_reason st"
proof -
  assume t: "track c k h names st = (d, st')"
  have touched: "ls_stop_reason (touch_history c k st) = ls_stop_reason st"
    by (simp add: touch_history_def evict_if_needed_def)
  have recorded: "record_hash c k h s = (history, s1) \<Longrightarrow> ls_stop_reason s1 = ls_stop_reason s" for s history s1
    by (auto simp: record_hash_def Let_def)
  have marked: "ls_stop_reason (mark_warning k h x s) = ls_stop_reason s" for x s
    by (simp add: mark_warning_def Let_def)
  from t show ?thesis
    by (cases rule: track_cases)
      (auto simp: touched recorded marked put_window_def dest!: recorded split: option.splits)
qed

lemma track_and_check_reason:
  "track_and_check ops c hex rt messages st = (d, st') \<Longrightarrow> ls_stop_reason st' = ls_stop_reason st"
  by (auto simp: track_and_check_def split: if_splits chat_msg.splits prod.splits
      dest!: track_reason run_scope_key_frame)

lemma fold_drop_reason: "ls_stop_reason (fold drop_pending_key ks st) = ls_stop_reason st"
  by (induction ks arbitrary: st) (simp_all add: drop_pending_key_def)

lemma queue_warning_reason: "ls_stop_reason (queue_warning c k w st) = ls_stop_reason st"
  by (simp add: queue_warning_def prune_pending_def touch_pending_def fold_drop_reason Let_def)

text \<open>Asking again for the scope of a runtime gives the same scope.\<close>

lemma od_get_last_n:
  "\<lbrakk>0 < n; j \<notin> set (od_keys d)\<rbrakk> \<Longrightarrow> od_get (last_n n (d @ [(j, v)])) j = Some v"
proof -
  assume a: "0 < n" "j \<notin> set (od_keys d)"
  have "last_n n (d @ [(j, v)]) = last_n (n - 1) d @ [(j, v)]"
    using a(1) by (simp add: last_n_def)
  moreover have "j \<notin> set (od_keys (last_n (n - 1) d))" using a(2) set_last_n [of "n - 1" "od_keys d"] unfolding map_last_n by blast
  then have "od_get (last_n (n - 1) d) j = None" using od_get_None [of "last_n (n - 1) d" j] by blast
  ultimately show ?thesis by (simp add: map_add_def)
qed

lemma run_scope_key_again:
  assumes "run_scope_key c hex rt st = (k, st1)"
  shows "fst (run_scope_key c hex' rt (st1\<lparr>ls_stop_reason := a, ls_stop_thread := b\<rparr>)) = k"
proof -
  have "0 < max_scope_keys c" by (simp add: max_scope_keys_def)
  then have "od_get (last_n (max_scope_keys c) (od_move_to_end i (od_set i x ids))) i = Some x" for i x and ids :: "(nat, nat \<times> string) odict"
    using od_get_last_n [of "max_scope_keys c" i "od_del i (od_set i x ids)" x]
    by (simp add: od_move_to_end_def set_keys_del update_conv')
  then show ?thesis
    using assms
    by (auto simp: run_scope_key_def get_run_id_def Let_def od_get_move_to_end split: option.splits prod.splits if_splits)
qed

text \<open>
  A hard stop ends the turn and is reported once: the message that replaces the response carries
  no call on any surface if the response had no unparsed call, the reason is written to the runtime
  context and, for the scope's run, can be consumed exactly once. Without a hard stop the response
  stands and no reason is recorded.
\<close>

theorem hard_stop_ends_the_turn:
  fixes hex' :: string
  assumes "after_model ops text c hex rt messages st = (replacement, reason, st')"
  defines "run \<equiv> snd (fst (run_scope_key c hex' rt st'))"
  shows "case replacement of
      None \<Rightarrow> reason = None \<and> ls_stop_reason st' = ls_stop_reason st
    | Some m' \<Rightarrow> reason = Some ''loop_capped'' \<and> am_tool_calls m' = []
        \<and> (\<exists>m. last messages = Ai m \<and> (am_invalid m = [] \<longrightarrow> \<not> carries_call m'))
        \<and> fst (consume_stop_reason run st') = Some ''loop_capped''
        \<and> fst (consume_stop_reason run (snd (consume_stop_reason run st'))) = None"
proof -
  obtain d st1 where d: "track_and_check ops c hex rt messages st = (d, st1)"
    by (cases "track_and_check ops c hex rt messages st")
  obtain k st2 where k: "run_scope_key c hex rt st1 = (k, st2)" by (cases "run_scope_key c hex rt st1")
  have same: "ls_stop_reason st1 = ls_stop_reason st" "ls_stop_reason st2 = ls_stop_reason st1"
    using track_and_check_reason [OF d] run_scope_key_frame [OF k] by auto
  let ?stop = "st2\<lparr>ls_stop_reason := bounded_set MAX_STOP_REASONS (snd k) ''loop_capped'' (ls_stop_reason st2),
      ls_stop_thread := bounded_set MAX_STOP_REASONS (snd k) (fst k) (ls_stop_thread st2)\<rparr>"
  have "replacement = None \<and> reason = None \<and> ls_stop_reason st' = ls_stop_reason st
      \<or> (\<exists>m (dec :: loop_decision). replacement = Some (clone_with_tool_calls m [] (Some (append_text ops (am_content m) (text (ld_message dec)))))
          \<and> reason = Some ''loop_capped'' \<and> st' = ?stop \<and> last messages = Ai m)"
  proof (cases "\<exists>dec m. d = Some dec \<and> ld_action dec = HardStop \<and> last messages = Ai m")
    case True
    then obtain dec m where "d = Some dec" "ld_action dec = HardStop" "last messages = Ai m" by blast
    then show ?thesis
      using assms(1) d k by (intro disjI2 exI [of _ m] exI [of _ dec]) (auto simp: after_model_def)
  next
    case False
    then show ?thesis
      using assms(1) d k same
      by (auto simp: after_model_def queue_warning_reason split: option.splits if_splits chat_msg.splits)
  qed
  then consider (stop) m and dec :: loop_decision where "replacement = Some (clone_with_tool_calls m [] (Some (append_text ops (am_content m) (text (ld_message dec)))))"
      "reason = Some ''loop_capped''" "st' = ?stop" "last messages = Ai m"
    | (pass) "replacement = None" "reason = None" "ls_stop_reason st' = ls_stop_reason st"
    by blast
  then show ?thesis
  proof cases
    case (stop m dec)
    have run: "run = snd k" using run_scope_key_again [OF k, of hex'] by (simp add: run_def stop(3))
    have "\<not> carries_call (clone_with_tool_calls m [] content)" if "am_invalid m = []" for content
      using strip_carries_no_call [of m content] that by (simp add: map_filter_simps)
    moreover have "am_tool_calls (clone_with_tool_calls m [] content) = []" for content
      by (simp add: clone_with_tool_calls_def Let_def)
    moreover have "od_get (bounded_set n r v dd) r = Some v" for n r v and dd :: "(string option, string) odict"
      by (simp add: bounded_set_def update_conv')
    ultimately show ?thesis
      using stop run by (simp add: consume_stop_reason_def delete_conv')
  qed simp
qed

text \<open>A configuration under which the first call is already a loop.\<close>

lemma hard_stop_ends_the_turn_witness:
  "\<exists>m' st'. after_model demo_ops demo_text (default_loop_config\<lparr>lc_hard_limit := 1\<rparr>) ''x'' demo_runtime [Ai demo_ai] new_loop
       = (Some m', Some ''loop_capped'', st')
     \<and> \<not> carries_call m' \<and> am_content m' = VStr (''ok'' @ [char_of (10::nat), char_of (10::nat)] @ ''stop'')"
proof -
  let ?c = "default_loop_config\<lparr>lc_hard_limit := 1\<rparr>"
  obtain m' r st' where a: "after_model demo_ops demo_text ?c ''x'' demo_runtime [Ai demo_ai] new_loop = (m', r, st')"
    by (rule prod_cases3)
  have m': "m' = Some (clone_with_tool_calls demo_ai [] (Some (VStr (''ok'' @ [char_of (10::nat), char_of (10::nat)] @ ''stop''))))"
    using a
    by (simp add: after_model_def track_and_check_def ai_calls_def demo_ai_def map_filter_simps demo_runtime_def
        run_scope_key_def get_run_id_def get_thread_id_def track_def touch_history_def record_hash_def evict_if_needed_def
        new_loop_def od_get_default_def default_loop_config_def od_move_to_end_def append_text_def demo_text_def Let_def)
  let ?m = "clone_with_tool_calls demo_ai [] (Some (VStr (''ok'' @ [char_of (10::nat), char_of (10::nat)] @ ''stop'')))"
  have last: "last [Ai demo_ai] = Ai demo_ai" by simp
  from hard_stop_ends_the_turn [OF a, of "''x''"] have "r = Some ''loop_capped''" "\<not> carries_call ?m"
    unfolding m' last by (simp_all add: demo_ai_def)
  moreover have "am_content ?m = VStr (''ok'' @ [char_of (10::nat), char_of (10::nat)] @ ''stop'')"
    by (simp add: clone_with_tool_calls_def sync_content_def Let_def)
  ultimately show ?thesis using a unfolding m' by blast
qed

text \<open>
  The configuration does not relate the window to the limit: with a window shorter than the limit the
  layer of identical call sets never stops a run.
\<close>

lemma short_window_never_stops:
  assumes "0 < lc_window_size c" "lc_window_size c < lc_hard_limit c" "record_hash c k h st = (history, st1)"
  shows "count_list history j < lc_hard_limit c"
proof -
  have "length history \<le> lc_window_size c" using record_hash_parts(1) [OF assms(1,3)] by simp
  moreover have "count_list history j \<le> length history" by (rule count_le_length)
  ultimately show ?thesis using assms(2) by simp
qed

end
