(* ===== verification/Capacity.thy ===== *)
theory Capacity
  imports Prelude
begin

text \<open>
  Admission control of subagent executions
  (\<^verbatim>\<open>backend/packages/harness/deerflow/subagents/capacity.py\<close>): a first-in-first-out pool of slots
  for the callers of one event loop, and the process-wide controller that is rebuilt only when idle.

  The asyncio lock is never held across an \<^verbatim>\<open>await\<close>, so each critical section is one atomic step on the
  state. A waiter is an asyncio future: \<open>Granted\<close> when a releasing caller sets its result, \<open>Cancelled\<close>
  when the task that awaits it is cancelled or times out; its task runs on in a later step.
\<close>

section \<open>The pool\<close>

record runtime_config =
  rc_max_running :: nat
  rc_max_queued :: nat
  rc_admission_policy :: string
  rc_queue_timeout_seconds :: nat

datatype future = Pending | Granted | Cancelled

record pool =
  po_running :: nat
  po_waiters :: "nat list"
  po_futures :: "future list"

definition new_pool :: pool where
  "new_pool = \<lparr>po_running = 0, po_waiters = [], po_futures = []\<rparr>"

record pool_snapshot =
  sn_max_running :: nat
  sn_running :: nat
  sn_max_queued :: nat
  sn_queued :: nat
  sn_policy :: string

definition snapshot :: "runtime_config \<Rightarrow> pool \<Rightarrow> pool_snapshot" where
  "snapshot c p = \<lparr>sn_max_running = rc_max_running c, sn_running = po_running p,
     sn_max_queued = rc_max_queued c, sn_queued = length (po_waiters p), sn_policy = rc_admission_policy c\<rparr>"

definition pending :: "pool \<Rightarrow> nat list" where
  "pending p = filter (\<lambda>w. po_futures p ! w = Pending) (po_waiters p)"

datatype admission = Acquired | Rejected | Enqueued nat

definition admit :: "runtime_config \<Rightarrow> bool \<Rightarrow> pool \<Rightarrow> admission \<times> pool" where
  "admit c wait p =
     (if po_running p < rc_max_running c then (Acquired, p\<lparr>po_running := po_running p + 1\<rparr>)
      else if \<not> wait \<or> rc_admission_policy c = ''reject'' \<or> rc_max_queued c \<le> length (pending p)
      then (Rejected, p)
      else (Enqueued (length (po_futures p)),
            p\<lparr>po_waiters := po_waiters p @ [length (po_futures p)], po_futures := po_futures p @ [Pending]\<rparr>))"

text \<open>The \<^verbatim>\<open>while\<close> of \<^verbatim>\<open>_release_locked\<close>: the first waiter whose future is not done.\<close>

fun next_waiter :: "future list \<Rightarrow> nat list \<Rightarrow> nat option \<times> nat list" where
  "next_waiter fs [] = (None, [])"
| "next_waiter fs (w # ws) = (if fs ! w = Pending then (Some w, ws) else next_waiter fs ws)"

text \<open>\<^verbatim>\<open>False\<close> stands for the \<^verbatim>\<open>RuntimeError\<close> of a release without an owner.\<close>

definition release_locked :: "pool \<Rightarrow> bool \<times> pool" where
  "release_locked p =
     (case next_waiter (po_futures p) (po_waiters p) of
        (Some w, ws) \<Rightarrow> (True, p\<lparr>po_waiters := ws, po_futures := (po_futures p)[w := Granted]\<rparr>)
      | (None, ws) \<Rightarrow>
          if po_running p = 0 then (False, p\<lparr>po_waiters := ws\<rparr>)
          else (True, p\<lparr>po_waiters := ws, po_running := po_running p - 1\<rparr>))"

text \<open>The handler of a timed out or cancelled wait.\<close>

definition abandon :: "nat \<Rightarrow> pool \<Rightarrow> bool \<times> pool" where
  "abandon w p =
     (if w \<in> set (po_waiters p) then (True, p\<lparr>po_waiters := remove1 w (po_waiters p)\<rparr>)
      else if po_futures p ! w = Granted then release_locked p
      else (True, p))"

text \<open>Cancelling a task cancels the future it awaits, unless that is done.\<close>

definition cancel_future :: "nat \<Rightarrow> pool \<Rightarrow> pool" where
  "cancel_future w p =
     (if po_futures p ! w = Pending then p\<lparr>po_futures := (po_futures p)[w := Cancelled]\<rparr> else p)"

section \<open>Callers of a slot\<close>

text \<open>
  A caller of \<^verbatim>\<open>slot\<close>: before it, awaiting its future, with an exception of that wait to handle, inside,
  and with the release task created. The release task is shielded, so it runs whatever happens to its
  creator. A crash is a release that raised.
\<close>

datatype caller = Outside | Waiting nat | Interrupted nat | Inside | Releasing | Crashed

datatype slot_event = Enter nat bool | Wake nat | Interrupt nat | Recover nat | Leave nat | Release nat | Arrive

type_synonym slot_system = "caller list \<times> pool"

definition after_release :: "nat \<Rightarrow> caller list \<Rightarrow> bool \<times> pool \<Rightarrow> slot_system" where
  "after_release i cs r = (cs[i := if fst r then Outside else Crashed], snd r)"

fun slot_step :: "runtime_config \<Rightarrow> slot_event \<Rightarrow> slot_system \<Rightarrow> slot_system option" where
  "slot_step c Arrive (cs, p) = Some (cs @ [Outside], p)"
| "slot_step c (Enter i wait) (cs, p) =
     (if i < length cs \<and> cs ! i = Outside
      then Some (case admit c wait p of
                   (Acquired, p1) \<Rightarrow> (cs[i := Inside], p1)
                 | (Rejected, p1) \<Rightarrow> (cs, p1)
                 | (Enqueued w, p1) \<Rightarrow> (cs[i := Waiting w], p1))
      else None)"
| "slot_step c (Wake i) (cs, p) =
     (if i < length cs then
        (case cs ! i of
           Waiting w \<Rightarrow> if po_futures p ! w = Granted then Some (cs[i := Inside], p) else None
         | _ \<Rightarrow> None) else None)"
| "slot_step c (Interrupt i) (cs, p) =
     (if i < length cs then
        (case cs ! i of Waiting w \<Rightarrow> Some (cs[i := Interrupted w], cancel_future w p) | _ \<Rightarrow> None) else None)"
| "slot_step c (Recover i) (cs, p) =
     (if i < length cs then
        (case cs ! i of Interrupted w \<Rightarrow> Some (after_release i cs (abandon w p)) | _ \<Rightarrow> None) else None)"
| "slot_step c (Leave i) (cs, p) =
     (if i < length cs \<and> cs ! i = Inside then Some (cs[i := Releasing], p) else None)"
| "slot_step c (Release i) (cs, p) =
     (if i < length cs \<and> cs ! i = Releasing then Some (after_release i cs (release_locked p)) else None)"

fun slot_run :: "runtime_config \<Rightarrow> slot_event list \<Rightarrow> slot_system \<Rightarrow> slot_system option" where
  "slot_run c [] s = Some s"
| "slot_run c (e # es) s = (case slot_step c e s of None \<Rightarrow> None | Some s' \<Rightarrow> slot_run c es s')"

section \<open>The process-wide controller\<close>

text \<open>The installed configuration, and the pool with its configuration and loop, once created.\<close>

type_synonym 'l controller = "runtime_config \<times> (runtime_config \<times> pool \<times> 'l) option"

definition busy :: "runtime_config \<Rightarrow> pool \<Rightarrow> bool" where
  "busy c p \<longleftrightarrow> sn_running (snapshot c p) \<noteq> 0 \<or> sn_queued (snapshot c p) \<noteq> 0"

text \<open>\<^verbatim>\<open>configure_subagent_execution_capacity\<close>; \<open>None\<close> is its \<^verbatim>\<open>RuntimeError\<close>.\<close>

definition configure :: "runtime_config \<Rightarrow> 'l controller \<Rightarrow> 'l controller option" where
  "configure candidate g =
     (if fst g = candidate then Some g
      else case snd g of
        Some (c, p, l) \<Rightarrow> if busy c p then None else Some (candidate, None)
      | None \<Rightarrow> Some (candidate, None))"

text \<open>\<^verbatim>\<open>get_subagent_execution_capacity\<close> on the loop \<open>l\<close>.\<close>

definition get_capacity :: "'l \<Rightarrow> 'l controller \<Rightarrow> 'l controller option" where
  "get_capacity l g =
     (case snd g of
        None \<Rightarrow> Some (fst g, Some (fst g, new_pool, l))
      | Some (c, p, l') \<Rightarrow>
          if l' = l then Some g
          else if busy c p then None
          else Some (fst g, Some (fst g, new_pool, l)))"

definition configured_max_running :: "'l controller \<Rightarrow> nat" where
  "configured_max_running g = rc_max_running (fst g)"

end
