(* ===== verification/CapacityProofs.thy ===== *)
theory CapacityProofs
  imports Capacity
begin

text \<open>
  Every interleaving of callers, time-outs and cancellations keeps the number of callers inside at most
  \<^verbatim>\<open>max_running\<close>, loses no slot and leaves none idle while a caller waits; slots are handed on in the
  order of arrival, so that a waiter is served after as many releases as there are waiters before it.
\<close>

section \<open>Invariant\<close>

fun awaits :: "caller \<Rightarrow> nat option" where
  "awaits (Waiting w) = Some w"
| "awaits (Interrupted w) = Some w"
| "awaits _ = None"

text \<open>A slot belongs to a caller from the moment it is granted until it is released.\<close>

fun owns :: "future list \<Rightarrow> caller \<Rightarrow> bool" where
  "owns fs Inside = True"
| "owns fs Releasing = True"
| "owns fs (Waiting w) = (fs ! w = Granted)"
| "owns fs (Interrupted w) = (fs ! w = Granted)"
| "owns fs _ = False"

definition owners :: "caller list \<Rightarrow> future list \<Rightarrow> nat set" where
  "owners cs fs = {i. i < length cs \<and> owns fs (cs ! i)}"

fun caller_ok :: "pool \<Rightarrow> caller \<Rightarrow> bool" where
  "caller_ok p (Waiting w) = (w < length (po_futures p) \<and> po_futures p ! w \<noteq> Cancelled
     \<and> (po_futures p ! w = Pending \<longrightarrow> w \<in> set (po_waiters p)))"
| "caller_ok p (Interrupted w) = (w < length (po_futures p) \<and> po_futures p ! w \<noteq> Pending)"
| "caller_ok p Crashed = False"
| "caller_ok p _ = True"

definition distinct_waits :: "caller list \<Rightarrow> bool" where
  "distinct_waits cs \<longleftrightarrow> (\<forall>i j w. i < length cs \<and> j < length cs \<and> awaits (cs ! i) = Some w
     \<and> awaits (cs ! j) = Some w \<longrightarrow> i = j)"

definition pool_ok :: "runtime_config \<Rightarrow> pool \<Rightarrow> bool" where
  "pool_ok c p \<longleftrightarrow> po_running p \<le> rc_max_running c \<and> sorted_wrt (<) (po_waiters p)
     \<and> (\<forall>w \<in> set (po_waiters p). w < length (po_futures p) \<and> po_futures p ! w \<noteq> Granted)
     \<and> (pending p \<noteq> [] \<longrightarrow> po_running p = rc_max_running c) \<and> length (pending p) \<le> rc_max_queued c"

definition slot_inv :: "runtime_config \<Rightarrow> slot_system \<Rightarrow> bool" where
  "slot_inv c s \<longleftrightarrow> (case s of (cs, p) \<Rightarrow>
     pool_ok c p \<and> po_running p = card (owners cs (po_futures p)) \<and> distinct_waits cs
     \<and> (\<forall>i < length cs. caller_ok p (cs ! i))
     \<and> (\<forall>w \<in> set (pending p). \<exists>i < length cs. cs ! i = Waiting w))"

lemma next_waiter_Some:
  "next_waiter fs ws = (Some w, rest) \<Longrightarrow>
   \<exists>pre. ws = pre @ w # rest \<and> fs ! w = Pending \<and> (\<forall>x \<in> set pre. fs ! x \<noteq> Pending)"
proof (induction fs ws rule: next_waiter.induct)
  case (2 fs x ws)
  show ?case
  proof (cases "fs ! x = Pending")
    case True
    then show ?thesis using 2(2) by (intro exI [of _ "[]"]) simp
  next
    case False
    then obtain pre where "ws = pre @ w # rest" "fs ! w = Pending" "\<forall>x \<in> set pre. fs ! x \<noteq> Pending"
      using 2 by auto
    then show ?thesis using False by (intro exI [of _ "x # pre"]) simp
  qed
qed simp

lemma next_waiter_None:
  "next_waiter fs ws = (None, rest) \<Longrightarrow> rest = [] \<and> (\<forall>x \<in> set ws. fs ! x \<noteq> Pending)"
  by (induction fs ws rule: next_waiter.induct) (auto split: if_splits)

lemma pending_running [simp]: "pending (p\<lparr>po_running := n\<rparr>) = pending p"
  by (simp add: pending_def)

lemma finite_owners [simp]: "finite (owners cs fs)"
  by (simp add: owners_def)

text \<open>Changing one caller, with the slots of the others as they were.\<close>

lemma owners_update:
  assumes "i < length cs" "\<And>j. j < length cs \<Longrightarrow> j \<noteq> i \<Longrightarrow> owns fs' (cs ! j) = owns fs (cs ! j)"
  shows "owners (cs[i := x]) fs' = (if owns fs' x then insert i (owners cs fs) else owners cs fs - {i})"
  using assms by (auto simp: owners_def nth_list_update)

lemma distinct_waitsD:
  "\<lbrakk>distinct_waits cs; i < length cs; j < length cs; awaits (cs ! i) = Some w; awaits (cs ! j) = Some w\<rbrakk> \<Longrightarrow> i = j"
  unfolding distinct_waits_def by blast

lemma distinct_waits_update:
  assumes "distinct_waits cs" "i < length cs"
    "\<And>w j. \<lbrakk>awaits x = Some w; j < length cs; j \<noteq> i\<rbrakk> \<Longrightarrow> awaits (cs ! j) \<noteq> Some w"
  shows "distinct_waits (cs[i := x])"
  unfolding distinct_waits_def
proof (intro allI impI, elim conjE)
  fix a b w
  assume ab: "a < length (cs[i := x])" "b < length (cs[i := x])"
    "awaits (cs[i := x] ! a) = Some w" "awaits (cs[i := x] ! b) = Some w"
  show "a = b"
  proof (cases "a = i \<or> b = i")
    case True
    then show ?thesis using ab assms(2,3) by (metis length_list_update nth_list_update_eq nth_list_update_neq)
  next
    case False
    then show ?thesis using ab distinct_waitsD [OF assms(1), of a b w] by simp
  qed
qed

lemma caller_ok_awaits: "caller_ok p x \<Longrightarrow> awaits x = Some w \<Longrightarrow> w < length (po_futures p)"
  by (cases x) auto

text \<open>Once interrupted, served or admitted, a caller no longer waits for anything pending.\<close>

lemma slot_invI:
  assumes "slot_inv c (cs, p)" "i < length cs"
    and "pool_ok c p'" "po_running p' = card (owners (cs[i := x]) (po_futures p'))"
    and "\<And>w j. \<lbrakk>awaits x = Some w; j < length cs; j \<noteq> i\<rbrakk> \<Longrightarrow> awaits (cs ! j) \<noteq> Some w"
    and "caller_ok p' x" "\<And>j. \<lbrakk>j < length cs; j \<noteq> i; caller_ok p (cs ! j)\<rbrakk> \<Longrightarrow> caller_ok p' (cs ! j)"
    and "\<And>w. w \<in> set (pending p') \<Longrightarrow> x = Waiting w \<or> (\<exists>j < length cs. j \<noteq> i \<and> cs ! j = Waiting w)"
  shows "slot_inv c (cs[i := x], p')"
proof -
  have "distinct_waits (cs[i := x])"
    by (rule distinct_waits_update) (use assms in \<open>auto simp: slot_inv_def\<close>)
  moreover have "\<forall>j < length (cs[i := x]). caller_ok p' (cs[i := x] ! j)"
    using assms by (auto simp: slot_inv_def nth_list_update)
  moreover have "\<exists>j < length (cs[i := x]). cs[i := x] ! j = Waiting w" if "w \<in> set (pending p')" for w
    using assms(8) [OF that] assms(2) by (metis length_list_update nth_list_update_eq nth_list_update_neq)
  ultimately show ?thesis using assms(3,4) by (simp add: slot_inv_def)
qed

section \<open>The steps\<close>

lemma slot_invD:
  assumes "slot_inv c (cs, p)"
  shows "pool_ok c p" "po_running p = card (owners cs (po_futures p))" "distinct_waits cs"
    "i < length cs \<Longrightarrow> caller_ok p (cs ! i)"
    "w \<in> set (pending p) \<Longrightarrow> \<exists>i < length cs. cs ! i = Waiting w"
  using assms by (simp_all add: slot_inv_def)

text \<open>The futures of the other callers are not that of a caller that waits.\<close>

lemma other_awaits:
  "\<lbrakk>distinct_waits cs; i < length cs; j < length cs; j \<noteq> i; awaits (cs ! i) = Some w\<rbrakk> \<Longrightarrow> awaits (cs ! j) \<noteq> Some w"
  using distinct_waitsD [of cs i j w] by blast

lemma owns_other_future:
  "awaits x \<noteq> Some w \<Longrightarrow> owns (fs[w := f]) x = owns fs x"
  by (cases x) auto

lemma owns_new_future:
  "caller_ok p x \<Longrightarrow> owns (po_futures p @ [f]) x = owns (po_futures p) x"
  by (cases x) (auto simp: nth_append)

lemma in_owners: "i < length cs \<Longrightarrow> i \<in> owners cs fs \<longleftrightarrow> owns fs (cs ! i)"
  by (simp add: owners_def)

lemma arrive_inv:
  assumes "slot_inv c (cs, p)"
  shows "slot_inv c (cs @ [Outside], p)"
proof -
  note inv = slot_invD [OF assms]
  have "owners (cs @ [Outside]) (po_futures p) = owners cs (po_futures p)"
    by (auto simp: owners_def nth_append)
  moreover have "distinct_waits (cs @ [Outside])"
    using inv(3) unfolding distinct_waits_def by (simp add: nth_append less_Suc_eq)
  moreover have "\<forall>i < length (cs @ [Outside]). caller_ok p ((cs @ [Outside]) ! i)"
    using inv(4) by (simp add: nth_append)
  moreover have "\<exists>i < length (cs @ [Outside]). (cs @ [Outside]) ! i = Waiting w" if w: "w \<in> set (pending p)" for w
    using inv(5) [OF w] by (metis length_append less_Suc_eq list.size(3,4) nth_append add.commute add_Suc_right plus_nat.add_0)
  ultimately show ?thesis using inv(1,2) by (simp add: slot_inv_def)
qed

lemma acquire_inv:
  assumes "slot_inv c (cs, p)" "i < length cs" "cs ! i = Outside" "po_running p < rc_max_running c"
  shows "slot_inv c (cs[i := Inside], p\<lparr>po_running := po_running p + 1\<rparr>)"
proof (rule slot_invI [OF assms(1,2)])
  note inv = slot_invD [OF assms(1)]
  let ?p = "p\<lparr>po_running := po_running p + 1\<rparr>"
  have same: "pending ?p = pending p" by (simp add: pending_def)
  show "pool_ok c ?p" using inv(1) assms(4) by (auto simp: pool_ok_def same)
  have "owners (cs[i := Inside]) (po_futures p) = insert i (owners cs (po_futures p))"
    using owners_update [OF assms(2), of "po_futures p" "po_futures p" Inside] by simp
  then show "po_running ?p = card (owners (cs[i := Inside]) (po_futures ?p))"
    using inv(2) assms(2,3) by (simp add: card_insert_disjoint in_owners)
  show "caller_ok ?p (cs ! j)" if "caller_ok p (cs ! j)" for j using that by (cases "cs ! j") auto
  show "Inside = Waiting w \<or> (\<exists>j < length cs. j \<noteq> i \<and> cs ! j = Waiting w)" if "w \<in> set (pending ?p)" for w
    using inv(5) [of w] that assms(3) same by fastforce
qed simp_all

lemma enqueue_inv:
  assumes "slot_inv c (cs, p)" "i < length cs" "cs ! i = Outside" "rc_max_running c \<le> po_running p"
    "length (pending p) < rc_max_queued c"
  defines "w \<equiv> length (po_futures p)"
  shows "slot_inv c (cs[i := Waiting w], p\<lparr>po_waiters := po_waiters p @ [w], po_futures := po_futures p @ [Pending]\<rparr>)"
proof (rule slot_invI [OF assms(1,2)])
  note inv = slot_invD [OF assms(1)]
  let ?p = "p\<lparr>po_waiters := po_waiters p @ [w], po_futures := po_futures p @ [Pending]\<rparr>"
  have old: "x < w \<and> (po_futures p @ [Pending]) ! x = po_futures p ! x" if "x \<in> set (po_waiters p)" for x
    using inv(1) that by (simp add: pool_ok_def nth_append w_def)
  then have "filter (\<lambda>x. (po_futures p @ [Pending]) ! x = Pending) (po_waiters p) = pending p"
    by (auto simp: pending_def intro!: filter_cong)
  then have pend: "pending ?p = pending p @ [w]" by (simp add: pending_def w_def)
  show "pool_ok c ?p"
    using inv(1) assms(4,5) old unfolding pool_ok_def pend
    by (auto simp: sorted_wrt_append) (auto simp: nth_append w_def)
  have "owners (cs[i := Waiting w]) (po_futures p @ [Pending]) = owners cs (po_futures p) - {i}"
    using owners_update [OF assms(2), of "po_futures p @ [Pending]" "po_futures p" "Waiting w"] inv(4)
    by (simp add: owns_new_future w_def)
  moreover have "i \<notin> owners cs (po_futures p)" using assms(2,3) by (simp add: in_owners)
  ultimately show "po_running ?p = card (owners (cs[i := Waiting w]) (po_futures ?p))" using inv(2) by simp
  show "awaits (cs ! j) \<noteq> Some v" if "awaits (Waiting w) = Some v" "j < length cs" for v j
    using caller_ok_awaits [OF inv(4) [OF that(2)]] that(1) by (auto simp: w_def)
  show "caller_ok ?p (Waiting w)" by (simp add: w_def)
  show "caller_ok ?p (cs ! j)" if "caller_ok p (cs ! j)" for j using that by (cases "cs ! j") (auto simp: nth_append)
  show "Waiting w = Waiting v \<or> (\<exists>j < length cs. j \<noteq> i \<and> cs ! j = Waiting v)" if "v \<in> set (pending ?p)" for v
    using inv(5) [of v] that assms(3) pend by fastforce
qed

lemma wake_inv:
  assumes "slot_inv c (cs, p)" "i < length cs" "cs ! i = Waiting w" "po_futures p ! w = Granted"
  shows "slot_inv c (cs[i := Inside], p)"
proof (rule slot_invI [OF assms(1,2)])
  note inv = slot_invD [OF assms(1)]
  show "pool_ok c p" by (rule inv(1))
  have "owners (cs[i := Inside]) (po_futures p) = insert i (owners cs (po_futures p))"
    using owners_update [OF assms(2), of "po_futures p" "po_futures p" Inside] by simp
  moreover have "i \<in> owners cs (po_futures p)" using assms by (simp add: in_owners)
  ultimately show "po_running p = card (owners (cs[i := Inside]) (po_futures p))" using inv(2) by (simp add: insert_absorb)
  show "Inside = Waiting v \<or> (\<exists>j < length cs. j \<noteq> i \<and> cs ! j = Waiting v)" if "v \<in> set (pending p)" for v
  proof -
    have "po_futures p ! v = Pending" using that by (simp add: pending_def)
    then have "v \<noteq> w" using assms(4) by auto
    then show ?thesis using inv(5) [OF that] assms(3) by fastforce
  qed
qed simp_all

lemma leave_inv:
  assumes "slot_inv c (cs, p)" "i < length cs" "cs ! i = Inside"
  shows "slot_inv c (cs[i := Releasing], p)"
proof (rule slot_invI [OF assms(1,2)])
  note inv = slot_invD [OF assms(1)]
  show "pool_ok c p" by (rule inv(1))
  have "owners (cs[i := Releasing]) (po_futures p) = insert i (owners cs (po_futures p))"
    using owners_update [OF assms(2), of "po_futures p" "po_futures p" Releasing] by simp
  moreover have "i \<in> owners cs (po_futures p)" using assms by (simp add: in_owners)
  ultimately show "po_running p = card (owners (cs[i := Releasing]) (po_futures p))" using inv(2) by (simp add: insert_absorb)
  show "Releasing = Waiting v \<or> (\<exists>j < length cs. j \<noteq> i \<and> cs ! j = Waiting v)" if "v \<in> set (pending p)" for v
    using inv(5) [OF that] assms(3) by fastforce
qed simp_all

lemma pending_cancel: "pending (cancel_future w p) = filter (\<lambda>v. v \<noteq> w) (pending p)"
  if "\<forall>v \<in> set (po_waiters p). v < length (po_futures p)" for p
proof (cases "po_futures p ! w = Pending")
  case True
  have "(po_futures p)[w := Cancelled] ! v = Pending \<longleftrightarrow> po_futures p ! v = Pending \<and> v \<noteq> w"
    if "v \<in> set (po_waiters p)" for v
    using that \<open>\<forall>v \<in> set (po_waiters p). v < length (po_futures p)\<close> by (cases "v = w") auto
  then show ?thesis
    using True by (auto simp: cancel_future_def pending_def intro!: filter_cong)
next
  case False
  then have "\<forall>v \<in> set (pending p). v \<noteq> w" by (auto simp: pending_def)
  then show ?thesis using False by (simp add: cancel_future_def filter_id_conv)
qed

lemma interrupt_inv:
  assumes "slot_inv c (cs, p)" "i < length cs" "cs ! i = Waiting w"
  shows "slot_inv c (cs[i := Interrupted w], cancel_future w p)"
proof (rule slot_invI [OF assms(1,2)])
  note inv = slot_invD [OF assms(1)]
  let ?p = "cancel_future w p"
  have w: "w < length (po_futures p)" "po_futures p ! w \<noteq> Cancelled" using inv(4) [OF assms(2)] assms(3) by simp_all
  have parts: "po_running ?p = po_running p" "po_waiters ?p = po_waiters p" "length (po_futures ?p) = length (po_futures p)"
    by (simp_all add: cancel_future_def)
  have fut: "po_futures ?p ! v = (if v = w \<and> po_futures p ! w = Pending then Cancelled else po_futures p ! v)" for v
    using w by (auto simp: cancel_future_def nth_list_update)
  have lengths: "\<forall>v \<in> set (po_waiters p). v < length (po_futures p)" using inv(1) by (simp add: pool_ok_def)
  note pend = pending_cancel [OF lengths, of w]
  have ne: "pending ?p \<noteq> [] \<Longrightarrow> pending p \<noteq> []" by (auto simp: pend filter_empty_conv)
  show "pool_ok c ?p"
    using inv(1) ne le_trans [OF length_filter_le, of "pending p" "rc_max_queued c" "\<lambda>v. v \<noteq> w"]
    unfolding pool_ok_def parts pend fut by auto
  have others: "owns (po_futures ?p) (cs ! j) = owns (po_futures p) (cs ! j)" if "j < length cs" "j \<noteq> i" for j
  proof -
    have "awaits (cs ! j) \<noteq> Some w" by (rule other_awaits [OF inv(3) assms(2) that]) (simp add: assms(3))
    then show ?thesis by (cases "cs ! j") (auto simp: fut)
  qed
  have "owns (po_futures ?p) (Interrupted w) = owns (po_futures p) (cs ! i)"
    using assms(3) by (simp add: fut)
  then have "owners (cs[i := Interrupted w]) (po_futures ?p) = owners cs (po_futures p)"
    using owners_update [OF assms(2) others, where x = "Interrupted w"] in_owners [OF assms(2)]
    by (auto simp: insert_absorb split: if_splits)
  then show "po_running ?p = card (owners (cs[i := Interrupted w]) (po_futures ?p))" using inv(2) parts by simp
  show "awaits (cs ! j) \<noteq> Some v" if "awaits (Interrupted w) = Some v" "j < length cs" "j \<noteq> i" for v j
    using other_awaits [OF inv(3) assms(2) that(2,3), of w] that(1) assms(3) by simp
  show "caller_ok ?p (Interrupted w)" using w parts by (simp add: fut)
  show "caller_ok ?p (cs ! j)" if "j < length cs" "j \<noteq> i" "caller_ok p (cs ! j)" for j
  proof -
    have "awaits (cs ! j) \<noteq> Some w" by (rule other_awaits [OF inv(3) assms(2) that(1,2)]) (simp add: assms(3))
    then show ?thesis using that(3) by (cases "cs ! j") (auto simp: fut parts)
  qed
  show "Interrupted w = Waiting v \<or> (\<exists>j < length cs. j \<noteq> i \<and> cs ! j = Waiting v)" if v: "v \<in> set (pending ?p)" for v
  proof -
    have "v \<in> set (pending p)" "v \<noteq> w" using v by (simp_all add: pend)
    then show ?thesis using inv(5) [of v] assms(3) by fastforce
  qed
qed

text \<open>Releasing a slot hands it to the first pending waiter, or counts one less.\<close>

lemma release_inv:
  assumes "slot_inv c (cs, p)" "i < length cs" "owns (po_futures p) (cs ! i)" "\<forall>w. cs ! i \<noteq> Waiting w"
  shows "slot_inv c (after_release i cs (release_locked p))"
proof -
  note inv = slot_invD [OF assms(1)]
  have lengths: "\<forall>v \<in> set (po_waiters p). v < length (po_futures p)" using inv(1) by (simp add: pool_ok_def)
  have mine: "i \<in> owners cs (po_futures p)" using assms(2,3) by (simp add: in_owners)
  then have some: "0 < po_running p" using inv(2) by (simp add: card_gt_0_iff) blast
  obtain n rest where n: "next_waiter (po_futures p) (po_waiters p) = (n, rest)" by fastforce
  show ?thesis
  proof (cases n)
    case None
    let ?p = "p\<lparr>po_waiters := rest, po_running := po_running p - 1\<rparr>"
    have empty: "rest = []" "pending p = []" using next_waiter_None [of "po_futures p" "po_waiters p" rest] n None
      by (auto simp: pending_def filter_empty_conv)
    have "slot_inv c (cs[i := Outside], ?p)"
    proof (rule slot_invI [OF assms(1,2)])
      have none: "pending ?p = []" using empty by (simp add: pending_def)
      show "pool_ok c ?p" using inv(1) unfolding pool_ok_def none by (auto simp: empty)
      have "owners (cs[i := Outside]) (po_futures p) = owners cs (po_futures p) - {i}"
        using owners_update [OF assms(2), of "po_futures p" "po_futures p" Outside] by simp
      then show "po_running ?p = card (owners (cs[i := Outside]) (po_futures ?p))" using inv(2) mine by simp
      show "caller_ok ?p (cs ! j)" if "caller_ok p (cs ! j)" for j
        using that empty(2) by (cases "cs ! j") (auto simp: pending_def filter_empty_conv)
      show "Outside = Waiting v \<or> (\<exists>j < length cs. j \<noteq> i \<and> cs ! j = Waiting v)" if "v \<in> set (pending ?p)" for v
        using that none by simp
    qed simp_all
    then show ?thesis using n None some by (simp add: release_locked_def after_release_def)
  next
    case (Some w)
    let ?p = "p\<lparr>po_waiters := rest, po_futures := (po_futures p)[w := Granted]\<rparr>"
    obtain pre where pre: "po_waiters p = pre @ w # rest" "po_futures p ! w = Pending" "\<forall>x \<in> set pre. po_futures p ! x \<noteq> Pending"
      using next_waiter_Some n Some by blast
    have w: "w \<notin> set rest" "w < length (po_futures p)"
      using inv(1) lengths by (auto simp: pool_ok_def pre(1) sorted_wrt_append)
    have pend: "pending p = w # pending ?p"
      using pre(2,3) w by (auto simp: pending_def pre(1) filter_empty_conv nth_list_update intro!: filter_cong)
    obtain k where k: "k < length cs" "cs ! k = Waiting w" using inv(5) [of w] pend by auto
    have ki: "k \<noteq> i" using k assms(4) by auto
    have others: "owns (po_futures ?p) (cs ! j) = owns (po_futures p) (cs ! j)" if "j < length cs" "j \<noteq> k" for j
      using owns_other_future [OF other_awaits [OF inv(3) k(1) that], of w] k(2) by simp
    have own: "owners (cs[i := Outside]) (po_futures ?p) = insert k (owners cs (po_futures p) - {i})"
    proof -
      have "owners cs (po_futures ?p) = insert k (owners cs (po_futures p))"
      proof (rule set_eqI)
        fix x
        show "x \<in> owners cs (po_futures ?p) \<longleftrightarrow> x \<in> insert k (owners cs (po_futures p))"
          using others [of x] k w by (cases "x = k") (auto simp: owners_def)
      qed
      moreover have "owners (cs[i := Outside]) (po_futures ?p) = owners cs (po_futures ?p) - {i}"
        using owners_update [OF assms(2), of "po_futures ?p" "po_futures ?p" Outside] by simp
      ultimately show ?thesis using ki by auto
    qed
    have "slot_inv c (cs[i := Outside], ?p)"
    proof (rule slot_invI [OF assms(1,2)])
      have "sorted_wrt (<) rest" "length (pending ?p) \<le> rc_max_queued c" "po_running p = rc_max_running c"
        using inv(1) by (auto simp: pool_ok_def pre(1) sorted_wrt_append pend)
      then show "pool_ok c ?p"
        using inv(1) w by (auto simp: pool_ok_def pre(1) nth_list_update)
      have "k \<notin> owners cs (po_futures p)" using k pre(2) by (simp add: in_owners)
      then have "card (insert k (owners cs (po_futures p) - {i})) = card (owners cs (po_futures p))"
        using mine some inv(2) by (simp add: card_insert_disjoint)
      then show "po_running ?p = card (owners (cs[i := Outside]) (po_futures ?p))" using inv(2) own by simp
      show "caller_ok ?p (cs ! j)" if j: "j < length cs" "caller_ok p (cs ! j)" for j
      proof (cases "cs ! j")
        case (Waiting v)
        have "v \<in> set (po_waiters p) \<and> po_futures p ! v = Pending \<and> v \<noteq> w \<Longrightarrow> v \<in> set rest"
          using pre(3) by (auto simp: pre(1))
        then show ?thesis using j(2) Waiting w by (auto simp: nth_list_update)
      qed (use j(2) w in \<open>auto simp: nth_list_update\<close>)
      show "Outside = Waiting v \<or> (\<exists>j < length cs. j \<noteq> i \<and> cs ! j = Waiting v)" if "v \<in> set (pending ?p)" for v
        using inv(5) [of v] that pend assms(4) by fastforce
    qed simp_all
    then show ?thesis using n Some by (simp add: release_locked_def after_release_def)
  qed
qed

lemma sorted_wrt_remove1: "sorted_wrt P xs \<Longrightarrow> sorted_wrt P (remove1 x xs)"
  by (induction xs) (auto dest: notin_set_remove1 [THEN contrapos_nn] set_remove1_subset [THEN subsetD])

lemma recover_inv:
  assumes "slot_inv c (cs, p)" "i < length cs" "cs ! i = Interrupted w"
  shows "slot_inv c (after_release i cs (abandon w p))"
proof -
  note inv = slot_invD [OF assms(1)]
  have w: "po_futures p ! w \<noteq> Pending" using inv(4) [OF assms(2)] assms(3) by simp
  have fin: "slot_inv c (cs[i := Outside], p\<lparr>po_waiters := ws\<rparr>)"
    if g: "po_futures p ! w \<noteq> Granted" and ws: "ws = remove1 w (po_waiters p)" for ws
  proof (rule slot_invI [OF assms(1,2)])
    let ?p = "p\<lparr>po_waiters := ws\<rparr>"
    have pend: "pending ?p = pending p"
      using w by (simp add: pending_def ws filter_remove1 remove1_idem)
    have "set ws \<subseteq> set (po_waiters p)" "sorted_wrt (<) ws"
      using inv(1) set_remove1_subset [of w "po_waiters p"] by (simp_all add: ws pool_ok_def sorted_wrt_remove1)
    then show "pool_ok c ?p" using inv(1) unfolding pool_ok_def pend by auto
    have "owners (cs[i := Outside]) (po_futures p) = owners cs (po_futures p) - {i}"
      using owners_update [OF assms(2), of "po_futures p" "po_futures p" Outside] by simp
    moreover have "i \<notin> owners cs (po_futures p)" using assms(2,3) g by (simp add: in_owners)
    ultimately show "po_running ?p = card (owners (cs[i := Outside]) (po_futures ?p))" using inv(2) by simp
    show "caller_ok ?p (cs ! j)" if "caller_ok p (cs ! j)" for j
    proof (cases "cs ! j")
      case (Waiting v)
      have "v \<noteq> w \<Longrightarrow> v \<in> set ws \<longleftrightarrow> v \<in> set (po_waiters p)" by (simp add: ws in_set_remove1)
      then show ?thesis using that w Waiting by auto
    qed (use that in auto)
    show "Outside = Waiting v \<or> (\<exists>j < length cs. j \<noteq> i \<and> cs ! j = Waiting v)" if "v \<in> set (pending ?p)" for v
      using inv(5) [of v] that pend assms(3) by fastforce
  qed simp_all
  consider "w \<in> set (po_waiters p)" | "w \<notin> set (po_waiters p)" "po_futures p ! w = Granted"
    | "w \<notin> set (po_waiters p)" "po_futures p ! w \<noteq> Granted" by blast
  then show ?thesis
  proof cases
    case 1
    then have "po_futures p ! w \<noteq> Granted" using inv(1) by (auto simp: pool_ok_def)
    then show ?thesis using fin [OF _ refl] 1 by (simp add: abandon_def after_release_def)
  next
    case 2
    then have "slot_inv c (after_release i cs (release_locked p))"
      by (intro release_inv [OF assms(1,2)]) (simp_all add: assms(3))
    then show ?thesis using 2 by (simp add: abandon_def)
  next
    case 3
    then show ?thesis using fin [of "po_waiters p"] by (simp add: abandon_def after_release_def remove1_idem)
  qed
qed

lemma slot_step_inv:
  assumes "slot_inv c (cs, p)" "slot_step c e (cs, p) = Some (cs', p')"
  shows "slot_inv c (cs', p')"
proof (cases e)
  case (Enter i wait)
  then have i: "i < length cs" "cs ! i = Outside" using assms(2) by (simp_all split: if_splits)
  show ?thesis
  proof (cases "po_running p < rc_max_running c")
    case True
    then show ?thesis using acquire_inv [OF assms(1) i] assms(2) Enter i by (simp add: admit_def)
  next
    case False
    then show ?thesis
      using enqueue_inv [OF assms(1) i] assms Enter i by (auto simp: admit_def split: if_splits)
  qed
next
  case (Wake i)
  then show ?thesis using wake_inv [OF assms(1), of i] assms(2) by (auto split: if_splits caller.splits)
next
  case (Interrupt i)
  then show ?thesis using interrupt_inv [OF assms(1), of i] assms(2) by (auto split: if_splits caller.splits)
next
  case (Recover i)
  then show ?thesis using recover_inv [OF assms(1), of i] assms(2) by (auto split: if_splits caller.splits)
next
  case (Leave i)
  then show ?thesis using leave_inv [OF assms(1), of i] assms(2) by (auto split: if_splits)
next
  case (Release i)
  then show ?thesis using release_inv [OF assms(1), of i] assms(2) by (auto split: if_splits)
next
  case Arrive
  then show ?thesis using arrive_inv [OF assms(1)] assms(2) by simp
qed

lemma slot_run_inv:
  "\<lbrakk>slot_inv c s; slot_run c es s = Some s'\<rbrakk> \<Longrightarrow> slot_inv c s'"
proof (induction es arbitrary: s)
  case (Cons e es)
  obtain s1 where s1: "slot_step c e s = Some s1" "slot_run c es s1 = Some s'"
    using Cons.prems(2) by (auto split: option.splits)
  have "slot_inv c s1" using slot_step_inv [of c "fst s" "snd s" e "fst s1" "snd s1"] Cons.prems(1) s1(1) by simp
  then show ?case using Cons.IH s1(2) by blast
qed simp

lemma new_pool_inv: "slot_inv c ([], new_pool)"
  by (simp add: slot_inv_def new_pool_def pool_ok_def pending_def owners_def distinct_waits_def)

section \<open>No slot is lost\<close>

text \<open>
  C21. Whatever callers enter, time out, are cancelled and leave, in any order: at most \<open>max_running\<close> are
  inside, releasing never fails, every counted slot belongs to exactly one caller, the queue is
  bounded, no slot is idle while a caller waits, and when all callers are gone the pool is empty
  again. While anybody is inside, the process-wide pool is neither reconfigured nor moved to
  another loop.
\<close>

theorem no_slot_is_lost:
  assumes "slot_run c es ([], new_pool) = Some (cs, p)"
  shows "card {i. i < length cs \<and> cs ! i \<in> {Inside, Releasing}} \<le> rc_max_running c
    \<and> Crashed \<notin> set cs
    \<and> po_running p = card (owners cs (po_futures p))
    \<and> length (pending p) \<le> rc_max_queued c
    \<and> (pending p = [] \<or> po_running p = rc_max_running c)
    \<and> (set cs \<subseteq> {Outside} \<longrightarrow> po_running p = 0 \<and> pending p = [])
    \<and> (Inside \<in> set cs \<longrightarrow>
         configure candidate (c, Some (c, p, l)) \<in> {None, Some (c, Some (c, p, l))}
       \<and> get_capacity l' (c, Some (c, p, l)) \<in> {None, Some (c, Some (c, p, l))})"
proof -
  note inv = slot_invD [OF slot_run_inv [OF new_pool_inv assms]]
  have "{i. i < length cs \<and> cs ! i \<in> {Inside, Releasing}} \<subseteq> owners cs (po_futures p)"
    by (auto simp: owners_def)
  then have inside: "card {i. i < length cs \<and> cs ! i \<in> {Inside, Releasing}} \<le> po_running p"
    unfolding inv(2) by (rule card_mono [OF finite_owners])
  have crash: "Crashed \<notin> set cs" using inv(4) by (fastforce simp: in_set_conv_nth)
  have idle: "po_running p = 0 \<and> pending p = []" if "set cs \<subseteq> {Outside}"
  proof -
    have out: "cs ! i = Outside" if "i < length cs" for i using that \<open>set cs \<subseteq> {Outside}\<close> by (auto dest!: nth_mem)
    then have "owners cs (po_futures p) = {}" by (auto simp: owners_def)
    moreover have "pending p = []"
    proof (rule ccontr)
      assume "pending p \<noteq> []"
      then obtain w where "w \<in> set (pending p)" by fastforce
      then obtain i where "i < length cs" "cs ! i = Waiting w" using inv(5) by blast
      then show False using out [of i] by simp
    qed
    ultimately show ?thesis using inv(2) by simp
  qed
  have busy: "busy c p" if someone: "Inside \<in> set cs"
  proof -
    obtain i where "i < length cs" "cs ! i = Inside" using someone by (auto simp: in_set_conv_nth)
    then have "i \<in> owners cs (po_futures p)" by (simp add: in_owners)
    then have "po_running p \<noteq> 0" using inv(2) by auto
    then show ?thesis by (simp add: busy_def snapshot_def)
  qed
  then show ?thesis
    using inside crash idle inv(1,2) by (auto simp: pool_ok_def configure_def get_capacity_def)
qed

text \<open>One slot: a second caller waits, is cancelled just after it was granted the slot, and passes it on.\<close>

definition demo_config :: runtime_config where
  "demo_config = \<lparr>rc_max_running = 1, rc_max_queued = 2, rc_admission_policy = ''queue'', rc_queue_timeout_seconds = 300\<rparr>"

definition demo_start :: "slot_event list" where
  "demo_start = [Arrive, Arrive, Arrive, Enter 0 True, Enter 1 True, Enter 2 True]"

lemmas slot_eval = demo_config_def demo_start_def new_pool_def admit_def pending_def after_release_def release_locked_def
  abandon_def cancel_future_def

lemma demo_queue:
  "slot_run demo_config demo_start ([], new_pool)
     = Some ([Inside, Waiting 0, Waiting 1], \<lparr>po_running = 1, po_waiters = [0, 1], po_futures = [Pending, Pending]\<rparr>)"
  by (simp add: slot_eval)

lemma slot_run_append:
  "slot_run c (es @ fs) s = (case slot_run c es s of None \<Rightarrow> None | Some s' \<Rightarrow> slot_run c fs s')"
  by (induction es arbitrary: s) (auto split: option.split)

lemma demo_steps:
  "slot_step demo_config (Leave 0) ([Inside, Waiting 0, Waiting 1], \<lparr>po_running = 1, po_waiters = [0, 1], po_futures = [Pending, Pending]\<rparr>)
     = Some ([Releasing, Waiting 0, Waiting 1], \<lparr>po_running = 1, po_waiters = [0, 1], po_futures = [Pending, Pending]\<rparr>)"
  "slot_step demo_config (Release 0) ([Releasing, Waiting 0, Waiting 1], \<lparr>po_running = 1, po_waiters = [0, 1], po_futures = [Pending, Pending]\<rparr>)
     = Some ([Outside, Waiting 0, Waiting 1], \<lparr>po_running = 1, po_waiters = [1], po_futures = [Granted, Pending]\<rparr>)"
  "slot_step demo_config (Interrupt 1) ([Outside, Waiting 0, Waiting 1], \<lparr>po_running = 1, po_waiters = [1], po_futures = [Granted, Pending]\<rparr>)
     = Some ([Outside, Interrupted 0, Waiting 1], \<lparr>po_running = 1, po_waiters = [1], po_futures = [Granted, Pending]\<rparr>)"
  "slot_step demo_config (Recover 1) ([Outside, Interrupted 0, Waiting 1], \<lparr>po_running = 1, po_waiters = [1], po_futures = [Granted, Pending]\<rparr>)
     = Some ([Outside, Outside, Waiting 1], \<lparr>po_running = 1, po_waiters = [], po_futures = [Granted, Granted]\<rparr>)"
  "slot_step demo_config (Wake 2) ([Outside, Outside, Waiting 1], \<lparr>po_running = 1, po_waiters = [], po_futures = [Granted, Granted]\<rparr>)
     = Some ([Outside, Outside, Inside], \<lparr>po_running = 1, po_waiters = [], po_futures = [Granted, Granted]\<rparr>)"
  by (simp_all add: slot_eval)

lemma no_slot_is_lost_witness:
  "\<exists>cs p. slot_run demo_config (demo_start @ [Leave 0, Release 0, Interrupt 1, Recover 1, Wake 2]) ([], new_pool) = Some (cs, p)
     \<and> cs = [Outside, Outside, Inside] \<and> po_running p = card (owners cs (po_futures p))"
proof -
  let ?p = "\<lparr>po_running = 1, po_waiters = [], po_futures = [Granted, Granted]\<rparr>"
  have run: "slot_run demo_config (demo_start @ [Leave 0, Release 0, Interrupt 1, Recover 1, Wake 2]) ([], new_pool)
      = Some ([Outside, Outside, Inside], ?p)"
    by (simp only: slot_run_append demo_queue option.case slot_run.simps demo_steps)
  have "po_running ?p = card (owners [Outside, Outside, Inside] (po_futures ?p))"
    by (rule no_slot_is_lost [OF run, THEN conjunct2, THEN conjunct2, THEN conjunct1])
  then show ?thesis using run by (intro exI conjI) (assumption, rule refl, assumption)
qed

section \<open>First come, first served\<close>

lemma release_pending:
  assumes "pool_ok c p"
  shows "pending (snd (release_locked p)) = tl (pending p)
    \<and> po_futures (snd (release_locked p)) = (case pending p of [] \<Rightarrow> po_futures p | w # _ \<Rightarrow> (po_futures p)[w := Granted])"
proof -
  obtain n rest where n: "next_waiter (po_futures p) (po_waiters p) = (n, rest)" by fastforce
  show ?thesis
  proof (cases n)
    case None
    then have "rest = []" "pending p = []" using next_waiter_None [of "po_futures p" "po_waiters p" rest] n
      by (auto simp: pending_def filter_empty_conv)
    then show ?thesis using n None by (auto simp: release_locked_def pending_def)
  next
    case (Some w)
    obtain pre where pre: "po_waiters p = pre @ w # rest" "po_futures p ! w = Pending" "\<forall>x \<in> set pre. po_futures p ! x \<noteq> Pending"
      using next_waiter_Some n Some by blast
    have w: "w \<notin> set rest" using assms by (auto simp: pool_ok_def pre(1) sorted_wrt_append)
    have "pending p = w # filter (\<lambda>v. po_futures p ! v = Pending) rest"
      using pre(2,3) by (simp add: pending_def pre(1) filter_empty_conv)
    moreover have "filter (\<lambda>v. (po_futures p)[w := Granted] ! v = Pending) rest = filter (\<lambda>v. po_futures p ! v = Pending) rest"
      using w by (intro filter_cong refl) (metis nth_list_update_neq)
    ultimately show ?thesis using n Some by (simp add: release_locked_def pending_def)
  qed
qed

text \<open>What a step does to the pending waiters and to the futures.\<close>

datatype effect = Same | Joined | Quit nat | Served

fun effect_on :: "effect \<Rightarrow> pool \<Rightarrow> nat list \<times> future list \<Rightarrow> bool" where
  "effect_on Same p r = (r = (pending p, po_futures p))"
| "effect_on Joined p r = (r = (pending p @ [length (po_futures p)], po_futures p @ [Pending]))"
| "effect_on (Quit w) p r = (r = (filter (\<lambda>v. v \<noteq> w) (pending p),
     if po_futures p ! w = Pending then (po_futures p)[w := Cancelled] else po_futures p))"
| "effect_on Served p r = (r = (tl (pending p),
     case pending p of [] \<Rightarrow> po_futures p | w # _ \<Rightarrow> (po_futures p)[w := Granted]))"

lemma slot_step_effect:
  assumes "slot_inv c (cs, p)" "slot_step c e (cs, p) = Some (cs', p')"
  obtains f where "effect_on f p (pending p', po_futures p')"
    "f = Served \<or> (\<forall>i. e \<noteq> Release i)"
    "\<forall>w. f = Quit w \<longrightarrow> (\<exists>i. e = Interrupt i \<and> i < length cs \<and> cs ! i = Waiting w)"
proof -
  note inv = slot_invD [OF assms(1)]
  have lengths: "\<forall>v \<in> set (po_waiters p). v < length (po_futures p)" using inv(1) by (simp add: pool_ok_def)
  have release: "effect_on Served p (pending (snd (release_locked p)), po_futures (snd (release_locked p)))"
    using release_pending [OF inv(1)] by simp
  show ?thesis
  proof (cases e)
    case (Enter i wait)
    then have p': "p' = snd (admit c wait p)"
      using assms(2) by (auto split: if_splits prod.splits admission.splits)
    have "filter (\<lambda>v. (po_futures p @ [Pending]) ! v = Pending) (po_waiters p) = pending p"
      using lengths by (auto simp: pending_def nth_append intro!: filter_cong)
    then have "effect_on Same p (pending p', po_futures p') \<or> effect_on Joined p (pending p', po_futures p')"
      unfolding p' by (auto simp: admit_def pending_def)
    then show ?thesis using that [of Same] that [of Joined] Enter by auto
  next
    case (Interrupt i)
    then obtain w where w: "i < length cs" "cs ! i = Waiting w" "p' = cancel_future w p"
      using assms(2) by (auto split: if_splits caller.splits)
    have "effect_on (Quit w) p (pending p', po_futures p')"
      unfolding w(3) effect_on.simps pending_cancel [OF lengths] by (simp add: cancel_future_def)
    then show ?thesis using that [of "Quit w"] w Interrupt by auto
  next
    case (Recover i)
    then obtain w where w: "i < length cs" "cs ! i = Interrupted w" "p' = snd (abandon w p)"
      using assms(2) by (auto simp: after_release_def split: if_splits caller.splits)
    have ne: "po_futures p ! w \<noteq> Pending" using inv(4) [OF w(1)] w(2) by simp
    then have "pending (p\<lparr>po_waiters := remove1 w (po_waiters p)\<rparr>) = pending p"
      by (simp add: pending_def filter_remove1 remove1_idem)
    then have "effect_on Same p (pending p', po_futures p') \<or> effect_on Served p (pending p', po_futures p')"
      using release unfolding w(3) abandon_def by simp
    then show ?thesis using that [of Same] that [of Served] Recover by auto
  next
    case (Release i)
    then have "p' = snd (release_locked p)" using assms(2) by (auto simp: after_release_def split: if_splits)
    then show ?thesis using that [of Served] release by simp
  qed (use assms(2) that [of Same] in \<open>auto split: if_splits caller.splits\<close>)
qed

text \<open>Pending waiters ahead of \<open>w\<close>.\<close>

definition ahead :: "nat \<Rightarrow> pool \<Rightarrow> nat" where
  "ahead w p = length (takeWhile (\<lambda>v. v \<noteq> w) (pending p))"

lemma takeWhile_filter_neq:
  "v \<noteq> w \<Longrightarrow> takeWhile (\<lambda>x. x \<noteq> w) (filter (\<lambda>x. x \<noteq> v) xs) = filter (\<lambda>x. x \<noteq> v) (takeWhile (\<lambda>x. x \<noteq> w) xs)"
  by (induction xs) auto

fun is_release :: "slot_event \<Rightarrow> bool" where
  "is_release (Release _) = True"
| "is_release _ = False"

lemma slot_step_ahead:
  assumes inv: "slot_inv c (cs, p)" "slot_step c e (cs, p) = Some (cs', p')"
    and w: "w \<in> set (pending p)" "\<forall>i. e = Interrupt i \<longrightarrow> i < length cs \<longrightarrow> cs ! i \<noteq> Waiting w"
  shows "w \<in> set (pending p') \<and> ahead w p' + of_bool (is_release e) \<le> ahead w p \<or> po_futures p' ! w = Granted"
proof -
  obtain f where f: "effect_on f p (pending p', po_futures p')" "f = Served \<or> (\<forall>i. e \<noteq> Release i)"
    "\<forall>v. f = Quit v \<longrightarrow> (\<exists>i. e = Interrupt i \<and> i < length cs \<and> cs ! i = Waiting v)"
    by (rule slot_step_effect [OF inv])
  have len: "w < length (po_futures p)"
    using slot_invD(1) [OF inv(1)] w(1) by (simp add: pool_ok_def pending_def)
  show ?thesis
  proof (cases f)
    case Same
    then have "\<not> is_release e" using f(2) by (cases e) auto
    then show ?thesis using f(1) w(1) Same by (simp add: ahead_def)
  next
    case Joined
    then have "\<not> is_release e" using f(2) by (cases e) auto
    then show ?thesis using f(1) w(1) Joined by (simp add: ahead_def takeWhile_append1 [OF w(1)])
  next
    case (Quit v)
    then have "\<not> is_release e" "v \<noteq> w" using f(2,3) w(2) by (cases e; auto)+
    then show ?thesis using f(1) w(1) Quit by (simp add: ahead_def takeWhile_filter_neq)
  next
    case Served
    then show ?thesis using f(1) w(1) len by (cases "pending p") (auto simp: ahead_def)
  qed
qed

lemma slot_step_granted:
  assumes "slot_inv c (cs, p)" "slot_step c e (cs, p) = Some (cs', p')" "w < length (po_futures p)" "po_futures p ! w = Granted"
  shows "w < length (po_futures p') \<and> po_futures p' ! w = Granted"
proof -
  obtain f where f: "effect_on f p (pending p', po_futures p')" by (rule slot_step_effect [OF assms(1,2)])
  show ?thesis
  proof (cases f)
    case (Quit v)
    then show ?thesis using f assms(3,4) by (cases "v = w") auto
  next
    case Served
    then show ?thesis using f assms(3,4) by (cases "pending p"; cases "hd (pending p) = w") auto
  qed (use f assms(3,4) in \<open>simp_all add: nth_append\<close>)
qed

lemma slot_run_granted:
  "\<lbrakk>slot_inv c (cs, p); slot_run c es (cs, p) = Some (cs', p'); w < length (po_futures p); po_futures p ! w = Granted\<rbrakk>
    \<Longrightarrow> po_futures p' ! w = Granted"
proof (induction es arbitrary: cs p)
  case (Cons e es)
  obtain cs1 p1 where s1: "slot_step c e (cs, p) = Some (cs1, p1)" "slot_run c es (cs1, p1) = Some (cs', p')"
    using Cons.prems(2) by (auto split: option.splits)
  show ?case
    using Cons.IH [OF slot_step_inv [OF Cons.prems(1) s1(1)] s1(2)] slot_step_granted [OF Cons.prems(1) s1(1) Cons.prems(3,4)]
    by blast
qed simp

lemma slot_step_keeps_waiting:
  assumes "slot_step c e (cs, p) = Some (cs', p')" "k < length cs" "cs ! k = Waiting w" "po_futures p ! w = Pending"
    "e \<noteq> Interrupt k"
  shows "k < length cs' \<and> cs' ! k = Waiting w"
  using assms
  by (cases e) (auto simp: nth_append nth_list_update after_release_def split: if_splits caller.splits prod.splits admission.splits)

lemma slot_step_length: "slot_step c e (cs, p) = Some (cs', p') \<Longrightarrow> length cs \<le> length cs'"
  by (cases e) (auto simp: after_release_def split: if_splits caller.splits prod.splits admission.splits)

lemma slot_run_length: "slot_run c es (cs, p) = Some (cs', p') \<Longrightarrow> length cs \<le> length cs'"
proof (induction es arbitrary: cs p)
  case (Cons e es)
  then show ?case using slot_step_length [of c e cs p] by (fastforce split: option.splits)
qed simp

lemma slot_run_ahead:
  "\<lbrakk>slot_inv c (cs, p); k < length cs; cs ! k = Waiting w; w \<in> set (pending p);
    slot_run c es (cs, p) = Some (cs', p'); Interrupt k \<notin> set es; ahead w p < length (filter is_release es)\<rbrakk>
    \<Longrightarrow> po_futures p' ! w = Granted"
proof (induction es arbitrary: cs p)
  case (Cons e es)
  obtain cs1 p1 where s1: "slot_step c e (cs, p) = Some (cs1, p1)" "slot_run c es (cs1, p1) = Some (cs', p')"
    using Cons.prems(5) by (auto split: option.splits)
  note inv1 = slot_step_inv [OF Cons.prems(1) s1(1)]
  have w: "po_futures p ! w = Pending" using Cons.prems(4) by (simp add: pending_def)
  have own: "i = k" if "i < length cs" "cs ! i = Waiting w" for i
    using distinct_waitsD [OF slot_invD(3) [OF Cons.prems(1)] that(1) Cons.prems(2), of w] that(2) Cons.prems(3) by simp
  then have "\<forall>i. e = Interrupt i \<longrightarrow> i < length cs \<longrightarrow> cs ! i \<noteq> Waiting w" using Cons.prems(6) by auto
  from slot_step_ahead [OF Cons.prems(1) s1(1) Cons.prems(4) this]
  consider "po_futures p1 ! w = Granted" | "w \<in> set (pending p1)" "ahead w p1 + of_bool (is_release e) \<le> ahead w p" by blast
  then show ?case
  proof cases
    case 1
    have k1: "k < length cs1" "cs1 ! k = Waiting w"
      using slot_step_keeps_waiting [OF s1(1) Cons.prems(2,3) w] Cons.prems(6) by auto
    then have "w < length (po_futures p1)" using slot_invD(4) [OF inv1 k1(1)] by simp
    then show ?thesis using slot_run_granted [OF inv1 s1(2) _ 1] by blast
  next
    case 2
    have "ahead w p1 < length (filter is_release es)" using 2(2) Cons.prems(7) by (cases "is_release e") auto
    moreover have "k < length cs1" "cs1 ! k = Waiting w"
      using slot_step_keeps_waiting [OF s1(1) Cons.prems(2,3) w] Cons.prems(6) by auto
    ultimately show ?thesis using Cons.IH [OF inv1 _ _ 2(1) s1(2)] Cons.prems(6) by simp
  qed
qed simp

text \<open>
  C22. A waiting caller is served in its turn: behind \<open>n\<close> pending waiters, fewer than \<open>max_queued\<close>, it has been
  granted a slot after \<open>n + 1\<close> releases, whatever else happens, unless it is itself interrupted; it then
  only has to wake up. While it waits all slots belong to callers that are yet to release them.
\<close>

theorem waiter_is_served_in_turn:
  assumes "slot_run c start ([], new_pool) = Some (cs, p)"
    and "k < length cs" "cs ! k = Waiting w" "po_futures p ! w = Pending"
    and "slot_run c es (cs, p) = Some (cs', p')" "Interrupt k \<notin> set es"
    and "ahead w p < length (filter is_release es)"
  shows "po_futures p' ! w = Granted
    \<and> (cs' ! k = Waiting w \<longrightarrow> slot_step c (Wake k) (cs', p') = Some (cs'[k := Inside], p'))
    \<and> ahead w p < rc_max_queued c
    \<and> card (owners cs (po_futures p)) = rc_max_running c"
proof -
  note inv = slot_run_inv [OF new_pool_inv assms(1)]
  have w: "w \<in> set (pending p)" using slot_invD(4) [OF inv assms(2)] assms(3,4) by (simp add: pending_def)
  have granted: "po_futures p' ! w = Granted" by (rule slot_run_ahead [OF inv assms(2,3) w assms(5-7)])
  have "length cs \<le> length cs'" by (rule slot_run_length [OF assms(5)])
  then have "cs' ! k = Waiting w \<longrightarrow> slot_step c (Wake k) (cs', p') = Some (cs'[k := Inside], p')"
    using granted assms(2) by simp
  moreover have "ahead w p < length (pending p)"
    using split_list_first [OF w] by (auto simp: ahead_def takeWhile_tail less_Suc_eq_le intro!: trans_le_add1 length_takeWhile_le)
  then have "ahead w p < rc_max_queued c" using slot_invD(1) [OF inv] by (simp add: pool_ok_def)
  moreover have "card (owners cs (po_futures p)) = rc_max_running c"
    using slot_invD(1,2) [OF inv] w by (auto simp: pool_ok_def)
  ultimately show ?thesis using granted by blast
qed

lemma demo_turn:
  "slot_run demo_config [Leave 0, Release 0, Wake 1, Leave 1, Release 1]
     ([Inside, Waiting 0, Waiting 1], \<lparr>po_running = 1, po_waiters = [0, 1], po_futures = [Pending, Pending]\<rparr>)
   = Some ([Outside, Outside, Waiting 1], \<lparr>po_running = 1, po_waiters = [], po_futures = [Granted, Granted]\<rparr>)"
  by (simp add: slot_eval)

lemma waiter_is_served_in_turn_witness:
  "slot_step demo_config (Wake 2) ([Outside, Outside, Waiting 1], \<lparr>po_running = 1, po_waiters = [], po_futures = [Granted, Granted]\<rparr>)
     = Some ([Outside, Outside, Inside], \<lparr>po_running = 1, po_waiters = [], po_futures = [Granted, Granted]\<rparr>)"
  using waiter_is_served_in_turn [OF demo_queue _ _ _ demo_turn, of 2 1] by (simp add: ahead_def pending_def)

end
