(* ===== verification/Receipts.thy ===== *)
theory Receipts
  imports Prelude
begin

text \<open>
  Tool receipts and the citations of reports
  (\<^verbatim>\<open>backend/packages/harness/deerflow/agents/middlewares/tool_receipt.py\<close> and
  \<^verbatim>\<open>receipt_verification.py\<close>): receipts stamped on tool messages get positional ids, a bounded ledger of
  them is shown to the model, and the citations of its report are checked against them.

  Strings hold the characters below 256, on which the character classes of the regular expressions are
  written out; the patterns that recognise claims of action, and the header of the ledger, which have
  characters beyond, are arguments.
\<close>

type_synonym dict = "(string, pyval) odict"

section \<open>Receipts\<close>

record tool_receipt =
  re_id :: string
  re_tool_call_id :: string
  re_tool_name :: string
  re_status :: string
  re_args_sha256 :: string
  re_output_sha256 :: string
  re_output_bytes :: int
  re_created_at :: string

definition RECEIPT_ID_PREFIX :: string where "RECEIPT_ID_PREFIX = ''r''"

definition MAX_RECEIPT_ID_DIGITS :: nat where "MAX_RECEIPT_ID_DIGITS = 10"

definition receipt_id :: "nat \<Rightarrow> string" where
  "receipt_id position = RECEIPT_ID_PREFIX @ show_nat position"

definition RECEIPT_STR_FIELDS :: "string list" where
  "RECEIPT_STR_FIELDS = [''tool_call_id'', ''tool_name'', ''status'', ''args_sha256'', ''output_sha256'', ''created_at'']"

fun text_value :: "pyval option \<Rightarrow> string option" where
  "text_value (Some (VStr s)) = Some s"
| "text_value _ = None"

fun int_value :: "pyval option \<Rightarrow> int option" where
  "int_value (Some (VInt i)) = Some i"
| "int_value _ = None"

definition is_valid_receipt :: "pyval \<Rightarrow> bool" where
  "is_valid_receipt receipt =
     (case receipt of
        VDict d \<Rightarrow> list_all (\<lambda>f. text_value (od_get d f) \<noteq> None) RECEIPT_STR_FIELDS
                    \<and> int_value (od_get d ''output_bytes'') \<noteq> None
      | _ \<Rightarrow> False)"

definition field_text :: "dict \<Rightarrow> string \<Rightarrow> string" where
  "field_text d f = (case text_value (od_get d f) of Some s \<Rightarrow> s | None \<Rightarrow> [])"

text \<open>The \<^verbatim>\<open>ToolReceipt\<close> built from a valid dictionary.\<close>

definition receipt_of :: "string \<Rightarrow> dict \<Rightarrow> tool_receipt" where
  "receipt_of rid d = \<lparr>re_id = rid, re_tool_call_id = field_text d ''tool_call_id'', re_tool_name = field_text d ''tool_name'',
     re_status = field_text d ''status'', re_args_sha256 = field_text d ''args_sha256'',
     re_output_sha256 = field_text d ''output_sha256'',
     re_output_bytes = (case int_value (od_get d ''output_bytes'') of Some i \<Rightarrow> i | None \<Rightarrow> 0),
     re_created_at = field_text d ''created_at''\<rparr>"

text \<open>
  \<^verbatim>\<open>make_tool_receipt\<close>: \<open>dumps\<close> is \<^verbatim>\<open>json.dumps\<close> with sorted keys, encoded, \<open>encode\<close> the UTF-8 encoding of a
  string, \<open>sha\<close> the digest in hexadecimal, \<open>str\<close> the text of an object and \<open>now\<close> the current time.
\<close>

record receipt_ops =
  ro_dumps :: "pyval \<Rightarrow> string"
  ro_encode :: "string \<Rightarrow> string"
  ro_sha :: "string \<Rightarrow> string"
  ro_str :: "pyval \<Rightarrow> string"
  ro_now :: string

definition HASH_LEN :: nat where "HASH_LEN = 16"

definition short_hash :: "receipt_ops \<Rightarrow> string \<Rightarrow> string" where
  "short_hash ops s = take HASH_LEN (ro_sha ops s)"

text \<open>\<^verbatim>\<open>str(v or d)\<close>.\<close>

definition text_or :: "receipt_ops \<Rightarrow> pyval option \<Rightarrow> string \<Rightarrow> string" where
  "text_or ops v d = (case v of Some (VStr s) \<Rightarrow> if s = [] then d else s
                      | Some x \<Rightarrow> if truthy x then ro_str ops x else d | None \<Rightarrow> d)"

text \<open>
  The arguments are the call, the message's content, status and the metadata under \<^verbatim>\<open>TOOL_META_KEY\<close>,
  empty when absent.
\<close>

definition make_tool_receipt :: "receipt_ops \<Rightarrow> dict \<Rightarrow> pyval \<Rightarrow> pyval option \<Rightarrow> dict \<Rightarrow> dict" where
  "make_tool_receipt ops call content status meta =
     (let args = (case od_get call ''args'' of Some (VDict a) \<Rightarrow> VDict a | _ \<Rightarrow> VDict []);
          text = (case content of VStr s \<Rightarrow> s | v \<Rightarrow> ro_dumps ops v);
          state = (case od_get meta ''status'' of
                     Some v \<Rightarrow> if truthy v then text_or ops (Some v) ''success'' else text_or ops status ''success''
                   | None \<Rightarrow> text_or ops status ''success'')
      in [(''tool_call_id'', VStr (text_or ops (od_get call ''id'') [])),
          (''tool_name'', VStr (text_or ops (od_get call ''name'') [])),
          (''status'', VStr state),
          (''args_sha256'', VStr (short_hash ops (ro_encode ops (ro_dumps ops args)))),
          (''output_sha256'', VStr (short_hash ops (ro_encode ops text))),
          (''output_bytes'', VInt (int (length (ro_encode ops text)))),
          (''created_at'', VStr (ro_now ops))])"

text \<open>What the code reads of a message: whether it is a tool or a model message, and its \<^verbatim>\<open>additional_kwargs\<close>.\<close>

datatype turn = ToolTurn dict | ModelTurn dict | OtherTurn

definition TOOL_RECEIPT_KEY :: string where "TOOL_RECEIPT_KEY = ''deerflow_tool_receipt''"

definition TOOL_RECEIPT_LEDGER_KEY :: string where "TOOL_RECEIPT_LEDGER_KEY = ''deerflow_tool_receipt_ledger''"

fun stamped :: "turn \<Rightarrow> dict option" where
  "stamped (ToolTurn kw) = (case od_get kw TOOL_RECEIPT_KEY of
     Some (VDict d) \<Rightarrow> if is_valid_receipt (VDict d) then Some d else None | _ \<Rightarrow> None)"
| "stamped _ = None"

fun extract_from :: "nat \<Rightarrow> turn list \<Rightarrow> tool_receipt list" where
  "extract_from n [] = []"
| "extract_from n (t # ts) =
     (case stamped t of
        None \<Rightarrow> extract_from n ts
      | Some d \<Rightarrow> receipt_of (receipt_id (Suc n)) d # extract_from (Suc n) ts)"

definition extract_tool_receipts :: "turn list \<Rightarrow> tool_receipt list" where
  "extract_tool_receipts messages = extract_from 0 messages"

text \<open>
  The ids of a stored ledger: \<open>r\<close> and a decimal without leading zero. \<^verbatim>\<open>int\<close> raises for more than 4300
  digits, and so does the conversion back; only the first id is converted.
\<close>

definition ledger_digits :: "string \<Rightarrow> string option" where
  "ledger_digits rid =
     (case rid of
        p # d # ds \<Rightarrow> if [p] = RECEIPT_ID_PREFIX \<and> is_digit d \<and> d \<noteq> CHR ''0'' \<and> list_all is_digit ds then Some (d # ds) else None
      | _ \<Rightarrow> None)"

datatype ledger_error = ValueError

definition INT_MAX_STR_DIGITS :: nat where "INT_MAX_STR_DIGITS = 4300"

fun read_ledger :: "nat option \<Rightarrow> nat \<Rightarrow> pyval list \<Rightarrow> ledger_error + tool_receipt list option" where
  "read_ledger first index [] = Inr (Some [])"
| "read_ledger first index (v # vs) =
     (case v of
        VDict d \<Rightarrow>
          if \<not> is_valid_receipt v then Inr None
          else (case text_value (od_get d ''id'') of
                  None \<Rightarrow> Inr None
                | Some rid \<Rightarrow>
                    (case ledger_digits rid of
                       None \<Rightarrow> Inr None
                     | Some ds \<Rightarrow>
                         if first = None \<and> INT_MAX_STR_DIGITS < length ds then Inl ValueError
                         else let start = (case first of None \<Rightarrow> read_nat ds | Some n \<Rightarrow> n)
                              in if 10 ^ INT_MAX_STR_DIGITS \<le> start + index then Inl ValueError
                                 else if rid \<noteq> receipt_id (start + index) then Inr None
                                 else (case read_ledger (Some start) (Suc index) vs of
                                         Inl e \<Rightarrow> Inl e
                                       | Inr None \<Rightarrow> Inr None
                                       | Inr (Some rs) \<Rightarrow> Inr (Some (receipt_of rid d # rs)))))
      | _ \<Rightarrow> Inr None)"

fun citing_turn :: "turn list \<Rightarrow> ledger_error + tool_receipt list option" where
  "citing_turn [] = Inr None"
| "citing_turn (ModelTurn kw # ts) =
     (case od_get kw TOOL_RECEIPT_LEDGER_KEY of
        None \<Rightarrow> citing_turn ts
      | Some VNone \<Rightarrow> citing_turn ts
      | Some (VList vs) \<Rightarrow> read_ledger None 0 vs
      | Some _ \<Rightarrow> Inr None)"
| "citing_turn (_ # ts) = citing_turn ts"

definition extract_citing_turn_receipts :: "turn list \<Rightarrow> ledger_error + tool_receipt list option" where
  "extract_citing_turn_receipts messages = citing_turn (rev messages)"

section \<open>The ledger shown to the model\<close>

definition nl :: string where "nl = [char_of (10::nat)]"

definition show_int :: "int \<Rightarrow> string" where
  "show_int i = (if i < 0 then ''-'' @ show_nat (nat (- i)) else show_nat (nat i))"

definition receipt_line :: "tool_receipt \<Rightarrow> string" where
  "receipt_line r = ''- ['' @ re_id r @ ''] '' @ re_tool_name r @ '' status='' @ re_status r @ '' args_sha256=''
     @ re_args_sha256 r @ '' output_sha256='' @ re_output_sha256 r @ '' bytes='' @ show_int (re_output_bytes r)"

definition OMISSION :: string where "OMISSION = ''- ... older receipts omitted (context budget)''"

text \<open>The loop over the lines, newest first: those that fit, and how many.\<close>

fun retain :: "nat \<Rightarrow> string list \<Rightarrow> string list \<Rightarrow> string list \<Rightarrow> string list" where
  "retain max_chars lines retained [] = retained"
| "retain max_chars lines retained (l # ls) =
     (if max_chars < length (py_join nl (lines @ OMISSION # l # retained)) then retained
      else retain max_chars lines (l # retained) ls)"

definition render_tool_receipts_with_snapshot ::
  "string list \<Rightarrow> nat \<Rightarrow> tool_receipt list \<Rightarrow> string \<times> tool_receipt list" where
  "render_tool_receipts_with_snapshot header max_chars receipts =
     (if receipts = [] then ([], [])
      else let receipt_lines = map receipt_line receipts;
               (lines, kept) =
                 (if length (py_join nl (header @ receipt_lines)) \<le> max_chars then (header @ receipt_lines, receipts)
                  else let retained = retain max_chars header [] (rev receipt_lines)
                       in (header @ OMISSION # retained, last_n (length retained) receipts));
               rendered = py_join nl lines
           in if max_chars < length rendered then (take (max_chars - 4) rendered @ nl @ ''...'', [])
              else (rendered, kept))"

definition render_tool_receipts :: "string list \<Rightarrow> nat \<Rightarrow> tool_receipt list \<Rightarrow> string" where
  "render_tool_receipts header max_chars receipts = fst (render_tool_receipts_with_snapshot header max_chars receipts)"

end
