(* ===== verification/Citations.thy ===== *)
theory Citations
  imports Receipts
begin

text \<open>
  Citations of receipts in reports, and the verdict on them: the scanner for the pattern
  \<^verbatim>\<open>\[r(\d+)(?:\s+([A-Za-z_][\w.-]*))?\]\<close>, the check against the ledger, and the validation of a stored
  verdict.
\<close>

section \<open>The scanner\<close>

definition is_letter :: "char \<Rightarrow> bool" where
  "is_letter c \<longleftrightarrow> (CHR ''a'' \<le> c \<and> c \<le> CHR ''z'') \<or> (CHR ''A'' \<le> c \<and> c \<le> CHR ''Z'') \<or> c = CHR ''_''"

text \<open>\<^verbatim>\<open>\w\<close>: the alphanumeric characters below 256 and the underscore.\<close>

definition is_word :: "char \<Rightarrow> bool" where
  "is_word c \<longleftrightarrow> is_letter c \<or> is_digit c
     \<or> (let n = (of_char c :: nat) in n \<in> {170, 178, 179, 181, 185, 186, 188, 189, 190}
          \<or> (192 \<le> n \<and> n \<le> 214) \<or> (216 \<le> n \<and> n \<le> 246) \<or> (248 \<le> n \<and> n \<le> 255))"

definition name_char :: "char \<Rightarrow> bool" where
  "name_char c \<longleftrightarrow> is_word c \<or> c = CHR ''.'' \<or> c = CHR ''-''"

text \<open>A match behind \<^verbatim>\<open>[r\<close>: the digits, the label and what follows; no shorter repetition could match.\<close>

definition match_name :: "string \<Rightarrow> (string option \<times> string) option" where
  "match_name s =
     (case s of
        [] \<Rightarrow> None
      | l # ls \<Rightarrow>
          if \<not> is_letter l then None
          else (case dropWhile name_char ls of
                  [] \<Rightarrow> None
                | e # rest \<Rightarrow> if e = CHR '']'' then Some (Some (l # takeWhile name_char ls), rest) else None))"

definition match_label :: "string \<Rightarrow> (string option \<times> string) option" where
  "match_label s =
     (case s of
        [] \<Rightarrow> None
      | c # cs \<Rightarrow>
          if c = CHR '']'' then Some (None, cs)
          else if \<not> is_space c then None
          else match_name (dropWhile is_space cs))"

definition match_citation :: "string \<Rightarrow> (string \<times> string option \<times> string) option" where
  "match_citation s =
     (case s of
        b # p # cs \<Rightarrow>
          if b = CHR ''['' \<and> [p] = RECEIPT_ID_PREFIX \<and> takeWhile is_digit cs \<noteq> []
          then (case match_label (dropWhile is_digit cs) of
                  None \<Rightarrow> None
                | Some (label, rest) \<Rightarrow> Some (takeWhile is_digit cs, label, rest))
          else None
      | _ \<Rightarrow> None)"

lemma match_name_shorter: "match_name s = Some (label, rest) \<Longrightarrow> length rest < length s"
proof -
  assume m: "match_name s = Some (label, rest)"
  then obtain l ls where s: "s = l # ls" by (cases s) (simp_all add: match_name_def)
  then obtain e where e: "dropWhile name_char ls = e # rest"
    using m by (auto simp: match_name_def split: if_splits list.splits)
  have "length (e # rest) \<le> length ls" unfolding e [symmetric] by (rule length_dropWhile_le)
  then show ?thesis using s by simp
qed

lemma match_label_shorter: "match_label s = Some (label, rest) \<Longrightarrow> length rest < length s"
proof -
  assume m: "match_label s = Some (label, rest)"
  then obtain c cs where s: "s = c # cs" by (cases s) (simp_all add: match_label_def)
  show ?thesis
  proof (cases "c = CHR '']''")
    case True
    then show ?thesis using m s by (simp add: match_label_def)
  next
    case False
    then have "match_name (dropWhile is_space cs) = Some (label, rest)"
      using m s by (auto simp: match_label_def split: if_splits)
    then have "length rest < length (dropWhile is_space cs)" by (rule match_name_shorter)
    also have "\<dots> \<le> length cs" by (rule length_dropWhile_le)
    finally show ?thesis using s by simp
  qed
qed

lemma match_citation_shorter: "match_citation s = Some (ds, label, rest) \<Longrightarrow> length rest < length s"
proof -
  assume m: "match_citation s = Some (ds, label, rest)"
  then obtain b p cs where s: "s = b # p # cs"
    by (cases s; cases "tl s") (simp_all add: match_citation_def)
  have "match_label (dropWhile is_digit cs) = Some (label, rest)"
    using m s by (auto simp: match_citation_def split: if_splits option.splits)
  then have "length rest < length (dropWhile is_digit cs)" by (rule match_label_shorter)
  also have "\<dots> \<le> length cs" by (rule length_dropWhile_le)
  finally show ?thesis using s by simp
qed

text \<open>\<^verbatim>\<open>CITATION_RE.finditer\<close>.\<close>

function find_citations :: "string \<Rightarrow> (string \<times> string option) list" where
  "find_citations [] = []"
| "find_citations (c # cs) =
     (case match_citation (c # cs) of
        None \<Rightarrow> find_citations cs
      | Some (ds, label, rest) \<Rightarrow> (ds, label) # find_citations rest)"
  by pat_completeness auto

termination
  by (relation "measure length") (auto dest: match_citation_shorter)

definition parse_citations :: "string \<Rightarrow> (string \<times> string option) list" where
  "parse_citations text =
     fromkeys (map (\<lambda>(ds, label). (receipt_id (read_nat ds), label))
       (filter (\<lambda>(ds, label). length ds \<le> MAX_RECEIPT_ID_DIGITS) (find_citations text)))"

definition format_citation :: "string \<Rightarrow> string option \<Rightarrow> string" where
  "format_citation rid tool =
     (case non_empty tool of Some t \<Rightarrow> ''['' @ rid @ '' '' @ t @ '']'' | None \<Rightarrow> ''['' @ rid @ '']'')"

section \<open>The verdict\<close>

record verdict =
  vd_source :: string
  vd_requirement :: string
  vd_resolved_all :: bool
  vd_cited :: "string list"
  vd_resolved :: "string list"
  vd_failed :: "(string \<times> string) list"
  vd_unknown :: "string list"
  vd_no_claims :: bool

definition NONTRIVIAL_REPORT_MIN_CHARS :: nat where "NONTRIVIAL_REPORT_MIN_CHARS = 240"

type_synonym findings = "string list \<times> (string \<times> string) list \<times> string list"

text \<open>One citation: resolved, failed with a reason, or unknown.\<close>

definition check_citation :: "(string, tool_receipt) odict \<Rightarrow> findings \<Rightarrow> string \<times> string option \<Rightarrow> findings" where
  "check_citation by_id r citation =
     (let (resolved, failed, unknown) = r; (rid, anchor) = citation
      in case od_get by_id rid of
           None \<Rightarrow> (resolved, failed, unknown @ [rid])
         | Some receipt \<Rightarrow>
             if re_status receipt \<noteq> ''success''
             then (resolved, failed @ [(rid, ''receipt status='' @ re_status receipt)], unknown)
             else (case anchor of
                     Some a \<Rightarrow>
                       if a \<noteq> re_tool_name receipt
                       then (resolved, failed @ [(rid, ''anchor mismatch: cited as '' @ a @ '', receipt '' @ rid @ '' is ''
                              @ re_tool_name receipt)], unknown)
                       else (resolved @ [rid], failed, unknown)
                   | None \<Rightarrow> (resolved @ [rid], failed, unknown)))"

definition verify_receipt_citations :: "(string \<Rightarrow> bool) \<Rightarrow> string \<Rightarrow> tool_receipt list \<Rightarrow> verdict" where
  "verify_receipt_citations has_action_claims text receipts =
     (let by_id = foldl (\<lambda>d r. od_set (re_id r) r d) [] receipts;
          citations = parse_citations text;
          cited = map fst citations;
          (resolved, failed, unknown) = foldl (check_citation by_id) ([], [], []) citations;
          no_claims = (cited = [] \<and> (has_action_claims text
             \<or> (receipts \<noteq> [] \<and> NONTRIVIAL_REPORT_MIN_CHARS \<le> length (py_strip text))))
      in \<lparr>vd_source = ''receipt_citations'', vd_requirement = ''cited_ids_in_execution_record'',
          vd_resolved_all = (if cited \<noteq> [] then failed = [] \<and> unknown = [] else \<not> no_claims),
          vd_cited = cited, vd_resolved = resolved, vd_failed = failed, vd_unknown = unknown, vd_no_claims = no_claims\<rparr>)"

text \<open>The dictionary of a verdict, and the check of a stored one.\<close>

definition verdict_value :: "verdict \<Rightarrow> pyval" where
  "verdict_value v = VDict
     [(''source'', VStr (vd_source v)), (''requirement'', VStr (vd_requirement v)),
      (''citation_resolved'', VBool (vd_resolved_all v)), (''cited'', VList (map VStr (vd_cited v))),
      (''resolved'', VList (map VStr (vd_resolved v))),
      (''failed'', VList (map (\<lambda>(i, r). VDict [(''id'', VStr i), (''reason'', VStr r)]) (vd_failed v))),
      (''unknown'', VList (map VStr (vd_unknown v))), (''no_citation_claims'', VBool (vd_no_claims v))]"

fun bool_value :: "pyval option \<Rightarrow> bool option" where
  "bool_value (Some (VBool b)) = Some b"
| "bool_value _ = None"

fun all_some :: "'a option list \<Rightarrow> 'a list option" where
  "all_some [] = Some []"
| "all_some (x # xs) = (case x of None \<Rightarrow> None | Some y \<Rightarrow> map_option ((#) y) (all_some xs))"

definition str_list :: "pyval option \<Rightarrow> string list option" where
  "str_list v = (case v of Some (VList vs) \<Rightarrow> all_some (map (\<lambda>x. text_value (Some x)) vs) | _ \<Rightarrow> None)"

definition failure_of :: "pyval \<Rightarrow> (string \<times> string) option" where
  "failure_of e = (case e of
     VDict d \<Rightarrow> (case (text_value (od_get d ''id''), text_value (od_get d ''reason'')) of
                  (Some i, Some r) \<Rightarrow> Some (i, r) | _ \<Rightarrow> None)
   | _ \<Rightarrow> None)"

definition failures :: "pyval option \<Rightarrow> (string \<times> string) list option" where
  "failures v = (case v of Some (VList vs) \<Rightarrow> all_some (map failure_of vs) | _ \<Rightarrow> None)"

definition validate_receipt_verdict :: "pyval \<Rightarrow> verdict option" where
  "validate_receipt_verdict value =
     (case value of
        VDict d \<Rightarrow>
          (case (text_value (od_get d ''source''), text_value (od_get d ''requirement'')) of
             (Some source, Some requirement) \<Rightarrow>
               (case (bool_value (od_get d ''citation_resolved''), bool_value (od_get d ''no_citation_claims'')) of
                  (Some citation_resolved, Some no_claims) \<Rightarrow>
                    (case (str_list (od_get d ''cited''), str_list (od_get d ''resolved''), str_list (od_get d ''unknown'')) of
                       (Some cited, Some resolved, Some unknown) \<Rightarrow>
                         map_option (\<lambda>failed. \<lparr>vd_source = source, vd_requirement = requirement,
                             vd_resolved_all = citation_resolved, vd_cited = cited, vd_resolved = resolved,
                             vd_failed = failed, vd_unknown = unknown, vd_no_claims = no_claims\<rparr>)
                           (failures (od_get d ''failed''))
                     | _ \<Rightarrow> None)
                | _ \<Rightarrow> None)
           | _ \<Rightarrow> None)
      | _ \<Rightarrow> None)"

text \<open>The segment of the delegation ledger; \<open>claims_note\<close> and \<open>limitation\<close> are its fixed phrases.\<close>

definition render_citation_verdict :: "string \<Rightarrow> string \<Rightarrow> verdict \<Rightarrow> string" where
  "render_citation_verdict claims_note limitation v =
     (if vd_no_claims v then claims_note
      else if vd_cited v = [] then []
      else ''citations: '' @ py_join '', ''
             ((show_nat (length (vd_resolved v)) @ '' resolved'')
              # (if vd_failed v \<noteq> [] then [show_nat (length (vd_failed v)) @ '' failed''] else [])
              @ (if vd_unknown v \<noteq> [] then [show_nat (length (vd_unknown v)) @ '' unknown''] else []))
           @ limitation)"

end
