(* ===== verification/StatusContract.thy ===== *)
theory StatusContract
  imports ThreadState Citations
begin

text \<open>
  The outcome of a delegation as metadata
  (\<^verbatim>\<open>backend/packages/harness/deerflow/subagents/status_contract.py\<close>, with the structural check of an
  acceptance verdict from \<^verbatim>\<open>acceptance_checks.py\<close>): what the task tool writes into the
  \<^verbatim>\<open>additional_kwargs\<close> of its result, and how the delegation ledger reads it back.
\<close>

section \<open>Acceptance verdicts\<close>

record acceptance_leaf =
  al_criterion :: string
  al_family :: string
  al_checked :: bool
  al_holds :: bool
  al_detail :: string

record acceptance_verdict =
  av_source :: string
  av_requirement :: string
  av_leaves :: "acceptance_leaf list"
  av_unchecked :: "string list"
  av_all_hold :: bool

definition MAX_ACCEPTANCE_CRITERIA :: nat where "MAX_ACCEPTANCE_CRITERIA = 20"

definition leaf_of :: "pyval \<Rightarrow> acceptance_leaf option" where
  "leaf_of v =
     (case v of
        VDict d \<Rightarrow>
          (case (text_value (od_get d ''criterion''), text_value (od_get d ''family''), text_value (od_get d ''detail'')) of
             (Some criterion, Some family, Some detail) \<Rightarrow>
               (case (bool_value (od_get d ''checked''), bool_value (od_get d ''holds'')) of
                  (Some checked, Some holds) \<Rightarrow>
                    Some \<lparr>al_criterion = criterion, al_family = family, al_checked = checked, al_holds = holds, al_detail = detail\<rparr>
                | _ \<Rightarrow> None)
           | _ \<Rightarrow> None)
      | _ \<Rightarrow> None)"

definition leaves_of :: "pyval option \<Rightarrow> acceptance_leaf list option" where
  "leaves_of v =
     (case v of
        Some (VList vs) \<Rightarrow> if MAX_ACCEPTANCE_CRITERIA < length vs then None else all_some (map leaf_of vs)
      | _ \<Rightarrow> None)"

definition validate_acceptance_verdict :: "pyval \<Rightarrow> acceptance_verdict option" where
  "validate_acceptance_verdict value =
     (case value of
        VDict d \<Rightarrow>
          (case (text_value (od_get d ''source''), text_value (od_get d ''requirement''), bool_value (od_get d ''all_hold'')) of
             (Some source, Some requirement, Some all_hold) \<Rightarrow>
               (case (leaves_of (od_get d ''leaves''), str_list (od_get d ''unchecked'')) of
                  (Some leaves, Some unchecked) \<Rightarrow>
                    Some \<lparr>av_source = source, av_requirement = requirement, av_leaves = leaves,
                          av_unchecked = unchecked, av_all_hold = all_hold\<rparr>
                | _ \<Rightarrow> None)
           | _ \<Rightarrow> None)
      | _ \<Rightarrow> None)"

definition leaf_value :: "acceptance_leaf \<Rightarrow> pyval" where
  "leaf_value l = VDict [(''criterion'', VStr (al_criterion l)), (''family'', VStr (al_family l)),
     (''checked'', VBool (al_checked l)), (''holds'', VBool (al_holds l)), (''detail'', VStr (al_detail l))]"

definition acceptance_value :: "acceptance_verdict \<Rightarrow> pyval" where
  "acceptance_value a = VDict [(''source'', VStr (av_source a)), (''requirement'', VStr (av_requirement a)),
     (''leaves'', VList (map leaf_value (av_leaves a))), (''unchecked'', VList (map VStr (av_unchecked a))),
     (''all_hold'', VBool (av_all_hold a))]"

text \<open>The checklist and its summary for the ledger; \<open>header\<close>, \<open>dash\<close> and \<open>limitation\<close> are fixed phrases.\<close>

definition acceptance_line :: "string \<Rightarrow> acceptance_leaf \<Rightarrow> string" where
  "acceptance_line dash l =
     ''- ['' @ (if \<not> al_checked l then ''UNVERIFIED'' else if al_holds l then ''holds'' else ''does not hold'') @ ''] ''
       @ py_join '' '' (py_split (al_criterion l)) @ dash @ al_detail l"

definition render_acceptance_section :: "string \<Rightarrow> string \<Rightarrow> acceptance_verdict \<Rightarrow> string" where
  "render_acceptance_section header dash a = py_join nl (header # map (acceptance_line dash) (av_leaves a))"

definition render_acceptance_segment :: "string \<Rightarrow> acceptance_verdict \<Rightarrow> string" where
  "render_acceptance_segment limitation a =
     (let holds = length (filter (\<lambda>l. al_checked l \<and> al_holds l) (av_leaves a));
          fails = length (filter (\<lambda>l. al_checked l \<and> \<not> al_holds l) (av_leaves a));
          open = length (filter (\<lambda>l. \<not> al_checked l) (av_leaves a));
          parts = (if holds \<noteq> 0 then [show_nat holds @ '' hold''] else [])
            @ (if fails \<noteq> 0 then [show_nat fails @ '' does not hold''] else [])
            @ (if open \<noteq> 0 then [show_nat open @ '' UNVERIFIED''] else [])
      in if parts = [] then [] else ''acceptance: '' @ py_join '', '' parts @ limitation)"

section \<open>Writing\<close>

definition METADATA_TEXT_MAX_CHARS :: nat where "METADATA_TEXT_MAX_CHARS = 2000"

definition STOP_REASON_LABELS :: "(string, string) odict" where
  "STOP_REASON_LABELS = [(''token_capped'', ''token budget''), (''turn_capped'', ''turn budget''),
     (''loop_capped'', ''repeated tool-call loop''), (''model_length_capped'', ''model output length limit'')]"

definition STOP_REASON_VALUES :: "string list" where
  "STOP_REASON_VALUES = [''token_capped'', ''turn_capped'', ''loop_capped'', ''model_length_capped'']"

definition LEGACY_STATUS_NORMALIZATION :: "(string, string) odict" where
  "LEGACY_STATUS_NORMALIZATION = [(''max_turns_reached'', ''turn_capped'')]"

definition RESULT_BEARING_STATUSES :: "string list" where "RESULT_BEARING_STATUSES = [''completed'']"

definition bound_metadata_text :: "nat \<Rightarrow> string \<Rightarrow> string" where
  "bound_metadata_text cap s =
     (let cleaned = py_strip s; marker = nl @ ''...'' @ nl
      in if length cleaned \<le> cap then cleaned
         else if cap \<le> length marker then take cap cleaned
         else let head = cap * 2 div 3; tail = int cap - int head - int (length marker)
              in if tail \<le> 0 then take cap cleaned
                 else take head cleaned @ marker @ last_n (nat tail) cleaned)"

definition bound_text :: "string \<Rightarrow> string" where
  "bound_text s = bound_metadata_text METADATA_TEXT_MAX_CHARS s"

definition blank :: "string \<Rightarrow> bool" where "blank s \<longleftrightarrow> py_strip s = []"

text \<open>\<^verbatim>\<open>bool\<close> is a subclass of \<^verbatim>\<open>int\<close> in Python, and is rejected.\<close>

definition usage_amount :: "dict \<Rightarrow> string \<Rightarrow> (string \<times> pyval) option" where
  "usage_amount d k = (case od_get d k of Some (VInt n) \<Rightarrow> if n < 0 then None else Some (k, VInt n) | _ \<Rightarrow> None)"

definition normalize_token_usage :: "pyval \<Rightarrow> dict option" where
  "normalize_token_usage value =
     (case value of
        VDict d \<Rightarrow> all_some (map (usage_amount d) [''input_tokens'', ''output_tokens'', ''total_tokens''])
      | _ \<Rightarrow> None)"

text \<open>The optional arguments of the producer; \<^verbatim>\<open>None\<close> is \<^const>\<open>VNone\<close> where any value may be passed.\<close>

record outcome =
  oc_result :: "string option"
  oc_error :: "string option"
  oc_stop_reason :: "string option"
  oc_model_name :: "string option"
  oc_token_usage :: pyval
  oc_tool_receipts :: pyval
  oc_receipt_verdict :: pyval
  oc_acceptance_verdict :: pyval

datatype contract_error = InvalidStatus string | InvalidStopReason string

definition entry_if :: "bool \<Rightarrow> string \<Rightarrow> pyval \<Rightarrow> dict" where
  "entry_if b k v = (if b then [(k, v)] else [])"

definition some_entry :: "string \<Rightarrow> pyval option \<Rightarrow> dict" where
  "some_entry k v = (case v of None \<Rightarrow> [] | Some x \<Rightarrow> [(k, x)])"

definition valid_receipts :: "pyval \<Rightarrow> pyval list" where
  "valid_receipts v = (case v of VList vs \<Rightarrow> filter is_valid_receipt vs | _ \<Rightarrow> [])"

definition text_given :: "string option \<Rightarrow> string option" where
  "text_given t = (case t of Some s \<Rightarrow> if blank s then None else Some s | None \<Rightarrow> None)"

text \<open>
  The payload, whose keys are all different; \<open>sha\<close> is the SHA-256 digest of the UTF-8 encoding in
  hexadecimal.
\<close>

definition payload :: "(string \<Rightarrow> string) \<Rightarrow> string \<Rightarrow> outcome \<Rightarrow> dict" where
  "payload sha status oc =
     [(''subagent_status'', VStr status)]
     @ (case text_given (oc_result oc) of
          Some s \<Rightarrow> if status \<in> set RESULT_BEARING_STATUSES
                    then [(''subagent_result_brief'', VStr (bound_text s)), (''subagent_result_sha256'', VStr (sha s))] else []
        | None \<Rightarrow> [])
     @ (case text_given (oc_error oc) of
          Some s \<Rightarrow> entry_if (status \<noteq> ''completed'') ''subagent_error'' (VStr (bound_text s))
        | None \<Rightarrow> [])
     @ some_entry ''subagent_stop_reason'' (map_option VStr (oc_stop_reason oc))
     @ some_entry ''subagent_model_name'' (map_option (\<lambda>s. VStr (py_strip s)) (text_given (oc_model_name oc)))
     @ some_entry ''subagent_token_usage'' (map_option VDict (normalize_token_usage (oc_token_usage oc)))
     @ entry_if (valid_receipts (oc_tool_receipts oc) \<noteq> []) ''subagent_tool_receipts''
         (VList (valid_receipts (oc_tool_receipts oc)))
     @ some_entry ''subagent_receipt_verdict'' (map_option verdict_value (validate_receipt_verdict (oc_receipt_verdict oc)))
     @ some_entry ''subagent_acceptance_verdict''
         (map_option acceptance_value (validate_acceptance_verdict (oc_acceptance_verdict oc)))"

definition make_subagent_additional_kwargs :: "(string \<Rightarrow> string) \<Rightarrow> string \<Rightarrow> outcome \<Rightarrow> contract_error + dict" where
  "make_subagent_additional_kwargs sha status oc =
     (if status \<notin> set SUBAGENT_STATUS_VALUES then Inl (InvalidStatus status)
      else case oc_stop_reason oc of
        Some r \<Rightarrow> if r \<in> set STOP_REASON_VALUES then Inr (payload sha status oc) else Inl (InvalidStopReason r)
      | None \<Rightarrow> Inr (payload sha status oc))"

section \<open>The text for the model\<close>

text \<open>\<open>detailed\<close> is a default message, or a lead with the error's text.\<close>

definition detailed :: "string \<Rightarrow> string \<Rightarrow> string \<Rightarrow> string \<times> string option" where
  "detailed default_text lead error_text =
     (let detail = (if error_text = [] then default_text else error_text)
      in (if detail = default_text then detail else lead @ '' Error: '' @ detail, Some detail))"

definition format_subagent_result_message ::
  "string \<Rightarrow> string option \<Rightarrow> string option \<Rightarrow> string option \<Rightarrow> string \<times> string option" where
  "format_subagent_result_message status result error stop_reason =
     (let result_text = (case result of None \<Rightarrow> [] | Some r \<Rightarrow> r);
          error_text = (case error of None \<Rightarrow> [] | Some e \<Rightarrow> py_strip e);
          capped = (case stop_reason of None \<Rightarrow> None | Some r \<Rightarrow> od_get STOP_REASON_LABELS r)
      in if status = ''completed'' then
           (case capped of
              Some c \<Rightarrow> (''Task Succeeded (capped: '' @ c @ ''). Result: '' @ result_text, None)
            | None \<Rightarrow> (''Task Succeeded. Result: '' @ result_text, None))
         else if status = ''cancelled'' then detailed ''Task cancelled by user.'' ''Task cancelled by user.'' error_text
         else if status = ''timed_out'' then detailed ''Task timed out.'' ''Task timed out.'' error_text
         else if status = ''polling_timed_out'' then
           (let detail = (if error_text = [] then ''Task polling timed out.'' else error_text) in (detail, Some detail))
         else (case capped of
                 Some c \<Rightarrow>
                   (let detail = (if error_text = [] then ''Task failed.'' else error_text)
                    in (if detail = ''Task failed.'' then ''Task failed (capped: '' @ c @ '').''
                        else ''Task failed (capped: '' @ c @ ''). Error: '' @ detail, Some detail))
               | None \<Rightarrow> detailed ''Task failed.'' ''Task failed.'' error_text))"

section \<open>Reading\<close>

record subagent_result =
  sr_status :: string
  sr_stop_reason :: "string option"
  sr_result_brief :: "string option"
  sr_result_sha256 :: "string option"
  sr_error :: "string option"
  sr_tool_receipts :: "pyval list"
  sr_receipt_verdict :: "verdict option"
  sr_acceptance_verdict :: "acceptance_verdict option"

text \<open>The pattern of a digest, \<^verbatim>\<open>[0-9a-f]{64}\<close>.\<close>

definition sha256_hex :: "string \<Rightarrow> bool" where
  "sha256_hex s \<longleftrightarrow> length s = 64 \<and> list_all (\<lambda>c. is_digit c \<or> (CHR ''a'' \<le> c \<and> c \<le> CHR ''f'')) s"

definition given_field :: "dict \<Rightarrow> string \<Rightarrow> string option" where
  "given_field kw k = text_given (text_value (od_get kw k))"

text \<open>The status, with the values of older checkpoints normalized, and the reason such a value implies.\<close>

definition read_status :: "dict \<Rightarrow> (string \<times> string option) option" where
  "read_status kw =
     (case text_value (od_get kw ''subagent_status'') of
        None \<Rightarrow> None
      | Some raw \<Rightarrow>
          (case od_get LEGACY_STATUS_NORMALIZATION raw of
             Some reason \<Rightarrow>
               Some (if given_field kw ''subagent_result_brief'' \<noteq> None then ''completed'' else ''failed'', Some reason)
           | None \<Rightarrow> if raw \<in> set SUBAGENT_STATUS_VALUES then Some (raw, None) else None))"

definition optional_value :: "dict \<Rightarrow> string \<Rightarrow> pyval" where
  "optional_value kw k = (case od_get kw k of Some v \<Rightarrow> v | None \<Rightarrow> VNone)"

definition read_subagent_result_metadata :: "dict option \<Rightarrow> subagent_result option" where
  "read_subagent_result_metadata additional_kwargs =
     (case additional_kwargs of
        None \<Rightarrow> None
      | Some kw \<Rightarrow>
          (case read_status kw of
             None \<Rightarrow> None
           | Some (status, legacy) \<Rightarrow>
               let brief = (if status \<in> set RESULT_BEARING_STATUSES then given_field kw ''subagent_result_brief'' else None)
               in Some \<lparr>sr_status = status,
                    sr_stop_reason = (case text_value (od_get kw ''subagent_stop_reason'') of
                        Some r \<Rightarrow> if r \<in> set STOP_REASON_VALUES then Some r else legacy
                      | None \<Rightarrow> legacy),
                    sr_result_brief = map_option bound_text brief,
                    sr_result_sha256 = (if brief = None then None else
                      case text_value (od_get kw ''subagent_result_sha256'') of
                        Some h \<Rightarrow> if sha256_hex h then Some h else None
                      | None \<Rightarrow> None),
                    sr_error = (if status = ''completed'' then None else map_option bound_text (given_field kw ''subagent_error'')),
                    sr_tool_receipts = valid_receipts (optional_value kw ''subagent_tool_receipts''),
                    sr_receipt_verdict = validate_receipt_verdict (optional_value kw ''subagent_receipt_verdict''),
                    sr_acceptance_verdict = validate_acceptance_verdict (optional_value kw ''subagent_acceptance_verdict'')\<rparr>))"

end
