(* ===== verification/CitationProofs.thy ===== *)
theory CitationProofs
  imports Citations
begin

text \<open>
  A citation in the prescribed form is read back wherever it stands in a report, a verdict without
  failures is backed by the ledger, stored verdicts are read back unchanged, and the ledger the model
  sees holds exactly the receipts of its snapshot.
\<close>

section \<open>Citations are read back\<close>

definition label_ok :: "string \<Rightarrow> bool" where
  "label_ok t \<longleftrightarrow> (case t of [] \<Rightarrow> False | c # cs \<Rightarrow> is_letter c \<and> list_all name_char cs)"

definition tool_ok :: "string option \<Rightarrow> bool" where
  "tool_ok tool \<longleftrightarrow> (case tool of None \<Rightarrow> True | Some t \<Rightarrow> label_ok t)"

lemma takeWhile_prefix: "list_all P xs \<Longrightarrow> \<not> P y \<Longrightarrow> takeWhile P (xs @ y # ys) = xs"
  by (induction xs) auto

lemma dropWhile_prefix: "list_all P xs \<Longrightarrow> \<not> P y \<Longrightarrow> dropWhile P (xs @ y # ys) = y # ys"
  by (induction xs) auto

lemma closing: "\<not> name_char (CHR '']'')" "\<not> is_space (CHR '']'')" "\<not> is_digit (CHR '']'')" "\<not> is_digit (CHR '' '')"
  "is_space (CHR '' '')"
  by (simp_all add: name_char_def is_word_def is_letter_def is_digit_def is_space_def less_eq_char_def Let_def)

lemma letter_not_space: "is_letter c \<Longrightarrow> \<not> is_space c"
  by (auto simp: is_letter_def is_space_def less_eq_char_def Let_def)

lemma match_format:
  assumes "tool_ok tool"
  shows "match_citation (format_citation (receipt_id n) tool @ rest) = Some (show_nat n, tool, rest)"
proof -
  note d = show_nat_digits [of n]
  show ?thesis
  proof (cases tool)
    case None
    then show ?thesis
      using d by (simp add: format_citation_def receipt_id_def RECEIPT_ID_PREFIX_def match_citation_def
          takeWhile_prefix dropWhile_prefix closing match_label_def)
  next
    case (Some t)
    then obtain c cs where t: "t = c # cs" "is_letter c" "list_all name_char cs"
      using assms by (auto simp: tool_ok_def label_ok_def split: list.splits)
    have "match_name (c # cs @ CHR '']'' # rest) = Some (Some t, rest)"
      using t by (simp add: match_name_def takeWhile_prefix dropWhile_prefix closing)
    then have "match_label (CHR '' '' # c # cs @ CHR '']'' # rest) = Some (Some t, rest)"
      using t(2) by (simp add: match_label_def closing letter_not_space)
    then show ?thesis
      using d Some t(1) by (simp add: format_citation_def receipt_id_def RECEIPT_ID_PREFIX_def match_citation_def
          takeWhile_prefix dropWhile_prefix closing)
  qed
qed

lemma find_skip: "CHR ''['' \<notin> set pre \<Longrightarrow> find_citations (pre @ s) = find_citations s"
proof (induction pre)
  case (Cons c pre)
  have "match_citation (c # pre @ s) = None"
    using Cons.prems by (cases "pre @ s") (auto simp: match_citation_def)
  then show ?case using Cons by simp
qed simp

lemma format_nonempty: "\<exists>c cs. format_citation rid tool = c # cs"
  by (simp add: format_citation_def split: option.split)

text \<open>A report: prose without brackets between citations of receipts by position and, perhaps, tool.\<close>

fun report :: "(string \<times> nat \<times> string option) list \<Rightarrow> string \<Rightarrow> string" where
  "report [] rest = rest"
| "report ((prose, n, tool) # cs) rest = prose @ format_citation (receipt_id n) tool @ report cs rest"

definition prose_ok :: "string \<Rightarrow> bool" where
  "prose_ok s \<longleftrightarrow> CHR ''['' \<notin> set s"

lemma find_report:
  assumes "list_all (\<lambda>(prose, n, tool). prose_ok prose \<and> tool_ok tool) cs" "prose_ok rest"
  shows "find_citations (report cs rest) = map (\<lambda>(prose, n, tool). (show_nat n, tool)) cs"
  using assms
proof (induction cs)
  case Nil
  then show ?case using find_skip [of rest "[]"] by (simp add: prose_ok_def)
next
  case (Cons c cs)
  obtain prose n tool where c: "c = (prose, n, tool)" by (cases c)
  obtain x xs where f: "format_citation (receipt_id n) tool = x # xs" using format_nonempty by blast
  have "tool_ok tool" "CHR ''['' \<notin> set prose" using Cons.prems(1) by (simp_all add: c prose_ok_def)
  then have "find_citations (report (c # cs) rest) = (show_nat n, tool) # find_citations (report cs rest)"
    using match_format [of tool n "report cs rest"] find_skip [of prose] by (simp add: c f)
  then show ?case using Cons by (simp add: c)
qed

lemma parse_report:
  assumes "list_all (\<lambda>(prose, n, tool). prose_ok prose \<and> tool_ok tool \<and> n < 10 ^ 10) cs" "prose_ok rest"
  shows "parse_citations (report cs rest) = fromkeys (map (\<lambda>(prose, n, tool). (receipt_id n, tool)) cs)"
proof -
  have "list_all (\<lambda>(prose, n, tool). prose_ok prose \<and> tool_ok tool) cs" using assms(1) by (auto simp: list_all_iff)
  note find = find_report [OF this assms(2)]
  have "length (show_nat n) \<le> MAX_RECEIPT_ID_DIGITS" if "(prose, n, tool) \<in> set cs" for prose n tool
    using assms(1) that length_show_nat [of n 10] by (fastforce simp: list_all_iff MAX_RECEIPT_ID_DIGITS_def)
  then have "filter (\<lambda>(ds, label). length ds \<le> MAX_RECEIPT_ID_DIGITS) (map (\<lambda>(prose, n, tool). (show_nat n, tool)) cs)
      = map (\<lambda>(prose, n, tool). (show_nat n, tool)) cs"
    by (intro filter_True) auto
  then show ?thesis by (simp add: parse_citations_def find split_def comp_def)
qed

section \<open>The ledger by id\<close>

lemma receipt_id_inject [simp]: "receipt_id m = receipt_id n \<longleftrightarrow> m = n"
  by (metis read_show_nat receipt_id_def append_same_eq same_append_eq)

lemma by_id_lookup:
  "map_of (foldl (\<lambda>d r. od_set (re_id r) r d) d rs) = map_of d ++ map_of (rev (map (\<lambda>r. (re_id r, r)) rs))"
proof (induction rs arbitrary: d)
  case (Cons r rs)
  show ?case using Cons [of "od_set (re_id r) r d"] by (simp add: update_conv' map_add_def fun_eq_iff split: option.split)
qed simp

lemma by_id_sound:
  "od_get (foldl (\<lambda>d r. od_set (re_id r) r d) [] rs) i = Some r \<Longrightarrow> r \<in> set rs \<and> re_id r = i"
  unfolding by_id_lookup by (auto dest: map_of_SomeD)

lemma by_id_complete:
  assumes "distinct (map re_id rs)" "r \<in> set rs"
  shows "od_get (foldl (\<lambda>d r. od_set (re_id r) r d) [] rs) (re_id r) = Some r"
proof -
  have "distinct (map fst (rev (map (\<lambda>r. (re_id r, r)) rs)))" using assms(1) by (simp add: rev_map [symmetric] comp_def del: map_map) (simp add: comp_def)
  moreover have "(re_id r, r) \<in> set (rev (map (\<lambda>r. (re_id r, r)) rs))" using assms(2) by auto
  ultimately show ?thesis unfolding by_id_lookup by (simp only: map_of.simps empty_map_add map_of_eq_Some_iff)
qed

lemma extract_ids: "map re_id (extract_from n ts) = map receipt_id [Suc n..<Suc n + length (extract_from n ts)]"
proof (induction ts arbitrary: n)
  case (Cons t ts)
  then show ?case by (cases "stamped t") (simp_all add: receipt_of_def upt_conv_Cons del: upt_Suc)
qed simp

section \<open>Checking citations\<close>

lemma resolves:
  assumes "od_get by_id rid = Some r" "re_status r = ''success''" "anchor = None \<or> anchor = Some (re_tool_name r)"
  shows "check_citation by_id (resolved, failed, unknown) (rid, anchor) = (resolved @ [rid], failed, unknown)"
  using assms by (auto simp: check_citation_def)

lemma all_resolve:
  assumes "\<forall>(rid, anchor) \<in> set cs. \<exists>r. od_get by_id rid = Some r \<and> re_status r = ''success''
      \<and> (anchor = None \<or> anchor = Some (re_tool_name r))"
  shows "foldl (check_citation by_id) (resolved, failed, unknown) cs = (resolved @ map fst cs, failed, unknown)"
  using assms
proof (induction cs arbitrary: resolved)
  case (Cons c cs)
  obtain rid anchor where c: "c = (rid, anchor)" by (cases c)
  then obtain r where "od_get by_id rid = Some r" "re_status r = ''success''" "anchor = None \<or> anchor = Some (re_tool_name r)"
    using Cons.prems by auto
  from resolves [OF this] show ?case using Cons c by simp
qed simp

lemma check_cases:
  obtains (resolved) r where "od_get by_id rid = Some r" "re_status r = ''success''" "anchor = None \<or> anchor = Some (re_tool_name r)"
      "check_citation by_id (rs, fs, us) (rid, anchor) = (rs @ [rid], fs, us)"
  | (failed) reason where "check_citation by_id (rs, fs, us) (rid, anchor) = (rs, fs @ [(rid, reason)], us)"
  | (unknown) "check_citation by_id (rs, fs, us) (rid, anchor) = (rs, fs, us @ [rid])"
proof (cases "od_get by_id rid")
  case None
  then show ?thesis using unknown by (simp add: check_citation_def)
next
  case (Some r)
  show ?thesis
  proof (cases "re_status r = ''success'' \<and> (anchor = None \<or> anchor = Some (re_tool_name r))")
    case True
    then show ?thesis using resolved [OF Some] resolves [OF Some] by blast
  next
    case False
    then have "\<exists>reason. check_citation by_id (rs, fs, us) (rid, anchor) = (rs, fs @ [(rid, reason)], us)"
      using Some by (cases "re_status r = ''success''"; cases anchor) (simp_all add: check_citation_def)
    then show ?thesis using failed by blast
  qed
qed

text \<open>Every citation lands in one of the three lists; in the first only if the ledger backs it.\<close>

lemma check_partition:
  assumes "foldl (check_citation by_id) (rs, fs, us) cs = (rs', fs', us')"
  shows "length rs' + length fs' + length us' = length rs + length fs + length us + length cs
    \<and> (\<exists>f u. fs' = fs @ f \<and> us' = us @ u \<and> (f = [] \<and> u = [] \<longrightarrow>
        (\<forall>(rid, anchor) \<in> set cs. \<exists>r. od_get by_id rid = Some r \<and> re_status r = ''success''
          \<and> (anchor = None \<or> anchor = Some (re_tool_name r)))))"
  using assms
proof (induction cs arbitrary: rs fs us)
  case (Cons c cs)
  obtain rid anchor where c: "c = (rid, anchor)" by (cases c)
  show ?case
  proof (cases rule: check_cases [of by_id rid anchor rs fs us])
    case (resolved r)
    then have "foldl (check_citation by_id) (rs @ [rid], fs, us) cs = (rs', fs', us')" using Cons.prems c by simp
    from Cons.IH [OF this] show ?thesis using resolved(1-3) c by auto
  next
    case (failed reason)
    then have "foldl (check_citation by_id) (rs, fs @ [(rid, reason)], us) cs = (rs', fs', us')" using Cons.prems c by simp
    from Cons.IH [OF this] show ?thesis by auto
  next
    case unknown
    then have "foldl (check_citation by_id) (rs, fs, us @ [rid]) cs = (rs', fs', us')" using Cons.prems c by simp
    from Cons.IH [OF this] show ?thesis by auto
  qed
qed simp

section \<open>Stored verdicts\<close>

lemma all_some_map: "\<forall>x \<in> set xs. f x = Some (g x) \<Longrightarrow> all_some (map f xs) = Some (map g xs)"
  by (induction xs) auto

lemma str_list_strings: "str_list (Some (VList (map VStr xs))) = Some xs"
  using all_some_map [of "map VStr xs" "\<lambda>x. text_value (Some x)" "\<lambda>x. case x of VStr s \<Rightarrow> s | _ \<Rightarrow> []"]
  by (simp add: str_list_def comp_def del: map_map) (simp add: comp_def)

lemma failures_values: "failures (Some (VList (map (\<lambda>(i, r). VDict [(''id'', VStr i), (''reason'', VStr r)]) xs))) = Some xs"
proof -
  have "all_some (map (\<lambda>x. failure_of (VDict [(''id'', VStr (fst x)), (''reason'', VStr (snd x))])) xs) = Some (map (\<lambda>x. x) xs)"
    by (rule all_some_map) (simp add: failure_of_def)
  then show ?thesis by (simp add: failures_def comp_def case_prod_beta)
qed

lemma validate_verdict_value: "validate_receipt_verdict (verdict_value v) = Some v"
  by (simp add: validate_receipt_verdict_def verdict_value_def str_list_strings failures_values)

section \<open>The rendered ledger\<close>

lemma retain_suffix:
  "\<lbrakk>length (py_join nl (lines @ OMISSION # retained)) \<le> max_chars \<or> retained = []; retained = drop k all; ls = rev (take k all); k \<le> length all\<rbrakk>
   \<Longrightarrow> \<exists>j. j \<le> k \<and> retain max_chars lines retained ls = drop j all
      \<and> (length (py_join nl (lines @ OMISSION # retain max_chars lines retained ls)) \<le> max_chars \<or> retain max_chars lines retained ls = [])"
proof (induction max_chars lines retained ls arbitrary: k rule: retain.induct)
  case (1 max_chars lines retained)
  then show ?case by (intro exI [of _ k]) simp
next
  case (2 max_chars lines retained l ls)
  then obtain i where i: "k = Suc i" "i < length all" by (cases k) auto
  have l: "l = all ! i" "ls = rev (take i all)"
    using 2(4) i by (simp_all add: take_Suc_conv_app_nth)
  show ?case
  proof (cases "max_chars < length (py_join nl (lines @ OMISSION # l # retained))")
    case True
    then show ?thesis using 2(2,3) by (intro exI [of _ k]) simp
  next
    case False
    have "l # retained = drop i all" using 2(3) i l(1) by (simp add: Cons_nth_drop_Suc)
    then obtain j where "j \<le> i" "retain max_chars lines (l # retained) ls = drop j all"
      "length (py_join nl (lines @ OMISSION # retain max_chars lines (l # retained) ls)) \<le> max_chars
        \<or> retain max_chars lines (l # retained) ls = []"
      using 2(1) [OF False _ _ l(2)] False i(2) by auto
    then show ?thesis using False i(1) by (intro exI [of _ j]) simp
  qed
qed

lemma join_contains: "x \<in> set xs \<Longrightarrow> \<exists>a b. py_join sep xs = a @ x @ b"
proof (induction sep xs rule: py_join.induct)
  case (2 sep y)
  then show ?case by (intro exI [of _ "[]"]) simp
next
  case (3 sep y z xs)
  show ?case
  proof (cases "x = y")
    case True
    then show ?thesis by (intro exI [of _ "[]"] exI [of _ "sep @ py_join sep (z # xs)"]) simp
  next
    case False
    then obtain a b where "py_join sep (z # xs) = a @ x @ b" using 3 by auto
    then show ?thesis by (intro exI [of _ "y @ sep @ a"] exI [of _ b]) simp
  qed
qed simp

section \<open>Properties\<close>

text \<open>
  C26. Citations survive the trip through a report. The report cites receipts of successful calls in the
  prescribed form, by position and perhaps by the name of the receipt's own tool; the prose around the
  citations contains no opening bracket, and a tool that is named has a name that the citation pattern
  can read: a letter or underscore, and then letters, digits, underscores, dots and dashes. Then
  the report is read back as exactly these citations, in order and each once, and every one resolves.
\<close>

theorem citations_round_trip:
  fixes claims :: "string \<Rightarrow> bool"
  assumes "receipts = extract_tool_receipts messages" "length receipts < 10 ^ 10" "cs \<noteq> []" "prose_ok rest"
    and cited: "\<forall>(prose, n, tool) \<in> set cs. prose_ok prose \<and> 0 < n \<and> n \<le> length receipts
      \<and> re_status (receipts ! (n - 1)) = ''success''
      \<and> (tool = None \<or> tool = Some (re_tool_name (receipts ! (n - 1))) \<and> tool_ok tool)"
  defines "v \<equiv> verify_receipt_citations claims (report cs rest) receipts"
  shows "parse_citations (report cs rest) = fromkeys (map (\<lambda>(prose, n, tool). (receipt_id n, tool)) cs)
    \<and> vd_resolved_all v \<and> vd_resolved v = vd_cited v \<and> vd_failed v = [] \<and> vd_unknown v = []"
proof -
  let ?cs = "fromkeys (map (\<lambda>(prose, n, tool). (receipt_id n, tool)) cs)"
  let ?by_id = "foldl (\<lambda>d r. od_set (re_id r) r d) [] receipts"
  have "list_all (\<lambda>(prose, n, tool). prose_ok prose \<and> tool_ok tool \<and> n < 10 ^ 10) cs"
    using cited assms(2) by (fastforce simp: list_all_iff tool_ok_def)
  note parse = parse_report [OF this assms(4)]
  have ids: "map re_id receipts = map receipt_id [1..<Suc (length receipts)]"
    using extract_ids [of 0 messages] by (simp add: assms(1) extract_tool_receipts_def)
  have dist: "distinct (map re_id receipts)" unfolding ids by (simp add: distinct_map inj_on_def)
  have "\<exists>r. od_get ?by_id rid = Some r \<and> re_status r = ''success'' \<and> (anchor = None \<or> anchor = Some (re_tool_name r))"
    if c: "(rid, anchor) \<in> set ?cs" for rid anchor
  proof -
    obtain prose n where n: "(prose, n, anchor) \<in> set cs" "rid = receipt_id n" using c by auto
    then have ok: "0 < n" "n \<le> length receipts" "re_status (receipts ! (n - 1)) = ''success''"
      "anchor = None \<or> anchor = Some (re_tool_name (receipts ! (n - 1)))" using cited by auto
    have "map re_id receipts ! (n - 1) = map receipt_id [1..<Suc (length receipts)] ! (n - 1)" by (simp only: ids)
    then have "re_id (receipts ! (n - 1)) = rid" using ok(1,2) n(2) by (simp add: nth_append del: upt_Suc)
    then have "od_get ?by_id rid = Some (receipts ! (n - 1))"
      using by_id_complete [OF dist, of "receipts ! (n - 1)"] ok(1,2) by simp
    then show ?thesis using ok(3,4) by blast
  qed
  then have fold: "foldl (check_citation ?by_id) ([], [], []) ?cs = (map fst ?cs, [], [])"
    using all_resolve [of ?cs ?by_id "[]" "[]" "[]"] by (simp add: case_prod_beta)
  have "(\<lambda>(prose, n, tool). (receipt_id n, tool)) (hd cs) \<in> set ?cs"
    unfolding set_fromkeys set_map using hd_in_set [OF assms(3)] by (rule imageI)
  then have "?cs \<noteq> []" by (metis empty_iff empty_set)
  then show ?thesis by (simp add: v_def verify_receipt_citations_def parse fold Let_def)
qed

text \<open>
  C37. A clean verdict is backed by the ledger: every citation of the report is accounted for once, as
  resolved, failed or unknown, and if the verdict is that citations resolve, each of them names a
  receipt of a successful call, under its own tool if it names one, and no claim goes without
  citation. A stored verdict is read back unchanged.
\<close>

theorem clean_verdict_is_backed:
  assumes "v = verify_receipt_citations claims text receipts"
  shows "length (vd_cited v) = length (vd_resolved v) + length (vd_failed v) + length (vd_unknown v)
    \<and> (vd_resolved_all v \<longrightarrow> \<not> vd_no_claims v
        \<and> (\<forall>(rid, anchor) \<in> set (parse_citations text). \<exists>r \<in> set receipts.
             re_id r = rid \<and> re_status r = ''success'' \<and> (anchor = None \<or> anchor = Some (re_tool_name r))))
    \<and> validate_receipt_verdict (verdict_value v) = Some v"
proof -
  let ?by_id = "foldl (\<lambda>d r. od_set (re_id r) r d) [] receipts"
  let ?cs = "parse_citations text"
  obtain rs fs us where f: "foldl (check_citation ?by_id) ([], [], []) ?cs = (rs, fs, us)" by (rule prod_cases3)
  have parts: "vd_cited v = map fst ?cs" "vd_resolved v = rs" "vd_failed v = fs" "vd_unknown v = us"
    "vd_resolved_all v = (if ?cs \<noteq> [] then fs = [] \<and> us = [] else \<not> vd_no_claims v)"
    "vd_no_claims v \<longrightarrow> ?cs = []"
    using assms by (simp_all add: verify_receipt_citations_def f Let_def)
  have len: "length ?cs = length rs + length fs + length us" using check_partition [OF f] by simp
  have "\<exists>r \<in> set receipts. re_id r = rid \<and> re_status r = ''success'' \<and> (anchor = None \<or> anchor = Some (re_tool_name r))"
    if c: "vd_resolved_all v" "(rid, anchor) \<in> set ?cs" for rid anchor
  proof -
    have "fs = [] \<and> us = []" using c parts(5) by (auto split: if_splits)
    then obtain r where "od_get ?by_id rid = Some r" "re_status r = ''success''" "anchor = None \<or> anchor = Some (re_tool_name r)"
      using check_partition [OF f] c(2) by auto
    then show ?thesis using by_id_sound [of receipts rid r] by blast
  qed
  moreover have "vd_resolved_all v \<longrightarrow> \<not> vd_no_claims v" using parts(5,6) by (auto split: if_splits)
  ultimately show ?thesis using parts(1-4) len validate_verdict_value [of v] by auto
qed

text \<open>
  The ledger the model sees is bounded and is its snapshot: the text keeps to the budget, the
  snapshot is the newest part of the receipts, and each of its receipts stands in the text in full.
\<close>

theorem ledger_is_its_snapshot:
  assumes "4 \<le> max_chars" "render_tool_receipts_with_snapshot header max_chars receipts = (text, kept)"
  shows "length text \<le> max_chars \<and> (\<exists>k. kept = drop k receipts)
    \<and> (\<forall>r \<in> set kept. \<exists>a b. text = a @ receipt_line r @ b)"
proof (cases "receipts = []")
  case True
  then show ?thesis using assms(2) by (auto simp: render_tool_receipts_with_snapshot_def)
next
  case False
  let ?ls = "map receipt_line receipts" and ?retained = "retain max_chars header [] (rev (map receipt_line receipts))"
  obtain j where j: "j \<le> length ?ls" "?retained = drop j ?ls"
    using retain_suffix [of header "[]" max_chars "length ?ls" ?ls "rev ?ls"] by auto
  have last: "last_n (length ?retained) receipts = drop j receipts" using j by (simp add: last_n_def)
  define lines where "lines = (if length (py_join nl (header @ ?ls)) \<le> max_chars then header @ ?ls else header @ OMISSION # ?retained)"
  define m where "m = (if length (py_join nl (header @ ?ls)) \<le> max_chars then 0 else j)"
  have r: "(text, kept) = (if max_chars < length (py_join nl lines) then (take (max_chars - 4) (py_join nl lines) @ nl @ ''...'', [])
      else (py_join nl lines, drop m receipts))"
    using assms(2) False by (auto simp: render_tool_receipts_with_snapshot_def Let_def lines_def m_def last split: if_splits)
  have shown: "\<exists>a b. py_join nl lines = a @ receipt_line x @ b" if "x \<in> set (drop m receipts)" for x
  proof (rule join_contains)
    have "receipt_line x \<in> set (map receipt_line (drop m receipts))" using that by simp
    then show "receipt_line x \<in> set lines" unfolding lines_def m_def j(2) drop_map by (auto split: if_splits)
  qed
  show ?thesis
  proof (cases "max_chars < length (py_join nl lines)")
    case True
    then show ?thesis using r assms(1) by (auto simp: nl_def intro!: exI [of _ "length receipts"])
  next
    case False
    then show ?thesis using r shown by auto
  qed
qed

text \<open>A ledger of one successful call of \<^verbatim>\<open>write_file\<close>, cited with and without its name.\<close>

definition demo_stamp :: dict where
  "demo_stamp = [(''tool_call_id'', VStr ''c1''), (''tool_name'', VStr ''write_file''), (''status'', VStr ''success''),
     (''args_sha256'', VStr ''aa''), (''output_sha256'', VStr ''bb''), (''output_bytes'', VInt 3), (''created_at'', VStr ''now'')]"

definition demo_messages :: "turn list" where
  "demo_messages = [OtherTurn, ToolTurn [(TOOL_RECEIPT_KEY, VDict demo_stamp)]]"

definition demo_receipt :: tool_receipt where
  "demo_receipt = receipt_of (receipt_id 1) demo_stamp"

lemma demo_ledger: "extract_tool_receipts demo_messages = [demo_receipt]"
  by (simp add: extract_tool_receipts_def demo_messages_def demo_receipt_def demo_stamp_def is_valid_receipt_def
      RECEIPT_STR_FIELDS_def)

lemma demo_receipt_parts: "re_status demo_receipt = ''success''" "re_tool_name demo_receipt = ''write_file''"
  by (simp_all add: demo_receipt_def receipt_of_def demo_stamp_def field_text_def)

lemma demo_label: "label_ok ''write_file''"
  by code_simp

lemma citations_round_trip_witness:
  "parse_citations (''I wrote it '' @ format_citation (receipt_id 1) (Some ''write_file'') @ '' twice'')
     = [(receipt_id 1, Some ''write_file'')]
   \<and> vd_resolved_all (verify_receipt_citations (\<lambda>_. True)
        (''I wrote it '' @ format_citation (receipt_id 1) (Some ''write_file'') @ '' twice'') (extract_tool_receipts demo_messages))"
proof -
  let ?cs = "[(''I wrote it '', 1 :: nat, Some ''write_file'')]"
  have cited: "\<forall>(prose, n, tool) \<in> set ?cs. prose_ok prose \<and> 0 < n \<and> n \<le> length [demo_receipt]
      \<and> re_status ([demo_receipt] ! (n - 1)) = ''success''
      \<and> (tool = None \<or> tool = Some (re_tool_name ([demo_receipt] ! (n - 1))) \<and> tool_ok tool)"
    using demo_label by (simp add: prose_ok_def demo_receipt_parts tool_ok_def)
  have prose: "prose_ok '' twice''" by (simp add: prose_ok_def)
  from citations_round_trip [OF demo_ledger [symmetric] _ _ prose cited, of "\<lambda>_. True"]
  show ?thesis unfolding demo_ledger by (simp add: fromkeys_def)
qed

lemma clean_verdict_is_backed_witness:
  "validate_receipt_verdict (verdict_value (verify_receipt_citations (\<lambda>_. False) ''done [r7]'' [demo_receipt]))
     = Some (verify_receipt_citations (\<lambda>_. False) ''done [r7]'' [demo_receipt])"
  using clean_verdict_is_backed [OF refl, of "\<lambda>_. False" "''done [r7]''" "[demo_receipt]"] by (elim conjE)

lemma ledger_is_its_snapshot_witness:
  "length (fst (render_tool_receipts_with_snapshot [''Receipts''] 40 [demo_receipt, demo_receipt])) \<le> 40"
proof -
  obtain shown kept where r: "render_tool_receipts_with_snapshot [''Receipts''] 40 [demo_receipt, demo_receipt] = (shown, kept)"
    by fastforce
  from ledger_is_its_snapshot [OF _ r, THEN conjunct1] show ?thesis by (simp add: r)
qed

end
