(* ===== verification/ContractProofs.thy ===== *)
theory ContractProofs
  imports StatusContract CitationProofs
begin

text \<open>
  The outcome of a delegation survives the trip through the metadata: what the producer writes is what
  the ledger reads, with texts bounded once and verdicts unchanged.
\<close>

section \<open>Bounded texts\<close>

lemma dropWhile_head: "dropWhile P xs \<noteq> [] \<Longrightarrow> \<not> P (hd (dropWhile P xs))"
  by (induction xs) auto

lemma strip_ends:
  assumes "py_strip s \<noteq> []"
  shows "\<not> is_space (hd (py_strip s))" "\<not> is_space (last (py_strip s))"
proof -
  let ?d = "dropWhile is_space s"
  have rev: "rev (py_strip s) = dropWhile is_space (rev ?d)" by (simp add: py_strip_def)
  have "\<not> is_space (hd (dropWhile is_space (rev ?d)))"
    by (rule dropWhile_head) (use assms rev in \<open>simp add: py_strip_def\<close>)
  then show "\<not> is_space (last (py_strip s))" using assms by (simp add: hd_rev rev [symmetric])
  obtain w where w: "rev ?d = w @ dropWhile is_space (rev ?d)" by (metis takeWhile_dropWhile_id)
  then have split: "?d = py_strip s @ rev w" by (metis py_strip_def rev_append rev_rev_ident)
  then have "hd ?d = hd (py_strip s)" using assms by (metis hd_append2)
  moreover have "?d \<noteq> []" using split assms by auto
  ultimately show "\<not> is_space (hd (py_strip s))" using dropWhile_head [of is_space s] by simp
qed

lemma strip_id: "\<lbrakk>s \<noteq> [] \<Longrightarrow> \<not> is_space (hd s); s \<noteq> [] \<Longrightarrow> \<not> is_space (last s)\<rbrakk> \<Longrightarrow> py_strip s = s"
proof (cases "s = []")
  case False
  assume ends: "s \<noteq> [] \<Longrightarrow> \<not> is_space (hd s)" "s \<noteq> [] \<Longrightarrow> \<not> is_space (last s)"
  have "dropWhile is_space s = s" using ends(1) False by (cases s) auto
  moreover have "dropWhile is_space (rev s) = rev s" using ends(2) False by (cases s rule: rev_cases) auto
  ultimately show ?thesis by (simp add: py_strip_def)
qed (simp add: py_strip_def)

lemma strip_strip [simp]: "py_strip (py_strip s) = py_strip s"
  using strip_ends strip_id by blast

lemma last_last_n: "0 < n \<Longrightarrow> xs \<noteq> [] \<Longrightarrow> last (last_n n xs) = last xs"
  by (simp add: last_n_def)

text \<open>A text over the limit keeps its first and last character and has exactly the length of the limit.\<close>

lemma bound_text_cases:
  "bound_text s = py_strip s \<and> length (py_strip s) \<le> 2000
   \<or> length (bound_text s) = 2000 \<and> hd (bound_text s) = hd (py_strip s) \<and> last (bound_text s) = last (py_strip s)
     \<and> py_strip s \<noteq> []"
proof (cases "length (py_strip s) \<le> 2000")
  case True
  then show ?thesis by (simp add: bound_text_def bound_metadata_text_def METADATA_TEXT_MAX_CHARS_def Let_def)
next
  case False
  let ?c = "py_strip s"
  have b: "bound_text s = take 1333 ?c @ (nl @ ''...'' @ nl) @ last_n 662 ?c"
    using False by (simp add: bound_text_def bound_metadata_text_def METADATA_TEXT_MAX_CHARS_def Let_def nl_def)
  have ne: "?c \<noteq> []" using False by auto
  have "hd (bound_text s) = hd ?c" using False by (cases ?c) (simp_all add: b)
  moreover have "last_n 662 ?c \<noteq> []" using False by (simp add: last_n_def)
  then have "last (bound_text s) = last ?c" using ne by (simp add: b last_last_n)
  moreover have "length (bound_text s) = 2000" using False by (simp add: b nl_def)
  ultimately show ?thesis using ne by simp
qed

lemma strip_bound [simp]: "py_strip (bound_text s) = bound_text s"
proof -
  from bound_text_cases [of s] show ?thesis
  proof
    assume "length (bound_text s) = 2000 \<and> hd (bound_text s) = hd (py_strip s) \<and> last (bound_text s) = last (py_strip s)
        \<and> py_strip s \<noteq> []"
    then show ?thesis using strip_ends [of s] by (intro strip_id) auto
  qed simp
qed

lemma bound_bound [simp]: "bound_text (bound_text s) = bound_text s"
proof -
  have "length (bound_text s) \<le> 2000" using bound_text_cases [of s] by auto
  then show ?thesis by (subst bound_text_def) (simp add: bound_metadata_text_def METADATA_TEXT_MAX_CHARS_def Let_def)
qed

lemma text_given_bound: "text_given (Some s) = Some t \<Longrightarrow> text_given (Some (bound_text s)) = Some (bound_text s)"
  using bound_text_cases [of s] by (auto simp: text_given_def blank_def split: if_splits)

lemma text_given_id: "text_given t = Some s \<Longrightarrow> t = Some s"
  by (auto simp: text_given_def split: option.splits if_splits)

section \<open>Looking up the payload\<close>

lemma entry_lookup:
  "map_of (entry_if b k v) j = (if b \<and> j = k then Some v else None)"
  "map_of (some_entry k x) j = (if j = k then x else None)"
  by (auto simp: entry_if_def some_entry_def split: option.split)

lemma payload_lookup:
  "od_get (payload sha status oc) ''subagent_status'' = Some (VStr status)"
  "od_get (payload sha status oc) ''subagent_stop_reason'' = map_option VStr (oc_stop_reason oc)"
  "od_get (payload sha status oc) ''subagent_result_brief'' = (if status = ''completed''
     then map_option (\<lambda>s. VStr (bound_text s)) (text_given (oc_result oc)) else None)"
  "od_get (payload sha status oc) ''subagent_result_sha256'' = (if status = ''completed''
     then map_option (\<lambda>s. VStr (sha s)) (text_given (oc_result oc)) else None)"
  "od_get (payload sha status oc) ''subagent_error'' = (if status = ''completed'' then None
     else map_option (\<lambda>s. VStr (bound_text s)) (text_given (oc_error oc)))"
  "od_get (payload sha status oc) ''subagent_tool_receipts'' = (if valid_receipts (oc_tool_receipts oc) = [] then None
     else Some (VList (valid_receipts (oc_tool_receipts oc))))"
  "od_get (payload sha status oc) ''subagent_receipt_verdict''
     = map_option verdict_value (validate_receipt_verdict (oc_receipt_verdict oc))"
  "od_get (payload sha status oc) ''subagent_acceptance_verdict''
     = map_option acceptance_value (validate_acceptance_verdict (oc_acceptance_verdict oc))"
  by (simp_all add: payload_def map_add_def entry_lookup RESULT_BEARING_STATUSES_def split: option.split)

section \<open>Verdicts\<close>

lemma valid_receipts_idem: "valid_receipts (VList (valid_receipts v)) = valid_receipts v"
  by (cases v) (simp_all add: valid_receipts_def)

lemma leaf_of_value: "leaf_of (leaf_value l) = Some l"
  by (simp add: leaf_of_def leaf_value_def)

lemma length_all_some: "all_some xs = Some ys \<Longrightarrow> length ys = length xs"
  by (induction xs arbitrary: ys) (auto split: option.splits)

lemma leaves_bounded: "leaves_of v = Some ls \<Longrightarrow> length ls \<le> MAX_ACCEPTANCE_CRITERIA"
  by (auto simp: leaves_of_def split: option.splits pyval.splits if_splits dest!: length_all_some)

lemma validate_acceptance_value:
  assumes "length (av_leaves a) \<le> MAX_ACCEPTANCE_CRITERIA"
  shows "validate_acceptance_verdict (acceptance_value a) = Some a"
proof -
  have "all_some (map (\<lambda>l. leaf_of (leaf_value l)) (av_leaves a)) = Some (map (\<lambda>l. l) (av_leaves a))"
    by (rule all_some_map) (simp add: leaf_of_value)
  then have "leaves_of (Some (VList (map leaf_value (av_leaves a)))) = Some (av_leaves a)"
    using assms by (simp add: leaves_of_def comp_def)
  then show ?thesis by (simp add: validate_acceptance_verdict_def acceptance_value_def str_list_strings)
qed

lemma validated_leaves:
  assumes "validate_acceptance_verdict v = Some a"
  shows "length (av_leaves a) \<le> MAX_ACCEPTANCE_CRITERIA"
proof -
  obtain d where "leaves_of (od_get d ''leaves'') = Some (av_leaves a)"
    using assms by (auto simp: validate_acceptance_verdict_def split: pyval.splits option.splits)
  then show ?thesis by (rule leaves_bounded)
qed

section \<open>The round trip\<close>

text \<open>Every failure has a reason once its message was formatted.\<close>

lemma format_gives_reason:
  "status \<noteq> ''completed'' \<Longrightarrow> text_given (snd (format_subagent_result_message status result error stop_reason)) \<noteq> None"
proof -
  let ?e = "case error of None \<Rightarrow> [] | Some e \<Rightarrow> py_strip e"
  assume "status \<noteq> ''completed''"
  then have "\<exists>d \<in> {''Task cancelled by user.'', ''Task timed out.'', ''Task polling timed out.'', ''Task failed.''}.
      snd (format_subagent_result_message status result error stop_reason) = Some (if ?e = [] then d else ?e)"
    by (auto simp: format_subagent_result_message_def detailed_def Let_def split: option.split)
  moreover have "\<not> blank ?e" if "?e \<noteq> []" using that by (cases error) (simp_all add: blank_def)
  moreover have "\<not> blank ''Task cancelled by user.''" "\<not> blank ''Task timed out.''" "\<not> blank ''Task polling timed out.''"
    "\<not> blank ''Task failed.''" by (simp_all add: blank_def py_strip_def is_space_def Let_def)
  ultimately show ?thesis by (auto simp: text_given_def)
qed

text \<open>
  C25. The outcome of a delegation survives the trip through the metadata: what the producer accepts is
  read back with its status, stop reason, digest, receipts and verdicts, and with its texts in the
  bounded form, which bounding again leaves alone; the result only when completed, the error only when
  not. An error that was formatted for the model first is never lost: every outcome that is not
  completed is read back with a reason.
\<close>

theorem delegation_outcome_round_trip:
  assumes "make_subagent_additional_kwargs sha status oc = Inr kw" "\<forall>s. sha256_hex (sha s)"
  shows "read_subagent_result_metadata (Some kw) = Some \<lparr>
      sr_status = status, sr_stop_reason = oc_stop_reason oc,
      sr_result_brief = (if status = ''completed'' then map_option bound_text (text_given (oc_result oc)) else None),
      sr_result_sha256 = (if status = ''completed'' then map_option sha (text_given (oc_result oc)) else None),
      sr_error = (if status = ''completed'' then None else map_option bound_text (text_given (oc_error oc))),
      sr_tool_receipts = valid_receipts (oc_tool_receipts oc),
      sr_receipt_verdict = validate_receipt_verdict (oc_receipt_verdict oc),
      sr_acceptance_verdict = validate_acceptance_verdict (oc_acceptance_verdict oc)\<rparr>
    \<and> bound_text (bound_text t) = bound_text t \<and> length (bound_text t) \<le> METADATA_TEXT_MAX_CHARS
    \<and> (oc_error oc = snd (format_subagent_result_message status result error stop_reason) \<longrightarrow>
         status = ''completed'' \<or> text_given (oc_error oc) \<noteq> None)"
proof -
  have ok: "status \<in> set SUBAGENT_STATUS_VALUES" "kw = payload sha status oc"
    "oc_stop_reason oc = None \<or> (\<exists>r \<in> set STOP_REASON_VALUES. oc_stop_reason oc = Some r)"
    using assms(1) by (auto simp: make_subagent_additional_kwargs_def split: if_splits option.splits)
  have "od_get LEGACY_STATUS_NORMALIZATION status = None"
    using ok(1) by (auto simp: SUBAGENT_STATUS_VALUES_def LEGACY_STATUS_NORMALIZATION_def)
  then have status: "read_status kw = Some (status, None)"
    using ok(1) by (simp add: read_status_def ok(2) payload_lookup)
  have given: "text_given (map_option bound_text (text_given x)) = map_option bound_text (text_given x)" for x
    using text_given_bound [of "case text_given x of Some s \<Rightarrow> s | None \<Rightarrow> []"] text_given_id [of x]
    by (cases "text_given x") (auto simp: text_given_def split: if_splits)
  have texts: "text_value (map_option (\<lambda>s. VStr (f s)) x) = map_option f x" for f :: "string \<Rightarrow> string" and x
    by (cases x) auto
  have brief: "given_field kw ''subagent_result_brief'' = (if status = ''completed'' then map_option bound_text (text_given (oc_result oc)) else None)"
    "given_field kw ''subagent_error'' = (if status = ''completed'' then None else map_option bound_text (text_given (oc_error oc)))"
    using given by (simp_all add: given_field_def ok(2) payload_lookup texts text_given_def)
  have reason: "(case text_value (od_get kw ''subagent_stop_reason'') of
      Some r \<Rightarrow> if r \<in> set STOP_REASON_VALUES then Some r else None | None \<Rightarrow> None) = oc_stop_reason oc"
    using ok(3) by (auto simp: ok(2) payload_lookup)
  have verdicts: "validate_receipt_verdict (optional_value kw ''subagent_receipt_verdict'') = validate_receipt_verdict (oc_receipt_verdict oc)"
    "validate_acceptance_verdict (optional_value kw ''subagent_acceptance_verdict'') = validate_acceptance_verdict (oc_acceptance_verdict oc)"
    "valid_receipts (optional_value kw ''subagent_tool_receipts'') = valid_receipts (oc_tool_receipts oc)"
    using validated_leaves validate_acceptance_value validate_verdict_value valid_receipts_idem
    by (auto simp: optional_value_def ok(2) payload_lookup validate_receipt_verdict_def [of VNone]
        validate_acceptance_verdict_def [of VNone] valid_receipts_def [of VNone] split: option.split)
  have hash: "text_value (od_get kw ''subagent_result_sha256'') = (if status = ''completed'' then map_option sha (text_given (oc_result oc)) else None)"
    by (simp add: ok(2) payload_lookup texts)
  have "read_subagent_result_metadata (Some kw) = Some \<lparr>
      sr_status = status, sr_stop_reason = oc_stop_reason oc,
      sr_result_brief = (if status = ''completed'' then map_option bound_text (text_given (oc_result oc)) else None),
      sr_result_sha256 = (if status = ''completed'' then map_option sha (text_given (oc_result oc)) else None),
      sr_error = (if status = ''completed'' then None else map_option bound_text (text_given (oc_error oc))),
      sr_tool_receipts = valid_receipts (oc_tool_receipts oc),
      sr_receipt_verdict = validate_receipt_verdict (oc_receipt_verdict oc),
      sr_acceptance_verdict = validate_acceptance_verdict (oc_acceptance_verdict oc)\<rparr>"
    unfolding read_subagent_result_metadata_def option.case status prod.case Let_def reason verdicts brief hash
    using assms(2) by (cases "text_given (oc_result oc)"; cases "text_given (oc_error oc)")
      (simp_all add: RESULT_BEARING_STATUSES_def)
  moreover have "length (bound_text t) \<le> METADATA_TEXT_MAX_CHARS"
    using bound_text_cases [of t] by (auto simp: METADATA_TEXT_MAX_CHARS_def)
  ultimately show ?thesis using format_gives_reason by auto
qed

text \<open>A capped failure whose message was formatted from a blank error.\<close>

definition demo_outcome :: outcome where
  "demo_outcome = \<lparr>oc_result = None, oc_error = snd (format_subagent_result_message ''failed'' None (Some '' '') (Some ''turn_capped'')),
     oc_stop_reason = Some ''turn_capped'', oc_model_name = None, oc_token_usage = VNone, oc_tool_receipts = VNone,
     oc_receipt_verdict = VNone, oc_acceptance_verdict = VNone\<rparr>"

lemma delegation_outcome_round_trip_witness:
  "\<exists>kw r. make_subagent_additional_kwargs (\<lambda>_. replicate 64 (CHR ''a'')) ''failed'' demo_outcome = Inr kw
     \<and> read_subagent_result_metadata (Some kw) = Some r \<and> sr_status r = ''failed'' \<and> sr_stop_reason r = Some ''turn_capped''
     \<and> sr_result_sha256 r = None"
proof -
  have make: "make_subagent_additional_kwargs (\<lambda>_. replicate 64 (CHR ''a'')) ''failed'' demo_outcome
      = Inr (payload (\<lambda>_. replicate 64 (CHR ''a'')) ''failed'' demo_outcome)"
    by (simp add: make_subagent_additional_kwargs_def SUBAGENT_STATUS_VALUES_def STOP_REASON_VALUES_def demo_outcome_def)
  have hex: "\<forall>s :: string. sha256_hex (replicate 64 (CHR ''a''))"
    by (simp add: sha256_hex_def list_all_iff)
  from delegation_outcome_round_trip [OF make hex, THEN conjunct1] show ?thesis
    using make by (simp add: demo_outcome_def)
qed

text \<open>Statuses of older checkpoints are read as capped outcomes.\<close>

lemma legacy_status_is_capped:
  "read_subagent_result_metadata (Some [(''subagent_status'', VStr ''max_turns_reached''), (''subagent_result_brief'', VStr ''part'')])
     = Some \<lparr>sr_status = ''completed'', sr_stop_reason = Some ''turn_capped'', sr_result_brief = Some ''part'',
         sr_result_sha256 = None, sr_error = None, sr_tool_receipts = [], sr_receipt_verdict = None, sr_acceptance_verdict = None\<rparr>"
  by (simp add: read_subagent_result_metadata_def read_status_def LEGACY_STATUS_NORMALIZATION_def given_field_def text_given_def
      blank_def py_strip_def is_space_def Let_def RESULT_BEARING_STATUSES_def bound_text_def bound_metadata_text_def
      METADATA_TEXT_MAX_CHARS_def optional_value_def valid_receipts_def validate_receipt_verdict_def validate_acceptance_verdict_def)

end
