(* ===== verification/SandboxLease.thy ===== *)
theory SandboxLease
  imports Prelude
begin

text \<open>
  Execution leases on process-local sandbox clients
  (\<^verbatim>\<open>backend/packages/harness/deerflow/sandbox/lease.py\<close>): which executions use a client, who may park
  it, and which lookups of it are still fresh.

  The manager guards its dictionaries with a metadata lock that it never holds across a call of the
  provider, so a method is a sequence of critical sections and calls. A method is modelled as such a
  sequence (\<open>lease_prog\<close>): \<open>Atomic\<close> is one critical section, \<open>Ask\<close> a call whose answer is chosen by
  the provider, \<open>Lock\<close> (with the program to run when it is refused) and \<open>Unlock\<close> are the serializer of
  the thread key. Methods take what runs
  after them as an argument. The worker that runs a method is named by its thread identifier.
\<close>

section \<open>The manager's dictionaries\<close>

type_synonym thread_key = "string \<times> string"

text \<open>\<open>lb_ref\<close> is the identity of the frozen object; \<^verbatim>\<open>==\<close> ignores it, \<^verbatim>\<open>is\<close> compares it.\<close>

record lease_binding =
  lb_sandbox :: string
  lb_key :: thread_key
  lb_release_on_last :: bool
  lb_ref :: nat

record observation =
  ob_revision :: nat
  ob_readers :: nat

record lease_state =
  lm_bindings :: "string \<Rightarrow> lease_binding option"
  lm_owners :: "string \<Rightarrow> string set option"
  lm_pending :: "string set"
  lm_teardowns :: "string \<Rightarrow> (nat \<times> nat) option"
  lm_observations :: "string \<Rightarrow> observation option"
  lm_refs :: nat

definition new_leases :: lease_state where
  "new_leases = \<lparr>lm_bindings = Map.empty, lm_owners = Map.empty, lm_pending = {}, lm_teardowns = Map.empty,
     lm_observations = Map.empty, lm_refs = 0\<rparr>"

datatype lease_error = TeardownInProgress string | CannotMove string | ClientUnavailable string
  | NotFound string | ProviderFailed | TaskCancelled | LockRefused | AssertionFailed

definition same_binding :: "lease_binding \<Rightarrow> lease_binding \<Rightarrow> bool" where
  "same_binding a b \<longleftrightarrow> lb_sandbox a = lb_sandbox b \<and> lb_key a = lb_key b
     \<and> lb_release_on_last a = lb_release_on_last b"

definition holders :: "lease_state \<Rightarrow> string \<Rightarrow> string set" where
  "holders m s = (case lm_owners m s of None \<Rightarrow> {} | Some os \<Rightarrow> os)"

text \<open>A new frozen object under the owner's id.\<close>

definition put_binding :: "string \<Rightarrow> string \<Rightarrow> thread_key \<Rightarrow> bool \<Rightarrow> lease_state \<Rightarrow> lease_state" where
  "put_binding owner s key park m =
     m\<lparr>lm_bindings := (lm_bindings m)(owner \<mapsto>
         \<lparr>lb_sandbox = s, lb_key = key, lb_release_on_last = park, lb_ref = lm_refs m\<rparr>),
       lm_refs := Suc (lm_refs m)\<rparr>"

section \<open>Critical sections\<close>

definition remove_binding_locked ::
  "string \<Rightarrow> bool \<Rightarrow> lease_state \<Rightarrow> (lease_binding option \<times> bool) \<times> lease_state" where
  "remove_binding_locked owner request_release m =
     (case lm_bindings m owner of
        None \<Rightarrow> ((None, False), m)
      | Some b \<Rightarrow>
          (let s = lb_sandbox b;
               m1 = m\<lparr>lm_bindings := (lm_bindings m)(owner := None)\<rparr>;
               m2 = (if request_release \<and> lb_release_on_last b
                     then m1\<lparr>lm_pending := insert s (lm_pending m1)\<rparr> else m1)
           in (case lm_owners m2 s of
                 None \<Rightarrow> ((Some b, s \<in> lm_pending m2), m2)
               | Some os \<Rightarrow>
                   (if os - {owner} \<noteq> {}
                    then ((Some b, False), m2\<lparr>lm_owners := (lm_owners m2)(s \<mapsto> os - {owner})\<rparr>)
                    else ((Some b, s \<in> lm_pending m2), m2\<lparr>lm_owners := (lm_owners m2)(s := None)\<rparr>)))))"

definition attach_owner :: "string \<Rightarrow> string \<Rightarrow> lease_state \<Rightarrow> lease_state" where
  "attach_owner owner s m = m\<lparr>lm_owners := (lm_owners m)(s \<mapsto> insert owner (holders m s))\<rparr>"

definition bind_locked ::
  "string \<Rightarrow> string \<Rightarrow> thread_key \<Rightarrow> bool \<Rightarrow> lease_state
     \<Rightarrow> (lease_error + lease_binding option \<times> bool) \<times> lease_state" where
  "bind_locked owner s key park m =
     (if lm_teardowns m s \<noteq> None then (Inl (TeardownInProgress s), m)
      else (case lm_bindings m owner of
              Some b \<Rightarrow>
                (if lb_key b \<noteq> key then (Inl (CannotMove owner), m)
                 else if lb_sandbox b = s
                 then (Inr (None, False),
                       if park \<and> \<not> lb_release_on_last b then put_binding owner s key True m else m)
                 else (let (previous, m1) = remove_binding_locked owner True m
                       in (Inr previous, attach_owner owner s (put_binding owner s key park m1))))
            | None \<Rightarrow> (Inr (None, False), attach_owner owner s (put_binding owner s key park m))))"

text \<open>\<^verbatim>\<open>reserve_idle_teardown\<close>: the section before its \<^verbatim>\<open>yield\<close> and the one after it.\<close>

definition reserve :: "nat \<Rightarrow> string \<Rightarrow> lease_state \<Rightarrow> bool \<times> lease_state" where
  "reserve worker s m =
     (let current = lm_teardowns m s;
          granted = (holders m s = {} \<and> (case current of None \<Rightarrow> True | Some c \<Rightarrow> fst c = worker))
      in if \<not> granted then (False, m)
         else (case current of
                 None \<Rightarrow> (True, m\<lparr>lm_observations := (lm_observations m)(s :=
                                map_option (\<lambda>ob. ob\<lparr>ob_revision := Suc (ob_revision ob)\<rparr>) (lm_observations m s)),
                              lm_teardowns := (lm_teardowns m)(s \<mapsto> (worker, 1))\<rparr>)
               | Some c \<Rightarrow> (True, m\<lparr>lm_teardowns := (lm_teardowns m)(s \<mapsto> (worker, Suc (snd c)))\<rparr>)))"

definition unreserve :: "nat \<Rightarrow> string \<Rightarrow> lease_state \<Rightarrow> lease_state" where
  "unreserve worker s m =
     (case lm_teardowns m s of
        None \<Rightarrow> m
      | Some c \<Rightarrow> (if snd c = 1 then m\<lparr>lm_teardowns := (lm_teardowns m)(s := None)\<rparr>
                  else m\<lparr>lm_teardowns := (lm_teardowns m)(s \<mapsto> (worker, snd c - 1))\<rparr>))"

text \<open>
  \<^verbatim>\<open>_observe_client_lifecycle\<close>, likewise. While a reader is inside, the dictionary keeps the object
  that the reader was given, so the readers share the entry under the sandbox's id.
\<close>

definition observe_enter :: "string \<Rightarrow> lease_state \<Rightarrow> (lease_error + nat) \<times> lease_state" where
  "observe_enter s m =
     (if lm_teardowns m s \<noteq> None then (Inl (TeardownInProgress s), m)
      else (let ob = (case lm_observations m s of
                        None \<Rightarrow> \<lparr>ob_revision = 0, ob_readers = 0\<rparr> | Some ob \<Rightarrow> ob)
            in (Inr (ob_revision ob),
                m\<lparr>lm_observations := (lm_observations m)(s \<mapsto> ob\<lparr>ob_readers := Suc (ob_readers ob)\<rparr>)\<rparr>)))"

definition observe_exit :: "string \<Rightarrow> lease_state \<Rightarrow> lease_state" where
  "observe_exit s m =
     (case lm_observations m s of
        None \<Rightarrow> m
      | Some ob \<Rightarrow> m\<lparr>lm_observations := (lm_observations m)(s :=
          (if ob_readers ob - 1 = 0 then None else Some (ob\<lparr>ob_readers := ob_readers ob - 1\<rparr>)))\<rparr>)"

definition revision_of :: "lease_state \<Rightarrow> string \<Rightarrow> nat" where
  "revision_of m s = (case lm_observations m s of None \<Rightarrow> 0 | Some ob \<Rightarrow> ob_revision ob)"

definition bind_observed ::
  "string \<Rightarrow> string \<Rightarrow> thread_key \<Rightarrow> bool \<Rightarrow> nat \<Rightarrow> bool \<Rightarrow> lease_state
     \<Rightarrow> (lease_error + (lease_binding option \<times> bool) option) \<times> lease_state" where
  "bind_observed owner s key park revision present m =
     (if \<not> present \<or> revision_of m s \<noteq> revision then (Inr None, m)
      else (case bind_locked owner s key park m of
              (Inl e, m1) \<Rightarrow> (Inl e, m1)
            | (Inr r, m1) \<Rightarrow> (Inr (Some r), m1)))"

text \<open>The two sections of \<^verbatim>\<open>_active_owner_binding\<close> that change a binding found before.\<close>

definition upgrade_binding :: "string \<Rightarrow> lease_binding \<Rightarrow> lease_state \<Rightarrow> lease_state" where
  "upgrade_binding owner b m =
     (case lm_bindings m owner of
        None \<Rightarrow> m
      | Some c \<Rightarrow> (if same_binding c b then put_binding owner (lb_sandbox b) (lb_key b) True m else m))"

definition drop_stale :: "string \<Rightarrow> lease_binding \<Rightarrow> lease_state \<Rightarrow> lease_state" where
  "drop_stale owner b m =
     (case lm_bindings m owner of
        None \<Rightarrow> m
      | Some c \<Rightarrow> (if same_binding c b then snd (remove_binding_locked owner False m) else m))"

section \<open>Methods as sequences of sections and calls\<close>

datatype request = GetClient string | GetScoped string thread_key | AcquireClient thread_key
  | AcquireClientAsync thread_key | ReleaseClient string | TearDown string
  | ReleaseScope string string | CancelScope string string | AwaitDrained

datatype answer = Raised | Client bool | Acquired string | CancelledLate "string option" | Returned
  | WasCancelled

datatype lease_prog =
    Finish "lease_error + string option"
  | Atomic "lease_state \<Rightarrow> lease_state" "lease_state \<Rightarrow> lease_prog"
  | Ask request "answer \<Rightarrow> lease_prog"
  | Lock thread_key lease_prog lease_prog
  | Unlock thread_key lease_prog

text \<open>One section under the metadata lock, whose result the rest of the method sees.\<close>

definition metadata :: "(lease_state \<Rightarrow> 'a \<times> lease_state) \<Rightarrow> ('a \<Rightarrow> lease_prog) \<Rightarrow> lease_prog" where
  "metadata f k = Atomic (\<lambda>m. snd (f m)) (\<lambda>m. k (fst (f m)))"

definition change :: "(lease_state \<Rightarrow> lease_state) \<Rightarrow> lease_prog \<Rightarrow> lease_prog" where
  "change f k = Atomic f (\<lambda>_. k)"

text \<open>
  \<^verbatim>\<open>with self._serializer.hold(key)\<close>, left on every path. Entering it is refused when the serializer is
  closed or, in the asynchronous form, when the wait is cancelled.
\<close>

definition holding_key :: "thread_key \<Rightarrow> 'a \<Rightarrow> (('a \<Rightarrow> lease_prog) \<Rightarrow> lease_prog) \<Rightarrow> ('a \<Rightarrow> lease_prog) \<Rightarrow> lease_prog" where
  "holding_key key refused body k = Lock key (k refused) (body (\<lambda>r. Unlock key (k r)))"

definition with_reservation ::
  "nat \<Rightarrow> string \<Rightarrow> (bool \<Rightarrow> ('a \<Rightarrow> lease_prog) \<Rightarrow> lease_prog) \<Rightarrow> ('a \<Rightarrow> lease_prog) \<Rightarrow> lease_prog" where
  "with_reservation worker s body k = metadata (reserve worker s) (\<lambda>granted.
     body granted (\<lambda>r. if granted then change (unreserve worker s) (k r) else k r))"

definition observing ::
  "string \<Rightarrow> (nat \<Rightarrow> (lease_error + 'a \<Rightarrow> lease_prog) \<Rightarrow> lease_prog) \<Rightarrow> (lease_error + 'a \<Rightarrow> lease_prog) \<Rightarrow> lease_prog" where
  "observing s body k = metadata (observe_enter s) (\<lambda>r. case r of
       Inl e \<Rightarrow> k (Inl e)
     | Inr revision \<Rightarrow> body revision (\<lambda>r. change (observe_exit s) (k r)))"

definition bind_live_client ::
  "string \<Rightarrow> string \<Rightarrow> thread_key \<Rightarrow> bool \<Rightarrow> bool
     \<Rightarrow> (lease_error + (lease_binding option \<times> bool) option \<Rightarrow> lease_prog) \<Rightarrow> lease_prog" where
  "bind_live_client owner s key park unscoped k = observing s (\<lambda>revision k'.
     Ask (if unscoped then GetClient s else GetScoped s key) (\<lambda>a. case a of
         Client present \<Rightarrow> metadata (bind_observed owner s key park revision present) k'
       | _ \<Rightarrow> k' (Inl ProviderFailed))) k"

definition release_if_idle :: "nat \<Rightarrow> string \<Rightarrow> (lease_error option \<Rightarrow> lease_prog) \<Rightarrow> lease_prog" where
  "release_if_idle worker s k = with_reservation worker s (\<lambda>reserved k'.
     if \<not> reserved then k' None
     else change (\<lambda>m. m\<lparr>lm_pending := lm_pending m - {s}\<rparr>)
       (Ask (ReleaseClient s) (\<lambda>a. k' (if a = Raised then Some ProviderFailed else None)))) k"

definition release_unbound_acquire :: "nat \<Rightarrow> string \<Rightarrow> (lease_error option \<Rightarrow> lease_prog) \<Rightarrow> lease_prog" where
  "release_unbound_acquire worker s k =
     change (\<lambda>m. m\<lparr>lm_pending := insert s (lm_pending m)\<rparr>) (release_if_idle worker s k)"

definition active_owner_binding ::
  "string \<Rightarrow> thread_key \<Rightarrow> bool \<Rightarrow> (lease_error + string option \<Rightarrow> lease_prog) \<Rightarrow> lease_prog" where
  "active_owner_binding owner key park k = metadata (\<lambda>m. (lm_bindings m owner, m)) (\<lambda>existing. case existing of
       None \<Rightarrow> k (Inr None)
     | Some b \<Rightarrow> (if lb_key b \<noteq> key then k (Inl (CannotMove owner))
         else Ask (GetClient (lb_sandbox b)) (\<lambda>a. case a of
             Client True \<Rightarrow> (if park \<and> \<not> lb_release_on_last b
               then change (upgrade_binding owner b) (k (Inr (Some (lb_sandbox b))))
               else k (Inr (Some (lb_sandbox b))))
           | Client False \<Rightarrow> change (drop_stale owner b) (k (Inr None))
           | _ \<Rightarrow> k (Inl ProviderFailed))))"

text \<open>What follows a successful bind: the client the owner held before may have to be parked.\<close>

definition after_bind ::
  "nat \<Rightarrow> lease_binding option \<times> bool \<Rightarrow> (lease_error option \<Rightarrow> lease_prog) \<Rightarrow> lease_prog" where
  "after_bind worker r k = (case r of (Some previous, True) \<Rightarrow> release_if_idle worker (lb_sandbox previous) k
     | _ \<Rightarrow> k None)"

text \<open>
  \<^verbatim>\<open>run_sync_lifecycle_operation\<close>: the operation runs to its end on a worker even when its awaiter is
  cancelled; the cancellation then replaces its outcome.
\<close>

definition run_sync_lifecycle ::
  "((lease_error option \<Rightarrow> lease_prog) \<Rightarrow> lease_prog) \<Rightarrow> (lease_error option \<Rightarrow> lease_prog) \<Rightarrow> lease_prog" where
  "run_sync_lifecycle body k = body (\<lambda>r. Ask AwaitDrained (\<lambda>a. k (if a = WasCancelled then Some TaskCancelled else r)))"

definition after_bind_async ::
  "nat \<Rightarrow> lease_binding option \<times> bool \<Rightarrow> (lease_error option \<Rightarrow> lease_prog) \<Rightarrow> lease_prog" where
  "after_bind_async worker r k = (case r of (Some previous, True) \<Rightarrow>
       run_sync_lifecycle (release_if_idle worker (lb_sandbox previous)) k
     | _ \<Rightarrow> k None)"

definition or_else :: "lease_error option \<Rightarrow> 'a \<Rightarrow> lease_error + 'a" where
  "or_else e x = (case e of None \<Rightarrow> Inr x | Some e \<Rightarrow> Inl e)"

definition first_error :: "lease_error option \<Rightarrow> lease_error \<Rightarrow> lease_error" where
  "first_error e d = (case e of None \<Rightarrow> d | Some e \<Rightarrow> e)"

definition acquire_and_bind ::
  "nat \<Rightarrow> string \<Rightarrow> thread_key \<Rightarrow> bool \<Rightarrow> (lease_error + string \<Rightarrow> lease_prog) \<Rightarrow> lease_prog" where
  "acquire_and_bind worker owner key park k = Ask (AcquireClient key) (\<lambda>a. case a of
       Acquired s \<Rightarrow> bind_live_client owner s key park True (\<lambda>r. case r of
           Inl e \<Rightarrow> release_unbound_acquire worker s (\<lambda>e'. k (Inl (first_error e' e)))
         | Inr None \<Rightarrow> release_unbound_acquire worker s (\<lambda>e'. k (Inl (first_error e' (ClientUnavailable s))))
         | Inr (Some b) \<Rightarrow> after_bind worker b (\<lambda>e. k (or_else e s)))
     | _ \<Rightarrow> k (Inl ProviderFailed))"

definition acquire_and_bind_async ::
  "nat \<Rightarrow> string \<Rightarrow> thread_key \<Rightarrow> bool \<Rightarrow> (lease_error + string \<Rightarrow> lease_prog) \<Rightarrow> lease_prog" where
  "acquire_and_bind_async worker owner key park k = Ask (AcquireClientAsync key) (\<lambda>a. case a of
       Acquired s \<Rightarrow> bind_live_client owner s key park True (\<lambda>r. case r of
           Inl e \<Rightarrow> run_sync_lifecycle (release_unbound_acquire worker s) (\<lambda>e'. k (Inl (first_error e' e)))
         | Inr None \<Rightarrow> run_sync_lifecycle (release_unbound_acquire worker s)
             (\<lambda>e'. k (Inl (first_error e' (ClientUnavailable s))))
         | Inr (Some b) \<Rightarrow> after_bind_async worker b (\<lambda>e. k (or_else e s)))
     | CancelledLate (Some s) \<Rightarrow> release_unbound_acquire worker s (\<lambda>_. k (Inl TaskCancelled))
     | CancelledLate None \<Rightarrow> k (Inl TaskCancelled)
     | _ \<Rightarrow> k (Inl ProviderFailed))"

section \<open>The methods\<close>

definition lease_retain ::
  "nat \<Rightarrow> string \<Rightarrow> string \<Rightarrow> thread_key \<Rightarrow> bool \<Rightarrow> (lease_error option \<Rightarrow> lease_prog) \<Rightarrow> lease_prog" where
  "lease_retain worker owner s key park = holding_key key (Some LockRefused) (\<lambda>k.
     metadata (bind_locked owner s key park) (\<lambda>r. case r of
         Inl e \<Rightarrow> k (Some e) | Inr b \<Rightarrow> after_bind worker b k))"

definition lease_retain_async ::
  "nat \<Rightarrow> string \<Rightarrow> string \<Rightarrow> thread_key \<Rightarrow> bool \<Rightarrow> (lease_error option \<Rightarrow> lease_prog) \<Rightarrow> lease_prog" where
  "lease_retain_async worker owner s key park = holding_key key (Some LockRefused) (\<lambda>k.
     metadata (bind_locked owner s key park) (\<lambda>r. case r of
         Inl e \<Rightarrow> k (Some e) | Inr b \<Rightarrow> after_bind_async worker b k))"

definition lease_acquire ::
  "nat \<Rightarrow> string \<Rightarrow> thread_key \<Rightarrow> bool \<Rightarrow> (lease_error + string \<Rightarrow> lease_prog) \<Rightarrow> lease_prog" where
  "lease_acquire worker owner key park = holding_key key (Inl LockRefused) (\<lambda>k.
     active_owner_binding owner key park (\<lambda>r. case r of
         Inl e \<Rightarrow> k (Inl e)
       | Inr (Some s) \<Rightarrow> k (Inr s)
       | Inr None \<Rightarrow> acquire_and_bind worker owner key park k))"

definition lease_acquire_async ::
  "nat \<Rightarrow> string \<Rightarrow> thread_key \<Rightarrow> bool \<Rightarrow> (lease_error + string \<Rightarrow> lease_prog) \<Rightarrow> lease_prog" where
  "lease_acquire_async worker owner key park = holding_key key (Inl LockRefused) (\<lambda>k.
     active_owner_binding owner key park (\<lambda>r. case r of
         Inl e \<Rightarrow> k (Inl e)
       | Inr (Some s) \<Rightarrow> k (Inr s)
       | Inr None \<Rightarrow> acquire_and_bind_async worker owner key park k))"

definition reuse_or_acquire ::
  "nat \<Rightarrow> string \<Rightarrow> string \<Rightarrow> thread_key \<Rightarrow> bool \<Rightarrow> bool \<Rightarrow> bool
     \<Rightarrow> (lease_error + string \<Rightarrow> lease_prog) \<Rightarrow> lease_prog" where
  "reuse_or_acquire worker owner s key park acquire_park unscoped = holding_key key (Inl LockRefused) (\<lambda>k.
     active_owner_binding owner key park (\<lambda>r. case r of
         Inl e \<Rightarrow> k (Inl e)
       | Inr (Some t) \<Rightarrow> k (Inr t)
       | Inr None \<Rightarrow> bind_live_client owner s key park unscoped (\<lambda>r. case r of
             Inl e \<Rightarrow> k (Inl e)
           | Inr (Some b) \<Rightarrow> after_bind worker b (\<lambda>e. k (or_else e s))
           | Inr None \<Rightarrow> acquire_and_bind worker owner key acquire_park k)))"

definition reuse_or_acquire_async ::
  "nat \<Rightarrow> string \<Rightarrow> string \<Rightarrow> thread_key \<Rightarrow> bool \<Rightarrow> bool \<Rightarrow> bool
     \<Rightarrow> (lease_error + string \<Rightarrow> lease_prog) \<Rightarrow> lease_prog" where
  "reuse_or_acquire_async worker owner s key park acquire_park unscoped = holding_key key (Inl LockRefused) (\<lambda>k.
     active_owner_binding owner key park (\<lambda>r. case r of
         Inl e \<Rightarrow> k (Inl e)
       | Inr (Some t) \<Rightarrow> k (Inr t)
       | Inr None \<Rightarrow> bind_live_client owner s key park unscoped (\<lambda>r. case r of
             Inl e \<Rightarrow> k (Inl e)
           | Inr (Some b) \<Rightarrow> after_bind_async worker b (\<lambda>e. k (or_else e s))
           | Inr None \<Rightarrow> acquire_and_bind_async worker owner key acquire_park k)))"

text \<open>
  \<^verbatim>\<open>cancel\<close> acts only when the very binding found before the serializer was entered is still there.
  \<open>has_scopes\<close> says whether the client has the method \<^verbatim>\<open>cancel_command_scope\<close>.
\<close>

definition lease_cancel ::
  "bool \<Rightarrow> string \<Rightarrow> bool \<Rightarrow> (lease_error option \<Rightarrow> lease_prog) \<Rightarrow> lease_prog" where
  "lease_cancel has_scopes owner reset k = metadata (\<lambda>m. (lm_bindings m owner, m)) (\<lambda>found. case found of
       None \<Rightarrow> k None
     | Some b \<Rightarrow> holding_key (lb_key b) (Some LockRefused) (\<lambda>k.
         metadata (\<lambda>m. (lm_bindings m owner, m)) (\<lambda>now.
           if map_option lb_ref now \<noteq> Some (lb_ref b) then k None
           else Ask (GetClient (lb_sandbox b)) (\<lambda>a. case a of
               Client True \<Rightarrow>
                 (let reset_scope = (if reset then Ask (ReleaseScope (lb_sandbox b) owner)
                        (\<lambda>a. k (if a = Raised then Some ProviderFailed else None)) else k None)
                  in if has_scopes then Ask (CancelScope (lb_sandbox b) owner)
                       (\<lambda>a. if a = Raised then k (Some ProviderFailed) else reset_scope)
                     else reset_scope)
             | Client False \<Rightarrow> k (Some (NotFound (lb_sandbox b)))
             | _ \<Rightarrow> k (Some ProviderFailed)))) k)"

definition lease_cancel_async ::
  "bool \<Rightarrow> string \<Rightarrow> bool \<Rightarrow> (lease_error option \<Rightarrow> lease_prog) \<Rightarrow> lease_prog" where
  "lease_cancel_async has_scopes owner reset = run_sync_lifecycle (lease_cancel has_scopes owner reset)"

text \<open>The \<^verbatim>\<open>finally\<close> of \<^verbatim>\<open>release\<close>: \<open>e\<close> is the exception in flight, which a later one replaces.\<close>

definition drop_holder ::
  "nat \<Rightarrow> string \<Rightarrow> lease_error option \<Rightarrow> (lease_error option \<Rightarrow> lease_prog) \<Rightarrow> lease_prog" where
  "drop_holder worker owner e k = metadata (remove_binding_locked owner True) (\<lambda>r. case r of
       (Some b, True) \<Rightarrow> release_if_idle worker (lb_sandbox b) (\<lambda>e'. k (if e' = None then e else e'))
     | (None, True) \<Rightarrow> k (Some AssertionFailed)
     | _ \<Rightarrow> k e)"

definition lease_release ::
  "nat \<Rightarrow> string \<Rightarrow> (lease_error option \<Rightarrow> lease_prog) \<Rightarrow> lease_prog" where
  "lease_release worker owner k = metadata (\<lambda>m. (lm_bindings m owner, m)) (\<lambda>found. case found of
       None \<Rightarrow> k None
     | Some b0 \<Rightarrow> holding_key (lb_key b0) (Some LockRefused) (\<lambda>k.
         metadata (\<lambda>m. (lm_bindings m owner, m)) (\<lambda>current. case current of
             None \<Rightarrow> k None
           | Some b \<Rightarrow> Ask (GetClient (lb_sandbox b)) (\<lambda>a. case a of
                 Client True \<Rightarrow> Ask (ReleaseScope (lb_sandbox b) owner)
                   (\<lambda>a. drop_holder worker owner (if a = Raised then Some ProviderFailed else None) k)
               | Client False \<Rightarrow> drop_holder worker owner None k
               | _ \<Rightarrow> drop_holder worker owner (Some ProviderFailed) k))) k)"

definition lease_release_async ::
  "nat \<Rightarrow> string \<Rightarrow> (lease_error option \<Rightarrow> lease_prog) \<Rightarrow> lease_prog" where
  "lease_release_async worker owner = run_sync_lifecycle (lease_release worker owner)"

text \<open>
  \<^verbatim>\<open>acquire_sandbox_client_lease\<close>, under a fresh owner id; the lookup of the client happens outside
  the serializer, under the holder just bound.
\<close>

definition acquire_client_lease ::
  "nat \<Rightarrow> string \<Rightarrow> thread_key \<Rightarrow> bool \<Rightarrow> (lease_error + string \<Rightarrow> lease_prog) \<Rightarrow> lease_prog" where
  "acquire_client_lease worker owner key park k = lease_acquire_async worker owner key park (\<lambda>r. case r of
       Inl e \<Rightarrow> k (Inl e)
     | Inr s \<Rightarrow> Ask (GetClient s) (\<lambda>a. case a of
           Client _ \<Rightarrow> k (Inr s)
         | _ \<Rightarrow> lease_release_async worker owner (\<lambda>e. k (Inl (first_error e ProviderFailed)))))"

text \<open>\<^verbatim>\<open>SandboxClientLease.release\<close>: the first call drops the holder, later ones find no owner id.\<close>

definition release_client_lease ::
  "nat \<Rightarrow> string option \<Rightarrow> (string option \<times> lease_error option \<Rightarrow> lease_prog) \<Rightarrow> lease_prog" where
  "release_client_lease worker owner k = (case owner of
       None \<Rightarrow> k (None, None)
     | Some w \<Rightarrow> lease_release_async worker w (\<lambda>e. k (None, e)))"

text \<open>The provider's own cleanup of an idle client, between the two halves of a reservation.\<close>

definition provider_cleanup :: "nat \<Rightarrow> string \<Rightarrow> lease_prog \<Rightarrow> lease_prog" where
  "provider_cleanup worker s p = with_reservation worker s
     (\<lambda>reserved k. if reserved then Ask (TearDown s) (\<lambda>_. k ()) else k ()) (\<lambda>_. p)"

section \<open>Runtime contexts\<close>

text \<open>
  The owner id and the sandbox id travel in the runtime context, a dictionary that the caller may also
  fill; \<open>fresh\<close> is the \<^verbatim>\<open>uuid4\<close> drawn.
\<close>

definition context_text :: "pyval \<Rightarrow> string \<Rightarrow> string option" where
  "context_text context key = (case context of
       VDict d \<Rightarrow> (case od_get d key of Some (VStr s) \<Rightarrow> (if s \<noteq> [] then Some s else None) | _ \<Rightarrow> None)
     | _ \<Rightarrow> None)"

definition sandbox_lease_owner :: "pyval \<Rightarrow> string option" where
  "sandbox_lease_owner context = context_text context ''sandbox_lease_owner_id''"

definition sandbox_command_scope :: "pyval \<Rightarrow> string option" where
  "sandbox_command_scope context = context_text context ''sandbox_command_scope_id''"

definition ensure_sandbox_lease_owner :: "string \<Rightarrow> pyval \<Rightarrow> string option \<times> pyval" where
  "ensure_sandbox_lease_owner fresh context = (case context of
       VDict d \<Rightarrow> (case sandbox_lease_owner context of
           Some owner \<Rightarrow> (Some owner, context)
         | None \<Rightarrow> (Some (''agent:'' @ fresh), VDict (od_set ''sandbox_lease_owner_id'' (VStr (''agent:'' @ fresh)) d)))
     | _ \<Rightarrow> (None, context))"

definition sandbox_execution_lease :: "pyval \<Rightarrow> (string \<times> string) option" where
  "sandbox_execution_lease context = (case sandbox_lease_owner context of
       None \<Rightarrow> None
     | Some owner \<Rightarrow> map_option (Pair owner) (context_text context ''sandbox_id''))"

definition release_sandbox_execution_lease :: "nat \<Rightarrow> pyval \<Rightarrow> (lease_error option \<Rightarrow> lease_prog) \<Rightarrow> lease_prog" where
  "release_sandbox_execution_lease worker context k = (case sandbox_execution_lease context of
       None \<Rightarrow> k None | Some (owner, s) \<Rightarrow> lease_release worker owner k)"

definition cancel_sandbox_execution_lease_async ::
  "bool \<Rightarrow> pyval \<Rightarrow> bool \<Rightarrow> (lease_error option \<Rightarrow> lease_prog) \<Rightarrow> lease_prog" where
  "cancel_sandbox_execution_lease_async has_scopes context reset k = (case sandbox_execution_lease context of
       None \<Rightarrow> k None | Some (owner, s) \<Rightarrow> lease_cancel_async has_scopes owner reset k)"

text \<open>\<open>closing\<close> drains speculative work first; whatever it raises, the execution's lease is released.\<close>

definition release_sandbox_execution_lease_async ::
  "((lease_error option \<Rightarrow> lease_prog) \<Rightarrow> lease_prog) \<Rightarrow> nat \<Rightarrow> pyval \<Rightarrow> (lease_error option \<Rightarrow> lease_prog) \<Rightarrow> lease_prog" where
  "release_sandbox_execution_lease_async closing worker context k = closing (\<lambda>e.
     case sandbox_execution_lease context of
       None \<Rightarrow> k e
     | Some (owner, s) \<Rightarrow> lease_release_async worker owner (\<lambda>e'. k (if e' = None then e else e')))"

section \<open>The registry of managers\<close>

text \<open>
  \<^verbatim>\<open>_managers\<close> is keyed by the address of the provider and keeps the provider itself; providers and managers
  are objects, named by numbers, and \<open>address\<close> is \<^verbatim>\<open>id\<close>.
\<close>

record registry =
  rg_managers :: "nat \<Rightarrow> (nat \<times> nat) option"
  rg_next :: nat

definition get_sandbox_lease_manager :: "(nat \<Rightarrow> nat) \<Rightarrow> nat \<Rightarrow> registry \<Rightarrow> nat \<times> registry" where
  "get_sandbox_lease_manager address provider g = (case rg_managers g (address provider) of
       Some (p, manager) \<Rightarrow> (if p = provider then (manager, g)
         else (rg_next g, g\<lparr>rg_managers := (rg_managers g)(address provider \<mapsto> (provider, rg_next g)), rg_next := Suc (rg_next g)\<rparr>))
     | None \<Rightarrow> (rg_next g, g\<lparr>rg_managers := (rg_managers g)(address provider \<mapsto> (provider, rg_next g)), rg_next := Suc (rg_next g)\<rparr>))"

text \<open>The manager that is detached must be closed; \<open>None\<close> when the provider has none.\<close>

definition discard_sandbox_lease_manager :: "(nat \<Rightarrow> nat) \<Rightarrow> nat \<Rightarrow> registry \<Rightarrow> nat option \<times> registry" where
  "discard_sandbox_lease_manager address provider g = (case rg_managers g (address provider) of
       Some (p, manager) \<Rightarrow> (if p = provider then (Some manager, g\<lparr>rg_managers := (rg_managers g)(address provider := None)\<rparr>)
         else (None, g))
     | None \<Rightarrow> (None, g))"

lemma manager_is_stable:
  "get_sandbox_lease_manager address p g = (n, g') \<Longrightarrow> get_sandbox_lease_manager address p g' = (n, g')"
  by (auto simp: get_sandbox_lease_manager_def split: option.splits prod.splits if_splits)

section \<open>Running methods together\<close>

text \<open>The methods, each ending with what it hands to its caller.\<close>

definition answer_unit :: "lease_error option \<Rightarrow> lease_prog" where
  "answer_unit e = Finish (or_else e None)"

definition answer_id :: "lease_error + string \<Rightarrow> lease_prog" where
  "answer_id r = Finish (case r of Inl e \<Rightarrow> Inl e | Inr s \<Rightarrow> Inr (Some s))"

datatype lease_call =
    Retain bool string string thread_key bool
  | Acquire bool string thread_key bool
  | ReuseOrAcquire bool string string thread_key bool bool bool
  | Cancel bool bool string bool
  | Release bool string
  | AcquireClientLease string thread_key bool
  | ReleaseClientLease "string option"
  | CleanUp string

fun lease_program :: "nat \<Rightarrow> lease_call \<Rightarrow> lease_prog" where
  "lease_program w (Retain is_async owner s key park) =
     (if is_async then lease_retain_async w owner s key park answer_unit else lease_retain w owner s key park answer_unit)"
| "lease_program w (Acquire is_async owner key park) =
     (if is_async then lease_acquire_async w owner key park answer_id else lease_acquire w owner key park answer_id)"
| "lease_program w (ReuseOrAcquire is_async owner s key park acquire_park unscoped) =
     (if is_async then reuse_or_acquire_async w owner s key park acquire_park unscoped answer_id
      else reuse_or_acquire w owner s key park acquire_park unscoped answer_id)"
| "lease_program w (Cancel is_async has_scopes owner reset) =
     (if is_async then lease_cancel_async has_scopes owner reset answer_unit
      else lease_cancel has_scopes owner reset answer_unit)"
| "lease_program w (Release is_async owner) =
     (if is_async then lease_release_async w owner answer_unit else lease_release w owner answer_unit)"
| "lease_program w (AcquireClientLease owner key park) = acquire_client_lease w owner key park answer_id"
| "lease_program w (ReleaseClientLease lease) = release_client_lease w lease (\<lambda>r. answer_unit (snd r))"
| "lease_program w (CleanUp s) = provider_cleanup w s (answer_unit None)"

fun answers :: "request \<Rightarrow> answer \<Rightarrow> bool" where
  "answers (GetClient s) a = (case a of Raised \<Rightarrow> True | Client _ \<Rightarrow> True | _ \<Rightarrow> False)"
| "answers (GetScoped s key) a = (case a of Raised \<Rightarrow> True | Client _ \<Rightarrow> True | _ \<Rightarrow> False)"
| "answers (AcquireClient key) a = (case a of Raised \<Rightarrow> True | Acquired _ \<Rightarrow> True | _ \<Rightarrow> False)"
| "answers (AcquireClientAsync key) a =
     (case a of Raised \<Rightarrow> True | Acquired _ \<Rightarrow> True | CancelledLate _ \<Rightarrow> True | _ \<Rightarrow> False)"
| "answers AwaitDrained a = (case a of Returned \<Rightarrow> True | WasCancelled \<Rightarrow> True | _ \<Rightarrow> False)"
| "answers _ a = (case a of Raised \<Rightarrow> True | Returned \<Rightarrow> True | _ \<Rightarrow> False)"

text \<open>
  A system of workers: any number of methods run interleaved, section by section. While the provider
  works on a call, it may clean up any client on the same worker; cleanups by other workers are
  methods of their own. The trace lists the critical sections that were run, newest first.
\<close>

record lease_system =
  sy_state :: lease_state
  sy_workers :: "nat \<Rightarrow> lease_prog option"
  sy_held :: "thread_key \<Rightarrow> nat option"
  sy_trace :: "(nat \<times> lease_state \<times> lease_state) list"

definition idle_system :: lease_system where
  "idle_system = \<lparr>sy_state = new_leases, sy_workers = Map.empty, sy_held = Map.empty, sy_trace = []\<rparr>"

inductive lease_system_step :: "lease_system \<Rightarrow> lease_system \<Rightarrow> bool" where
  start: "sy_workers y w = None
    \<Longrightarrow> lease_system_step y (y\<lparr>sy_workers := (sy_workers y)(w \<mapsto> lease_program w c)\<rparr>)"
| section_run: "sy_workers y w = Some (Atomic f k)
    \<Longrightarrow> lease_system_step y (y\<lparr>sy_state := f (sy_state y), sy_workers := (sy_workers y)(w \<mapsto> k (sy_state y)),
          sy_trace := (w, sy_state y, f (sy_state y)) # sy_trace y\<rparr>)"
| answered: "sy_workers y w = Some (Ask q k) \<Longrightarrow> answers q a
    \<Longrightarrow> lease_system_step y (y\<lparr>sy_workers := (sy_workers y)(w \<mapsto> k a)\<rparr>)"
| cleanup: "sy_workers y w = Some (Ask q k)
    \<Longrightarrow> lease_system_step y (y\<lparr>sy_workers := (sy_workers y)(w \<mapsto> provider_cleanup w s (Ask q k))\<rparr>)"
| locked: "sy_workers y w = Some (Lock key p q) \<Longrightarrow> sy_held y key = None
    \<Longrightarrow> lease_system_step y (y\<lparr>sy_workers := (sy_workers y)(w \<mapsto> q), sy_held := (sy_held y)(key \<mapsto> w)\<rparr>)"
| refused: "sy_workers y w = Some (Lock key p q)
    \<Longrightarrow> lease_system_step y (y\<lparr>sy_workers := (sy_workers y)(w \<mapsto> p)\<rparr>)"
| unlocked: "sy_workers y w = Some (Unlock key p)
    \<Longrightarrow> lease_system_step y (y\<lparr>sy_workers := (sy_workers y)(w \<mapsto> p), sy_held := (sy_held y)(key := None)\<rparr>)"

inductive lease_run :: "lease_system \<Rightarrow> bool" where
  begin_run: "lease_run idle_system"
| step_run: "lease_run y \<Longrightarrow> lease_system_step y y' \<Longrightarrow> lease_run y'"

end
