(* ===== verification/LeaseProofs.thy ===== *)
theory LeaseProofs
  imports SandboxLease
begin

text \<open>
  However the methods, the provider's cleanups and cancellations interleave, a client is parked or torn
  down only while nobody holds it, a holder is only bound to a client that was looked up since the last
  teardown, and every method gives undone its reservations, its observations and its lock.

  The argument is one of rely and guarantee: \<open>safe\<close> says of a program what each of its sections
  guarantees from any state that the others may have left, and the combinators preserve it.
\<close>

section \<open>The invariant of the dictionaries\<close>

definition lease_ok :: "lease_state \<Rightarrow> bool" where
  "lease_ok m \<longleftrightarrow> (\<forall>s c. lm_teardowns m s = Some c \<longrightarrow> holders m s = {} \<and> 0 < snd c)
     \<and> (\<forall>s owner. owner \<in> holders m s \<longleftrightarrow> (\<exists>b. lm_bindings m owner = Some b \<and> lb_sandbox b = s))
     \<and> (\<forall>s. lm_owners m s \<noteq> Some {})
     \<and> (\<forall>s ob. lm_observations m s = Some ob \<longrightarrow> 0 < ob_readers ob)"

definition depths :: "nat \<Rightarrow> lease_state \<Rightarrow> string \<Rightarrow> nat" where
  "depths w m s = (case lm_teardowns m s of None \<Rightarrow> 0 | Some c \<Rightarrow> if fst c = w then snd c else 0)"

definition readers :: "lease_state \<Rightarrow> string \<Rightarrow> nat" where
  "readers m s = (case lm_observations m s of None \<Rightarrow> 0 | Some ob \<Rightarrow> ob_readers ob)"

definition torn :: "string \<Rightarrow> lease_state \<Rightarrow> lease_state \<Rightarrow> bool" where
  "torn s m m' \<longleftrightarrow> lm_teardowns m s = None \<and> lm_teardowns m' s \<noteq> None"

definition bound :: "string \<Rightarrow> lease_state \<Rightarrow> lease_state \<Rightarrow> bool" where
  "bound s m m' \<longleftrightarrow> \<not> holders m' s \<subseteq> holders m s"

lemma lease_okD:
  assumes "lease_ok m"
  shows "lm_teardowns m s = Some c \<Longrightarrow> holders m s = {}" "lm_teardowns m s = Some c \<Longrightarrow> 0 < snd c"
    "lm_bindings m owner = Some b \<Longrightarrow> owner \<in> holders m (lb_sandbox b)"
    "owner \<in> holders m s \<Longrightarrow> \<exists>b. lm_bindings m owner = Some b \<and> lb_sandbox b = s"
    "lm_owners m s \<noteq> Some {}" "lm_observations m s = Some ob \<Longrightarrow> 0 < ob_readers ob"
  using assms unfolding lease_ok_def by (blast, blast, blast, blast, blast, blast)

lemma holders_owner:
  assumes "lease_ok m"
  shows "owner \<in> holders m s \<longleftrightarrow> (\<exists>b. lm_bindings m owner = Some b \<and> lb_sandbox b = s)"
  using assms unfolding lease_ok_def by blast

text \<open>Sections that leave reservations and observations alone.\<close>

definition settled_frame :: "lease_state \<Rightarrow> lease_state \<Rightarrow> bool" where
  "settled_frame m m' \<longleftrightarrow> lease_ok m' \<and> lm_teardowns m' = lm_teardowns m \<and> lm_observations m' = lm_observations m"

lemma remove_binding_frame:
  assumes ok: "lease_ok m"
  shows "settled_frame m (snd (remove_binding_locked owner q m))"
    "lm_bindings (snd (remove_binding_locked owner q m)) = (lm_bindings m)(owner := None)"
    "holders (snd (remove_binding_locked owner q m)) s = holders m s - {owner}"
proof -
  let ?m = "snd (remove_binding_locked owner q m)"
  have parts: "lm_teardowns ?m = lm_teardowns m" "lm_observations ?m = lm_observations m"
    by (simp_all add: remove_binding_locked_def Let_def split: option.split)
  show b: "lm_bindings ?m = (lm_bindings m)(owner := None)"
    by (cases "lm_bindings m owner") (auto simp: remove_binding_locked_def Let_def fun_upd_idem split: option.split)
  have h: "holders ?m s = holders m s - {owner}" for s
  proof (cases "lm_bindings m owner")
    case None
    then have "owner \<notin> holders m s" using holders_owner [OF ok] by simp
    then show ?thesis using None by (simp add: remove_binding_locked_def)
  next
    case (Some b)
    have "owner \<in> holders m s \<longleftrightarrow> lb_sandbox b = s" using holders_owner [OF ok] Some by simp
    then show ?thesis using Some lease_okD(3) [OF ok Some]
      by (auto simp: remove_binding_locked_def Let_def holders_def split: option.splits)
  qed
  then show "holders ?m s = holders m s - {owner}" .
  have "lm_owners ?m s \<noteq> Some {}" for s
    using lease_okD(5) [OF ok] by (auto simp: remove_binding_locked_def Let_def split: option.split)
  then show "settled_frame m ?m"
    using ok unfolding settled_frame_def lease_ok_def parts b h by auto
qed

lemma put_same_frame:
  assumes ok: "lease_ok m" and b: "lm_bindings m owner = Some b" "lb_sandbox b = s"
  shows "settled_frame m (put_binding owner s key park m)" "holders (put_binding owner s key park m) t = holders m t"
proof -
  have h: "holders (put_binding owner s key park m) t = holders m t" for t
    by (simp add: put_binding_def holders_def)
  then show "holders (put_binding owner s key park m) t = holders m t" .
  have "owner' \<in> holders m t \<longleftrightarrow> (\<exists>c. lm_bindings (put_binding owner s key park m) owner' = Some c \<and> lb_sandbox c = t)"
    for t owner' using holders_owner [OF ok, of owner' t] b by (auto simp: put_binding_def)
  then show "settled_frame m (put_binding owner s key park m)"
    using ok unfolding settled_frame_def lease_ok_def h by (simp add: put_binding_def)
qed

lemma attach_frame:
  fixes key park
  assumes ok: "lease_ok m" and free: "lm_teardowns m s = None" "lm_bindings m owner = None"
  defines "m' \<equiv> attach_owner owner s (put_binding owner s key park m)"
  shows "settled_frame m m'" "holders m' t = (if t = s then insert owner (holders m s) else holders m t)"
proof -
  have h: "holders m' t = (if t = s then insert owner (holders m s) else holders m t)" for t
    by (simp add: m'_def attach_owner_def put_binding_def holders_def)
  then show "holders m' t = (if t = s then insert owner (holders m s) else holders m t)" .
  have "owner \<notin> holders m t" for t using holders_owner [OF ok] free(2) by simp
  then have own: "owner' \<in> holders m' t \<longleftrightarrow> (\<exists>c. lm_bindings m' owner' = Some c \<and> lb_sandbox c = t)" for t owner'
    using holders_owner [OF ok, of owner' t] unfolding h by (auto simp: m'_def attach_owner_def put_binding_def)
  have parts: "lm_teardowns m' = lm_teardowns m" "lm_observations m' = lm_observations m" "\<And>t. lm_owners m' t \<noteq> Some {}"
    using lease_okD(5) [OF ok] by (simp_all add: m'_def attach_owner_def put_binding_def)
  have "lm_teardowns m t = Some c \<Longrightarrow> holders m' t = {} \<and> 0 < snd c" for t c
    using lease_okD(1,2) [OF ok] free(1) unfolding h by auto
  then show "settled_frame m m'"
    using own parts lease_okD(6) [OF ok] unfolding settled_frame_def lease_ok_def by simp
qed

lemma settled_frame_trans: "settled_frame m m1 \<Longrightarrow> settled_frame m1 m2 \<Longrightarrow> settled_frame m m2"
  by (simp add: settled_frame_def)

lemma settled_frame_refl: "lease_ok m \<Longrightarrow> settled_frame m m"
  by (simp add: settled_frame_def)

lemma bind_frame:
  assumes ok: "lease_ok m"
  shows "settled_frame m (snd (bind_locked owner s key park m))"
    "t \<noteq> s \<Longrightarrow> holders (snd (bind_locked owner s key park m)) t \<subseteq> holders m t"
proof -
  have "settled_frame m (snd (bind_locked owner s key park m))
    \<and> (t \<noteq> s \<longrightarrow> holders (snd (bind_locked owner s key park m)) t \<subseteq> holders m t)" for t
  proof (cases "lm_teardowns m s = None")
    case free: True
    show ?thesis
    proof (cases "lm_bindings m owner")
      case None
      then show ?thesis using attach_frame [OF ok free None, of key park] free by (simp add: bind_locked_def)
    next
      case (Some b)
      note rm = remove_binding_frame [OF ok, of owner True]
      let ?m1 = "snd (remove_binding_locked owner True m)"
      have ok1: "lease_ok ?m1" "lm_teardowns ?m1 s = None" "lm_bindings ?m1 owner = None"
        using rm(1,2) free by (simp_all add: settled_frame_def)
      note at = attach_frame [OF ok1, of key park]
      show ?thesis
        using settled_frame_trans [OF rm(1) at(1)] at(2) rm(3) put_same_frame [OF ok Some, of s key True] free Some
          settled_frame_refl [OF ok]
        by (auto simp: bind_locked_def case_prod_beta Let_def)
    qed
  qed (simp add: bind_locked_def settled_frame_refl [OF ok])
  then show "settled_frame m (snd (bind_locked owner s key park m))"
    "t \<noteq> s \<Longrightarrow> holders (snd (bind_locked owner s key park m)) t \<subseteq> holders m t" by blast+
qed

lemma bind_observed_frame:
  assumes ok: "lease_ok m"
  shows "settled_frame m (snd (bind_observed owner s key park rv present m))"
    "bound t m (snd (bind_observed owner s key park rv present m)) \<Longrightarrow> t = s \<and> revision_of m s = rv"
proof -
  have e: "snd (bind_observed owner s key park rv present m) =
      (if present \<and> revision_of m s = rv then snd (bind_locked owner s key park m) else m)"
    by (auto simp: bind_observed_def split: prod.split sum.split)
  show "settled_frame m (snd (bind_observed owner s key park rv present m))"
    unfolding e using bind_frame(1) [OF ok] settled_frame_refl [OF ok] by simp
  show "bound t m (snd (bind_observed owner s key park rv present m)) \<Longrightarrow> t = s \<and> revision_of m s = rv"
    unfolding e bound_def using bind_frame(2) [OF ok, of t s owner key park] by (auto split: if_splits)
qed

lemma upgrade_frame:
  assumes ok: "lease_ok m"
  shows "settled_frame m (upgrade_binding owner b m)" "\<not> bound t m (upgrade_binding owner b m)"
  using put_same_frame [OF ok, of owner _ "lb_sandbox b" "lb_key b" True] settled_frame_refl [OF ok]
  by (auto simp: upgrade_binding_def bound_def same_binding_def split: option.split)

lemma drop_stale_frame:
  assumes ok: "lease_ok m"
  shows "settled_frame m (drop_stale owner b m)" "\<not> bound t m (drop_stale owner b m)"
  using remove_binding_frame [OF ok, of owner False] settled_frame_refl [OF ok]
  by (auto simp: drop_stale_def bound_def split: option.split)

section \<open>What a section guarantees\<close>

text \<open>
  The watch of a worker is the client it observes, with the revision it was given. A section keeps the
  invariant and the others' reservations, counts its own observation, advances the revision with each
  teardown it begins, and binds an observed client only at the revision of the watch.
\<close>

type_synonym watch = "(string \<times> nat) option"

definition watches :: "watch \<Rightarrow> string \<Rightarrow> nat" where
  "watches u s = (case u of None \<Rightarrow> 0 | Some v \<Rightarrow> if fst v = s then 1 else 0)"

definition revisions_advance :: "lease_state \<Rightarrow> lease_state \<Rightarrow> bool" where
  "revisions_advance m m' \<longleftrightarrow> (\<forall>s. 0 < readers m s \<longrightarrow> 0 < readers m' s
     \<longrightarrow> revision_of m' s = revision_of m s + (if torn s m m' then 1 else 0))"

definition section_ok :: "nat \<Rightarrow> lease_state \<Rightarrow> watch \<Rightarrow> lease_state \<Rightarrow> watch \<Rightarrow> bool" where
  "section_ok w m u m' u' \<longleftrightarrow> lease_ok m' \<and> (\<forall>v. v \<noteq> w \<longrightarrow> depths v m' = depths v m)
     \<and> (\<forall>s. readers m' s + watches u s = readers m s + watches u' s)
     \<and> revisions_advance m m'
     \<and> (\<forall>v. u = Some v \<longrightarrow> (u' = u \<or> u' = None) \<and> (bound (fst v) m m' \<longrightarrow> revision_of m (fst v) = snd v))
     \<and> (\<forall>v. u = None \<longrightarrow> u' = Some v \<longrightarrow> revision_of m' (fst v) = snd v)"

lemma settled_section:
  assumes "settled_frame m m'" "\<And>v. u = Some v \<Longrightarrow> bound (fst v) m m' \<Longrightarrow> revision_of m (fst v) = snd v"
  shows "section_ok w m u m' u" "depths w m' = depths w m"
  using assms by (auto simp: section_ok_def settled_frame_def depths_def readers_def revisions_advance_def
      revision_of_def torn_def)

primrec safe :: "lease_prog \<Rightarrow> nat \<Rightarrow> (string \<Rightarrow> nat) \<Rightarrow> watch \<Rightarrow> thread_key option \<Rightarrow> bool" where
  "safe (Finish x) w r u h \<longleftrightarrow> r = (\<lambda>_. 0) \<and> u = None \<and> h = None"
| "safe (Atomic f k) w r u h \<longleftrightarrow> (\<forall>m. lease_ok m \<longrightarrow> depths w m = r \<longrightarrow> (\<forall>s. watches u s \<le> readers m s)
     \<longrightarrow> (\<exists>u'. section_ok w m u (f m) u' \<and> safe (k m) w (depths w (f m)) u' h))"
| "safe (Ask q k) w r u h \<longleftrightarrow> (\<forall>s. q = ReleaseClient s \<or> q = TearDown s \<longrightarrow> 0 < r s) \<and> (\<forall>a. safe (k a) w r u h)"
| "safe (Lock key p q) w r u h \<longleftrightarrow> h = None \<and> safe p w r u h \<and> safe q w r u (Some key)"
| "safe (Unlock key p) w r u h \<longleftrightarrow> h = Some key \<and> safe p w r u None"

lemma safe_section:
  assumes "\<And>m. lease_ok m \<Longrightarrow> settled_frame m (snd (f m))"
    and "\<And>m v. lease_ok m \<Longrightarrow> u = Some v \<Longrightarrow> bound (fst v) m (snd (f m)) \<Longrightarrow> revision_of m (fst v) = snd v"
    and "\<And>x. safe (k x) w r u h"
  shows "safe (metadata f k) w r u h"
  unfolding metadata_def safe.simps
proof (intro allI impI exI conjI)
  fix m assume m: "lease_ok m" "depths w m = r"
  note frame = settled_section [OF assms(1) [OF m(1)] assms(2) [OF m(1)], of u w]
  show "section_ok w m u (snd (f m)) u" using frame(1) by blast
  show "safe (k (fst (f m))) w (depths w (snd (f m))) u h" using frame(2) assms(3) m(2) by simp
qed

lemma safe_change:
  assumes "\<And>m. lease_ok m \<Longrightarrow> settled_frame m (f m)" "\<And>m t. lease_ok m \<Longrightarrow> \<not> bound t m (f m)" "safe k w r u h"
  shows "safe (change f k) w r u h"
  using safe_section [of "\<lambda>m. ((), f m)" u "\<lambda>_. k" w r h] assms by (simp add: change_def metadata_def)

lemma safe_read:
  assumes "\<And>x. safe (k x) w r u h"
  shows "safe (metadata (\<lambda>m. (g m, m)) k) w r u h"
  by (rule safe_section) (use assms in \<open>auto simp: settled_frame_refl bound_def\<close>)

section \<open>Reservations\<close>

lemma reserve_granted: "fst (reserve w s m) \<longleftrightarrow> holders m s = {} \<and> (\<forall>c. lm_teardowns m s = Some c \<longrightarrow> fst c = w)"
  by (simp add: reserve_def Let_def split: option.split)

lemma reserve_first: "holders m s = {} \<Longrightarrow> lm_teardowns m s = None \<Longrightarrow> snd (reserve w s m) =
    m\<lparr>lm_observations := (lm_observations m)(s :=
        map_option (\<lambda>ob. ob\<lparr>ob_revision := Suc (ob_revision ob)\<rparr>) (lm_observations m s)),
      lm_teardowns := (lm_teardowns m)(s \<mapsto> (w, 1))\<rparr>"
  by (simp add: reserve_def)

lemma reserve_nested: "holders m s = {} \<Longrightarrow> lm_teardowns m s = Some (w, d) \<Longrightarrow> snd (reserve w s m) =
    m\<lparr>lm_teardowns := (lm_teardowns m)(s \<mapsto> (w, Suc d))\<rparr>"
  by (simp add: reserve_def)

lemma reserve_refused: "\<not> fst (reserve w s m) \<Longrightarrow> snd (reserve w s m) = m"
  by (auto simp: reserve_def Let_def split: option.splits)

lemma reserve_section:
  assumes ok: "lease_ok m" and granted: "fst (reserve w s m)"
  shows "section_ok w m u (snd (reserve w s m)) u"
    "depths w (snd (reserve w s m)) = (depths w m)(s := Suc (depths w m s))"
proof -
  let ?m = "snd (reserve w s m)"
  have free: "holders m s = {}" using granted by (simp add: reserve_granted)
  have who: "lm_teardowns m s = Some c \<Longrightarrow> fst c = w" for c using granted by (simp add: reserve_granted)
  have parts: "lm_bindings ?m = lm_bindings m" "lm_owners ?m = lm_owners m"
    using who reserve_first [OF free] reserve_nested [OF free] by (cases "lm_teardowns m s"; force)+
  have obs: "lm_observations ?m t = (if t = s \<and> lm_teardowns m s = None
      then map_option (\<lambda>ob. ob\<lparr>ob_revision := Suc (ob_revision ob)\<rparr>) (lm_observations m s) else lm_observations m t)" for t
    using who reserve_first [OF free] reserve_nested [OF free] by (cases "lm_teardowns m s"; force)
  have td: "lm_teardowns ?m t = (if t = s then Some (w, Suc (depths w m s)) else lm_teardowns m t)" for t
    using who reserve_first [OF free] reserve_nested [OF free] by (cases "lm_teardowns m s"; force simp: depths_def)
  have hold: "holders ?m t = holders m t" for t by (simp add: holders_def parts)
  show "depths w ?m = (depths w m)(s := Suc (depths w m s))"
    by (auto simp: depths_def td fun_eq_iff)
  have "depths v ?m t = depths v m t" if "v \<noteq> w" for v t
    using that who by (auto simp: depths_def td split: option.split)
  then have other: "\<forall>v. v \<noteq> w \<longrightarrow> depths v ?m = depths v m" by (simp add: fun_eq_iff)
  have read: "readers ?m t = readers m t" for t by (simp add: readers_def obs split: option.split)
  have adv: "revisions_advance m ?m"
    unfolding revisions_advance_def read
    by (auto simp: revision_of_def obs torn_def td readers_def split: option.splits)
  have "lm_observations ?m t = Some ob \<Longrightarrow> 0 < ob_readers ob" for t ob
    using lease_okD(6) [OF ok] by (auto simp: obs split: if_splits)
  then have "lease_ok ?m"
    using ok free unfolding lease_ok_def parts hold td by auto
  moreover have "\<not> bound t m ?m" for t by (simp add: bound_def hold)
  ultimately show "section_ok w m u ?m u"
    using other adv read by (auto simp: section_ok_def)
qed

lemma unreserve_section:
  assumes ok: "lease_ok m" and held: "depths w m s = Suc n"
  shows "section_ok w m u (unreserve w s m) u" "depths w (unreserve w s m) = (depths w m)(s := n)"
proof -
  let ?m = "unreserve w s m"
  obtain c where c: "lm_teardowns m s = Some c" "fst c = w" "snd c = Suc n"
    using held by (auto simp: depths_def split: option.splits if_splits)
  have td: "lm_teardowns ?m t = (if t = s then (if n = 0 then None else Some (w, n)) else lm_teardowns m t)" for t
    using c by (simp add: unreserve_def)
  have parts: "lm_bindings ?m = lm_bindings m" "lm_owners ?m = lm_owners m" "\<And>t. holders ?m t = holders m t"
    "lm_observations ?m = lm_observations m"
    using c by (simp_all add: unreserve_def holders_def)
  show "depths w ?m = (depths w m)(s := n)" using c by (auto simp: depths_def td fun_eq_iff)
  have "depths v ?m t = depths v m t" if "v \<noteq> w" for v t
    using that c by (auto simp: depths_def td split: option.split)
  then have other: "\<forall>v. v \<noteq> w \<longrightarrow> depths v ?m = depths v m" by (simp add: fun_eq_iff)
  have "lease_ok ?m" using ok lease_okD(1) [OF ok c(1)] unfolding lease_ok_def parts td by auto
  moreover have "\<not> bound t m ?m" "\<not> torn t m ?m" for t using c by (auto simp: bound_def parts torn_def td)
  ultimately show "section_ok w m u ?m u"
    using other by (auto simp: section_ok_def revisions_advance_def revision_of_def readers_def parts)
qed

lemma safe_reservation:
  assumes body: "\<And>granted r' k'. (granted \<Longrightarrow> 0 < r' s) \<Longrightarrow> (\<And>x. safe (k' x) w r' u h) \<Longrightarrow> safe (body granted k') w r' u h"
    and k: "\<And>x. safe (k x) w r u h"
  shows "safe (with_reservation w s body k) w r u h"
  unfolding with_reservation_def metadata_def safe.simps
proof (intro allI impI)
  fix m assume m: "lease_ok m" "depths w m = r"
  let ?k = "\<lambda>x. if fst (reserve w s m) then change (unreserve w s) (k x) else k x"
  have "section_ok w m u (snd (reserve w s m)) u
      \<and> safe (body (fst (reserve w s m)) ?k) w (depths w (snd (reserve w s m))) u h"
  proof (cases "fst (reserve w s m)")
    case True
    note sec = reserve_section [OF m(1) True]
    have undone: "safe (change (unreserve w s) (k x)) w (r(s := Suc (r s))) u h" for x
      unfolding change_def safe.simps
    proof (intro allI impI exI conjI)
      fix m2 assume m2: "lease_ok m2" "depths w m2 = r(s := Suc (r s))"
      note un = unreserve_section [OF m2(1), of w s "r s"]
      show "section_ok w m2 u (unreserve w s m2) u" using un(1) m2(2) by simp
      show "safe (k x) w (depths w (unreserve w s m2)) u h" using un(2) m2(2) k by simp
    qed
    have "safe (body True (\<lambda>x. change (unreserve w s) (k x))) w (r(s := Suc (r s))) u h"
      by (rule body) (simp_all add: undone)
    then show ?thesis using True sec m(2) by simp
  next
    case False
    have "safe (body False k) w r u h" by (rule body) (simp_all add: k)
    moreover have "section_ok w m u m u" by (rule settled_section(1) [OF settled_frame_refl [OF m(1)]]) (simp add: bound_def)
    ultimately show ?thesis using False m(2) by (simp add: reserve_refused)
  qed
  then show "\<exists>u'. section_ok w m u (snd (reserve w s m)) u'
      \<and> safe (body (fst (reserve w s m)) ?k) w (depths w (snd (reserve w s m))) u' h" by blast
qed

section \<open>Observations\<close>

lemma observe_refused: "fst (observe_enter s m) = Inl e \<Longrightarrow> snd (observe_enter s m) = m"
  by (auto simp: observe_enter_def Let_def split: if_splits)

lemma observe_section:
  assumes ok: "lease_ok m" and rv: "fst (observe_enter s m) = Inr rv"
  shows "section_ok w m None (snd (observe_enter s m)) (Some (s, rv))" "depths w (snd (observe_enter s m)) = depths w m"
proof -
  let ?m = "snd (observe_enter s m)"
  define ob where "ob = (case lm_observations m s of None \<Rightarrow> \<lparr>ob_revision = 0, ob_readers = 0\<rparr> | Some ob \<Rightarrow> ob)"
  have free: "lm_teardowns m s = None" by (rule ccontr) (use rv in \<open>simp add: observe_enter_def\<close>)
  have m': "?m = m\<lparr>lm_observations := (lm_observations m)(s \<mapsto> ob\<lparr>ob_readers := Suc (ob_readers ob)\<rparr>)\<rparr>" "rv = ob_revision ob"
    using free rv by (simp_all add: observe_enter_def Let_def ob_def)
  show "depths w ?m = depths w m" by (simp add: depths_def m' fun_eq_iff)
  have hold: "holders ?m t = holders m t" for t by (simp add: holders_def m')
  have ok': "lease_ok ?m"
    using ok lease_okD(6) [OF ok] unfolding lease_ok_def hold by (simp add: m')
  have read: "readers ?m t = readers m t + watches (Some (s, rv)) t" for t
    by (auto simp: readers_def m' watches_def ob_def split: option.split)
  have rev: "revision_of ?m t = (if t = s then rv else revision_of m t)" for t by (simp add: revision_of_def m')
  have same: "0 < readers m s \<Longrightarrow> revision_of m s = rv"
    by (auto simp: readers_def revision_of_def m' ob_def split: option.splits)
  have none: "\<not> torn t m ?m" for t by (auto simp: torn_def m')
  have none': "\<not> bound t m ?m" for t by (simp only: bound_def hold subset_refl not_not)
  show "section_ok w m None ?m (Some (s, rv))"
    using ok' read rev same none none' by (auto simp: section_ok_def revisions_advance_def depths_def m' watches_def)
qed

lemma unobserve_section:
  assumes ok: "lease_ok m" and inside: "0 < readers m s"
  shows "section_ok w m (Some (s, rv)) (observe_exit s m) None" "depths w (observe_exit s m) = depths w m"
proof -
  let ?m = "observe_exit s m"
  obtain ob where ob: "lm_observations m s = Some ob" "0 < ob_readers ob"
    using inside by (auto simp: readers_def split: option.splits)
  have m': "?m = m\<lparr>lm_observations := (lm_observations m)(s :=
      (if ob_readers ob - 1 = 0 then None else Some (ob\<lparr>ob_readers := ob_readers ob - 1\<rparr>)))\<rparr>"
    using ob(1) by (simp add: observe_exit_def)
  show "depths w ?m = depths w m" by (simp add: depths_def m' fun_eq_iff)
  have hold: "holders ?m t = holders m t" for t by (simp add: holders_def m')
  have ok': "lease_ok ?m"
    using ok lease_okD(6) [OF ok] unfolding lease_ok_def hold by (simp add: m' split: if_splits)
  have read: "readers ?m t + watches (Some (s, rv)) t = readers m t" for t
    using ob by (auto simp: readers_def m' watches_def)
  have rev: "0 < readers ?m t \<Longrightarrow> revision_of ?m t = revision_of m t" for t
    using ob by (auto simp: revision_of_def readers_def m' split: if_splits)
  have none: "\<not> torn t m ?m" for t by (auto simp: torn_def m')
  have none': "\<not> bound t m ?m" for t by (simp only: bound_def hold subset_refl not_not)
  show "section_ok w m (Some (s, rv)) ?m None"
    using ok' read rev none none' by (auto simp: section_ok_def revisions_advance_def depths_def m' watches_def)
qed

lemma safe_observing:
  assumes body: "\<And>rv k'. (\<And>x. safe (k' x) w r (Some (s, rv)) h) \<Longrightarrow> safe (body rv k') w r (Some (s, rv)) h"
    and k: "\<And>x. safe (k x) w r None h"
  shows "safe (observing s body k) w r None h"
  unfolding observing_def metadata_def safe.simps
proof (intro allI impI)
  fix m assume m: "lease_ok m" "depths w m = r"
  let ?next = "case fst (observe_enter s m) of Inl e \<Rightarrow> k (Inl e)
      | Inr rv \<Rightarrow> body rv (\<lambda>x. change (observe_exit s) (k x))"
  show "\<exists>u'. section_ok w m None (snd (observe_enter s m)) u'
      \<and> safe ?next w (depths w (snd (observe_enter s m))) u' h"
  proof (cases "fst (observe_enter s m)")
    case (Inl e)
    have "section_ok w m None m None" by (rule settled_section(1) [OF settled_frame_refl [OF m(1)]]) simp
    then show ?thesis using Inl k m(2) by (auto simp: observe_refused)
  next
    case (Inr rv)
    note sec = observe_section [OF m(1) Inr]
    have undone: "safe (change (observe_exit s) (k x)) w r (Some (s, rv)) h" for x
      unfolding change_def safe.simps
    proof (intro allI impI exI conjI)
      fix m2 assume m2: "lease_ok m2" "depths w m2 = r" "\<forall>t. watches (Some (s, rv)) t \<le> readers m2 t"
      from m2(3) have "watches (Some (s, rv)) s \<le> readers m2 s" ..
      then have inside: "0 < readers m2 s" by (simp add: watches_def)
      note un = unobserve_section [OF m2(1) inside]
      show "section_ok w m2 (Some (s, rv)) (observe_exit s m2) None" by (rule un(1))
      show "safe (k x) w (depths w (observe_exit s m2)) None h" using un(2) [of w] m2(2) k by simp
    qed
    have "safe (body rv (\<lambda>x. change (observe_exit s) (k x))) w r (Some (s, rv)) h"
      by (rule body) (rule undone)
    then show ?thesis using sec m(2) Inr by auto
  qed
qed

section \<open>The methods are safe\<close>

lemma pending_frame: "lease_ok m \<Longrightarrow> settled_frame m (m\<lparr>lm_pending := q\<rparr>)" "\<not> bound t m (m\<lparr>lm_pending := q\<rparr>)"
  by (simp_all add: settled_frame_def lease_ok_def holders_def bound_def)

lemma safe_bind_live:
  assumes k: "\<And>x. safe (k x) w r None h"
  shows "safe (bind_live_client owner s key park unscoped k) w r None h"
  unfolding bind_live_client_def
proof (rule safe_observing)
  fix rv and k' :: "lease_error + (lease_binding option \<times> bool) option \<Rightarrow> lease_prog"
  assume k': "\<And>x. safe (k' x) w r (Some (s, rv)) h"
  have "safe (metadata (bind_observed owner s key park rv present) k') w r (Some (s, rv)) h" for present
  proof (rule safe_section)
    fix m v assume "lease_ok m" "Some (s, rv) = Some v" "bound (fst v) m (snd (bind_observed owner s key park rv present m))"
    then show "revision_of m (fst v) = snd v" using bind_observed_frame(2) [of m] by fastforce
  qed (simp_all add: k' bind_observed_frame(1))
  then show "safe (Ask (if unscoped then GetClient s else GetScoped s key) (\<lambda>a. case a of
         Client present \<Rightarrow> metadata (bind_observed owner s key park rv present) k'
       | _ \<Rightarrow> k' (Inl ProviderFailed))) w r (Some (s, rv)) h"
    using k' by (auto split: answer.split)
qed (rule k)

lemma safe_release_if_idle:
  assumes "\<And>x. safe (k x) w r u h"
  shows "safe (release_if_idle w s k) w r u h"
  unfolding release_if_idle_def
proof (rule safe_reservation [OF _ assms])
  fix granted r' and k' :: "lease_error option \<Rightarrow> lease_prog"
  assume g: "granted \<Longrightarrow> 0 < r' s" and k': "\<And>x. safe (k' x) w r' u h"
  have "granted \<Longrightarrow> safe (change (\<lambda>m. m\<lparr>lm_pending := lm_pending m - {s}\<rparr>)
       (Ask (ReleaseClient s) (\<lambda>a. k' (if a = Raised then Some ProviderFailed else None)))) w r' u h"
    by (rule safe_change) (simp_all add: pending_frame g k')
  then show "safe (if \<not> granted then k' None else change (\<lambda>m. m\<lparr>lm_pending := lm_pending m - {s}\<rparr>)
       (Ask (ReleaseClient s) (\<lambda>a. k' (if a = Raised then Some ProviderFailed else None)))) w r' u h"
    using k' by simp
qed

lemma safe_release_unbound:
  assumes "\<And>x. safe (k x) w r u h"
  shows "safe (release_unbound_acquire w s k) w r u h"
  unfolding release_unbound_acquire_def
  by (rule safe_change) (simp_all add: pending_frame safe_release_if_idle assms)

lemma safe_lifecycle:
  assumes "\<And>k. (\<And>x. safe (k x) w r u h) \<Longrightarrow> safe (body k) w r u h" "\<And>x. safe (k x) w r u h"
  shows "safe (run_sync_lifecycle body k) w r u h"
  unfolding run_sync_lifecycle_def by (rule assms(1)) (simp add: assms(2))

lemma safe_after_bind:
  assumes "\<And>x. safe (k x) w r u h"
  shows "safe (after_bind w b k) w r u h" "safe (after_bind_async w b k) w r u h"
  by (auto simp: after_bind_def after_bind_async_def safe_release_if_idle safe_lifecycle assms
      split: prod.split option.split bool.split)

lemma safe_active_owner:
  assumes "\<And>x. safe (k x) w r u h"
  shows "safe (active_owner_binding owner key park k) w r u h"
proof -
  have "safe (change (upgrade_binding owner b) (k x)) w r u h" "safe (change (drop_stale owner b) (k x)) w r u h" for b x
    by (rule safe_change; simp add: upgrade_frame drop_stale_frame assms)+
  then show ?thesis
    unfolding active_owner_binding_def
    by (intro safe_read) (auto simp: assms split: option.split answer.split bool.split)
qed

lemma safe_acquire_and_bind:
  assumes "\<And>x. safe (k x) w r None h"
  shows "safe (acquire_and_bind w owner key park k) w r None h" "safe (acquire_and_bind_async w owner key park k) w r None h"
  unfolding acquire_and_bind_def acquire_and_bind_async_def
  by (auto simp: assms safe_release_unbound safe_after_bind safe_lifecycle intro!: safe_bind_live
      split: answer.split sum.split option.split)

lemma safe_holding:
  assumes "\<And>x. safe (k x) w r u None" "\<And>k. (\<And>x. safe (k x) w r u (Some key)) \<Longrightarrow> safe (body k) w r u (Some key)"
  shows "safe (holding_key key refused body k) w r u None"
  unfolding holding_key_def by (simp add: assms)

lemma safe_retain:
  assumes "\<And>x. safe (k x) w r None None"
  shows "safe (lease_retain w owner s key park k) w r None None" "safe (lease_retain_async w owner s key park k) w r None None"
  unfolding lease_retain_def lease_retain_async_def
  by (intro safe_holding assms safe_section; auto simp: bind_frame safe_after_bind split: sum.split)+

lemma safe_acquire:
  assumes "\<And>x. safe (k x) w r None None"
  shows "safe (lease_acquire w owner key park k) w r None None" "safe (lease_acquire_async w owner key park k) w r None None"
  unfolding lease_acquire_def lease_acquire_async_def
  by (intro safe_holding assms safe_active_owner;
      auto simp: safe_acquire_and_bind split: sum.split option.split)+

lemma safe_reuse:
  assumes "\<And>x. safe (k x) w r None None"
  shows "safe (reuse_or_acquire w owner s key park q unscoped k) w r None None"
    "safe (reuse_or_acquire_async w owner s key park q unscoped k) w r None None"
  unfolding reuse_or_acquire_def reuse_or_acquire_async_def
  by (intro safe_holding assms safe_active_owner;
      auto simp: safe_acquire_and_bind safe_bind_live safe_after_bind split: sum.split option.split)+

lemma safe_cancel:
  assumes "\<And>x. safe (k x) w r u None"
  shows "safe (lease_cancel has_scopes owner reset k) w r u None"
  unfolding lease_cancel_def
  by (intro safe_read) (auto simp: assms Let_def intro!: safe_holding safe_read split: option.split answer.split bool.split)

lemma safe_drop_holder:
  assumes "\<And>x. safe (k x) w r None h"
  shows "safe (drop_holder w owner e k) w r None h"
  unfolding drop_holder_def
  by (rule safe_section) (auto simp: assms remove_binding_frame safe_release_if_idle split: prod.split option.split bool.split)

lemma safe_release:
  assumes "\<And>x. safe (k x) w r None None"
  shows "safe (lease_release w owner k) w r None None"
  unfolding lease_release_def
  by (intro safe_read)
    (auto simp: assms safe_drop_holder intro!: safe_holding safe_read split: option.split answer.split bool.split)

lemma safe_cleanup:
  assumes "safe p w r u h"
  shows "safe (provider_cleanup w s p) w r u h"
  unfolding provider_cleanup_def by (rule safe_reservation) (auto simp: assms)

lemma safe_answers: "safe (answer_unit e) w (\<lambda>_. 0) None None" "safe (answer_id x) w (\<lambda>_. 0) None None"
  by (simp_all add: answer_unit_def answer_id_def)

lemma safe_release_async:
  assumes "\<And>x. safe (k x) w r None None"
  shows "safe (lease_release_async w owner k) w r None None"
  unfolding lease_release_async_def by (rule safe_lifecycle) (simp_all add: safe_release assms)

lemma safe_cancel_async:
  assumes "\<And>x. safe (k x) w r u None"
  shows "safe (lease_cancel_async has_scopes owner reset k) w r u None"
  unfolding lease_cancel_async_def by (rule safe_lifecycle) (simp_all add: safe_cancel assms)

lemma safe_client_lease:
  assumes "\<And>x. safe (k x) w r None None"
  shows "safe (acquire_client_lease w owner key park k) w r None None"
  unfolding acquire_client_lease_def
  by (rule safe_acquire) (auto simp: safe_release_async assms split: sum.split answer.split)

lemma safe_lease_program: "safe (lease_program w c) w (\<lambda>_. 0) None None"
  by (cases c) (auto simp: safe_answers safe_retain safe_acquire safe_reuse safe_cancel safe_cancel_async safe_release
      safe_release_async safe_client_lease safe_cleanup release_client_lease_def split: option.split)

section \<open>The system of workers\<close>

text \<open>
  \<open>window w s n tr\<close>: the newest observation that worker \<open>w\<close> began is of client \<open>s\<close>, it has not ended,
  and \<open>n\<close> teardowns of \<open>s\<close> were begun since.
\<close>

definition window :: "nat \<Rightarrow> string \<Rightarrow> nat \<Rightarrow> (nat \<times> lease_state \<times> lease_state) list \<Rightarrow> bool" where
  "window w s n tr \<longleftrightarrow> (\<exists>since before a b. tr = since @ (w, a, b) # before \<and> readers b s = Suc (readers a s)
     \<and> (\<forall>(v, c, d) \<in> set since. v = w \<longrightarrow> readers d = readers c)
     \<and> n = length (filter (\<lambda>(v, c, d). torn s c d) since))"

lemma window_Nil: "\<not> window w s n []"
  by (simp add: window_def)

lemma window_Cons: "window w s n ((v, a, b) # tr) \<longleftrightarrow> (v = w \<and> readers b s = Suc (readers a s) \<and> n = 0)
    \<or> ((v = w \<longrightarrow> readers b = readers a) \<and> (\<exists>k. window w s k tr \<and> n = k + (if torn s a b then 1 else 0)))"
    (is "?l \<longleftrightarrow> ?new \<or> ?old")
proof
  assume ?l
  then obtain since before c d where w: "(v, a, b) # tr = since @ (w, c, d) # before" "readers d s = Suc (readers c s)"
    "\<forall>(v, c, d) \<in> set since. v = w \<longrightarrow> readers d = readers c" "n = length (filter (\<lambda>(v, c, d). torn s c d) since)"
    unfolding window_def by blast
  show "?new \<or> ?old"
  proof (cases since)
    case (Cons e es)
    then have "window w s (length (filter (\<lambda>(v, c, d). torn s c d) es)) tr" using w unfolding window_def by auto
    then show ?thesis using w Cons by auto
  qed (use w in auto)
next
  assume "?new \<or> ?old"
  then show ?l
  proof
    assume new: ?new
    then have "(v, a, b) # tr = [] @ (w, a, b) # tr" by simp
    with new show ?l unfolding window_def by (intro exI [of _ "[]"] exI) auto
  next
    assume old: ?old
    then obtain since before c d where w: "tr = since @ (w, c, d) # before" "readers d s = Suc (readers c s)"
      "\<forall>(v, c, d) \<in> set since. v = w \<longrightarrow> readers d = readers c"
      "n = length (filter (\<lambda>(v, c, d). torn s c d) since) + (if torn s a b then 1 else 0)"
      unfolding window_def by blast
    then have "(v, a, b) # tr = ((v, a, b) # since) @ (w, c, d) # before" by simp
    then show ?l unfolding window_def
      using w old by (intro exI [of _ "(v, a, b) # since"] exI [of _ before] exI [of _ c] exI [of _ d]) auto
  qed
qed

definition observers :: "(nat \<Rightarrow> watch) \<Rightarrow> string \<Rightarrow> nat set" where
  "observers g s = {w. \<exists>rv. g w = Some (s, rv)}"

lemma observers_update:
  assumes "finite {w. g w \<noteq> None}"
  shows "card (observers (g(w := u)) s) + watches (g w) s = card (observers g s) + watches u s"
proof -
  define rest where "rest = observers g s - {w}"
  have fin: "finite rest"
    by (rule finite_subset [OF _ assms]) (auto simp: rest_def observers_def)
  have "observers g s = (if watches (g w) s = 1 then insert w rest else rest)"
    "observers (g(w := u)) s = (if watches u s = 1 then insert w rest else rest)"
    by (auto simp: rest_def observers_def watches_def split: option.splits if_splits)
  moreover have "w \<notin> rest" "watches (g w) s \<le> 1" "watches u s \<le> 1"
    by (auto simp: rest_def watches_def split: option.split)
  ultimately show ?thesis using fin by (auto simp: card_insert_if)
qed

definition system_ok :: "lease_system \<Rightarrow> (nat \<Rightarrow> watch) \<Rightarrow> (nat \<Rightarrow> thread_key option) \<Rightarrow> bool" where
  "system_ok y g h \<longleftrightarrow> lease_ok (sy_state y)
     \<and> (\<forall>w. sy_workers y w = None \<longrightarrow> depths w (sy_state y) = (\<lambda>_. 0) \<and> g w = None \<and> h w = None)
     \<and> (\<forall>w p. sy_workers y w = Some p \<longrightarrow> safe p w (depths w (sy_state y)) (g w) (h w))
     \<and> finite {w. g w \<noteq> None} \<and> (\<forall>s. readers (sy_state y) s = card (observers g s))
     \<and> (\<forall>key w. sy_held y key = Some w \<longleftrightarrow> h w = Some key)
     \<and> (\<forall>w s n. window w s n (sy_trace y) \<longrightarrow> (\<exists>rv. g w = Some (s, rv) \<and> revision_of (sy_state y) s = rv + n))"

lemma system_okD:
  assumes "system_ok y g h"
  shows "lease_ok (sy_state y)"
    "sy_workers y w = None \<Longrightarrow> depths w (sy_state y) = (\<lambda>_. 0) \<and> g w = None \<and> h w = None"
    "sy_workers y w = Some p \<Longrightarrow> safe p w (depths w (sy_state y)) (g w) (h w)"
    "finite {w. g w \<noteq> None}" "readers (sy_state y) s = card (observers g s)"
    "sy_held y key = Some w \<longleftrightarrow> h w = Some key"
    "window w s n (sy_trace y) \<Longrightarrow> \<exists>rv. g w = Some (s, rv) \<and> revision_of (sy_state y) s = rv + n"
  using assms unfolding system_ok_def by (blast, blast, blast, blast, blast, blast, blast)

lemma watched_is_read:
  assumes "system_ok y g h"
  shows "watches (g w) s \<le> readers (sy_state y) s"
proof (cases "watches (g w) s = 0")
  case False
  then have "w \<in> observers g s" by (auto simp: watches_def observers_def split: option.splits if_splits)
  moreover have "finite (observers g s)"
    by (rule finite_subset [OF _ system_okD(4) [OF assms]]) (auto simp: observers_def)
  ultimately have "0 < card (observers g s)" by (auto simp: card_gt_0_iff)
  moreover have "watches (g w) s \<le> 1" by (simp add: watches_def split: option.split)
  ultimately show ?thesis using system_okD(5) [OF assms] by simp
qed simp

text \<open>A step that touches nothing but the program of one worker.\<close>

lemma system_ok_local:
  assumes ok: "system_ok y g h" and p: "safe p w (depths w (sy_state y)) (g w) (h w)"
  shows "system_ok (y\<lparr>sy_workers := (sy_workers y)(w \<mapsto> p)\<rparr>) g h"
  using ok p unfolding system_ok_def by auto

lemma watch_section:
  assumes ok: "system_ok y g h" and sec: "section_ok w (sy_state y) (g w) m u"
    and win: "window v s n ((w, sy_state y, m) # sy_trace y)"
  shows "\<exists>rv. (g(w := u)) v = Some (s, rv) \<and> revision_of m s = rv + n"
proof (cases "v = w \<and> readers m s = Suc (readers (sy_state y) s) \<and> n = 0")
  case True
  have "readers m s + watches (g w) s = readers (sy_state y) s + watches u s" using sec by (simp add: section_ok_def)
  moreover have "watches u s \<le> 1" by (simp add: watches_def split: option.split)
  ultimately have "watches (g w) s = 0" "watches u s = 1" using True by auto
  then obtain rv where "u = Some (s, rv)" by (cases u) (auto simp: watches_def split: if_splits)
  with \<open>watches (g w) s = 0\<close> have u: "u = Some (s, rv)" "g w \<noteq> Some (s, rv)" by (auto simp: watches_def)
  then have "g w = None" using sec by (cases "g w") (auto simp: section_ok_def)
  then show ?thesis using sec u True by (auto simp: section_ok_def)
next
  case False
  then obtain k where k: "window v s k (sy_trace y)" "n = k + (if torn s (sy_state y) m then 1 else 0)"
    and quiet: "v = w \<Longrightarrow> readers m = readers (sy_state y)"
    using win unfolding window_Cons by blast
  obtain rv where g: "g v = Some (s, rv)" "revision_of (sy_state y) s = rv + k" using system_okD(7) [OF ok k(1)] by blast
  have same: "(g(w := u)) v = g v"
  proof (cases "v = w")
    case vw: True
    have "readers m s + watches (g w) s = readers (sy_state y) s + watches u s" using sec by (simp add: section_ok_def)
    then have "watches u s = 1" using quiet vw g by (simp add: watches_def)
    then show ?thesis using sec g vw by (auto simp: section_ok_def watches_def split: option.splits)
  qed simp
  have read: "readers m t + watches (g w) t = readers (sy_state y) t + watches u t" for t
    using sec by (simp add: section_ok_def)
  have "readers m s = card (observers (g(w := u)) s)"
    using observers_update [OF system_okD(4) [OF ok], of w u s] read [of s] system_okD(5) [OF ok, of s] by simp
  moreover have "finite (observers (g(w := u)) s)"
    by (rule finite_subset [of _ "insert w {w. g w \<noteq> None}"])
      (use system_okD(4) [OF ok] in \<open>auto simp: observers_def split: if_splits\<close>)
  moreover have "v \<in> observers (g(w := u)) s" using same g by (auto simp: observers_def)
  ultimately have "0 < readers m s" by (auto simp: card_gt_0_iff)
  moreover have "0 < readers (sy_state y) s" using watched_is_read [OF ok, of v s] g by (simp add: watches_def)
  ultimately have "revision_of m s = revision_of (sy_state y) s + (if torn s (sy_state y) m then 1 else 0)"
    using sec by (simp add: section_ok_def revisions_advance_def)
  then show ?thesis using same g k(2) by simp
qed

lemma system_ok_section:
  assumes ok: "system_ok y g h" and w: "sy_workers y w = Some (Atomic f k)"
  shows "\<exists>u. section_ok w (sy_state y) (g w) (f (sy_state y)) u
    \<and> system_ok (y\<lparr>sy_state := f (sy_state y), sy_workers := (sy_workers y)(w \<mapsto> k (sy_state y)),
          sy_trace := (w, sy_state y, f (sy_state y)) # sy_trace y\<rparr>) (g(w := u)) h"
proof -
  let ?m = "sy_state y"
  note d = system_okD [OF ok]
  obtain u where u: "section_ok w ?m (g w) (f ?m) u" "safe (k ?m) w (depths w (f ?m)) u (h w)"
    using d(3) [OF w] d(1) watched_is_read [OF ok, of w] by auto
  have other: "depths v (f ?m) = depths v ?m" if "v \<noteq> w" for v using u(1) that by (simp add: section_ok_def)
  have read: "readers (f ?m) s = card (observers (g(w := u)) s)" for s
    using u(1) observers_update [OF d(4), of w u s] d(5) [of s] by (simp add: section_ok_def) (metis add_right_cancel)
  have fin: "finite {v. (g(w := u)) v \<noteq> None}"
    by (rule finite_subset [of _ "insert w {v. g v \<noteq> None}"]) (use d(4) in auto)
  have "system_ok (y\<lparr>sy_state := f ?m, sy_workers := (sy_workers y)(w \<mapsto> k ?m),
          sy_trace := (w, ?m, f ?m) # sy_trace y\<rparr>) (g(w := u)) h"
    unfolding system_ok_def
  proof (intro conjI allI impI)
    show "lease_ok (sy_state (y\<lparr>sy_state := f ?m, sy_workers := (sy_workers y)(w \<mapsto> k ?m),
          sy_trace := (w, ?m, f ?m) # sy_trace y\<rparr>))" using u(1) by (simp add: section_ok_def)
  qed (use d(2,3,6) other u read fin watch_section [OF ok u(1)] in \<open>auto split: if_splits\<close>)
  with u(1) show ?thesis by blast
qed

lemma system_ok_step:
  assumes ok: "system_ok y g h" and step: "lease_system_step y y'"
  shows "\<exists>g' h'. system_ok y' g' h'"
  using step
proof cases
  case (start w c)
  have "safe (lease_program w c) w (depths w (sy_state y)) (g w) (h w)"
    using safe_lease_program system_okD(2) [OF ok start(2)] by simp
  then show ?thesis using system_ok_local [OF ok] start(1) by blast
next
  case (section_run w f k)
  then show ?thesis using system_ok_section [OF ok section_run(2)] by blast
next
  case (answered w q k a)
  have "safe (k a) w (depths w (sy_state y)) (g w) (h w)" using system_okD(3) [OF ok answered(2)] by simp
  then show ?thesis using system_ok_local [OF ok] answered(1) by blast
next
  case (cleanup w q k s)
  have "safe (provider_cleanup w s (Ask q k)) w (depths w (sy_state y)) (g w) (h w)"
    by (rule safe_cleanup [OF system_okD(3) [OF ok cleanup(2)]])
  then show ?thesis using system_ok_local [OF ok] cleanup(1) by blast
next
  case (locked w key p q)
  have s: "safe q w (depths w (sy_state y)) (g w) (Some key)" "h w = None"
    using system_okD(3) [OF ok locked(2)] by simp_all
  have "h v \<noteq> Some key" for v using system_okD(6) [OF ok] locked(3) by (metis option.distinct(1))
  then have "system_ok y' g (h(w \<mapsto> key))"
    using ok s unfolding system_ok_def locked(1) by (auto split: if_splits)
  then show ?thesis by blast
next
  case (refused w key p q)
  have "safe p w (depths w (sy_state y)) (g w) (h w)" using system_okD(3) [OF ok refused(2)] by auto
  then show ?thesis using system_ok_local [OF ok] refused(1) by blast
next
  case (unlocked w key p)
  have s: "safe p w (depths w (sy_state y)) (g w) None" "h w = Some key"
    using system_okD(3) [OF ok unlocked(2)] by simp_all
  have held: "sy_held y key = Some w" using system_okD(6) [OF ok] s(2) by simp
  have locks: "((sy_held y)(key := None)) j = Some v \<longleftrightarrow> (h(w := None)) v = Some j" for j v
    using system_okD(6) [OF ok, of j v] s(2) held by (cases "j = key"; cases "v = w") auto
  have "system_ok y' g (h(w := None))"
    unfolding system_ok_def unlocked(1)
  proof (intro conjI allI impI)
    fix v p' assume "sy_workers (y\<lparr>sy_workers := (sy_workers y)(w \<mapsto> p), sy_held := (sy_held y)(key := None)\<rparr>) v = Some p'"
    then show "safe p' v (depths v (sy_state (y\<lparr>sy_workers := (sy_workers y)(w \<mapsto> p), sy_held := (sy_held y)(key := None)\<rparr>)))
        (g v) ((h(w := None)) v)"
      using s(1) system_okD(3) [OF ok, of v p'] by (cases "v = w") auto
  qed (use locks system_okD(1,2,4,5,7) [OF ok] in \<open>auto split: if_splits\<close>)
  then show ?thesis by blast
qed

lemma idle_system_ok: "system_ok idle_system (\<lambda>_. None) (\<lambda>_. None)"
  by (simp add: system_ok_def idle_system_def new_leases_def lease_ok_def holders_def depths_def readers_def
      observers_def window_Nil fun_eq_iff)

lemma lease_run_ok: "lease_run y \<Longrightarrow> \<exists>g h. system_ok y g h"
proof (induction rule: lease_run.induct)
  case begin_run
  then show ?case using idle_system_ok by blast
next
  case (step_run y y')
  then show ?case using system_ok_step by blast
qed

lemma parking_worker_reserved:
  assumes "system_ok y g h" "sy_workers y w = Some (Ask q k)" "q \<in> {ReleaseClient s, TearDown s}"
  shows "\<exists>d. lm_teardowns (sy_state y) s = Some (w, d)"
proof -
  have "0 < depths w (sy_state y) s" using system_okD(3) [OF assms(1,2)] assms(3) by auto
  then show ?thesis by (fastforce simp: depths_def split: option.splits if_splits)
qed

text \<open>Bindings in the trace are made at the revision of the watch.\<close>

lemma fresh_binds:
  "lease_run y \<Longrightarrow> sy_trace y = later @ (w, c, d) # earlier \<Longrightarrow> window w s n earlier \<Longrightarrow> bound s c d \<Longrightarrow> n = 0"
proof (induction arbitrary: later rule: lease_run.induct)
  case begin_run
  then show ?case by (simp add: idle_system_def)
next
  case (step_run y y')
  obtain g h where ok: "system_ok y g h" using lease_run_ok [OF step_run.hyps(1)] by blast
  from step_run.hyps(2) show ?case
  proof cases
    case (section_run v f k)
    show ?thesis
    proof (cases later)
      case Nil
      then have e: "v = w" "c = sy_state y" "d = f (sy_state y)" "earlier = sy_trace y"
        using section_run step_run.prems(1) by auto
      obtain u where sec: "section_ok w c (g w) d u" using system_ok_section [OF ok section_run(2)] e by blast
      obtain rv where "g w = Some (s, rv)" "revision_of c s = rv + n"
        using system_okD(7) [OF ok] step_run.prems(2) e by blast
      then show ?thesis using sec step_run.prems(3) by (simp add: section_ok_def)
    next
      case (Cons e es)
      then have "sy_trace y = es @ (w, c, d) # earlier" using section_run step_run.prems(1) by simp
      then show ?thesis using step_run by blast
    qed
  qed (use step_run in auto)
qed

section \<open>Properties\<close>

text \<open>
  C14. While a worker parks or tears down a client, nobody holds it, no owner is bound to it, and no
  other worker parks or tears it down; this holds at every moment of every interleaving of the methods,
  the provider's own cleanups, failures and cancellations.
\<close>

theorem parked_client_has_no_holder:
  assumes "lease_run y" "sy_workers y w = Some (Ask q k)" "q \<in> {ReleaseClient s, TearDown s}"
  shows "holders (sy_state y) s = {}
    \<and> (\<forall>owner b. lm_bindings (sy_state y) owner = Some b \<longrightarrow> lb_sandbox b \<noteq> s)
    \<and> (\<forall>v q' k'. sy_workers y v = Some (Ask q' k') \<longrightarrow> q' \<in> {ReleaseClient s, TearDown s} \<longrightarrow> v = w)"
proof -
  obtain g h where ok: "system_ok y g h" using lease_run_ok [OF assms(1)] by blast
  obtain d where td: "lm_teardowns (sy_state y) s = Some (w, d)"
    using parking_worker_reserved [OF ok assms(2,3)] by blast
  have "holders (sy_state y) s = {}" using lease_okD(1) [OF system_okD(1) [OF ok] td] .
  moreover have "v = w" if "sy_workers y v = Some (Ask q' k')" "q' \<in> {ReleaseClient s, TearDown s}" for v q' k'
    using parking_worker_reserved [OF ok that] td by auto
  ultimately show ?thesis using lease_okD(3) [OF system_okD(1) [OF ok]] by blast
qed

text \<open>
  C23. A worker that binds an owner to the client it looked up does so at a moment when no teardown of
  that client was begun since its lookup started: a holder never gets a client that was torn down
  between lookup and bind, even when the two run under different serializer keys.
\<close>

theorem bound_client_is_fresh:
  assumes "lease_run y" "sy_trace y = later @ (w, c, d) # earlier" "window w s n earlier" "bound s c d"
  shows "n = 0"
  by (rule fresh_binds [OF assms])

text \<open>
  C38. When every worker has finished, by result, error or cancellation, the manager is clean: no
  reservation, no observation and no serializer key is left behind.
\<close>

theorem finished_workers_leave_nothing:
  assumes "lease_run y" "\<And>w p. sy_workers y w = Some p \<Longrightarrow> \<exists>x. p = Finish x"
  shows "lm_teardowns (sy_state y) = Map.empty \<and> lm_observations (sy_state y) = Map.empty \<and> sy_held y = Map.empty"
proof -
  obtain g h where ok: "system_ok y g h" using lease_run_ok [OF assms(1)] by blast
  have rest: "depths w (sy_state y) = (\<lambda>_. 0) \<and> g w = None \<and> h w = None" for w
    using system_okD(2,3) [OF ok, of w] assms(2) [of w] by (cases "sy_workers y w") auto
  have "lm_teardowns (sy_state y) s = None" for s
  proof (cases "lm_teardowns (sy_state y) s")
    case (Some c)
    then have "0 < depths (fst c) (sy_state y) s" using lease_okD(2) [OF system_okD(1) [OF ok]] by (simp add: depths_def)
    then show ?thesis using rest by simp
  qed
  moreover have "lm_observations (sy_state y) s = None" for s
  proof (cases "lm_observations (sy_state y) s")
    case (Some ob)
    then have "0 < readers (sy_state y) s" using lease_okD(6) [OF system_okD(1) [OF ok]] by (simp add: readers_def)
    then show ?thesis using system_okD(5) [OF ok, of s] rest by (simp add: observers_def)
  qed
  moreover have "sy_held y key = None" for key
    using system_okD(6) [OF ok, of key] rest by (cases "sy_held y key") auto
  ultimately show ?thesis by (simp add: fun_eq_iff)
qed

section \<open>Schedules\<close>

text \<open>A schedule picks the next step; what it computes is a run of the system.\<close>

datatype lease_act = Start nat lease_call | Go nat | Reply nat answer | Clean nat string

fun act :: "lease_act \<Rightarrow> lease_system \<Rightarrow> lease_system option" where
  "act (Start w c) y = (case sy_workers y w of
       None \<Rightarrow> Some (y\<lparr>sy_workers := (sy_workers y)(w \<mapsto> lease_program w c)\<rparr>) | Some _ \<Rightarrow> None)"
| "act (Go w) y = (case sy_workers y w of
       Some (Atomic f k) \<Rightarrow> Some (y\<lparr>sy_state := f (sy_state y), sy_workers := (sy_workers y)(w \<mapsto> k (sy_state y)),
          sy_trace := (w, sy_state y, f (sy_state y)) # sy_trace y\<rparr>)
     | Some (Lock key p q) \<Rightarrow> (case sy_held y key of
         None \<Rightarrow> Some (y\<lparr>sy_workers := (sy_workers y)(w \<mapsto> q), sy_held := (sy_held y)(key \<mapsto> w)\<rparr>) | Some _ \<Rightarrow> None)
     | Some (Unlock key p) \<Rightarrow> Some (y\<lparr>sy_workers := (sy_workers y)(w \<mapsto> p), sy_held := (sy_held y)(key := None)\<rparr>)
     | _ \<Rightarrow> None)"
| "act (Reply w a) y = (case sy_workers y w of
       Some (Ask q k) \<Rightarrow> (if answers q a then Some (y\<lparr>sy_workers := (sy_workers y)(w \<mapsto> k a)\<rparr>) else None)
     | _ \<Rightarrow> None)"
| "act (Clean w s) y = (case sy_workers y w of
       Some (Ask q k) \<Rightarrow> Some (y\<lparr>sy_workers := (sy_workers y)(w \<mapsto> provider_cleanup w s (Ask q k))\<rparr>)
     | _ \<Rightarrow> None)"

fun acts :: "lease_act list \<Rightarrow> lease_system \<Rightarrow> lease_system option" where
  "acts [] y = Some y"
| "acts (x # xs) y = (case act x y of None \<Rightarrow> None | Some y' \<Rightarrow> acts xs y')"

lemma act_steps: "act x y = Some y' \<Longrightarrow> lease_system_step y y'"
  by (cases x) (auto intro: lease_system_step.intros split: option.splits lease_prog.splits if_splits)

lemma acts_run: "acts xs y = Some y' \<Longrightarrow> lease_run y \<Longrightarrow> lease_run y'"
proof (induction xs arbitrary: y)
  case (Cons x xs)
  then obtain y1 where y1: "act x y = Some y1" "acts xs y1 = Some y'" by (auto split: option.splits)
  then show ?case using Cons.IH lease_run.step_run [OF Cons.prems(2) act_steps] by blast
qed simp

text \<open>Two holders share a client; the borrower goes last, and parks it on behalf of the other.\<close>

definition shared_client :: "lease_act list" where
  "shared_client = [Start 0 (Acquire False ''run'' (''u'', ''t'') True), Go 0, Go 0, Reply 0 (Acquired ''s''), Go 0,
     Reply 0 (Client True), Go 0, Go 0, Go 0,
     Start 1 (Retain False ''fork'' ''s'' (''u'', ''t2'') False), Go 1, Go 1, Go 1,
     Start 2 (Release False ''run''), Go 2, Go 2, Go 2, Reply 2 (Client True), Reply 2 Returned, Go 2, Go 2,
     Start 3 (Release False ''fork''), Go 3, Go 3, Go 3, Reply 3 (Client True), Reply 3 Returned, Go 3, Go 3, Go 3]"

definition asks :: "lease_system \<Rightarrow> nat \<Rightarrow> request \<Rightarrow> bool" where
  "asks y w q = (case sy_workers y w of Some (Ask q' k) \<Rightarrow> q' = q | _ \<Rightarrow> False)"

fun actor :: "lease_act \<Rightarrow> nat" where
  "actor (Start w c) = w" | "actor (Go w) = w" | "actor (Reply w a) = w" | "actor (Clean w s) = w"

lemma act_others: "act x y = Some y' \<Longrightarrow> w \<noteq> actor x \<Longrightarrow> sy_workers y' w = sy_workers y w"
  by (cases x) (auto split: option.splits lease_prog.splits if_splits)

lemma acts_others: "acts xs y = Some y' \<Longrightarrow> w \<notin> actor ` set xs \<Longrightarrow> sy_workers y' w = sy_workers y w"
  by (induction xs arbitrary: y) (auto dest: act_others split: option.splits)

definition finished :: "lease_system \<Rightarrow> nat \<Rightarrow> bool" where
  "finished y w = (case sy_workers y w of Some (Finish x) \<Rightarrow> True | _ \<Rightarrow> False)"

lemma finished_iff: "finished y w \<longleftrightarrow> (\<exists>x. sy_workers y w = Some (Finish x))"
  by (auto simp: finished_def split: option.split lease_prog.split)

theorem parked_client_has_no_holder_witness:
  "\<exists>y k. acts shared_client idle_system = Some y \<and> sy_workers y 3 = Some (Ask (ReleaseClient ''s'') k)
    \<and> holders (sy_state y) ''s'' = {}"
proof -
  have "case acts shared_client idle_system of Some y \<Rightarrow> asks y 3 (ReleaseClient ''s'') | None \<Rightarrow> False" by code_simp
  then obtain y k where y: "acts shared_client idle_system = Some y" "sy_workers y 3 = Some (Ask (ReleaseClient ''s'') k)"
    by (auto simp: asks_def split: option.splits lease_prog.splits)
  have "lease_run y" by (rule acts_run [OF y(1) lease_run.begin_run])
  then have "holders (sy_state y) ''s'' = {}" using parked_client_has_no_holder [OF _ y(2), of "''s''"] by simp
  with y show ?thesis by blast
qed

theorem finished_workers_leave_nothing_witness:
  "\<exists>y. acts (shared_client @ [Reply 3 Returned, Go 3, Go 3]) idle_system = Some y \<and> finished y 3
    \<and> lm_teardowns (sy_state y) = Map.empty \<and> lm_observations (sy_state y) = Map.empty \<and> sy_held y = Map.empty"
proof -
  let ?xs = "shared_client @ [Reply 3 Returned, Go 3, Go 3]"
  have "case acts ?xs idle_system of Some y \<Rightarrow> finished y 0 \<and> finished y 1 \<and> finished y 2 \<and> finished y 3 | None \<Rightarrow> False"
    by code_simp
  then obtain y where y: "acts ?xs idle_system = Some y" "finished y 0" "finished y 1" "finished y 2" "finished y 3"
    by (auto split: option.splits)
  have run: "lease_run y" by (rule acts_run [OF y(1) lease_run.begin_run])
  have "\<exists>x. p = Finish x" if "sy_workers y w = Some p" for w p
  proof (cases "w \<in> {0, 1, 2, 3}")
    case True
    then show ?thesis using that y(2-5) by (auto simp: finished_iff)
  next
    case False
    then have "w \<notin> actor ` set ?xs" by (simp add: shared_client_def)
    then show ?thesis using acts_others [OF y(1)] that by (simp add: idle_system_def)
  qed
  then show ?thesis using finished_workers_leave_nothing [OF run] y by blast
qed

text \<open>The first holder's lookup and bind, nothing in between.\<close>

definition lookup_and_bind :: "lease_system \<Rightarrow> bool" where
  "lookup_and_bind y = (case sy_trace y of (w, c, d) # (v, a, b) # earlier \<Rightarrow> w = 0 \<and> v = 0
     \<and> readers b ''s'' = Suc (readers a ''s'') \<and> \<not> holders d ''s'' \<subseteq> holders c ''s'' | _ \<Rightarrow> False)"

theorem bound_client_is_fresh_witness:
  "\<exists>y c d earlier n. acts (take 7 shared_client) idle_system = Some y \<and> sy_trace y = (0, c, d) # earlier
    \<and> window 0 ''s'' n earlier \<and> bound ''s'' c d \<and> n = 0"
proof -
  have "case acts (take 7 shared_client) idle_system of Some y \<Rightarrow> lookup_and_bind y | None \<Rightarrow> False" by code_simp
  then obtain y where y: "acts (take 7 shared_client) idle_system = Some y" "lookup_and_bind y"
    by (auto split: option.splits)
  from y(2) obtain c d a b before where tr: "sy_trace y = [] @ (0, c, d) # (0, a, b) # before"
    and r: "readers b ''s'' = Suc (readers a ''s'')" and h: "\<not> holders d ''s'' \<subseteq> holders c ''s''"
    by (cases "sy_trace y"; cases "tl (sy_trace y)") (simp_all add: lookup_and_bind_def split_paired_all)
  have w: "readers b ''s'' = Suc (readers a ''s'')" "bound ''s'' c d" using r h by (simp_all add: bound_def)
  have win: "window 0 ''s'' 0 ((0, a, b) # before)" using w(1) by (simp add: window_Cons)
  have "lease_run y" by (rule acts_run [OF y(1) lease_run.begin_run])
  then have "(0 :: nat) = 0" using bound_client_is_fresh [OF _ tr win w(2)] by simp
  with y tr win w(2) show ?thesis by auto
qed

text \<open>A lookup that a teardown overtakes binds nothing: the worker acquires a client afresh.\<close>

lemma overtaken_lookup_is_refused:
  "case acts [Start 0 (ReuseOrAcquire False ''fork'' ''s'' (''u'', ''t'') False True True), Go 0, Go 0, Go 0,
      Reply 0 (Client True), Start 1 (CleanUp ''s''), Go 1, Reply 1 Returned, Go 1, Go 0, Go 0] idle_system of
    Some y \<Rightarrow> asks y 0 (AcquireClient (''u'', ''t'')) \<and> holders (sy_state y) ''s'' = {} | None \<Rightarrow> False"
  by code_simp

section \<open>One method on its own\<close>

text \<open>A method that nobody interrupts, against a provider that answers each request as \<open>P\<close> does.\<close>

primrec run_alone :: "lease_prog \<Rightarrow> (request \<Rightarrow> answer) \<Rightarrow> lease_state
    \<Rightarrow> (lease_error + string option) \<times> lease_state \<times> request list" where
  "run_alone (Finish x) P m = (x, m, [])"
| "run_alone (Atomic f k) P m = run_alone (k m) P (f m)"
| "run_alone (Ask q k) P m = (let (x, m', qs) = run_alone (k (P q)) P m in (x, m', q # qs))"
| "run_alone (Lock key p q) P m = run_alone q P m"
| "run_alone (Unlock key p) P m = run_alone p P m"

lemma run_metadata: "run_alone (metadata f k) P m = run_alone (k (fst (f m))) P (snd (f m))"
  by (simp add: metadata_def)

lemma run_change: "run_alone (change f k) P m = run_alone k P (f m)"
  by (simp add: change_def)

text \<open>What removing a holder asks for: the park request is recorded, and honoured by the last one.\<close>

lemma remove_binding_outcome:
  assumes ok: "lease_ok m" and b: "lm_bindings m owner = Some b"
  defines "s \<equiv> lb_sandbox b" and "wanted \<equiv> lb_sandbox b \<in> lm_pending m \<or> lb_release_on_last b"
  shows "fst (remove_binding_locked owner True m) = (Some b, wanted \<and> holders m s = {owner})"
    "lm_pending (snd (remove_binding_locked owner True m)) = (if lb_release_on_last b then insert s (lm_pending m) else lm_pending m)"
proof -
  obtain os where os: "lm_owners m s = Some os" "owner \<in> os"
    using lease_okD(3) [OF ok b] by (auto simp: s_def holders_def split: option.splits)
  then have h: "holders m s = os" "holders m s = {owner} \<longleftrightarrow> os - {owner} = {}" by (auto simp: holders_def)
  show "fst (remove_binding_locked owner True m) = (Some b, wanted \<and> holders m s = {owner})"
    using b os h by (auto simp: remove_binding_locked_def s_def wanted_def Let_def)
  show "lm_pending (snd (remove_binding_locked owner True m)) = (if lb_release_on_last b then insert s (lm_pending m) else lm_pending m)"
    using b os by (auto simp: remove_binding_locked_def s_def Let_def)
qed

lemma run_release_if_idle:
  assumes "holders m s = {}" "lm_teardowns m s = None"
  shows "run_alone (release_if_idle w s k) P m =
    (let m' = snd (reserve w s m) in
     let (x, m2, qs) = run_alone (k (if P (ReleaseClient s) = Raised then Some ProviderFailed else None)) P
           (unreserve w s (m'\<lparr>lm_pending := lm_pending m' - {s}\<rparr>)) in (x, m2, ReleaseClient s # qs))"
  using assms by (simp add: release_if_idle_def with_reservation_def run_metadata run_change reserve_def)

text \<open>
  An execution that releases its lease always loses its binding and its place among the holders,
  also when the client is gone or cleaning up its commands fails. The client is parked exactly when
  this was its last holder and some normal holder, this one or an earlier one, asked for it; while
  holders remain, the request is remembered for the last of them. The release runs alone, on a manager
  that is not shut down, so that its locks are granted.
\<close>

theorem release_parks_for_the_last:
  assumes "lease_ok m" "lm_bindings m owner = Some b" "lm_teardowns m (lb_sandbox b) = None"
  shows "case run_alone (lease_release w owner answer_unit) P m of (x, m', qs) \<Rightarrow>
    (let s = lb_sandbox b; wanted = (s \<in> lm_pending m \<or> lb_release_on_last b); alone = (holders m s = {owner})
     in lm_bindings m' = (lm_bindings m)(owner := None) \<and> holders m' s = holders m s - {owner}
      \<and> (ReleaseClient s \<in> set qs \<longleftrightarrow> wanted \<and> alone) \<and> (s \<in> lm_pending m' \<longleftrightarrow> wanted \<and> \<not> alone)
      \<and> lm_teardowns m' = lm_teardowns m)"
proof -
  define s where "s = lb_sandbox b"
  define wanted where "wanted \<longleftrightarrow> s \<in> lm_pending m \<or> lb_release_on_last b"
  define alone where "alone \<longleftrightarrow> holders m s = {owner}"
  note out = remove_binding_outcome [OF assms(1,2)] and frame = remove_binding_frame [OF assms(1), of owner True]
  obtain m1 where m1: "remove_binding_locked owner True m = ((Some b, wanted \<and> alone), m1)"
    using out(1) by (cases "remove_binding_locked owner True m") (auto simp: wanted_def alone_def s_def)
  have m1s: "lm_bindings m1 = (lm_bindings m)(owner := None)" "holders m1 s = holders m s - {owner}"
    "lm_teardowns m1 = lm_teardowns m" "s \<in> lm_pending m1 \<longleftrightarrow> wanted"
    using frame out(2) m1 by (auto simp: settled_frame_def wanted_def s_def)
  define good where "good = (\<lambda>(x :: lease_error + string option, m', qs).
      lm_bindings m' = (lm_bindings m)(owner := None) \<and> holders m' s = holders m s - {owner}
      \<and> (ReleaseClient s \<in> set qs \<longleftrightarrow> wanted \<and> alone) \<and> (s \<in> lm_pending m' \<longleftrightarrow> wanted \<and> \<not> alone)
      \<and> lm_teardowns m' = lm_teardowns m)"
  have drop: "good (run_alone (drop_holder w owner e (\<lambda>r. Unlock key (answer_unit r))) P m)" for e key
  proof (cases "wanted \<and> alone")
    case True
    then have idle: "holders m1 s = {}" "lm_teardowns m1 s = None"
      using m1s assms(3) by (simp_all add: alone_def s_def)
    define m2 where "m2 = snd (reserve w s m1)"
    define m3 where "m3 = unreserve w s (m2\<lparr>lm_pending := lm_pending m2 - {s}\<rparr>)"
    have m3: "lm_bindings m3 = lm_bindings m1" "holders m3 s = holders m1 s" "lm_teardowns m3 = lm_teardowns m1" "s \<notin> lm_pending m3"
      using idle by (simp_all add: m3_def m2_def reserve_first unreserve_def fun_upd_idem holders_def)
    obtain x where "run_alone (drop_holder w owner e (\<lambda>r. Unlock key (answer_unit r))) P m = (x, m3, [ReleaseClient s])"
      using True by (simp add: drop_holder_def run_metadata m1 run_release_if_idle [OF idle] answer_unit_def
          m2_def [symmetric] m3_def [symmetric] s_def [symmetric] Let_def)
    then show ?thesis using m3 m1s True by (simp add: good_def)
  next
    case False
    then obtain x where "run_alone (drop_holder w owner e (\<lambda>r. Unlock key (answer_unit r))) P m = (x, m1, [])"
      by (auto simp: drop_holder_def run_metadata m1 answer_unit_def)
    then show ?thesis using m1s False by (auto simp: good_def)
  qed
  have ask: "good (run_alone (Ask q k) P m)" if "q \<noteq> ReleaseClient s" "good (run_alone (k (P q)) P m)" for q k
    using that by (cases "run_alone (k (P q)) P m") (simp add: good_def)
  have scope: "good (run_alone (Ask (ReleaseScope s owner)
      (\<lambda>a. drop_holder w owner (if a = Raised then Some ProviderFailed else None) (\<lambda>r. Unlock key (answer_unit r)))) P m)" for key
    by (rule ask) (simp, rule drop)
  have "good (run_alone (Ask (GetClient s) (\<lambda>a. case a of
                 Client True \<Rightarrow> Ask (ReleaseScope s owner)
                   (\<lambda>a. drop_holder w owner (if a = Raised then Some ProviderFailed else None) (\<lambda>r. Unlock key (answer_unit r)))
               | Client False \<Rightarrow> drop_holder w owner None (\<lambda>r. Unlock key (answer_unit r))
               | _ \<Rightarrow> drop_holder w owner (Some ProviderFailed) (\<lambda>r. Unlock key (answer_unit r)))) P m)" for key
    by (rule ask, simp) (cases "P (GetClient s)"; simp add: drop scope del: run_alone.simps split: bool.split)
  then have "good (run_alone (lease_release w owner answer_unit) P m)"
    by (simp add: lease_release_def holding_key_def run_metadata assms(2) s_def [symmetric] del: run_alone.simps(3))
  then show ?thesis by (simp add: good_def Let_def case_prod_beta s_def wanted_def alone_def)
qed

theorem release_parks_for_the_last_witness:
  "\<exists>m b x m' qs. lm_bindings m ''fork'' = Some b \<and> \<not> lb_release_on_last b
    \<and> run_alone (lease_release 3 ''fork'' answer_unit) (\<lambda>_. Raised) m = (x, m', qs) \<and> ReleaseClient ''s'' \<in> set qs"
proof -
  have "case acts (take 21 shared_client) idle_system of Some y \<Rightarrow>
      (case lm_bindings (sy_state y) ''fork'' of Some b \<Rightarrow> lb_sandbox b = ''s'' \<and> \<not> lb_release_on_last b
        \<and> ''s'' \<in> lm_pending (sy_state y) \<and> holders (sy_state y) ''s'' = {''fork''} \<and> lm_teardowns (sy_state y) ''s'' = None
       | None \<Rightarrow> False) | None \<Rightarrow> False" by code_simp
  then obtain y b where y: "acts (take 21 shared_client) idle_system = Some y"
    "lm_bindings (sy_state y) ''fork'' = Some b" "lb_sandbox b = ''s''" "\<not> lb_release_on_last b"
    "''s'' \<in> lm_pending (sy_state y)" "holders (sy_state y) ''s'' = {''fork''}" "lm_teardowns (sy_state y) ''s'' = None"
    by (auto split: option.splits)
  obtain g h where "system_ok y g h" using lease_run_ok [OF acts_run [OF y(1) lease_run.begin_run]] by blast
  then have ok: "lease_ok (sy_state y)" by (rule system_okD(1))
  obtain x m' qs where r: "run_alone (lease_release 3 ''fork'' answer_unit) (\<lambda>_. Raised) (sy_state y) = (x, m', qs)"
    by (rule prod_cases3)
  have "lm_teardowns (sy_state y) (lb_sandbox b) = None" using y(3,7) by simp
  then have "ReleaseClient ''s'' \<in> set qs"
    using release_parks_for_the_last [OF ok y(2), of 3 "\<lambda>_. Raised"] y(3-6) unfolding r by (simp add: Let_def)
  with y(2,4) r show ?thesis by blast
qed

text \<open>
  A park request can outlive its client: when the provider's cleanup reserves the client between the last
  holder's removal and its own reservation, the request stays pending. A later holder of the rebuilt
  client that asked for no park then parks it.
\<close>

lemma stale_park_request:
  "case acts [Start 0 (Acquire False ''run'' (''u'', ''t'') True), Go 0, Go 0, Reply 0 (Acquired ''s''), Go 0,
      Reply 0 (Client True), Go 0, Go 0, Go 0,
      Start 1 (Release False ''run''), Go 1, Go 1, Go 1, Reply 1 (Client True), Reply 1 Returned, Go 1,
      Start 2 (CleanUp ''s''), Go 2, Go 1, Go 1, Reply 2 Returned, Go 2,
      Start 3 (Acquire True ''upload'' (''u'', ''t'') False), Go 3, Go 3, Reply 3 (Acquired ''s''), Go 3,
      Reply 3 (Client True), Go 3, Go 3, Go 3,
      Start 4 (Release False ''upload''), Go 4, Go 4, Go 4, Reply 4 (Client True), Reply 4 Returned, Go 4, Go 4, Go 4]
     idle_system of Some y \<Rightarrow> finished y 1 \<and> finished y 2 \<and> finished y 3 \<and> asks y 4 (ReleaseClient ''s'')
   | None \<Rightarrow> False"
  by code_simp

end
