(* ===== verification/AcquireSerialization.thy ===== *)
theory AcquireSerialization
  imports KeyedLock
begin

text \<open>
  The acquire serializer of the sandbox providers and of the lease manager
  (\<^verbatim>\<open>backend/packages/harness/deerflow/sandbox/acquire_serialization.py\<close>): per-key locks for threads and
  for asyncio tasks. A task waits for its lock through a job on a dedicated executor; a small state,
  guarded by a lock of its own, decides which of the job, the task and the executor's callback gives
  the lock and the table entry back when the task is cancelled or the executor shuts down.

  The table has the shape of the thread-side table of keyed locks (\<open>en_participants\<close> is \<^verbatim>\<open>refs\<close>), so the
  serializer is another instance of \<open>lock_table\<close>: every step of a caller is a step of an abstract
  holder or changes nothing that the table sees.
\<close>

section \<open>The table\<close>

datatype serializer_error = SerializerClosed | LockNotHeld

record 'k serializer =
  sz_table :: "'k thread_table"
  sz_closed :: bool

definition serializer_checkout :: "'k \<Rightarrow> 'k serializer \<Rightarrow> serializer_error + nat \<times> 'k serializer" where
  "serializer_checkout k z =
     (if sz_closed z then Inl SerializerClosed
      else (let (e, t) = thread_checkout k (sz_table z) in Inr (e, z\<lparr>sz_table := t\<rparr>)))"

definition table_checkin :: "'k \<Rightarrow> nat \<Rightarrow> 'k thread_table \<Rightarrow> 'k thread_table" where
  "table_checkin k e t =
     (let t1 = t\<lparr>tt_heap := drop_participant e (tt_heap t)\<rparr>
      in if en_participants (tt_heap t1 ! e) = 0 \<and> \<not> en_locked (tt_heap t1 ! e)
         then t1\<lparr>tt_entries := od_del k (tt_entries t1)\<rparr> else t1)"

definition serializer_checkin :: "'k \<Rightarrow> nat \<Rightarrow> 'k serializer \<Rightarrow> 'k serializer" where
  "serializer_checkin k e z = z\<lparr>sz_table := table_checkin k e (sz_table z)\<rparr>"

definition set_lock :: "nat \<Rightarrow> bool \<Rightarrow> 'k serializer \<Rightarrow> 'k serializer" where
  "set_lock e b z = z\<lparr>sz_table := thread_set_locked e b (sz_table z)\<rparr>"

definition new_serializer :: "'k serializer" where
  "new_serializer = \<lparr>sz_table = new_threads, sz_closed = False\<rparr>"

section \<open>The handoff\<close>

record handoff =
  ho_abandoned :: bool
  ho_acquired :: bool
  ho_cleaned :: bool

definition new_handoff :: handoff where
  "new_handoff = \<lparr>ho_abandoned = False, ho_acquired = False, ho_cleaned = False\<rparr>"

definition mark_cleaned :: "handoff \<Rightarrow> bool \<times> handoff" where
  "mark_cleaned h = (if ho_cleaned h then (False, h) else (True, h\<lparr>ho_cleaned := True\<rparr>))"

text \<open>The sections under the state lock; the flag says whether this actor must clean up.\<close>

definition run_section :: "handoff \<Rightarrow> bool \<times> handoff" where
  "run_section h = (if ho_abandoned h then mark_cleaned h else (False, h\<lparr>ho_acquired := True\<rparr>))"

definition give_up :: "handoff \<Rightarrow> bool \<times> handoff" where
  "give_up h = (if ho_acquired h
     then (case mark_cleaned h of (True, h1) \<Rightarrow> (True, h1\<lparr>ho_acquired := False\<rparr>) | (False, h1) \<Rightarrow> (False, h1))
     else (False, h))"

definition abandon_section :: "handoff \<Rightarrow> bool \<times> handoff" where
  "abandon_section h = give_up (h\<lparr>ho_abandoned := True\<rparr>)"

definition release_section :: "handoff \<Rightarrow> serializer_error + handoff" where
  "release_section h = (case give_up h of (True, h1) \<Rightarrow> Inr h1 | (False, h1) \<Rightarrow> Inl LockNotHeld)"

section \<open>Callers\<close>

text \<open>
  Where the executor's job, the task and the executor's callback of one \<^verbatim>\<open>hold_async\<close> stand. \<open>WUnlock\<close> and
  \<open>TUnlock\<close> are about to release the lock, \<open>WCheckin\<close>, \<open>TCheckin\<close> and \<open>CCheckin\<close> to check in.
\<close>

datatype job_at = Unsubmitted | Queued | Blocked | GotLock | WUnlock | WCheckin | JobReturned bool | JobCancelled
datatype task_at = Awaiting | Inside | TUnlock | TCheckin | Out
datatype callback_at = NotCalled | CCheckin | Called

record 'k async_call =
  as_key :: 'k
  as_entry :: nat
  as_handoff :: handoff
  as_job :: job_at
  as_task :: task_at
  as_callback :: callback_at
  as_checkins :: nat

datatype 'k call = SyncCall 'k nat phase | SyncOut | AsyncCall "'k async_call"

definition new_call :: "'k \<Rightarrow> nat \<Rightarrow> 'k async_call" where
  "new_call k e = \<lparr>as_key = k, as_entry = e, as_handoff = new_handoff, as_job = Unsubmitted, as_task = Awaiting,
     as_callback = NotCalled, as_checkins = 0\<rparr>"

text \<open>
  The steps of one asynchronous call, with what each does to the serializer. \<open>closed\<close> says whether
  \<^verbatim>\<open>close\<close> has shut the executor down. A cancelled task that does not see the job cancelled abandons it.
\<close>

inductive async_step :: "'k async_call \<Rightarrow> 'k serializer \<Rightarrow> 'k async_call \<Rightarrow> 'k serializer \<Rightarrow> bool" where
  submit: "as_job c = Unsubmitted \<Longrightarrow> \<not> sz_closed z \<Longrightarrow> async_step c z (c\<lparr>as_job := Queued\<rparr>) z"
| submit_refused: "as_job c = Unsubmitted \<Longrightarrow> sz_closed z \<Longrightarrow> async_step c z
    (c\<lparr>as_job := JobCancelled, as_task := Out, as_callback := Called, as_checkins := Suc (as_checkins c)\<rparr>)
    (serializer_checkin (as_key c) (as_entry c) z)"
| job_starts: "as_job c = Queued \<Longrightarrow> async_step c z (c\<lparr>as_job := Blocked\<rparr>) z"
| job_locks: "as_job c = Blocked \<Longrightarrow> \<not> snd (thread_cell (sz_table z) (as_entry c))
    \<Longrightarrow> async_step c z (c\<lparr>as_job := GotLock\<rparr>) (set_lock (as_entry c) True z)"
| job_hands_over: "as_job c = GotLock \<Longrightarrow> run_section (as_handoff c) = (cleanup, h) \<Longrightarrow> async_step c z
    (c\<lparr>as_handoff := h, as_job := (if cleanup then WUnlock else JobReturned True)\<rparr>) z"
| job_unlocks: "as_job c = WUnlock \<Longrightarrow> async_step c z (c\<lparr>as_job := WCheckin\<rparr>) (set_lock (as_entry c) False z)"
| job_checks_in: "as_job c = WCheckin \<Longrightarrow> async_step c z
    (c\<lparr>as_job := JobReturned False, as_checkins := Suc (as_checkins c)\<rparr>) (serializer_checkin (as_key c) (as_entry c) z)"
| shut_down: "as_job c = Queued \<Longrightarrow> sz_closed z \<Longrightarrow> async_step c z (c\<lparr>as_job := JobCancelled\<rparr>) z"
| called_back: "as_job c = JobCancelled \<Longrightarrow> as_callback c = NotCalled \<Longrightarrow> mark_cleaned (as_handoff c) = (cleanup, h)
    \<Longrightarrow> async_step c z (c\<lparr>as_handoff := h, as_callback := (if cleanup then CCheckin else Called)\<rparr>) z"
| callback_checks_in: "as_callback c = CCheckin \<Longrightarrow> async_step c z
    (c\<lparr>as_callback := Called, as_checkins := Suc (as_checkins c)\<rparr>) (serializer_checkin (as_key c) (as_entry c) z)"
| task_enters: "as_job c = JobReturned True \<Longrightarrow> as_task c = Awaiting \<Longrightarrow> async_step c z (c\<lparr>as_task := Inside\<rparr>) z"
| task_abandons: "as_job c \<noteq> Unsubmitted \<Longrightarrow> as_task c = Awaiting \<Longrightarrow> abandon_section (as_handoff c) = (cleanup, h)
    \<Longrightarrow> async_step c z (c\<lparr>as_handoff := h, as_task := (if cleanup then TUnlock else Out)\<rparr>) z"
| task_cancels_queued: "as_job c = JobCancelled \<Longrightarrow> as_task c = Awaiting \<Longrightarrow> mark_cleaned (as_handoff c) = (cleanup, h)
    \<Longrightarrow> async_step c z (c\<lparr>as_handoff := h, as_task := (if cleanup then TCheckin else Out)\<rparr>) z"
| task_leaves: "as_task c = Inside \<Longrightarrow> release_section (as_handoff c) = Inr h
    \<Longrightarrow> async_step c z (c\<lparr>as_handoff := h, as_task := TUnlock\<rparr>) z"
| task_unlocks: "as_task c = TUnlock \<Longrightarrow> async_step c z (c\<lparr>as_task := TCheckin\<rparr>) (set_lock (as_entry c) False z)"
| task_checks_in: "as_task c = TCheckin \<Longrightarrow> async_step c z
    (c\<lparr>as_task := Out, as_checkins := Suc (as_checkins c)\<rparr>) (serializer_checkin (as_key c) (as_entry c) z)"

inductive serial_step ::
  "'k serializer \<Rightarrow> (nat \<Rightarrow> 'k call option) \<Rightarrow> 'k serializer \<Rightarrow> (nat \<Rightarrow> 'k call option) \<Rightarrow> bool" where
  hold_enters: "cs p = None \<Longrightarrow> serializer_checkout k z = Inr (e, z') \<Longrightarrow> serial_step z cs z' (cs(p \<mapsto> SyncCall k e Waiting))"
| hold_locks: "cs p = Some (SyncCall k e Waiting) \<Longrightarrow> \<not> snd (thread_cell (sz_table z) e)
    \<Longrightarrow> serial_step z cs (set_lock e True z) (cs(p \<mapsto> SyncCall k e Holding))"
| hold_unlocks: "cs p = Some (SyncCall k e Holding) \<Longrightarrow> serial_step z cs (set_lock e False z) (cs(p \<mapsto> SyncCall k e Leaving))"
| hold_checks_in: "cs p = Some (SyncCall k e Leaving) \<Longrightarrow> serial_step z cs (serializer_checkin k e z) (cs(p \<mapsto> SyncOut))"
| hold_async_enters: "cs p = None \<Longrightarrow> serializer_checkout k z = Inr (e, z') \<Longrightarrow> serial_step z cs z' (cs(p \<mapsto> AsyncCall (new_call k e)))"
| hold_async_step: "cs p = Some (AsyncCall c) \<Longrightarrow> async_step c z c' z' \<Longrightarrow> serial_step z cs z' (cs(p \<mapsto> AsyncCall c'))"
| close: "serial_step z cs (z\<lparr>sz_closed := True\<rparr>) cs"

inductive serial_run :: "'k serializer \<Rightarrow> (nat \<Rightarrow> 'k call option) \<Rightarrow> bool" where
  opened: "serial_run new_serializer Map.empty"
| stepped: "serial_run z cs \<Longrightarrow> serial_step z cs z' cs' \<Longrightarrow> serial_run z' cs'"

section \<open>An instance of the lock table\<close>

lemma table_checkin_registered: "thread_reg t k = Some e \<Longrightarrow> table_checkin k e t = thread_checkin k e t"
  by (simp add: table_checkin_def thread_checkin_def thread_reg_def Let_def)

interpretation serials: lock_table thread_ok thread_reg thread_cell thread_checkout table_checkin thread_set_locked
proof
  fix t :: "'k thread_table" and k :: 'k and h n l
  assume a: "thread_ok t" "thread_reg t k = Some h" "thread_cell t h = (Suc n, l)"
  show "thread_ok (table_checkin k h t)
      \<and> thread_reg (table_checkin k h t) = (if n = 0 \<and> \<not> l then (thread_reg t)(k := None) else thread_reg t)
      \<and> thread_cell (table_checkin k h t) h = (n, l)
      \<and> (\<forall>j g. j \<noteq> k \<longrightarrow> thread_reg t j = Some g \<longrightarrow> thread_cell (table_checkin k h t) g = thread_cell t g)"
    using thread_checkin_law [OF a] by (simp add: table_checkin_registered [OF a(2)])
qed (erule (1) threads.reg_inj threads.checkout_known threads.checkout_new threads.set_locked_reg; assumption)+

section \<open>Every caller is a holder\<close>

text \<open>The legal combinations of where the three actors stand.\<close>

fun legal_job :: "job_at \<Rightarrow> handoff \<Rightarrow> task_at \<Rightarrow> callback_at \<Rightarrow> nat \<Rightarrow> bool" where
  "legal_job (JobReturned True) h t b n \<longleftrightarrow> b = NotCalled \<and> (case t of
       Out \<Rightarrow> ho_cleaned h \<and> \<not> ho_acquired h \<and> n = 1
     | TUnlock \<Rightarrow> ho_cleaned h \<and> \<not> ho_acquired h \<and> n = 0
     | TCheckin \<Rightarrow> ho_cleaned h \<and> \<not> ho_acquired h \<and> n = 0
     | _ \<Rightarrow> ho_acquired h \<and> \<not> ho_cleaned h \<and> n = 0)"
| "legal_job (JobReturned False) h t b n \<longleftrightarrow> b = NotCalled \<and> t = Out \<and> ho_cleaned h \<and> \<not> ho_acquired h \<and> n = 1"
| "legal_job JobCancelled h t b n \<longleftrightarrow> \<not> ho_acquired h \<and> t \<noteq> Inside \<and> t \<noteq> TUnlock
     \<and> (b = Called \<longrightarrow> ho_cleaned h \<or> t = Out)
     \<and> n + (if t = TCheckin then 1 else 0) + (if b = CCheckin then 1 else 0) = (if ho_cleaned h \<or> b = Called then 1 else 0)"
| "legal_job WUnlock h t b n \<longleftrightarrow> b = NotCalled \<and> t = Out \<and> ho_cleaned h \<and> \<not> ho_acquired h \<and> n = 0"
| "legal_job WCheckin h t b n \<longleftrightarrow> b = NotCalled \<and> t = Out \<and> ho_cleaned h \<and> \<not> ho_acquired h \<and> n = 0"
| "legal_job j h t b n \<longleftrightarrow> b = NotCalled \<and> \<not> ho_cleaned h \<and> \<not> ho_acquired h \<and> n = 0
     \<and> t = (if ho_abandoned h then Out else Awaiting) \<and> (j = Unsubmitted \<longrightarrow> t = Awaiting)"

definition legal :: "'k async_call \<Rightarrow> bool" where
  "legal c \<longleftrightarrow> legal_job (as_job c) (as_handoff c) (as_task c) (as_callback c) (as_checkins c)"

text \<open>The holder that a caller amounts to; none once it has checked in.\<close>

definition holder_of :: "'k async_call \<Rightarrow> ('k \<times> nat \<times> phase) option" where
  "holder_of c = (if as_checkins c \<noteq> 0 then None
     else Some (as_key c, as_entry c,
       if as_job c \<in> {GotLock, WUnlock} \<or> as_job c = JobReturned True \<and> as_task c \<noteq> TCheckin then Holding
       else if as_job c = WCheckin \<or> as_job c = JobReturned True then Leaving else Waiting))"

fun call_holder :: "'k call \<Rightarrow> ('k \<times> nat \<times> phase) option" where
  "call_holder (SyncCall k e ph) = Some (k, e, ph)"
| "call_holder SyncOut = None"
| "call_holder (AsyncCall c) = holder_of c"

definition as_holders :: "(nat \<Rightarrow> 'k call option) \<Rightarrow> ('k, nat) callers" where
  "as_holders cs p = Option.bind (cs p) call_holder"

lemmas handoff_defs = run_section_def mark_cleaned_def abandon_section_def release_section_def give_up_def

lemma new_call_legal: "legal (new_call k e)" "holder_of (new_call k e) = Some (k, e, Waiting)"
  by (simp_all add: legal_def new_call_def new_handoff_def holder_of_def)

text \<open>What a step of a call is for the table.\<close>

definition simulated :: "'k async_call \<Rightarrow> 'k thread_table \<Rightarrow> 'k async_call \<Rightarrow> 'k thread_table \<Rightarrow> bool" where
  "simulated c t c' t' \<longleftrightarrow> (let k = as_key c; e = as_entry c in
     (holder_of c' = holder_of c \<and> t' = t)
     \<or> (holder_of c = Some (k, e, Waiting) \<and> \<not> snd (thread_cell t e) \<and> holder_of c' = Some (k, e, Holding)
         \<and> t' = thread_set_locked e True t)
     \<or> (holder_of c = Some (k, e, Waiting) \<and> holder_of c' = None \<and> t' = table_checkin k e t)
     \<or> (holder_of c = Some (k, e, Holding) \<and> holder_of c' = Some (k, e, Leaving) \<and> t' = thread_set_locked e False t)
     \<or> (holder_of c = Some (k, e, Leaving) \<and> holder_of c' = None \<and> t' = table_checkin k e t))"

lemma legal_returned: "legal_job (JobReturned locked) h t b n \<longleftrightarrow> b = NotCalled \<and> (case t of
       Out \<Rightarrow> ho_cleaned h \<and> \<not> ho_acquired h \<and> n = 1
     | TUnlock \<Rightarrow> locked \<and> ho_cleaned h \<and> \<not> ho_acquired h \<and> n = 0
     | TCheckin \<Rightarrow> locked \<and> ho_cleaned h \<and> \<not> ho_acquired h \<and> n = 0
     | _ \<Rightarrow> locked \<and> ho_acquired h \<and> \<not> ho_cleaned h \<and> n = 0)"
  by (cases locked) (auto split: task_at.split)

lemma async_step_legal: "async_step c z c' z' \<Longrightarrow> legal c \<Longrightarrow> legal c'"
proof (induction rule: async_step.induct)
  case (job_hands_over c cleanup h z)
  then show ?case by (auto simp: legal_def handoff_defs split: if_splits task_at.splits)
next
  case (task_abandons c cleanup h z)
  then show ?case
    by (cases "as_job c") (auto simp: legal_def legal_returned handoff_defs split: if_splits task_at.splits)
next
  case (task_leaves c h z)
  then show ?case
    by (cases "as_job c") (auto simp: legal_def legal_returned handoff_defs split: if_splits task_at.splits)
next
  case (task_unlocks c z)
  then show ?case by (cases "as_job c") (auto simp: legal_def legal_returned split: if_splits)
next
  case (task_checks_in c z)
  then show ?case by (cases "as_job c") (auto simp: legal_def legal_returned split: if_splits)
next
  case (callback_checks_in c z)
  then show ?case by (cases "as_job c") (auto simp: legal_def legal_returned split: if_splits)
qed (auto simp: legal_def handoff_defs split: if_splits task_at.splits)

lemma async_step_simulated:
  "async_step c z c' z' \<Longrightarrow> legal c \<Longrightarrow> simulated c (sz_table z) c' (sz_table z')"
proof (induction rule: async_step.induct)
  case (task_abandons c cleanup h z)
  then show ?case
    by (cases "as_job c") (auto simp: legal_def legal_returned handoff_defs simulated_def holder_of_def split: if_splits)
next
  case (task_leaves c h z)
  then show ?case
    by (cases "as_job c") (auto simp: legal_def legal_returned handoff_defs simulated_def holder_of_def split: if_splits)
next
  case (task_unlocks c z)
  then show ?case
    by (cases "as_job c") (auto simp: legal_def legal_returned simulated_def holder_of_def set_lock_def split: if_splits)
next
  case (task_checks_in c z)
  then show ?case
    by (cases "as_job c") (auto simp: legal_def legal_returned simulated_def holder_of_def serializer_checkin_def split: if_splits)
next
  case (callback_checks_in c z)
  then show ?case
    by (cases "as_job c") (auto simp: legal_def legal_returned simulated_def holder_of_def serializer_checkin_def split: if_splits)
qed (auto simp: legal_def handoff_defs simulated_def holder_of_def set_lock_def serializer_checkin_def split: if_splits task_at.splits)

text \<open>A run of the serializer is a run of abstract holders on the same table.\<close>

abbreviation holder_runs :: "'k thread_table \<Rightarrow> ('k, nat) callers \<Rightarrow> bool" where
  "holder_runs t hs \<equiv> hold_steps thread_checkout table_checkin thread_set_locked thread_cell new_threads t hs"

lemma as_holders_update: "as_holders (cs(p \<mapsto> c)) = (as_holders cs)(p := call_holder c)"
  by (auto simp: as_holders_def fun_eq_iff)

lemma as_holders_same: "as_holders cs p = h \<Longrightarrow> (as_holders cs)(p := h) = as_holders cs"
  by (auto simp: fun_eq_iff)

lemma simulated_run:
  assumes sim: "simulated c t c' t'" and run: "holder_runs t (as_holders cs)" and p: "cs p = Some (AsyncCall c)"
  shows "holder_runs t' (as_holders (cs(p \<mapsto> AsyncCall c')))"
proof -
  have h: "as_holders cs p = holder_of c" using p by (simp add: as_holders_def)
  note go = hold_steps.step [OF run]
  show ?thesis
    using sim unfolding simulated_def Let_def as_holders_update call_holder.simps
  proof (elim disjE conjE)
    assume "holder_of c' = holder_of c" "t' = t"
    then show "holder_runs t' ((as_holders cs)(p := holder_of c'))" using run h by (simp add: as_holders_same)
  next
    assume "holder_of c = Some (as_key c, as_entry c, Waiting)" "\<not> snd (thread_cell t (as_entry c))"
      "holder_of c' = Some (as_key c, as_entry c, Holding)" "t' = thread_set_locked (as_entry c) True t"
    then show "holder_runs t' ((as_holders cs)(p := holder_of c'))" using h by (auto intro: go hold_step.acquire)
  next
    assume "holder_of c = Some (as_key c, as_entry c, Waiting)" "holder_of c' = None"
      "t' = table_checkin (as_key c) (as_entry c) t"
    then show "holder_runs t' ((as_holders cs)(p := holder_of c'))" using h by (auto intro: go hold_step.cancelled)
  next
    assume "holder_of c = Some (as_key c, as_entry c, Holding)" "holder_of c' = Some (as_key c, as_entry c, Leaving)"
      "t' = thread_set_locked (as_entry c) False t"
    then show "holder_runs t' ((as_holders cs)(p := holder_of c'))" using h by (auto intro: go hold_step.release)
  next
    assume "holder_of c = Some (as_key c, as_entry c, Leaving)" "holder_of c' = None"
      "t' = table_checkin (as_key c) (as_entry c) t"
    then show "holder_runs t' ((as_holders cs)(p := holder_of c'))" using h by (auto intro: go hold_step.leave)
  qed
qed

lemma checkout_step: "serializer_checkout k z = Inr (e, z') \<Longrightarrow> thread_checkout k (sz_table z) = (e, sz_table z')"
  by (auto simp: serializer_checkout_def split: if_splits prod.splits)

definition calls_legal :: "(nat \<Rightarrow> 'k call option) \<Rightarrow> bool" where
  "calls_legal cs \<longleftrightarrow> (\<forall>p c. cs p = Some (AsyncCall c) \<longrightarrow> legal c)"

lemma serial_step_simulated:
  assumes "serial_step z cs z' cs'" "holder_runs (sz_table z) (as_holders cs)" "calls_legal cs"
  shows "holder_runs (sz_table z') (as_holders cs') \<and> calls_legal cs'"
  using assms(1)
proof cases
  case (hold_enters p k e)
  have "hold_step thread_checkout table_checkin thread_set_locked thread_cell (sz_table z) (as_holders cs)
      (sz_table z') ((as_holders cs)(p \<mapsto> (k, e, Waiting)))"
    by (rule hold_step.enter) (use hold_enters(2) checkout_step [OF hold_enters(3)] in \<open>simp_all add: as_holders_def\<close>)
  from hold_steps.step [OF assms(2) this] show ?thesis
    using hold_enters(1) assms(3) by (simp add: as_holders_update calls_legal_def)
next
  case (hold_locks p k e)
  have "hold_step thread_checkout table_checkin thread_set_locked thread_cell (sz_table z) (as_holders cs)
      (thread_set_locked e True (sz_table z)) ((as_holders cs)(p \<mapsto> (k, e, Holding)))"
    by (rule hold_step.acquire) (use hold_locks in \<open>simp_all add: as_holders_def\<close>)
  from hold_steps.step [OF assms(2) this] show ?thesis
    using hold_locks(1,2) assms(3) by (simp add: as_holders_update calls_legal_def set_lock_def)
next
  case (hold_unlocks p k e)
  have "hold_step thread_checkout table_checkin thread_set_locked thread_cell (sz_table z) (as_holders cs)
      (thread_set_locked e False (sz_table z)) ((as_holders cs)(p \<mapsto> (k, e, Leaving)))"
    by (rule hold_step.release) (use hold_unlocks in \<open>simp add: as_holders_def\<close>)
  from hold_steps.step [OF assms(2) this] show ?thesis
    using hold_unlocks(1,2) assms(3) by (simp add: as_holders_update calls_legal_def set_lock_def)
next
  case (hold_checks_in p k e)
  have "hold_step thread_checkout table_checkin thread_set_locked thread_cell (sz_table z) (as_holders cs)
      (table_checkin k e (sz_table z)) ((as_holders cs)(p := None))"
    by (rule hold_step.leave) (use hold_checks_in in \<open>simp add: as_holders_def\<close>)
  from hold_steps.step [OF assms(2) this] show ?thesis
    using hold_checks_in(1,2) assms(3) by (simp add: as_holders_update calls_legal_def serializer_checkin_def)
next
  case (hold_async_enters p k e)
  have "hold_step thread_checkout table_checkin thread_set_locked thread_cell (sz_table z) (as_holders cs)
      (sz_table z') ((as_holders cs)(p \<mapsto> (k, e, Waiting)))"
    by (rule hold_step.enter) (use hold_async_enters(2) checkout_step [OF hold_async_enters(3)] in \<open>simp_all add: as_holders_def\<close>)
  from hold_steps.step [OF assms(2) this] show ?thesis
    using hold_async_enters(1) assms(3) by (simp add: as_holders_update calls_legal_def new_call_legal)
next
  case (hold_async_step p c c')
  have "legal c" using assms(3) hold_async_step(2) by (simp add: calls_legal_def)
  then have "legal c'" "simulated c (sz_table z) c' (sz_table z')"
    using async_step_legal async_step_simulated hold_async_step(3) by blast+
  then show ?thesis
    using simulated_run [OF _ assms(2) hold_async_step(2)] hold_async_step(1) assms(3) by (simp add: calls_legal_def)
next
  case close
  then show ?thesis using assms(2,3) by simp
qed

lemma serial_run_simulated:
  "serial_run z cs \<Longrightarrow> holder_runs (sz_table z) (as_holders cs) \<and> calls_legal cs"
proof (induction rule: serial_run.induct)
  case opened
  have e: "as_holders Map.empty = (\<lambda>_. None)" by (simp add: as_holders_def fun_eq_iff)
  show ?case using hold_steps.start by (simp add: new_serializer_def calls_legal_def e)
next
  case (stepped z cs z' cs')
  then show ?case using serial_step_simulated by blast
qed

lemma new_threads_ok: "thread_ok new_threads" "thread_reg new_threads = Map.empty"
  by (simp_all add: thread_ok_def thread_reg_def new_threads_def fun_eq_iff)

section \<open>Properties\<close>

fun inside :: "'k call \<Rightarrow> 'k \<Rightarrow> bool" where
  "inside (SyncCall k e ph) j \<longleftrightarrow> k = j \<and> ph = Holding"
| "inside SyncOut j \<longleftrightarrow> False"
| "inside (AsyncCall c) j \<longleftrightarrow> as_key c = j \<and> as_task c = Inside"

lemma inside_holds: "inside c k \<Longrightarrow> (\<And>a. c = AsyncCall a \<Longrightarrow> legal a) \<Longrightarrow> \<exists>e. call_holder c = Some (k, e, Holding)"
proof (cases c)
  case (AsyncCall a)
  assume i: "inside c k" and "\<And>a. c = AsyncCall a \<Longrightarrow> legal a"
  then have "legal a" "as_task a = Inside" "as_key a = k" using AsyncCall by auto
  then show ?thesis
    using AsyncCall by (cases "as_job a") (auto simp: legal_def legal_returned holder_of_def split: if_splits)
qed auto

text \<open>
  C15. At most one caller, thread or task, is inside the critical section of a key, in every
  interleaving of entries, cancellations before or after the lock was handed over, and shutdown; and a
  task that is inside can always leave: its release never finds the lock not held.
\<close>

theorem serializer_hold_is_exclusive:
  assumes "serial_run z cs" "cs p = Some c" "inside c k"
  shows "(\<forall>q d. cs q = Some d \<longrightarrow> inside d k \<longrightarrow> q = p)
    \<and> (\<forall>a. c = AsyncCall a \<longrightarrow> (\<exists>h. release_section (as_handoff a) = Inr h))"
proof -
  have run: "holder_runs (sz_table z) (as_holders cs)" and legal: "calls_legal cs"
    using serial_run_simulated [OF assms(1)] by blast+
  have l: "\<And>a. d = AsyncCall a \<Longrightarrow> legal a" if "cs q = Some d" for q d
    using legal that by (simp add: calls_legal_def)
  have h: "\<exists>e. as_holders cs q = Some (k, e, Holding)" if "cs q = Some d" "inside d k" for q d
    using inside_holds [OF that(2) l [OF that(1)]] that(1) by (simp add: as_holders_def)
  have "q = p" if "cs q = Some d" "inside d k" for q d
    using serials.serialized(2) [OF run new_threads_ok] h [OF that] h [OF assms(2,3)] by blast
  moreover have "\<exists>h. release_section (as_handoff a) = Inr h" if "c = AsyncCall a" for a
    using l [OF assms(2) that] assms(3) that
    by (cases "as_job a") (auto simp: legal_def legal_returned handoff_defs split: if_splits)
  ultimately show ?thesis by blast
qed

text \<open>A call is over when its task is out and neither the job nor the callback has work left.\<close>

fun call_over :: "'k call \<Rightarrow> bool" where
  "call_over (SyncCall k e ph) = False"
| "call_over SyncOut = True"
| "call_over (AsyncCall c) \<longleftrightarrow> as_task c = Out \<and> (case as_job c of
       JobReturned _ \<Rightarrow> True | JobCancelled \<Rightarrow> as_callback c = Called | _ \<Rightarrow> False)"

lemma over_checked_in: "call_over (AsyncCall a) \<Longrightarrow> legal a \<Longrightarrow> as_checkins a = 1"
  by (cases "as_job a") (auto simp: legal_def legal_returned split: if_splits)

text \<open>
  C39. A call checks in exactly once, whichever of its task, the executor's job and the callback does
  it; when all calls are over the table is empty: no cancellation or shutdown leaks a lock or an entry.
\<close>

theorem serializer_leaks_nothing:
  assumes "serial_run z cs" "\<And>p c. cs p = Some c \<Longrightarrow> call_over c"
  shows "(\<forall>p a. cs p = Some (AsyncCall a) \<longrightarrow> as_checkins a = 1) \<and> thread_reg (sz_table z) = Map.empty"
proof -
  have run: "holder_runs (sz_table z) (as_holders cs)" and legal: "calls_legal cs"
    using serial_run_simulated [OF assms(1)] by blast+
  have once: "as_checkins a = 1" if "cs p = Some (AsyncCall a)" for p a
    using over_checked_in [OF assms(2) [OF that]] legal that by (simp add: calls_legal_def)
  have "as_holders cs p = None" for p
  proof (cases "cs p")
    case (Some c)
    then show ?thesis using assms(2) [OF Some] once by (cases c) (auto simp: as_holders_def holder_of_def)
  qed (simp add: as_holders_def)
  then have "thread_reg (sz_table z) k = None" for k
    using serials.serialized(4) [OF run new_threads_ok, of k] by auto
  with once show ?thesis by (auto simp: fun_eq_iff)
qed

text \<open>Two runs of one call: it is cancelled while its job waits, and it gets the lock.\<close>

definition table_with_one :: "nat serializer" where
  "table_with_one = snd (the (case serializer_checkout 5 new_serializer of Inl e \<Rightarrow> None | Inr r \<Rightarrow> Some r))"

lemma table_with_one: "serializer_checkout 5 new_serializer = Inr (0, table_with_one)" "\<not> sz_closed table_with_one"
    "\<not> snd (thread_cell (sz_table table_with_one) 0)"
  by (simp_all add: table_with_one_def serializer_checkout_def new_serializer_def thread_checkout_def new_threads_def
      bump_def fresh_entry_def thread_cell_def)

definition call_at :: "handoff \<Rightarrow> job_at \<Rightarrow> task_at \<Rightarrow> nat \<Rightarrow> nat async_call" where
  "call_at h j t n = \<lparr>as_key = 5, as_entry = 0, as_handoff = h, as_job = j, as_task = t, as_callback = NotCalled, as_checkins = n\<rparr>"

abbreviation given_up :: handoff where
  "given_up \<equiv> \<lparr>ho_abandoned = True, ho_acquired = False, ho_cleaned = False\<rparr>"

lemma call_starts: "serial_run table_with_one [0 \<mapsto> AsyncCall (call_at new_handoff Blocked Awaiting 0)]"
proof -
  have "serial_run table_with_one [0 \<mapsto> AsyncCall (new_call 5 0)]"
    by (rule serial_run.stepped [OF serial_run.opened]) (rule serial_step.hold_async_enters, simp, rule table_with_one(1))
  moreover have "async_step (new_call 5 0) table_with_one (call_at new_handoff Queued Awaiting 0) table_with_one"
    using async_step.submit [of "new_call 5 0" table_with_one] table_with_one(2) by (simp add: new_call_def call_at_def)
  moreover have "async_step (call_at new_handoff Queued Awaiting 0) table_with_one (call_at new_handoff Blocked Awaiting 0) table_with_one"
    using async_step.job_starts [of "call_at new_handoff Queued Awaiting 0"] by (simp add: call_at_def)
  ultimately show ?thesis
    using serial_run.stepped serial_step.hold_async_step [of _ 0] by (metis fun_upd_same fun_upd_upd)
qed

lemma call_goes_on:
  "serial_run z [0 \<mapsto> AsyncCall c] \<Longrightarrow> async_step c z c' z' \<Longrightarrow> serial_run z' [0 \<mapsto> AsyncCall c']"
  using serial_run.stepped serial_step.hold_async_step [of _ 0] by (metis fun_upd_same fun_upd_upd)

theorem serializer_hold_is_exclusive_witness:
  "\<exists>z c. serial_run z [0 \<mapsto> c] \<and> inside c (5 :: nat) \<and> (\<forall>a. c = AsyncCall a \<longrightarrow> (\<exists>h. release_section (as_handoff a) = Inr h))"
proof -
  let ?z = "set_lock 0 True table_with_one" and ?h = "new_handoff\<lparr>ho_acquired := True\<rparr>"
  have "async_step (call_at new_handoff Blocked Awaiting 0) table_with_one (call_at new_handoff GotLock Awaiting 0) ?z"
    using async_step.job_locks [of "call_at new_handoff Blocked Awaiting 0" table_with_one] table_with_one(3) by (simp add: call_at_def)
  moreover have "async_step (call_at new_handoff GotLock Awaiting 0) ?z (call_at ?h (JobReturned True) Awaiting 0) ?z"
    using async_step.job_hands_over [of "call_at new_handoff GotLock Awaiting 0" False ?h ?z]
    by (simp add: call_at_def handoff_defs new_handoff_def)
  moreover have "async_step (call_at ?h (JobReturned True) Awaiting 0) ?z (call_at ?h (JobReturned True) Inside 0) ?z"
    using async_step.task_enters [of "call_at ?h (JobReturned True) Awaiting 0"] by (simp add: call_at_def)
  ultimately have run: "serial_run ?z [0 \<mapsto> AsyncCall (call_at ?h (JobReturned True) Inside 0)]"
    using call_goes_on call_starts by blast
  let ?c = "AsyncCall (call_at ?h (JobReturned True) Inside 0)"
  have i: "inside ?c 5" by (simp add: call_at_def)
  have "\<forall>a. ?c = AsyncCall a \<longrightarrow> (\<exists>h. release_section (as_handoff a) = Inr h)"
    using serializer_hold_is_exclusive [OF run fun_upd_same i] by (rule conjunct2)
  with run i show ?thesis by (intro exI [of _ ?z] exI [of _ ?c] conjI)
qed

theorem serializer_leaks_nothing_witness:
  "\<exists>z a. serial_run z [0 \<mapsto> AsyncCall a] \<and> ho_abandoned (as_handoff a) \<and> as_checkins a = 1
    \<and> thread_reg (sz_table (z :: nat serializer)) = Map.empty"
proof -
  let ?z = "set_lock 0 True table_with_one" and ?z' = "set_lock 0 False (set_lock 0 True table_with_one)"
  let ?h = "given_up\<lparr>ho_cleaned := True\<rparr>"
  have "async_step (call_at new_handoff Blocked Awaiting 0) table_with_one (call_at given_up Blocked Out 0) table_with_one"
    using async_step.task_abandons [of "call_at new_handoff Blocked Awaiting 0" False given_up]
    by (simp add: call_at_def handoff_defs new_handoff_def)
  moreover have "async_step (call_at given_up Blocked Out 0) table_with_one (call_at given_up GotLock Out 0) ?z"
    using async_step.job_locks [of "call_at given_up Blocked Out 0" table_with_one] table_with_one(3) by (simp add: call_at_def)
  moreover have "async_step (call_at given_up GotLock Out 0) ?z (call_at ?h WUnlock Out 0) ?z"
    using async_step.job_hands_over [of "call_at given_up GotLock Out 0" True ?h ?z] by (simp add: call_at_def handoff_defs)
  moreover have "async_step (call_at ?h WUnlock Out 0) ?z (call_at ?h WCheckin Out 0) ?z'"
    using async_step.job_unlocks [of "call_at ?h WUnlock Out 0" ?z] by (simp add: call_at_def)
  moreover have "async_step (call_at ?h WCheckin Out 0) ?z' (call_at ?h (JobReturned False) Out 1) (serializer_checkin 5 0 ?z')"
    using async_step.job_checks_in [of "call_at ?h WCheckin Out 0" ?z'] by (simp add: call_at_def)
  ultimately have run: "serial_run (serializer_checkin 5 0 ?z') [0 \<mapsto> AsyncCall (call_at ?h (JobReturned False) Out 1)]"
    using call_goes_on call_starts by blast
  have over: "call_over c" if "[0 \<mapsto> AsyncCall (call_at ?h (JobReturned False) Out 1)] p = Some c" for p c
    using that by (auto simp: call_at_def split: if_splits)
  have "thread_reg (sz_table (serializer_checkin 5 0 ?z')) = Map.empty"
    using serializer_leaks_nothing [OF run over] by (rule conjunct2)
  with run show ?thesis by (intro exI conjI) (assumption, simp_all add: call_at_def)
qed

end
