(* ===== verification/ToolProgress.thy ===== *)
theory ToolProgress
  imports Citations
begin

text \<open>
  Tool progress
  (\<^verbatim>\<open>backend/packages/harness/deerflow/agents/middlewares/tool_progress_middleware.py\<close>): a state machine
  per thread and tool that reads the metadata stamped on each tool result, warns the model when the
  results stop being useful, and blocks a tool that cannot recover.

  The middleware's lock makes every helper that touches its state one atomic step; the tool and the
  model run between them. Jaccard quotients are compared as floats: \<open>tp_similar\<close> is
  \<^verbatim>\<open>i / u >= threshold\<close>. The texts have one character beyond the 256 of \<^verbatim>\<open>char\<close>, a dash, which is an
  argument. The configuration requires room for one thread at least.
\<close>

section \<open>Configuration and metadata\<close>

record progress_config =
  tp_stagnation :: nat
  tp_escalation :: nat
  tp_inject :: bool
  tp_similar :: "nat \<Rightarrow> nat \<Rightarrow> bool"
  tp_min_words :: nat
  tp_exempt :: "string list"
  tp_max_threads :: nat
  tp_dash :: string

definition MAX_PENDING_PER_RUN :: nat where "MAX_PENDING_PER_RUN = 3"

definition MAX_CONTENT_FOR_WORDSET :: nat where "MAX_CONTENT_FOR_WORDSET = 8192"

record result_meta =
  rm_status :: pyval
  rm_error_type :: pyval
  rm_recoverable :: pyval
  rm_next_action :: pyval
  rm_source :: pyval

text \<open>\<^verbatim>\<open>ToolResultMeta(**meta)\<close>: exactly the five fields, of any type.\<close>

definition META_FIELDS :: "string list" where
  "META_FIELDS = [''status'', ''error_type'', ''recoverable_by_model'', ''recommended_next_action'', ''source'']"

definition parse_tool_meta :: "pyval option \<Rightarrow> result_meta option" where
  "parse_tool_meta v = (case v of
       Some (VDict d) \<Rightarrow> (if set (od_keys d) = set META_FIELDS
         then Some \<lparr>rm_status = od_get_default d ''status'' VNone, rm_error_type = od_get_default d ''error_type'' VNone,
                    rm_recoverable = od_get_default d ''recoverable_by_model'' VNone,
                    rm_next_action = od_get_default d ''recommended_next_action'' VNone,
                    rm_source = od_get_default d ''source'' VNone\<rparr>
         else None)
     | _ \<Rightarrow> None)"

section \<open>Content\<close>

text \<open>\<^verbatim>\<open>str.lower\<close> below 256.\<close>

definition lower_char :: "char \<Rightarrow> char" where
  "lower_char c = (let n = (of_char c :: nat) in
     if (65 \<le> n \<and> n \<le> 90) \<or> (192 \<le> n \<and> n \<le> 222 \<and> n \<noteq> 215) then char_of (n + 32) else c)"

text \<open>The runs of word characters; \<^verbatim>\<open>\b\w{3,}\b\<close> matches those of three characters or more.\<close>

fun word_runs :: "string \<Rightarrow> string \<Rightarrow> string list" where
  "word_runs [] w = (if w = [] then [] else [rev w])"
| "word_runs (c # cs) w =
     (if is_word c then word_runs cs (c # w) else if w = [] then word_runs cs [] else rev w # word_runs cs [])"

definition word_set :: "string \<Rightarrow> string set" where
  "word_set content = set (filter (\<lambda>w. 3 \<le> length w)
     (word_runs (map lower_char (take MAX_CONTENT_FOR_WORDSET content)) []))"

definition is_near_duplicate :: "progress_config \<Rightarrow> string set \<Rightarrow> string set list \<Rightarrow> bool" where
  "is_near_duplicate c current recent \<longleftrightarrow> tp_min_words c \<le> card current
     \<and> list_ex (\<lambda>prev. tp_min_words c \<le> card prev \<and> card (current \<union> prev) \<noteq> 0
          \<and> tp_similar c (card (current \<inter> prev)) (card (current \<union> prev))) (last_n 3 recent)"

text \<open>A result is a message or a command that wraps messages; \<open>None\<close> in a list is no tool message.\<close>

record result_message =
  ms_call_id :: string
  ms_content :: pyval
  ms_meta :: "pyval option"

datatype tool_result = Message result_message | CommandNoUpdate | CommandOther | CommandOne result_message
  | CommandMany "result_message option list"

definition result_tool_message :: "tool_result \<Rightarrow> string \<Rightarrow> result_message option" where
  "result_tool_message r call_id = (case r of
       Message x \<Rightarrow> Some x
     | CommandOne x \<Rightarrow> (if ms_call_id x = call_id then Some x else None)
     | CommandMany xs \<Rightarrow> Option.bind (find (\<lambda>x. map_option ms_call_id x = Some call_id) xs) (\<lambda>x. x)
     | _ \<Rightarrow> None)"

definition message_content_str :: "result_message \<Rightarrow> string" where
  "message_content_str x = (case ms_content x of VStr s \<Rightarrow> s | _ \<Rightarrow> [])"

section \<open>Texts\<close>

text \<open>\<^verbatim>\<open>table.get(key, default)\<close>: a list or a dictionary as the key raises, which is \<open>None\<close> here.\<close>

definition text_of :: "(string \<times> string) list \<Rightarrow> pyval \<Rightarrow> string \<Rightarrow> string option" where
  "text_of table key d = (case key of
       VStr s \<Rightarrow> Some (case map_of table s of None \<Rightarrow> d | Some t \<Rightarrow> t)
     | VList _ \<Rightarrow> None
     | VDict _ \<Rightarrow> None
     | _ \<Rightarrow> Some d)"

definition or_value :: "pyval \<Rightarrow> pyval \<Rightarrow> pyval" where
  "or_value a b = (if truthy a then a else b)"

definition hint_bases :: "(string \<times> string) list" where
  "hint_bases =
     [(''no_results'', ''[PROGRESS HINT] Your search returned no results.''),
      (''not_found'', ''[PROGRESS HINT] The resource was not found repeatedly.''),
      (''rate_limited'', ''[PROGRESS HINT] The tool is being rate-limited.''),
      (''transient'', ''[PROGRESS HINT] The tool encountered repeated transient failures.''),
      (''partial_success'', ''[PROGRESS HINT] The tool has returned incomplete results multiple times.''),
      (''success'', ''[PROGRESS HINT] The tool is returning duplicate results.'')]"

definition hint_actions :: "string \<Rightarrow> (string \<times> string) list" where
  "hint_actions dash =
     [(''rewrite_query'', ''Try rephrasing your search query with different keywords or approach.''),
      (''try_alternative'', ''Consider using a different tool or strategy.''),
      (''summarize'', ''Consider summarizing your current findings and moving forward.''),
      (''stop'', ''Do not retry this operation '' @ dash @ '' it is not recoverable.''),
      (''continue'', ''Try rephrasing your query or using a different search term.'')]"

definition format_hint :: "progress_config \<Rightarrow> result_meta \<Rightarrow> string option" where
  "format_hint c meta =
     (case text_of hint_bases (or_value (rm_error_type meta) (rm_status meta))
             ''[PROGRESS HINT] The tool is not producing new information.'' of
        None \<Rightarrow> None
      | Some base \<Rightarrow> map_option (\<lambda>suffix. py_strip (base @ '' '' @ suffix))
          (text_of (hint_actions (tp_dash c)) (rm_next_action meta) []))"

definition block_texts :: "string \<Rightarrow> (string \<times> string) list" where
  "block_texts dash =
     [(''no_results'', ''Repeated no-results '' @ dash @ '' rewrite your query or try a different tool.''),
      (''not_found'', ''Repeated not-found '' @ dash @ '' rewrite your query or try a different resource.''),
      (''rate_limited'', ''Repeated rate-limiting '' @ dash @ '' summarize current findings and proceed.''),
      (''transient'', ''Repeated transient failures '' @ dash @ '' try a different approach.''),
      (''auth'', ''Authentication failure '' @ dash @ '' this tool cannot be used.''),
      (''config'', ''Tool is not configured '' @ dash @ '' this tool cannot be used.''),
      (''internal'', ''Repeated internal errors '' @ dash @ '' this tool is unavailable.'')]"

definition block_reason :: "progress_config \<Rightarrow> result_meta \<Rightarrow> string option" where
  "block_reason c meta = text_of (block_texts (tp_dash c)) (or_value (rm_error_type meta) (VStr []))
     (''Tool has not produced new information after multiple attempts '' @ tp_dash c @ '' summarize and move on.'')"

section \<open>The state machine\<close>

datatype tool_phase = Active | Warned | Blocked

record phase_state =
  ph_phase :: tool_phase
  ph_problems :: nat
  ph_reason :: "string option"
  ph_recent :: "string set list"

definition fresh_phase :: phase_state where
  "fresh_phase = \<lparr>ph_phase = Active, ph_problems = 0, ph_reason = None, ph_recent = []\<rparr>"

datatype phase_action = Warn | Block | Recover | Reset

type_synonym transition = "phase_action \<times> nat option"

definition success_words :: "result_meta \<Rightarrow> string \<Rightarrow> string set" where
  "success_words meta content = (if rm_status meta = VStr ''success'' then word_set content else {})"

definition is_problem :: "progress_config \<Rightarrow> string set list \<Rightarrow> result_meta \<Rightarrow> string \<Rightarrow> bool" where
  "is_problem c recent meta content \<longleftrightarrow> rm_status meta \<in> {VStr ''error'', VStr ''partial_success''}
     \<or> rm_status meta = VStr ''success'' \<and> is_near_duplicate c (success_words meta content) recent"

definition must_stop :: "result_meta \<Rightarrow> bool" where
  "must_stop meta \<longleftrightarrow> \<not> truthy (rm_recoverable meta) \<and> rm_next_action meta = VStr ''stop''"

text \<open>\<open>None\<close>: the lookup of a text raised, and the state is not written back.\<close>

definition assess ::
  "progress_config \<Rightarrow> phase_state \<Rightarrow> result_meta \<Rightarrow> string
     \<Rightarrow> (phase_state \<times> string option \<times> transition option) option" where
  "assess c st meta content =
     (if ph_phase st = Blocked then Some (st, None, None)
      else let n = Suc (ph_problems st); limit = tp_stagnation c + tp_escalation c in
        if must_stop meta
        then map_option (\<lambda>reason. (st\<lparr>ph_phase := Blocked, ph_problems := n, ph_reason := Some reason\<rparr>,
               None, Some (Block, None))) (block_reason c meta)
        else if \<not> is_problem c (ph_recent st) meta content
        then Some (st\<lparr>ph_problems := 0, ph_phase := Active,
                      ph_recent := last_n 3 (ph_recent st @ [success_words meta content])\<rparr>,
               None, if ph_phase st = Warned then Some (Recover, None) else None)
        else if limit \<le> n
        then (if truthy (rm_recoverable meta)
              then map_option (\<lambda>hint. (st\<lparr>ph_problems := n, ph_phase := Warned\<rparr>, Some hint,
                     if ph_phase st \<noteq> Warned then Some (Warn, Some limit) else None)) (format_hint c meta)
              else map_option (\<lambda>reason. (st\<lparr>ph_problems := n, ph_phase := Blocked, ph_reason := Some reason\<rparr>,
                     None, Some (Block, Some limit))) (block_reason c meta))
        else if tp_stagnation c \<le> n
        then map_option (\<lambda>hint. (st\<lparr>ph_problems := n, ph_phase := Warned\<rparr>, Some hint,
               if ph_phase st \<noteq> Warned then Some (Warn, Some (tp_stagnation c)) else None)) (format_hint c meta)
        else Some (st\<lparr>ph_problems := n\<rparr>, None, None))"

section \<open>The tables\<close>

type_synonym run_key = "string \<times> string"

record progress =
  pg_phases :: "(string, (string, phase_state) odict) odict"
  pg_pending :: "(run_key, string list) odict"

definition new_progress :: progress where
  "new_progress = \<lparr>pg_phases = [], pg_pending = []\<rparr>"

definition or_default :: "string option \<Rightarrow> string" where
  "or_default v = (case non_empty v of None \<Rightarrow> ''default'' | Some s \<Rightarrow> s)"

fun evict_threads :: "nat \<Rightarrow> (string, (string, phase_state) odict) odict \<Rightarrow> (run_key, string list) odict \<Rightarrow> progress" where
  "evict_threads limit [] pending = \<lparr>pg_phases = [], pg_pending = pending\<rparr>"
| "evict_threads limit (p # ps) pending =
     (if limit < length (p # ps) then evict_threads limit ps (filter (\<lambda>(k, hs). fst k \<noteq> fst p) pending)
      else \<lparr>pg_phases = p # ps, pg_pending = pending\<rparr>)"

definition get_state :: "progress_config \<Rightarrow> string \<Rightarrow> string \<Rightarrow> progress \<Rightarrow> phase_state \<times> progress" where
  "get_state c thread tool pg =
     (let pg1 = (if od_get (pg_phases pg) thread = None
                 then evict_threads (tp_max_threads c) (od_set thread [] (pg_phases pg)) (pg_pending pg) else pg);
          pg2 = pg1\<lparr>pg_phases := od_move_to_end thread (pg_phases pg1)\<rparr>
      in (od_get_default (od_get_default (pg_phases pg2) thread []) tool fresh_phase, pg2))"

definition set_state :: "string \<Rightarrow> string \<Rightarrow> phase_state \<Rightarrow> progress \<Rightarrow> progress" where
  "set_state thread tool st pg =
     pg\<lparr>pg_phases := od_set thread (od_set tool st (od_get_default (pg_phases pg) thread [])) (pg_phases pg)\<rparr>"

definition get_block_reason :: "string \<Rightarrow> string \<Rightarrow> progress \<Rightarrow> string option" where
  "get_block_reason thread tool pg = (case od_get (pg_phases pg) thread of
       None \<Rightarrow> None
     | Some tools \<Rightarrow> (case od_get tools tool of
           None \<Rightarrow> None
         | Some st \<Rightarrow> (if ph_phase st = Blocked then ph_reason st else None)))"

text \<open>
  The section of \<^verbatim>\<open>_update_state_from_result\<close>: the new state, the hint and the transition with the states
  around it. A raising lookup leaves the recency of the thread changed, but no state written.
\<close>

definition settle_result ::
  "progress_config \<Rightarrow> string \<Rightarrow> string \<Rightarrow> result_meta \<Rightarrow> string \<Rightarrow> progress
     \<Rightarrow> (string option \<times> (phase_state \<times> phase_state \<times> transition) option) option \<times> progress" where
  "settle_result c thread tool meta content pg =
     (let (st, pg1) = get_state c thread tool pg
      in case assess c st meta content of
           None \<Rightarrow> (None, pg1)
         | Some (st', hint, tr) \<Rightarrow> (Some (hint, map_option (\<lambda>t. (st, st', t)) tr), set_state thread tool st' pg1))"

definition queue_assessment :: "run_key \<Rightarrow> string \<Rightarrow> progress \<Rightarrow> progress" where
  "queue_assessment key hint pg =
     (if od_get (pg_phases pg) (fst key) = None then pg
      else let queue = od_get_default (pg_pending pg) key []
           in pg\<lparr>pg_pending := od_set key (if length queue < MAX_PENDING_PER_RUN then queue @ [hint] else queue) (pg_pending pg)\<rparr>)"

definition drain_pending :: "run_key \<Rightarrow> progress \<Rightarrow> string list \<times> progress" where
  "drain_pending key pg = (od_get_default (pg_pending pg) key [], pg\<lparr>pg_pending := od_del key (pg_pending pg)\<rparr>)"

definition restore_pending :: "run_key \<Rightarrow> string list \<Rightarrow> progress \<Rightarrow> progress" where
  "restore_pending key hints pg =
     (if hints = [] \<or> od_get (pg_phases pg) (fst key) = None then pg
      else pg\<lparr>pg_pending := od_set key (take MAX_PENDING_PER_RUN (hints @ od_get_default (pg_pending pg) key [])) (pg_pending pg)\<rparr>)"

definition clear_stale_pending :: "run_key \<Rightarrow> progress \<Rightarrow> progress" where
  "clear_stale_pending key pg =
     pg\<lparr>pg_pending := filter (\<lambda>(k, hs). \<not> (fst k = fst key \<and> snd k \<noteq> snd key)) (pg_pending pg)\<rparr>"

definition reset_phase :: "phase_state \<Rightarrow> phase_state" where
  "reset_phase st = st\<lparr>ph_phase := Active, ph_problems := 0, ph_reason := None, ph_recent := []\<rparr>"

definition reset_run_states :: "string \<Rightarrow> progress \<Rightarrow> (string \<times> phase_state \<times> phase_state) list \<times> progress" where
  "reset_run_states thread pg = (case od_get (pg_phases pg) thread of
       None \<Rightarrow> ([], pg)
     | Some tools \<Rightarrow>
         (map (\<lambda>(tool, st). (tool, st, reset_phase st)) (filter (\<lambda>(tool, st). ph_phase st \<noteq> Active) tools),
          pg\<lparr>pg_phases := od_set thread (map (\<lambda>(tool, st). (tool, reset_phase st)) tools) (pg_phases pg)\<rparr>))"

section \<open>Hooks\<close>

definition before_progress_agent :: "run_key \<Rightarrow> progress \<Rightarrow> progress" where
  "before_progress_agent key pg = snd (reset_run_states (fst key) (clear_stale_pending key pg))"

text \<open>
  \<^verbatim>\<open>wrap_tool_call\<close> up to the call: \<open>PassThrough\<close> calls the tool without looking at its result,
  \<open>Intercept\<close> answers for it, \<open>Observe\<close> calls it and settles its result.
\<close>

datatype gate = PassThrough | Intercept string | Observe

definition tool_gate :: "progress_config \<Rightarrow> string \<Rightarrow> run_key option \<Rightarrow> progress \<Rightarrow> gate" where
  "tool_gate c tool key pg =
     (if tool = [] \<or> tool \<in> set (tp_exempt c) then PassThrough
      else (case key of
              None \<Rightarrow> PassThrough
            | Some k \<Rightarrow> (case non_empty (get_block_reason (fst k) tool pg) of
                  Some reason \<Rightarrow> Intercept (''[TOOL_BLOCKED] '' @ reason) | None \<Rightarrow> Observe)))"

text \<open>What follows the section of \<open>settle_result\<close>: a hint is queued in a section of its own.\<close>

definition observe_result ::
  "progress_config \<Rightarrow> run_key \<Rightarrow> string \<Rightarrow> string \<Rightarrow> tool_result \<Rightarrow> progress \<Rightarrow> string option \<times> progress" where
  "observe_result c key tool call_id r pg = (case result_tool_message r call_id of
       None \<Rightarrow> (None, pg)
     | Some x \<Rightarrow> (case parse_tool_meta (ms_meta x) of
           None \<Rightarrow> (None, pg)
         | Some meta \<Rightarrow> (case settle_result c (fst key) tool meta (message_content_str x) pg of
               (None, pg1) \<Rightarrow> (None, pg1)
             | (Some (hint, tr), pg1) \<Rightarrow> (if tp_inject c then non_empty hint else None, pg1))))"

definition inject_hints :: "string list \<Rightarrow> string option" where
  "inject_hints hints = (if hints = [] then None else Some (py_join (nl @ nl) (fromkeys hints)))"

section \<open>The audit record\<close>

definition RESULT_STATUSES :: "string list" where
  "RESULT_STATUSES = [''success'', ''error'', ''partial_success'', ''unknown'']"

definition RESULT_NEXT_ACTIONS :: "string list" where
  "RESULT_NEXT_ACTIONS = [''continue'', ''rewrite_query'', ''try_alternative'', ''summarize'', ''stop'', ''unknown'']"

definition RESULT_ERROR_TYPES :: "string list" where
  "RESULT_ERROR_TYPES = [''auth'', ''rate_limited'', ''transient'', ''config'', ''permission'', ''no_results'', ''not_found'',
     ''internal'', ''unknown'', ''blocked_by_progress_guard'']"

definition audit_text :: "string list \<Rightarrow> pyval \<Rightarrow> string" where
  "audit_text allowed v = (case v of VStr s \<Rightarrow> (if s \<in> set allowed then s else ''unknown'') | _ \<Rightarrow> ''unknown'')"

definition audit_error_type :: "pyval \<Rightarrow> string option" where
  "audit_error_type v = (if v = VNone then None else Some (audit_text RESULT_ERROR_TYPES v))"

definition audit_recoverable :: "pyval \<Rightarrow> bool option" where
  "audit_recoverable v = (case v of VBool b \<Rightarrow> Some b | _ \<Rightarrow> None)"

record audit_changes =
  au_tool :: string
  au_from :: tool_phase
  au_to :: tool_phase
  au_problems :: nat
  au_status :: "string option"
  au_error_type :: "string option"
  au_recoverable :: "bool option"
  au_next_action :: "string option"
  au_threshold :: "nat option"

definition audit_of :: "string \<Rightarrow> phase_state \<Rightarrow> phase_state \<Rightarrow> result_meta option \<Rightarrow> transition \<Rightarrow> audit_changes" where
  "audit_of tool st st' meta tr = \<lparr>au_tool = tool, au_from = ph_phase st, au_to = ph_phase st', au_problems = ph_problems st',
     au_status = map_option (\<lambda>m. audit_text RESULT_STATUSES (rm_status m)) meta,
     au_error_type = Option.bind meta (\<lambda>m. audit_error_type (rm_error_type m)),
     au_recoverable = Option.bind meta (\<lambda>m. audit_recoverable (rm_recoverable m)),
     au_next_action = map_option (\<lambda>m. audit_text RESULT_NEXT_ACTIONS (rm_next_action m)) meta, au_threshold = snd tr\<rparr>"

end
