(* ===== verification/ProgressProofs.thy ===== *)
theory ProgressProofs
  imports ToolProgress
begin

text \<open>
  The phase of a tool is a function of the results seen since the run began: the state machine refines a
  specification that looks at the whole history. Its tables stay bounded under every interleaving.
\<close>

section \<open>The specification\<close>

text \<open>Histories list results newest first. A result is useless when it stops or repeats the tool.\<close>

type_synonym results = "(result_meta \<times> string) list"

fun good_sets :: "progress_config \<Rightarrow> results \<Rightarrow> string set list" where
  "good_sets c [] = []"
| "good_sets c (r # older) =
     (if must_stop (fst r) \<or> is_problem c (good_sets c older) (fst r) (snd r) then good_sets c older
      else good_sets c older @ [success_words (fst r) (snd r)])"

definition useless :: "progress_config \<Rightarrow> results \<Rightarrow> result_meta \<times> string \<Rightarrow> bool" where
  "useless c older r \<longleftrightarrow> must_stop (fst r) \<or> is_problem c (good_sets c older) (fst r) (snd r)"

fun streak :: "progress_config \<Rightarrow> results \<Rightarrow> nat" where
  "streak c [] = 0"
| "streak c (r # older) = (if useless c older r then Suc (streak c older) else 0)"

definition fatal :: "progress_config \<Rightarrow> results \<Rightarrow> result_meta \<times> string \<Rightarrow> bool" where
  "fatal c older r \<longleftrightarrow> must_stop (fst r) \<or> (useless c older r \<and> \<not> truthy (rm_recoverable (fst r))
     \<and> tp_stagnation c + tp_escalation c \<le> Suc (streak c older))"

fun doomed :: "progress_config \<Rightarrow> results \<Rightarrow> bool" where
  "doomed c [] = False"
| "doomed c (r # older) = (doomed c older \<or> fatal c older r)"

fun assess_all :: "progress_config \<Rightarrow> results \<Rightarrow> phase_state option" where
  "assess_all c [] = Some fresh_phase"
| "assess_all c (r # older) = Option.bind (assess_all c older) (\<lambda>st. map_option fst (assess c st (fst r) (snd r)))"

text \<open>Metadata whose labels can be looked up: none is a list or a dictionary.\<close>

definition plain :: "pyval \<Rightarrow> bool" where
  "plain v \<longleftrightarrow> (case v of VList _ \<Rightarrow> False | VDict _ \<Rightarrow> False | _ \<Rightarrow> True)"

definition plain_meta :: "result_meta \<Rightarrow> bool" where
  "plain_meta m \<longleftrightarrow> plain (rm_status m) \<and> plain (rm_error_type m) \<and> plain (rm_next_action m)"

section \<open>The machine follows the specification\<close>

lemma text_of_plain: "plain v \<Longrightarrow> \<exists>t. text_of table v d = Some t"
  by (cases v) (auto simp: plain_def text_of_def)

lemma texts_plain:
  assumes "plain_meta m"
  shows "\<exists>t. format_hint c m = Some t" "\<exists>t. block_reason c m = Some t"
proof -
  have p: "plain (or_value (rm_error_type m) (rm_status m))" "plain (or_value (rm_error_type m) (VStr []))"
    using assms by (simp_all add: plain_meta_def or_value_def plain_def)
  obtain base where base: "text_of hint_bases (or_value (rm_error_type m) (rm_status m))
      ''[PROGRESS HINT] The tool is not producing new information.'' = Some base"
    using text_of_plain [OF p(1)] by blast
  obtain suffix where "text_of (hint_actions (tp_dash c)) (rm_next_action m) [] = Some suffix"
    using text_of_plain assms unfolding plain_meta_def by blast
  then show "\<exists>t. format_hint c m = Some t" by (simp add: format_hint_def base)
  show "\<exists>t. block_reason c m = Some t" using text_of_plain [OF p(2)] by (simp add: block_reason_def)
qed

lemma last_n_snoc: "last_n k (last_n k xs @ [x]) = last_n k (xs @ [x])"
proof (cases "k \<le> length xs")
  case True
  then show ?thesis by (cases k) (simp_all add: last_n_def Suc_diff_Suc Suc_le_eq)
qed (simp add: last_n_def)

lemma is_problem_last: "is_problem c (last_n 3 recent) m t \<longleftrightarrow> is_problem c recent m t"
  by (simp add: is_problem_def is_near_duplicate_def)

definition follows :: "progress_config \<Rightarrow> results \<Rightarrow> phase_state \<Rightarrow> bool" where
  "follows c rs st \<longleftrightarrow> (ph_phase st = Blocked \<longleftrightarrow> doomed c rs)
     \<and> (\<not> doomed c rs \<longrightarrow> ph_problems st = streak c rs \<and> (ph_phase st = Warned \<longleftrightarrow> tp_stagnation c \<le> streak c rs)
          \<and> ph_recent st = last_n 3 (good_sets c rs))"

lemma assess_follows:
  assumes pos: "0 < tp_stagnation c" and old: "follows c older st" and plain: "plain_meta (fst r)"
  shows "\<exists>st' hint tr. assess c st (fst r) (snd r) = Some (st', hint, tr) \<and> follows c (r # older) st'"
proof -
  obtain hint reason where texts: "format_hint c (fst r) = Some hint" "block_reason c (fst r) = Some reason"
    using texts_plain [OF plain] by blast
  show ?thesis
  proof (cases "doomed c older")
    case True
    then have "ph_phase st = Blocked" using old by (simp add: follows_def)
    then show ?thesis using True by (simp add: assess_def follows_def)
  next
    case alive: False
    then have st: "ph_phase st \<noteq> Blocked" "ph_problems st = streak c older"
      "ph_phase st = Warned \<longleftrightarrow> tp_stagnation c \<le> streak c older" "ph_recent st = last_n 3 (good_sets c older)"
      using old by (auto simp: follows_def)
    show ?thesis
    proof (cases "must_stop (fst r)")
      case True
      then show ?thesis using st alive texts by (simp add: assess_def follows_def fatal_def)
    next
      case go: False
      show ?thesis
      proof (cases "is_problem c (good_sets c older) (fst r) (snd r)")
        case False
        then show ?thesis using go st alive pos
          by (simp add: assess_def follows_def fatal_def useless_def is_problem_last last_n_snoc)
      next
        case True
        then have u: "useless c older r" by (simp add: useless_def)
        have w: "ph_phase st = Warned \<or> ph_phase st = Active" using st(1) by (cases "ph_phase st") auto
        show ?thesis
          using True u go st alive texts w
          by (auto simp: assess_def follows_def fatal_def is_problem_last Let_def)
      qed
    qed
  qed
qed

lemma assess_all_follows:
  assumes "0 < tp_stagnation c"
  shows "\<forall>r \<in> set rs. plain_meta (fst r) \<Longrightarrow> \<exists>st. assess_all c rs = Some st \<and> follows c rs st"
proof (induction rs)
  case Nil
  then show ?case using assms by (simp add: follows_def fresh_phase_def)
next
  case (Cons r rs)
  then obtain st where st: "assess_all c rs = Some st" "follows c rs st" by auto
  then show ?case using assess_follows [OF assms st(2), of r] Cons.prems by auto
qed

lemma recoverable_never_doomed:
  "\<forall>r \<in> set rs. truthy (rm_recoverable (fst r)) \<Longrightarrow> \<not> doomed c rs"
  by (induction rs) (auto simp: fatal_def must_stop_def)

text \<open>
  C24. The phase of a tool depends on nothing but the results it gave in this run, since its state was
  last reset or evicted. It is blocked exactly
  when one of them demanded a stop, or when a result the model cannot recover from ended a streak of
  useless results as long as both thresholds together; results the model can recover from never block
  it. While it is not blocked, it is warned exactly when the current streak has reached the threshold,
  and only a useful result ends a streak.
\<close>

theorem phase_follows_the_results:
  assumes "0 < tp_stagnation c" "\<forall>r \<in> set rs. plain_meta (fst r)"
  shows "\<exists>st. assess_all c rs = Some st \<and> (ph_phase st = Blocked \<longleftrightarrow> doomed c rs)
    \<and> (\<not> doomed c rs \<longrightarrow> ph_problems st = streak c rs \<and> (ph_phase st = Warned \<longleftrightarrow> tp_stagnation c \<le> streak c rs))
    \<and> ((\<forall>r \<in> set rs. truthy (rm_recoverable (fst r))) \<longrightarrow> ph_phase st \<noteq> Blocked)"
  using assess_all_follows [OF assms] recoverable_never_doomed [of rs c] unfolding follows_def by blast


section \<open>The tables stay bounded\<close>

definition progress_ok :: "progress_config \<Rightarrow> progress \<Rightarrow> bool" where
  "progress_ok c pg \<longleftrightarrow> od_wf (pg_phases pg) \<and> od_wf (pg_pending pg) \<and> length (pg_phases pg) \<le> tp_max_threads c
     \<and> (\<forall>(k, hs) \<in> set (pg_pending pg). fst k \<in> fst ` set (pg_phases pg) \<and> length hs \<le> MAX_PENDING_PER_RUN)"

inductive progress_step :: "progress_config \<Rightarrow> progress \<Rightarrow> progress \<Rightarrow> bool" for c where
  result: "progress_step c pg (snd (observe_result c key tool call_id r pg))"
| queue: "progress_step c pg (queue_assessment key hint pg)"
| drain: "progress_step c pg (snd (drain_pending key pg))"
| restore: "progress_step c pg (restore_pending key hints pg)"
| enter: "progress_step c pg (before_progress_agent key pg)"

inductive progress_run :: "progress_config \<Rightarrow> progress \<Rightarrow> bool" for c where
  fresh: "progress_run c new_progress"
| more: "progress_run c pg \<Longrightarrow> progress_step c pg pg' \<Longrightarrow> progress_run c pg'"

lemma od_wf_filter [intro]: "od_wf d \<Longrightarrow> od_wf (filter P d)"
  by (induction d) auto

lemma pending_ok_filter:
  "\<forall>(k, hs) \<in> set pending. fst k \<in> insert t T \<and> length hs \<le> n \<Longrightarrow>
    \<forall>(k, hs) \<in> set (filter (\<lambda>(k, hs). fst k \<noteq> t) pending). fst k \<in> T \<and> length hs \<le> n"
  by auto

lemma evict_threads_ok:
  assumes "od_wf ps" "od_wf pending" "\<forall>(k, hs) \<in> set pending. fst k \<in> fst ` set ps \<and> length hs \<le> MAX_PENDING_PER_RUN"
  shows "progress_ok c (evict_threads (tp_max_threads c) ps pending)"
  using assms
proof (induction "tp_max_threads c" ps pending rule: evict_threads.induct)
  case (2 p ps pending)
  show ?case
  proof (cases "tp_max_threads c < length (p # ps)")
    case True
    have f: "\<forall>(k, hs) \<in> set (filter (\<lambda>(k, hs). fst k \<noteq> fst p) pending). fst k \<in> fst ` set ps \<and> length hs \<le> MAX_PENDING_PER_RUN"
      by (rule pending_ok_filter) (use "2.prems"(3) in simp)
    have "progress_ok c (evict_threads (tp_max_threads c) ps (filter (\<lambda>(k, hs). fst k \<noteq> fst p) pending))"
      by (rule "2.hyps"; (rule f | rule od_wf_filter, rule "2.prems"(2) | use "2.prems"(1) True in simp))
    then show ?thesis using True by simp
  qed (use 2 in \<open>simp add: progress_ok_def\<close>)
qed (simp add: progress_ok_def)

lemma evict_threads_keeps_newest:
  "0 < limit \<Longrightarrow> ps \<noteq> [] \<Longrightarrow> last ps \<in> set (pg_phases (evict_threads limit ps pending))"
  by (induction limit ps pending rule: evict_threads.induct) auto

lemma get_state_ok:
  assumes pos: "0 < tp_max_threads c" and ok: "progress_ok c pg"
  shows "progress_ok c (snd (get_state c thread tool pg))" "thread \<in> fst ` set (pg_phases (snd (get_state c thread tool pg)))"
proof -
  define pg1 where "pg1 = (if od_get (pg_phases pg) thread = None
      then evict_threads (tp_max_threads c) (od_set thread [] (pg_phases pg)) (pg_pending pg) else pg)"
  have moved: "snd (get_state c thread tool pg) = pg1\<lparr>pg_phases := od_move_to_end thread (pg_phases pg1)\<rparr>"
    by (simp add: get_state_def pg1_def Let_def)
  have "progress_ok c pg1 \<and> thread \<in> fst ` set (pg_phases pg1)"
  proof (cases "od_get (pg_phases pg) thread")
    case None
    let ?ps = "od_set thread [] (pg_phases pg)"
    have fresh: "?ps = pg_phases pg @ [(thread, [])]" using None by (simp add: od_set_fresh od_get_None)
    have "progress_ok c (evict_threads (tp_max_threads c) ?ps (pg_pending pg))"
      by (rule evict_threads_ok) (use ok in \<open>auto simp: progress_ok_def set_keys_set\<close>)
    moreover have "(thread, []) \<in> set (pg_phases (evict_threads (tp_max_threads c) ?ps (pg_pending pg)))"
      using evict_threads_keeps_newest [OF pos, of ?ps "pg_pending pg"] by (simp add: fresh)
    ultimately show ?thesis using None by (force simp: pg1_def)
  next
    case (Some tools)
    then show ?thesis using ok by (simp add: pg1_def od_get_Some_key)
  qed
  then have one: "progress_ok c pg1" "thread \<in> fst ` set (pg_phases pg1)" by blast+
  have same: "fst ` set (od_move_to_end thread (pg_phases pg1)) = fst ` set (pg_phases pg1)"
    by (simp add: set_keys_move_to_end)
  have "length (od_move_to_end thread (pg_phases pg1)) = length (pg_phases pg1)"
    using one length_od_del [of "pg_phases pg1" thread]
    by (auto simp: od_move_to_end_def progress_ok_def split: option.split)
  then show "progress_ok c (snd (get_state c thread tool pg))" "thread \<in> fst ` set (pg_phases (snd (get_state c thread tool pg)))"
    using one same unfolding moved progress_ok_def by auto
qed

lemma set_phases_ok:
  assumes "progress_ok c pg" "thread \<in> fst ` set (pg_phases pg)"
  shows "progress_ok c (pg\<lparr>pg_phases := od_set thread tools (pg_phases pg)\<rparr>)"
  using assms by (auto simp: progress_ok_def set_keys_set length_od_set)

lemma set_pending_ok:
  assumes "progress_ok c pg" "fst key \<in> fst ` set (pg_phases pg)" "length hs \<le> MAX_PENDING_PER_RUN"
  shows "progress_ok c (pg\<lparr>pg_pending := od_set key hs (pg_pending pg)\<rparr>)"
  using assms unfolding progress_ok_def by (auto simp: set_od_set)

lemma filter_pending_ok:
  "progress_ok c pg \<Longrightarrow> progress_ok c (pg\<lparr>pg_pending := filter P (pg_pending pg)\<rparr>)"
  unfolding progress_ok_def by (auto intro: od_wf_filter)


lemma progress_step_ok:
  assumes "0 < tp_max_threads c" "progress_ok c pg" "progress_step c pg pg'"
  shows "progress_ok c pg'"
  using assms(3)
proof cases
  case (result key tool call_id r)
  have "progress_ok c (snd (settle_result c (fst key) tool meta content pg))" for meta content
    using get_state_ok [OF assms(1,2), of "fst key" tool] set_phases_ok
    by (auto simp: settle_result_def set_state_def case_prod_beta split: option.split)
  then show ?thesis
    using assms(2) unfolding result observe_result_def
    by (auto split: option.split prod.split) (metis snd_conv)+
next
  case (queue key hint)
  have "length (od_get_default (pg_pending pg) key []) \<le> MAX_PENDING_PER_RUN"
    using assms(2) by (force simp: progress_ok_def od_get_default_def dest: map_of_SomeD split: option.split)
  then show ?thesis
    using assms(2) set_pending_ok [OF assms(2) od_get_Some_key, of key] unfolding queue queue_assessment_def
    by (cases "od_get (pg_phases pg) (fst key)") (simp_all add: Let_def)
next
  case (drain key)
  then show ?thesis using assms(2) by (auto simp: drain_pending_def progress_ok_def set_od_del)
next
  case (restore key hints)
  then show ?thesis
    using assms(2) set_pending_ok [OF assms(2) od_get_Some_key, of key] unfolding restore restore_pending_def
    by (cases "od_get (pg_phases pg) (fst key)") simp_all
next
  case (enter key)
  have "progress_ok c (clear_stale_pending key pg)"
    using filter_pending_ok [OF assms(2)] by (simp add: clear_stale_pending_def)
  then show ?thesis
    unfolding enter before_progress_agent_def reset_run_states_def
    by (auto simp: set_phases_ok od_get_Some_key split: option.split)
qed

text \<open>
  C40. The middleware's memory is bounded: whatever results, model calls, failures and runs interleave, it
  tracks no more threads than configured, queues at most three hints for a run, and keeps hints only
  for threads it still tracks.
\<close>

theorem progress_stays_bounded:
  assumes "0 < tp_max_threads c" "progress_run c pg"
  shows "length (pg_phases pg) \<le> tp_max_threads c
    \<and> (\<forall>(k, hs) \<in> set (pg_pending pg). fst k \<in> fst ` set (pg_phases pg) \<and> length hs \<le> MAX_PENDING_PER_RUN)"
proof -
  have "progress_ok c pg"
    using assms(2)
  proof (induction rule: progress_run.induct)
    case fresh
    show ?case by (simp add: progress_ok_def new_progress_def)
  next
    case (more pg pg')
    then show ?case using progress_step_ok [OF assms(1)] by blast
  qed
  then show ?thesis by (simp add: progress_ok_def)
qed

section \<open>Concrete runs\<close>

definition demo_progress :: progress_config where
  "demo_progress = \<lparr>tp_stagnation = 1, tp_escalation = 1, tp_inject = True, tp_similar = (\<lambda>i u. 4 * u \<le> 5 * i),
     tp_min_words = 10, tp_exempt = [''task''], tp_max_threads = 1, tp_dash = ''-''\<rparr>"

definition rate_limited :: result_meta where
  "rate_limited = \<lparr>rm_status = VStr ''error'', rm_error_type = VStr ''rate_limited'', rm_recoverable = VBool False,
     rm_next_action = VStr ''summarize'', rm_source = VStr ''exception''\<rparr>"

lemma rate_limited_stalls: "\<not> must_stop rate_limited" "is_problem c recent rate_limited content"
  "\<not> truthy (rm_recoverable rate_limited)" "plain_meta rate_limited"
  by (simp_all add: must_stop_def is_problem_def rate_limited_def plain_meta_def plain_def)

theorem phase_follows_the_results_witness:
  "\<exists>st. assess_all demo_progress [(rate_limited, ''''), (rate_limited, '''')] = Some st \<and> ph_phase st = Blocked"
proof -
  let ?rs = "[(rate_limited, ''''), (rate_limited, '''')]"
  have "doomed demo_progress ?rs"
    using rate_limited_stalls by (simp add: fatal_def useless_def demo_progress_def)
  moreover have "0 < tp_stagnation demo_progress" "\<forall>r \<in> set ?rs. plain_meta (fst r)"
    using rate_limited_stalls by (simp_all add: demo_progress_def)
  ultimately show ?thesis using phase_follows_the_results [of demo_progress ?rs] by blast
qed

definition demo_message :: result_message where
  "demo_message = \<lparr>ms_call_id = ''1'', ms_content = VStr '''', ms_meta = Some (VDict
     [(''status'', VStr ''error''), (''error_type'', VStr ''rate_limited''), (''recoverable_by_model'', VBool False),
      (''recommended_next_action'', VStr ''summarize''), (''source'', VStr ''exception'')])\<rparr>"

lemma demo_message_meta: "parse_tool_meta (ms_meta demo_message) = Some rate_limited"
proof -
  have "set [''status'', ''error_type'', ''recoverable_by_model'', ''recommended_next_action'', ''source''] = set META_FIELDS"
    by (simp add: META_FIELDS_def insert_commute)
  then show ?thesis by (simp add: demo_message_def parse_tool_meta_def rate_limited_def od_get_default_def)
qed

lemma settled_thread_is_tracked:
  assumes "0 < tp_max_threads c" "progress_ok c pg"
  shows "\<exists>tools. od_get (pg_phases (snd (settle_result c thread tool meta content pg))) thread = Some tools"
proof -
  have "od_get (pg_phases (snd (get_state c thread tool pg))) thread \<noteq> None"
    using get_state_ok(2) [OF assms, of thread tool] by (simp add: od_get_None)
  then show ?thesis
    by (auto simp: settle_result_def set_state_def case_prod_beta update_conv' split: option.split)
qed

lemma observed_message_is_settled:
  assumes "parse_tool_meta (ms_meta x) = Some meta"
  shows "snd (observe_result c key tool call_id (Message x) pg)
    = snd (settle_result c (fst key) tool meta (message_content_str x) pg)"
  using assms by (simp add: observe_result_def result_tool_message_def split: option.split prod.split)

lemma queued_hint_waits:
  assumes "od_get (pg_phases pg) (fst key) = Some tools"
  shows "\<exists>hs. od_get (pg_pending (queue_assessment key hint pg)) key = Some hs"
  using assms by (simp add: queue_assessment_def Let_def update_conv')

theorem progress_stays_bounded_witness:
  "\<exists>pg hs. progress_run demo_progress pg \<and> od_get (pg_pending pg) (''b'', ''r'') = Some hs \<and> length (pg_phases pg) \<le> 1"
proof -
  let ?key = "(''b'', ''r'')"
  define pg1 where "pg1 = snd (observe_result demo_progress ?key ''search'' ''1'' (Message demo_message) new_progress)"
  have run: "progress_run demo_progress (queue_assessment ?key ''h'' pg1)"
    unfolding pg1_def
    by (rule progress_run.more [OF progress_run.more [OF progress_run.fresh progress_step.result] progress_step.queue])
  have one: "0 < tp_max_threads demo_progress" "tp_max_threads demo_progress \<le> 1" by (simp_all add: demo_progress_def)
  have "progress_ok demo_progress new_progress" by (simp add: progress_ok_def new_progress_def)
  then obtain tools where "od_get (pg_phases pg1) (fst ?key) = Some tools"
    using settled_thread_is_tracked [OF one(1)] unfolding pg1_def observed_message_is_settled [OF demo_message_meta] by blast
  then have "\<exists>hs. od_get (pg_pending (queue_assessment ?key ''h'' pg1)) ?key = Some hs" by (rule queued_hint_waits)
  moreover have "length (pg_phases (queue_assessment ?key ''h'' pg1)) \<le> 1"
    using progress_stays_bounded [OF one(1) run] one(2) by linarith
  ultimately show ?thesis using run by blast
qed

end
