(* ===== verification/ManagerState.thy ===== *)
theory ManagerState
  imports RunStore
begin

text \<open>
  The registry of a run manager
  (\<^verbatim>\<open>backend/packages/harness/deerflow/runtime/runs/manager.py\<close>): run records, the dictionaries that a
  manager keeps of them, and every helper that runs without awaiting, so that it is one function on
  the manager's state.

  Records are objects that tasks share and mutate, and the code compares them with \<^verbatim>\<open>is\<close>: the manager
  has a heap of records, and a record is named by its reference. A reference that has been removed from
  the registry stays valid for the tasks that hold it. Futures are numbers. The clock is the one of the
  run store; the monotonic clock of the event loop reads the same instants.
\<close>

section \<open>Records\<close>

record terminal_outcome =
  to_status :: string
  to_error :: "string option"
  to_stop_reason :: "string option"
  to_goal_verdict :: "pyval option"

text \<open>
  \<open>rc_task\<close> is the task that executes the run, with whether it is done; \<open>rc_task_cancelled\<close> that its
  cancellation was requested. The completion counters are read with default 0.
\<close>

record run_record =
  rc_run_id :: string
  rc_thread_id :: string
  rc_assistant_id :: "string option"
  rc_status :: string
  rc_operation_kind :: string
  rc_multitask_strategy :: string
  rc_metadata :: "(string, pyval) odict"
  rc_kwargs :: "(string, pyval) odict"
  rc_user_id :: "string option"
  rc_created_at :: string
  rc_updated_at :: string
  rc_task :: "bool option"
  rc_task_cancelled :: bool
  rc_aborted :: bool
  rc_abort_action :: string
  rc_error :: "string option"
  rc_model_name :: "string option"
  rc_store_only :: bool
  rc_counts :: "(string, int) odict"
  rc_usage_by_model :: "(string, (string, int) odict) odict"
  rc_last_ai_message :: "string option"
  rc_first_human_message :: "string option"
  rc_finalizing :: bool
  rc_owner :: "string option"
  rc_lease :: "string option"
  rc_lost :: bool
  rc_stop_reason :: "string option"
  rc_goal_verdict :: "pyval option"
  rc_persisted :: bool
  rc_goal_cleanup :: bool
  rc_commit_pending :: bool
  rc_rollback_pending :: bool
  rc_proof :: "terminal_outcome option"
  rc_revision :: nat
  rc_idempotency_key :: "string option"
  rc_idempotency_request :: "pyval option"
  rc_reused :: bool
  rc_evidence_origin :: string
  rc_evidence_agent_id :: "string option"

definition RUN_STATUSES :: "string list" where
  "RUN_STATUSES = [''pending'', ''running'', ''success'', ''error'', ''timeout'', ''interrupted'']"

definition OPERATION_KINDS :: "string list" where
  "OPERATION_KINDS = [''run'', ''checkpoint_write'', ''artifact_write'', ''artifact_archive'', ''branch'', ''delete'']"

definition inflight :: "string \<Rightarrow> bool" where
  "inflight status \<longleftrightarrow> status \<in> {''pending'', ''running''}"

definition task_active :: "run_record \<Rightarrow> bool" where
  "task_active rc \<longleftrightarrow> rc_task rc = Some False"

definition awaits_terminal_commit :: "run_record \<Rightarrow> bool" where
  "awaits_terminal_commit rc \<longleftrightarrow> rc_goal_cleanup rc \<or> rc_commit_pending rc \<or> rc_rollback_pending rc"

definition terminal_outcome_of ::
  "run_record \<Rightarrow> string option \<Rightarrow> string option \<Rightarrow> string option \<Rightarrow> pyval option \<Rightarrow> terminal_outcome" where
  "terminal_outcome_of rc status error stop_reason goal_verdict =
     \<lparr>to_status = (case status of Some s \<Rightarrow> s | None \<Rightarrow> rc_status rc), to_error = some_or error (rc_error rc),
      to_stop_reason = some_or stop_reason (rc_stop_reason rc), to_goal_verdict = some_or goal_verdict (rc_goal_verdict rc)\<rparr>"

definition has_terminal_ack :: "run_record \<Rightarrow> terminal_outcome \<Rightarrow> bool" where
  "has_terminal_ack rc outcome \<longleftrightarrow> \<not> rc_lost rc \<and> rc_proof rc = Some outcome"

definition has_final_ack :: "run_record \<Rightarrow> bool" where
  "has_final_ack rc \<longleftrightarrow> \<not> rc_rollback_pending rc \<and> has_terminal_ack rc (terminal_outcome_of rc None None None None)"

section \<open>The manager\<close>

record ownership =
  ow_heartbeat :: bool
  ow_lease_seconds :: int
  ow_grace_seconds :: int

text \<open>
  What a call sees of its surroundings: whether a store is configured, the worker's id, the ownership
  settings, the attempts of the retry policy, \<^verbatim>\<open>isoformat\<close>, and the run whose task makes the call.
\<close>

record manager_config =
  mc_store :: bool
  mc_worker :: string
  mc_ownership :: "ownership option"
  mc_max_attempts :: nat
  mc_iso :: "int \<Rightarrow> string"
  mc_current :: "nat option"

definition heartbeat_enabled :: "manager_config \<Rightarrow> bool" where
  "heartbeat_enabled c = (case mc_ownership c of None \<Rightarrow> False | Some w \<Rightarrow> ow_heartbeat w)"

definition grace_of :: "manager_config \<Rightarrow> int" where
  "grace_of c = (case mc_ownership c of None \<Rightarrow> 10 | Some w \<Rightarrow> ow_grace_seconds w)"

record pending_renewal =
  rn_run_id :: string
  rn_expiry :: string
  rn_result :: "(unit + lease_renewal) option"

text \<open>
  A deadline is the record its timer was armed for and the instant it fires at; an operation is the
  future of a renewal in flight, whose result is \<open>Inl\<close> when the call raised.
\<close>

record manager =
  mg_heap :: "nat \<Rightarrow> run_record"
  mg_next :: nat
  mg_runs :: "(string, nat) odict"
  mg_by_thread :: "(string, string list) odict"
  mg_pending :: "(string, (string, nat) odict) odict"
  mg_attempts :: "string \<Rightarrow> nat list"
  mg_deadlines :: "string \<Rightarrow> (nat \<times> int) option"
  mg_checks :: "string \<Rightarrow> bool"
  mg_operations :: "string \<Rightarrow> nat option"
  mg_futures :: "nat \<Rightarrow> pending_renewal"
  mg_next_future :: nat

text \<open>A manager that holds nothing; the record fills the unused part of the heap.\<close>

definition new_manager :: "run_record \<Rightarrow> manager" where
  "new_manager rc = \<lparr>mg_heap = (\<lambda>_. rc), mg_next = 0, mg_runs = [], mg_by_thread = [], mg_pending = [],
     mg_attempts = (\<lambda>_. []), mg_deadlines = (\<lambda>_. None), mg_checks = (\<lambda>_. False), mg_operations = (\<lambda>_. None),
     mg_futures = (\<lambda>_. \<lparr>rn_run_id = [], rn_expiry = [], rn_result = None\<rparr>), mg_next_future = 0\<rparr>"

definition registered :: "manager \<Rightarrow> nat \<Rightarrow> bool" where
  "registered m r \<longleftrightarrow> od_get (mg_runs m) (rc_run_id (mg_heap m r)) = Some r"

definition modify :: "nat \<Rightarrow> (run_record \<Rightarrow> run_record) \<Rightarrow> manager \<Rightarrow> manager" where
  "modify r g m = m\<lparr>mg_heap := (mg_heap m)(r := g (mg_heap m r))\<rparr>"

definition alloc :: "run_record \<Rightarrow> manager \<Rightarrow> nat \<times> manager" where
  "alloc rc m = (mg_next m, m\<lparr>mg_heap := (mg_heap m)(mg_next m := rc), mg_next := Suc (mg_next m)\<rparr>)"

text \<open>The records of the registry, in the order of insertion.\<close>

definition all_records :: "manager \<Rightarrow> nat list" where
  "all_records m = map snd (mg_runs m)"

definition clear_lease_deadline :: "string \<Rightarrow> manager \<Rightarrow> manager" where
  "clear_lease_deadline run_id m = m\<lparr>mg_deadlines := (mg_deadlines m)(run_id := None)\<rparr>"

definition index_run_locked :: "nat \<Rightarrow> manager \<Rightarrow> manager" where
  "index_run_locked r m =
     (let rc = mg_heap m r; b = od_get_default (mg_by_thread m) (rc_thread_id rc) []
      in m\<lparr>mg_by_thread := od_set (rc_thread_id rc)
             (if rc_run_id rc \<in> set b then b else b @ [rc_run_id rc]) (mg_by_thread m)\<rparr>)"

definition unindex_run_locked :: "string \<Rightarrow> string \<Rightarrow> manager \<Rightarrow> manager" where
  "unindex_run_locked run_id thread_id m0 =
     (let m = clear_lease_deadline run_id m0
      in case od_get (mg_by_thread m) thread_id of
           None \<Rightarrow> m
         | Some b \<Rightarrow> (let b' = removeAll run_id b
             in m\<lparr>mg_by_thread := (if b' = [] then od_del thread_id (mg_by_thread m)
                                   else od_set thread_id b' (mg_by_thread m))\<rparr>))"

definition thread_records_locked :: "string \<Rightarrow> manager \<Rightarrow> nat list" where
  "thread_records_locked thread_id m =
     List.map_filter (od_get (mg_runs m)) (od_get_default (mg_by_thread m) thread_id [])"

definition register :: "nat \<Rightarrow> manager \<Rightarrow> manager" where
  "register r m = index_run_locked r (m\<lparr>mg_runs := od_set (rc_run_id (mg_heap m r)) r (mg_runs m)\<rparr>)"

definition pop_run :: "string \<Rightarrow> manager \<Rightarrow> manager" where
  "pop_run run_id m = (case od_get (mg_runs m) run_id of
       None \<Rightarrow> m
     | Some r \<Rightarrow> unindex_run_locked run_id (rc_thread_id (mg_heap m r)) (m\<lparr>mg_runs := od_del run_id (mg_runs m)\<rparr>))"

section \<open>Payloads and rows\<close>

definition store_put_payload :: "run_record \<Rightarrow> string option \<Rightarrow> string option \<Rightarrow> put_args" where
  "store_put_payload rc error stop_reason =
     \<lparr>pa_thread_id = rc_thread_id rc, pa_assistant_id = rc_assistant_id rc, pa_user_id = rc_user_id rc,
      pa_model_name = rc_model_name rc, pa_status = rc_status rc, pa_operation_kind = rc_operation_kind rc,
      pa_multitask_strategy = rc_multitask_strategy rc, pa_metadata = rc_metadata rc, pa_kwargs = rc_kwargs rc,
      pa_error = some_or error (rc_error rc), pa_stop_reason = rc_stop_reason rc, pa_goal_verdict = rc_goal_verdict rc,
      pa_created_at = Some (rc_created_at rc), pa_owner_worker_id = rc_owner rc, pa_lease_expires_at = rc_lease rc,
      pa_idempotency_key = rc_idempotency_key rc, pa_evidence_origin = rc_evidence_origin rc,
      pa_evidence_agent_id = rc_evidence_agent_id rc, pa_idempotency_request = rc_idempotency_request rc\<rparr>"

definition terminal_row_matches_payload :: "run_row \<Rightarrow> put_args \<Rightarrow> bool" where
  "terminal_row_matches_payload row a \<longleftrightarrow> rr_thread_id row = pa_thread_id a \<and> rr_user_id row = pa_user_id a
     \<and> rr_owner_worker_id row = pa_owner_worker_id a \<and> rr_status row = pa_status a \<and> rr_error row = pa_error a
     \<and> rr_stop_reason row = pa_stop_reason a \<and> rr_goal_verdict row = pa_goal_verdict a"

text \<open>A detached snapshot of a row; \<open>None\<close> when a column holds no value of its enumeration.\<close>

definition record_from_store :: "run_row \<Rightarrow> run_record option" where
  "record_from_store row =
     (let status = (if rr_status row = [] then ''pending'' else rr_status row);
          kind = (if rr_operation_kind row = [] then ''run'' else rr_operation_kind row)
      in if status \<notin> set RUN_STATUSES \<or> kind \<notin> set OPERATION_KINDS then None
         else Some \<lparr>rc_run_id = rr_run_id row, rc_thread_id = rr_thread_id row, rc_assistant_id = rr_assistant_id row,
           rc_status = status, rc_operation_kind = kind,
           rc_multitask_strategy = (if rr_multitask_strategy row = [] then ''reject'' else rr_multitask_strategy row),
           rc_metadata = rr_metadata row, rc_kwargs = rr_kwargs row, rc_user_id = rr_user_id row,
           rc_created_at = rr_created_at row, rc_updated_at = rr_updated_at row, rc_task = None,
           rc_task_cancelled = False, rc_aborted = False, rc_abort_action = ''interrupt'', rc_error = rr_error row,
           rc_model_name = rr_model_name row, rc_store_only = True, rc_counts = rr_counts row,
           rc_usage_by_model = rr_token_usage_by_model row, rc_last_ai_message = rr_last_ai_message row,
           rc_first_human_message = rr_first_human_message row, rc_finalizing = False,
           rc_owner = rr_owner_worker_id row, rc_lease = rr_lease_expires_at row, rc_lost = False,
           rc_stop_reason = rr_stop_reason row, rc_goal_verdict = rr_goal_verdict row, rc_persisted = True,
           rc_goal_cleanup = False, rc_commit_pending = False, rc_rollback_pending = False, rc_proof = None,
           rc_revision = 0, rc_idempotency_key = rr_idempotency_key row,
           rc_idempotency_request = rr_idempotency_request row, rc_reused = False,
           rc_evidence_origin = (if rr_evidence_origin row = [] then ''unknown'' else rr_evidence_origin row),
           rc_evidence_agent_id = rr_evidence_agent_id row\<rparr>)"

text \<open>The record of a new run or thread operation.\<close>

definition fresh_record :: "manager_config \<Rightarrow> clock \<Rightarrow> string \<Rightarrow> string \<Rightarrow> put_args \<Rightarrow> run_record" where
  "fresh_record c clk run_id lease a =
     \<lparr>rc_run_id = run_id, rc_thread_id = pa_thread_id a, rc_assistant_id = pa_assistant_id a, rc_status = ''pending'',
      rc_operation_kind = pa_operation_kind a, rc_multitask_strategy = pa_multitask_strategy a,
      rc_metadata = filter (\<lambda>(key, v). key \<noteq> ''deerflow_assembly_evidence'') (pa_metadata a), rc_kwargs = pa_kwargs a,
      rc_user_id = pa_user_id a, rc_created_at = clk_iso clk, rc_updated_at = clk_iso clk, rc_task = None,
      rc_task_cancelled = False, rc_aborted = False, rc_abort_action = ''interrupt'', rc_error = None,
      rc_model_name = pa_model_name a, rc_store_only = False, rc_counts = [], rc_usage_by_model = [],
      rc_last_ai_message = None, rc_first_human_message = None, rc_finalizing = False, rc_owner = Some (mc_worker c),
      rc_lease = (if heartbeat_enabled c then Some lease else None), rc_lost = False, rc_stop_reason = None,
      rc_goal_verdict = None, rc_persisted = True, rc_goal_cleanup = False, rc_commit_pending = False,
      rc_rollback_pending = False, rc_proof = None, rc_revision = 0, rc_idempotency_key = pa_idempotency_key a,
      rc_idempotency_request = pa_idempotency_request a, rc_reused = False,
      rc_evidence_origin = pa_evidence_origin a, rc_evidence_agent_id = pa_evidence_agent_id a\<rparr>"

text \<open>\<^verbatim>\<open>_compute_lease_expires_at\<close>, when leases are in use; \<open>span\<close> is their length.\<close>

definition span :: "manager_config \<Rightarrow> int" where
  "span c = (case mc_ownership c of None \<Rightarrow> 0 | Some w \<Rightarrow> seconds (ow_lease_seconds w))"

definition lease_from :: "manager_config \<Rightarrow> clock \<Rightarrow> string" where
  "lease_from c clk = mc_iso c (clk_now clk + span c)"

section \<open>Terminal outcomes\<close>

definition parse_lease_deadline :: "clock \<Rightarrow> string option \<Rightarrow> int option" where
  "parse_lease_deadline clk lease = map_option as_utc (Option.bind lease (clk_parse clk))"

definition begin_terminal_attempt :: "nat \<Rightarrow> manager \<Rightarrow> nat \<times> manager" where
  "begin_terminal_attempt r m =
     (let run_id = rc_run_id (mg_heap m r); f = mg_next_future m
      in (f, modify r (\<lambda>rc. rc\<lparr>rc_commit_pending := True\<rparr>)
               (m\<lparr>mg_attempts := (mg_attempts m)(run_id := mg_attempts m run_id @ [f]), mg_next_future := Suc f\<rparr>)))"

definition end_terminal_attempt :: "nat \<Rightarrow> nat \<Rightarrow> manager \<Rightarrow> manager" where
  "end_terminal_attempt r f m =
     (let run_id = rc_run_id (mg_heap m r)
      in m\<lparr>mg_attempts := (mg_attempts m)(run_id := removeAll f (mg_attempts m run_id))\<rparr>)"

definition acknowledged ::
  "manager_config \<Rightarrow> terminal_outcome \<Rightarrow> nat \<Rightarrow> clock \<Rightarrow> run_record \<Rightarrow> run_record" where
  "acknowledged c outcome staged_revision clk rc =
     (let authoritative = (case rc_proof rc of
            Some previous \<Rightarrow> (if \<not> mc_store c \<or> to_status previous = ''interrupted'' \<or> to_status outcome \<noteq> ''interrupted''
                              then outcome else previous)
          | None \<Rightarrow> outcome);
          rc1 = rc\<lparr>rc_proof := Some authoritative\<rparr>;
          rc2 = (if to_status authoritative \<noteq> ''interrupted'' \<or> rc_revision rc = staged_revision
                 then rc1\<lparr>rc_status := to_status authoritative, rc_error := to_error authoritative,
                          rc_stop_reason := to_stop_reason authoritative, rc_goal_verdict := to_goal_verdict authoritative\<rparr>
                 else rc1);
          rc3 = (if to_status authoritative = ''error'' then rc2\<lparr>rc_rollback_pending := False\<rparr> else rc2);
          rc4 = rc3\<lparr>rc_persisted := has_final_ack rc3\<rparr>
      in (if has_final_ack rc3 then rc4\<lparr>rc_commit_pending := False\<rparr> else rc4)\<lparr>rc_updated_at := clk_iso clk\<rparr>)"

definition acknowledge_terminal ::
  "manager_config \<Rightarrow> nat \<Rightarrow> terminal_outcome \<Rightarrow> nat \<Rightarrow> clock \<Rightarrow> manager \<Rightarrow> manager" where
  "acknowledge_terminal c r outcome staged_revision clk m =
     (if \<not> registered m r \<or> rc_lost (mg_heap m r) then m
      else (let m1 = modify r (acknowledged c outcome staged_revision clk) m
            in if rc_persisted (mg_heap m1 r) then clear_lease_deadline (rc_run_id (mg_heap m r)) m1 else m1))"

definition terminal_event_status :: "manager_config \<Rightarrow> nat \<Rightarrow> manager \<Rightarrow> string option" where
  "terminal_event_status c r m =
     (let rc = mg_heap m r
      in if \<not> registered m r \<or> rc_store_only rc \<or> rc_owner rc \<noteq> Some (mc_worker c) \<or> inflight (rc_status rc)
            \<or> \<not> has_final_ack rc then None else Some (rc_status rc))"

definition can_release_terminal_barrier :: "manager_config \<Rightarrow> nat \<Rightarrow> manager \<Rightarrow> bool" where
  "can_release_terminal_barrier c r m \<longleftrightarrow>
     \<not> heartbeat_enabled c \<or> \<not> mc_store c \<or> rc_lost (mg_heap m r) \<or> has_final_ack (mg_heap m r)"

section \<open>Fencing and lease deadlines\<close>

text \<open>\<^verbatim>\<open>_fence_local_record\<close>: the task of the run is cancelled unless it is the one that fences.\<close>

definition fenced :: "manager_config \<Rightarrow> nat \<Rightarrow> string \<Rightarrow> clock \<Rightarrow> run_record \<Rightarrow> run_record" where
  "fenced c r reason clk rc =
     rc\<lparr>rc_lost := True, rc_persisted := False, rc_commit_pending := False, rc_aborted := True, rc_status := ''error'',
        rc_error := Some reason, rc_updated_at := clk_iso clk,
        rc_task_cancelled := rc_task_cancelled rc \<or> (task_active rc \<and> mc_current c \<noteq> Some r)\<rparr>"

definition fence_local_record ::
  "manager_config \<Rightarrow> nat \<Rightarrow> string \<Rightarrow> bool \<Rightarrow> clock \<Rightarrow> manager \<Rightarrow> bool \<times> manager" where
  "fence_local_record c r reason require_active clk m =
     (let rc = mg_heap m r
      in if \<not> registered m r then (False, m)
         else if require_active \<and> (\<not> inflight (rc_status rc) \<or> rc_task rc = Some True) then (False, m)
         else if rc_lost rc then (True, m)
         else if has_final_ack rc then (False, modify r (\<lambda>rc. rc\<lparr>rc_commit_pending := False\<rparr>) m)
         else (True, modify r (fenced c r reason clk) (clear_lease_deadline (rc_run_id rc) m)))"

definition arm_lease_deadline :: "manager_config \<Rightarrow> nat \<Rightarrow> clock \<Rightarrow> manager \<Rightarrow> manager" where
  "arm_lease_deadline c r clk m0 =
     (let rc = mg_heap m0 r; m = clear_lease_deadline (rc_run_id rc) m0
      in if \<not> heartbeat_enabled c \<or> \<not> mc_store c \<or> rc_lost rc \<or> has_final_ack rc then m
         else m\<lparr>mg_deadlines := (mg_deadlines m)(rc_run_id rc \<mapsto>
                  (r, case parse_lease_deadline clk (rc_lease rc) of
                        None \<Rightarrow> clk_now clk | Some t \<Rightarrow> max t (clk_now clk)))\<rparr>)"

text \<open>The timer's callback.\<close>

definition lease_expired :: "manager_config \<Rightarrow> string \<Rightarrow> nat \<Rightarrow> clock \<Rightarrow> manager \<Rightarrow> manager" where
  "lease_expired c run_id r clk m0 =
     (let m = clear_lease_deadline run_id m0; rc = mg_heap m r
      in if \<not> registered m r \<or> rc_lost rc \<or> has_final_ack rc then m
         else case parse_lease_deadline clk (rc_lease rc) of
                Some t \<Rightarrow> (if clk_now clk < t then arm_lease_deadline c r clk m
                  else snd (fence_local_record c r ''The last confirmed lease expired without a final terminal acknowledgment.'' False clk m))
              | None \<Rightarrow> snd (fence_local_record c r ''The last confirmed lease expired without a final terminal acknowledgment.'' False clk m))"

text \<open>Whether a rejected renewal may be retried for a rollback that was admitted meanwhile.\<close>

definition interrupted_proof :: "run_record \<Rightarrow> bool" where
  "interrupted_proof rc \<longleftrightarrow> (case rc_proof rc of None \<Rightarrow> False | Some p \<Rightarrow> to_status p = ''interrupted'')"

definition rollback_retry_authorized :: "manager_config \<Rightarrow> nat \<Rightarrow> bool \<Rightarrow> manager \<Rightarrow> bool" where
  "rollback_retry_authorized c r initial_allow_interrupted m \<longleftrightarrow>
     (let rc = mg_heap m r in \<not> initial_allow_interrupted \<and> rc_rollback_pending rc \<and> interrupted_proof rc
        \<and> rc_owner rc = Some (mc_worker c) \<and> registered m r \<and> \<not> rc_lost rc \<and> \<not> has_final_ack rc)"

text \<open>The records whose lease a heartbeat renews.\<close>

definition renewable :: "manager_config \<Rightarrow> run_record \<Rightarrow> bool" where
  "renewable c rc \<longleftrightarrow> \<not> rc_lost rc \<and> rc_owner rc = Some (mc_worker c)
     \<and> (inflight (rc_status rc) \<or> awaits_terminal_commit rc) \<and> (awaits_terminal_commit rc \<or> rc_task rc \<noteq> Some True)"

section \<open>Questions about a thread\<close>

definition has_later_run :: "string \<Rightarrow> string \<Rightarrow> manager \<Rightarrow> bool" where
  "has_later_run thread_id run_id m \<longleftrightarrow>
     filter (\<lambda>r. rc_run_id (mg_heap m r) \<noteq> run_id)
       (dropWhile (\<lambda>r. rc_run_id (mg_heap m r) \<noteq> run_id) (thread_records_locked thread_id m)) \<noteq> []"

definition has_later_started_run :: "string \<Rightarrow> string \<Rightarrow> manager \<Rightarrow> bool" where
  "has_later_started_run thread_id run_id m \<longleftrightarrow>
     list_ex (\<lambda>r. rc_run_id (mg_heap m r) \<noteq> run_id
                 \<and> (rc_status (mg_heap m r) \<noteq> ''pending'' \<or> rc_finalizing (mg_heap m r)))
       (dropWhile (\<lambda>r. rc_run_id (mg_heap m r) \<noteq> run_id) (thread_records_locked thread_id m))"

definition has_inflight :: "string \<Rightarrow> manager \<Rightarrow> bool" where
  "has_inflight thread_id m \<longleftrightarrow> list_ex (\<lambda>r. let rc = mg_heap m r in rc_operation_kind rc = ''run''
     \<and> (inflight (rc_status rc) \<or> rc_finalizing rc)) (thread_records_locked thread_id m)"

text \<open>The condition on which \<^verbatim>\<open>wait_for_prior_finalizing\<close> stops polling.\<close>

definition prior_settled :: "string \<Rightarrow> string \<Rightarrow> manager \<Rightarrow> bool" where
  "prior_settled thread_id run_id m \<longleftrightarrow>
     (let rs = thread_records_locked thread_id m; other = (\<lambda>r. rc_run_id (mg_heap m r) \<noteq> run_id)
      in list_all other rs \<or> \<not> list_ex (\<lambda>r. rc_finalizing (mg_heap m r)) (takeWhile other rs))"

end
