(* ===== verification/RunManager.thy ===== *)
theory RunManager
  imports ManagerState
begin

text \<open>
  The methods of the run manager
  (\<^verbatim>\<open>backend/packages/harness/deerflow/runtime/runs/manager.py\<close>) as sequences of sections and calls of
  the run store.

  A manager lives on one event loop, so what happens between two awaits is one section on its state
  (\<open>Section\<close>). \<open>Ask\<close> is an awaited call of the store: it may return, raise or be cancelled, and when it
  raises it may have taken effect or not. \<open>Await\<close> waits for a condition on the manager and acts at once;
  \<open>Hold\<close> and \<open>Free\<close> are the keyed locks of threads and snapshots and a record's start lock; \<open>Spawn\<close>
  creates a task. Waiting can be cancelled, which is their last argument. Methods take what runs after
  them as an argument, and an exception is the left of a sum.
\<close>

section \<open>Programs\<close>

datatype manager_error =
    StoreFailed
  | UniqueViolation
  | StoreSaid store_error
  | TaskCancelled
  | RunStartupError string
  | Conflict string
  | UnsupportedStrategy string
  | IdempotencyKeyMismatch
  | EvidenceError string
  | StillActive string

datatype store_answer =
    Unit
  | Flag bool
  | Finalized status_finalization
  | Renewed lease_renewal
  | Row "run_row option"
  | Rows "run_row list"
  | Won "string option"
  | Threw store_error

datatype reply = Answer store_answer | Raised manager_error | Transient | Cancelled

datatype cancel_outcome = CancelDone | CancelRequested | TakenOver | LeaseValidElsewhere | NotCancellable
  | NotActiveLocally | CancelUnknown

datatype manager_value =
    Nothing
  | Truth bool
  | Started bool
  | Handle nat
  | Detached run_record
  | Outcome cancel_outcome
  | Action "string option"
  | Records "run_record list"

datatype lock_key = AdmissionLock string | SnapshotLock string | StartLock nat

datatype mprog =
    Finish "manager_error + manager_value"
  | Section "clock \<Rightarrow> manager \<Rightarrow> manager" "clock \<Rightarrow> manager \<Rightarrow> mprog"
  | Ask "clock \<Rightarrow> run_store \<Rightarrow> store_answer \<times> run_store" "reply \<Rightarrow> mprog"
  | Await "clock \<Rightarrow> manager \<Rightarrow> manager option" "clock \<Rightarrow> manager \<Rightarrow> mprog" mprog
  | Hold lock_key mprog mprog
  | Free lock_key mprog
  | Spawn mprog mprog

type_synonym 'a cont = "manager_error + 'a \<Rightarrow> mprog"

definition alter :: "(clock \<Rightarrow> manager \<Rightarrow> manager) \<Rightarrow> mprog \<Rightarrow> mprog" where
  "alter f p = Section f (\<lambda>_ _. p)"

definition look :: "(clock \<Rightarrow> manager \<Rightarrow> 'a) \<Rightarrow> ('a \<Rightarrow> mprog) \<Rightarrow> mprog" where
  "look g k = Section (\<lambda>_ m. m) (\<lambda>clk m. k (g clk m))"

definition sect :: "(clock \<Rightarrow> manager \<Rightarrow> 'a \<times> manager) \<Rightarrow> ('a \<Rightarrow> mprog) \<Rightarrow> mprog" where
  "sect f k = Section (\<lambda>clk m. snd (f clk m)) (\<lambda>clk m. k (fst (f clk m)))"

text \<open>An exception leaves the method.\<close>

definition ok_or :: "'b cont \<Rightarrow> ('a \<Rightarrow> mprog) \<Rightarrow> 'a cont" where
  "ok_or k g r = (case r of Inl e \<Rightarrow> k (Inl e) | Inr x \<Rightarrow> g x)"

definition holding :: "lock_key \<Rightarrow> ('a cont \<Rightarrow> mprog) \<Rightarrow> 'a cont \<Rightarrow> mprog" where
  "holding key body k = Hold key (body (\<lambda>r. Free key (k r))) (k (Inl TaskCancelled))"

fun holding_all :: "lock_key list \<Rightarrow> ('a cont \<Rightarrow> mprog) \<Rightarrow> 'a cont \<Rightarrow> mprog" where
  "holding_all [] body k = body k"
| "holding_all (key # keys) body k = holding key (holding_all keys body) k"

text \<open>\<^verbatim>\<open>_run_scope\<close>: the threads of admissions in progress for the run and the thread of its record.\<close>

definition scope_threads :: "string \<Rightarrow> manager \<Rightarrow> string list" where
  "scope_threads run_id m = sorted_list_of_set (set (od_keys (od_get_default (mg_pending m) run_id []))
     \<union> (case od_get (mg_runs m) run_id of None \<Rightarrow> {} | Some r \<Rightarrow> {rc_thread_id (mg_heap m r)}))"

definition run_scope :: "string \<Rightarrow> ('a cont \<Rightarrow> mprog) \<Rightarrow> 'a cont \<Rightarrow> mprog" where
  "run_scope run_id body k = look (\<lambda>_ m. scope_threads run_id m) (\<lambda>ts. holding_all (map AdmissionLock ts) body k)"

definition run_registry :: "string \<Rightarrow> (clock \<Rightarrow> manager \<Rightarrow> 'a \<times> manager) \<Rightarrow> 'a cont \<Rightarrow> mprog" where
  "run_registry run_id f = run_scope run_id (\<lambda>k. sect f (\<lambda>x. k (Inr x)))"

definition thread_registry :: "string \<Rightarrow> (clock \<Rightarrow> manager \<Rightarrow> 'a \<times> manager) \<Rightarrow> 'a cont \<Rightarrow> mprog" where
  "thread_registry thread_id f = holding (AdmissionLock thread_id) (\<lambda>k. sect f (\<lambda>x. k (Inr x)))"

definition enter_pending :: "string \<Rightarrow> string \<Rightarrow> manager \<Rightarrow> manager" where
  "enter_pending thread_id run_id m =
     (let threads = od_get_default (mg_pending m) run_id []
      in m\<lparr>mg_pending := od_set run_id (od_set thread_id (Suc (od_get_default threads thread_id 0)) threads) (mg_pending m)\<rparr>)"

definition leave_pending :: "string \<Rightarrow> string \<Rightarrow> manager \<Rightarrow> manager" where
  "leave_pending thread_id run_id m =
     (let threads = od_get_default (mg_pending m) run_id []; n = od_get_default threads thread_id 0 - 1;
          threads' = (if n = 0 then od_del thread_id threads else od_set thread_id n threads)
      in m\<lparr>mg_pending := (if threads' = [] then od_del run_id (mg_pending m) else od_set run_id threads' (mg_pending m))\<rparr>)"

definition admission_scope :: "string \<Rightarrow> string \<Rightarrow> ('a cont \<Rightarrow> mprog) \<Rightarrow> 'a cont \<Rightarrow> mprog" where
  "admission_scope thread_id run_id body k = alter (\<lambda>_. enter_pending thread_id run_id)
     (holding (AdmissionLock thread_id) body (\<lambda>r. alter (\<lambda>_. leave_pending thread_id run_id) (k r)))"

section \<open>Calls of the store\<close>

text \<open>\<^verbatim>\<open>await self._store.<method>(...)\<close>, once.\<close>

definition ask :: "(clock \<Rightarrow> run_store \<Rightarrow> store_answer \<times> run_store) \<Rightarrow> store_answer cont \<Rightarrow> mprog" where
  "ask f k = Ask f (\<lambda>r. case r of
       Answer (Threw e) \<Rightarrow> k (Inl (StoreSaid e))
     | Answer a \<Rightarrow> k (Inr a)
     | Raised e \<Rightarrow> k (Inl e)
     | Transient \<Rightarrow> k (Inl StoreFailed)
     | Cancelled \<Rightarrow> k (Inl TaskCancelled))"

text \<open>\<^verbatim>\<open>_call_store_with_retry\<close>, with the attempts left after this one.\<close>

primrec retrying :: "nat \<Rightarrow> (clock \<Rightarrow> run_store \<Rightarrow> store_answer \<times> run_store) \<Rightarrow> store_answer cont \<Rightarrow> mprog" where
  "retrying 0 f k = ask f k"
| "retrying (Suc n) f k = Ask f (\<lambda>r. case r of
       Answer (Threw e) \<Rightarrow> k (Inl (StoreSaid e))
     | Answer a \<Rightarrow> k (Inr a)
     | Raised e \<Rightarrow> k (Inl e)
     | Transient \<Rightarrow> retrying n f k
     | Cancelled \<Rightarrow> k (Inl TaskCancelled))"

definition call_store_with_retry ::
  "manager_config \<Rightarrow> (clock \<Rightarrow> run_store \<Rightarrow> store_answer \<times> run_store) \<Rightarrow> store_answer cont \<Rightarrow> mprog" where
  "call_store_with_retry c = retrying (mc_max_attempts c - 1)"

text \<open>The methods of the store as they are called.\<close>

definition do_put :: "string \<Rightarrow> put_args \<Rightarrow> clock \<Rightarrow> run_store \<Rightarrow> store_answer \<times> run_store" where
  "do_put run_id a clk s = (Unit, put clk run_id a s)"

definition do_get :: "string \<Rightarrow> string option \<Rightarrow> clock \<Rightarrow> run_store \<Rightarrow> store_answer \<times> run_store" where
  "do_get run_id user_id clk s = (Row (get run_id user_id s), s)"

definition do_update_status ::
  "string \<Rightarrow> terminal_outcome \<Rightarrow> string option \<Rightarrow> clock \<Rightarrow> run_store \<Rightarrow> store_answer \<times> run_store" where
  "do_update_status run_id p owner clk s =
     map_prod Flag id (update_status clk run_id (to_status p) (to_error p) (to_stop_reason p) (to_goal_verdict p) owner s)"

definition do_finalize ::
  "string \<Rightarrow> terminal_outcome \<Rightarrow> string option \<Rightarrow> clock \<Rightarrow> run_store \<Rightarrow> store_answer \<times> run_store" where
  "do_finalize run_id p owner clk s =
     map_prod Finalized id (finalize_if_not_cancelled clk run_id (to_status p) (to_error p) (to_stop_reason p) (to_goal_verdict p) owner s)"

definition do_start :: "string \<Rightarrow> clock \<Rightarrow> run_store \<Rightarrow> store_answer \<times> run_store" where
  "do_start run_id clk s = map_prod Flag id (start_run clk run_id s)"

definition do_renew :: "string \<Rightarrow> string \<Rightarrow> string \<Rightarrow> bool \<Rightarrow> clock \<Rightarrow> run_store \<Rightarrow> store_answer \<times> run_store" where
  "do_renew run_id owner lease allow_interrupted clk s =
     (case renew_lease clk run_id owner lease allow_interrupted s of Inl e \<Rightarrow> (Threw e, s) | Inr (l, s') \<Rightarrow> (Renewed l, s'))"

definition do_request_cancel :: "string \<Rightarrow> string \<Rightarrow> clock \<Rightarrow> run_store \<Rightarrow> store_answer \<times> run_store" where
  "do_request_cancel run_id action clk s =
     (case request_cancel clk run_id action s of Inl e \<Rightarrow> (Threw e, s) | Inr (w, s') \<Rightarrow> (Won w, s'))"

definition do_claim :: "string \<Rightarrow> int \<Rightarrow> string \<Rightarrow> string option \<Rightarrow> clock \<Rightarrow> run_store \<Rightarrow> store_answer \<times> run_store" where
  "do_claim run_id grace_seconds error stop_reason clk s =
     map_prod Flag id (claim_for_takeover clk run_id grace_seconds error stop_reason s)"

definition do_create ::
  "string \<Rightarrow> string \<Rightarrow> int \<Rightarrow> put_args \<Rightarrow> clock \<Rightarrow> run_store \<Rightarrow> store_answer \<times> run_store" where
  "do_create run_id owner grace_seconds a clk s =
     (case create_thread_operation_atomic clk run_id owner grace_seconds a s of
        Inl e \<Rightarrow> (Threw e, s) | Inr ((row, claimed), s') \<Rightarrow> (Rows claimed, s'))"

definition do_completion ::
  "string \<Rightarrow> string \<Rightarrow> bool \<Rightarrow> string option \<Rightarrow> completion \<Rightarrow> clock \<Rightarrow> run_store \<Rightarrow> store_answer \<times> run_store" where
  "do_completion run_id status require_terminal owner cp clk s =
     map_prod Flag id (update_run_completion clk run_id status require_terminal owner cp s)"

definition do_progress :: "string \<Rightarrow> completion \<Rightarrow> clock \<Rightarrow> run_store \<Rightarrow> store_answer \<times> run_store" where
  "do_progress run_id cp clk s = (Unit, update_run_progress clk run_id cp s)"

definition do_model_name :: "string \<Rightarrow> string option \<Rightarrow> clock \<Rightarrow> run_store \<Rightarrow> store_answer \<times> run_store" where
  "do_model_name run_id name clk s = (Unit, update_model_name clk run_id name s)"

definition do_list_expired :: "string option \<Rightarrow> int \<Rightarrow> clock \<Rightarrow> run_store \<Rightarrow> store_answer \<times> run_store" where
  "do_list_expired before grace_seconds clk s =
     (case list_inflight_with_expired_lease clk before grace_seconds s of Inl e \<Rightarrow> (Threw e, s) | Inr rs \<Rightarrow> (Rows rs, s))"

definition do_release_operation :: "string \<Rightarrow> clock \<Rightarrow> run_store \<Rightarrow> store_answer \<times> run_store" where
  "do_release_operation run_id clk s = (Unit, delete run_id s)"

section \<open>Persisting an outcome\<close>

definition persist_snapshot_to_store :: "manager_config \<Rightarrow> string \<Rightarrow> put_args \<Rightarrow> bool cont \<Rightarrow> mprog" where
  "persist_snapshot_to_store c run_id payload k =
     (if \<not> mc_store c then k (Inr True)
      else call_store_with_retry c (do_put run_id payload) (\<lambda>r. case r of
          Inl TaskCancelled \<Rightarrow> k (Inl TaskCancelled) | Inl _ \<Rightarrow> k (Inr False) | Inr _ \<Rightarrow> k (Inr True)))"

definition persist_new_run_to_store :: "manager_config \<Rightarrow> run_record \<Rightarrow> unit cont \<Rightarrow> mprog" where
  "persist_new_run_to_store c rc k =
     (if \<not> mc_store c then k (Inr ())
      else call_store_with_retry c (do_put (rc_run_id rc) (store_put_payload rc None None)) (ok_or k (\<lambda>_. k (Inr ()))))"

text \<open>
  \<^verbatim>\<open>_terminal_operation\<close>: the future marks the attempt as in flight; its end, the acknowledgement and the
  return of the store's answer are one section.
\<close>

definition terminal_operation ::
  "manager_config \<Rightarrow> nat \<Rightarrow> terminal_outcome \<Rightarrow> (manager_error + store_answer \<Rightarrow> bool)
     \<Rightarrow> (store_answer cont \<Rightarrow> mprog) \<Rightarrow> store_answer cont \<Rightarrow> mprog" where
  "terminal_operation c r outcome committed operation k =
     sect (\<lambda>clk m. (case begin_terminal_attempt r m of (f, m') \<Rightarrow> ((f, rc_revision (mg_heap m r)), m')))
       (\<lambda>(f, staged_revision). operation (\<lambda>a. alter (\<lambda>clk m. end_terminal_attempt r f
          (if committed a then acknowledge_terminal c r outcome staged_revision clk m else m)) (k a)))"

text \<open>
  \<^verbatim>\<open>_release_confirmed_terminal_barrier\<close>: a poll of the attempts in flight until the outcome is
  acknowledged, none is left, or the deadline has come.
\<close>

definition release_confirmed_terminal_barrier :: "nat \<Rightarrow> (clock \<Rightarrow> int) \<Rightarrow> bool cont \<Rightarrow> mprog" where
  "release_confirmed_terminal_barrier r deadline k = look (\<lambda>clk _. deadline clk) (\<lambda>deadline.
     Await (\<lambda>clk m. let rc = mg_heap m r in
         if rc_lost rc then Some m
         else if has_final_ack rc then Some (modify r (\<lambda>rc. rc\<lparr>rc_goal_cleanup := False, rc_commit_pending := False\<rparr>) m)
         else if mg_attempts m (rc_run_id rc) = [] \<or> deadline \<le> clk_now clk then Some m else None)
       (\<lambda>clk m. k (Inr (\<not> rc_lost (mg_heap m r) \<and> has_final_ack (mg_heap m r))))
       (k (Inl TaskCancelled)))"

definition mark_ownership_lost :: "manager_config \<Rightarrow> nat \<Rightarrow> string \<Rightarrow> (bool \<Rightarrow> mprog) \<Rightarrow> mprog" where
  "mark_ownership_lost c r reason = sect (fence_local_record c r reason False)"

text \<open>The instant at which the last confirmed lease runs out, and now if it has.\<close>

definition confirmed_until :: "nat \<Rightarrow> clock \<Rightarrow> manager \<Rightarrow> int" where
  "confirmed_until r clk m = (case parse_lease_deadline clk (rc_lease (mg_heap m r)) of
     None \<Rightarrow> clk_now clk | Some t \<Rightarrow> max t (clk_now clk))"

definition fence_unconfirmed_terminal :: "manager_config \<Rightarrow> nat \<Rightarrow> unit cont \<Rightarrow> mprog" where
  "fence_unconfirmed_terminal c r k = look (confirmed_until r) (\<lambda>deadline.
     release_confirmed_terminal_barrier r (\<lambda>_. deadline) (ok_or k (\<lambda>confirmed.
       if confirmed then k (Inr ())
       else mark_ownership_lost c r ''This worker's terminal write was rejected or could not be confirmed.'' (\<lambda>_. k (Inr ())))))"

definition is_true :: "manager_error + store_answer \<Rightarrow> bool" where
  "is_true a \<longleftrightarrow> a = Inr (Flag True)"

definition is_finalized :: "manager_error + store_answer \<Rightarrow> bool" where
  "is_finalized a \<longleftrightarrow> (case a of Inr (Finalized f) \<Rightarrow> sf_finalized f | _ \<Rightarrow> False)"

text \<open>The owner-conditioned write of heartbeat mode.\<close>

definition persist_owned_status ::
  "manager_config \<Rightarrow> nat \<Rightarrow> string \<Rightarrow> bool \<Rightarrow> terminal_outcome \<Rightarrow> bool cont \<Rightarrow> mprog" where
  "persist_owned_status c r run_id terminal outcome k =
     (let give_up = (if terminal then fence_unconfirmed_terminal c r (ok_or k (\<lambda>_. k (Inr False))) else k (Inr False));
          operation = call_store_with_retry c (do_update_status run_id outcome (Some (mc_worker c)));
          settle = (\<lambda>a. if is_true a then look (\<lambda>_ m. rc_lost (mg_heap m r)) (\<lambda>lost. if lost then give_up else k (Inr True))
            else if a = Inl TaskCancelled
            then (if terminal then fence_unconfirmed_terminal c r (\<lambda>_. k (Inl TaskCancelled)) else k (Inl TaskCancelled))
            else give_up)
      in if terminal then terminal_operation c r outcome is_true operation settle else operation settle)"

text \<open>The write of a manager without leases, which recreates a row that was never stored.\<close>

definition persist_unowned_status ::
  "manager_config \<Rightarrow> nat \<Rightarrow> run_record \<Rightarrow> terminal_outcome \<Rightarrow> string option \<Rightarrow> string option \<Rightarrow> bool cont \<Rightarrow> mprog" where
  "persist_unowned_status c r rc outcome error stop_reason k =
     (let run_id = rc_run_id rc; status = to_status outcome; terminal = (\<not> inflight status);
          payload = (store_put_payload rc error stop_reason)\<lparr>pa_status := status\<rparr>;
          requested = outcome\<lparr>to_error := error, to_stop_reason := stop_reason, to_goal_verdict := rc_goal_verdict rc\<rparr>
      in call_store_with_retry c (do_update_status run_id requested None) (\<lambda>a. case a of
          Inl TaskCancelled \<Rightarrow> k (Inl TaskCancelled)
        | Inl _ \<Rightarrow> k (Inr False)
        | Inr (Flag False) \<Rightarrow> ask (do_get run_id (rc_user_id rc)) (\<lambda>a. case a of
              Inl TaskCancelled \<Rightarrow> k (Inl TaskCancelled)
            | Inr (Row (Some row)) \<Rightarrow>
                (if rr_status row = status \<and> terminal_row_matches_payload row payload then k (Inr True)
                 else if rr_status row = ''error'' \<and> heartbeat_enabled c \<and> \<not> rc_store_only rc
                 then mark_ownership_lost c r ''A peer terminalized the run before this worker could persist its outcome.''
                        (\<lambda>_. k (Inr False))
                 else k (Inr False))
            | Inr (Row None) \<Rightarrow> persist_snapshot_to_store c run_id payload k
            | _ \<Rightarrow> k (Inr False))
        | Inr answer \<Rightarrow> (if terminal \<and> answer = Flag True \<and> \<not> rc_store_only rc
            then alter (acknowledge_terminal c r outcome (rc_revision rc)) (k (Inr True)) else k (Inr True))))"

definition persist_status ::
  "manager_config \<Rightarrow> nat \<Rightarrow> string \<Rightarrow> string option \<Rightarrow> string option \<Rightarrow> bool cont \<Rightarrow> mprog" where
  "persist_status c r status error stop_reason k = look (\<lambda>_ m. mg_heap m r) (\<lambda>rc.
     let terminal = (\<not> inflight status); outcome = terminal_outcome_of rc (Some status) error stop_reason None
     in if rc_lost rc then k (Inr False)
        else if \<not> mc_store c
        then (if terminal \<and> \<not> rc_store_only rc then alter (acknowledge_terminal c r outcome (rc_revision rc)) (k (Inr True))
              else k (Inr True))
        else if heartbeat_enabled c \<and> \<not> rc_store_only rc
        then (if terminal \<and> has_terminal_ack rc outcome then k (Inr True)
              else persist_owned_status c r (rc_run_id rc) terminal outcome k)
        else persist_unowned_status c r rc outcome error stop_reason k)"

end
