(* ===== verification/RunLifecycle.thy ===== *)
theory RunLifecycle
  imports RunManager
begin

text \<open>
  The life of a run in the manager
  (\<^verbatim>\<open>backend/packages/harness/deerflow/runtime/runs/manager.py\<close>): creation and admission, the start
  barrier, status transitions, cancellation, renewal of leases, recovery of orphans, cleanup and shutdown,
  as programs over the sections and store calls of the theories it imports.
\<close>

section \<open>Status transitions\<close>

text \<open>\<^verbatim>\<open>set_status\<close> up to its first await: whether the transition was made.\<close>

definition stage_status ::
  "manager_config \<Rightarrow> string \<Rightarrow> string \<Rightarrow> string option \<Rightarrow> string option \<Rightarrow> pyval option
     \<Rightarrow> clock \<Rightarrow> manager \<Rightarrow> nat option \<times> manager" where
  "stage_status c run_id status error stop_reason goal_verdict clk m = (case od_get (mg_runs m) run_id of
       None \<Rightarrow> (None, m)
     | Some r \<Rightarrow> (let rc = mg_heap m r
         in if rc_lost rc then (None, m)
            else if heartbeat_enabled c \<and> mc_store c \<and> rc_proof rc \<noteq> None \<and> \<not> interrupted_proof rc
                    \<and> Some (terminal_outcome_of rc (Some status) error stop_reason goal_verdict) \<noteq> rc_proof rc
            then (None, m)
            else (Some r, modify r (\<lambda>rc. (if \<not> inflight status
                then rc\<lparr>rc_revision := Suc (rc_revision rc), rc_persisted := \<not> mc_store c\<rparr> else rc)
                \<lparr>rc_status := status, rc_updated_at := clk_iso clk, rc_error := some_or error (rc_error rc),
                 rc_stop_reason := some_or stop_reason (rc_stop_reason rc),
                 rc_goal_verdict := some_or goal_verdict (rc_goal_verdict rc)\<rparr>) m)))"

text \<open>What \<^verbatim>\<open>set_status\<close>, \<^verbatim>\<open>persist_current_status\<close> and \<^verbatim>\<open>cancel\<close> record after the write.\<close>

definition note_persisted :: "manager_config \<Rightarrow> nat \<Rightarrow> bool \<Rightarrow> manager \<Rightarrow> manager" where
  "note_persisted c r persisted = modify r (\<lambda>rc. rc\<lparr>rc_persisted :=
     (if heartbeat_enabled c \<and> mc_store c then has_final_ack rc else persisted)\<rparr>)"

definition after_persist ::
  "manager_config \<Rightarrow> nat \<Rightarrow> string \<Rightarrow> string \<Rightarrow> bool \<Rightarrow> bool cont \<Rightarrow> mprog" where
  "after_persist c r run_id status persisted k =
     (let confirm = look (\<lambda>_ m. rc_lost (mg_heap m r)) (\<lambda>lost.
            if \<not> persisted \<and> heartbeat_enabled c \<and> status = ''success'' \<and> \<not> lost
            then mark_ownership_lost c r ''Successful completion could not be confirmed in the durable run store.''
                   (\<lambda>_. k (Inr persisted))
            else k (Inr persisted))
      in if inflight status then confirm
         else run_registry run_id (\<lambda>_ m. ((), note_persisted c r persisted m)) (ok_or k (\<lambda>_. confirm)))"

definition set_status ::
  "manager_config \<Rightarrow> string \<Rightarrow> string \<Rightarrow> string option \<Rightarrow> string option \<Rightarrow> pyval option \<Rightarrow> bool \<Rightarrow> unit cont \<Rightarrow> mprog" where
  "set_status c run_id status error stop_reason goal_verdict persist k =
     run_registry run_id (stage_status c run_id status error stop_reason goal_verdict) (ok_or k (\<lambda>staged. case staged of
         None \<Rightarrow> k (Inr ())
       | Some r \<Rightarrow> (if \<not> persist then k (Inr ())
           else persist_status c r status error stop_reason (ok_or k (\<lambda>persisted.
             after_persist c r run_id status persisted (ok_or k (\<lambda>_. k (Inr ()))))))))"

definition persist_current_status :: "manager_config \<Rightarrow> string \<Rightarrow> bool cont \<Rightarrow> mprog" where
  "persist_current_status c run_id k =
     run_registry run_id (\<lambda>_ m. (map_option (\<lambda>r. (r, mg_heap m r)) (od_get (mg_runs m) run_id), m)) (ok_or k (\<lambda>found. case found of
         None \<Rightarrow> k (Inr False)
       | Some (r, rc) \<Rightarrow> persist_status c r (rc_status rc) (rc_error rc) (rc_stop_reason rc) (ok_or k (\<lambda>persisted.
           after_persist c r run_id (rc_status rc) persisted k))))"

text \<open>The owner's compare-and-set against a durable cancellation; answers the cancellation that won.\<close>

definition finalize_candidate ::
  "manager_config \<Rightarrow> string \<Rightarrow> string \<Rightarrow> string option \<Rightarrow> string option \<Rightarrow> pyval option
     \<Rightarrow> manager \<Rightarrow> (nat \<times> terminal_outcome) option" where
  "finalize_candidate c run_id status error stop_reason goal_verdict m = (case od_get (mg_runs m) run_id of
       None \<Rightarrow> None
     | Some r \<Rightarrow> (let rc = mg_heap m r; outcome = terminal_outcome_of rc (Some status) error stop_reason goal_verdict
         in if rc_store_only rc \<or> rc_lost rc \<or> has_terminal_ack rc outcome \<or> rc_proof rc \<noteq> None \<and> \<not> interrupted_proof rc
            then None else Some (r, outcome)))"

definition set_status_if_not_cancelled ::
  "manager_config \<Rightarrow> string \<Rightarrow> string \<Rightarrow> string option \<Rightarrow> string option \<Rightarrow> pyval option \<Rightarrow> bool
     \<Rightarrow> string option cont \<Rightarrow> mprog" where
  "set_status_if_not_cancelled c run_id status error stop_reason goal_verdict persist k =
     (if \<not> persist \<or> \<not> heartbeat_enabled c \<or> \<not> mc_store c
      then set_status c run_id status error stop_reason goal_verdict persist (ok_or k (\<lambda>_. k (Inr None)))
      else run_registry run_id (\<lambda>_ m. (finalize_candidate c run_id status error stop_reason goal_verdict m, m))
        (ok_or k (\<lambda>found. case found of
            None \<Rightarrow> k (Inr None)
          | Some (r, outcome) \<Rightarrow> terminal_operation c r outcome is_finalized
              (call_store_with_retry c (do_finalize run_id outcome (Some (mc_worker c)))) (\<lambda>a. case a of
                  Inl TaskCancelled \<Rightarrow> fence_unconfirmed_terminal c r (\<lambda>_. k (Inl TaskCancelled))
                | Inr (Finalized f) \<Rightarrow>
                    (if sf_finalized f then k (Inr None)
                     else case sf_cancel_action f of
                         Some action \<Rightarrow> alter (\<lambda>_. modify r (\<lambda>rc. rc\<lparr>rc_abort_action := action, rc_aborted := True\<rparr>))
                           (k (Inr (Some action)))
                       | None \<Rightarrow> fence_unconfirmed_terminal c r (ok_or k (\<lambda>_. k (Inr None))))
                | _ \<Rightarrow> fence_unconfirmed_terminal c r (ok_or k (\<lambda>_. k (Inr None)))))))"

definition set_finalizing :: "string \<Rightarrow> bool \<Rightarrow> unit cont \<Rightarrow> mprog" where
  "set_finalizing run_id finalizing = run_registry run_id (\<lambda>clk m. ((), case od_get (mg_runs m) run_id of
       None \<Rightarrow> m
     | Some r \<Rightarrow> modify r (\<lambda>rc. rc\<lparr>rc_finalizing := finalizing, rc_updated_at := clk_iso clk\<rparr>) m))"

text \<open>The poll of older runs; an abort event ends it early.\<close>

definition wait_for_prior_finalizing :: "string \<Rightarrow> string \<Rightarrow> nat option \<Rightarrow> unit cont \<Rightarrow> mprog" where
  "wait_for_prior_finalizing thread_id run_id abort k = Await (\<lambda>_ m.
       if prior_settled thread_id run_id m \<or> (case abort of None \<Rightarrow> False | Some r \<Rightarrow> rc_aborted (mg_heap m r))
       then Some m else None)
     (\<lambda>_ _. k (Inr ())) (k (Inl TaskCancelled))"

section \<open>Starting\<close>

text \<open>
  \<^verbatim>\<open>try_start\<close>: the two sections on the record, around the conditional transition of the row. A cancellation
  that comes in between wins, and its status is written back.
\<close>

definition enter_running :: "string \<Rightarrow> nat \<Rightarrow> clock \<Rightarrow> manager \<Rightarrow> run_record option \<times> manager" where
  "enter_running run_id r clk m =
     (let rc = mg_heap m r
      in if rc_aborted rc \<or> rc_status rc \<noteq> ''pending'' then (Some rc, m)
         else (None, modify r (\<lambda>rc. rc\<lparr>rc_status := ''running'', rc_updated_at := clk_iso clk\<rparr>) m))"

definition refuse_start :: "nat \<Rightarrow> clock \<Rightarrow> manager \<Rightarrow> manager" where
  "refuse_start r clk = modify r (\<lambda>rc. if rc_status rc = ''pending''
     then rc\<lparr>rc_status := ''interrupted'', rc_persisted := False, rc_aborted := True, rc_updated_at := clk_iso clk\<rparr> else rc)"

definition finish_start :: "manager_config \<Rightarrow> string \<Rightarrow> nat \<Rightarrow> bool cont \<Rightarrow> mprog" where
  "finish_start c run_id r k = run_registry run_id (enter_running run_id r) (ok_or k (\<lambda>restore. case restore of
       None \<Rightarrow> k (Inr True)
     | Some rc \<Rightarrow> (if mc_store c
         then persist_status c r (rc_status rc) (rc_error rc) (rc_stop_reason rc) (ok_or k (\<lambda>_. k (Inr False)))
         else k (Inr False))))"

definition start_locked :: "manager_config \<Rightarrow> string \<Rightarrow> nat \<Rightarrow> bool cont \<Rightarrow> mprog" where
  "start_locked c run_id r k =
     run_registry run_id (\<lambda>_ m. (rc_aborted (mg_heap m r) \<or> rc_status (mg_heap m r) \<noteq> ''pending'', m)) (ok_or k (\<lambda>cancelled.
       if cancelled then k (Inr False)
       else if \<not> mc_store c then finish_start c run_id r k
       else call_store_with_retry c (do_start run_id) (\<lambda>a. case a of
           Inl TaskCancelled \<Rightarrow> k (Inl TaskCancelled)
         | Inl _ \<Rightarrow> k (Inl (RunStartupError (''Failed to start run '' @ run_id)))
         | Inr (Flag False) \<Rightarrow> run_registry run_id (\<lambda>clk m. ((), refuse_start r clk m)) (ok_or k (\<lambda>_. k (Inr False)))
         | Inr _ \<Rightarrow> finish_start c run_id r k)))"

definition try_start :: "manager_config \<Rightarrow> string \<Rightarrow> bool cont \<Rightarrow> mprog" where
  "try_start c run_id k = run_registry run_id (\<lambda>_ m. (od_get (mg_runs m) run_id, m)) (ok_or k (\<lambda>found. case found of
       None \<Rightarrow> k (Inl (RunStartupError (''Cannot start unknown run '' @ run_id)))
     | Some r \<Rightarrow> holding (StartLock r) (start_locked c run_id r) k))"

definition fail_start_if_pending :: "manager_config \<Rightarrow> string \<Rightarrow> string \<Rightarrow> bool cont \<Rightarrow> mprog" where
  "fail_start_if_pending c run_id error k = run_registry run_id (\<lambda>clk m. case od_get (mg_runs m) run_id of
       None \<Rightarrow> (None, m)
     | Some r \<Rightarrow> (if rc_status (mg_heap m r) \<noteq> ''pending'' then (None, m)
         else (Some r, modify r (\<lambda>rc. rc\<lparr>rc_status := ''error'', rc_persisted := \<not> mc_store c, rc_error := Some error,
                 rc_aborted := True, rc_updated_at := clk_iso clk\<rparr>) m)))
     (ok_or k (\<lambda>failed. case failed of
         None \<Rightarrow> k (Inr False)
       | Some r \<Rightarrow> persist_status c r ''error'' (Some error) None (ok_or k (\<lambda>persisted.
           run_registry run_id (\<lambda>_ m. ((), if od_get (mg_runs m) run_id = Some r
               then modify r (\<lambda>rc. rc\<lparr>rc_persisted := persisted\<rparr>) m else m)) (ok_or k (\<lambda>_. k (Inr True)))))))"

section \<open>Completion data and progress\<close>

text \<open>\<^verbatim>\<open>setattr\<close> of every field that was given.\<close>

definition set_completion :: "completion \<Rightarrow> run_record \<Rightarrow> run_record" where
  "set_completion cp rc =
     rc\<lparr>rc_counts := set_counts (cp_counts cp) (rc_counts rc),
        rc_usage_by_model := (case cp_usage_by_model cp of None \<Rightarrow> rc_usage_by_model rc | Some u \<Rightarrow> u),
        rc_last_ai_message := some_or (cp_last_ai_message cp) (rc_last_ai_message rc),
        rc_first_human_message := some_or (cp_first_human_message cp) (rc_first_human_message rc),
        rc_error := some_or (cp_error cp) (rc_error rc), rc_stop_reason := some_or (cp_stop_reason cp) (rc_stop_reason rc),
        rc_goal_verdict := some_or (cp_goal_verdict cp) (rc_goal_verdict rc)\<rparr>"

definition unattributed :: "string \<Rightarrow> run_record option \<Rightarrow> bool" where
  "unattributed status found = (case found of None \<Rightarrow> True
     | Some rc \<Rightarrow> rc_store_only rc \<or> \<not> has_final_ack rc \<or> status \<noteq> rc_status rc)"

definition changes_outcome :: "completion \<Rightarrow> run_record \<Rightarrow> bool" where
  "changes_outcome cp rc \<longleftrightarrow> cp_error cp \<notin> {None, rc_error rc} \<or> cp_stop_reason cp \<notin> {None, rc_stop_reason rc}
     \<or> cp_goal_verdict cp \<notin> {None, rc_goal_verdict rc}"

text \<open>
  The section of \<^verbatim>\<open>update_run_completion\<close>: \<open>None\<close> when the data are dropped, otherwise the record, the
  payload that would recreate its row, and the data with the verdict filled in.
\<close>

definition stage_completion ::
  "manager_config \<Rightarrow> string \<Rightarrow> string \<Rightarrow> completion \<Rightarrow> clock \<Rightarrow> manager
     \<Rightarrow> ((nat \<times> put_args) option \<times> completion) option \<times> manager" where
  "stage_completion c run_id status cp clk m =
     (let found = od_get (mg_runs m) run_id; strict = (heartbeat_enabled c \<and> mc_store c)
      in case found of
           None \<Rightarrow> (if strict then None else Some (None, cp), m)
         | Some r \<Rightarrow> (let rc = mg_heap m r
             in if rc_lost rc \<or> strict \<and> (unattributed status (Some rc) \<or> changes_outcome cp rc) then (None, m)
                else let cp' = cp\<lparr>cp_goal_verdict := some_or (cp_goal_verdict cp) (rc_goal_verdict rc)\<rparr>;
                         m' = modify r (\<lambda>rc. (set_completion cp' rc)\<lparr>rc_updated_at := clk_iso clk\<rparr>) m
                     in (Some (Some (r, store_put_payload (mg_heap m' r) (cp_error cp') None), cp'), m')))"

text \<open>Completion data without leases, recreating a row that was never stored.\<close>

definition confirm_persisted :: "string \<Rightarrow> (nat \<times> put_args) option \<Rightarrow> mprog \<Rightarrow> mprog" where
  "confirm_persisted status target p = (case target of
       None \<Rightarrow> p
     | Some (r, payload) \<Rightarrow> alter (\<lambda>_. modify r (\<lambda>rc. if status = rc_status rc then rc\<lparr>rc_persisted := True\<rparr> else rc)) p)"

definition complete_unowned ::
  "manager_config \<Rightarrow> string \<Rightarrow> string \<Rightarrow> (nat \<times> put_args) option \<Rightarrow> completion \<Rightarrow> unit cont \<Rightarrow> mprog" where
  "complete_unowned c run_id status target cp k =
     (let quiet = (\<lambda>e. k (if e = TaskCancelled then Inl TaskCancelled else Inr ()));
          write = call_store_with_retry c (do_completion run_id status False None cp);
          recreate = (case target of
              None \<Rightarrow> k (Inr ())
            | Some (r, payload) \<Rightarrow> persist_snapshot_to_store c run_id payload (ok_or k (\<lambda>stored.
                if \<not> stored then k (Inr ())
                else write (\<lambda>a. case a of
                    Inl e \<Rightarrow> quiet e
                  | Inr answer \<Rightarrow> (if answer = Flag False then k (Inr ()) else confirm_persisted status target (k (Inr ())))))))
      in write (\<lambda>a. case a of
          Inl e \<Rightarrow> quiet e
        | Inr answer \<Rightarrow> (if answer \<noteq> Flag False then confirm_persisted status target (k (Inr ()))
            else ask (do_get run_id None) (\<lambda>a. case a of
                Inl e \<Rightarrow> quiet e
              | Inr (Row (Some row)) \<Rightarrow>
                  (if rr_status row = status then confirm_persisted status target recreate
                   else if rr_status row = ''error'' \<and> target \<noteq> None \<and> heartbeat_enabled c
                   then mark_ownership_lost c (fst (the target)) ''A peer terminalized the run before completion data was persisted.''
                          (\<lambda>_. k (Inr ()))
                   else k (Inr ()))
              | _ \<Rightarrow> recreate))))"

definition complete_run :: "manager_config \<Rightarrow> string \<Rightarrow> string \<Rightarrow> completion \<Rightarrow> unit cont \<Rightarrow> mprog" where
  "complete_run c run_id status cp k =
     run_registry run_id (stage_completion c run_id status cp) (ok_or k (\<lambda>staged. case staged of
         None \<Rightarrow> k (Inr ())
       | Some (target, cp') \<Rightarrow>
           (if \<not> mc_store c then k (Inr ())
            else if heartbeat_enabled c
            then look (\<lambda>_ m. unattributed status (map_option (\<lambda>t. mg_heap m (fst t)) target)) (\<lambda>dropped.
              if dropped then k (Inr ())
              else call_store_with_retry c (do_completion run_id status True (Some (mc_worker c)) cp') (\<lambda>a.
                if a = Inl TaskCancelled then k (Inl TaskCancelled) else k (Inr ())))
            else complete_unowned c run_id status target cp' k)))"

text \<open>\<^verbatim>\<open>update_run_progress\<close> and \<^verbatim>\<open>update_finalizing_progress\<close> differ in the statuses they accept.\<close>

definition stage_progress :: "(string \<Rightarrow> bool) \<Rightarrow> bool \<Rightarrow> string \<Rightarrow> completion \<Rightarrow> clock \<Rightarrow> manager \<Rightarrow> bool \<times> manager" where
  "stage_progress accepts unknown run_id cp clk m = (case od_get (mg_runs m) run_id of
       None \<Rightarrow> (unknown, m)
     | Some r \<Rightarrow> (if accepts (rc_status (mg_heap m r)) \<and> \<not> rc_lost (mg_heap m r)
         then (True, modify r (\<lambda>rc. (set_completion cp rc)\<lparr>rc_updated_at := clk_iso clk\<rparr>) m) else (False, m)))"

definition write_run_progress ::
  "manager_config \<Rightarrow> (string \<Rightarrow> bool) \<Rightarrow> bool \<Rightarrow> string \<Rightarrow> completion \<Rightarrow> unit cont \<Rightarrow> mprog" where
  "write_run_progress c accepts unknown run_id cp k =
     run_registry run_id (stage_progress accepts unknown run_id cp) (ok_or k (\<lambda>persist.
       if persist \<and> mc_store c
       then ask (do_progress run_id cp) (\<lambda>a. if a = Inl TaskCancelled then k (Inl TaskCancelled) else k (Inr ()))
       else k (Inr ())))"

definition track_run_progress :: "manager_config \<Rightarrow> string \<Rightarrow> completion \<Rightarrow> unit cont \<Rightarrow> mprog" where
  "track_run_progress c = write_run_progress c (\<lambda>status. status = ''running'') True"

definition track_finalizing_progress :: "manager_config \<Rightarrow> string \<Rightarrow> completion \<Rightarrow> unit cont \<Rightarrow> mprog" where
  "track_finalizing_progress c = write_run_progress c (\<lambda>status. \<not> inflight status) False"

definition set_model_name :: "manager_config \<Rightarrow> string \<Rightarrow> string option \<Rightarrow> unit cont \<Rightarrow> mprog" where
  "set_model_name c run_id name k = run_registry run_id (\<lambda>clk m. case od_get (mg_runs m) run_id of
       None \<Rightarrow> (False, m)
     | Some r \<Rightarrow> (True, modify r (\<lambda>rc. rc\<lparr>rc_model_name := name, rc_updated_at := clk_iso clk\<rparr>) m))
     (ok_or k (\<lambda>known. if \<not> known \<or> \<not> mc_store c then k (Inr ())
       else call_store_with_retry c (do_model_name run_id name) (\<lambda>a.
         if a = Inl TaskCancelled then k (Inl TaskCancelled) else k (Inr ()))))"

text \<open>
  \<^verbatim>\<open>record_assembly_evidence\<close>: the snapshot written here is a whole row, so it runs under the admission locks
  of the run and its snapshot lock. \<open>evidence\<close> is bound to its run and thread.
\<close>

definition stage_evidence ::
  "string \<Rightarrow> (string, pyval) odict \<Rightarrow> clock \<Rightarrow> manager \<Rightarrow> (manager_error + nat option) \<times> manager" where
  "stage_evidence run_id evidence clk m = (case od_get (mg_runs m) run_id of
       None \<Rightarrow> (Inl (EvidenceError ''Assembly/run binding mismatch''), m)
     | Some r \<Rightarrow> (let rc = mg_heap m r; key = ''deerflow_assembly_evidence''
         in if od_get evidence ''run_id'' \<noteq> Some (VStr run_id) \<or> od_get evidence ''thread_id'' \<noteq> Some (VStr (rc_thread_id rc))
            then (Inl (EvidenceError ''Assembly/run binding mismatch''), m)
            else case od_get (rc_metadata rc) key of
                Some old \<Rightarrow> (if old \<noteq> VDict evidence then (Inl (EvidenceError ''Run assembly evidence is immutable''), m)
                             else (Inr None, m))
              | None \<Rightarrow> (Inr (Some r), modify r (\<lambda>rc. rc\<lparr>rc_metadata := od_set key (VDict evidence) (rc_metadata rc)\<rparr>) m)))"

definition record_assembly_evidence ::
  "manager_config \<Rightarrow> string \<Rightarrow> (string, pyval) odict \<Rightarrow> unit cont \<Rightarrow> mprog" where
  "record_assembly_evidence c run_id evidence = run_scope run_id (holding (SnapshotLock run_id) (\<lambda>k.
     sect (stage_evidence run_id evidence) (\<lambda>staged. case staged of
         Inl e \<Rightarrow> k (Inl e)
       | Inr None \<Rightarrow> k (Inr ())
       | Inr (Some r) \<Rightarrow> look (\<lambda>_ m. store_put_payload (mg_heap m r) None None) (\<lambda>payload.
           persist_snapshot_to_store c run_id payload (ok_or k (\<lambda>stored. if stored then k (Inr ())
             else alter (\<lambda>_. modify r (\<lambda>rc. rc\<lparr>rc_metadata := od_del ''deerflow_assembly_evidence'' (rc_metadata rc)\<rparr>))
               (k (Inl (EvidenceError ''Unable to persist assembly evidence'')))))))))"

section \<open>Creation and admission\<close>

definition create :: "manager_config \<Rightarrow> string \<Rightarrow> put_args \<Rightarrow> nat cont \<Rightarrow> mprog" where
  "create c run_id a k = sect (\<lambda>clk m. let (r, m') = alloc (fresh_record c clk run_id (lease_from c clk) a) m in ((r, mg_heap m' r), m'))
     (\<lambda>(r, rc). admission_scope (rc_thread_id rc) run_id (\<lambda>k.
        persist_new_run_to_store c rc (ok_or k (\<lambda>_. alter (\<lambda>_. register r) (k (Inr r))))) k)"

definition STRATEGIES :: "string list" where
  "STRATEGIES = [''reject'', ''interrupt'', ''rollback'']"

text \<open>The inflight records of the thread, and whether the admission may go on beside them.\<close>

definition local_inflight :: "string \<Rightarrow> manager \<Rightarrow> nat list" where
  "local_inflight thread_id m = filter (\<lambda>r. let rc = mg_heap m r
     in inflight (rc_status rc) \<or> rc_finalizing rc \<or> rc_goal_cleanup rc) (thread_records_locked thread_id m)"

definition local_conflict :: "string \<Rightarrow> nat list \<Rightarrow> manager \<Rightarrow> bool" where
  "local_conflict strategy rs m \<longleftrightarrow> list_ex (\<lambda>r. rc_goal_cleanup (mg_heap m r)) rs
     \<or> strategy \<noteq> ''reject'' \<and> list_ex (\<lambda>r. rc_operation_kind (mg_heap m r) \<noteq> ''run'') rs
     \<or> strategy = ''reject'' \<and> rs \<noteq> []"

text \<open>
  The first section of an admission: the record that already holds the idempotency key, or the inflight
  records to replace.
\<close>

definition admission_check ::
  "put_args \<Rightarrow> manager \<Rightarrow> (manager_error + nat + nat list) \<times> manager" where
  "admission_check a m =
     (case (if pa_idempotency_key a = None then None
            else find (\<lambda>r. rc_idempotency_key (mg_heap m r) = pa_idempotency_key a) (all_records m)) of
        Some r \<Rightarrow> (let rc = mg_heap m r
            in if rc_thread_id rc \<noteq> pa_thread_id a \<or> rc_user_id rc \<noteq> pa_user_id a then (Inl IdempotencyKeyMismatch, m)
               else (Inr (Inl r), modify r (\<lambda>rc. rc\<lparr>rc_reused := True\<rparr>) m))
      | None \<Rightarrow> (let rs = local_inflight (pa_thread_id a) m
            in if local_conflict (pa_multitask_strategy a) rs m then (Inl (Conflict (pa_thread_id a)), m)
               else (Inr (Inr rs), m)))"

text \<open>
  \<^verbatim>\<open>_atomic_replacement\<close>: the candidates are marked as being terminalized before the call; the rows that the
  transaction claimed are acknowledged, and attempts that claimed nothing are undone.
\<close>

fun begin_attempts :: "nat list \<Rightarrow> manager \<Rightarrow> (nat \<times> bool \<times> nat \<times> nat) list \<times> manager" where
  "begin_attempts [] m = ([], m)"
| "begin_attempts (r # rs) m =
     (let was_pending = rc_commit_pending (mg_heap m r); revision = rc_revision (mg_heap m r);
          (f, m1) = begin_terminal_attempt r m; (ts, m2) = begin_attempts rs m1
      in ((r, was_pending, f, revision) # ts, m2))"

definition claimed_row :: "manager_config \<Rightarrow> run_row list \<Rightarrow> run_record \<Rightarrow> run_row option" where
  "claimed_row c claims rc = (case find (\<lambda>row. rr_run_id row = rc_run_id rc) (rev claims) of
       None \<Rightarrow> None
     | Some row \<Rightarrow> (if rr_status row = ''interrupted'' \<and> rr_owner_worker_id row = Some (mc_worker c)
                       \<and> rr_thread_id row = rc_thread_id rc then Some row else None))"

definition settle_claim ::
  "manager_config \<Rightarrow> string \<Rightarrow> run_row list \<Rightarrow> clock \<Rightarrow> nat \<times> bool \<times> nat \<times> nat \<Rightarrow> manager \<Rightarrow> manager" where
  "settle_claim c action claims clk t m = (case t of (r, was_pending, f, revision) \<Rightarrow>
     (let rc = mg_heap m r
      in case claimed_row c claims rc of
           None \<Rightarrow> m
         | Some row \<Rightarrow> (if rc_lost rc \<or> rc_proof rc \<noteq> None \<and> \<not> interrupted_proof rc then m
             else let active = task_active rc;
                      outcome = \<lparr>to_status = ''interrupted'', to_error = rr_error row, to_stop_reason = rr_stop_reason row,
                                 to_goal_verdict = rr_goal_verdict row\<rparr>;
                      m1 = modify r (\<lambda>rc. rc\<lparr>rc_rollback_pending := (action = ''rollback'' \<and> active)\<rparr>) m;
                      m2 = acknowledge_terminal c r outcome revision clk m1
                  in modify r (\<lambda>rc. rc\<lparr>rc_abort_action := action, rc_aborted := True,
                       rc_task_cancelled := rc_task_cancelled rc \<or> (active \<and> \<not> rc_finalizing rc),
                       rc_finalizing := active\<rparr>) m2)))"

definition end_claim ::
  "manager_config \<Rightarrow> run_row list \<Rightarrow> nat \<times> bool \<times> nat \<times> nat \<Rightarrow> manager \<Rightarrow> manager" where
  "end_claim c claims t m = (case t of (r, was_pending, f, revision) \<Rightarrow>
     (let m1 = end_terminal_attempt r f m; rc = mg_heap m1 r
      in if claimed_row c claims rc = None \<and> mg_attempts m1 (rc_run_id rc) = [] \<and> rc_revision rc = revision \<and> \<not> rc_lost rc
         then modify r (\<lambda>rc. rc\<lparr>rc_commit_pending := was_pending\<rparr>) m1 else m1))"

definition atomic_replacement ::
  "manager_config \<Rightarrow> nat list \<Rightarrow> string \<Rightarrow> (store_answer cont \<Rightarrow> mprog) \<Rightarrow> store_answer cont \<Rightarrow> mprog" where
  "atomic_replacement c candidates action operation k = sect (\<lambda>_ m. begin_attempts candidates m) (\<lambda>ts. operation (\<lambda>a.
     let claims = (case a of Inr (Rows rs) \<Rightarrow> rs | _ \<Rightarrow> [])
     in alter (\<lambda>clk m. fold (end_claim c claims) ts (fold (settle_claim c action claims clk) ts m)) (k a)))"

text \<open>The durable half of an admission; the conflict with a durable key hands over a detached record.\<close>

definition reuse_idempotent_run :: "put_args \<Rightarrow> run_row \<Rightarrow> manager_error + run_record" where
  "reuse_idempotent_run a row = (case record_from_store row of
       None \<Rightarrow> Inl StoreFailed
     | Some rc \<Rightarrow> (if rc_thread_id rc \<noteq> pa_thread_id a \<or> rc_user_id rc \<noteq> pa_user_id a then Inl IdempotencyKeyMismatch
         else Inr (rc\<lparr>rc_reused := True\<rparr>)))"

definition admission_error :: "put_args \<Rightarrow> manager_error \<Rightarrow> manager_error" where
  "admission_error a e = (if e = UniqueViolation then Conflict (pa_thread_id a) else e)"

fun admit_in_store ::
  "nat \<Rightarrow> manager_config \<Rightarrow> nat list \<Rightarrow> put_args \<Rightarrow> (store_answer cont \<Rightarrow> mprog) \<Rightarrow> store_answer cont \<Rightarrow> mprog" where
  "admit_in_store n c candidates a operation k =
     (if pa_multitask_strategy a = ''reject'' then operation k
      else atomic_replacement c candidates (pa_multitask_strategy a) operation
        (\<lambda>r. case n of 0 \<Rightarrow> k r
           | Suc n' \<Rightarrow> (if r = Inl UniqueViolation then admit_in_store n' c candidates a operation k else k r)))"

text \<open>Without a store, the inflight records are interrupted in memory.\<close>

definition interrupt_local :: "manager_config \<Rightarrow> string \<Rightarrow> string \<Rightarrow> nat \<Rightarrow> manager \<Rightarrow> manager" where
  "interrupt_local c action now r m =
     (if rc_finalizing (mg_heap m r) then m
      else modify r (\<lambda>rc. rc\<lparr>rc_abort_action := action, rc_aborted := True, rc_finalizing := task_active rc,
             rc_task_cancelled := rc_task_cancelled rc \<or> task_active rc, rc_status := ''interrupted'',
             rc_persisted := \<not> mc_store c, rc_updated_at := now\<rparr>) m)"

definition complete_admission ::
  "manager_config \<Rightarrow> string \<Rightarrow> nat \<Rightarrow> nat list \<Rightarrow> string \<Rightarrow> clock \<Rightarrow> manager \<Rightarrow> nat list \<times> manager" where
  "complete_admission c strategy r rs now clk m =
     (let m1 = arm_lease_deadline c r clk (register r m)
      in if mc_store c \<or> strategy = ''reject'' then ([], m1)
         else (filter (\<lambda>x. \<not> rc_finalizing (mg_heap m1 x)) rs, fold (interrupt_local c strategy now) rs m1))"

section \<open>Cancellation\<close>

text \<open>The first action that was recorded durably, if the request was accepted.\<close>

definition request_durable_cancel ::
  "manager_config \<Rightarrow> string \<Rightarrow> string \<Rightarrow> (cancel_outcome \<times> string option) cont \<Rightarrow> mprog" where
  "request_durable_cancel c run_id action k =
     (if \<not> mc_store c then k (Inr (CancelUnknown, None))
      else call_store_with_retry c (do_request_cancel run_id action) (\<lambda>a. case a of
          Inl TaskCancelled \<Rightarrow> k (Inl TaskCancelled)
        | Inr (Won (Some winner)) \<Rightarrow> k (Inr (CancelRequested, Some winner))
        | Inr _ \<Rightarrow> ask (do_get run_id None) (\<lambda>a. case a of
              Inl TaskCancelled \<Rightarrow> k (Inl TaskCancelled)
            | Inr (Row (Some row)) \<Rightarrow> k (Inr (if inflight (rr_status row) then LeaseValidElsewhere else NotCancellable, None))
            | _ \<Rightarrow> k (Inr (CancelUnknown, None)))
        | Inl _ \<Rightarrow> k (Inr (CancelUnknown, None))))"

definition signal_cancel :: "string \<Rightarrow> run_record \<Rightarrow> run_record" where
  "signal_cancel action rc =
     rc\<lparr>rc_abort_action := action, rc_aborted := True, rc_finalizing := task_active rc,
        rc_rollback_pending := (action = ''rollback'' \<and> task_active rc),
        rc_task_cancelled := rc_task_cancelled rc \<or> (task_active rc \<and> rc_status rc = ''running'')\<rparr>"

definition signal_local_cancel :: "string \<Rightarrow> string \<Rightarrow> unit cont \<Rightarrow> mprog" where
  "signal_local_cancel run_id action = run_registry run_id (\<lambda>_ m. ((), case od_get (mg_runs m) run_id of
       None \<Rightarrow> m
     | Some r \<Rightarrow> (let rc = mg_heap m r
         in if \<not> inflight (rc_status rc) \<and> \<not> awaits_terminal_commit rc \<or> rc_aborted rc then m
            else modify r (signal_cancel action) m)))"

text \<open>The two sections of the local path of \<^verbatim>\<open>cancel\<close>.\<close>

definition cancel_precheck :: "manager_config \<Rightarrow> string \<Rightarrow> manager \<Rightarrow> cancel_outcome + bool" where
  "cancel_precheck c run_id m = (case od_get (mg_runs m) run_id of
       None \<Rightarrow> Inr False
     | Some r \<Rightarrow> (let rc = mg_heap m r
         in if rc_status rc = ''interrupted'' then Inl CancelDone
            else if \<not> inflight (rc_status rc) \<and> \<not> rc_goal_cleanup rc \<and> (\<not> heartbeat_enabled c \<or> \<not> mc_store c)
            then Inl NotCancellable else Inr True))"

definition stage_cancel ::
  "manager_config \<Rightarrow> string \<Rightarrow> string \<Rightarrow> bool \<Rightarrow> clock \<Rightarrow> manager \<Rightarrow> (cancel_outcome + nat option) \<times> manager" where
  "stage_cancel c run_id action durable clk m = (case od_get (mg_runs m) run_id of
       None \<Rightarrow> (Inr None, m)
     | Some r \<Rightarrow> (let rc = mg_heap m r
         in if rc_status rc = ''interrupted'' \<or> rc_aborted rc then (Inl CancelDone, m)
            else if \<not> inflight (rc_status rc) \<and> \<not> rc_goal_cleanup rc
            then (Inl (if durable then CancelDone else NotCancellable), m)
            else (Inr (Some r), modify r (\<lambda>rc. (signal_cancel action rc)
                   \<lparr>rc_status := ''interrupted'', rc_persisted := \<not> mc_store c, rc_updated_at := clk_iso clk\<rparr>) m)))"

definition ORPHAN_RECOVERY_STOP_REASON :: string where
  "ORPHAN_RECOVERY_STOP_REASON = ''orphan_recovered''"

definition request_remote_cancel :: "manager_config \<Rightarrow> string \<Rightarrow> string \<Rightarrow> cancel_outcome cont \<Rightarrow> mprog" where
  "request_remote_cancel c run_id action k = request_durable_cancel c run_id action (ok_or k (\<lambda>x. k (Inr (fst x))))"

text \<open>A run of another worker: taken over when its lease has run out, otherwise asked to stop.\<close>

definition cancel_elsewhere :: "manager_config \<Rightarrow> string \<Rightarrow> string \<Rightarrow> string \<Rightarrow> cancel_outcome cont \<Rightarrow> mprog" where
  "cancel_elsewhere c run_id action takeover_error k = ask (do_get run_id None) (\<lambda>a. case a of
       Inl TaskCancelled \<Rightarrow> k (Inl TaskCancelled)
     | Inr (Row (Some row)) \<Rightarrow>
         (if rr_status row = ''interrupted'' then k (Inr CancelRequested)
          else if \<not> inflight (rr_status row) then k (Inr NotCancellable)
          else look (\<lambda>clk _. is_lease_expired clk (rr_lease_expires_at row) (grace_of c)) (\<lambda>expired.
            if \<not> expired then request_remote_cancel c run_id action k
            else call_store_with_retry c (do_claim run_id (grace_of c) takeover_error (Some ORPHAN_RECOVERY_STOP_REASON)) (\<lambda>a. case a of
                Inl TaskCancelled \<Rightarrow> k (Inl TaskCancelled)
              | Inl _ \<Rightarrow> k (Inr CancelUnknown)
              | Inr (Flag True) \<Rightarrow> k (Inr TakenOver)
              | Inr _ \<Rightarrow> ask (do_get run_id None) (\<lambda>a. case a of
                    Inl TaskCancelled \<Rightarrow> k (Inl TaskCancelled)
                  | Inr (Row (Some row)) \<Rightarrow>
                      (if inflight (rr_status row) then request_remote_cancel c run_id action k
                       else k (Inr (if rr_status row = ''error'' then TakenOver else NotCancellable)))
                  | _ \<Rightarrow> k (Inr CancelUnknown)))))
     | _ \<Rightarrow> k (Inr CancelUnknown))"

text \<open>After the local run was marked: persist, unless its scheduled goal has to be removed first.\<close>

definition persist_cancel :: "manager_config \<Rightarrow> string \<Rightarrow> nat \<Rightarrow> cancel_outcome cont \<Rightarrow> mprog" where
  "persist_cancel c run_id r k = look (\<lambda>_ m. rc_goal_cleanup (mg_heap m r)) (\<lambda>pending.
     if pending then k (Inr CancelDone)
     else persist_status c r ''interrupted'' None None (ok_or k (\<lambda>persisted.
       run_registry run_id (\<lambda>_ m. ((), if od_get (mg_runs m) run_id = Some r then note_persisted c r persisted m else m))
         (ok_or k (\<lambda>_. if persisted \<or> \<not> mc_store c then k (Inr CancelDone)
           else ask (do_get run_id None) (\<lambda>a. case a of
               Inl TaskCancelled \<Rightarrow> k (Inl TaskCancelled)
             | Inr (Row (Some row)) \<Rightarrow> k (Inr (if rr_status row = ''error'' then TakenOver else CancelDone))
             | _ \<Rightarrow> k (Inr CancelDone)))))))"

text \<open>
  The local path marks the run, and falls through to a run of another worker when there is none; \<open>durable\<close>
  tells that the request has already been accepted by the store.
\<close>

definition mark_cancel ::
  "manager_config \<Rightarrow> string \<Rightarrow> string \<Rightarrow> string \<Rightarrow> bool \<Rightarrow> cancel_outcome cont \<Rightarrow> mprog" where
  "mark_cancel c run_id action takeover_error durable k =
     run_registry run_id (stage_cancel c run_id action durable) (ok_or k (\<lambda>staged. case staged of
         Inl outcome \<Rightarrow> k (Inr outcome)
       | Inr (Some r) \<Rightarrow> persist_cancel c run_id r k
       | Inr None \<Rightarrow> (if durable then k (Inr CancelDone)
           else if \<not> heartbeat_enabled c then k (Inr NotActiveLocally)
           else if \<not> mc_store c then k (Inr CancelUnknown)
           else cancel_elsewhere c run_id action takeover_error k)))"

definition cancel :: "manager_config \<Rightarrow> string \<Rightarrow> string \<Rightarrow> string \<Rightarrow> cancel_outcome cont \<Rightarrow> mprog" where
  "cancel c run_id action takeover_error k = run_registry run_id (\<lambda>_ m. (cancel_precheck c run_id m, m)) (ok_or k (\<lambda>pre. case pre of
       Inl outcome \<Rightarrow> k (Inr outcome)
     | Inr local \<Rightarrow>
         (if local \<and> heartbeat_enabled c \<and> mc_store c
          then request_durable_cancel c run_id action (ok_or k (\<lambda>x. case x of
              (CancelRequested, winner) \<Rightarrow>
                mark_cancel c run_id (case winner of Some w \<Rightarrow> w | None \<Rightarrow> action) takeover_error True k
            | (CancelUnknown, _) \<Rightarrow> mark_cancel c run_id action takeover_error False k
            | (LeaseValidElsewhere, _) \<Rightarrow> mark_cancel c run_id action takeover_error False k
            | (outcome, _) \<Rightarrow> k (Inr outcome)))
          else mark_cancel c run_id action takeover_error False k)))"

section \<open>Admission of a thread operation\<close>

text \<open>The new run of a cancelled caller is terminalized, and its record follows the durable state.\<close>

definition adopt_stored :: "string \<Rightarrow> nat \<Rightarrow> run_row option \<Rightarrow> clock \<Rightarrow> manager \<Rightarrow> manager" where
  "adopt_stored run_id r stored clk m =
     (if od_get (mg_runs m) run_id \<noteq> Some r then m
      else case stored of
             None \<Rightarrow> pop_run run_id m
           | Some row \<Rightarrow> modify r (\<lambda>rc. rc\<lparr>rc_status := rr_status row, rc_persisted := \<not> inflight (rr_status row),
               rc_error := rr_error row, rc_stop_reason := rr_stop_reason row, rc_updated_at := clk_iso clk\<rparr>) m)"

definition adopt :: "string \<Rightarrow> nat \<Rightarrow> run_row option \<Rightarrow> unit cont \<Rightarrow> mprog" where
  "adopt run_id r stored = run_registry run_id (\<lambda>clk m. ((), adopt_stored run_id r stored clk m))"

definition verify_closed :: "manager_config \<Rightarrow> string \<Rightarrow> string option \<Rightarrow> nat \<Rightarrow> unit cont \<Rightarrow> mprog" where
  "verify_closed c run_id user_id r k = call_store_with_retry c (do_get run_id user_id) (ok_or k (\<lambda>a. case a of
       Row (Some row) \<Rightarrow> (if inflight (rr_status row) then k (Inl (StillActive run_id)) else adopt run_id r (Some row) k)
     | _ \<Rightarrow> adopt run_id r None k))"

definition close_in_store :: "manager_config \<Rightarrow> string \<Rightarrow> string option \<Rightarrow> nat \<Rightarrow> unit cont \<Rightarrow> mprog" where
  "close_in_store c run_id user_id r k =
     (if heartbeat_enabled c
      then persist_status c r ''interrupted'' None None (ok_or k (\<lambda>_.
        look (\<lambda>_ m. rc_lost (mg_heap m r)) (\<lambda>lost. if lost then k (Inr ()) else verify_closed c run_id user_id r k)))
      else call_store_with_retry c (do_update_status run_id
             \<lparr>to_status = ''interrupted'', to_error = None, to_stop_reason = None, to_goal_verdict = None\<rparr> None)
        (ok_or k (\<lambda>_. verify_closed c run_id user_id r k)))"

definition close_cancelled_admission ::
  "manager_config \<Rightarrow> string \<Rightarrow> string option \<Rightarrow> string \<Rightarrow> nat \<Rightarrow> unit cont \<Rightarrow> mprog" where
  "close_cancelled_admission c run_id user_id takeover_error r k =
     cancel c run_id ''interrupt'' takeover_error (ok_or k (\<lambda>_. look (\<lambda>_ m. rc_lost (mg_heap m r)) (\<lambda>lost.
       if \<not> mc_store c \<or> heartbeat_enabled c \<and> lost then k (Inr ())
       else call_store_with_retry c (do_get run_id user_id) (ok_or k (\<lambda>a. case a of
           Row (Some row) \<Rightarrow> (if \<not> inflight (rr_status row) then adopt run_id r (Some row) k
             else close_in_store c run_id user_id r k)
         | _ \<Rightarrow> adopt run_id r None k)))))"

fun persist_interrupted :: "manager_config \<Rightarrow> nat list \<Rightarrow> unit cont \<Rightarrow> mprog" where
  "persist_interrupted c [] k = k (Inr ())"
| "persist_interrupted c (r # rs) k = persist_status c r ''interrupted'' None None (ok_or k (\<lambda>persisted.
     alter (\<lambda>_ m. if registered m r then modify r (\<lambda>rc. rc\<lparr>rc_persisted := persisted\<rparr>) m else m)
       (persist_interrupted c rs k)))"

text \<open>
  \<^verbatim>\<open>_admit_thread_operation\<close>. The answer is a registered record, or a detached one when another worker holds
  the idempotency key. A caller that is cancelled after the admission waits for its compensation.
\<close>

definition admit_locked ::
  "manager_config \<Rightarrow> string \<Rightarrow> put_args \<Rightarrow> nat \<Rightarrow> run_record \<Rightarrow> ((nat + run_record) + nat list) cont \<Rightarrow> mprog" where
  "admit_locked c run_id a r rc k =
     (let a' = a\<lparr>pa_lease_expires_at := rc_lease rc, pa_created_at := Some (rc_created_at rc)\<rparr>;
          operation = call_store_with_retry c (do_create run_id (mc_worker c) (grace_of c) a')
      in sect (\<lambda>_. admission_check a) (ok_or k (\<lambda>found. case found of
          Inl old \<Rightarrow> k (Inr (Inl (Inl old)))
        | Inr rs \<Rightarrow>
            (let finish = sect (complete_admission c (pa_multitask_strategy a) r rs (rc_created_at rc)) (\<lambda>is. k (Inr (Inr is)))
             in if \<not> mc_store c then finish
                else admit_in_store 2 c rs a operation (\<lambda>x. case x of
                    Inl (StoreSaid (RunIdempotencyConflict row)) \<Rightarrow> (case reuse_idempotent_run a row of
                        Inl e \<Rightarrow> k (Inl e) | Inr old \<Rightarrow> k (Inr (Inl (Inr old))))
                  | Inl e \<Rightarrow> k (Inl (admission_error a e))
                  | Inr _ \<Rightarrow> finish)))))"

definition after_admission ::
  "manager_config \<Rightarrow> string \<Rightarrow> string option \<Rightarrow> string \<Rightarrow> nat \<Rightarrow> nat list \<Rightarrow> (nat + run_record) cont \<Rightarrow> mprog" where
  "after_admission c run_id user_id takeover_error r is k =
     (let close = close_cancelled_admission c run_id user_id takeover_error r (\<lambda>_. k (Inl TaskCancelled))
      in Await (\<lambda>_ m. Some m)
        (\<lambda>_ _. persist_interrupted c is (\<lambda>x. case x of
            Inl TaskCancelled \<Rightarrow> close | Inl e \<Rightarrow> k (Inl e) | Inr _ \<Rightarrow> k (Inr (Inl r))))
        close)"

definition admit_thread_operation ::
  "manager_config \<Rightarrow> string \<Rightarrow> put_args \<Rightarrow> string \<Rightarrow> (nat + run_record) cont \<Rightarrow> mprog" where
  "admit_thread_operation c run_id a takeover_error k =
     (if pa_multitask_strategy a \<notin> set STRATEGIES then k (Inl (UnsupportedStrategy (pa_multitask_strategy a)))
      else sect (\<lambda>clk m. let (r, m') = alloc (fresh_record c clk run_id (lease_from c clk) a) m in ((r, mg_heap m' r), m'))
        (\<lambda>(r, rc). admission_scope (pa_thread_id a) run_id (admit_locked c run_id a r rc) (ok_or k (\<lambda>x. case x of
            Inl old \<Rightarrow> k (Inr old)
          | Inr is \<Rightarrow> after_admission c run_id (rc_user_id rc) takeover_error r is k))))"

text \<open>
  \<^verbatim>\<open>reserve_thread_operation\<close> up to its \<^verbatim>\<open>yield\<close>, and after it; the reservation belongs to the task that holds
  it.
\<close>

definition reserve_enter :: "manager_config \<Rightarrow> string \<Rightarrow> put_args \<Rightarrow> string \<Rightarrow> (nat + run_record) cont \<Rightarrow> mprog" where
  "reserve_enter c run_id a takeover_error k =
     (if pa_operation_kind a = ''run'' then k (Inl (StoreSaid (ValueError ''Normal runs must be admitted with create_or_reject()'')))
      else admit_thread_operation c run_id (a\<lparr>pa_multitask_strategy := ''reject''\<rparr>) takeover_error k)"

definition reserve_attach :: "string \<Rightarrow> nat \<Rightarrow> bool cont \<Rightarrow> mprog" where
  "reserve_attach run_id r = run_registry run_id (\<lambda>_ m. if od_get (mg_runs m) run_id = Some r
     then (rc_aborted (mg_heap m r), modify r (\<lambda>rc. rc\<lparr>rc_task := Some False\<rparr>) m) else (True, m))"

definition reserve_exit :: "manager_config \<Rightarrow> string \<Rightarrow> unit cont \<Rightarrow> mprog" where
  "reserve_exit c run_id k =
     (let drop = (\<lambda>r. run_registry run_id (\<lambda>_ m. ((), pop_run run_id m)) (ok_or k (\<lambda>_. k r)))
      in if \<not> mc_store c then drop (Inr ())
         else call_store_with_retry c (do_release_operation run_id) (\<lambda>a.
           drop (if a = Inl TaskCancelled then Inl TaskCancelled else Inr ())))"

section \<open>Orphans\<close>

text \<open>\<^verbatim>\<open>reconcile_orphaned_inflight_runs\<close>: a row is claimed unless a local record is still inflight.\<close>

fun reconcile_rows ::
  "manager_config \<Rightarrow> string \<Rightarrow> string option \<Rightarrow> run_row list \<Rightarrow> run_record list \<Rightarrow> run_record list cont \<Rightarrow> mprog" where
  "reconcile_rows c error stop_reason [] recovered k = k (Inr recovered)"
| "reconcile_rows c error stop_reason (row # rs) recovered k =
     (case record_from_store row of
        None \<Rightarrow> reconcile_rows c error stop_reason rs recovered k
      | Some rc \<Rightarrow> look (\<lambda>clk m. (clk_iso clk, case od_get (mg_runs m) (rc_run_id rc) of
            None \<Rightarrow> False | Some r \<Rightarrow> inflight (rc_status (mg_heap m r)))) (\<lambda>(now, live).
          if live then reconcile_rows c error stop_reason rs recovered k
          else call_store_with_retry c (do_claim (rc_run_id rc) (grace_of c) error stop_reason) (\<lambda>a. case a of
              Inl TaskCancelled \<Rightarrow> k (Inl TaskCancelled)
            | Inr (Flag True) \<Rightarrow> reconcile_rows c error stop_reason rs (if rc_operation_kind rc = ''run''
                then recovered @ [rc\<lparr>rc_status := ''error'', rc_persisted := True, rc_error := Some error,
                       rc_stop_reason := stop_reason, rc_updated_at := now\<rparr>] else recovered) k
            | _ \<Rightarrow> reconcile_rows c error stop_reason rs recovered k)))"

definition reconcile_orphaned_inflight_runs ::
  "manager_config \<Rightarrow> string \<Rightarrow> string option \<Rightarrow> string option \<Rightarrow> run_record list cont \<Rightarrow> mprog" where
  "reconcile_orphaned_inflight_runs c error before stop_reason k =
     (if \<not> mc_store c then k (Inr [])
      else call_store_with_retry c (do_list_expired before (grace_of c)) (\<lambda>a. case a of
          Inl TaskCancelled \<Rightarrow> k (Inl TaskCancelled)
        | Inr (Rows rs) \<Rightarrow> reconcile_rows c error stop_reason rs [] k
        | _ \<Rightarrow> k (Inr [])))"

text \<open>\<^verbatim>\<open>cleanup\<close>, after its delay: the record leaves the registry when its task has ended.\<close>

definition cleanup :: "manager_config \<Rightarrow> string \<Rightarrow> unit cont \<Rightarrow> mprog" where
  "cleanup c run_id k =
     (if \<not> mc_store c then k (Inr ())
      else run_registry run_id (\<lambda>_ m. (od_get (mg_runs m) run_id, m)) (ok_or k (\<lambda>found.
        Await (\<lambda>_ m. case found of None \<Rightarrow> Some m
            | Some r \<Rightarrow> (if task_active (mg_heap m r) \<and> mc_current c \<noteq> Some r then None else Some m))
          (\<lambda>_ _. run_registry run_id (\<lambda>_ m. ((), pop_run run_id m)) k) (k (Inl TaskCancelled)))))"

definition owns_active_admission :: "manager_config \<Rightarrow> nat \<Rightarrow> bool cont \<Rightarrow> mprog" where
  "owns_active_admission c r k = look (\<lambda>_ m. mg_heap m r) (\<lambda>rc.
     run_registry (rc_run_id rc) (\<lambda>_ m. (\<not> registered m r \<or> rc_lost (mg_heap m r), m)) (ok_or k (\<lambda>gone.
       if gone then k (Inr False)
       else if \<not> mc_store c then k (Inr True)
       else ask (do_get (rc_run_id rc) (rc_user_id rc)) (ok_or k (\<lambda>a. case a of
           Row (Some row) \<Rightarrow>
             (if rr_thread_id row \<noteq> rc_thread_id rc \<or> rr_user_id row \<noteq> rc_user_id rc \<or> \<not> inflight (rr_status row)
                 \<or> rr_owner_worker_id row \<noteq> rc_owner rc then k (Inr False)
              else look (\<lambda>clk m. (heartbeat_enabled c \<and> (case parse_lease_deadline clk (rr_lease_expires_at row) of
                       None \<Rightarrow> True | Some t \<Rightarrow> t \<le> clk_now clk), rc_lost (mg_heap m r))) (\<lambda>(expired, lost).
                if expired then mark_ownership_lost c r ''Scheduled goal cleanup lost its active run lease.'' (\<lambda>_. k (Inr False))
                else k (Inr (\<not> lost))))
         | _ \<Rightarrow> k (Inr False))))))"

section \<open>Leases\<close>

text \<open>
  One renewal: the call runs in a task of its own, so that its caller can stop waiting at the deadline of the
  last confirmed lease. Its late result is observed, but changes nothing then.
\<close>

datatype renewal_decision = Unanswered | Failing | AlreadyFinal | Dropped | FailedLate | TooLate | Kept "string option" | Rejected

definition renewal_decision_of :: "nat \<Rightarrow> nat \<Rightarrow> int \<Rightarrow> clock \<Rightarrow> manager \<Rightarrow> renewal_decision" where
  "renewal_decision_of r f deadline clk m =
     (let rc = mg_heap m r
      in case rn_result (mg_futures m f) of
           None \<Rightarrow> Unanswered
         | Some (Inl _) \<Rightarrow> (if deadline \<le> clk_now clk then FailedLate else Failing)
         | Some (Inr l) \<Rightarrow>
             (if has_final_ack rc then AlreadyFinal
              else if rc_lost rc \<or> \<not> registered m r then Dropped
              else if deadline \<le> clk_now clk then TooLate
              else if lr_renewed l
              then Kept (map_option (\<lambda>a. if a \<in> {''interrupt'', ''rollback''} then a else ''interrupt'') (lr_cancel_action l))
              else Rejected))"

definition apply_renewal :: "manager_config \<Rightarrow> nat \<Rightarrow> nat \<Rightarrow> int \<Rightarrow> clock \<Rightarrow> manager \<Rightarrow> manager" where
  "apply_renewal c r f deadline clk m = (case renewal_decision_of r f deadline clk m of
       Kept _ \<Rightarrow> arm_lease_deadline c r clk (modify r (\<lambda>rc. rc\<lparr>rc_lease := Some (rn_expiry (mg_futures m f))\<rparr>) m)
     | _ \<Rightarrow> m)"

definition begin_renewal :: "manager_config \<Rightarrow> nat \<Rightarrow> clock \<Rightarrow> manager \<Rightarrow> (nat \<times> bool \<times> string) \<times> manager" where
  "begin_renewal c r clk m =
     (let rc = mg_heap m r; f = mg_next_future m; expiry = lease_from c clk
      in ((f, rc_rollback_pending rc \<and> interrupted_proof rc, expiry),
          m\<lparr>mg_operations := (mg_operations m)(rc_run_id rc \<mapsto> f),
            mg_futures := (mg_futures m)(f := \<lparr>rn_run_id = rc_run_id rc, rn_expiry = expiry, rn_result = None\<rparr>), mg_next_future := Suc f\<rparr>))"

definition settle_renewal :: "string \<Rightarrow> nat \<Rightarrow> unit + lease_renewal \<Rightarrow> manager \<Rightarrow> manager" where
  "settle_renewal run_id f result m =
     m\<lparr>mg_futures := (mg_futures m)(f := (mg_futures m f)\<lparr>rn_result := Some result\<rparr>),
       mg_operations := (if mg_operations m run_id = Some f then (mg_operations m)(run_id := None) else mg_operations m)\<rparr>"

definition renewal_task :: "manager_config \<Rightarrow> string \<Rightarrow> nat \<Rightarrow> bool \<Rightarrow> string \<Rightarrow> mprog" where
  "renewal_task c run_id f allow_interrupted expiry =
     call_store_with_retry c (do_renew run_id (mc_worker c) expiry allow_interrupted) (\<lambda>a.
       alter (\<lambda>_. settle_renewal run_id f (case a of Inr (Renewed l) \<Rightarrow> Inr l | _ \<Rightarrow> Inl ())) (Finish (Inr Nothing)))"

definition lease_fence :: "manager_config \<Rightarrow> nat \<Rightarrow> int \<Rightarrow> string \<Rightarrow> string option cont \<Rightarrow> mprog" where
  "lease_fence c r deadline reason k = release_confirmed_terminal_barrier r (\<lambda>_. deadline) (ok_or k (\<lambda>confirmed.
     if confirmed then k (Inr None) else mark_ownership_lost c r reason (\<lambda>_. k (Inr None))))"

text \<open>One attempt, with what runs when the store rejects it.\<close>

definition renew_once ::
  "manager_config \<Rightarrow> nat \<Rightarrow> string \<Rightarrow> int \<Rightarrow> mprog \<Rightarrow> string option cont \<Rightarrow> mprog" where
  "renew_once c r run_id deadline rejected k =
     sect (begin_renewal c r) (\<lambda>(f, allow_interrupted, expiry).
       Spawn (renewal_task c run_id f allow_interrupted expiry)
         (Await (\<lambda>clk m. if renewal_decision_of r f deadline clk m = Unanswered \<and> clk_now clk < deadline then None
                         else Some (apply_renewal c r f deadline clk m))
           (\<lambda>clk m. case renewal_decision_of r f deadline clk m of
               Unanswered \<Rightarrow> lease_fence c r deadline ''Lease renewal exceeded the last confirmed lease deadline.'' k
             | Failing \<Rightarrow> k (Inr None)
             | AlreadyFinal \<Rightarrow> release_confirmed_terminal_barrier r clk_now (ok_or k (\<lambda>_. k (Inr None)))
             | Dropped \<Rightarrow> k (Inr None)
             | FailedLate \<Rightarrow> lease_fence c r deadline ''Lease renewal failed through the last confirmed lease deadline.'' k
             | TooLate \<Rightarrow> lease_fence c r deadline ''Lease renewal completed after the last confirmed lease had already expired.'' k
             | Kept action \<Rightarrow> k (Inr action)
             | Rejected \<Rightarrow> rejected)
           (k (Inl TaskCancelled))))"

text \<open>A rejected renewal is tried once more when a rollback was admitted meanwhile.\<close>

primrec renew_attempts :: "nat \<Rightarrow> manager_config \<Rightarrow> nat \<Rightarrow> string \<Rightarrow> int \<Rightarrow> bool \<Rightarrow> string option cont \<Rightarrow> mprog" where
  "renew_attempts 0 c r run_id deadline initial_allow_interrupted k = renew_once c r run_id deadline
     (lease_fence c r deadline ''The durable store rejected lease renewal for this worker.'' k) k"
| "renew_attempts (Suc n) c r run_id deadline initial_allow_interrupted k =
     (let reject = lease_fence c r deadline ''The durable store rejected lease renewal for this worker.'' k
      in renew_once c r run_id deadline
        (if initial_allow_interrupted then reject
         else Await (\<lambda>clk m. if rollback_retry_authorized c r initial_allow_interrupted m
                     \<or> mg_attempts m run_id = [] \<or> deadline \<le> clk_now clk then Some m else None)
           (\<lambda>clk m. if clk_now clk < deadline \<and> rollback_retry_authorized c r initial_allow_interrupted m
             then renew_attempts n c r run_id deadline initial_allow_interrupted k else reject)
           (k (Inl TaskCancelled))) k)"

definition renew_one_lease_locked :: "manager_config \<Rightarrow> nat \<Rightarrow> string \<Rightarrow> string option cont \<Rightarrow> mprog" where
  "renew_one_lease_locked c r run_id k = look (\<lambda>_ m. has_final_ack (mg_heap m r)) (\<lambda>final.
     if final then release_confirmed_terminal_barrier r clk_now (ok_or k (\<lambda>_. k (Inr None)))
     else sect (\<lambda>clk m. ((confirmed_until r clk m, clk_now clk, mg_heap m r, mg_attempts m run_id = [], mg_operations m run_id),
                 arm_lease_deadline c r clk m)) (\<lambda>(deadline, now, rc, no_attempts, operation).
       if deadline \<le> now
       then lease_fence c r deadline ''Lease ownership could not be confirmed before the last confirmed lease expired.'' k
       else if awaits_terminal_commit rc \<and> rc_task rc = Some True \<and> no_attempts
       then lease_fence c r deadline ''The worker exited without an attributable terminal acknowledgment.'' k
       else if operation \<noteq> None
       then lease_fence c r deadline ''A previous lease renewal is still unconfirmed.'' k
       else renew_attempts 1 c r run_id deadline (rc_rollback_pending rc \<and> interrupted_proof rc) k))"

definition renew_one_lease :: "manager_config \<Rightarrow> nat \<Rightarrow> string \<Rightarrow> unit cont \<Rightarrow> mprog" where
  "renew_one_lease c r run_id k = alter (arm_lease_deadline c r)
     (holding (SnapshotLock run_id) (renew_one_lease_locked c r run_id) (ok_or k (\<lambda>action. case action of
        None \<Rightarrow> k (Inr ()) | Some a \<Rightarrow> signal_local_cancel run_id a k)))"

text \<open>A check per run, unless one is still under way.\<close>

definition start_checks :: "manager_config \<Rightarrow> manager \<Rightarrow> ((nat \<times> string) list \<times> (nat \<times> string) list) \<times> manager" where
  "start_checks c m =
     (let all = map (\<lambda>r. (r, rc_run_id (mg_heap m r))) (filter (\<lambda>r. renewable c (mg_heap m r)) (all_records m));
          new = filter (\<lambda>(r, run_id). \<not> mg_checks m run_id) all
      in ((all, new), m\<lparr>mg_checks := (\<lambda>run_id. mg_checks m run_id \<or> run_id \<in> set (map snd new))\<rparr>))"

fun spawn_checks :: "manager_config \<Rightarrow> (nat \<times> string) list \<Rightarrow> mprog \<Rightarrow> mprog" where
  "spawn_checks c [] p = p"
| "spawn_checks c ((r, run_id) # rs) p = Spawn (renew_one_lease c r run_id (\<lambda>_.
     alter (\<lambda>_ m. m\<lparr>mg_checks := (mg_checks m)(run_id := False)\<rparr>) (Finish (Inr Nothing)))) (spawn_checks c rs p)"

definition renew_leases :: "manager_config \<Rightarrow> bool \<Rightarrow> unit cont \<Rightarrow> mprog" where
  "renew_leases c wait k =
     (if \<not> mc_store c \<or> mc_ownership c = None then k (Inr ())
      else sect (\<lambda>_. start_checks c) (\<lambda>(all, new). spawn_checks c new
        (if wait then Await (\<lambda>_ m. if list_ex (\<lambda>(r, run_id). mg_checks m run_id) all then None else Some m)
           (\<lambda>_ _. k (Inr ())) (k (Inl TaskCancelled))
         else k (Inr ()))))"

section \<open>Shutdown\<close>

text \<open>
  The two sections of \<^verbatim>\<open>shutdown\<close>: inflight runs are asked to stop, and those that did not settle by
  themselves in time are marked. \<open>cancelled\<close> tells the tasks that ended by cancellation.
\<close>

definition signal_shutdown :: "manager \<Rightarrow> (nat list \<times> nat list) \<times> manager" where
  "signal_shutdown m =
     (let running = filter (\<lambda>r. inflight (rc_status (mg_heap m r)) \<and> task_active (mg_heap m r)) (all_records m);
          finalizing = filter (\<lambda>r. \<not> inflight (rc_status (mg_heap m r)) \<and> task_active (mg_heap m r)) (all_records m)
      in ((running, finalizing), fold (\<lambda>r. modify r (\<lambda>rc. rc\<lparr>rc_abort_action := ''interrupt'', rc_aborted := True,
            rc_task_cancelled := True\<rparr>)) running m))"

definition unsettled :: "(nat \<Rightarrow> bool) \<Rightarrow> nat list \<Rightarrow> manager \<Rightarrow> nat list" where
  "unsettled cancelled rs m = filter (\<lambda>r. task_active (mg_heap m r) \<or> cancelled r) rs"

definition mark_unsettled :: "manager_config \<Rightarrow> (nat \<Rightarrow> bool) \<Rightarrow> nat list \<Rightarrow> clock \<Rightarrow> manager \<Rightarrow> nat list \<times> manager" where
  "mark_unsettled c cancelled rs clk m =
     (unsettled cancelled rs m, fold (\<lambda>r. modify r (\<lambda>rc. if inflight (rc_status rc)
        then rc\<lparr>rc_status := ''interrupted'', rc_persisted := \<not> mc_store c, rc_updated_at := clk_iso clk\<rparr> else rc))
        (unsettled cancelled rs m) m)"

fun spawn_persists :: "manager_config \<Rightarrow> nat list \<Rightarrow> mprog \<Rightarrow> mprog" where
  "spawn_persists c [] p = p"
| "spawn_persists c (r # rs) p = Spawn (persist_status c r ''interrupted'' None None (\<lambda>a. case a of
       Inl TaskCancelled \<Rightarrow> Finish (Inr Nothing)
     | _ \<Rightarrow> alter (\<lambda>_. modify r (\<lambda>rc. rc\<lparr>rc_persisted := (a = Inr True)\<rparr>)) (Finish (Inr Nothing)))) (spawn_persists c rs p)"

definition shutdown_runs :: "manager_config \<Rightarrow> (nat \<Rightarrow> bool) \<Rightarrow> int \<Rightarrow> unit cont \<Rightarrow> mprog" where
  "shutdown_runs c cancelled deadline k = sect (\<lambda>_. signal_shutdown) (\<lambda>(running, finalizing).
     if running @ finalizing = [] then k (Inr ())
     else Await (\<lambda>clk m. if list_ex (\<lambda>r. task_active (mg_heap m r)) (running @ finalizing) \<and> clk_now clk < deadline then None else Some m)
       (\<lambda>_ _. sect (mark_unsettled c cancelled running) (\<lambda>rs. look (\<lambda>clk _. clk_now clk < deadline) (\<lambda>in_time.
          if in_time then spawn_persists c rs (k (Inr ())) else k (Inr ()))))
       (k (Inl TaskCancelled)))"

section \<open>Reads that merge memory and store\<close>

text \<open>\<^verbatim>\<open>get\<close>: the local record, or a detached snapshot of the row.\<close>

definition local_run :: "string \<Rightarrow> nat option cont \<Rightarrow> mprog" where
  "local_run run_id = run_registry run_id (\<lambda>_ m. (od_get (mg_runs m) run_id, m))"

definition get_run ::
  "manager_config \<Rightarrow> string \<Rightarrow> string option \<Rightarrow> bool \<Rightarrow> (nat + run_record) option cont \<Rightarrow> mprog" where
  "get_run c run_id user_id raise_on_store_error k = local_run run_id (ok_or k (\<lambda>found. case found of
       Some r \<Rightarrow> k (Inr (Some (Inl r)))
     | None \<Rightarrow> (if \<not> mc_store c then k (Inr None)
         else ask (do_get run_id user_id) (\<lambda>a. case a of
             Inl e \<Rightarrow> (if raise_on_store_error \<or> e = TaskCancelled then k (Inl e) else k (Inr None))
           | Inr answer \<Rightarrow> local_run run_id (ok_or k (\<lambda>found. case found of
                 Some r \<Rightarrow> k (Inr (Some (Inl r)))
               | None \<Rightarrow> (case answer of
                     Row (Some row) \<Rightarrow> (case record_from_store row of
                         Some rc \<Rightarrow> k (Inr (Some (Inr rc)))
                       | None \<Rightarrow> (if raise_on_store_error then k (Inl StoreFailed) else k (Inr None)))
                   | _ \<Rightarrow> k (Inr None))))))))"

definition cursor_part :: "string option \<Rightarrow> string option" where
  "cursor_part v = (case v of None \<Rightarrow> None | Some s \<Rightarrow> non_empty (Some (py_strip s)))"

text \<open>\<^verbatim>\<open>list_by_thread\<close>: the local records of the page, and the page of the merge with the store's rows.\<close>

definition page_members ::
  "clock \<Rightarrow> string \<Rightarrow> string option \<Rightarrow> string option \<Rightarrow> manager \<Rightarrow> run_record list" where
  "page_members clk thread_id before_created_at before_run_id m =
     filter (\<lambda>rc. rc_operation_kind rc = ''run''
               \<and> run_is_before_cursor clk (rc_created_at rc) (rc_run_id rc) before_created_at before_run_id)
       (map (mg_heap m) (thread_records_locked thread_id m))"

definition page_of :: "clock \<Rightarrow> int \<Rightarrow> run_record list \<Rightarrow> run_record list" where
  "page_of clk limit rs = py_upto (sort_desc (\<lambda>rc. run_sort_key clk (rc_created_at rc) (rc_run_id rc)) rs) limit"

definition merge_rows :: "run_record list \<Rightarrow> run_row list \<Rightarrow> run_record list" where
  "merge_rows local stored = map snd (foldl (\<lambda>d row.
     if rr_run_id row = [] \<or> od_get d (rr_run_id row) \<noteq> None then d
     else case record_from_store row of None \<Rightarrow> d | Some rc \<Rightarrow> od_set (rr_run_id row) rc d)
     (od_update [] (map (\<lambda>rc. (rc_run_id rc, rc)) local)) stored)"

definition page_rows ::
  "clock \<Rightarrow> string \<Rightarrow> string option \<Rightarrow> int \<Rightarrow> run_record list \<Rightarrow> string option \<Rightarrow> string option \<Rightarrow> run_store \<Rightarrow> run_row list" where
  "page_rows clk thread_id user_id limit local before_created_at before_run_id s =
     list_by_thread clk thread_id user_id (limit + int (length local)) before_created_at before_run_id s"

definition list_runs_by_thread ::
  "manager_config \<Rightarrow> string \<Rightarrow> string option \<Rightarrow> int \<Rightarrow> string option \<Rightarrow> string option \<Rightarrow> run_record list cont \<Rightarrow> mprog" where
  "list_runs_by_thread c thread_id user_id limit before_created_at before_run_id k =
     (let created = cursor_part before_created_at; run = cursor_part before_run_id;
          normalized = map_option normalize_run_created_at_iso created
      in if (created = None) \<noteq> (run = None)
         then k (Inl (StoreSaid (ValueError ''before_created_at and before_run_id must be provided together'')))
         else look (\<lambda>clk _. normalized \<noteq> None \<and> Option.bind normalized (clk_parse clk) = None) (\<lambda>unreadable.
           if unreadable then k (Inl (StoreSaid (ValueError ''before_created_at must be an ISO-8601 timestamp'')))
           else thread_registry thread_id (\<lambda>clk m. (page_members clk thread_id normalized run m, m)) (ok_or k (\<lambda>local.
             if \<not> mc_store c then look (\<lambda>clk _. page_of clk limit local) (\<lambda>page. k (Inr page))
             else ask (\<lambda>clk s. (Rows (page_rows clk thread_id user_id limit local normalized run s), s))
               (\<lambda>a. case a of
                   Inl TaskCancelled \<Rightarrow> k (Inl TaskCancelled)
                 | Inr (Rows rs) \<Rightarrow> look (\<lambda>clk _. page_of clk limit (merge_rows local rs)) (\<lambda>page. k (Inr page))
                 | _ \<Rightarrow> look (\<lambda>clk _. page_of clk limit local) (\<lambda>page. k (Inr page)))))))"

text \<open>The runs that successful regenerations have superseded; local records override their rows.\<close>

definition regenerates :: "run_record \<Rightarrow> string option" where
  "regenerates rc = (case od_get (rc_metadata rc) ''regenerate_from_run_id'' of
     Some (VStr source) \<Rightarrow> non_empty (Some source) | _ \<Rightarrow> None)"

definition override_sources :: "run_record list \<Rightarrow> string list \<Rightarrow> string list" where
  "override_sources local stored = foldl (\<lambda>sources rc. case regenerates rc of
       None \<Rightarrow> sources
     | Some source \<Rightarrow> (if rc_status rc = ''success'' then removeAll source sources @ [source] else removeAll source sources))
     stored local"

text \<open>Which runs of an edit-and-rerun are hidden: the sources that have a live attempt, and failed attempts.\<close>

definition edit_source :: "run_record \<Rightarrow> string option" where
  "edit_source rc = (if od_get (rc_metadata rc) ''replay_kind'' = Some (VStr ''edit'') then regenerates rc else None)"

definition compute_edit_replay_visibility :: "run_record list \<Rightarrow> string list \<times> string list" where
  "compute_edit_replay_visibility records =
     (let sorted = sort_key rc_created_at records;
          edits = List.map_filter (\<lambda>rc. map_option (\<lambda>source. (source, rc_status rc)) (edit_source rc)) sorted;
          latest = od_update [] edits
      in (map fst (filter (\<lambda>(source, status). status \<in> {''pending'', ''running'', ''success''}) latest),
          fromkeys (map rc_run_id (filter (\<lambda>rc. edit_source rc \<noteq> None
            \<and> rc_status rc \<in> {''error'', ''timeout'', ''interrupted''}) sorted))))"

end
