(* ===== verification/ManagerPages.thy ===== *)
theory ManagerPages
  imports RunLifecycle RunStoreProofs
begin

text \<open>
  The page of runs that \<^verbatim>\<open>RunManager.list_by_thread\<close> answers
  (\<^verbatim>\<open>backend/packages/harness/deerflow/runtime/runs/manager.py\<close>): local records win over the rows of
  the store, of which the manager asks for only as many as the page and its local records need.
\<close>

section \<open>Pages of a descending sort\<close>

lemma distinct_sort_desc: "distinct (map g (sort_desc f xs)) = distinct (map g xs)"
  by (simp add: sort_desc_def rev_map [symmetric] distinct_map)

lemma sort_desc_restrict:
  assumes "distinct (map f ys)" "distinct (map f xs)" "set xs \<subseteq> set ys"
  shows "sort_desc f xs = filter (\<lambda>x. x \<in> set xs) (sort_desc f ys)"
proof -
  let ?a = "rev (sort_desc f xs)" and ?b = "rev (filter (\<lambda>x. x \<in> set xs) (sort_desc f ys))"
  have b: "?b = filter (\<lambda>x. x \<in> set xs) (sort_key f (rev ys))" by (simp add: sort_desc_def rev_filter)
  have "?a = ?b"
  proof (rule map_sorted_distinct_set_unique [of f])
    show "inj_on f (set ?a \<union> set ?b)" using assms by (auto simp: distinct_map inj_on_def)
    show "sorted (map f ?a)" by (simp add: sort_desc_def)
    show "distinct (map f ?a)" using assms(2) by (simp add: sort_desc_def rev_map [symmetric] distinct_map)
    show "sorted (map f ?b)" unfolding b by (rule sorted_filter) simp
    show "distinct (map f ?b)" unfolding b using assms(1) by (simp add: distinct_map rev_map [symmetric] inj_on_def)
    show "set ?a = set ?b" using assms(3) by auto
  qed
  then show ?thesis by (rule rev_is_rev_conv [THEN iffD1])
qed

lemma take_filter_same:
  assumes "\<And>x. x \<in> set (take n xs) \<Longrightarrow> P x"
  shows "take n (filter P xs) = take n xs"
proof -
  have "filter P (take n xs) = take n xs" using assms by (simp add: filter_id_conv)
  moreover have "filter P (take n xs @ drop n xs) = filter P (take n xs) @ filter P (drop n xs)"
    by (rule filter_append)
  ultimately have "filter P xs = take n xs @ filter P (drop n xs)" by simp
  then show ?thesis by (cases "length xs \<le> n") (simp_all del: filter_append)
qed

lemma sort_desc_order:
  assumes "distinct (map f xs)" "i < j" "j < length xs"
  shows "f (sort_desc f xs ! j) < f (sort_desc f xs ! i)"
proof -
  have "f (sort_desc f xs ! j) \<le> f (sort_desc f xs ! i)"
    using sorted_sort_desc [of f xs] assms(2,3) by (simp add: sorted_wrt_iff_nth_less)
  moreover have "f (sort_desc f xs ! j) \<noteq> f (sort_desc f xs ! i)"
    using assms distinct_sort_desc [of f f xs] nth_eq_iff_index_eq [of "map f (sort_desc f xs)" i j] by simp
  ultimately show ?thesis by simp
qed

lemma rank_of_page:
  assumes "distinct (map f xs)" "x \<in> set (take n (sort_desc f xs))"
  shows "card {y \<in> set xs. f x < f y} < n"
proof -
  obtain i where i: "i < n" "i < length xs" "x = sort_desc f xs ! i" using assms(2) by (auto simp: in_set_conv_nth)
  have "{y \<in> set xs. f x < f y} \<subseteq> (!) (sort_desc f xs) ` {..<i}"
  proof
    fix y assume "y \<in> {y \<in> set xs. f x < f y}"
    then obtain j where j: "j < length xs" "y = sort_desc f xs ! j" "f x < f y"
      by (metis (no_types, lifting) in_set_conv_nth length_sort_desc mem_Collect_eq set_sort_desc)
    have "j < i" using sort_desc_order [OF assms(1), of i j] j i by (cases i j rule: linorder_cases) auto
    then show "y \<in> (!) (sort_desc f xs) ` {..<i}" using j(2) by simp
  qed
  then have "card {y \<in> set xs. f x < f y} \<le> card {..<i}" by (rule surj_card_le [OF finite_lessThan])
  then show ?thesis using i(1) by simp
qed

lemma page_outranks:
  assumes "distinct (map f xs)" "x \<in> set xs" "x \<notin> set (take n (sort_desc f xs))"
  shows "y \<in> set (take n (sort_desc f xs)) \<Longrightarrow> f x < f y" and "length (take n (sort_desc f xs)) = n"
proof -
  obtain j where j: "j < length xs" "x = sort_desc f xs ! j"
    using assms(2) by (metis in_set_conv_nth length_sort_desc set_sort_desc)
  have n: "n \<le> j"
  proof (rule ccontr)
    assume "\<not> n \<le> j"
    then have "take n (sort_desc f xs) ! j = x" "j < length (take n (sort_desc f xs))" using j by simp_all
    then show False using assms(3) nth_mem by metis
  qed
  show "y \<in> set (take n (sort_desc f xs)) \<Longrightarrow> f x < f y"
    using sort_desc_order [OF assms(1)] n j by (auto simp: in_set_conv_nth)
  show "length (take n (sort_desc f xs)) = n" using n j(1) by simp
qed

lemma distinct_by_part: "distinct (map (\<lambda>x. g (f x)) xs) \<Longrightarrow> distinct (map f xs)"
  by (auto simp: distinct_map inj_on_def)

section \<open>The merge\<close>

abbreviation record_key :: "clock \<Rightarrow> run_record \<Rightarrow> int \<times> string" where
  "record_key clk rc \<equiv> run_sort_key clk (rc_created_at rc) (rc_run_id rc)"

abbreviation row_key :: "clock \<Rightarrow> run_row \<Rightarrow> int \<times> string" where
  "row_key clk row \<equiv> run_sort_key clk (rr_created_at row) (rr_run_id row)"

definition readable :: "run_row \<Rightarrow> bool" where
  "readable row \<longleftrightarrow> rr_run_id row \<noteq> [] \<and> record_from_store row \<noteq> None"

text \<open>The local records, and the rows of runs that have none.\<close>

definition merged :: "run_record list \<Rightarrow> run_row list \<Rightarrow> run_record list" where
  "merged local rs = local @ List.map_filter record_from_store (filter (\<lambda>row. rr_run_id row \<notin> rc_run_id ` set local) rs)"

lemma record_from_store_key:
  "record_from_store row = Some rc \<Longrightarrow> rc_run_id rc = rr_run_id row \<and> record_key clk rc = row_key clk row"
  by (auto simp: record_from_store_def Let_def split: if_splits)

lemma map_filter_ids:
  "\<forall>row \<in> set rs. readable row \<Longrightarrow> map rc_run_id (List.map_filter record_from_store rs) = map rr_run_id rs"
  by (induction rs) (auto simp: map_filter_simps readable_def dest: record_from_store_key)

lemma map_filter_snoc: "List.map_filter g (xs @ [x]) = List.map_filter g xs @ (case g x of None \<Rightarrow> [] | Some y \<Rightarrow> [y])"
  by (induction xs) (auto simp: map_filter_simps split: option.splits)

lemma merge_rows_eq:
  assumes "distinct (map rc_run_id local)" "distinct (map rr_run_id rs)" "\<forall>row \<in> set rs. readable row"
  shows "merge_rows local rs = merged local rs"
proof -
  let ?d = "map (\<lambda>rc. (rc_run_id rc, rc)) local"
  let ?step = "\<lambda>d row. if rr_run_id row = [] \<or> od_get d (rr_run_id row) \<noteq> None then d
     else case record_from_store row of None \<Rightarrow> d | Some rc \<Rightarrow> od_set (rr_run_id row) rc d"
  have "od_wf ?d" using assms(1) by (simp add: comp_def)
  then have d: "od_update [] ?d = ?d" using od_update_disjoint [of ?d "[]"] by simp
  have "foldl ?step ?d rs = map (\<lambda>rc. (rc_run_id rc, rc)) (merged local rs)"
    using assms(2,3)
  proof (induction rs rule: rev_induct)
    case Nil
    then show ?case by (simp add: merged_def map_filter_simps)
  next
    case (snoc row rs)
    let ?m = "merged local rs"
    have IH: "foldl ?step ?d rs = map (\<lambda>rc. (rc_run_id rc, rc)) ?m" using snoc by simp
    obtain rc where rc: "record_from_store row = Some rc" "rr_run_id row \<noteq> []" "rc_run_id rc = rr_run_id row"
      using snoc.prems(2) record_from_store_key by (auto simp: readable_def)
    have ids: "rc_run_id ` set ?m = rc_run_id ` set local \<union> rr_run_id ` {r \<in> set rs. rr_run_id r \<notin> rc_run_id ` set local}"
      using arg_cong [OF map_filter_ids [of "filter (\<lambda>row. rr_run_id row \<notin> rc_run_id ` set local) rs"], of set] snoc.prems(2)
      by (simp add: merged_def image_Un)
    have "rr_run_id row \<notin> rr_run_id ` set rs" using snoc.prems(1) by simp
    then have fresh: "rr_run_id row \<in> rc_run_id ` set ?m \<longleftrightarrow> rr_run_id row \<in> rc_run_id ` set local"
      unfolding ids by auto
    have get: "od_get (map (\<lambda>rc. (rc_run_id rc, rc)) ?m) (rr_run_id row) = None \<longleftrightarrow> rr_run_id row \<notin> rc_run_id ` set local"
      using fresh by (simp add: od_get_None image_image)
    show ?case
    proof (cases "rr_run_id row \<in> rc_run_id ` set local")
      case True
      then have "merged local (rs @ [row]) = ?m" by (simp add: merged_def)
      moreover have "?step (map (\<lambda>rc. (rc_run_id rc, rc)) ?m) row = map (\<lambda>rc. (rc_run_id rc, rc)) ?m" using get True by simp
      ultimately show ?thesis using IH by simp
    next
      case False
      then have "merged local (rs @ [row]) = ?m @ [rc]" by (simp add: merged_def map_filter_snoc rc(1))
      moreover have "?step (map (\<lambda>rc. (rc_run_id rc, rc)) ?m) row = map (\<lambda>rc. (rc_run_id rc, rc)) ?m @ [(rr_run_id row, rc)]"
        using get False rc fresh by (simp add: od_set_fresh image_image)
      ultimately show ?thesis using IH rc(3) by simp
    qed
  qed
  then show ?thesis by (simp add: merge_rows_def d comp_def)
qed

lemma set_merged:
  "set (merged local rs) = set local
     \<union> {rc. \<exists>row \<in> set rs. record_from_store row = Some rc \<and> rr_run_id row \<notin> rc_run_id ` set local}"
  by (auto simp: merged_def List.map_filter_def image_iff) force+

lemma distinct_merged:
  assumes "distinct (map rc_run_id local)" "distinct (map rr_run_id rs)" "\<forall>row \<in> set rs. readable row"
  shows "distinct (map (record_key clk) (merged local rs))"
proof -
  let ?new = "filter (\<lambda>row. rr_run_id row \<notin> rc_run_id ` set local) rs"
  have new: "map rc_run_id (List.map_filter record_from_store ?new) = map rr_run_id ?new"
    using assms(3) by (intro map_filter_ids) simp
  have "distinct (map rr_run_id ?new)" using assms(2) by (rule distinct_map_filter)
  then have "distinct (map rc_run_id (merged local rs))"
    using assms(1) new arg_cong [OF new, of set] by (auto simp: merged_def) (metis imageI)
  then show ?thesis by (intro distinct_by_part [of snd]) (simp add: run_sort_key_def)
qed

lemma window_suffices:
  assumes "distinct (map rc_run_id local)" "distinct (map rr_run_id stored)" "\<forall>row \<in> set stored. readable row"
  shows "take n (sort_desc (record_key clk) (merged local (take (n + length local) (sort_desc (row_key clk) stored))))
    = take n (sort_desc (record_key clk) (merged local stored))"
proof -
  let ?K = "record_key clk" and ?S = "sort_desc (row_key clk) stored"
  let ?W = "take (n + length local) ?S"
  let ?ids = "rc_run_id ` set local"
  have W: "set ?W \<subseteq> set stored" using set_take_subset [of "n + length local" ?S] by simp
  have keys: "distinct (map (row_key clk) stored)"
    using assms(2) by (intro distinct_by_part [of snd]) (simp add: run_sort_key_def)
  have ids: "distinct (map rr_run_id ?S)" using assms(2) by (simp add: distinct_sort_desc)
  then have idsW: "distinct (map rr_run_id ?W)" by (simp add: take_map [symmetric] distinct_take)
  have dist: "distinct (map ?K (merged local stored))" "distinct (map ?K (merged local ?W))"
    using assms idsW W by (intro distinct_merged; blast)+
  have sub: "set (merged local ?W) \<subseteq> set (merged local stored)" using W by (auto simp: set_merged)
  have "x \<in> set (merged local ?W)" if x: "x \<in> set (take n (sort_desc ?K (merged local stored)))" for x
  proof (rule ccontr)
    assume no: "x \<notin> set (merged local ?W)"
    have "x \<in> set (merged local stored)" using x set_take_subset set_sort_desc by fastforce
    then obtain row where row: "row \<in> set stored" "record_from_store row = Some x" "rr_run_id row \<notin> ?ids" "row \<notin> set ?W"
      using no by (auto simp: set_merged)
    note above = page_outranks [OF keys row(1,4)]
    let ?new = "{y \<in> set ?W. rr_run_id y \<notin> ?ids}"
    have inj: "inj_on rr_run_id (set ?W)" using idsW by (simp add: distinct_map)
    have "card (set ?W) = n + length local" using above(2) idsW distinct_card [of ?W] by (simp add: distinct_map)
    moreover have "card (set ?W) = card (?new \<union> {y \<in> set ?W. rr_run_id y \<in> ?ids})"
      by (rule arg_cong [of _ _ card]) blast
    moreover have "card {y \<in> set ?W. rr_run_id y \<in> ?ids} \<le> length local"
    proof -
      have "card {y \<in> set ?W. rr_run_id y \<in> ?ids} \<le> card ?ids"
        by (rule card_inj_on_le [of rr_run_id]) (use inj in \<open>auto simp: inj_on_def\<close>)
      also have "\<dots> \<le> length local" using card_length [of "map rc_run_id local"] by simp
      finally show ?thesis .
    qed
    ultimately have n: "n \<le> card ?new" using card_Un_le [of ?new "{y \<in> set ?W. rr_run_id y \<in> ?ids}"] by linarith
    have "card ?new \<le> card {y \<in> set (merged local stored). ?K x < ?K y}"
    proof (rule card_inj_on_le [of "\<lambda>y. the (record_from_store y)"])
      have the: "rc_run_id (the (record_from_store y)) = rr_run_id y \<and> ?K (the (record_from_store y)) = row_key clk y
          \<and> the (record_from_store y) \<in> set (merged local stored)" if "y \<in> ?new" for y
      proof -
        have "y \<in> set stored" using that W by blast
        obtain z where "record_from_store y = Some z"
          using assms(3) \<open>y \<in> set stored\<close> unfolding readable_def by blast
        with that show ?thesis using record_from_store_key [of y z clk] by (auto simp: set_merged \<open>y \<in> set stored\<close>)
      qed
      show "inj_on (\<lambda>y. the (record_from_store y)) ?new"
        by (rule inj_onI) (metis (no_types, lifting) the inj inj_onD mem_Collect_eq)
      show "(\<lambda>y. the (record_from_store y)) ` ?new \<subseteq> {y \<in> set (merged local stored). ?K x < ?K y}"
        using the above(1) record_from_store_key [OF row(2)] by fastforce
    qed simp
    with n rank_of_page [OF dist(1) x] show False by simp
  qed
  then show ?thesis
    unfolding sort_desc_restrict [OF dist sub] by (rule take_filter_same)
qed

section \<open>The page\<close>

lemma distinct_thread_rows: "store_ok s \<Longrightarrow> distinct (map rr_run_id (thread_rows s t))"
proof -
  assume ok: "store_ok s"
  have "map rr_run_id (List.map_filter (od_get (st_runs s)) ks) = filter (\<lambda>k. od_get (st_runs s) k \<noteq> None) ks" for ks
    using store_ok_row [OF ok] by (induction ks) (auto simp: map_filter_simps split: option.split)
  then show ?thesis using ok by (simp add: thread_rows_def store_ok_def index_ok_def)
qed

text \<open>The registry files every record once, under its own id.\<close>

definition local_registry_ok :: "manager \<Rightarrow> bool" where
  "local_registry_ok m \<longleftrightarrow> od_wf (mg_runs m) \<and> (\<forall>k r. od_get (mg_runs m) k = Some r \<longrightarrow> rc_run_id (mg_heap m r) = k)
     \<and> (\<forall>t. distinct (od_get_default (mg_by_thread m) t []))"

lemma distinct_members: "local_registry_ok m \<Longrightarrow> distinct (map rc_run_id (page_members clk t bc bi m))"
proof -
  assume ok: "local_registry_ok m"
  have "map rc_run_id (map (mg_heap m) (List.map_filter (od_get (mg_runs m)) ks))
      = filter (\<lambda>k. od_get (mg_runs m) k \<noteq> None) ks" for ks
    using ok by (induction ks) (auto simp: map_filter_simps local_registry_ok_def split: option.split)
  then have "distinct (map rc_run_id (map (mg_heap m) (thread_records_locked t m)))"
    using ok by (simp add: thread_records_locked_def local_registry_ok_def)
  then show ?thesis unfolding page_members_def by (rule distinct_map_filter)
qed

text \<open>The rows that a query without a limit would answer.\<close>

definition stored_runs :: "clock \<Rightarrow> string \<Rightarrow> string option \<Rightarrow> string option \<Rightarrow> string option \<Rightarrow> run_store \<Rightarrow> run_row list" where
  "stored_runs clk thread_id user_id before_created_at before_run_id s =
     filter (\<lambda>row. is_run row \<and> visible_to user_id row
               \<and> run_is_before_cursor clk (rr_created_at row) (rr_run_id row) before_created_at before_run_id)
       (thread_rows s thread_id)"

text \<open>
  C30. A page of a thread's runs is exact although the manager asks the store only for the page's length plus
  the number of its local records: it is the page of the local records together with every stored run
  that has none, newest first, so that duplicates never push a run off the page. The store is well-formed,
  the registry holds each record once under its id, and the stored runs of the thread map to records.
\<close>

theorem run_page_is_exact:
  assumes "store_ok s" "local_registry_ok m" "0 \<le> limit"
    and "\<forall>row \<in> set (stored_runs clk t u bc bi s). readable row"
  shows "page_of clk limit (merge_rows (page_members clk t bc bi m)
      (page_rows clk t u limit (page_members clk t bc bi m) bc bi s))
    = take (nat limit) (sort_desc (record_key clk) (merged (page_members clk t bc bi m) (stored_runs clk t u bc bi s)))"
proof -
  let ?local = "page_members clk t bc bi m" and ?stored = "stored_runs clk t u bc bi s"
  let ?W = "take (nat limit + length ?local) (sort_desc (row_key clk) ?stored)"
  have local: "distinct (map rc_run_id ?local)" using assms(2) by (rule distinct_members)
  have stored: "distinct (map rr_run_id ?stored)"
    unfolding stored_runs_def by (rule distinct_map_filter [OF distinct_thread_rows [OF assms(1)]])
  have W: "page_rows clk t u limit ?local bc bi s = ?W"
    using assms(3) by (simp add: page_rows_def list_by_thread_def stored_runs_def py_upto_nonneg nat_add_distrib)
  have "set ?W \<subseteq> set ?stored" using set_take_subset [of _ "sort_desc (row_key clk) ?stored"] by simp
  moreover have "distinct (map rr_run_id ?W)" using stored by (simp add: take_map [symmetric] distinct_sort_desc distinct_take)
  ultimately have "merge_rows ?local ?W = merged ?local ?W"
    using assms(4) by (intro merge_rows_eq [OF local]) auto
  then show ?thesis
    unfolding W using window_suffices [OF local stored assms(4), of "nat limit" clk] assms(3)
    by (simp add: page_of_def py_upto_nonneg)
qed

end
