(* ===== verification/RunCluster.thy ===== *)
theory RunCluster
  imports RunLifecycle
begin

text \<open>
  Several workers over one run store, each with its own run manager
  (\<^verbatim>\<open>backend/packages/harness/deerflow/runtime/runs/manager.py\<close>), in the mode with leases. A step is one
  section of one task, one call of the store, or what the event loop and the callers do around them; steps of
  different tasks and workers interleave freely. A call that raised may have reached the store or not.
\<close>

section \<open>The methods that callers start\<close>

text \<open>
  The id of a new run is fresh. The two methods that replace or delete a whole row without a condition on its
  owner (\<^verbatim>\<open>record_assembly_evidence\<close> and the exit of a reservation) are not among them.
\<close>

inductive entry :: "manager_config \<Rightarrow> string option \<Rightarrow> mprog \<Rightarrow> bool" for c where
  "entry c (Some i) (create c i a (\<lambda>x. Finish (g x)))"
| "entry c (Some i) (admit_thread_operation c i a err (\<lambda>x. Finish (g x)))"
| "entry c (Some i) (reserve_enter c i a err (\<lambda>x. Finish (g x)))"
| "entry c None (reserve_attach i r (\<lambda>x. Finish (g x)))"
| "entry c None (try_start c i (\<lambda>x. Finish (g x)))"
| "entry c None (fail_start_if_pending c i e (\<lambda>x. Finish (g x)))"
| "entry c None (set_status c i st e sr gv persist (\<lambda>x. Finish (g x)))"
| "entry c None (persist_current_status c i (\<lambda>x. Finish (g x)))"
| "\<not> inflight st \<Longrightarrow> entry c None (set_status_if_not_cancelled c i st e sr gv persist (\<lambda>x. Finish (g x)))"
| "entry c None (set_finalizing i b (\<lambda>x. Finish (g x)))"
| "entry c None (wait_for_prior_finalizing t i abort (\<lambda>x. Finish (g x)))"
| "entry c None (complete_run c i st cp (\<lambda>x. Finish (g x)))"
| "entry c None (write_run_progress c acc u i cp (\<lambda>x. Finish (g x)))"
| "entry c None (set_model_name c i name (\<lambda>x. Finish (g x)))"
| "entry c None (cancel c i action e (\<lambda>x. Finish (g x)))"
| "entry c None (request_remote_cancel c i action (\<lambda>x. Finish (g x)))"
| "entry c None (reconcile_orphaned_inflight_runs c e' before sr (\<lambda>x. Finish (g x)))"
| "entry c None (cleanup c i (\<lambda>x. Finish (g x)))"
| "entry c None (owns_active_admission c r (\<lambda>x. Finish (g x)))"
| "entry c None (renew_leases c wait (\<lambda>x. Finish (g x)))"
| "entry c None (shutdown_runs c cancelled deadline (\<lambda>x. Finish (g x)))"
| "entry c None (get_run c i u b (\<lambda>x. Finish (g x)))"
| "entry c None (list_runs_by_thread c t u limit bc bi (\<lambda>x. Finish (g x)))"

text \<open>What the code that runs an agent assigns to a record.\<close>

definition foreign :: "(run_record \<Rightarrow> run_record) \<Rightarrow> bool" where
  "foreign g \<longleftrightarrow> (\<forall>rc. rc_run_id (g rc) = rc_run_id rc \<and> rc_thread_id (g rc) = rc_thread_id rc \<and> rc_owner (g rc) = rc_owner rc
     \<and> rc_lost (g rc) = rc_lost rc \<and> rc_proof (g rc) = rc_proof rc \<and> rc_lease (g rc) = rc_lease rc
     \<and> rc_store_only (g rc) = rc_store_only rc)"

section \<open>Workers and their steps\<close>

record cluster =
  cl_clock :: clock
  cl_store :: run_store
  cl_used :: "string set"
  cl_manager :: "string \<Rightarrow> manager"
  cl_locks :: "string \<Rightarrow> lock_key set"
  cl_tasks :: "(string \<times> mprog) list"

definition put_manager :: "string \<Rightarrow> manager \<Rightarrow> cluster \<Rightarrow> cluster" where
  "put_manager w m s = s\<lparr>cl_manager := (cl_manager s)(w := m)\<rparr>"

definition put_locks :: "string \<Rightarrow> lock_key set \<Rightarrow> cluster \<Rightarrow> cluster" where
  "put_locks w ks s = s\<lparr>cl_locks := (cl_locks s)(w := ks)\<rparr>"

definition resume :: "nat \<Rightarrow> mprog \<Rightarrow> cluster \<Rightarrow> cluster" where
  "resume n p s = s\<lparr>cl_tasks := (cl_tasks s)[n := (fst (cl_tasks s ! n), p)]\<rparr>"

definition launch :: "string \<Rightarrow> mprog \<Rightarrow> cluster \<Rightarrow> cluster" where
  "launch w p s = s\<lparr>cl_tasks := cl_tasks s @ [(w, p)]\<rparr>"

definition runs_task :: "cluster \<Rightarrow> nat \<Rightarrow> string \<Rightarrow> mprog \<Rightarrow> bool" where
  "runs_task s n w p \<longleftrightarrow> n < length (cl_tasks s) \<and> cl_tasks s ! n = (w, p)"

inductive cluster_step :: "(string \<Rightarrow> manager_config) \<Rightarrow> string option \<Rightarrow> cluster \<Rightarrow> cluster \<Rightarrow> bool" for cfg where
  start: "entry ((cfg w)\<lparr>mc_current := current\<rparr>) new p \<Longrightarrow> set_option new \<inter> cl_used s = {}
    \<Longrightarrow> cluster_step cfg (Some w) s (launch w p (s\<lparr>cl_used := cl_used s \<union> set_option new\<rparr>))"
| ran: "runs_task s n w (Section f k)
    \<Longrightarrow> cluster_step cfg (Some w) s (resume n (k (cl_clock s) (cl_manager s w)) (put_manager w (f (cl_clock s) (cl_manager s w)) s))"
| answered: "runs_task s n w (Ask f k) \<Longrightarrow> f (cl_clock s) (cl_store s) = (a, s')
    \<Longrightarrow> cluster_step cfg (Some w) s (resume n (k (Answer a)) (s\<lparr>cl_store := s'\<rparr>))"
| lost: "runs_task s n w (Ask f k) \<Longrightarrow> f (cl_clock s) (cl_store s) = (a, s') \<Longrightarrow> (\<And>x. b \<noteq> Answer x)
    \<Longrightarrow> cluster_step cfg (Some w) s (resume n (k b) (s\<lparr>cl_store := s'\<rparr>))"
| failed: "runs_task s n w (Ask f k) \<Longrightarrow> (\<And>x. b \<noteq> Answer x) \<Longrightarrow> cluster_step cfg (Some w) s (resume n (k b) s)"
| ready: "runs_task s n w (Await g k p) \<Longrightarrow> g (cl_clock s) (cl_manager s w) = Some m
    \<Longrightarrow> cluster_step cfg (Some w) s (resume n (k (cl_clock s) (cl_manager s w)) (put_manager w m s))"
| interrupted: "runs_task s n w (Await g k p) \<Longrightarrow> cluster_step cfg (Some w) s (resume n p s)"
| acquired: "runs_task s n w (Hold key p q) \<Longrightarrow> key \<notin> cl_locks s w
    \<Longrightarrow> cluster_step cfg (Some w) s (resume n p (put_locks w (insert key (cl_locks s w)) s))"
| abandoned: "runs_task s n w (Hold key p q) \<Longrightarrow> cluster_step cfg (Some w) s (resume n q s)"
| freed: "runs_task s n w (Free key p)
    \<Longrightarrow> cluster_step cfg (Some w) s (resume n p (put_locks w (cl_locks s w - {key}) s))"
| spawned: "runs_task s n w (Spawn p q) \<Longrightarrow> cluster_step cfg (Some w) s (launch w p (resume n q s))"
| timer: "mg_deadlines (cl_manager s w) i = Some (r, t) \<Longrightarrow> t \<le> clk_now (cl_clock s)
    \<Longrightarrow> cluster_step cfg (Some w) s (put_manager w (lease_expired (cfg w) i r (cl_clock s) (cl_manager s w)) s)"
| outside: "foreign g \<Longrightarrow> cluster_step cfg (Some w) s (put_manager w (modify r g (cl_manager s w)) s)"
| tick: "clk_parse clk = clk_parse (cl_clock s) \<Longrightarrow> clk_now (cl_clock s) \<le> clk_now clk
    \<Longrightarrow> cluster_step cfg None s (s\<lparr>cl_clock := clk\<rparr>)"

text \<open>
  A deployment: every worker has a store and leases of the same length, and reads back the dates it writes; it
  begins with an empty store and empty managers.
\<close>

definition deployment :: "(string \<Rightarrow> manager_config) \<Rightarrow> clock \<Rightarrow> bool" where
  "deployment cfg clk \<longleftrightarrow> (\<exists>lease. 0 \<le> lease \<and> (\<forall>w. mc_worker (cfg w) = w \<and> mc_store (cfg w) \<and> heartbeat_enabled (cfg w)
     \<and> 0 \<le> grace_of (cfg w) \<and> span (cfg w) = lease
     \<and> (\<forall>t. parse_lease_deadline clk (Some (mc_iso (cfg w) t)) = Some t)))"

inductive reachable :: "(string \<Rightarrow> manager_config) \<Rightarrow> cluster \<Rightarrow> bool" for cfg where
  initial: "deployment cfg clk \<Longrightarrow> reachable cfg \<lparr>cl_clock = clk, cl_store = empty_store, cl_used = {},
    cl_manager = (\<lambda>_. new_manager rc), cl_locks = (\<lambda>_. {}), cl_tasks = []\<rparr>"
| later: "reachable cfg s \<Longrightarrow> cluster_step cfg a s s' \<Longrightarrow> reachable cfg s'"

inductive_cases entry_cases: "entry c new p"
inductive_cases cluster_step_cases: "cluster_step cfg a s s'"

end
