(* ===== verification/ManagerRows.thy ===== *)
theory ManagerRows
  imports RunLifecycle RunStoreProofs
begin

text \<open>
  What the calls of one worker may do to the rows of the run store: the contract on which the proofs
  about several run managers rest. A row whose lease is alive and that belongs to another worker is left
  alone, except that its pending start is noted and that a cancellation may be requested.
\<close>

section \<open>Effects on a row\<close>

definition alive :: "clock \<Rightarrow> run_row \<Rightarrow> bool" where
  "alive clk row \<longleftrightarrow> (\<exists>t. lease_instant clk row = Some t \<and> clk_now clk \<le> t)"

definition untouched :: "run_row \<Rightarrow> run_row \<Rightarrow> bool" where
  "untouched row row' \<longleftrightarrow> (rr_status row' = rr_status row \<or> rr_status row = ''pending'' \<and> rr_status row' = ''running'')
     \<and> rr_error row' = rr_error row \<and> rr_stop_reason row' = rr_stop_reason row
     \<and> rr_goal_verdict row' = rr_goal_verdict row \<and> rr_owner_worker_id row' = rr_owner_worker_id row"

definition keeps_outcome :: "run_row \<Rightarrow> run_row \<Rightarrow> bool" where
  "keeps_outcome row row' \<longleftrightarrow> rr_thread_id row' = rr_thread_id row \<and> (settled row \<longrightarrow> rr_status row' = rr_status row)
     \<and> (rr_status row = ''interrupted'' \<longrightarrow> rr_status row' \<in> {''interrupted'', ''error''})"

definition keeps :: "string \<Rightarrow> clock \<Rightarrow> run_row \<Rightarrow> run_row \<Rightarrow> bool" where
  "keeps w clk row row' \<longleftrightarrow> keeps_outcome row row' \<and> rr_lease_expires_at row' = rr_lease_expires_at row
     \<and> (alive clk row \<longrightarrow> rr_owner_worker_id row' = rr_owner_worker_id row
          \<and> (rr_owner_worker_id row \<noteq> Some w \<longrightarrow> untouched row row'))"

definition renews :: "string \<Rightarrow> clock \<Rightarrow> string \<Rightarrow> run_row \<Rightarrow> run_row \<Rightarrow> bool" where
  "renews w clk lease row row' \<longleftrightarrow> rr_thread_id row' = rr_thread_id row \<and> alive clk row \<and> rr_owner_worker_id row = Some w \<and> rr_owner_worker_id row' = Some w
     \<and> rr_status row' = rr_status row \<and> rr_lease_expires_at row' = Some lease"

text \<open>The rows outside \<open>new\<close> stay, and each is kept.\<close>

definition rows_kept :: "(run_row \<Rightarrow> run_row \<Rightarrow> bool) \<Rightarrow> string set \<Rightarrow> run_store \<Rightarrow> run_store \<Rightarrow> bool" where
  "rows_kept rel new s s' \<longleftrightarrow> store_ok s' \<and> (\<forall>i. i \<notin> new \<longrightarrow> (case od_get (st_runs s) i of
       None \<Rightarrow> od_get (st_runs s') i = None
     | Some row \<Rightarrow> \<exists>row'. od_get (st_runs s') i = Some row' \<and> rel row row'))"

lemma keeps_refl [simp]: "keeps w clk row row"
  by (auto simp: keeps_def keeps_outcome_def untouched_def)

lemma rows_kept_refl [simp]: "store_ok s \<Longrightarrow> rows_kept (keeps w clk) new s s"
  by (auto simp: rows_kept_def split: option.split)

lemma rows_keptD:
  assumes "rows_kept rel new s s'" "i \<notin> new"
  shows "od_get (st_runs s) i = None \<Longrightarrow> od_get (st_runs s') i = None"
    "od_get (st_runs s) i = Some row \<Longrightarrow> \<exists>row'. od_get (st_runs s') i = Some row' \<and> rel row row'"
  using assms unfolding rows_kept_def by (force, force)

lemma rows_kept_ok: "rows_kept rel new s s' \<Longrightarrow> store_ok s'"
  by (simp add: rows_kept_def)

lemma rows_kept_mono: "rows_kept rel new s s' \<Longrightarrow> new \<subseteq> new' \<Longrightarrow> (\<And>a b. rel a b \<Longrightarrow> rel' a b) \<Longrightarrow> rows_kept rel' new' s s'"
  unfolding rows_kept_def by (fastforce split: option.splits)

text \<open>A row that is stored back, marked as changed or not.\<close>

lemma rows_kept_mark:
  assumes "store_ok s" "od_get (st_runs s) i = Some old" "rr_run_id new = i" "rr_thread_id new = rr_thread_id old"
    "\<And>q. rel old (new\<lparr>rr_change_seq := q\<rparr>)" "\<And>row. rel row row"
  shows "rows_kept rel N s (mark_changed new s)"
  using assms store_ok_mark_changed [OF assms(1), of new old]
  by (auto simp: rows_kept_def split: option.splits)

lemma rows_kept_store:
  assumes "store_ok s" "od_get (st_runs s) i = Some old" "rr_run_id new = i" "rr_thread_id new = rr_thread_id old"
    "rr_change_seq new = rr_change_seq old" "rel old new" "\<And>row. rel row row"
  shows "rows_kept rel N s (store_row new s)"
proof -
  have "rr_change_seq new \<le> st_change_seq s" using store_ok_row [OF assms(1,2)] assms(5) by simp
  then show ?thesis
    using assms store_ok_store_row [OF assms(1), of new old]
    by (auto simp: rows_kept_def split: option.splits)
qed

section \<open>Effects of the calls\<close>

named_theorems keeping

lemma live_owner_alive:
  assumes "live_owner clk run w"
  shows "rr_owner_worker_id run = Some w" "alive clk run"
  using assms by (auto simp: live_owner_def alive_def is_lease_expired_def lease_instant_def seconds_def split: option.splits)

lemma alive_not_expired: "alive clk run \<Longrightarrow> 0 \<le> g \<Longrightarrow> \<not> is_lease_expired clk (rr_lease_expires_at run) g"
  by (cases "rr_lease_expires_at run")
    (auto simp: alive_def is_lease_expired_def lease_instant_def seconds_def split: option.splits)

lemma get_run_id: "store_ok s \<Longrightarrow> od_get (st_runs s) i = Some run \<Longrightarrow> rr_run_id run = i"
  using store_ok_row by blast

lemma keeps_get [keeping]: "store_ok s \<Longrightarrow> rows_kept (keeps w clk) N s (snd (do_get i u clk s))"
  by (simp add: do_get_def)

lemma keeps_update_status [keeping]:
  assumes ok: "store_ok s"
  shows "rows_kept (keeps w clk) N s (snd (do_update_status i p (Some w) clk s))"
proof (cases "od_get (st_runs s) i")
  case None
  then show ?thesis using ok by (simp add: do_update_status_def update_status_def)
next
  case (Some run)
  note id = get_run_id [OF ok Some]
  show ?thesis
  proof (cases "fst (update_status clk i (to_status p) (to_error p) (to_stop_reason p) (to_goal_verdict p) (Some w) s)")
    case True
    then have live: "live_owner clk run w" and st: "rr_status run \<in> {''pending'', ''running'', ''interrupted''}"
      "rr_status run = ''interrupted'' \<longrightarrow> to_status p = ''error''"
      using Some by (auto simp: update_status_def split: if_splits)
    have "rows_kept (keeps w clk) N s (mark_changed (run\<lparr>rr_status := to_status p, rr_error := a, rr_stop_reason := b,
        rr_goal_verdict := g, rr_updated_at := u\<rparr>) s)" for a b g u
      using live_owner_alive [OF live] st id
      by (intro rows_kept_mark [OF ok Some]) (auto simp: keeps_def keeps_outcome_def settled_def)
    then show ?thesis using Some True by (auto simp: do_update_status_def update_status_def split: if_splits)
  next
    case False
    then have "snd (update_status clk i (to_status p) (to_error p) (to_stop_reason p) (to_goal_verdict p) (Some w) s) = s"
      using Some by (auto simp: update_status_def split: if_splits)
    then show ?thesis using ok by (simp add: do_update_status_def)
  qed
qed

lemma keeps_finalize [keeping]:
  assumes ok: "store_ok s"
  shows "rows_kept (keeps w clk) N s (snd (do_finalize i p (Some w) clk s))"
proof (cases "od_get (st_runs s) i")
  case None
  then show ?thesis using ok by (simp add: do_finalize_def finalize_if_not_cancelled_def)
next
  case (Some run)
  note id = get_run_id [OF ok Some]
  have "rows_kept (keeps w clk) N s (mark_changed (run\<lparr>rr_status := to_status p, rr_error := a, rr_stop_reason := b,
      rr_goal_verdict := g, rr_updated_at := u\<rparr>) s)" if "live_owner clk run w" "active run" for a b g u
    using live_owner_alive [OF that(1)] that(2) id
    by (intro rows_kept_mark [OF ok Some]) (auto simp: keeps_def keeps_outcome_def settled_def active_def)
  then show ?thesis using ok Some by (simp add: do_finalize_def finalize_if_not_cancelled_def)
qed

lemma keeps_start [keeping]:
  assumes ok: "store_ok s"
  shows "rows_kept (keeps w clk) N s (snd (do_start i clk s))"
proof (cases "od_get (st_runs s) i")
  case (Some run)
  have "rows_kept (keeps w clk) N s (mark_changed (run\<lparr>rr_status := ''running'', rr_updated_at := u\<rparr>) s)"
    if "rr_status run = ''pending''" for u
    using that get_run_id [OF ok Some]
    by (intro rows_kept_mark [OF ok Some]) (auto simp: keeps_def keeps_outcome_def settled_def untouched_def)
  then show ?thesis using ok Some by (simp add: do_start_def start_run_def)
qed (use ok in \<open>simp add: do_start_def start_run_def\<close>)

lemma keeps_request_cancel [keeping]:
  assumes ok: "store_ok s"
  shows "rows_kept (keeps w clk) N s (snd (do_request_cancel i action clk s))"
proof (cases "od_get (st_runs s) i")
  case (Some run)
  note id = get_run_id [OF ok Some]
  have "rows_kept (keeps w clk) N s (mark_changed (run\<lparr>rr_cancel_action := a, rr_cancel_requested_at := b, rr_updated_at := u\<rparr>) s)"
    "rows_kept (keeps w clk) N s (mark_changed (run\<lparr>rr_updated_at := u\<rparr>) s)" for a b u
    using id by (intro rows_kept_mark [OF ok Some]; auto simp: keeps_def keeps_outcome_def untouched_def)+
  then show ?thesis using ok Some by (auto simp: do_request_cancel_def request_cancel_def Let_def)
qed (use ok in \<open>simp add: do_request_cancel_def request_cancel_def\<close>)

lemma keeps_claim [keeping]:
  assumes ok: "store_ok s" and g: "0 \<le> g"
  shows "rows_kept (keeps w clk) N s (snd (do_claim i g e sr clk s))"
proof (cases "od_get (st_runs s) i")
  case (Some run)
  note id = get_run_id [OF ok Some]
  have "rows_kept (keeps w clk) N s (mark_changed (run\<lparr>rr_status := ''error'', rr_error := a, rr_stop_reason := b, rr_updated_at := u\<rparr>) s)"
    if "active run" "is_lease_expired clk (rr_lease_expires_at run) g" for a b u
    using that alive_not_expired [of clk run g] g id
    by (intro rows_kept_mark [OF ok Some]) (auto simp: keeps_def keeps_outcome_def settled_def active_def)
  then show ?thesis using ok Some by (simp add: do_claim_def claim_for_takeover_def)
qed (use ok in \<open>simp add: do_claim_def claim_for_takeover_def\<close>)

lemma keeps_completion [keeping]:
  assumes ok: "store_ok s"
  shows "rows_kept (keeps w clk) N s (snd (do_completion i status True (Some w) cp clk s))"
proof (cases "od_get (st_runs s) i")
  case (Some run)
  note id = get_run_id [OF ok Some]
  have "rows_kept (keeps w clk) N s (mark_changed ((write_progress cp (run\<lparr>rr_status := status\<rparr>))\<lparr>rr_updated_at := u\<rparr>) s)"
    if "rr_status run = status" "rr_owner_worker_id run = Some w" for u
    using that id by (intro rows_kept_mark [OF ok Some]) (auto simp: keeps_def keeps_outcome_def write_progress_def)
  then show ?thesis using ok Some by (auto simp: do_completion_def update_run_completion_def Let_def)
qed (use ok in \<open>simp add: do_completion_def update_run_completion_def\<close>)

lemma keeps_progress [keeping]:
  assumes ok: "store_ok s"
  shows "rows_kept (keeps w clk) N s (snd (do_progress i cp clk s))"
proof (cases "od_get (st_runs s) i")
  case (Some run)
  have "rows_kept (keeps w clk) N s (store_row ((write_progress cp run)\<lparr>rr_updated_at := u\<rparr>) s)" for u
    using get_run_id [OF ok Some]
    by (intro rows_kept_store [OF ok Some]) (auto simp: keeps_def keeps_outcome_def untouched_def write_progress_def)
  then show ?thesis using ok Some by (simp add: do_progress_def update_run_progress_def)
qed (use ok in \<open>simp add: do_progress_def update_run_progress_def\<close>)

lemma keeps_model_name [keeping]:
  assumes ok: "store_ok s"
  shows "rows_kept (keeps w clk) N s (snd (do_model_name i name clk s))"
proof (cases "od_get (st_runs s) i")
  case (Some run)
  have "rows_kept (keeps w clk) N s (mark_changed (run\<lparr>rr_model_name := name, rr_updated_at := u\<rparr>) s)" for u
    using get_run_id [OF ok Some]
    by (intro rows_kept_mark [OF ok Some]) (auto simp: keeps_def keeps_outcome_def untouched_def)
  then show ?thesis using ok Some by (simp add: do_model_name_def update_model_name_def)
qed (use ok in \<open>simp add: do_model_name_def update_model_name_def\<close>)

lemma keeps_list_expired [keeping]: "store_ok s \<Longrightarrow> rows_kept (keeps w clk) N s (snd (do_list_expired b g clk s))"
  by (simp add: do_list_expired_def split: sum.split)

section \<open>Renewal and creation\<close>

lemma do_renew_effect:
  assumes ok: "store_ok s"
  shows "snd (do_renew i w lease ai clk s) = s \<and> (\<forall>l. fst (do_renew i w lease ai clk s) = Renewed l \<longrightarrow> \<not> lr_renewed l)
    \<or> (\<exists>run u. od_get (st_runs s) i = Some run \<and> alive clk run \<and> rr_owner_worker_id run = Some w
         \<and> snd (do_renew i w lease ai clk s) = store_row (run\<lparr>rr_owner_worker_id := Some w, rr_lease_expires_at := Some lease,
             rr_updated_at := u\<rparr>) s)"
proof (cases "update_lease clk i w lease ai s")
  case (Inl e)
  then show ?thesis by (simp add: do_renew_def renew_lease_def)
next
  case (Inr r)
  obtain renewed s' where r: "r = (renewed, s')" by (cases r)
  show ?thesis
  proof (cases renewed)
    case True
    then obtain run where run: "od_get (st_runs s) i = Some run" "live_owner clk run w"
      "s' = store_row (run\<lparr>rr_owner_worker_id := Some w, rr_lease_expires_at := Some lease, rr_updated_at := clk_iso clk\<rparr>) s"
      using Inr r by (auto simp: update_lease_def split: option.splits if_splits)
    then show ?thesis using Inr r True live_owner_alive [OF run(2)] by (auto simp: do_renew_def renew_lease_def)
  next
    case False
    then have "s' = s" using Inr r by (auto simp: update_lease_def split: option.splits if_splits)
    then show ?thesis using Inr r False by (simp add: do_renew_def renew_lease_def)
  qed
qed

lemma do_renew_kept:
  assumes ok: "store_ok s"
  shows "rows_kept (\<lambda>row row'. row' = row \<or> rr_run_id row = i \<and> renews w clk lease row row') {} s (snd (do_renew i w lease ai clk s))"
  using do_renew_effect [OF ok, of i w lease ai clk]
proof (elim disjE exE conjE)
  fix run u
  assume run: "od_get (st_runs s) i = Some run" "alive clk run" "rr_owner_worker_id run = Some w"
    "snd (do_renew i w lease ai clk s) = store_row (run\<lparr>rr_owner_worker_id := Some w, rr_lease_expires_at := Some lease, rr_updated_at := u\<rparr>) s"
  show ?thesis
    unfolding run(4) using run(2,3) get_run_id [OF ok run(1)]
    by (intro rows_kept_store [OF ok run(1)]) (auto simp: renews_def)
qed (use ok in \<open>auto simp: rows_kept_def split: option.split\<close>)

lemma claimable_not_alive:
  assumes "claimable clk w g r" "rr_owner_worker_id r \<noteq> Some w" "0 \<le> g"
  shows "\<not> alive clk r"
  using assms by (auto simp: claimable_def alive_def lease_cutoff_def seconds_def split: option.splits)

lemma interrupt_row_keeps:
  assumes "active r" "claimable clk w g r" "0 \<le> g"
  shows "keeps w clk r (interrupt_row clk w q r)"
proof -
  have "alive clk r \<Longrightarrow> rr_owner_worker_id r = Some w" using claimable_not_alive [OF assms(2) _ assms(3)] by blast
  then show ?thesis
    using assms(1) by (auto simp: keeps_def keeps_outcome_def settled_def active_def interrupt_row_def)
qed

lemma create_filter:
  assumes "pa_multitask_strategy a \<in> set STRATEGIES" "admission_conflict clk w g a s = Inr cs"
  obtains P where "cs = filter P (rows s)" "\<And>r. r \<in> set cs \<Longrightarrow> active r" "\<And>r. r \<in> set cs \<Longrightarrow> claimable clk w g r"
proof -
  have "cs = filter (thread_active (pa_thread_id a)) (rows s) \<and> (\<forall>r \<in> set cs. claimable clk w g r)"
    using admission_Inr [OF assms(2)] assms(1) by (auto simp: STRATEGIES_def)
  then show ?thesis by (intro that [of "thread_active (pa_thread_id a)"]) (auto simp: thread_active_def)
qed

lemma do_create_effect:
  assumes ok: "store_ok s" and g: "0 \<le> g" and strategy: "pa_multitask_strategy a \<in> set STRATEGIES"
    and old: "\<And>row. od_get (st_runs s) i = Some row \<Longrightarrow> rr_thread_id row = pa_thread_id a"
  shows "snd (do_create i w g a clk s) = s \<and> (\<forall>claimed. fst (do_create i w g a clk s) \<noteq> Rows claimed)
    \<or> rows_kept (keeps w clk) {i} s (snd (do_create i w g a clk s))
      \<and> (\<exists>q. od_get (st_runs (snd (do_create i w g a clk s))) i = Some (admitted_row clk i w a q))
      \<and> (\<exists>claimed. fst (do_create i w g a clk s) = Rows claimed \<and> (\<forall>row \<in> set claimed. rr_run_id row \<noteq> i \<longrightarrow>
           (\<exists>row'. od_get (st_runs (snd (do_create i w g a clk s))) (rr_run_id row) = Some row' \<and> rr_status row' = ''interrupted'')))"
proof (cases "create_thread_operation_atomic clk i w g a s")
  case (Inl e)
  then show ?thesis by (simp add: do_create_def)
next
  case (Inr r)
  obtain new claimed s' where r: "r = ((new, claimed), s')" by (cases r) auto
  obtain cs where cs: "admission_conflict clk w g a s = Inr cs"
    "claimed = map (interrupt_row clk w (st_change_seq s + 1)) cs" "s' = admit clk i w a cs s"
    using create_Inr [OF Inr [unfolded r]] by metis
  obtain P where P: "cs = filter P (rows s)" "\<And>r. r \<in> set cs \<Longrightarrow> active r" "\<And>r. r \<in> set cs \<Longrightarrow> claimable clk w g r"
    using create_filter [OF strategy cs(1)] by metis
  note rows = get_admit [OF ok P(1), of clk i w a]
  have "store_ok s'" unfolding cs(3) by (rule admit_ok [OF ok P(1)])
  moreover have "\<exists>row'. od_get (st_runs s') j = Some row' \<and> keeps w clk row row'"
    if "j \<noteq> i" "od_get (st_runs s) j = Some row" for j row
  proof (cases "P row")
    case True
    have "row \<in> set cs" using True that(2) mem_rows [OF ok, of row] get_run_id [OF ok that(2)] by (simp add: P(1))
    then have "keeps w clk row (interrupt_row clk w (st_change_seq s + 1) row)"
      using interrupt_row_keeps [OF P(2) P(3) g] by blast
    then show ?thesis using that True by (simp add: cs(3) rows)
  qed (use that in \<open>simp add: cs(3) rows\<close>)
  ultimately have "rows_kept (keeps w clk) {i} s s'"
    by (auto simp: rows_kept_def cs(3) rows split: option.split)
  moreover have "\<exists>row'. od_get (st_runs s') (rr_run_id row) = Some row' \<and> rr_status row' = ''interrupted''"
    if "row \<in> set claimed" "rr_run_id row \<noteq> i" for row
  proof -
    obtain r0 where r0: "row = interrupt_row clk w (st_change_seq s + 1) r0" "r0 \<in> set cs" using \<open>row \<in> set claimed\<close> by (auto simp: cs(2))
    then have "od_get (st_runs s) (rr_run_id r0) = Some r0" "P r0" using mem_rows [OF ok, of r0] by (auto simp: P(1))
    then show ?thesis using that(2) by (simp add: cs(3) rows r0(1))
  qed
  moreover have "\<exists>q. od_get (st_runs s') i = Some (admitted_row clk i w a q)"
    unfolding cs(3) rows by auto
  ultimately show ?thesis using Inr r by (simp add: do_create_def)
qed

lemma admitted_row_lease [simp]:
  "rr_owner_worker_id (admitted_row clk i w a q) = Some w" "rr_lease_expires_at (admitted_row clk i w a q) = pa_lease_expires_at a"
  by (simp_all add: admitted_row_def put_row_def)

lemma do_put_effect:
  assumes ok: "store_ok s" and old: "\<And>row. od_get (st_runs s) i = Some row \<Longrightarrow> rr_thread_id row = pa_thread_id a"
  shows "rows_kept (keeps w clk) {i} s (snd (do_put i a clk s))"
    "\<exists>row. od_get (st_runs (snd (do_put i a clk s))) i = Some row \<and> rr_owner_worker_id row = pa_owner_worker_id a
       \<and> rr_lease_expires_at row = pa_lease_expires_at a \<and> rr_thread_id row = pa_thread_id a"
  using put_ok [OF ok]
  by (auto simp: do_put_def rows_kept_def get_put put_row_def split: option.splits)

end
