(* ===== verification/ManagerRely.thy ===== *)
theory ManagerRely
  imports ManagerRows
begin

text \<open>
  Rely and guarantee for the methods of a run manager with leases. A task owns resources: the locks it
  holds, the future of a renewal that it carries out, and the id of a run that it is about to create.
  \<open>rely\<close> is what other tasks and workers may do meanwhile; \<open>sound\<close> is what a program guarantees at each
  of its steps from any state that the others may have left.
\<close>

section \<open>Views\<close>

text \<open>
  What a worker sees: the ids of runs that are being created, the clock, the store, and its manager.
\<close>

record view =
  vw_new :: "string set"
  vw_clock :: clock
  vw_store :: run_store
  vw_manager :: manager

datatype resource = Key lock_key | Future nat | NewRun string

abbreviation row_of :: "view \<Rightarrow> string \<Rightarrow> run_row option" where
  "row_of v i \<equiv> od_get (st_runs (vw_store v)) i"

abbreviation run_of :: "view \<Rightarrow> string \<Rightarrow> nat option" where
  "run_of v i \<equiv> od_get (mg_runs (vw_manager v)) i"

abbreviation rec_of :: "view \<Rightarrow> nat \<Rightarrow> run_record" where
  "rec_of v r \<equiv> mg_heap (vw_manager v) r"

abbreviation now :: "view \<Rightarrow> int" where
  "now v \<equiv> clk_now (vw_clock v)"

abbreviation instant :: "view \<Rightarrow> string option \<Rightarrow> int option" where
  "instant v lease \<equiv> parse_lease_deadline (vw_clock v) lease"

lemma lease_instant_eq: "lease_instant clk row = parse_lease_deadline clk (rr_lease_expires_at row)"
  by (simp add: lease_instant_def parse_lease_deadline_def)

text \<open>A deployment with leases, whose dates are read back as they were written.\<close>

definition clock_ok :: "manager_config \<Rightarrow> clock \<Rightarrow> bool" where
  "clock_ok c clk \<longleftrightarrow> (\<forall>t. parse_lease_deadline clk (Some (mc_iso c t)) = Some t)"

definition config_ok :: "manager_config \<Rightarrow> bool" where
  "config_ok c \<longleftrightarrow> mc_store c \<and> heartbeat_enabled c \<and> 0 \<le> grace_of c \<and> 0 \<le> span c"

text \<open>Facts about rows that stay true.\<close>

definition present :: "string \<Rightarrow> view \<Rightarrow> bool" where
  "present i v \<longleftrightarrow> i \<notin> vw_new v \<and> row_of v i \<noteq> None"

definition leased :: "string \<Rightarrow> string \<Rightarrow> int \<Rightarrow> view \<Rightarrow> bool" where
  "leased w i t v \<longleftrightarrow> (now v \<le> t \<longrightarrow> (\<exists>row t'. row_of v i = Some row \<and> rr_owner_worker_id row = Some w
     \<and> instant v (rr_lease_expires_at row) = Some t' \<and> t \<le> t'))"

definition stored_as :: "string \<Rightarrow> run_row \<Rightarrow> bool" where
  "stored_as status row \<longleftrightarrow>
     (if status = ''interrupted'' then rr_status row \<in> {''interrupted'', ''error''} else rr_status row = status \<and> settled row)"

definition acked :: "string \<Rightarrow> string \<Rightarrow> view \<Rightarrow> bool" where
  "acked i status v \<longleftrightarrow> i \<notin> vw_new v \<and> (\<exists>row. row_of v i = Some row \<and> stored_as status row)"

text \<open>No live lease of the worker's own run exceeds the one that a renewal in flight would grant.\<close>

definition row_bound :: "string \<Rightarrow> string \<Rightarrow> int \<Rightarrow> view \<Rightarrow> bool" where
  "row_bound w i t v \<longleftrightarrow> (\<forall>row t'. row_of v i = Some row \<longrightarrow> rr_owner_worker_id row = Some w
     \<longrightarrow> instant v (rr_lease_expires_at row) = Some t' \<longrightarrow> now v \<le> t' \<longrightarrow> t' \<le> t)"

section \<open>The invariant of a manager\<close>

definition record_ok :: "manager_config \<Rightarrow> view \<Rightarrow> string \<Rightarrow> run_record \<Rightarrow> bool" where
  "record_ok c v i rc \<longleftrightarrow> rc_run_id rc = i \<and> rc_owner rc = Some (mc_worker c) \<and> present i v
     \<and> (\<forall>p. rc_proof rc = Some p \<longrightarrow> acked i (to_status p) v)
     \<and> (\<forall>t. instant v (rc_lease rc) = Some t \<longrightarrow> leased (mc_worker c) i t v)"

definition operation_ok :: "manager_config \<Rightarrow> view \<Rightarrow> string \<Rightarrow> pending_renewal \<Rightarrow> bool" where
  "operation_ok c v i rn \<longleftrightarrow> rn_run_id rn = i \<and> rn_result rn = None \<and> present i v
     \<and> (\<exists>t. instant v (Some (rn_expiry rn)) = Some t \<and> t \<le> now v + span c \<and> row_bound (mc_worker c) i t v)"

definition future_ok :: "manager_config \<Rightarrow> view \<Rightarrow> pending_renewal \<Rightarrow> bool" where
  "future_ok c v rn \<longleftrightarrow> (\<forall>l. rn_result rn = Some (Inr l) \<longrightarrow> lr_renewed l
     \<longrightarrow> present (rn_run_id rn) v \<and> (\<exists>t. instant v (Some (rn_expiry rn)) = Some t \<and> leased (mc_worker c) (rn_run_id rn) t v))"

definition store_within :: "manager_config \<Rightarrow> view \<Rightarrow> bool" where
  "store_within c v \<longleftrightarrow> store_ok (vw_store v)
     \<and> (\<forall>i row t. row_of v i = Some row \<longrightarrow> instant v (rr_lease_expires_at row) = Some t \<longrightarrow> t \<le> now v + span c)"

definition registry_within :: "manager_config \<Rightarrow> view \<Rightarrow> bool" where
  "registry_within c v \<longleftrightarrow> (let m = vw_manager v in od_wf (mg_runs m)
     \<and> (\<forall>i r. od_get (mg_runs m) i = Some r \<longrightarrow> r < mg_next m \<and> record_ok c v i (mg_heap m r))
     \<and> (\<forall>r < mg_next m. \<not> rc_store_only (mg_heap m r)))"

definition renewals_within :: "manager_config \<Rightarrow> view \<Rightarrow> bool" where
  "renewals_within c v \<longleftrightarrow> (let m = vw_manager v in
     (\<forall>i f. mg_operations m i = Some f \<longrightarrow> f < mg_next_future m \<and> operation_ok c v i (mg_futures m f))
     \<and> (\<forall>f. future_ok c v (mg_futures m f)) \<and> (\<forall>f \<ge> mg_next_future m. rn_result (mg_futures m f) = None))"

definition manager_ok :: "manager_config \<Rightarrow> view \<Rightarrow> bool" where
  "manager_ok c v \<longleftrightarrow> clock_ok c (vw_clock v) \<and> store_within c v \<and> registry_within c v \<and> renewals_within c v"

lemmas manager_parts = manager_ok_def registry_within_def renewals_within_def Let_def

text \<open>The resources of a task are in use.\<close>

definition fits :: "manager_config \<Rightarrow> resource set \<Rightarrow> view \<Rightarrow> bool" where
  "fits c R v \<longleftrightarrow> manager_ok c v \<and> (\<forall>i. NewRun i \<in> R \<longrightarrow> i \<in> vw_new v)
     \<and> (\<forall>f. Future f \<in> R \<longrightarrow> f < mg_next_future (vw_manager v))"

lemma fitsD: "fits c R v \<Longrightarrow> manager_ok c v"
  by (simp add: fits_def)

section \<open>What others do\<close>

text \<open>One change of a row by a worker: kept, or its own lease prolonged.\<close>

definition evolves :: "string \<Rightarrow> clock \<Rightarrow> run_row \<Rightarrow> run_row \<Rightarrow> bool" where
  "evolves u clk row row' \<longleftrightarrow> keeps u clk row row' \<or> (\<exists>lease t t'. renews u clk lease row row'
     \<and> lease_instant clk row = Some t \<and> lease_instant clk row' = Some t' \<and> t \<le> t')"

definition row_rely :: "view \<Rightarrow> run_store \<Rightarrow> string \<Rightarrow> bool" where
  "row_rely v s' i \<longleftrightarrow> (case row_of v i of None \<Rightarrow> od_get (st_runs s') i = None
     | Some row \<Rightarrow> \<exists>row' u. od_get (st_runs s') i = Some row' \<and> evolves u (vw_clock v) row row')"

definition rows_rely :: "resource set \<Rightarrow> view \<Rightarrow> view \<Rightarrow> bool" where
  "rows_rely R v v' \<longleftrightarrow> clk_parse (vw_clock v') = clk_parse (vw_clock v) \<and> now v \<le> now v'
     \<and> (\<forall>i. i \<notin> vw_new v \<or> NewRun i \<in> R \<longrightarrow> row_rely v (vw_store v') i)
     \<and> (\<forall>i. i \<notin> vw_new v \<longrightarrow> row_of v i \<noteq> None \<longrightarrow> i \<notin> vw_new v')"

text \<open>A record keeps its identity; once fenced it stays fenced, and is neither acknowledged nor leased again.\<close>

definition record_step :: "run_record \<Rightarrow> run_record \<Rightarrow> bool" where
  "record_step a b \<longleftrightarrow> rc_run_id b = rc_run_id a \<and> rc_thread_id b = rc_thread_id a \<and> rc_owner b = rc_owner a
     \<and> (rc_lost a \<longrightarrow> rc_lost b \<and> rc_proof b = rc_proof a \<and> rc_lease b = rc_lease a)"

definition runs_rely :: "resource set \<Rightarrow> manager \<Rightarrow> manager \<Rightarrow> bool" where
  "runs_rely R m m' \<longleftrightarrow> (\<forall>i r. NewRun i \<in> R \<longrightarrow> od_get (mg_runs m') i = Some r \<longrightarrow> od_get (mg_runs m) i = Some r)"

definition operations_rely :: "resource set \<Rightarrow> manager \<Rightarrow> manager \<Rightarrow> bool" where
  "operations_rely R m m' \<longleftrightarrow>
     (\<forall>i f. Key (SnapshotLock i) \<in> R \<longrightarrow> mg_operations m' i = Some f \<longrightarrow> mg_operations m i = Some f)
     \<and> (\<forall>i f. Future f \<in> R \<longrightarrow> mg_operations m i = Some f \<longrightarrow> mg_operations m' i = Some f)"

definition same_future :: "bool \<Rightarrow> pending_renewal \<Rightarrow> pending_renewal \<Rightarrow> bool" where
  "same_future owned a b \<longleftrightarrow> rn_run_id b = rn_run_id a \<and> rn_expiry b = rn_expiry a
     \<and> (owned \<or> rn_result a \<noteq> None \<longrightarrow> rn_result b = rn_result a)"

definition futures_rely :: "resource set \<Rightarrow> manager \<Rightarrow> manager \<Rightarrow> bool" where
  "futures_rely R m m' \<longleftrightarrow> mg_next_future m \<le> mg_next_future m'
     \<and> (\<forall>f < mg_next_future m. same_future (Future f \<in> R) (mg_futures m f) (mg_futures m' f))"

text \<open>The record of a run that is being created belongs to the task that creates it.\<close>

definition records_rely :: "resource set \<Rightarrow> manager \<Rightarrow> manager \<Rightarrow> bool" where
  "records_rely R m m' \<longleftrightarrow> mg_next m \<le> mg_next m' \<and> (\<forall>r < mg_next m. record_step (mg_heap m r) (mg_heap m' r)
     \<and> (NewRun (rc_run_id (mg_heap m r)) \<in> R
          \<longrightarrow> rc_proof (mg_heap m' r) = rc_proof (mg_heap m r) \<and> rc_lease (mg_heap m' r) = rc_lease (mg_heap m r)))"

definition manager_rely :: "resource set \<Rightarrow> manager \<Rightarrow> manager \<Rightarrow> bool" where
  "manager_rely R m m' \<longleftrightarrow> records_rely R m m'
     \<and> runs_rely R m m' \<and> operations_rely R m m' \<and> futures_rely R m m'"

definition rely :: "resource set \<Rightarrow> view \<Rightarrow> view \<Rightarrow> bool" where
  "rely R v v' \<longleftrightarrow> rows_rely R v v' \<and> manager_rely R (vw_manager v) (vw_manager v')"

lemmas manager_rely_parts = manager_rely_def records_rely_def runs_rely_def operations_rely_def futures_rely_def

lemma record_step_refl [simp]: "record_step a a"
  by (simp add: record_step_def)

lemma same_future_refl [simp]: "same_future b a a"
  by (simp add: same_future_def)

lemma manager_rely_refl [simp]: "manager_rely R m m"
  by (simp add: manager_rely_parts)

lemma evolves_refl [simp]: "evolves u clk row row"
  by (simp add: evolves_def)

lemma row_rely_refl [simp]: "row_rely v (vw_store v) i"
  by (auto simp: row_rely_def intro: evolves_refl split: option.split)

lemma rows_rely_refl [simp]: "rows_rely R v v"
  by (simp add: rows_rely_def)

lemma same_future_mono: "same_future b x y \<Longrightarrow> (b' \<longrightarrow> b) \<Longrightarrow> same_future b' x y"
  by (auto simp: same_future_def)

lemma futures_rely_mono:
  assumes "futures_rely R m m'" "R' \<subseteq> R"
  shows "futures_rely R' m m'"
  unfolding futures_rely_def
proof (intro conjI allI impI)
  show "mg_next_future m \<le> mg_next_future m'" using assms(1) by (simp add: futures_rely_def)
  fix f assume "f < mg_next_future m"
  then have "same_future (Future f \<in> R) (mg_futures m f) (mg_futures m' f)" using assms(1) by (simp add: futures_rely_def)
  then show "same_future (Future f \<in> R') (mg_futures m f) (mg_futures m' f)"
    by (rule same_future_mono) (use assms(2) in blast)
qed

lemma runs_rely_mono: "runs_rely R m m' \<Longrightarrow> R' \<subseteq> R \<Longrightarrow> runs_rely R' m m'"
  unfolding runs_rely_def by (meson subsetD)

lemma operations_rely_mono: "operations_rely R m m' \<Longrightarrow> R' \<subseteq> R \<Longrightarrow> operations_rely R' m m'"
  unfolding operations_rely_def by (meson subsetD)

lemma records_rely_mono: "records_rely R m m' \<Longrightarrow> R' \<subseteq> R \<Longrightarrow> records_rely R' m m'"
  unfolding records_rely_def by (meson subsetD)

lemma manager_rely_mono: "manager_rely R m m' \<Longrightarrow> R' \<subseteq> R \<Longrightarrow> manager_rely R' m m'"
  unfolding manager_rely_def by (meson records_rely_mono futures_rely_mono runs_rely_mono operations_rely_mono)

lemma rows_rely_mono: "rows_rely R v v' \<Longrightarrow> R' \<subseteq> R \<Longrightarrow> rows_rely R' v v'"
  unfolding rows_rely_def by (meson subsetD)

lemma rely_mono: "rely R v v' \<Longrightarrow> R' \<subseteq> R \<Longrightarrow> rely R' v v'"
  unfolding rely_def by (meson manager_rely_mono rows_rely_mono)

section \<open>Stable facts\<close>

definition lasting :: "manager_config \<Rightarrow> resource set \<Rightarrow> (view \<Rightarrow> bool) \<Rightarrow> bool" where
  "lasting c R P \<longleftrightarrow> (\<forall>v v'. fits c R v \<longrightarrow> fits c R v' \<longrightarrow> P v \<longrightarrow> rely R v v' \<longrightarrow> P v')"

named_theorems lasting_intros

lemma lastingI: "(\<And>v v'. fits c R v \<Longrightarrow> fits c R v' \<Longrightarrow> P v \<Longrightarrow> rely R v v' \<Longrightarrow> P v') \<Longrightarrow> lasting c R P"
  unfolding lasting_def by (intro allI impI)

lemma lastingD: "lasting c R P \<Longrightarrow> fits c R v \<Longrightarrow> fits c R v' \<Longrightarrow> P v \<Longrightarrow> rely R v v' \<Longrightarrow> P v'"
  unfolding lasting_def by (elim allE impE)

lemma fits_mono: "fits c R v \<Longrightarrow> R' \<subseteq> R \<Longrightarrow> fits c R' v"
  unfolding fits_def by (meson subsetD)

lemma lasting_mono: "lasting c R P \<Longrightarrow> R \<subseteq> R' \<Longrightarrow> lasting c R' P"
  unfolding lasting_def by (meson rely_mono fits_mono)

lemma lasting_insert [lasting_intros]: "lasting c R P \<Longrightarrow> lasting c (insert x R) P"
  by (rule lasting_mono) auto

lemma lasting_Un [lasting_intros]: "lasting c R P \<Longrightarrow> lasting c (K \<union> R) P"
  by (rule lasting_mono) auto

lemma lasting_const [lasting_intros]: "lasting c R (\<lambda>_. b)"
  by (rule lastingI)

lemma lasting_conj [lasting_intros]: "lasting c R P \<Longrightarrow> lasting c R Q \<Longrightarrow> lasting c R (\<lambda>v. P v \<and> Q v)"
  by (rule lastingI) (elim conjE, intro conjI; erule (4) lastingD)

lemma lasting_imp [lasting_intros]: "(b \<Longrightarrow> lasting c R P) \<Longrightarrow> lasting c R (\<lambda>v. b \<longrightarrow> P v)"
  by (rule lastingI, rule impI, rule lastingD) blast+

lemma lasting_all [lasting_intros]: "(\<And>x. lasting c R (P x)) \<Longrightarrow> lasting c R (\<lambda>v. \<forall>x. P x v)"
  by (rule lastingI, rule allI, rule lastingD) blast+

lemma evolves_outcome: "evolves u clk row row' \<Longrightarrow> keeps_outcome row row'"
  by (auto simp: evolves_def keeps_def renews_def keeps_outcome_def)

lemma evolves_lease:
  assumes "evolves u clk row row'" "lease_instant clk row = Some t" "clk_now clk \<le> t"
  shows "rr_owner_worker_id row' = rr_owner_worker_id row \<and> (\<exists>t'. lease_instant clk row' = Some t' \<and> t \<le> t')"
proof -
  have "alive clk row" using assms(2,3) by (auto simp: alive_def)
  then show ?thesis
    using assms(1,2) by (auto simp: evolves_def keeps_def renews_def lease_instant_def)
qed

lemma instant_rely: "rows_rely R v v' \<Longrightarrow> instant v' l = instant v l"
  by (simp add: rows_rely_def parse_lease_deadline_def)

lemma row_rely_of: "rows_rely R v v' \<Longrightarrow> i \<notin> vw_new v \<or> NewRun i \<in> R \<Longrightarrow> row_rely v (vw_store v') i"
  unfolding rows_rely_def by blast

lemma row_relyD:
  assumes "row_rely v s' i" "row_of v i = Some row"
  obtains row' u where "od_get (st_runs s') i = Some row'" "evolves u (vw_clock v) row row'"
  using assms by (auto simp: row_rely_def)

lemma leased_rely:
  assumes l: "leased w i t v" and i: "i \<notin> vw_new v \<or> NewRun i \<in> R" and rel: "rows_rely R v v'"
  shows "leased w i t v'"
  unfolding leased_def
proof
  assume "now v' \<le> t"
  then have "now v \<le> t" using rel by (simp add: rows_rely_def)
  then obtain row t' where row: "row_of v i = Some row" "rr_owner_worker_id row = Some w"
    "instant v (rr_lease_expires_at row) = Some t'" "t \<le> t'" using l by (auto simp: leased_def)
  obtain row' u where row': "row_of v' i = Some row'" "evolves u (vw_clock v) row row'"
    using row_relyD [OF row_rely_of [OF rel i] row(1)] by blast
  obtain t'' where "rr_owner_worker_id row' = rr_owner_worker_id row" "lease_instant (vw_clock v) row' = Some t''" "t' \<le> t''"
    using evolves_lease [OF row'(2), of t'] row(3,4) \<open>now v \<le> t\<close> by (auto simp: lease_instant_eq)
  then show "\<exists>row t'. row_of v' i = Some row \<and> rr_owner_worker_id row = Some w
      \<and> instant v' (rr_lease_expires_at row) = Some t' \<and> t \<le> t'"
    using row row'(1) instant_rely [OF rel] by (simp add: lease_instant_eq)
qed

lemma present_rely:
  assumes p: "present i v" and rel: "rows_rely R v v'"
  shows "present i v'"
proof -
  obtain row where row: "i \<notin> vw_new v" "row_of v i = Some row" using p by (auto simp: present_def)
  obtain row' where "row_of v' i = Some row'" using row_relyD [OF row_rely_of [OF rel, of i] row(2)] row(1) by blast
  moreover have "i \<notin> vw_new v'" using rel row unfolding rows_rely_def by simp
  ultimately show ?thesis by (simp add: present_def)
qed

lemma acked_present: "acked i st v \<Longrightarrow> present i v"
  by (auto simp: acked_def present_def)

lemma stored_as_kept: "stored_as st row \<Longrightarrow> keeps_outcome row row' \<Longrightarrow> stored_as st row'"
  by (auto simp: stored_as_def keeps_outcome_def settled_def split: if_splits)

lemma acked_rely:
  assumes a: "acked i st v" and rel: "rows_rely R v v'"
  shows "acked i st v'"
proof -
  obtain row where row: "i \<notin> vw_new v" "row_of v i = Some row" "stored_as st row" using a by (auto simp: acked_def)
  obtain row' u where row': "row_of v' i = Some row'" "evolves u (vw_clock v) row row'"
    using row_relyD [OF row_rely_of [OF rel, of i] row(2)] row(1) by blast
  have "present i v'" using present_rely [OF acked_present [OF a] rel] .
  then show ?thesis
    using stored_as_kept [OF row(3) evolves_outcome [OF row'(2)]] row'(1) by (simp add: acked_def present_def)
qed

lemma rely_rows: "rely R v v' \<Longrightarrow> rows_rely R v v'"
  by (simp add: rely_def)

definition known :: "nat \<Rightarrow> view \<Rightarrow> bool" where
  "known r v \<longleftrightarrow> r < mg_next (vw_manager v)"

lemma lasting_known [lasting_intros]: "lasting c R (known r)"
  by (rule lastingI) (simp add: known_def rely_def manager_rely_def records_rely_def)

lemma lasting_present [lasting_intros]: "lasting c R (present i)"
  by (rule lastingI) (blast intro: present_rely dest: rely_rows)

lemma lasting_acked [lasting_intros]: "lasting c R (acked i st)"
  by (rule lastingI) (blast intro: acked_rely dest: rely_rows)

lemma lasting_leased [lasting_intros]: "NewRun i \<in> R \<Longrightarrow> lasting c R (leased w i t)"
  by (rule lastingI) (blast intro: leased_rely dest: rely_rows)

lemma lasting_leased_present [lasting_intros]: "lasting c R (\<lambda>v. present i v \<and> leased w i t v)"
proof (rule lastingI, intro conjI)
  fix v v' assume v: "present i v \<and> leased w i t v" "rely R v v'"
  show "present i v'" using present_rely rely_rows [OF v(2)] v(1) by blast
  show "leased w i t v'" by (rule leased_rely [OF _ _ rely_rows [OF v(2)]]) (use v(1) in \<open>simp_all add: present_def\<close>)
qed

definition run_id_is :: "nat \<Rightarrow> string \<Rightarrow> view \<Rightarrow> bool" where
  "run_id_is r i v \<longleftrightarrow> known r v \<and> rc_run_id (rec_of v r) = i"

lemma lasting_run_id_is [lasting_intros]: "lasting c R (run_id_is r i)"
  by (rule lastingI) (simp add: run_id_is_def known_def rely_def manager_rely_def records_rely_def record_step_def)

text \<open>A record of a run that has been created.\<close>

definition held :: "nat \<Rightarrow> view \<Rightarrow> bool" where
  "held r v \<longleftrightarrow> known r v \<and> present (rc_run_id (rec_of v r)) v"

lemma lasting_held [lasting_intros]: "lasting c R (held r)"
proof (rule lastingI)
  fix v v' assume "held r v" "rely R v v'"
  then show "held r v'" using present_rely [of "rc_run_id (rec_of v r)" v R v']
    by (simp add: held_def known_def rely_def manager_rely_def records_rely_def record_step_def)
qed

lemma held_registered: "manager_ok c v \<Longrightarrow> run_of v i = Some r \<Longrightarrow> held r v \<and> run_id_is r i v"
  by (simp add: manager_parts held_def run_id_is_def known_def record_ok_def)

section \<open>A run that is being created\<close>

text \<open>Its record as it was allocated, the thread of its row, and the lease that its row was given.\<close>

definition fresh :: "nat \<Rightarrow> string \<Rightarrow> string option \<Rightarrow> string \<Rightarrow> view \<Rightarrow> bool" where
  "fresh r i lease w v \<longleftrightarrow> known r v \<and> rc_run_id (rec_of v r) = i \<and> rc_owner (rec_of v r) = Some w
     \<and> rc_proof (rec_of v r) = None \<and> rc_lease (rec_of v r) = lease"

definition thread_is :: "string \<Rightarrow> string \<Rightarrow> view \<Rightarrow> bool" where
  "thread_is i t v \<longleftrightarrow> (\<forall>row. row_of v i = Some row \<longrightarrow> rr_thread_id row = t)"

definition created :: "string \<Rightarrow> string \<Rightarrow> string option \<Rightarrow> view \<Rightarrow> bool" where
  "created w i lease v \<longleftrightarrow> row_of v i \<noteq> None \<and> (\<forall>t. instant v lease = Some t \<longrightarrow> leased w i t v)"

definition granted :: "manager_config \<Rightarrow> string option \<Rightarrow> view \<Rightarrow> bool" where
  "granted c lease v \<longleftrightarrow> (\<exists>t. instant v lease = Some t \<and> t \<le> now v + span c)"

lemma lasting_fresh [lasting_intros]: "NewRun i \<in> R \<Longrightarrow> lasting c R (fresh r i lease w)"
  by (rule lastingI) (simp add: fresh_def known_def rely_def manager_rely_def records_rely_def record_step_def)

lemma lasting_granted [lasting_intros]: "lasting c R (granted d lease)"
proof (rule lastingI)
  fix v v' assume "granted d lease v" "rely R v v'"
  then show "granted d lease v'" using instant_rely [OF rely_rows] by (fastforce simp: granted_def rely_def rows_rely_def)
qed

lemma lasting_thread_is [lasting_intros]:
  assumes "NewRun i \<in> R"
  shows "lasting c R (thread_is i t)"
proof (rule lastingI)
  fix v v' assume t: "thread_is i t v" and rel: "rely R v v'"
  have r: "row_rely v (vw_store v') i" using row_rely_of [OF rely_rows [OF rel]] assms by blast
  show "thread_is i t v'"
  proof (cases "row_of v i")
    case None
    then show ?thesis using r by (simp add: row_rely_def thread_is_def)
  next
    case (Some row)
    obtain row' u where "row_of v' i = Some row'" "evolves u (vw_clock v) row row'" using row_relyD [OF r Some] by blast
    then show ?thesis using t Some evolves_outcome by (fastforce simp: thread_is_def keeps_outcome_def)
  qed
qed

lemma lasting_created [lasting_intros]:
  assumes "NewRun i \<in> R"
  shows "lasting c R (created w i lease)"
proof (rule lastingI)
  fix v v' assume t: "created w i lease v" and rel: "rely R v v'"
  obtain row where row: "row_of v i = Some row" using t by (auto simp: created_def)
  have "row_rely v (vw_store v') i" using row_rely_of [OF rely_rows [OF rel]] assms by blast
  then have "row_of v' i \<noteq> None" using row by (auto simp: row_rely_def)
  moreover have "leased w i t v'" if "instant v' lease = Some t" for t
  proof (rule leased_rely [OF _ _ rely_rows [OF rel]])
    have "instant v lease = Some t" using that instant_rely [OF rely_rows [OF rel]] by simp
    then show "leased w i t v" using \<open>created w i lease v\<close> by (simp add: created_def)
  qed (use assms in simp)
  ultimately show "created w i lease v'" by (simp add: created_def)
qed

lemma lasting_ex [lasting_intros]:
  assumes P: "\<And>x. lasting c R (P x)"
  shows "lasting c R (\<lambda>v. \<exists>x. P x v)"
proof (rule lastingI)
  fix v v' assume v: "fits c R v" "fits c R v'" "\<exists>x. P x v" "rely R v v'"
  then obtain x where "P x v" by blast
  then have "P x v'" by (rule lastingD [OF P v(1,2) _ v(4)])
  then show "\<exists>x. P x v'" by blast
qed

text \<open>Candidates for replacement, and what a transaction that claimed rows says of them.\<close>

definition candidate :: "string \<Rightarrow> nat \<Rightarrow> view \<Rightarrow> bool" where
  "candidate i r v \<longleftrightarrow> held r v \<and> rc_run_id (rec_of v r) \<noteq> i"

definition claims_hold :: "nat \<Rightarrow> run_row list \<Rightarrow> view \<Rightarrow> bool" where
  "claims_hold r claims v \<longleftrightarrow> known r v \<and> (\<forall>row \<in> set claims. rr_run_id row = rc_run_id (rec_of v r)
     \<longrightarrow> acked (rr_run_id row) ''interrupted'' v)"

lemma lasting_candidate_run [lasting_intros]: "lasting c R (candidate i r)"
proof (rule lastingI)
  fix v v' assume v: "fits c R v" "fits c R v'" "candidate i r v" "rely R v v'"
  have "held r v'" by (rule lastingD [OF lasting_held v(1,2) _ v(4)]) (use v(3) in \<open>simp add: candidate_def\<close>)
  then show "candidate i r v'"
    using v(3,4) by (simp add: candidate_def held_def known_def rely_def manager_rely_def records_rely_def record_step_def)
qed

lemma lasting_claims [lasting_intros]: "lasting c R (claims_hold r claims)"
proof (rule lastingI)
  fix v v' assume v: "claims_hold r claims v" "rely R v v'"
  have "rc_run_id (rec_of v' r) = rc_run_id (rec_of v r)" "known r v'"
    using v by (simp_all add: claims_hold_def known_def rely_def manager_rely_def records_rely_def record_step_def)
  then show "claims_hold r claims v'" using v acked_rely [OF _ rely_rows [OF v(2)]] by (simp add: claims_hold_def)
qed

end
