(* ===== verification/ManagerSound.thy ===== *)
theory ManagerSound
  imports ManagerRely
begin

text \<open>
  What a program of a run manager guarantees at each step, and the rules that derive it for the combinators
  of which the methods are made.
\<close>

section \<open>Guarantees\<close>

text \<open>To every task that shares no resource.\<close>

definition guarantees :: "resource set \<Rightarrow> view \<Rightarrow> manager \<Rightarrow> bool" where
  "guarantees R v m' \<longleftrightarrow> (\<forall>R'. R' \<inter> R = {} \<longrightarrow> (\<forall>i. NewRun i \<in> R' \<longrightarrow> i \<in> vw_new v) \<longrightarrow> manager_rely R' (vw_manager v) m')"

definition after_section :: "resource set \<Rightarrow> resource set \<Rightarrow> manager \<Rightarrow> view \<Rightarrow> view" where
  "after_section R R' m' v = v\<lparr>vw_manager := m', vw_new := vw_new v - {i. NewRun i \<in> R \<and> NewRun i \<notin> R'}\<rparr>"

text \<open>A section may create futures and may give up resources, but not the locks.\<close>

definition moves :: "manager_config \<Rightarrow> resource set \<Rightarrow> resource set \<Rightarrow> view \<Rightarrow> manager \<Rightarrow> bool" where
  "moves c R R' v m' \<longleftrightarrow> guarantees R v m'
     \<and> R' \<subseteq> R \<union> Future ` {mg_next_future (vw_manager v) ..< mg_next_future m'}
     \<and> (\<forall>key. Key key \<in> R \<longrightarrow> Key key \<in> R') \<and> fits c R' (after_section R R' m' v)"

definition row_moves :: "string \<Rightarrow> view \<Rightarrow> run_store \<Rightarrow> string \<Rightarrow> bool" where
  "row_moves u v s' i \<longleftrightarrow> (case row_of v i of None \<Rightarrow> od_get (st_runs s') i = None
     | Some row \<Rightarrow> \<exists>row'. od_get (st_runs s') i = Some row' \<and> evolves u (vw_clock v) row row')"

definition store_moves :: "manager_config \<Rightarrow> resource set \<Rightarrow> view \<Rightarrow> run_store \<Rightarrow> bool" where
  "store_moves c R v s' \<longleftrightarrow> (\<forall>i. NewRun i \<notin> R \<longrightarrow> row_moves (mc_worker c) v s' i) \<and> manager_ok c (v\<lparr>vw_store := s'\<rparr>)"

text \<open>\<open>good\<close> speaks of a program that stands where a lasting fact holds, \<open>sound\<close> of one that arrives where some fact holds.\<close>

definition yields :: "manager_config \<Rightarrow> resource set \<Rightarrow> (view \<Rightarrow> bool) \<Rightarrow> resource set \<Rightarrow> (view \<Rightarrow> bool) \<Rightarrow> bool" where
  "yields c R Q R' P \<longleftrightarrow> (\<forall>v. fits c R v \<longrightarrow> Q v \<longrightarrow> P v) \<and> lasting c R' P"

primrec good :: "mprog \<Rightarrow> manager_config \<Rightarrow> resource set \<Rightarrow> (view \<Rightarrow> bool) \<Rightarrow> bool" where
  "good (Finish x) c R Q \<longleftrightarrow> True"
| "good (Section f k) c R Q \<longleftrightarrow> (\<forall>v. fits c R v \<longrightarrow> Q v \<longrightarrow> (\<exists>R' P. moves c R R' v (f (vw_clock v) (vw_manager v))
     \<and> P (after_section R R' (f (vw_clock v) (vw_manager v)) v) \<and> lasting c R' P \<and> good (k (vw_clock v) (vw_manager v)) c R' P))"
| "good (Ask f k) c R Q \<longleftrightarrow> (\<exists>P0. yields c R Q R P0 \<and> (\<forall>a. (\<forall>x. a \<noteq> Answer x) \<longrightarrow> (\<exists>P. yields c R P0 R P \<and> good (k a) c R P))
     \<and> (\<forall>v. fits c R v \<longrightarrow> Q v \<longrightarrow> (\<exists>P. case f (vw_clock v) (vw_store v) of (a, s') \<Rightarrow> store_moves c R v s'
          \<and> P0 (v\<lparr>vw_store := s'\<rparr>) \<and> P (v\<lparr>vw_store := s'\<rparr>) \<and> lasting c R P \<and> good (k (Answer a)) c R P)))"
| "good (Await g k p) c R Q \<longleftrightarrow> (\<forall>v m'. fits c R v \<longrightarrow> Q v \<longrightarrow> g (vw_clock v) (vw_manager v) = Some m' \<longrightarrow> (\<exists>R' P.
        moves c R R' v m' \<and> P (after_section R R' m' v) \<and> lasting c R' P \<and> good (k (vw_clock v) (vw_manager v)) c R' P))
     \<and> (\<exists>P. yields c R Q R P \<and> good p c R P)"
| "good (Hold key p q) c R Q \<longleftrightarrow> Key key \<notin> R \<and> (\<exists>P. yields c R Q (insert (Key key) R) P \<and> good p c (insert (Key key) R) P)
     \<and> (\<exists>P. yields c R Q R P \<and> good q c R P)"
| "good (Free key p) c R Q \<longleftrightarrow> Key key \<in> R \<and> (\<exists>P. yields c R Q (R - {Key key}) P \<and> good p c (R - {Key key}) P)"
| "good (Spawn p q) c R Q \<longleftrightarrow> (\<exists>F. F \<subseteq> R \<inter> range Future \<and> (\<exists>P. yields c R Q F P \<and> good p c F P)
     \<and> (\<exists>P. yields c R Q (R - F) P \<and> good q c (R - F) P))"

definition sound :: "mprog \<Rightarrow> manager_config \<Rightarrow> resource set \<Rightarrow> (view \<Rightarrow> bool) \<Rightarrow> bool" where
  "sound p c R P \<longleftrightarrow> (\<exists>Q. yields c R P R Q \<and> good p c R Q)"

lemma soundI: "lasting c R P \<Longrightarrow> good p c R P \<Longrightarrow> sound p c R P"
  unfolding sound_def yields_def by blast

lemma soundE:
  assumes "sound p c R P" "fits c R v" "P v"
  obtains Q where "Q v" "lasting c R Q" "good p c R Q"
  using assms unfolding sound_def yields_def by blast

lemma sound_weaken:
  assumes "sound p c R P" "\<And>v. fits c R v \<Longrightarrow> P' v \<Longrightarrow> P v"
  shows "sound p c R P'"
  using assms unfolding sound_def yields_def by meson

lemma sound_Finish [simp, intro]: "sound (Finish x) c R P"
  by (rule sound_weaken [where P = "\<lambda>_. True"], rule soundI) (simp_all add: lasting_const)

lemma sound_if: "(b \<Longrightarrow> sound p c R P) \<Longrightarrow> (\<not> b \<Longrightarrow> sound q c R P) \<Longrightarrow> sound (if b then p else q) c R P"
  by simp

text \<open>The rules of the steps.\<close>

lemma sound_moved:
  assumes "moves c R R' v m'" "P (after_section R R' m' v)" "sound p c R' P"
  shows "\<exists>R' P. moves c R R' v m' \<and> P (after_section R R' m' v) \<and> lasting c R' P \<and> good p c R' P"
proof -
  have "fits c R' (after_section R R' m' v)" using assms(1) by (simp add: moves_def)
  from soundE [OF assms(3) this assms(2)] assms(1) show ?thesis by metis
qed

lemma sound_Section:
  assumes "lasting c R P"
    and "\<And>v. fits c R v \<Longrightarrow> P v \<Longrightarrow> \<exists>R' P'. moves c R R' v (f (vw_clock v) (vw_manager v))
      \<and> P' (after_section R R' (f (vw_clock v) (vw_manager v)) v) \<and> sound (k (vw_clock v) (vw_manager v)) c R' P'"
  shows "sound (Section f k) c R P"
proof (rule soundI [OF assms(1)], unfold good.simps, intro allI impI)
  fix v assume "fits c R v" "P v"
  then obtain R' P' where "moves c R R' v (f (vw_clock v) (vw_manager v))"
    "P' (after_section R R' (f (vw_clock v) (vw_manager v)) v)" "sound (k (vw_clock v) (vw_manager v)) c R' P'"
    using assms(2) by blast
  then show "\<exists>R' P. moves c R R' v (f (vw_clock v) (vw_manager v)) \<and> P (after_section R R' (f (vw_clock v) (vw_manager v)) v)
      \<and> lasting c R' P \<and> good (k (vw_clock v) (vw_manager v)) c R' P" by (rule sound_moved)
qed

lemma sound_Await:
  assumes "lasting c R P"
    and "\<And>v m'. fits c R v \<Longrightarrow> P v \<Longrightarrow> g (vw_clock v) (vw_manager v) = Some m' \<Longrightarrow> \<exists>R' P'. moves c R R' v m'
      \<and> P' (after_section R R' m' v) \<and> sound (k (vw_clock v) (vw_manager v)) c R' P'"
    and "sound p c R P"
  shows "sound (Await g k p) c R P"
proof (rule soundI [OF assms(1)], unfold good.simps, intro allI impI conjI)
  fix v m' assume "fits c R v" "P v" "g (vw_clock v) (vw_manager v) = Some m'"
  then obtain R' P' where "moves c R R' v m'" "P' (after_section R R' m' v)" "sound (k (vw_clock v) (vw_manager v)) c R' P'"
    using assms(2) by blast
  then show "\<exists>R' P. moves c R R' v m' \<and> P (after_section R R' m' v) \<and> lasting c R' P
      \<and> good (k (vw_clock v) (vw_manager v)) c R' P" by (rule sound_moved)
qed (use assms(3) in \<open>simp add: sound_def\<close>)

lemma sound_Ask:
  assumes "lasting c R P"
    and "\<And>v. fits c R v \<Longrightarrow> P v \<Longrightarrow> store_moves c R v (snd (f (vw_clock v) (vw_store v)))"
    and "\<And>v. fits c R v \<Longrightarrow> P v \<Longrightarrow> P0 v \<and> P0 (v\<lparr>vw_store := snd (f (vw_clock v) (vw_store v))\<rparr>)" "lasting c R P0"
    and "\<And>v. fits c R v \<Longrightarrow> P v \<Longrightarrow> \<exists>P'. P' (v\<lparr>vw_store := snd (f (vw_clock v) (vw_store v))\<rparr>)
      \<and> sound (k (Answer (fst (f (vw_clock v) (vw_store v))))) c R P'"
    and "\<And>a. (\<And>x. a \<noteq> Answer x) \<Longrightarrow> sound (k a) c R P0"
  shows "sound (Ask f k) c R P"
proof (rule soundI [OF assms(1)], unfold good.simps, rule exI [of _ P0], intro conjI allI impI)
  show "yields c R P R P0" using assms(3,4) by (simp add: yields_def)
  show "\<exists>P. yields c R P0 R P \<and> good (k a) c R P" if a: "\<forall>x. a \<noteq> Answer x" for a
    using assms(6) [of a] a unfolding sound_def by blast
  fix v assume v: "fits c R v" "P v"
  let ?s = "snd (f (vw_clock v) (vw_store v))"
  have fit: "fits c R (v\<lparr>vw_store := ?s\<rparr>)" using assms(2) [OF v] v(1) by (simp add: store_moves_def fits_def)
  obtain P' where P': "P' (v\<lparr>vw_store := ?s\<rparr>)" "sound (k (Answer (fst (f (vw_clock v) (vw_store v))))) c R P'"
    using assms(5) [OF v] by blast
  obtain P where "P (v\<lparr>vw_store := ?s\<rparr>)" "lasting c R P" "good (k (Answer (fst (f (vw_clock v) (vw_store v))))) c R P"
    using soundE [OF P'(2) fit P'(1)] .
  then show "\<exists>P. case f (vw_clock v) (vw_store v) of (a, s') \<Rightarrow> store_moves c R v s'
      \<and> P0 (v\<lparr>vw_store := s'\<rparr>) \<and> P (v\<lparr>vw_store := s'\<rparr>) \<and> lasting c R P \<and> good (k (Answer a)) c R P"
    using assms(2,3) [OF v] by (auto simp: case_prod_beta)
qed

lemma fits_Key [simp]: "fits c (insert (Key key) R) v = fits c R v" "fits c (R - {Key key}) v = fits c R v"
  by (auto simp: fits_def)

lemma sound_Hold:
  assumes "lasting c R P" "Key key \<notin> R" "sound p c (insert (Key key) R) P" "sound q c R P"
  shows "sound (Hold key p q) c R P"
  by (rule soundI [OF assms(1)]) (use assms(2-) in \<open>simp add: sound_def yields_def\<close>)

lemma sound_Free:
  assumes "lasting c R P" "Key key \<in> R" "sound p c (R - {Key key}) P"
  shows "sound (Free key p) c R P"
  by (rule soundI [OF assms(1)]) (use assms(2-) in \<open>simp add: sound_def yields_def\<close>)

lemma sound_Spawn:
  assumes "lasting c R P" "F \<subseteq> R \<inter> range Future" "sound p c F P" "sound q c (R - F) P"
  shows "sound (Spawn p q) c R P"
proof (rule soundI [OF assms(1)], unfold good.simps, rule exI [of _ F], intro conjI)
  obtain P1 P2 where P: "yields c F P F P1" "good p c F P1" "yields c (R - F) P (R - F) P2" "good q c (R - F) P2"
    using assms(3,4) by (auto simp: sound_def)
  have "F \<subseteq> R" using assms(2) by blast
  then have "yields c R P F P1" "yields c R P (R - F) P2"
    using P(1,3) fits_mono [of c R _ F] fits_mono [of c R _ "R - F"] by (auto simp: yields_def)
  then show "\<exists>P'. yields c R P F P' \<and> good p c F P'" "\<exists>P'. yields c R P (R - F) P' \<and> good q c (R - F) P'"
    using P(2,4) by blast+
qed (rule assms(2))

section \<open>Sections that keep the facts\<close>

definition record_mild :: "manager_config \<Rightarrow> view \<Rightarrow> run_record \<Rightarrow> run_record \<Rightarrow> bool" where
  "record_mild c v a b \<longleftrightarrow> record_step a b
     \<and> (rc_proof b = rc_proof a \<or> (\<exists>p. rc_proof b = Some p \<and> acked (rc_run_id a) (to_status p) v))
     \<and> (rc_lease b = rc_lease a \<or> present (rc_run_id a) v \<and> (\<exists>t. instant v (rc_lease b) = Some t \<and> leased (mc_worker c) (rc_run_id a) t v))"

text \<open>
  A mild section acknowledges or leases only what the store confirms, registers nothing, and leaves the
  renewals alone.
\<close>

definition mild :: "manager_config \<Rightarrow> view \<Rightarrow> manager \<Rightarrow> manager \<Rightarrow> bool" where
  "mild c v m m' \<longleftrightarrow> mg_next m \<le> mg_next m' \<and> (\<forall>r < mg_next m. record_mild c v (mg_heap m r) (mg_heap m' r))
     \<and> (\<forall>r < mg_next m'. rc_store_only (mg_heap m' r) \<longrightarrow> r < mg_next m \<and> rc_store_only (mg_heap m r))
     \<and> (\<forall>i r. od_get (mg_runs m') i = Some r \<longrightarrow> od_get (mg_runs m) i = Some r) \<and> (od_wf (mg_runs m) \<longrightarrow> od_wf (mg_runs m'))
     \<and> mg_operations m' = mg_operations m \<and> mg_futures m' = mg_futures m \<and> mg_next_future m \<le> mg_next_future m'"

lemma record_step_trans: "record_step a b \<Longrightarrow> record_step b d \<Longrightarrow> record_step a d"
  by (simp add: record_step_def)

lemma record_mild_trans: "record_mild c v a b \<Longrightarrow> record_mild c v b d \<Longrightarrow> record_mild c v a d"
  unfolding record_mild_def using record_step_trans [of a b d] by (auto simp: record_step_def)

lemma record_mild_refl [simp]: "record_mild c v a a"
  by (simp add: record_mild_def)

lemma mild_refl [simp]: "mild c v m m"
  by (simp add: mild_def)

lemma mild_trans:
  assumes "mild c v m m1" "mild c v m1 m2"
  shows "mild c v m m2"
proof -
  have "record_mild c v (mg_heap m r) (mg_heap m2 r)" if "r < mg_next m" for r
    using assms that record_mild_trans [of c v "mg_heap m r" "mg_heap m1 r"] by (simp add: mild_def)
  then show ?thesis using assms unfolding mild_def by fastforce
qed

lemma record_mild_kept:
  assumes "record_mild c v a b"
  shows "record_step a b" "rc_run_id a \<in> vw_new v \<Longrightarrow> rc_proof b = rc_proof a \<and> rc_lease b = rc_lease a"
  using assms by (auto simp: record_mild_def acked_def present_def)

lemma mild_rely:
  assumes mild: "mild c v (vw_manager v) m'" and R: "\<forall>i. NewRun i \<in> R \<longrightarrow> i \<in> vw_new v"
  shows "manager_rely R (vw_manager v) m'"
proof -
  have "records_rely R (vw_manager v) m'"
    using mild R record_mild_kept [of c v] by (simp add: records_rely_def mild_def)
  then show ?thesis using mild by (simp add: mild_def manager_rely_def runs_rely_def operations_rely_def futures_rely_def)
qed

lemma mild_guarantees: "mild c v (vw_manager v) m' \<Longrightarrow> guarantees R v m'"
  by (simp add: guarantees_def mild_rely)

text \<open>Facts about the rows do not depend on the manager.\<close>

lemma facts_update [simp]:
  "present i (v\<lparr>vw_manager := m\<rparr>) = present i v" "leased w i t (v\<lparr>vw_manager := m\<rparr>) = leased w i t v"
  "acked i st (v\<lparr>vw_manager := m\<rparr>) = acked i st v" "row_bound w i t (v\<lparr>vw_manager := m\<rparr>) = row_bound w i t v"
  "store_within c (v\<lparr>vw_manager := m\<rparr>) = store_within c v"
  by (simp_all add: present_def leased_def acked_def row_bound_def store_within_def)

lemma record_ok_update [simp]: "record_ok c (v\<lparr>vw_manager := m\<rparr>) i rc = record_ok c v i rc"
  "operation_ok c (v\<lparr>vw_manager := m\<rparr>) i rn = operation_ok c v i rn"
  "future_ok c (v\<lparr>vw_manager := m\<rparr>) rn = future_ok c v rn"
  by (simp_all add: record_ok_def operation_ok_def future_ok_def)

lemma record_mild_ok:
  assumes "record_ok c v i a" "record_mild c v a b"
  shows "record_ok c v i b"
  using assms by (auto simp: record_ok_def record_mild_def record_step_def)

lemma mild_ok:
  assumes ok: "manager_ok c v" and mild: "mild c v (vw_manager v) m'"
  shows "manager_ok c (v\<lparr>vw_manager := m'\<rparr>)"
proof -
  have "r < mg_next m' \<and> record_ok c v i (mg_heap m' r)" if "od_get (mg_runs m') i = Some r" for i r
  proof -
    have "run_of v i = Some r" using mild that by (simp add: mild_def)
    then have "r < mg_next (vw_manager v)" "record_ok c v i (rec_of v r)" using ok by (simp_all add: manager_parts)
    then show ?thesis using mild record_mild_ok [of c v i "rec_of v r"] by (simp add: mild_def)
  qed
  moreover have "\<not> rc_store_only (mg_heap m' r)" if "r < mg_next m'" for r
    using ok mild that by (auto simp: mild_def manager_parts)
  ultimately show ?thesis using ok mild unfolding manager_parts mild_def by fastforce
qed

lemma after_section_same [simp]: "after_section R R m' v = v\<lparr>vw_manager := m'\<rparr>"
  by (simp add: after_section_def)

lemma mild_moves:
  assumes "fits c R v" "mild c v (vw_manager v) m'"
  shows "moves c R R v m'"
  using assms mild_ok [of c v m'] mild_guarantees [OF assms(2)]
  by (auto simp: moves_def fits_def mild_def intro: less_le_trans)

lemma mild_lasting:
  assumes "lasting c R P" "fits c R v" "P v" "mild c v (vw_manager v) m'"
  shows "P (v\<lparr>vw_manager := m'\<rparr>)"
proof (rule lastingD [OF assms(1,2) _ assms(3)])
  show "fits c R (v\<lparr>vw_manager := m'\<rparr>)" using mild_moves [OF assms(2,4)] by (simp add: moves_def)
  show "rely R v (v\<lparr>vw_manager := m'\<rparr>)"
    using mild_rely [OF assms(4)] assms(2) by (simp add: rely_def fits_def rows_rely_def)
qed

text \<open>\<open>H\<close> is what is known of the value of a section, \<open>G\<close> what holds after it.\<close>

lemma sound_sect_at:
  assumes P: "lasting c R P"
    and mild: "\<And>v. fits c R v \<Longrightarrow> P v \<Longrightarrow> mild c v (vw_manager v) (snd (f (vw_clock v) (vw_manager v)))"
    and gain: "\<And>v. fits c R v \<Longrightarrow> P v \<Longrightarrow> H (fst (f (vw_clock v) (vw_manager v)))
      \<and> G (fst (f (vw_clock v) (vw_manager v))) (v\<lparr>vw_manager := snd (f (vw_clock v) (vw_manager v))\<rparr>)"
    and k: "\<And>x. H x \<Longrightarrow> sound (k x) c R (\<lambda>v. P v \<and> G x v)"
  shows "sound (sect f k) c R P"
  unfolding sect_def
proof (rule sound_Section [OF P])
  fix v assume v: "fits c R v" "P v"
  let ?v = "v\<lparr>vw_manager := snd (f (vw_clock v) (vw_manager v))\<rparr>"
  have "moves c R R v (snd (f (vw_clock v) (vw_manager v)))" by (rule mild_moves [OF v(1) mild [OF v]])
  moreover have "P ?v" by (rule mild_lasting [OF P v mild [OF v]])
  ultimately show "\<exists>R' P'. moves c R R' v (snd (f (vw_clock v) (vw_manager v)))
      \<and> P' (after_section R R' (snd (f (vw_clock v) (vw_manager v))) v)
      \<and> sound (k (fst (f (vw_clock v) (vw_manager v)))) c R' P'"
    using gain [OF v] k [of "fst (f (vw_clock v) (vw_manager v))"]
    by (intro exI [of _ R] exI [of _ "\<lambda>v'. P v' \<and> G (fst (f (vw_clock v) (vw_manager v))) v'"]) simp
qed

lemma sound_sect:
  assumes "lasting c R P"
    and "\<And>v. fits c R v \<Longrightarrow> P v \<Longrightarrow> mild c v (vw_manager v) (snd (f (vw_clock v) (vw_manager v)))"
    and "\<And>v. fits c R v \<Longrightarrow> P v \<Longrightarrow>
      G (fst (f (vw_clock v) (vw_manager v))) (v\<lparr>vw_manager := snd (f (vw_clock v) (vw_manager v))\<rparr>)"
    and "\<And>x. sound (k x) c R (\<lambda>v. P v \<and> G x v)"
  shows "sound (sect f k) c R P"
  by (rule sound_sect_at [where H = "\<lambda>_. True" and G = G]) (use assms in simp_all)

lemma sound_sect_plain:
  assumes "lasting c R P"
    and "\<And>v. fits c R v \<Longrightarrow> P v \<Longrightarrow> mild c v (vw_manager v) (snd (f (vw_clock v) (vw_manager v)))"
    and "\<And>x. sound (k x) c R P"
  shows "sound (sect f k) c R P"
  by (rule sound_sect [where G = "\<lambda>_ _. True"]) (use assms in simp_all)

lemma sound_alter:
  assumes "lasting c R P" "\<And>v. fits c R v \<Longrightarrow> P v \<Longrightarrow> mild c v (vw_manager v) (f (vw_clock v) (vw_manager v))" "sound p c R P"
  shows "sound (alter f p) c R P"
  using sound_sect_plain [of c R P "\<lambda>clk m. ((), f clk m)" "\<lambda>_. p"] assms by (simp add: alter_def sect_def)

lemma sound_look:
  assumes "lasting c R P" "\<And>v. fits c R v \<Longrightarrow> P v \<Longrightarrow> G (g (vw_clock v) (vw_manager v)) v" "\<And>x. sound (k x) c R (\<lambda>v. P v \<and> G x v)"
  shows "sound (look g k) c R P"
  using sound_sect [of c R P "\<lambda>clk m. (g clk m, m)" G k] assms by (simp add: look_def sect_def)

lemma sound_look_at:
  assumes "lasting c R P" "\<And>v. fits c R v \<Longrightarrow> P v \<Longrightarrow> H (g (vw_clock v) (vw_manager v)) \<and> G (g (vw_clock v) (vw_manager v)) v"
    and "\<And>x. H x \<Longrightarrow> sound (k x) c R (\<lambda>v. P v \<and> G x v)"
  shows "sound (look g k) c R P"
  using sound_sect_at [of c R P "\<lambda>clk m. (g clk m, m)" H G k] assms by (simp add: look_def sect_def)

lemma sound_look_plain:
  assumes "lasting c R P" "\<And>x. sound (k x) c R P"
  shows "sound (look g k) c R P"
  by (rule sound_look [where G = "\<lambda>_ _. True"]) (use assms in simp_all)

lemma sound_await:
  assumes P: "lasting c R P"
    and mild: "\<And>v m'. fits c R v \<Longrightarrow> P v \<Longrightarrow> g (vw_clock v) (vw_manager v) = Some m' \<Longrightarrow> mild c v (vw_manager v) m'"
    and k: "\<And>clk m. sound (k clk m) c R P" and q: "sound q c R P"
  shows "sound (Await g k q) c R P"
proof (rule sound_Await [OF P _ q])
  fix v m' assume v: "fits c R v" "P v" and g: "g (vw_clock v) (vw_manager v) = Some m'"
  show "\<exists>R' P'. moves c R R' v m' \<and> P' (after_section R R' m' v) \<and> sound (k (vw_clock v) (vw_manager v)) c R' P'"
    using mild_moves [OF v(1) mild [OF v g]] mild_lasting [OF P v mild [OF v g]] k
    by (intro exI [of _ R] exI [of _ P]) simp
qed

section \<open>Calls of the store\<close>

lemma facts_clock [simp]: "instant (v\<lparr>vw_store := s\<rparr>) = instant v"
  by simp

lemma row_moves_rely: "row_moves u v s' i \<Longrightarrow> row_rely v s' i"
  by (auto simp: row_moves_def row_rely_def split: option.splits)

lemma rows_rely_store:
  assumes "\<And>i. i \<notin> vw_new v \<or> NewRun i \<in> R \<Longrightarrow> row_moves u v s' i"
  shows "rows_rely R v (v\<lparr>vw_store := s'\<rparr>)"
  using assms row_moves_rely by (simp add: rows_rely_def) blast

lemma record_ok_rely:
  assumes "rows_rely {} v v'" "record_ok c v i rc"
  shows "record_ok c v' i rc"
proof -
  have p: "present i v" using assms(2) by (simp add: record_ok_def)
  then have "i \<notin> vw_new v" by (simp add: present_def)
  then have "leased (mc_worker c) i t v \<Longrightarrow> leased (mc_worker c) i t v'" for t
    using leased_rely [OF _ _ assms(1)] by blast
  then show ?thesis
    using assms(2) present_rely [OF p assms(1)] acked_rely [OF _ assms(1)] instant_rely [OF assms(1)]
    by (simp add: record_ok_def)
qed

lemma future_ok_rely:
  assumes "rows_rely {} v v'" "future_ok c v rn"
  shows "future_ok c v' rn"
proof -
  have "present i v \<Longrightarrow> leased (mc_worker c) i t v \<Longrightarrow> leased (mc_worker c) i t v'" for i t
    using leased_rely [OF _ _ assms(1)] by (simp add: present_def)
  then show ?thesis
    using assms(2) present_rely [OF _ assms(1)] instant_rely [OF assms(1)] by (fastforce simp: future_ok_def)
qed

lemma manager_ok_rely:
  assumes ok: "manager_ok c v" and rel: "rows_rely {} v v'" and m: "vw_manager v' = vw_manager v"
    and within: "clock_ok c (vw_clock v')" "store_within c v'"
    and bound: "\<And>i f t. mg_operations (vw_manager v) i = Some f \<Longrightarrow> operation_ok c v i (mg_futures (vw_manager v) f)
      \<Longrightarrow> instant v (Some (rn_expiry (mg_futures (vw_manager v) f))) = Some t \<Longrightarrow> row_bound (mc_worker c) i t v \<Longrightarrow> row_bound (mc_worker c) i t v'"
  shows "manager_ok c v'"
proof -
  have "operation_ok c v' i (mg_futures (vw_manager v) f)" if op: "mg_operations (vw_manager v) i = Some f" for i f
  proof -
    have o: "operation_ok c v i (mg_futures (vw_manager v) f)" using ok op by (simp add: manager_parts)
    then obtain t where t: "instant v (Some (rn_expiry (mg_futures (vw_manager v) f))) = Some t" "t \<le> now v + span c"
      "row_bound (mc_worker c) i t v" by (auto simp: operation_ok_def)
    have "now v \<le> now v'" using rel by (simp add: rows_rely_def)
    then show ?thesis
      using o t bound [OF op o t(1,3)] present_rely [OF _ rel, of i] instant_rely [OF rel] by (simp add: operation_ok_def)
  qed
  then show ?thesis
    using ok within record_ok_rely [OF rel] future_ok_rely [OF rel] by (simp add: manager_parts m)
qed

lemma store_moves_intro:
  assumes fit: "fits c R v" and within: "store_within c (v\<lparr>vw_store := s'\<rparr>)"
    and rows: "\<And>i. NewRun i \<notin> R \<Longrightarrow> row_moves (mc_worker c) v s' i"
    and bound: "\<And>i f t. mg_operations (vw_manager v) i = Some f \<Longrightarrow> operation_ok c v i (mg_futures (vw_manager v) f)
      \<Longrightarrow> instant v (Some (rn_expiry (mg_futures (vw_manager v) f))) = Some t \<Longrightarrow> row_bound (mc_worker c) i t v \<Longrightarrow> row_bound (mc_worker c) i t (v\<lparr>vw_store := s'\<rparr>)"
  shows "store_moves c R v s'"
proof -
  have ok: "manager_ok c v" using fit by (rule fitsD)
  have "NewRun i \<notin> R" if "i \<notin> vw_new v" for i using fit that by (auto simp: fits_def)
  then have rel: "rows_rely {} v (v\<lparr>vw_store := s'\<rparr>)" using rows by (intro rows_rely_store) auto
  have "manager_ok c (v\<lparr>vw_store := s'\<rparr>)"
    by (rule manager_ok_rely [OF ok rel]) (use ok within bound in \<open>simp_all add: manager_ok_def\<close>)
  then show ?thesis using rows by (simp add: store_moves_def)
qed

lemma row_bound_keeps:
  assumes b: "row_bound w i t v" and i: "\<forall>row. row_of v i = Some row \<longrightarrow> (\<exists>row'. od_get (st_runs s') i = Some row' \<and> keeps u (vw_clock v) row row')"
    and p: "present i v"
  shows "row_bound w i t (v\<lparr>vw_store := s'\<rparr>)"
  unfolding row_bound_def
proof (intro allI impI)
  fix row' t' assume row': "row_of (v\<lparr>vw_store := s'\<rparr>) i = Some row'" "rr_owner_worker_id row' = Some w"
    "instant (v\<lparr>vw_store := s'\<rparr>) (rr_lease_expires_at row') = Some t'" "now (v\<lparr>vw_store := s'\<rparr>) \<le> t'"
  obtain row where row: "row_of v i = Some row" using p by (auto simp: present_def)
  then have k: "keeps u (vw_clock v) row row'" using i row'(1) by auto
  have "alive (vw_clock v) row" using row' k by (auto simp: alive_def lease_instant_eq keeps_def)
  then have "rr_owner_worker_id row = Some w" "rr_lease_expires_at row = rr_lease_expires_at row'"
    using k row'(2) by (auto simp: keeps_def)
  then show "t' \<le> t" using b row row' by (simp add: row_bound_def)
qed

text \<open>
  A call that keeps the rows except those of the runs in \<open>N\<close>, which the task is about to create; \<open>G\<close> is
  what an answer tells, unless the call raised.
\<close>

definition lease_within :: "manager_config \<Rightarrow> view \<Rightarrow> run_store \<Rightarrow> string \<Rightarrow> bool" where
  "lease_within c v s i \<longleftrightarrow> (\<forall>row t. od_get (st_runs s) i = Some row
     \<longrightarrow> instant v (rr_lease_expires_at row) = Some t \<longrightarrow> t \<le> now v + span c)"

definition threw :: "store_answer \<Rightarrow> bool" where
  "threw a \<longleftrightarrow> (\<exists>e. a = Threw e)"

definition keeping_call :: "manager_config \<Rightarrow> resource set \<Rightarrow> string set \<Rightarrow> (view \<Rightarrow> bool)
    \<Rightarrow> (clock \<Rightarrow> run_store \<Rightarrow> store_answer \<times> run_store) \<Rightarrow> (store_answer \<Rightarrow> view \<Rightarrow> bool) \<Rightarrow> bool" where
  "keeping_call c R N P f G \<longleftrightarrow> NewRun ` N \<subseteq> R \<and> (\<forall>v. fits c R v \<longrightarrow> P v
     \<longrightarrow> (case f (vw_clock v) (vw_store v) of (a, s') \<Rightarrow>
            rows_kept (keeps (mc_worker c) (vw_clock v)) N (vw_store v) s' \<and> (\<forall>i \<in> N. lease_within c v s' i)
            \<and> (\<not> threw a \<longrightarrow> G a (v\<lparr>vw_store := s'\<rparr>))))"

lemma keeping_callI:
  assumes "\<And>v. manager_ok c v \<Longrightarrow> P v \<Longrightarrow>
    rows_kept (keeps (mc_worker c) (vw_clock v)) {} (vw_store v) (snd (f (vw_clock v) (vw_store v)))
    \<and> G (fst (f (vw_clock v) (vw_store v))) (v\<lparr>vw_store := snd (f (vw_clock v) (vw_store v))\<rparr>)"
  shows "keeping_call c R {} P f G"
  unfolding keeping_call_def using assms fitsD by (simp add: case_prod_beta)

lemma kept_moves:
  assumes fit: "fits c R v" and kept: "rows_kept (keeps (mc_worker c) (vw_clock v)) N (vw_store v) s'"
    and N: "NewRun ` N \<subseteq> R" "\<And>i. i \<in> N \<Longrightarrow> lease_within c v s' i"
  shows "store_moves c R v s'" "rely (R - NewRun ` N) v (v\<lparr>vw_store := s'\<rparr>)" "fits c R (v\<lparr>vw_store := s'\<rparr>)"
proof -
  note row = rows_keptD [OF kept]
  have new: "i \<in> vw_new v" if "i \<in> N" for i using that N(1) fit by (auto simp: fits_def)
  have moves: "row_moves (mc_worker c) v s' i" if "i \<notin> N" for i
    unfolding row_moves_def evolves_def using row [OF that] by (cases "row_of v i") auto
  have within: "store_within c (v\<lparr>vw_store := s'\<rparr>)"
    unfolding store_within_def
  proof (intro conjI allI impI)
    show "store_ok (vw_store (v\<lparr>vw_store := s'\<rparr>))" using rows_kept_ok [OF kept] by simp
    fix i row' t assume row': "row_of (v\<lparr>vw_store := s'\<rparr>) i = Some row'" "instant (v\<lparr>vw_store := s'\<rparr>) (rr_lease_expires_at row') = Some t"
    show "t \<le> now (v\<lparr>vw_store := s'\<rparr>) + span c"
    proof (cases "i \<in> N")
      case True
      then show ?thesis using N(2) [OF True] row' by (simp add: lease_within_def)
    next
      case False
      then obtain rw where rw: "row_of v i = Some rw" using row(1) [of i] row'(1) by (cases "row_of v i") auto
      with row(2) [OF False rw] row' have "instant v (rr_lease_expires_at rw) = Some t" by (auto simp: keeps_def)
      then show ?thesis using fitsD [OF fit] rw by (auto simp: manager_ok_def store_within_def)
    qed
  qed
  show mv: "store_moves c R v s'"
  proof (rule store_moves_intro [OF fit within moves])
    show "i \<notin> N" if "NewRun i \<notin> R" for i using that N(1) by auto
    fix i f t assume op: "operation_ok c v i (mg_futures (vw_manager v) f)" "row_bound (mc_worker c) i t v"
    then have "present i v" by (simp add: operation_ok_def)
    then have "i \<notin> N" using new by (auto simp: present_def)
    then show "row_bound (mc_worker c) i t (v\<lparr>vw_store := s'\<rparr>)"
      using row(2) op(2) \<open>present i v\<close> by (intro row_bound_keeps) auto
  qed
  show "rely (R - NewRun ` N) v (v\<lparr>vw_store := s'\<rparr>)"
    unfolding rely_def using rows_rely_store [of v "R - NewRun ` N" "mc_worker c" s'] moves new by auto
  show "fits c R (v\<lparr>vw_store := s'\<rparr>)" using mv fit by (simp add: store_moves_def fits_def)
qed

definition preserved :: "manager_config \<Rightarrow> resource set \<Rightarrow> (view \<Rightarrow> bool) \<Rightarrow> (clock \<Rightarrow> run_store \<Rightarrow> store_answer \<times> run_store) \<Rightarrow> bool" where
  "preserved c R P f \<longleftrightarrow> (\<forall>v. fits c R v \<longrightarrow> P v \<longrightarrow> P (v\<lparr>vw_store := snd (f (vw_clock v) (vw_store v))\<rparr>))"

lemma keeping_callD:
  assumes "keeping_call c R N P f G" "fits c R v" "P v"
  shows "NewRun ` N \<subseteq> R" "rows_kept (keeps (mc_worker c) (vw_clock v)) N (vw_store v) (snd (f (vw_clock v) (vw_store v)))"
    "i \<in> N \<Longrightarrow> lease_within c v (snd (f (vw_clock v) (vw_store v))) i"
    "\<not> threw (fst (f (vw_clock v) (vw_store v))) \<Longrightarrow>
      G (fst (f (vw_clock v) (vw_store v))) (v\<lparr>vw_store := snd (f (vw_clock v) (vw_store v))\<rparr>)"
  using assms by (auto simp: keeping_call_def case_prod_beta)

lemma preserved_lasting:
  assumes P: "lasting c (R - NewRun ` N) P" and f: "keeping_call c R N P f G"
  shows "preserved c R P f"
  unfolding preserved_def
proof (intro allI impI)
  fix v assume v: "fits c R v" "P v"
  note moves = kept_moves [OF v(1) keeping_callD(2,1,3) [OF f v]]
  show "P (v\<lparr>vw_store := snd (f (vw_clock v) (vw_store v))\<rparr>)"
    by (rule lastingD [OF P fits_mono [OF v(1)] fits_mono [OF moves(3)] v(2) moves(2)]) auto
qed

lemma preserved_conj:
  assumes "preserved c R P f" "\<And>v. manager_ok c v \<Longrightarrow> P v \<Longrightarrow> Q v \<Longrightarrow> Q (v\<lparr>vw_store := snd (f (vw_clock v) (vw_store v))\<rparr>)"
  shows "preserved c R (\<lambda>v. P v \<and> Q v) f"
  using assms fitsD by (auto simp: preserved_def)

lemma sound_Ask_kept:
  assumes P: "lasting c R P" "preserved c R P f" and f: "keeping_call c R N P f G"
    and k: "\<And>a. \<not> threw a \<Longrightarrow> sound (k (Answer a)) c R (\<lambda>v. P v \<and> G a v)" "\<And>e. sound (k (Answer (Threw e))) c R P"
      "\<And>a. (\<And>x. a \<noteq> Answer x) \<Longrightarrow> sound (k a) c R P"
  shows "sound (Ask f k) c R P"
proof (rule sound_Ask [OF P(1) _ _ P(1) _ k(3)])
  fix v assume v: "fits c R v" "P v"
  let ?v = "v\<lparr>vw_store := snd (f (vw_clock v) (vw_store v))\<rparr>" and ?a = "fst (f (vw_clock v) (vw_store v))"
  show "store_moves c R v (snd (f (vw_clock v) (vw_store v)))"
    by (rule kept_moves(1) [OF v(1) keeping_callD(2,1,3) [OF f v]])
  have "P ?v" using P(2) v by (simp add: preserved_def)
  then show "P v \<and> P ?v" using v(2) by simp
  show "\<exists>P'. P' ?v \<and> sound (k (Answer ?a)) c R P'"
  proof (cases "threw ?a")
    case True
    then show ?thesis using \<open>P ?v\<close> k(2) by (auto simp: threw_def)
  next
    case False
    then show ?thesis using \<open>P ?v\<close> keeping_callD(4) [OF f v False] k(1) [OF False]
      by (intro exI [of _ "\<lambda>u. P u \<and> G ?a u"]) simp
  qed
qed

text \<open>The rule of an awaited call, whatever runs after it.\<close>

definition asks :: "manager_config \<Rightarrow> resource set \<Rightarrow> (view \<Rightarrow> bool) \<Rightarrow> (clock \<Rightarrow> run_store \<Rightarrow> store_answer \<times> run_store)
    \<Rightarrow> (store_answer \<Rightarrow> view \<Rightarrow> bool) \<Rightarrow> bool" where
  "asks c R P f G \<longleftrightarrow> (\<forall>k. (\<forall>a. \<not> threw a \<longrightarrow> sound (k (Answer a)) c R (\<lambda>v. P v \<and> G a v))
     \<longrightarrow> (\<forall>e. sound (k (Answer (Threw e))) c R P) \<longrightarrow> (\<forall>a. (\<forall>x. a \<noteq> Answer x) \<longrightarrow> sound (k a) c R P)
     \<longrightarrow> sound (Ask f k) c R P)"

lemma asksI:
  assumes "\<And>k. (\<And>a. \<not> threw a \<Longrightarrow> sound (k (Answer a)) c R (\<lambda>v. P v \<and> G a v)) \<Longrightarrow> (\<And>e. sound (k (Answer (Threw e))) c R P)
    \<Longrightarrow> (\<And>a. (\<And>x. a \<noteq> Answer x) \<Longrightarrow> sound (k a) c R P) \<Longrightarrow> sound (Ask f k) c R P"
  shows "asks c R P f G"
  unfolding asks_def by (intro allI impI, rule assms) blast+

lemma asksD:
  assumes "asks c R P f G" "\<And>a. \<not> threw a \<Longrightarrow> sound (k (Answer a)) c R (\<lambda>v. P v \<and> G a v)"
    "\<And>e. sound (k (Answer (Threw e))) c R P" "\<And>a. (\<And>x. a \<noteq> Answer x) \<Longrightarrow> sound (k a) c R P"
  shows "sound (Ask f k) c R P"
  using assms unfolding asks_def by blast

lemma asks_kept:
  assumes "lasting c R P" "preserved c R P f" "keeping_call c R N P f G"
  shows "asks c R P f G"
proof (rule asksI, rule sound_Ask_kept [OF assms])
  fix k :: "reply \<Rightarrow> mprog" and a :: reply
  assume k: "\<And>a. (\<And>x. a \<noteq> Answer x) \<Longrightarrow> sound (k a) c R P" and a: "\<And>x. a \<noteq> Answer x"
  show "sound (k a) c R P" by (rule k, rule a)
qed

lemma lasting_more: "lasting c (R - X) P \<Longrightarrow> lasting c R P"
  by (rule lasting_mono) auto

text \<open>What runs after a call or a method, which returns \<open>x\<close> with the fact \<open>G x\<close> or raises.\<close>

definition accepts ::
  "manager_config \<Rightarrow> resource set \<Rightarrow> (view \<Rightarrow> bool) \<Rightarrow> ('a \<Rightarrow> view \<Rightarrow> bool) \<Rightarrow> 'a cont \<Rightarrow> bool" where
  "accepts c R P G k \<longleftrightarrow> (\<forall>x. sound (k (Inr x)) c R (\<lambda>v. P v \<and> G x v)) \<and> (\<forall>e. sound (k (Inl e)) c R P)"

lemma acceptsI:
  "(\<And>x. sound (k (Inr x)) c R (\<lambda>v. P v \<and> G x v)) \<Longrightarrow> (\<And>e. sound (k (Inl e)) c R P) \<Longrightarrow> accepts c R P G k"
  unfolding accepts_def by (intro conjI allI)

lemma acceptsD:
  assumes "accepts c R P G k"
  shows "sound (k (Inr x)) c R (\<lambda>v. P v \<and> G x v)" "sound (k (Inl e)) c R P"
  using assms unfolding accepts_def by blast+

lemma accepts_weaken:
  assumes "accepts c R P G k" "\<And>v. fits c R v \<Longrightarrow> P' v \<Longrightarrow> P v" "\<And>x v. fits c R v \<Longrightarrow> P' v \<Longrightarrow> G' x v \<Longrightarrow> G x v"
  shows "accepts c R P' G' k"
  by (rule acceptsI; rule sound_weaken, rule acceptsD [OF assms(1)]; simp add: assms(2,3))

lemma accepts_ok_or:
  assumes "accepts c R P G k" "\<And>x. sound (g x) c R (\<lambda>v. P v \<and> G' x v)"
  shows "accepts c R P G' (ok_or k g)"
  by (rule acceptsI) (simp_all add: ok_or_def assms(2) acceptsD [OF assms(1)])

lemma sound_ask_by:
  assumes "asks c R P f G" "accepts c R P G k"
  shows "sound (ask f k) c R P"
  unfolding ask_def
proof (rule asksD [OF assms(1)])
  fix a assume "\<not> threw a"
  then show "sound (case Answer a of Answer (Threw e) \<Rightarrow> k (Inl (StoreSaid e)) | Answer a \<Rightarrow> k (Inr a) | Raised e \<Rightarrow> k (Inl e)
      | Transient \<Rightarrow> k (Inl StoreFailed) | Cancelled \<Rightarrow> k (Inl TaskCancelled)) c R (\<lambda>v. P v \<and> G a v)"
    using acceptsD(1) [OF assms(2), of a] by (cases a) (simp_all add: threw_def)
next
  fix a :: reply assume "\<And>x. a \<noteq> Answer x"
  then have "\<forall>x. a \<noteq> Answer x" by blast
  then show "sound (case a of Answer (Threw e) \<Rightarrow> k (Inl (StoreSaid e)) | Answer a \<Rightarrow> k (Inr a) | Raised e \<Rightarrow> k (Inl e)
      | Transient \<Rightarrow> k (Inl StoreFailed) | Cancelled \<Rightarrow> k (Inl TaskCancelled)) c R P"
    using acceptsD(2) [OF assms(2)] by (cases a) simp_all
qed (use acceptsD(2) [OF assms(2)] in simp)

lemma sound_retrying_by:
  assumes "asks c R P f G" "accepts c R P G k"
  shows "sound (retrying n f k) c R P"
proof (induction n)
  case 0
  show ?case using sound_ask_by [OF assms] by simp
next
  case (Suc n)
  show ?case unfolding retrying.simps
  proof (rule asksD [OF assms(1)])
    fix a assume "\<not> threw a"
    then show "sound (case Answer a of Answer (Threw e) \<Rightarrow> k (Inl (StoreSaid e)) | Answer a \<Rightarrow> k (Inr a) | Raised e \<Rightarrow> k (Inl e)
        | Transient \<Rightarrow> retrying n f k | Cancelled \<Rightarrow> k (Inl TaskCancelled)) c R (\<lambda>v. P v \<and> G a v)"
      using acceptsD(1) [OF assms(2), of a] by (cases a) (simp_all add: threw_def)
  next
    fix a :: reply assume "\<And>x. a \<noteq> Answer x"
    then have "\<forall>x. a \<noteq> Answer x" by blast
    then show "sound (case a of Answer (Threw e) \<Rightarrow> k (Inl (StoreSaid e)) | Answer a \<Rightarrow> k (Inr a) | Raised e \<Rightarrow> k (Inl e)
        | Transient \<Rightarrow> retrying n f k | Cancelled \<Rightarrow> k (Inl TaskCancelled)) c R P"
      using acceptsD(2) [OF assms(2)] Suc.IH by (cases a) simp_all
  qed (use acceptsD(2) [OF assms(2)] in simp)
qed

lemma sound_ask:
  assumes "lasting c R P" "preserved c R P f" "keeping_call c R N P f G" "accepts c R P G k"
  shows "sound (ask f k) c R P"
  by (rule sound_ask_by [OF asks_kept [OF assms(1-3)] assms(4)])

lemma sound_retrying:
  assumes "lasting c R P" "preserved c R P f" "keeping_call c R N P f G" "accepts c R P G k"
  shows "sound (retrying n f k) c R P"
  by (rule sound_retrying_by [OF asks_kept [OF assms(1-3)] assms(4)])

lemma sound_call_new:
  assumes "lasting c R P" "preserved c R P f" "keeping_call c R N P f G" "accepts c R P G k"
  shows "sound (call_store_with_retry c f k) c R P"
  unfolding call_store_with_retry_def by (rule sound_retrying [OF assms])

lemma sound_call:
  assumes "lasting c R P" "keeping_call c R {} P f G" "accepts c R P G k"
  shows "sound (call_store_with_retry c f k) c R P"
  by (rule sound_call_new [OF assms(1) preserved_lasting [where N = "{}", simplified, OF assms(1,2)] assms(2,3)])

section \<open>Locks and scopes\<close>

lemma accepts_Free:
  assumes "lasting c R P" "\<And>x. lasting c R (G x)" "Key key \<notin> R" "accepts c R P G k"
  shows "accepts c (insert (Key key) R) P G (\<lambda>r. Free key (k r))"
proof (rule acceptsI; rule sound_Free)
  show "lasting c (insert (Key key) R) (\<lambda>v. P v \<and> G x v)" for x using assms(1,2) by (intro lasting_intros)
  show "lasting c (insert (Key key) R) P" using assms(1) by (intro lasting_intros)
  show "sound (k (Inr x)) c (insert (Key key) R - {Key key}) (\<lambda>v. P v \<and> G x v)"
    "sound (k (Inl e)) c (insert (Key key) R - {Key key}) P" for x e
    using acceptsD [OF assms(4)] assms(3) by simp_all
qed simp_all

lemma sound_holding:
  assumes "lasting c R P" "\<And>x. lasting c R (G x)" "Key key \<notin> R"
    and "\<And>k'. accepts c (insert (Key key) R) P G k' \<Longrightarrow> sound (body k') c (insert (Key key) R) P"
    and "accepts c R P G k"
  shows "sound (holding key body k) c R P"
  unfolding holding_def
  by (rule sound_Hold [OF assms(1,3) assms(4) acceptsD(2) [OF assms(5)]], rule accepts_Free [OF assms(1-3,5)])

lemma sound_holding_all:
  assumes "lasting c R P" "\<And>x. lasting c R (G x)" "distinct keys" "Key ` set keys \<inter> R = {}"
    and "\<And>k'. accepts c (Key ` set keys \<union> R) P G k' \<Longrightarrow> sound (body k') c (Key ` set keys \<union> R) P"
    and "accepts c R P G k"
  shows "sound (holding_all keys body k) c R P"
  using assms
proof (induction keys arbitrary: R k)
  case Nil
  then show ?case by simp
next
  case (Cons key keys)
  have P: "lasting c (insert (Key key) R) P" and G: "\<And>x. lasting c (insert (Key key) R) (G x)"
    using Cons.prems(1,2) by (intro lasting_intros; simp)+
  show ?case unfolding holding_all.simps
  proof (rule sound_holding [OF Cons.prems(1,2) _ _ Cons.prems(6)])
    show "Key key \<notin> R" using Cons.prems(4) by simp
    fix k' assume k': "accepts c (insert (Key key) R) P G k'"
    show "sound (holding_all keys body k') c (insert (Key key) R) P"
    proof (rule Cons.IH [OF P G _ _ _ k'])
      show "distinct keys" "Key ` set keys \<inter> insert (Key key) R = {}" using Cons.prems(3,4) by auto
      show "sound (body k'') c (Key ` set keys \<union> insert (Key key) R) P"
        if "accepts c (Key ` set keys \<union> insert (Key key) R) P G k''" for k''
        using Cons.prems(5) [of k''] that by simp
    qed
  qed
qed

text \<open>A task that holds no admission lock may enter the scope of a run.\<close>

definition unlocked :: "resource set \<Rightarrow> bool" where
  "unlocked R \<longleftrightarrow> (\<forall>t. Key (AdmissionLock t) \<notin> R)"

lemma sound_look_here:
  assumes "lasting c R P" "\<And>v. fits c R v \<Longrightarrow> P v \<Longrightarrow> sound (k (g (vw_clock v) (vw_manager v))) c R P"
  shows "sound (look g k) c R P"
  unfolding look_def
proof (rule sound_Section [OF assms(1)])
  fix v assume v: "fits c R v" "P v"
  show "\<exists>R' P'. moves c R R' v (vw_manager v) \<and> P' (after_section R R' (vw_manager v) v)
      \<and> sound (k (g (vw_clock v) (vw_manager v))) c R' P'"
    using mild_moves [OF v(1) mild_refl] v(2) assms(2) [OF v] by (intro exI [of _ R] exI [of _ P]) simp
qed

lemma sound_run_scope:
  assumes "lasting c R P" "\<And>x. lasting c R (G x)" "unlocked R" "accepts c R P G k"
    and "\<And>K k'. accepts c (K \<union> R) P G k' \<Longrightarrow> sound (body k') c (K \<union> R) P"
  shows "sound (run_scope i body k) c R P"
  unfolding run_scope_def
proof (rule sound_look_here [OF assms(1)])
  fix v
  have "distinct (map AdmissionLock (scope_threads i (vw_manager v)))"
    by (simp add: scope_threads_def distinct_map inj_on_def)
  then show "sound (holding_all (map AdmissionLock (scope_threads i (vw_manager v))) body k) c R P"
    using assms(3) by (intro sound_holding_all [OF assms(1,2) _ _ assms(5,4)]) (auto simp: unlocked_def)
qed

lemma sound_run_registry:
  assumes "lasting c R P" "\<And>x. lasting c R (G x)" "unlocked R"
    and mild: "\<And>v. manager_ok c v \<Longrightarrow> P v \<Longrightarrow> mild c v (vw_manager v) (snd (f (vw_clock v) (vw_manager v)))"
    and gain: "\<And>v. manager_ok c v \<Longrightarrow> P v \<Longrightarrow>
      G (fst (f (vw_clock v) (vw_manager v))) (v\<lparr>vw_manager := snd (f (vw_clock v) (vw_manager v))\<rparr>)"
    and "accepts c R P G k"
  shows "sound (run_registry i f k) c R P"
  unfolding run_registry_def
proof (rule sound_run_scope [OF assms(1-3,6)])
  fix K k' assume k': "accepts c (K \<union> R) P G k'"
  show "sound (sect f (\<lambda>x. k' (Inr x))) c (K \<union> R) P"
    by (rule sound_sect [OF lasting_Un [OF assms(1)] mild gain acceptsD(1) [OF k']]) (auto dest: fitsD)
qed

lemma sound_thread_registry:
  assumes "lasting c R P" "\<And>x. lasting c R (G x)" "unlocked R"
    and mild: "\<And>v. manager_ok c v \<Longrightarrow> P v \<Longrightarrow> mild c v (vw_manager v) (snd (f (vw_clock v) (vw_manager v)))"
    and gain: "\<And>v. manager_ok c v \<Longrightarrow> P v \<Longrightarrow>
      G (fst (f (vw_clock v) (vw_manager v))) (v\<lparr>vw_manager := snd (f (vw_clock v) (vw_manager v))\<rparr>)"
    and "accepts c R P G k"
  shows "sound (thread_registry t f k) c R P"
  unfolding thread_registry_def
proof (rule sound_holding [OF assms(1,2) _ _ assms(6)])
  show "Key (AdmissionLock t) \<notin> R" using assms(3) by (simp add: unlocked_def)
  fix k' assume k': "accepts c (insert (Key (AdmissionLock t)) R) P G k'"
  show "sound (sect f (\<lambda>x. k' (Inr x))) c (insert (Key (AdmissionLock t)) R) P"
    by (rule sound_sect [OF lasting_insert [OF assms(1)] mild gain acceptsD(1) [OF k']]) (auto dest: fitsD)
qed

end
