(* ===== verification/ManagerPersist.thy ===== *)
theory ManagerPersist
  imports ManagerSound
begin

text \<open>
  The sections of a run manager are mild, and persisting an outcome is sound: an outcome is acknowledged
  only when the store has accepted it.
\<close>

section \<open>Mild sections\<close>

lemma mild_same:
  assumes "mg_heap m' = mg_heap m" "mg_next m' = mg_next m" "mg_runs m' = mg_runs m" "mg_operations m' = mg_operations m"
    "mg_futures m' = mg_futures m" "mg_next_future m \<le> mg_next_future m'"
  shows "mild c v m m'"
  using assms by (simp add: mild_def)

lemma mild_modify:
  assumes "record_mild c v (mg_heap m r) (g (mg_heap m r))" "rc_store_only (g (mg_heap m r)) \<longrightarrow> rc_store_only (mg_heap m r)"
  shows "mild c v m (modify r g m)"
  using assms by (auto simp: mild_def modify_def)

text \<open>An update of the other fields of a record.\<close>

definition plain :: "(run_record \<Rightarrow> run_record) \<Rightarrow> bool" where
  "plain g \<longleftrightarrow> (\<forall>rc. rc_run_id (g rc) = rc_run_id rc \<and> rc_thread_id (g rc) = rc_thread_id rc \<and> rc_owner (g rc) = rc_owner rc
     \<and> (rc_lost rc \<longrightarrow> rc_lost (g rc)) \<and> rc_proof (g rc) = rc_proof rc \<and> rc_lease (g rc) = rc_lease rc
     \<and> rc_store_only (g rc) = rc_store_only rc)"

lemma mild_plain: "plain g \<Longrightarrow> mild c v m (modify r g m)"
  by (rule mild_modify) (simp_all add: plain_def record_mild_def record_step_def)

lemma mild_fold: "(\<And>x m. x \<in> set xs \<Longrightarrow> mild c v m (f x m)) \<Longrightarrow> mild c v m (fold f xs m)"
proof (induction xs arbitrary: m)
  case (Cons x xs)
  have "mild c v (f x m) (fold f xs (f x m))" by (rule Cons.IH) (simp add: Cons.prems)
  then show ?case using mild_trans [OF Cons.prems [of x m]] by simp
qed simp

lemmas plain_simps = plain_def signal_cancel_def set_completion_def fenced_def

lemma mild_clear [simp]: "mild c v m (clear_lease_deadline i m)"
  by (rule mild_same) (simp_all add: clear_lease_deadline_def)

lemma mild_arm [simp]: "mild c v m (arm_lease_deadline d r clk m)"
  by (rule mild_same) (simp_all add: arm_lease_deadline_def clear_lease_deadline_def Let_def)

lemma mild_begin [simp]: "mild c v m (snd (begin_terminal_attempt r m))"
proof -
  let ?m = "m\<lparr>mg_attempts := (mg_attempts m)(rc_run_id (mg_heap m r) := mg_attempts m (rc_run_id (mg_heap m r)) @ [mg_next_future m]),
    mg_next_future := Suc (mg_next_future m)\<rparr>"
  have "mild c v m ?m" by (rule mild_same) simp_all
  moreover have "mild c v ?m (snd (begin_terminal_attempt r m))"
    unfolding begin_terminal_attempt_def Let_def snd_conv by (rule mild_plain) (simp add: plain_simps)
  ultimately show ?thesis by (rule mild_trans)
qed

lemma mild_end [simp]: "mild c v m (end_terminal_attempt r f m)"
  by (rule mild_same) (simp_all add: end_terminal_attempt_def Let_def)

lemma mild_pending [simp]: "mild c v m (enter_pending t i m)" "mild c v m (leave_pending t i m)"
  by (rule mild_same; simp add: enter_pending_def leave_pending_def Let_def)+

lemma mild_pop [simp]: "mild c v m (pop_run i m)"
  by (auto simp: mild_def pop_run_def unindex_run_locked_def clear_lease_deadline_def Let_def delete_conv'
      split: option.splits if_splits)

lemma mild_alloc [simp]: "\<not> rc_store_only rc \<Longrightarrow> mild c v m (snd (alloc rc m))"
  by (auto simp: mild_def alloc_def less_Suc_eq)

lemma mild_fence [simp]: "mild c v m (snd (fence_local_record d r reason b clk m))"
proof -
  have "mild c v m (modify r (fenced d r reason clk) (clear_lease_deadline i m))" for i
    by (rule mild_trans [OF mild_clear mild_plain]) (simp add: plain_simps)
  moreover have "mild c v m (modify r (\<lambda>rc. rc\<lparr>rc_commit_pending := False\<rparr>) m)"
    by (rule mild_plain) (simp add: plain_simps)
  ultimately show ?thesis by (simp add: fence_local_record_def Let_def)
qed

lemma mild_expired: "mild c v m (lease_expired d i r clk m)"
proof -
  have "mild c v m (snd (fence_local_record d r reason b clk (clear_lease_deadline i m)))" for reason b
    by (rule mild_trans [OF mild_clear [of c v m i] mild_fence])
  moreover have "mild c v m (arm_lease_deadline d r clk (clear_lease_deadline i m))"
    by (rule mild_trans [OF mild_clear [of c v m i] mild_arm])
  ultimately show ?thesis by (simp add: lease_expired_def Let_def split: option.split)
qed

lemma mild_stage_status [simp]: "mild c v m (snd (stage_status d i st e sr gv clk m))"
  by (auto simp: stage_status_def Let_def split: option.split intro!: mild_plain) (simp_all add: plain_simps)

lemma mild_note [simp]: "mild c v m (note_persisted d r b m)"
  unfolding note_persisted_def by (rule mild_plain) (simp add: plain_simps)

lemma mild_stage_completion [simp]: "mild c v m (snd (stage_completion d i st cp clk m))"
  by (auto simp: stage_completion_def Let_def split: option.split intro!: mild_plain) (simp_all add: plain_simps)

lemma mild_stage_progress [simp]: "mild c v m (snd (stage_progress acc u i cp clk m))"
  by (auto simp: stage_progress_def Let_def split: option.split intro!: mild_plain) (simp_all add: plain_simps)

lemma mild_admission_check [simp]: "mild c v m (snd (admission_check a m))"
  by (auto simp: admission_check_def Let_def split: option.split intro!: mild_plain) (simp_all add: plain_simps)

lemma mild_stage_cancel [simp]: "mild c v m (snd (stage_cancel d i action durable clk m))"
  by (auto simp: stage_cancel_def Let_def split: option.split intro!: mild_plain) (simp_all add: plain_simps)

lemma mild_adopt [simp]: "mild c v m (adopt_stored i r stored clk m)"
  by (auto simp: adopt_stored_def split: option.split intro!: mild_plain) (simp_all add: plain_simps)

lemma mild_begin_attempts [simp]: "mild c v m (snd (begin_attempts rs m))"
proof (induction rs arbitrary: m)
  case (Cons r rs)
  show ?case using mild_trans [OF mild_begin [of c v m r] Cons] by (simp add: Let_def case_prod_beta)
qed simp

lemma mild_end_claim: "mild c v m (end_claim d claims t m)"
proof -
  obtain r b f q where t: "t = (r, b, f, q)" by (cases t)
  have "mild c v m (modify r (\<lambda>rc. rc\<lparr>rc_commit_pending := b\<rparr>) (end_terminal_attempt r f m))"
    by (rule mild_trans [OF mild_end mild_plain]) (simp add: plain_simps)
  then show ?thesis by (simp add: end_claim_def t Let_def)
qed

lemma mild_start_checks [simp]: "mild c v m (snd (start_checks d m))"
  by (rule mild_same) (simp_all add: start_checks_def Let_def)

lemma mild_signal_shutdown [simp]: "mild c v m (snd (signal_shutdown m))"
  by (auto simp: signal_shutdown_def Let_def intro!: mild_fold mild_plain) (simp add: plain_simps)

lemma mild_unsettled [simp]: "mild c v m (snd (mark_unsettled d cancelled rs clk m))"
  by (auto simp: mark_unsettled_def intro!: mild_fold mild_plain) (simp add: plain_simps)

text \<open>An acknowledgement is mild when the store has the outcome.\<close>

lemma mild_acknowledge:
  assumes ok: "manager_ok c v" and m: "mild c v (vw_manager v) m" and a: "registered m r \<Longrightarrow> acked (rc_run_id (mg_heap m r)) (to_status outcome) v"
    and st: "mc_store d"
  shows "mild c v m (acknowledge_terminal d r outcome q clk m)"
proof (cases "registered m r \<and> \<not> rc_lost (mg_heap m r)")
  case False
  then show ?thesis by (auto simp: acknowledge_terminal_def)
next
  case True
  let ?rc = "mg_heap m r"
  have "run_of v (rc_run_id ?rc) = Some r" using True m by (auto simp: registered_def mild_def)
  then have r: "r < mg_next (vw_manager v)" "record_ok c v (rc_run_id ?rc) (rec_of v r)" using ok by (simp_all add: manager_parts)
  then have old: "acked (rc_run_id ?rc) (to_status p) v" if "rc_proof ?rc = Some p" for p
    using record_mild_ok [OF r(2), of ?rc] m that by (simp add: mild_def record_ok_def)
  have rm: "record_mild c v ?rc (acknowledged d outcome q clk ?rc)"
    using True a old by (auto simp: record_mild_def record_step_def acknowledged_def Let_def split: option.split)
  have so: "rc_store_only (acknowledged d outcome q clk ?rc) = rc_store_only ?rc"
    by (simp add: acknowledged_def Let_def)
  have "mild c v m (modify r (acknowledged d outcome q clk) m)" by (rule mild_modify) (simp_all add: rm so)
  then show ?thesis
    using mild_trans mild_clear by (auto simp: acknowledge_terminal_def Let_def)
qed

section \<open>Persisting an outcome\<close>

lemma sound_return: "accepts c R P G k \<Longrightarrow> (\<And>v. manager_ok c v \<Longrightarrow> P' v \<Longrightarrow> P v \<and> G x v) \<Longrightarrow> sound (k (Inr x)) c R P'"
  using sound_weaken [OF acceptsD(1) [of c R P G k x]] fitsD by blast

lemma sound_raise: "accepts c R P G k \<Longrightarrow> (\<And>v. manager_ok c v \<Longrightarrow> P' v \<Longrightarrow> P v) \<Longrightarrow> sound (k (Inl e)) c R P'"
  using sound_weaken [OF acceptsD(2) [of c R P G k e]] fitsD by blast

lemma accepts_plain: "(\<And>x. sound (k x) c R P) \<Longrightarrow> accepts c R P G k"
  by (rule acceptsI) (auto intro: sound_weaken)

lemma sound_barrier:
  assumes "lasting c R P" "accepts c R P (\<lambda>_ _. True) k"
  shows "sound (release_confirmed_terminal_barrier r deadline k) c R P"
  unfolding release_confirmed_terminal_barrier_def
proof (rule sound_look_plain [OF assms(1)], rule sound_await [OF assms(1)])
  fix d and v :: view and m'
  assume "(let rc = mg_heap (vw_manager v) r in if rc_lost rc then Some (vw_manager v)
      else if has_final_ack rc then Some (modify r (\<lambda>rc. rc\<lparr>rc_goal_cleanup := False, rc_commit_pending := False\<rparr>) (vw_manager v))
      else if mg_attempts (vw_manager v) (rc_run_id rc) = [] \<or> d \<le> clk_now (vw_clock v) then Some (vw_manager v) else None) = Some m'"
  then show "mild c v (vw_manager v) m'"
    by (auto simp: Let_def split: if_splits intro!: mild_plain) (simp_all add: plain_simps)
qed (rule sound_return [OF assms(2)] sound_raise [OF assms(2)]; simp)+

lemma sound_mark_lost:
  assumes "lasting c R P" "\<And>x. sound (k x) c R P"
  shows "sound (mark_ownership_lost d r reason k) c R P"
  unfolding mark_ownership_lost_def by (rule sound_sect_plain [OF assms(1) _ assms(2)]) simp

lemma sound_fence_unconfirmed:
  assumes "lasting c R P" "accepts c R P (\<lambda>_ _. True) k"
  shows "sound (fence_unconfirmed_terminal d r k) c R P"
  unfolding fence_unconfirmed_terminal_def
proof (rule sound_look_plain [OF assms(1)], rule sound_barrier [OF assms(1)], rule accepts_ok_or [OF assms(2)])
  fix confirmed
  have "sound (mark_ownership_lost d r reason (\<lambda>_. k (Inr ()))) c R P" for reason
    by (rule sound_mark_lost [OF assms(1)]) (rule sound_return [OF assms(2)], simp)
  moreover have "sound (k (Inr ())) c R P" by (rule sound_return [OF assms(2)]) simp
  ultimately show "sound (if confirmed then k (Inr ()) else mark_ownership_lost d r
      ''This worker's terminal write was rejected or could not be confirmed.'' (\<lambda>_. k (Inr ()))) c R (\<lambda>v. P v \<and> True)"
    by simp
qed

lemma sound_terminal_operation:
  assumes P: "lasting c R P" and id: "\<And>v. manager_ok c v \<Longrightarrow> P v \<Longrightarrow> run_id_is r i v" and store: "mc_store d"
    and op: "\<And>k'. accepts c R P (\<lambda>a v. committed (Inr a) \<longrightarrow> acked i (to_status outcome) v) k' \<Longrightarrow> sound (operation k') c R P"
    and raised: "\<And>e. \<not> committed (Inl e)" and k: "accepts c R P (\<lambda>_ _. True) k"
  shows "sound (terminal_operation d r outcome committed operation k) c R P"
  unfolding terminal_operation_def
proof (rule sound_sect_plain [OF P])
  show "mild c v (vw_manager v) (snd (case begin_terminal_attempt r (vw_manager v) of
      (f, m') \<Rightarrow> ((f, rc_revision (mg_heap (vw_manager v) r)), m')))" for v :: view
    using mild_begin [of c v "vw_manager v" r] by (simp add: case_prod_beta)
  fix x :: "nat \<times> nat"
  obtain f q where x: "x = (f, q)" by (cases x)
  let ?finish = "\<lambda>a. alter (\<lambda>clk m. end_terminal_attempt r f
    (if committed a then acknowledge_terminal d r outcome q clk m else m)) (k a)"
  have "sound (operation ?finish) c R P"
  proof (rule op, rule acceptsI)
    fix a
    let ?P = "\<lambda>v. P v \<and> (committed (Inr a) \<longrightarrow> acked i (to_status outcome) v)"
    show "sound (?finish (Inr a)) c R ?P"
    proof (rule sound_alter)
      show "lasting c R ?P" by (intro lasting_intros P)
      show "sound (k (Inr a)) c R ?P" by (rule sound_return [OF k]) simp
      fix v assume v: "fits c R v" "?P v"
      have "registered (vw_manager v) r \<Longrightarrow> committed (Inr a) \<Longrightarrow> acked (rc_run_id (rec_of v r)) (to_status outcome) v"
        using v id [OF fitsD [OF v(1)]] by (auto simp: run_id_is_def)
      then have "committed (Inr a) \<Longrightarrow> mild c v (vw_manager v) (acknowledge_terminal d r outcome q (vw_clock v) (vw_manager v))"
        by (intro mild_acknowledge [OF fitsD [OF v(1)] mild_refl _ store])
      then show "mild c v (vw_manager v) (end_terminal_attempt r f (if committed (Inr a)
          then acknowledge_terminal d r outcome q (vw_clock v) (vw_manager v) else vw_manager v))"
        using mild_trans [OF _ mild_end] by auto
    qed
  next
    fix e
    show "sound (?finish (Inl e)) c R P"
      by (rule sound_alter [OF P]) (auto simp: raised intro: sound_raise [OF k])
  qed
  then show "sound (case x of (f, staged_revision) \<Rightarrow> operation (\<lambda>a. alter (\<lambda>clk m. end_terminal_attempt r f
      (if committed a then acknowledge_terminal d r outcome staged_revision clk m else m)) (k a))) c R P"
    by (simp add: x)
qed

text \<open>What an accepted update or finalization leaves in the store.\<close>

lemma keeping_call_update:
  assumes "\<not> inflight (to_status p)" "mc_worker c = w" "\<And>v. manager_ok c v \<Longrightarrow> P v \<Longrightarrow> present i v"
  shows "keeping_call c R {} P (do_update_status i p (Some w)) (\<lambda>a v. is_true (Inr a) \<longrightarrow> acked i (to_status p) v)"
proof (rule keeping_callI, intro conjI impI)
  fix v assume v: "manager_ok c v" "P v"
  have ok: "store_ok (vw_store v)" using v(1) by (simp add: manager_ok_def store_within_def)
  show "rows_kept (keeps (mc_worker c) (vw_clock v)) {} (vw_store v) (snd (do_update_status i p (Some w) (vw_clock v) (vw_store v)))"
    using keeps_update_status [OF ok] assms(2) by simp
  assume "is_true (Inr (fst (do_update_status i p (Some w) (vw_clock v) (vw_store v))))"
  then have u: "fst (update_status (vw_clock v) i (to_status p) (to_error p) (to_stop_reason p) (to_goal_verdict p) (Some w) (vw_store v))"
    by (simp add: is_true_def do_update_status_def)
  then obtain row where "od_get (st_runs (snd (do_update_status i p (Some w) (vw_clock v) (vw_store v)))) i = Some row"
    "rr_status row = to_status p"
    using store_ok_row [OF ok] by (auto simp: do_update_status_def update_status_def split: if_splits option.splits)
  then show "acked i (to_status p) (v\<lparr>vw_store := snd (do_update_status i p (Some w) (vw_clock v) (vw_store v))\<rparr>)"
    using assms(1,3) v by (auto simp: acked_def present_def stored_as_def settled_def inflight_def)
qed

lemma keeping_call_plain:
  assumes "\<And>v. manager_ok c v \<Longrightarrow> P v \<Longrightarrow>
    rows_kept (keeps (mc_worker c) (vw_clock v)) {} (vw_store v) (snd (f (vw_clock v) (vw_store v)))"
  shows "keeping_call c R {} P f (\<lambda>_ _. True)"
  by (rule keeping_callI) (simp add: assms)

lemma manager_store_ok: "manager_ok c v \<Longrightarrow> store_ok (vw_store v)"
  by (simp add: manager_ok_def store_within_def)

lemma is_true_raised [simp]: "\<not> is_true (Inl e)" "\<not> is_finalized (Inl e)"
  by (simp_all add: is_true_def is_finalized_def)

lemma sound_persist_owned:
  assumes c: "config_ok c" and P: "lasting c R P" and id: "\<And>v. manager_ok c v \<Longrightarrow> P v \<Longrightarrow> run_id_is r i v \<and> present i v"
    and t: "terminal \<longleftrightarrow> \<not> inflight (to_status outcome)" and k: "accepts c R P (\<lambda>_ _. True) k"
  shows "sound (persist_owned_status c r i terminal outcome k) c R P"
proof -
  note ret = sound_return [OF k] and exc = sound_raise [OF k]
  have fence: "sound (fence_unconfirmed_terminal c r (ok_or k (\<lambda>_. k (Inr False)))) c R P"
    by (intro sound_fence_unconfirmed [OF P] accepts_ok_or [OF k] ret) simp
  have fence': "sound (fence_unconfirmed_terminal c r (\<lambda>_. k (Inl TaskCancelled))) c R P"
    by (intro sound_fence_unconfirmed [OF P] accepts_plain exc) simp
  let ?give_up = "if terminal then fence_unconfirmed_terminal c r (ok_or k (\<lambda>_. k (Inr False))) else k (Inr False)"
  let ?settle = "\<lambda>a. if is_true a then look (\<lambda>_ m. rc_lost (mg_heap m r)) (\<lambda>lost. if lost then ?give_up else k (Inr True))
    else if a = Inl TaskCancelled
    then (if terminal then fence_unconfirmed_terminal c r (\<lambda>_. k (Inl TaskCancelled)) else k (Inl TaskCancelled)) else ?give_up"
  have give_up: "sound ?give_up c R P" using fence ret by auto
  have settle: "sound (?settle a) c R P" for a
  proof -
    have "sound (look (\<lambda>_ m. rc_lost (mg_heap m r)) (\<lambda>lost. if lost then ?give_up else k (Inr True))) c R P"
      by (rule sound_look_plain [OF P]) (use give_up ret in auto)
    then show ?thesis using give_up fence' exc by auto
  qed
  have update: "rows_kept (keeps (mc_worker c) (vw_clock v)) {} (vw_store v)
      (snd (do_update_status i outcome (Some (mc_worker c)) (vw_clock v) (vw_store v)))" if "manager_ok c v" for v :: view
    using keeps_update_status [OF manager_store_ok [OF that]] .
  show ?thesis
    unfolding persist_owned_status_def Let_def
  proof (rule sound_if)
    assume "\<not> terminal"
    show "sound (call_store_with_retry c (do_update_status i outcome (Some (mc_worker c))) ?settle) c R P"
      by (rule sound_call [OF P keeping_call_plain]) (use update in simp, rule accepts_plain, rule settle)
  next
    assume terminal: terminal
    show "sound (terminal_operation c r outcome is_true
        (call_store_with_retry c (do_update_status i outcome (Some (mc_worker c)))) ?settle) c R P"
    proof (rule sound_terminal_operation [OF P])
      show "mc_store c" using c by (simp add: config_ok_def)
      show "manager_ok c v \<Longrightarrow> P v \<Longrightarrow> run_id_is r i v" for v using id by blast
      show "accepts c R P (\<lambda>_ _. True) ?settle" by (rule accepts_plain [OF settle])
      fix k' assume k': "accepts c R P (\<lambda>a v. is_true (Inr a) \<longrightarrow> acked i (to_status outcome) v) k'"
      show "sound (call_store_with_retry c (do_update_status i outcome (Some (mc_worker c))) k') c R P"
        by (rule sound_call [OF P keeping_call_update k']) (use terminal t id in auto)
    qed simp
  qed
qed

lemma sound_persist_status:
  assumes c: "config_ok c" and P: "lasting c R P" and r: "\<And>v. manager_ok c v \<Longrightarrow> P v \<Longrightarrow> held r v"
    and k: "accepts c R P (\<lambda>_ _. True) k"
  shows "sound (persist_status c r status error stop_reason k) c R P"
  unfolding persist_status_def
proof (rule sound_look_at [OF P])
  let ?G = "\<lambda>rc v. run_id_is r (rc_run_id rc) v \<and> present (rc_run_id rc) v"
  fix v assume v: "fits c R v" "P v"
  show "\<not> rc_store_only (mg_heap (vw_manager v) r) \<and> ?G (mg_heap (vw_manager v) r) v"
    using r [OF fitsD [OF v(1)] v(2)] fitsD [OF v(1)] by (simp add: held_def run_id_is_def known_def manager_parts)
next
  fix rc :: run_record assume so: "\<not> rc_store_only rc"
  let ?P = "\<lambda>v. P v \<and> run_id_is r (rc_run_id rc) v \<and> present (rc_run_id rc) v"
  let ?outcome = "terminal_outcome_of rc (Some status) error stop_reason None"
  have P': "lasting c R ?P" by (intro lasting_intros P)
  have k': "accepts c R ?P (\<lambda>_ _. True) k" by (rule accepts_weaken [OF k]) simp_all
  have "sound (persist_owned_status c r (rc_run_id rc) (\<not> inflight status) ?outcome k) c R ?P"
    by (rule sound_persist_owned [OF c P' _ _ k']) (simp_all add: terminal_outcome_of_def)
  then show "sound (let terminal = (\<not> inflight status); outcome = ?outcome
     in if rc_lost rc then k (Inr False)
        else if \<not> mc_store c
        then (if terminal \<and> \<not> rc_store_only rc then alter (acknowledge_terminal c r outcome (rc_revision rc)) (k (Inr True))
              else k (Inr True))
        else if heartbeat_enabled c \<and> \<not> rc_store_only rc
        then (if terminal \<and> has_terminal_ack rc outcome then k (Inr True)
              else persist_owned_status c r (rc_run_id rc) terminal outcome k)
        else persist_unowned_status c r rc outcome error stop_reason k) c R ?P"
    using so c sound_return [OF k'] by (simp add: config_ok_def Let_def)
qed

end
