(* ===== verification/ManagerMethods.thy ===== *)
theory ManagerMethods
  imports ManagerPersist
begin

text \<open>The methods of a run manager with leases are sound: status transitions, the start barrier and cancellation.\<close>

lemma config_okD:
  assumes "config_ok c"
  shows "mc_store c" "heartbeat_enabled c" "0 \<le> grace_of c" "0 \<le> span c"
  using assms by (simp_all add: config_ok_def)

lemma held_mild: "held r v \<Longrightarrow> mild c v (vw_manager v) m' \<Longrightarrow> held r (v\<lparr>vw_manager := m'\<rparr>)"
  by (auto simp: held_def known_def mild_def record_mild_def record_step_def)

lemma registry_held:
  "manager_ok c v \<Longrightarrow> run_of v i = Some r \<Longrightarrow> mild c v (vw_manager v) m' \<Longrightarrow> held r (v\<lparr>vw_manager := m'\<rparr>)"
  using held_mild held_registered by blast

lemma sound_option:
  "(x = None \<Longrightarrow> sound p c R P) \<Longrightarrow> (\<And>y. x = Some y \<Longrightarrow> sound (q y) c R P) \<Longrightarrow> sound (case x of None \<Rightarrow> p | Some y \<Rightarrow> q y) c R P"
  by (cases x) simp_all

text \<open>The registry hands out references to created runs.\<close>

definition hands :: "nat option \<Rightarrow> view \<Rightarrow> bool" where
  "hands found v \<longleftrightarrow> (\<forall>r. found = Some r \<longrightarrow> held r v)"

lemma hands_simps [simp]: "hands None v" "hands (Some r) v = held r v"
  by (simp_all add: hands_def)

lemma lasting_hands [lasting_intros]: "lasting c R (hands found)"
  unfolding hands_def by (intro lasting_intros)

lemma registry_hands: "manager_ok c v \<Longrightarrow> hands (run_of v i) v"
  using held_registered by (auto simp: hands_def)

section \<open>Status transitions\<close>

lemma sound_after_persist:
  assumes P: "lasting c R P" and R: "unlocked R" and k: "accepts c R P (\<lambda>_ _. True) k"
  shows "sound (after_persist d r i status persisted k) c R P"
proof -
  have ret: "sound (k (Inr x)) c R P" for x by (rule sound_return [OF k]) simp
  let ?confirm = "look (\<lambda>_ m. rc_lost (mg_heap m r)) (\<lambda>lost.
      if \<not> persisted \<and> heartbeat_enabled d \<and> status = ''success'' \<and> \<not> lost
      then mark_ownership_lost d r ''Successful completion could not be confirmed in the durable run store.'' (\<lambda>_. k (Inr persisted))
      else k (Inr persisted))"
  have confirm: "sound ?confirm c R P"
    by (rule sound_look_plain [OF P], rule sound_if, rule sound_mark_lost [OF P]) (rule ret)+
  show ?thesis
    unfolding after_persist_def Let_def
    by (rule sound_if [OF confirm], rule sound_run_registry [OF P lasting_const R])
      (use sound_weaken [OF confirm] in \<open>auto intro!: accepts_ok_or [OF k]\<close>)
qed

lemma sound_set_status:
  assumes c: "config_ok c" and P: "lasting c R P" and R: "unlocked R" and k: "accepts c R P (\<lambda>_ _. True) k"
  shows "sound (set_status c i status error sr gv persist k) c R P"
  unfolding set_status_def
proof (rule sound_run_registry [OF P lasting_hands R])
  fix v :: view assume v: "manager_ok c v" "P v"
  show "mild c v (vw_manager v) (snd (stage_status c i status error sr gv (vw_clock v) (vw_manager v)))" by simp
  then show "hands (fst (stage_status c i status error sr gv (vw_clock v) (vw_manager v)))
      (v\<lparr>vw_manager := snd (stage_status c i status error sr gv (vw_clock v) (vw_manager v))\<rparr>)"
    using registry_held [OF v(1), of i]
    by (auto simp: hands_def stage_status_def Let_def split: option.splits if_splits)
next
  show "accepts c R P hands (ok_or k (\<lambda>staged. case staged of None \<Rightarrow> k (Inr ())
      | Some r \<Rightarrow> if \<not> persist then k (Inr ()) else persist_status c r status error sr (ok_or k (\<lambda>persisted.
            after_persist c r i status persisted (ok_or k (\<lambda>_. k (Inr ())))))))"
  proof (rule accepts_ok_or [OF k], rule sound_option)
    fix staged :: "nat option" and r
    let ?P = "\<lambda>v. P v \<and> hands staged v"
    have P': "lasting c R ?P" by (intro lasting_intros P)
    have k': "accepts c R ?P (\<lambda>_ _. True) k" by (rule accepts_weaken [OF k]) simp_all
    show ret: "sound (k (Inr ())) c R ?P" by (rule sound_return [OF k]) simp
    assume staged: "staged = Some r"
    show "sound (if \<not> persist then k (Inr ()) else persist_status c r status error sr (ok_or k (\<lambda>persisted.
        after_persist c r i status persisted (ok_or k (\<lambda>_. k (Inr ())))))) c R ?P"
    proof (rule sound_if [OF ret], rule sound_persist_status [OF c P'])
      show "accepts c R ?P (\<lambda>_ _. True) (ok_or k (\<lambda>persisted. after_persist c r i status persisted (ok_or k (\<lambda>_. k (Inr ())))))"
        by (rule accepts_ok_or [OF k']; simp) (intro sound_after_persist P' R accepts_ok_or [OF k']; simp add: ret)
    qed (simp add: staged)
  qed
qed

section \<open>More rules\<close>

lemma accepts_ok_or':
  assumes "accepts c R P0 G0 k" "\<And>v. manager_ok c v \<Longrightarrow> P v \<Longrightarrow> P0 v" "\<And>x. sound (g x) c R (\<lambda>v. P v \<and> G x v)"
  shows "accepts c R P G (ok_or k g)"
  by (rule accepts_ok_or [OF accepts_weaken [OF assms(1), where G' = G0] assms(3)]) (auto dest: fitsD simp: assms(2))

lemma accepts_weak:
  assumes "accepts c R P0 G0 k" "\<And>v. manager_ok c v \<Longrightarrow> P v \<Longrightarrow> P0 v" "\<And>x v. manager_ok c v \<Longrightarrow> P v \<Longrightarrow> G x v \<Longrightarrow> G0 x v"
  shows "accepts c R P G k"
  by (rule accepts_weaken [OF assms(1)]) (auto dest: fitsD simp: assms(2,3))

lemma sound_registry_plain:
  assumes "lasting c R P" "unlocked R" "\<And>v. manager_ok c v \<Longrightarrow> P v \<Longrightarrow> mild c v (vw_manager v) (snd (f (vw_clock v) (vw_manager v)))"
    and "accepts c R P (\<lambda>_ _. True) k"
  shows "sound (run_registry i f k) c R P"
  by (rule sound_run_registry [OF assms(1) lasting_const assms(2,3) _ assms(4)]) simp_all

lemma sound_find:
  assumes "lasting c R P" "unlocked R" "accepts c R P hands k"
  shows "sound (run_registry i (\<lambda>_ m. (od_get (mg_runs m) i, m)) k) c R P"
  by (rule sound_run_registry [OF assms(1) lasting_hands assms(2) _ _ assms(3)]) (simp_all add: registry_hands)

text \<open>Calls whose answer is only looked at.\<close>

definition harmless :: "manager_config \<Rightarrow> (clock \<Rightarrow> run_store \<Rightarrow> store_answer \<times> run_store) \<Rightarrow> bool" where
  "harmless c f \<longleftrightarrow> (\<forall>clk s. store_ok s \<longrightarrow> rows_kept (keeps (mc_worker c) clk) {} s (snd (f clk s)))"

lemma harmless_keeping: "harmless c f \<Longrightarrow> keeping_call c R {} P f (\<lambda>_ _. True)"
  by (rule keeping_call_plain) (simp add: harmless_def manager_store_ok)

lemma harmless_calls [simp]:
  "harmless c (do_get i u)" "harmless c (do_start i)" "harmless c (do_request_cancel i action)" "harmless c (do_progress i cp)"
  "harmless c (do_model_name i name)" "harmless c (do_list_expired b g)"
  "harmless c (do_completion i st True (Some (mc_worker c)) cp)" "harmless c (do_update_status i p (Some (mc_worker c)))"
  "harmless c (do_finalize i p (Some (mc_worker c)))"
  by (simp_all add: harmless_def keeping)

lemma harmless_claim [simp]: "config_ok c \<Longrightarrow> harmless c (do_claim i (grace_of c) e sr)"
  by (simp add: harmless_def keeping config_okD)

lemma sound_asked:
  assumes "lasting c R P" "harmless c f" "\<And>x. sound (k x) c R P"
  shows "sound (ask f k) c R P" "sound (call_store_with_retry c f k) c R P"
  by (rule sound_ask [OF assms(1) preserved_lasting [where N = "{}", simplified, OF assms(1) harmless_keeping [OF assms(2)]]
        harmless_keeping [OF assms(2)] accepts_plain [OF assms(3)]],
    rule sound_call [OF assms(1) harmless_keeping [OF assms(2)] accepts_plain [OF assms(3)]])

lemma sound_persist_current_status:
  assumes c: "config_ok c" and P: "lasting c R P" and R: "unlocked R" and k: "accepts c R P (\<lambda>_ _. True) k"
  shows "sound (persist_current_status c i k) c R P"
  unfolding persist_current_status_def
proof (rule sound_run_registry [OF P _ R])
  let ?G = "\<lambda>found :: (nat \<times> run_record) option. hands (map_option fst found)"
  show "lasting c R (?G found)" for found by (intro lasting_intros)
  show "accepts c R P ?G (ok_or k (\<lambda>found. case found of None \<Rightarrow> k (Inr False)
      | Some (r, rc) \<Rightarrow> persist_status c r (rc_status rc) (rc_error rc) (rc_stop_reason rc) (ok_or k (\<lambda>persisted.
           after_persist c r i (rc_status rc) persisted k))))"
    by (intro accepts_ok_or' [OF k] sound_option; clarsimp intro!: sound_return [OF k]
        simp: split_paired_all)
      (intro sound_persist_status c P R lasting_intros accepts_ok_or' [OF k] sound_after_persist accepts_weak [OF k]; simp)
qed (auto simp: hands_def held_registered)

text \<open>A finalization that the store has accepted.\<close>

lemma keeping_call_finalize:
  assumes "mc_worker c = w" "\<And>v. manager_ok c v \<Longrightarrow> P v \<Longrightarrow> present i v \<and> \<not> inflight (to_status p)"
  shows "keeping_call c R {} P (do_finalize i p (Some w)) (\<lambda>a v. is_finalized (Inr a) \<longrightarrow> acked i (to_status p) v)"
proof (rule keeping_callI, intro conjI impI)
  fix v assume v: "manager_ok c v" "P v"
  note ok = manager_store_ok [OF v(1)]
  show "rows_kept (keeps (mc_worker c) (vw_clock v)) {} (vw_store v) (snd (do_finalize i p (Some w) (vw_clock v) (vw_store v)))"
    using keeps_finalize [OF ok] assms(1) by simp
  assume "is_finalized (Inr (fst (do_finalize i p (Some w) (vw_clock v) (vw_store v))))"
  then obtain row where "od_get (st_runs (snd (do_finalize i p (Some w) (vw_clock v) (vw_store v)))) i = Some row"
    "rr_status row = to_status p"
    using store_ok_row [OF ok]
    by (auto simp: is_finalized_def do_finalize_def finalize_if_not_cancelled_def refused_def split: if_splits option.splits)
  then show "acked i (to_status p) (v\<lparr>vw_store := snd (do_finalize i p (Some w) (vw_clock v) (vw_store v))\<rparr>)"
    using assms(2) [OF v(1) v(2)] v(1) by (auto simp: acked_def present_def stored_as_def settled_def inflight_def)
qed

definition candidate_held :: "string \<Rightarrow> string \<Rightarrow> (nat \<times> terminal_outcome) option \<Rightarrow> view \<Rightarrow> bool" where
  "candidate_held i status found v \<longleftrightarrow> (case found of None \<Rightarrow> True
     | Some (r, outcome) \<Rightarrow> run_id_is r i v \<and> present i v \<and> to_status outcome = status)"

lemma lasting_candidate [lasting_intros]: "lasting c R (candidate_held i status found)"
  unfolding candidate_held_def by (cases found) (auto intro!: lasting_intros split: prod.split)

lemma candidate_registered:
  assumes "manager_ok c v"
  shows "candidate_held i status (finalize_candidate d i status e sr gv (vw_manager v)) v"
proof (cases "run_of v i")
  case (Some r)
  then have "run_id_is r i v" "present i v" using held_registered [OF assms Some] by (auto simp: held_def run_id_is_def)
  then show ?thesis using Some by (simp add: candidate_held_def finalize_candidate_def Let_def terminal_outcome_of_def)
qed (simp add: candidate_held_def finalize_candidate_def)

lemma sound_set_status_if_not_cancelled:
  assumes c: "config_ok c" and st: "\<not> inflight status" and P: "lasting c R P" and R: "unlocked R"
    and k: "accepts c R P (\<lambda>_ _. True) k"
  shows "sound (set_status_if_not_cancelled c i status error sr gv persist k) c R P"
  unfolding set_status_if_not_cancelled_def
proof (rule sound_if)
  show "sound (set_status c i status error sr gv persist (ok_or k (\<lambda>_. k (Inr None)))) c R P"
    by (intro sound_set_status c P R accepts_ok_or' [OF k] sound_return [OF k]; simp)
next
  let ?settle = "\<lambda>r a. case a of
      Inl TaskCancelled \<Rightarrow> fence_unconfirmed_terminal c r (\<lambda>_. k (Inl TaskCancelled))
    | Inr (Finalized f) \<Rightarrow>
        (if sf_finalized f then k (Inr None)
         else case sf_cancel_action f of
             Some action \<Rightarrow> alter (\<lambda>_. modify r (\<lambda>rc. rc\<lparr>rc_abort_action := action, rc_aborted := True\<rparr>)) (k (Inr (Some action)))
           | None \<Rightarrow> fence_unconfirmed_terminal c r (ok_or k (\<lambda>_. k (Inr None))))
    | _ \<Rightarrow> fence_unconfirmed_terminal c r (ok_or k (\<lambda>_. k (Inr None)))"
  let ?next = "\<lambda>r outcome. terminal_operation c r outcome is_finalized
    (call_store_with_retry c (do_finalize i outcome (Some (mc_worker c)))) (?settle r)"
  show "sound (run_registry i (\<lambda>_ m. (finalize_candidate c i status error sr gv m, m)) (ok_or k (\<lambda>found. case found of
      None \<Rightarrow> k (Inr None) | Some (r, outcome) \<Rightarrow> ?next r outcome))) c R P"
  proof (rule sound_run_registry [OF P lasting_candidate R _ _ accepts_ok_or' [OF k]])
    fix found
    let ?P = "\<lambda>v. P v \<and> candidate_held i status found v"
    have P': "lasting c R ?P" by (intro lasting_intros P)
    have ret: "sound (k x) c R ?P" for x by (cases x) (auto intro!: sound_return [OF k] sound_raise [OF k])
    have fence: "sound (fence_unconfirmed_terminal c r (\<lambda>_. k (Inl TaskCancelled))) c R ?P" for r
      by (intro sound_fence_unconfirmed P' accepts_plain ret)
    have fence': "sound (fence_unconfirmed_terminal c r (ok_or k (\<lambda>_. k (Inr None)))) c R ?P" for r
      by (intro sound_fence_unconfirmed P' accepts_ok_or' [OF k]; simp add: ret)
    have settle: "sound (?settle r a) c R ?P" for r a
      by (auto intro!: sound_alter [OF P'] mild_plain ret fence fence'
          split: sum.split manager_error.split store_answer.split option.split) (simp add: plain_simps)
    have "sound (?next r outcome) c R ?P" if found: "found = Some (r, outcome)" for r outcome
    proof (rule sound_terminal_operation [OF P'])
      show "accepts c R ?P (\<lambda>_ _. True) (?settle r)" by (rule accepts_plain [OF settle])
      fix k' assume k': "accepts c R ?P (\<lambda>a v. is_finalized (Inr a) \<longrightarrow> acked i (to_status outcome) v) k'"
      show "sound (call_store_with_retry c (do_finalize i outcome (Some (mc_worker c))) k') c R ?P"
        by (rule sound_call [OF P' keeping_call_finalize k']) (use st in \<open>auto simp: candidate_held_def found\<close>)
    qed (auto simp: candidate_held_def found config_okD [OF c])
    then show "sound (case found of None \<Rightarrow> k (Inr None) | Some (r, outcome) \<Rightarrow> ?next r outcome) c R ?P"
      using ret by (auto split: option.split)
  qed (simp_all add: candidate_registered)
qed

lemma sound_set_finalizing:
  assumes P: "lasting c R P" and R: "unlocked R" and k: "accepts c R P (\<lambda>_ _. True) k"
  shows "sound (set_finalizing i b k) c R P"
  unfolding set_finalizing_def
  by (rule sound_registry_plain [OF P R _ k]) (auto split: option.split intro!: mild_plain simp: plain_simps)

lemma sound_wait_for_prior:
  assumes P: "lasting c R P" and k: "accepts c R P (\<lambda>_ _. True) k"
  shows "sound (wait_for_prior_finalizing t i abort k) c R P"
  unfolding wait_for_prior_finalizing_def
  by (rule sound_await [OF P]) (auto split: if_splits intro!: sound_return [OF k] sound_raise [OF k])

section \<open>Starting\<close>

definition keyless :: "resource set \<Rightarrow> bool" where
  "keyless R \<longleftrightarrow> (\<forall>key. Key key \<notin> R)"

lemma keyless_unlocked [simp]: "keyless R \<Longrightarrow> unlocked R"
  "keyless R \<Longrightarrow> unlocked (insert (Key (StartLock r)) R)" "keyless R \<Longrightarrow> unlocked (insert (Key (SnapshotLock i)) R)"
  by (simp_all add: keyless_def unlocked_def)

lemma sound_finish_start:
  assumes c: "config_ok c" and P: "lasting c R P" and R: "unlocked R" and r: "\<And>v. manager_ok c v \<Longrightarrow> P v \<Longrightarrow> held r v"
    and k: "accepts c R P (\<lambda>_ _. True) k"
  shows "sound (finish_start c i r k) c R P"
  unfolding finish_start_def
proof (rule sound_registry_plain [OF P R])
  show "mild c v (vw_manager v) (snd (enter_running i r (vw_clock v) (vw_manager v)))" for v :: view
    by (auto simp: enter_running_def Let_def plain_simps intro!: mild_plain)
  show "accepts c R P (\<lambda>_ _. True) (ok_or k (\<lambda>restore. case restore of None \<Rightarrow> k (Inr True)
     | Some rc \<Rightarrow> (if mc_store c
         then persist_status c r (rc_status rc) (rc_error rc) (rc_stop_reason rc) (ok_or k (\<lambda>_. k (Inr False)))
         else k (Inr False))))"
    by (intro accepts_ok_or' [OF k] sound_option sound_if sound_persist_status [OF c] lasting_intros P r sound_return [OF k]) simp_all
qed

lemma sound_start_locked:
  assumes c: "config_ok c" and P: "lasting c R P" and R: "unlocked R" and r: "\<And>v. manager_ok c v \<Longrightarrow> P v \<Longrightarrow> held r v"
    and k: "accepts c R P (\<lambda>_ _. True) k"
  shows "sound (start_locked c i r k) c R P"
  unfolding start_locked_def
proof (rule sound_registry_plain [OF P R])
  have ret: "sound (k x) c R P" for x by (cases x) (auto intro!: sound_return [OF k] sound_raise [OF k])
  have finish: "sound (finish_start c i r k) c R P" by (rule sound_finish_start [OF c P R r k])
  have refuse: "sound (run_registry i (\<lambda>clk m. ((), refuse_start r clk m)) (ok_or k (\<lambda>_. k (Inr False)))) c R P"
    by (rule sound_registry_plain [OF P R])
      (auto simp: refuse_start_def plain_simps intro!: mild_plain accepts_ok_or' [OF k] sound_return [OF k])
  have "sound (if cancelled then k (Inr False) else if \<not> mc_store c then finish_start c i r k
      else call_store_with_retry c (do_start i) (\<lambda>a. case a of
           Inl TaskCancelled \<Rightarrow> k (Inl TaskCancelled)
         | Inl _ \<Rightarrow> k (Inl (RunStartupError (''Failed to start run '' @ i)))
         | Inr (Flag False) \<Rightarrow> run_registry i (\<lambda>clk m. ((), refuse_start r clk m)) (ok_or k (\<lambda>_. k (Inr False)))
         | Inr _ \<Rightarrow> finish_start c i r k)) c R P" for cancelled
    by (intro sound_if ret finish sound_asked(2) [OF P])
      (auto split: sum.split manager_error.split store_answer.split bool.split simp: ret finish refuse)
  then show "accepts c R P (\<lambda>_ _. True) (ok_or k (\<lambda>cancelled. if cancelled then k (Inr False)
       else if \<not> mc_store c then finish_start c i r k
       else call_store_with_retry c (do_start i) (\<lambda>a. case a of
           Inl TaskCancelled \<Rightarrow> k (Inl TaskCancelled)
         | Inl _ \<Rightarrow> k (Inl (RunStartupError (''Failed to start run '' @ i)))
         | Inr (Flag False) \<Rightarrow> run_registry i (\<lambda>clk m. ((), refuse_start r clk m)) (ok_or k (\<lambda>_. k (Inr False)))
         | Inr _ \<Rightarrow> finish_start c i r k)))"
    by (intro accepts_ok_or' [OF k]) simp_all
qed simp

lemma sound_try_start:
  assumes c: "config_ok c" and P: "lasting c R P" and R: "keyless R" and k: "accepts c R P (\<lambda>_ _. True) k"
  shows "sound (try_start c i k) c R P"
  unfolding try_start_def
proof (intro sound_find P keyless_unlocked(1) R accepts_ok_or' [OF k] sound_option)
  fix found :: "nat option" and r
  let ?P = "\<lambda>v. P v \<and> hands found v"
  have P': "lasting c R ?P" by (intro lasting_intros P)
  show "sound (k (Inl e)) c R ?P" for e by (rule sound_raise [OF k]) simp
  assume found: "found = Some r"
  have k': "accepts c R ?P (\<lambda>_ _. True) k" by (rule accepts_weak [OF k]) simp_all
  show "sound (holding (StartLock r) (start_locked c i r) k) c R ?P"
    by (rule sound_holding [OF P' lasting_const _ _ k'], use R in \<open>simp add: keyless_def\<close>,
      rule sound_start_locked [OF c]) (use R found in \<open>auto intro!: lasting_intros P\<close>)
qed

lemma sound_fail_start:
  assumes c: "config_ok c" and P: "lasting c R P" and R: "unlocked R" and k: "accepts c R P (\<lambda>_ _. True) k"
  shows "sound (fail_start_if_pending c i error k) c R P"
  unfolding fail_start_if_pending_def
proof (rule sound_run_registry [OF P lasting_hands R])
  let ?f = "\<lambda>clk m. case od_get (mg_runs m) i of
       None \<Rightarrow> (None, m)
     | Some r \<Rightarrow> (if rc_status (mg_heap m r) \<noteq> ''pending'' then (None, m)
         else (Some r, modify r (\<lambda>rc. rc\<lparr>rc_status := ''error'', rc_persisted := \<not> mc_store c, rc_error := Some error,
                 rc_aborted := True, rc_updated_at := clk_iso clk\<rparr>) m))"
  fix v :: view assume v: "manager_ok c v" "P v"
  show mild: "mild c v (vw_manager v) (snd (?f (vw_clock v) (vw_manager v)))"
    by (auto split: option.split intro!: mild_plain simp: plain_simps)
  show "hands (fst (?f (vw_clock v) (vw_manager v))) (v\<lparr>vw_manager := snd (?f (vw_clock v) (vw_manager v))\<rparr>)"
    using registry_held [OF v(1), of i] mild by (auto simp: hands_def split: option.splits if_splits)
next
  have mild: "mild c v m (if od_get (mg_runs m) i = Some r then modify r (\<lambda>rc. rc\<lparr>rc_persisted := b\<rparr>) m else m)" for v m r b
    by (auto intro!: mild_plain simp: plain_simps)
  show "accepts c R P hands (ok_or k (\<lambda>failed. case failed of None \<Rightarrow> k (Inr False)
      | Some r \<Rightarrow> persist_status c r ''error'' (Some error) None (ok_or k (\<lambda>persisted.
           run_registry i (\<lambda>_ m. ((), if od_get (mg_runs m) i = Some r
               then modify r (\<lambda>rc. rc\<lparr>rc_persisted := persisted\<rparr>) m else m)) (ok_or k (\<lambda>_. k (Inr True)))))))"
    by (intro accepts_ok_or' [OF k] sound_option sound_persist_status c lasting_intros P sound_registry_plain R sound_return [OF k])
      (simp_all add: mild)
qed

section \<open>Completion data and progress\<close>

lemma sound_complete_run:
  assumes c: "config_ok c" and P: "lasting c R P" and R: "unlocked R" and k: "accepts c R P (\<lambda>_ _. True) k"
  shows "sound (complete_run c i status cp k) c R P"
proof -
  have ret: "sound (k x) c R P" for x by (cases x) (auto intro!: sound_return [OF k] sound_raise [OF k])
  have call: "sound (call_store_with_retry c (do_completion i status True (Some (mc_worker c)) cp') (\<lambda>a.
      if a = Inl TaskCancelled then k (Inl TaskCancelled) else k (Inr ()))) c R P" for cp'
    by (rule sound_asked(2) [OF P]) (simp_all add: ret)
  have next_: "sound (case staged of None \<Rightarrow> k (Inr ())
     | Some (target, cp') \<Rightarrow>
         (if \<not> mc_store c then k (Inr ())
          else if heartbeat_enabled c
          then look (\<lambda>_ m. unattributed status (map_option (\<lambda>t. mg_heap m (fst t)) target)) (\<lambda>dropped.
            if dropped then k (Inr ())
            else call_store_with_retry c (do_completion i status True (Some (mc_worker c)) cp') (\<lambda>a.
              if a = Inl TaskCancelled then k (Inl TaskCancelled) else k (Inr ())))
          else complete_unowned c i status target cp' k)) c R P" for staged
    using config_okD [OF c] by (auto simp: ret call split: option.split intro!: sound_look_plain [OF P])
  show ?thesis
    unfolding complete_run_def
    by (rule sound_registry_plain [OF P R]) (simp, intro accepts_ok_or' [OF k], simp_all add: next_)
qed

lemma sound_write_progress:
  assumes P: "lasting c R P" and R: "unlocked R" and k: "accepts c R P (\<lambda>_ _. True) k"
  shows "sound (write_run_progress c acc u i cp k) c R P"
proof -
  have ret: "sound (k x) c R P" for x by (cases x) (auto intro!: sound_return [OF k] sound_raise [OF k])
  show ?thesis
    unfolding write_run_progress_def
    by (rule sound_registry_plain [OF P R]) (simp, intro accepts_ok_or' [OF k], auto simp: ret intro!: sound_asked(1) [OF P])
qed

lemma sound_set_model_name:
  assumes P: "lasting c R P" and R: "unlocked R" and k: "accepts c R P (\<lambda>_ _. True) k"
  shows "sound (set_model_name c i name k) c R P"
proof -
  have ret: "sound (k x) c R P" for x by (cases x) (auto intro!: sound_return [OF k] sound_raise [OF k])
  show ?thesis
    unfolding set_model_name_def
    by (rule sound_registry_plain [OF P R])
      (auto split: option.split simp: plain_simps ret intro!: mild_plain accepts_ok_or' [OF k] sound_asked(2) [OF P])
qed

section \<open>Cancellation\<close>

lemma plain_signal [simp]: "plain (signal_cancel action)"
  by (simp add: plain_simps)

lemma sound_request_durable:
  assumes P: "lasting c R P" and k: "accepts c R P (\<lambda>_ _. True) k"
  shows "sound (request_durable_cancel c i action k) c R P"
proof -
  have ret: "sound (k x) c R P" for x by (cases x) (auto intro!: sound_return [OF k] sound_raise [OF k])
  show ?thesis
    unfolding request_durable_cancel_def
    by (intro sound_if ret sound_asked(2) [OF P])
      (auto split: sum.split manager_error.split store_answer.split option.split simp: ret intro!: sound_asked(1) [OF P])
qed

lemma sound_signal_local:
  assumes P: "lasting c R P" and R: "unlocked R" and k: "accepts c R P (\<lambda>_ _. True) k"
  shows "sound (signal_local_cancel i action k) c R P"
  unfolding signal_local_cancel_def
  by (rule sound_registry_plain [OF P R _ k]) (auto split: option.split simp: Let_def intro!: mild_plain)

lemma sound_request_remote:
  assumes P: "lasting c R P" and k: "accepts c R P (\<lambda>_ _. True) k"
  shows "sound (request_remote_cancel c i action k) c R P"
  unfolding request_remote_cancel_def
  by (intro sound_request_durable [OF P] accepts_ok_or' [OF k] sound_return [OF k]) simp_all

lemma sound_cancel_elsewhere:
  assumes c: "config_ok c" and P: "lasting c R P" and k: "accepts c R P (\<lambda>_ _. True) k"
  shows "sound (cancel_elsewhere c i action err k) c R P"
proof -
  have ret: "sound (k x) c R P" for x by (cases x) (auto intro!: sound_return [OF k] sound_raise [OF k])
  note remote = sound_request_remote [OF P k, of i action]
  show ?thesis
    unfolding cancel_elsewhere_def
    by (rule sound_asked(1) [OF P], simp)
      (auto split: sum.split manager_error.split store_answer.split option.split bool.split simp: ret remote c
        intro!: sound_asked [OF P] sound_look_plain [OF P])
qed

lemma sound_persist_cancel:
  assumes c: "config_ok c" and P: "lasting c R P" and R: "unlocked R" and r: "\<And>v. manager_ok c v \<Longrightarrow> P v \<Longrightarrow> held r v"
    and k: "accepts c R P (\<lambda>_ _. True) k"
  shows "sound (persist_cancel c i r k) c R P"
proof -
  have ret: "sound (k x) c R P" for x by (cases x) (auto intro!: sound_return [OF k] sound_raise [OF k])
  have fetch: "sound (ask (do_get i None) (\<lambda>a. case a of
      Inl TaskCancelled \<Rightarrow> k (Inl TaskCancelled)
    | Inr (Row (Some row)) \<Rightarrow> k (Inr (if rr_status row = ''error'' then TakenOver else CancelDone))
    | _ \<Rightarrow> k (Inr CancelDone))) c R P"
    by (rule sound_asked(1) [OF P]) (auto split: sum.split manager_error.split store_answer.split option.split simp: ret)
  have mild: "mild c v m (if od_get (mg_runs m) i = Some r then note_persisted c r b m else m)" for v m b by simp
  show ?thesis
    unfolding persist_cancel_def
    by (intro sound_look_plain [OF P] sound_if ret sound_persist_status [OF c P r] accepts_ok_or' [OF k]
        sound_registry_plain [OF _ R] lasting_intros P) (simp_all add: mild ret fetch)
qed

lemma sound_mark_cancel:
  assumes c: "config_ok c" and P: "lasting c R P" and R: "unlocked R" and k: "accepts c R P (\<lambda>_ _. True) k"
  shows "sound (mark_cancel c i action err durable k) c R P"
proof -
  have ret: "sound (k x) c R P" for x by (cases x) (auto intro!: sound_return [OF k] sound_raise [OF k])
  let ?G = "\<lambda>staged :: cancel_outcome + nat option. hands (case staged of Inl _ \<Rightarrow> None | Inr found \<Rightarrow> found)"
  show ?thesis
    unfolding mark_cancel_def
  proof (rule sound_run_registry [OF P _ R])
    show "lasting c R (?G staged)" for staged by (intro lasting_intros)
    fix v :: view assume v: "manager_ok c v" "P v"
    show mild: "mild c v (vw_manager v) (snd (stage_cancel c i action durable (vw_clock v) (vw_manager v)))" by simp
    show "?G (fst (stage_cancel c i action durable (vw_clock v) (vw_manager v)))
        (v\<lparr>vw_manager := snd (stage_cancel c i action durable (vw_clock v) (vw_manager v))\<rparr>)"
      using registry_held [OF v(1) _ mild, of i]
      by (auto simp: hands_def stage_cancel_def Let_def split: option.splits if_splits)
  next
    have "sound (case staged of Inl outcome \<Rightarrow> k (Inr outcome) | Inr (Some r) \<Rightarrow> persist_cancel c i r k
        | Inr None \<Rightarrow> (if durable then k (Inr CancelDone) else if \<not> heartbeat_enabled c then k (Inr NotActiveLocally)
           else if \<not> mc_store c then k (Inr CancelUnknown) else cancel_elsewhere c i action err k)) c R (\<lambda>v. P v \<and> ?G staged v)" for staged
    proof -
      have P': "lasting c R (\<lambda>v. P v \<and> ?G staged v)" by (intro lasting_intros P)
      have k': "accepts c R (\<lambda>v. P v \<and> ?G staged v) (\<lambda>_ _. True) k" by (rule accepts_weak [OF k]) simp_all
      show ?thesis
      proof (cases staged)
        case (Inr found)
        show ?thesis
        proof (cases found)
          case None
          then show ?thesis using sound_cancel_elsewhere [OF c P k, of i action err] ret by (auto simp: Inr)
        next
          case (Some r)
          have "sound (persist_cancel c i r k) c R (\<lambda>v. P v \<and> ?G staged v)"
            by (rule sound_persist_cancel [OF c P' R _ k']) (simp add: Inr Some)
          then show ?thesis by (simp add: Inr Some)
        qed
      qed (simp add: ret)
    qed
    then show "accepts c R P ?G (ok_or k (\<lambda>staged. case staged of Inl outcome \<Rightarrow> k (Inr outcome) | Inr (Some r) \<Rightarrow> persist_cancel c i r k
        | Inr None \<Rightarrow> (if durable then k (Inr CancelDone) else if \<not> heartbeat_enabled c then k (Inr NotActiveLocally)
           else if \<not> mc_store c then k (Inr CancelUnknown) else cancel_elsewhere c i action err k)))"
      by (intro accepts_ok_or' [OF k]; simp)
  qed
qed

lemma sound_cancel:
  assumes c: "config_ok c" and P: "lasting c R P" and R: "unlocked R" and k: "accepts c R P (\<lambda>_ _. True) k"
  shows "sound (cancel c i action err k) c R P"
proof -
  have ret: "sound (k x) c R P" for x by (cases x) (auto intro!: sound_return [OF k] sound_raise [OF k])
  note mark = sound_mark_cancel [OF c P R k]
  have request: "sound (request_durable_cancel c i action (ok_or k (\<lambda>x. case x of
      (CancelRequested, winner) \<Rightarrow> mark_cancel c i (case winner of Some w \<Rightarrow> w | None \<Rightarrow> action) err True k
    | (CancelUnknown, _) \<Rightarrow> mark_cancel c i action err False k
    | (LeaseValidElsewhere, _) \<Rightarrow> mark_cancel c i action err False k
    | (outcome, _) \<Rightarrow> k (Inr outcome)))) c R P"
    by (rule sound_request_durable [OF P], rule accepts_ok_or' [OF k])
      (auto split: prod.split cancel_outcome.split simp: ret mark)
  show ?thesis
    unfolding cancel_def
    by (rule sound_registry_plain [OF P R], simp, rule accepts_ok_or' [OF k])
      (auto split: sum.split simp: ret mark request)
qed

section \<open>Orphans and cleanup\<close>

lemma sound_reconcile_rows:
  assumes c: "config_ok c" and P: "lasting c R P" and k: "accepts c R P (\<lambda>_ _. True) k"
  shows "sound (reconcile_rows c error sr rs recovered k) c R P"
proof (induction rs arbitrary: recovered)
  case Nil
  then show ?case by (simp add: sound_return [OF k])
next
  case (Cons row rs)
  have ret: "sound (k x) c R P" for x by (cases x) (auto intro!: sound_return [OF k] sound_raise [OF k])
  show ?case
    by (auto split: option.split sum.split manager_error.split store_answer.split bool.split
        simp: ret c Cons.IH intro!: sound_look_plain [OF P] sound_asked(2) [OF P])
qed

lemma sound_reconcile:
  assumes c: "config_ok c" and P: "lasting c R P" and k: "accepts c R P (\<lambda>_ _. True) k"
  shows "sound (reconcile_orphaned_inflight_runs c error before sr k) c R P"
proof -
  have ret: "sound (k x) c R P" for x by (cases x) (auto intro!: sound_return [OF k] sound_raise [OF k])
  show ?thesis
    unfolding reconcile_orphaned_inflight_runs_def
    by (intro sound_if ret sound_asked(2) [OF P])
      (auto split: sum.split manager_error.split store_answer.split simp: ret sound_reconcile_rows [OF c P k])
qed

lemma sound_cleanup:
  assumes P: "lasting c R P" and R: "unlocked R" and k: "accepts c R P (\<lambda>_ _. True) k"
  shows "sound (cleanup c i k) c R P"
proof -
  have ret: "sound (k x) c R P" for x by (cases x) (auto intro!: sound_return [OF k] sound_raise [OF k])
  have pop: "sound (run_registry i (\<lambda>_ m. ((), pop_run i m)) k) c R P"
    by (rule sound_registry_plain [OF P R _ k]) simp
  show ?thesis
    unfolding cleanup_def
    by (intro sound_if ret sound_registry_plain [OF P R] accepts_ok_or' [OF k] sound_await)
      (auto split: option.splits if_splits simp: P ret pop)
qed

lemma sound_owns_active:
  assumes P: "lasting c R P" and R: "unlocked R" and k: "accepts c R P (\<lambda>_ _. True) k"
  shows "sound (owns_active_admission c r k) c R P"
proof -
  have ret: "sound (k x) c R P" for x by (cases x) (auto intro!: sound_return [OF k] sound_raise [OF k])
  have lost: "sound (mark_ownership_lost c r reason (\<lambda>_. k (Inr False))) c R P" for reason
    by (rule sound_mark_lost [OF P ret])
  show ?thesis
    unfolding owns_active_admission_def
    by (intro sound_look_plain [OF P] sound_registry_plain [OF P R] accepts_ok_or' [OF k])
      (auto simp: ret lost ok_or_def intro!: sound_asked(1) [OF P] sound_look_plain [OF P]
        split: sum.split store_answer.split option.split prod.split)
qed

lemma sound_get_run:
  assumes P: "lasting c R P" and R: "unlocked R" and k: "accepts c R P (\<lambda>_ _. True) k"
  shows "sound (get_run c i u b k) c R P"
proof -
  have ret: "sound (k x) c R P" for x by (cases x) (auto intro!: sound_return [OF k] sound_raise [OF k])
  have local: "sound (local_run i (ok_or k g)) c R P" if "\<And>x. sound (g x) c R P" for g
    unfolding local_run_def by (rule sound_registry_plain [OF P R], simp, rule accepts_ok_or' [OF k]) (simp_all add: that)
  show ?thesis
    unfolding get_run_def
    by (rule local)
      (auto simp: ret intro!: local sound_asked(1) [OF P] split: sum.split option.split store_answer.split)
qed

lemma sound_list_runs:
  assumes P: "lasting c R P" and R: "unlocked R" and k: "accepts c R P (\<lambda>_ _. True) k"
  shows "sound (list_runs_by_thread c t u limit bc bi k) c R P"
proof -
  have ret: "sound (k x) c R P" for x by (cases x) (auto intro!: sound_return [OF k] sound_raise [OF k])
  have rows: "harmless c (\<lambda>clk s. (Rows (page_rows clk t u limit local bc' bi' s), s))" for local bc' bi'
    by (simp add: harmless_def)
  show ?thesis
    unfolding list_runs_by_thread_def Let_def
    by (intro sound_if ret sound_look_plain [OF P] sound_thread_registry [OF P lasting_const R] accepts_ok_or' [OF k] sound_asked(1))
      (auto simp: ret rows P intro!: sound_look_plain [OF P]
        split: sum.split manager_error.split store_answer.split)
qed

end
