(* ===== verification/ManagerAdmission.thy ===== *)
theory ManagerAdmission
  imports ManagerMethods
begin

text \<open>
  Creating runs is sound: until its record is registered, the row of a new run belongs to the task that creates
  it, and at that moment the row holds the lease that the record shows.
\<close>

section \<open>Giving up the id of a new run\<close>

lemma rows_rely_shrink: "rows_rely R v (v\<lparr>vw_new := vw_new v - N\<rparr>)"
  by (simp add: rows_rely_def row_rely_def) (auto split: option.split intro: evolves_refl)

lemma shrink_ok: "manager_ok c v \<Longrightarrow> manager_ok c (v\<lparr>vw_new := vw_new v - N\<rparr>)"
  by (rule manager_ok_rely [OF _ rows_rely_shrink]) (simp_all add: manager_ok_def store_within_def row_bound_def)

lemma after_section_drop:
  assumes "fits c R v" "NewRun ` N \<subseteq> R"
  shows "after_section R (R - NewRun ` N) m' v = v\<lparr>vw_manager := m', vw_new := vw_new v - N\<rparr>"
proof -
  have "{i. NewRun i \<in> R \<and> NewRun i \<notin> R - NewRun ` N} = N" using assms(2) by auto
  then show ?thesis by (simp add: after_section_def)
qed

lemma rely_drop:
  assumes "manager_rely R (vw_manager v) m'"
  shows "rely R v (v\<lparr>vw_manager := m', vw_new := vw_new v - N\<rparr>)"
  using assms rows_rely_shrink [of R v N] by (simp add: rely_def rows_rely_def row_rely_def)

lemma fits_drop:
  assumes "fits c R v" "manager_ok c (v\<lparr>vw_manager := m', vw_new := vw_new v - N\<rparr>)"
    and "mg_next_future (vw_manager v) \<le> mg_next_future m'"
  shows "fits c (R - NewRun ` N) (v\<lparr>vw_manager := m', vw_new := vw_new v - N\<rparr>)"
  using assms by (auto simp: fits_def)

lemma sound_alter_drop:
  assumes P: "lasting c (R - NewRun ` N) P" and R: "lasting c R P" "NewRun ` N \<subseteq> R"
    and mild: "\<And>v. fits c R v \<Longrightarrow> P v \<Longrightarrow> mild c v (vw_manager v) (f (vw_clock v) (vw_manager v))"
    and p: "sound p c (R - NewRun ` N) P"
  shows "sound (alter f p) c R P"
  unfolding alter_def
proof (rule sound_Section [OF R(1)])
  fix v assume v: "fits c R v" "P v"
  let ?m = "f (vw_clock v) (vw_manager v)" and ?R = "R - NewRun ` N"
  let ?v = "v\<lparr>vw_manager := ?m, vw_new := vw_new v - N\<rparr>"
  note m = mild [OF v]
  have "manager_ok c ?v" using shrink_ok [OF mild_ok [OF fitsD [OF v(1)] m], of N] by simp
  then have fits: "fits c ?R ?v" using m by (intro fits_drop [OF v(1)]) (simp_all add: mild_def)
  have "manager_rely ?R (vw_manager v) ?m" using mild_rely [OF m] v(1) by (simp add: fits_def)
  then have "rely ?R v ?v" by (rule rely_drop)
  then have "P ?v" by (intro lastingD [OF P fits_mono [OF v(1)] fits v(2)]) auto
  moreover have "moves c R ?R v ?m"
    using mild_guarantees [OF m] fits by (auto simp: moves_def after_section_drop [OF v(1) R(2)])
  ultimately show "\<exists>R' P'. moves c R R' v ?m \<and> P' (after_section R R' ?m v) \<and> sound p c R' P'"
    using p by (intro exI [of _ ?R] exI [of _ P]) (simp add: after_section_drop [OF v(1) R(2)])
qed

section \<open>Registering a run\<close>

lemma registered_ok:
  assumes ok: "manager_ok c v" and r: "fresh r i lease (mc_worker c) v" and row: "created (mc_worker c) i lease v"
    and m: "mg_heap m' = mg_heap (vw_manager v)" "mg_next m' = mg_next (vw_manager v)" "mg_runs m' = od_set i r (mg_runs (vw_manager v))"
      "mg_operations m' = mg_operations (vw_manager v)" "mg_futures m' = mg_futures (vw_manager v)"
      "mg_next_future m' = mg_next_future (vw_manager v)"
  shows "manager_ok c (v\<lparr>vw_manager := m', vw_new := vw_new v - {i}\<rparr>)"
proof -
  define u where "u = v\<lparr>vw_new := vw_new v - {i}\<rparr>"
  have u: "vw_manager u = vw_manager v" "manager_ok c u" using shrink_ok [OF ok, of "{i}"] by (simp_all add: u_def)
  have "record_ok c u i (rec_of v r)"
    using r row by (simp add: leased_def record_ok_def fresh_def present_def created_def u_def)
  then have "manager_ok c (u\<lparr>vw_manager := m'\<rparr>)"
    using u m r by (simp add: manager_parts update_conv' fresh_def known_def)
  then show ?thesis unfolding u_def by (cases v) simp
qed

text \<open>A section that files the record of a new run under its id.\<close>

definition files :: "string \<Rightarrow> nat \<Rightarrow> manager \<Rightarrow> manager \<Rightarrow> bool" where
  "files i r m m' \<longleftrightarrow> mg_heap m' = mg_heap m \<and> mg_next m' = mg_next m \<and> mg_runs m' = od_set i r (mg_runs m)
     \<and> mg_operations m' = mg_operations m \<and> mg_futures m' = mg_futures m \<and> mg_next_future m' = mg_next_future m"

lemma register_files: "files (rc_run_id (mg_heap m r)) r m (register r m)"
  by (simp add: files_def register_def index_run_locked_def Let_def)

lemma admission_files: "mc_store c \<Longrightarrow>
    files (rc_run_id (mg_heap m r)) r m (snd (complete_admission c strategy r rs u clk m))
    \<and> fst (complete_admission c strategy r rs u clk m) = []"
  using register_files [of m r]
  by (simp add: complete_admission_def files_def arm_lease_deadline_def clear_lease_deadline_def Let_def)

lemma files_moves:
  assumes fit: "fits c R v" and new: "NewRun i \<in> R" and r: "fresh r i lease (mc_worker c) v" and row: "created (mc_worker c) i lease v"
    and files: "files i r (vw_manager v) m'"
  shows "moves c R (R - {NewRun i}) v m'" "rely (R - {NewRun i}) v (after_section R (R - {NewRun i}) m' v)"
    "held r (after_section R (R - {NewRun i}) m' v)"
proof -
  let ?v = "v\<lparr>vw_manager := m', vw_new := vw_new v - {i}\<rparr>"
  note after = after_section_drop [OF fit, of "{i}", simplified, OF new]
  note m = files [unfolded files_def]
  have ok: "manager_ok c ?v" by (rule registered_ok [OF fitsD [OF fit] r row]) (use m in simp_all)
  have fits: "fits c (R - {NewRun i}) ?v" using fits_drop [OF fit, where N = "{i}"] ok m by simp
  have rely: "manager_rely R' (vw_manager v) m'" if "NewRun i \<notin> R'" for R'
    using m that by (simp add: manager_rely_parts update_conv' record_step_def same_future_def)
  then show "rely (R - {NewRun i}) v (after_section R (R - {NewRun i}) m' v)"
    unfolding after by (intro rely_drop) simp
  have "guarantees R v m'" using rely new by (auto simp: guarantees_def)
  then show "moves c R (R - {NewRun i}) v m'" using fits by (auto simp: moves_def after)
  show "held r (after_section R (R - {NewRun i}) m' v)"
    using r row m by (simp add: after held_def fresh_def known_def present_def created_def)
qed

lemma sound_files:
  assumes P: "lasting c (R - {NewRun i}) P" and R: "NewRun i \<in> R"
    and files: "\<And>v. fits c R v \<Longrightarrow> fresh r i lease (mc_worker c) v \<Longrightarrow> files i r (vw_manager v) (snd (f (vw_clock v) (vw_manager v)))"
    and result: "\<And>clk m. H (fst (f clk m))"
    and k: "\<And>x. H x \<Longrightarrow> sound (k x) c (R - {NewRun i}) (\<lambda>v. P v \<and> held r v)"
  shows "sound (sect f k) c R (\<lambda>v. P v \<and> fresh r i lease (mc_worker c) v \<and> created (mc_worker c) i lease v)"
  unfolding sect_def
proof (rule sound_Section)
  have "lasting c R P" by (rule lasting_mono [OF P]) blast
  then show "lasting c R (\<lambda>v. P v \<and> fresh r i lease (mc_worker c) v \<and> created (mc_worker c) i lease v)"
    using R by (intro lasting_intros)
  fix v assume v: "fits c R v" "P v \<and> fresh r i lease (mc_worker c) v \<and> created (mc_worker c) i lease v"
  let ?m = "snd (f (vw_clock v) (vw_manager v))" and ?R = "R - {NewRun i}"
  note moves = files_moves [OF v(1) R _ _ files [OF v(1)]]
  have mv: "moves c R ?R v ?m" and rel: "rely ?R v (after_section R ?R ?m v)" and held: "held r (after_section R ?R ?m v)"
    using moves v(2) by blast+
  have "P (after_section R ?R ?m v)"
    by (rule lastingD [OF P fits_mono [OF v(1)] _ _ rel]) (use mv v(2) in \<open>auto simp: moves_def\<close>)
  then show "\<exists>R' P'. moves c R R' v ?m \<and> P' (after_section R R' ?m v)
      \<and> sound (k (fst (f (vw_clock v) (vw_manager v)))) c R' P'"
    using mv held k [OF result] by (intro exI [of _ ?R] exI [of _ "\<lambda>v. P v \<and> held r v"]) blast
qed

section \<open>Replacement\<close>

lemma fst_begin_attempts: "map fst (fst (begin_attempts rs m)) = rs"
  by (induction rs arbitrary: m) (simp_all add: Let_def case_prod_beta)

lemma claimed_row_Some: "claimed_row d claims rc = Some row \<Longrightarrow> row \<in> set claims \<and> rr_run_id row = rc_run_id rc"
  by (auto simp: claimed_row_def find_Some_iff split: option.splits if_splits) (metis nth_mem set_rev length_rev)+

lemma mild_settle:
  assumes ok: "manager_ok c v" and m: "mild c v (vw_manager v) m" and cl: "claims_hold r claims v" and st: "mc_store d"
  shows "mild c v m (settle_claim d action claims clk (r, b, f, q) m)"
proof (cases "claimed_row d claims (mg_heap m r)")
  case None
  then show ?thesis by (simp add: settle_claim_def Let_def)
next
  case (Some row)
  let ?m1 = "modify r (\<lambda>rc. rc\<lparr>rc_rollback_pending := (action = ''rollback'' \<and> task_active (mg_heap m r))\<rparr>) m"
  let ?outcome = "\<lparr>to_status = ''interrupted'', to_error = rr_error row, to_stop_reason = rr_stop_reason row, to_goal_verdict = rr_goal_verdict row\<rparr>"
  let ?m2 = "acknowledge_terminal d r ?outcome q clk ?m1"
  have m1: "mild c v m ?m1" by (rule mild_plain) (simp add: plain_simps)
  have row: "row \<in> set claims" "rr_run_id row = rc_run_id (mg_heap m r)" using claimed_row_Some [OF Some] by simp_all
  have "rc_run_id (mg_heap m r) = rc_run_id (rec_of v r)" using m cl by (auto simp: claims_hold_def known_def mild_def record_mild_def record_step_def)
  then have "acked (rc_run_id (mg_heap ?m1 r)) ''interrupted'' v"
    using cl row by (auto simp: claims_hold_def modify_def)
  then have "mild c v ?m1 ?m2"
    by (intro mild_acknowledge [OF ok mild_trans [OF m m1] _ st]) simp
  moreover have "mild c v ?m2 (modify r (\<lambda>rc. rc\<lparr>rc_abort_action := action, rc_aborted := True,
      rc_task_cancelled := rc_task_cancelled rc \<or> (task_active (mg_heap m r) \<and> \<not> rc_finalizing rc),
      rc_finalizing := task_active (mg_heap m r)\<rparr>) ?m2)"
    by (rule mild_plain) (simp add: plain_simps)
  ultimately show ?thesis
    using mild_trans [OF m1 mild_trans] by (simp add: settle_claim_def Let_def Some)
qed

lemma mild_settle_all:
  assumes ok: "manager_ok c v" and m: "mild c v (vw_manager v) m" and st: "mc_store d"
    and cl: "\<forall>r \<in> fst ` set ts. claims_hold r claims v"
  shows "mild c v m (fold (settle_claim d action claims clk) ts m)"
  using m cl
proof (induction ts arbitrary: m)
  case (Cons t ts)
  obtain r b f q where t: "t = (r, b, f, q)" by (cases t)
  have step: "mild c v m (settle_claim d action claims clk t m)"
    unfolding t by (rule mild_settle [OF ok Cons.prems(1) _ st]) (use Cons.prems(2) t in simp)
  have "mild c v (settle_claim d action claims clk t m) (fold (settle_claim d action claims clk) ts (settle_claim d action claims clk t m))"
    by (rule Cons.IH [OF mild_trans [OF Cons.prems(1) step]]) (use Cons.prems(2) in simp)
  then show ?case using mild_trans [OF step] by simp
qed simp

text \<open>What a successful transaction tells of the new run and of the replaced ones.\<close>

definition admitted :: "manager_config \<Rightarrow> string \<Rightarrow> string option \<Rightarrow> nat list \<Rightarrow> store_answer \<Rightarrow> view \<Rightarrow> bool" where
  "admitted c i lease rs a v \<longleftrightarrow> created (mc_worker c) i lease v
     \<and> (\<exists>claims. a = Rows claims \<and> (\<forall>r. r \<in> set rs \<longrightarrow> claims_hold r claims v))"

lemma lasting_admitted: "NewRun i \<in> R \<Longrightarrow> lasting c R (admitted d i lease rs a)"
  unfolding admitted_def by (intro lasting_intros)

lemma sound_atomic_replacement:
  assumes c: "config_ok c" and P: "lasting c R P" and new: "NewRun i \<in> R"
    and op: "\<And>k'. accepts c R P (admitted c i lease rs) k' \<Longrightarrow> sound (operation k') c R P"
    and k: "accepts c R P (admitted c i lease rs) k"
  shows "sound (atomic_replacement c rs action operation k) c R P"
  unfolding atomic_replacement_def
proof (rule sound_sect_at [OF P, where H = "\<lambda>ts. map fst ts = rs" and G = "\<lambda>_ _. True"])
  fix ts :: "(nat \<times> bool \<times> nat \<times> nat) list" assume ts: "map fst ts = rs"
  let ?next = "\<lambda>a. let claims = (case a of Inr (Rows rs) \<Rightarrow> rs | _ \<Rightarrow> [])
    in alter (\<lambda>clk m. fold (end_claim c claims) ts (fold (settle_claim c action claims clk) ts m)) (k a)"
  have mild: "mild c v (vw_manager v) (fold (end_claim c claims) ts (fold (settle_claim c action claims clk) ts (vw_manager v)))"
    if "manager_ok c v" "\<forall>r \<in> set rs. claims_hold r claims v" for v claims clk
    by (rule mild_trans [OF mild_settle_all [OF that(1) mild_refl config_okD(1) [OF c]] mild_fold [OF mild_end_claim]])
      (use that(2) ts in \<open>simp flip: set_map\<close>)
  have "accepts c R P (admitted c i lease rs) ?next"
  proof (rule acceptsI)
    fix a
    have la: "lasting c R (\<lambda>v. P v \<and> admitted c i lease rs a v)" by (intro lasting_intros P lasting_admitted new)
    show "sound (?next (Inr a)) c R (\<lambda>v. P v \<and> admitted c i lease rs a v)"
      unfolding Let_def
      by (rule sound_alter [OF la _ acceptsD(1) [OF k]], rule mild) (auto dest: fitsD simp: admitted_def)
  next
    fix e
    have none: "claims_hold r [] v" if "r < mg_next (vw_manager v)" for r and v :: view using that by (simp add: claims_hold_def known_def)
    have "mild c v (vw_manager v) (fold (end_claim c []) ts (fold (settle_claim c action [] clk) ts (vw_manager v)))" for v clk
    proof -
      have "settle_claim c action [] clk t m = m" for t m
        by (cases t) (simp add: settle_claim_def Let_def claimed_row_def)
      then have "fold (settle_claim c action [] clk) ts m = m" for m by (induction ts arbitrary: m) simp_all
      then show ?thesis by (simp add: mild_fold [OF mild_end_claim])
    qed
    then show "sound (?next (Inl e)) c R P"
      unfolding Let_def by (intro sound_alter [OF P _ acceptsD(2) [OF k]]) simp
  qed
  then show "sound (operation ?next) c R (\<lambda>v. P v \<and> True)" using op by simp
qed (auto simp: fst_begin_attempts)

lemma sound_admit_in_store:
  assumes c: "config_ok c" and P: "lasting c R P" and new: "NewRun i \<in> R"
    and op: "\<And>k'. accepts c R P (admitted c i lease rs) k' \<Longrightarrow> sound (operation k') c R P"
  shows "accepts c R P (admitted c i lease rs) k \<Longrightarrow> sound (admit_in_store n c rs a operation k) c R P"
proof (induction n arbitrary: k)
  case 0
  then show ?case
    using op [OF 0] sound_atomic_replacement [OF c P new op 0] by simp
next
  case (Suc n)
  let ?next = "\<lambda>r. if r = Inl UniqueViolation then admit_in_store n c rs a operation k else k r"
  have "accepts c R P (admitted c i lease rs) ?next"
    by (rule acceptsI) (use Suc.IH [OF Suc.prems] acceptsD [OF Suc.prems] in auto)
  then show ?case
    using op [OF Suc.prems] sound_atomic_replacement [OF c P new op, where k = ?next] by simp
qed

section \<open>The call that creates a run\<close>

text \<open>The task's knowledge of the run that it creates.\<close>

definition new_run :: "manager_config \<Rightarrow> nat \<Rightarrow> string \<Rightarrow> string option \<Rightarrow> string \<Rightarrow> view \<Rightarrow> bool" where
  "new_run c r i lease t v \<longleftrightarrow> fresh r i lease (mc_worker c) v \<and> granted c lease v \<and> thread_is i t v"

lemma lasting_new_run [lasting_intros]: "NewRun i \<in> R \<Longrightarrow> lasting c R (new_run d r i lease t)"
  unfolding new_run_def by (intro lasting_intros)

lemma granted_within: "granted c lease v \<Longrightarrow> instant v lease = Some t \<Longrightarrow> t \<le> now v + span c"
  by (auto simp: granted_def)

lemma new_run_store: "new_run c r i lease t v \<Longrightarrow> thread_is i t (v\<lparr>vw_store := s\<rparr>) \<Longrightarrow> new_run c r i lease t (v\<lparr>vw_store := s\<rparr>)"
  by (simp add: new_run_def fresh_def known_def granted_def)

lemma created_now:
  "od_get (st_runs s) i = Some row \<Longrightarrow> rr_owner_worker_id row = Some w \<Longrightarrow> rr_lease_expires_at row = lease
    \<Longrightarrow> created w i lease (v\<lparr>vw_store := s\<rparr>)"
  by (simp add: created_def leased_def)

lemma claims_now:
  assumes "candidate i r v" "\<And>row. row \<in> set claims \<Longrightarrow> rr_run_id row \<noteq> i \<Longrightarrow>
    \<exists>row'. od_get (st_runs s) (rr_run_id row) = Some row' \<and> rr_status row' = ''interrupted''"
  shows "claims_hold r claims (v\<lparr>vw_store := s\<rparr>)"
  using assms by (fastforce simp: claims_hold_def candidate_def held_def known_def acked_def present_def stored_as_def)

lemma create_keeping:
  assumes c: "config_ok c" and new: "NewRun i \<in> R" and st: "pa_multitask_strategy a \<in> set STRATEGIES"
    and lease: "pa_lease_expires_at a = lease" "pa_thread_id a = t"
    and P: "\<And>v. manager_ok c v \<Longrightarrow> P v \<Longrightarrow> new_run c r i lease t v \<and> (\<forall>x. x \<in> set rs \<longrightarrow> candidate i x v)"
  shows "keeping_call c R {i} P (do_create i (mc_worker c) (grace_of c) a) (admitted c i lease rs)"
    and "\<And>v. manager_ok c v \<Longrightarrow> P v \<Longrightarrow> new_run c r i lease t (v\<lparr>vw_store := snd (do_create i (mc_worker c) (grace_of c) a (vw_clock v) (vw_store v))\<rparr>)"
proof -
  note g = config_okD(3) [OF c]
  have main: "rows_kept (keeps (mc_worker c) (vw_clock v)) {i} (vw_store v) (snd (do_create i (mc_worker c) (grace_of c) a (vw_clock v) (vw_store v)))
      \<and> lease_within c v (snd (do_create i (mc_worker c) (grace_of c) a (vw_clock v) (vw_store v))) i
      \<and> (\<not> threw (fst (do_create i (mc_worker c) (grace_of c) a (vw_clock v) (vw_store v))) \<longrightarrow>
           admitted c i lease rs (fst (do_create i (mc_worker c) (grace_of c) a (vw_clock v) (vw_store v)))
             (v\<lparr>vw_store := snd (do_create i (mc_worker c) (grace_of c) a (vw_clock v) (vw_store v))\<rparr>))
      \<and> thread_is i t (v\<lparr>vw_store := snd (do_create i (mc_worker c) (grace_of c) a (vw_clock v) (vw_store v))\<rparr>)"
    if v: "manager_ok c v" "P v" for v
  proof -
    let ?a = "fst (do_create i (mc_worker c) (grace_of c) a (vw_clock v) (vw_store v))"
      and ?s = "snd (do_create i (mc_worker c) (grace_of c) a (vw_clock v) (vw_store v))"
    note ok = manager_store_ok [OF v(1)]
    have nr: "granted c lease v" "thread_is i t v" "\<And>x. x \<in> set rs \<Longrightarrow> candidate i x v" using P [OF v] by (simp_all add: new_run_def)
    have "?s = vw_store v \<and> (\<forall>claimed. ?a \<noteq> Rows claimed)
      \<or> rows_kept (keeps (mc_worker c) (vw_clock v)) {i} (vw_store v) ?s
        \<and> (\<exists>q. od_get (st_runs ?s) i = Some (admitted_row (vw_clock v) i (mc_worker c) a q))
        \<and> (\<exists>claimed. ?a = Rows claimed \<and> (\<forall>row \<in> set claimed. rr_run_id row \<noteq> i \<longrightarrow>
             (\<exists>row'. od_get (st_runs ?s) (rr_run_id row) = Some row' \<and> rr_status row' = ''interrupted'')))"
      by (rule do_create_effect [OF ok g st]) (use nr(2) in \<open>simp add: thread_is_def lease(2)\<close>)
    then show ?thesis
    proof (elim disjE conjE exE)
      assume same: "?s = vw_store v" "\<forall>claimed. ?a \<noteq> Rows claimed"
      have "threw ?a" using same(2) by (auto simp: do_create_def threw_def split: sum.splits prod.splits)
      moreover have "lease_within c v (vw_store v) i"
        using v(1) by (auto simp: lease_within_def manager_ok_def store_within_def)
      ultimately show ?thesis using same(1) ok nr(2) by (auto simp: thread_is_def)
    next
      fix q claimed
      assume kept: "rows_kept (keeps (mc_worker c) (vw_clock v)) {i} (vw_store v) ?s"
        and row: "od_get (st_runs ?s) i = Some (admitted_row (vw_clock v) i (mc_worker c) a q)"
        and a: "?a = Rows claimed" "\<forall>row \<in> set claimed. rr_run_id row \<noteq> i \<longrightarrow>
             (\<exists>row'. od_get (st_runs ?s) (rr_run_id row) = Some row' \<and> rr_status row' = ''interrupted'')"
      have "lease_within c v ?s i" using granted_within [OF nr(1)] lease(1) by (simp add: lease_within_def row)
      moreover have "admitted c i lease rs ?a (v\<lparr>vw_store := ?s\<rparr>)"
        unfolding admitted_def using created_now [OF row] claims_now [OF nr(3)] a lease(1) by auto
      ultimately show ?thesis using kept row lease(2) by (simp add: thread_is_def)
    qed
  qed
  show "keeping_call c R {i} P (do_create i (mc_worker c) (grace_of c) a) (admitted c i lease rs)"
    unfolding keeping_call_def using main fitsD new by (auto simp: case_prod_beta)
  show "manager_ok c v \<Longrightarrow> P v \<Longrightarrow> new_run c r i lease t (v\<lparr>vw_store := snd (do_create i (mc_worker c) (grace_of c) a (vw_clock v) (vw_store v))\<rparr>)" for v
    using main P by (intro new_run_store) blast+
qed

section \<open>Admission\<close>

text \<open>
  What runs after the locked part of an admission: the record is registered and the id given up, or nothing is
  known of the row and the task keeps the id.
\<close>

definition exits :: "manager_config \<Rightarrow> resource set \<Rightarrow> string \<Rightarrow> nat \<Rightarrow> 'a set \<Rightarrow> 'a \<Rightarrow> 'a cont \<Rightarrow> bool" where
  "exits c R i r X w k \<longleftrightarrow> (\<forall>e. sound (k (Inl e)) c R (\<lambda>_. True)) \<and> (\<forall>x \<in> X. sound (k (Inr x)) c R (\<lambda>_. True))
     \<and> sound (k (Inr w)) c (R - {NewRun i}) (held r)"

lemma exits_kept:
  "exits c R i r X w k \<Longrightarrow> sound (k (Inl e)) c R P" "exits c R i r X w k \<Longrightarrow> x \<in> X \<Longrightarrow> sound (k (Inr x)) c R P"
  unfolding exits_def by (auto intro: sound_weaken)

definition checked :: "string \<Rightarrow> manager_error + nat + nat list \<Rightarrow> view \<Rightarrow> bool" where
  "checked i found v \<longleftrightarrow> (\<forall>rs. found = Inr (Inr rs) \<longrightarrow> (\<forall>x. x \<in> set rs \<longrightarrow> candidate i x v))"

lemma thread_records_registered:
  assumes "manager_ok c v" "x \<in> set (thread_records_locked t (vw_manager v))"
  shows "held x v" "i \<in> vw_new v \<Longrightarrow> rc_run_id (rec_of v x) \<noteq> i"
proof -
  obtain j where "run_of v j = Some x"
    using assms(2) by (auto simp: thread_records_locked_def List.map_filter_def)
  then show "held x v" "i \<in> vw_new v \<Longrightarrow> rc_run_id (rec_of v x) \<noteq> i"
    using held_registered [OF assms(1)] by (auto simp: held_def run_id_is_def present_def)
qed

lemma checked_admission:
  assumes "fits c R v" "NewRun i \<in> R"
  shows "checked i (fst (admission_check a (vw_manager v))) (v\<lparr>vw_manager := snd (admission_check a (vw_manager v))\<rparr>)"
proof -
  have "snd (admission_check a (vw_manager v)) = vw_manager v" if "fst (admission_check a (vw_manager v)) = Inr (Inr rs)" for rs
    using that by (auto simp: admission_check_def Let_def split: option.splits if_splits)
  moreover have "x \<in> set (thread_records_locked (pa_thread_id a) (vw_manager v))"
    if "fst (admission_check a (vw_manager v)) = Inr (Inr rs)" "x \<in> set rs" for rs x
    using that by (auto simp: admission_check_def local_inflight_def Let_def split: option.splits if_splits)
  moreover have "candidate i x v" if "x \<in> set (thread_records_locked (pa_thread_id a) (vw_manager v))" for x
    using thread_records_registered [OF fitsD [OF assms(1)] that] assms by (simp add: candidate_def fits_def)
  ultimately show ?thesis by (simp add: checked_def)
qed

lemma sound_admit_locked:
  assumes c: "config_ok c" and new: "NewRun i \<in> R" and st: "pa_multitask_strategy a \<in> set STRATEGIES"
    and k: "exits c R i r (range Inl) (Inr []) k"
  shows "sound (admit_locked c i a r rc k) c R (new_run c r i (rc_lease rc) (pa_thread_id a))"
proof -
  let ?P = "new_run c r i (rc_lease rc) (pa_thread_id a)"
  let ?a = "a\<lparr>pa_lease_expires_at := rc_lease rc, pa_created_at := Some (rc_created_at rc)\<rparr>"
  let ?f = "do_create i (mc_worker c) (grace_of c) ?a"
  let ?finish = "\<lambda>rs. sect (complete_admission c (pa_multitask_strategy a) r rs (rc_created_at rc)) (\<lambda>is. k (Inr (Inr is)))"
  have P: "lasting c R ?P" by (intro lasting_intros new)
  have finish: "sound (?finish rs) c R (\<lambda>v. ?P v \<and> (\<forall>x. x \<in> set rs \<longrightarrow> candidate i x v) \<and> admitted c i (rc_lease rc) rs y v)" for rs y
  proof (rule sound_weaken [OF sound_files [where P = "\<lambda>_. True" and H = "\<lambda>x. x = []", OF lasting_const new]])
    fix v assume "fresh r i (rc_lease rc) (mc_worker c) v"
    then show "files i r (vw_manager v) (snd (complete_admission c (pa_multitask_strategy a) r rs (rc_created_at rc) (vw_clock v) (vw_manager v)))"
      using admission_files [OF config_okD(1) [OF c], of "vw_manager v" r] by (auto simp: fresh_def)
  next
    show "fst (complete_admission c (pa_multitask_strategy a) r rs (rc_created_at rc) clk m) = []" for clk m
      using admission_files [OF config_okD(1) [OF c]] by blast
  next
    show "sound (k (Inr (Inr x))) c (R - {NewRun i}) (\<lambda>v. True \<and> held r v)" if "x = []" for x
      using k that by (simp add: exits_def)
  qed (auto simp: new_run_def admitted_def)
  have store: "sound (admit_in_store 2 c rs a (call_store_with_retry c ?f) (\<lambda>x. case x of
      Inl (StoreSaid (RunIdempotencyConflict row)) \<Rightarrow> (case reuse_idempotent_run a row of
        Inl e \<Rightarrow> k (Inl e) | Inr old \<Rightarrow> k (Inr (Inl (Inr old))))
    | Inl e \<Rightarrow> k (Inl (admission_error a e))
    | Inr _ \<Rightarrow> ?finish rs)) c R (\<lambda>v. ?P v \<and> (\<forall>x. x \<in> set rs \<longrightarrow> candidate i x v))" for rs
  proof (rule sound_admit_in_store [OF c _ new])
    let ?C = "\<lambda>v. \<forall>x. x \<in> set rs \<longrightarrow> candidate i x v"
    have C: "lasting c S ?C" for S by (intro lasting_intros)
    show PC: "lasting c R (\<lambda>v. ?P v \<and> ?C v)" by (intro lasting_intros P)
    have facts: "manager_ok c v \<Longrightarrow> ?C v \<and> ?P v \<Longrightarrow> new_run c r i (rc_lease rc) (pa_thread_id a) v \<and> ?C v" for v by blast
    have a: "pa_multitask_strategy ?a \<in> set STRATEGIES" "pa_lease_expires_at ?a = rc_lease rc" "pa_thread_id ?a = pa_thread_id a"
      using st by simp_all
    note create = create_keeping [where P = "\<lambda>v. ?C v \<and> ?P v", OF c new a facts]
    have keep: "keeping_call c R {i} (\<lambda>v. ?C v \<and> ?P v) ?f (admitted c i (rc_lease rc) rs)" by (rule create(1))
    have kept: "new_run c r i (rc_lease rc) (pa_thread_id a) (v\<lparr>vw_store := snd (?f (vw_clock v) (vw_store v))\<rparr>)"
      if "manager_ok c v" "?C v \<and> ?P v" for v by (rule create(2) [OF _ _ that])
    have keep': "keeping_call c R {i} (\<lambda>v. ?P v \<and> ?C v) ?f (admitted c i (rc_lease rc) rs)"
      using keep by (simp add: conj_commute)
    show "sound (call_store_with_retry c ?f k') c R (\<lambda>v. ?P v \<and> ?C v)"
      if "accepts c R (\<lambda>v. ?P v \<and> ?C v) (admitted c i (rc_lease rc) rs) k'" for k'
    proof (rule sound_call_new [OF PC _ keep' that])
      show "preserved c R (\<lambda>v. ?P v \<and> ?C v) ?f"
        unfolding preserved_def
      proof (intro allI impI)
        fix v assume v: "fits c R v" "?P v \<and> ?C v"
        have v': "?C v \<and> ?P v" using v(2) by blast
        note moves = kept_moves [OF v(1) keeping_callD(2,1,3) [OF keep v(1) v']]
        have "?C (v\<lparr>vw_store := snd (?f (vw_clock v) (vw_store v))\<rparr>)"
          by (rule lastingD [OF C [of "R - NewRun ` {i}"] fits_mono [OF v(1)] fits_mono [OF moves(3)] _ moves(2)]) (use v' in auto)
        then show "?P (v\<lparr>vw_store := snd (?f (vw_clock v) (vw_store v))\<rparr>) \<and> ?C (v\<lparr>vw_store := snd (?f (vw_clock v) (vw_store v))\<rparr>)"
          using kept [OF fitsD [OF v(1)] v'] by simp
      qed
    qed
  next
    show "accepts c R (\<lambda>v. ?P v \<and> (\<forall>x. x \<in> set rs \<longrightarrow> candidate i x v)) (admitted c i (rc_lease rc) rs) (\<lambda>x. case x of
      Inl (StoreSaid (RunIdempotencyConflict row)) \<Rightarrow> (case reuse_idempotent_run a row of
        Inl e \<Rightarrow> k (Inl e) | Inr old \<Rightarrow> k (Inr (Inl (Inr old))))
    | Inl e \<Rightarrow> k (Inl (admission_error a e))
    | Inr _ \<Rightarrow> ?finish rs)"
      by (rule acceptsI)
        (auto simp: finish exits_kept [OF k] split: manager_error.split store_error.split sum.split)
  qed
  show ?thesis
    unfolding admit_locked_def Let_def
  proof (rule sound_sect [where G = "checked i", OF P])
    show "fits c R v \<Longrightarrow> checked i (fst (admission_check a (vw_manager v))) (v\<lparr>vw_manager := snd (admission_check a (vw_manager v))\<rparr>)" for v
      by (rule checked_admission [OF _ new])
    fix found
    show "sound (ok_or k (\<lambda>found. case found of
        Inl old \<Rightarrow> k (Inr (Inl (Inl old)))
      | Inr rs \<Rightarrow> if \<not> mc_store c then ?finish rs
          else admit_in_store 2 c rs a (call_store_with_retry c ?f) (\<lambda>x. case x of
              Inl (StoreSaid (RunIdempotencyConflict row)) \<Rightarrow> (case reuse_idempotent_run a row of
                Inl e \<Rightarrow> k (Inl e) | Inr old \<Rightarrow> k (Inr (Inl (Inr old))))
            | Inl e \<Rightarrow> k (Inl (admission_error a e))
            | Inr _ \<Rightarrow> ?finish rs)) found) c R (\<lambda>v. ?P v \<and> checked i found v)"
      using store config_okD(1) [OF c] exits_kept [OF k]
      by (cases found) (auto simp: ok_or_def checked_def split: sum.split)
  qed simp
qed

section \<open>After the admission\<close>

lemma sound_adopt:
  assumes "lasting c R P" "unlocked R" "accepts c R P (\<lambda>_ _. True) k"
  shows "sound (adopt i r stored k) c R P"
  unfolding adopt_def by (rule sound_registry_plain [OF assms(1,2) _ assms(3)]) simp

lemma sound_verify_closed:
  assumes "lasting c R P" "unlocked R" "accepts c R P (\<lambda>_ _. True) k"
  shows "sound (verify_closed c i u r k) c R P"
proof -
  have ret: "sound (k x) c R P" for x by (cases x) (auto intro!: sound_return [OF assms(3)] sound_raise [OF assms(3)])
  note adopt = sound_adopt [OF assms]
  show ?thesis
    unfolding verify_closed_def
    by (intro sound_asked(2) [OF assms(1)])
      (auto simp: ok_or_def ret adopt split: sum.split store_answer.split option.split)
qed

lemma sound_close_in_store:
  assumes c: "config_ok c" and P: "lasting c R P" and R: "unlocked R" and r: "\<And>v. manager_ok c v \<Longrightarrow> P v \<Longrightarrow> held r v"
    and k: "accepts c R P (\<lambda>_ _. True) k"
  shows "sound (close_in_store c i u r k) c R P"
proof -
  have ret: "sound (k x) c R P" for x by (cases x) (auto intro!: sound_return [OF k] sound_raise [OF k])
  have "sound (look (\<lambda>_ m. rc_lost (mg_heap m r)) (\<lambda>lost. if lost then k (Inr ()) else verify_closed c i u r k)) c R P"
    by (intro sound_look_plain [OF P] sound_if ret sound_verify_closed [OF P R k])
  then have "sound (persist_status c r ''interrupted'' None None (ok_or k (\<lambda>_.
      look (\<lambda>_ m. rc_lost (mg_heap m r)) (\<lambda>lost. if lost then k (Inr ()) else verify_closed c i u r k)))) c R P"
    by (intro sound_persist_status [OF c P r] accepts_ok_or' [OF k]) simp_all
  then show ?thesis by (simp add: close_in_store_def config_okD(2) [OF c])
qed

lemma sound_close_cancelled:
  assumes c: "config_ok c" and P: "lasting c R P" and R: "unlocked R" and r: "\<And>v. manager_ok c v \<Longrightarrow> P v \<Longrightarrow> held r v"
    and k: "accepts c R P (\<lambda>_ _. True) k"
  shows "sound (close_cancelled_admission c i u err r k) c R P"
proof -
  have ret: "sound (k x) c R P" for x by (cases x) (auto intro!: sound_return [OF k] sound_raise [OF k])
  note adopt = sound_adopt [OF P R k] and close = sound_close_in_store [OF c P R r k]
  have "sound (call_store_with_retry c (do_get i u) (ok_or k (\<lambda>a. case a of
      Row (Some row) \<Rightarrow> (if \<not> inflight (rr_status row) then adopt i r (Some row) k else close_in_store c i u r k)
    | _ \<Rightarrow> adopt i r None k))) c R P"
    by (intro sound_asked(2) [OF P]) (auto simp: ok_or_def ret adopt close split: sum.split store_answer.split option.split)
  then show ?thesis
    unfolding close_cancelled_admission_def
    by (intro sound_cancel [OF c P R] accepts_ok_or' [OF k] sound_look_plain sound_if) (auto simp: ret P)
qed

lemma sound_after_admission:
  assumes c: "config_ok c" and k: "\<And>x. sound (k x) c R (\<lambda>_. True)" and R: "unlocked R"
  shows "sound (after_admission c i u err r [] k) c R (held r)"
proof -
  have ret: "sound (k x) c R (held r)" for x by (rule sound_weaken [OF k]) simp
  have close: "sound (close_cancelled_admission c i u err r (\<lambda>_. k (Inl TaskCancelled))) c R (held r)"
    by (rule sound_close_cancelled [OF c lasting_held R _ accepts_plain [OF ret]])
  show ?thesis
    unfolding after_admission_def Let_def
    by (rule sound_await [OF lasting_held]) (use ret close in auto)
qed

text \<open>A continuation that may be reached with anything known.\<close>

definition continues :: "manager_config \<Rightarrow> 'a cont \<Rightarrow> bool" where
  "continues c k \<longleftrightarrow> (\<forall>x R. unlocked R \<longrightarrow> sound (k x) c R (\<lambda>_. True))"

lemma continuesD: "continues c k \<Longrightarrow> unlocked R \<Longrightarrow> sound (k x) c R P"
  unfolding continues_def by (blast intro: sound_weaken)

lemma sound_leave:
  assumes "Key (AdmissionLock t) \<notin> R" "sound p c R P" "lasting c R P"
  shows "sound (Free (AdmissionLock t) (alter (\<lambda>_. leave_pending t i) p)) c (insert (Key (AdmissionLock t)) R) P"
  by (rule sound_Free [OF lasting_insert [OF assms(3)]]) (use assms in \<open>auto intro!: sound_alter\<close>)

lemma insert_Diff_Key: "insert (Key key) R - {NewRun i} = insert (Key key) (R - {NewRun i})"
  by auto

lemma sound_admission_scope:
  assumes c: "config_ok c" and R: "unlocked R" and new: "NewRun i \<in> R" and P: "lasting c R P"
    and body: "\<And>k' K. NewRun i \<in> K \<Longrightarrow> exits c K i r X w k' \<Longrightarrow> sound (body k') c K P"
    and k: "\<And>e. sound (k (Inl e)) c R (\<lambda>_. True)" "\<And>x. x \<in> X \<Longrightarrow> sound (k (Inr x)) c R (\<lambda>_. True)"
      "sound (k (Inr w)) c (R - {NewRun i}) (held r)"
  shows "sound (admission_scope t i body k) c R P"
  unfolding admission_scope_def holding_def
proof (rule sound_alter [OF P], simp, rule sound_Hold [OF P])
  let ?k = "\<lambda>x. alter (\<lambda>_. leave_pending t i) (k x)"
  have free: "Key (AdmissionLock t) \<notin> R" using R by (simp add: unlocked_def)
  then show "Key (AdmissionLock t) \<notin> R" .
  have "sound (?k (Inl e)) c R (\<lambda>_. True)" for e by (rule sound_alter [OF lasting_const _ k(1)]) simp
  then show "sound (?k (Inl TaskCancelled)) c R P" by (rule sound_weaken) simp
  have "exits c (insert (Key (AdmissionLock t)) R) i r X w (\<lambda>x. Free (AdmissionLock t) (?k x))"
    unfolding exits_def insert_Diff_Key using free
    by (intro conjI allI ballI sound_leave k lasting_const lasting_held) simp_all
  then show "sound (body (\<lambda>x. Free (AdmissionLock t) (?k x))) c (insert (Key (AdmissionLock t)) R) P"
    using new by (intro body) simp_all
qed

section \<open>The methods\<close>

lemma alloc_new_run:
  assumes v: "manager_ok c v" "thread_is i (pa_thread_id a) v" and c: "config_ok c"
  shows "new_run c (fst (alloc (fresh_record c (vw_clock v) i (lease_from c (vw_clock v)) a) (vw_manager v))) i
    (rc_lease (fresh_record c (vw_clock v) i (lease_from c (vw_clock v)) a)) (pa_thread_id a)
    (v\<lparr>vw_manager := snd (alloc (fresh_record c (vw_clock v) i (lease_from c (vw_clock v)) a) (vw_manager v))\<rparr>)"
proof -
  have "clock_ok c (vw_clock v)" using v(1) by (simp add: manager_ok_def)
  then have "instant v (Some (lease_from c (vw_clock v))) = Some (now v + span c)"
    by (simp add: clock_ok_def lease_from_def span_def)
  then show ?thesis
    using v(2) config_okD(2) [OF c]
    by (simp add: new_run_def fresh_def known_def granted_def thread_is_def alloc_def fresh_record_def)
qed

definition allocates :: "(clock \<Rightarrow> run_record) \<Rightarrow> clock \<Rightarrow> manager \<Rightarrow> (nat \<times> run_record) \<times> manager" where
  "allocates g clk m = (let (r, m') = alloc (g clk) m in ((r, mg_heap m' r), m'))"

lemma allocates: "fst (allocates g clk m) = (fst (alloc (g clk) m), g clk)" "snd (allocates g clk m) = snd (alloc (g clk) m)"
  by (simp_all add: allocates_def alloc_def)

lemma sound_alloc:
  assumes c: "config_ok c" and new: "NewRun i \<in> R"
    and k: "\<And>r rc. rc_run_id rc = i \<Longrightarrow> rc_thread_id rc = pa_thread_id a \<Longrightarrow> rc_owner rc = Some (mc_worker c)
      \<Longrightarrow> sound (k (r, rc)) c R (new_run c r i (rc_lease rc) (pa_thread_id a))"
  shows "sound (sect (\<lambda>clk m. let (r, m') = alloc (fresh_record c clk i (lease_from c clk) a) m in ((r, mg_heap m' r), m')) k)
    c R (thread_is i (pa_thread_id a))"
  unfolding allocates_def [of "\<lambda>clk. fresh_record c clk i (lease_from c clk) a", symmetric]
proof (rule sound_sect_at [where H = "\<lambda>(r, rc). rc_run_id rc = i \<and> rc_thread_id rc = pa_thread_id a \<and> rc_owner rc = Some (mc_worker c)"
      and G = "\<lambda>(r, rc). new_run c r i (rc_lease rc) (pa_thread_id a)"])
  show "lasting c R (thread_is i (pa_thread_id a))" by (intro lasting_intros new)
  let ?f = "allocates (\<lambda>clk. fresh_record c clk i (lease_from c clk) a)"
  fix v assume v: "fits c R v" "thread_is i (pa_thread_id a) v"
  show "mild c v (vw_manager v) (snd (?f (vw_clock v) (vw_manager v)))"
    by (simp add: allocates fresh_record_def)
  show "(case fst (?f (vw_clock v) (vw_manager v)) of (r, rc) \<Rightarrow> rc_run_id rc = i \<and> rc_thread_id rc = pa_thread_id a \<and> rc_owner rc = Some (mc_worker c))
      \<and> (case fst (?f (vw_clock v) (vw_manager v)) of (r, rc) \<Rightarrow> new_run c r i (rc_lease rc) (pa_thread_id a))
          (v\<lparr>vw_manager := snd (?f (vw_clock v) (vw_manager v))\<rparr>)"
    using alloc_new_run [OF fitsD [OF v(1)] v(2) c] by (simp add: allocates fresh_record_def)
next
  fix x :: "nat \<times> run_record" assume "case x of (r, rc) \<Rightarrow> rc_run_id rc = i \<and> rc_thread_id rc = pa_thread_id a \<and> rc_owner rc = Some (mc_worker c)"
  then show "sound (k x) c R (\<lambda>v. thread_is i (pa_thread_id a) v \<and> (case x of (r, rc) \<Rightarrow> new_run c r i (rc_lease rc) (pa_thread_id a)) v)"
    by (cases x) (auto intro: sound_weaken [OF k])
qed

lemma unlocked_Diff: "unlocked R \<Longrightarrow> unlocked (R - X)"
  by (simp add: unlocked_def)

lemma sound_admit_thread_operation:
  assumes c: "config_ok c" and R: "unlocked R" and new: "NewRun i \<in> R" and k: "continues c k"
  shows "sound (admit_thread_operation c i a err k) c R (thread_is i (pa_thread_id a))"
  unfolding admit_thread_operation_def
proof (rule sound_if)
  show "sound (k (Inl e)) c R (thread_is i (pa_thread_id a))" for e by (rule continuesD [OF k R])
next
  assume st: "\<not> pa_multitask_strategy a \<notin> set STRATEGIES"
  let ?next = "\<lambda>r rc. ok_or k (\<lambda>x. case x of Inl old \<Rightarrow> k (Inr old) | Inr is \<Rightarrow> after_admission c i (rc_user_id rc) err r is k)"
  show "sound (sect (\<lambda>clk m. let (r, m') = alloc (fresh_record c clk i (lease_from c clk) a) m in ((r, mg_heap m' r), m'))
      (\<lambda>(r, rc). admission_scope (pa_thread_id a) i (admit_locked c i a r rc) (?next r rc))) c R (thread_is i (pa_thread_id a))"
  proof (rule sound_alloc [OF c new], unfold prod.case)
    fix r and rc :: run_record
    show "sound (admission_scope (pa_thread_id a) i (admit_locked c i a r rc) (?next r rc)) c R (new_run c r i (rc_lease rc) (pa_thread_id a))"
    proof (rule sound_admission_scope [OF c R new, where X = "range Inl" and w = "Inr []"])
      show "lasting c R (new_run c r i (rc_lease rc) (pa_thread_id a))" by (intro lasting_intros new)
      show "sound (admit_locked c i a r rc k') c K (new_run c r i (rc_lease rc) (pa_thread_id a))"
        if "NewRun i \<in> K" "exits c K i r (range Inl) (Inr []) k'" for k' K
        by (rule sound_admit_locked [OF c that(1) _ that(2)]) (use st in simp)
      show "sound (?next r rc (Inr (Inr []))) c (R - {NewRun i}) (held r)"
        using sound_after_admission [OF c continuesD [OF k] unlocked_Diff] unlocked_Diff [OF R] R by (simp add: ok_or_def)
    qed (auto simp: ok_or_def continuesD [OF k R])
  qed
qed

lemma sound_reserve_enter:
  assumes "config_ok c" "unlocked R" "NewRun i \<in> R" "continues c k"
  shows "sound (reserve_enter c i a err k) c R (thread_is i (pa_thread_id a))"
proof -
  have "sound (admit_thread_operation c i (a\<lparr>pa_multitask_strategy := ''reject''\<rparr>) err k) c R
      (thread_is i (pa_thread_id (a\<lparr>pa_multitask_strategy := ''reject''\<rparr>)))"
    by (rule sound_admit_thread_operation [OF assms])
  then show ?thesis by (simp add: reserve_enter_def continuesD [OF assms(4,2)])
qed

lemma sound_reserve_attach:
  assumes "lasting c R P" "unlocked R" "accepts c R P (\<lambda>_ _. True) k"
  shows "sound (reserve_attach i r k) c R P"
  unfolding reserve_attach_def
  by (rule sound_registry_plain [OF assms(1,2) _ assms(3)]) (auto intro!: mild_plain simp: plain_simps)

text \<open>\<^verbatim>\<open>create\<close> writes the whole row, whose id is the caller's own.\<close>

lemma put_keeping:
  assumes c: "config_ok c" and new: "NewRun i \<in> R"
    and a: "pa_lease_expires_at a = lease" "pa_thread_id a = t" "pa_owner_worker_id a = Some (mc_worker c)"
  shows "keeping_call c R {i} (new_run c r i lease t) (do_put i a) (\<lambda>_. created (mc_worker c) i lease)"
    and "preserved c R (new_run c r i lease t) (do_put i a)"
proof -
  have main: "rows_kept (keeps (mc_worker c) (vw_clock v)) {i} (vw_store v) (snd (do_put i a (vw_clock v) (vw_store v)))
      \<and> lease_within c v (snd (do_put i a (vw_clock v) (vw_store v))) i
      \<and> created (mc_worker c) i lease (v\<lparr>vw_store := snd (do_put i a (vw_clock v) (vw_store v))\<rparr>)
      \<and> thread_is i t (v\<lparr>vw_store := snd (do_put i a (vw_clock v) (vw_store v))\<rparr>)"
    if v: "manager_ok c v" "new_run c r i lease t v" for v
  proof -
    have nr: "granted c lease v" "thread_is i t v" using v(2) by (simp_all add: new_run_def)
    have old: "\<And>row. row_of v i = Some row \<Longrightarrow> rr_thread_id row = pa_thread_id a" using nr(2) a(2) by (simp add: thread_is_def)
    obtain row where row: "od_get (st_runs (snd (do_put i a (vw_clock v) (vw_store v)))) i = Some row"
      "rr_owner_worker_id row = Some (mc_worker c)" "rr_lease_expires_at row = lease" "rr_thread_id row = t"
      using do_put_effect(2) [OF manager_store_ok [OF v(1)] old, where clk = "vw_clock v"] a by auto
    show ?thesis
      using do_put_effect(1) [OF manager_store_ok [OF v(1)] old] created_now [OF row(1-3)] granted_within [OF nr(1)] row
      by (simp add: lease_within_def thread_is_def)
  qed
  then show "keeping_call c R {i} (new_run c r i lease t) (do_put i a) (\<lambda>_. created (mc_worker c) i lease)"
    unfolding keeping_call_def using fitsD new by (auto simp: case_prod_beta)
  show "preserved c R (new_run c r i lease t) (do_put i a)"
    unfolding preserved_def using main fitsD new_run_store by blast
qed

lemma sound_create:
  assumes c: "config_ok c" and R: "unlocked R" and new: "NewRun i \<in> R" and k: "continues c k"
  shows "sound (create c i a k) c R (thread_is i (pa_thread_id a))"
  unfolding create_def
proof (rule sound_alloc [OF c new], unfold prod.case)
  fix r and rc :: run_record
  assume rc: "rc_run_id rc = i" "rc_thread_id rc = pa_thread_id a" "rc_owner rc = Some (mc_worker c)"
  let ?P = "new_run c r i (rc_lease rc) (pa_thread_id a)" and ?a = "store_put_payload rc None None"
  have a: "pa_lease_expires_at ?a = rc_lease rc" "pa_thread_id ?a = pa_thread_id a" "pa_owner_worker_id ?a = Some (mc_worker c)"
    using rc by (simp_all add: store_put_payload_def)
  let ?body = "\<lambda>k. persist_new_run_to_store c rc (ok_or k (\<lambda>_. alter (\<lambda>_. register r) (k (Inr r))))"
  show "sound (admission_scope (rc_thread_id rc) i ?body k) c R ?P"
  proof (rule sound_admission_scope [OF c R new, where X = "{}" and w = r])
    show "lasting c R ?P" by (intro lasting_intros new)
    show "sound (k (Inr r)) c (R - {NewRun i}) (held r)" by (rule continuesD [OF k unlocked_Diff [OF R]])
    fix k' K assume K: "NewRun i \<in> K" "exits c K i r {} r k'"
    have P: "lasting c K ?P" by (intro lasting_intros K)
    have step: "sound (alter (\<lambda>_. register r) (k' (Inr r))) c K (\<lambda>v. ?P v \<and> created (mc_worker c) i (rc_lease rc) v)"
    proof -
      have "sound (sect (\<lambda>clk m. ((), register r m)) (\<lambda>_. k' (Inr r))) c K
          (\<lambda>v. True \<and> fresh r i (rc_lease rc) (mc_worker c) v \<and> created (mc_worker c) i (rc_lease rc) v)"
      proof (rule sound_files [OF lasting_const K(1), where H = "\<lambda>_. True"])
        fix v assume "fresh r i (rc_lease rc) (mc_worker c) v"
        then show "files i r (vw_manager v) (snd ((), register r (vw_manager v)))"
          using register_files [of "vw_manager v" r] by (simp add: fresh_def)
      qed (use K(2) in \<open>simp_all add: exits_def\<close>)
      then show ?thesis by (auto simp: alter_def sect_def new_run_def intro: sound_weaken)
    qed
    have "accepts c K ?P (\<lambda>_. created (mc_worker c) i (rc_lease rc)) (ok_or (ok_or k' (\<lambda>_. alter (\<lambda>_. register r) (k' (Inr r))))
        (\<lambda>_. ok_or k' (\<lambda>_. alter (\<lambda>_. register r) (k' (Inr r))) (Inr ())))"
      by (rule acceptsI) (simp_all add: ok_or_def step exits_kept [OF K(2)])
    then have "sound (call_store_with_retry c (do_put i ?a) (ok_or (ok_or k' (\<lambda>_. alter (\<lambda>_. register r) (k' (Inr r))))
        (\<lambda>_. ok_or k' (\<lambda>_. alter (\<lambda>_. register r) (k' (Inr r))) (Inr ())))) c K ?P"
      by (rule sound_call_new [OF P put_keeping(2) [OF c K(1) a] put_keeping(1) [OF c K(1) a]])
    then show "sound (?body k') c K ?P" using config_okD(1) [OF c] rc(1) by (simp add: persist_new_run_to_store_def)
  qed (auto simp: continuesD [OF k R])
qed

end
