(* ===== verification/ManagerLeases.thy ===== *)
theory ManagerLeases
  imports ManagerAdmission
begin

text \<open>
  Renewing leases is sound: the lease that a record shows is one that the store has granted, because a run has
  at most one renewal in flight; and so are the two sections of shutdown.
\<close>

section \<open>A renewal in flight\<close>

definition idle :: "string \<Rightarrow> view \<Rightarrow> bool" where
  "idle i v \<longleftrightarrow> mg_operations (vw_manager v) i = None"

definition asked_for :: "string \<Rightarrow> nat \<Rightarrow> string \<Rightarrow> view \<Rightarrow> bool" where
  "asked_for i f expiry v \<longleftrightarrow> f < mg_next_future (vw_manager v) \<and> rn_run_id (mg_futures (vw_manager v) f) = i
     \<and> rn_expiry (mg_futures (vw_manager v) f) = expiry"

text \<open>As the task that carries it out knows it, and as the one that waits for it.\<close>

definition renewing :: "string \<Rightarrow> nat \<Rightarrow> string \<Rightarrow> view \<Rightarrow> bool" where
  "renewing i f expiry v \<longleftrightarrow> asked_for i f expiry v \<and> mg_operations (vw_manager v) i = Some f"

definition awaiting :: "string \<Rightarrow> nat \<Rightarrow> string \<Rightarrow> view \<Rightarrow> bool" where
  "awaiting i f expiry v \<longleftrightarrow> asked_for i f expiry v \<and> mg_operations (vw_manager v) i \<in> {None, Some f}"

lemma idle_rely: "idle i v \<Longrightarrow> rely R v v' \<Longrightarrow> Key (SnapshotLock i) \<in> R \<Longrightarrow> idle i v'"
  by (cases "mg_operations (vw_manager v') i") (auto simp: idle_def rely_def manager_rely_def operations_rely_def)

lemma asked_rely: "asked_for i f expiry v \<Longrightarrow> rely R v v' \<Longrightarrow> asked_for i f expiry v'"
  by (auto simp: asked_for_def rely_def manager_rely_def futures_rely_def same_future_def)

lemma lasting_idle [lasting_intros]: "Key (SnapshotLock i) \<in> R \<Longrightarrow> lasting c R (idle i)"
  by (rule lastingI) (rule idle_rely)

lemma lasting_renewing [lasting_intros]: "Future f \<in> R \<Longrightarrow> lasting c R (renewing i f expiry)"
proof (rule lastingI)
  fix v v' assume v: "renewing i f expiry v" "rely R v v'" and R: "Future f \<in> R"
  have "mg_operations (vw_manager v') i = Some f"
    using v R by (simp add: renewing_def rely_def manager_rely_def operations_rely_def)
  then show "renewing i f expiry v'" using v(1) asked_rely [OF _ v(2)] by (simp add: renewing_def)
qed

lemma lasting_awaiting [lasting_intros]: "Key (SnapshotLock i) \<in> R \<Longrightarrow> lasting c R (awaiting i f expiry)"
proof (rule lastingI)
  fix v v' assume v: "awaiting i f expiry v" "rely R v v'" and R: "Key (SnapshotLock i) \<in> R"
  have "mg_operations (vw_manager v') i = Some g \<Longrightarrow> mg_operations (vw_manager v) i = Some g" for g
    using v(2) R by (simp add: rely_def manager_rely_def operations_rely_def)
  then show "awaiting i f expiry v'"
    using v asked_rely [OF _ v(2)] by (cases "mg_operations (vw_manager v') i") (auto simp: awaiting_def)
qed

lemma renewing_ok:
  assumes "manager_ok c v" "renewing i f expiry v"
  shows "present i v \<and> rn_result (mg_futures (vw_manager v) f) = None
    \<and> (\<exists>t. instant v (Some expiry) = Some t \<and> t \<le> now v + span c \<and> row_bound (mc_worker c) i t v)"
proof -
  have "operation_ok c v i (mg_futures (vw_manager v) f)" using assms by (simp add: manager_parts renewing_def)
  then show ?thesis using assms(2) by (simp add: operation_ok_def renewing_def asked_for_def)
qed

lemma answered_idle:
  assumes "manager_ok c v" "awaiting i f expiry v" "rn_result (mg_futures (vw_manager v) f) \<noteq> None"
  shows "idle i v"
proof (rule ccontr)
  assume "\<not> idle i v"
  then have "mg_operations (vw_manager v) i = Some f" using assms(2) by (auto simp: awaiting_def idle_def)
  then have "operation_ok c v i (mg_futures (vw_manager v) f)" using assms(1) by (simp add: manager_parts)
  then show False using assms(3) by (simp add: operation_ok_def)
qed

section \<open>The call of the store\<close>

definition lease_granted :: "manager_config \<Rightarrow> string \<Rightarrow> string \<Rightarrow> store_answer \<Rightarrow> view \<Rightarrow> bool" where
  "lease_granted c i expiry a v \<longleftrightarrow> (\<forall>l. a = Renewed l \<longrightarrow> lr_renewed l
     \<longrightarrow> (\<exists>t. instant v (Some expiry) = Some t \<and> present i v \<and> leased (mc_worker c) i t v))"

lemma lasting_instant [lasting_intros]: "lasting c R (\<lambda>v. instant v l = x)"
  by (rule lastingI) (simp add: instant_rely [OF rely_rows])

lemma lasting_lease_granted [lasting_intros]: "lasting c R (lease_granted d i expiry a)"
  unfolding lease_granted_def by (intro lasting_intros)

lemma renewed_row:
  assumes ok: "manager_ok c v" and run: "row_of v i = Some run" "alive (vw_clock v) run" "rr_owner_worker_id run = Some (mc_worker c)"
    and t: "instant v (Some expiry) = Some t" "row_bound (mc_worker c) i t v"
    and run': "run' = run\<lparr>rr_owner_worker_id := Some (mc_worker c), rr_lease_expires_at := Some expiry, rr_updated_at := u\<rparr>"
  shows "evolves (mc_worker c) (vw_clock v) run run'"
proof -
  obtain t0 where t0: "lease_instant (vw_clock v) run = Some t0" "now v \<le> t0" using run(2) by (auto simp: alive_def)
  then have "t0 \<le> t" using t(2) run(1,3) by (simp add: row_bound_def lease_instant_eq)
  then show ?thesis
    unfolding evolves_def using t0 t(1) run run' by (auto simp: renews_def lease_instant_eq)
qed

lemma renewal_moves:
  assumes fit: "fits c R v" and ren: "renewing i f expiry v" and R: "NewRun i \<notin> R"
    and s: "s' = snd (do_renew i (mc_worker c) expiry ai (vw_clock v) (vw_store v))"
  shows "store_moves c R v s'" "rely R v (v\<lparr>vw_store := s'\<rparr>)"
    "lease_granted c i expiry (fst (do_renew i (mc_worker c) expiry ai (vw_clock v) (vw_store v))) (v\<lparr>vw_store := s'\<rparr>)"
proof -
  note ok = fitsD [OF fit] and sok = manager_store_ok [OF fitsD [OF fit]]
  obtain t where t: "instant v (Some expiry) = Some t" "t \<le> now v + span c" "row_bound (mc_worker c) i t v" and p: "present i v"
    using renewing_ok [OF ok ren] by blast
  have fut: "mg_operations (vw_manager v) i = Some g \<Longrightarrow> rn_expiry (mg_futures (vw_manager v) g) = expiry" for g
    using ren by (simp add: renewing_def asked_for_def)
  consider (same) "s' = vw_store v" "\<And>l. fst (do_renew i (mc_worker c) expiry ai (vw_clock v) (vw_store v)) = Renewed l \<Longrightarrow> \<not> lr_renewed l"
    | (renewed) run u where "row_of v i = Some run" "alive (vw_clock v) run" "rr_owner_worker_id run = Some (mc_worker c)"
        "s' = store_row (run\<lparr>rr_owner_worker_id := Some (mc_worker c), rr_lease_expires_at := Some expiry, rr_updated_at := u\<rparr>) (vw_store v)"
    using do_renew_effect [OF sok, of i "mc_worker c" expiry ai "vw_clock v"] s by blast
  then have "store_moves c R v s' \<and> rely R v (v\<lparr>vw_store := s'\<rparr>)
    \<and> lease_granted c i expiry (fst (do_renew i (mc_worker c) expiry ai (vw_clock v) (vw_store v))) (v\<lparr>vw_store := s'\<rparr>)"
  proof cases
    case same
    then show ?thesis using ok by (auto simp: store_moves_def row_moves_def rely_def lease_granted_def split: option.split intro: evolves_refl)
  next
    case (renewed run u)
    define run' where "run' = run\<lparr>rr_owner_worker_id := Some (mc_worker c), rr_lease_expires_at := Some expiry, rr_updated_at := u\<rparr>"
    have s': "s' = store_row run' (vw_store v)" using renewed(4) by (simp add: run'_def)
    have id: "rr_run_id run' = i" using get_run_id [OF sok renewed(1)] by (simp add: run'_def)
    have row: "od_get (st_runs s') j = (if j = i then Some run' else row_of v j)" for j
      by (simp add: s' id store_row_def update_conv')
    note ev = renewed_row [OF ok renewed(1-3) t(1,3) run'_def]
    have moves: "row_moves (mc_worker c) v s' j" for j
      using ev renewed(1) by (auto simp: row_moves_def row split: option.split intro: evolves_refl)
    have kept: "store_ok s'" using rows_kept_ok [OF do_renew_kept [OF sok]] s by blast
    have "store_within c (v\<lparr>vw_store := s'\<rparr>)"
      using ok kept t by (auto simp: store_within_def manager_ok_def row run'_def split: if_splits)
    then have "store_moves c R v s'"
    proof (rule store_moves_intro [OF fit _ moves])
      fix j g t' assume j: "mg_operations (vw_manager v) j = Some g" "instant v (Some (rn_expiry (mg_futures (vw_manager v) g))) = Some t'"
        "row_bound (mc_worker c) j t' v"
      then show "row_bound (mc_worker c) j t' (v\<lparr>vw_store := s'\<rparr>)"
        using fut t(1) by (auto simp: row_bound_def row run'_def)
    qed
    moreover have "rely R v (v\<lparr>vw_store := s'\<rparr>)" using rows_rely_store [OF moves] by (simp add: rely_def)
    moreover have "leased (mc_worker c) i t (v\<lparr>vw_store := s'\<rparr>)" using t(1) by (simp add: leased_def row run'_def)
    moreover have "present i (v\<lparr>vw_store := s'\<rparr>)" using p by (simp add: present_def row)
    ultimately show ?thesis using t(1) by (auto simp: lease_granted_def)
  qed
  then show "store_moves c R v s'" "rely R v (v\<lparr>vw_store := s'\<rparr>)"
    "lease_granted c i expiry (fst (do_renew i (mc_worker c) expiry ai (vw_clock v) (vw_store v))) (v\<lparr>vw_store := s'\<rparr>)" by blast+
qed

lemma asks_renewal:
  "asks c {Future f} (renewing i f expiry) (do_renew i (mc_worker c) expiry ai) (lease_granted c i expiry)"
proof (rule asksI, rule sound_Ask)
  let ?R = "{Future f}" and ?P = "renewing i f expiry" and ?f = "do_renew i (mc_worker c) expiry ai"
  fix k assume k: "\<And>a. \<not> threw a \<Longrightarrow> sound (k (Answer a)) c ?R (\<lambda>v. ?P v \<and> lease_granted c i expiry a v)"
    "\<And>e. sound (k (Answer (Threw e))) c ?R ?P" "\<And>a. (\<And>x. a \<noteq> Answer x) \<Longrightarrow> sound (k a) c ?R ?P"
  show P: "lasting c ?R ?P" "lasting c ?R ?P" by (intro lasting_intros; simp)+
  show "sound (k a) c ?R ?P" if "\<And>x. a \<noteq> Answer x" for a by (rule k(3)) (rule that)
  fix v assume v: "fits c ?R v" "?P v"
  note moves = renewal_moves [OF v _ refl]
  show "store_moves c ?R v (snd (?f (vw_clock v) (vw_store v)))" by (rule moves(1)) simp
  let ?v = "v\<lparr>vw_store := snd (?f (vw_clock v) (vw_store v))\<rparr>"
  have P': "?P ?v" using v(2) by (simp add: renewing_def asked_for_def)
  then show "?P v \<and> ?P ?v" using v(2) by simp
  have "lease_granted c i expiry (fst (?f (vw_clock v) (vw_store v))) ?v" by (rule moves(3)) simp
  then show "\<exists>P'. P' ?v \<and> sound (k (Answer (fst (?f (vw_clock v) (vw_store v))))) c ?R P'"
  proof (cases "threw (fst (?f (vw_clock v) (vw_store v)))")
    case True
    then obtain e where "fst (?f (vw_clock v) (vw_store v)) = Threw e" by (auto simp: threw_def)
    then show ?thesis using P' k(2) [of e] by (intro exI [of _ ?P]) simp
  next
    case False
    from k(1) [OF this] show ?thesis
      using P' \<open>lease_granted _ _ _ _ _\<close>
      by (intro exI [of _ "\<lambda>v'. ?P v' \<and> lease_granted c i expiry (fst (?f (vw_clock v) (vw_store v))) v'"]) simp
  qed
qed

section \<open>The task that carries out a renewal\<close>

lemma renewals_changed:
  assumes "manager_ok c v" "mg_heap m = mg_heap (vw_manager v)" "mg_next m = mg_next (vw_manager v)" "mg_runs m = mg_runs (vw_manager v)"
    and "\<And>j g. mg_operations m j = Some g \<Longrightarrow> g < mg_next_future m \<and> operation_ok c v j (mg_futures m g)"
    and "\<And>g. future_ok c v (mg_futures m g)" "\<And>g. mg_next_future m \<le> g \<Longrightarrow> rn_result (mg_futures m g) = None"
  shows "manager_ok c (v\<lparr>vw_manager := m\<rparr>)"
  using assms(1,5-7) by (simp add: manager_parts assms(2-4))

lemma operations_ok: "manager_ok c v \<Longrightarrow> mg_operations (vw_manager v) j = Some g \<Longrightarrow>
    g < mg_next_future (vw_manager v) \<and> operation_ok c v j (mg_futures (vw_manager v) g)"
  by (simp add: manager_parts)

lemma futures_ok: "manager_ok c v \<Longrightarrow> future_ok c v (mg_futures (vw_manager v) g)"
  "manager_ok c v \<Longrightarrow> mg_next_future (vw_manager v) \<le> g \<Longrightarrow> rn_result (mg_futures (vw_manager v) g) = None"
  by (simp_all add: manager_parts)

lemma settle_moves:
  assumes fit: "fits c {Future f} v" and ren: "renewing i f expiry v"
    and won: "\<And>l. result = Inr l \<Longrightarrow> lr_renewed l \<Longrightarrow>
      \<exists>t. instant v (Some expiry) = Some t \<and> present i v \<and> leased (mc_worker c) i t v"
  shows "moves c {Future f} {Future f} v (settle_renewal i f result (vw_manager v))"
proof -
  let ?m = "settle_renewal i f result (vw_manager v)"
  note ok = fitsD [OF fit]
  have m: "mg_heap ?m = mg_heap (vw_manager v)" "mg_next ?m = mg_next (vw_manager v)" "mg_runs ?m = mg_runs (vw_manager v)"
    "mg_next_future ?m = mg_next_future (vw_manager v)" "mg_operations ?m = (mg_operations (vw_manager v))(i := None)"
    "mg_futures ?m = (mg_futures (vw_manager v))(f := (mg_futures (vw_manager v) f)\<lparr>rn_result := Some result\<rparr>)"
    using ren by (simp_all add: settle_renewal_def renewing_def)
  have f: "f < mg_next_future (vw_manager v)" "rn_result (mg_futures (vw_manager v) f) = None"
    "rn_run_id (mg_futures (vw_manager v) f) = i" "rn_expiry (mg_futures (vw_manager v) f) = expiry"
    "mg_operations (vw_manager v) i = Some f"
    using ren renewing_ok [OF ok ren] by (simp_all add: renewing_def asked_for_def)
  have "manager_rely R' (vw_manager v) ?m" if "R' \<inter> {Future f} = {}" for R'
    using that f by (auto simp: manager_rely_parts m same_future_def)
  then have "guarantees {Future f} v ?m" by (simp add: guarantees_def)
  moreover have "manager_ok c (v\<lparr>vw_manager := ?m\<rparr>)"
  proof (rule renewals_changed [OF ok m(1-3)])
    fix j g assume "mg_operations ?m j = Some g"
    then have j: "j \<noteq> i" "mg_operations (vw_manager v) j = Some g" by (auto simp: m(5) split: if_splits)
    then have g: "g < mg_next_future (vw_manager v)" "operation_ok c v j (mg_futures (vw_manager v) g)"
      using operations_ok [OF ok] by blast+
    then have "g \<noteq> f" using j(1) f(3) by (auto simp: operation_ok_def)
    then show "g < mg_next_future ?m \<and> operation_ok c v j (mg_futures ?m g)" using g by (simp add: m)
  next
    have "future_ok c v ((mg_futures (vw_manager v) f)\<lparr>rn_result := Some result\<rparr>)"
      using won f by (auto simp: future_ok_def)
    then show "future_ok c v (mg_futures ?m g)" for g using futures_ok(1) [OF ok] by (simp add: m)
    show "mg_next_future ?m \<le> g \<Longrightarrow> rn_result (mg_futures ?m g) = None" for g
      using futures_ok(2) [OF ok] f(1) by (simp add: m)
  qed
  ultimately show ?thesis using f(1) by (auto simp: moves_def fits_def m)
qed

lemma sound_settle:
  assumes Q: "lasting c {Future f} Q" "\<And>v. fits c {Future f} v \<Longrightarrow> Q v \<Longrightarrow> renewing i f expiry v"
    and won: "\<And>v l. fits c {Future f} v \<Longrightarrow> Q v \<Longrightarrow> result = Inr l \<Longrightarrow> lr_renewed l
      \<Longrightarrow> \<exists>t. instant v (Some expiry) = Some t \<and> present i v \<and> leased (mc_worker c) i t v"
  shows "sound (alter (\<lambda>_. settle_renewal i f result) (Finish (Inr Nothing))) c {Future f} Q"
  unfolding alter_def
proof (rule sound_Section [OF Q(1)])
  fix v assume v: "fits c {Future f} v" "Q v"
  have "moves c {Future f} {Future f} v (settle_renewal i f result (vw_manager v))"
    by (rule settle_moves [OF v(1) Q(2) [OF v] won [OF v]])
  then show "\<exists>R' P'. moves c {Future f} R' v (settle_renewal i f result (vw_manager v))
      \<and> P' (after_section {Future f} R' (settle_renewal i f result (vw_manager v)) v) \<and> sound (Finish (Inr Nothing)) c R' P'"
    by (intro exI [of _ "{Future f}"] exI [of _ "\<lambda>_. True"]) simp
qed

lemma sound_renewal_task: "sound (renewal_task c i f ai expiry) c {Future f} (renewing i f expiry)"
  unfolding renewal_task_def call_store_with_retry_def
proof (rule sound_retrying_by [OF asks_renewal], rule acceptsI)
  have ren: "lasting c {Future f} (renewing i f expiry)" by (intro lasting_intros) simp
  show "sound (alter (\<lambda>_. settle_renewal i f (case Inl e of Inr (Renewed l) \<Rightarrow> Inr l | _ \<Rightarrow> Inl ())) (Finish (Inr Nothing)))
      c {Future f} (renewing i f expiry)" for e :: manager_error
    by (rule sound_settle [OF ren]) simp_all
  show "sound (alter (\<lambda>_. settle_renewal i f (case Inr a of Inr (Renewed l) \<Rightarrow> Inr l | _ \<Rightarrow> Inl ())) (Finish (Inr Nothing)))
      c {Future f} (\<lambda>v. renewing i f expiry v \<and> lease_granted c i expiry a v)" for a
    by (rule sound_settle [OF lasting_conj [OF ren lasting_lease_granted]]) (cases a; simp add: lease_granted_def)+
qed

section \<open>Beginning and applying a renewal\<close>

lemma begin_moves:
  assumes fit: "fits c R v" and key: "Key (SnapshotLock i) \<in> R" and r: "run_id_is r i v" "present i v" "idle i v"
    and m: "m = snd (begin_renewal c r (vw_clock v) (vw_manager v))" and f: "f = mg_next_future (vw_manager v)"
  shows "moves c R (insert (Future f) R) v m" "renewing i f (lease_from c (vw_clock v)) (v\<lparr>vw_manager := m\<rparr>)"
    "mg_heap m = mg_heap (vw_manager v)" "mg_next m = mg_next (vw_manager v)"
proof -
  note ok = fitsD [OF fit]
  let ?rn = "\<lparr>rn_run_id = i, rn_expiry = lease_from c (vw_clock v), rn_result = None\<rparr>"
  have id: "rc_run_id (rec_of v r) = i" using r(1) by (simp add: run_id_is_def)
  have m: "mg_heap m = mg_heap (vw_manager v)" "mg_next m = mg_next (vw_manager v)" "mg_runs m = mg_runs (vw_manager v)"
    "mg_next_future m = Suc f" "mg_operations m = (mg_operations (vw_manager v))(i \<mapsto> f)"
    "mg_futures m = (mg_futures (vw_manager v))(f := ?rn)"
    by (simp_all add: m begin_renewal_def Let_def id f)
  then show "mg_heap m = mg_heap (vw_manager v)" "mg_next m = mg_next (vw_manager v)" by blast+
  have "manager_rely R' (vw_manager v) m" if "Key (SnapshotLock i) \<notin> R'" for R'
    using that r(3) by (auto simp: manager_rely_parts m idle_def f)
  then have "guarantees R v m" using key by (auto simp: guarantees_def)
  moreover have "manager_ok c (v\<lparr>vw_manager := m\<rparr>)"
  proof (rule renewals_changed [OF ok m(1-3)])
    have "instant v (Some (lease_from c (vw_clock v))) = Some (now v + span c)"
      using ok by (simp add: manager_ok_def clock_ok_def lease_from_def span_def)
    moreover have "row_bound (mc_worker c) i (now v + span c) v"
      using ok by (auto simp: manager_ok_def store_within_def row_bound_def)
    ultimately have "operation_ok c v i ?rn" using r(2) by (simp add: operation_ok_def)
    then show "g < mg_next_future m \<and> operation_ok c v j (mg_futures m g)" if "mg_operations m j = Some g" for j g
      using that operations_ok [OF ok, of j g] by (auto simp: m f split: if_splits)
    show "future_ok c v (mg_futures m g)" for g using futures_ok(1) [OF ok] by (simp add: m future_ok_def)
    show "mg_next_future m \<le> g \<Longrightarrow> rn_result (mg_futures m g) = None" for g using futures_ok(2) [OF ok] by (simp add: m f)
  qed
  moreover have "after_section R (insert (Future f) R) m v = v\<lparr>vw_manager := m\<rparr>" by (simp add: after_section_def)
  ultimately show "moves c R (insert (Future f) R) v m"
    using fit by (auto simp: moves_def fits_def m f)
  show "renewing i f (lease_from c (vw_clock v)) (v\<lparr>vw_manager := m\<rparr>)"
    by (simp add: renewing_def asked_for_def m)
qed

definition local_run_of :: "nat \<Rightarrow> string \<Rightarrow> view \<Rightarrow> bool" where
  "local_run_of r i v \<longleftrightarrow> run_id_is r i v \<and> held r v"

lemma lasting_local_run_of [lasting_intros]: "lasting c R (local_run_of r i)"
  unfolding local_run_of_def by (intro lasting_intros)

lemma mild_apply_renewal:
  assumes ok: "manager_ok c v" and r: "run_id_is r i v" and f: "asked_for i f expiry v"
  shows "mild c v (vw_manager v) (apply_renewal d r f deadline clk (vw_manager v))"
proof (cases "renewal_decision_of r f deadline clk (vw_manager v)")
  case (Kept action)
  then obtain l where l: "rn_result (mg_futures (vw_manager v) f) = Some (Inr l)" "lr_renewed l" "\<not> rc_lost (rec_of v r)"
    by (auto simp: renewal_decision_of_def Let_def split: option.splits sum.splits if_splits)
  have "future_ok c v (mg_futures (vw_manager v) f)" by (rule futures_ok(1) [OF ok])
  then obtain t where t: "present i v" "instant v (Some expiry) = Some t" "leased (mc_worker c) i t v"
    using l(1,2) f by (auto simp: future_ok_def asked_for_def)
  have "record_mild c v (rec_of v r) (rec_of v r\<lparr>rc_lease := Some expiry\<rparr>)"
    using t l(3) r by (auto simp: record_mild_def record_step_def run_id_is_def)
  then have "mild c v (vw_manager v) (modify r (\<lambda>rc. rc\<lparr>rc_lease := Some expiry\<rparr>) (vw_manager v))"
    by (auto simp: mild_def modify_def split: if_splits)
  then show ?thesis
    using f Kept mild_trans [OF _ mild_arm] by (simp add: apply_renewal_def asked_for_def)
qed (simp_all add: apply_renewal_def)

lemma sound_await_at:
  assumes P: "lasting c R P"
    and mild: "\<And>v m'. fits c R v \<Longrightarrow> P v \<Longrightarrow> g (vw_clock v) (vw_manager v) = Some m' \<Longrightarrow> mild c v (vw_manager v) m'"
    and gain: "\<And>v m'. fits c R v \<Longrightarrow> P v \<Longrightarrow> g (vw_clock v) (vw_manager v) = Some m'
      \<Longrightarrow> G (vw_clock v) (vw_manager v) (v\<lparr>vw_manager := m'\<rparr>)"
    and k: "\<And>clk m. sound (k clk m) c R (\<lambda>v. P v \<and> G clk m v)" and q: "sound q c R P"
  shows "sound (Await g k q) c R P"
proof (rule sound_Await [OF P _ q])
  fix v m' assume v: "fits c R v" "P v" and g: "g (vw_clock v) (vw_manager v) = Some m'"
  show "\<exists>R' P'. moves c R R' v m' \<and> P' (after_section R R' m' v) \<and> sound (k (vw_clock v) (vw_manager v)) c R' P'"
    using mild_moves [OF v(1) mild [OF v g]] mild_lasting [OF P v mild [OF v g]] k gain [OF v g]
    by (intro exI [of _ R] exI [of _ "\<lambda>v'. P v' \<and> G (vw_clock v) (vw_manager v) v'"]) simp
qed

lemma sound_lease_fence:
  assumes P: "lasting c R P" and k: "accepts c R P (\<lambda>_ _. True) k"
  shows "sound (lease_fence d r deadline reason k) c R P"
  unfolding lease_fence_def
  by (intro sound_barrier [OF P] accepts_ok_or' [OF k] sound_if sound_mark_lost lasting_intros P sound_return [OF k]; simp)

lemma apply_renewal_unless: "renewal_decision_of r f deadline clk m = Rejected \<Longrightarrow> apply_renewal d r f deadline clk m = m"
  by (simp add: apply_renewal_def)

lemma rejected_answered: "renewal_decision_of r f deadline clk m = Rejected \<Longrightarrow> rn_result (mg_futures m f) \<noteq> None"
  by (cases "rn_result (mg_futures m f)") (simp_all add: renewal_decision_of_def Let_def)

lemma sound_renew_once:
  assumes k: "accepts c {Key (SnapshotLock i)} (local_run_of r i) (\<lambda>_ _. True) k"
    and rejected: "sound rejected c {Key (SnapshotLock i)} (\<lambda>v. local_run_of r i v \<and> idle i v)"
  shows "sound (renew_once c r i deadline rejected k) c {Key (SnapshotLock i)} (\<lambda>v. local_run_of r i v \<and> idle i v)"
  unfolding renew_once_def sect_def
proof (rule sound_Section)
  let ?R = "{Key (SnapshotLock i)}" and ?f = "begin_renewal c r"
  show "lasting c ?R (\<lambda>v. local_run_of r i v \<and> idle i v)" by (intro lasting_intros) simp
  fix v assume v: "fits c ?R v" "local_run_of r i v \<and> idle i v"
  let ?m = "snd (?f (vw_clock v) (vw_manager v))"
  define f expiry where "f = mg_next_future (vw_manager v)" and "expiry = lease_from c (vw_clock v)"
  have r: "run_id_is r i v" "present i v" "idle i v" using v(2) by (auto simp: local_run_of_def held_def run_id_is_def)
  note started = begin_moves [OF v(1) _ r refl f_def, simplified]
  have local: "local_run_of r i (v\<lparr>vw_manager := ?m\<rparr>)"
    using v(2) started(3,4) by (simp add: local_run_of_def held_def run_id_is_def known_def) metis
  have fst_begin: "fst (?f (vw_clock v) (vw_manager v)) = (f, rc_rollback_pending (rec_of v r) \<and> interrupted_proof (rec_of v r), expiry)"
    by (simp add: begin_renewal_def Let_def f_def expiry_def)
  let ?wait = "\<lambda>clk m. case renewal_decision_of r f deadline clk m of
               Unanswered \<Rightarrow> lease_fence c r deadline ''Lease renewal exceeded the last confirmed lease deadline.'' k
             | Failing \<Rightarrow> k (Inr None)
             | AlreadyFinal \<Rightarrow> release_confirmed_terminal_barrier r clk_now (ok_or k (\<lambda>_. k (Inr None)))
             | Dropped \<Rightarrow> k (Inr None)
             | FailedLate \<Rightarrow> lease_fence c r deadline ''Lease renewal failed through the last confirmed lease deadline.'' k
             | TooLate \<Rightarrow> lease_fence c r deadline ''Lease renewal completed after the last confirmed lease had already expired.'' k
             | Kept action \<Rightarrow> k (Inr action)
             | Rejected \<Rightarrow> rejected"
  let ?Q = "\<lambda>v. local_run_of r i v \<and> awaiting i f expiry v"
  have Q: "lasting c ?R ?Q" by (intro lasting_intros) simp
  have k': "accepts c ?R ?Q (\<lambda>_ _. True) k" by (rule accepts_weak [OF k]) simp_all
  have ret: "sound (k x) c ?R ?Q" for x by (cases x) (auto intro!: sound_return [OF k'] sound_raise [OF k'])
  have fence: "sound (lease_fence c r deadline reason k) c ?R ?Q" for reason by (rule sound_lease_fence [OF Q k'])
  have barrier: "sound (release_confirmed_terminal_barrier r clk_now (ok_or k (\<lambda>_. k (Inr None)))) c ?R ?Q"
    by (intro sound_barrier [OF Q] accepts_ok_or' [OF k']; simp add: ret)
  have wait: "sound (?wait clk m) c ?R (\<lambda>v. ?Q v \<and> (renewal_decision_of r f deadline clk m = Rejected \<longrightarrow> idle i v))" for clk m
  proof (cases "renewal_decision_of r f deadline clk m")
    case Rejected
    then show ?thesis by (auto intro: sound_weaken [OF rejected])
  qed (auto intro: sound_weaken [OF ret] sound_weaken [OF fence] sound_weaken [OF barrier])
  let ?await = "Await (\<lambda>clk m. if renewal_decision_of r f deadline clk m = Unanswered \<and> clk_now clk < deadline then None
      else Some (apply_renewal c r f deadline clk m)) ?wait (k (Inl TaskCancelled))"
  have await: "sound ?await c ?R ?Q"
  proof (rule sound_await_at [OF Q])
    fix u m' assume u: "fits c ?R u" "?Q u" and m': "(if renewal_decision_of r f deadline (vw_clock u) (vw_manager u) = Unanswered
        \<and> clk_now (vw_clock u) < deadline then None else Some (apply_renewal c r f deadline (vw_clock u) (vw_manager u))) = Some m'"
    then have m': "m' = apply_renewal c r f deadline (vw_clock u) (vw_manager u)" by (auto split: if_splits)
    show "mild c u (vw_manager u) m'"
      unfolding m' by (rule mild_apply_renewal [OF fitsD [OF u(1)], of _ i _ expiry]) (use u(2) in \<open>auto simp: local_run_of_def awaiting_def\<close>)
    show "renewal_decision_of r f deadline (vw_clock u) (vw_manager u) = Rejected \<longrightarrow> idle i (u\<lparr>vw_manager := m'\<rparr>)"
    proof
      assume rej: "renewal_decision_of r f deadline (vw_clock u) (vw_manager u) = Rejected"
      have "idle i u" by (rule answered_idle [OF fitsD [OF u(1)] conjunct2 [OF u(2)] rejected_answered [OF rej]])
      then show "idle i (u\<lparr>vw_manager := m'\<rparr>)" by (simp add: m' apply_renewal_unless [OF rej] idle_def)
    qed
  qed (rule wait ret)+
  have "sound (Spawn (renewal_task c i f b expiry) ?await) c (insert (Future f) ?R) (\<lambda>v. local_run_of r i v \<and> renewing i f expiry v)" for b
  proof (rule sound_Spawn [where F = "{Future f}"])
    show "lasting c (insert (Future f) ?R) (\<lambda>v. local_run_of r i v \<and> renewing i f expiry v)" by (intro lasting_intros) simp
    show "sound (renewal_task c i f b expiry) c {Future f} (\<lambda>v. local_run_of r i v \<and> renewing i f expiry v)"
      by (rule sound_weaken [OF sound_renewal_task]) simp
    show "sound ?await c (insert (Future f) ?R - {Future f}) (\<lambda>v. local_run_of r i v \<and> renewing i f expiry v)"
      using sound_weaken [OF await, of "\<lambda>v. local_run_of r i v \<and> renewing i f expiry v"]
      by (auto simp: renewing_def awaiting_def insert_Diff_if)
  qed auto
  then show "\<exists>R' P'. moves c ?R R' v ?m \<and> P' (after_section ?R R' ?m v)
      \<and> sound ((\<lambda>(f, allow_interrupted, expiry). Spawn (renewal_task c i f allow_interrupted expiry)
         (Await (\<lambda>clk m. if renewal_decision_of r f deadline clk m = Unanswered \<and> clk_now clk < deadline then None
                         else Some (apply_renewal c r f deadline clk m))
           (\<lambda>clk m. case renewal_decision_of r f deadline clk m of
               Unanswered \<Rightarrow> lease_fence c r deadline ''Lease renewal exceeded the last confirmed lease deadline.'' k
             | Failing \<Rightarrow> k (Inr None)
             | AlreadyFinal \<Rightarrow> release_confirmed_terminal_barrier r clk_now (ok_or k (\<lambda>_. k (Inr None)))
             | Dropped \<Rightarrow> k (Inr None)
             | FailedLate \<Rightarrow> lease_fence c r deadline ''Lease renewal failed through the last confirmed lease deadline.'' k
             | TooLate \<Rightarrow> lease_fence c r deadline ''Lease renewal completed after the last confirmed lease had already expired.'' k
             | Kept action \<Rightarrow> k (Inr action)
             | Rejected \<Rightarrow> rejected)
           (k (Inl TaskCancelled)))) (fst (?f (vw_clock v) (vw_manager v)))) c R' P'"
    using started(1,2) local unfolding fst_begin prod.case
    by (intro exI [of _ "insert (Future f) ?R"] exI [of _ "\<lambda>v. local_run_of r i v \<and> renewing i f expiry v"])
      (simp add: expiry_def after_section_def)
qed

lemma sound_renew_attempts:
  assumes k: "accepts c {Key (SnapshotLock i)} (local_run_of r i) (\<lambda>_ _. True) k"
  shows "sound (renew_attempts n c r i deadline ai k) c {Key (SnapshotLock i)} (\<lambda>v. local_run_of r i v \<and> idle i v)"
proof (induction n)
  let ?R = "{Key (SnapshotLock i)}" and ?P = "\<lambda>v. local_run_of r i v \<and> idle i v"
  have P: "lasting c ?R ?P" by (intro lasting_intros) simp
  have k': "accepts c ?R ?P (\<lambda>_ _. True) k" by (rule accepts_weak [OF k]) simp_all
  have fence: "sound (lease_fence c r deadline reason k) c ?R ?P" for reason by (rule sound_lease_fence [OF P k'])
  case 0
  show ?case by (simp add: sound_renew_once [OF k fence])
  case (Suc n)
  have "sound (Await (\<lambda>clk m. if rollback_retry_authorized c r ai m \<or> mg_attempts m i = [] \<or> deadline \<le> clk_now clk then Some m else None)
      (\<lambda>clk m. if clk_now clk < deadline \<and> rollback_retry_authorized c r ai m then renew_attempts n c r i deadline ai k
        else lease_fence c r deadline ''The durable store rejected lease renewal for this worker.'' k) (k (Inl TaskCancelled))) c ?R ?P"
    by (rule sound_await [OF P]) (use Suc fence sound_raise [OF k'] in \<open>auto split: if_splits\<close>)
  then show ?case by (auto simp: Let_def intro!: sound_renew_once [OF k] fence)
qed

section \<open>The heartbeat\<close>

lemma sound_renew_one_lease_locked:
  assumes k: "accepts c {Key (SnapshotLock i)} (local_run_of r i) (\<lambda>_ _. True) k"
  shows "sound (renew_one_lease_locked c r i k) c {Key (SnapshotLock i)} (local_run_of r i)"
proof -
  let ?R = "{Key (SnapshotLock i)}" and ?P = "local_run_of r i"
  have P: "lasting c ?R ?P" by (intro lasting_intros)
  have ret: "sound (k x) c ?R ?P" for x by (cases x) (auto intro!: sound_return [OF k] sound_raise [OF k])
  have barrier: "sound (release_confirmed_terminal_barrier r clk_now (ok_or k (\<lambda>_. k (Inr None)))) c ?R ?P"
    by (intro sound_barrier [OF P] accepts_ok_or' [OF k]; simp add: ret)
  have fence: "sound (lease_fence c r deadline reason k) c ?R ?P" for deadline reason by (rule sound_lease_fence [OF P k])
  have renew: "sound (sect (\<lambda>clk m. ((confirmed_until r clk m, clk_now clk, mg_heap m r, mg_attempts m i = [], mg_operations m i),
                 arm_lease_deadline c r clk m)) (\<lambda>(deadline, u, rc, no_attempts, operation).
       if deadline \<le> u
       then lease_fence c r deadline ''Lease ownership could not be confirmed before the last confirmed lease expired.'' k
       else if awaits_terminal_commit rc \<and> rc_task rc = Some True \<and> no_attempts
       then lease_fence c r deadline ''The worker exited without an attributable terminal acknowledgment.'' k
       else if operation \<noteq> None
       then lease_fence c r deadline ''A previous lease renewal is still unconfirmed.'' k
       else renew_attempts 1 c r i deadline (rc_rollback_pending rc \<and> interrupted_proof rc) k)) c ?R ?P"
  proof (rule sound_sect [OF P, where G = "\<lambda>(deadline, u, rc, no_attempts, operation) v. operation = None \<longrightarrow> idle i v"])
    fix x :: "int \<times> int \<times> run_record \<times> bool \<times> nat option"
    obtain deadline u rc no_attempts operation where x: "x = (deadline, u, rc, no_attempts, operation)" by (cases x)
    have renew: "sound (renew_attempts 1 c r i deadline ai k) c ?R (\<lambda>v. local_run_of r i v \<and> idle i v)" for ai
      by (rule sound_renew_attempts [OF k])
    show "sound ((\<lambda>(deadline, u, rc, no_attempts, operation).
       if deadline \<le> u
       then lease_fence c r deadline ''Lease ownership could not be confirmed before the last confirmed lease expired.'' k
       else if awaits_terminal_commit rc \<and> rc_task rc = Some True \<and> no_attempts
       then lease_fence c r deadline ''The worker exited without an attributable terminal acknowledgment.'' k
       else if operation \<noteq> None
       then lease_fence c r deadline ''A previous lease renewal is still unconfirmed.'' k
       else renew_attempts 1 c r i deadline (rc_rollback_pending rc \<and> interrupted_proof rc) k) x) c ?R
       (\<lambda>v. local_run_of r i v \<and> (case x of (deadline, u, rc, no_attempts, operation) \<Rightarrow> \<lambda>v. operation = None \<longrightarrow> idle i v) v)"
      unfolding x prod.case
      by (rule sound_if, rule sound_weaken [OF fence], simp, rule sound_if, rule sound_weaken [OF fence], simp,
          rule sound_if, rule sound_weaken [OF fence], simp, rule sound_weaken [OF renew], simp)
    fix v assume "local_run_of r i v"
    show "mild c v (vw_manager v) (snd ((confirmed_until r (vw_clock v) (vw_manager v), now v, rec_of v r, mg_attempts (vw_manager v) i = [],
        mg_operations (vw_manager v) i), arm_lease_deadline c r (vw_clock v) (vw_manager v)))" by simp
    show "(case fst ((confirmed_until r (vw_clock v) (vw_manager v), now v, rec_of v r, mg_attempts (vw_manager v) i = [],
        mg_operations (vw_manager v) i), arm_lease_deadline c r (vw_clock v) (vw_manager v)) of
        (deadline, u, rc, no_attempts, operation) \<Rightarrow> \<lambda>v. operation = None \<longrightarrow> idle i v)
        (v\<lparr>vw_manager := snd ((confirmed_until r (vw_clock v) (vw_manager v), now v, rec_of v r, mg_attempts (vw_manager v) i = [],
        mg_operations (vw_manager v) i), arm_lease_deadline c r (vw_clock v) (vw_manager v))\<rparr>)"
      by (simp add: idle_def arm_lease_deadline_def clear_lease_deadline_def Let_def)
  qed
  show ?thesis unfolding renew_one_lease_locked_def by (intro sound_look_plain [OF P] sound_if barrier renew)
qed

lemma sound_renew_one_lease:
  assumes k: "accepts c {} (local_run_of r i) (\<lambda>_ _. True) k"
  shows "sound (renew_one_lease c r i k) c {} (local_run_of r i)"
  unfolding renew_one_lease_def
proof (rule sound_alter)
  let ?P = "local_run_of r i"
  show P: "lasting c {} ?P" by (intro lasting_intros)
  have signal: "sound (signal_local_cancel i a k) c {} ?P" for a
    by (rule sound_signal_local [OF P _ k]) (simp add: unlocked_def)
  show "sound (holding (SnapshotLock i) (renew_one_lease_locked c r i)
      (ok_or k (\<lambda>action. case action of None \<Rightarrow> k (Inr ()) | Some a \<Rightarrow> signal_local_cancel i a k))) c {} ?P"
    by (rule sound_holding [OF P lasting_const [where b = True]], simp, rule sound_renew_one_lease_locked, assumption,
      intro accepts_ok_or' [OF k] sound_option; simp add: signal sound_return [OF k])
qed simp

lemma sound_spawn_checks:
  assumes P: "lasting c {} P" and rs: "\<And>v r i. P v \<Longrightarrow> (r, i) \<in> set rs \<Longrightarrow> local_run_of r i v" and p: "sound p c {} P"
  shows "sound (spawn_checks c rs p) c {} P"
  using rs
proof (induction rs)
  case (Cons t rs)
  obtain r i where t: "t = (r, i)" by (cases t)
  have l: "lasting c {} (local_run_of r i)" by (intro lasting_intros)
  have "sound (alter (\<lambda>_ m. m\<lparr>mg_checks := (mg_checks m)(i := False)\<rparr>) (Finish (Inr Nothing))) c {} (local_run_of r i)"
    by (rule sound_alter [OF l _ sound_Finish]) (simp add: mild_def)
  then have "sound (renew_one_lease c r i (\<lambda>_. alter (\<lambda>_ m. m\<lparr>mg_checks := (mg_checks m)(i := False)\<rparr>) (Finish (Inr Nothing)))) c {} (local_run_of r i)"
    by (intro sound_renew_one_lease accepts_plain)
  then have "sound (renew_one_lease c r i (\<lambda>_. alter (\<lambda>_ m. m\<lparr>mg_checks := (mg_checks m)(i := False)\<rparr>) (Finish (Inr Nothing)))) c {} P"
    by (rule sound_weaken) (use Cons.prems t in simp)
  moreover have "sound (spawn_checks c rs p) c {} P" by (rule Cons.IH) (use Cons.prems in simp)
  ultimately show ?case by (simp add: t sound_Spawn [OF P, where F = "{}"])
qed (simp add: p)

lemma lasting_ball [lasting_intros]:
  assumes "\<And>x. x \<in> A \<Longrightarrow> lasting c R (P x)"
  shows "lasting c R (\<lambda>v. \<forall>x \<in> A. P x v)"
proof (rule lastingI, rule ballI)
  fix v v' x assume "fits c R v" "fits c R v'" "\<forall>x \<in> A. P x v" "rely R v v'" "x \<in> A"
  then show "P x v'" using lastingD [OF assms] by blast
qed

lemma records_registered:
  assumes ok: "manager_ok c v" and r: "r \<in> set (all_records (vw_manager v))"
  shows "\<exists>i. run_of v i = Some r"
proof -
  have "od_wf (mg_runs (vw_manager v))" using ok by (simp add: manager_parts)
  moreover obtain i where "(i, r) \<in> set (mg_runs (vw_manager v))" using r by (auto simp: all_records_def)
  ultimately show ?thesis using od_get_mem by metis
qed

lemma start_checks_local:
  assumes ok: "manager_ok c v" and x: "(r, i) \<in> set (snd (fst (start_checks d (vw_manager v))))"
  shows "local_run_of r i v"
proof -
  have "r \<in> set (all_records (vw_manager v))" "i = rc_run_id (rec_of v r)"
    using x by (auto simp: start_checks_def Let_def)
  then obtain j where "run_of v j = Some r" using records_registered [OF ok] by blast
  then show ?thesis
    using held_registered [OF ok] \<open>i = _\<close> by (auto simp: local_run_of_def run_id_is_def)
qed

lemma sound_renew_leases:
  assumes P: "lasting c {} P" and k: "accepts c {} P (\<lambda>_ _. True) k"
  shows "sound (renew_leases c wait k) c {} P"
proof -
  let ?G = "\<lambda>x v. \<forall>(r, i) \<in> set (snd x). local_run_of r i v"
  have "sound (sect (\<lambda>_. start_checks c) (\<lambda>(all, new). spawn_checks c new
      (if wait then Await (\<lambda>_ m. if list_ex (\<lambda>(r, run_id). mg_checks m run_id) all then None else Some m)
         (\<lambda>_ _. k (Inr ())) (k (Inl TaskCancelled)) else k (Inr ())))) c {} P"
  proof (rule sound_sect [OF P, where G = ?G])
    fix v assume v: "fits c {} v" "P v"
    show "mild c v (vw_manager v) (snd (start_checks c (vw_manager v)))" by simp
    then show "?G (fst (start_checks c (vw_manager v))) (v\<lparr>vw_manager := snd (start_checks c (vw_manager v))\<rparr>)"
      using start_checks_local [OF fitsD [OF v(1)]] mild_lasting [OF lasting_local_run_of v(1)] by blast
  next
    fix x :: "(nat \<times> string) list \<times> (nat \<times> string) list"
    obtain all new where x: "x = (all, new)" by (cases x)
    let ?Q = "\<lambda>v. P v \<and> ?G x v"
    have Q: "lasting c {} ?Q" by (intro lasting_intros P) (auto intro!: lasting_intros split: prod.split)
    have k': "accepts c {} ?Q (\<lambda>_ _. True) k" by (rule accepts_weak [OF k]) simp_all
    have ret: "sound (k y) c {} ?Q" for y by (cases y) (auto intro!: sound_return [OF k'] sound_raise [OF k'])
    show "sound ((\<lambda>(all, new). spawn_checks c new
      (if wait then Await (\<lambda>_ m. if list_ex (\<lambda>(r, run_id). mg_checks m run_id) all then None else Some m)
         (\<lambda>_ _. k (Inr ())) (k (Inl TaskCancelled)) else k (Inr ()))) x) c {} ?Q"
    proof -
      have "sound (Await (\<lambda>_ m. if list_ex (\<lambda>(r, run_id). mg_checks m run_id) all then None else Some m)
         (\<lambda>_ _. k (Inr ())) (k (Inl TaskCancelled))) c {} ?Q"
        by (rule sound_await [OF Q _ ret ret]) (auto split: if_splits)
      then have "sound (spawn_checks c new (if wait then Await (\<lambda>_ m. if list_ex (\<lambda>(r, run_id). mg_checks m run_id) all then None else Some m)
         (\<lambda>_ _. k (Inr ())) (k (Inl TaskCancelled)) else k (Inr ()))) c {} ?Q"
        by (intro sound_spawn_checks [OF Q] sound_if ret) (auto simp: x)
      then show ?thesis by (simp add: x)
    qed
  qed
  then show ?thesis using sound_return [OF k, of P "()"] by (simp add: renew_leases_def)
qed

section \<open>Shutdown\<close>

lemma sound_spawn_persists:
  assumes c: "config_ok c" and P: "lasting c {} P" and rs: "\<And>v r. P v \<Longrightarrow> r \<in> set rs \<Longrightarrow> held r v" and p: "sound p c {} P"
  shows "sound (spawn_persists c rs p) c {} P"
  using rs
proof (induction rs)
  case (Cons r rs)
  let ?finish = "\<lambda>a. case a of Inl TaskCancelled \<Rightarrow> Finish (Inr Nothing)
     | _ \<Rightarrow> alter (\<lambda>_. modify r (\<lambda>rc. rc\<lparr>rc_persisted := (a = Inr True)\<rparr>)) (Finish (Inr Nothing))"
  have "sound (alter (\<lambda>_. modify r (\<lambda>rc. rc\<lparr>rc_persisted := b\<rparr>)) (Finish (Inr Nothing))) c {} P" for b
    by (rule sound_alter [OF P _ sound_Finish], rule mild_plain) (simp add: plain_simps)
  then have "accepts c {} P (\<lambda>_ _. True) ?finish"
    by (intro accepts_plain) (auto split: sum.split manager_error.split)
  then have "sound (persist_status c r ''interrupted'' None None ?finish) c {} P"
    by (intro sound_persist_status [OF c P]) (use Cons.prems in auto)
  moreover have "sound (spawn_persists c rs p) c {} P" by (rule Cons.IH) (use Cons.prems in simp)
  ultimately show ?case by (simp add: sound_Spawn [OF P, where F = "{}"])
qed (simp add: p)

lemma signal_shutdown_held:
  assumes "manager_ok c v" "r \<in> set (fst (fst (signal_shutdown (vw_manager v))))"
  shows "held r v"
proof -
  have "r \<in> set (all_records (vw_manager v))" using assms(2) by (auto simp: signal_shutdown_def Let_def)
  then obtain i where "run_of v i = Some r" using records_registered [OF assms(1)] by blast
  then show ?thesis using held_registered [OF assms(1)] by blast
qed

lemma sound_shutdown:
  assumes c: "config_ok c" and P: "lasting c {} P" and k: "accepts c {} P (\<lambda>_ _. True) k"
  shows "sound (shutdown_runs c cancelled deadline k) c {} P"
  unfolding shutdown_runs_def
proof (rule sound_sect [OF P])
  let ?G = "\<lambda>x v. \<forall>r \<in> set (fst x). held r v"
  fix v assume v: "fits c {} v" "P v"
  show "mild c v (vw_manager v) (snd (signal_shutdown (vw_manager v)))" by simp
  then show "?G (fst (signal_shutdown (vw_manager v))) (v\<lparr>vw_manager := snd (signal_shutdown (vw_manager v))\<rparr>)"
    using signal_shutdown_held [OF fitsD [OF v(1)]] held_mild by blast
next
  fix x :: "nat list \<times> nat list"
  let ?G = "\<lambda>x v. \<forall>r \<in> set (fst x). held r v"
  obtain running finalizing where x: "x = (running, finalizing)" by (cases x)
  let ?Q = "\<lambda>v. P v \<and> ?G x v"
  have Q: "lasting c {} ?Q" by (intro lasting_intros P)
  have k': "accepts c {} ?Q (\<lambda>_ _. True) k" by (rule accepts_weak [OF k]) simp_all
  have ret: "sound (k y) c {} ?Q" for y by (cases y) (auto intro!: sound_return [OF k'] sound_raise [OF k'])
  let ?mark = "sect (mark_unsettled c cancelled running) (\<lambda>rs. look (\<lambda>clk _. clk_now clk < deadline) (\<lambda>in_time.
          if in_time then spawn_persists c rs (k (Inr ())) else k (Inr ())))"
  have "sound ?mark c {} ?Q"
  proof (rule sound_sect_at [OF Q, where H = "\<lambda>rs. set rs \<subseteq> set running" and G = "\<lambda>_ _. True"])
    fix rs assume rs: "set rs \<subseteq> set running"
    have persists: "sound (spawn_persists c rs (k (Inr ()))) c {} ?Q"
      by (rule sound_spawn_persists [OF c Q _ ret]) (use rs x in auto)
    have "sound (look (\<lambda>clk _. clk_now clk < deadline) (\<lambda>in_time.
        if in_time then spawn_persists c rs (k (Inr ())) else k (Inr ()))) c {} ?Q"
      by (rule sound_look_plain [OF Q], rule sound_if) (rule persists ret)+
    then show "sound (look (\<lambda>clk _. clk_now clk < deadline) (\<lambda>in_time.
        if in_time then spawn_persists c rs (k (Inr ())) else k (Inr ()))) c {} (\<lambda>v. ?Q v \<and> True)"
      by simp
  next
    fix v :: view
    show "mild c v (vw_manager v) (snd (mark_unsettled c cancelled running (vw_clock v) (vw_manager v)))" by simp
    show "set (fst (mark_unsettled c cancelled running (vw_clock v) (vw_manager v))) \<subseteq> set running \<and> True"
      by (auto simp: mark_unsettled_def unsettled_def)
  qed
  then have "sound (Await (\<lambda>clk m. if list_ex (\<lambda>r. task_active (mg_heap m r)) (running @ finalizing) \<and> clk_now clk < deadline then None else Some m)
       (\<lambda>_ _. ?mark) (k (Inl TaskCancelled))) c {} ?Q"
    by (intro sound_await [OF Q]) (auto split: if_splits simp: ret)
  then show "sound ((\<lambda>(running, finalizing). if running @ finalizing = [] then k (Inr ())
     else Await (\<lambda>clk m. if list_ex (\<lambda>r. task_active (mg_heap m r)) (running @ finalizing) \<and> clk_now clk < deadline then None else Some m)
       (\<lambda>_ _. sect (mark_unsettled c cancelled running) (\<lambda>rs. look (\<lambda>clk _. clk_now clk < deadline) (\<lambda>in_time.
          if in_time then spawn_persists c rs (k (Inr ())) else k (Inr ()))))
       (k (Inl TaskCancelled))) x) c {} ?Q"
    using ret by (auto simp: x)
qed

end
