(* ===== verification/ClusterProofs.thy ===== *)
theory ClusterProofs
  imports RunCluster ManagerLeases
begin

text \<open>
  Workers that share a run store: every method is sound, so every state that a cluster reaches satisfies the
  invariants of all its managers; what follows from them for leases, outcomes and fenced runs.
\<close>

section \<open>Every method is sound\<close>

lemma current_irrelevant [simp]:
  "clock_ok (c\<lparr>mc_current := x\<rparr>) = clock_ok c" "span (c\<lparr>mc_current := x\<rparr>) = span c" "grace_of (c\<lparr>mc_current := x\<rparr>) = grace_of c"
  "heartbeat_enabled (c\<lparr>mc_current := x\<rparr>) = heartbeat_enabled c" "config_ok (c\<lparr>mc_current := x\<rparr>) = config_ok c"
  by (simp_all add: fun_eq_iff clock_ok_def span_def grace_of_def heartbeat_enabled_def config_ok_def)

lemma current_irrelevant_ok [simp]: "manager_ok (c\<lparr>mc_current := x\<rparr>) = manager_ok c"
  by (simp add: fun_eq_iff manager_parts store_within_def record_ok_def operation_ok_def future_ok_def)

lemma current_irrelevant_facts [simp]:
  "fits (c\<lparr>mc_current := x\<rparr>) = fits c" "lasting (c\<lparr>mc_current := x\<rparr>) = lasting c"
  "store_moves (c\<lparr>mc_current := x\<rparr>) = store_moves c" "moves (c\<lparr>mc_current := x\<rparr>) = moves c"
  "yields (c\<lparr>mc_current := x\<rparr>) = yields c"
  by (simp_all add: fun_eq_iff fits_def lasting_def store_moves_def moves_def yields_def)

lemma good_current: "good p (c\<lparr>mc_current := x\<rparr>) R Q = good p c R Q"
proof (induction p arbitrary: R Q)
  case (Section f k)
  have "good (k clk m) (c\<lparr>mc_current := x\<rparr>) R Q = good (k clk m) c R Q" for clk m R Q by (rule Section) auto
  then show ?case by simp
next
  case (Await g k p)
  have "good (k clk m) (c\<lparr>mc_current := x\<rparr>) R Q = good (k clk m) c R Q" for clk m R Q by (rule Await(1)) auto
  then show ?case using Await(2) by simp
qed simp_all

lemma sound_current: "sound p (c\<lparr>mc_current := x\<rparr>) R P = sound p c R P"
  by (simp add: sound_def good_current)

definition owned :: "string option \<Rightarrow> resource set" where
  "owned new = NewRun ` set_option new"

definition starts :: "string option \<Rightarrow> view \<Rightarrow> bool" where
  "starts new v \<longleftrightarrow> (\<forall>i \<in> set_option new. row_of v i = None)"

lemma accepts_finish: "accepts c R P G (\<lambda>x. Finish (g x))"
  by (rule acceptsI) simp_all

lemma continues_finish: "continues c (\<lambda>x. Finish (g x))"
  by (simp add: continues_def)

lemma method_sound:
  assumes c: "config_ok c" and p: "entry c new p"
  shows "sound p c (owned new) (starts new)"
proof -
  note T = lasting_const [of c "{}" True]
  have U: "unlocked {}" "keyless {}" and N: "unlocked {NewRun i}" "NewRun i \<in> {NewRun i}" for i
    by (simp_all add: unlocked_def keyless_def)
  have none: "sound p c (owned None) (starts None)" if "sound p c {} (\<lambda>_. True)" for p
    using sound_weaken [OF that, of "starts None"] by (simp add: owned_def)
  have some: "sound p c (owned (Some i)) (starts (Some i))" if "sound p c {NewRun i} (thread_is i t)" for p i t
    using sound_weaken [OF that, of "starts (Some i)"] by (simp add: owned_def starts_def thread_is_def)
  note k = accepts_finish [of c "{}" "\<lambda>_. True"]
  from p show ?thesis
  proof cases
    case 1 then show ?thesis by (auto intro!: some sound_create [OF c N continues_finish])
  next
    case 2 then show ?thesis by (auto intro!: some sound_admit_thread_operation [OF c N continues_finish])
  next
    case 3 then show ?thesis by (auto intro!: some sound_reserve_enter [OF c N continues_finish])
  next
    case 4 then show ?thesis by (auto intro!: none sound_reserve_attach [OF T U(1) k])
  next
    case 5 then show ?thesis by (auto intro!: none sound_try_start [OF c T U(2) k])
  next
    case 6 then show ?thesis by (auto intro!: none sound_fail_start [OF c T U(1) k])
  next
    case 7 then show ?thesis by (auto intro!: none sound_set_status [OF c T U(1) k])
  next
    case 8 then show ?thesis by (auto intro!: none sound_persist_current_status [OF c T U(1) k])
  next
    case 9 then show ?thesis by (auto intro!: none sound_set_status_if_not_cancelled [OF c _ T U(1) k])
  next
    case 10 then show ?thesis by (auto intro!: none sound_set_finalizing [OF T U(1) k])
  next
    case 11 then show ?thesis by (auto intro!: none sound_wait_for_prior [OF T k])
  next
    case 12 then show ?thesis by (auto intro!: none sound_complete_run [OF c T U(1) k])
  next
    case 13 then show ?thesis by (auto intro!: none sound_write_progress [OF T U(1) k])
  next
    case 14 then show ?thesis by (auto intro!: none sound_set_model_name [OF T U(1) k])
  next
    case 15 then show ?thesis by (auto intro!: none sound_cancel [OF c T U(1) k])
  next
    case 16 then show ?thesis by (auto intro!: none sound_request_remote [OF T k])
  next
    case 17 then show ?thesis by (auto intro!: none sound_reconcile [OF c T k])
  next
    case 18 then show ?thesis by (auto intro!: none sound_cleanup [OF T U(1) k])
  next
    case 19 then show ?thesis by (auto intro!: none sound_owns_active [OF T U(1) k])
  next
    case 20 then show ?thesis by (auto intro!: none sound_renew_leases [OF T k])
  next
    case 21 then show ?thesis by (auto intro!: none sound_shutdown [OF c T k])
  next
    case 22 then show ?thesis by (auto intro!: none sound_get_run [OF T U(1) k])
  next
    case 23 then show ?thesis by (auto intro!: none sound_list_runs [OF T U(1) k])
  qed
qed

section \<open>The invariant of a cluster\<close>

definition sees :: "string set \<Rightarrow> cluster \<Rightarrow> string \<Rightarrow> view" where
  "sees N s w = \<lparr>vw_new = N, vw_clock = cl_clock s, vw_store = cl_store s, vw_manager = cl_manager s w\<rparr>"

lemma sees_simps [simp]:
  "vw_new (sees N s w) = N" "vw_clock (sees N s w) = cl_clock s" "vw_store (sees N s w) = cl_store s"
  "vw_manager (sees N s w) = cl_manager s w"
  by (simp_all add: sees_def)

abbreviation worker_of :: "cluster \<Rightarrow> nat \<Rightarrow> string" where
  "worker_of s n \<equiv> fst (cl_tasks s ! n)"

definition uniform :: "(string \<Rightarrow> manager_config) \<Rightarrow> bool" where
  "uniform cfg \<longleftrightarrow> (\<forall>w. mc_worker (cfg w) = w \<and> config_ok (cfg w)) \<and> (\<forall>w u. span (cfg w) = span (cfg u))"

definition task_ok :: "(string \<Rightarrow> manager_config) \<Rightarrow> string set \<Rightarrow> cluster \<Rightarrow> nat \<Rightarrow> resource set \<Rightarrow> (view \<Rightarrow> bool) \<Rightarrow> bool" where
  "task_ok cfg N s n R Q \<longleftrightarrow> (case cl_tasks s ! n of (w, p) \<Rightarrow>
     fits (cfg w) R (sees N s w) \<and> Q (sees N s w) \<and> lasting (cfg w) R Q \<and> good p (cfg w) R Q)"

definition apart :: "cluster \<Rightarrow> (nat \<Rightarrow> resource set) \<Rightarrow> nat \<Rightarrow> nat \<Rightarrow> bool" where
  "apart s Rs n m \<longleftrightarrow> (\<forall>i. NewRun i \<in> Rs n \<longrightarrow> NewRun i \<notin> Rs m) \<and> (worker_of s n = worker_of s m \<longrightarrow> Rs n \<inter> Rs m = {})"

definition cluster_inv ::
  "(string \<Rightarrow> manager_config) \<Rightarrow> string set \<Rightarrow> (nat \<Rightarrow> resource set) \<Rightarrow> (nat \<Rightarrow> view \<Rightarrow> bool) \<Rightarrow> cluster \<Rightarrow> bool" where
  "cluster_inv cfg N Rs Qs s \<longleftrightarrow> uniform cfg \<and> N \<subseteq> cl_used s
     \<and> (\<forall>i. od_get (st_runs (cl_store s)) i \<noteq> None \<longrightarrow> i \<in> cl_used s)
     \<and> (\<forall>w. manager_ok (cfg w) (sees N s w))
     \<and> (\<forall>n < length (cl_tasks s). task_ok cfg N s n (Rs n) (Qs n)
          \<and> (\<forall>key. Key key \<in> Rs n \<longrightarrow> key \<in> cl_locks s (worker_of s n))
          \<and> (\<forall>m < length (cl_tasks s). n \<noteq> m \<longrightarrow> apart s Rs n m))"

definition cluster_ok :: "(string \<Rightarrow> manager_config) \<Rightarrow> cluster \<Rightarrow> bool" where
  "cluster_ok cfg s \<longleftrightarrow> (\<exists>N Rs Qs. cluster_inv cfg N Rs Qs s)"

definition advances :: "(string \<Rightarrow> manager_config) \<Rightarrow> string set \<Rightarrow> cluster \<Rightarrow> cluster \<Rightarrow> bool" where
  "advances cfg N s s' \<longleftrightarrow> (\<exists>N' Rs Qs. cluster_inv cfg N' Rs Qs s' \<and> (\<forall>u. rely {} (sees N s u) (sees N' s' u)))"

lemma advancesI: "cluster_inv cfg N' Rs Qs s' \<Longrightarrow> (\<And>u. rely {} (sees N s u) (sees N' s' u)) \<Longrightarrow> advances cfg N s s'"
  unfolding advances_def by blast

lemma rely_refl [simp]: "rely R v v"
  by (simp add: rely_def)

lemma task_okD:
  assumes "task_ok cfg N s n R Q" "cl_tasks s ! n = (w, p)"
  shows "fits (cfg w) R (sees N s w)" "Q (sees N s w)" "lasting (cfg w) R Q" "good p (cfg w) R Q"
  using assms by (simp_all add: task_ok_def)

text \<open>A task that did not move keeps what it knows when the others kept to its rely condition.\<close>

lemma task_ok_rely:
  assumes t: "task_ok cfg N s n R Q" and same: "cl_tasks s' ! n = cl_tasks s ! n"
    and rel: "rely R (sees N s (worker_of s n)) (sees N' s' (worker_of s n))"
    and ok: "manager_ok (cfg (worker_of s n)) (sees N' s' (worker_of s n))" and new: "\<And>i. NewRun i \<in> R \<Longrightarrow> i \<in> N'"
  shows "task_ok cfg N' s' n R Q"
proof -
  obtain w p where wp: "cl_tasks s ! n = (w, p)" by (cases "cl_tasks s ! n")
  note t = task_okD [OF t wp] and rel = rel [unfolded wp fst_conv] and ok = ok [unfolded wp fst_conv]
  have "mg_next_future (cl_manager s w) \<le> mg_next_future (cl_manager s' w)"
    using rel by (simp add: rely_def manager_rely_def futures_rely_def)
  then have fits: "fits (cfg w) R (sees N' s' w)" using ok new t(1) by (auto simp: fits_def intro: less_le_trans)
  show ?thesis
    using fits lastingD [OF t(3,1) fits t(2) rel] t(3,4) by (simp add: task_ok_def same wp)
qed

lemma apart_same: "apart s Rs n m \<Longrightarrow> Rs' n = Rs n \<Longrightarrow> Rs' m = Rs m \<Longrightarrow> worker_of s' n = worker_of s n
    \<Longrightarrow> worker_of s' m = worker_of s m \<Longrightarrow> apart s' Rs' n m"
  by (simp add: apart_def)

text \<open>One task moves to a new program and new resources, the others keep theirs.\<close>

lemma cluster_moved:
  assumes inv: "cluster_inv cfg N Rs Qs s" and n: "runs_task s n w p"
    and tasks: "cl_tasks s' = (cl_tasks s)[n := (w, p')]" and used: "cl_used s' = cl_used s" and N': "N' \<subseteq> N"
    and store: "\<And>i. od_get (st_runs (cl_store s')) i \<noteq> None \<Longrightarrow> i \<in> cl_used s"
    and ok: "\<And>u. manager_ok (cfg u) (sees N' s' u)"
    and others: "\<And>m. m < length (cl_tasks s) \<Longrightarrow> m \<noteq> n \<Longrightarrow> apart s Rs m n
      \<Longrightarrow> rely (Rs m) (sees N s (worker_of s m)) (sees N' s' (worker_of s m)) \<and> (\<forall>i. NewRun i \<in> Rs m \<longrightarrow> i \<in> N \<longrightarrow> i \<in> N')"
    and new: "fits (cfg w) R' (sees N' s' w)" "Q' (sees N' s' w)" "lasting (cfg w) R' Q'" "good p' (cfg w) R' Q'"
    and locks: "\<And>key. Key key \<in> R' \<Longrightarrow> key \<in> cl_locks s' w"
      "\<And>m key. m < length (cl_tasks s) \<Longrightarrow> m \<noteq> n \<Longrightarrow> apart s Rs m n \<Longrightarrow> Key key \<in> Rs m \<Longrightarrow> key \<in> cl_locks s (worker_of s m)
        \<Longrightarrow> key \<in> cl_locks s' (worker_of s m)"
    and disjoint: "\<And>m. m < length (cl_tasks s) \<Longrightarrow> m \<noteq> n \<Longrightarrow> apart s Rs m n \<Longrightarrow> fits (cfg (worker_of s m)) (Rs m) (sees N s (worker_of s m))
      \<Longrightarrow> Key ` cl_locks s (worker_of s m) \<supseteq> Rs m \<inter> range Key
      \<Longrightarrow> (\<forall>i. NewRun i \<in> Rs m \<longrightarrow> NewRun i \<notin> R') \<and> (worker_of s m = w \<longrightarrow> Rs m \<inter> R' = {})"
  shows "cluster_inv cfg N' (Rs(n := R')) (Qs(n := Q')) s'"
proof -
  have n: "n < length (cl_tasks s)" "cl_tasks s ! n = (w, p)" using n by (simp_all add: runs_task_def)
  have len: "length (cl_tasks s') = length (cl_tasks s)" by (simp add: tasks)
  have other: "cl_tasks s' ! m = cl_tasks s ! m" if "m \<noteq> n" for m using that by (simp add: tasks)
  have self: "cl_tasks s' ! n = (w, p')" using n by (simp add: tasks)
  have old: "task_ok cfg N s m (Rs m) (Qs m)" "Key key \<in> Rs m \<Longrightarrow> key \<in> cl_locks s (worker_of s m)"
    if "m < length (cl_tasks s)" for m key using inv that by (simp_all add: cluster_inv_def)
  have ap: "apart s Rs m l" if "m < length (cl_tasks s)" "l < length (cl_tasks s)" "m \<noteq> l" for m l
    using inv that by (simp add: cluster_inv_def)
  have fit: "fits (cfg (worker_of s m)) (Rs m) (sees N s (worker_of s m))" if "m < length (cl_tasks s)" for m
    using task_okD(1) [OF old(1) [OF that], of "worker_of s m" "snd (cl_tasks s ! m)"] by simp
  have dis: "(\<forall>i. NewRun i \<in> Rs m \<longrightarrow> NewRun i \<notin> R') \<and> (worker_of s m = w \<longrightarrow> Rs m \<inter> R' = {})"
    if m: "m < length (cl_tasks s)" "m \<noteq> n" for m
    by (rule disjoint [OF m ap [OF m(1) n(1) m(2)] fit [OF m(1)]]) (use old(2) [OF m(1)] in auto)
  have "task_ok cfg N' s' m ((Rs(n := R')) m) ((Qs(n := Q')) m)" if m: "m < length (cl_tasks s)" for m
  proof (cases "m = n")
    case True
    then show ?thesis using new by (simp add: task_ok_def self)
  next
    case False
    note o = others [OF m False ap [OF m n(1) False]]
    have "i \<in> N" if "NewRun i \<in> Rs m" for i using fit [OF m] that by (simp add: fits_def)
    then have "task_ok cfg N' s' m (Rs m) (Qs m)"
      using o by (intro task_ok_rely [OF old(1) [OF m] other [OF False] _ ok]) blast+
    then show ?thesis using False by simp
  qed
  moreover have "key \<in> cl_locks s' (worker_of s' m)" if "m < length (cl_tasks s)" "Key key \<in> (Rs(n := R')) m" for m key
    using that locks self other old(2) ap [OF that(1) n(1)] by (cases "m = n") simp_all
  moreover have "apart s' (Rs(n := R')) m l" if m: "m < length (cl_tasks s)" "l < length (cl_tasks s)" "m \<noteq> l" for m l
  proof -
    consider "m = n" | "l = n" | "m \<noteq> n" "l \<noteq> n" by blast
    then show ?thesis
    proof cases
      case 1
      then show ?thesis using dis [OF m(2)] m(3) self other [of l] by (auto simp: apart_def)
    next
      case 2
      then show ?thesis using dis [OF m(1)] m(3) self other [of m] by (auto simp: apart_def)
    next
      case 3
      then show ?thesis by (intro apart_same [OF ap [OF m]]) (simp_all add: other)
    qed
  qed
  ultimately show ?thesis using inv ok store used N' by (auto simp: cluster_inv_def len)
qed

section \<open>The steps keep the invariant\<close>

lemma resume_simps [simp]:
  "cl_tasks (resume n p s) = (cl_tasks s)[n := (worker_of s n, p)]" "cl_clock (resume n p s) = cl_clock s"
  "cl_store (resume n p s) = cl_store s" "cl_used (resume n p s) = cl_used s" "cl_manager (resume n p s) = cl_manager s"
  "cl_locks (resume n p s) = cl_locks s"
  by (simp_all add: resume_def)

lemma put_simps [simp]:
  "cl_tasks (put_manager w m s) = cl_tasks s" "cl_clock (put_manager w m s) = cl_clock s" "cl_store (put_manager w m s) = cl_store s"
  "cl_used (put_manager w m s) = cl_used s" "cl_manager (put_manager w m s) = (cl_manager s)(w := m)"
  "cl_locks (put_manager w m s) = cl_locks s"
  "cl_tasks (put_locks w ks s) = cl_tasks s" "cl_clock (put_locks w ks s) = cl_clock s" "cl_store (put_locks w ks s) = cl_store s"
  "cl_used (put_locks w ks s) = cl_used s" "cl_manager (put_locks w ks s) = cl_manager s"
  "cl_locks (put_locks w ks s) = (cl_locks s)(w := ks)"
  by (simp_all add: put_manager_def put_locks_def)

lemma cluster_invD:
  assumes "cluster_inv cfg N Rs Qs s"
  shows "uniform cfg" "N \<subseteq> cl_used s" "od_get (st_runs (cl_store s)) i \<noteq> None \<Longrightarrow> i \<in> cl_used s" "manager_ok (cfg w) (sees N s w)"
    "n < length (cl_tasks s) \<Longrightarrow> task_ok cfg N s n (Rs n) (Qs n)"
  using assms unfolding cluster_inv_def by blast+

lemma runs_taskD:
  assumes "cluster_inv cfg N Rs Qs s" "runs_task s n w p"
  shows "n < length (cl_tasks s)" "cl_tasks s ! n = (w, p)" "worker_of s n = w"
    "fits (cfg w) (Rs n) (sees N s w)" "Qs n (sees N s w)" "lasting (cfg w) (Rs n) (Qs n)" "good p (cfg w) (Rs n) (Qs n)"
  using assms(2) task_okD [OF cluster_invD(5) [OF assms(1)]] by (simp_all add: runs_task_def)

lemma task_new: "cluster_inv cfg N Rs Qs s \<Longrightarrow> m < length (cl_tasks s) \<Longrightarrow> NewRun i \<in> Rs m \<Longrightarrow> i \<in> N"
  using runs_taskD(4) [of cfg N Rs Qs s m "worker_of s m" "snd (cl_tasks s ! m)"] by (simp add: runs_task_def fits_def)

lemma manager_moved:
  assumes inv: "cluster_inv cfg N Rs Qs s" and n: "runs_task s n w p"
    and mv: "moves (cfg w) (Rs n) R' (sees N s w) m'" and Q': "Q' (after_section (Rs n) R' m' (sees N s w))"
    and p': "lasting (cfg w) R' Q'" "good p' (cfg w) R' Q'"
  shows "advances cfg N s (resume n p' (put_manager w m' s))"
proof -
  let ?s = "resume n p' (put_manager w m' s)" and ?X = "{i. NewRun i \<in> Rs n \<and> NewRun i \<notin> R'}"
  note t = runs_taskD [OF inv n]
  have self: "sees (N - ?X) ?s w = after_section (Rs n) R' m' (sees N s w)" by (simp add: sees_def after_section_def)
  have drop: "sees (N - ?X) ?s w = (sees N s w)\<lparr>vw_manager := m', vw_new := vw_new (sees N s w) - ?X\<rparr>" by (simp add: sees_def)
  have other: "sees (N - ?X) ?s u = (sees N s u)\<lparr>vw_manager := vw_manager (sees N s u), vw_new := vw_new (sees N s u) - ?X\<rparr>"
    if "u \<noteq> w" for u using that by (simp add: sees_def)
  have "cluster_inv cfg (N - ?X) (Rs(n := R')) (Qs(n := Q')) ?s"
  proof (rule cluster_moved [OF inv n])
    show "manager_ok (cfg u) (sees (N - ?X) ?s u)" for u
    proof (cases "u = w")
      case True
      then show ?thesis using mv by (simp add: moves_def self fits_def)
    next
      case False
      have "sees (N - ?X) ?s u = (sees N s u)\<lparr>vw_new := vw_new (sees N s u) - ?X\<rparr>" using False by (simp add: sees_def)
      then show ?thesis using shrink_ok [OF cluster_invD(4) [OF inv]] by simp
    qed
    fix m assume m: "m < length (cl_tasks s)" "m \<noteq> n" "apart s Rs m n"
    have "rely (Rs m) (sees N s (worker_of s m)) (sees (N - ?X) ?s (worker_of s m))"
    proof (cases "worker_of s m = w")
      case True
      then have "Rs m \<inter> Rs n = {}" using m(3) t(3) by (simp add: apart_def)
      then have "manager_rely (Rs m) (vw_manager (sees N s w)) m'"
        using mv task_new [OF inv m(1)] by (simp add: moves_def guarantees_def)
      then show ?thesis unfolding True drop by (rule rely_drop)
    next
      case False
      show ?thesis unfolding other [OF False] by (rule rely_drop) simp
    qed
    moreover have "i \<in> N - ?X" if "NewRun i \<in> Rs m" "i \<in> N" for i using that m(3) by (auto simp: apart_def)
    ultimately show "rely (Rs m) (sees N s (worker_of s m)) (sees (N - ?X) ?s (worker_of s m))
        \<and> (\<forall>i. NewRun i \<in> Rs m \<longrightarrow> i \<in> N \<longrightarrow> i \<in> N - ?X)" by blast
    assume fit: "fits (cfg (worker_of s m)) (Rs m) (sees N s (worker_of s m))"
    have R': "R' \<subseteq> Rs n \<union> Future ` {mg_next_future (cl_manager s w) ..< mg_next_future m'}" using mv by (simp add: moves_def)
    have "NewRun i \<in> Rs m \<Longrightarrow> NewRun i \<notin> R'" for i using R' m(3) by (auto simp: apart_def)
    moreover have "Rs m \<inter> R' = {}" if "worker_of s m = w"
      using that R' m(3) t(3) fit by (fastforce simp: apart_def fits_def)
    ultimately show "(\<forall>i. NewRun i \<in> Rs m \<longrightarrow> NewRun i \<notin> R') \<and> (worker_of s m = w \<longrightarrow> Rs m \<inter> R' = {})" by blast
  next
    fix key assume "Key key \<in> R'"
    then have "Key key \<in> Rs n" using mv by (auto simp: moves_def)
    then show "key \<in> cl_locks ?s w" using inv t(1,3) by (auto simp: cluster_inv_def)
  qed (use mv Q' p' t(3) cluster_invD(3) [OF inv] in \<open>auto simp: moves_def self\<close>)
  moreover have "rely {} (sees N s u) (sees (N - ?X) ?s u)" for u
  proof (cases "u = w")
    case True
    have "manager_rely {} (vw_manager (sees N s w)) m'" using mv by (simp add: moves_def guarantees_def)
    then show ?thesis unfolding True drop by (rule rely_drop)
  next
    case False
    show ?thesis unfolding other [OF False] by (rule rely_drop) simp
  qed
  ultimately show ?thesis by (rule advancesI)
qed

lemma row_moves_sees: "row_moves x (sees N s u) st i \<Longrightarrow> row_moves x (sees N s w) st i"
  by (simp add: row_moves_def split: option.splits)

lemma store_movesD: "store_moves (cfg w) R (sees N s w) st \<Longrightarrow> uniform cfg \<Longrightarrow> NewRun i \<notin> R \<Longrightarrow> row_moves w (sees N s u) st i"
  unfolding store_moves_def uniform_def by (metis row_moves_sees)

text \<open>A call of another worker's store leaves a renewal in flight bounded.\<close>

lemma store_moved_ok:
  assumes inv: "cluster_inv cfg N Rs Qs s" and mv: "store_moves (cfg w) R (sees N s w) st"
    and R: "\<And>i. NewRun i \<in> R \<Longrightarrow> i \<in> N"
  shows "manager_ok (cfg u) ((sees N s u)\<lparr>vw_store := st\<rparr>)"
proof (cases "u = w")
  case True
  then show ?thesis using mv by (simp add: store_moves_def)
next
  case False
  have rows: "row_moves w (sees N s u) st i" if "i \<notin> N" for i
    by (rule store_movesD [OF mv cluster_invD(1) [OF inv]]) (use R that in blast)
  have ok: "manager_ok (cfg u) (sees N s u)" by (rule cluster_invD(4) [OF inv])
  have span: "span (cfg u) = span (cfg w)" using cluster_invD(1) [OF inv] by (simp only: uniform_def)
  show ?thesis
  proof (rule manager_ok_rely [OF ok])
    show "rows_rely {} (sees N s u) ((sees N s u)\<lparr>vw_store := st\<rparr>)" by (rule rows_rely_store) (use rows in auto)
    show "clock_ok (cfg u) (vw_clock ((sees N s u)\<lparr>vw_store := st\<rparr>))" using ok by (simp add: manager_ok_def)
    have "store_within (cfg w) ((sees N s w)\<lparr>vw_store := st\<rparr>)" using mv by (simp add: store_moves_def manager_ok_def)
    then show "store_within (cfg u) ((sees N s u)\<lparr>vw_store := st\<rparr>)"
      using span by (simp add: store_within_def)
    fix i f t
    assume op: "operation_ok (cfg u) (sees N s u) i (mg_futures (vw_manager (sees N s u)) f)" and b: "row_bound (mc_worker (cfg u)) i t (sees N s u)"
    have u: "mc_worker (cfg u) = u" using cluster_invD(1) [OF inv] by (simp add: uniform_def)
    have i: "i \<notin> N" "row_of (sees N s u) i \<noteq> None" using op by (simp_all add: operation_ok_def present_def)
    then obtain row row' where row: "row_of (sees N s u) i = Some row" "od_get (st_runs st) i = Some row'"
      "evolves w (cl_clock s) row row'"
      using rows [OF i(1)] by (auto simp: row_moves_def)
    show "row_bound (mc_worker (cfg u)) i t ((sees N s u)\<lparr>vw_store := st\<rparr>)"
      using row(3) unfolding evolves_def
    proof (elim disjE exE conjE)
      assume "keeps w (cl_clock s) row row'"
      then show ?thesis using row i op by (intro row_bound_keeps [OF b, where u = w]) (auto simp: operation_ok_def)
    next
      fix lease assume "renews w (cl_clock s) lease row row'"
      then show ?thesis using row False by (auto simp: row_bound_def renews_def u)
    qed
  qed simp
qed

lemma store_moved:
  assumes inv: "cluster_inv cfg N Rs Qs s" and n: "runs_task s n w p"
    and mv: "store_moves (cfg w) (Rs n) (sees N s w) st" and Q': "Q' ((sees N s w)\<lparr>vw_store := st\<rparr>)"
    and p': "lasting (cfg w) (Rs n) Q'" "good p' (cfg w) (Rs n) Q'"
  shows "advances cfg N s (resume n p' (s\<lparr>cl_store := st\<rparr>))"
proof -
  let ?s = "resume n p' (s\<lparr>cl_store := st\<rparr>)"
  note t = runs_taskD [OF inv n]
  have sees: "sees N ?s u = (sees N s u)\<lparr>vw_store := st\<rparr>" for u by (simp add: sees_def)
  have w: "mc_worker (cfg w) = w" using cluster_invD(1) [OF inv] by (simp add: uniform_def)
  have ok: "manager_ok (cfg u) (sees N ?s u)" for u
    unfolding sees by (rule store_moved_ok [OF inv mv]) (rule task_new [OF inv t(1)])
  have moves: "row_moves w (sees N s u) st i" if "NewRun i \<notin> Rs n" for i u
    by (rule store_movesD [OF mv cluster_invD(1) [OF inv] that])
  have "cluster_inv cfg N (Rs(n := Rs n)) (Qs(n := Q')) ?s"
  proof (rule cluster_moved [OF inv n _ _ _ _ ok])
    show "i \<in> cl_used s" if "od_get (st_runs (cl_store ?s)) i \<noteq> None" for i
    proof (cases "NewRun i \<in> Rs n")
      case True
      then show ?thesis using task_new [OF inv t(1)] cluster_invD(2) [OF inv] by blast
    next
      case False
      then have "od_get (st_runs (cl_store s)) i \<noteq> None" using moves [OF False, of w] that
        by (cases "od_get (st_runs (cl_store s)) i") (auto simp: row_moves_def)
      then show ?thesis by (rule cluster_invD(3) [OF inv])
    qed
    fix m assume m: "m < length (cl_tasks s)" "m \<noteq> n" "apart s Rs m n"
    have "rows_rely (Rs m) (sees N s u) ((sees N s u)\<lparr>vw_store := st\<rparr>)" for u
    proof (rule rows_rely_store [where u = w], rule moves)
      fix i assume "i \<notin> vw_new (sees N s u) \<or> NewRun i \<in> Rs m"
      then show "NewRun i \<notin> Rs n" using m(3) task_new [OF inv t(1)] by (auto simp: apart_def)
    qed
    then show "rely (Rs m) (sees N s (worker_of s m)) (sees N ?s (worker_of s m)) \<and> (\<forall>i. NewRun i \<in> Rs m \<longrightarrow> i \<in> N \<longrightarrow> i \<in> N)"
      by (simp add: sees rely_def)
    show "(\<forall>i. NewRun i \<in> Rs m \<longrightarrow> NewRun i \<notin> Rs n) \<and> (worker_of s m = w \<longrightarrow> Rs m \<inter> Rs n = {})"
      using m(3) t(3) by (simp add: apart_def)
  next
    show "fits (cfg w) (Rs n) (sees N ?s w)" using ok [of w] t(4) by (simp add: fits_def)
    show "key \<in> cl_locks ?s w" if "Key key \<in> Rs n" for key using that inv t(1,3) by (auto simp: cluster_inv_def)
  qed (use Q' p' t(3) in \<open>simp_all add: sees\<close>)
  moreover have "rely {} (sees N s u) (sees N ?s u)" for u
  proof -
    have "rows_rely {} (sees N s u) ((sees N s u)\<lparr>vw_store := st\<rparr>)"
      by (rule rows_rely_store [where u = w], rule moves) (use task_new [OF inv t(1)] in auto)
    then show ?thesis by (simp add: sees rely_def)
  qed
  ultimately show ?thesis by (rule advancesI)
qed

text \<open>Steps that change neither a manager nor the store: only a program, and the locks of its worker.\<close>

lemma quietly_moved:
  assumes inv: "cluster_inv cfg N Rs Qs s" and n: "runs_task s n w p"
    and y: "yields (cfg w) (Rs n) (Qs n) R' Q'" and p': "good p' (cfg w) R' Q'"
    and R': "\<And>x. x \<in> R' \<Longrightarrow> x \<in> Rs n \<or> (\<exists>key. x = Key key \<and> key \<notin> cl_locks s w)"
    and ks: "\<And>key. Key key \<in> R' \<Longrightarrow> key \<in> ks" "\<And>key. key \<in> cl_locks s w \<Longrightarrow> Key key \<notin> Rs n \<Longrightarrow> key \<in> ks"
  shows "cluster_inv cfg N (Rs(n := R')) (Qs(n := Q')) (resume n p' (put_locks w ks s))"
proof (rule cluster_moved [OF inv n])
  let ?s = "resume n p' (put_locks w ks s)"
  note t = runs_taskD [OF inv n]
  have sees: "sees N ?s u = sees N s u" for u by (simp add: sees_def)
  show "fits (cfg w) R' (sees N ?s w)" using t(4) R' unfolding sees by (fastforce simp: fits_def)
  show "Q' (sees N ?s w)" "lasting (cfg w) R' Q'" using y t(4,5) by (simp_all add: sees yields_def)
  show "manager_ok (cfg u) (sees N ?s u)" for u unfolding sees by (rule cluster_invD(4) [OF inv])
  show "key \<in> cl_locks ?s w" if "Key key \<in> R'" for key using ks(1) that by simp
  fix m assume m: "m < length (cl_tasks s)" "m \<noteq> n" "apart s Rs m n"
  show "rely (Rs m) (sees N s (worker_of s m)) (sees N ?s (worker_of s m)) \<and> (\<forall>i. NewRun i \<in> Rs m \<longrightarrow> i \<in> N \<longrightarrow> i \<in> N)"
    by (simp add: sees rely_def)
  show "key \<in> cl_locks ?s (worker_of s m)" if "Key key \<in> Rs m" "key \<in> cl_locks s (worker_of s m)" for key
  proof (cases "worker_of s m = w")
    case True
    then have "Key key \<notin> Rs n" using that(1) m(3) t(3) by (auto simp: apart_def)
    then show ?thesis using ks(2) that(2) True by simp
  qed (use that(2) in simp)
  assume l: "Rs m \<inter> range Key \<subseteq> Key ` cl_locks s (worker_of s m)"
  have "x \<notin> R'" if "worker_of s m = w" "x \<in> Rs m" for x
    using that R' [of x] l m(3) t(3) by (auto simp: apart_def)
  moreover have "NewRun i \<notin> R'" if "NewRun i \<in> Rs m" for i using that R' [of "NewRun i"] m(3) by (auto simp: apart_def)
  ultimately show "(\<forall>i. NewRun i \<in> Rs m \<longrightarrow> NewRun i \<notin> R') \<and> (worker_of s m = w \<longrightarrow> Rs m \<inter> R' = {})" by blast
qed (use runs_taskD(3) [OF inv n] cluster_invD(3) [OF inv] p' in simp_all)

lemma put_locks_same [simp]: "put_locks w (cl_locks s w) s = s"
  by (simp add: put_locks_def)

lemma went_on:
  assumes inv: "cluster_inv cfg N Rs Qs s" and n: "runs_task s n w p"
    and y: "yields (cfg w) (Rs n) (Qs n) (Rs n) Q'" and p': "good p' (cfg w) (Rs n) Q'"
  shows "advances cfg N s (resume n p' s)"
proof -
  have "cluster_inv cfg N (Rs(n := Rs n)) (Qs(n := Q')) (resume n p' (put_locks w (cl_locks s w) s))"
    by (rule quietly_moved [OF inv n y p']) (use inv runs_taskD(1,3) [OF inv n] in \<open>auto simp: cluster_inv_def\<close>)
  then show ?thesis unfolding put_locks_same by (rule advancesI) (simp add: sees_def launch_def)
qed

text \<open>A new task.\<close>

lemma launched:
  assumes inv: "cluster_inv cfg N Rs Qs s"
    and new: "fits (cfg w) F (sees N s w)" "Q (sees N s w)" "lasting (cfg w) F Q" "good p (cfg w) F Q"
    and F: "\<And>key. Key key \<notin> F" "\<And>m. m < length (cl_tasks s) \<Longrightarrow> (\<forall>i. NewRun i \<in> F \<longrightarrow> NewRun i \<notin> Rs m) \<and> (worker_of s m = w \<longrightarrow> Rs m \<inter> F = {})"
  shows "cluster_inv cfg N (Rs(length (cl_tasks s) := F)) (Qs(length (cl_tasks s) := Q)) (launch w p s)"
proof -
  let ?l = "length (cl_tasks s)" and ?s = "launch w p s"
  have sees: "sees N ?s u = sees N s u" for u by (simp add: sees_def launch_def)
  have s: "length (cl_tasks ?s) = Suc ?l" "cl_tasks ?s ! ?l = (w, p)" "cl_used ?s = cl_used s" "cl_store ?s = cl_store s"
    "cl_locks ?s = cl_locks s" by (simp_all add: launch_def)
  have old: "cl_tasks ?s ! m = cl_tasks s ! m" if "m < ?l" for m using that by (simp add: launch_def nth_append)
  have task: "task_ok cfg N ?s m ((Rs(?l := F)) m) ((Qs(?l := Q)) m)" if "m < Suc ?l" for m
  proof (cases "m = ?l")
    case True
    then show ?thesis using new by (simp add: task_ok_def s sees)
  next
    case False
    then show ?thesis using cluster_invD(5) [OF inv, of m] that old [of m] by (simp add: task_ok_def sees)
  qed
  have ap: "apart ?s (Rs(?l := F)) m k" if mk: "m < Suc ?l" "k < Suc ?l" "m \<noteq> k" for m k
  proof -
    consider "m = ?l" "k < ?l" | "k = ?l" "m < ?l" | "m < ?l" "k < ?l" using mk by linarith
    then show ?thesis
    proof cases
      case 1
      then show ?thesis using F(2) [of k] s(2) old [of k] by (auto simp: apart_def)
    next
      case 2
      then show ?thesis using F(2) [of m] s(2) old [of m] by (auto simp: apart_def)
    next
      case 3
      then have "apart s Rs m k" using inv mk(3) by (simp add: cluster_inv_def)
      then show ?thesis using 3 old by (simp add: apart_def)
    qed
  qed
  have lock: "key \<in> cl_locks ?s (worker_of ?s m)" if "m < Suc ?l" "Key key \<in> (Rs(?l := F)) m" for m key
  proof (cases "m = ?l")
    case False
    then show ?thesis using that old [of m] inv by (simp add: cluster_inv_def s)
  qed (use that F(1) in simp)
  show ?thesis using inv task ap lock by (simp add: cluster_inv_def s sees)
qed

lemma spawned_ok:
  assumes inv: "cluster_inv cfg N Rs Qs s" and n: "runs_task s n w (Spawn p q)"
  shows "advances cfg N s (launch w p (resume n q s))"
proof -
  note t = runs_taskD [OF inv n]
  obtain F P1 P2 where F: "F \<subseteq> Rs n \<inter> range Future" and P: "yields (cfg w) (Rs n) (Qs n) F P1" "good p (cfg w) F P1"
    "yields (cfg w) (Rs n) (Qs n) (Rs n - F) P2" "good q (cfg w) (Rs n - F) P2"
    using t(7) by auto
  let ?Rs = "Rs(n := Rs n - F)" and ?s = "resume n q (put_locks w (cl_locks s w) s)"
  have inv': "cluster_inv cfg N ?Rs (Qs(n := P2)) ?s"
    by (rule quietly_moved [OF inv n P(3,4)]) (use inv t(1,3) in \<open>auto simp: cluster_inv_def\<close>)
  have sees: "sees N ?s u = sees N s u" for u by (simp add: sees_def)
  have ap: "apart s Rs n m" if "m < length (cl_tasks s)" "m \<noteq> n" for m using inv that t(1) by (simp add: cluster_inv_def)
  have work: "worker_of ?s m = worker_of s m" for m
    by (cases "m = n") (use t in \<open>auto simp: nth_list_update\<close>)
  have "cluster_inv cfg N (?Rs(length (cl_tasks ?s) := F)) ((Qs(n := P2))(length (cl_tasks ?s) := P1)) (launch w p ?s)"
  proof (rule launched [OF inv'])
    show "fits (cfg w) F (sees N ?s w)" unfolding sees by (rule fits_mono [OF t(4)]) (use F in blast)
    show "P1 (sees N ?s w)" "lasting (cfg w) F P1" using P(1) t(4,5) unfolding sees by (simp_all add: yields_def)
    show "good p (cfg w) F P1" by (rule P(2))
    show "Key key \<notin> F" for key using F by blast
    fix m assume "m < length (cl_tasks ?s)"
    then have m: "m < length (cl_tasks s)" by simp
    have "NewRun i \<notin> F" for i using F by blast
    moreover have "?Rs m \<inter> F = {}" if "worker_of s m = w"
    proof (cases "m = n")
      case False
      then have "Rs n \<inter> Rs m = {}" using ap [OF m False] that t(3) by (simp add: apart_def)
      then show ?thesis using False F by auto
    qed auto
    ultimately show "(\<forall>i. NewRun i \<in> F \<longrightarrow> NewRun i \<notin> ?Rs m) \<and> (worker_of ?s m = w \<longrightarrow> ?Rs m \<inter> F = {})" by (simp only: work) blast
  qed
  then show ?thesis unfolding put_locks_same by (rule advancesI) (simp add: sees_def launch_def)
qed

text \<open>Steps without a task.\<close>

lemma around:
  assumes inv: "cluster_inv cfg N Rs Qs s" and same: "cl_tasks s' = cl_tasks s" "cl_locks s' = cl_locks s"
    and new: "N \<subseteq> N'" "N' \<subseteq> cl_used s'" "\<And>i. od_get (st_runs (cl_store s')) i \<noteq> None \<Longrightarrow> i \<in> cl_used s'"
    and ok: "\<And>u. manager_ok (cfg u) (sees N' s' u)"
    and rel: "\<And>R u. (\<forall>i. NewRun i \<in> R \<longrightarrow> i \<in> N) \<Longrightarrow> rely R (sees N s u) (sees N' s' u)"
  shows "cluster_inv cfg N' Rs Qs s'"
proof -
  have "task_ok cfg N' s' m (Rs m) (Qs m)" if m: "m < length (cl_tasks s)" for m
  proof (rule task_ok_rely [OF cluster_invD(5) [OF inv m] _ rel ok])
    show "\<forall>i. NewRun i \<in> Rs m \<longrightarrow> i \<in> N" using task_new [OF inv m] by blast
    then show "i \<in> N'" if "NewRun i \<in> Rs m" for i using that new(1) by blast
  qed (simp add: same)
  moreover have "apart s' Rs n m = apart s Rs n m" for n m by (simp add: apart_def same)
  ultimately show ?thesis using inv ok new by (simp add: cluster_inv_def same)
qed

lemma mildly_changed:
  assumes inv: "cluster_inv cfg N Rs Qs s" and mild: "mild (cfg w) (sees N s w) (cl_manager s w) m'"
  shows "advances cfg N s (put_manager w m' s)"
proof -
  have sees: "sees N (put_manager w m' s) u = (if u = w then (sees N s w)\<lparr>vw_manager := m'\<rparr> else sees N s u)" for u
    by (simp add: sees_def)
  have mild: "mild (cfg w) (sees N s w) (vw_manager (sees N s w)) m'" using mild by simp
  have rel: "rely R (sees N s u) (sees N (put_manager w m' s) u)" if "\<forall>i. NewRun i \<in> R \<longrightarrow> i \<in> N" for R u
  proof (cases "u = w")
    case True
    have "rows_rely R v (v\<lparr>vw_manager := m'\<rparr>)" for v by (simp add: rows_rely_def)
    then show ?thesis using mild_rely [OF mild] that True by (simp add: sees rely_def)
  qed (simp add: sees rely_def)
  have "cluster_inv cfg N Rs Qs (put_manager w m' s)"
  proof (rule around [OF inv])
    show "manager_ok (cfg u) (sees N (put_manager w m' s) u)" for u
      using mild_ok [OF cluster_invD(4) [OF inv] mild] cluster_invD(4) [OF inv] by (simp add: sees)
  qed (use cluster_invD(2,3) [OF inv] rel in simp_all)
  then show ?thesis by (rule advancesI) (simp add: rel)
qed

lemma ticked:
  assumes inv: "cluster_inv cfg N Rs Qs s" and clk: "clk_parse clk = clk_parse (cl_clock s)" "clk_now (cl_clock s) \<le> clk_now clk"
  shows "advances cfg N s (s\<lparr>cl_clock := clk\<rparr>)"
proof -
  let ?s = "s\<lparr>cl_clock := clk\<rparr>"
  have rows: "rows_rely R (sees N s u) (sees N ?s u)" for R u
    using clk by (simp add: rows_rely_def row_rely_def) (auto split: option.split intro: evolves_refl)
  have inst: "instant (sees N ?s u) = instant (sees N s u)" for u by (simp add: fun_eq_iff parse_lease_deadline_def clk)
  have "manager_ok (cfg u) (sees N ?s u)" for u
  proof (rule manager_ok_rely [OF cluster_invD(4) [OF inv] rows])
    have ok: "manager_ok (cfg u) (sees N s u)" by (rule cluster_invD(4) [OF inv])
    show "clock_ok (cfg u) (vw_clock (sees N ?s u))"
      using ok inst [of u] by (simp add: manager_ok_def clock_ok_def)
    show "store_within (cfg u) (sees N ?s u)"
      using ok clk(2) inst [of u] by (fastforce simp: manager_ok_def store_within_def)
    fix i t assume "row_bound (mc_worker (cfg u)) i t (sees N s u)"
    then show "row_bound (mc_worker (cfg u)) i t (sees N ?s u)"
      using clk(2) inst [of u] by (fastforce simp: row_bound_def)
  qed simp
  then have "cluster_inv cfg N Rs Qs ?s"
    by (intro around [OF inv]) (use cluster_invD(2,3) [OF inv] rows in \<open>simp_all add: rely_def\<close>)
  then show ?thesis by (rule advancesI) (use rows in \<open>simp add: rely_def\<close>)
qed

lemma started_ok:
  assumes inv: "cluster_inv cfg N Rs Qs s" and p: "entry ((cfg w)\<lparr>mc_current := current\<rparr>) new p"
    and fresh: "set_option new \<inter> cl_used s = {}"
  shows "advances cfg N s (launch w p (s\<lparr>cl_used := cl_used s \<union> set_option new\<rparr>))"
proof -
  let ?N = "N \<union> set_option new" and ?s = "s\<lparr>cl_used := cl_used s \<union> set_option new\<rparr>"
  have sees: "sees ?N ?s u = (sees N s u)\<lparr>vw_new := ?N\<rparr>" for u by (simp add: sees_def)
  have none: "row_of (sees N s u) i = None" if "i \<in> set_option new" for i u
    using that fresh cluster_invD(3) [OF inv] by force
  have rows: "rows_rely R (sees N s u) (sees ?N ?s u)" if "\<forall>i. NewRun i \<in> R \<longrightarrow> i \<in> N" for R u
    using none by (simp add: rows_rely_def row_rely_def sees) (auto split: option.split intro: evolves_refl)
  have ok: "manager_ok (cfg u) (sees ?N ?s u)" for u
    by (rule manager_ok_rely [OF cluster_invD(4) [OF inv] rows])
      (use cluster_invD(4) [OF inv, of u] in \<open>simp_all add: manager_ok_def store_within_def row_bound_def\<close>)
  have inv': "cluster_inv cfg ?N Rs Qs ?s"
    by (rule around [OF inv]) (use cluster_invD(2,3) [OF inv] rows ok in \<open>auto simp: rely_def\<close>)
  have c: "config_ok (cfg w)" using cluster_invD(1) [OF inv] by (simp add: uniform_def)
  have "sound p (cfg w) (owned new) (starts new)"
    using method_sound [OF _ p] c by (simp add: sound_current)
  moreover have fits: "fits (cfg w) (owned new) (sees ?N ?s w)" using ok [of w] by (auto simp: fits_def owned_def)
  moreover have "starts new (sees ?N ?s w)" using none [of _ w] by (simp add: starts_def)
  ultimately obtain Q where Q: "Q (sees ?N ?s w)" "lasting (cfg w) (owned new) Q" "good p (cfg w) (owned new) Q" by (rule soundE)
  have "NewRun i \<notin> Rs m" if "NewRun i \<in> owned new" "m < length (cl_tasks s)" for i m
    using that task_new [OF inv that(2)] cluster_invD(2) [OF inv] fresh by (auto simp: owned_def)
  then have "(\<forall>i. NewRun i \<in> owned new \<longrightarrow> NewRun i \<notin> Rs m) \<and> Rs m \<inter> owned new = {}" if "m < length (cl_tasks s)" for m
    using that by (auto simp: owned_def)
  then have "cluster_inv cfg ?N (Rs(length (cl_tasks ?s) := owned new)) (Qs(length (cl_tasks ?s) := Q)) (launch w p ?s)"
    by (intro launched [OF inv' fits Q]) (auto simp: owned_def)
  moreover have "sees ?N (launch w p ?s) u = sees ?N ?s u" for u by (simp add: sees_def launch_def)
  ultimately show ?thesis using rows [of "{}"] by (intro advancesI) (simp_all add: rely_def sees_def)
qed

lemma foreign_plain: "foreign g \<Longrightarrow> plain g"
  by (simp add: foreign_def plain_def)

lemma step_ok:
  assumes step: "cluster_step cfg a s s'" and inv: "cluster_inv cfg N Rs Qs s"
  shows "advances cfg N s s'"
proof -
  from step show ?thesis
  proof cases
    case (start w current new p)
    then show ?thesis using started_ok [OF inv] by blast
  next
    case (ran n w f k)
    note t = runs_taskD [OF inv ran(3)]
    obtain R' P where "moves (cfg w) (Rs n) R' (sees N s w) (f (cl_clock s) (cl_manager s w))"
      "P (after_section (Rs n) R' (f (cl_clock s) (cl_manager s w)) (sees N s w))" "lasting (cfg w) R' P"
      "good (k (cl_clock s) (cl_manager s w)) (cfg w) R' P"
      using t(4,5,7) by fastforce
    then show ?thesis unfolding ran(2) by (rule manager_moved [OF inv ran(3)])
  next
    case (answered n w f k x st)
    note t = runs_taskD [OF inv answered(3)]
    obtain P where "store_moves (cfg w) (Rs n) (sees N s w) st" "P ((sees N s w)\<lparr>vw_store := st\<rparr>)" "lasting (cfg w) (Rs n) P"
      "good (k (Answer x)) (cfg w) (Rs n) P"
      using t(4,5,7) answered(4) by fastforce
    then show ?thesis unfolding answered(2) by (rule store_moved [OF inv answered(3)])
  next
    case (lost n w f k x st b)
    note t = runs_taskD [OF inv lost(3)]
    obtain P0 where P0: "yields (cfg w) (Rs n) (Qs n) (Rs n) P0" "\<And>a. (\<forall>x. a \<noteq> Answer x) \<Longrightarrow> \<exists>P. yields (cfg w) (Rs n) P0 (Rs n) P \<and> good (k a) (cfg w) (Rs n) P"
      "store_moves (cfg w) (Rs n) (sees N s w) st" "P0 ((sees N s w)\<lparr>vw_store := st\<rparr>)"
      using t(4,5,7) lost(4) by fastforce
    obtain P where P: "yields (cfg w) (Rs n) P0 (Rs n) P" "good (k b) (cfg w) (Rs n) P" using P0(2) lost(5) by blast
    have "fits (cfg w) (Rs n) ((sees N s w)\<lparr>vw_store := st\<rparr>)" using P0(3) t(4) by (simp add: store_moves_def fits_def)
    then have "P ((sees N s w)\<lparr>vw_store := st\<rparr>)" "lasting (cfg w) (Rs n) P" using P(1) P0(4) by (simp_all add: yields_def)
    then show ?thesis unfolding lost(2) by (rule store_moved [OF inv lost(3) P0(3) _ _ P(2)])
  next
    case (failed n w f k b)
    note t = runs_taskD [OF inv failed(3)]
    obtain P0 where P0: "yields (cfg w) (Rs n) (Qs n) (Rs n) P0"
      "\<And>a. (\<forall>x. a \<noteq> Answer x) \<Longrightarrow> \<exists>P. yields (cfg w) (Rs n) P0 (Rs n) P \<and> good (k a) (cfg w) (Rs n) P"
      using t(7) unfolding good.simps by blast
    obtain P where "yields (cfg w) (Rs n) P0 (Rs n) P" "good (k b) (cfg w) (Rs n) P" using P0(2) failed(4) by blast
    note P = P0(1) this
    have "yields (cfg w) (Rs n) (Qs n) (Rs n) P" using P(1,2) by (simp add: yields_def)
    then show ?thesis unfolding failed(2) by (rule went_on [OF inv failed(3) _ P(3)])
  next
    case (ready n w g k p m)
    note t = runs_taskD [OF inv ready(3)]
    obtain R' P where "moves (cfg w) (Rs n) R' (sees N s w) m" "P (after_section (Rs n) R' m (sees N s w))" "lasting (cfg w) R' P"
      "good (k (cl_clock s) (cl_manager s w)) (cfg w) R' P"
      using t(4,5,7) ready(4) by fastforce
    then show ?thesis unfolding ready(2) by (rule manager_moved [OF inv ready(3)])
  next
    case (interrupted n w g k p)
    then show ?thesis using runs_taskD(7) [OF inv interrupted(3)] went_on [OF inv interrupted(3)] by auto
  next
    case (acquired n w key p q)
    note t = runs_taskD [OF inv acquired(3)]
    obtain P where P: "yields (cfg w) (Rs n) (Qs n) (insert (Key key) (Rs n)) P" "good p (cfg w) (insert (Key key) (Rs n)) P" using t(7) by auto
    have "cluster_inv cfg N (Rs(n := insert (Key key) (Rs n))) (Qs(n := P)) (resume n p (put_locks w (insert key (cl_locks s w)) s))"
      by (rule quietly_moved [OF inv acquired(3) P]) (use acquired(4) inv t(1,3) in \<open>auto simp: cluster_inv_def\<close>)
    then show ?thesis unfolding acquired(2) by (rule advancesI) (simp add: sees_def)
  next
    case (abandoned n w key p q)
    then show ?thesis using runs_taskD(7) [OF inv abandoned(3)] went_on [OF inv abandoned(3)] by auto
  next
    case (freed n w key p)
    note t = runs_taskD [OF inv freed(3)]
    obtain P where P: "yields (cfg w) (Rs n) (Qs n) (Rs n - {Key key}) P" "good p (cfg w) (Rs n - {Key key}) P" "Key key \<in> Rs n" using t(7) by auto
    have "cluster_inv cfg N (Rs(n := Rs n - {Key key})) (Qs(n := P)) (resume n p (put_locks w (cl_locks s w - {key}) s))"
      by (rule quietly_moved [OF inv freed(3) P(1,2)]) (use P(3) inv t(1,3) in \<open>auto simp: cluster_inv_def\<close>)
    then show ?thesis unfolding freed(2) by (rule advancesI) (simp add: sees_def)
  next
    case (spawned n w p q)
    then show ?thesis using spawned_ok [OF inv] by blast
  next
    case (timer w i r t)
    then show ?thesis using mildly_changed [OF inv mild_expired] by blast
  next
    case (outside g w r)
    then show ?thesis using mildly_changed [OF inv mild_plain [OF foreign_plain]] by blast
  next
    case (tick clk)
    then show ?thesis using ticked [OF inv] by blast
  qed
qed

lemma reachable_ok: "reachable cfg s \<Longrightarrow> cluster_ok cfg s"
proof (induction rule: reachable.induct)
  case (initial clk rc)
  then obtain lease where d: "0 \<le> lease" "\<And>w. mc_worker (cfg w) = w \<and> mc_store (cfg w) \<and> heartbeat_enabled (cfg w)
     \<and> 0 \<le> grace_of (cfg w) \<and> span (cfg w) = lease \<and> (\<forall>t. parse_lease_deadline clk (Some (mc_iso (cfg w) t)) = Some t)"
    by (auto simp: deployment_def)
  let ?s = "\<lparr>cl_clock = clk, cl_store = empty_store, cl_used = {}, cl_manager = (\<lambda>_. new_manager rc), cl_locks = (\<lambda>_. {}), cl_tasks = []\<rparr>"
  have "manager_ok (cfg w) (sees {} ?s w)" for w
    using d(2) [of w] store_ok_empty
    by (simp add: manager_parts clock_ok_def store_within_def future_ok_def new_manager_def) (simp add: empty_store_def)
  then have "cluster_inv cfg {} (\<lambda>_. {}) (\<lambda>_ _. True) ?s"
    using d by (simp add: cluster_inv_def uniform_def config_ok_def empty_store_def)
  then show ?case unfolding cluster_ok_def by blast
next
  case (later s a s')
  then show ?case using step_ok unfolding cluster_ok_def advances_def by meson
qed

section \<open>What holds in every reachable state\<close>

definition later :: "(string \<Rightarrow> manager_config) \<Rightarrow> cluster \<Rightarrow> cluster \<Rightarrow> bool" where
  "later cfg = (\<lambda>s s'. \<exists>a. cluster_step cfg a s s')\<^sup>*\<^sup>*"

lemma reachable_inv:
  assumes "reachable cfg s"
  obtains N Rs Qs where "cluster_inv cfg N Rs Qs s"
  using reachable_ok [OF assms] by (auto simp: cluster_ok_def)

lemma advancesE:
  assumes "cluster_step cfg a s s'" "cluster_inv cfg N Rs Qs s"
  obtains N' Rs' Qs' where "cluster_inv cfg N' Rs' Qs' s'" "\<And>u. rely {} (sees N s u) (sees N' s' u)"
  using step_ok [OF assms] unfolding advances_def by blast

lemma registered_record:
  assumes "cluster_inv cfg N Rs Qs s" "od_get (mg_runs (cl_manager s w)) i = Some r"
  shows "record_ok (cfg w) (sees N s w) i (mg_heap (cl_manager s w) r)" "mc_worker (cfg w) = w"
  using cluster_invD(4) [OF assms(1), of w] cluster_invD(1) [OF assms(1)] assms(2) by (simp_all add: manager_parts uniform_def)

lemma live_row:
  assumes inv: "cluster_inv cfg N Rs Qs s" and r: "od_get (mg_runs (cl_manager s w)) i = Some r"
    and t: "parse_lease_deadline (cl_clock s) (rc_lease (mg_heap (cl_manager s w) r)) = Some t" "clk_now (cl_clock s) \<le> t"
  shows "i \<notin> N \<and> (\<exists>row t'. od_get (st_runs (cl_store s)) i = Some row \<and> rr_owner_worker_id row = Some w
    \<and> lease_instant (cl_clock s) row = Some t' \<and> t \<le> t')"
  using registered_record [OF inv r] t by (simp add: record_ok_def leased_def present_def lease_instant_eq)

lemma step_rows:
  assumes step: "cluster_step cfg a s s'" and inv: "cluster_inv cfg N Rs Qs s"
    and i: "i \<notin> N" "od_get (st_runs (cl_store s)) i = Some row"
  shows "\<exists>row'. od_get (st_runs (cl_store s')) i = Some row' \<and> (row' = row \<or> (\<exists>u. a = Some u \<and> evolves u (cl_clock s) row row'))"
proof -
  have moved: "\<exists>row'. od_get (st_runs st) i = Some row' \<and> evolves w (cl_clock s) row row'"
    if n: "runs_task s n w (Ask f k)" and f: "f (cl_clock s) (cl_store s) = (x, st)" for n w f k x st
  proof -
    note t = runs_taskD [OF inv n]
    have mv: "store_moves (cfg w) (Rs n) (sees N s w) st" using t(4,5,7) f by fastforce
    have "NewRun i \<notin> Rs n" using task_new [OF inv t(1)] i(1) by blast
    from store_movesD [OF mv cluster_invD(1) [OF inv] this, of w] show ?thesis using i(2) by (simp add: row_moves_def)
  qed
  from step show ?thesis
  proof cases
    case (answered n w f k x st)
    then show ?thesis using moved [OF answered(3,4)] by auto
  next
    case (lost n w f k x st b)
    then show ?thesis using moved [OF lost(3,4)] by auto
  qed (simp_all add: i launch_def)
qed

text \<open>
  C1. A worker that believes it owns a run does own it: while the record of a manager shows a lease that has
  not run out, the store has the run's row, the row names that worker with a lease at least as
  long, and every takeover that any worker asks the store for at that moment is refused, so at most one
  worker acts on a run. This holds in every state that any number of workers reach over a shared store,
  whatever methods, heartbeats, retries, lost or failed calls, cancellations and timers interleave. The
  workers have leases of one length, distinct ids and dates that are read back as they were written; an
  id is admitted once; and \<^verbatim>\<open>record_assembly_evidence\<close> and the exit of a reservation, which replace or
  delete a row whoever owns it, are not called.
\<close>

theorem live_lease_is_backed:
  assumes "reachable cfg s" "od_get (mg_runs (cl_manager s w)) i = Some r"
    and "parse_lease_deadline (cl_clock s) (rc_lease (mg_heap (cl_manager s w) r)) = Some t" "clk_now (cl_clock s) \<le> t"
  shows "(\<exists>row t'. od_get (st_runs (cl_store s)) i = Some row \<and> live_owner (cl_clock s) row w
      \<and> lease_instant (cl_clock s) row = Some t' \<and> t \<le> t')
    \<and> claim_for_takeover (cl_clock s) i (grace_of (cfg u)) err sr (cl_store s) = (False, cl_store s)"
proof -
  obtain N Rs Qs where inv: "cluster_inv cfg N Rs Qs s" using assms(1) by (rule reachable_inv)
  obtain row t' where row: "od_get (st_runs (cl_store s)) i = Some row" "rr_owner_worker_id row = Some w"
    "lease_instant (cl_clock s) row = Some t'" "t \<le> t'" using live_row [OF inv assms(2-4)] by blast
  have "0 \<le> grace_of (cfg u)" using cluster_invD(1) [OF inv] by (simp add: uniform_def config_ok_def)
  moreover have "live_owner (cl_clock s) row w"
    using row(2-4) assms(4) by (cases "rr_lease_expires_at row")
      (auto simp: live_owner_def is_lease_expired_def lease_instant_def seconds_def)
  ultimately show ?thesis using row live_owner_not_expired by (auto simp: claim_for_takeover_def)
qed

text \<open>
  C2. A run whose owner holds a live lease is left alone by the other workers: no step of another worker or of
  the clock changes its status (other than from pending to running), error, stop reason, verdict or
  owner, nor its lease, and the row is there and names the owner. So a run is taken over only when its
  lease has run out. The workers, and what they do not do, are those of
  the property before.
\<close>

theorem peers_spare_live_runs:
  assumes "reachable cfg s" "cluster_step cfg a s s'" "a \<noteq> Some w"
    and "od_get (mg_runs (cl_manager s w)) i = Some r"
    and "parse_lease_deadline (cl_clock s) (rc_lease (mg_heap (cl_manager s w) r)) = Some t" "clk_now (cl_clock s) \<le> t"
  shows "\<exists>row row'. od_get (st_runs (cl_store s)) i = Some row \<and> od_get (st_runs (cl_store s')) i = Some row'
    \<and> rr_owner_worker_id row = Some w \<and> untouched row row' \<and> rr_lease_expires_at row' = rr_lease_expires_at row"
proof -
  obtain N Rs Qs where inv: "cluster_inv cfg N Rs Qs s" using assms(1) by (rule reachable_inv)
  obtain row t' where row: "i \<notin> N" "od_get (st_runs (cl_store s)) i = Some row" "rr_owner_worker_id row = Some w"
    "lease_instant (cl_clock s) row = Some t'" "t \<le> t'" using live_row [OF inv assms(4-6)] by blast
  have alive: "alive (cl_clock s) row" using row(4,5) assms(6) by (auto simp: alive_def)
  obtain row' where row': "od_get (st_runs (cl_store s')) i = Some row'"
    "row' = row \<or> (\<exists>u. a = Some u \<and> evolves u (cl_clock s) row row')" using step_rows [OF assms(2) inv row(1,2)] by blast
  have "untouched row row' \<and> rr_lease_expires_at row' = rr_lease_expires_at row"
    using row'(2) alive row(3) assms(3) by (auto simp: untouched_def evolves_def keeps_def renews_def)
  then show ?thesis using row(2,3) row'(1) by blast
qed

text \<open>
  C3. A terminal outcome that a manager counts as acknowledged is in the store, and stays there: the row of a
  registered run has the status of the acknowledged outcome, now and in every later state; only an
  interruption may still become an error, by the rollback of its owner or by a takeover. The workers, and what
  they do not do, are as before: leases of one length, ids admitted once, no unconditional write or deletion.
\<close>

theorem acknowledged_outcome_is_durable:
  assumes "reachable cfg s" "od_get (mg_runs (cl_manager s w)) i = Some r" "rc_proof (mg_heap (cl_manager s w) r) = Some p" "later cfg s s'"
  shows "\<exists>row. od_get (st_runs (cl_store s')) i = Some row
    \<and> (rr_status row = to_status p \<or> to_status p = ''interrupted'' \<and> rr_status row = ''error'')"
proof -
  obtain N Rs Qs where inv: "cluster_inv cfg N Rs Qs s" using assms(1) by (rule reachable_inv)
  have "acked i (to_status p) (sees N s w)" using registered_record(1) [OF inv assms(2)] assms(3) by (simp add: record_ok_def)
  with inv have "\<exists>N Rs Qs. cluster_inv cfg N Rs Qs s \<and> acked i (to_status p) (sees N s w)" by blast
  with assms(4) have "\<exists>N Rs Qs. cluster_inv cfg N Rs Qs s' \<and> acked i (to_status p) (sees N s' w)"
    unfolding later_def
  proof (induction rule: rtranclp_induct)
    case (step s1 s2)
    then obtain a N Rs Qs where "cluster_step cfg a s1 s2" "cluster_inv cfg N Rs Qs s1" "acked i (to_status p) (sees N s1 w)" by blast
    then show ?case by (metis advancesE acked_rely rely_rows)
  qed
  then show ?thesis by (auto simp: acked_def stored_as_def split: if_splits)
qed

text \<open>
  Fencing is final: once a manager has marked a record as lost to another worker, no later step clears the
  mark, acknowledges an outcome for the record or gives it another lease, although tasks that hold the
  record go on and their calls of the store may still succeed.
\<close>

theorem fenced_runs_stay_fenced:
  assumes "reachable cfg s" "r < mg_next (cl_manager s w)" "rc_lost (mg_heap (cl_manager s w) r)" "later cfg s s'"
  shows "rc_lost (mg_heap (cl_manager s' w) r) \<and> rc_proof (mg_heap (cl_manager s' w) r) = rc_proof (mg_heap (cl_manager s w) r)
    \<and> rc_lease (mg_heap (cl_manager s' w) r) = rc_lease (mg_heap (cl_manager s w) r)"
proof -
  obtain N Rs Qs where inv: "cluster_inv cfg N Rs Qs s" using assms(1) by (rule reachable_inv)
  let ?same = "\<lambda>s'. r < mg_next (cl_manager s' w) \<and> record_step (mg_heap (cl_manager s w) r) (mg_heap (cl_manager s' w) r)"
  from assms(4) have "\<exists>N Rs Qs. cluster_inv cfg N Rs Qs s' \<and> ?same s'"
    unfolding later_def
  proof (induction rule: rtranclp_induct)
    case base
    then show ?case using inv assms(2) by auto
  next
    case (step s1 s2)
    then obtain a N Rs Qs where st: "cluster_step cfg a s1 s2" "cluster_inv cfg N Rs Qs s1" "?same s1" by blast
    obtain N' Rs' Qs' where inv': "cluster_inv cfg N' Rs' Qs' s2" "rely {} (sees N s1 w) (sees N' s2 w)"
      using advancesE [OF st(1,2)] by metis
    have "records_rely {} (cl_manager s1 w) (cl_manager s2 w)" using inv'(2) by (simp add: rely_def manager_rely_def)
    then have "r < mg_next (cl_manager s2 w)" "record_step (mg_heap (cl_manager s1 w) r) (mg_heap (cl_manager s2 w) r)"
      using st(3) by (auto simp: records_rely_def)
    then show ?case using inv'(1) record_step_trans st(3) by blast
  qed
  then show ?thesis using assms(3) by (auto simp: record_step_def)
qed

end
