(* ===== verification/ClusterWitness.thy ===== *)
theory ClusterWitness
  imports ClusterProofs ManagerPages
begin

text \<open>
  A concrete deployment, stepped through by a scheduler, on which the theorems about clusters are applied.
\<close>

section \<open>Steps of the task that was started last\<close>

abbreviation at ::
  "(string \<times> mprog) list \<Rightarrow> string \<Rightarrow> mprog \<Rightarrow> clock \<Rightarrow> run_store \<Rightarrow> string set \<Rightarrow> (string \<Rightarrow> manager)
     \<Rightarrow> (string \<Rightarrow> lock_key set) \<Rightarrow> cluster" where
  "at ts w p clk st ids ms ls \<equiv> \<lparr>cl_clock = clk, cl_store = st, cl_used = ids, cl_manager = ms, cl_locks = ls, cl_tasks = ts @ [(w, p)]\<rparr>"

lemma at_runs: "runs_task (at ts w p clk st ids ms ls) (length ts) w p"
  by (simp add: runs_task_def)

lemma at_resume: "resume (length ts) q (at ts w p clk st ids ms ls) = at ts w q clk st ids ms ls"
  by (simp add: resume_def)

lemma at_section:
  assumes "reachable cfg (at ts w (Section f k) clk st ids ms ls)" "f clk (ms w) = m"
  shows "reachable cfg (at ts w (k clk (ms w)) clk st ids (ms(w := m)) ls)"
proof (rule reachable.later [OF assms(1)])
  show "cluster_step cfg (Some w) (at ts w (Section f k) clk st ids ms ls) (at ts w (k clk (ms w)) clk st ids (ms(w := m)) ls)"
    using cluster_step.ran [where cfg = cfg, OF at_runs [of clk st ids ms ls ts w "Section f k"]] assms(2) by (simp add: resume_def put_manager_def)
qed

lemma at_sect:
  assumes "reachable cfg (at ts w (sect f k) clk st ids ms ls)" "f clk (ms w) = (x, m)"
  shows "reachable cfg (at ts w (k x) clk st ids (ms(w := m)) ls)"
  using at_section [OF assms(1) [unfolded sect_def]] assms(2) by simp

lemma at_alter:
  assumes "reachable cfg (at ts w (alter f p) clk st ids ms ls)" "f clk (ms w) = m"
  shows "reachable cfg (at ts w p clk st ids (ms(w := m)) ls)"
  using at_section [OF assms(1) [unfolded alter_def]] assms(2) by simp

lemma at_look:
  assumes "reachable cfg (at ts w (look g k) clk st ids ms ls)" "g clk (ms w) = x"
  shows "reachable cfg (at ts w (k x) clk st ids ms ls)"
  using at_section [OF assms(1) [unfolded look_def]] assms(2) by simp

lemma answered_step:
  "f clk st = (a, st') \<Longrightarrow> cluster_step cfg (Some w) (at ts w (Ask f k) clk st ids ms ls) (at ts w (k (Answer a)) clk st' ids ms ls)"
  using cluster_step.answered [where cfg = cfg, OF at_runs [of clk st ids ms ls ts w "Ask f k"], of a st'] by (simp add: resume_def)

lemma at_call:
  assumes "reachable cfg (at ts w (call_store_with_retry c f k) clk st ids ms ls)" "f clk st = (a, st')" "\<not> threw a"
  shows "reachable cfg (at ts w (k (Inr a)) clk st' ids ms ls)"
proof -
  obtain g where g: "call_store_with_retry c f k = Ask f g" "g (Answer a) = k (Inr a)"
    using assms(3) by (cases "mc_max_attempts c - 1"; cases a) (auto simp: call_store_with_retry_def ask_def threw_def)
  have "cluster_step cfg (Some w) (at ts w (Ask f g) clk st ids ms ls) (at ts w (g (Answer a)) clk st' ids ms ls)"
    by (rule answered_step) (rule assms(2))
  then show ?thesis using reachable.later [OF assms(1)] by (simp add: g)
qed

lemma at_holding:
  assumes "reachable cfg (at ts w (holding key body k) clk st ids ms ls)" "key \<notin> ls w"
  shows "reachable cfg (at ts w (body (\<lambda>r. Free key (k r))) clk st ids ms (ls(w := insert key (ls w))))"
proof (rule reachable.later [OF assms(1)])
  show "cluster_step cfg (Some w) (at ts w (holding key body k) clk st ids ms ls)
      (at ts w (body (\<lambda>r. Free key (k r))) clk st ids ms (ls(w := insert key (ls w))))"
    using cluster_step.acquired [where cfg = cfg, OF at_runs [of clk st ids ms ls ts w "holding key body k", unfolded holding_def]] assms(2)
    by (simp add: resume_def put_locks_def holding_def)
qed

lemma at_free:
  assumes "reachable cfg (at ts w (Free key p) clk st ids ms ls)"
  shows "reachable cfg (at ts w p clk st ids ms (ls(w := ls w - {key})))"
proof (rule reachable.later [OF assms])
  show "cluster_step cfg (Some w) (at ts w (Free key p) clk st ids ms ls) (at ts w p clk st ids ms (ls(w := ls w - {key})))"
    using cluster_step.freed [where cfg = cfg, OF at_runs [of clk st ids ms ls ts w "Free key p"]] by (simp add: resume_def put_locks_def)
qed

lemma holding_all_none [simp]: "holding_all [] body = body"
  by (simp add: fun_eq_iff)

lemma at_registry:
  assumes "reachable cfg (at ts w (run_registry i f k) clk st ids ms ls)" "scope_threads i (ms w) = [t]" "AdmissionLock t \<notin> ls w"
    "f clk (ms w) = (x, m)"
  shows "reachable cfg (at ts w (k (Inr x)) clk st ids (ms(w := m)) ls)"
proof -
  have "reachable cfg (at ts w (holding (AdmissionLock t) (\<lambda>k. sect f (\<lambda>x. k (Inr x))) k) clk st ids ms ls)"
    using at_look [OF assms(1) [unfolded run_registry_def run_scope_def] assms(2)] by simp
  from at_free [OF at_sect [OF at_holding [OF this assms(3)] assms(4)]] show ?thesis using assms(3) by (simp add: fun_upd_idem)
qed

lemma at_terminal:
  assumes "reachable cfg (at ts w (terminal_operation c r outcome committed (call_store_with_retry c f) k) clk st ids ms ls)"
    "begin_terminal_attempt r (ms w) = (n, m)" "f clk st = (a, st')" "\<not> threw a" "committed (Inr a)"
  shows "reachable cfg (at ts w (k (Inr a)) clk st' ids
    (ms(w := end_terminal_attempt r n (acknowledge_terminal c r outcome (rc_revision (mg_heap (ms w) r)) clk m))) ls)"
proof -
  have "reachable cfg (at ts w (call_store_with_retry c f (\<lambda>a. alter (\<lambda>clk m. end_terminal_attempt r n
      (if committed a then acknowledge_terminal c r outcome (rc_revision (mg_heap (ms w) r)) clk m else m)) (k a))) clk st ids (ms(w := m)) ls)"
    using at_sect [OF assms(1) [unfolded terminal_operation_def], of "(n, rc_revision (mg_heap (ms w) r))" m] assms(2) by simp
  from at_alter [OF at_call [OF this assms(3,4)] refl] show ?thesis using assms(5) by simp
qed

lemma at_spawn:
  assumes "reachable cfg (at ts w (Spawn p q) clk st ids ms ls)"
  shows "reachable cfg (at (ts @ [(w, q)]) w p clk st ids ms ls)"
proof (rule reachable.later [OF assms])
  show "cluster_step cfg (Some w) (at ts w (Spawn p q) clk st ids ms ls) (at (ts @ [(w, q)]) w p clk st ids ms ls)"
    using cluster_step.spawned [where cfg = cfg, OF at_runs [of clk st ids ms ls ts w "Spawn p q"]] by (simp add: resume_def launch_def)
qed

lemma at_start:
  assumes "reachable cfg (at ts w p clk st ids ms ls)" "entry (cfg u) None q" "mc_current (cfg u) = None"
  shows "reachable cfg (at (ts @ [(w, p)]) u q clk st ids ms ls)"
proof (rule reachable.later [OF assms(1)])
  have "(cfg u)\<lparr>mc_current := None\<rparr> = cfg u" using assms(3) by (cases "cfg u") simp
  then show "cluster_step cfg (Some u) (at ts w p clk st ids ms ls) (at (ts @ [(w, p)]) u q clk st ids ms ls)"
    using cluster_step.start [where cfg = cfg and w = u and current = None and new = None and p = q and s = "at ts w p clk st ids ms ls"] assms(2) by (simp add: launch_def)
qed

section \<open>Two workers\<close>

text \<open>A date is written as the sign and the binary digits of its instant.\<close>

function bits :: "int \<Rightarrow> string" where
  "bits n = (if n \<le> 0 then [] else (if n mod 2 = 1 then CHR ''1'' else CHR ''0'') # bits (n div 2))"
  by pat_completeness auto

termination
  by (relation "measure nat") auto

declare bits.simps [simp del]

definition read_bits :: "string \<Rightarrow> int" where
  "read_bits s = foldr (\<lambda>x n. 2 * n + (if x = CHR ''1'' then 1 else 0)) s 0"

lemma read_bits: "0 \<le> n \<Longrightarrow> read_bits (bits n) = n"
proof (induction n rule: bits.induct)
  case (1 n)
  then show ?case
    by (subst bits.simps) (auto simp: read_bits_def, presburger+)
qed

definition stamp :: "int \<Rightarrow> string" where
  "stamp t = (if t < 0 then CHR ''-'' # bits (- t) else CHR ''+'' # bits t)"

definition read_stamp :: "string \<Rightarrow> int" where
  "read_stamp s = (case s of [] \<Rightarrow> 0 | x # xs \<Rightarrow> (if x = CHR ''-'' then - read_bits xs else read_bits xs))"

lemma read_stamp [simp]: "read_stamp (stamp t) = t"
  by (simp add: stamp_def read_stamp_def read_bits)

definition demo_clock :: "int \<Rightarrow> clock" where
  "demo_clock t = \<lparr>clk_now = t, clk_iso = stamp t, clk_parse = (\<lambda>s. Some \<lparr>dt_wall = read_stamp s, dt_offset = None\<rparr>),
     clk_unix = (\<lambda>_. None)\<rparr>"

definition demo_cfg :: "string \<Rightarrow> manager_config" where
  "demo_cfg w = \<lparr>mc_store = True, mc_worker = w,
     mc_ownership = Some \<lparr>ow_heartbeat = True, ow_lease_seconds = 30, ow_grace_seconds = 10\<rparr>,
     mc_max_attempts = 3, mc_iso = stamp, mc_current = None\<rparr>"

lemma demo_deployment: "deployment demo_cfg (demo_clock t)"
  by (auto simp: deployment_def demo_cfg_def demo_clock_def parse_lease_deadline_def as_utc_def span_def heartbeat_enabled_def
      grace_of_def seconds_def intro!: exI [of _ "30000000"])

definition blank_record :: run_record where
  "blank_record = fresh_record (demo_cfg ''w1'') (demo_clock 0) [] [] (default_args ''t'')"

definition idle_cluster :: cluster where
  "idle_cluster = \<lparr>cl_clock = demo_clock 0, cl_store = empty_store, cl_used = {}, cl_manager = (\<lambda>_. new_manager blank_record),
     cl_locks = (\<lambda>_. {}), cl_tasks = []\<rparr>"

text \<open>The first worker creates a run.\<close>

definition demo_record :: run_record where
  "demo_record = fresh_record (demo_cfg ''w1'') (demo_clock 0) ''r'' (stamp 30000000) (default_args ''t'')"

lemma demo_record [simp]:
  "rc_run_id demo_record = ''r''" "rc_thread_id demo_record = ''t''" "rc_owner demo_record = Some ''w1''"
  "rc_lease demo_record = Some (stamp 30000000)" "rc_lost demo_record = False" "rc_proof demo_record = None"
  "rc_status demo_record = ''pending''" "rc_store_only demo_record = False" "rc_task demo_record = None"
  "rc_rollback_pending demo_record = False" "rc_commit_pending demo_record = False" "rc_goal_cleanup demo_record = False"
  "rc_revision demo_record = 0"
  by (simp_all add: demo_record_def fresh_record_def default_args_def demo_cfg_def heartbeat_enabled_def)

lemma demo_lease: "lease_from (demo_cfg w) (demo_clock t) = stamp (t + 30000000)"
  by (simp add: lease_from_def demo_cfg_def demo_clock_def span_def seconds_def)

lemma demo_cfg [simp]:
  "mc_store (demo_cfg w)" "mc_worker (demo_cfg w) = w" "heartbeat_enabled (demo_cfg w)" "mc_current (demo_cfg w) = None"
  "mc_ownership (demo_cfg w) \<noteq> None"
  by (simp_all add: demo_cfg_def heartbeat_enabled_def)

lemma demo_clock [simp]:
  "clk_now (demo_clock t) = t" "clk_iso (demo_clock t) = stamp t" "parse_lease_deadline (demo_clock t) (Some (stamp u)) = Some u"
  by (simp_all add: demo_clock_def parse_lease_deadline_def as_utc_def)

definition registered_manager :: manager where
  "registered_manager = leave_pending ''t'' ''r'' (register 0 (enter_pending ''t'' ''r'' (snd (alloc demo_record (new_manager blank_record)))))"

lemma registered_manager [simp]:
  "mg_runs registered_manager = [(''r'', 0)]" "mg_heap registered_manager = (\<lambda>_. blank_record)(0 := demo_record)" "mg_next registered_manager = 1"
  "mg_pending registered_manager = []" "mg_by_thread registered_manager = [(''t'', [''r''])]" "mg_attempts registered_manager = (\<lambda>_. [])"
  "mg_deadlines registered_manager = (\<lambda>_. None)" "mg_operations registered_manager = (\<lambda>_. None)" "mg_checks registered_manager = (\<lambda>_. False)"
  "mg_next_future registered_manager = 0"
  by (simp_all add: registered_manager_def leave_pending_def register_def index_run_locked_def enter_pending_def alloc_def new_manager_def
      Let_def od_get_default_def)

definition demo_store :: run_store where
  "demo_store = put (demo_clock 0) ''r'' (store_put_payload demo_record None None) empty_store"

abbreviation nothing_more :: "'a \<Rightarrow> mprog" where
  "nothing_more \<equiv> (\<lambda>_. Finish (Inr Nothing))"

abbreviation managers :: "manager \<Rightarrow> string \<Rightarrow> manager" where
  "managers m \<equiv> (\<lambda>_. new_manager blank_record)(''w1'' := m)"

abbreviation unlocked_all :: "string \<Rightarrow> lock_key set" where
  "unlocked_all \<equiv> (\<lambda>_. {})"

lemma no_locks [simp]: "unlocked_all(w := {}) = unlocked_all"
  by (simp add: fun_eq_iff)

lemma demo_reachable: "reachable demo_cfg (at [] ''w1'' (Finish (Inr Nothing)) (demo_clock 0) demo_store {''r''} (managers registered_manager) unlocked_all)"
proof -
  let ?c = "demo_cfg ''w1''" and ?m0 = "\<lambda>_ :: string. new_manager blank_record"
  let ?start = "\<lparr>cl_clock = demo_clock 0, cl_store = empty_store, cl_used = {}, cl_manager = ?m0, cl_locks = unlocked_all, cl_tasks = []\<rparr>"
  have "reachable demo_cfg ?start" by (rule reachable.initial [OF demo_deployment])
  moreover have "entry (?c\<lparr>mc_current := None\<rparr>) (Some ''r'') (create (?c\<lparr>mc_current := None\<rparr>) ''r'' (default_args ''t'') (\<lambda>x. Finish ((\<lambda>_. Inr Nothing) x)))"
    by (rule entry.intros)
  then have "cluster_step demo_cfg (Some ''w1'') ?start (launch ''w1'' (create ?c ''r'' (default_args ''t'') nothing_more) (?start\<lparr>cl_used := {''r''}\<rparr>))"
    using cluster_step.start [where cfg = demo_cfg and w = "''w1''" and current = None and new = "Some ''r''" and s = ?start]
    by (simp add: demo_cfg_def)
  ultimately have "reachable demo_cfg (launch ''w1'' (create ?c ''r'' (default_args ''t'') nothing_more) (?start\<lparr>cl_used := {''r''}\<rparr>))"
    by (rule reachable.later)
  then have a: "reachable demo_cfg (at [] ''w1'' (create ?c ''r'' (default_args ''t'') nothing_more) (demo_clock 0) empty_store {''r''} ?m0 unlocked_all)"
    by (simp add: launch_def)
  have "(let (r, m') = alloc (fresh_record ?c (demo_clock 0) ''r'' (lease_from ?c (demo_clock 0)) (default_args ''t'')) (new_manager blank_record)
      in ((r, mg_heap m' r), m')) = ((0, demo_record), snd (alloc demo_record (new_manager blank_record)))"
    by (simp add: demo_lease demo_record_def alloc_def new_manager_def)
  from at_sect [OF a [unfolded create_def] this]
  have "reachable demo_cfg (at [] ''w1'' (admission_scope ''t'' ''r'' (\<lambda>k. persist_new_run_to_store ?c demo_record
      (ok_or k (\<lambda>_. alter (\<lambda>_. register 0) (k (Inr (0::nat)))))) nothing_more) (demo_clock 0) empty_store {''r''}
      (managers (snd (alloc demo_record (new_manager blank_record)))) unlocked_all)"
    by simp
  note c = at_holding [OF at_alter [OF this [unfolded admission_scope_def] refl]]
  let ?exit = "\<lambda>_ :: manager_error + nat. Free (AdmissionLock ''t'') (alter (\<lambda>_. leave_pending ''t'' ''r'') (Finish (Inr Nothing)))"
  let ?body = "ok_or ?exit (\<lambda>_ :: unit. alter (\<lambda>_. register 0) (?exit (Inr 0)))"
  have "reachable demo_cfg (at [] ''w1'' (call_store_with_retry ?c (do_put ''r'' (store_put_payload demo_record None None))
      (ok_or ?body (\<lambda>_. ?body (Inr ())))) (demo_clock 0) empty_store {''r''}
      (managers (enter_pending ''t'' ''r'' (snd (alloc demo_record (new_manager blank_record))))) (unlocked_all(''w1'' := {AdmissionLock ''t''})))"
    using c by (simp add: persist_new_run_to_store_def)
  from at_call [OF this, of Unit demo_store]
  have "reachable demo_cfg (at [] ''w1'' (alter (\<lambda>_. register 0) (?exit (Inr 0))) (demo_clock 0) demo_store {''r''}
      (managers (enter_pending ''t'' ''r'' (snd (alloc demo_record (new_manager blank_record))))) (unlocked_all(''w1'' := {AdmissionLock ''t''})))"
    by (simp add: do_put_def demo_store_def threw_def ok_or_def)
  from at_alter [OF at_free [OF at_alter [OF this refl]] refl] show ?thesis by (simp add: registered_manager_def)
qed

abbreviation demo :: cluster where
  "demo \<equiv> at [] ''w1'' (Finish (Inr Nothing)) (demo_clock 0) demo_store {''r''} (managers registered_manager) unlocked_all"

theorem live_lease_is_backed_witness:
  "od_get (mg_runs (cl_manager demo ''w1'')) ''r'' = Some 0
    \<and> claim_for_takeover (cl_clock demo) ''r'' (grace_of (demo_cfg ''w2'')) ''lost'' None (cl_store demo) = (False, cl_store demo)"
  using live_lease_is_backed [OF demo_reachable, of "''w1''" "''r''" 0 30000000 "''w2''" "''lost''" None] by simp

text \<open>A worker asks for the cancellation of the run of another one.\<close>

lemma demo_row: "od_get (st_runs demo_store) ''r'' = Some ((put_row (demo_clock 0) ''r'' (store_put_payload demo_record None None) None)\<lparr>rr_change_seq := 1\<rparr>)"
  by (simp add: demo_store_def get_put empty_store_def)

lemma demo_cancel:
  "do_request_cancel ''r'' ''interrupt'' (demo_clock 0) demo_store = (Won (Some ''interrupt''),
     snd (do_request_cancel ''r'' ''interrupt'' (demo_clock 0) demo_store))"
  by (simp add: do_request_cancel_def request_cancel_def demo_row put_row_def store_put_payload_def active_def Let_def)

definition asking :: cluster where
  "asking = at [(''w1'', Finish (Inr Nothing))] ''w2'' (request_remote_cancel (demo_cfg ''w2'') ''r'' ''interrupt'' nothing_more)
     (demo_clock 0) demo_store {''r''} (managers registered_manager) unlocked_all"

lemma reachable_asking: "reachable demo_cfg asking"
proof -
  have "entry (demo_cfg ''w2'') None (request_remote_cancel (demo_cfg ''w2'') ''r'' ''interrupt'' (\<lambda>x. Finish ((\<lambda>_. Inr Nothing) x)))"
    by (rule entry.intros)
  from at_start [OF demo_reachable this] show ?thesis by (simp add: asking_def)
qed

theorem peers_spare_live_runs_witness:
  "\<exists>s'. cluster_step demo_cfg (Some ''w2'') asking s'
    \<and> (\<exists>row row'. od_get (st_runs (cl_store asking)) ''r'' = Some row \<and> od_get (st_runs (cl_store s')) ''r'' = Some row'
      \<and> rr_owner_worker_id row = Some ''w1'' \<and> untouched row row' \<and> rr_lease_expires_at row' = rr_lease_expires_at row)"
proof -
  obtain f k where p: "request_remote_cancel (demo_cfg ''w2'') ''r'' ''interrupt'' nothing_more = Ask f k"
    "f = do_request_cancel ''r'' ''interrupt''"
    by (auto simp: request_remote_cancel_def request_durable_cancel_def call_store_with_retry_def demo_cfg_def numeral_eq_Suc)
  let ?s = "at [(''w1'', Finish (Inr Nothing))] ''w2'' (k (Answer (Won (Some ''interrupt'')))) (demo_clock 0)
    (snd (do_request_cancel ''r'' ''interrupt'' (demo_clock 0) demo_store)) {''r''} (managers registered_manager) unlocked_all"
  have step: "cluster_step demo_cfg (Some ''w2'') asking ?s"
    unfolding asking_def p by (rule answered_step) (rule demo_cancel)
  show ?thesis
    by (rule exI [of _ ?s], rule conjI [OF step], rule peers_spare_live_runs [OF reachable_asking step, of "''w1''" _ 0 30000000])
      (simp_all add: asking_def)
qed

text \<open>The owner finishes the run.\<close>

definition finishing :: terminal_outcome where
  "finishing = terminal_outcome_of demo_record (Some ''success'') None None None"

definition finished_manager :: manager where
  "finished_manager = end_terminal_attempt 0 0 (acknowledge_terminal (demo_cfg ''w1'') 0 finishing 0 (demo_clock 0)
     (snd (begin_terminal_attempt 0 registered_manager)))"

lemma finished_manager:
  "od_get (mg_runs finished_manager) ''r'' = Some 0" "rc_proof (mg_heap finished_manager 0) = Some finishing" "to_status finishing = ''success''"
  by (simp_all add: finished_manager_def end_terminal_attempt_def acknowledge_terminal_def begin_terminal_attempt_def registered_def modify_def
      acknowledged_def finishing_def terminal_outcome_of_def clear_lease_deadline_def Let_def)

lemma demo_finalize:
  "do_finalize ''r'' finishing (Some ''w1'') (demo_clock 0) demo_store
    = (Finalized \<lparr>sf_finalized = True, sf_cancel_action = None\<rparr>, snd (do_finalize ''r'' finishing (Some ''w1'') (demo_clock 0) demo_store))"
  by (simp add: do_finalize_def finalize_if_not_cancelled_def demo_row put_row_def store_put_payload_def active_def live_owner_def
      is_lease_expired_def demo_clock_def as_utc_def seconds_def Let_def)

definition finished :: "mprog \<Rightarrow> cluster" where
  "finished p = at [(''w1'', Finish (Inr Nothing))] ''w1'' p (demo_clock 0)
     (snd (do_finalize ''r'' finishing (Some ''w1'') (demo_clock 0) demo_store)) {''r''} (managers finished_manager) unlocked_all"

lemma demo_scope: "scope_threads ''r'' registered_manager = [''t'']"
  by (simp add: scope_threads_def od_get_default_def)

lemma demo_candidate: "finalize_candidate (demo_cfg ''w1'') ''r'' ''success'' None None None registered_manager = Some (0, finishing)"
  by (simp add: finalize_candidate_def has_terminal_ack_def finishing_def Let_def)

lemma finalizing_program:
  assumes "heartbeat_enabled c" "mc_store c"
  shows "\<exists>g. set_status_if_not_cancelled c i st None None None True nothing_more
    = run_registry i (\<lambda>_ m. (finalize_candidate c i st None None None m, m)) (ok_or (nothing_more :: string option cont) (\<lambda>found. case found of
          None \<Rightarrow> Finish (Inr Nothing)
        | Some (r, outcome) \<Rightarrow> terminal_operation c r outcome is_finalized
            (call_store_with_retry c (do_finalize i outcome (Some (mc_worker c)))) (g r)))"
proof -
  have n: "\<not> (\<not> True \<or> \<not> heartbeat_enabled c \<or> \<not> mc_store c)" using assms by simp
  show ?thesis unfolding set_status_if_not_cancelled_def if_not_P [OF n] by (rule exI, rule refl)
qed

lemma managers_idem [simp]: "(managers m)(''w1'' := n) = managers n"
  by simp

lemma reachable_finished: "\<exists>p. reachable demo_cfg (finished p)"
proof -
  let ?c = "demo_cfg ''w1''" and ?ts = "[(''w1'', Finish (Inr Nothing))]"
  have "entry ?c None (set_status_if_not_cancelled ?c ''r'' ''success'' None None None True (\<lambda>x. Finish ((\<lambda>_. Inr Nothing) x)))"
    by (rule entry.intros) (simp add: inflight_def)
  from at_start [OF demo_reachable this]
  have start: "reachable demo_cfg (at ?ts ''w1'' (set_status_if_not_cancelled ?c ''r'' ''success'' None None None True nothing_more)
      (demo_clock 0) demo_store {''r''} (managers registered_manager) unlocked_all)" by simp
  obtain g where program: "set_status_if_not_cancelled ?c ''r'' ''success'' None None None True nothing_more
      = run_registry ''r'' (\<lambda>_ m. (finalize_candidate ?c ''r'' ''success'' None None None m, m)) (ok_or (nothing_more :: string option cont) (\<lambda>found. case found of
            None \<Rightarrow> Finish (Inr Nothing)
          | Some (r, outcome) \<Rightarrow> terminal_operation ?c r outcome is_finalized
              (call_store_with_retry ?c (do_finalize ''r'' outcome (Some (mc_worker ?c)))) (g r)))"
    using finalizing_program [of ?c "''r''" "''success''"] by (meson demo_cfg)
  have "reachable demo_cfg (at ?ts ''w1'' (terminal_operation ?c 0 finishing is_finalized
      (call_store_with_retry ?c (do_finalize ''r'' finishing (Some (mc_worker ?c)))) (g 0))
      (demo_clock 0) demo_store {''r''} (managers registered_manager) unlocked_all)"
    using at_registry [OF start [unfolded program], of "''t''" "Some (0, finishing)" registered_manager] demo_scope demo_candidate
    by (simp add: ok_or_def)
  then have terminal: "reachable demo_cfg (at ?ts ''w1'' (terminal_operation ?c 0 finishing is_finalized
      (call_store_with_retry ?c (do_finalize ''r'' finishing (Some ''w1''))) (g 0))
      (demo_clock 0) demo_store {''r''} (managers registered_manager) unlocked_all)" unfolding demo_cfg(2) .
  have attempt: "begin_terminal_attempt 0 (managers registered_manager ''w1'') = (0, snd (begin_terminal_attempt 0 registered_manager))"
    by (simp add: begin_terminal_attempt_def Let_def)
  have "reachable demo_cfg (finished (g 0 (Inr (Finalized \<lparr>sf_finalized = True, sf_cancel_action = None\<rparr>))))"
    using at_terminal [OF terminal attempt demo_finalize] by (simp add: threw_def is_finalized_def finished_def finished_manager_def fun_upd_def cong: if_cong)
  then show ?thesis by blast
qed
theorem acknowledged_outcome_is_durable_witness:
  "\<exists>p row. rc_proof (mg_heap (cl_manager (finished p) ''w1'') 0) = Some finishing
    \<and> od_get (st_runs (cl_store (finished p))) ''r'' = Some row \<and> rr_status row = ''success''"
proof -
  obtain p where p: "reachable demo_cfg (finished p)" using reachable_finished by blast
  have "later demo_cfg (finished p) (finished p)" by (simp add: later_def)
  from acknowledged_outcome_is_durable [OF p _ _ this, of "''w1''" "''r''" 0 finishing] show ?thesis
    by (simp add: finished_def finished_manager) 
qed

text \<open>A heartbeat arms the timer of the lease, and no renewal comes through before it runs out.\<close>

definition armed_manager :: manager where
  "armed_manager = arm_lease_deadline (demo_cfg ''w1'') 0 (demo_clock 0) (snd (start_checks (demo_cfg ''w1'') registered_manager))"

definition fenced_manager :: manager where
  "fenced_manager = lease_expired (demo_cfg ''w1'') ''r'' 0 (demo_clock 30000000) armed_manager"

lemma start_checks_demo:
  "start_checks (demo_cfg ''w1'') registered_manager = (([(0, ''r'')], [(0, ''r'')]), registered_manager\<lparr>mg_checks := (\<lambda>i. i = ''r'')\<rparr>)"
  by (simp add: start_checks_def all_records_def renewable_def inflight_def Let_def fun_eq_iff)

lemma armed_manager:
  "mg_deadlines armed_manager ''r'' = Some (0, 30000000)" "mg_heap armed_manager = mg_heap registered_manager"
  "mg_runs armed_manager = mg_runs registered_manager" "mg_next armed_manager = 1"
  by (simp_all add: armed_manager_def start_checks_demo arm_lease_deadline_def clear_lease_deadline_def has_final_ack_def has_terminal_ack_def Let_def)

lemma fenced_manager: "rc_lost (mg_heap fenced_manager 0)" "mg_next fenced_manager = 1"
  by (simp_all add: fenced_manager_def lease_expired_def clear_lease_deadline_def armed_manager registered_def has_final_ack_def has_terminal_ack_def
      fence_local_record_def modify_def fenced_def Let_def)

definition fencing :: "mprog \<Rightarrow> int \<Rightarrow> cluster" where
  "fencing p t = at [(''w1'', Finish (Inr Nothing)), (''w1'', Finish (Inr Nothing))] ''w1'' p (demo_clock t) demo_store {''r''}
     (managers fenced_manager) unlocked_all"

lemma reachable_fencing: "\<exists>p. reachable demo_cfg (fencing p 30000000)"
proof -
  let ?c = "demo_cfg ''w1''" and ?ts = "[(''w1'', Finish (Inr Nothing))]"
  have "entry ?c None (renew_leases ?c False (\<lambda>x. Finish ((\<lambda>_. Inr Nothing) x)))" by (rule entry.intros)
  from at_start [OF demo_reachable this]
  have start: "reachable demo_cfg (at ?ts ''w1'' (renew_leases ?c False nothing_more) (demo_clock 0) demo_store {''r''} (managers registered_manager) unlocked_all)"
    by simp
  obtain q where q: "spawn_checks ?c [(0, ''r'')] (Finish (Inr Nothing)) = Spawn (alter (arm_lease_deadline ?c 0) q) (Finish (Inr Nothing))"
    by (simp add: renew_one_lease_def)
  have "renew_leases ?c False nothing_more = sect (\<lambda>_. start_checks ?c) (\<lambda>(all, new). spawn_checks ?c new (Finish (Inr Nothing)))"
    by (simp add: renew_leases_def)
  from at_sect [OF start [unfolded this]]
  have "reachable demo_cfg (at ?ts ''w1'' (spawn_checks ?c [(0, ''r'')] (Finish (Inr Nothing))) (demo_clock 0) demo_store {''r''}
      (managers (snd (start_checks ?c registered_manager))) unlocked_all)"
    by (simp add: start_checks_demo del: spawn_checks.simps)
  note this [unfolded q]
  from at_alter [OF at_spawn [OF this] refl]
  have armed: "reachable demo_cfg (at (?ts @ ?ts) ''w1'' q (demo_clock 0) demo_store {''r''} (managers armed_manager) unlocked_all)"
    by (simp add: armed_manager_def)
  have "cluster_step demo_cfg None (at (?ts @ ?ts) ''w1'' q (demo_clock 0) demo_store {''r''} (managers armed_manager) unlocked_all)
      (at (?ts @ ?ts) ''w1'' q (demo_clock 30000000) demo_store {''r''} (managers armed_manager) unlocked_all)"
    using cluster_step.tick [where cfg = demo_cfg and clk = "demo_clock 30000000"
      and s = "at (?ts @ ?ts) ''w1'' q (demo_clock 0) demo_store {''r''} (managers armed_manager) unlocked_all"]
    by (simp add: demo_clock_def)
  note late = reachable.later [OF armed this]
  have "cluster_step demo_cfg (Some ''w1'') (at (?ts @ ?ts) ''w1'' q (demo_clock 30000000) demo_store {''r''} (managers armed_manager) unlocked_all)
      (fencing q 30000000)"
    using cluster_step.timer [where cfg = demo_cfg and w = "''w1''" and i = "''r''" and r = 0 and t = 30000000
      and s = "at (?ts @ ?ts) ''w1'' q (demo_clock 30000000) demo_store {''r''} (managers armed_manager) unlocked_all"]
    by (simp add: armed_manager put_manager_def fencing_def fenced_manager_def)
  then show ?thesis using reachable.later [OF late] by blast
qed

theorem fenced_runs_stay_fenced_witness:
  "\<exists>p. rc_lost (mg_heap (cl_manager (fencing p 30000000) ''w1'') 0) \<and> rc_lost (mg_heap (cl_manager (fencing p 30000001) ''w1'') 0)"
proof -
  obtain p where p: "reachable demo_cfg (fencing p 30000000)" using reachable_fencing by blast
  have "cluster_step demo_cfg None (fencing p 30000000) (fencing p 30000001)"
    using cluster_step.tick [where cfg = demo_cfg and clk = "demo_clock 30000001" and s = "fencing p 30000000"]
    by (simp add: demo_clock_def fencing_def)
  then have "later demo_cfg (fencing p 30000000) (fencing p 30000001)" unfolding later_def by blast
  from fenced_runs_stay_fenced [OF p _ _ this, of 0 "''w1''"] show ?thesis
    by (simp add: fencing_def fenced_manager)
qed

section \<open>A page of runs\<close>

text \<open>A second run of the thread is known to the store only.\<close>

definition shared_store :: run_store where
  "shared_store = put (demo_clock 1) ''q'' (default_args ''t'') demo_store"

lemma shared_store_ok: "store_ok shared_store"
  unfolding shared_store_def demo_store_def by (intro inv_intros store_ok_empty)

lemma shared_row:
  assumes "od_get (st_runs shared_store) k = Some row"
  shows "(k = ''r'' \<or> k = ''q'') \<and> rr_run_id row = k \<and> rr_status row = ''pending'' \<and> rr_operation_kind row = ''run''"
proof -
  have "od_get (st_runs empty_store) j = None" for j by (simp add: empty_store_def)
  with assms show ?thesis
    by (auto simp: shared_store_def demo_store_def get_put put_row_def default_args_def store_put_payload_def demo_record_def
      fresh_record_def Let_def split: if_splits)
qed

lemma shared_rows:
  assumes "row \<in> set (stored_runs clk ''t'' None None None shared_store)"
  shows "readable row"
proof -
  obtain k where "od_get (st_runs shared_store) k = Some row"
    using assms by (auto simp: stored_runs_def thread_rows_def List.map_filter_def)
  from shared_row [OF this] show ?thesis
    by (auto simp: readable_def record_from_store_def RUN_STATUSES_def OPERATION_KINDS_def Let_def)
qed

lemma demo_registry_ok: "local_registry_ok registered_manager"
  by (simp add: local_registry_ok_def od_get_default_def)

lemma registered_members: "page_members clk ''t'' None None registered_manager = [demo_record]"
  by (simp add: page_members_def thread_records_locked_def od_get_default_def map_filter_simps run_is_before_cursor_def demo_record_def
      fresh_record_def default_args_def)

theorem run_page_is_exact_witness:
  "page_of (demo_clock 2) 1 (merge_rows [demo_record] (page_rows (demo_clock 2) ''t'' None 1 [demo_record] None None shared_store))
    = take 1 (sort_desc (record_key (demo_clock 2)) (merged [demo_record] (stored_runs (demo_clock 2) ''t'' None None None shared_store)))"
proof -
  have "\<forall>row \<in> set (stored_runs (demo_clock 2) ''t'' None None None shared_store). readable row"
    using shared_rows by blast
  from run_page_is_exact [OF shared_store_ok demo_registry_ok _ this, of 1] show ?thesis
    by (simp add: registered_members)
qed

end
