(* ===== verification/Spec2Isabelle.thy ===== *)
theory Spec2Isabelle
  imports ThreadState MessageChannel RunInputs EventStoreProofs StreamProofs Ownership KeyedLock
    LoginThrottle DanglingProofs TaskNotes LoopBounds CapacityProofs ContractProofs LeaseProofs AcquireSerialization ProgressProofs
    ManagerPages ClusterProofs ClusterWitness
begin

text \<open>
  A verification library of DeerFlow's backend (\<^verbatim>\<open>backend/packages/harness/deerflow\<close>, called
  \<^verbatim>\<open>deerflow\<close> below): the state an agent thread carries, the stores that keep runs, events and
  streams, the middlewares that guard the dialogue with the model, and the locks, leases and limits
  that serialize it all.

  \<^bold>\<open>The program and its parts.\<close> A client submits a run on a thread through the gateway. The run store
  admits it (at most one active run per thread), a worker claims and renews its lease, drives a
  graph of model and tool calls, and finalizes it. Each step's writes are folded into the thread
  state by reducers; each event goes to the event store and to a stream bridge from which clients
  read. Around every model call, middlewares repair the transcript, detect loops, and record
  receipts and task notes; a lead agent delegates to subagents through a bounded pool and reads
  their outcome from message metadata. Sandboxes are shared between instances through ownership
  leases; keyed locks serialize what needs one actor at a time.

  \<^bold>\<open>Theories and the code they model.\<close>
  \<^item> Prelude: Python values (\<open>pyval\<close>), insertion-ordered dictionaries (\<open>odict\<close>), slices, stable
    de-duplication, and the contract of keyset paging (locale \<open>keyset_feed\<close>).
  \<^item> ThreadState: the reducers of \<^verbatim>\<open>deerflow/agents/thread_state.py\<close>, each a function from the stored
    and the written value. Locales \<open>channel_reducer\<close> and \<open>idempotent_reducer\<close> state what the graph
    library needs of a reducer, and each reducer interprets one of them.
  \<^item> MessageChannel: \<^verbatim>\<open>merge_message_writes\<close> of the same file, the linear fold with two indices, and
    the reference that searches the plain list afresh for every message.
  \<^item> RunRow, RunStore, RunStoreProofs: \<^verbatim>\<open>runtime/runs/store/memory.py\<close> with the ordering and cursor
    helpers of \<^verbatim>\<open>store/base.py\<close> and the lease clock of \<^verbatim>\<open>utils/time.py\<close>. The state is the rows by id,
    the per-thread index and the change counter; every method is one function on it.
  \<^item> RunInputs: \<^verbatim>\<open>runtime/runs/inputs.py\<close>, whose operations are changes of the input state that the
    run store applies; the locale \<open>input_store\<close> is that contract and the run store interprets it.
  \<^item> EventStore, EventStoreProofs: \<^verbatim>\<open>runtime/events/store/memory.py\<close>, the paged lookup of
    \<^verbatim>\<open>store/base.py\<close>, and the identity of messages; the locale \<open>message_feed\<close> is the contract of
    the pages that the lookup reads.
  \<^item> StreamBridge, StreamProofs: \<^verbatim>\<open>runtime/stream_bridge/memory.py\<close>; a reader is a step function that
    polls one event at a time, so that publishers and readers interleave.
  \<^item> Ownership: \<^verbatim>\<open>community/aio_sandbox/ownership/memory.py\<close>.
  \<^item> KeyedLock: \<^verbatim>\<open>runtime/keyed_lock.py\<close>, both lock tables, with entries in a heap; the locale
    \<open>lock_table\<close> proves mutual exclusion and reclamation once for both.
  \<^item> LoginThrottle: \<^verbatim>\<open>persistence/login_throttle/\<close>.
  \<^item> ToolCalls, DanglingCalls, DanglingProofs: \<^verbatim>\<open>agents/middlewares/tool_call_metadata.py\<close> and
    \<^verbatim>\<open>dangling_tool_call_middleware.py\<close>, the repair of the transcript before a model call.
  \<^item> TaskNotes: \<^verbatim>\<open>agents/task_continuity/state.py\<close>.
  \<^item> LoopDetection, LoopProofs, LoopBounds: \<^verbatim>\<open>agents/middlewares/loop_detection_middleware.py\<close>.
  \<^item> Capacity, CapacityProofs: \<^verbatim>\<open>subagents/capacity.py\<close>, the process-wide pool of subagent slots.
  \<^item> Receipts, Citations, CitationProofs: \<^verbatim>\<open>agents/middlewares/tool_receipt.py\<close> and
    \<^verbatim>\<open>receipt_verification.py\<close>.
  \<^item> StatusContract, ContractProofs: \<^verbatim>\<open>subagents/status_contract.py\<close> and the acceptance verdicts it
    carries.
  \<^item> ToolProgress, ProgressProofs: \<^verbatim>\<open>agents/middlewares/tool_progress_middleware.py\<close>, the phases of tools
    that make no progress, against a specification over the history of results.
  \<^item> SandboxLease, LeaseProofs: \<^verbatim>\<open>sandbox/lease.py\<close>; its methods are sequences of critical sections and
    calls of the provider, run by any number of workers.
  \<^item> AcquireSerialization: \<^verbatim>\<open>sandbox/acquire_serialization.py\<close>, the handoff of a lock between a job, its
    task and its callback.
  \<^item> ManagerState, RunManager, RunLifecycle: \<^verbatim>\<open>runtime/runs/manager.py\<close>. ManagerState has the records, the
    registry and the timers of a manager and what its sections do to them. RunManager has the methods'
    building blocks as programs: a section of the event loop, a call of the store (that may fail before or
    after it took effect, or be cancelled), a wait, a lock, a new task. RunLifecycle has the methods:
    status changes, starting, completion, cancellation and takeover, admission and its compensation,
    lease renewal, recovery of orphans, shutdown and listings.
  \<^item> RunCluster: workers with one manager each over one run store, as a step relation.
  \<^item> ManagerRows, ManagerRely, ManagerSound, ManagerPersist, ManagerMethods, ManagerAdmission, ManagerLeases,
    ClusterProofs, ClusterWitness: a proof by rely and guarantee. ManagerRows says how store calls change a
    row; ManagerRely what a manager may rely on while others act; ManagerSound defines when a program is
    sound (it keeps the invariant and guarantees to others what it relies on from them) with one rule per
    building block; the next four show each method sound; ClusterProofs derives that every reachable state
    of a cluster satisfies the invariant, and the properties from it. ManagerPages proves the listing.
\<close>

text \<open>
  \<^bold>\<open>What the lemmas show.\<close>
  \<^item> Runs: the store's invariant under every call; a settled run is final; a run with a live lease
    belongs to one owner; a cancellation is never lost; admission leaves one active run; the change
    feed pages without gaps; accepted inputs are kept and bounded. An admission under the id of an existing
    row replaces that row, with its cancellation and its inputs; histories have a label of their own for
    it, and what it breaks excludes that label.
  \<^item> Workers: a lease that a manager believes to be live is backed by the store; other workers leave a run
    with such a lease alone; an outcome that was acknowledged is in the store and stays there; a record
    that was fenced stays fenced. These hold for workers with leases of one length, distinct ids, and dates
    that are read back as they are written (\<open>deployment\<close>); an id is admitted once (the gateway draws
    a new UUID for each admission); agent code does not touch the fields of a record that hold its
    ownership (\<open>foreign\<close>); and \<^verbatim>\<open>record_assembly_evidence\<close> and the exit of a reservation, which
    replace or delete a row whoever owns it, are modelled but not among the methods of a cluster.
  \<^item> Events and streams: the event store refines one log per thread, and pages are filters of it; the
    paged lookup ends and finds what is there; a stream keeps the newest events, a reader sees them
    without gap or repetition, and resuming from an event id is exact.
  \<^item> Thread state: terminal delegations stay terminal, the bounded channels keep what their comments
    promise, and the message fold equals its reference and does not depend on snapshots.
  \<^item> Dialogue: the repaired transcript answers every call exactly once, and repairing twice changes
    nothing; repetitions are cut off within the configured window, warnings survive failed model
    calls, a hard stop leaves no calls; task notes are canonical; citations and verdicts round-trip.
  \<^item> Tools: a tool is blocked and warned exactly as the history of its results demands.
  \<^item> Serialization: holds of a key exclude each other, teardown excludes reuse, slots are neither lost
    nor left idle and waiters are served in the order of arrival; failed logins lock out. A sandbox client
    that is parked or torn down has no holder, a client torn down between its lookup and its binding is
    never bound, and methods that end leave no reservation behind.

  \<^bold>\<open>How the code is rendered.\<close> State is passed explicitly and errors are values. A method that holds its
  lock, or never awaits, for its whole body is one atomic step; where the code awaits in the middle, the
  step is split there, and what others do meanwhile is a relation or a function on the state. Python
  dictionaries are association lists in insertion order without repeated keys; a dictionary entry that
  was changed in place is written back under its key. Clock readings are integer ticks or, in the run
  store, strings with their parsers as arguments. Characters are the 256 of HOL's \<^verbatim>\<open>char\<close>; classes of
  regular expressions are written out on them. JSON, hashing, UUIDs and prompts are arguments.

  \<^bold>\<open>Bounds and fuel.\<close> All recursion is structural or has a measure, except the paged lookup of the
  event store (fuel: one more than the number of messages, proved enough, since each page is not empty
  and moves the cursor) and the reader of a stream, which is a step relation. A manager's programs are
  finite trees: the code's loops over retries and admissions have the code's own bounds, and its polls are
  waits. Identifiers of receipts
  are bounded by the 4300 digits that \<^verbatim>\<open>int()\<close> accepts. Integers are unbounded, as in Python.

  \<^bold>\<open>Not modelled.\<close> The run worker drives graphs of a third-party library; it appears as the caller that
  starts the manager's methods in any order and as changes of records between them. Of the manager: the
  loops that start heartbeats and sweeps (their bodies are modelled), plain wrappers of listings, sealing
  of evidence, the publisher of terminal events and execution fences. The SQL and Redis backends are
  queries and scripts run by other systems; the in-memory backends with the same contracts are modelled.
  The forced teardown of sandboxes at shutdown bypasses the leases and is the provider's.
  The gateway, the channels, the community tools, the models and the frontend are input and output. Of
  the status contract, the parts that check a subagent's report against schemas of a library are left out.
\<close>

end
